(* ===== verification/Prelude.thy ===== *)
theory Prelude
  imports Main "HOL-Library.Word" "HOL-Library.Monad_Syntax"
begin

text \<open>
  Types, error values and combinators every component uses.

  \<^item> Machine integers are words of the width the C code declares (\<open>unsigned int\<close> is
    \<open>32 word\<close>, \<open>uint64_t\<close> is \<open>64 word\<close>); an address is a \<open>nat\<close> and a pointer an
    \<open>addr option\<close> with \<open>None\<close> for \<open>NULL\<close>.
  \<^item> A C function that returns \<open>0\<close> or a negative error code returns \<open>uv_errno + 'a\<close>:
    \<open>Inl e\<close> for the error, \<open>Inr\<close> for the value.  The error codes are those of
    \<open>UV_ERRNO_MAP\<close> in include/uv.h.
  \<^item> A step of the program that can crash (a failed \<open>assert\<close>, \<open>abort()\<close>, a \<open>NULL\<close>
    dereference) or fail to return has an \<open>option\<close> result: \<open>None\<close> is the crash or the
    divergence.  So a theorem that concludes \<open>= Some s\<close> says that no assertion fires and
    that the code returns.
\<close>

unbundle bit_operations_syntax

section \<open>Machine integers and pointers\<close>

type_synonym u8 = "8 word"
type_synonym u16 = "16 word"
type_synonym u32 = "32 word"
type_synonym u64 = "64 word"
type_synonym addr = nat
type_synonym ptr = "addr option"

section \<open>Error codes\<close>

text \<open>
  \<open>UV__ERR n\<close> is the code's \<open>UV__ERR(n)\<close>, the error code \<open>-n\<close>.  The names are those of
  \<open>UV_ERRNO_MAP\<close>; a code that stands for a system \<open>errno\<close> has the number of the Linux ABI
  (as on every Unix, include/uv/errno.h defines it from the system's own), \<open>UV_EOF\<close> and
  \<open>UV_ECHARSET\<close> the number include/uv/errno.h gives.  \<open>EWOULDBLOCK\<close> is \<open>EAGAIN\<close> there.
\<close>

datatype uv_errno = UV__ERR nat

abbreviation UV_E2BIG :: uv_errno where "UV_E2BIG \<equiv> UV__ERR 7"
abbreviation UV_EACCES :: uv_errno where "UV_EACCES \<equiv> UV__ERR 13"
abbreviation UV_EADDRINUSE :: uv_errno where "UV_EADDRINUSE \<equiv> UV__ERR 98"
abbreviation UV_EADDRNOTAVAIL :: uv_errno where "UV_EADDRNOTAVAIL \<equiv> UV__ERR 99"
abbreviation UV_EAFNOSUPPORT :: uv_errno where "UV_EAFNOSUPPORT \<equiv> UV__ERR 97"
abbreviation UV_EAGAIN :: uv_errno where "UV_EAGAIN \<equiv> UV__ERR 11"
abbreviation UV_EALREADY :: uv_errno where "UV_EALREADY \<equiv> UV__ERR 114"
abbreviation UV_EBADF :: uv_errno where "UV_EBADF \<equiv> UV__ERR 9"
abbreviation UV_EBUSY :: uv_errno where "UV_EBUSY \<equiv> UV__ERR 16"
abbreviation UV_ECANCELED :: uv_errno where "UV_ECANCELED \<equiv> UV__ERR 125"
abbreviation UV_ECHARSET :: uv_errno where "UV_ECHARSET \<equiv> UV__ERR 4080"
abbreviation UV_ECONNABORTED :: uv_errno where "UV_ECONNABORTED \<equiv> UV__ERR 103"
abbreviation UV_ECONNREFUSED :: uv_errno where "UV_ECONNREFUSED \<equiv> UV__ERR 111"
abbreviation UV_EDESTADDRREQ :: uv_errno where "UV_EDESTADDRREQ \<equiv> UV__ERR 89"
abbreviation UV_EEXIST :: uv_errno where "UV_EEXIST \<equiv> UV__ERR 17"
abbreviation UV_EINPROGRESS :: uv_errno where "UV_EINPROGRESS \<equiv> UV__ERR 115"
abbreviation UV_EINTR :: uv_errno where "UV_EINTR \<equiv> UV__ERR 4"
abbreviation UV_EINVAL :: uv_errno where "UV_EINVAL \<equiv> UV__ERR 22"
abbreviation UV_EIO :: uv_errno where "UV_EIO \<equiv> UV__ERR 5"
abbreviation UV_EISCONN :: uv_errno where "UV_EISCONN \<equiv> UV__ERR 106"
abbreviation UV_ELOOP :: uv_errno where "UV_ELOOP \<equiv> UV__ERR 40"
abbreviation UV_EMFILE :: uv_errno where "UV_EMFILE \<equiv> UV__ERR 24"
abbreviation UV_EMSGSIZE :: uv_errno where "UV_EMSGSIZE \<equiv> UV__ERR 90"
abbreviation UV_ENAMETOOLONG :: uv_errno where "UV_ENAMETOOLONG \<equiv> UV__ERR 36"
abbreviation UV_ENFILE :: uv_errno where "UV_ENFILE \<equiv> UV__ERR 23"
abbreviation UV_ENOBUFS :: uv_errno where "UV_ENOBUFS \<equiv> UV__ERR 105"
abbreviation UV_ENOENT :: uv_errno where "UV_ENOENT \<equiv> UV__ERR 2"
abbreviation UV_ENOMEM :: uv_errno where "UV_ENOMEM \<equiv> UV__ERR 12"
abbreviation UV_ENOSPC :: uv_errno where "UV_ENOSPC \<equiv> UV__ERR 28"
abbreviation UV_ENOSYS :: uv_errno where "UV_ENOSYS \<equiv> UV__ERR 38"
abbreviation UV_ENOTCONN :: uv_errno where "UV_ENOTCONN \<equiv> UV__ERR 107"
abbreviation UV_ENOTSOCK :: uv_errno where "UV_ENOTSOCK \<equiv> UV__ERR 88"
abbreviation UV_ENOTSUP :: uv_errno where "UV_ENOTSUP \<equiv> UV__ERR 95"
abbreviation UV_EPERM :: uv_errno where "UV_EPERM \<equiv> UV__ERR 1"
abbreviation UV_EPIPE :: uv_errno where "UV_EPIPE \<equiv> UV__ERR 32"
abbreviation UV_ERANGE :: uv_errno where "UV_ERANGE \<equiv> UV__ERR 34"
abbreviation UV_ESRCH :: uv_errno where "UV_ESRCH \<equiv> UV__ERR 3"
abbreviation UV_EOF :: uv_errno where "UV_EOF \<equiv> UV__ERR 4095"

section \<open>Named collections\<close>

named_theorems frame_simps \<open>what an operation leaves unchanged\<close>
named_theorems flag_simps \<open>tests and updates of handle flags\<close>

section \<open>Assertions and sequencing\<close>

definition uv_assert :: "bool \<Rightarrow> unit option" where
  "uv_assert b = (if b then Some () else None)"

lemma uv_assert_True [simp]: "uv_assert True = Some ()"
  by (simp add: uv_assert_def)

lemma uv_assert_False [simp]: "uv_assert False = None"
  by (simp add: uv_assert_def)

lemma uv_assert_eq_Some [simp]: "uv_assert b = Some u \<longleftrightarrow> b"
  by (simp add: uv_assert_def)

lemma bind_uv_assert [simp]: "b \<Longrightarrow> uv_assert b \<bind> f = f ()"
  by simp

lemma bind_uv_assert_eq_Some [simp]: "uv_assert b \<bind> f = Some x \<longleftrightarrow> b \<and> f () = Some x"
  by (cases b) auto

section \<open>Retry on EINTR\<close>

text \<open>
  The code's \<open>do r = f(); while (r == -1 && errno == EINTR)\<close>.  The system call \<open>f\<close> is a
  parameter of the model: it maps a state of the outside world to its result and the next state.
\<close>

partial_function (option) retry_eintr ::
  "('w \<Rightarrow> (uv_errno + 'a) \<times> 'w) \<Rightarrow> 'w \<Rightarrow> ((uv_errno + 'a) \<times> 'w) option" where
  "retry_eintr f w =
     (if fst (f w) = Inl UV_EINTR then retry_eintr f (snd (f w)) else Some (f w))"

text \<open>\<open>intr_at f w n\<close>: the next \<open>n\<close> attempts are interrupted and the one after is not.\<close>

fun intr_at :: "('w \<Rightarrow> (uv_errno + 'a) \<times> 'w) \<Rightarrow> 'w \<Rightarrow> nat \<Rightarrow> bool" where
  "intr_at f w 0 \<longleftrightarrow> fst (f w) \<noteq> Inl UV_EINTR"
| "intr_at f w (Suc n) \<longleftrightarrow> fst (f w) = Inl UV_EINTR \<and> intr_at f (snd (f w)) n"

lemma retry_eintr_returns:
  "intr_at f w n \<Longrightarrow> \<exists>r w'. retry_eintr f w = Some (r, w') \<and> r \<noteq> Inl UV_EINTR"
proof (induction n arbitrary: w)
  case 0
  then show ?case by (cases "f w") (simp add: retry_eintr.simps)
next
  case (Suc n)
  then show ?case by (simp add: retry_eintr.simps [of f w])
qed

lemma retry_eintr_not_intr:
  assumes "retry_eintr f w = Some (r, w')"
  shows "r \<noteq> Inl UV_EINTR"
proof -
  have "fst (r, w') \<noteq> Inl UV_EINTR"
  proof (rule retry_eintr.raw_induct [where P = "\<lambda>f w x. fst x \<noteq> Inl UV_EINTR", OF _ assms])
    fix g :: "('b \<Rightarrow> (uv_errno + 'a) \<times> 'b) \<Rightarrow> 'b \<Rightarrow> ((uv_errno + 'a) \<times> 'b) option"
    fix f :: "'b \<Rightarrow> (uv_errno + 'a) \<times> 'b" and w x
    assume IH: "\<And>f w x. g f w = Some x \<Longrightarrow> fst x \<noteq> Inl UV_EINTR"
      and eq: "(if fst (f w) = Inl UV_EINTR then g f (snd (f w)) else Some (f w)) = Some x"
    show "fst x \<noteq> Inl UV_EINTR"
      using IH eq by (auto split: if_splits)
  qed
  then show ?thesis by simp
qed

text \<open>What the interrupted attempts keep holds at the attempt that ends the loop.\<close>

lemma retry_eintr_last:
  assumes "intr_at f w n" and "\<And>w. fst (f w) = Inl UV_EINTR \<Longrightarrow> P w \<Longrightarrow> P (snd (f w))" and "P w"
  shows "\<exists>w0. retry_eintr f w = Some (f w0) \<and> P w0 \<and> fst (f w0) \<noteq> Inl UV_EINTR"
  using assms(1,3)
proof (induction n arbitrary: w)
  case 0
  then show ?case by (intro exI [of _ w]) (simp add: retry_eintr.simps [of f w])
next
  case (Suc n)
  then show ?case using assms(2) by (simp add: retry_eintr.simps [of f w])
qed

section \<open>Generic facts\<close>

lemma unat_word_half: "unat ((w :: u32) div 2) = unat w div 2"
  by (simp add: unat_div)

lemma word_half_less: "2 \<le> (w :: u32) \<Longrightarrow> unat (w div 2) < unat w"
  by (simp add: unat_div word_le_nat_alt)

lemma cons_eq_snoc: "x # xs = as @ [l] \<Longrightarrow> x # xs @ ys = as @ l # ys"
proof -
  assume "x # xs = as @ [l]"
  then have "(x # xs) @ ys = (as @ [l]) @ ys" by (rule arg_cong)
  then show ?thesis by simp
qed

lemma remove1_last_append: "x \<notin> set xs \<Longrightarrow> remove1 x (xs @ x # ys) = xs @ ys"
  by (simp add: remove1_append)

lemma half_iff: "(i :: nat) div 2 = k \<longleftrightarrow> i = 2 * k \<or> i = 2 * k + 1"
  by auto

lemma double_iff: "2 * k = (n :: nat) \<longleftrightarrow> k = n div 2 \<and> even n"
  by auto

lemma double_Suc_iff: "2 * k + 1 = (n :: nat) \<longleftrightarrow> k = n div 2 \<and> odd n"
  by (auto elim: oddE)

section \<open>Smearing the highest bit\<close>

lemma smear_bit:
  fixes v x :: u32
  assumes "\<And>n. bit v n \<longleftrightarrow> (\<exists>j. n \<le> j \<and> j < n + d \<and> bit x j)" and "e = d + d"
  shows "bit (v OR drop_bit d v) n \<longleftrightarrow> (\<exists>j. n \<le> j \<and> j < n + e \<and> bit x j)"
proof -
  have "bit (v OR drop_bit d v) n \<longleftrightarrow> bit v n \<or> bit v (n + d)"
    by (simp add: bit_or_iff bit_drop_bit_eq add.commute)
  also have "\<dots> \<longleftrightarrow> (\<exists>j. (n \<le> j \<and> j < n + d \<or> n + d \<le> j \<and> j < n + d + d) \<and> bit x j)"
    unfolding assms(1) by blast
  also have "(\<lambda>j. n \<le> j \<and> j < n + d \<or> n + d \<le> j \<and> j < n + d + d) = (\<lambda>j. n \<le> j \<and> j < n + e)"
    unfolding assms(2) by (intro ext) linarith
  finally show ?thesis unfolding assms(2) by (metis (no_types, lifting))
qed

lemma smear_mask:
  fixes x :: u32
  assumes "unat x < 2 ^ k" "k = 0 \<or> 2 ^ (k - 1) \<le> unat x"
  shows "(\<exists>j. n \<le> j \<and> j < n + 32 \<and> bit x j) \<longleftrightarrow> n < k"
proof
  assume "\<exists>j. n \<le> j \<and> j < n + 32 \<and> bit x j"
  then obtain j where j: "n \<le> j" "bit x j" by blast
  have "odd (unat x div 2 ^ j)" using j(2) by (simp add: bit_iff_odd [symmetric] bit_unsigned_iff)
  then have "2 ^ j \<le> unat x" by (metis div_less even_zero not_less)
  then have "(2 :: nat) ^ j < 2 ^ k" using assms(1) by (rule le_less_trans)
  then have "j < k" by (rule power_less_imp_less_exp [rotated]) simp
  then show "n < k" using j(1) by simp
next
  assume n: "n < k"
  then have k: "2 ^ k = 2 * (2 :: nat) ^ (k - 1)" "2 ^ (k - 1) \<le> unat x"
    using assms(2) by (auto simp: power_Suc [symmetric] simp del: power_Suc)
  have "unat x div 2 ^ (k - 1) = 1" using assms(1) k by (intro div_nat_eqI) auto
  then have "bit (unat x) (k - 1)" by (simp add: bit_iff_odd)
  then have b: "bit x (k - 1)" by (simp add: bit_unsigned_iff)
  then have "k - 1 < 32" using bit_imp_le_length [OF b] by simp
  then show "\<exists>j. n \<le> j \<and> j < n + 32 \<and> bit x j" using b n by (intro exI [of _ "k - 1"]) auto
qed

lemma power_bracket: "\<exists>k. (m :: nat) < 2 ^ k \<and> (k = 0 \<or> 2 ^ (k - 1) \<le> m)"
proof -
  obtain k where k: "m < 2 ^ k" "\<forall>i < k. \<not> m < 2 ^ i"
    using ex_least_nat_le [of "\<lambda>k. m < 2 ^ k" m, OF less_exp] by blast
  have "\<not> m < 2 ^ (k - 1)" if "k \<noteq> 0"
    by (rule k(2) [rule_format]) (use that in simp)
  then show ?thesis using k(1) by (intro exI [of _ k] conjI) (auto simp only: not_less)
qed

lemma smear_all:
  fixes x :: u32
  assumes "unat x < 2 ^ k" "k = 0 \<or> 2 ^ (k - 1) \<le> unat x"
    and "a = x OR drop_bit 1 x" "b = a OR drop_bit 2 a" "c = b OR drop_bit 4 b"
    and "d = c OR drop_bit 8 c" "e = d OR drop_bit 16 d"
  shows "e = mask k"
proof (intro bit_eqI)
  have 0: "bit x n \<longleftrightarrow> (\<exists>j. n \<le> j \<and> j < n + 1 \<and> bit x j)" for n
    by (metis add.commute le_antisym le_refl less_add_one less_Suc_eq_le plus_1_eq_Suc)
  have 1: "bit a n \<longleftrightarrow> (\<exists>j. n \<le> j \<and> j < n + 2 \<and> bit x j)" for n
    unfolding assms(3) by (rule smear_bit [OF 0]) simp
  have 2: "bit b n \<longleftrightarrow> (\<exists>j. n \<le> j \<and> j < n + 4 \<and> bit x j)" for n
    unfolding assms(4) by (rule smear_bit [OF 1]) simp
  have 3: "bit c n \<longleftrightarrow> (\<exists>j. n \<le> j \<and> j < n + 8 \<and> bit x j)" for n
    unfolding assms(5) by (rule smear_bit [OF 2]) simp
  have 4: "bit d n \<longleftrightarrow> (\<exists>j. n \<le> j \<and> j < n + 16 \<and> bit x j)" for n
    unfolding assms(6) by (rule smear_bit [OF 3]) simp
  have 5: "bit e n \<longleftrightarrow> (\<exists>j. n \<le> j \<and> j < n + 32 \<and> bit x j)" for n
    unfolding assms(7) by (rule smear_bit [OF 4]) simp
  show "bit e n \<longleftrightarrow> bit (mask k :: u32) n" if "possible_bit TYPE(32 word) n" for n
    using that unfolding 5 smear_mask [OF assms(1,2)] by (simp add: bit_mask_iff)
qed

lemma unat_p2: "k \<le> 31 \<Longrightarrow> unat ((2 :: u32) ^ k) = 2 ^ k"
proof -
  assume "k \<le> 31"
  then have "(2 :: nat) ^ k \<le> 2 ^ 31" by (intro power_increasing) auto
  moreover have "unat (of_nat n :: u32) = n" if "n \<le> 2 ^ 31" for n
    using that by (simp add: unat_of_nat)
  ultimately show ?thesis by (metis of_nat_numeral of_nat_power)
qed

end
