(* ===== verification/Queue.thy ===== *)
theory Queue
  imports Prelude
begin

text \<open>
  queue.h: the intrusive circular doubly linked lists.  A \<open>QUEUE\<close> is a pair of pointers
  embedded in an object; \<open>'q\<close> is the type of the addresses of such pairs, and a store holds the
  two pointers of every address.  Each macro is a function on the store, one assignment per
  \<open>let\<close>, in the order of the macro.  The lemmas relate a store to the lists it holds
  (\<open>queue_at\<close>) and give the interface \<open>queue_store\<close>: a family of disjoint lists, each with a
  head, on which the macros are the usual list operations.
\<close>

section \<open>The macros\<close>

record 'q qstore =
  QUEUE_NEXT :: "'q \<Rightarrow> 'q"
  QUEUE_PREV :: "'q \<Rightarrow> 'q"

definition set_next :: "'q \<Rightarrow> 'q \<Rightarrow> 'q qstore \<Rightarrow> 'q qstore" where
  "set_next q v s = s\<lparr>QUEUE_NEXT := (QUEUE_NEXT s)(q := v)\<rparr>"

definition set_prev :: "'q \<Rightarrow> 'q \<Rightarrow> 'q qstore \<Rightarrow> 'q qstore" where
  "set_prev q v s = s\<lparr>QUEUE_PREV := (QUEUE_PREV s)(q := v)\<rparr>"

definition QUEUE_EMPTY :: "'q qstore \<Rightarrow> 'q \<Rightarrow> bool" where
  "QUEUE_EMPTY s q \<longleftrightarrow> q = QUEUE_NEXT s q"

definition QUEUE_HEAD :: "'q qstore \<Rightarrow> 'q \<Rightarrow> 'q" where
  "QUEUE_HEAD s q = QUEUE_NEXT s q"

definition QUEUE_INIT :: "'q \<Rightarrow> 'q qstore \<Rightarrow> 'q qstore" where
  "QUEUE_INIT q s =
     (let s = set_next q q s;
          s = set_prev q q s
      in s)"

definition QUEUE_ADD :: "'q \<Rightarrow> 'q \<Rightarrow> 'q qstore \<Rightarrow> 'q qstore" where
  "QUEUE_ADD h n s =
     (let s = set_next (QUEUE_PREV s h) (QUEUE_NEXT s n) s;
          s = set_prev (QUEUE_NEXT s n) (QUEUE_PREV s h) s;
          s = set_prev h (QUEUE_PREV s n) s;
          s = set_next (QUEUE_PREV s h) h s
      in s)"

definition QUEUE_SPLIT :: "'q \<Rightarrow> 'q \<Rightarrow> 'q \<Rightarrow> 'q qstore \<Rightarrow> 'q qstore" where
  "QUEUE_SPLIT h q n s =
     (let s = set_prev n (QUEUE_PREV s h) s;
          s = set_next (QUEUE_PREV s n) n s;
          s = set_next n q s;
          s = set_prev h (QUEUE_PREV s q) s;
          s = set_next (QUEUE_PREV s h) h s;
          s = set_prev q n s
      in s)"

definition QUEUE_MOVE :: "'q \<Rightarrow> 'q \<Rightarrow> 'q qstore \<Rightarrow> 'q qstore" where
  "QUEUE_MOVE h n s =
     (if QUEUE_EMPTY s h then QUEUE_INIT n s
      else QUEUE_SPLIT h (QUEUE_HEAD s h) n s)"

definition QUEUE_INSERT_HEAD :: "'q \<Rightarrow> 'q \<Rightarrow> 'q qstore \<Rightarrow> 'q qstore" where
  "QUEUE_INSERT_HEAD h q s =
     (let s = set_next q (QUEUE_NEXT s h) s;
          s = set_prev q h s;
          s = set_prev (QUEUE_NEXT s q) q s;
          s = set_next h q s
      in s)"

definition QUEUE_INSERT_TAIL :: "'q \<Rightarrow> 'q \<Rightarrow> 'q qstore \<Rightarrow> 'q qstore" where
  "QUEUE_INSERT_TAIL h q s =
     (let s = set_next q h s;
          s = set_prev q (QUEUE_PREV s h) s;
          s = set_next (QUEUE_PREV s q) q s;
          s = set_prev h q s
      in s)"

definition QUEUE_REMOVE :: "'q \<Rightarrow> 'q qstore \<Rightarrow> 'q qstore" where
  "QUEUE_REMOVE q s =
     (let s = set_next (QUEUE_PREV s q) (QUEUE_NEXT s q) s;
          s = set_prev (QUEUE_NEXT s q) (QUEUE_PREV s q) s
      in s)"

text \<open>
  \<open>QUEUE_FOREACH\<close> visits \<open>QUEUE_NEXT(h)\<close>, its successor and so on until it is back at \<open>h\<close>;
  the model collects the addresses visited.  Nothing bounds the walk on a corrupt store.
\<close>

partial_function (option) queue_walk :: "'q qstore \<Rightarrow> 'q \<Rightarrow> 'q \<Rightarrow> 'q list \<Rightarrow> 'q list option" where
  "queue_walk s h q acc =
     (if q = h then Some acc else queue_walk s h (QUEUE_NEXT s q) (acc @ [q]))"

definition QUEUE_FOREACH :: "'q qstore \<Rightarrow> 'q \<Rightarrow> 'q list option" where
  "QUEUE_FOREACH s h = queue_walk s h (QUEUE_NEXT s h) []"

lemmas queue_macros =
  QUEUE_EMPTY_def QUEUE_HEAD_def QUEUE_INIT_def QUEUE_ADD_def QUEUE_SPLIT_def QUEUE_MOVE_def
  QUEUE_INSERT_HEAD_def QUEUE_INSERT_TAIL_def QUEUE_REMOVE_def set_next_def set_prev_def Let_def

section \<open>The list a head denotes\<close>

fun links :: "'q qstore \<Rightarrow> 'q list \<Rightarrow> bool" where
  "links s (x # y # r) \<longleftrightarrow> QUEUE_NEXT s x = y \<and> QUEUE_PREV s y = x \<and> links s (y # r)"
| "links s _ \<longleftrightarrow> True"

definition queue_at :: "'q qstore \<Rightarrow> 'q \<Rightarrow> 'q list \<Rightarrow> bool" where
  "queue_at s h xs \<longleftrightarrow> distinct (h # xs) \<and> links s (h # xs @ [h])"

lemma links_append: "links s (xs @ y # ys) \<longleftrightarrow> links s (xs @ [y]) \<and> links s (y # ys)"
proof (induction xs)
  case Nil
  then show ?case by simp
next
  case (Cons x xs)
  then show ?case by (cases xs) auto
qed

lemma links_last: "links s (xs @ [y, z]) \<Longrightarrow> QUEUE_NEXT s y = z \<and> QUEUE_PREV s z = y"
  using links_append [of s xs y "[z]"] by simp

text \<open>Only the next pointers of all but the last and the previous pointers of all but the first
  matter.\<close>

lemma links_cong:
  assumes "\<And>x. x \<in> set (butlast xs) \<Longrightarrow> QUEUE_NEXT s' x = QUEUE_NEXT s x"
    and "\<And>x. x \<in> set (tl xs) \<Longrightarrow> QUEUE_PREV s' x = QUEUE_PREV s x"
  shows "links s' xs \<longleftrightarrow> links s xs"
  using assms
proof (induction s xs rule: links.induct)
  case (1 s x y r)
  then show ?case by (cases r) auto
qed auto

lemma queue_at_cong:
  assumes "\<And>x. x \<in> set (h # xs) \<Longrightarrow> QUEUE_NEXT s' x = QUEUE_NEXT s x"
    and "\<And>x. x \<in> set (h # xs) \<Longrightarrow> QUEUE_PREV s' x = QUEUE_PREV s x"
  shows "queue_at s' h xs \<longleftrightarrow> queue_at s h xs"
proof -
  have "links s' (h # xs @ [h]) \<longleftrightarrow> links s (h # xs @ [h])"
    by (rule links_cong) (use assms in \<open>auto dest: in_set_butlastD\<close>)
  then show ?thesis by (simp add: queue_at_def)
qed

lemma queue_at_distinct: "queue_at s h xs \<Longrightarrow> distinct xs \<and> h \<notin> set xs"
  by (simp add: queue_at_def)

lemma queue_at_Nil: "queue_at s h [] \<longleftrightarrow> QUEUE_NEXT s h = h \<and> QUEUE_PREV s h = h"
  by (auto simp: queue_at_def)

lemma queue_at_next: "queue_at s h xs \<Longrightarrow> QUEUE_NEXT s h = hd (xs @ [h])"
  by (cases xs) (auto simp: queue_at_def)

lemma queue_at_prev: "queue_at s h xs \<Longrightarrow> QUEUE_PREV s h = last (h # xs)"
  by (cases xs rule: rev_cases) (auto simp: queue_at_def dest: links_last [of s "h # _", simplified])

lemma QUEUE_EMPTY_at: "queue_at s h xs \<Longrightarrow> QUEUE_EMPTY s h \<longleftrightarrow> xs = []"
  by (cases xs) (auto simp: QUEUE_EMPTY_def queue_at_def)

lemma QUEUE_HEAD_at: "queue_at s h xs \<Longrightarrow> xs \<noteq> [] \<Longrightarrow> QUEUE_HEAD s h = hd xs"
  by (cases xs) (auto simp: QUEUE_HEAD_def queue_at_def)

text \<open>The neighbours of a member.\<close>

lemma queue_at_split:
  assumes "queue_at s h (xs @ q # ys)"
  shows "QUEUE_NEXT s q = hd (ys @ [h])" and "QUEUE_PREV s q = last (h # xs)"
proof -
  have l: "links s ((h # xs) @ q # ys @ [h])" using assms by (simp add: queue_at_def)
  then have r: "links s (q # ys @ [h])" and f: "links s ((h # xs) @ [q])"
    using links_append [of s "h # xs" q "ys @ [h]"] by auto
  show "QUEUE_NEXT s q = hd (ys @ [h])" using r by (cases ys) auto
  have "links s (butlast (h # xs) @ [last (h # xs), q])"
    using f by (metis append_butlast_last_id append.assoc append_Cons append_Nil list.distinct(1))
  then show "QUEUE_PREV s q = last (h # xs)"
    using links_last by fast
qed

section \<open>The macros on lists\<close>

lemma QUEUE_INIT_at: "queue_at (QUEUE_INIT h s) h []"
  by (simp add: queue_at_Nil queue_macros)

lemma QUEUE_INIT_frame:
  "q \<notin> set (h # xs) \<Longrightarrow> queue_at (QUEUE_INIT q s) h xs \<longleftrightarrow> queue_at s h xs"
  by (rule queue_at_cong) (auto simp: queue_macros)

lemma QUEUE_INSERT_TAIL_at:
  assumes q: "queue_at s h xs" and new: "q \<notin> set (h # xs)"
  shows "queue_at (QUEUE_INSERT_TAIL h q s) h (xs @ [q])"
proof -
  let ?s = "QUEUE_INSERT_TAIL h q s"
  obtain as l where al: "h # xs = as @ [l]" by (metis rev_exhaust list.distinct(1))
  then have l: "QUEUE_PREV s h = l" using queue_at_prev [OF q] by simp
  have d: "distinct (as @ [l])" and qn: "q \<notin> set (as @ [l])"
    using q new unfolding al [symmetric] queue_at_def by auto
  have h: "hd (as @ [l]) = h" by (metis al list.sel(1))
  have "links s (as @ l # [h])" using q by (simp add: queue_at_def cons_eq_snoc [OF al])
  then have "links s (as @ [l])" using links_append [of s as l "[h]"] by simp
  moreover have "links ?s (as @ [l]) \<longleftrightarrow> links s (as @ [l])"
  proof (rule links_cong)
    show "QUEUE_NEXT ?s x = QUEUE_NEXT s x" if "x \<in> set (butlast (as @ [l]))" for x
      using that d qn l by (auto simp: queue_macros)
    show "QUEUE_PREV ?s x = QUEUE_PREV s x" if "x \<in> set (tl (as @ [l]))" for x
      using that d qn h by (cases as) (auto simp: queue_macros)
  qed
  moreover have "links ?s [l, q, h]" using l qn h d new by (auto simp: queue_macros)
  ultimately have "links ?s (as @ l # [q, h])" using links_append [of ?s as l "[q, h]"] by simp
  then have "links ?s (h # xs @ [q, h])" by (simp add: cons_eq_snoc [OF al])
  then show ?thesis using q new by (auto simp: queue_at_def)
qed

lemma QUEUE_INSERT_HEAD_at:
  assumes q: "queue_at s h xs" and new: "q \<notin> set (h # xs)"
  shows "queue_at (QUEUE_INSERT_HEAD h q s) h (q # xs)"
proof -
  let ?s = "QUEUE_INSERT_HEAD h q s"
  obtain f bs where fb: "xs @ [h] = f # bs" by (cases xs) auto
  then have f: "QUEUE_NEXT s h = f" using queue_at_next [OF q] by simp
  have d: "distinct (f # bs)" and qn: "q \<notin> set (f # bs)"
    using q new unfolding fb [symmetric] by (auto simp: queue_at_def)
  have la: "last (f # bs) = h" by (metis fb last_snoc)
  have "links s (f # bs)" using q fb by (cases bs) (auto simp: queue_at_def)
  moreover have "links ?s (f # bs) \<longleftrightarrow> links s (f # bs)"
  proof (rule links_cong)
    show "QUEUE_NEXT ?s x = QUEUE_NEXT s x" if "x \<in> set (butlast (f # bs))" for x
      using that d qn la by (cases bs rule: rev_cases) (auto simp: queue_macros split: if_splits)
    show "QUEUE_PREV ?s x = QUEUE_PREV s x" if "x \<in> set (tl (f # bs))" for x
      using that d qn f by (auto simp: queue_macros)
  qed
  moreover have "QUEUE_NEXT ?s h = q \<and> QUEUE_PREV ?s q = h \<and> QUEUE_NEXT ?s q = f \<and> QUEUE_PREV ?s f = q"
    using f qn new la by (auto simp: queue_macros)
  ultimately have "links ?s (h # q # f # bs)" by simp
  then have "links ?s (h # (q # xs) @ [h])" using fb by simp
  then show ?thesis using q new by (auto simp: queue_at_def)
qed

lemma QUEUE_REMOVE_at:
  assumes q: "queue_at s h xs" and m: "q \<in> set xs"
  shows "queue_at (QUEUE_REMOVE q s) h (remove1 q xs)"
proof -
  let ?s = "QUEUE_REMOVE q s"
  obtain us vs where xs: "xs = us @ q # vs" using split_list [OF m] by blast
  have dist: "distinct (h # us @ q # vs)" using q xs by (simp add: queue_at_def)
  obtain as l where al: "h # us = as @ [l]" by (metis rev_exhaust list.distinct(1))
  obtain f bs where fb: "vs @ [h] = f # bs" by (cases vs) auto
  have n: "QUEUE_NEXT s q = f" and p: "QUEUE_PREV s q = l"
    using queue_at_split [OF q [unfolded xs]] al fb by auto
  have da: "distinct (as @ [l])" "q \<notin> set (as @ [l])" "hd (as @ [l]) = h"
    using dist unfolding al [symmetric] by auto
  have db: "distinct (f # bs)" "q \<notin> set (f # bs)" "last (f # bs) = h"
    using dist unfolding fb [symmetric] by auto
  have disj: "l \<notin> set (butlast (f # bs))" "f \<notin> set (tl (as @ [l]))"
  proof -
    have "set (butlast (f # bs)) = set vs" using fb by (metis butlast_snoc)
    moreover have "l \<in> set (h # us)" using al by (metis in_set_conv_decomp)
    ultimately show "l \<notin> set (butlast (f # bs))" using dist by auto
    have "tl (as @ [l]) = us" using al by (metis list.sel(3))
    moreover have "f \<in> set (vs @ [h])" using fb by simp
    ultimately show "f \<notin> set (tl (as @ [l]))" using dist by auto
  qed
  have whole: "h # (us @ ys) @ [h] = as @ l # ys @ [h]" for ys
    using cons_eq_snoc [OF al, of "ys @ [h]"] by simp
  have "links s (h # (us @ q # vs) @ [h])"
    using q xs by (simp add: queue_at_def)
  then have all: "links s ((as @ [l]) @ q # f # bs)"
    by (simp add: whole [of "q # vs"] fb del: append_assoc) simp
  then have "links s ((as @ [l]) @ [q])" and r: "links s (q # f # bs)"
    using links_append [of s "as @ [l]" q "f # bs"] by auto
  then have a: "links s (as @ [l])" using links_append [of s as l "[q]"] by simp
  have b: "links s (f # bs)" using r by simp
  have "links ?s (as @ [l]) \<longleftrightarrow> links s (as @ [l])"
    by (rule links_cong) (use da disj n p in \<open>auto simp: queue_macros butlast_append\<close>)
  moreover have "links ?s (f # bs) \<longleftrightarrow> links s (f # bs)"
    by (rule links_cong) (use db disj n p in \<open>auto simp: queue_macros\<close>)
  moreover have "QUEUE_NEXT ?s l = f \<and> QUEUE_PREV ?s f = l"
    using n p da db by (auto simp: queue_macros)
  ultimately have "links ?s (as @ l # f # bs)"
    using a b links_append [of ?s as l "f # bs"] by simp
  then have "links ?s (h # (us @ vs) @ [h])"
    by (simp only: whole fb)
  moreover have "remove1 q xs = us @ vs" using xs dist by (simp add: remove1_last_append)
  ultimately show ?thesis using dist by (simp add: queue_at_def)
qed

lemma QUEUE_SPLIT_at:
  assumes q: "queue_at s h (xs @ q # ys)" and new: "n \<notin> set (h # xs @ q # ys)"
  shows "queue_at (QUEUE_SPLIT h q n s) h xs" and "queue_at (QUEUE_SPLIT h q n s) n (q # ys)"
proof -
  let ?s = "QUEUE_SPLIT h q n s"
  obtain as l where al: "h # xs = as @ [l]" by (metis rev_exhaust list.distinct(1))
  obtain bs e where be: "q # ys = bs @ [e]" by (metis rev_exhaust list.distinct(1))
  have pq: "QUEUE_PREV s q = l" using queue_at_split(2) [OF q] al by simp
  have ph: "QUEUE_PREV s h = e" using queue_at_prev [OF q] be by simp
  have dist: "distinct (h # xs @ q # ys)" using q by (simp add: queue_at_def)
  have da: "distinct (as @ [l])" "hd (as @ [l]) = h" "n \<notin> set (as @ [l])"
    using dist new unfolding al [symmetric] by auto
  have db: "distinct (bs @ [e])" "hd (bs @ [e]) = q" "n \<notin> set (bs @ [e])"
    using dist new unfolding be [symmetric] by auto
  have disj: "set (as @ [l]) \<inter> set (bs @ [e]) = {}"
    using dist unfolding al [symmetric] be [symmetric] by auto
  have "links s ((h # xs) @ q # ys @ [h])" using q by (simp add: queue_at_def)
  then have "links s ((h # xs) @ [q])" and r: "links s (q # ys @ [h])"
    using links_append [of s "h # xs" q "ys @ [h]"] by auto
  then have a: "links s (as @ [l])"
    using links_append [of s as l "[q]"] cons_eq_snoc [OF al, of "[q]"] by simp
  have b: "links s (bs @ [e])"
    using r links_append [of s bs e "[h]"] cons_eq_snoc [OF be, of "[h]"] by simp
  have hl: "h \<in> set (as @ [l])" and qe: "q \<in> set (bs @ [e])"
    unfolding al [symmetric] be [symmetric] by simp_all
  have a': "links ?s (as @ [l])"
  proof -
    have "QUEUE_NEXT ?s x = QUEUE_NEXT s x" if "x \<in> set as" for x
      using that da db disj hl qe pq ph by (auto simp: queue_macros)
    moreover have "QUEUE_PREV ?s x = QUEUE_PREV s x" if "x \<in> set (tl (as @ [l]))" for x
      using that da db disj qe pq ph by (cases as) (auto simp: queue_macros)
    ultimately show ?thesis using links_cong [of "as @ [l]" ?s s] a by simp
  qed
  have b': "links ?s (bs @ [e])"
  proof -
    have "QUEUE_NEXT ?s x = QUEUE_NEXT s x" if "x \<in> set bs" for x
      using that da db disj hl qe pq ph by (auto simp: queue_macros)
    moreover have "QUEUE_PREV ?s x = QUEUE_PREV s x" if "x \<in> set (tl (bs @ [e]))" for x
      using that da db disj hl pq ph by (cases bs) (auto simp: queue_macros)
    ultimately show ?thesis using links_cong [of "bs @ [e]" ?s s] b by simp
  qed
  have ends: "QUEUE_NEXT ?s l = h" "QUEUE_PREV ?s h = l" "QUEUE_NEXT ?s n = q"
    "QUEUE_PREV ?s q = n" "QUEUE_NEXT ?s e = n" "QUEUE_PREV ?s n = e"
    using da db disj hl qe pq ph new by (auto simp: queue_macros)
  have "links ?s (as @ l # [h])" using a' ends links_append [of ?s as l "[h]"] by simp
  then have "links ?s (h # xs @ [h])" by (simp add: cons_eq_snoc [OF al])
  then show "queue_at ?s h xs"
    using dist by (auto simp: queue_at_def)
  have "links ?s (bs @ e # [n])" using b' ends links_append [of ?s bs e "[n]"] by simp
  then have "links ?s ((q # ys) @ [n])" by (simp add: cons_eq_snoc [OF be])
  then show "queue_at ?s n (q # ys)"
    using dist new ends by (auto simp: queue_at_def)
qed

lemma QUEUE_MOVE_at:
  assumes q: "queue_at s h xs" and new: "n \<notin> set (h # xs)"
  shows "queue_at (QUEUE_MOVE h n s) h []" and "queue_at (QUEUE_MOVE h n s) n xs"
proof -
  have "queue_at (QUEUE_MOVE h n s) h [] \<and> queue_at (QUEUE_MOVE h n s) n xs"
  proof (cases xs)
    case Nil
    then show ?thesis
      using q new by (auto simp: QUEUE_MOVE_def QUEUE_EMPTY_at QUEUE_INIT_at QUEUE_INIT_frame)
  next
    case (Cons x r)
    then show ?thesis
      using QUEUE_SPLIT_at [of s h "[]" x r n] q new
      by (simp add: QUEUE_MOVE_def QUEUE_EMPTY_at [OF q] QUEUE_HEAD_at [OF q])
  qed
  then show "queue_at (QUEUE_MOVE h n s) h []" and "queue_at (QUEUE_MOVE h n s) n xs" by auto
qed

text \<open>\<open>QUEUE_ADD\<close> appends the elements of one list to another; the head \<open>n\<close> drops out.\<close>

lemma QUEUE_ADD_at:
  assumes q: "queue_at s h xs" and n: "queue_at s n ys" and ne: "ys \<noteq> []"
    and disj: "set (h # xs) \<inter> set (n # ys) = {}"
  shows "queue_at (QUEUE_ADD h n s) h (xs @ ys)"
proof -
  let ?s = "QUEUE_ADD h n s"
  obtain as l where al: "h # xs = as @ [l]" by (metis rev_exhaust list.distinct(1))
  obtain f r where fr: "ys = f # r" using ne by (cases ys) auto
  obtain bs e where be: "ys = bs @ [e]" using ne by (metis rev_exhaust)
  have ph: "QUEUE_PREV s h = l" using queue_at_prev [OF q] al by simp
  have nn: "QUEUE_NEXT s n = f" using queue_at_next [OF n] fr by simp
  have pn: "QUEUE_PREV s n = e" using queue_at_prev [OF n] be by simp
  have da: "distinct (as @ [l])" "hd (as @ [l]) = h" "set (as @ [l]) \<inter> set (n # ys) = {}"
    using q disj unfolding al [symmetric] by (auto simp: queue_at_def)
  have "distinct ys" "n \<notin> set ys" using n by (auto simp: queue_at_def)
  moreover have "hd ys = f" "f \<in> set ys" using fr by auto
  moreover have "last ys = e" "e \<in> set ys" using be by auto
  ultimately have db: "distinct ys" "hd ys = f" "n \<notin> set ys" "f \<in> set ys" "e \<in> set ys" "last ys = e"
    by auto
  have hl: "h \<in> set (as @ [l])" unfolding al [symmetric] by simp
  have "links s (as @ l # [h])" using q by (simp add: queue_at_def cons_eq_snoc [OF al])
  then have a: "links s (as @ [l])" using links_append [of s as l "[h]"] by simp
  have "links s (n # ys @ [n])" using n by (simp add: queue_at_def)
  then have "links s (ys @ [n])" using fr by simp
  then have "links s (bs @ e # [n])" by (simp add: be)
  then have b: "links s ys" using be links_append [of s bs e "[n]"] by simp
  have a': "links ?s (as @ [l])"
  proof -
    have "QUEUE_NEXT ?s x = QUEUE_NEXT s x" if "x \<in> set as" for x
      using that da db ph nn pn by (auto simp: queue_macros)
    moreover have "QUEUE_PREV ?s x = QUEUE_PREV s x" if "x \<in> set (tl (as @ [l]))" for x
      using that da db ph nn pn by (cases as) (auto simp: queue_macros)
    ultimately show ?thesis using links_cong [of "as @ [l]" ?s s] a by simp
  qed
  have b': "links ?s ys"
  proof -
    have "QUEUE_NEXT ?s x = QUEUE_NEXT s x" if "x \<in> set (butlast ys)" for x
      using that da db hl ph nn pn be by (auto simp: queue_macros)
    moreover have "QUEUE_PREV ?s x = QUEUE_PREV s x" if "x \<in> set (tl ys)" for x
      using that da db hl ph nn pn fr by (auto simp: queue_macros)
    ultimately show ?thesis using links_cong [of ys ?s s] b by simp
  qed
  have ends: "QUEUE_NEXT ?s l = f" "QUEUE_PREV ?s f = l" "QUEUE_NEXT ?s e = h" "QUEUE_PREV ?s h = e"
    using da db hl ph nn pn by (auto simp: queue_macros)
  have "links ?s (ys @ [h])" using b' be ends links_append [of ?s bs e "[h]"] by simp
  then have "links ?s (as @ l # ys @ [h])"
    using a' ends fr links_append [of ?s as l "ys @ [h]"] by simp
  then have "links ?s (h # (xs @ ys) @ [h])"
    by (simp add: cons_eq_snoc [OF al])
  then show ?thesis using q n disj by (auto simp: queue_at_def)
qed

lemma queue_walk_at:
  assumes "queue_at s h (xs @ ys)"
  shows "queue_walk s h (hd (ys @ [h])) xs = Some (xs @ ys)"
  using assms
proof (induction ys arbitrary: xs)
  case Nil
  then show ?case by (simp add: queue_walk.simps)
next
  case (Cons y ys)
  have "QUEUE_NEXT s y = hd (ys @ [h])" using queue_at_split(1) [OF Cons.prems] .
  moreover have "y \<noteq> h" using Cons.prems by (auto simp: queue_at_def)
  ultimately show ?case
    using Cons.IH [of "xs @ [y]"] Cons.prems by (simp add: queue_walk.simps [of s h y])
qed

lemma QUEUE_FOREACH_at: "queue_at s h xs \<Longrightarrow> QUEUE_FOREACH s h = Some xs"
  using queue_walk_at [of s h "[]" xs] by (simp add: QUEUE_FOREACH_def queue_at_next)

text \<open>A member of a list is not empty itself.\<close>

lemma QUEUE_EMPTY_member:
  assumes "queue_at s h xs" and "x \<in> set xs" shows "\<not> QUEUE_EMPTY s x"
proof -
  obtain as bs where xs: "xs = as @ x # bs" using assms(2) by (auto simp: in_set_conv_decomp)
  then have "QUEUE_NEXT s x = hd (bs @ [h])" using queue_at_split(1) assms(1) by fastforce
  then have "QUEUE_NEXT s x \<noteq> x" using queue_at_distinct [OF assms(1)] xs by (cases bs) auto
  then show ?thesis by (auto simp: QUEUE_EMPTY_def)
qed

section \<open>Several lists in one store\<close>

text \<open>
  \<open>queues s H f\<close>: the heads \<open>H\<close> denote the lists \<open>f\<close>, and no address belongs to two of
  them.  An initialised node that is in no list is a head with the empty list.
\<close>

definition qcell :: "('q \<Rightarrow> 'q list) \<Rightarrow> 'q \<Rightarrow> 'q set" where
  "qcell f h = insert h (set (f h))"

definition queues :: "'q qstore \<Rightarrow> 'q set \<Rightarrow> ('q \<Rightarrow> 'q list) \<Rightarrow> bool" where
  "queues s H f \<longleftrightarrow> (\<forall>h \<in> H. queue_at s h (f h)) \<and>
     (\<forall>h \<in> H. \<forall>k \<in> H. h \<noteq> k \<longrightarrow> qcell f h \<inter> qcell f k = {})"

definition unused :: "'q set \<Rightarrow> ('q \<Rightarrow> 'q list) \<Rightarrow> 'q \<Rightarrow> bool" where
  "unused H f q \<longleftrightarrow> (\<forall>h \<in> H. q \<notin> qcell f h)"

lemma qcell_update: "qcell (f(h := xs)) k = (if k = h then insert h (set xs) else qcell f k)"
  by (simp add: qcell_def)

lemma unusedD: "unused H f q \<Longrightarrow> h \<in> H \<Longrightarrow> q \<notin> qcell f h"
  by (simp add: unused_def)

lemma unused_notin: "unused H f q \<Longrightarrow> q \<notin> H"
  by (auto simp: unused_def qcell_def)

lemma unused_list: "unused H f q \<Longrightarrow> h \<in> H \<Longrightarrow> q \<noteq> h \<and> q \<notin> set (f h)"
  by (auto simp: unused_def qcell_def)

lemma queuesD: "queues s H f \<Longrightarrow> h \<in> H \<Longrightarrow> queue_at s h (f h)"
  by (simp add: queues_def)

lemma queues_disjoint:
  "queues s H f \<Longrightarrow> h \<in> H \<Longrightarrow> k \<in> H \<Longrightarrow> h \<noteq> k \<Longrightarrow> qcell f h \<inter> qcell f k = {}"
  by (simp add: queues_def)

lemma queuesI:
  assumes "\<And>h. h \<in> H \<Longrightarrow> queue_at s h (f h)"
    and "\<And>h k. h \<in> H \<Longrightarrow> k \<in> H \<Longrightarrow> h \<noteq> k \<Longrightarrow> qcell f h \<inter> qcell f k = {}"
  shows "queues s H f"
  using assms by (simp add: queues_def)

lemma queues_subset: "queues s H f \<Longrightarrow> K \<subseteq> H \<Longrightarrow> queues s K f"
  unfolding queues_def by (meson subsetD)

lemma queues_cong:
  assumes "queues s H f" and "\<And>h. h \<in> H \<Longrightarrow> g h = f h"
  shows "queues s H g"
proof (rule queuesI)
  have cell: "qcell g h = qcell f h" if "h \<in> H" for h
    using assms(2) [OF that] by (simp add: qcell_def)
  show "queue_at s h (g h)" if "h \<in> H" for h
    using queuesD [OF assms(1) that] assms(2) [OF that] by simp
  show "qcell g h \<inter> qcell g k = {}" if "h \<in> H" "k \<in> H" "h \<noteq> k" for h k
    using queues_disjoint [OF assms(1) that] cell that by simp
qed

lemma last_in_set_Cons: "last (h # xs) \<in> insert h (set xs)"
  using last_in_set [of "h # xs"] by simp

text \<open>What an operation on the list of \<open>h\<close> may touch, the rest of the family keeps.\<close>

lemma queues_update:
  assumes q: "queues s H f" and h: "queue_at s' h ys"
    and sub: "set ys \<subseteq> qcell f h \<union> N" and new: "\<And>q. q \<in> N \<Longrightarrow> unused (H - {h}) f q"
    and hH: "h \<in> H"
    and frame: "\<And>x. x \<notin> qcell f h \<union> N \<Longrightarrow>
      QUEUE_NEXT s' x = QUEUE_NEXT s x \<and> QUEUE_PREV s' x = QUEUE_PREV s x"
  shows "queues s' H (f(h := ys))"
proof (rule queuesI)
  have dis: "qcell f k \<inter> (qcell f h \<union> N) = {}" if "k \<in> H" "k \<noteq> h" for k
    using queues_disjoint [OF q that(1) hH that(2)] new that by (auto dest: unusedD)
  have keep: "queue_at s' k (f k)" if "k \<in> H" "k \<noteq> h" for k
  proof -
    have "x \<notin> qcell f h \<union> N" if "x \<in> set (k # f k)" for x
      using dis [OF \<open>k \<in> H\<close> \<open>k \<noteq> h\<close>] that by (auto simp: qcell_def)
    then have "queue_at s' k (f k) \<longleftrightarrow> queue_at s k (f k)"
      using frame by (intro queue_at_cong) blast+
    then show ?thesis using queuesD [OF q that(1)] by simp
  qed
  show "queue_at s' k ((f(h := ys)) k)" if "k \<in> H" for k
    using that h keep by (cases "k = h") simp_all
  have hc: "insert h (set ys) \<subseteq> qcell f h \<union> N" using sub by (auto simp: qcell_def)
  show "qcell (f(h := ys)) k \<inter> qcell (f(h := ys)) l = {}" if "k \<in> H" "l \<in> H" "k \<noteq> l" for k l
    using that dis [of k] dis [of l] hc queues_disjoint [OF q that] unfolding qcell_update
    by (auto split: if_splits)
qed

lemma queues_INIT:
  assumes q: "queues s H f" and n: "unused H f q"
  shows "queues (QUEUE_INIT q s) (insert q H) (f(q := []))"
proof (rule queuesI)
  show "queue_at (QUEUE_INIT q s) h ((f(q := [])) h)" if "h \<in> insert q H" for h
  proof (cases "h = q")
    case False
    then have "h \<in> H" using that by simp
    then show ?thesis
      using False unused_list [OF n] queuesD [OF q, of h] QUEUE_INIT_frame [of q h "f h" s] by simp
  qed (simp add: QUEUE_INIT_at)
  show "qcell (f(q := [])) h \<inter> qcell (f(q := [])) k = {}"
    if "h \<in> insert q H" "k \<in> insert q H" "h \<noteq> k" for h k
    using that queues_disjoint [OF q, of h k] unusedD [OF n] unfolding qcell_update
    by (auto split: if_splits)
qed

lemma queues_INSERT_TAIL:
  assumes q: "queues s H f" and h: "h \<in> H" and n: "unused H f x"
  shows "queues (QUEUE_INSERT_TAIL h x s) H (f(h := f h @ [x]))"
proof (rule queues_update [OF q _ _ _ h, where N = "{x}"])
  have at: "queue_at s h (f h)" using queuesD [OF q h] .
  show "queue_at (QUEUE_INSERT_TAIL h x s) h (f h @ [x])"
    using unused_list [OF n h] by (intro QUEUE_INSERT_TAIL_at at) simp
  show "QUEUE_NEXT (QUEUE_INSERT_TAIL h x s) y = QUEUE_NEXT s y \<and>
      QUEUE_PREV (QUEUE_INSERT_TAIL h x s) y = QUEUE_PREV s y"
    if "y \<notin> qcell f h \<union> {x}" for y
    using that queue_at_prev [OF at] last_in_set_Cons [of h "f h"]
    by (auto simp: queue_macros qcell_def)
qed (use n in \<open>auto simp: unused_def qcell_def\<close>)

lemma queues_INSERT_HEAD:
  assumes q: "queues s H f" and h: "h \<in> H" and n: "unused H f x"
  shows "queues (QUEUE_INSERT_HEAD h x s) H (f(h := x # f h))"
proof (rule queues_update [OF q _ _ _ h, where N = "{x}"])
  have at: "queue_at s h (f h)" using queuesD [OF q h] .
  show "queue_at (QUEUE_INSERT_HEAD h x s) h (x # f h)"
    using unused_list [OF n h] by (intro QUEUE_INSERT_HEAD_at at) simp
  show "QUEUE_NEXT (QUEUE_INSERT_HEAD h x s) y = QUEUE_NEXT s y \<and>
      QUEUE_PREV (QUEUE_INSERT_HEAD h x s) y = QUEUE_PREV s y"
    if "y \<notin> qcell f h \<union> {x}" for y
    using that queue_at_next [OF at] by (cases "f h") (auto simp: queue_macros qcell_def)
qed (use n in \<open>auto simp: unused_def qcell_def\<close>)

lemma queues_REMOVE:
  assumes q: "queues s H f" and h: "h \<in> H" and x: "x \<in> set (f h)"
  shows "queues (QUEUE_REMOVE x s) H (f(h := remove1 x (f h)))"
proof (rule queues_update [OF q _ _ _ h, where N = "{}"])
  have at: "queue_at s h (f h)" using queuesD [OF q h] .
  show "queue_at (QUEUE_REMOVE x s) h (remove1 x (f h))"
    by (rule QUEUE_REMOVE_at [OF at x])
  obtain us vs where f: "f h = us @ x # vs" using split_list [OF x] by blast
  have "QUEUE_NEXT s x = hd (vs @ [h])" "QUEUE_PREV s x = last (h # us)"
    using queue_at_split [OF at [unfolded f]] by auto
  then have "QUEUE_NEXT s x \<in> qcell f h" "QUEUE_PREV s x \<in> qcell f h"
    using f last_in_set_Cons [of h us] by (cases vs; auto simp: qcell_def split: if_splits)+
  then show "QUEUE_NEXT (QUEUE_REMOVE x s) y = QUEUE_NEXT s y \<and>
      QUEUE_PREV (QUEUE_REMOVE x s) y = QUEUE_PREV s y"
    if "y \<notin> qcell f h \<union> {}" for y
    using that by (auto simp: queue_macros)
  show "set (remove1 x (f h)) \<subseteq> qcell f h \<union> {}"
    using set_remove1_subset [of x "f h"] by (auto simp: qcell_def)
qed simp

lemma QUEUE_MOVE_frame:
  assumes at: "queue_at s h xs" and y: "y \<notin> insert n (insert h (set xs))"
  shows "QUEUE_NEXT (QUEUE_MOVE h n s) y = QUEUE_NEXT s y \<and>
    QUEUE_PREV (QUEUE_MOVE h n s) y = QUEUE_PREV s y"
proof (cases xs)
  case Nil
  then show ?thesis
    using y by (simp add: QUEUE_MOVE_def QUEUE_EMPTY_at [OF at] QUEUE_INIT_def set_next_def
        set_prev_def Let_def)
next
  case (Cons x r)
  have "QUEUE_PREV s x = h" using queue_at_split(2) [of s h "[]" x r] at Cons by simp
  moreover have "QUEUE_PREV s h \<in> insert h (set xs)"
    using queue_at_prev [OF at] last_in_set_Cons [of h xs] by simp
  ultimately show ?thesis
    using y Cons by (auto simp: QUEUE_MOVE_def QUEUE_EMPTY_at [OF at] QUEUE_HEAD_at [OF at]
        QUEUE_SPLIT_def set_next_def set_prev_def Let_def)
qed

lemma queues_MOVE:
  assumes q: "queues s H f" and h: "h \<in> H" and n: "unused H f n"
  shows "queues (QUEUE_MOVE h n s) (insert n H) (f(n := f h, h := []))"
proof (rule queuesI)
  let ?s = "QUEUE_MOVE h n s" and ?f = "f(n := f h, h := [])"
  have at: "queue_at s h (f h)" using queuesD [OF q h] .
  have mv: "queue_at ?s h []" "queue_at ?s n (f h)"
    using QUEUE_MOVE_at [OF at, of n] unused_list [OF n h] by auto
  have dis: "qcell f k \<inter> insert n (qcell f h) = {}" if "k \<in> H" "k \<noteq> h" for k
    using queues_disjoint [OF q that(1) h that(2)] unusedD [OF n] that by auto
  have keep: "queue_at ?s k (f k)" if "k \<in> H" "k \<noteq> h" for k
  proof -
    have "x \<notin> insert n (insert h (set (f h)))" if "x \<in> set (k # f k)" for x
      using dis [OF \<open>k \<in> H\<close> \<open>k \<noteq> h\<close>] that by (auto simp: qcell_def)
    then have "queue_at ?s k (f k) \<longleftrightarrow> queue_at s k (f k)"
      using QUEUE_MOVE_frame [OF at] by (intro queue_at_cong) blast+
    then show ?thesis using queuesD [OF q that(1)] by simp
  qed
  show "queue_at ?s k (?f k)" if "k \<in> insert n H" for k
    using that mv keep unused_notin [OF n] h by auto
  have cells: "qcell ?f h = {h}" "qcell ?f n = insert n (set (f h))"
    "k \<noteq> h \<Longrightarrow> k \<noteq> n \<Longrightarrow> qcell ?f k = qcell f k" for k
    using unused_list [OF n h] by (auto simp: qcell_def)
  have "h \<noteq> n" "h \<notin> set (f h)" using unused_list [OF n h] at by (auto simp: queue_at_def)
  then have "qcell ?f h \<inter> qcell ?f n = {}" unfolding cells by simp
  moreover have "qcell f k \<inter> qcell ?f h = {}" "qcell f k \<inter> qcell ?f n = {}"
    if "k \<in> H" "k \<noteq> h" "k \<noteq> n" for k
    using dis [OF that(1,2)] unfolding cells(1,2) by (auto simp: qcell_def)
  ultimately show "qcell ?f k \<inter> qcell ?f l = {}" if "k \<in> insert n H" "l \<in> insert n H" "k \<noteq> l" for k l
    using that queues_disjoint [OF q, of k l] cells(3) [of k] cells(3) [of l]
    by (cases "k = h"; cases "k = n"; cases "l = h"; cases "l = n") (simp_all add: Int_commute)
qed

section \<open>The interface the components use\<close>

text \<open>
  A family of lists with the operations of queue.h.  The client lemmas are the steps of the
  loops that libuv runs over its queues: take the first element of a local list and put it back
  at the tail of the loop's list before its callback runs (\<open>rotate\<close>), or take it out for good
  (\<open>pop\<close>, \<open>pop_init\<close>).
\<close>

locale queue_store =
  fixes rep :: "'s \<Rightarrow> 'q set \<Rightarrow> ('q \<Rightarrow> 'q list) \<Rightarrow> bool"
    and is_empty :: "'s \<Rightarrow> 'q \<Rightarrow> bool"
    and head :: "'s \<Rightarrow> 'q \<Rightarrow> 'q"
    and init :: "'q \<Rightarrow> 's \<Rightarrow> 's"
    and insert_head :: "'q \<Rightarrow> 'q \<Rightarrow> 's \<Rightarrow> 's"
    and insert_tail :: "'q \<Rightarrow> 'q \<Rightarrow> 's \<Rightarrow> 's"
    and remove :: "'q \<Rightarrow> 's \<Rightarrow> 's"
    and move :: "'q \<Rightarrow> 'q \<Rightarrow> 's \<Rightarrow> 's"
  assumes empty_law: "rep s H f \<Longrightarrow> h \<in> H \<Longrightarrow> is_empty s h \<longleftrightarrow> f h = []"
    and head_law: "rep s H f \<Longrightarrow> h \<in> H \<Longrightarrow> f h \<noteq> [] \<Longrightarrow> head s h = hd (f h)"
    and init_law: "rep s H f \<Longrightarrow> unused H f q \<Longrightarrow> rep (init q s) (insert q H) (f(q := []))"
    and insert_head_law: "rep s H f \<Longrightarrow> h \<in> H \<Longrightarrow> unused H f x \<Longrightarrow>
      rep (insert_head h x s) H (f(h := x # f h))"
    and insert_tail_law: "rep s H f \<Longrightarrow> h \<in> H \<Longrightarrow> unused H f x \<Longrightarrow>
      rep (insert_tail h x s) H (f(h := f h @ [x]))"
    and remove_law: "rep s H f \<Longrightarrow> h \<in> H \<Longrightarrow> x \<in> set (f h) \<Longrightarrow>
      rep (remove x s) H (f(h := remove1 x (f h)))"
    and move_law: "rep s H f \<Longrightarrow> h \<in> H \<Longrightarrow> unused H f n \<Longrightarrow>
      rep (move h n s) (insert n H) (f(n := f h, h := []))"
    and subset_law: "rep s H f \<Longrightarrow> K \<subseteq> H \<Longrightarrow> rep s K f"
    and disjoint_law: "rep s H f \<Longrightarrow> h \<in> H \<Longrightarrow> k \<in> H \<Longrightarrow> h \<noteq> k \<Longrightarrow>
      qcell f h \<inter> qcell f k = {}"
    and distinct_law: "rep s H f \<Longrightarrow> h \<in> H \<Longrightarrow> distinct (h # f h)"
begin

lemma popped_unused:
  assumes "rep s H f" "h \<in> H" "f h = x # xs"
  shows "unused H (f(h := xs)) x"
  unfolding unused_def
proof
  fix k
  assume k: "k \<in> H"
  have "x \<in> qcell f h" using assms(3) by (simp add: qcell_def)
  then show "x \<notin> qcell (f(h := xs)) k"
    using distinct_law [OF assms(1,2)] disjoint_law [OF assms(1) k assms(2)] assms(3)
    unfolding qcell_update by auto
qed

lemma removed_unused:
  assumes "rep s H f" "h \<in> H" "x \<in> set (f h)"
  shows "unused H (f(h := remove1 x (f h))) x"
  unfolding unused_def
proof
  fix k assume k: "k \<in> H"
  show "x \<notin> qcell (f(h := remove1 x (f h))) k"
    using distinct_law [OF assms(1,2)] disjoint_law [OF assms(1,2) k] assms(3)
    by (cases "k = h") (auto simp: qcell_def)
qed

lemma transfer:
  assumes "rep s H f" "h \<in> H" "x \<in> set (f h)" "k \<in> H"
  shows "rep (insert_tail k x (remove x s)) H
    (f(h := remove1 x (f h), k := (f(h := remove1 x (f h))) k @ [x]))"
  by (rule insert_tail_law [OF remove_law [OF assms(1-3)] assms(4) removed_unused [OF assms(1-3)]])

lemma pop:
  assumes "rep s H f" "h \<in> H" "f h = x # xs"
  shows "head s h = x" and "rep (remove x s) H (f(h := xs))" and "unused H (f(h := xs)) x"
proof -
  show "head s h = x" using head_law [OF assms(1,2)] assms(3) by simp
  show "rep (remove x s) H (f(h := xs))" using remove_law [OF assms(1,2), of x] assms(3) by simp
  show "unused H (f(h := xs)) x" by (rule popped_unused [OF assms])
qed

lemma pop_init:
  assumes "rep s H f" "h \<in> H" "f h = x # xs"
  shows "rep (init x (remove x s)) (insert x H) (f(h := xs, x := []))"
  using init_law [OF pop(2,3) [OF assms]] by simp

lemma rotate:
  assumes "rep s H f" "n \<in> H" "f n = x # xs" "h \<in> H" "h \<noteq> n"
  shows "rep (insert_tail h x (remove x s)) H (f(n := xs, h := f h @ [x]))"
  using insert_tail_law [OF pop(2) [OF assms(1-3)] assms(4) pop(3) [OF assms(1-3)]] assms(5)
  by simp

lemma enqueue_fresh:
  assumes "rep s H f" "x \<in> H" "f x = []" "h \<in> H" "h \<noteq> x"
  shows "rep (insert_tail h x s) (H - {x}) (f(h := f h @ [x]))"
proof -
  have r: "rep s (H - {x}) f" by (rule subset_law [OF assms(1)]) auto
  have "unused (H - {x}) f x"
    using disjoint_law [OF assms(1) _ assms(2)] assms(3) by (auto simp: unused_def qcell_def)
  with r show ?thesis using insert_tail_law [of s "H - {x}" f h x] assms(4,5) by simp
qed

end

interpretation qs: queue_store queues QUEUE_EMPTY QUEUE_HEAD QUEUE_INIT QUEUE_INSERT_HEAD
  QUEUE_INSERT_TAIL QUEUE_REMOVE QUEUE_MOVE
proof unfold_locales
  fix s :: "'q qstore" and H f h k
  show "QUEUE_EMPTY s h \<longleftrightarrow> f h = []" if "queues s H f" "h \<in> H"
    using QUEUE_EMPTY_at [OF queuesD [OF that]] .
  show "QUEUE_HEAD s h = hd (f h)" if "queues s H f" "h \<in> H" "f h \<noteq> []"
    using QUEUE_HEAD_at [OF queuesD [OF that(1,2)] that(3)] .
  show "distinct (h # f h)" if "queues s H f" "h \<in> H"
    using queuesD [OF that] by (simp add: queue_at_def)
  show "qcell f h \<inter> qcell f k = {}" if "queues s H f" "h \<in> H" "k \<in> H" "h \<noteq> k"
    by (rule queues_disjoint [OF that])
qed (assumption | erule (2) queues_INIT queues_INSERT_HEAD queues_INSERT_TAIL queues_REMOVE queues_MOVE
    queues_subset | erule (1) queues_INIT queues_subset)+

section \<open>Properties\<close>

definition empty_store :: "nat qstore" where
  "empty_store = \<lparr>QUEUE_NEXT = \<lambda>_. 0, QUEUE_PREV = \<lambda>_. 0\<rparr>"

definition demo_store :: "nat qstore" where
  "demo_store = QUEUE_INSERT_TAIL 0 2 (QUEUE_INSERT_TAIL 0 1 (QUEUE_INIT 0 empty_store))"

definition demo_lists :: "nat \<Rightarrow> nat list" where
  "demo_lists = (\<lambda>_. [])(0 := [1, 2])"

lemma demo_queues: "queues demo_store {0} demo_lists"
proof -
  have e: "queues empty_store {} (\<lambda>_. [] :: nat list)" by (simp add: queues_def)
  have "queues (QUEUE_INIT 0 empty_store) {0} ((\<lambda>_. [])(0 := []))"
    using qs.init_law [OF e, of 0] by (simp add: unused_def)
  then have "queues (QUEUE_INSERT_TAIL 0 1 (QUEUE_INIT 0 empty_store)) {0} ((\<lambda>_. [])(0 := [1]))"
    using qs.insert_tail_law [of "QUEUE_INIT 0 empty_store" "{0}" "(\<lambda>_. [])(0 := [])" 0 1]
    by (simp add: unused_def qcell_def)
  then show ?thesis
    using qs.insert_tail_law [of "QUEUE_INSERT_TAIL 0 1 (QUEUE_INIT 0 empty_store)" "{0}"
      "(\<lambda>_. [])(0 := [1])" 0 2]
    by (simp add: unused_def qcell_def demo_store_def demo_lists_def)
qed

text \<open>
  C33: On a store that holds a family of disjoint lists, \<open>QUEUE_INSERT_TAIL\<close> appends a new link
  to its list, \<open>QUEUE_REMOVE\<close> takes a link out of the list it is in, and \<open>QUEUE_MOVE\<close> transfers
  the whole list to a new head and leaves the old one empty; the other lists are not touched.
\<close>

theorem queue_family_operations:
  assumes "queues s H f" and "h \<in> H"
  shows "(\<forall>x. unused H f x \<longrightarrow> queues (QUEUE_INSERT_TAIL h x s) H (f(h := f h @ [x]))) \<and>
    (\<forall>x \<in> set (f h). queues (QUEUE_REMOVE x s) H (f(h := remove1 x (f h)))) \<and>
    (\<forall>n. unused H f n \<longrightarrow> queues (QUEUE_MOVE h n s) (insert n H) (f(n := f h, h := [])))"
  using qs.insert_tail_law [OF assms] qs.remove_law [OF assms] qs.move_law [OF assms] by blast

theorem queue_family_operations_witness:
  "queues (QUEUE_REMOVE 1 demo_store) {0} (demo_lists(0 := [2])) \<and>
   queues (QUEUE_MOVE 0 9 demo_store) {9, 0} (demo_lists(9 := [1, 2], 0 := []))"
proof -
  note p = queue_family_operations [OF demo_queues, of 0]
  have "1 \<in> set (demo_lists 0)" "unused {0} demo_lists 9" "demo_lists 0 = [1, 2]"
    by (simp_all add: demo_lists_def unused_def qcell_def)
  then show ?thesis using p by auto
qed

end
