(* ===== verification/Handle.thy ===== *)
theory Handle
  imports Queue
begin

text \<open>
  The part of \<open>uv_loop_t\<close> and \<open>uv_handle_t\<close> that every kind of handle shares, and the macros of
  uv-common.h on it: flags, the count of active referenced handles, the count of active requests,
  the queue of all handles of the loop.  The state of one loop is a record; each kind of handle
  extends the record by the fields of its own struct.  A handle is identified by its address and
  each field of its struct is a function of the address.

  The invariant \<open>handles_ok\<close> says that \<open>active_handles\<close> counts the handles that are active and
  referenced, and that a closing handle is not active; every macro keeps it.
\<close>

section \<open>Flags\<close>

abbreviation UV_HANDLE_CLOSING :: u32 where "UV_HANDLE_CLOSING \<equiv> 0x00000001"
abbreviation UV_HANDLE_CLOSED :: u32 where "UV_HANDLE_CLOSED \<equiv> 0x00000002"
abbreviation UV_HANDLE_ACTIVE :: u32 where "UV_HANDLE_ACTIVE \<equiv> 0x00000004"
abbreviation UV_HANDLE_REF :: u32 where "UV_HANDLE_REF \<equiv> 0x00000008"
abbreviation UV_HANDLE_INTERNAL :: u32 where "UV_HANDLE_INTERNAL \<equiv> 0x00000010"
abbreviation UV_HANDLE_CONNECTION :: u32 where "UV_HANDLE_CONNECTION \<equiv> 0x00000080"
abbreviation UV_HANDLE_SHUTTING :: u32 where "UV_HANDLE_SHUTTING \<equiv> 0x00000100"
abbreviation UV_HANDLE_SHUT :: u32 where "UV_HANDLE_SHUT \<equiv> 0x00000200"
abbreviation UV_HANDLE_READ_PARTIAL :: u32 where "UV_HANDLE_READ_PARTIAL \<equiv> 0x00000400"
abbreviation UV_HANDLE_READ_EOF :: u32 where "UV_HANDLE_READ_EOF \<equiv> 0x00000800"
abbreviation UV_HANDLE_READING :: u32 where "UV_HANDLE_READING \<equiv> 0x00001000"
abbreviation UV_HANDLE_BOUND :: u32 where "UV_HANDLE_BOUND \<equiv> 0x00002000"
abbreviation UV_HANDLE_READABLE :: u32 where "UV_HANDLE_READABLE \<equiv> 0x00004000"
abbreviation UV_HANDLE_WRITABLE :: u32 where "UV_HANDLE_WRITABLE \<equiv> 0x00008000"
abbreviation UV_HANDLE_BLOCKING_WRITES :: u32 where "UV_HANDLE_BLOCKING_WRITES \<equiv> 0x00100000"
abbreviation UV_HANDLE_IPV6 :: u32 where "UV_HANDLE_IPV6 \<equiv> 0x00400000"
abbreviation UV_HANDLE_TCP_NODELAY :: u32 where "UV_HANDLE_TCP_NODELAY \<equiv> 0x01000000"
abbreviation UV_HANDLE_TCP_KEEPALIVE :: u32 where "UV_HANDLE_TCP_KEEPALIVE \<equiv> 0x02000000"
abbreviation UV_HANDLE_UDP_PROCESSING :: u32 where "UV_HANDLE_UDP_PROCESSING \<equiv> 0x01000000"
abbreviation UV_HANDLE_UDP_CONNECTED :: u32 where "UV_HANDLE_UDP_CONNECTED \<equiv> 0x02000000"
abbreviation UV_HANDLE_UDP_RECVMMSG :: u32 where "UV_HANDLE_UDP_RECVMMSG \<equiv> 0x04000000"
abbreviation UV_SIGNAL_ONE_SHOT_DISPATCHED :: u32 where "UV_SIGNAL_ONE_SHOT_DISPATCHED \<equiv> 0x01000000"
abbreviation UV_SIGNAL_ONE_SHOT :: u32 where "UV_SIGNAL_ONE_SHOT \<equiv> 0x02000000"

section \<open>The shared state\<close>

datatype uv_handle_type = UV_UNKNOWN_HANDLE | UV_ASYNC | UV_CHECK | UV_FS_EVENT | UV_FS_POLL
  | UV_HANDLE | UV_IDLE | UV_NAMED_PIPE | UV_POLL | UV_PREPARE | UV_PROCESS | UV_STREAM
  | UV_TCP | UV_TIMER | UV_TTY | UV_UDP | UV_SIGNAL | UV_FILE

text \<open>
  The queues of a loop.  \<open>LoopQ k\<close> is the address of the list head of kind \<open>k\<close> in the loop,
  \<open>NodeQ k a\<close> that of the link of kind \<open>k\<close> in the object at \<open>a\<close>, \<open>LocalQ n\<close> that of a
  \<open>QUEUE\<close> on the stack of a running function.
\<close>

datatype queue_kind = HandleK | PrepareK | CheckK | IdleK | AsyncK | PendingK | WatcherK | WqK | ProcessK
  | FsListK | FsWatchK

datatype qaddr = LoopQ queue_kind | NodeQ queue_kind addr | LocalQ nat

record uv_loop =
  flags :: "addr \<Rightarrow> u32"
  htype :: "addr \<Rightarrow> uv_handle_type"
  next_closing :: "addr \<Rightarrow> ptr"
  active_handles :: u32
  active_reqs :: u32
  closing_handles :: ptr
  time :: u64
  stop_flag :: bool
  qs :: "qaddr qstore"

section \<open>The macros of uv-common.h\<close>

definition has_flag :: "'a uv_loop_scheme \<Rightarrow> addr \<Rightarrow> u32 \<Rightarrow> bool" where
  "has_flag s h m \<longleftrightarrow> flags s h AND m \<noteq> 0"

definition set_flag :: "addr \<Rightarrow> u32 \<Rightarrow> 'a uv_loop_scheme \<Rightarrow> 'a uv_loop_scheme" where
  "set_flag h m s = s\<lparr>flags := (flags s)(h := flags s h OR m)\<rparr>"

definition clear_flag :: "addr \<Rightarrow> u32 \<Rightarrow> 'a uv_loop_scheme \<Rightarrow> 'a uv_loop_scheme" where
  "clear_flag h m s = s\<lparr>flags := (flags s)(h := flags s h AND NOT m)\<rparr>"

definition uv__has_active_reqs :: "'a uv_loop_scheme \<Rightarrow> bool" where
  "uv__has_active_reqs s \<longleftrightarrow> active_reqs s > 0"

definition uv__req_register :: "'a uv_loop_scheme \<Rightarrow> 'a uv_loop_scheme" where
  "uv__req_register s = s\<lparr>active_reqs := active_reqs s + 1\<rparr>"

definition uv__req_unregister :: "'a uv_loop_scheme \<Rightarrow> 'a uv_loop_scheme option" where
  "uv__req_unregister s = do {
     uv_assert (uv__has_active_reqs s);
     Some (s\<lparr>active_reqs := active_reqs s - 1\<rparr>) }"

definition uv__has_active_handles :: "'a uv_loop_scheme \<Rightarrow> bool" where
  "uv__has_active_handles s \<longleftrightarrow> active_handles s > 0"

definition uv__active_handle_add :: "'a uv_loop_scheme \<Rightarrow> 'a uv_loop_scheme" where
  "uv__active_handle_add s = s\<lparr>active_handles := active_handles s + 1\<rparr>"

definition uv__active_handle_rm :: "'a uv_loop_scheme \<Rightarrow> 'a uv_loop_scheme" where
  "uv__active_handle_rm s = s\<lparr>active_handles := active_handles s - 1\<rparr>"

definition uv__is_active :: "'a uv_loop_scheme \<Rightarrow> addr \<Rightarrow> bool" where
  "uv__is_active s h \<longleftrightarrow> has_flag s h UV_HANDLE_ACTIVE"

definition uv__is_closing :: "'a uv_loop_scheme \<Rightarrow> addr \<Rightarrow> bool" where
  "uv__is_closing s h \<longleftrightarrow> has_flag s h (UV_HANDLE_CLOSING OR UV_HANDLE_CLOSED)"

definition uv__handle_start :: "addr \<Rightarrow> 'a uv_loop_scheme \<Rightarrow> 'a uv_loop_scheme" where
  "uv__handle_start h s =
     (if has_flag s h UV_HANDLE_ACTIVE then s
      else let s = set_flag h UV_HANDLE_ACTIVE s
           in if has_flag s h UV_HANDLE_REF then uv__active_handle_add s else s)"

definition uv__handle_stop :: "addr \<Rightarrow> 'a uv_loop_scheme \<Rightarrow> 'a uv_loop_scheme" where
  "uv__handle_stop h s =
     (if \<not> has_flag s h UV_HANDLE_ACTIVE then s
      else let s = clear_flag h UV_HANDLE_ACTIVE s
           in if has_flag s h UV_HANDLE_REF then uv__active_handle_rm s else s)"

definition uv__handle_ref :: "addr \<Rightarrow> 'a uv_loop_scheme \<Rightarrow> 'a uv_loop_scheme" where
  "uv__handle_ref h s =
     (if has_flag s h UV_HANDLE_REF then s
      else let s = set_flag h UV_HANDLE_REF s
           in if has_flag s h UV_HANDLE_CLOSING then s
              else if has_flag s h UV_HANDLE_ACTIVE then uv__active_handle_add s else s)"

definition uv__handle_unref :: "addr \<Rightarrow> 'a uv_loop_scheme \<Rightarrow> 'a uv_loop_scheme" where
  "uv__handle_unref h s =
     (if \<not> has_flag s h UV_HANDLE_REF then s
      else let s = clear_flag h UV_HANDLE_REF s
           in if has_flag s h UV_HANDLE_CLOSING then s
              else if has_flag s h UV_HANDLE_ACTIVE then uv__active_handle_rm s else s)"

definition uv__has_ref :: "'a uv_loop_scheme \<Rightarrow> addr \<Rightarrow> bool" where
  "uv__has_ref s h \<longleftrightarrow> has_flag s h UV_HANDLE_REF"

definition uv__handle_init :: "addr \<Rightarrow> uv_handle_type \<Rightarrow> 'a uv_loop_scheme \<Rightarrow> 'a uv_loop_scheme" where
  "uv__handle_init h ty s =
     s\<lparr>htype := (htype s)(h := ty),
       flags := (flags s)(h := UV_HANDLE_REF),
       qs := QUEUE_INSERT_TAIL (LoopQ HandleK) (NodeQ HandleK h) (qs s),
       next_closing := (next_closing s)(h := None)\<rparr>"

lemmas handle_defs =
  uv__handle_start_def uv__handle_stop_def uv__handle_ref_def uv__handle_unref_def
  uv__active_handle_add_def uv__active_handle_rm_def uv__is_active_def uv__is_closing_def
  uv__has_ref_def Let_def

section \<open>Flag arithmetic\<close>

lemma flag_or: "(f OR m) AND k \<noteq> 0 \<longleftrightarrow> f AND k \<noteq> 0 \<or> m AND k \<noteq> (0 :: u32)"
  by (simp add: bit.conj_disj_distrib2 or_eq_0_iff)

lemma flag_and_not_same: "(f AND NOT m) AND m = (0 :: u32)"
  by (simp add: and.assoc and.commute and.left_commute)

lemma flag_and_not: "m AND k = 0 \<Longrightarrow> (f AND NOT m) AND k = f AND (k :: u32)"
proof -
  assume mk: "m AND k = 0"
  have "\<not> (bit m n \<and> bit k n)" for n
    using arg_cong [OF mk, of "\<lambda>x. bit x n"] by (simp add: bit_and_iff)
  then show ?thesis by (intro bit_eqI) (auto simp: bit_and_iff bit_not_iff)
qed

lemma has_set_flag [flag_simps]:
  "has_flag (set_flag h m s) k n \<longleftrightarrow> has_flag s k n \<or> k = h \<and> m AND n \<noteq> 0"
  by (auto simp: has_flag_def set_flag_def flag_or)

lemma has_clear_flag_same [flag_simps]:
  "has_flag (clear_flag h m s) k m \<longleftrightarrow> k \<noteq> h \<and> has_flag s k m"
  by (auto simp: has_flag_def clear_flag_def flag_and_not_same)

lemma has_clear_flag [flag_simps]:
  "m AND n = 0 \<Longrightarrow> has_flag (clear_flag h m s) k n \<longleftrightarrow> has_flag s k n"
  by (auto simp: has_flag_def clear_flag_def flag_and_not)

lemma has_flag_split [flag_simps]:
  "has_flag s h (m OR n) \<longleftrightarrow> has_flag s h m \<or> has_flag s h n"
  by (simp add: has_flag_def bit.conj_disj_distrib or_eq_0_iff)

lemma is_closing_iff:
  "uv__is_closing s h \<longleftrightarrow> has_flag s h UV_HANDLE_CLOSING \<or> has_flag s h UV_HANDLE_CLOSED"
  unfolding uv__is_closing_def by (rule has_flag_split)

lemma has_flag_init [flag_simps]:
  "has_flag (uv__handle_init h ty s) k m \<longleftrightarrow> (if k = h then UV_HANDLE_REF AND m \<noteq> 0 else has_flag s k m)"
  by (simp add: has_flag_def uv__handle_init_def)

lemma has_flag_update [flag_simps]:
  "has_flag (active_handles_update f s) k m \<longleftrightarrow> has_flag s k m"
  "has_flag (active_reqs_update g s) k m \<longleftrightarrow> has_flag s k m"
  "has_flag (qs_update qf s) k m \<longleftrightarrow> has_flag s k m"
  "has_flag (closing_handles_update c s) k m \<longleftrightarrow> has_flag s k m"
  "has_flag (next_closing_update nc s) k m \<longleftrightarrow> has_flag s k m"
  "has_flag (time_update tm s) k m \<longleftrightarrow> has_flag s k m"
  "has_flag (stop_flag_update sf s) k m \<longleftrightarrow> has_flag s k m"
  by (simp_all add: has_flag_def)

lemma has_flag_frame:
  "flags s' = flags s \<Longrightarrow> has_flag s' k m \<longleftrightarrow> has_flag s k m"
  by (simp add: has_flag_def)

section \<open>Effect of the macros on the flags\<close>

lemma has_flag_handle_start [flag_simps]:
  "has_flag (uv__handle_start h s) k m \<longleftrightarrow>
    has_flag s k m \<or> k = h \<and> \<not> has_flag s h UV_HANDLE_ACTIVE \<and> UV_HANDLE_ACTIVE AND m \<noteq> 0"
  by (auto simp: handle_defs flag_simps)

lemma has_flag_handle_stop [flag_simps]:
  "has_flag (uv__handle_stop h s) k UV_HANDLE_ACTIVE \<longleftrightarrow> k \<noteq> h \<and> has_flag s k UV_HANDLE_ACTIVE"
  "UV_HANDLE_ACTIVE AND m = 0 \<Longrightarrow> has_flag (uv__handle_stop h s) k m \<longleftrightarrow> has_flag s k m"
  by (auto simp: handle_defs flag_simps)

lemma has_flag_handle_ref [flag_simps]:
  "has_flag (uv__handle_ref h s) k m \<longleftrightarrow>
    has_flag s k m \<or> k = h \<and> \<not> has_flag s h UV_HANDLE_REF \<and> UV_HANDLE_REF AND m \<noteq> 0"
  by (auto simp: handle_defs flag_simps)

lemma has_flag_handle_unref [flag_simps]:
  "has_flag (uv__handle_unref h s) k UV_HANDLE_REF \<longleftrightarrow> k \<noteq> h \<and> has_flag s k UV_HANDLE_REF"
  "UV_HANDLE_REF AND m = 0 \<Longrightarrow> has_flag (uv__handle_unref h s) k m \<longleftrightarrow> has_flag s k m"
  by (auto simp: handle_defs flag_simps)

section \<open>What the macros leave alone\<close>

text \<open>
  The equations \<open>handle_start_eq\<close> and so on say that a macro writes \<open>flags\<close> and
  \<open>active_handles\<close> only, also in an extended record.
\<close>

lemma set_flag_frame [simp]:
  "htype (set_flag h m s) = htype s"
  "next_closing (set_flag h m s) = next_closing s"
  "active_reqs (set_flag h m s) = active_reqs s"
  "closing_handles (set_flag h m s) = closing_handles s"
  "time (set_flag h m s) = time s"
  "stop_flag (set_flag h m s) = stop_flag s"
  "qs (set_flag h m s) = qs s"
  "active_handles (set_flag h m s) = active_handles s"
  by (simp_all add: set_flag_def)

lemma clear_flag_frame [simp]:
  "htype (clear_flag h m s) = htype s"
  "next_closing (clear_flag h m s) = next_closing s"
  "active_reqs (clear_flag h m s) = active_reqs s"
  "closing_handles (clear_flag h m s) = closing_handles s"
  "time (clear_flag h m s) = time s"
  "stop_flag (clear_flag h m s) = stop_flag s"
  "qs (clear_flag h m s) = qs s"
  "active_handles (clear_flag h m s) = active_handles s"
  by (simp_all add: clear_flag_def)

lemma handle_start_frame [simp]:
  "htype (uv__handle_start h s) = htype s"
  "next_closing (uv__handle_start h s) = next_closing s"
  "active_reqs (uv__handle_start h s) = active_reqs s"
  "closing_handles (uv__handle_start h s) = closing_handles s"
  "time (uv__handle_start h s) = time s"
  "stop_flag (uv__handle_start h s) = stop_flag s"
  "qs (uv__handle_start h s) = qs s"
  by (simp_all add: handle_defs)

lemma handle_start_eq:
  "uv__handle_start h s = s\<lparr>flags := flags (uv__handle_start h s), active_handles := active_handles (uv__handle_start h s)\<rparr>"
  by (simp add: handle_defs set_flag_def clear_flag_def)

lemma handle_stop_frame [simp]:
  "htype (uv__handle_stop h s) = htype s"
  "next_closing (uv__handle_stop h s) = next_closing s"
  "active_reqs (uv__handle_stop h s) = active_reqs s"
  "closing_handles (uv__handle_stop h s) = closing_handles s"
  "time (uv__handle_stop h s) = time s"
  "stop_flag (uv__handle_stop h s) = stop_flag s"
  "qs (uv__handle_stop h s) = qs s"
  by (simp_all add: handle_defs)

lemma handle_stop_eq:
  "uv__handle_stop h s = s\<lparr>flags := flags (uv__handle_stop h s), active_handles := active_handles (uv__handle_stop h s)\<rparr>"
  by (simp add: handle_defs set_flag_def clear_flag_def)

lemma handle_ref_frame [simp]:
  "htype (uv__handle_ref h s) = htype s"
  "next_closing (uv__handle_ref h s) = next_closing s"
  "active_reqs (uv__handle_ref h s) = active_reqs s"
  "closing_handles (uv__handle_ref h s) = closing_handles s"
  "time (uv__handle_ref h s) = time s"
  "stop_flag (uv__handle_ref h s) = stop_flag s"
  "qs (uv__handle_ref h s) = qs s"
  by (simp_all add: handle_defs)

lemma handle_ref_eq:
  "uv__handle_ref h s = s\<lparr>flags := flags (uv__handle_ref h s), active_handles := active_handles (uv__handle_ref h s)\<rparr>"
  by (simp add: handle_defs set_flag_def clear_flag_def)

lemma handle_unref_frame [simp]:
  "htype (uv__handle_unref h s) = htype s"
  "next_closing (uv__handle_unref h s) = next_closing s"
  "active_reqs (uv__handle_unref h s) = active_reqs s"
  "closing_handles (uv__handle_unref h s) = closing_handles s"
  "time (uv__handle_unref h s) = time s"
  "stop_flag (uv__handle_unref h s) = stop_flag s"
  "qs (uv__handle_unref h s) = qs s"
  by (simp_all add: handle_defs)

lemma handle_unref_eq:
  "uv__handle_unref h s = s\<lparr>flags := flags (uv__handle_unref h s), active_handles := active_handles (uv__handle_unref h s)\<rparr>"
  by (simp add: handle_defs set_flag_def clear_flag_def)

section \<open>The count of active handles\<close>

definition counted :: "'a uv_loop_scheme \<Rightarrow> addr \<Rightarrow> bool" where
  "counted s h \<longleftrightarrow> has_flag s h UV_HANDLE_ACTIVE \<and> has_flag s h UV_HANDLE_REF"

definition handles_ok :: "'a uv_loop_scheme \<Rightarrow> addr set \<Rightarrow> bool" where
  "handles_ok s H \<longleftrightarrow> finite H \<and> active_handles s = of_nat (card {h \<in> H. counted s h}) \<and>
     (\<forall>h \<in> H. uv__is_closing s h \<longrightarrow> \<not> has_flag s h UV_HANDLE_ACTIVE)"

lemma card_counted_update:
  fixes s s' :: "'a uv_loop_scheme"
  assumes "finite H" "h \<in> H" and "\<And>k. k \<noteq> h \<Longrightarrow> counted s' k = counted s k"
  shows "(of_nat (card {k \<in> H. counted s' k}) :: u32) =
    of_nat (card {k \<in> H. counted s k}) + (of_bool (counted s' h) - of_bool (counted s h))"
proof -
  have split: "card {k \<in> H. counted t k} = card {k \<in> H - {h}. counted t k} + of_bool (counted t h)"
    for t :: "'a uv_loop_scheme"
  proof -
    have "{k \<in> H. counted t k} = (if counted t h then insert h {k \<in> H - {h}. counted t k} else {k \<in> H - {h}. counted t k})"
      using assms(2) by auto
    then show ?thesis using assms(1) by simp
  qed
  have "{k \<in> H - {h}. counted s' k} = {k \<in> H - {h}. counted s k}" using assms(3) by auto
  then show ?thesis unfolding split [of s'] split [of s] by simp
qed

lemma handles_okI:
  fixes s s' :: "'a uv_loop_scheme"
  assumes ok: "handles_ok s H" and h: "h \<in> H" and oth: "\<And>k m. k \<noteq> h \<Longrightarrow> has_flag s' k m = has_flag s k m"
    and cnt: "active_handles s' = active_handles s + (of_bool (counted s' h) - of_bool (counted s h))"
    and cl: "uv__is_closing s' h \<Longrightarrow> \<not> has_flag s' h UV_HANDLE_ACTIVE"
  shows "handles_ok s' H"
proof -
  have "counted s' k = counted s k" if "k \<noteq> h" for k using oth [OF that] by (simp add: counted_def)
  from card_counted_update [OF _ h, of s' s, OF _ this] show ?thesis
    using ok oth cnt cl unfolding handles_ok_def is_closing_iff by (metis (no_types, lifting))
qed

lemma handles_ok_cong:
  assumes "handles_ok s H" "flags s' = flags s" "active_handles s' = active_handles s"
  shows "handles_ok s' H"
proof -
  have "has_flag s' k m = has_flag s k m" for k m by (rule has_flag_frame [OF assms(2)])
  then show ?thesis using assms(1,3) by (simp add: handles_ok_def counted_def is_closing_iff)
qed

lemma handles_ok_frame:
  assumes "flags s' = flags s" "active_handles s' = active_handles s"
  shows "handles_ok s' H \<longleftrightarrow> handles_ok s H"
  using handles_ok_cong [OF _ assms] handles_ok_cong [OF _ assms [symmetric]] by blast

lemma handle_start_ok:
  assumes "handles_ok s H" "h \<in> H" "\<not> uv__is_closing s h"
  shows "handles_ok (uv__handle_start h s) H"
proof (rule handles_okI [OF assms(1,2)])
  show "active_handles (uv__handle_start h s) =
      active_handles s + (of_bool (counted (uv__handle_start h s) h) - of_bool (counted s h))"
    unfolding counted_def flag_simps by (simp add: handle_defs flag_simps)
qed (use assms(3) in \<open>simp_all add: flag_simps is_closing_iff\<close>)

lemma handle_stop_ok:
  assumes "handles_ok s H" "h \<in> H"
  shows "handles_ok (uv__handle_stop h s) H"
proof (rule handles_okI [OF assms(1,2)])
  show "active_handles (uv__handle_stop h s) =
      active_handles s + (of_bool (counted (uv__handle_stop h s) h) - of_bool (counted s h))"
    unfolding counted_def flag_simps by (simp add: handle_defs flag_simps)
  show "has_flag (uv__handle_stop h s) k m = has_flag s k m" if "k \<noteq> h" for k m
    using that by (simp add: handle_defs has_flag_def clear_flag_def)
qed (simp add: flag_simps is_closing_iff)

lemma handle_ref_ok:
  assumes "handles_ok s H" "h \<in> H"
  shows "handles_ok (uv__handle_ref h s) H"
proof (rule handles_okI [OF assms(1,2)])
  have "has_flag s h UV_HANDLE_CLOSING \<or> has_flag s h UV_HANDLE_CLOSED \<Longrightarrow> \<not> has_flag s h UV_HANDLE_ACTIVE"
    using assms by (auto simp: handles_ok_def is_closing_iff)
  then show "active_handles (uv__handle_ref h s) =
      active_handles s + (of_bool (counted (uv__handle_ref h s) h) - of_bool (counted s h))"
    and "uv__is_closing (uv__handle_ref h s) h \<Longrightarrow> \<not> has_flag (uv__handle_ref h s) h UV_HANDLE_ACTIVE"
    unfolding counted_def is_closing_iff flag_simps by (auto simp: handle_defs flag_simps)
qed (simp add: flag_simps)

lemma handle_unref_ok:
  assumes "handles_ok s H" "h \<in> H"
  shows "handles_ok (uv__handle_unref h s) H"
proof (rule handles_okI [OF assms(1,2)])
  have "has_flag s h UV_HANDLE_CLOSING \<or> has_flag s h UV_HANDLE_CLOSED \<Longrightarrow> \<not> has_flag s h UV_HANDLE_ACTIVE"
    using assms by (auto simp: handles_ok_def is_closing_iff)
  then show "active_handles (uv__handle_unref h s) =
      active_handles s + (of_bool (counted (uv__handle_unref h s) h) - of_bool (counted s h))"
    and "uv__is_closing (uv__handle_unref h s) h \<Longrightarrow> \<not> has_flag (uv__handle_unref h s) h UV_HANDLE_ACTIVE"
    unfolding counted_def is_closing_iff by (auto simp: flag_simps) (auto simp: handle_defs flag_simps)
  show "has_flag (uv__handle_unref h s) k m = has_flag s k m" if "k \<noteq> h" for k m
    using that by (simp add: handle_defs has_flag_def clear_flag_def)
qed

lemma handle_init_ok:
  assumes "handles_ok s H" "h \<notin> H"
  shows "handles_ok (uv__handle_init h ty s) (insert h H)"
proof -
  have "{k \<in> insert h H. counted (uv__handle_init h ty s) k} = {k \<in> H. counted s k}"
    using assms(2) by (auto simp: counted_def flag_simps)
  moreover have "active_handles (uv__handle_init h ty s) = active_handles s" by (simp add: uv__handle_init_def)
  ultimately show ?thesis using assms by (simp add: handles_ok_def flag_simps is_closing_iff)
qed

text \<open>The loop is kept alive exactly by the handles counted, while there are fewer than \<open>2 ^ 32\<close>.\<close>

lemma has_active_handles_iff:
  assumes "handles_ok s H" "card H < 2 ^ 32"
  shows "uv__has_active_handles s \<longleftrightarrow> (\<exists>h \<in> H. counted s h)"
proof -
  let ?c = "card {h \<in> H. counted s h}"
  have "finite H" using assms(1) by (simp add: handles_ok_def)
  then have "?c \<le> card H" by (intro card_mono) auto
  then have "?c < 2 ^ 32" using assms(2) by simp
  then have "unat (active_handles s) = ?c"
    using assms(1) by (simp add: handles_ok_def unat_of_nat)
  then have "uv__has_active_handles s \<longleftrightarrow> 0 < ?c"
    by (metis uv__has_active_handles_def unat_gt_0 word_neq_0_conv)
  then show ?thesis using \<open>finite H\<close> by (auto simp: card_gt_0_iff)
qed

end
