(* ===== verification/Heap.thy ===== *)
theory Heap
  imports Prelude
begin

text \<open>
  heap-inl.h: the binary min heap of the timers, a complete binary tree of nodes linked by
  \<open>left\<close>, \<open>right\<close> and \<open>parent\<close> pointers.  The definitions follow the C functions pointer
  by pointer on a store of nodes; a \<open>NULL\<close> dereference is \<open>None\<close>.  The abstract view
  (\<open>heap_rep\<close>) numbers the positions of the complete tree from 1: position \<open>i\<close> holds node
  \<open>pos i\<close>, its children are positions \<open>2 i\<close> and \<open>2 i + 1\<close>.  The lemmas show that the
  pointer operations are the operations of an array heap on \<open>pos\<close>, that they keep the tree
  complete and heap ordered, and that they return; the interface \<open>prio_queue\<close> sums this up for
  the timers.
\<close>

section \<open>Nodes, slots and the primitive updates\<close>

record heap_node =
  left :: ptr
  right :: ptr
  parent :: ptr

record heap =
  heap_top :: ptr
  nelts :: u32
  nodes :: "addr \<Rightarrow> heap_node"

type_synonym heap_compare_fn = "addr \<Rightarrow> addr \<Rightarrow> bool"

definition set_left :: "addr \<Rightarrow> ptr \<Rightarrow> heap \<Rightarrow> heap" where
  "set_left a p h = h\<lparr>nodes := (nodes h)(a := (nodes h a)\<lparr>left := p\<rparr>)\<rparr>"

definition set_right :: "addr \<Rightarrow> ptr \<Rightarrow> heap \<Rightarrow> heap" where
  "set_right a p h = h\<lparr>nodes := (nodes h)(a := (nodes h a)\<lparr>right := p\<rparr>)\<rparr>"

definition set_parent :: "addr \<Rightarrow> ptr \<Rightarrow> heap \<Rightarrow> heap" where
  "set_parent a p h = h\<lparr>nodes := (nodes h)(a := (nodes h a)\<lparr>parent := p\<rparr>)\<rparr>"

definition set_node :: "addr \<Rightarrow> heap_node \<Rightarrow> heap \<Rightarrow> heap" where
  "set_node a x h = h\<lparr>nodes := (nodes h)(a := x)\<rparr>"

text \<open>\<open>if (p != NULL) p->parent = v\<close>.\<close>

definition set_parent_of :: "ptr \<Rightarrow> ptr \<Rightarrow> heap \<Rightarrow> heap" where
  "set_parent_of p v h = (case p of None \<Rightarrow> h | Some a \<Rightarrow> set_parent a v h)"

text \<open>A \<open>struct heap_node**\<close>: the address of a pointer field.\<close>

datatype slot = MinSlot | LeftSlot addr | RightSlot addr

fun slot_get :: "heap \<Rightarrow> slot \<Rightarrow> ptr" where
  "slot_get h MinSlot = heap_top h"
| "slot_get h (LeftSlot a) = left (nodes h a)"
| "slot_get h (RightSlot a) = right (nodes h a)"

fun slot_set :: "slot \<Rightarrow> ptr \<Rightarrow> heap \<Rightarrow> heap" where
  "slot_set MinSlot p h = h\<lparr>heap_top := p\<rparr>"
| "slot_set (LeftSlot a) p h = set_left a p h"
| "slot_set (RightSlot a) p h = set_right a p h"

section \<open>The functions of heap-inl.h\<close>

definition heap_init :: "heap \<Rightarrow> heap" where
  "heap_init h = h\<lparr>heap_top := None, nelts := 0\<rparr>"

definition heap_min :: "heap \<Rightarrow> ptr" where
  "heap_min h = heap_top h"

definition heap_node_swap :: "heap \<Rightarrow> addr \<Rightarrow> addr \<Rightarrow> heap" where
  "heap_node_swap h p c =
     (let t = nodes h p;
          h = set_node p (nodes h c) h;
          h = set_node c t h;
          h = set_parent p (Some c) h;
          (sibling, h) =
            (if left (nodes h c) = Some c
             then (right (nodes h c), set_left c (Some p) h)
             else (left (nodes h c), set_right c (Some p) h));
          h = set_parent_of sibling (Some c) h;
          h = set_parent_of (left (nodes h p)) (Some p) h;
          h = set_parent_of (right (nodes h p)) (Some p) h
      in case parent (nodes h c) of
           None \<Rightarrow> h\<lparr>heap_top := Some c\<rparr>
         | Some g \<Rightarrow> if left (nodes h g) = Some p then set_left g (Some c) h
                     else set_right g (Some c) h)"

text \<open>
  The loop that computes the path: \<open>path\<close> collects the low bits of \<open>n\<close>, \<open>k\<close> counts them.
\<close>

function heap_path :: "u32 \<Rightarrow> nat \<Rightarrow> u32 \<Rightarrow> u32 \<times> nat" where
  "heap_path path k n =
     (if 2 \<le> n then heap_path (push_bit 1 path OR (n AND 1)) (k + 1) (n div 2) else (path, k))"
  by pat_completeness auto
termination
  by (relation "measure (\<lambda>(path, k, n). unat n)") (auto simp: word_half_less)

declare heap_path.simps [simp del]

text \<open>The loop that follows the path; both functions keep the last two slots.\<close>

fun heap_walk :: "heap \<Rightarrow> nat \<Rightarrow> u32 \<Rightarrow> slot \<Rightarrow> slot \<Rightarrow> (slot \<times> slot) option" where
  "heap_walk h 0 path p c = Some (p, c)"
| "heap_walk h (Suc k) path p c =
     (case slot_get h c of
        None \<Rightarrow> None
      | Some a \<Rightarrow> heap_walk h k (drop_bit 1 path) c
                    (if path AND 1 \<noteq> 0 then RightSlot a else LeftSlot a))"

partial_function (option) heap_sift_up ::
  "heap_compare_fn \<Rightarrow> addr \<Rightarrow> heap \<Rightarrow> heap option" where
  "heap_sift_up lt x h =
     (case parent (nodes h x) of
        None \<Rightarrow> Some h
      | Some p \<Rightarrow> if lt x p then heap_sift_up lt x (heap_node_swap h p x)
                  else Some h)"

definition smallest_child :: "heap_compare_fn \<Rightarrow> heap \<Rightarrow> addr \<Rightarrow> addr" where
  "smallest_child lt h c =
     (let smallest = c;
          smallest = (case left (nodes h c) of
                        None \<Rightarrow> smallest
                      | Some l \<Rightarrow> if lt l smallest then l else smallest);
          smallest = (case right (nodes h c) of
                        None \<Rightarrow> smallest
                      | Some r \<Rightarrow> if lt r smallest then r else smallest)
      in smallest)"

partial_function (option) heap_sift_down ::
  "heap_compare_fn \<Rightarrow> addr \<Rightarrow> heap \<Rightarrow> heap option" where
  "heap_sift_down lt c h =
     (if smallest_child lt h c = c then Some h
      else heap_sift_down lt c (heap_node_swap h c (smallest_child lt h c)))"

definition heap_insert :: "heap \<Rightarrow> addr \<Rightarrow> heap_compare_fn \<Rightarrow> heap option" where
  "heap_insert h newnode lt =
     (let h = set_node newnode \<lparr>left = None, right = None, parent = None\<rparr> h;
          (path, k) = heap_path 0 0 (1 + nelts h)
      in do {
        (p, c) \<leftarrow> heap_walk h k path MinSlot MinSlot;
        let h = set_parent newnode (slot_get h p) h;
        let h = slot_set c (Some newnode) h;
        let h = h\<lparr>nelts := nelts h + 1\<rparr>;
        heap_sift_up lt newnode h
      })"

definition heap_remove :: "heap \<Rightarrow> addr \<Rightarrow> heap_compare_fn \<Rightarrow> heap option" where
  "heap_remove h node lt =
     (if nelts h = 0 then Some h
      else
        (let (path, k) = heap_path 0 0 (nelts h)
         in do {
           (_, max) \<leftarrow> heap_walk h k path MinSlot MinSlot;
           let h = h\<lparr>nelts := nelts h - 1\<rparr>;
           let child = slot_get h max;
           let h = slot_set max None h;
           if child = Some node
           then Some (if child = heap_top h then h\<lparr>heap_top := None\<rparr> else h)
           else do {
             c \<leftarrow> child;
             let h = set_node c (nodes h node) h;
             let h = set_parent_of (left (nodes h c)) (Some c) h;
             let h = set_parent_of (right (nodes h c)) (Some c) h;
             let h = (case parent (nodes h node) of
                        None \<Rightarrow> h\<lparr>heap_top := Some c\<rparr>
                      | Some p \<Rightarrow> if left (nodes h p) = Some node then set_left p (Some c) h
                                  else set_right p (Some c) h);
             h \<leftarrow> heap_sift_down lt c h;
             heap_sift_up lt c h
           }
         }))"

definition heap_dequeue :: "heap \<Rightarrow> heap_compare_fn \<Rightarrow> heap option" where
  "heap_dequeue h lt =
     (case heap_top h of
        None \<Rightarrow> if nelts h = 0 then Some h else None
      | Some m \<Rightarrow> heap_remove h m lt)"

lemmas heap_updates =
  set_left_def set_right_def set_parent_def set_node_def set_parent_of_def Let_def

section \<open>Positions and paths\<close>

text \<open>The bits of a position below its top bit, most significant first: the way from the root.\<close>

fun bits_of :: "nat \<Rightarrow> bool list" where
  "bits_of n = (if n \<le> 1 then [] else bits_of (n div 2) @ [odd n])"

declare bits_of.simps [simp del]

lemma bits_of_1 [simp]: "bits_of (Suc 0) = []"
  by (simp add: bits_of.simps)

lemma bits_of_step: "2 \<le> n \<Longrightarrow> bits_of n = bits_of (n div 2) @ [odd n]"
  by (subst bits_of.simps) simp

lemma map_upt_Suc: "map f [0..<Suc k] = f 0 # map (\<lambda>i. f (Suc i)) [0..<k]"
  by (induction k) auto

lemma length_bits_of: "n < 2 ^ Suc m \<Longrightarrow> length (bits_of n) \<le> m"
proof (induction m arbitrary: n)
  case 0
  then show ?case by (simp add: bits_of.simps)
next
  case (Suc m)
  show ?case
  proof (cases "n \<le> 1")
    case False
    have "n div 2 < 2 ^ Suc m" using Suc.prems by simp
    then show ?thesis using Suc.IH [of "n div 2"] False by (simp add: bits_of_step)
  qed (simp add: bits_of.simps)
qed

lemma heap_path_bits:
  fixes n :: u32
  assumes "k + length (bits_of (unat n)) \<le> 32"
  shows "heap_path path k n = (p', k') \<Longrightarrow>
    k' = k + length (bits_of (unat n)) \<and>
    map (bit p') [0..<k'] = bits_of (unat n) @ map (bit path) [0..<k]"
  using assms
proof (induction path k n arbitrary: p' k' rule: heap_path.induct)
  case (1 path k n)
  show ?case
  proof (cases "2 \<le> n")
    case False
    then have "unat n \<le> 1" by (simp add: word_le_nat_alt)
    then show ?thesis
      using "1.prems"(1) False by (simp add: heap_path.simps [of path k n] bits_of.simps [of "unat n"])
  next
    case True
    let ?p = "push_bit 1 path OR (n AND 1)"
    have n2: "2 \<le> unat n" using True by (simp add: word_le_nat_alt)
    have step: "bits_of (unat n) = bits_of (unat (n div 2)) @ [odd (unat n)]"
      using bits_of_step [OF n2] by (simp add: unat_div)
    have len: "k + 1 + length (bits_of (unat (n div 2))) \<le> 32"
      using "1.prems"(2) step by simp
    have "heap_path ?p (k + 1) (n div 2) = (p', k')"
      using "1.prems"(1) True by (simp add: heap_path.simps [of path k n])
    then have IH: "k' = k + 1 + length (bits_of (unat (n div 2)))"
      "map (bit p') [0..<k'] = bits_of (unat (n div 2)) @ map (bit ?p) [0..<k + 1]"
      using "1.IH" [OF True _ len] by auto
    have "odd (unat n) = bit n 0" by (simp add: bit_unsigned_iff flip: bit_0)
    moreover have "bit ?p 0 = bit n 0" by (simp add: bit_0 even_or_iff even_and_iff)
    ultimately have "bit ?p 0 = odd (unat n)" by simp
    moreover have "bit ?p (Suc i) = bit path i" if "i < k" for i
      using that len unfolding bit_or_iff bit_and_iff bit_push_bit_iff by (simp add: bit_1_iff)
    ultimately have "map (bit ?p) [0..<k + 1] = odd (unat n) # map (bit path) [0..<k]"
      by (simp add: map_upt_Suc del: upt_Suc)
    then show ?thesis using IH step by simp
  qed
qed

fun follow :: "heap \<Rightarrow> bool list \<Rightarrow> slot \<Rightarrow> slot \<Rightarrow> (slot \<times> slot) option" where
  "follow h [] p c = Some (p, c)"
| "follow h (b # bs) p c =
     (case slot_get h c of
        None \<Rightarrow> None
      | Some a \<Rightarrow> follow h bs c (if b then RightSlot a else LeftSlot a))"

lemma follow_append:
  "follow h (bs @ cs) p c = (case follow h bs p c of None \<Rightarrow> None | Some (p, c) \<Rightarrow> follow h cs p c)"
  by (induction bs arbitrary: p c) (auto split: option.splits)

lemma heap_walk_follow: "heap_walk h k path p c = follow h (map (bit path) [0..<k]) p c"
proof (induction k arbitrary: path p c)
  case (Suc k)
  have "map (bit path) [0..<Suc k] = bit path 0 # map (bit (drop_bit 1 path)) [0..<k]"
    by (simp add: map_upt_Suc bit_drop_bit_eq del: upt_Suc)
  then show ?case
    using Suc.IH by (auto simp: and_one_eq bit_0 odd_iff_mod_2_eq_one simp del: upt_Suc split: option.splits)
qed simp

lemma heap_path_walk:
  assumes "heap_path 0 0 n = (path, k)"
  shows "heap_walk h k path p c = follow h (bits_of (unat n)) p c"
proof -
  have "unat n < 2 ^ Suc 31" using unsigned_less [of n] by simp
  then have "0 + length (bits_of (unat n)) \<le> 32" using length_bits_of [of "unat n" 31] by simp
  from heap_path_bits [OF this assms] have "map (bit path) [0..<k] = bits_of (unat n)" by auto
  then show ?thesis by (simp add: heap_walk_follow)
qed

section \<open>The complete tree a heap denotes\<close>

definition child_at :: "(nat \<Rightarrow> addr) \<Rightarrow> nat \<Rightarrow> nat \<Rightarrow> ptr" where
  "child_at pos n j = (if j \<le> n then Some (pos j) else None)"

definition parent_at :: "(nat \<Rightarrow> addr) \<Rightarrow> nat \<Rightarrow> ptr" where
  "parent_at pos i = (if i \<le> 1 then None else Some (pos (i div 2)))"

definition tree_rep :: "heap \<Rightarrow> (nat \<Rightarrow> addr) \<Rightarrow> nat \<Rightarrow> bool" where
  "tree_rep h pos n \<longleftrightarrow> inj_on pos {1..n} \<and> heap_top h = child_at pos n 1 \<and>
     (\<forall>i \<in> {1..n}. nodes h (pos i) =
        \<lparr>left = child_at pos n (2 * i), right = child_at pos n (2 * i + 1), parent = parent_at pos i\<rparr>)"

definition heap_rep :: "heap \<Rightarrow> (nat \<Rightarrow> addr) \<Rightarrow> nat \<Rightarrow> bool" where
  "heap_rep h pos n \<longleftrightarrow> unat (nelts h) = n \<and> tree_rep h pos n"

lemma tree_rep_node:
  assumes "tree_rep h pos n" and "1 \<le> i" and "i \<le> n"
  shows "nodes h (pos i) =
    \<lparr>left = child_at pos n (2 * i), right = child_at pos n (2 * i + 1), parent = parent_at pos i\<rparr>"
proof -
  have "i \<in> {1..n}" using assms(2,3) by simp
  with assms(1) show ?thesis unfolding tree_rep_def by blast
qed

lemma tree_repD:
  assumes "tree_rep h pos n" and "1 \<le> i" and "i \<le> n"
  shows "left (nodes h (pos i)) = child_at pos n (2 * i)"
    and "right (nodes h (pos i)) = child_at pos n (2 * i + 1)"
    and "parent (nodes h (pos i)) = parent_at pos i"
  unfolding tree_rep_node [OF assms] by simp_all

lemma tree_rep_inj:
  assumes "tree_rep h pos n" and "1 \<le> i" "i \<le> n" "1 \<le> j" "j \<le> n"
  shows "pos i = pos j \<longleftrightarrow> i = j"
proof -
  have "inj_on pos {1..n}" using assms(1) unfolding tree_rep_def by blast
  then show ?thesis using assms(2-5) by (simp add: inj_on_eq_iff)
qed

text \<open>Swapping a node with its parent exchanges their positions.\<close>

definition swap_pos :: "nat \<Rightarrow> nat \<Rightarrow> (nat \<Rightarrow> addr) \<Rightarrow> nat \<Rightarrow> addr" where
  "swap_pos i j pos = pos(i := pos j, j := pos i)"

lemma swap_pos_swap_pos: "swap_pos i j (swap_pos i j pos) = pos"
  by (simp add: swap_pos_def fun_eq_iff)

lemma swap_pos_image:
  assumes "i \<in> S" "j \<in> S"
  shows "swap_pos i j pos ` S = pos ` S"
proof -
  have sub: "swap_pos i j q ` S \<subseteq> q ` S" for q :: "nat \<Rightarrow> addr"
    using assms by (auto simp: swap_pos_def)
  from sub [of "swap_pos i j pos"] have "pos ` S \<subseteq> swap_pos i j pos ` S"
    by (simp add: swap_pos_swap_pos)
  with sub [of pos] show ?thesis by blast
qed

lemma swap_pos_inj:
  assumes "inj_on pos S" "i \<in> S" "j \<in> S" "finite S"
  shows "inj_on (swap_pos i j pos) S"
  using assms by (intro eq_card_imp_inj_on) (simp_all add: swap_pos_image card_image)

lemma nodes_set [simp]:
  "nodes (set_left a p h) = (nodes h)(a := (nodes h a)\<lparr>left := p\<rparr>)"
  "nodes (set_right a p h) = (nodes h)(a := (nodes h a)\<lparr>right := p\<rparr>)"
  "nodes (set_parent a p h) = (nodes h)(a := (nodes h a)\<lparr>parent := p\<rparr>)"
  "nodes (set_node a x h) = (nodes h)(a := x)"
  "nodes (set_parent_of q p h) b =
    (if q = Some b then (nodes h b)\<lparr>parent := p\<rparr> else nodes h b)"
  by (simp_all add: set_left_def set_right_def set_parent_def set_node_def set_parent_of_def
      split: option.split)

lemma heap_top_set [simp]:
  "heap_top (set_left a p h) = heap_top h"
  "heap_top (set_right a p h) = heap_top h"
  "heap_top (set_parent a p h) = heap_top h"
  "heap_top (set_node a x h) = heap_top h"
  "heap_top (set_parent_of q p h) = heap_top h"
  by (simp_all add: set_left_def set_right_def set_parent_def set_node_def set_parent_of_def
      split: option.split)

lemma nelts_set [simp]:
  "nelts (set_left a p h) = nelts h"
  "nelts (set_right a p h) = nelts h"
  "nelts (set_parent a p h) = nelts h"
  "nelts (set_node a x h) = nelts h"
  "nelts (set_parent_of q p h) = nelts h"
  by (simp_all add: set_left_def set_right_def set_parent_def set_node_def set_parent_of_def
      split: option.split)

lemma heap_node_swap_nelts [simp]: "nelts (heap_node_swap h p c) = nelts h"
  by (simp add: heap_node_swap_def Let_def del: nodes_set split: option.split prod.split)

text \<open>The swap in closed form.\<close>

lemma heap_node_swap_nodes:
  assumes np: "nodes h p = \<lparr>left = pl, right = pr, parent = g\<rparr>"
    and nc: "nodes h c = \<lparr>left = l, right = r, parent = Some p\<rparr>"
    and side: "(pl = Some c \<and> s = pr) \<or> (pl \<noteq> Some c \<and> pr = Some c \<and> s = pl)"
    and d: "p \<noteq> c" "s \<noteq> Some p" "s \<noteq> Some c" "l \<noteq> Some p" "l \<noteq> Some c" "r \<noteq> Some p" "r \<noteq> Some c"
      "g \<noteq> Some p" "g \<noteq> Some c" "g \<noteq> None \<longrightarrow> g \<noteq> l \<and> g \<noteq> r \<and> g \<noteq> s"
      "s \<noteq> None \<longrightarrow> s \<noteq> l \<and> s \<noteq> r"
  shows "nodes (heap_node_swap h p c) a =
      (if a = p then \<lparr>left = l, right = r, parent = Some c\<rparr>
        else if a = c then \<lparr>left = if pl = Some c then Some p else s,
                            right = if pl = Some c then s else Some p, parent = g\<rparr>
        else if s = Some a then (nodes h a)\<lparr>parent := Some c\<rparr>
        else if l = Some a \<or> r = Some a then (nodes h a)\<lparr>parent := Some p\<rparr>
        else if g = Some a then
          (if left (nodes h a) = Some p then (nodes h a)\<lparr>left := Some c\<rparr>
           else (nodes h a)\<lparr>right := Some c\<rparr>)
        else nodes h a)"
    (is ?nodes)
    and "heap_top (heap_node_swap h p c) = (if g = None then Some c else heap_top h)"
    (is ?top)
proof -
  define h1 where "h1 = (if pl = Some c
    then set_left c (Some p) (set_parent p (Some c) (set_node c (nodes h p) (set_node p (nodes h c) h)))
    else set_right c (Some p) (set_parent p (Some c) (set_node c (nodes h p) (set_node p (nodes h c) h))))"
  define h2 where "h2 = set_parent_of r (Some p) (set_parent_of l (Some p) (set_parent_of s (Some c) h1))"
  have n1: "nodes h1 b = (if b = p then \<lparr>left = l, right = r, parent = Some c\<rparr>
      else if b = c then \<lparr>left = if pl = Some c then Some p else s,
                          right = if pl = Some c then s else Some p, parent = g\<rparr>
      else nodes h b)" for b
    using d(1) side by (auto simp: h1_def np nc)
  have n2: "nodes h2 b = (if r = Some b then (nodes h1 b)\<lparr>parent := Some p\<rparr>
      else if l = Some b then (nodes h1 b)\<lparr>parent := Some p\<rparr>
      else if s = Some b then (nodes h1 b)\<lparr>parent := Some c\<rparr> else nodes h1 b)" for b
    using d(10,11) unfolding h2_def by auto
  have top2: "heap_top h2 = heap_top h" by (simp add: h2_def h1_def)
  have eq: "heap_node_swap h p c = (case g of None \<Rightarrow> h2\<lparr>heap_top := Some c\<rparr>
      | Some q \<Rightarrow> if left (nodes h2 q) = Some p then set_left q (Some c) h2
                  else set_right q (Some c) h2)"
  proof -
    have tail: "left (nodes (set_parent_of s (Some c) h1) p) = l"
      "right (nodes (set_parent_of l (Some p) (set_parent_of s (Some c) h1)) p) = r"
      "parent (nodes h2 c) = g"
      using d by (auto simp: n1 n2)
    have "left (nodes (set_parent p (Some c) (set_node c (nodes h p) (set_node p (nodes h c) h))) c) = pl"
      "right (nodes (set_parent p (Some c) (set_node c (nodes h p) (set_node p (nodes h c) h))) c) = pr"
      using d(1) by (simp_all add: np)
    then have "heap_node_swap h p c =
        (let h = h1; h = set_parent_of s (Some c) h;
             h = set_parent_of (left (nodes h p)) (Some p) h;
             h = set_parent_of (right (nodes h p)) (Some p) h
         in case parent (nodes h c) of
           None \<Rightarrow> h\<lparr>heap_top := Some c\<rparr>
         | Some g \<Rightarrow> if left (nodes h g) = Some p then set_left g (Some c) h
                     else set_right g (Some c) h)"
      using side unfolding heap_node_swap_def Let_def h1_def by (auto simp del: nodes_set)
    then show ?thesis
      unfolding Let_def tail by (simp only: tail flip: h2_def)
  qed
  show ?top by (simp add: eq top2 split: option.split)
  have gl: "left (nodes h2 q) = left (nodes h q)" "q \<noteq> p" "q \<noteq> c"
    "l \<noteq> Some q" "r \<noteq> Some q" "s \<noteq> Some q" if "g = Some q" for q
    using that d by (auto simp: n1 n2)
  show ?nodes
  proof (cases "a = p \<or> a = c")
    case True
    then have *: "nodes (heap_node_swap h p c) a = nodes h1 a"
      using d(4-9) gl(2,3) \<open>s \<noteq> Some p\<close> \<open>s \<noteq> Some c\<close> by (cases g) (auto simp: eq n2)
    from True show ?thesis
    proof
      assume "a = p"
      then show ?thesis using * by (simp add: n1)
    next
      assume "a = c"
      then show ?thesis using * d(1) by (simp add: n1)
    qed
  next
    case False
    then have "nodes h2 a = (if s = Some a then (nodes h a)\<lparr>parent := Some c\<rparr>
        else if l = Some a \<or> r = Some a then (nodes h a)\<lparr>parent := Some p\<rparr> else nodes h a)"
      using d(11) by (auto simp: n1 n2)
    then show ?thesis using False gl by (cases g) (simp_all add: eq)
  qed
qed


lemma swap_pos_apply:
  "swap_pos i j pos k = (if k = j then pos i else if k = i then pos j else pos k)"
  by (simp add: swap_pos_def)

lemma child_at_eq_pos:
  assumes "inj_on pos {1..n}" "1 \<le> a" "1 \<le> b" "b \<le> n"
  shows "child_at pos n a = Some (pos b) \<longleftrightarrow> a = b"
  using assms by (auto simp: child_at_def inj_on_eq_iff)

lemma child_at_eq:
  assumes "inj_on pos {1..n}" "1 \<le> a" "1 \<le> b" "child_at pos n a \<noteq> None"
  shows "child_at pos n a = child_at pos n b \<longleftrightarrow> a = b"
  using assms by (auto simp: child_at_def inj_on_eq_iff split: if_splits)

lemma parent_at_eq_pos:
  assumes "inj_on pos {1..n}" "a \<le> n" "1 \<le> b" "b \<le> n"
  shows "parent_at pos a = Some (pos b) \<longleftrightarrow> 2 \<le> a \<and> a div 2 = b"
proof -
  have "1 \<le> a div 2" if "2 \<le> a" using that by simp
  moreover have "a div 2 \<le> n" using assms(2) by linarith
  ultimately show ?thesis using assms by (auto simp: parent_at_def inj_on_eq_iff)
qed

lemma parent_at_eq_child_at:
  assumes "inj_on pos {1..n}" "a \<le> n" "1 \<le> b" "parent_at pos a = child_at pos n b" "parent_at pos a \<noteq> None"
  shows "a div 2 = b"
proof -
  have "b \<le> n" and eq: "child_at pos n b = Some (pos b)"
    using assms(4,5) by (auto simp: child_at_def split: if_splits)
  with parent_at_eq_pos [OF assms(1,2,3) this(1)] assms(4) show ?thesis by simp
qed

lemma tree_repI:
  assumes "inj_on pos {1..n}" "heap_top h = child_at pos n 1"
    and "\<And>k. 1 \<le> k \<Longrightarrow> k \<le> n \<Longrightarrow> nodes h (pos k) =
      \<lparr>left = child_at pos n (2 * k), right = child_at pos n (2 * k + 1), parent = parent_at pos k\<rparr>"
  shows "tree_rep h pos n"
  unfolding tree_rep_def using assms by (metis atLeastAtMost_iff)

lemma tree_rep_top:
  assumes "tree_rep h pos n"
  shows "heap_top h = child_at pos n 1"
  using assms unfolding tree_rep_def by blast

lemma tree_rep_inj_on:
  assumes "tree_rep h pos n"
  shows "inj_on pos {1..n}"
  using assms unfolding tree_rep_def by blast

text \<open>The nodes after a swap of positions \<open>j\<close> and \<open>j div 2\<close>, by position.\<close>

lemma swap_at_nodes:
  assumes t: "tree_rep h pos n" and j: "2 \<le> j" "j \<le> n" and i: "i = j div 2" and m: "1 \<le> m" "m \<le> n"
  defines "sib \<equiv> (if even j then j + 1 else j - 1)"
  shows "nodes (heap_node_swap h (pos i) (pos j)) (pos m) =
     (if m = i then \<lparr>left = child_at pos n (2 * j), right = child_at pos n (2 * j + 1), parent = Some (pos j)\<rparr>
      else if m = j then \<lparr>left = if even j then Some (pos i) else child_at pos n sib,
                          right = if even j then child_at pos n sib else Some (pos i), parent = parent_at pos i\<rparr>
      else if m = sib then (nodes h (pos m))\<lparr>parent := Some (pos j)\<rparr>
      else if m = 2 * j \<or> m = 2 * j + 1 then (nodes h (pos m))\<lparr>parent := Some (pos i)\<rparr>
      else if 2 \<le> i \<and> m = i div 2 then
        (if even i then (nodes h (pos m))\<lparr>left := Some (pos j)\<rparr>
         else (nodes h (pos m))\<lparr>right := Some (pos j)\<rparr>)
      else nodes h (pos m))" (is ?N)
    and "heap_top (heap_node_swap h (pos i) (pos j)) = (if i = 1 then Some (pos j) else heap_top h)" (is ?T)
proof -
  note inj = tree_rep_inj_on [OF t]
  have i1: "1 \<le> i" "i \<le> n" "i < j" "i \<noteq> sib" "j \<noteq> sib" "1 \<le> sib"
    using i j by (auto simp: sib_def elim!: oddE)
  have ij: "even j \<Longrightarrow> j = 2 * i" "odd j \<Longrightarrow> j = 2 * i + 1" using i by (auto elim!: oddE)
  have np: "nodes h (pos i) = \<lparr>left = child_at pos n (2 * i), right = child_at pos n (2 * i + 1), parent = parent_at pos i\<rparr>"
    by (rule tree_rep_node [OF t i1(1,2)])
  have nc: "nodes h (pos j) = \<lparr>left = child_at pos n (2 * j), right = child_at pos n (2 * j + 1), parent = Some (pos i)\<rparr>"
    using tree_rep_node [OF t _ j(2)] j i by (simp add: parent_at_def)
  have pl: "child_at pos n (2 * i) = Some (pos j) \<longleftrightarrow> even j"
    using child_at_eq_pos [OF inj, of "2 * i" j] ij i1 j by auto
  have side: "(child_at pos n (2 * i) = Some (pos j) \<and> child_at pos n sib = child_at pos n (2 * i + 1)) \<or>
      (child_at pos n (2 * i) \<noteq> Some (pos j) \<and> child_at pos n (2 * i + 1) = Some (pos j) \<and>
       child_at pos n sib = child_at pos n (2 * i))"
    using ij j by (cases "even j") (simp_all add: pl sib_def child_at_def)
  have c: "child_at pos n a = Some (pos b) \<longleftrightarrow> a = b" if "1 \<le> a" "1 \<le> b" "b \<le> n" for a b
    by (rule child_at_eq_pos [OF inj that])
  have pa: "parent_at pos i = Some (pos b) \<longleftrightarrow> 2 \<le> i \<and> i div 2 = b" if "1 \<le> b" "b \<le> n" for b
    by (rule parent_at_eq_pos [OF inj i1(2) that])
  have d: "pos i \<noteq> pos j" using tree_rep_inj [OF t i1(1,2) _ j(2)] i1(3) j by simp
  have g: "parent_at pos i \<noteq> None \<longrightarrow> parent_at pos i \<noteq> child_at pos n (2 * j) \<and>
      parent_at pos i \<noteq> child_at pos n (2 * j + 1) \<and> parent_at pos i \<noteq> child_at pos n sib"
  proof
    assume g: "parent_at pos i \<noteq> None"
    have ne: "parent_at pos i \<noteq> child_at pos n b" if "1 \<le> b" "i div 2 < b" for b
      using parent_at_eq_child_at [OF inj i1(2) that(1)] g that(2) by blast
    have "i div 2 < sib" using i j by (auto simp: sib_def elim!: oddE)
    then show "parent_at pos i \<noteq> child_at pos n (2 * j) \<and> parent_at pos i \<noteq> child_at pos n (2 * j + 1) \<and>
        parent_at pos i \<noteq> child_at pos n sib"
      using i1 j by (intro conjI) (simp_all add: ne)
  qed
  have s: "child_at pos n sib \<noteq> None \<longrightarrow> child_at pos n sib \<noteq> child_at pos n (2 * j) \<and>
      child_at pos n sib \<noteq> child_at pos n (2 * j + 1)"
    using child_at_eq [OF inj i1(6), of "2 * j"] child_at_eq [OF inj i1(6), of "2 * j + 1"] j
    by (auto simp: sib_def)
  have "child_at pos n sib \<noteq> Some (pos i)" "child_at pos n sib \<noteq> Some (pos j)"
    "child_at pos n (2 * j) \<noteq> Some (pos i)" "child_at pos n (2 * j) \<noteq> Some (pos j)"
    "child_at pos n (2 * j + 1) \<noteq> Some (pos i)" "child_at pos n (2 * j + 1) \<noteq> Some (pos j)"
    "parent_at pos i \<noteq> Some (pos i)" "parent_at pos i \<noteq> Some (pos j)"
    using c pa i1 j by auto
  note swap = heap_node_swap_nodes [OF np nc side d this g s]
  show ?T
    using swap(2) c pa i1 j by (auto simp: parent_at_def)
  have eqs: "(pos m = pos i) = (m = i)" "(pos m = pos j) = (m = j)"
    "(child_at pos n sib = Some (pos m)) = (m = sib)"
    "(child_at pos n (2 * j) = Some (pos m)) = (m = 2 * j)"
    "(child_at pos n (2 * j + 1) = Some (pos m)) = (m = 2 * j + 1)"
    "(parent_at pos i = Some (pos m)) = (2 \<le> i \<and> m = i div 2)"
    using c pa i1 j m by (auto simp: tree_rep_inj [OF t])
  have e: "(left (nodes h (pos m)) = Some (pos i)) = even i" if "2 \<le> i \<and> m = i div 2"
  proof -
    have "2 * m = i \<longleftrightarrow> even i" using that double_iff [of m i] by simp
    then show ?thesis using c [of "2 * m" i] m i1 unfolding tree_repD(1) [OF t m] by simp
  qed
  show ?N
  proof (cases "2 \<le> i \<and> m = i div 2")
    case True
    show ?thesis unfolding swap(1) eqs pl e [OF True] by (rule refl)
  next
    case False
    show ?thesis unfolding swap(1) eqs pl by (simp only: False if_False)
  qed
qed

lemma heap_node_swap_tree:
  assumes t: "tree_rep h pos n" and j: "2 \<le> j" "j \<le> n" and i: "i = j div 2"
  shows "tree_rep (heap_node_swap h (pos i) (pos j)) (swap_pos i j pos) n"
proof (rule tree_repI)
  have i1: "1 \<le> i" "i \<le> n" "i < j" using i j by auto
  show "inj_on (swap_pos i j pos) {1..n}"
    using swap_pos_inj [OF tree_rep_inj_on [OF t]] i1 j by simp
  show "heap_top (heap_node_swap h (pos i) (pos j)) = child_at (swap_pos i j pos) n 1"
    using swap_at_nodes(2) [OF t j i i1(1,2)] tree_rep_top [OF t] i1 j
    by (auto simp: child_at_def swap_pos_apply)
  fix k assume k: "1 \<le> k" "k \<le> n"
  show "nodes (heap_node_swap h (pos i) (pos j)) (swap_pos i j pos k) =
      \<lparr>left = child_at (swap_pos i j pos) n (2 * k), right = child_at (swap_pos i j pos) n (2 * k + 1),
        parent = parent_at (swap_pos i j pos) k\<rparr>"
  proof -
    note nodes = swap_at_nodes(1) [OF t j i]
    define sib where "sib = (if even j then j + 1 else j - 1)"
    have ij: "even j \<Longrightarrow> j = 2 * i" "odd j \<Longrightarrow> j = 2 * i + 1" using i by (auto elim!: oddE)
    have sib: "sib = 2 * i + 1 \<and> j = 2 * i \<or> sib = 2 * i \<and> j = 2 * i + 1"
      using ij by (auto simp: sib_def)
    consider "k = i" | "k = j" | "k = sib" "k \<noteq> i" "k \<noteq> j" | "k = 2 * j \<or> k = 2 * j + 1"
      | "2 \<le> i" "k = i div 2" | "k \<noteq> i" "k \<noteq> j" "k \<noteq> sib" "k \<noteq> 2 * j" "k \<noteq> 2 * j + 1" "\<not> (2 \<le> i \<and> k = i div 2)"
      by blast
    then show ?thesis
    proof cases
      case 1
      then have "swap_pos i j pos k = pos j" using i1 by (simp add: swap_pos_apply)
      then show ?thesis
        unfolding \<open>swap_pos i j pos k = pos j\<close> nodes [OF order_trans [OF _ j(1)] j(2), simplified]
        using 1 i1 ij j by (cases "even j") (auto simp: child_at_def parent_at_def swap_pos_apply)
    next
      case 2
      then have "swap_pos i j pos k = pos i" using i1 by (simp add: swap_pos_apply)
      then show ?thesis
        unfolding \<open>swap_pos i j pos k = pos i\<close> nodes [OF i1(1,2)]
        using 2 i1 ij j i [symmetric] by (auto simp: child_at_def parent_at_def swap_pos_apply)
    next
      case 3
      then have eq: "swap_pos i j pos k = pos k" by (simp add: swap_pos_apply)
      have nk: "nodes (heap_node_swap h (pos i) (pos j)) (pos k) = (nodes h (pos k))\<lparr>parent := Some (pos j)\<rparr>"
        unfolding nodes [OF k] sib_def [symmetric] using 3 by simp
      have "2 \<le> k" "k div 2 = i" "2 * k \<noteq> i" "2 * k \<noteq> j" "2 * k + 1 \<noteq> i" "2 * k + 1 \<noteq> j"
        using sib 3(1) i1 j by (elim disjE conjE; simp)+
      then have "child_at (swap_pos i j pos) n (2 * k) = child_at pos n (2 * k)"
        "child_at (swap_pos i j pos) n (2 * k + 1) = child_at pos n (2 * k + 1)"
        "parent_at (swap_pos i j pos) k = Some (pos j)"
        using i1 by (simp_all add: child_at_def parent_at_def swap_pos_apply)
      then show ?thesis unfolding eq nk tree_rep_node [OF t k] by simp
    next
      case 4
      then have eq: "swap_pos i j pos k = pos k" using i1 by (auto simp: swap_pos_apply)
      have ne: "k \<noteq> i" "k \<noteq> j" "k \<noteq> sib" using 4 sib i1 by (elim disjE; simp)+
      have nk: "nodes (heap_node_swap h (pos i) (pos j)) (pos k) = (nodes h (pos k))\<lparr>parent := Some (pos i)\<rparr>"
        unfolding nodes [OF k] sib_def [symmetric] using 4 ne by simp
      have "2 \<le> k" "k div 2 = j" "2 * k \<noteq> i" "2 * k \<noteq> j" "2 * k + 1 \<noteq> i" "2 * k + 1 \<noteq> j"
        using 4 i1 j by (elim disjE; simp)+
      then have "child_at (swap_pos i j pos) n (2 * k) = child_at pos n (2 * k)"
        "child_at (swap_pos i j pos) n (2 * k + 1) = child_at pos n (2 * k + 1)"
        "parent_at (swap_pos i j pos) k = Some (pos i)"
        using i1 by (simp_all add: child_at_def parent_at_def swap_pos_apply)
      then show ?thesis unfolding eq nk tree_rep_node [OF t k] by simp
    next
      case 5
      have ne: "k \<noteq> i" "k \<noteq> j" "k \<noteq> sib" "k \<noteq> 2 * j" "k \<noteq> 2 * j + 1" "k < i"
        using 5 sib i1 by auto
      then have eq: "swap_pos i j pos k = pos k" by (simp add: swap_pos_apply)
      have nk: "nodes (heap_node_swap h (pos i) (pos j)) (pos k) =
          (if even i then (nodes h (pos k))\<lparr>left := Some (pos j)\<rparr> else (nodes h (pos k))\<lparr>right := Some (pos j)\<rparr>)"
        unfolding nodes [OF k] sib_def [symmetric] using 5 ne by (simp only: if_False if_True simp_thms)
      have "2 * k \<noteq> j" "2 * k + 1 \<noteq> j" "k div 2 \<noteq> i" "k div 2 \<noteq> j"
      proof -
        have "2 * i \<le> j" "k div 2 \<le> k" using sib by auto
        then show "2 * k \<noteq> j" "2 * k + 1 \<noteq> j" "k div 2 \<noteq> i" "k div 2 \<noteq> j" using ne(6) by linarith+
      qed
      then have ch: "child_at (swap_pos i j pos) n (2 * k) = (if even i then Some (pos j) else child_at pos n (2 * k))"
        "child_at (swap_pos i j pos) n (2 * k + 1) = (if even i then child_at pos n (2 * k + 1) else Some (pos j))"
        "parent_at (swap_pos i j pos) k = parent_at pos k"
        using 5 i1 by (auto simp: child_at_def parent_at_def swap_pos_apply elim: oddE)
      show ?thesis unfolding eq nk ch tree_rep_node [OF t k] by simp
    next
      case 6
      then have eq: "swap_pos i j pos k = pos k" by (simp add: swap_pos_apply)
      have nk: "nodes (heap_node_swap h (pos i) (pos j)) (pos k) = nodes h (pos k)"
        unfolding nodes [OF k] sib_def [symmetric] using 6 by (simp only: if_False simp_thms)
      have "2 * k \<noteq> i" "2 * k + 1 \<noteq> i" "k div 2 \<noteq> j" using 6 i1 k by auto
      moreover have "2 * k \<noteq> j" "2 * k + 1 \<noteq> j" "k div 2 \<noteq> i"
        using 6(1-3) sib unfolding half_iff by (elim disjE conjE; simp; fail | auto)+
      ultimately have ch: "child_at (swap_pos i j pos) n (2 * k) = child_at pos n (2 * k)"
        "child_at (swap_pos i j pos) n (2 * k + 1) = child_at pos n (2 * k + 1)"
        "parent_at (swap_pos i j pos) k = parent_at pos k"
        using i1 by (auto simp: child_at_def parent_at_def swap_pos_apply)
      show ?thesis unfolding eq nk ch tree_rep_node [OF t k] by simp
    qed
  qed
qed
section \<open>Following a path\<close>

definition slot_at :: "(nat \<Rightarrow> addr) \<Rightarrow> nat \<Rightarrow> slot" where
  "slot_at pos i =
     (if i \<le> 1 then MinSlot else if odd i then RightSlot (pos (i div 2)) else LeftSlot (pos (i div 2)))"

lemma slot_get_at:
  assumes t: "tree_rep h pos n" and i: "1 \<le> i" "i div 2 \<le> n"
  shows "slot_get h (slot_at pos i) = child_at pos n i"
proof (cases "i = 1")
  case True
  then show ?thesis using tree_rep_top [OF t] by (simp add: slot_at_def)
next
  case False
  then have "1 \<le> i div 2" using i by simp
  then show ?thesis
    using tree_repD(1,2) [OF t _ i(2)] False i by (auto simp: slot_at_def elim!: oddE)
qed

lemma follow_slot:
  assumes t: "tree_rep h pos n"
  shows "1 \<le> i \<Longrightarrow> i \<le> n + 1 \<Longrightarrow>
    follow h (bits_of i) MinSlot MinSlot = Some (slot_at pos (i div 2), slot_at pos i)"
proof (induction i rule: less_induct)
  case (less i)
  show ?case
  proof (cases "i = 1")
    case True
    then show ?thesis by (simp add: slot_at_def)
  next
    case False
    then have i2: "2 \<le> i" using less.prems by simp
    then have d: "1 \<le> i div 2" "i div 2 \<le> n" "i div 2 div 2 \<le> n" "i div 2 < i" using less.prems by auto
    have "follow h (bits_of (i div 2)) MinSlot MinSlot =
        Some (slot_at pos (i div 2 div 2), slot_at pos (i div 2))"
      using less.IH [OF d(4)] d by simp
    moreover have "slot_get h (slot_at pos (i div 2)) = Some (pos (i div 2))"
      using slot_get_at [OF t d(1,3)] d by (simp add: child_at_def)
    ultimately show ?thesis
      using False less.prems by (simp add: bits_of_step [OF i2] follow_append) (simp add: slot_at_def)
  qed
qed

lemma heap_path_slot:
  assumes "tree_rep h pos n" "heap_path 0 0 m = (path, k)" "1 \<le> unat m" "unat m \<le> n + 1"
  shows "heap_walk h k path MinSlot MinSlot = Some (slot_at pos (unat m div 2), slot_at pos (unat m))"
  using heap_path_walk [OF assms(2)] follow_slot [OF assms(1,3,4)] by simp

section \<open>Growing, shrinking and replacing in the complete tree\<close>

lemma tree_rep_cong:
  assumes "tree_rep h pos n" "heap_top h' = heap_top h"
    and "\<And>k. 1 \<le> k \<Longrightarrow> k \<le> n \<Longrightarrow> nodes h' (pos k) = nodes h (pos k)"
  shows "tree_rep h' pos n"
  using assms tree_rep_node [OF assms(1)] tree_rep_top [OF assms(1)] tree_rep_inj_on [OF assms(1)]
  by (intro tree_repI) simp_all

lemma tree_rep_add:
  assumes t: "tree_rep h pos n" and x: "x \<notin> pos ` {1..n}"
    and nx: "nodes h x = \<lparr>left = None, right = None, parent = parent_at pos (n + 1)\<rparr>"
  shows "tree_rep (slot_set (slot_at pos (n + 1)) (Some x) h) (pos(n + 1 := x)) (n + 1)"
    (is "tree_rep ?h ?p _")
proof (rule tree_repI)
  show "inj_on ?p {1..n + 1}"
  proof -
    have eq: "{1..n + 1} = insert (n + 1) {1..n}" by auto
    have im: "?p ` {1..n} = pos ` {1..n}" by (rule image_cong) auto
    have "inj_on ?p {1..n}" using tree_rep_inj_on [OF t] by (rule inj_on_cong [THEN iffD1, rotated]) simp
    then show ?thesis using x unfolding eq inj_on_insert by (simp add: im)
  qed
  show "heap_top ?h = child_at ?p (n + 1) 1"
    using tree_rep_top [OF t] by (auto simp: slot_at_def child_at_def)
  fix k assume k: "1 \<le> k" "k \<le> n + 1"
  show "nodes ?h (?p k) = \<lparr>left = child_at ?p (n + 1) (2 * k), right = child_at ?p (n + 1) (2 * k + 1),
      parent = parent_at ?p k\<rparr>"
  proof (cases "k = n + 1")
    case True
    have "pos ((n + 1) div 2) \<noteq> x" if "1 \<le> n"
    proof -
      have "(n + 1) div 2 \<in> {1..n}" using that by auto
      then show ?thesis using x by blast
    qed
    then have "nodes ?h x = nodes h x" by (auto simp: slot_at_def)
    then show ?thesis using True nx by (auto simp: child_at_def parent_at_def)
  next
    case False
    then have kn: "k \<le> n" using k by simp
    have nk: "nodes ?h (pos k) =
      (if 1 \<le> n \<and> k = (n + 1) div 2 then
        (if odd (n + 1) then (nodes h (pos k))\<lparr>right := Some x\<rparr> else (nodes h (pos k))\<lparr>left := Some x\<rparr>)
       else nodes h (pos k))"
    proof (cases "1 \<le> n")
      case True
      define q where "q = (n + 1) div 2"
      have q: "1 \<le> q" "q \<le> n" using True by (auto simp: q_def)
      have "slot_at pos (n + 1) = (if odd (n + 1) then RightSlot (pos q) else LeftSlot (pos q))"
        using True by (simp only: slot_at_def q_def) simp
      with tree_rep_inj [OF t k(1) kn q] show ?thesis unfolding q_def [symmetric] using True by simp
    qed (use k kn in simp)
    have ch: "child_at ?p (n + 1) (2 * k) = (if 2 * k = n + 1 then Some x else child_at pos n (2 * k))"
      "child_at ?p (n + 1) (2 * k + 1) = (if 2 * k = n then Some x else child_at pos n (2 * k + 1))"
      "parent_at ?p k = parent_at pos k"
      using kn by (auto simp: child_at_def parent_at_def)
    have e: "2 * k = n + 1 \<longleftrightarrow> 1 \<le> n \<and> k = (n + 1) div 2 \<and> even (n + 1)"
      "2 * k = n \<longleftrightarrow> 1 \<le> n \<and> k = (n + 1) div 2 \<and> odd (n + 1)"
      using k kn double_iff [of k "n + 1"] double_Suc_iff [of k "n + 1"] by auto
    have pk: "?p k = pos k" using False by simp
    show ?thesis
      unfolding pk nk ch e tree_rep_node [OF t k(1) kn] by (cases "odd (n + 1)") simp_all
  qed
qed

lemma tree_rep_drop:
  assumes t: "tree_rep h pos n" and n: "1 \<le> n"
  shows "tree_rep (slot_set (slot_at pos n) None h) pos (n - 1)" (is "tree_rep ?h _ _")
proof (rule tree_repI)
  show "inj_on pos {1..n - 1}"
    by (rule inj_on_subset [OF tree_rep_inj_on [OF t]]) auto
  show "heap_top ?h = child_at pos (n - 1) 1"
    using tree_rep_top [OF t] n by (auto simp: slot_at_def child_at_def)
  fix k assume k: "1 \<le> k" "k \<le> n - 1"
  then have kn: "k \<le> n" by simp
  have nk: "nodes ?h (pos k) =
      (if k = n div 2 then
        (if odd n then (nodes h (pos k))\<lparr>right := None\<rparr> else (nodes h (pos k))\<lparr>left := None\<rparr>)
       else nodes h (pos k))"
    using tree_rep_inj [OF t k(1) kn, of "n div 2"] n k by (auto simp: slot_at_def)
  have "2 * k = n \<longleftrightarrow> k = n div 2 \<and> even n"
    "2 * k + 1 = n \<longleftrightarrow> k = n div 2 \<and> odd n" by (rule double_iff double_Suc_iff)+
  then have ch: "child_at pos (n - 1) (2 * k) = (if k = n div 2 \<and> even n then None else child_at pos n (2 * k))"
    "child_at pos (n - 1) (2 * k + 1) = (if k = n div 2 \<and> odd n then None else child_at pos n (2 * k + 1))"
    using n k by (auto simp: child_at_def)
  show "nodes ?h (pos k) = \<lparr>left = child_at pos (n - 1) (2 * k), right = child_at pos (n - 1) (2 * k + 1),
      parent = parent_at pos k\<rparr>"
    unfolding ch nk tree_rep_node [OF t k(1) kn] by simp
qed

text \<open>Node \<open>c\<close> takes the place of the node at position \<open>i\<close>.\<close>

definition replace_node :: "addr \<Rightarrow> addr \<Rightarrow> heap \<Rightarrow> heap" where
  "replace_node node c h =
     (let h = set_node c (nodes h node) h;
          h = set_parent_of (left (nodes h c)) (Some c) h;
          h = set_parent_of (right (nodes h c)) (Some c) h
      in case parent (nodes h node) of
           None \<Rightarrow> h\<lparr>heap_top := Some c\<rparr>
         | Some p \<Rightarrow> if left (nodes h p) = Some node then set_left p (Some c) h
                     else set_right p (Some c) h)"

lemma tree_rep_replace:
  assumes t: "tree_rep h pos n" and i: "1 \<le> i" "i \<le> n" and c: "c \<notin> pos ` {1..n}"
  shows "tree_rep (replace_node (pos i) c h) (pos(i := c)) n" (is "tree_rep ?h ?p _")
proof (rule tree_repI)
  note inj = tree_rep_inj_on [OF t]
  have ni: "nodes h (pos i) = \<lparr>left = child_at pos n (2 * i), right = child_at pos n (2 * i + 1), parent = parent_at pos i\<rparr>"
    by (rule tree_rep_node [OF t i])
  have cne: "pos k \<noteq> c" if "1 \<le> k" "k \<le> n" for k using c that by auto
  have chc: "child_at pos n k \<noteq> Some c" if "1 \<le> k" for k using cne that by (simp add: child_at_def)
  have pac: "parent_at pos i \<noteq> Some c"
    using cne [of "i div 2"] i by (auto simp: parent_at_def)
  define h2 where "h2 = set_parent_of (child_at pos n (2 * i + 1)) (Some c)
    (set_parent_of (child_at pos n (2 * i)) (Some c) (set_node c (nodes h (pos i)) h))"
  have n2: "nodes h2 a = (if a = c then nodes h (pos i)
      else if child_at pos n (2 * i) = Some a \<or> child_at pos n (2 * i + 1) = Some a
      then (nodes h a)\<lparr>parent := Some c\<rparr> else nodes h a)" for a
    using chc [of "2 * i"] chc [of "2 * i + 1"] i by (auto simp: h2_def)
  have pi: "parent (nodes h2 (pos i)) = parent_at pos i"
    using cne [OF i] child_at_eq_pos [OF inj _ i, of "2 * i"] child_at_eq_pos [OF inj _ i, of "2 * i + 1"] i
    by (simp add: n2 ni)
  have eq: "?h = (case parent_at pos i of None \<Rightarrow> h2\<lparr>heap_top := Some c\<rparr>
      | Some p \<Rightarrow> if left (nodes h2 p) = Some (pos i) then set_left p (Some c) h2 else set_right p (Some c) h2)"
  proof -
    have "left (nodes (set_node c (nodes h (pos i)) h) c) = child_at pos n (2 * i)"
      "right (nodes (set_parent_of (child_at pos n (2 * i)) (Some c) (set_node c (nodes h (pos i)) h)) c)
        = child_at pos n (2 * i + 1)"
      using chc [of "2 * i"] i by (simp_all add: ni)
    then show ?thesis unfolding replace_node_def Let_def
      by (simp only: flip: h2_def) (simp only: pi)
  qed
  show "inj_on ?p {1..n}"
    using inj_on_fun_updI [OF inj c] .
  have top2: "heap_top h2 = heap_top h" by (simp add: h2_def)
  show "heap_top ?h = child_at ?p n 1"
    using tree_rep_top [OF t] i by (auto simp: eq top2 parent_at_def child_at_def)
  fix k assume k: "1 \<le> k" "k \<le> n"
  show "nodes ?h (?p k) = \<lparr>left = child_at ?p n (2 * k), right = child_at ?p n (2 * k + 1), parent = parent_at ?p k\<rparr>"
  proof (cases "k = i")
    case True
    have "nodes ?h c = nodes h2 c" using pac by (auto simp: eq split: option.split)
    then show ?thesis using True i by (auto simp: n2 ni child_at_def parent_at_def)
  next
    case False
    have pk: "pos k \<noteq> c" by (rule cne [OF k])
    have chk: "child_at pos n b = Some (pos k) \<longleftrightarrow> k = b" if "1 \<le> b" for b
      using child_at_eq_pos [OF inj that k] by auto
    have pak: "parent_at pos i = Some (pos k) \<longleftrightarrow> 2 \<le> i \<and> i div 2 = k"
      by (rule parent_at_eq_pos [OF inj i(2) k])
    have n2k: "nodes h2 (pos k) = \<lparr>left = child_at pos n (2 * k), right = child_at pos n (2 * k + 1), parent = parent_at ?p k\<rparr>"
    proof (cases "2 \<le> k \<and> k div 2 = i")
      case True
      then have "k = 2 * i \<or> k = 2 * i + 1" using half_iff [of k i] by simp
      then show ?thesis using pk chk [of "2 * i"] chk [of "2 * i + 1"] i True
        by (simp add: n2 tree_rep_node [OF t k, simplified]) (simp add: parent_at_def)
    next
      case False
      then have "k \<noteq> 2 * i" "k \<noteq> 2 * i + 1" using i by auto
      then show ?thesis using pk chk [of "2 * i"] chk [of "2 * i + 1"] i False
        by (simp add: n2 tree_rep_node [OF t k, simplified]) (auto simp: parent_at_def)
    qed
    have left: "child_at pos n (2 * k) = Some (pos i) \<longleftrightarrow> 2 * k = i"
      using child_at_eq_pos [OF inj _ i, of "2 * k"] k by simp
    have "nodes ?h (pos k) = (if 2 \<le> i \<and> i div 2 = k
        then (if 2 * k = i then (nodes h2 (pos k))\<lparr>left := Some c\<rparr> else (nodes h2 (pos k))\<lparr>right := Some c\<rparr>)
        else nodes h2 (pos k))"
    proof (cases "2 \<le> i \<and> i div 2 = k")
      case True
      then have "parent_at pos i = Some (pos k)" using pak by blast
      then show ?thesis using True left by (simp add: eq) (simp add: n2k)
    next
      case False
      then have "parent_at pos i \<noteq> Some (pos k)" using pak by blast
      then show ?thesis using False by (auto simp: eq split: option.split)
    qed
    moreover have "2 * k = i \<Longrightarrow> 2 \<le> i \<and> i div 2 = k" "2 * k + 1 = i \<longleftrightarrow> 2 \<le> i \<and> i div 2 = k \<and> 2 * k \<noteq> i"
      using k half_iff [of i k] by auto
    then have "child_at ?p n (2 * k) = (if 2 * k = i then Some c else child_at pos n (2 * k))"
      "child_at ?p n (2 * k + 1) = (if 2 \<le> i \<and> i div 2 = k \<and> 2 * k \<noteq> i then Some c else child_at pos n (2 * k + 1))"
      using i by (auto simp: child_at_def)
    ultimately show ?thesis using False \<open>2 * k = i \<Longrightarrow> 2 \<le> i \<and> i div 2 = k\<close> by (auto simp: n2k)
  qed
qed

section \<open>Heap order\<close>

definition strict_weak :: "heap_compare_fn \<Rightarrow> bool" where
  "strict_weak lt \<longleftrightarrow> (\<forall>a b. lt a b \<longrightarrow> \<not> lt b a) \<and> (\<forall>a b c. \<not> lt b a \<longrightarrow> \<not> lt c b \<longrightarrow> \<not> lt c a)"

lemma strict_weak_asym: "strict_weak lt \<Longrightarrow> lt a b \<Longrightarrow> \<not> lt b a"
  unfolding strict_weak_def by blast

lemma strict_weak_trans: "strict_weak lt \<Longrightarrow> \<not> lt b a \<Longrightarrow> \<not> lt c b \<Longrightarrow> \<not> lt c a"
  unfolding strict_weak_def by blast

lemma strict_weak_irrefl: "strict_weak lt \<Longrightarrow> \<not> lt a a"
  unfolding strict_weak_def by blast

definition heap_ordered :: "heap_compare_fn \<Rightarrow> (nat \<Rightarrow> addr) \<Rightarrow> nat \<Rightarrow> bool" where
  "heap_ordered lt pos n \<longleftrightarrow> (\<forall>i \<in> {2..n}. \<not> lt (pos i) (pos (i div 2)))"

text \<open>Only the edge above position \<open>j\<close> may be out of order.\<close>

definition up_inv :: "heap_compare_fn \<Rightarrow> (nat \<Rightarrow> addr) \<Rightarrow> nat \<Rightarrow> nat \<Rightarrow> bool" where
  "up_inv lt pos n j \<longleftrightarrow>
     (\<forall>i \<in> {2..n}. i \<noteq> j \<longrightarrow> \<not> lt (pos i) (pos (i div 2))) \<and>
     (\<forall>i \<in> {2..n}. i div 2 = j \<longrightarrow> 2 \<le> j \<longrightarrow> \<not> lt (pos i) (pos (j div 2)))"

text \<open>Only the edges below position \<open>j\<close> and the edge above it may be out of order.\<close>

definition down_inv :: "heap_compare_fn \<Rightarrow> (nat \<Rightarrow> addr) \<Rightarrow> nat \<Rightarrow> nat \<Rightarrow> bool" where
  "down_inv lt pos n j \<longleftrightarrow>
     (\<forall>i \<in> {2..n}. i \<noteq> j \<longrightarrow> i div 2 \<noteq> j \<longrightarrow> \<not> lt (pos i) (pos (i div 2))) \<and>
     (\<forall>i \<in> {2..n}. i div 2 = j \<longrightarrow> 2 \<le> j \<longrightarrow> \<not> lt (pos i) (pos (j div 2)))"

lemma up_inv_swap:
  assumes w: "strict_weak lt" and u: "up_inv lt pos n j" and j: "2 \<le> j" "j \<le> n" and lt: "lt (pos j) (pos (j div 2))"
  shows "up_inv lt (swap_pos (j div 2) j pos) n (j div 2)"
proof -
  let ?i = "j div 2" and ?q = "swap_pos (j div 2) j pos"
  have i: "1 \<le> ?i" "?i < j" "?i \<le> n" using j by auto
  have nlt: "\<not> lt (pos ?i) (pos j)" by (rule strict_weak_asym [OF w lt])
  have u1: "\<not> lt (pos k) (pos (k div 2))" if "2 \<le> k" "k \<le> n" "k \<noteq> j" for k
    using u that by (simp add: up_inv_def)
  have u2: "\<not> lt (pos k) (pos ?i)" if "2 \<le> k" "k \<le> n" "k div 2 = j" for k
    using u that j by (simp add: up_inv_def)
  have "\<not> lt (?q k) (?q (k div 2))" if k: "2 \<le> k" "k \<le> n" "k \<noteq> ?i" for k
  proof -
    consider "k = j" | "k div 2 = j" | "k div 2 = ?i" "k \<noteq> j" | "k \<noteq> j" "k div 2 \<noteq> j" "k div 2 \<noteq> ?i" by blast
    then show ?thesis
    proof cases
      case 1
      have "j div 2 \<noteq> j" using i by simp
      then show ?thesis using 1 nlt by (simp add: swap_pos_apply)
    next
      case 2
      then have "k \<noteq> j" using j by auto
      then show ?thesis using 2 k i u2 [OF k(1,2) 2] by (simp add: swap_pos_apply)
    next
      case 3
      then show ?thesis using k i strict_weak_trans [OF w nlt, of "pos k"] u1 [OF k(1,2) 3(2)]
        by (simp add: swap_pos_apply)
    next
      case 4 then show ?thesis using k u1 [OF k(1,2) 4(1)] by (simp add: swap_pos_apply)
    qed
  qed
  moreover have "\<not> lt (?q k) (?q (?i div 2))" if k: "2 \<le> k" "k \<le> n" "k div 2 = ?i" "2 \<le> ?i" for k
  proof -
    have top: "\<not> lt (pos ?i) (pos (?i div 2))" using u1 [of ?i] i k by simp
    have "?i div 2 \<noteq> ?i" "?i div 2 \<noteq> j" using k(4) by auto
    then have q: "?q (?i div 2) = pos (?i div 2)" by (simp add: swap_pos_apply)
    show ?thesis
    proof (cases "k = j")
      case True then show ?thesis unfolding q using top by (simp add: swap_pos_apply)
    next
      case False
      have "k \<noteq> ?i" using k by auto
      then show ?thesis unfolding q
        using False k(3) strict_weak_trans [OF w top, of "pos k"] u1 [OF k(1,2) False] by (simp add: swap_pos_apply)
    qed
  qed
  ultimately show ?thesis unfolding up_inv_def by simp
qed
lemma strict_weak_lt_trans:
  assumes w: "strict_weak lt" and "lt a b" "lt b c"
  shows "lt a c"
  using strict_weak_trans [OF w strict_weak_asym [OF w assms(3)], of a] assms(2) by blast

lemma heap_ordered_up: "heap_ordered lt pos n" if "up_inv lt pos n j" "j \<le> 1 \<or> \<not> lt (pos j) (pos (j div 2))"
  using that unfolding heap_ordered_def up_inv_def by (metis Suc_1 atLeastAtMost_iff not_less_eq_eq One_nat_def)

lemma heap_sift_up_ordered:
  assumes w: "strict_weak lt"
  shows "heap_rep h pos n \<Longrightarrow> 1 \<le> j \<Longrightarrow> j \<le> n \<Longrightarrow> up_inv lt pos n j \<Longrightarrow>
    \<exists>h' pos'. heap_sift_up lt (pos j) h = Some h' \<and> heap_rep h' pos' n \<and> heap_ordered lt pos' n \<and>
      pos' ` {1..n} = pos ` {1..n}"
proof (induction j arbitrary: h pos rule: less_induct)
  case (less j)
  have t: "tree_rep h pos n" using less.prems(1) by (simp add: heap_rep_def)
  have pj: "parent (nodes h (pos j)) = parent_at pos j"
    by (rule tree_repD(3) [OF t less.prems(2,3)])
  show ?case
  proof (cases "2 \<le> j \<and> lt (pos j) (pos (j div 2))")
    case False
    then have "heap_sift_up lt (pos j) h = Some h"
      by (auto simp: heap_sift_up.simps [of lt "pos j" h] pj parent_at_def)
    moreover have "heap_ordered lt pos n" using heap_ordered_up [OF less.prems(4)] False by auto
    ultimately show ?thesis using less.prems(1) by blast
  next
    case True
    let ?i = "j div 2" and ?q = "swap_pos (j div 2) j pos" and ?h = "heap_node_swap h (pos (j div 2)) (pos j)"
    have i: "?i < j" "1 \<le> ?i" "?i \<le> n" using True less.prems by auto
    have step: "heap_sift_up lt (pos j) h = heap_sift_up lt (pos j) ?h"
      using True by (simp add: heap_sift_up.simps [of lt "pos j" h] pj parent_at_def)
    have q: "?q ?i = pos j" using i(1) by (simp add: swap_pos_apply)
    have "heap_rep ?h ?q n"
      using heap_node_swap_tree [OF t, of j ?i] True less.prems by (simp add: heap_rep_def)
    moreover have "up_inv lt ?q n ?i" using up_inv_swap [OF w less.prems(4) _ less.prems(3)] True by simp
    moreover have im: "?q ` {1..n} = pos ` {1..n}" using i less.prems by (intro swap_pos_image) simp_all
    ultimately show ?thesis using less.IH [OF i(1) _ i(2,3), of ?h ?q] unfolding q step im by blast
  qed
qed

lemma smallest_child_pos:
  assumes w: "strict_weak lt" and t: "tree_rep h pos n" and m: "1 \<le> m" "m \<le> n"
  obtains k where "smallest_child lt h (pos m) = pos k" "k = m \<or> (k = 2 * m \<or> k = 2 * m + 1) \<and> lt (pos k) (pos m)"
    "k \<le> n" "\<forall>c \<le> n. c = 2 * m \<or> c = 2 * m + 1 \<longrightarrow> \<not> lt (pos c) (pos k)"
proof -
  note asym = strict_weak_asym [OF w] and trans = strict_weak_trans [OF w] and irrefl = strict_weak_irrefl [OF w]
  let ?l = "2 * m" and ?r = "2 * m + 1"
  define s where "s = (if ?l \<le> n \<and> lt (pos ?l) (pos m) then ?l else m)"
  define k where "k = (if ?r \<le> n \<and> lt (pos ?r) (pos s) then ?r else s)"
  have eq: "smallest_child lt h (pos m) = pos k"
    unfolding smallest_child_def tree_repD(1,2) [OF t m] child_at_def Let_def
    by (auto simp: s_def k_def)
  have s: "s = m \<or> s = ?l \<and> lt (pos s) (pos m)" "s \<le> n" "?l \<le> n \<Longrightarrow> \<not> lt (pos ?l) (pos s)"
    using m irrefl by (auto simp: s_def)
  have k1: "\<not> lt (pos s) (pos k)" using asym irrefl by (auto simp: k_def)
  have "k = m \<or> (k = ?l \<or> k = ?r) \<and> lt (pos k) (pos m)"
  proof (cases "?r \<le> n \<and> lt (pos ?r) (pos s)")
    case True
    then have "lt (pos ?r) (pos m)" using s(1) strict_weak_lt_trans [OF w, of "pos ?r" "pos s" "pos m"] by auto
    then show ?thesis using True by (simp add: k_def)
  qed (use s(1) in \<open>auto simp: k_def\<close>)
  moreover have "k \<le> n" using s(2) by (simp add: k_def)
  moreover have "\<not> lt (pos c) (pos k)" if "c \<le> n" "c = ?l \<or> c = ?r" for c
    using that s(3) trans [OF k1] irrefl by (auto simp: k_def)
  ultimately show thesis using that eq by blast
qed

lemma down_inv_swap:
  assumes w: "strict_weak lt" and d: "down_inv lt pos n m" and m: "1 \<le> m"
    and k: "k = 2 * m \<or> k = 2 * m + 1" "k \<le> n" and lt: "lt (pos k) (pos m)"
    and sm: "\<forall>c \<le> n. c = 2 * m \<or> c = 2 * m + 1 \<longrightarrow> \<not> lt (pos c) (pos k)"
  shows "down_inv lt (swap_pos m k pos) n k"
proof -
  let ?q = "swap_pos m k pos"
  have km: "k div 2 = m" "m < k" "2 \<le> k" using k m by auto
  have d1: "\<not> lt (pos i) (pos (i div 2))" if "2 \<le> i" "i \<le> n" "i \<noteq> m" "i div 2 \<noteq> m" for i
    using d that by (simp add: down_inv_def)
  have d2: "\<not> lt (pos i) (pos (m div 2))" if "2 \<le> i" "i \<le> n" "i div 2 = m" "2 \<le> m" for i
    using d that by (simp add: down_inv_def)
  have "\<not> lt (?q i) (?q (i div 2))" if i: "2 \<le> i" "i \<le> n" "i \<noteq> k" "i div 2 \<noteq> k" for i
  proof -
    consider "i = m" | "i div 2 = m" | "i \<noteq> m" "i div 2 \<noteq> m" by blast
    then show ?thesis
    proof cases
      case 1
      have "m div 2 \<noteq> m" "m div 2 \<noteq> k" using 1 i km by auto
      then show ?thesis using 1 i km d2 [OF km(3) k(2) km(1)] by (simp add: swap_pos_apply)
    next
      case 2
      have "i = 2 * m \<or> i = 2 * m + 1" "i \<noteq> m" "m \<noteq> k" using 2 i km by auto
      then show ?thesis using 2 i(3) sm [rule_format, OF i(2)] by (simp add: swap_pos_apply)
    next
      case 3 then show ?thesis using i d1 [OF i(1,2) 3] by (simp add: swap_pos_apply)
    qed
  qed
  moreover have "\<not> lt (?q i) (?q (k div 2))" if i: "2 \<le> i" "i \<le> n" "i div 2 = k" for i
  proof -
    have "i \<noteq> m" "i \<noteq> k" "m \<noteq> k" "i div 2 \<noteq> m" using i km by auto
    then show ?thesis using km d1 [OF i(1,2)] i by (simp add: swap_pos_apply)
  qed
  ultimately show ?thesis unfolding down_inv_def by simp
qed

lemma heap_sift_down_up_inv:
  assumes w: "strict_weak lt"
  shows "heap_rep h pos n \<Longrightarrow> 1 \<le> m \<Longrightarrow> m \<le> n \<Longrightarrow> down_inv lt pos n m \<Longrightarrow>
    \<exists>h' pos' j. heap_sift_down lt (pos m) h = Some h' \<and> heap_rep h' pos' n \<and> up_inv lt pos' n j \<and>
      1 \<le> j \<and> j \<le> n \<and> pos' j = pos m \<and> pos' ` {1..n} = pos ` {1..n}"
proof (induction "n - m" arbitrary: m h pos rule: less_induct)
  case less
  have t: "tree_rep h pos n" using less.prems(1) by (simp add: heap_rep_def)
  obtain k where k: "smallest_child lt h (pos m) = pos k" "k = m \<or> (k = 2 * m \<or> k = 2 * m + 1) \<and> lt (pos k) (pos m)"
    "k \<le> n" "\<forall>c \<le> n. c = 2 * m \<or> c = 2 * m + 1 \<longrightarrow> \<not> lt (pos c) (pos k)"
    by (rule smallest_child_pos [OF w t less.prems(2,3)])
  show ?case
  proof (cases "k = m")
    case True
    have "\<not> lt (pos i) (pos (i div 2))" if "2 \<le> i" "i \<le> n" "i \<noteq> m" for i
    proof (cases "i div 2 = m")
      case d: True
      then have "i = 2 * m \<or> i = 2 * m + 1" by auto
      then show ?thesis using k(4) [rule_format, OF that(2)] d True by simp
    next
      case False
      then show ?thesis using less.prems(4) that by (simp add: down_inv_def)
    qed
    then have "up_inv lt pos n m" using less.prems(4) by (simp add: up_inv_def down_inv_def)
    moreover have "heap_sift_down lt (pos m) h = Some h"
      using k(1) True by (simp add: heap_sift_down.simps [of lt "pos m" h])
    ultimately show ?thesis using less.prems by blast
  next
    case False
    let ?q = "swap_pos m k pos" and ?h = "heap_node_swap h (pos m) (pos k)"
    have kc: "k = 2 * m \<or> k = 2 * m + 1" and lt: "lt (pos k) (pos m)" using k(2) False by auto
    then have km: "m = k div 2" "m < k" "2 \<le> k" using less.prems by auto
    have "pos k \<noteq> pos m" using tree_rep_inj [OF t _ k(3) less.prems(2,3)] False km by simp
    then have step: "heap_sift_down lt (pos m) h = heap_sift_down lt (pos m) ?h"
      using k(1) by (simp add: heap_sift_down.simps [of lt "pos m" h])
    have q: "?q k = pos m" by (simp add: swap_pos_apply)
    have "heap_rep ?h ?q n"
      using heap_node_swap_tree [OF t km(3) k(3) km(1)] less.prems(1) by (simp add: heap_rep_def)
    moreover have "down_inv lt ?q n k"
      by (rule down_inv_swap [OF w less.prems(4,2) kc k(3) lt k(4)])
    moreover have "n - k < n - m" "1 \<le> k" using km k(3) by auto
    moreover have im: "?q ` {1..n} = pos ` {1..n}" using km k(3) less.prems by (intro swap_pos_image) simp_all
    ultimately show ?thesis using less.hyps [of k ?h ?q] k(3) unfolding q step im by blast
  qed
qed
section \<open>The operations\<close>

text \<open>\<open>heap_inv lt h S\<close>: \<open>h\<close> is a heap of the nodes \<open>S\<close>, ordered by \<open>lt\<close>.\<close>

definition heap_inv :: "heap_compare_fn \<Rightarrow> heap \<Rightarrow> addr set \<Rightarrow> bool" where
  "heap_inv lt h S \<longleftrightarrow> (\<exists>pos n. heap_rep h pos n \<and> heap_ordered lt pos n \<and> S = pos ` {1..n})"

lemma heap_invI: "heap_rep h pos n \<Longrightarrow> heap_ordered lt pos n \<Longrightarrow> S = pos ` {1..n} \<Longrightarrow> heap_inv lt h S"
  unfolding heap_inv_def by blast

lemma heap_inv_card: "heap_inv lt h S \<Longrightarrow> card S = unat (nelts h)"
  by (auto simp: heap_inv_def heap_rep_def card_image [OF tree_rep_inj_on, simplified])

lemma heap_inv_finite: "heap_inv lt h S \<Longrightarrow> finite S"
  by (auto simp: heap_inv_def)

lemma heap_inv_cong:
  assumes "heap_inv lt h S" and "\<And>a b. a \<in> S \<Longrightarrow> b \<in> S \<Longrightarrow> lt' a b = lt a b"
  shows "heap_inv lt' h S"
proof -
  obtain pos n where r: "heap_rep h pos n" "heap_ordered lt pos n" "S = pos ` {1..n}"
    using assms(1) by (auto simp: heap_inv_def)
  have "lt' (pos i) (pos (i div 2)) = lt (pos i) (pos (i div 2))" if "i \<in> {2..n}" for i
  proof -
    have "i \<in> {1..n}" "i div 2 \<in> {1..n}" using that by auto
    then show ?thesis using assms(2) r(3) by blast
  qed
  then have "heap_ordered lt' pos n" using r(2) by (simp add: heap_ordered_def)
  then show ?thesis using r by (auto simp: heap_inv_def)
qed

lemma heap_init_inv: "heap_inv lt (heap_init h) {}"
proof -
  have "heap_rep (heap_init h) (\<lambda>_. 0) 0"
    by (auto simp: heap_rep_def heap_init_def tree_rep_def child_at_def)
  moreover have "heap_ordered lt (\<lambda>_. 0) 0" by (simp add: heap_ordered_def)
  ultimately show ?thesis by (fastforce simp: heap_inv_def)
qed

lemma heap_ordered_root:
  assumes w: "strict_weak lt" and o: "heap_ordered lt pos n"
  shows "1 \<le> i \<Longrightarrow> i \<le> n \<Longrightarrow> \<not> lt (pos i) (pos 1)"
proof (induction i rule: less_induct)
  case (less i)
  show ?case
  proof (cases "i = 1")
    case True then show ?thesis using strict_weak_irrefl [OF w] by simp
  next
    case False
    then have d: "i div 2 < i" "1 \<le> i div 2" "i div 2 \<le> n" using less.prems by auto
    have "\<not> lt (pos i) (pos (i div 2))" using o False less.prems by (simp add: heap_ordered_def)
    then show ?thesis by (rule strict_weak_trans [OF w less.IH [OF d]])
  qed
qed

lemma heap_min_None: "heap_inv lt h S \<Longrightarrow> heap_min h = None \<longleftrightarrow> S = {}"
  by (auto simp: heap_inv_def heap_rep_def heap_min_def tree_rep_top child_at_def)

lemma heap_min_least:
  assumes w: "strict_weak lt" and inv: "heap_inv lt h S" and m: "heap_min h = Some m"
  shows "m \<in> S \<and> (\<forall>x \<in> S. \<not> lt x m)"
proof -
  obtain pos n where r: "heap_rep h pos n" "heap_ordered lt pos n" "S = pos ` {1..n}"
    using inv by (auto simp: heap_inv_def)
  then have "m = pos 1" "1 \<le> n"
    using m by (auto simp: heap_rep_def heap_min_def tree_rep_top child_at_def split: if_splits)
  then show ?thesis using heap_ordered_root [OF w r(2)] r(3) by auto
qed

lemma heap_insert_inv:
  assumes w: "strict_weak lt" and inv: "heap_inv lt h S" and x: "x \<notin> S"
    and size: "card S + 1 < 2 ^ 32"
  shows "\<exists>h'. heap_insert h x lt = Some h' \<and> heap_inv lt h' (insert x S)"
proof -
  obtain pos n where r: "heap_rep h pos n" "heap_ordered lt pos n" "S = pos ` {1..n}"
    using inv by (auto simp: heap_inv_def)
  then have t: "tree_rep h pos n" and n: "unat (nelts h) = n" by (simp_all add: heap_rep_def)
  have n1: "unat (1 + nelts h) = n + 1"
    using heap_inv_card [OF inv] size n by (simp add: unat_word_ariths)
  define h1 where "h1 = set_node x \<lparr>left = None, right = None, parent = None\<rparr> h"
  obtain path k where pk: "heap_path 0 0 (1 + nelts h) = (path, k)" by fastforce
  have t1: "tree_rep h1 pos n"
    using x r(3) by (intro tree_rep_cong [OF t]) (auto simp: h1_def)
  have walk: "heap_walk h1 k path MinSlot MinSlot = Some (slot_at pos ((n + 1) div 2), slot_at pos (n + 1))"
    using heap_path_slot [OF t1 pk] n1 by simp
  have "slot_get h1 (slot_at pos ((n + 1) div 2)) = parent_at pos (n + 1)"
  proof (cases "n = 0")
    case True
    then show ?thesis using tree_rep_top [OF t1] by (simp add: slot_at_def parent_at_def child_at_def)
  next
    case False
    then have "1 \<le> (n + 1) div 2" "(n + 1) div 2 div 2 \<le> n" "(n + 1) div 2 \<le> n" by auto
    then show ?thesis using slot_get_at [OF t1] False by (simp add: child_at_def parent_at_def)
  qed
  define h2 where "h2 = set_parent x (parent_at pos (n + 1)) h1"
  have t2: "tree_rep h2 pos n"
    using x r(3) by (intro tree_rep_cong [OF t1]) (auto simp: h2_def)
  define h3 where "h3 = (slot_set (slot_at pos (n + 1)) (Some x) h2)\<lparr>nelts := nelts h + 1\<rparr>"
  let ?p = "pos(n + 1 := x)"
  have t3: "tree_rep (slot_set (slot_at pos (n + 1)) (Some x) h2) ?p (n + 1)"
    using x r(3) by (intro tree_rep_add [OF t2]) (simp_all add: h2_def h1_def)
  have "tree_rep h3 ?p (n + 1)" by (rule tree_rep_cong [OF t3]) (simp_all add: h3_def)
  then have rep: "heap_rep h3 ?p (n + 1)"
    using n1 by (simp add: heap_rep_def h3_def add.commute)
  have "up_inv lt ?p (n + 1) (n + 1)"
    using r(2) by (auto simp: up_inv_def heap_ordered_def)
  from heap_sift_up_ordered [OF w rep _ _ this] obtain h' pos' where
    h': "heap_sift_up lt x h3 = Some h'" "heap_rep h' pos' (n + 1)" "heap_ordered lt pos' (n + 1)"
    "pos' ` {1..n + 1} = ?p ` {1..n + 1}" by auto
  have "{1..n + 1} = insert (n + 1) {1..n}" by auto
  then have im: "?p ` {1..n + 1} = insert x (pos ` {1..n})" by auto
  have "nelts (slot_set s p (set_parent x q h1)) = nelts h" for s p q
    by (cases s) (simp_all add: h1_def)
  moreover have "heap_path 0 0 (1 + nelts h1) = (path, k)" using pk by (simp add: h1_def)
  ultimately have "heap_insert h x lt = Some h'"
    unfolding heap_insert_def Let_def h1_def [symmetric]
    using h'(1) walk \<open>slot_get h1 _ = _\<close> by (simp add: h3_def h2_def)
  then show ?thesis using h'(2-4) r(3) unfolding heap_inv_def im by blast
qed

lemma heap_remove_unfold:
  assumes "nelts h \<noteq> 0" "heap_path 0 0 (nelts h) = (path, k)"
    "heap_walk h k path MinSlot MinSlot = Some (p, m)" "slot_get h m = Some c" "c \<noteq> node"
  shows "heap_remove h node lt = do {
      h \<leftarrow> heap_sift_down lt c (replace_node node c (slot_set m None (h\<lparr>nelts := nelts h - 1\<rparr>)));
      heap_sift_up lt c h }"
proof -
  have eq: "slot_get (h\<lparr>nelts := nelts h - 1\<rparr>) m = Some c" using assms(4) by (cases m) simp_all
  show ?thesis
    unfolding heap_remove_def Let_def assms(2) replace_node_def
    using assms(1,3,5) eq by (simp del: nodes_set)
qed

lemma heap_remove_last_unfold:
  assumes "nelts h \<noteq> 0" "heap_path 0 0 (nelts h) = (path, k)"
    "heap_walk h k path MinSlot MinSlot = Some (p, m)" "slot_get h m = Some node"
  defines "h1 \<equiv> slot_set m None (h\<lparr>nelts := nelts h - 1\<rparr>)"
  shows "heap_remove h node lt = Some (if Some node = heap_top h1 then h1\<lparr>heap_top := None\<rparr> else h1)"
proof -
  have eq: "slot_get (h\<lparr>nelts := nelts h - 1\<rparr>) m = Some node" using assms(4) by (cases m) simp_all
  show ?thesis
    unfolding heap_remove_def Let_def assms(2) h1_def
    using assms(1,3) eq by (simp del: nodes_set)
qed

lemma heap_remove_inv:
  assumes w: "strict_weak lt" and inv: "heap_inv lt h S" and x: "x \<in> S"
  shows "\<exists>h'. heap_remove h x lt = Some h' \<and> heap_inv lt h' (S - {x})"
proof -
  obtain pos n where r: "heap_rep h pos n" "heap_ordered lt pos n" "S = pos ` {1..n}"
    using inv by (auto simp: heap_inv_def)
  then have t: "tree_rep h pos n" and n: "unat (nelts h) = n" by (simp_all add: heap_rep_def)
  obtain i where i: "1 \<le> i" "i \<le> n" "x = pos i" using x r(3) by auto
  have n0: "nelts h \<noteq> 0" using n i by auto
  have n1: "unat (nelts h - 1) = n - 1" using unat_minus_one [OF n0] n by simp
  obtain path k where pk: "heap_path 0 0 (nelts h) = (path, k)" by fastforce
  have walk: "heap_walk h k path MinSlot MinSlot = Some (slot_at pos (n div 2), slot_at pos n)"
    using heap_path_slot [OF t pk] n i by simp
  have child: "slot_get h (slot_at pos n) = Some (pos n)"
    using slot_get_at [OF t, of n] i by (simp add: child_at_def)
  have inj: "inj_on pos {1..n}" by (rule tree_rep_inj_on [OF t])
  define h1 where "h1 = slot_set (slot_at pos n) None (h\<lparr>nelts := nelts h - 1\<rparr>)"
  have "tree_rep (h\<lparr>nelts := nelts h - 1\<rparr>) pos n" by (rule tree_rep_cong [OF t]) simp_all
  then have t1: "tree_rep h1 pos (n - 1)" unfolding h1_def
    by (rule tree_rep_drop) (use i in linarith)
  have ne1: "nelts h1 = nelts h - 1" by (cases "slot_at pos n") (simp_all add: h1_def)
  have ord1: "heap_ordered lt pos (n - 1)" using r(2) by (auto simp: heap_ordered_def)
  have split_n: "{1..n} = insert n {1..n - 1}" using i by auto
  have sx: "S - {x} = pos ` ({1..n} - {i})"
    using inj_on_image_set_diff [OF inj, of "{1..n}" "{i}"] i r(3) by simp
  show ?thesis
  proof (cases "i = n")
    case True
    have eq: "heap_remove h x lt = Some (if Some x = heap_top h1 then h1\<lparr>heap_top := None\<rparr> else h1)"
      using heap_remove_last_unfold [OF n0 pk walk, of x lt] child True i(3) by (simp add: h1_def)
    have "heap_top h1 \<noteq> Some x"
      using tree_rep_top [OF t1] inj i True by (auto simp: child_at_def inj_on_eq_iff)
    then have "heap_remove h x lt = Some h1" using eq by auto
    moreover have "heap_rep h1 pos (n - 1)" using t1 ne1 n1 by (simp add: heap_rep_def)
    moreover have "{1..n} - {i} = {1..n - 1}" using True i by auto
    then have "S - {x} = pos ` {1..n - 1}" using sx by simp
    ultimately show ?thesis using heap_invI [OF _ ord1] by blast
  next
    case False
    let ?p = "pos(i := pos n)"
    have ne: "pos n \<noteq> x" using tree_rep_inj [OF t _ _ i(1,2), of n] False i by auto
    have i1: "i \<le> n - 1" using False i by simp
    have c: "pos n \<notin> pos ` {1..n - 1}" using inj i by (auto simp: inj_on_eq_iff)
    have "nelts (replace_node x (pos n) h1) = nelts h1"
      by (simp add: replace_node_def Let_def split: option.split)
    then have rep: "heap_rep (replace_node x (pos n) h1) ?p (n - 1)"
      using tree_rep_replace [OF t1 i(1) i1 c] ne1 n1 i(3) by (simp add: heap_rep_def)
    have down: "down_inv lt ?p (n - 1) i" unfolding down_inv_def
    proof (intro conjI ballI impI)
      fix j assume "j \<in> {2..n - 1}" "j \<noteq> i" "j div 2 \<noteq> i"
      then show "\<not> lt (?p j) (?p (j div 2))" using ord1 by (simp add: heap_ordered_def)
    next
      fix j assume j: "j \<in> {2..n - 1}" "j div 2 = i" "2 \<le> i"
      then have "\<not> lt (pos j) (pos i)" "\<not> lt (pos i) (pos (i div 2))"
        using ord1 i1 by (auto simp: heap_ordered_def)
      moreover have "j \<noteq> i" "i div 2 \<noteq> i" using j by auto
      ultimately show "\<not> lt (?p j) (?p (i div 2))" using strict_weak_trans [OF w] by auto
    qed
    obtain h2 pos2 j where h2: "heap_sift_down lt (pos n) (replace_node x (pos n) h1) = Some h2"
      "heap_rep h2 pos2 (n - 1)" "up_inv lt pos2 (n - 1) j" "1 \<le> j" "j \<le> n - 1" "pos2 j = pos n"
      "pos2 ` {1..n - 1} = ?p ` {1..n - 1}"
      using heap_sift_down_up_inv [OF w rep i(1) i1 down] by auto
    obtain h3 pos3 where h3: "heap_sift_up lt (pos n) h2 = Some h3" "heap_rep h3 pos3 (n - 1)"
      "heap_ordered lt pos3 (n - 1)" "pos3 ` {1..n - 1} = pos2 ` {1..n - 1}"
      using heap_sift_up_ordered [OF w h2(2,4,5,3)] h2(6) by auto
    have "heap_remove h x lt = Some h3"
      using heap_remove_unfold [OF n0 pk walk child ne] h2(1) h3(1) by (simp add: h1_def)
    moreover have "S - {x} = ?p ` {1..n - 1}"
    proof -
      have "{1..n - 1} = insert i ({1..n - 1} - {i})" using i i1 by auto
      then have "?p ` {1..n - 1} = insert (pos n) (pos ` ({1..n - 1} - {i}))" by (metis (no_types, lifting) fun_upd_image insertI1)
      also have "\<dots> = pos ` ({1..n} - {i})" unfolding split_n using False by auto
      finally show ?thesis using sx by simp
    qed
    then have "S - {x} = pos3 ` {1..n - 1}" using h3(4) h2(7) by simp
    ultimately show ?thesis using heap_invI [OF h3(2,3)] by blast
  qed
qed
lemma heap_dequeue_inv:
  assumes w: "strict_weak lt" and inv: "heap_inv lt h S"
  shows "\<exists>h'. heap_dequeue h lt = Some h' \<and>
    (case heap_min h of None \<Rightarrow> h' = h \<and> S = {} | Some m \<Rightarrow> heap_inv lt h' (S - {m}))"
proof (cases "heap_min h")
  case None
  then have "S = {}" using heap_min_None [OF inv] by simp
  then have "nelts h = 0" using heap_inv_card [OF inv] by (simp add: unat_eq_zero)
  then show ?thesis using None \<open>S = {}\<close> by (simp add: heap_dequeue_def heap_min_def)
next
  case (Some m)
  then have "m \<in> S" using heap_min_least [OF w inv] by blast
  then show ?thesis
    using heap_remove_inv [OF w inv] Some by (simp add: heap_dequeue_def heap_min_def)
qed

section \<open>The interface to the timers\<close>

text \<open>
  What a client of the heap relies on: with an ordering accepted by \<open>good\<close>, insertion of a new
  key, removal of a key that is in and the minimum behave as on a set of keys, and the ordering
  matters only on the keys that are in.
\<close>

locale prio_queue =
  fixes good :: "('k \<Rightarrow> 'k \<Rightarrow> bool) \<Rightarrow> bool"
    and inv :: "('k \<Rightarrow> 'k \<Rightarrow> bool) \<Rightarrow> 'q \<Rightarrow> 'k set \<Rightarrow> bool"
    and ins :: "'q \<Rightarrow> 'k \<Rightarrow> ('k \<Rightarrow> 'k \<Rightarrow> bool) \<Rightarrow> 'q option"
    and del :: "'q \<Rightarrow> 'k \<Rightarrow> ('k \<Rightarrow> 'k \<Rightarrow> bool) \<Rightarrow> 'q option"
    and least :: "'q \<Rightarrow> 'k option"
  assumes ins: "good lt \<Longrightarrow> inv lt q S \<Longrightarrow> x \<notin> S \<Longrightarrow> card S + 1 < 2 ^ 32 \<Longrightarrow>
      \<exists>q'. ins q x lt = Some q' \<and> inv lt q' (insert x S)"
    and del: "good lt \<Longrightarrow> inv lt q S \<Longrightarrow> x \<in> S \<Longrightarrow>
      \<exists>q'. del q x lt = Some q' \<and> inv lt q' (S - {x})"
    and least_None: "inv lt q S \<Longrightarrow> least q = None \<longleftrightarrow> S = {}"
    and least_Some: "good lt \<Longrightarrow> inv lt q S \<Longrightarrow> least q = Some m \<Longrightarrow> m \<in> S \<and> (\<forall>x \<in> S. \<not> lt x m)"
    and inv_cong: "inv lt q S \<Longrightarrow> (\<And>a b. a \<in> S \<Longrightarrow> b \<in> S \<Longrightarrow> lt' a b = lt a b) \<Longrightarrow> inv lt' q S"
    and finite: "inv lt q S \<Longrightarrow> finite S"
begin

text \<open>The key of the element put in may have been changed before.\<close>

lemma ins_rekey:
  assumes "good lt'" "inv lt q S" "x \<notin> S" "card S + 1 < 2 ^ 32"
    and "\<And>a b. a \<in> S \<Longrightarrow> b \<in> S \<Longrightarrow> lt' a b = lt a b"
  shows "\<exists>q'. ins q x lt' = Some q' \<and> inv lt' q' (insert x S)"
  using assms by (intro ins inv_cong [of lt q S lt']) simp_all

lemma del_ins:
  assumes "good lt" "good lt'" "inv lt q S" "x \<in> S" "card S < 2 ^ 32"
    and "\<And>a b. a \<in> S - {x} \<Longrightarrow> b \<in> S - {x} \<Longrightarrow> lt' a b = lt a b"
  shows "\<exists>q'. (del q x lt \<bind> (\<lambda>q. ins q x lt')) = Some q' \<and> inv lt' q' S"
proof -
  obtain q1 where q1: "del q x lt = Some q1" "inv lt q1 (S - {x})"
    using del [OF assms(1,3,4)] by blast
  have "card (S - {x}) + 1 = card S"
    using card.remove [OF finite [OF assms(3)] assms(4)] by simp
  then have "\<exists>q'. ins q1 x lt' = Some q' \<and> inv lt' q' (insert x (S - {x}))"
    using assms(5,6) by (intro ins_rekey [OF assms(2) q1(2)]) simp_all
  moreover have "insert x (S - {x}) = S" using assms(4) by blast
  ultimately show ?thesis using q1(1) by simp
qed

lemma pop_least:
  assumes "good lt" "inv lt q S" "S \<noteq> {}"
  shows "\<exists>m q'. least q = Some m \<and> m \<in> S \<and> (\<forall>x \<in> S. \<not> lt x m) \<and> del q m lt = Some q' \<and> inv lt q' (S - {m})"
proof -
  obtain m where m: "least q = Some m" using least_None [OF assms(2)] assms(3) by fastforce
  then show ?thesis using least_Some [OF assms(1,2) m] del [OF assms(1,2)] by blast
qed

end

interpretation hq: prio_queue strict_weak heap_inv heap_insert heap_remove heap_min
proof unfold_locales
  show "\<exists>q'. heap_insert q x lt = Some q' \<and> heap_inv lt q' (insert x S)"
    if "strict_weak lt" "heap_inv lt q S" "x \<notin> S" "card S + 1 < 2 ^ 32" for lt q S x
    by (rule heap_insert_inv [OF that])
  show "\<exists>q'. heap_remove q x lt = Some q' \<and> heap_inv lt q' (S - {x})"
    if "strict_weak lt" "heap_inv lt q S" "x \<in> S" for lt q S x
    by (rule heap_remove_inv [OF that])
qed (fact heap_min_None heap_min_least heap_inv_cong heap_inv_finite)+

section \<open>Properties\<close>

text \<open>A heap of the nodes 7 and 4, ordered by their numbers.\<close>

definition demo_heap :: heap where
  "demo_heap = \<lparr>heap_top = Some 4, nelts = 2,
     nodes = (\<lambda>_. \<lparr>left = None, right = None, parent = None\<rparr>)
       (4 := \<lparr>left = Some 7, right = None, parent = None\<rparr>,
        7 := \<lparr>left = None, right = None, parent = Some 4\<rparr>)\<rparr>"

lemma demo_heap_inv: "heap_inv (<) demo_heap {4, 7}"
proof (rule heap_invI)
  let ?p = "(\<lambda>_. 0)(1 := 4, 2 := 7) :: nat \<Rightarrow> addr"
  have i: "{1..2 :: nat} = {1, 2}" by auto
  show "heap_rep demo_heap ?p 2"
    by (simp add: heap_rep_def tree_rep_def demo_heap_def i child_at_def parent_at_def inj_on_def)
  show "heap_ordered (<) ?p 2" by (simp add: heap_ordered_def)
  show "{4, 7} = ?p ` {1..2}" unfolding i by auto
qed

lemma strict_weak_less: "strict_weak ((<) :: nat \<Rightarrow> nat \<Rightarrow> bool)"
  by (auto simp: strict_weak_def)

text \<open>
  \<open>heap_insert\<close> with a node that is not in the heap returns (no dereference of \<open>NULL\<close>, the
  walk up ends) and gives an ordered complete heap of the old nodes and the new one.
\<close>

theorem heap_insert_adds:
  assumes "strict_weak lt" and "heap_inv lt h S" and "newnode \<notin> S" and "card S + 1 < 2 ^ 32"
  shows "\<exists>h'. heap_insert h newnode lt = Some h' \<and> heap_inv lt h' (insert newnode S)"
  by (rule hq.ins [OF assms])

theorem heap_insert_adds_witness:
  "\<exists>h'. heap_insert demo_heap 2 (<) = Some h' \<and> heap_inv (<) h' {2, 4, 7}"
  by (rule heap_insert_adds [OF strict_weak_less demo_heap_inv]) simp_all

text \<open>
  C32: \<open>heap_remove\<close> with any node of the heap returns and gives an ordered complete heap of the
  other nodes; with \<open>heap_min\<close> the node taken out is a least one.
\<close>

theorem heap_remove_takes_out:
  assumes "strict_weak lt" and "heap_inv lt h S"
  shows "(\<forall>node \<in> S. \<exists>h'. heap_remove h node lt = Some h' \<and> heap_inv lt h' (S - {node})) \<and>
    (S \<noteq> {} \<longrightarrow> (\<exists>m \<in> S. heap_min h = Some m \<and> (\<forall>x \<in> S. \<not> lt x m) \<and>
      (\<exists>h'. heap_dequeue h lt = Some h' \<and> heap_inv lt h' (S - {m}))))"
proof (intro conjI ballI impI)
  show "\<exists>h'. heap_remove h node lt = Some h' \<and> heap_inv lt h' (S - {node})"
    if "node \<in> S" for node by (rule hq.del [OF assms that])
  show "\<exists>m \<in> S. heap_min h = Some m \<and> (\<forall>x \<in> S. \<not> lt x m) \<and>
      (\<exists>h'. heap_dequeue h lt = Some h' \<and> heap_inv lt h' (S - {m}))" if "S \<noteq> {}"
    using hq.pop_least [OF assms that] heap_dequeue_inv [OF assms] by fastforce
qed

theorem heap_remove_takes_out_witness:
  "(\<exists>h'. heap_remove demo_heap 7 (<) = Some h' \<and> heap_inv (<) h' ({4, 7} - {7})) \<and> heap_min demo_heap = Some 4"
proof -
  have "\<exists>h'. heap_remove demo_heap 7 (<) = Some h' \<and> heap_inv (<) h' ({4, 7} - {7})"
    using heap_remove_takes_out [OF strict_weak_less demo_heap_inv] by blast
  then show ?thesis by (simp add: heap_min_def demo_heap_def)
qed

end
