(* ===== verification/Timer.thy ===== *)
theory Timer
  imports Handle Heap
begin

text \<open>
  src/timer.c.  The timers of a loop are the handles of type \<open>UV_TIMER\<close>; the active ones sit in
  the loop's heap (theory \<open>Heap\<close>), ordered by \<open>timer_less_than\<close>.  \<open>container_of\<close> is the identity:
  a timer and its heap node have one address.  A callback is a number, \<open>None\<close> for \<open>NULL\<close>; running
  it is the parameter \<open>run_cb\<close>, any function on the state of the loop.

  The lemmas show that the heap holds exactly the active timers after every operation, that a
  timer is armed at the sum of loop time and timeout or, if that overflows, at the largest time,
  that the timeout for the poll is the distance to the earliest timer, and that a run fires timers
  in the order of \<open>timer_less_than\<close> until none is due.
\<close>

section \<open>State\<close>

record timer_loop = uv_loop +
  timer_cb :: "addr \<Rightarrow> nat option"
  timeout :: "addr \<Rightarrow> u64"
  timer_repeat :: "addr \<Rightarrow> u64"
  start_id :: "addr \<Rightarrow> u64"
  timer_counter :: u64
  timer_heap :: heap

abbreviation INT_MAX :: int where "INT_MAX \<equiv> 2147483647"

section \<open>Operations\<close>

definition timer_less_than :: "'a timer_loop_scheme \<Rightarrow> addr \<Rightarrow> addr \<Rightarrow> bool" where
  "timer_less_than s a b =
     (if timeout s a < timeout s b then True
      else if timeout s b < timeout s a then False
      else start_id s a < start_id s b)"

definition uv_timer_init :: "addr \<Rightarrow> 'a timer_loop_scheme \<Rightarrow> 'a timer_loop_scheme" where
  "uv_timer_init h s =
     (let s = uv__handle_init h UV_TIMER s
      in s\<lparr>timer_cb := (timer_cb s)(h := None),
           timeout := (timeout s)(h := 0),
           timer_repeat := (timer_repeat s)(h := 0)\<rparr>)"

definition uv_timer_stop :: "addr \<Rightarrow> 'a timer_loop_scheme \<Rightarrow> 'a timer_loop_scheme option" where
  "uv_timer_stop h s =
     (if \<not> uv__is_active s h then Some s
      else do {
        hp \<leftarrow> heap_remove (timer_heap s) h (timer_less_than s);
        Some (uv__handle_stop h (s\<lparr>timer_heap := hp\<rparr>))
      })"

definition uv_timer_start ::
  "addr \<Rightarrow> nat option \<Rightarrow> u64 \<Rightarrow> u64 \<Rightarrow> 'a timer_loop_scheme \<Rightarrow>
    ((uv_errno + unit) \<times> 'a timer_loop_scheme) option" where
  "uv_timer_start h cb tmo rep s =
     (if uv__is_closing s h \<or> cb = None then Some (Inl UV_EINVAL, s)
      else do {
        s \<leftarrow> (if uv__is_active s h then uv_timer_stop h s else Some s);
        let clamped_timeout = time s + tmo;
        let clamped_timeout = (if clamped_timeout < tmo then -1 else clamped_timeout);
        let s = s\<lparr>timer_cb := (timer_cb s)(h := cb),
                  timeout := (timeout s)(h := clamped_timeout),
                  timer_repeat := (timer_repeat s)(h := rep),
                  start_id := (start_id s)(h := timer_counter s),
                  timer_counter := timer_counter s + 1\<rparr>;
        hp \<leftarrow> heap_insert (timer_heap s) h (timer_less_than s);
        let s = uv__handle_start h (s\<lparr>timer_heap := hp\<rparr>);
        Some (Inr (), s)
      })"

definition uv_timer_again ::
  "addr \<Rightarrow> 'a timer_loop_scheme \<Rightarrow> ((uv_errno + unit) \<times> 'a timer_loop_scheme) option" where
  "uv_timer_again h s =
     (if timer_cb s h = None then Some (Inl UV_EINVAL, s)
      else if timer_repeat s h \<noteq> 0 then do {
        s \<leftarrow> uv_timer_stop h s;
        (_, s) \<leftarrow> uv_timer_start h (timer_cb s h) (timer_repeat s h) (timer_repeat s h) s;
        Some (Inr (), s)
      }
      else Some (Inr (), s))"

definition uv_timer_set_repeat :: "addr \<Rightarrow> u64 \<Rightarrow> 'a timer_loop_scheme \<Rightarrow> 'a timer_loop_scheme" where
  "uv_timer_set_repeat h rep s = s\<lparr>timer_repeat := (timer_repeat s)(h := rep)\<rparr>"

definition uv_timer_get_repeat :: "'a timer_loop_scheme \<Rightarrow> addr \<Rightarrow> u64" where
  "uv_timer_get_repeat s h = timer_repeat s h"

definition uv_timer_get_due_in :: "'a timer_loop_scheme \<Rightarrow> addr \<Rightarrow> u64" where
  "uv_timer_get_due_in s h = (if time s \<ge> timeout s h then 0 else timeout s h - time s)"

definition uv__next_timeout :: "'a timer_loop_scheme \<Rightarrow> int" where
  "uv__next_timeout s =
     (case heap_min (timer_heap s) of
        None \<Rightarrow> -1
      | Some h \<Rightarrow>
          if timeout s h \<le> time s then 0
          else let diff = timeout s h - time s;
                   diff = (if uint diff > INT_MAX then word_of_int INT_MAX else diff)
               in uint diff)"

partial_function (option) uv__run_timers ::
  "(nat \<Rightarrow> addr \<Rightarrow> 'a timer_loop_scheme \<Rightarrow> 'a timer_loop_scheme option) \<Rightarrow>
    'a timer_loop_scheme \<Rightarrow> 'a timer_loop_scheme option" where
  "uv__run_timers run_cb s =
     (case heap_min (timer_heap s) of
        None \<Rightarrow> Some s
      | Some h \<Rightarrow>
          if timeout s h > time s then Some s
          else
            (uv_timer_stop h s \<bind> (\<lambda>s.
             uv_timer_again h s \<bind> (\<lambda>(_, s).
             timer_cb s h \<bind> (\<lambda>cb.
             run_cb cb h s \<bind> (\<lambda>s.
             uv__run_timers run_cb s))))))"

definition uv__timer_close :: "addr \<Rightarrow> 'a timer_loop_scheme \<Rightarrow> 'a timer_loop_scheme option" where
  "uv__timer_close h s = uv_timer_stop h s"

section \<open>The order of the timers\<close>

text \<open>The comparison is the lexicographic order on timeout and start id.\<close>

datatype timer_key = Key (key_timeout: u64) (key_id: u64)

instantiation timer_key :: linorder
begin

definition less_timer_key :: "timer_key \<Rightarrow> timer_key \<Rightarrow> bool" where
  "x < y \<longleftrightarrow> key_timeout x < key_timeout y \<or> key_timeout x = key_timeout y \<and> key_id x < key_id y"

definition less_eq_timer_key :: "timer_key \<Rightarrow> timer_key \<Rightarrow> bool" where
  "x \<le> y \<longleftrightarrow> x < y \<or> x = (y :: timer_key)"

instance
  by intro_classes
    (auto simp: less_timer_key_def less_eq_timer_key_def intro: timer_key.expand)

end

definition timer_key :: "'a timer_loop_scheme \<Rightarrow> addr \<Rightarrow> timer_key" where
  "timer_key s h = Key (timeout s h) (start_id s h)"

lemma timer_less_than_key: "timer_less_than s a b \<longleftrightarrow> timer_key s a < timer_key s b"
  by (auto simp: timer_less_than_def timer_key_def less_timer_key_def)

lemma strict_weak_timer: "strict_weak (timer_less_than s)"
  by (auto simp: strict_weak_def timer_less_than_key)

lemma timer_less_than_timeout: "\<not> timer_less_than s b a \<Longrightarrow> timeout s a \<le> timeout s b"
  by (auto simp: timer_less_than_def split: if_splits)

section \<open>What the macros leave alone\<close>

lemma timer_frame_start [simp]:
  "timer_cb (uv__handle_start h s) = timer_cb s" "timeout (uv__handle_start h s) = timeout s"
  "timer_repeat (uv__handle_start h s) = timer_repeat s" "start_id (uv__handle_start h s) = start_id s"
  "timer_counter (uv__handle_start h s) = timer_counter s" "timer_heap (uv__handle_start h s) = timer_heap s"
  by (subst handle_start_eq, simp)+

lemma timer_frame_stop [simp]:
  "timer_cb (uv__handle_stop h s) = timer_cb s" "timeout (uv__handle_stop h s) = timeout s"
  "timer_repeat (uv__handle_stop h s) = timer_repeat s" "start_id (uv__handle_stop h s) = start_id s"
  "timer_counter (uv__handle_stop h s) = timer_counter s" "timer_heap (uv__handle_stop h s) = timer_heap s"
  by (subst handle_stop_eq, simp)+

lemma timer_less_than_cong:
  assumes "timeout s' a = timeout s a" "timeout s' b = timeout s b"
    "start_id s' a = start_id s a" "start_id s' b = start_id s b"
  shows "timer_less_than s' a b = timer_less_than s a b"
  using assms by (simp add: timer_less_than_def)

section \<open>The invariant\<close>

definition armed :: "'a timer_loop_scheme \<Rightarrow> addr set \<Rightarrow> addr set" where
  "armed s H = {h \<in> H. htype s h = UV_TIMER \<and> has_flag s h UV_HANDLE_ACTIVE}"

definition timers_ok :: "'a timer_loop_scheme \<Rightarrow> addr set \<Rightarrow> bool" where
  "timers_ok s H \<longleftrightarrow> handles_ok s H \<and> card H < 2 ^ 32 \<and>
     heap_inv (timer_less_than s) (timer_heap s) (armed s H) \<and>
     (\<forall>h \<in> armed s H. timer_cb s h \<noteq> None)"

lemma timers_okD:
  assumes "timers_ok s H"
  shows "handles_ok s H" "finite H" "card H < 2 ^ 32"
    "heap_inv (timer_less_than s) (timer_heap s) (armed s H)"
    "h \<in> armed s H \<Longrightarrow> timer_cb s h \<noteq> None"
  using assms by (auto simp: timers_ok_def handles_ok_def)

lemma saturating_add:
  fixes a b :: u64
  shows "uint (if a + b < b then -1 else a + b) = min (uint a + uint b) (2 ^ 64 - 1)"
proof -
  have lt: "uint a < 2 ^ 64" "uint b < 2 ^ 64" "0 \<le> uint a" "0 \<le> uint b"
    using uint_lt2p [of a] uint_lt2p [of b] by simp_all
  have m1: "uint (-1 :: u64) = 2 ^ 64 - 1" by (simp add: unsigned_minus_1_eq_mask mask_eq_exp_minus_1)
  show ?thesis
    unfolding word_less_def uint_plus_if' using lt by (auto simp: m1 word_less_def uint_plus_if')
qed

lemma has_flag_timer_update [flag_simps]:
  "has_flag (timer_heap_update a s) k m \<longleftrightarrow> has_flag s k m"
  "has_flag (timer_cb_update b s) k m \<longleftrightarrow> has_flag s k m"
  "has_flag (timeout_update c s) k m \<longleftrightarrow> has_flag s k m"
  "has_flag (timer_repeat_update d s) k m \<longleftrightarrow> has_flag s k m"
  "has_flag (start_id_update e s) k m \<longleftrightarrow> has_flag s k m"
  "has_flag (timer_counter_update f s) k m \<longleftrightarrow> has_flag s k m"
  by (simp_all add: has_flag_def)

lemma armed_timer_update [simp]:
  "armed (timer_heap_update a s) H = armed s H"
  "armed (timer_cb_update b s) H = armed s H"
  "armed (timeout_update c s) H = armed s H"
  "armed (timer_repeat_update d s) H = armed s H"
  "armed (start_id_update e s) H = armed s H"
  "armed (timer_counter_update f s) H = armed s H"
  by (simp_all add: armed_def flag_simps)

lemma armed_subset: "armed s H \<subseteq> H"
  by (auto simp: armed_def)

lemma handles_ok_timer_update:
  "handles_ok (timer_heap_update a s) H = handles_ok s H"
  "handles_ok (timer_cb_update b s) H = handles_ok s H"
  "handles_ok (timeout_update c s) H = handles_ok s H"
  "handles_ok (timer_repeat_update d s) H = handles_ok s H"
  "handles_ok (start_id_update e s) H = handles_ok s H"
  "handles_ok (timer_counter_update f s) H = handles_ok s H"
  by (simp_all add: handles_ok_def counted_def flag_simps is_closing_iff)

text \<open>\<open>timer_frame s s'\<close>: only the flags, the count of active handles and the heap differ.\<close>

definition timer_frame :: "'a timer_loop_scheme \<Rightarrow> 'a timer_loop_scheme \<Rightarrow> bool" where
  "timer_frame s s' \<longleftrightarrow> (\<exists>fl ah hp. s' = s\<lparr>timer_heap := hp, flags := fl, active_handles := ah\<rparr>)"

lemma timer_frameD:
  assumes "timer_frame s s'"
  shows "timer_cb s' = timer_cb s" "timeout s' = timeout s" "timer_repeat s' = timer_repeat s"
    "start_id s' = start_id s" "timer_counter s' = timer_counter s" "time s' = time s" "htype s' = htype s"
  using assms by (auto simp: timer_frame_def)

lemma timer_frame_refl: "timer_frame s s"
  unfolding timer_frame_def by (intro exI [of _ "flags s"] exI [of _ "active_handles s"] exI [of _ "timer_heap s"]) simp

lemma timer_stop_ok:
  assumes ok: "timers_ok s H" and h: "h \<in> H" "htype s h = UV_TIMER"
  obtains s' where "uv_timer_stop h s = Some s'" "timers_ok s' H" "armed s' H = armed s H - {h}"
    "timer_frame s s'" "\<And>k m. k \<noteq> h \<or> m = UV_HANDLE_CLOSING \<or> m = UV_HANDLE_CLOSED \<or> m = UV_HANDLE_REF \<Longrightarrow> has_flag s' k m = has_flag s k m"
    "\<not> has_flag s' h UV_HANDLE_ACTIVE"
proof (cases "has_flag s h UV_HANDLE_ACTIVE")
  case False
  then have "uv_timer_stop h s = Some s" by (simp add: uv_timer_stop_def uv__is_active_def)
  moreover have "armed s H = armed s H - {h}" using False by (auto simp: armed_def)
  ultimately show thesis using that ok timer_frame_refl False by blast
next
  case True
  then have mem: "h \<in> armed s H" using h by (simp add: armed_def)
  obtain hp where hp: "heap_remove (timer_heap s) h (timer_less_than s) = Some hp"
    "heap_inv (timer_less_than s) hp (armed s H - {h})"
    using hq.del [OF strict_weak_timer timers_okD(4) [OF ok] mem] by blast
  let ?s = "uv__handle_stop h (s\<lparr>timer_heap := hp\<rparr>)"
  have eq: "uv_timer_stop h s = Some ?s" using True hp(1) by (simp add: uv_timer_stop_def uv__is_active_def)
  have arm: "armed ?s H = armed s H - {h}" by (auto simp: armed_def flag_simps)
  have lt: "timer_less_than ?s = timer_less_than s" by (auto simp: fun_eq_iff timer_less_than_def)
  have "handles_ok ?s H"
    by (rule handle_stop_ok [OF _ h(1)]) (simp add: handles_ok_timer_update timers_okD(1) [OF ok])
  then have "timers_ok ?s H"
    using timers_okD [OF ok] hp(2) by (simp add: timers_ok_def arm lt)
  moreover have "timer_frame s ?s"
    unfolding timer_frame_def by (subst handle_stop_eq) auto
  moreover have "has_flag ?s k m = has_flag s k m" if "k \<noteq> h \<or> m = UV_HANDLE_CLOSING \<or> m = UV_HANDLE_CLOSED \<or> m = UV_HANDLE_REF" for k m
    using that by (auto simp: handle_defs flag_simps) (auto simp: clear_flag_def has_flag_def)
  ultimately show thesis using that [OF eq _ arm] by (auto simp: flag_simps)
qed

lemma timer_start_ok:
  assumes ok: "timers_ok s H" and h: "h \<in> H" "htype s h = UV_TIMER" and nc: "\<not> uv__is_closing s h"
  obtains s' where "uv_timer_start h (Some cb) tmo rep s = Some (Inr (), s')" "timers_ok s' H"
    "armed s' H = insert h (armed s H)" "timer_cb s' = (timer_cb s)(h := Some cb)"
    "uint (timeout s' h) = min (uint (time s) + uint tmo) (2 ^ 64 - 1)" "\<And>k. k \<noteq> h \<Longrightarrow> timeout s' k = timeout s k"
    "timer_repeat s' = (timer_repeat s)(h := rep)" "start_id s' = (start_id s)(h := timer_counter s)"
    "timer_counter s' = timer_counter s + 1" "time s' = time s" "htype s' = htype s"
    "timer_loop.more s' = timer_loop.more s"
    "\<And>k. has_flag s' k UV_HANDLE_CLOSING = has_flag s k UV_HANDLE_CLOSING"
    "\<And>k. has_flag s' k UV_HANDLE_CLOSED = has_flag s k UV_HANDLE_CLOSED"
proof -
  obtain s1 where s1: "uv_timer_stop h s = Some s1" "timers_ok s1 H" "armed s1 H = armed s H - {h}"
    "timer_frame s s1" "\<And>k m. k \<noteq> h \<or> m = UV_HANDLE_CLOSING \<or> m = UV_HANDLE_CLOSED \<or> m = UV_HANDLE_REF \<Longrightarrow> has_flag s1 k m = has_flag s k m"
    "\<not> has_flag s1 h UV_HANDLE_ACTIVE"
    by (rule timer_stop_ok [OF ok h]) blast
  have stop: "(if uv__is_active s h then uv_timer_stop h s else Some s) = Some s1"
    using s1(1) by (auto simp: uv_timer_stop_def)
  note fr = timer_frameD [OF s1(4)]
  define c where "c = (if time s1 + tmo < tmo then - 1 else time s1 + tmo)"
  define s2 where "s2 = s1\<lparr>timer_cb := (timer_cb s)(h := Some cb), timeout := (timeout s)(h := c),
    timer_repeat := (timer_repeat s)(h := rep), start_id := (start_id s)(h := timer_counter s),
    timer_counter := timer_counter s + 1\<rparr>"
  have arm2: "armed s2 H = armed s H - {h}" by (simp add: s2_def s1(3))
  have lt: "timer_less_than s2 a b = timer_less_than s1 a b" if "a \<in> armed s H - {h}" "b \<in> armed s H - {h}" for a b
    using that by (intro timer_less_than_cong) (auto simp: s2_def fr)
  have "h \<notin> armed s H - {h}" by simp
  moreover have "card (armed s H - {h}) \<le> card (H - {h})"
    using timers_okD(2) [OF ok] armed_subset [of s H] by (intro card_mono) auto
  then have "card (armed s H - {h}) + 1 < 2 ^ 32"
    using timers_okD(3) [OF ok] card.remove [OF timers_okD(2) [OF ok] h(1)] by linarith
  ultimately obtain hp where hp: "heap_insert (timer_heap s1) h (timer_less_than s2) = Some hp"
    "heap_inv (timer_less_than s2) hp (insert h (armed s H - {h}))"
    using hq.ins_rekey [OF strict_weak_timer timers_okD(4) [OF s1(2), unfolded s1(3)] _ _ lt] by blast
  let ?s = "uv__handle_start h (s2\<lparr>timer_heap := hp\<rparr>)"
  have eq: "uv_timer_start h (Some cb) tmo rep s = Some (Inr (), ?s)"
    using nc stop hp(1) unfolding s2_def
    by (simp add: uv_timer_start_def fr(1-5) Let_def flip: c_def split del: if_split)
  have "insert h (armed s H - {h}) = insert h (armed s H)" by auto
  moreover have arm: "armed ?s H = insert h (armed s H)"
    using h s1(5,6) by (auto simp: armed_def flag_simps s2_def fr)
  moreover have "timer_less_than ?s = timer_less_than s2" by (auto simp: fun_eq_iff timer_less_than_def)
  moreover have "handles_ok ?s H"
    using timers_okD(1) [OF s1(2)] h nc s1(5)
    by (intro handle_start_ok) (simp_all add: handles_ok_timer_update flag_simps s2_def is_closing_iff)
  ultimately have "timers_ok ?s H"
    using timers_okD [OF ok] hp(2) unfolding timers_ok_def by (auto simp: s2_def)
  moreover have "uint c = min (uint (time s) + uint tmo) (2 ^ 64 - 1)"
    unfolding c_def fr(6) by (rule saturating_add)
  moreover have more: "timer_loop.more ?s = timer_loop.more s"
    using s1(4) by (subst handle_start_eq) (auto simp: s2_def timer_frame_def)
  ultimately show thesis using eq arm
    using more by (intro that [of ?s]) (auto simp: s2_def fr flag_simps s1(5))
qed
lemma timer_init_ok:
  assumes ok: "timers_ok s H" and h: "h \<notin> H" and size: "card H + 1 < 2 ^ 32"
  shows "timers_ok (uv_timer_init h s) (insert h H)" and "armed (uv_timer_init h s) (insert h H) = armed s H"
proof -
  show arm: "armed (uv_timer_init h s) (insert h H) = armed s H"
    using h by (auto simp: uv_timer_init_def Let_def armed_def flag_simps uv__handle_init_def has_flag_def)
  have lt: "timer_less_than (uv_timer_init h s) a b = timer_less_than s a b" if "a \<in> armed s H" "b \<in> armed s H" for a b
    using that h armed_subset [of s H]
    by (intro timer_less_than_cong) (auto simp: uv_timer_init_def Let_def uv__handle_init_def)
  have cb: "timer_cb (uv_timer_init h s) k = timer_cb s k" if "k \<in> armed s H" for k
    using that h armed_subset [of s H] by (auto simp: uv_timer_init_def Let_def uv__handle_init_def)
  have "handles_ok (uv_timer_init h s) (insert h H)"
    using handle_init_ok [OF timers_okD(1) [OF ok] h, of UV_TIMER]
    by (simp add: uv_timer_init_def Let_def handles_ok_timer_update)
  moreover have "timer_heap (uv_timer_init h s) = timer_heap s"
    by (simp add: uv_timer_init_def Let_def uv__handle_init_def)
  moreover have "heap_inv (timer_less_than (uv_timer_init h s)) (timer_heap s) (armed s H)"
    by (rule heap_inv_cong [OF timers_okD(4) [OF ok] lt])
  ultimately show "timers_ok (uv_timer_init h s) (insert h H)"
    using timers_okD [OF ok] h size by (simp add: timers_ok_def arm cb)
qed

text \<open>\<open>uv_timer_again\<close> rearms a repeating timer at the loop time plus the repeat value.\<close>

lemma timer_again_ok:
  assumes ok: "timers_ok s H" and h: "h \<in> H" "htype s h = UV_TIMER" and nc: "\<not> uv__is_closing s h"
    and cb: "timer_cb s h = Some cb"
  obtains s' where "uv_timer_again h s = Some (Inr (), s')" "timers_ok s' H"
    "armed s' H = (if timer_repeat s h = 0 then armed s H else insert h (armed s H))"
    "timer_cb s' = timer_cb s" "time s' = time s" "htype s' = htype s"
    "timer_repeat s h \<noteq> 0 \<Longrightarrow> uint (timeout s' h) = min (uint (time s) + uint (timer_repeat s h)) (2 ^ 64 - 1)"
    "\<And>k. k \<noteq> h \<Longrightarrow> timer_key s' k = timer_key s k" "timer_repeat s' = timer_repeat s" "timer_loop.more s' = timer_loop.more s"
    "\<And>k. has_flag s' k UV_HANDLE_CLOSING = has_flag s k UV_HANDLE_CLOSING"
    "\<And>k. has_flag s' k UV_HANDLE_CLOSED = has_flag s k UV_HANDLE_CLOSED"
proof (cases "timer_repeat s h = 0")
  case True
  then show thesis using that [of s] ok cb by (simp add: uv_timer_again_def)
next
  case False
  obtain s1 where s1: "uv_timer_stop h s = Some s1" "timers_ok s1 H" "armed s1 H = armed s H - {h}"
    "timer_frame s s1" "\<And>k m. k \<noteq> h \<or> m = UV_HANDLE_CLOSING \<or> m = UV_HANDLE_CLOSED \<or> m = UV_HANDLE_REF \<Longrightarrow> has_flag s1 k m = has_flag s k m"
    by (rule timer_stop_ok [OF ok h]) blast
  note fr = timer_frameD [OF s1(4)]
  have nc1: "\<not> uv__is_closing s1 h" using nc s1(5) by (simp add: is_closing_iff)
  have ty: "htype s1 h = UV_TIMER" using h(2) by (simp add: fr)
  obtain s2 where s2: "uv_timer_start h (Some cb) (timer_repeat s h) (timer_repeat s h) s1 = Some (Inr (), s2)"
    "timers_ok s2 H" "armed s2 H = insert h (armed s1 H)" "timer_cb s2 = (timer_cb s1)(h := Some cb)"
    "uint (timeout s2 h) = min (uint (time s1) + uint (timer_repeat s h)) (2 ^ 64 - 1)"
    "\<And>k. k \<noteq> h \<Longrightarrow> timeout s2 k = timeout s1 k"
    "timer_repeat s2 = (timer_repeat s1)(h := timer_repeat s h)" "time s2 = time s1" "htype s2 = htype s1"
    "\<And>k. has_flag s2 k UV_HANDLE_CLOSING = has_flag s1 k UV_HANDLE_CLOSING"
    "\<And>k. has_flag s2 k UV_HANDLE_CLOSED = has_flag s1 k UV_HANDLE_CLOSED"
    "timer_loop.more s2 = timer_loop.more s1" "start_id s2 = (start_id s1)(h := timer_counter s1)"
    by (rule timer_start_ok [OF s1(2) h(1) ty nc1, of cb "timer_repeat s h" "timer_repeat s h"]) blast
  have "uv_timer_again h s = Some (Inr (), s2)"
    using cb False s1(1) s2(1) by (simp add: uv_timer_again_def fr)
  moreover have more: "timer_loop.more s1 = timer_loop.more s" using s1(4) by (auto simp: timer_frame_def)
  moreover have "timer_cb s2 = timer_cb s" "timer_repeat s2 = timer_repeat s"
    using cb by (auto simp: s2(4,7) fr)
  ultimately show thesis
    using that [of s2] s2 s1(3,5) False more by (auto simp: fr timer_key_def)
qed

section \<open>The poll timeout\<close>

lemma next_timeout_empty: "timers_ok s H \<Longrightarrow> armed s H = {} \<Longrightarrow> uv__next_timeout s = -1"
  using hq.least_None [OF timers_okD(4), of s H] by (simp add: uv__next_timeout_def)

lemma next_timeout_least:
  assumes ok: "timers_ok s H" and ne: "armed s H \<noteq> {}"
  shows "uv__next_timeout s =
    min INT_MAX (max 0 (Min ((\<lambda>h. uint (timeout s h)) ` armed s H) - uint (time s)))"
proof -
  obtain m where m: "heap_min (timer_heap s) = Some m" "m \<in> armed s H" "\<forall>x \<in> armed s H. \<not> timer_less_than s x m"
    using hq.pop_least [OF strict_weak_timer timers_okD(4) [OF ok] ne] by blast
  have fin: "finite (armed s H)" by (rule hq.finite [OF timers_okD(4) [OF ok]])
  have "Min ((\<lambda>h. uint (timeout s h)) ` armed s H) = uint (timeout s m)"
  proof (rule Min_eqI)
    show "finite ((\<lambda>h. uint (timeout s h)) ` armed s H)" using fin by simp
    show "uint (timeout s m) \<in> (\<lambda>h. uint (timeout s h)) ` armed s H" using m(2) by blast
    show "uint (timeout s m) \<le> y" if "y \<in> (\<lambda>h. uint (timeout s h)) ` armed s H" for y
      using that m(3) timer_less_than_timeout by (fastforce simp: word_le_def)
  qed
  then show ?thesis
    using m(1) by (simp add: uv__next_timeout_def Let_def word_le_def uint_sub_if')
qed

section \<open>Running the timers\<close>

definition due :: "'a timer_loop_scheme \<Rightarrow> addr set \<Rightarrow> addr set" where
  "due s H = {h \<in> armed s H. timeout s h \<le> time s}"

text \<open>
  What is asked of the callbacks: they return, keep the invariant and the loop time, and arm no
  timer that is due already (\<open>uv_timer_start\<close> with a timeout of \<open>0\<close> in a callback would).
\<close>

definition cb_ok :: "(nat \<Rightarrow> addr \<Rightarrow> 'a timer_loop_scheme \<Rightarrow> 'a timer_loop_scheme option) \<Rightarrow> addr set \<Rightarrow> bool" where
  "cb_ok run_cb H \<longleftrightarrow> (\<forall>cb h s. timers_ok s H \<longrightarrow> h \<in> H \<longrightarrow>
     (\<exists>s'. run_cb cb h s = Some s' \<and> timers_ok s' H \<and> time s' = time s \<and> due s' H \<subseteq> due s H))"

lemma due_finite: "timers_ok s H \<Longrightarrow> finite (due s H)"
  using hq.finite [OF timers_okD(4), of s H] by (auto simp: due_def)

text \<open>One turn of the loop: the least due timer is stopped, rearmed if it repeats, and called.\<close>

lemma run_timers_turn:
  assumes ok: "timers_ok s H" and d: "due s H \<noteq> {}" and max: "time s \<noteq> -1"
  obtains h cb s1 where "h \<in> due s H" "\<forall>k \<in> armed s H. \<not> timer_less_than s k h"
    "timers_ok s1 H" "due s1 H = due s H - {h}" "time s1 = time s"
    "\<And>k. k \<noteq> h \<Longrightarrow> timer_key s1 k = timer_key s k"
    "uv__run_timers run_cb s = (run_cb cb h s1 \<bind> uv__run_timers run_cb)"
    "timer_loop.more s1 = timer_loop.more s"
proof -
  have "armed s H \<noteq> {}" using d by (auto simp: due_def)
  then obtain h where h: "heap_min (timer_heap s) = Some h" "h \<in> armed s H" "\<forall>k \<in> armed s H. \<not> timer_less_than s k h"
    using hq.pop_least [OF strict_weak_timer timers_okD(4) [OF ok]] by blast
  obtain k where k: "k \<in> armed s H" "timeout s k \<le> time s" using d by (auto simp: due_def)
  have le: "timeout s h \<le> time s" using timer_less_than_timeout [of s k h] h(3) k by (meson order_trans)
  have hH: "h \<in> H" "htype s h = UV_TIMER" "has_flag s h UV_HANDLE_ACTIVE" using h(2) by (auto simp: armed_def)
  have nc: "\<not> uv__is_closing s h" using timers_okD(1) [OF ok] hH by (auto simp: handles_ok_def)
  obtain cb where cb: "timer_cb s h = Some cb" using timers_okD(5) [OF ok h(2)] by blast
  obtain s0 where s0: "uv_timer_stop h s = Some s0" "timers_ok s0 H" "armed s0 H = armed s H - {h}"
    "timer_frame s s0" "\<And>k m. k \<noteq> h \<or> m = UV_HANDLE_CLOSING \<or> m = UV_HANDLE_CLOSED \<or> m = UV_HANDLE_REF \<Longrightarrow> has_flag s0 k m = has_flag s k m"
    by (rule timer_stop_ok [OF ok hH(1,2)]) blast
  note fr = timer_frameD [OF s0(4)]
  have nc0: "\<not> uv__is_closing s0 h" using nc s0(5) by (simp add: is_closing_iff)
  have h0: "htype s0 h = UV_TIMER" "timer_cb s0 h = Some cb" using hH(2) cb by (simp_all add: fr)
  obtain s1 where s1: "uv_timer_again h s0 = Some (Inr (), s1)" "timers_ok s1 H"
    "armed s1 H = (if timer_repeat s0 h = 0 then armed s0 H else insert h (armed s0 H))"
    "timer_cb s1 = timer_cb s0" "time s1 = time s0"
    "timer_repeat s0 h \<noteq> 0 \<Longrightarrow> uint (timeout s1 h) = min (uint (time s0) + uint (timer_repeat s0 h)) (2 ^ 64 - 1)"
    "\<And>k. k \<noteq> h \<Longrightarrow> timer_key s1 k = timer_key s0 k" "timer_loop.more s1 = timer_loop.more s0"
    by (rule timer_again_ok [OF s0(2) hH(1) h0(1) nc0 h0(2)]) blast
  have "time s < timeout s1 h" if "timer_repeat s0 h \<noteq> 0"
  proof -
    have "uint (time s) < 2 ^ 64 - 1"
    proof -
      have "uint (time s) \<noteq> uint (-1 :: u64)" using max by (simp only: unsigned_word_eqI word_uint_eq_iff not_False_eq_True)
      moreover have "uint (-1 :: u64) = 2 ^ 64 - 1" by (simp add: unsigned_minus_1_eq_mask mask_eq_exp_minus_1)
      ultimately show ?thesis using uint_lt2p [of "time s"] by simp
    qed
    moreover have "0 < uint (timer_repeat s0 h)" using that uint_ge_0 [of "timer_repeat s0 h"] unsigned_eq_0_iff [of "timer_repeat s0 h"]
      by (metis order_le_less)
    ultimately show ?thesis using s1(6) [OF that] by (simp add: word_less_def fr)
  qed
  then have nh: "h \<notin> due s1 H"
    using s1(3,5) s0(3) by (cases "timer_repeat s0 h = 0") (simp_all add: due_def fr not_le)
  have oth: "k \<in> due s1 H \<longleftrightarrow> k \<in> due s H" if "k \<noteq> h" for k
    using s1(3,5) s1(7) [OF that] s0(3) that
    by (cases "timer_repeat s0 h = 0") (simp_all add: due_def fr timer_key_def)
  have "k \<in> due s1 H \<longleftrightarrow> k \<in> due s H - {h}" for k using nh oth by (cases "k = h") simp_all
  then have due1: "due s1 H = due s H - {h}" by blast
  show thesis
  proof (rule that [OF _ h(3) s1(2) due1])
    show "h \<in> due s H" using h(2) le by (simp add: due_def)
    show "uv__run_timers run_cb s = (run_cb cb h s1 \<bind> uv__run_timers run_cb)"
      using h(1) leD [OF le] s0(1) s1(1,4) cb by (simp add: uv__run_timers.simps [of run_cb s] fr)
    show "timer_loop.more s1 = timer_loop.more s"
      using s1(8) s0(4) by (auto simp: timer_frame_def)
  qed (use s1(5,7) in \<open>simp_all add: fr timer_key_def\<close>)
qed

lemma run_timers_idle:
  assumes ok: "timers_ok s H" and d: "due s H = {}"
  shows "uv__run_timers run_cb s = Some s"
proof (cases "heap_min (timer_heap s)")
  case (Some m)
  then have "m \<in> armed s H"
    using hq.least_Some [OF strict_weak_timer timers_okD(4) [OF ok]] by blast
  then have "timeout s m > time s" using d by (auto simp: due_def not_le)
  then show ?thesis using Some by (simp add: uv__run_timers.simps [of run_cb s])
qed (simp add: uv__run_timers.simps [of run_cb s])

lemma run_timers_ok:
  assumes cb: "cb_ok run_cb H"
  shows "timers_ok s H \<Longrightarrow> time s \<noteq> -1 \<Longrightarrow>
    \<exists>s'. uv__run_timers run_cb s = Some s' \<and> timers_ok s' H \<and> due s' H = {} \<and> time s' = time s"
proof (induction "card (due s H)" arbitrary: s rule: less_induct)
  case less
  show ?case
  proof (cases "due s H = {}")
    case True
    then show ?thesis using run_timers_idle [OF less.prems(1) True] less.prems by blast
  next
    case False
    obtain h c s1 where t: "h \<in> due s H" "timers_ok s1 H" "due s1 H = due s H - {h}" "time s1 = time s"
      "uv__run_timers run_cb s = (run_cb c h s1 \<bind> uv__run_timers run_cb)"
      by (rule run_timers_turn [OF less.prems(1) False less.prems(2), of run_cb]) blast
    have "h \<in> H" using t(1) armed_subset [of s H] by (auto simp: due_def)
    then obtain s2 where s2: "run_cb c h s1 = Some s2" "timers_ok s2 H" "time s2 = time s1" "due s2 H \<subseteq> due s1 H"
      using cb t(2) unfolding cb_ok_def by blast
    have "due s2 H \<subset> due s H" using s2(4) t(1,3) by blast
    then have "card (due s2 H) < card (due s H)"
      by (rule psubset_card_mono [OF due_finite [OF less.prems(1)]])
    from less.hyps [OF this s2(2)] show ?thesis using t(4,5) s2(1,3) less.prems(2) by simp
  qed
qed

text \<open>With callbacks that only record their call: who fires, how often and in which order.\<close>

definition record_cb :: "nat \<Rightarrow> addr \<Rightarrow> addr list timer_loop_scheme \<Rightarrow> addr list timer_loop_scheme option" where
  "record_cb cb h s = Some (timer_loop.more_update (\<lambda>l. l @ [h]) s)"

lemma more_update_ok:
  "timers_ok (timer_loop.more_update f s) H = timers_ok s H"
  "due (timer_loop.more_update f s) H = due s H"
  "timer_key (timer_loop.more_update f s) = timer_key s"
proof -
  let ?s = "timer_loop.more_update f s"
  have fl: "has_flag ?s = has_flag s" by (simp add: fun_eq_iff has_flag_def)
  have lt: "timer_less_than ?s = timer_less_than s" by (simp add: fun_eq_iff timer_less_than_def)
  show "timers_ok ?s H = timers_ok s H" "due ?s H = due s H" "timer_key ?s = timer_key s"
    by (simp_all add: timers_ok_def handles_ok_def counted_def armed_def due_def is_closing_iff fl lt
        fun_eq_iff timer_key_def)
qed

lemma run_timers_order:
  "timers_ok s H \<Longrightarrow> time s \<noteq> -1 \<Longrightarrow>
    \<exists>s' hs. uv__run_timers record_cb s = Some s' \<and> timer_loop.more s' = timer_loop.more s @ hs \<and>
      distinct hs \<and> set hs = due s H \<and> sorted_wrt (\<lambda>a b. \<not> timer_less_than s b a) hs"
proof (induction "card (due s H)" arbitrary: s rule: less_induct)
  case less
  show ?case
  proof (cases "due s H = {}")
    case True
    then show ?thesis using run_timers_idle [OF less.prems(1) True, of record_cb] by auto
  next
    case False
    obtain h c s1 where t: "h \<in> due s H" "\<forall>k \<in> armed s H. \<not> timer_less_than s k h"
      "timers_ok s1 H" "due s1 H = due s H - {h}" "time s1 = time s"
      "\<And>k. k \<noteq> h \<Longrightarrow> timer_key s1 k = timer_key s k"
      "uv__run_timers record_cb s = (record_cb c h s1 \<bind> uv__run_timers record_cb)"
      "timer_loop.more s1 = timer_loop.more s"
      by (rule run_timers_turn [OF less.prems(1) False less.prems(2), of record_cb]) blast
    define s2 where "s2 = timer_loop.more_update (\<lambda>l. l @ [h]) s1"
    have s2: "timers_ok s2 H" "due s2 H = due s1 H" "time s2 = time s1" "timer_key s2 = timer_key s1"
      "timer_loop.more s2 = timer_loop.more s @ [h]"
      using t(3,8) by (simp_all add: s2_def more_update_ok)
    have "card (due s2 H) < card (due s H)"
      unfolding s2(2) t(4) by (rule card_Diff1_less [OF due_finite [OF less.prems(1)] t(1)])
    from less.hyps [OF this s2(1)] obtain s' hs where r: "uv__run_timers record_cb s2 = Some s'"
      "timer_loop.more s' = timer_loop.more s2 @ hs" "distinct hs" "set hs = due s2 H"
      "sorted_wrt (\<lambda>a b. \<not> timer_less_than s2 b a) hs"
      using s2(3) t(5) less.prems(2) by auto
    have hs: "set hs = due s H - {h}" using r(4) s2(2) t(4) by simp
    have "sorted_wrt (\<lambda>a b. \<not> timer_less_than s b a) hs"
      using r(5) by (rule sorted_wrt_mono_rel [rotated]) (use hs t(6) s2(4) in \<open>auto simp: timer_less_than_key\<close>)
    moreover have "\<forall>k \<in> set hs. \<not> timer_less_than s k h" using hs t(2) by (auto simp: due_def)
    moreover have "uv__run_timers record_cb s = Some s'"
      using t(7) r(1) by (simp add: record_cb_def s2_def)
    moreover have "timer_loop.more s' = timer_loop.more s @ (h # hs)" using r(2) s2(5) by simp
    moreover have "distinct (h # hs)" "set (h # hs) = due s H" using hs r(3) t(1) by auto
    ultimately show ?thesis by (intro exI [of _ s'] exI [of _ "h # hs"]) simp
  qed
qed

section \<open>Properties\<close>

text \<open>One timer, at address 1, armed at time 5 and not repeating; the loop time is 10.\<close>

definition demo_loop :: "addr list timer_loop_scheme" where
  "demo_loop = \<lparr>flags = (\<lambda>_. 0)(1 := 12), htype = (\<lambda>_. UV_TIMER), next_closing = (\<lambda>_. None),
     active_handles = 1, active_reqs = 0, closing_handles = None, time = 10, stop_flag = False,
     qs = \<lparr>QUEUE_NEXT = \<lambda>q. q, QUEUE_PREV = \<lambda>q. q\<rparr>,
     timer_cb = (\<lambda>_. Some 0), timeout = (\<lambda>_. 5), timer_repeat = (\<lambda>_. 0), start_id = (\<lambda>_. 0),
     timer_counter = 1, timer_heap = \<lparr>heap_top = Some 1, nelts = 1,
       nodes = (\<lambda>_. \<lparr>left = None, right = None, parent = None\<rparr>)\<rparr>, \<dots> = []\<rparr>"

lemma demo_armed: "armed demo_loop {1} = {1}"
  by (auto simp: armed_def has_flag_def demo_loop_def)

lemma demo_timers_ok: "timers_ok demo_loop {1}"
proof -
  have "heap_inv (timer_less_than demo_loop) (timer_heap demo_loop) {1}"
  proof (rule heap_invI)
    show "heap_rep (timer_heap demo_loop) (\<lambda>_. 1) 1"
      by (simp add: heap_rep_def tree_rep_def demo_loop_def child_at_def parent_at_def)
  qed (simp_all add: heap_ordered_def)
  moreover have "handles_ok demo_loop {1}"
    by (simp add: handles_ok_def counted_def has_flag_def demo_loop_def uv__is_closing_def cong: conj_cong)
  ultimately show ?thesis unfolding timers_ok_def demo_armed by (simp add: demo_loop_def)
qed

text \<open>
  C6: A run of the timers fires every timer that is due, each once, none that is not, in the
  order of \<open>timer_less_than\<close> (by timeout, then by the order of the calls of \<open>uv_timer_start\<close>).
  The callbacks here only record who was called.
\<close>

theorem run_timers_fires_in_order:
  assumes "timers_ok s H" and "time s \<noteq> -1"
  shows "\<exists>s' hs. uv__run_timers record_cb s = Some s' \<and> timer_loop.more s' = timer_loop.more s @ hs \<and>
    distinct hs \<and> set hs = {h \<in> armed s H. timeout s h \<le> time s} \<and>
    sorted_wrt (\<lambda>a b. \<not> timer_less_than s b a) hs"
  using run_timers_order [OF assms] by (simp add: due_def)

theorem run_timers_fires_in_order_witness:
  "\<exists>s'. uv__run_timers record_cb demo_loop = Some s' \<and> timer_loop.more s' = [1]"
proof -
  have "time demo_loop \<noteq> -1" by (simp add: demo_loop_def)
  from run_timers_fires_in_order [OF demo_timers_ok this] obtain s' hs where
    r: "uv__run_timers record_cb demo_loop = Some s'" "timer_loop.more s' = timer_loop.more demo_loop @ hs"
    "distinct hs" "set hs = {h \<in> armed demo_loop {1}. timeout demo_loop h \<le> time demo_loop}" by blast
  have "set hs = {1}" using r(4) unfolding demo_armed by (auto simp: demo_loop_def)
  then have "hs = [1]" using r(3) by (cases hs; cases "tl hs") (auto simp: insert_eq_iff)
  then show ?thesis using r(1,2) by (simp add: demo_loop_def)
qed

text \<open>
  C7: Whatever the callbacks do, as long as they return, keep the invariant and arm no timer that
  is due already, \<open>uv__run_timers\<close> returns, keeps the invariant and leaves no timer due.
\<close>

theorem run_timers_returns:
  assumes "timers_ok s H" and "time s \<noteq> -1" and "cb_ok run_cb H"
  shows "\<exists>s'. uv__run_timers run_cb s = Some s' \<and> timers_ok s' H \<and>
    (\<forall>h \<in> armed s' H. time s' < timeout s' h)"
  using run_timers_ok [OF assms(3,1,2)] by (fastforce simp: due_def not_le)

theorem run_timers_returns_witness:
  "\<exists>s'. uv__run_timers record_cb demo_loop = Some s' \<and> timers_ok s' {1} \<and>
    (\<forall>h \<in> armed s' {1}. time s' < timeout s' h)"
proof (rule run_timers_returns [OF demo_timers_ok])
  show "time demo_loop \<noteq> -1" by (simp add: demo_loop_def)
  show "cb_ok record_cb {1}" by (simp add: cb_ok_def record_cb_def more_update_ok)
qed

text \<open>
  C31: \<open>uv_timer_start\<close> on a timer that is not closing, active or not, arms it at loop time plus
  timeout, or at the largest time if the sum overflows, behind every timer with the same timeout
  whose id is smaller, and keeps the heap and the count of active handles.
\<close>

theorem timer_start_arms:
  assumes "timers_ok s H" and "h \<in> H" and "htype s h = UV_TIMER" and "\<not> uv__is_closing s h"
  shows "\<exists>s'. uv_timer_start h (Some cb) tmo rep s = Some (Inr (), s') \<and> timers_ok s' H \<and>
    armed s' H = insert h (armed s H) \<and>
    uint (timeout s' h) = min (uint (time s) + uint tmo) (2 ^ 64 - 1) \<and>
    (\<forall>k \<in> armed s H - {h}. start_id s k < timer_counter s \<longrightarrow> timeout s k \<le> timeout s' h \<longrightarrow>
      timer_less_than s' k h)"
proof -
  obtain s' where s': "uv_timer_start h (Some cb) tmo rep s = Some (Inr (), s')" "timers_ok s' H"
    "armed s' H = insert h (armed s H)" "uint (timeout s' h) = min (uint (time s) + uint tmo) (2 ^ 64 - 1)"
    "\<And>k. k \<noteq> h \<Longrightarrow> timeout s' k = timeout s k" "start_id s' = (start_id s)(h := timer_counter s)"
    by (rule timer_start_ok [OF assms, of cb tmo rep]) blast
  then show ?thesis by (auto simp: timer_less_than_def)
qed

theorem timer_start_arms_witness:
  "\<exists>s'. uv_timer_start 1 (Some 3) (-2) 0 demo_loop = Some (Inr (), s') \<and> timers_ok s' {1} \<and>
    uint (timeout s' 1) = 2 ^ 64 - 1"
proof -
  have t: "htype demo_loop 1 = UV_TIMER" "\<not> uv__is_closing demo_loop 1"
    by (simp_all add: demo_loop_def is_closing_iff has_flag_def)
  have "uint (-2 :: u64) = 2 ^ 64 - 2" by (simp add: uint_word_arith_bintrs take_bit_int_def)
  then show ?thesis
    using timer_start_arms [OF demo_timers_ok _ t, of 3 "-2" 0] by (auto simp: demo_loop_def)
qed

text \<open>
  The timeout handed to the poll is -1 when no timer is armed, else the distance from the loop
  time to the earliest armed timer, cut at 0 below and at \<open>INT_MAX\<close> above.
\<close>

theorem next_timeout_is_earliest:
  assumes "timers_ok s H"
  shows "uv__next_timeout s =
    (if armed s H = {} then -1
     else min INT_MAX (max 0 (Min ((\<lambda>h. uint (timeout s h)) ` armed s H) - uint (time s))))"
  using next_timeout_empty [OF assms] next_timeout_least [OF assms] by simp

theorem next_timeout_is_earliest_witness: "uv__next_timeout demo_loop = 0"
  using next_timeout_is_earliest [OF demo_timers_ok] unfolding demo_armed by (simp add: demo_loop_def)

end
