(* ===== verification/Strings.thy ===== *)
theory Strings
  imports Prelude
begin

text \<open>
  src/strscpy.c and src/strtok.c: bounded copy of a C string and splitting at separators in
  place.  A buffer is a list of characters; a C string in it ends at the first \<open>NUL\<close>.
  Pointers into a buffer are indexes.  The lemmas describe the result of a copy for every size,
  and show that repeated calls of \<open>uv__strtok\<close> cut a string into its fields.
\<close>

abbreviation NUL :: char where "NUL \<equiv> CHR 0x00"
abbreviation SSIZE_MAX :: nat where "SSIZE_MAX \<equiv> 2 ^ 63 - 1"

text \<open>The C string that starts at index \<open>i\<close>.\<close>

definition c_string :: "string \<Rightarrow> nat \<Rightarrow> string" where
  "c_string buf i = takeWhile (\<lambda>c. c \<noteq> NUL) (drop i buf)"

section \<open>strscpy.c\<close>

text \<open>The loop: \<open>k\<close> is \<open>n - i\<close>; \<open>Some i\<close> when it met the terminator.\<close>

fun strscpy_loop :: "nat \<Rightarrow> nat \<Rightarrow> string \<Rightarrow> string \<Rightarrow> string \<times> nat option" where
  "strscpy_loop 0 i d s = (d, None)"
| "strscpy_loop (Suc k) i d s =
     (let d = d[i := s ! i]
      in if s ! i = NUL then (d, Some i) else strscpy_loop k (i + 1) d s)"

definition uv__strscpy :: "string \<Rightarrow> string \<Rightarrow> nat \<Rightarrow> (uv_errno + nat) \<times> string" where
  "uv__strscpy d s n =
     (case strscpy_loop n 0 d s of
        (d, Some i) \<Rightarrow> (if i > SSIZE_MAX then Inl UV_E2BIG else Inr i, d)
      | (d, None) \<Rightarrow> if n = 0 then (Inr 0, d) else (Inl UV_E2BIG, d[n - 1 := NUL]))"

lemma strscpy_loop_spec:
  assumes "i + k \<le> length d" "t = takeWhile (\<lambda>c. c \<noteq> NUL) s" "length t < length s" "i \<le> length t"
  shows "strscpy_loop k i (take i t @ drop i d) s =
    (if length t < i + k then (t @ NUL # drop (length t + 1) d, Some (length t))
     else (take (i + k) t @ drop (i + k) d, None))"
  using assms(1,4)
proof (induction k arbitrary: i)
  case (Suc k)
  have nth: "s ! j = t ! j" if "j < length t" for j
    using that takeWhile_nth [of j "\<lambda>c. c \<noteq> NUL" s] assms(2) by simp
  have upd: "(take i t @ drop i d)[i := c] = take i t @ c # drop (i + 1) d" for c
    using Suc.prems by (simp add: list_update_append Cons_nth_drop_Suc [symmetric])
  show ?case
  proof (cases "i = length t")
    case True
    have "s ! i = NUL"
      using nth_length_takeWhile [of "\<lambda>c. c \<noteq> NUL" s] assms(2,3) True by simp
    then show ?thesis using upd True by (simp add: Let_def)
  next
    case False
    then have i: "i < length t" using Suc.prems(2) by simp
    have "s ! i \<noteq> NUL" using nth [OF i] nth_mem [OF i] assms(2) by (auto dest: set_takeWhileD)
    then have "strscpy_loop (Suc k) i (take i t @ drop i d) s = strscpy_loop k (i + 1) (take (i + 1) t @ drop (i + 1) d) s"
      using i nth upd by (simp add: Let_def take_Suc_conv_app_nth)
    then show ?thesis using Suc.IH [of "i + 1"] Suc.prems i by simp
  qed
qed (use assms(1) in auto)

lemma strscpy_spec:
  assumes "n \<le> length d" and "NUL \<in> set s" and "t = c_string s 0"
  shows "uv__strscpy d s n =
    (if length t < n
     then (if length t > SSIZE_MAX then Inl UV_E2BIG else Inr (length t), t @ NUL # drop (length t + 1) d)
     else if n = 0 then (Inr 0, d)
     else (Inl UV_E2BIG, take (n - 1) t @ NUL # drop n d))"
proof -
  have t: "t = takeWhile (\<lambda>c. c \<noteq> NUL) s" using assms(3) by (simp add: c_string_def)
  have "takeWhile (\<lambda>c. c \<noteq> NUL) s \<noteq> s" using assms(2) by (auto simp: takeWhile_eq_all_conv)
  then have lt: "length t < length s"
    unfolding t using takeWhile_dropWhile_id [of "\<lambda>c. c \<noteq> NUL" s]
    by (metis append.right_neutral length_append length_greater_0_conv less_add_same_cancel1)
  have loop: "strscpy_loop n 0 d s =
    (if length t < n then (t @ NUL # drop (length t + 1) d, Some (length t)) else (take n t @ drop n d, None))"
    using strscpy_loop_spec [of 0 n d t s] assms(1) t lt by simp
  have last: "(take n t @ drop n d)[n - 1 := NUL] = take (n - 1) t @ NUL # drop n d" if "n \<noteq> 0" "n \<le> length t"
    using that by (cases n) (simp_all add: take_Suc_conv_app_nth list_update_append)
  show ?thesis using loop last by (simp add: uv__strscpy_def)
qed

section \<open>strtok.c\<close>

text \<open>The outer loop from index \<open>tmp\<close>; the inner loop is the search for a separator.\<close>

fun at_separator :: "char \<Rightarrow> string \<Rightarrow> bool" where
  "at_separator c [] = False"
| "at_separator c (s # sep) = (c = s \<or> at_separator c sep)"

function strtok_loop :: "string \<Rightarrow> string \<Rightarrow> nat \<Rightarrow> string \<times> nat option" where
  "strtok_loop buf sep tmp =
     (if tmp \<ge> length buf \<or> buf ! tmp = NUL then (buf, None)
      else if at_separator (buf ! tmp) sep then (buf[tmp := NUL], Some (tmp + 1))
      else strtok_loop buf sep (tmp + 1))"
  by pat_completeness auto
termination
  by (relation "measure (\<lambda>(buf, sep, tmp). length buf - tmp)") auto

declare strtok_loop.simps [simp del]

text \<open>The result is the start of the token, the buffer and the new \<open>*itr\<close>.\<close>

definition uv__strtok ::
  "string \<Rightarrow> nat option \<Rightarrow> string \<Rightarrow> nat option \<Rightarrow> nat option \<times> string \<times> nat option" where
  "uv__strtok buf str sep itr =
     (let start = (case str of None \<Rightarrow> itr | Some p \<Rightarrow> Some p)
      in case start of
           None \<Rightarrow> (None, buf, itr)
         | Some tmp \<Rightarrow> (let (buf, itr) = strtok_loop buf sep tmp in (Some tmp, buf, itr)))"

lemma at_separator_mem: "at_separator c sep \<longleftrightarrow> c \<in> set sep"
  by (induction sep) auto

lemma strtok_loop_spec:
  fixes sep :: string
  assumes "NUL \<in> set (drop i buf)"
  defines "w \<equiv> takeWhile (\<lambda>c. c \<noteq> NUL \<and> c \<notin> set sep) (drop i buf)"
  shows "strtok_loop buf sep i =
    (if buf ! (i + length w) = NUL then (buf, None)
     else (buf[i + length w := NUL], Some (i + length w + 1)))"
  using assms(1) unfolding w_def
proof (induction "length buf - i" arbitrary: i)
  case 0
  then show ?case by simp
next
  case (Suc n)
  then have i: "i < length buf" by simp
  then have dr: "drop i buf = buf ! i # drop (i + 1) buf" by (simp add: Cons_nth_drop_Suc)
  show ?case
  proof (cases "buf ! i = NUL \<or> buf ! i \<in> set sep")
    case True
    then show ?thesis using i by (auto simp: dr strtok_loop.simps [of buf sep i] at_separator_mem)
  next
    case False
    then have "NUL \<in> set (drop (i + 1) buf)" using Suc.prems dr by (metis set_ConsD)
    moreover have "n = length buf - (i + 1)" using Suc.hyps(2) by simp
    ultimately show ?thesis using Suc.hyps(1) [of "i + 1"] False i
      by (simp add: dr strtok_loop.simps [of buf sep i] at_separator_mem)
  qed
qed

section \<open>Properties\<close>

text \<open>
  \<open>uv__strscpy\<close> into a buffer of at least \<open>n\<close> bytes: if the C string \<open>t\<close> and its terminator
  fit into \<open>n\<close> bytes they are copied and the length is returned; else the first \<open>n - 1\<close> bytes and
  a terminator are written and the result is \<open>UV_E2BIG\<close>; nothing beyond byte \<open>n\<close> is written.
\<close>

theorem strscpy_copies_or_truncates:
  assumes "n \<le> length d" and "NUL \<in> set s" and "length (c_string s 0) \<le> SSIZE_MAX"
  shows "uv__strscpy d s n =
    (let t = c_string s 0
     in if length t < n then (Inr (length t), t @ NUL # drop (length t + 1) d)
        else if n = 0 then (Inr 0, d)
        else (Inl UV_E2BIG, take (n - 1) t @ NUL # drop n d))"
  using strscpy_spec [OF assms(1,2) refl] assms(3) by (simp add: Let_def)

theorem strscpy_copies_or_truncates_witness:
  "uv__strscpy ''......'' [CHR ''a'', CHR ''b'', CHR ''c'', NUL] 3 =
    (Inl UV_E2BIG, [CHR ''a'', CHR ''b'', NUL, CHR ''.'', CHR ''.'', CHR ''.''])"
  using strscpy_copies_or_truncates [of 3 "''......''" "[CHR ''a'', CHR ''b'', CHR ''c'', NUL]"]
  by (simp add: c_string_def)

text \<open>
  A call of \<open>uv__strtok\<close> at index \<open>i\<close> returns \<open>i\<close>; the C string there becomes the longest
  prefix without a separator, and \<open>*itr\<close> points behind the separator that ended it, or is
  \<open>NULL\<close> when the string ended; the rest of the buffer is not changed.
\<close>

theorem strtok_cuts_field:
  assumes "NUL \<in> set (drop i buf)"
  shows "let w = takeWhile (\<lambda>c. c \<noteq> NUL \<and> c \<notin> set sep) (drop i buf);
             (start, buf', itr') = uv__strtok buf (Some i) sep itr
         in start = Some i \<and> c_string buf' i = w \<and>
            (if buf ! (i + length w) = NUL then itr' = None \<and> buf' = buf
             else itr' = Some (i + length w + 1) \<and> buf' = buf[i + length w := NUL])"
proof -
  let ?w = "takeWhile (\<lambda>c. c \<noteq> NUL \<and> c \<notin> set sep) (drop i buf)"
  have "dropWhile (\<lambda>c. c \<noteq> NUL \<and> c \<notin> set sep) (drop i buf) \<noteq> []"
    using assms by (auto simp: dropWhile_eq_Nil_conv)
  then obtain x r where xr: "dropWhile (\<lambda>c. c \<noteq> NUL \<and> c \<notin> set sep) (drop i buf) = x # r"
    by (meson list.exhaust)
  have i: "i \<le> length buf" using assms by (cases "i \<le> length buf") auto
  define w where "w = ?w"
  have d: "drop i buf = w @ x # r"
    unfolding w_def using takeWhile_dropWhile_id [of "\<lambda>c. c \<noteq> NUL \<and> c \<notin> set sep" "drop i buf"] xr by simp
  then have buf: "buf = take i buf @ w @ x # r" by (metis append_take_drop_id)
  have nth: "buf ! (i + length w) = x" by (subst buf) (simp add: nth_append min.absorb2 [OF i])
  have upd: "drop i (buf[i + length w := NUL]) = w @ NUL # r"
    by (subst buf) (simp add: list_update_append min.absorb2 [OF i])
  have tw: "takeWhile (\<lambda>c. c \<noteq> NUL) (w @ NUL # ys) = w" for ys
    unfolding w_def by (subst takeWhile_append2) (auto dest: set_takeWhileD)
  show ?thesis
    using strtok_loop_spec [OF assms, of sep] upd tw [of r] d nth unfolding w_def [symmetric]
    by (cases "x = NUL") (simp_all add: uv__strtok_def Let_def c_string_def)
qed

theorem strtok_cuts_field_witness:
  "fst (snd (uv__strtok [CHR ''a'', CHR '':'', CHR ''b'', NUL] (Some 0) '':'' None)) =
    [CHR ''a'', NUL, CHR ''b'', NUL]"
  using strtok_cuts_field [of 0 "[CHR ''a'', CHR '':'', CHR ''b'', NUL]" "'':''" None]
  by (simp add: Let_def split: prod.splits)

end
