(* ===== verification/Idna.thy ===== *)
theory Idna
  imports Prelude
begin

text \<open>
  src/idna.c: the UTF-8 decoder and the conversion of host names to ASCII (Punycode).  A pair of
  pointers into the input is the list of the bytes between them; the output is the list of the
  bytes written and the room that is left (\<open>de - d\<close>).

  The lemmas show that decoding inverts a reference UTF-8 encoder on all Unicode scalar values,
  that a decoded value is always a scalar value or \<open>UINT_MAX\<close>, that every loop returns, that the
  conversion writes at most the room it is given, and that it copies ASCII labels.
\<close>

section \<open>UTF-8\<close>

abbreviation UINT_MAX :: u32 where "UINT_MAX \<equiv> -1"

definition byte_at :: "u8 list \<Rightarrow> nat \<Rightarrow> u32" where
  "byte_at p i = ucast (p ! i)"

text \<open>The code after the \<open>switch\<close>, with the \<open>min\<close> (here \<open>least\<close>), \<open>a\<close>, \<open>b\<close>, \<open>c\<close> and \<open>d\<close> it chose.\<close>

definition utf8_combine :: "u32 \<Rightarrow> u32 \<Rightarrow> u32 \<Rightarrow> u32 \<Rightarrow> u32 \<Rightarrow> u32" where
  "utf8_combine least a b c d =
     (if 0x80 \<noteq> 0xC0 AND (b XOR c XOR d) then -1
      else
        let b = b AND 63;
            c = c AND 63;
            d = d AND 63;
            a = push_bit 18 a OR push_bit 12 b OR push_bit 6 c OR d
        in if a < least then -1
           else if a > 0x10FFFF then -1
           else if a \<ge> 0xD800 \<and> a \<le> 0xDFFF then -1
           else a)"

text \<open>
  The cases fall through: a lead byte of a longer sequence than the input holds is tried with
  the next shorter form.
\<close>

definition uv__utf8_decode1_slow :: "u8 list \<Rightarrow> u32 \<Rightarrow> u32 \<times> u8 list" where
  "uv__utf8_decode1_slow p a =
     (if a > 0xF7 then (-1, p)
      else if length p \<ge> 3 \<and> a > 0xEF
        then (utf8_combine 0x10000 (a AND 7) (byte_at p 0) (byte_at p 1) (byte_at p 2), drop 3 p)
      else if length p \<ge> 2 \<and> a > 0xDF
        then (utf8_combine 0x800 0 (0x80 OR (a AND 15)) (byte_at p 0) (byte_at p 1), drop 2 p)
      else if length p \<ge> 1 \<and> a > 0xBF
        then (utf8_combine 0x80 0 0x80 (0x80 OR (a AND 31)) (byte_at p 0), drop 1 p)
      else (-1, p))"

fun uv__utf8_decode1 :: "u8 list \<Rightarrow> (u32 \<times> u8 list) option" where
  "uv__utf8_decode1 [] = None"
| "uv__utf8_decode1 (x # p) =
     (let a = ucast x
      in if a < 128 then Some (a, p) else Some (uv__utf8_decode1_slow p a))"

lemma decode1_slow_length: "uv__utf8_decode1_slow p a = (c, p') \<Longrightarrow> length p' \<le> length p"
  by (auto simp: uv__utf8_decode1_slow_def split: if_splits)

lemma decode1_length: "uv__utf8_decode1 p = Some (c, p') \<Longrightarrow> length p' < length p"
  by (cases p) (auto simp: Let_def split: if_splits dest!: decode1_slow_length)

text \<open>
  \<open>while (s < se) { c = uv__utf8_decode1(&s, se); ... }\<close> visits the elements of this list; the
  first loop of a label leaves with an error at the first \<open>UINT_MAX\<close>.
\<close>

function utf8_scan :: "u8 list \<Rightarrow> u32 list option" where
  "utf8_scan s =
     (case uv__utf8_decode1 s of
        None \<Rightarrow> Some []
      | Some (c, s') \<Rightarrow>
          if c = UINT_MAX then None
          else (case utf8_scan s' of None \<Rightarrow> None | Some cs \<Rightarrow> Some (c # cs)))"
  by pat_completeness auto
termination
  by (relation "measure length") (auto dest: decode1_length)

declare utf8_scan.simps [simp del]

section \<open>The output\<close>

type_synonym sink = "u8 list \<times> nat"

text \<open>\<open>if (*d < de) *(*d)++ = c\<close>.\<close>

fun emit :: "u8 \<Rightarrow> sink \<Rightarrow> sink" where
  "emit c (out, room) = (if 0 < room then (out @ [c], room - 1) else (out, room))"

definition alphabet :: "u8 list" where
  "alphabet = map (\<lambda>n. of_nat n) ([97..<123] @ [48..<58])"

section \<open>One label\<close>

fun write_ascii :: "u32 \<Rightarrow> u32 \<Rightarrow> u32 list \<Rightarrow> sink \<Rightarrow> sink" where
  "write_ascii h x [] d = d"
| "write_ascii h x (c # cs) d =
     (if c > 127 then write_ascii h x cs d
      else let d = emit (ucast c) d; x = x + 1
           in if x = h then d else write_ascii h x cs d)"

text \<open>The threshold \<open>t\<close> of one digit.\<close>

definition threshold :: "u32 \<Rightarrow> u32 \<Rightarrow> u32" where
  "threshold k bias =
     (let t = 1;
          t = (if k > bias then k - bias else t)
      in if t > 26 then 26 else t)"

lemma word_ge_1: "1 \<le> (x :: u32) \<longleftrightarrow> x \<noteq> 0"
  by (simp add: word_le_nat_alt Suc_le_eq unat_gt_0)

lemma threshold_bounds: "1 \<le> threshold k bias \<and> threshold k bias \<le> 26"
  by (auto simp: threshold_def Let_def word_ge_1)

lemma digit_decreases:
  fixes q t :: u32
  assumes "1 \<le> t" "t \<le> 26" "t \<le> q"
  shows "unat ((q - t) div (36 - t)) < unat q"
proof -
  have "unat (q - t) = unat q - unat t" using assms(3) by (simp add: unat_sub)
  moreover have "1 \<le> unat t" "unat t \<le> unat q" using assms by (simp_all add: word_le_nat_alt)
  ultimately have "unat (q - t) < unat q" by simp
  then show ?thesis by (simp add: unat_div) (meson div_le_dividend le_less_trans)
qed

text \<open>The loop over the digits of \<open>q\<close>: it ends with the last digit, which the caller writes.\<close>

function write_digits :: "u32 \<Rightarrow> u32 \<Rightarrow> u32 \<Rightarrow> sink \<Rightarrow> u32 \<times> sink" where
  "write_digits k bias q d =
     (let t = threshold k bias
      in if q < t then (q, d)
         else
           let x = q - t;
               y = 36 - t;
               q = x div y;
               t = t + x mod y
           in write_digits (k + 36) bias q (emit (alphabet ! unat t) d))"
  by pat_completeness auto
termination
  by (relation "measure (\<lambda>(k, bias, q, d). unat q)")
    (auto simp: not_less threshold_bounds intro!: digit_decreases)

declare write_digits.simps [simp del]

text \<open>\<open>for (bias = 0; delta > 35 * 26 / 2; bias += 36) delta /= 35\<close>.\<close>

function scale_delta :: "u32 \<Rightarrow> u32 \<Rightarrow> u32 \<times> u32" where
  "scale_delta bias delta =
     (if delta > 35 * 26 div 2 then scale_delta (bias + 36) (delta div 35) else (bias, delta))"
  by pat_completeness auto
termination
proof (relation "measure (\<lambda>(bias, delta). unat delta)")
  fix bias delta :: u32
  assume "35 * 26 div 2 < delta"
  then have "455 < unat delta" by (simp add: word_less_nat_alt)
  then show "((bias + 36, delta div 35), bias, delta) \<in> measure (\<lambda>(bias, delta). unat delta)"
    by (simp add: unat_div)
qed simp

declare scale_delta.simps [simp del]

record puny =
  delta :: u32
  handled :: u32
  bias :: u32
  first :: bool
  todo :: u32
  dest :: sink

text \<open>The body for a code point equal to \<open>n\<close>: write \<open>delta\<close> and adapt the bias.\<close>

definition write_delta :: "puny \<Rightarrow> puny" where
  "write_delta s =
     (let (q, d) = write_digits 36 (bias s) (delta s) (dest s);
          d = emit (alphabet ! unat q) d;
          dl = delta s div 2;
          dl = (if first s then dl div 350 else dl);
          h = handled s + 1;
          dl = dl + dl div h;
          (bs, dl) = scale_delta 0 dl;
          bs = bs + 36 * dl div (dl + 38)
      in \<lparr>delta = 0, handled = h, bias = bs, first = False, todo = todo s - 1, dest = d\<rparr>)"

text \<open>The inner pass over the label for one value of \<open>n\<close>; \<open>Inl\<close> is the overflow error.\<close>

fun encode_pass :: "u32 \<Rightarrow> u32 list \<Rightarrow> puny \<Rightarrow> (uv_errno \<times> sink) + puny" where
  "encode_pass n [] s = Inr s"
| "encode_pass n (c # cs) s =
     (if c < n \<and> delta s + 1 = 0 then Inl (UV_E2BIG, dest s)
      else let s = (if c < n then s\<lparr>delta := delta s + 1\<rparr> else s)
           in if c \<noteq> n then encode_pass n cs s else encode_pass n cs (write_delta s))"

definition least_from :: "u32 \<Rightarrow> u32 list \<Rightarrow> u32" where
  "least_from n cs = foldl (\<lambda>m c. if c \<ge> n \<and> c < m then c else m) (-1) cs"

partial_function (option) encode_loop ::
  "u32 list \<Rightarrow> u32 \<Rightarrow> puny \<Rightarrow> ((uv_errno + int) \<times> sink) option" where
  "encode_loop cs n s =
     (if todo s = 0 then Some (Inr 0, dest s)
      else
        let m = least_from n cs;
            x = m - n;
            y = handled s + 1
        in if x > NOT (delta s) div y then Some (Inl UV_E2BIG, dest s)
           else
             (case encode_pass m cs (s\<lparr>delta := delta s + x * y\<rparr>) of
                Inl (e, d) \<Rightarrow> Some (Inl e, d)
              | Inr s \<Rightarrow> encode_loop cs (m + 1) (s\<lparr>delta := delta s + 1\<rparr>)))"

definition uv__idna_toascii_label :: "u8 list \<Rightarrow> sink \<Rightarrow> ((uv_errno + int) \<times> sink) option" where
  "uv__idna_toascii_label s d =
     (case utf8_scan s of
        None \<Rightarrow> Some (Inl UV_EINVAL, d)
      | Some cs \<Rightarrow>
          let h = of_nat (length (filter (\<lambda>c. c < 128) cs));
              todo = of_nat (length (filter (\<lambda>c. \<not> c < 128) cs));
              d = (if todo > 0 then emit 45 (emit 45 (emit 110 (emit 120 d))) else d);
              d = write_ascii h 0 cs d
          in if todo = 0 then Some (Inr (sint (h :: u32)), d)
             else
               let d = (if h > 0 then emit 45 d else d)
               in encode_loop cs 128
                    \<lparr>delta = 0, handled = h, bias = 72, first = True, todo = todo, dest = d\<rparr>)"

section \<open>A host name\<close>

definition is_dot :: "u32 \<Rightarrow> bool" where
  "is_dot c \<longleftrightarrow> c = 46 \<or> c = 0x3002 \<or> c = 0xFF0E \<or> c = 0xFF61"

text \<open>
  The loop: \<open>lab\<close> holds the bytes from \<open>s\<close> to \<open>si\<close>, \<open>p\<close> those from \<open>si\<close> on.  The result is the
  value returned on an error, or the last label and the output so far.
\<close>

function toascii_loop ::
  "u8 list \<Rightarrow> u8 list \<Rightarrow> sink \<Rightarrow> ((uv_errno + u8 list) \<times> sink) option" where
  "toascii_loop lab p d =
     (case uv__utf8_decode1 p of
        None \<Rightarrow> Some (Inr lab, d)
      | Some (c, p') \<Rightarrow>
          if c = UINT_MAX then Some (Inl UV_EINVAL, d)
          else if \<not> is_dot c then toascii_loop (lab @ take (length p - length p') p) p' d
          else
            (case uv__idna_toascii_label lab d of
               None \<Rightarrow> None
             | Some (Inl e, d) \<Rightarrow> Some (Inl e, d)
             | Some (Inr rc, d) \<Rightarrow>
                 if rc < 0 then Some (Inl (UV__ERR (nat (- rc))), d)
                 else toascii_loop [] p' (emit 46 d)))"
  by pat_completeness auto
termination
  by (relation "measure (\<lambda>(lab, p, d). length p)") (auto dest: decode1_length)

declare toascii_loop.simps [simp del]

definition uv__idna_toascii :: "u8 list \<Rightarrow> nat \<Rightarrow> ((uv_errno + nat) \<times> u8 list) option" where
  "uv__idna_toascii s room = do {
     (r, d) \<leftarrow> toascii_loop [] s ([], room);
     case r of
       Inl e \<Rightarrow> Some (Inl e, fst d)
     | Inr lab \<Rightarrow> do {
         (r, d) \<leftarrow> (if lab \<noteq> [] then uv__idna_toascii_label lab d else Some (Inr 0, d));
         case r of
           Inl e \<Rightarrow> Some (Inl e, fst d)
         | Inr rc \<Rightarrow>
             if rc < 0 then Some (Inl (UV__ERR (nat (- rc))), fst d)
             else let d = emit 0 d in Some (Inr (length (fst d)), fst d)
       }
   }"

section \<open>Decoding inverts encoding\<close>

definition utf8_encode :: "u32 \<Rightarrow> u8 list" where
  "utf8_encode c =
     (if c < 0x80 then [ucast c]
      else if c < 0x800 then
        [ucast (0xC0 OR (drop_bit 6 c AND 31)), ucast (0x80 OR (c AND 63))]
      else if c < 0x10000 then
        [ucast (0xE0 OR (drop_bit 12 c AND 15)), ucast (0x80 OR (drop_bit 6 c AND 63)),
         ucast (0x80 OR (c AND 63))]
      else
        [ucast (0xF0 OR (drop_bit 18 c AND 7)), ucast (0x80 OR (drop_bit 12 c AND 63)),
         ucast (0x80 OR (drop_bit 6 c AND 63)), ucast (0x80 OR (c AND 63))])"

definition scalar_value :: "u32 \<Rightarrow> bool" where
  "scalar_value c \<longleftrightarrow> c \<le> 0x10FFFF \<and> \<not> (c \<ge> 0xD800 \<and> c \<le> 0xDFFF)"

lemma ucast_byte: "ucast (ucast (w :: u32) :: u8) = w AND 255"
  by (simp add: unsigned_ucast_eq take_bit_eq_mask mask_eq_exp_minus_1)

lemma byte_cont: "ucast (ucast (0x80 OR (x AND 63) :: u32) :: u8) = 0x80 OR (x AND (63 :: u32))"
  by (simp add: ucast_byte bit.conj_disj_distrib2 and.assoc)

lemma cont_low: "(0x80 OR (x AND 63)) AND 63 = x AND (63 :: u32)"
  by (simp add: bit.conj_disj_distrib2 and.assoc)

lemma cont_top: "0xC0 AND (0x80 OR (x AND 63)) = (0x80 :: u32)"
  by (simp add: bit.conj_disj_distrib and.left_commute [of _ x])

lemma or_plus: "a AND b = 0 \<Longrightarrow> a OR b = a + (b :: u32)"
  using word_plus_and_or [of a b] by simp

lemma and_small: "unat ((x :: u32) AND 31) < 32" "unat (x AND 15) < 16" "unat (x AND 7) < 8"
  using and_mask_less' [of 5 x] and_mask_less' [of 4 x] and_mask_less' [of 3 x]
  by (simp_all add: mask_eq_exp_minus_1 word_less_nat_alt)

lemma lead_plus:
  assumes "a AND m = 0" "unat a + unat (x AND m) < 2 ^ 32"
  shows "unat (a OR (x AND m)) = unat a + unat (x AND (m :: u32))"
proof -
  have "a AND (x AND m) = 0" using assms(1) by (simp add: and.left_commute [of _ x])
  then show ?thesis using assms(2) by (simp add: or_plus unat_word_ariths)
qed

lemma lead2:
  "(0xC0 OR (x AND 31)) AND 255 = 0xC0 OR (x AND 31 :: u32)" "(0xC0 OR (x AND 31)) AND 31 = (x AND 31 :: u32)"
  "unat (0xC0 OR (x AND 31) :: u32) = 0xC0 + unat (x AND 31)"
  using and_small(1) [of x] by (simp_all add: bit.conj_disj_distrib2 and.assoc lead_plus)

lemma lead3:
  "(0xE0 OR (x AND 15)) AND 255 = 0xE0 OR (x AND 15 :: u32)" "(0xE0 OR (x AND 15)) AND 15 = (x AND 15 :: u32)"
  "unat (0xE0 OR (x AND 15) :: u32) = 0xE0 + unat (x AND 15)"
  using and_small(2) [of x] by (simp_all add: bit.conj_disj_distrib2 and.assoc lead_plus)

lemma lead4:
  "(0xF0 OR (x AND 7)) AND 255 = 0xF0 OR (x AND 7 :: u32)" "(0xF0 OR (x AND 7)) AND 7 = (x AND 7 :: u32)"
  "unat (0xF0 OR (x AND 7) :: u32) = 0xF0 + unat (x AND 7)"
  using and_small(3) [of x] by (simp_all add: bit.conj_disj_distrib2 and.assoc lead_plus)

lemma mask_bits: "(x :: u32) AND 63 = take_bit 6 x" "x AND 31 = take_bit 5 x" "x AND 15 = take_bit 4 x"
  "x AND 7 = take_bit 3 x"
  by (simp_all add: take_bit_eq_mask mask_eq_exp_minus_1)

lemma bit_small: "(c :: u32) < 2 ^ k \<Longrightarrow> bit c n \<Longrightarrow> n < k"
  using less_mask_eq [of c k] by (metis bit_and_iff bit_mask_iff)

lemma byte_small: "(c :: u32) < 0x100 \<Longrightarrow> c AND 255 = c"
  using less_mask_eq [of c 8] by (simp add: mask_eq_exp_minus_1)

lemma join2:
  assumes "(c :: u32) < 0x800"
  shows "push_bit 6 (drop_bit 6 c AND 31) OR (c AND 63) = c"
proof (rule bit_word_eqI)
  fix n assume "n < LENGTH(32)"
  have "bit c n \<Longrightarrow> n < 11" using bit_small [of c 11 n] assms by simp
  then show "bit (push_bit 6 (drop_bit 6 c AND 31) OR (c AND 63)) n = bit c n"
    using \<open>n < LENGTH(32)\<close>
    by (cases "n < 6"; cases "n < 12"; cases "n < 18") (auto simp: mask_bits bit_simps)
qed

lemma join3:
  assumes "(c :: u32) < 0x10000"
  shows "push_bit 12 (drop_bit 12 c AND 15) OR push_bit 6 (drop_bit 6 c AND 63) OR (c AND 63) = c"
proof (rule bit_word_eqI)
  fix n assume "n < LENGTH(32)"
  have "bit c n \<Longrightarrow> n < 16" using bit_small [of c 16 n] assms by simp
  then show "bit (push_bit 12 (drop_bit 12 c AND 15) OR push_bit 6 (drop_bit 6 c AND 63) OR (c AND 63)) n = bit c n"
    using \<open>n < LENGTH(32)\<close>
    by (cases "n < 6"; cases "n < 12"; cases "n < 18") (auto simp: mask_bits bit_simps)
qed

lemma join4:
  assumes "(c :: u32) < 0x200000"
  shows "push_bit 18 (drop_bit 18 c AND 7) OR push_bit 12 (drop_bit 12 c AND 63) OR
    push_bit 6 (drop_bit 6 c AND 63) OR (c AND 63) = c"
proof (rule bit_word_eqI)
  fix n assume "n < LENGTH(32)"
  have "bit c n \<Longrightarrow> n < 21" using bit_small [of c 21 n] assms by simp
  then show "bit (push_bit 18 (drop_bit 18 c AND 7) OR push_bit 12 (drop_bit 12 c AND 63) OR
    push_bit 6 (drop_bit 6 c AND 63) OR (c AND 63)) n = bit c n"
    using \<open>n < LENGTH(32)\<close>
    by (cases "n < 6"; cases "n < 12"; cases "n < 18") (auto simp: mask_bits bit_simps)
qed

lemma cont_byte: "(0x80 OR (x AND 63)) AND 255 = 0x80 OR (x AND (63 :: u32))"
  by (simp add: bit.conj_disj_distrib2 and.assoc)

lemma cont_short:
  "(0x80 OR (x AND 31)) AND 63 = x AND (31 :: u32)" "0xC0 AND (0x80 OR (x AND 31)) = (0x80 :: u32)"
  "(0x80 OR (x AND 15)) AND 63 = x AND (15 :: u32)" "0xC0 AND (0x80 OR (x AND 15)) = (0x80 :: u32)"
  by (simp_all add: bit.conj_disj_distrib2 bit.conj_disj_distrib and.assoc and.left_commute [of _ x])

lemma xor_top:
  "0xC0 AND b = 0x80 \<Longrightarrow> 0xC0 AND c = 0x80 \<Longrightarrow> 0xC0 AND d = 0x80 \<Longrightarrow> 0xC0 AND (b XOR c XOR d) = (0x80 :: u32)"
  by (simp add: bit.conj_xor_distrib)

lemma combine_scalar:
  assumes "0xC0 AND b = 0x80" "0xC0 AND c = 0x80" "0xC0 AND d = 0x80"
    and "push_bit 18 a OR push_bit 12 (b AND 63) OR push_bit 6 (c AND 63) OR (d AND 63) = v"
    and "\<not> v < least" "scalar_value v"
  shows "utf8_combine least a b c d = v"
  using assms xor_top [OF assms(1-3)] by (auto simp: utf8_combine_def scalar_value_def Let_def)

lemma decode_encode:
  assumes sc: "scalar_value c"
  shows "uv__utf8_decode1 (utf8_encode c @ p) = Some (c, p)"
proof -
  consider "c < 0x80" | "\<not> c < 0x80" "c < 0x800" | "\<not> c < 0x80" "\<not> c < 0x800" "c < 0x10000"
    | "\<not> c < 0x80" "\<not> c < 0x800" "\<not> c < 0x10000" by blast
  then show ?thesis
  proof cases
    case 1
    then have "c < 0x100" by (rule order.strict_trans) simp
    then show ?thesis using 1 by (simp add: utf8_encode_def ucast_byte byte_small)
  next
    case 2
    let ?a = "0xC0 OR (drop_bit 6 c AND 31)"
    have "unat ?a = 0xC0 + unat (drop_bit 6 c AND 31)" "unat (drop_bit 6 c AND 31) < 32"
      by (rule lead2(3), rule and_small(1))
    then have a: "\<not> ?a < 128" "\<not> ?a > 0xDF" "?a > 0xBF" "\<not> ?a > 0xEF" "\<not> ?a > 0xF7"
      by (simp_all add: word_less_nat_alt)
    have "utf8_combine 0x80 0 0x80 (0x80 OR (?a AND 31)) (0x80 OR (c AND 63)) = c"
      using 2 sc join2 [OF 2(2)] by (intro combine_scalar) (simp_all add: lead2(2) cont_short cont_top cont_low)
    then show ?thesis
      using 2 a by (simp add: utf8_encode_def uv__utf8_decode1_slow_def ucast_byte lead2(1) cont_byte byte_at_def)
  next
    case 3
    let ?a = "0xE0 OR (drop_bit 12 c AND 15)"
    have "unat ?a = 0xE0 + unat (drop_bit 12 c AND 15)" "unat (drop_bit 12 c AND 15) < 16"
      by (rule lead3(3), rule and_small(2))
    then have a: "\<not> ?a < 128" "?a > 0xDF" "\<not> ?a > 0xEF" "\<not> ?a > 0xF7"
      by (simp_all add: word_less_nat_alt)
    have "utf8_combine 0x800 0 (0x80 OR (?a AND 15)) (0x80 OR (drop_bit 6 c AND 63)) (0x80 OR (c AND 63)) = c"
      using 3 sc join3 [OF 3(3)] by (intro combine_scalar) (simp_all add: lead3(2) cont_short cont_top cont_low)
    then show ?thesis
      using 3 a by (simp add: utf8_encode_def uv__utf8_decode1_slow_def ucast_byte lead3(1) cont_byte byte_at_def)
  next
    case 4
    let ?a = "0xF0 OR (drop_bit 18 c AND 7)"
    have "unat ?a = 0xF0 + unat (drop_bit 18 c AND 7)" "unat (drop_bit 18 c AND 7) < 8"
      by (rule lead4(3), rule and_small(3))
    then have a: "\<not> ?a < 128" "?a > 0xEF" "\<not> ?a > 0xF7"
      by (simp_all add: word_less_nat_alt)
    have c: "c < 0x200000" using sc unfolding scalar_value_def by (auto intro: order.strict_trans1)
    then have "utf8_combine 0x10000 (?a AND 7) (0x80 OR (drop_bit 12 c AND 63)) (0x80 OR (drop_bit 6 c AND 63))
        (0x80 OR (c AND 63)) = c"
      using 4 sc join4 [OF c] by (intro combine_scalar) (simp_all add: lead4(2) cont_top cont_low)
    then show ?thesis
      using 4 a by (simp add: utf8_encode_def uv__utf8_decode1_slow_def ucast_byte lead4(1) cont_byte byte_at_def numeral_2_eq_2)
  qed
qed

text \<open>A decoded value is a scalar value or \<open>UINT_MAX\<close>.\<close>

lemma combine_range: "utf8_combine least a b c d = UINT_MAX \<or> scalar_value (utf8_combine least a b c d)"
  by (auto simp: utf8_combine_def scalar_value_def Let_def not_less)

lemma combine_error: "\<not> scalar_value (utf8_combine least a b c d) \<Longrightarrow> utf8_combine least a b c d = UINT_MAX"
  using combine_range by blast

lemma decode_range:
  assumes "uv__utf8_decode1 p = Some (c, p')"
  shows "c = UINT_MAX \<or> scalar_value c"
proof (cases p)
  case (Cons x q)
  have "scalar_value c" if "c < 128"
    using that by (auto simp: scalar_value_def word_less_nat_alt word_le_nat_alt)
  then show ?thesis
    using assms Cons
    by (auto simp: Let_def uv__utf8_decode1_slow_def split: if_splits intro: combine_error)
qed (use assms in simp)

section \<open>The room is respected\<close>

text \<open>\<open>sink_le d d'\<close>: \<open>d'\<close> extends the output of \<open>d\<close> within its room.\<close>

definition sink_le :: "sink \<Rightarrow> sink \<Rightarrow> bool" where
  "sink_le d d' \<longleftrightarrow> (\<exists>w. fst d' = fst d @ w \<and> snd d' + length w = snd d)"

lemma sink_le_refl: "sink_le d d"
  by (simp add: sink_le_def)

lemma sink_le_trans: "sink_le a b \<Longrightarrow> sink_le b c \<Longrightarrow> sink_le a c"
  by (auto simp: sink_le_def)

lemma sink_le_emit: "sink_le d (emit c d)"
  by (cases d) (auto simp: sink_le_def)

lemma sink_le_emitI: "sink_le d e \<Longrightarrow> sink_le d (emit c e)"
  using sink_le_trans sink_le_emit by blast

lemma sink_le_write_ascii: "sink_le d (write_ascii h x cs d)"
proof (induction h x cs d rule: write_ascii.induct)
  case (2 h x c cs d)
  show ?case
  proof (cases "c > 127")
    case True
    then show ?thesis using "2.IH"(1) by simp
  next
    case False
    let ?d = "emit (ucast c) d"
    show ?thesis
    proof (cases "x + 1 = h")
      case True
      then show ?thesis using False by (simp add: Let_def sink_le_emit)
    next
      case ne: False
      have "sink_le ?d (write_ascii h (x + 1) cs ?d)" by (rule "2.IH"(2) [OF False refl refl ne])
      then have "sink_le d (write_ascii h (x + 1) cs ?d)" by (rule sink_le_trans [OF sink_le_emit])
      then show ?thesis using False ne by (simp add: Let_def)
    qed
  qed
qed (simp add: sink_le_refl)

lemma sink_le_write_digits: "write_digits k b q d = (q', d') \<Longrightarrow> sink_le d d'"
proof (induction k b q d rule: write_digits.induct)
  case (1 k b q d)
  show ?case
  proof (cases "q < threshold k b")
    case True
    then show ?thesis using "1.prems" by (simp add: write_digits.simps [of k b q d] Let_def sink_le_refl)
  next
    case False
    then show ?thesis using "1.prems" "1.IH" [OF refl False refl refl refl refl] sink_le_trans [OF sink_le_emit]
      by (simp add: write_digits.simps [of k b q d] Let_def)
  qed
qed

lemma write_delta_todo: "todo (write_delta s) = todo s - 1" "sink_le (dest s) (dest (write_delta s))"
proof -
  obtain q d where d: "write_digits 36 (bias s) (delta s) (dest s) = (q, d)" by (rule prod.exhaust)
  then show "todo (write_delta s) = todo s - 1" by (simp add: write_delta_def Let_def split: prod.split)
  show "sink_le (dest s) (dest (write_delta s))"
    using d sink_le_write_digits [OF d] by (simp add: write_delta_def Let_def sink_le_emitI split: prod.split)
qed

lemma encode_pass_step:
  "encode_pass n (c # cs) s =
    (if c < n \<and> delta s + 1 = 0 then Inl (UV_E2BIG, dest s)
     else if c < n then encode_pass n cs (s\<lparr>delta := delta s + 1\<rparr>)
     else if c \<noteq> n then encode_pass n cs s else encode_pass n cs (write_delta s))"
  by (auto simp: Let_def)

lemma encode_pass_Inr: "encode_pass n cs s = Inr s' \<Longrightarrow> sink_le (dest s) (dest s')"
proof (induction cs arbitrary: s)
  case (Cons c cs)
  show ?case
    using Cons.prems Cons.IH [of "s\<lparr>delta := delta s + 1\<rparr>"] Cons.IH [of s]
      sink_le_trans [OF write_delta_todo(2) Cons.IH]
    unfolding encode_pass_step by (simp split: if_splits)
qed (simp add: sink_le_refl)

lemma encode_pass_Inl: "encode_pass n cs s = Inl (e, d) \<Longrightarrow> e = UV_E2BIG \<and> sink_le (dest s) d"
proof (induction cs arbitrary: s)
  case (Cons c cs)
  have "e = UV_E2BIG \<and> sink_le (dest s) d" if "encode_pass n cs (write_delta s) = Inl (e, d)"
    using Cons.IH [OF that] sink_le_trans [OF write_delta_todo(2)] by blast
  then show ?case
    using Cons.prems Cons.IH [of "s\<lparr>delta := delta s + 1\<rparr>"] Cons.IH [of s]
    unfolding encode_pass_step by (auto simp: sink_le_refl split: if_splits)
qed simp

text \<open>A pass that meets \<open>n\<close> handles each of its occurrences.\<close>

lemma encode_pass_todo:
  "encode_pass n cs s = Inr s' \<Longrightarrow> todo s' = todo s - of_nat (length (filter (\<lambda>c. c = n) cs))"
proof (induction cs arbitrary: s)
  case (Cons c cs)
  then show ?case unfolding encode_pass_step
    using Cons.IH [of "s\<lparr>delta := delta s + 1\<rparr>"] Cons.IH [of s] Cons.IH [of "write_delta s"]
    by (simp add: write_delta_todo split: if_splits)
qed simp

lemma least_from_fold:
  "foldl (\<lambda>m c. if c \<ge> n \<and> c < m then c else m) m0 cs = m \<Longrightarrow>
    m \<le> m0 \<and> (m = m0 \<or> m \<in> set cs \<and> n \<le> m) \<and> (\<forall>c \<in> set cs. n \<le> c \<longrightarrow> m \<le> (c :: u32))"
proof (induction cs arbitrary: m0)
  case (Cons c cs)
  from Cons.IH [OF Cons.prems [simplified]] show ?case by (auto split: if_splits)
qed simp

lemma least_from:
  assumes "c \<in> set cs" "n \<le> c" "c \<noteq> -1"
  shows "least_from n cs \<in> set cs" "n \<le> least_from n cs" "\<And>c. c \<in> set cs \<Longrightarrow> n \<le> c \<Longrightarrow> least_from n cs \<le> c"
proof -
  note f = least_from_fold [of n "-1" cs "least_from n cs", folded least_from_def, OF refl]
  have "least_from n cs \<noteq> -1" using f assms word_order.extremum_uniqueI by (metis)
  then show "least_from n cs \<in> set cs" "n \<le> least_from n cs"
    "\<And>c. c \<in> set cs \<Longrightarrow> n \<le> c \<Longrightarrow> least_from n cs \<le> c" using f by auto
qed

section \<open>Every loop returns\<close>

lemma scan_scalar: "utf8_scan s = Some cs \<Longrightarrow> c \<in> set cs \<Longrightarrow> scalar_value c"
proof (induction s arbitrary: cs rule: utf8_scan.induct)
  case (1 s)
  show ?case
  proof (cases "uv__utf8_decode1 s")
    case None
    then show ?thesis using "1.prems" by (simp add: utf8_scan.simps [of s])
  next
    case (Some r)
    then obtain c' s' where r: "uv__utf8_decode1 s = Some (c', s')" by (cases r) simp
    then obtain cs' where cs': "c' \<noteq> UINT_MAX" "utf8_scan s' = Some cs'" "cs = c' # cs'"
      using "1.prems"(1) by (auto simp: utf8_scan.simps [of s] split: if_splits option.splits)
    have "scalar_value c'" using decode_range [OF r] cs'(1) by blast
    then show ?thesis using "1.IH" [OF r refl cs'(1) cs'(2)] "1.prems"(2) cs'(3) by auto
  qed
qed

lemma scan_length: "utf8_scan s = Some cs \<Longrightarrow> length cs \<le> length s"
proof (induction s arbitrary: cs rule: utf8_scan.induct)
  case (1 s)
  show ?case
  proof (cases "uv__utf8_decode1 s")
    case None
    then show ?thesis using "1.prems" by (simp add: utf8_scan.simps [of s])
  next
    case (Some r)
    then obtain c' s' where r: "uv__utf8_decode1 s = Some (c', s')" by (cases r) simp
    then obtain cs' where cs': "c' \<noteq> UINT_MAX" "utf8_scan s' = Some cs'" "cs = c' # cs'"
      using "1.prems"(1) by (auto simp: utf8_scan.simps [of s] split: if_splits option.splits)
    show ?thesis using "1.IH" [OF r refl cs'(1) cs'(2)] decode1_length [OF r] cs'(3) by simp
  qed
qed

lemma scalar_not_max: "scalar_value c \<Longrightarrow> c \<noteq> -1"
  by (auto simp: scalar_value_def word_le_nat_alt unsigned_minus_1_eq_mask mask_eq_exp_minus_1)

lemma count_from:
  fixes n m :: u32
  assumes "\<And>c. c \<in> set cs \<Longrightarrow> n \<le> c \<Longrightarrow> m \<le> c" "n \<le> m" "m \<noteq> -1"
  shows "length (filter (\<lambda>c. \<not> c < n) cs) =
    length (filter (\<lambda>c. c = m) cs) + length (filter (\<lambda>c. \<not> c < m + 1) cs)"
  using assms(1)
proof (induction cs)
  case (Cons c cs)
  have m1: "c < m + 1 \<longleftrightarrow> c \<le> m" for c :: u32
  proof -
    have "1 + m \<noteq> 0" using assms(3) by (simp add: add_eq_0_iff)
    then have "unat (m + 1) = Suc (unat m)" using unatSuc [of m] by (simp add: add.commute)
    then show ?thesis by (simp add: word_less_nat_alt word_le_nat_alt less_Suc_eq_le)
  qed
  have "n \<le> c \<Longrightarrow> m \<le> c" using Cons.prems [of c] by simp
  then have "c < n \<longleftrightarrow> c < m" using assms(2) by (meson le_less_trans less_le_trans not_less)
  then show ?case using Cons assms(2) by (auto simp: m1)
qed simp

lemma encode_loop_returns:
  assumes sc: "\<And>c. c \<in> set cs \<Longrightarrow> scalar_value c" and len: "length cs < 2 ^ 32"
  shows "todo s = of_nat (length (filter (\<lambda>c. \<not> c < n) cs)) \<Longrightarrow>
    \<exists>r d. encode_loop cs n s = Some (r, d) \<and> sink_le (dest s) d \<and> (r = Inr 0 \<or> r = Inl UV_E2BIG)"
proof (induction "length (filter (\<lambda>c. \<not> c < n) cs)" arbitrary: n s rule: less_induct)
  case less
  let ?k = "length (filter (\<lambda>c. \<not> c < n) cs)"
  show ?case
  proof (cases "todo s = 0")
    case True
    then show ?thesis by (simp add: encode_loop.simps [of cs n s] sink_le_refl)
  next
    case False
    then obtain c where c: "c \<in> set cs" "n \<le> c"
      using less.prems by (cases "filter (\<lambda>c. \<not> c < n) cs = []") (auto simp: filter_empty_conv not_less)
    have cm: "c \<noteq> -1" using sc [OF c(1)] scalar_not_max by blast
    let ?m = "least_from n cs"
    note m = least_from [OF c cm]
    have mm: "?m \<noteq> -1" using sc [OF m(1)] scalar_not_max by blast
    let ?s = "s\<lparr>delta := delta s + (?m - n) * (handled s + 1)\<rparr>"
    show ?thesis
    proof (cases "?m - n > NOT (delta s) div (handled s + 1)")
      case True
      then show ?thesis using False by (simp add: encode_loop.simps [of cs n s] Let_def sink_le_refl)
    next
      case nof: False
      have step: "encode_loop cs n s = (case encode_pass ?m cs ?s of Inl (e, d) \<Rightarrow> Some (Inl e, d)
          | Inr s \<Rightarrow> encode_loop cs (?m + 1) (s\<lparr>delta := delta s + 1\<rparr>))"
        using False nof by (simp add: encode_loop.simps [of cs n s] Let_def)
      show ?thesis
      proof (cases "encode_pass ?m cs ?s")
        case (Inl e)
        then show ?thesis using encode_pass_Inl [of ?m cs ?s "fst e" "snd e"] step by (cases e) simp
      next
        case (Inr s1)
        note cnt = count_from [OF m(3) m(2) mm]
        have "filter (\<lambda>c. c = ?m) cs \<noteq> []" using m(1) by (auto simp: filter_empty_conv)
        then have lt: "length (filter (\<lambda>c. \<not> c < ?m + 1) cs) < ?k" using cnt by simp
        have "todo s1 = of_nat (length (filter (\<lambda>c. \<not> c < ?m + 1) cs))"
          using encode_pass_todo [OF Inr] less.prems by (simp add: cnt)
        then obtain r d where "encode_loop cs (?m + 1) (s1\<lparr>delta := delta s1 + 1\<rparr>) = Some (r, d)"
          "sink_le (dest s1) d" "r = Inr 0 \<or> r = Inl UV_E2BIG"
          using less.hyps [OF lt, of "s1\<lparr>delta := delta s1 + 1\<rparr>"] by auto
        then show ?thesis using step Inr sink_le_trans [OF encode_pass_Inr [OF Inr]] by simp
      qed
    qed
  qed
qed

lemma label_returns:
  assumes len: "length s < 2 ^ 31"
  shows "\<exists>r d'. uv__idna_toascii_label s d = Some (r, d') \<and> sink_le d d' \<and>
    (r = Inl UV_EINVAL \<or> r = Inl UV_E2BIG \<or> (\<exists>n \<ge> 0. r = Inr n))"
proof (cases "utf8_scan s")
  case None
  then show ?thesis by (simp add: uv__idna_toascii_label_def sink_le_refl)
next
  case (Some cs)
  let ?h = "length (filter (\<lambda>c. c < 128) cs)" and ?t = "length (filter (\<lambda>c. \<not> c < 128) cs)"
  have l: "length cs < 2 ^ 31" using scan_length [OF Some] len by simp
  have h: "?h < 2 ^ 31" by (rule le_less_trans [OF length_filter_le l])
  define d1 where "d1 = (if of_nat ?t > (0 :: u32) then emit 45 (emit 45 (emit 110 (emit 120 d))) else d)"
  define d2 where "d2 = write_ascii (of_nat ?h) 0 cs d1"
  have d2: "sink_le d d2"
    unfolding d2_def d1_def by (rule sink_le_trans [OF _ sink_le_write_ascii]) (simp add: sink_le_emitI sink_le_refl)
  show ?thesis
  proof (cases "of_nat ?t = (0 :: u32)")
    case True
    have "0 \<le> sint (of_nat ?h :: u32)"
    proof -
      have "uint (of_nat ?h :: u32) = int ?h" using h by (simp add: uint_nat unat_of_nat)
      moreover have "\<not> bit (int ?h) 31" using h by (simp add: bit_iff_odd)
      ultimately show ?thesis by (simp add: sint_uint)
    qed
    then show ?thesis using Some True d2
      by (simp add: uv__idna_toascii_label_def Let_def d1_def d2_def)
  next
    case False
    define d3 where "d3 = (if of_nat ?h > (0 :: u32) then emit 45 d2 else d2)"
    have d3: "sink_le d d3" using d2 by (simp add: d3_def sink_le_emitI)
    let ?s = "\<lparr>delta = 0, handled = of_nat ?h, bias = 72, first = True, todo = of_nat ?t, dest = d3\<rparr>"
    have "uv__idna_toascii_label s d = encode_loop cs 128 ?s"
      using Some False by (simp add: uv__idna_toascii_label_def Let_def d1_def d2_def d3_def)
    moreover obtain r e where "encode_loop cs 128 ?s = Some (r, e)" "sink_le d3 e" "r = Inr 0 \<or> r = Inl UV_E2BIG"
      using encode_loop_returns [of cs ?s 128] scan_scalar [OF Some] l by auto
    ultimately show ?thesis using sink_le_trans [OF d3] by auto
  qed
qed

lemma toascii_loop_returns:
  "length lab + length p < 2 ^ 31 \<Longrightarrow>
    \<exists>r d'. toascii_loop lab p d = Some (r, d') \<and> sink_le d d' \<and>
      (r = Inl UV_EINVAL \<or> r = Inl UV_E2BIG \<or> (\<exists>l. r = Inr l \<and> length l < 2 ^ 31))"
proof (induction lab p d rule: toascii_loop.induct)
  case (1 lab p d)
  show ?case
  proof (cases "uv__utf8_decode1 p")
    case None
    then show ?thesis using "1.prems" by (simp add: toascii_loop.simps [of lab p d] sink_le_refl)
  next
    case (Some cp)
    then obtain c p' where r: "uv__utf8_decode1 p = Some (c, p')" by (cases cp) simp
    note len = decode1_length [OF r]
    consider "c = UINT_MAX" | "c \<noteq> UINT_MAX" "\<not> is_dot c" | "c \<noteq> UINT_MAX" "is_dot c" by blast
    then show ?thesis
    proof cases
      case 1
      then show ?thesis using r by (simp add: toascii_loop.simps [of lab p d] sink_le_refl)
    next
      case 2
      have "length (lab @ take (length p - length p') p) + length p' < 2 ^ 31" using "1.prems" len by simp
      from "1.IH"(1) [OF r refl 2 this] show ?thesis using r 2 by (simp add: toascii_loop.simps [of lab p d])
    next
      case 3
      obtain rc d1 where l: "uv__idna_toascii_label lab d = Some (rc, d1)" "sink_le d d1"
        "rc = Inl UV_EINVAL \<or> rc = Inl UV_E2BIG \<or> (\<exists>n \<ge> 0. rc = Inr n)"
        using label_returns [of lab d] "1.prems" by auto
      show ?thesis
      proof (cases rc)
        case (Inl e)
        then show ?thesis using r 3 l by (auto simp: toascii_loop.simps [of lab p d])
      next
        case (Inr n)
        then have n: "\<not> n < 0" using l(3) by auto
        have "length ([] :: u8 list) + length p' < 2 ^ 31" using "1.prems" len by simp
        from "1.IH"(2) [OF r refl 3(1) _ l(1) refl Inr n this] obtain r' d' where
          i: "toascii_loop [] p' (emit 46 d1) = Some (r', d')" "sink_le (emit 46 d1) d'"
          "r' = Inl UV_EINVAL \<or> r' = Inl UV_E2BIG \<or> (\<exists>l. r' = Inr l \<and> length l < 2 ^ 31)"
          using 3 by auto
        have "sink_le d d'" by (rule sink_le_trans [OF sink_le_emitI [OF l(2)] i(2)])
        then show ?thesis using i r 3 l(1) Inr n by (simp add: toascii_loop.simps [of lab p d])
      qed
    qed
  qed
qed

lemma toascii_returns:
  assumes "length s < 2 ^ 31"
  shows "\<exists>r out. uv__idna_toascii s room = Some (r, out) \<and> length out \<le> room \<and>
    (r = Inl UV_EINVAL \<or> r = Inl UV_E2BIG \<or> r = Inr (length out))"
proof -
  obtain r d where l: "toascii_loop [] s ([], room) = Some (r, d)" "sink_le ([], room) d"
    "r = Inl UV_EINVAL \<or> r = Inl UV_E2BIG \<or> (\<exists>l. r = Inr l \<and> length l < 2 ^ 31)"
    using toascii_loop_returns [of "[]" s "([], room)"] assms by auto
  have room: "length (fst e) \<le> room" if "sink_le ([], room) e" for e
    using that by (auto simp: sink_le_def)
  show ?thesis
  proof (cases r)
    case (Inl e)
    then show ?thesis using l room by (auto simp: uv__idna_toascii_def)
  next
    case (Inr lab)
    show ?thesis
    proof (cases "lab = []")
      case True
      then show ?thesis using l(1) Inr room [OF sink_le_emitI [OF l(2), of 0]]
        by (simp add: uv__idna_toascii_def Let_def)
    next
      case False
      obtain rc d1 where q: "uv__idna_toascii_label lab d = Some (rc, d1)" "sink_le d d1"
        "rc = Inl UV_EINVAL \<or> rc = Inl UV_E2BIG \<or> (\<exists>n \<ge> 0. rc = Inr n)"
        using label_returns [of lab d] l(3) Inr by auto
      have d1: "sink_le ([], room) d1" by (rule sink_le_trans [OF l(2) q(2)])
      show ?thesis
        using q l(1) Inr False room [OF d1] room [OF sink_le_emitI [OF d1, of 0]]
        by (cases rc) (auto simp: uv__idna_toascii_def Let_def)
    qed
  qed
qed

section \<open>ASCII is copied\<close>

definition ascii :: "u8 list \<Rightarrow> bool" where
  "ascii s \<longleftrightarrow> (\<forall>x \<in> set s. x < 128)"

lemma ascii_decode:
  assumes "x < 128"
  shows "uv__utf8_decode1 (x # p) = Some (ucast x, p)" and "ucast x < (128 :: u32)"
    and "ucast x \<noteq> UINT_MAX" and "\<not> ucast x > (127 :: u32)"
proof -
  have u: "unat (ucast x :: u32) = unat x"
  proof -
    have "unat x < 256" using unsigned_less [of x] by simp
    then show ?thesis by (simp add: unsigned_ucast_eq take_bit_nat_eq_self)
  qed
  have l: "unat x < 128" using assms by (simp add: word_less_nat_alt)
  then show c: "ucast x < (128 :: u32)" "\<not> ucast x > (127 :: u32)" using u by (simp_all add: word_less_nat_alt)
  then show "ucast x \<noteq> UINT_MAX" by (auto simp: word_less_nat_alt unsigned_minus_1_eq_mask mask_eq_exp_minus_1)
  show "uv__utf8_decode1 (x # p) = Some (ucast x, p)" using c(1) by (simp add: Let_def)
qed

lemma ascii_scan: "ascii s \<Longrightarrow> utf8_scan s = Some (map ucast s)"
proof (induction s)
  case (Cons x s)
  then have "x < 128" "ascii s" by (simp_all add: ascii_def)
  then show ?case using Cons.IH ascii_decode(1) [of x s] ascii_decode(3) [of x] by (simp add: utf8_scan.simps [of "x # s"] del: uv__utf8_decode1.simps)
qed (simp add: utf8_scan.simps [of "[]"])

lemma ucast_back: "ucast (ucast (x :: u8) :: u32) = x"
  by (simp add: unsigned_ucast_eq take_bit_word_eq_self)

lemma write_ascii_all:
  assumes "ascii s" "k + length s < 2 ^ 32" "length s \<le> room" "s \<noteq> [] \<or> k = 0"
  shows "write_ascii (of_nat (k + length s)) (of_nat k) (map ucast s) (out, room) = (out @ s, room - length s)"
  using assms
proof (induction s arbitrary: k out room)
  case (Cons x s)
  then have x: "x < 128" "ascii s" by (simp_all add: ascii_def)
  have "(of_nat k + 1 :: u32) = of_nat (k + length (x # s)) \<longleftrightarrow> s = []"
  proof -
    have "(of_nat (Suc k) :: u32) = of_nat (k + length (x # s)) \<longleftrightarrow> Suc k = k + length (x # s)"
      using Cons.prems(2) by (simp add: word_of_nat_eq_iff take_bit_nat_eq_self del: of_nat_Suc of_nat_add)
    then show ?thesis by (simp add: add.commute)
  qed
  then show ?case
    using Cons.prems Cons.IH [of "Suc k" "room - 1" "out @ [x]"] x(2) ascii_decode(4) [OF x(1)]
    by (cases "s = []") (simp_all add: Let_def ucast_back add.commute)
qed simp

lemma ascii_label:
  assumes "ascii s" "length s < 2 ^ 31" "length s \<le> room"
  shows "\<exists>n \<ge> 0. uv__idna_toascii_label s (out, room) = Some (Inr n, (out @ s, room - length s))"
proof -
  have f: "filter (\<lambda>c. c < 128) (map ucast s) = (map ucast s :: u32 list)"
    "filter (\<lambda>c. \<not> c < 128) (map ucast s) = ([] :: u32 list)"
    using assms(1) ascii_decode(2) by (auto simp: filter_id_conv filter_empty_conv ascii_def)
  have w: "write_ascii (of_nat (length s)) 0 (map ucast s) (out, room) = (out @ s, room - length s)"
    using write_ascii_all [of s 0 room out] assms by simp
  have eq: "uv__idna_toascii_label s (out, room) =
      Some (Inr (sint (of_nat (length s) :: u32)), (out @ s, room - length s))"
    unfolding uv__idna_toascii_label_def ascii_scan [OF assms(1)] Let_def option.case f by (simp add: w)
  with label_returns [OF assms(2), of "(out, room)"] show ?thesis by auto
qed

lemma ascii_loop:
  "ascii lab \<Longrightarrow> ascii p \<Longrightarrow> length lab + length p < 2 ^ 31 \<Longrightarrow> length lab + length p \<le> room \<Longrightarrow>
    \<exists>out' lab' room'. toascii_loop lab p (out, room) = Some (Inr lab', (out', room')) \<and>
      out' @ lab' = out @ lab @ p \<and> room' + length out' = room + length out \<and> ascii lab' \<and>
      length lab' \<le> length lab + length p"
proof (induction p arbitrary: lab out room)
  case Nil
  then show ?case by (simp add: toascii_loop.simps [of lab "[]"])
next
  case (Cons x p)
  then have x: "x < 128" "ascii p" by (simp_all add: ascii_def)
  note dec = ascii_decode(1) [OF x(1), of p] ascii_decode(2-4) [OF x(1)]
  show ?case
  proof (cases "is_dot (ucast x)")
    case False
    have "ascii (lab @ [x])" using Cons.prems(1) x(1) by (simp add: ascii_def)
    from Cons.IH [OF this x(2), of room out] Cons.prems(3,4) False dec show ?thesis
      by (simp add: toascii_loop.simps [of lab "x # p"] del: uv__utf8_decode1.simps)
  next
    case True
    have "ucast x = (46 :: u32)"
      using True dec(2) by (auto simp: is_dot_def)
    then have "x = 46" using ucast_back [of x] by simp
    obtain n where n: "n \<ge> 0" "uv__idna_toascii_label lab (out, room) = Some (Inr n, (out @ lab, room - length lab))"
      using ascii_label [of lab room out] Cons.prems by auto
    obtain out' lab' room' where i: "toascii_loop [] p (out @ lab @ [46], room - length lab - 1) = Some (Inr lab', (out', room'))"
      "out' @ lab' = (out @ lab @ [46]) @ p" "room' + length out' = room - length lab - 1 + length (out @ lab @ [46])"
      "ascii lab'" "length lab' \<le> length p"
    proof -
      have "ascii []" "length ([] :: u8 list) + length p < 2 ^ 31"
        "length ([] :: u8 list) + length p \<le> room - length lab - 1"
        using Cons.prems by (simp_all add: ascii_def)
      from Cons.IH [OF this(1) x(2) this(2,3), of "out @ lab @ [46]"] show thesis using that by auto
    qed
    have "toascii_loop lab (x # p) (out, room) = toascii_loop [] p (out @ lab @ [46], room - length lab - 1)"
      using True dec n Cons.prems(4) by (simp add: toascii_loop.simps [of lab "x # p"] del: uv__utf8_decode1.simps)
    then show ?thesis using i \<open>x = 46\<close> Cons.prems(4) by auto
  qed
qed

lemma toascii_ascii:
  assumes "ascii s" "length s < 2 ^ 31" "length s < room"
  shows "uv__idna_toascii s room = Some (Inr (length s + 1), s @ [0])"
proof -
  obtain out lab r where l: "toascii_loop [] s ([], room) = Some (Inr lab, (out, r))" "out @ lab = s"
    "r + length out = room" "ascii lab"
    using ascii_loop [of "[]" s room "[]"] assms by (auto simp: ascii_def)
  have len: "length out + length lab = length s" using l(2) by auto
  show ?thesis
  proof (cases "lab = []")
    case True
    then show ?thesis using l assms(3) by (auto simp: uv__idna_toascii_def Let_def)
  next
    case False
    obtain n where n: "n \<ge> 0" "uv__idna_toascii_label lab (out, r) = Some (Inr n, (out @ lab, r - length lab))"
      using ascii_label [of lab r out] l len assms by auto
    have "0 < r - length lab" using l(3) len assms(3) by simp
    then show ?thesis using l n False len by (simp add: uv__idna_toascii_def Let_def)
  qed
qed

section \<open>Malformed input that is accepted\<close>

lemma decode_accepts_malformed:
  "uv__utf8_decode1 [0xE3, 0x41, 0x41] = Some (0x3041, [])"
  "uv__utf8_decode1 [0xE3, 0x81] = Some (0xC1, [])"
  by (simp_all add: uv__utf8_decode1_slow_def utf8_combine_def byte_at_def Let_def)

section \<open>Properties\<close>

text \<open>
  C38: \<open>uv__utf8_decode1\<close> decodes the UTF-8 form of every Unicode scalar value (one to four bytes)
  to that value and moves to the byte after it; and whatever it decodes from any other input is a
  scalar value or the error \<open>UINT_MAX\<close>: no surrogate, nothing above 0x10FFFF.
\<close>

theorem utf8_decode_correct:
  assumes "scalar_value c" and "uv__utf8_decode1 q = Some (d, q')"
  shows "uv__utf8_decode1 (utf8_encode c @ p) = Some (c, p) \<and> (d = UINT_MAX \<or> scalar_value d) \<and>
    length q' < length q"
  using decode_encode [OF assms(1)] decode_range [OF assms(2)] decode1_length [OF assms(2)] by simp

theorem utf8_decode_correct_witness:
  "uv__utf8_decode1 (utf8_encode 0x20AC @ [1]) = Some (0x20AC, [1])"
proof -
  have "scalar_value 0x20AC" "uv__utf8_decode1 [65] = Some (65, [])" by (simp_all add: scalar_value_def)
  from utf8_decode_correct [OF this] show ?thesis by blast
qed

text \<open>
  C39: For every input shorter than \<open>2 ^ 31\<close> bytes \<open>uv__idna_toascii\<close> returns (none of its loops
  runs forever, no assertion fails), never writes more bytes than the room between \<open>d\<close> and \<open>de\<close>,
  and returns \<open>UV_EINVAL\<close>, \<open>UV_E2BIG\<close> or the number of bytes written.
\<close>

theorem toascii_returns_within_room:
  assumes "length s < 2 ^ 31"
  shows "\<exists>r out. uv__idna_toascii s room = Some (r, out) \<and> length out \<le> room \<and>
    (r = Inl UV_EINVAL \<or> r = Inl UV_E2BIG \<or> r = Inr (length out))"
  by (rule toascii_returns [OF assms])

theorem toascii_returns_within_room_witness:
  "\<exists>r out. uv__idna_toascii [0x62, 0xC3, 0xBC] 4 = Some (r, out) \<and> length out \<le> 4"
  using toascii_returns_within_room [of "[0x62, 0xC3, 0xBC]" 4] by auto

text \<open>
  A host name of ASCII bytes, with any number of dots, is copied unchanged and terminated by
  a \<open>NUL\<close> when there is room for it, and the result counts the terminator.
\<close>

theorem toascii_copies_ascii:
  assumes "\<forall>x \<in> set s. x < 128" and "length s < 2 ^ 31" and "length s < room"
  shows "uv__idna_toascii s room = Some (Inr (length s + 1), s @ [0])"
  using toascii_ascii [of s room] assms by (simp add: ascii_def)

theorem toascii_copies_ascii_witness:
  "uv__idna_toascii [97, 46, 98] 4 = Some (Inr 4, [97, 46, 98, 0])"
  using toascii_copies_ascii [of "[97, 46, 98]" 4] by simp

end
