(* ===== verification/Inet.thy ===== *)
theory Inet
  imports Prelude
begin

text \<open>
  src/inet.c: conversion of IPv4 and IPv6 addresses between text and network order bytes.  Text
  is the characters before the terminating \<open>NUL\<close>, an address the list of its bytes.  A write to
  the fixed buffer of \<open>inet_pton6\<close> beyond its end is \<open>None\<close>.

  The lemmas show that parsing inverts printing and printing inverts parsing for IPv4, and that
  parsing IPv6 stays within its buffer and yields 16 bytes.
\<close>

section \<open>Printing numbers\<close>

text \<open>\<open>snprintf\<close> with \<open>%u\<close> and \<open>sprintf\<close> with \<open>%x\<close>.\<close>

definition dec_digits :: string where "dec_digits = ''0123456789''"
definition hex_digits :: string where "hex_digits = ''0123456789abcdef''"
definition hex_digits_u :: string where "hex_digits_u = ''0123456789ABCDEF''"

fun print_base :: "nat \<Rightarrow> string \<Rightarrow> nat \<Rightarrow> string" where
  "print_base b ds n =
     (if n < b \<or> b < 2 then [ds ! n] else print_base b ds (n div b) @ [ds ! (n mod b)])"

declare print_base.simps [simp del]

definition print_u :: "nat \<Rightarrow> string" where "print_u n = print_base 10 dec_digits n"
definition print_x :: "nat \<Rightarrow> string" where "print_x n = print_base 16 hex_digits n"

text \<open>\<open>strchr(digits, ch) - digits\<close>, for \<open>ch\<close> other than \<open>NUL\<close>.\<close>

fun strchr :: "string \<Rightarrow> char \<Rightarrow> nat option" where
  "strchr [] c = None"
| "strchr (d # ds) c = (if d = c then Some 0 else map_option Suc (strchr ds c))"

section \<open>IPv4\<close>

definition inet_ntop4 :: "u8 list \<Rightarrow> nat \<Rightarrow> uv_errno + string" where
  "inet_ntop4 src sz =
     (let tmp = print_u (unat (src ! 0)) @ ''.'' @ print_u (unat (src ! 1)) @ ''.'' @
                print_u (unat (src ! 2)) @ ''.'' @ print_u (unat (src ! 3));
          l = length tmp
      in if l = 0 \<or> l \<ge> sz then Inl UV_ENOSPC else Inr tmp)"

text \<open>
  The loop of \<open>inet_pton4\<close>; \<open>tmp\<close> holds the octets before \<open>*tp\<close>, \<open>cur\<close> is \<open>*tp\<close>.  The result
  is the error, or \<open>octets\<close> and the bytes.
\<close>

fun pton4_loop :: "string \<Rightarrow> bool \<Rightarrow> nat \<Rightarrow> u8 list \<Rightarrow> u8 \<Rightarrow> uv_errno + (nat \<times> u8 list)" where
  "pton4_loop [] saw_digit octets tmp cur = Inr (octets, tmp @ [cur])"
| "pton4_loop (ch # src) saw_digit octets tmp cur =
     (case strchr dec_digits ch of
        Some d \<Rightarrow>
          (let nw = unat cur * 10 + d
           in if saw_digit \<and> cur = 0 then Inl UV_EINVAL
              else if nw > 255 then Inl UV_EINVAL
              else if \<not> saw_digit then
                (if octets + 1 > 4 then Inl UV_EINVAL
                 else pton4_loop src True (octets + 1) tmp (of_nat nw))
              else pton4_loop src True octets tmp (of_nat nw))
      | None \<Rightarrow>
          if ch = CHR ''.'' \<and> saw_digit then
            (if octets = 4 then Inl UV_EINVAL else pton4_loop src False octets (tmp @ [cur]) 0)
          else Inl UV_EINVAL)"

definition inet_pton4 :: "string \<Rightarrow> uv_errno + u8 list" where
  "inet_pton4 src =
     (case pton4_loop src False 0 [] 0 of
        Inl e \<Rightarrow> Inl e
      | Inr (octets, tmp) \<Rightarrow> if octets < 4 then Inl UV_EINVAL else Inr tmp)"

section \<open>IPv6\<close>

text \<open>The words of the address, in the order of the loop.\<close>

definition words_of :: "u8 list \<Rightarrow> u32 list" where
  "words_of src =
     foldl (\<lambda>words i. words[i div 2 := words ! (i div 2) OR push_bit ((1 - i mod 2) * 8) (ucast (src ! i))])
       (replicate 8 0) [0..<16]"

record zrun =
  base :: int
  len :: int

text \<open>The search for the longest run of zero words: \<open>(best, cur)\<close>.\<close>

fun scan_runs :: "int \<Rightarrow> u32 list \<Rightarrow> zrun \<Rightarrow> zrun \<Rightarrow> zrun \<times> zrun" where
  "scan_runs i [] best cur = (best, cur)"
| "scan_runs i (w # ws) best cur =
     (if w = 0 then
        (if base cur = -1 then scan_runs (i + 1) ws best \<lparr>base = i, len = 1\<rparr>
         else scan_runs (i + 1) ws best (cur\<lparr>len := len cur + 1\<rparr>))
      else if base cur \<noteq> -1 then
        scan_runs (i + 1) ws
          (if base best = -1 \<or> len cur > len best then cur else best) (cur\<lparr>base := -1\<rparr>)
      else scan_runs (i + 1) ws best cur)"

definition best_run :: "u32 list \<Rightarrow> zrun" where
  "best_run words =
     (let (best, cur) = scan_runs 0 words \<lparr>base = -1, len = 0\<rparr> \<lparr>base = -1, len = 0\<rparr>;
          best = (if base cur \<noteq> -1 \<and> (base best = -1 \<or> len cur > len best) then cur else best)
      in if base best \<noteq> -1 \<and> len best < 2 then best\<lparr>base := -1\<rparr> else best)"

text \<open>The formatting loop from word \<open>i\<close>, with \<open>k\<close> words to go; \<open>room\<close> is \<open>sizeof tmp - (tp - tmp)\<close>.\<close>

fun format6 :: "u8 list \<Rightarrow> u32 list \<Rightarrow> zrun \<Rightarrow> nat \<Rightarrow> nat \<Rightarrow> string \<Rightarrow> uv_errno + string" where
  "format6 src words best 0 i tmp = Inr tmp"
| "format6 src words best (Suc k) i tmp =
     (if base best \<noteq> -1 \<and> int i \<ge> base best \<and> int i < base best + len best then
        format6 src words best k (i + 1) (if int i = base best then tmp @ '':'' else tmp)
      else
        let tmp = (if i \<noteq> 0 then tmp @ '':'' else tmp)
        in if i = 6 \<and> base best = 0 \<and>
              (len best = 6 \<or> (len best = 7 \<and> words ! 7 \<noteq> 1) \<or> (len best = 5 \<and> words ! 5 = 0xffff))
           then (case inet_ntop4 (drop 12 src) (46 - length tmp) of
                   Inl e \<Rightarrow> Inl e
                 | Inr s \<Rightarrow> Inr (tmp @ s))
           else format6 src words best k (i + 1) (tmp @ print_x (unat (words ! i))))"

definition inet_ntop6 :: "u8 list \<Rightarrow> nat \<Rightarrow> uv_errno + string" where
  "inet_ntop6 src sz =
     (let words = words_of src;
          best = best_run words
      in case format6 src words best 8 0 [] of
           Inl e \<Rightarrow> Inl e
         | Inr tmp \<Rightarrow>
             let tmp = (if base best \<noteq> -1 \<and> base best + len best = 8 then tmp @ '':'' else tmp)
             in if length tmp + 1 > sz then Inl UV_ENOSPC else Inr tmp)"

text \<open>A write of the byte at \<open>tp\<close>.\<close>

definition put_byte :: "nat \<Rightarrow> u8 \<Rightarrow> u8 list \<Rightarrow> u8 list option" where
  "put_byte i v tmp = (if i < length tmp then Some (tmp[i := v]) else None)"

definition put_word :: "nat \<Rightarrow> u32 \<Rightarrow> u8 list \<Rightarrow> u8 list option" where
  "put_word tp val tmp = do {
     tmp \<leftarrow> put_byte tp (ucast (drop_bit 8 val) AND 0xff) tmp;
     put_byte (tp + 1) (ucast val AND 0xff) tmp }"

definition put_bytes :: "nat \<Rightarrow> u8 list \<Rightarrow> u8 list \<Rightarrow> u8 list option" where
  "put_bytes tp bs tmp =
     (if tp + length bs \<le> length tmp then Some (take tp tmp @ bs @ drop (tp + length bs) tmp) else None)"

record p6 =
  seen_xdigits :: nat
  val :: u32
  tp :: nat
  colonp :: "nat option"
  tmp6 :: "u8 list"

definition xdigit :: "char \<Rightarrow> nat option" where
  "xdigit ch =
     (case strchr hex_digits ch of None \<Rightarrow> strchr hex_digits_u ch | Some d \<Rightarrow> Some d)"

fun pton6_loop :: "string \<Rightarrow> string \<Rightarrow> p6 \<Rightarrow> (uv_errno + p6) option" where
  "pton6_loop [] curtok s = Some (Inr s)"
| "pton6_loop (ch # src) curtok s =
     (case xdigit ch of
        Some d \<Rightarrow>
          (if seen_xdigits s + 1 > 4 then Some (Inl UV_EINVAL)
           else pton6_loop src curtok
                  (s\<lparr>val := push_bit 4 (val s) OR of_nat d, seen_xdigits := seen_xdigits s + 1\<rparr>))
      | None \<Rightarrow>
          if ch = CHR '':'' then
            (if seen_xdigits s = 0 then
               (if colonp s \<noteq> None then Some (Inl UV_EINVAL)
                else pton6_loop src src (s\<lparr>colonp := Some (tp s)\<rparr>))
             else if src = [] then Some (Inl UV_EINVAL)
             else if tp s + 2 > 16 then Some (Inl UV_EINVAL)
             else (case put_word (tp s) (val s) (tmp6 s) of
                     None \<Rightarrow> None
                   | Some t \<Rightarrow> pton6_loop src src
                       (s\<lparr>tmp6 := t, tp := tp s + 2, seen_xdigits := 0, val := 0\<rparr>)))
          else if ch = CHR ''.'' \<and> tp s + 4 \<le> 16 then
            (case inet_pton4 curtok of
               Inl e \<Rightarrow> Some (Inl UV_EINVAL)
             | Inr bs \<Rightarrow>
                 (case put_bytes (tp s) bs (tmp6 s) of
                    None \<Rightarrow> None
                  | Some t \<Rightarrow> Some (Inr (s\<lparr>tmp6 := t, tp := tp s + 4, seen_xdigits := 0\<rparr>))))
          else Some (Inl UV_EINVAL))"

text \<open>The shift of the bytes behind \<open>::\<close> to the end: step \<open>i\<close> of \<open>n\<close>.\<close>

fun shift_tail :: "nat \<Rightarrow> nat \<Rightarrow> nat \<Rightarrow> u8 list \<Rightarrow> u8 list option" where
  "shift_tail 0 n c t = Some t"
| "shift_tail (Suc k) n c t =
     (let i = n - k in do {
        uv_assert (c + (n - i) < length t);
        t \<leftarrow> put_byte (16 - i) (t ! (c + (n - i))) t;
        t \<leftarrow> put_byte (c + (n - i)) 0 t;
        shift_tail k n c t })"

text \<open>The code after the loop and the last word.\<close>

definition pton6_finish :: "p6 \<Rightarrow> (uv_errno + u8 list) option" where
  "pton6_finish s =
     (case colonp s of
        Some c \<Rightarrow>
          if tp s = 16 then Some (Inl UV_EINVAL)
          else do {
            t \<leftarrow> shift_tail (tp s - c) (tp s - c) c (tmp6 s);
            Some (Inr t) }
      | None \<Rightarrow> if tp s \<noteq> 16 then Some (Inl UV_EINVAL) else Some (Inr (tmp6 s)))"

definition inet_pton6 :: "string \<Rightarrow> (uv_errno + u8 list) option" where
  "inet_pton6 src =
     (if src \<noteq> [] \<and> hd src = CHR '':'' \<and> \<not> (tl src \<noteq> [] \<and> hd (tl src) = CHR '':'')
      then Some (Inl UV_EINVAL)
      else
        let src = (if src \<noteq> [] \<and> hd src = CHR '':'' then tl src else src)
        in do {
          r \<leftarrow> pton6_loop src src
                \<lparr>seen_xdigits = 0, val = 0, tp = 0, colonp = None, tmp6 = replicate 16 0\<rparr>;
          case r of
            Inl e \<Rightarrow> Some (Inl e)
          | Inr s \<Rightarrow>
              if seen_xdigits s > 0 \<and> tp s + 2 > 16 then Some (Inl UV_EINVAL)
              else do {
                s \<leftarrow> (if seen_xdigits s > 0 then do {
                       t \<leftarrow> put_word (tp s) (val s) (tmp6 s);
                       Some (s\<lparr>tmp6 := t, tp := tp s + 2\<rparr>) }
                     else Some s);
                pton6_finish s
              }
        })"

section \<open>The interface functions\<close>

datatype af = AF_INET | AF_INET6 | AF_OTHER

definition uv_inet_ntop :: "af \<Rightarrow> u8 list \<Rightarrow> nat \<Rightarrow> uv_errno + string" where
  "uv_inet_ntop f src sz =
     (case f of
        AF_INET \<Rightarrow> inet_ntop4 src sz
      | AF_INET6 \<Rightarrow> inet_ntop6 src sz
      | AF_OTHER \<Rightarrow> Inl UV_EAFNOSUPPORT)"

text \<open>\<open>None\<close> for \<open>src\<close> is \<open>NULL\<close>; the zone after \<open>%\<close> is cut off.\<close>

definition uv_inet_pton :: "af \<Rightarrow> string option \<Rightarrow> (uv_errno + u8 list) option" where
  "uv_inet_pton f src =
     (case src of
        None \<Rightarrow> Some (Inl UV_EINVAL)
      | Some s \<Rightarrow>
          (case f of
             AF_INET \<Rightarrow> Some (inet_pton4 s)
           | AF_INET6 \<Rightarrow>
               (case strchr s (CHR ''%'') of
                  None \<Rightarrow> inet_pton6 s
                | Some l \<Rightarrow> if l > 45 then Some (Inl UV_EINVAL) else inet_pton6 (take l s))
           | AF_OTHER \<Rightarrow> Some (Inl UV_EAFNOSUPPORT)))"

section \<open>Digits\<close>

lemma strchr_nth: "strchr ds c = Some d \<Longrightarrow> d < length ds \<and> ds ! d = c"
proof (induction ds arbitrary: d)
  case (Cons x ds)
  then show ?case by (auto split: if_splits)
qed simp

lemma strchr_dec: "d < 10 \<Longrightarrow> strchr dec_digits (dec_digits ! d) = Some d"
  by (auto simp: dec_digits_def less_Suc_eq numeral_eq_Suc)

lemma strchr_dec_less: "strchr dec_digits c = Some d \<Longrightarrow> d < 10 \<and> dec_digits ! d = c"
  using strchr_nth [of dec_digits c d] by (simp add: dec_digits_def)

lemma strchr_dot [simp]: "strchr dec_digits (CHR ''.'') = None"
  by (simp add: dec_digits_def)

lemma print_u_digit: "n < 10 \<Longrightarrow> print_u n = [dec_digits ! n]"
  by (simp add: print_u_def print_base.simps)

lemma print_u_step: "n \<noteq> 0 \<Longrightarrow> d < 10 \<Longrightarrow> print_u (n * 10 + d) = print_u n @ [dec_digits ! d]"
  unfolding print_u_def by (subst print_base.simps) simp

lemma print_u_not_Nil: "print_u n \<noteq> []"
  unfolding print_u_def by (subst print_base.simps) simp

section \<open>IPv4: parsing inverts printing\<close>

lemma pton4_octet:
  assumes "v < 256" "k < 4"
  shows "pton4_loop (print_u v @ src) False k tmp 0 = pton4_loop src True (k + 1) tmp (of_nat v)"
proof -
  have small: "print_u n = [dec_digits ! n]" "unat (of_nat n :: u8) = n" if "n < 10" for n
    using that by (simp_all add: print_u_digit unat_of_nat)
  have step: "pton4_loop (dec_digits ! d # src) True (k + 1) tmp (of_nat n) =
      pton4_loop src True (k + 1) tmp (of_nat (n * 10 + d))" if "0 < n" "n < 26" "d < 10" "n * 10 + d < 256" for n d src
  proof -
    have u: "unat (of_nat n :: u8) = n" using that by (simp add: unat_of_nat)
    then have "(of_nat n :: u8) \<noteq> 0" using that by auto
    then show ?thesis using that u by (simp add: strchr_dec)
  qed
  have first: "pton4_loop (dec_digits ! d # src) False k tmp 0 = pton4_loop src True (k + 1) tmp (of_nat d)"
    if "d < 10" for d src
    using that assms(2) by (simp add: strchr_dec)
  consider "v < 10" | "10 \<le> v" "v < 100" | "100 \<le> v" by linarith
  then show ?thesis
  proof cases
    case 1
    then show ?thesis using first [of v] by (simp add: small)
  next
    case 2
    then have d: "v = (v div 10) * 10 + v mod 10" "v div 10 < 10" "0 < v div 10" "v mod 10 < 10" by auto
    have "print_u v = [dec_digits ! (v div 10), dec_digits ! (v mod 10)]"
      by (subst d(1), subst print_u_step) (use d in \<open>simp_all add: small\<close>)
    then show ?thesis using first [OF d(2)] step [of "v div 10" "v mod 10"] d assms(1) by simp
  next
    case 3
    then have d: "v = (v div 10) * 10 + v mod 10" "v div 10 < 26" "0 < v div 10" "v mod 10 < 10"
      "v div 10 = (v div 100) * 10 + v div 10 mod 10" "v div 100 < 10" "0 < v div 100" "v div 10 mod 10 < 10"
    proof -
      have "v div 100 = v div 10 div 10" by (simp flip: div_mult2_eq)
      then show "v div 10 = (v div 100) * 10 + v div 10 mod 10" by simp
    qed (use 3 assms(1) in auto)
    have p10: "print_u (v div 10) = [dec_digits ! (v div 100), dec_digits ! (v div 10 mod 10)]"
      by (subst d(5), subst print_u_step) (use d in \<open>simp_all add: small\<close>)
    have "print_u v = [dec_digits ! (v div 100), dec_digits ! (v div 10 mod 10), dec_digits ! (v mod 10)]"
      by (subst d(1), subst print_u_step) (use d p10 in simp_all)
    then show ?thesis
      using first [OF d(6)] step [of "v div 100" "v div 10 mod 10"] step [of "v div 10" "v mod 10"] d assms(1) by simp
  qed
qed

lemma pton4_dot: "k \<noteq> 4 \<Longrightarrow> pton4_loop (CHR ''.'' # src) True k tmp cur = pton4_loop src False k (tmp @ [cur]) 0"
  by simp

lemma pton4_ntop4:
  assumes "length src = 4" "inet_ntop4 src sz = Inr s"
  shows "inet_pton4 s = Inr src"
proof -
  obtain a b c d where src: "src = [a, b, c, d]" using assms(1) by (auto simp: length_Suc_conv numeral_eq_Suc)
  have l: "unat x < 256" for x :: u8 using unsigned_less [of x] by simp
  have s: "s = print_u (unat a) @ CHR ''.'' # print_u (unat b) @ CHR ''.'' # print_u (unat c) @ CHR ''.'' # print_u (unat d)"
    using assms(2) src by (auto simp: inet_ntop4_def Let_def split: if_splits)
  have field: "pton4_loop (print_u (unat x) @ CHR ''.'' # r) False k tmp 0 = pton4_loop r False (k + 1) (tmp @ [x]) 0"
    if "k < 3" for x r k tmp
    using pton4_octet [OF l, of k x "CHR ''.'' # r" tmp] pton4_dot [of "k + 1" r tmp x] that by simp
  have last: "pton4_loop (print_u (unat x)) False 3 tmp 0 = Inr (4, tmp @ [x])" for x tmp
    using pton4_octet [OF l, of 3 x "[]" tmp] by simp
  have "pton4_loop s False 0 [] 0 = Inr (4, [a, b, c, d])"
    unfolding s using field [of 0 a] field [of 1 b] field [of 2 c] last [of d]
    by (simp add: numeral_2_eq_2 numeral_3_eq_3)
  then show ?thesis by (simp add: inet_pton4_def src)
qed

section \<open>IPv4: printing inverts parsing\<close>

definition dotted :: "u8 list \<Rightarrow> string" where
  "dotted bs = concat (map (\<lambda>b. print_u (unat b) @ ''.'') bs)"

lemma pton4_loop_text:
  "pton4_loop src saw k tmp cur = Inr (k', bs) \<Longrightarrow> k = length tmp + of_bool saw \<Longrightarrow> k \<le> 4 \<Longrightarrow> (saw \<or> cur = 0 \<and> k < 4) \<Longrightarrow>
    \<exists>tmp' cur' saw'. bs = tmp' @ [cur'] \<and> k' = length tmp' + of_bool saw' \<and> (\<not> saw' \<longrightarrow> k' < 4) \<and> k' \<le> 4 \<and>
      dotted tmp @ (if saw then print_u (unat cur) else []) @ src =
      dotted tmp' @ (if saw' then print_u (unat cur') else [])"
proof (induction src saw k tmp cur rule: pton4_loop.induct)
  case (1 saw k tmp cur)
  then show ?case by (intro exI [of _ tmp] exI [of _ cur] exI [of _ saw]) auto
next
  case (2 ch src saw k tmp cur)
  show ?case
  proof (cases "strchr dec_digits ch")
    case None
    then have dot: "ch = CHR ''.''" "saw" "k \<noteq> 4" and rec: "pton4_loop src False k (tmp @ [cur]) 0 = Inr (k', bs)"
      using "2.prems"(1) by (auto split: if_splits)
    have "k = length (tmp @ [cur]) + of_bool False" "False \<or> (0 :: u8) = 0 \<and> k < 4" using dot "2.prems"(2,3) by auto
    from "2.IH"(1) [OF None _ dot(3) rec this(1) "2.prems"(3) this(2)] dot show ?thesis
      by (simp add: dotted_def)
  next
    case (Some d)
    then have d: "d < 10" "dec_digits ! d = ch" using strchr_dec_less by blast+
    have nw: "\<not> (saw \<and> cur = 0)" "unat cur * 10 + d \<le> 255"
      using "2.prems"(1) Some by (auto simp: Let_def split: if_splits)
    have u: "unat (of_nat (unat cur * 10 + d) :: u8) = unat cur * 10 + d"
      using nw(2) by (simp only: unat_of_nat) simp
    show ?thesis
    proof (cases saw)
      case True
      have rec: "pton4_loop src True k tmp (of_nat (unat cur * 10 + d)) = Inr (k', bs)"
        using "2.prems"(1) Some nw True by (simp add: Let_def)
      have "print_u (unat cur * 10 + d) = print_u (unat cur) @ [ch]"
        using print_u_step [of "unat cur" d] nw(1) True d by (simp add: unat_eq_zero)
      then show ?thesis
        using "2.IH"(3) [OF Some refl nw(1) _ _ rec] nw(2) True "2.prems"(2,3) u by simp
    next
      case False
      have k: "\<not> 4 < k + 1" using "2.prems"(1) Some nw False by (auto simp: Let_def split: if_splits)
      then have rec: "pton4_loop src True (k + 1) tmp (of_nat (unat cur * 10 + d)) = Inr (k', bs)"
        using "2.prems"(1) Some nw False by (simp add: Let_def)
      have "cur = 0" using "2.prems"(4) False by simp
      then have "print_u (unat cur * 10 + d) = [ch]" using d by (simp add: print_u_digit)
      then show ?thesis
        using "2.IH"(2) [OF Some refl nw(1) _ _ k rec] nw(2) False k "2.prems"(2,3) u by simp
    qed
  qed
qed

lemma ntop4_pton4:
  assumes "inet_pton4 s = Inr bs"
  shows "length bs = 4 \<and> (\<exists>sz. inet_ntop4 bs sz = Inr s)"
proof -
  obtain k where k: "pton4_loop s False 0 [] 0 = Inr (k, bs)" "\<not> k < 4"
    using assms by (auto simp: inet_pton4_def split: sum.splits if_splits)
  obtain tmp' cur' saw' where t: "bs = tmp' @ [cur']" "k = length tmp' + of_bool saw'" "\<not> saw' \<longrightarrow> k < 4" "k \<le> 4"
    "s = dotted tmp' @ (if saw' then print_u (unat cur') else [])"
    using pton4_loop_text [OF k(1)] by (auto simp: dotted_def)
  then have "saw'" "length tmp' = 3" using k(2) by (cases saw'; simp)+
  then obtain a b c where "tmp' = [a, b, c]" by (auto simp: length_Suc_conv numeral_eq_Suc)
  then have "inet_ntop4 bs (length s + 1) = Inr s"
    using t(1,5) \<open>saw'\<close> by (auto simp: inet_ntop4_def dotted_def Let_def)
  then show ?thesis using t(1) \<open>length tmp' = 3\<close> by auto
qed

section \<open>IPv6: the buffer is respected\<close>

definition p6_ok :: "p6 \<Rightarrow> bool" where
  "p6_ok s \<longleftrightarrow> length (tmp6 s) = 16 \<and> tp s \<le> 16 \<and> (\<forall>c. colonp s = Some c \<longrightarrow> c \<le> tp s)"

lemma put_byte_ok: "i < length t \<Longrightarrow> \<exists>t'. put_byte i v t = Some t' \<and> length t' = length t"
  by (simp add: put_byte_def)

lemma put_word_ok: "i + 2 \<le> length t \<Longrightarrow> \<exists>t'. put_word i w t = Some t' \<and> length t' = length t"
  by (simp add: put_word_def put_byte_def)

lemma pton6_loop_ok:
  "p6_ok s \<Longrightarrow> \<exists>r. pton6_loop src curtok s = Some r \<and> (\<forall>s'. r = Inr s' \<longrightarrow> p6_ok s')"
proof (induction src curtok s rule: pton6_loop.induct)
  case (2 ch src curtok s)
  show ?case
  proof (cases "xdigit ch")
    case (Some d)
    then show ?thesis using "2.IH"(3) [OF Some] "2.prems" by (auto simp: p6_ok_def)
  next
    case None
    consider "ch = CHR '':''" "seen_xdigits s = 0" | "ch = CHR '':''" "seen_xdigits s \<noteq> 0" | "ch \<noteq> CHR '':''" by blast
    then show ?thesis
    proof cases
      case 1
      show ?thesis
      proof (cases "colonp s")
        case c: None
        have "p6_ok (s\<lparr>colonp := Some (tp s)\<rparr>)" using "2.prems" by (simp add: p6_ok_def)
        then show ?thesis using "2.IH"(1) [OF None 1] c 1 None by simp
      qed (use 1 None in simp)
    next
      case 2
      show ?thesis
      proof (cases "src = [] \<or> tp s + 2 > 16")
        case False
        then obtain t where t: "put_word (tp s) (val s) (tmp6 s) = Some t" "length t = length (tmp6 s)"
          using put_word_ok [of "tp s" "tmp6 s" "val s"] "2.prems" by (auto simp: p6_ok_def)
        have "p6_ok (s\<lparr>tmp6 := t, tp := tp s + 2, seen_xdigits := 0, val := 0\<rparr>)"
          using "2.prems" t(2) False by (auto simp: p6_ok_def)
        then show ?thesis using "2.IH"(2) [OF None 2 _ _ t(1)] False t(1) None 2 by simp
      qed (use 2 None in auto)
    next
      case 3
      show ?thesis
      proof (cases "ch = CHR ''.'' \<and> tp s + 4 \<le> 16")
        case True
        show ?thesis
        proof (cases "inet_pton4 curtok")
          case (Inr bs)
          then have "length bs = 4" using ntop4_pton4 by blast
          then show ?thesis using None 3 True Inr "2.prems" by (auto simp: put_bytes_def p6_ok_def)
        qed (use None 3 True in simp)
      qed (use None 3 in auto)
    qed
  qed
qed simp

lemma shift_tail_ok:
  "k \<le> n \<Longrightarrow> n \<le> 16 \<Longrightarrow> c + n < 16 + 1 \<Longrightarrow> length t = 16 \<Longrightarrow> \<exists>t'. shift_tail k n c t = Some t' \<and> length t' = 16"
proof (induction k arbitrary: t)
  case (Suc k)
  let ?i = "n - k"
  have i: "0 < ?i" "?i \<le> n" "c + (n - ?i) < 16" using Suc.prems by auto
  then show ?case using Suc.IH Suc.prems by (simp add: Let_def put_byte_def)
qed simp

lemma pton6_ok: "\<exists>r. inet_pton6 src = Some r \<and> (\<forall>bs. r = Inr bs \<longrightarrow> length bs = 16)"
proof -
  define s0 where "s0 = \<lparr>seen_xdigits = 0, val = 0, tp = 0, colonp = None, tmp6 = replicate 16 (0 :: u8)\<rparr>"
  define src' where "src' = (if src \<noteq> [] \<and> hd src = CHR '':'' then tl src else src)"
  have "p6_ok s0" by (simp add: p6_ok_def s0_def)
  then obtain r where r: "pton6_loop src' src' s0 = Some r" "\<forall>s'. r = Inr s' \<longrightarrow> p6_ok s'"
    using pton6_loop_ok by blast
  have fin: "\<exists>r. pton6_finish s = Some r \<and> (\<forall>bs. r = Inr bs \<longrightarrow> length bs = 16)" if "p6_ok s" for s
  proof (cases "colonp s")
    case (Some c)
    then show ?thesis using that shift_tail_ok [of "tp s - c" "tp s - c" c "tmp6 s"] by (auto simp: p6_ok_def pton6_finish_def)
  qed (use that in \<open>auto simp: p6_ok_def pton6_finish_def\<close>)
  show ?thesis
  proof (cases "src \<noteq> [] \<and> hd src = CHR '':'' \<and> \<not> (tl src \<noteq> [] \<and> hd (tl src) = CHR '':'')")
    case True
    then show ?thesis by (simp add: inet_pton6_def)
  next
    case False
    have eq: "inet_pton6 src = (case r of Inl e \<Rightarrow> Some (Inl e) | Inr s \<Rightarrow>
        if seen_xdigits s > 0 \<and> tp s + 2 > 16 then Some (Inl UV_EINVAL)
        else do {
          s \<leftarrow> (if seen_xdigits s > 0 then do {
                 t \<leftarrow> put_word (tp s) (val s) (tmp6 s); Some (s\<lparr>tmp6 := t, tp := tp s + 2\<rparr>) }
               else Some s);
          pton6_finish s })"
      unfolding inet_pton6_def if_not_P [OF False] Let_def s0_def [symmetric] src'_def [symmetric] r(1)
      by (simp only: Option.bind_lunit)
    show ?thesis
    proof (cases r)
      case (Inl e)
      then show ?thesis unfolding eq by simp
    next
      case (Inr s)
      then have ok: "p6_ok s" using r(2) by blast
      show ?thesis
      proof (cases "seen_xdigits s > 0")
        case sx: True
        show ?thesis
        proof (cases "tp s + 2 > 16")
          case False
          then obtain t where t: "put_word (tp s) (val s) (tmp6 s) = Some t" "length t = 16"
            using put_word_ok [of "tp s" "tmp6 s" "val s"] ok by (auto simp: p6_ok_def)
          have "p6_ok (s\<lparr>tmp6 := t, tp := tp s + 2\<rparr>)" using ok False t(2) by (auto simp: p6_ok_def)
          from fin [OF this] show ?thesis unfolding eq using Inr sx False t(1) by simp
        qed (use Inr sx in \<open>simp add: eq\<close>)
      next
        case False
        then show ?thesis unfolding eq using Inr fin [OF ok] by simp
      qed
    qed
  qed
qed

section \<open>Properties\<close>

text \<open>
  C40: For IPv4, \<open>inet_pton4\<close> and \<open>inet_ntop4\<close> are inverse to each other: the text printed for an
  address parses to that address, and a text that is accepted is the one printed for its four
  bytes (so it has no leading zeros, no fifth field and no octet above 255).
\<close>

theorem inet4_round_trip:
  assumes "length src = 4" and "uv_inet_ntop AF_INET src sz = Inr t"
    and "uv_inet_pton AF_INET (Some s) = Some (Inr bs)"
  shows "uv_inet_pton AF_INET (Some t) = Some (Inr src) \<and>
    length bs = 4 \<and> (\<exists>n. uv_inet_ntop AF_INET bs n = Inr s)"
proof -
  have "inet_ntop4 src sz = Inr t" "inet_pton4 s = Inr bs"
    using assms(2,3) by (simp_all add: uv_inet_ntop_def uv_inet_pton_def)
  then show ?thesis
    using pton4_ntop4 [OF assms(1)] ntop4_pton4 by (simp add: uv_inet_ntop_def uv_inet_pton_def)
qed

theorem inet4_round_trip_witness:
  "uv_inet_pton AF_INET (Some ''127.0.0.1'') = Some (Inr [127, 0, 0, 1])"
proof -
  have t: "uv_inet_ntop AF_INET [127, 0, 0, 1] 16 = Inr ''127.0.0.1''"
    by (simp add: uv_inet_ntop_def inet_ntop4_def print_u_def print_base.simps dec_digits_def Let_def)
  have s: "uv_inet_pton AF_INET (Some ''1.2.3.4'') = Some (Inr [1, 2, 3, 4])"
    by (simp add: uv_inet_pton_def inet_pton4_def dec_digits_def Let_def)
  show ?thesis using inet4_round_trip [OF _ t s] by simp
qed

text \<open>
  For every string, \<open>inet_pton6\<close> returns without a write or a read outside its 16 byte buffer
  (also in the shift of the bytes behind \<open>::\<close>), with an error or with 16 bytes.
\<close>

theorem inet6_stays_in_buffer:
  "\<exists>r. uv_inet_pton AF_INET6 (Some s) = Some r \<and> (\<forall>bs. r = Inr bs \<longrightarrow> length bs = 16)"
  using pton6_ok by (auto simp: uv_inet_pton_def split: option.split)

theorem inet6_stays_in_buffer_witness:
  "\<exists>r. uv_inet_pton AF_INET6 (Some ''1::ffff:10.0.0.1%eth0'') = Some r \<and> r \<noteq> Inr []"
  using inet6_stays_in_buffer [of "''1::ffff:10.0.0.1%eth0''"] by fastforce

end
