(* ===== verification/Sysfd.thy ===== *)
theory Sysfd
  imports Prelude
begin

text \<open>
  The file-descriptor helpers of src/unix/core.c, in the Linux build.  The system calls are the
  fields of the record \<open>fd_kernel\<close>, a parameter of every operation: a call maps the state of the
  outside world to \<open>Inl\<close> of the \<open>errno\<close> (the call returned -1) or \<open>Inr\<close> of its result, and to
  the next state.  \<open>errno\<close> travels with the result, so saving and restoring it around
  \<open>close\<close> is no step of the model.

  The lemmas show that an operation that fails half-way closes the descriptor it has opened and
  that the \<open>fcntl\<close> helpers change the flag they are meant to change and no other.
\<close>

section \<open>System calls\<close>

type_synonym ('w, 'a) sys = "'w \<Rightarrow> (uv_errno + 'a) \<times> 'w"
type_synonym ('w, 'a) prog = "'w \<Rightarrow> ((uv_errno + 'a) \<times> 'w) option"

text \<open>What \<open>recvmsg\<close> fills in: the byte count, \<open>msg_controllen\<close>, the control messages.\<close>

record msghdr =
  msg_bytes :: string
  msg_controllen :: nat
  msg_control :: "(int \<times> int list) list"

record 'w fd_kernel =
  k_open :: "string \<Rightarrow> u32 \<Rightarrow> ('w, int) sys"
  k_close :: "int \<Rightarrow> ('w, unit) sys"
  k_read :: "int \<Rightarrow> nat \<Rightarrow> ('w, string) sys"
  k_socket :: "int \<Rightarrow> u32 \<Rightarrow> int \<Rightarrow> ('w, int) sys"
  k_accept4 :: "int \<Rightarrow> u32 \<Rightarrow> ('w, int) sys"
  k_fionbio :: "int \<Rightarrow> bool \<Rightarrow> ('w, unit) sys"
  k_getfl :: "int \<Rightarrow> ('w, u32) sys"
  k_setfl :: "int \<Rightarrow> u32 \<Rightarrow> ('w, unit) sys"
  k_setfd :: "int \<Rightarrow> u32 \<Rightarrow> ('w, unit) sys"
  k_recvmsg :: "int \<Rightarrow> nat \<Rightarrow> u32 \<Rightarrow> ('w, msghdr) sys"
  k_dup3 :: "int \<Rightarrow> int \<Rightarrow> u32 \<Rightarrow> ('w, int) sys"
  k_fstat_is_chr :: "int \<Rightarrow> ('w, bool) sys"

abbreviation O_RDONLY :: u32 where "O_RDONLY \<equiv> 0"
abbreviation O_NONBLOCK :: u32 where "O_NONBLOCK \<equiv> 0x800"
abbreviation O_CLOEXEC :: u32 where "O_CLOEXEC \<equiv> 0x80000"
abbreviation SOCK_NONBLOCK :: u32 where "SOCK_NONBLOCK \<equiv> 0x800"
abbreviation SOCK_CLOEXEC :: u32 where "SOCK_CLOEXEC \<equiv> 0x80000"
abbreviation FD_CLOEXEC :: u32 where "FD_CLOEXEC \<equiv> 1"
abbreviation MSG_CMSG_CLOEXEC :: u32 where "MSG_CMSG_CLOEXEC \<equiv> 0x40000000"
abbreviation SCM_RIGHTS :: int where "SCM_RIGHTS \<equiv> 1"

section \<open>Closing\<close>

definition uv__close_nocancel :: "'w fd_kernel \<Rightarrow> int \<Rightarrow> ('w, unit) sys" where
  "uv__close_nocancel K fd w = k_close K fd w"

definition uv__close_nocheckstdio :: "'w fd_kernel \<Rightarrow> int \<Rightarrow> ('w, unit) prog" where
  "uv__close_nocheckstdio K fd w = do {
     uv_assert (fd > -1);
     Some (case uv__close_nocancel K fd w of
         (Inl e, w) \<Rightarrow> (if e = UV_EINTR \<or> e = UV_EINPROGRESS then Inr () else Inl e, w)
       | (Inr _, w) \<Rightarrow> (Inr (), w)) }"

definition uv__close :: "'w fd_kernel \<Rightarrow> int \<Rightarrow> ('w, unit) prog" where
  "uv__close K fd w = do {
     uv_assert (fd > 2);
     uv__close_nocheckstdio K fd w }"

section \<open>Descriptor flags\<close>

definition uv__nonblock_ioctl :: "'w fd_kernel \<Rightarrow> int \<Rightarrow> bool \<Rightarrow> ('w, unit) prog" where
  "uv__nonblock_ioctl K fd on = retry_eintr (k_fionbio K fd on)"

abbreviation uv__nonblock :: "'w fd_kernel \<Rightarrow> int \<Rightarrow> bool \<Rightarrow> ('w, unit) prog" where
  "uv__nonblock \<equiv> uv__nonblock_ioctl"

definition uv__nonblock_fcntl :: "'w fd_kernel \<Rightarrow> int \<Rightarrow> bool \<Rightarrow> ('w, unit) prog" where
  "uv__nonblock_fcntl K fd on w =
     (retry_eintr (k_getfl K fd) w \<bind> (\<lambda>(r, w).
      case r of
        Inl e \<Rightarrow> Some (Inl e, w)
      | Inr r \<Rightarrow>
          if (r AND O_NONBLOCK \<noteq> 0) = on then Some (Inr (), w)
          else let flags = (if on then r OR O_NONBLOCK else r AND NOT O_NONBLOCK)
               in retry_eintr (k_setfl K fd flags) w))"

definition uv__cloexec :: "'w fd_kernel \<Rightarrow> int \<Rightarrow> bool \<Rightarrow> ('w, unit) prog" where
  "uv__cloexec K fd on =
     (let flags = (if on then FD_CLOEXEC else 0)
      in retry_eintr (k_setfd K fd flags))"

section \<open>Opening\<close>

definition uv__open_cloexec :: "'w fd_kernel \<Rightarrow> string \<Rightarrow> u32 \<Rightarrow> ('w, int) sys" where
  "uv__open_cloexec K path flags w = k_open K path (flags OR O_CLOEXEC) w"

definition uv__socket :: "'w fd_kernel \<Rightarrow> int \<Rightarrow> u32 \<Rightarrow> int \<Rightarrow> ('w, int) prog" where
  "uv__socket K dmn type protocol w =
     (case k_socket K dmn (type OR SOCK_NONBLOCK OR SOCK_CLOEXEC) protocol w of
        (Inr sockfd, w) \<Rightarrow> Some (Inr sockfd, w)
      | (Inl e, w) \<Rightarrow>
          if e \<noteq> UV_EINVAL then Some (Inl e, w)
          else case k_socket K dmn type protocol w of
            (Inl e, w) \<Rightarrow> Some (Inl e, w)
          | (Inr sockfd, w) \<Rightarrow> do {
              (err, w) \<leftarrow> uv__nonblock K sockfd True w;
              (err, w) \<leftarrow> (if err = Inr () then uv__cloexec K sockfd True w else Some (err, w));
              (case err of
                 Inl e \<Rightarrow> do {
                   (_, w) \<leftarrow> uv__close K sockfd w;
                   Some (Inl e, w) }
               | Inr _ \<Rightarrow> Some (Inr sockfd, w)) })"

definition uv__accept :: "'w fd_kernel \<Rightarrow> int \<Rightarrow> ('w, int) prog" where
  "uv__accept K sockfd w = do {
     uv_assert (sockfd \<ge> 0);
     retry_eintr (k_accept4 K sockfd (SOCK_NONBLOCK OR SOCK_CLOEXEC)) w }"

definition uv__dup2_cloexec :: "'w fd_kernel \<Rightarrow> int \<Rightarrow> int \<Rightarrow> ('w, int) sys" where
  "uv__dup2_cloexec K oldfd newfd w = k_dup3 K oldfd newfd O_CLOEXEC w"

text \<open>\<open>uv__open_file\<close>: \<open>fdopen\<close> is a parameter, \<open>None\<close> for \<open>NULL\<close>.\<close>

definition uv__open_file ::
  "'w fd_kernel \<Rightarrow> (int \<Rightarrow> 'w \<Rightarrow> 'f option \<times> 'w) \<Rightarrow> string \<Rightarrow> 'w \<Rightarrow> ('f option \<times> 'w) option" where
  "uv__open_file K fdopen path w =
     (case uv__open_cloexec K path O_RDONLY w of
        (Inl _, w) \<Rightarrow> Some (None, w)
      | (Inr fd, w) \<Rightarrow>
          case fdopen fd w of
            (None, w) \<Rightarrow> do { (_, w) \<leftarrow> uv__close K fd w; Some (None, w) }
          | (Some fp, w) \<Rightarrow> Some (Some fp, w))"

section \<open>Messages with descriptors\<close>

fun cloexec_fds :: "'w fd_kernel \<Rightarrow> int list \<Rightarrow> 'w \<Rightarrow> 'w option" where
  "cloexec_fds K [] w = Some w"
| "cloexec_fds K (pfd # rest) w = do {
     (_, w) \<leftarrow> uv__cloexec K pfd True w;
     cloexec_fds K rest w }"

fun cloexec_cmsgs :: "'w fd_kernel \<Rightarrow> (int \<times> int list) list \<Rightarrow> 'w \<Rightarrow> 'w option" where
  "cloexec_cmsgs K [] w = Some w"
| "cloexec_cmsgs K ((cmsg_type, fds) # rest) w = do {
     w \<leftarrow> (if cmsg_type = SCM_RIGHTS then cloexec_fds K fds w else Some w);
     cloexec_cmsgs K rest w }"

text \<open>The end of \<open>uv__recvmsg\<close>, behind the choice of the call.\<close>

definition recvmsg_finish ::
  "'w fd_kernel \<Rightarrow> (uv_errno + msghdr) \<times> 'w \<Rightarrow> ((uv_errno + msghdr) \<times> 'w) option" where
  "recvmsg_finish K rw =
     (case rw of
        (Inl e, w) \<Rightarrow> Some (Inl e, w)
      | (Inr m, w) \<Rightarrow>
          if msg_controllen m = 0 then Some (Inr m, w)
          else do { w \<leftarrow> cloexec_cmsgs K (msg_control m) w; Some (Inr m, w) })"

text \<open>\<open>len\<close> is the length of the buffer of the message; \<open>no_cloexec\<close> is the static \<open>no_msg_cmsg_cloexec\<close>; its new value is returned.\<close>

definition uv__recvmsg ::
  "'w fd_kernel \<Rightarrow> int \<Rightarrow> nat \<Rightarrow> u32 \<Rightarrow> bool \<Rightarrow> 'w \<Rightarrow> ((uv_errno + msghdr) \<times> bool \<times> 'w) option" where
  "uv__recvmsg K fd len flags no_cloexec w =
     (if \<not> no_cloexec then
        (case k_recvmsg K fd len (flags OR MSG_CMSG_CLOEXEC) w of
           (Inr m, w) \<Rightarrow> Some (Inr m, no_cloexec, w)
         | (Inl e, w) \<Rightarrow>
             if e \<noteq> UV_EINVAL then Some (Inl e, no_cloexec, w)
             else case k_recvmsg K fd len flags w of
               (Inl e, w) \<Rightarrow> Some (Inl e, no_cloexec, w)
             | (Inr m, w) \<Rightarrow> do {
                 (r, w) \<leftarrow> recvmsg_finish K (Inr m, w);
                 Some (r, True, w) })
      else do {
        (r, w) \<leftarrow> recvmsg_finish K (k_recvmsg K fd len flags w);
        Some (r, no_cloexec, w) })"

section \<open>Reading a file, standard descriptors\<close>

definition write_at :: "nat \<Rightarrow> 'b list \<Rightarrow> 'b list \<Rightarrow> 'b list" where
  "write_at pos xs buf = take pos buf @ xs @ drop (pos + length xs) buf"

definition uv__slurp ::
  "'w fd_kernel \<Rightarrow> string \<Rightarrow> string \<Rightarrow> nat \<Rightarrow> 'w \<Rightarrow> ((uv_errno + unit) \<times> string \<times> 'w) option" where
  "uv__slurp K filename buf len w = do {
     uv_assert (len > 0);
     (case uv__open_cloexec K filename O_RDONLY w of
        (Inl e, w) \<Rightarrow> Some (Inl e, buf, w)
      | (Inr fd, w) \<Rightarrow> do {
          (n, w) \<leftarrow> retry_eintr (k_read K fd (len - 1)) w;
          (c, w) \<leftarrow> uv__close_nocheckstdio K fd w;
          uv_assert (c = Inr ());
          (case n of
             Inl e \<Rightarrow> Some (Inl e, buf, w)
           | Inr xs \<Rightarrow> Some (Inr (), write_at (length xs) [CHR 0x00] (write_at 0 xs buf), w)) }) }"

partial_function (option) disable_stdio_loop :: "'w fd_kernel \<Rightarrow> int \<Rightarrow> 'w \<Rightarrow> 'w option" where
  "disable_stdio_loop K fd w =
     (uv__cloexec K fd True w \<bind> (\<lambda>(r, w).
      if r \<noteq> Inr () \<and> fd > 15 then Some w else disable_stdio_loop K (fd + 1) w))"

definition uv_disable_stdio_inheritance :: "'w fd_kernel \<Rightarrow> 'w \<Rightarrow> 'w option" where
  "uv_disable_stdio_inheritance K w = disable_stdio_loop K 0 w"


section \<open>What the calls do to the table of descriptors\<close>

text \<open>
  \<open>opens fds f w\<close>: the call \<open>f\<close> fails and opens nothing, or opens one new descriptor above the
  standard three.  \<open>fd_laws\<close> is what the calls document, on the set \<open>fds w\<close> of descriptors that are
  open in \<open>w\<close>; no call is interrupted for ever.
\<close>

definition opened :: "('w \<Rightarrow> int set) \<Rightarrow> 'w \<Rightarrow> uv_errno + int \<Rightarrow> 'w \<Rightarrow> bool" where
  "opened fds w r w' \<longleftrightarrow>
     (case r of Inl _ \<Rightarrow> fds w' = fds w | Inr fd \<Rightarrow> fd > 2 \<and> fd \<notin> fds w \<and> fds w' = insert fd (fds w))"

definition opens :: "('w \<Rightarrow> int set) \<Rightarrow> ('w, int) sys \<Rightarrow> bool" where
  "opens fds f \<longleftrightarrow> (\<forall>w. opened fds w (fst (f w)) (snd (f w)))"

definition keeps :: "('w \<Rightarrow> 'x) \<Rightarrow> ('w, 'a) sys \<Rightarrow> bool" where
  "keeps fds f \<longleftrightarrow> (\<forall>w. fds (snd (f w)) = fds w)"

definition ends :: "('w, 'a) sys \<Rightarrow> bool" where
  "ends f \<longleftrightarrow> (\<forall>w. \<exists>n. intr_at f w n)"

definition fd_laws :: "'w fd_kernel \<Rightarrow> ('w \<Rightarrow> int set) \<Rightarrow> bool" where
  "fd_laws K fds \<longleftrightarrow>
     (\<forall>path flags. opens fds (k_open K path flags)) \<and>
     (\<forall>d t p. opens fds (k_socket K d t p)) \<and>
     (\<forall>fd flags. opens fds (k_accept4 K fd flags) \<and> ends (k_accept4 K fd flags)) \<and>
     (\<forall>fd w. fd \<in> fds w \<longrightarrow> fst (k_close K fd w) = Inr () \<and> fds (snd (k_close K fd w)) = fds w - {fd}) \<and>
     (\<forall>fd n. keeps fds (k_read K fd n) \<and> ends (k_read K fd n)) \<and>
     (\<forall>fd b. keeps fds (k_fionbio K fd b) \<and> ends (k_fionbio K fd b)) \<and>
     (\<forall>fd flags. keeps fds (k_setfd K fd flags) \<and> ends (k_setfd K fd flags)) \<and>
     (\<forall>fd. keeps fds (k_fstat_is_chr K fd))"

lemma retry_keeps:
  assumes "ends f" "keeps fds f"
  shows "\<exists>r w'. retry_eintr f w = Some (r, w') \<and> fds w' = fds w"
proof -
  obtain n where "intr_at f w n" using assms(1) by (auto simp: ends_def)
  from retry_eintr_last [OF this, of "\<lambda>v. fds v = fds w"] assms(2)
  obtain w0 where "retry_eintr f w = Some (f w0)" "fds w0 = fds w" by (auto simp: keeps_def)
  then show ?thesis using assms(2) by (cases "f w0") (auto simp: keeps_def dest: spec [of _ w0])
qed

lemma retry_opens:
  assumes "ends f" "opens fds f"
  shows "\<exists>r w'. retry_eintr f w = Some (r, w') \<and> opened fds w r w'"
proof -
  obtain n where "intr_at f w n" using assms(1) by (auto simp: ends_def)
  moreover have "fds (snd (f v)) = fds v" if "fst (f v) = Inl UV_EINTR" for v
    using assms(2) that by (auto simp: opens_def opened_def dest: spec [of _ v])
  ultimately obtain w0 where "retry_eintr f w = Some (f w0)" "fds w0 = fds w"
    using retry_eintr_last [of f w n "\<lambda>v. fds v = fds w"] by auto
  moreover have "opened fds w0 (fst (f w0)) (snd (f w0))" using assms(2) by (simp add: opens_def)
  ultimately show ?thesis by (cases "f w0"; cases "fst (f w0)") (simp_all add: opened_def)
qed

lemma fd_close:
  assumes "fd_laws K fds" "fd \<in> fds w"
  obtains w' where "k_close K fd w = (Inr (), w')" "fds w' = fds w - {fd}"
proof -
  have "fst (k_close K fd w) = Inr () \<and> fds (snd (k_close K fd w)) = fds w - {fd}"
    using assms by (simp add: fd_laws_def)
  then show thesis using that by (cases "k_close K fd w") auto
qed

lemma uv__close_ok:
  assumes "fd_laws K fds" "fd \<in> fds w" "fd > 2"
  shows "\<exists>w'. uv__close K fd w = Some (Inr (), w') \<and> fds w' = fds w - {fd}"
    and "\<exists>w'. uv__close_nocheckstdio K fd w = Some (Inr (), w') \<and> fds w' = fds w - {fd}"
proof -
  from fd_close [OF assms(1,2)] obtain w' where "k_close K fd w = (Inr (), w')" "fds w' = fds w - {fd}" .
  then show "\<exists>w'. uv__close K fd w = Some (Inr (), w') \<and> fds w' = fds w - {fd}"
    and "\<exists>w'. uv__close_nocheckstdio K fd w = Some (Inr (), w') \<and> fds w' = fds w - {fd}"
    using assms(3) by (auto simp: uv__close_def uv__close_nocheckstdio_def uv__close_nocancel_def)
qed

lemma uv__cloexec_keeps:
  "fd_laws K fds \<Longrightarrow> \<exists>r w'. uv__cloexec K fd on w = Some (r, w') \<and> fds w' = fds w"
  unfolding uv__cloexec_def Let_def by (rule retry_keeps) (auto simp: fd_laws_def)

lemma uv__nonblock_keeps:
  "fd_laws K fds \<Longrightarrow> \<exists>r w'. uv__nonblock K fd on w = Some (r, w') \<and> fds w' = fds w"
  unfolding uv__nonblock_ioctl_def by (rule retry_keeps) (auto simp: fd_laws_def)

lemma opened_Inl: "opened fds w (Inl e) w' \<longleftrightarrow> fds w' = fds w"
  by (simp add: opened_def)

lemma opens_cases:
  assumes "opens fds f"
  obtains e w' where "f w = (Inl e, w')" "fds w' = fds w"
  | fd w' where "f w = (Inr fd, w')" "fd > 2" "fd \<notin> fds w" "fds w' = insert fd (fds w)"
proof (cases "f w")
  case (Pair r w')
  then show thesis using assms that by (cases r) (auto simp: opens_def opened_def dest: spec [of _ w])
qed

lemma socket_opened:
  assumes laws: "fd_laws K fds"
  shows "\<exists>r w'. uv__socket K d t p w = Some (r, w') \<and> opened fds w r w'"
proof -
  have op: "opens fds (k_socket K d t' p)" for t' using laws by (simp add: fd_laws_def)
  let ?t = "t OR SOCK_NONBLOCK OR SOCK_CLOEXEC"
  show ?thesis
  proof (rule opens_cases [OF op [of ?t], of w])
    fix fd w1 assume "k_socket K d ?t p w = (Inr fd, w1)" "fd > 2" "fd \<notin> fds w" "fds w1 = insert fd (fds w)"
    then show ?thesis by (simp add: uv__socket_def opened_def)
  next
    fix e w1 assume 1: "k_socket K d ?t p w = (Inl e, w1)" "fds w1 = fds w"
    show ?thesis
    proof (rule opens_cases [OF op [of t], of w1])
      fix e' w2 assume "k_socket K d t p w1 = (Inl e', w2)" "fds w2 = fds w1"
      then show ?thesis using 1 by (simp add: uv__socket_def opened_def)
    next
      fix fd w2 assume 2: "k_socket K d t p w1 = (Inr fd, w2)" "fd > 2" "fd \<notin> fds w1" "fds w2 = insert fd (fds w1)"
      obtain r3 w3 where 3: "uv__nonblock K fd True w2 = Some (r3, w3)" "fds w3 = fds w2"
        using uv__nonblock_keeps [OF laws] by blast
      obtain r4 w4 where 4: "(if r3 = Inr () then uv__cloexec K fd True w3 else Some (r3, w3)) = Some (r4, w4)"
        "fds w4 = fds w3" using uv__cloexec_keeps [OF laws] by (cases "r3 = Inr ()") (auto, blast)
      have w4: "fds w4 = insert fd (fds w)" using 1 2 3 4 by simp
      obtain w5 where 5: "uv__close K fd w4 = Some (Inr (), w5)" "fds w5 = fds w4 - {fd}"
        using uv__close_ok(1) [OF laws, of fd w4] w4 2(2) by auto
      show ?thesis
      proof (cases "e = UV_EINVAL")
        case True
        then show ?thesis using 1 2 3 4(1) 5 w4
          by (cases r4) (auto simp: uv__socket_def opened_def)
      next
        case False
        then show ?thesis using 1 by (simp add: uv__socket_def opened_def)
      qed
    qed
  qed
qed

lemma accept_opened:
  assumes "fd_laws K fds" "s \<ge> 0"
  shows "\<exists>r w'. uv__accept K s w = Some (r, w') \<and> opened fds w r w'"
  unfolding uv__accept_def using assms retry_opens [of "k_accept4 K s (SOCK_NONBLOCK OR SOCK_CLOEXEC)" fds w]
  by (simp add: fd_laws_def)

lemma slurp_closes:
  assumes laws: "fd_laws K fds" and len: "len > 0"
  shows "\<exists>r buf' w'. uv__slurp K name buf len w = Some (r, buf', w') \<and> fds w' = fds w"
proof -
  have "opens fds (k_open K name (O_RDONLY OR O_CLOEXEC))" using laws by (simp add: fd_laws_def)
  then show ?thesis
  proof (rule opens_cases [of _ _ w])
    fix e w1 assume "k_open K name (O_RDONLY OR O_CLOEXEC) w = (Inl e, w1)" "fds w1 = fds w"
    then show ?thesis using len by (simp add: uv__slurp_def uv__open_cloexec_def)
  next
    fix fd w1
    assume 1: "k_open K name (O_RDONLY OR O_CLOEXEC) w = (Inr fd, w1)" "fd > 2" "fd \<notin> fds w"
      "fds w1 = insert fd (fds w)"
    obtain n w2 where 2: "retry_eintr (k_read K fd (len - 1)) w1 = Some (n, w2)" "fds w2 = fds w1"
      using retry_keeps [of "k_read K fd (len - 1)" fds w1] laws by (auto simp: fd_laws_def)
    obtain w3 where 3: "uv__close_nocheckstdio K fd w2 = Some (Inr (), w3)" "fds w3 = fds w2 - {fd}"
      using uv__close_ok(2) [OF laws, of fd w2] 1 2(2) by auto
    have "fds w3 = fds w" using 1 2(2) 3(2) by simp
    then show ?thesis using 1 2(1) 3(1) len by (cases n) (auto simp: uv__slurp_def uv__open_cloexec_def)
  qed
qed

section \<open>What the fcntl helpers do to the flags\<close>

text \<open>\<open>fl w fd\<close> are the file status flags of \<open>fd\<close> in \<open>w\<close>.\<close>

definition fl_laws :: "'w fd_kernel \<Rightarrow> ('w \<Rightarrow> int \<Rightarrow> u32) \<Rightarrow> bool" where
  "fl_laws K fl \<longleftrightarrow>
     (\<forall>fd. ends (k_getfl K fd) \<and> keeps fl (k_getfl K fd)) \<and>
     (\<forall>fd w r. fst (k_getfl K fd w) = Inr r \<longrightarrow> r = fl w fd) \<and>
     (\<forall>fd flags. ends (k_setfl K fd flags)) \<and>
     (\<forall>fd flags w. fl (snd (k_setfl K fd flags w)) =
        (if fst (k_setfl K fd flags w) = Inr () then (fl w)(fd := flags) else fl w))"

lemma retry_getfl:
  assumes "fl_laws K fl"
  shows "\<exists>r w'. retry_eintr (k_getfl K fd) w = Some (r, w') \<and> fl w' = fl w \<and> (\<forall>f. r = Inr f \<longrightarrow> f = fl w fd)"
proof -
  have "ends (k_getfl K fd)" and k: "keeps fl (k_getfl K fd)" and g: "\<And>w r. fst (k_getfl K fd w) = Inr r \<Longrightarrow> r = fl w fd"
    using assms by (auto simp: fl_laws_def)
  from this(1) obtain n where "intr_at (k_getfl K fd) w n" unfolding ends_def by blast
  from retry_eintr_last [OF this, of "\<lambda>v. fl v = fl w"] k
  obtain w0 where "retry_eintr (k_getfl K fd) w = Some (k_getfl K fd w0)" "fl w0 = fl w"
    by (auto simp: keeps_def)
  moreover have "fl (snd (k_getfl K fd w0)) = fl w0" using k by (simp add: keeps_def)
  ultimately show ?thesis using g [of w0] by (cases "k_getfl K fd w0") auto
qed

lemma retry_setfl:
  assumes "fl_laws K fl"
  shows "\<exists>r w'. retry_eintr (k_setfl K fd flags) w = Some (r, w') \<and>
    fl w' = (if r = Inr () then (fl w)(fd := flags) else fl w)"
proof -
  have "ends (k_setfl K fd flags)" and s: "\<And>w. fl (snd (k_setfl K fd flags w)) =
        (if fst (k_setfl K fd flags w) = Inr () then (fl w)(fd := flags) else fl w)"
    using assms by (auto simp: fl_laws_def)
  from this(1) obtain n where "intr_at (k_setfl K fd flags) w n" unfolding ends_def by blast
  from retry_eintr_last [OF this, of "\<lambda>v. fl v = fl w"] s
  obtain w0 where "retry_eintr (k_setfl K fd flags) w = Some (k_setfl K fd flags w0)" "fl w0 = fl w"
    by auto
  then show ?thesis using s [of w0] by (cases "k_setfl K fd flags w0") auto
qed

lemma set_bit_flags:
  fixes r m :: u32
  assumes "m \<noteq> 0"
  shows "(r OR m) AND m \<noteq> 0" "(r OR m) AND NOT m = r AND NOT m"
    "(r AND NOT m) AND m = 0" "(r AND NOT m) AND NOT m = r AND NOT m"
proof -
  have "(r OR m) AND m = m" by (intro bit_eqI) (auto simp: bit_and_iff bit_or_iff)
  then show "(r OR m) AND m \<noteq> 0" using assms by simp
  show "(r OR m) AND NOT m = r AND NOT m" "(r AND NOT m) AND m = 0" "(r AND NOT m) AND NOT m = r AND NOT m"
    by (intro bit_eqI; auto simp: bit_and_iff bit_or_iff bit_not_iff)+
qed

section \<open>Properties\<close>

text \<open>A file table: the open descriptors and their flags; nothing fails.\<close>

record fd_table =
  open_fds :: "int list"
  status_flags :: "int \<Rightarrow> u32"

definition fresh_fd :: "fd_table \<Rightarrow> int" where
  "fresh_fd w = foldr (\<lambda>a b. if a < b then b else a + 1) (open_fds w) 3"

definition demo_open :: "(fd_table, int) sys" where
  "demo_open w = (Inr (fresh_fd w), w\<lparr>open_fds := fresh_fd w # open_fds w\<rparr>)"

definition demo_kernel :: "fd_table fd_kernel" where
  "demo_kernel = \<lparr>
     k_open = \<lambda>_ _. demo_open,
     k_close = \<lambda>fd w. (Inr (), w\<lparr>open_fds := removeAll fd (open_fds w)\<rparr>),
     k_read = \<lambda>_ n w. (Inr (replicate (if n < 4 then n else 4) CHR ''x''), w),
     k_socket = \<lambda>_ t _ w. if t AND SOCK_CLOEXEC \<noteq> 0 then (Inl UV_EINVAL, w) else demo_open w,
     k_accept4 = \<lambda>_ _. demo_open,
     k_fionbio = \<lambda>_ _ w. (Inr (), w),
     k_getfl = \<lambda>fd w. (Inr (status_flags w fd), w),
     k_setfl = \<lambda>fd flags w. (Inr (), w\<lparr>status_flags := (status_flags w)(fd := flags)\<rparr>),
     k_setfd = \<lambda>_ _ w. (Inl UV_EBADF, w),
     k_recvmsg = \<lambda>_ _ _ w. (Inl UV_EAGAIN, w),
     k_dup3 = \<lambda>_ newfd _ w. (Inr newfd, w),
     k_fstat_is_chr = \<lambda>_ w. (Inr True, w)\<rparr>"

lemma fresh_fd_new: "fresh_fd w > 2" "fresh_fd w \<notin> set (open_fds w)"
proof -
  have "x \<in> set xs \<Longrightarrow> x < foldr (\<lambda>a b. if a < b then b else a + 1) xs (3 :: int)" for x xs
    by (induction xs) auto
  then show "fresh_fd w \<notin> set (open_fds w)" unfolding fresh_fd_def by blast
  have "2 < foldr (\<lambda>a b. if a < b then b else a + 1) xs (3 :: int)" for xs
    by (induction xs) auto
  then show "fresh_fd w > 2" by (simp add: fresh_fd_def)
qed

lemma ends_no_intr: "(\<And>w. fst (f w) \<noteq> Inl UV_EINTR) \<Longrightarrow> ends f"
  unfolding ends_def by (intro allI exI [of _ 0]) simp

lemma demo_fd_laws: "fd_laws demo_kernel (\<lambda>w. set (open_fds w))"
  using fresh_fd_new
  by (auto simp: fd_laws_def demo_kernel_def demo_open_def opens_def opened_def keeps_def intro!: ends_no_intr)

lemma demo_fl_laws: "fl_laws demo_kernel status_flags"
  by (auto simp: fl_laws_def demo_kernel_def keeps_def intro!: ends_no_intr)

text \<open>
  On a kernel whose calls do what they document, \<open>uv__socket\<close> and \<open>uv__accept\<close> return; when
  they fail the set of open descriptors is the one before, also when the socket had been created
  and its flags could not be set; when they succeed it has grown by the result.  \<open>uv__slurp\<close> returns
  and closes what it opens, on every path.
\<close>

theorem descriptors_do_not_leak:
  assumes "fd_laws K fds"
  shows "(\<exists>r w'. uv__socket K d t p w = Some (r, w') \<and> opened fds w r w') \<and>
    (s \<ge> 0 \<longrightarrow> (\<exists>r w'. uv__accept K s w = Some (r, w') \<and> opened fds w r w')) \<and>
    (len > 0 \<longrightarrow> (\<exists>r buf' w'. uv__slurp K name buf len w = Some (r, buf', w') \<and> fds w' = fds w))"
  using socket_opened [OF assms] accept_opened [OF assms] slurp_closes [OF assms] by blast

theorem descriptors_do_not_leak_witness:
  "\<exists>r w'. uv__socket demo_kernel 2 1 0 \<lparr>open_fds = [0, 1, 2], status_flags = \<lambda>_. 0\<rparr> = Some (r, w') \<and>
     opened (\<lambda>w. set (open_fds w)) \<lparr>open_fds = [0, 1, 2], status_flags = \<lambda>_. 0\<rparr> r w'"
  using descriptors_do_not_leak [OF demo_fd_laws] by blast

text \<open>
  On a kernel whose \<open>F_GETFL\<close> and \<open>F_SETFL\<close> do what they document, \<open>uv__nonblock_fcntl\<close>
  returns; when it fails no flag has changed, when it succeeds \<open>O_NONBLOCK\<close> of the descriptor
  is as asked for and every other flag, of this and of every other descriptor, is as before.
\<close>

theorem nonblock_fcntl_sets_one_flag:
  assumes "fl_laws K fl"
  shows "\<exists>r w'. uv__nonblock_fcntl K fd on w = Some (r, w') \<and>
    (case r of
       Inl _ \<Rightarrow> fl w' = fl w
     | Inr _ \<Rightarrow> (fl w' fd AND O_NONBLOCK \<noteq> 0) = on \<and>
         fl w' fd AND NOT O_NONBLOCK = fl w fd AND NOT O_NONBLOCK \<and> (\<forall>k. k \<noteq> fd \<longrightarrow> fl w' k = fl w k))"
proof -
  obtain r w1 where 1: "retry_eintr (k_getfl K fd) w = Some (r, w1)" "fl w1 = fl w"
    "\<And>f. r = Inr f \<Longrightarrow> f = fl w fd" using retry_getfl [OF assms] by blast
  let ?f = "if on then fl w fd OR O_NONBLOCK else fl w fd AND NOT O_NONBLOCK"
  obtain r' w2 where 2: "retry_eintr (k_setfl K fd ?f) w1 = Some (r', w2)"
    "fl w2 = (if r' = Inr () then (fl w1)(fd := ?f) else fl w1)" using retry_setfl [OF assms] by blast
  note b = set_bit_flags [of O_NONBLOCK "fl w fd", simplified]
  show ?thesis
  proof (cases r)
    case (Inl e)
    then show ?thesis using 1 by (simp add: uv__nonblock_fcntl_def)
  next
    case (Inr f)
    show ?thesis
    proof (cases "(fl w fd AND O_NONBLOCK \<noteq> 0) = on")
      case True
      then show ?thesis using 1 Inr by (simp add: uv__nonblock_fcntl_def)
    next
      case False
      then have "uv__nonblock_fcntl K fd on w = Some (r', w2)"
        using 1 2(1) Inr by (auto simp: uv__nonblock_fcntl_def)
      then show ?thesis using 1(2) 2(2) b by (cases r') auto
    qed
  qed
qed

theorem nonblock_fcntl_sets_one_flag_witness:
  "\<exists>r w'. uv__nonblock_fcntl demo_kernel 5 True \<lparr>open_fds = [5], status_flags = \<lambda>_. 2\<rparr> = Some (r, w') \<and>
    (case r of Inl _ \<Rightarrow> status_flags w' = (\<lambda>_. 2) | Inr _ \<Rightarrow> (status_flags w' 5 AND O_NONBLOCK \<noteq> 0) = True)"
  using nonblock_fcntl_sets_one_flag [OF demo_fl_laws, of 5 True "\<lparr>open_fds = [5], status_flags = \<lambda>_. 2\<rparr>"]
  by (fastforce split: sum.splits)

end
