(* ===== verification/RandomBytes.thy ===== *)
theory RandomBytes
  imports Sysfd
begin

text \<open>
  src/random.c and the sources it chooses from on Linux: src/unix/random-getrandom.c,
  src/unix/random-devurandom.c, src/unix/random-sysctl-linux.c, and getentropy of
  src/unix/random-getentropy.c.  \<open>getrandom\<close>, \<open>_sysctl\<close> and \<open>getentropy\<close> are parameters like
  the other system calls.  The lemmas show that a source that reports success has written every
  byte of the buffer with a byte from the kernel, and nothing behind it, for every way the kernel
  may cut its answers short.
\<close>

record 'w random_kernel = "'w fd_kernel" +
  k_getrandom :: "nat \<Rightarrow> ('w, string) sys"
  k_sysctl_uuid :: "('w, string \<times> nat) sys"

section \<open>The loop over short reads\<close>

text \<open>
  The loop of \<open>uv__random_readpath\<close> and of \<open>uv__random_getrandom\<close>: ask for the rest of the buffer
  until it is full.  \<open>fetch n\<close> is the inner \<open>do ... while\<close> with \<open>n\<close> bytes missing.
\<close>

partial_function (option) fill_loop ::
  "(nat \<Rightarrow> ('w, string) prog) \<Rightarrow> nat \<Rightarrow> nat \<Rightarrow> string \<Rightarrow> 'w \<Rightarrow>
    ((uv_errno + unit) \<times> string \<times> 'w) option" where
  "fill_loop fetch buflen pos buf w =
     (if pos = buflen then Some (Inr (), buf, w)
      else fetch (buflen - pos) w \<bind> (\<lambda>(n, w).
        case n of
          Inl e \<Rightarrow> Some (Inl e, buf, w)
        | Inr xs \<Rightarrow>
            if xs = [] then Some (Inl UV_EIO, buf, w)
            else fill_loop fetch buflen (pos + length xs) (write_at pos xs buf) w))"

section \<open>random-getrandom.c\<close>

definition getrandom_fetch :: "('w, 'z) random_kernel_scheme \<Rightarrow> nat \<Rightarrow> ('w, string) prog" where
  "getrandom_fetch K n = retry_eintr (k_getrandom K (if n > 256 then 256 else n))"

definition uv__random_getrandom ::
  "('w, 'z) random_kernel_scheme \<Rightarrow> string \<Rightarrow> nat \<Rightarrow> 'w \<Rightarrow> ((uv_errno + unit) \<times> string \<times> 'w) option" where
  "uv__random_getrandom K buf buflen w = fill_loop (getrandom_fetch K) buflen 0 buf w"

section \<open>random-devurandom.c\<close>

definition uv__random_readpath ::
  "('w, 'z) random_kernel_scheme \<Rightarrow> string \<Rightarrow> string \<Rightarrow> nat \<Rightarrow> 'w \<Rightarrow>
    ((uv_errno + unit) \<times> string \<times> 'w) option" where
  "uv__random_readpath K path buf buflen w =
     (case uv__open_cloexec (fd_kernel.truncate K) path O_RDONLY w of
        (Inl e, w) \<Rightarrow> Some (Inl e, buf, w)
      | (Inr fd, w) \<Rightarrow>
          case k_fstat_is_chr K fd w of
            (Inl e, w) \<Rightarrow> do {
              (_, w) \<leftarrow> uv__close (fd_kernel.truncate K) fd w;
              Some (Inl e, buf, w) }
          | (Inr is_chr, w) \<Rightarrow>
              if \<not> is_chr then do {
                (_, w) \<leftarrow> uv__close (fd_kernel.truncate K) fd w;
                Some (Inl UV_EIO, buf, w) }
              else do {
                (r, buf, w) \<leftarrow> fill_loop (\<lambda>n. retry_eintr (k_read K fd n)) buflen 0 buf w;
                (_, w) \<leftarrow> uv__close (fd_kernel.truncate K) fd w;
                Some (r, buf, w) })"

text \<open>
  The static \<open>once\<close> and \<open>status\<close>: \<open>None\<close> before \<open>uv__random_devurandom_init\<close> has run, then its
  result.
\<close>

definition uv__random_devurandom_init ::
  "('w, 'z) random_kernel_scheme \<Rightarrow> 'w \<Rightarrow> ((uv_errno + unit) \<times> 'w) option" where
  "uv__random_devurandom_init K w = do {
     (status, _, w) \<leftarrow> uv__random_readpath K ''/dev/random'' [CHR 0x00] 1 w;
     Some (status, w) }"

definition uv__random_devurandom ::
  "('w, 'z) random_kernel_scheme \<Rightarrow> string \<Rightarrow> nat \<Rightarrow> (uv_errno + unit) option \<Rightarrow> 'w \<Rightarrow>
    ((uv_errno + unit) \<times> string \<times> (uv_errno + unit) option \<times> 'w) option" where
  "uv__random_devurandom K buf buflen once w = do {
     (status, w) \<leftarrow> (case once of None \<Rightarrow> uv__random_devurandom_init K w | Some st \<Rightarrow> Some (st, w));
     (case status of
        Inl e \<Rightarrow> Some (Inl e, buf, Some status, w)
      | Inr _ \<Rightarrow> do {
          (r, buf, w) \<leftarrow> uv__random_readpath K ''/dev/urandom'' buf buflen w;
          Some (r, buf, Some status, w) }) }"

section \<open>random-sysctl-linux.c\<close>

function uv__random_sysctl_loop ::
  "('w, 'z) random_kernel_scheme \<Rightarrow> nat \<Rightarrow> nat \<Rightarrow> string \<Rightarrow> 'w \<Rightarrow> (uv_errno + unit) \<times> string \<times> 'w" where
  "uv__random_sysctl_loop K pe p buf w =
     (if p < pe then
        (case k_sysctl_uuid K w of
           (Inl e, w) \<Rightarrow> (Inl e, buf, w)
         | (Inr (uuid, n), w) \<Rightarrow>
             if n \<noteq> 16 then (Inl UV_EIO, buf, w)
             else let uuid = uuid[6 := uuid ! 14];
                      uuid = uuid[8 := uuid ! 15];
                      n = pe - p;
                      n = (if n > 14 then 14 else n);
                      buf = write_at p (take n uuid) buf
                  in uv__random_sysctl_loop K pe (p + n) buf w)
      else (Inr (), buf, w))"
  by pat_completeness auto
termination
  by (relation "measure (\<lambda>(K, pe, p, buf, w). pe - p)") auto

declare uv__random_sysctl_loop.simps [simp del]

definition uv__random_sysctl ::
  "('w, 'z) random_kernel_scheme \<Rightarrow> string \<Rightarrow> nat \<Rightarrow> 'w \<Rightarrow> (uv_errno + unit) \<times> string \<times> 'w" where
  "uv__random_sysctl K buf buflen w = uv__random_sysctl_loop K buflen 0 buf w"

section \<open>random-getentropy.c\<close>

text \<open>
  \<open>getentropy\<close> is \<open>None\<close> when \<open>dlsym\<close> does not find it; else it fills \<open>n\<close> bytes or fails.
\<close>

function getentropy_loop ::
  "(nat \<Rightarrow> ('w, string) sys) \<Rightarrow> nat \<Rightarrow> nat \<Rightarrow> string \<Rightarrow> 'w \<Rightarrow> (uv_errno + nat) \<times> string \<times> 'w" where
  "getentropy_loop g buflen pos buf w =
     (if pos + 256 < buflen then
        (case g 256 w of
           (Inl e, w) \<Rightarrow> (Inl e, buf, w)
         | (Inr xs, w) \<Rightarrow> getentropy_loop g buflen (pos + 256) (write_at pos xs buf) w)
      else (Inr pos, buf, w))"
  by pat_completeness auto
termination
  by (relation "measure (\<lambda>(g, buflen, pos, buf, w). buflen - pos)") auto

declare getentropy_loop.simps [simp del]

definition uv__random_getentropy ::
  "(nat \<Rightarrow> ('w, string) sys) option \<Rightarrow> string \<Rightarrow> nat \<Rightarrow> 'w \<Rightarrow> (uv_errno + unit) \<times> string \<times> 'w" where
  "uv__random_getentropy getentropy buf buflen w =
     (case getentropy of
        None \<Rightarrow> (Inl UV_ENOSYS, buf, w)
      | Some g \<Rightarrow>
          case getentropy_loop g buflen 0 buf w of
            (Inl e, buf, w) \<Rightarrow> (Inl e, buf, w)
          | (Inr pos, buf, w) \<Rightarrow>
              case g (buflen - pos) w of
                (Inl e, w) \<Rightarrow> (Inl e, buf, w)
              | (Inr xs, w) \<Rightarrow> (Inr (), write_at pos xs buf, w))"

section \<open>random.c\<close>

definition uv__random ::
  "('w, 'z) random_kernel_scheme \<Rightarrow> string \<Rightarrow> nat \<Rightarrow> (uv_errno + unit) option \<Rightarrow> 'w \<Rightarrow>
    ((uv_errno + unit) \<times> string \<times> (uv_errno + unit) option \<times> 'w) option" where
  "uv__random K buf buflen once w = do {
     (rc, buf, w) \<leftarrow> uv__random_getrandom K buf buflen w;
     (rc, buf, once, w) \<leftarrow>
       (if rc = Inl UV_ENOSYS then uv__random_devurandom K buf buflen once w
        else Some (rc, buf, once, w));
     (if rc \<in> {Inl UV_EACCES, Inl UV_EIO, Inl UV_ELOOP, Inl UV_EMFILE, Inl UV_ENFILE,
               Inl UV_ENOENT, Inl UV_EPERM}
      then let (rc, buf, w) = uv__random_sysctl K buf buflen w in Some (rc, buf, once, w)
      else Some (rc, buf, once, w)) }"

section \<open>Every byte comes from the kernel\<close>

text \<open>
  \<open>gives Q f\<close>: a successful \<open>f\<close> returns bytes that all satisfy \<open>Q\<close>, at most as many as asked for.
  \<open>random_laws\<close> adds that to the laws of the descriptors.  Nothing is assumed of \<open>Q\<close>, so a theorem
  that shows \<open>Q\<close> for every byte of a buffer shows that the bytes are those the kernel gave.
\<close>

definition gives :: "(char \<Rightarrow> bool) \<Rightarrow> nat \<Rightarrow> ('w, string) sys \<Rightarrow> bool" where
  "gives Q n f \<longleftrightarrow> (\<forall>w xs. fst (f w) = Inr xs \<longrightarrow> list_all Q xs \<and> length xs \<le> n)"

definition random_laws :: "('w, 'z) random_kernel_scheme \<Rightarrow> ('w \<Rightarrow> int set) \<Rightarrow> (char \<Rightarrow> bool) \<Rightarrow> bool" where
  "random_laws K fds Q \<longleftrightarrow>
     fd_laws (fd_kernel.truncate K) fds \<and>
     (\<forall>fd n. gives Q n (k_read K fd n)) \<and>
     (\<forall>n. gives Q n (k_getrandom K n) \<and> ends (k_getrandom K n) \<and> keeps fds (k_getrandom K n)) \<and>
     (\<forall>w uuid n. fst (k_sysctl_uuid K w) = Inr (uuid, n) \<longrightarrow> list_all Q uuid \<and> length uuid = 16) \<and>
     keeps fds (k_sysctl_uuid K)"

text \<open>What a source promises: the buffer keeps its length and what lies behind \<open>buflen\<close>.\<close>

definition filled :: "(char \<Rightarrow> bool) \<Rightarrow> string \<Rightarrow> nat \<Rightarrow> uv_errno + unit \<Rightarrow> string \<Rightarrow> bool" where
  "filled Q buf buflen r buf' \<longleftrightarrow>
     length buf' = length buf \<and> drop buflen buf' = drop buflen buf \<and>
     (r = Inr () \<longrightarrow> list_all Q (take buflen buf'))"

definition fetches :: "(char \<Rightarrow> bool) \<Rightarrow> ('w \<Rightarrow> int set) \<Rightarrow> (nat \<Rightarrow> ('w, string) prog) \<Rightarrow> bool" where
  "fetches Q fds fetch \<longleftrightarrow> (\<forall>n w. \<exists>r w'. fetch n w = Some (r, w') \<and> fds w' = fds w \<and>
     (\<forall>xs. r = Inr xs \<longrightarrow> list_all Q xs \<and> length xs \<le> n))"

lemma write_at_facts:
  assumes "pos + length xs \<le> buflen" "buflen \<le> length buf"
  shows "length (write_at pos xs buf) = length buf"
    and "drop buflen (write_at pos xs buf) = drop buflen buf"
    and "take (pos + length xs) (write_at pos xs buf) = take pos buf @ xs"
  using assms by (auto simp: write_at_def)

lemma fill_loop_fills:
  assumes f: "fetches Q fds fetch" and len: "buflen \<le> length buf"
  shows "pos \<le> buflen \<Longrightarrow> list_all Q (take pos buf) \<Longrightarrow>
    \<exists>r buf' w'. fill_loop fetch buflen pos buf w = Some (r, buf', w') \<and> filled Q buf buflen r buf' \<and> fds w' = fds w"
  using len
proof (induction "buflen - pos" arbitrary: pos buf w rule: less_induct)
  case less
  show ?case
  proof (cases "pos = buflen")
    case True
    then show ?thesis using less.prems by (simp add: fill_loop.simps filled_def)
  next
    case False
    obtain r w1 where 1: "fetch (buflen - pos) w = Some (r, w1)" "fds w1 = fds w"
      "\<And>xs. r = Inr xs \<Longrightarrow> list_all Q xs \<and> length xs \<le> buflen - pos"
      using f unfolding fetches_def by metis
    show ?thesis
    proof (cases r)
      case (Inl e)
      then show ?thesis using 1 False by (simp add: fill_loop.simps [of fetch buflen pos] filled_def)
    next
      case (Inr xs)
      show ?thesis
      proof (cases "xs = []")
        case True
        then show ?thesis using 1 False Inr
          by (simp add: fill_loop.simps [of fetch buflen pos] filled_def)
      next
        case xs: False
        let ?buf = "write_at pos xs buf"
        have le: "pos + length xs \<le> buflen" using 1(3) [OF Inr] less.prems(1) by linarith
        note w = write_at_facts [OF le less.prems(3)]
        have "list_all Q (take (pos + length xs) ?buf)" using w(3) less.prems(2) 1(3) [OF Inr] by simp
        moreover have "buflen - (pos + length xs) < buflen - pos"
          using False less.prems(1) xs by (metis diff_less_mono2 le_neq_implies_less length_greater_0_conv less_add_same_cancel1)
        ultimately obtain r' buf' w' where "fill_loop fetch buflen (pos + length xs) ?buf w1 = Some (r', buf', w')"
          "filled Q ?buf buflen r' buf'" "fds w' = fds w1"
          using less.hyps [of "pos + length xs" ?buf w1] le w(1) less.prems(3) by auto
        then show ?thesis using 1 False Inr xs w
          by (simp add: fill_loop.simps [of fetch buflen pos] filled_def)
      qed
    qed
  qed
qed

lemma retry_fetches:
  assumes "\<And>n. ends (f n)" "\<And>n. keeps fds (f n)" "\<And>n. gives Q n (f n)"
  shows "fetches Q fds (\<lambda>n. retry_eintr (f n))"
  unfolding fetches_def
proof (intro allI)
  fix n w
  obtain m where "intr_at (f n) w m" using assms(1) [of n] unfolding ends_def by blast
  from retry_eintr_last [OF this, of "\<lambda>v. fds v = fds w"] assms(2) [of n]
  obtain w0 where 0: "retry_eintr (f n) w = Some (f n w0)" "fds w0 = fds w" by (auto simp: keeps_def)
  have "fds (snd (f n w0)) = fds w0" using assms(2) [of n] by (simp add: keeps_def)
  then show "\<exists>r w'. retry_eintr (f n) w = Some (r, w') \<and> fds w' = fds w \<and>
     (\<forall>xs. r = Inr xs \<longrightarrow> list_all Q xs \<and> length xs \<le> n)"
    using 0 assms(3) [of n] by (cases "f n w0") (auto simp: gives_def dest: spec [of _ w0])
qed

lemma getrandom_fetches:
  assumes "random_laws K fds Q"
  shows "fetches Q fds (getrandom_fetch K)"
  unfolding getrandom_fetch_def
proof (rule retry_fetches)
  fix n :: nat
  let ?n = "if 256 < n then 256 else n"
  have k: "ends (k_getrandom K m)" "keeps fds (k_getrandom K m)" "gives Q m (k_getrandom K m)" for m
    using assms by (simp_all add: random_laws_def)
  show "ends (k_getrandom K ?n)" "keeps fds (k_getrandom K ?n)" by (rule k)+
  have "?n \<le> n" by simp
  then show "gives Q n (k_getrandom K ?n)" using k(3) [of ?n] unfolding gives_def by (meson le_trans)
qed

lemma read_fetches:
  assumes "random_laws K fds Q"
  shows "fetches Q fds (\<lambda>n. retry_eintr (k_read K fd n))"
proof (rule retry_fetches)
  have laws: "fd_laws (fd_kernel.truncate K) fds" using assms by (simp add: random_laws_def)
  show "ends (k_read K fd n)" "keeps fds (k_read K fd n)" for n
    using laws by (simp_all add: fd_laws_def fd_kernel.truncate_def)
  show "gives Q n (k_read K fd n)" for n using assms by (simp add: random_laws_def)
qed

lemma filled_refl: "filled Q buf buflen (Inl e) buf"
  by (simp add: filled_def)

lemma readpath_fills:
  assumes laws: "random_laws K fds Q" and len: "buflen \<le> length buf"
  shows "\<exists>r buf' w'. uv__random_readpath K path buf buflen w = Some (r, buf', w') \<and>
    filled Q buf buflen r buf' \<and> fds w' = fds w"
proof -
  let ?K = "fd_kernel.truncate K"
  have fd: "fd_laws ?K fds" using laws by (simp add: random_laws_def)
  then have chr: "keeps fds (k_fstat_is_chr K fd')" for fd' by (simp add: fd_laws_def fd_kernel.truncate_def)
  have "opens fds (k_open ?K path (O_RDONLY OR O_CLOEXEC))" using fd by (simp add: fd_laws_def)
  then show ?thesis
  proof (rule opens_cases [of _ _ w])
    fix e w1 assume "k_open ?K path (O_RDONLY OR O_CLOEXEC) w = (Inl e, w1)" "fds w1 = fds w"
    then show ?thesis by (simp add: uv__random_readpath_def uv__open_cloexec_def filled_refl)
  next
    fix fd w1
    assume 1: "k_open ?K path (O_RDONLY OR O_CLOEXEC) w = (Inr fd, w1)" "fd > 2" "fd \<notin> fds w"
      "fds w1 = insert fd (fds w)"
    obtain c w2 where 2: "k_fstat_is_chr K fd w1 = (c, w2)" by force
    then have fds2: "fds w2 = insert fd (fds w)" using chr [of fd] 1(4) by (auto simp: keeps_def dest: spec [of _ w1])
    have close: "\<exists>w'. uv__close ?K fd v = Some (Inr (), w') \<and> fds w' = fds w"
      if "fds v = insert fd (fds w)" for v
      using uv__close_ok(1) [OF assms(1) [unfolded random_laws_def, THEN conjunct1], of fd v] 1 that by auto
    consider (err) e where "c = Inl e" | (no) "c = Inr False" | (yes) "c = Inr True" by (cases c) auto
    then show ?thesis
    proof cases
      case err
      then show ?thesis using 1 2 close [OF fds2]
        by (auto simp: uv__random_readpath_def uv__open_cloexec_def filled_refl)
    next
      case no
      then show ?thesis using 1 2 close [OF fds2]
        by (auto simp: uv__random_readpath_def uv__open_cloexec_def filled_refl)
    next
      case yes
      obtain r buf' w3 where 3: "fill_loop (\<lambda>n. retry_eintr (k_read K fd n)) buflen 0 buf w2 = Some (r, buf', w3)"
        "filled Q buf buflen r buf'" "fds w3 = fds w2"
        using fill_loop_fills [OF read_fetches [OF laws] len, of 0 fd w2] by auto
      then show ?thesis using yes 1 2 close [of w3] fds2
        by (auto simp: uv__random_readpath_def uv__open_cloexec_def)
    qed
  qed
qed

lemma getrandom_fills:
  assumes "random_laws K fds Q" "buflen \<le> length buf"
  shows "\<exists>r buf' w'. uv__random_getrandom K buf buflen w = Some (r, buf', w') \<and>
    filled Q buf buflen r buf' \<and> fds w' = fds w"
  unfolding uv__random_getrandom_def
  using fill_loop_fills [OF getrandom_fetches [OF assms(1)] assms(2), of 0 w] by simp

lemma devurandom_fills:
  assumes laws: "random_laws K fds Q" and len: "buflen \<le> length buf"
  shows "\<exists>r buf' once' w'. uv__random_devurandom K buf buflen once w = Some (r, buf', once', w') \<and>
    filled Q buf buflen r buf' \<and> fds w' = fds w"
proof -
  obtain st w1 where 1: "(case once of None \<Rightarrow> uv__random_devurandom_init K w | Some st \<Rightarrow> Some (st, w)) = Some (st, w1)"
    "fds w1 = fds w"
    using readpath_fills [OF laws, of 1 "[CHR 0x00]" "''/dev/random''" w]
    by (cases once) (auto simp: uv__random_devurandom_init_def)
  obtain r buf' w2 where "uv__random_readpath K ''/dev/urandom'' buf buflen w1 = Some (r, buf', w2)"
    "filled Q buf buflen r buf'" "fds w2 = fds w1"
    using readpath_fills [OF laws len] by blast
  then show ?thesis using 1 by (cases st) (auto simp: uv__random_devurandom_def filled_refl)
qed

lemma uuid_bytes:
  assumes "list_all Q uuid" "length uuid = 16"
  shows "list_all Q ((uuid[6 := uuid ! 14])[8 := uuid[6 := uuid ! 14] ! 15])"
proof -
  have "Q (uuid ! 14)" "Q (uuid ! 15)" using assms by (auto simp: list_all_length)
  then show ?thesis using assms by (auto simp: list_all_length nth_list_update)
qed

lemma sysctl_loop_fills:
  assumes laws: "random_laws K fds Q" and len: "pe \<le> length buf"
  shows "p \<le> pe \<Longrightarrow> list_all Q (take p buf) \<Longrightarrow>
    (case uv__random_sysctl_loop K pe p buf w of (r, buf', w') \<Rightarrow> filled Q buf pe r buf' \<and> fds w' = fds w)"
  using len
proof (induction "pe - p" arbitrary: p buf w rule: less_induct)
  case less
  show ?case
  proof (cases "p < pe")
    case False
    then show ?thesis using less.prems by (simp add: uv__random_sysctl_loop.simps filled_def)
  next
    case True
    obtain x w1 where 1: "k_sysctl_uuid K w = (x, w1)" by force
    have fds1: "fds w1 = fds w" using laws 1 by (auto simp: random_laws_def keeps_def dest: spec [of _ w])
    show ?thesis
    proof (cases x)
      case (Inl e)
      then show ?thesis using 1 True fds1 by (simp add: uv__random_sysctl_loop.simps [of K pe p] filled_refl)
    next
      case (Inr un)
      obtain uuid n where un: "un = (uuid, n)" by force
      show ?thesis
      proof (cases "n = 16")
        case False
        then show ?thesis using 1 True fds1 Inr un
          by (simp add: uv__random_sysctl_loop.simps [of K pe p] filled_refl)
      next
        case n: True
        have u: "list_all Q uuid \<and> length uuid = 16"
          using laws 1 Inr un by (auto simp: random_laws_def dest: spec [of _ w])
        define n' where "n' = (if pe - p > 14 then 14 else pe - p)"
        define xs where "xs = take n' ((uuid[6 := uuid ! 14])[8 := uuid[6 := uuid ! 14] ! 15])"
        have step: "uv__random_sysctl_loop K pe p buf w = uv__random_sysctl_loop K pe (p + n') (write_at p xs buf) w1"
          using 1 True Inr un n
          by (simp add: uv__random_sysctl_loop.simps [of K pe p] Let_def n'_def xs_def)
        have xs: "length xs = n'" "list_all Q xs" "p + n' \<le> pe" "0 < n'"
          using u uuid_bytes [of Q uuid] True
          by (auto simp: xs_def n'_def list_all_iff dest: in_set_takeD)
        note w = write_at_facts [of p xs pe buf, unfolded xs(1), OF xs(3) less.prems(3)]
        have "list_all Q (take (p + n') (write_at p xs buf))" using w(3) xs(2) less.prems(2) by simp
        then show ?thesis
          using less.hyps [of "p + n'" "write_at p xs buf" w1] xs True w less.prems(3) fds1
          by (auto simp: step filled_def split: prod.splits)
      qed
    qed
  qed
qed

lemma filled_trans:
  "filled Q buf n r buf' \<Longrightarrow> filled Q buf' n r' buf'' \<Longrightarrow> filled Q buf n r' buf''"
  by (simp add: filled_def)

lemma filled_length: "filled Q buf n r buf' \<Longrightarrow> n \<le> length buf \<Longrightarrow> n \<le> length buf'"
  by (simp add: filled_def)

section \<open>Properties\<close>

text \<open>
  C37: For any kernel whose calls do what they document, and any way it may cut short the answers
  to \<open>read\<close> and \<open>getrandom\<close>, \<open>uv__random\<close> returns, leaves no descriptor open, does not write
  behind the buffer, and if it reports success every byte of the buffer is one that the kernel gave.
\<close>

theorem random_fills_the_buffer:
  assumes "random_laws K fds Q" and "buflen \<le> length buf"
  shows "\<exists>r buf' once' w'. uv__random K buf buflen once w = Some (r, buf', once', w') \<and>
    length buf' = length buf \<and> drop buflen buf' = drop buflen buf \<and>
    (r = Inr () \<longrightarrow> list_all Q (take buflen buf')) \<and> fds w' = fds w"
proof -
  obtain r1 b1 w1 where 1: "uv__random_getrandom K buf buflen w = Some (r1, b1, w1)"
    "filled Q buf buflen r1 b1" "fds w1 = fds w" using getrandom_fills [OF assms] by blast
  have l1: "buflen \<le> length b1" by (rule filled_length [OF 1(2) assms(2)])
  obtain r2 b2 once2 w2 where 2: "(if r1 = Inl UV_ENOSYS then uv__random_devurandom K b1 buflen once w1
      else Some (r1, b1, once, w1)) = Some (r2, b2, once2, w2)"
    "filled Q buf buflen r2 b2" "fds w2 = fds w"
    using devurandom_fills [OF assms(1) l1, of once w1] 1 filled_trans [OF 1(2)]
    by (cases "r1 = Inl UV_ENOSYS") auto
  have l2: "buflen \<le> length b2" by (rule filled_length [OF 2(2) assms(2)])
  obtain r3 b3 w3 where 3: "uv__random_sysctl K b2 buflen w2 = (r3, b3, w3)"
    "filled Q b2 buflen r3 b3" "fds w3 = fds w"
    using sysctl_loop_fills [OF assms(1) l2, of 0 w2] 2(3)
    by (auto simp: uv__random_sysctl_def split: prod.splits)
  have f3: "filled Q buf buflen r3 b3" by (rule filled_trans [OF 2(2) 3(2)])
  show ?thesis
    using 1(1) 2 3(1,3) f3 unfolding uv__random_def filled_def by (auto split: if_splits)
qed

definition demo_random :: "fd_table random_kernel" where
  "demo_random = fd_kernel.extend demo_kernel
     (random_kernel.fields (\<lambda>n w. (if n > 256 then Inl UV_ENOSYS else Inr (replicate (if n < 7 then n else 7) CHR ''x''), w))
        (\<lambda>w. (Inl UV_ENOSYS, w)))"

lemma demo_random_laws: "random_laws demo_random (\<lambda>w. set (open_fds w)) (\<lambda>c. c = CHR ''x'')"
proof -
  have "fd_kernel.truncate demo_random = demo_kernel"
    by (simp add: demo_random_def fd_kernel.truncate_def fd_kernel.extend_def)
  then show ?thesis using demo_fd_laws
    by (auto simp: random_laws_def demo_random_def fd_kernel.extend_def random_kernel.fields_def demo_kernel_def
      gives_def keeps_def list_all_iff intro!: ends_no_intr split: if_splits)
qed

theorem random_fills_the_buffer_witness:
  "\<exists>r buf' once' w'. uv__random demo_random ''............'' 10 None \<lparr>open_fds = [0, 1, 2], status_flags = \<lambda>_. 0\<rparr>
      = Some (r, buf', once', w') \<and> drop 10 buf' = ''..'' \<and>
    (r = Inr () \<longrightarrow> list_all (\<lambda>c. c = CHR ''x'') (take 10 buf'))"
  using random_fills_the_buffer [OF demo_random_laws, of 10 "''............''" None
    "\<lparr>open_fds = [0, 1, 2], status_flags = \<lambda>_. 0\<rparr>"] by auto

end
