(* ===== verification/Rotate.thy ===== *)
theory Rotate
  imports Handle
begin

text \<open>
  The loop that libuv runs over its queues of handles in loop-watcher.c, async.c and uv-common.c:
  all nodes are moved to a queue on the stack; while that is not empty its head is removed, put
  back at the tail of the loop's queue, and a body runs on it.  The body may run a callback, which
  may change every queue.  The lemma \<open>rotate_loop_ok\<close> is the rule for an invariant of such a loop;
  it also gives that the loop ends, if no body lets the queue on the stack grow.
\<close>

definition queue_data :: "qaddr \<Rightarrow> addr option" where
  "queue_data q = (case q of NodeQ k a \<Rightarrow> Some a | _ \<Rightarrow> None)"

lemma queue_data_NodeQ [simp]: "queue_data (NodeQ k a) = Some a"
  by (simp add: queue_data_def)

definition requeue :: "qaddr \<Rightarrow> qaddr \<Rightarrow> 'a uv_loop_scheme \<Rightarrow> 'a uv_loop_scheme" where
  "requeue l q s = s\<lparr>qs := QUEUE_INSERT_TAIL l q (QUEUE_REMOVE q (qs s))\<rparr>"

partial_function (option) rotate_loop ::
  "qaddr \<Rightarrow> qaddr \<Rightarrow> (qaddr \<Rightarrow> 'a uv_loop_scheme \<Rightarrow> 'a uv_loop_scheme option) \<Rightarrow>
    'a uv_loop_scheme \<Rightarrow> 'a uv_loop_scheme option" where
  "rotate_loop n l body s =
     (if QUEUE_EMPTY (qs s) n then Some s
      else let q = QUEUE_HEAD (qs s) n
           in body q (requeue l q s) \<bind> rotate_loop n l body)"

definition move_queue :: "qaddr \<Rightarrow> qaddr \<Rightarrow> 'a uv_loop_scheme \<Rightarrow> 'a uv_loop_scheme" where
  "move_queue h n s = s\<lparr>qs := QUEUE_MOVE h n (qs s)\<rparr>"

definition body_keeps ::
  "qaddr \<Rightarrow> qaddr \<Rightarrow> qaddr set \<Rightarrow> (qaddr \<Rightarrow> 'a uv_loop_scheme \<Rightarrow> 'a uv_loop_scheme option) \<Rightarrow>
    ('a uv_loop_scheme \<Rightarrow> (qaddr \<Rightarrow> qaddr list) \<Rightarrow> bool) \<Rightarrow> bool" where
  "body_keeps n l Q body I \<longleftrightarrow>
     (\<forall>s f x xs. queues (qs s) Q f \<longrightarrow> I s f \<longrightarrow> f n = x # xs \<longrightarrow>
        queues (qs (requeue l x s)) Q (f(n := xs, l := f l @ [x])) \<longrightarrow>
        (\<exists>s' f'. body x (requeue l x s) = Some s' \<and> queues (qs s') Q f' \<and> I s' f' \<and>
           length (f' n) \<le> length xs))"

lemma body_keepsD:
  assumes "body_keeps n l Q body I" "queues (qs s) Q f" "I s f" "f n = x # xs"
    "queues (qs (requeue l x s)) Q (f(n := xs, l := f l @ [x]))"
  obtains s' f' where "body x (requeue l x s) = Some s'" "queues (qs s') Q f'" "I s' f'"
    "length (f' n) \<le> length xs"
  using assms unfolding body_keeps_def by blast

lemma rotate_loop_ok:
  assumes body: "body_keeps n l Q body I" and nl: "n \<in> Q" "l \<in> Q" "l \<noteq> n"
  shows "queues (qs s) Q f \<Longrightarrow> I s f \<Longrightarrow>
    \<exists>s' f'. rotate_loop n l body s = Some s' \<and> queues (qs s') Q f' \<and> I s' f' \<and> f' n = []"
proof (induction "length (f n)" arbitrary: s f rule: less_induct)
  case less
  note q = less.prems(1)
  show ?case
  proof (cases "f n")
    case Nil
    then have "rotate_loop n l body s = Some s"
      using qs.empty_law [OF q nl(1)] by (simp add: rotate_loop.simps)
    then show ?thesis using Nil less.prems by blast
  next
    case (Cons x xs)
    have "queues (qs (requeue l x s)) Q (f(n := xs, l := f l @ [x]))"
      using qs.rotate [OF q nl(1) Cons nl(2,3)] by (simp add: requeue_def)
    then obtain s1 f1 where 1: "body x (requeue l x s) = Some s1" "queues (qs s1) Q f1" "I s1 f1"
      "length (f1 n) \<le> length xs" by (rule body_keepsD [OF body q less.prems(2) Cons])
    have "\<not> QUEUE_EMPTY (qs s) n" "QUEUE_HEAD (qs s) n = x"
      using qs.empty_law [OF q nl(1)] qs.pop(1) [OF q nl(1) Cons] Cons by simp_all
    then have "rotate_loop n l body s = rotate_loop n l body s1"
      using 1(1) by (simp add: rotate_loop.simps [of n l body s] Let_def)
    then show ?thesis using less.hyps [of f1 s1] 1 Cons by (metis le_imp_less_Suc length_Cons)
  qed
qed

lemma rotate_ok:
  assumes body: "body_keeps n l (insert n Q) body I" and l: "l \<in> Q" and q: "queues (qs s) Q f"
    and n: "unused Q f n" and I: "I (move_queue l n s) (f(n := f l, l := []))"
  shows "\<exists>s' f'. rotate_loop n l body (move_queue l n s) = Some s' \<and> queues (qs s') (insert n Q) f' \<and>
    I s' f' \<and> f' n = []"
proof (rule rotate_loop_ok [OF body _ _ _ _ I])
  show "queues (qs (move_queue l n s)) (insert n Q) (f(n := f l, l := []))"
    using qs.move_law [OF q l n] by (simp add: move_queue_def)
  show "l \<noteq> n" using unused_notin [OF n] l by blast
qed (use l in auto)

end
