(* ===== verification/LoopWatcher.thy ===== *)
theory LoopWatcher
  imports Timer Rotate
begin

text \<open>
  src/unix/loop-watcher.c: prepare, check and idle handles.  The macro \<open>UV_LOOP_WATCHER_DEFINE\<close> is
  instantiated for the three; its parameter \<open>name\<close> is here the parameter \<open>k\<close> of each operation,
  the kind of the loop's queue (\<open>PrepareK\<close>, \<open>CheckK\<close> or \<open>IdleK\<close>).  A callback is a number as
  for timers.  The lemmas show that a run calls every handle that is in the queue once, in order,
  and that it returns for all callbacks that put no node into the queue on its stack.
\<close>

record watcher_loop = timer_loop +
  watcher_cb :: "queue_kind \<Rightarrow> addr \<Rightarrow> nat option"

abbreviation RUN_QUEUE :: qaddr where "RUN_QUEUE \<equiv> LocalQ 1"

definition watcher_type :: "queue_kind \<Rightarrow> uv_handle_type" where
  "watcher_type k = (if k = PrepareK then UV_PREPARE else if k = CheckK then UV_CHECK else UV_IDLE)"

definition uv_watcher_init :: "queue_kind \<Rightarrow> addr \<Rightarrow> 'a watcher_loop_scheme \<Rightarrow> 'a watcher_loop_scheme" where
  "uv_watcher_init k h s =
     (let s = uv__handle_init h (watcher_type k) s
      in s\<lparr>watcher_cb := (watcher_cb s)(k := (watcher_cb s k)(h := None))\<rparr>)"

definition uv_watcher_start ::
  "queue_kind \<Rightarrow> addr \<Rightarrow> nat option \<Rightarrow> 'a watcher_loop_scheme \<Rightarrow> (uv_errno + unit) \<times> 'a watcher_loop_scheme" where
  "uv_watcher_start k h cb s =
     (if uv__is_active s h then (Inr (), s)
      else if cb = None then (Inl UV_EINVAL, s)
      else let s = s\<lparr>qs := QUEUE_INSERT_HEAD (LoopQ k) (NodeQ k h) (qs s)\<rparr>;
               s = s\<lparr>watcher_cb := (watcher_cb s)(k := (watcher_cb s k)(h := cb))\<rparr>;
               s = uv__handle_start h s
           in (Inr (), s))"

definition uv_watcher_stop :: "queue_kind \<Rightarrow> addr \<Rightarrow> 'a watcher_loop_scheme \<Rightarrow> 'a watcher_loop_scheme" where
  "uv_watcher_stop k h s =
     (if \<not> uv__is_active s h then s
      else let s = s\<lparr>qs := QUEUE_REMOVE (NodeQ k h) (qs s)\<rparr>
           in uv__handle_stop h s)"

text \<open>The body of the loop of \<open>uv__run_##name\<close>, behind the reinsertion: call the callback.\<close>

definition call_watcher ::
  "(nat \<Rightarrow> addr \<Rightarrow> 'a watcher_loop_scheme \<Rightarrow> 'a watcher_loop_scheme option) \<Rightarrow> queue_kind \<Rightarrow> qaddr \<Rightarrow>
    'a watcher_loop_scheme \<Rightarrow> 'a watcher_loop_scheme option" where
  "call_watcher run_cb k q s = do {
     h \<leftarrow> queue_data q;
     cb \<leftarrow> watcher_cb s k h;
     run_cb cb h s }"

definition uv__run_watchers ::
  "(nat \<Rightarrow> addr \<Rightarrow> 'a watcher_loop_scheme \<Rightarrow> 'a watcher_loop_scheme option) \<Rightarrow> queue_kind \<Rightarrow>
    'a watcher_loop_scheme \<Rightarrow> 'a watcher_loop_scheme option" where
  "uv__run_watchers run_cb k s =
     (let s = move_queue (LoopQ k) RUN_QUEUE s
      in rotate_loop RUN_QUEUE (LoopQ k) (call_watcher run_cb k) s)"

definition uv__watcher_close :: "queue_kind \<Rightarrow> addr \<Rightarrow> 'a watcher_loop_scheme \<Rightarrow> 'a watcher_loop_scheme" where
  "uv__watcher_close k h s = uv_watcher_stop k h s"

section \<open>Starting and stopping\<close>

text \<open>
  \<open>watchers_ok k s Q f H\<close>: the family \<open>f\<close> describes the queues with heads \<open>Q\<close>; the queue of kind
  \<open>k\<close> holds the links of the active handles of that type among \<open>H\<close>, each with a callback.
\<close>

definition watchers_ok ::
  "queue_kind \<Rightarrow> 'a watcher_loop_scheme \<Rightarrow> qaddr set \<Rightarrow> (qaddr \<Rightarrow> qaddr list) \<Rightarrow> addr set \<Rightarrow> bool" where
  "watchers_ok k s Q f H \<longleftrightarrow>
     queues (qs s) Q f \<and> LoopQ k \<in> Q \<and> handles_ok s H \<and>
     set (f (LoopQ k)) = NodeQ k ` {h \<in> H. htype s h = watcher_type k \<and> has_flag s h UV_HANDLE_ACTIVE} \<and>
     (\<forall>h. NodeQ k h \<in> set (f (LoopQ k)) \<longrightarrow> watcher_cb s k h \<noteq> None)"

lemma watchers_okD:
  assumes "watchers_ok k s Q f H"
  shows "queues (qs s) Q f" "LoopQ k \<in> Q" "handles_ok s H"
    "set (f (LoopQ k)) = NodeQ k ` {h \<in> H. htype s h = watcher_type k \<and> has_flag s h UV_HANDLE_ACTIVE}"
    "NodeQ k h \<in> set (f (LoopQ k)) \<Longrightarrow> watcher_cb s k h \<noteq> None"
  using assms by (auto simp: watchers_ok_def)

lemma handle_start_watcher [simp]:
  "watcher_cb (uv__handle_start h s) = watcher_cb s"
  "watcher_cb (uv__handle_stop h s) = watcher_cb s"
  by (simp_all add: handle_defs set_flag_def clear_flag_def)

lemma handles_ok_watcher_update [simp]:
  "handles_ok (watcher_cb_update g s) H \<longleftrightarrow> handles_ok s H"
  "handles_ok (qs_update q s) H \<longleftrightarrow> handles_ok s H"
  by (rule handles_ok_frame, simp, simp)+

lemma watcher_flag [flag_simps]: "has_flag (watcher_cb_update g s) h m \<longleftrightarrow> has_flag s h m"
  by (simp add: has_flag_def)

lemma watcher_start_ok:
  assumes ok: "watchers_ok k s Q f H" and h: "h \<in> H" "htype s h = watcher_type k"
    and nc: "\<not> uv__is_closing s h" and na: "\<not> uv__is_active s h" and un: "unused Q f (NodeQ k h)"
  shows "\<exists>s'. uv_watcher_start k h (Some cb) s = (Inr (), s') \<and>
    watchers_ok k s' Q (f(LoopQ k := NodeQ k h # f (LoopQ k))) H \<and> uv__is_active s' h \<and>
    watcher_cb s' k h = Some cb"
proof -
  define s1 where "s1 = s\<lparr>qs := QUEUE_INSERT_HEAD (LoopQ k) (NodeQ k h) (qs s),
    watcher_cb := (watcher_cb s)(k := (watcher_cb s k)(h := Some cb))\<rparr>"
  have st: "uv_watcher_start k h (Some cb) s = (Inr (), uv__handle_start h s1)"
    using na by (simp add: uv_watcher_start_def s1_def Let_def)
  note d = watchers_okD [OF ok]
  have "handles_ok s1 H" using d(3) by (simp add: s1_def)
  moreover have "\<not> uv__is_closing s1 h" using nc by (simp add: s1_def is_closing_iff flag_simps)
  ultimately have 1: "handles_ok (uv__handle_start h s1) H" by (rule handle_start_ok [OF _ h(1)])
  have 2: "queues (qs (uv__handle_start h s1)) Q (f(LoopQ k := NodeQ k h # f (LoopQ k)))"
    using qs.insert_head_law [OF d(1,2) un] by (simp add: s1_def)
  have fl: "has_flag (uv__handle_start h s1) j UV_HANDLE_ACTIVE \<longleftrightarrow> j = h \<or> has_flag s j UV_HANDLE_ACTIVE" for j
    by (auto simp: s1_def flag_simps)
  have 3: "{j \<in> H. htype (uv__handle_start h s1) j = watcher_type k \<and> has_flag (uv__handle_start h s1) j UV_HANDLE_ACTIVE} =
      insert h {j \<in> H. htype s j = watcher_type k \<and> has_flag s j UV_HANDLE_ACTIVE}"
    using h unfolding fl by (auto simp: s1_def)
  have "watchers_ok k (uv__handle_start h s1) Q (f(LoopQ k := NodeQ k h # f (LoopQ k))) H"
    using 1 2 d(2,5) unfolding watchers_ok_def 3 by (auto simp: d(4) s1_def)
  then show ?thesis using st fl [of h] by (simp add: uv__is_active_def s1_def)
qed

lemma watcher_stop_ok:
  assumes ok: "watchers_ok k s Q f H" and h: "h \<in> H" "htype s h = watcher_type k"
  shows "watchers_ok k (uv_watcher_stop k h s) Q (f(LoopQ k := remove1 (NodeQ k h) (f (LoopQ k)))) H \<and>
    \<not> uv__is_active (uv_watcher_stop k h s) h"
proof (cases "uv__is_active s h")
  case False
  note d = watchers_okD [OF ok]
  have "NodeQ k h \<notin> set (f (LoopQ k))" using False unfolding d(4) by (auto simp: uv__is_active_def)
  then show ?thesis using ok False by (simp add: uv_watcher_stop_def remove1_idem)
next
  case True
  note d = watchers_okD [OF ok]
  define s1 where "s1 = s\<lparr>qs := QUEUE_REMOVE (NodeQ k h) (qs s)\<rparr>"
  have st: "uv_watcher_stop k h s = uv__handle_stop h s1"
    using True by (simp add: uv_watcher_stop_def s1_def Let_def)
  have mem: "NodeQ k h \<in> set (f (LoopQ k))" using h True unfolding d(4) by (simp add: uv__is_active_def)
  have 1: "handles_ok (uv__handle_stop h s1) H" using d(3) by (intro handle_stop_ok h(1)) (simp add: s1_def)
  have 2: "queues (qs (uv__handle_stop h s1)) Q (f(LoopQ k := remove1 (NodeQ k h) (f (LoopQ k))))"
    using qs.remove_law [OF d(1,2) mem] by (simp add: s1_def)
  have dist: "distinct (f (LoopQ k))" using qs.distinct_law [OF d(1,2)] by simp
  have fl: "has_flag (uv__handle_stop h s1) j UV_HANDLE_ACTIVE \<longleftrightarrow> j \<noteq> h \<and> has_flag s j UV_HANDLE_ACTIVE" for j
    by (auto simp: s1_def flag_simps)
  have 3: "{j \<in> H. htype (uv__handle_stop h s1) j = watcher_type k \<and> has_flag (uv__handle_stop h s1) j UV_HANDLE_ACTIVE} =
      {j \<in> H. htype s j = watcher_type k \<and> has_flag s j UV_HANDLE_ACTIVE} - {h}"
    unfolding fl by (auto simp: s1_def)
  have "watchers_ok k (uv__handle_stop h s1) Q (f(LoopQ k := remove1 (NodeQ k h) (f (LoopQ k)))) H"
    using 1 2 d(2,5) dist unfolding watchers_ok_def 3 by (auto simp: d(4) s1_def)
  then show ?thesis using st fl [of h] by (simp add: uv__is_active_def)
qed

section \<open>Running\<close>

text \<open>
  What a callback may do: anything that keeps the queues a family of disjoint lists, keeps the
  handles in the queue and in the rest of the run callable, and adds no node to that rest.
\<close>

definition callable :: "queue_kind \<Rightarrow> 'a watcher_loop_scheme \<Rightarrow> (qaddr \<Rightarrow> qaddr list) \<Rightarrow> bool" where
  "callable k s f \<longleftrightarrow>
     (\<forall>q \<in> set (f RUN_QUEUE). \<exists>h. q = NodeQ k h \<and> watcher_cb s k h \<noteq> None)"

definition watcher_cb_ok ::
  "(nat \<Rightarrow> addr \<Rightarrow> 'a watcher_loop_scheme \<Rightarrow> 'a watcher_loop_scheme option) \<Rightarrow> queue_kind \<Rightarrow> qaddr set \<Rightarrow> bool" where
  "watcher_cb_ok run_cb k Q \<longleftrightarrow> (\<forall>cb h s f. queues (qs s) Q f \<longrightarrow> callable k s f \<longrightarrow>
     (\<exists>s' f'. run_cb cb h s = Some s' \<and> queues (qs s') Q f' \<and> callable k s' f' \<and>
        length (f' RUN_QUEUE) \<le> length (f RUN_QUEUE)))"

lemma requeue_watcher [simp]: "watcher_cb (requeue l q s) = watcher_cb s"
  by (simp add: requeue_def)

lemma call_watcher_keeps:
  assumes "watcher_cb_ok run_cb k Q"
  shows "body_keeps RUN_QUEUE (LoopQ k) Q (call_watcher run_cb k) (callable k)"
  unfolding body_keeps_def
proof (intro allI impI)
  fix s :: "'a watcher_loop_scheme" and f x xs
  assume c: "callable k s f" and f: "f RUN_QUEUE = x # xs"
    and q: "queues (qs (requeue (LoopQ k) x s)) Q (f(RUN_QUEUE := xs, LoopQ k := f (LoopQ k) @ [x]))"
      (is "queues (qs ?s) Q ?f")
  obtain h cb where h: "x = NodeQ k h" "watcher_cb s k h = Some cb"
    using c f by (auto simp: callable_def)
  have "callable k ?s ?f" using c f by (simp add: callable_def)
  then obtain s' f' where "run_cb cb h ?s = Some s'" "queues (qs s') Q f'" "callable k s' f'"
    "length (f' RUN_QUEUE) \<le> length xs"
    using assms q unfolding watcher_cb_ok_def by (metis fun_upd_apply qaddr.distinct(3))
  then show "\<exists>s' f'. call_watcher run_cb k x ?s = Some s' \<and> queues (qs s') Q f' \<and> callable k s' f' \<and>
      length (f' RUN_QUEUE) \<le> length xs"
    using h by (auto simp: call_watcher_def)
qed

text \<open>A callback that records who was called, in the fields behind those of the loop.\<close>

definition record_watcher ::
  "nat \<Rightarrow> addr \<Rightarrow> addr list watcher_loop_scheme \<Rightarrow> addr list watcher_loop_scheme option" where
  "record_watcher cb h s = Some (watcher_loop.more_update (\<lambda>l. l @ [h]) s)"

definition run_state ::
  "queue_kind \<Rightarrow> addr list \<Rightarrow> addr list \<Rightarrow> addr list watcher_loop_scheme \<Rightarrow> (qaddr \<Rightarrow> qaddr list) \<Rightarrow> bool" where
  "run_state k log hs s f \<longleftrightarrow>
     (\<exists>as bs. hs = as @ bs \<and> f (LoopQ k) = map (NodeQ k) as \<and> f RUN_QUEUE = map (NodeQ k) bs \<and>
        watcher_loop.more s = log @ as \<and> (\<forall>h \<in> set hs. watcher_cb s k h \<noteq> None))"

lemma record_keeps:
  "body_keeps RUN_QUEUE (LoopQ k) Q (call_watcher record_watcher k) (run_state k log hs)"
  unfolding body_keeps_def
proof (intro allI impI)
  fix s :: "addr list watcher_loop_scheme" and f x xs
  assume r: "run_state k log hs s f" and f: "f RUN_QUEUE = x # xs"
    and q: "queues (qs (requeue (LoopQ k) x s)) Q (f(RUN_QUEUE := xs, LoopQ k := f (LoopQ k) @ [x]))"
      (is "queues (qs ?s) Q ?f")
  obtain as h bs where ab: "hs = as @ h # bs" "f (LoopQ k) = map (NodeQ k) as" "x = NodeQ k h"
      "xs = map (NodeQ k) bs" "watcher_loop.more s = log @ as" "\<forall>h \<in> set hs. watcher_cb s k h \<noteq> None"
    using r f unfolding run_state_def by (auto simp: map_eq_Cons_conv)
  then obtain cb where cb: "watcher_cb s k h = Some cb" by auto
  let ?t = "watcher_loop.more_update (\<lambda>l. l @ [h]) ?s"
  have "call_watcher record_watcher k x ?s = Some ?t"
    using ab(3) cb by (simp add: call_watcher_def record_watcher_def)
  moreover have "queues (qs ?t) Q ?f" using q by simp
  moreover have "run_state k log hs ?t ?f"
    unfolding run_state_def using ab by (intro exI [of _ "as @ [h]"] exI [of _ bs]) (simp add: requeue_def)
  ultimately show "\<exists>s' f'. call_watcher record_watcher k x ?s = Some s' \<and> queues (qs s') Q f' \<and>
      run_state k log hs s' f' \<and> length (f' RUN_QUEUE) \<le> length xs" by fastforce
qed


section \<open>Properties\<close>

text \<open>A loop with no timers, no handles and empty queues; \<open>x\<close> is what lies behind its fields.\<close>

definition empty_watcher_loop :: "'x \<Rightarrow> 'x watcher_loop_scheme" where
  "empty_watcher_loop x = \<lparr>flags = (\<lambda>_. 0), htype = (\<lambda>_. UV_PREPARE), next_closing = (\<lambda>_. None),
     active_handles = 0, active_reqs = 0, closing_handles = None, time = 10, stop_flag = False,
     qs = \<lparr>QUEUE_NEXT = \<lambda>q. q, QUEUE_PREV = \<lambda>q. q\<rparr>,
     timer_cb = (\<lambda>_. None), timeout = (\<lambda>_. 0), timer_repeat = (\<lambda>_. 0), start_id = (\<lambda>_. 0),
     timer_counter = 0, timer_heap = \<lparr>heap_top = None, nelts = 0,
       nodes = (\<lambda>_. \<lparr>left = None, right = None, parent = None\<rparr>)\<rparr>,
     watcher_cb = (\<lambda>_ _. None), \<dots> = x\<rparr>"

lemma empty_watchers_ok: "watchers_ok PrepareK (empty_watcher_loop x) {LoopQ PrepareK} (\<lambda>_. []) {7, 8}"
  by (simp add: watchers_ok_def empty_watcher_loop_def queues_def queue_at_Nil handles_ok_def counted_def
    has_flag_def is_closing_iff)

text \<open>
  \<open>uv_prepare_start\<close>, \<open>uv_check_start\<close> and \<open>uv_idle_start\<close> put an inactive handle at the head
  of the queue of its kind and make it active; the stop function takes it out again, from any
  place; both keep the invariant, that the queue holds exactly the active handles of its kind and
  that the loop counts the active handles.
\<close>

theorem watcher_start_and_stop:
  assumes "watchers_ok k s Q f H" and "h \<in> H" and "htype s h = watcher_type k"
  shows "(\<not> uv__is_closing s h \<and> \<not> uv__is_active s h \<and> unused Q f (NodeQ k h) \<longrightarrow>
      (\<exists>s'. uv_watcher_start k h (Some cb) s = (Inr (), s') \<and>
        watchers_ok k s' Q (f(LoopQ k := NodeQ k h # f (LoopQ k))) H \<and> uv__is_active s' h)) \<and>
    watchers_ok k (uv_watcher_stop k h s) Q (f(LoopQ k := remove1 (NodeQ k h) (f (LoopQ k)))) H \<and>
    \<not> uv__is_active (uv_watcher_stop k h s) h"
  using watcher_start_ok [OF assms] watcher_stop_ok [OF assms] by blast

theorem watcher_start_and_stop_witness:
  "\<exists>s'. uv_watcher_start PrepareK 7 (Some 1) (empty_watcher_loop ()) = (Inr (), s') \<and> uv__is_active s' 7"
proof -
  let ?s = "empty_watcher_loop ()"
  have "htype ?s 7 = watcher_type PrepareK" by (simp add: watcher_type_def empty_watcher_loop_def)
  moreover have "\<not> uv__is_closing ?s 7" "\<not> uv__is_active ?s 7"
    by (simp_all add: is_closing_iff uv__is_active_def has_flag_def empty_watcher_loop_def)
  moreover have "unused {LoopQ PrepareK} (\<lambda>_. []) (NodeQ PrepareK 7)" by (simp add: unused_def qcell_def)
  ultimately show ?thesis using watcher_start_and_stop [OF empty_watchers_ok, of 7 "()" 1] by auto
qed

text \<open>
  C36: \<open>uv__run_prepare\<close> (and \<open>uv__run_check\<close>, \<open>uv__run_idle\<close>) calls every handle in its queue
  once, in the order of the queue, and leaves the queue as it was; the callbacks here only record
  who was called.
\<close>

theorem run_watchers_calls_each_once:
  assumes "queues (qs s) Q f" and "LoopQ k \<in> Q" and "unused Q f RUN_QUEUE"
    and "f (LoopQ k) = map (NodeQ k) hs" and "\<forall>h \<in> set hs. watcher_cb s k h \<noteq> None"
  shows "\<exists>s' f'. uv__run_watchers record_watcher k s = Some s' \<and> queues (qs s') (insert RUN_QUEUE Q) f' \<and>
    f' (LoopQ k) = f (LoopQ k) \<and> watcher_loop.more s' = watcher_loop.more s @ hs"
proof -
  let ?f = "f(RUN_QUEUE := f (LoopQ k), LoopQ k := [])"
  have "run_state k (watcher_loop.more s) hs (move_queue (LoopQ k) RUN_QUEUE s) ?f"
    using assms(4,5) by (simp add: run_state_def move_queue_def)
  from rotate_ok [OF record_keeps assms(2,1,3) this]
  obtain s' f' where r: "rotate_loop RUN_QUEUE (LoopQ k) (call_watcher record_watcher k)
      (move_queue (LoopQ k) RUN_QUEUE s) = Some s'"
    "queues (qs s') (insert RUN_QUEUE Q) f'" "run_state k (watcher_loop.more s) hs s' f'" "f' RUN_QUEUE = []"
    by blast
  then have "f' (LoopQ k) = map (NodeQ k) hs" "watcher_loop.more s' = watcher_loop.more s @ hs"
    by (auto simp: run_state_def)
  then show ?thesis using r(1,2) assms(4) by (auto simp: uv__run_watchers_def Let_def)
qed

definition one_idle_loop :: "addr list watcher_loop_scheme" where
  "one_idle_loop = snd (uv_watcher_start IdleK 7 (Some 1) (empty_watcher_loop []))"

lemma one_idle_facts:
  "queues (qs one_idle_loop) {LoopQ IdleK} ((\<lambda>_. [])(LoopQ IdleK := [NodeQ IdleK 7]))"
  "watcher_cb one_idle_loop IdleK 7 = Some 1" "watcher_loop.more one_idle_loop = []"
proof -
  let ?s = "empty_watcher_loop ([] :: addr list)"
  have "queues (qs ?s) {LoopQ IdleK} (\<lambda>_. [])"
    by (simp add: empty_watcher_loop_def queues_def queue_at_Nil)
  then show "queues (qs one_idle_loop) {LoopQ IdleK} ((\<lambda>_. [])(LoopQ IdleK := [NodeQ IdleK 7]))"
    using qs.insert_head_law [of "qs ?s" "{LoopQ IdleK}" "\<lambda>_. []" "LoopQ IdleK" "NodeQ IdleK 7"]
    by (simp add: one_idle_loop_def uv_watcher_start_def uv__is_active_def has_flag_def Let_def
      unused_def qcell_def) (simp add: empty_watcher_loop_def)
  show "watcher_cb one_idle_loop IdleK 7 = Some 1" "watcher_loop.more one_idle_loop = []"
    by (simp_all add: one_idle_loop_def uv_watcher_start_def uv__is_active_def has_flag_def Let_def
      empty_watcher_loop_def handle_defs set_flag_def)
qed

theorem run_watchers_calls_each_once_witness:
  "\<exists>s'. uv__run_watchers record_watcher IdleK one_idle_loop = Some s' \<and> watcher_loop.more s' = [7]"
  using run_watchers_calls_each_once [OF one_idle_facts(1), of IdleK "[7]"]
  by (auto simp: unused_def qcell_def one_idle_facts(2,3))

text \<open>
  Whatever the callbacks do to the handles, as long as they return, keep the queues a family
  of disjoint lists, keep the waiting handles callable and put no node into the queue on the
  stack, the run of the watchers returns and has emptied that queue.
\<close>

theorem run_watchers_returns:
  assumes "watcher_cb_ok run_cb k (insert RUN_QUEUE Q)" and "queues (qs s) Q f" and "LoopQ k \<in> Q"
    and "unused Q f RUN_QUEUE" and "\<forall>q \<in> set (f (LoopQ k)). \<exists>h. q = NodeQ k h \<and> watcher_cb s k h \<noteq> None"
  shows "\<exists>s' f'. uv__run_watchers run_cb k s = Some s' \<and> queues (qs s') (insert RUN_QUEUE Q) f' \<and> f' RUN_QUEUE = []"
proof -
  have "callable k (move_queue (LoopQ k) RUN_QUEUE s) (f(RUN_QUEUE := f (LoopQ k), LoopQ k := []))"
    using assms(5) by (simp add: callable_def move_queue_def)
  from rotate_ok [OF call_watcher_keeps [OF assms(1)] assms(3,2,4) this]
  show ?thesis by (auto simp: uv__run_watchers_def Let_def)
qed

theorem run_watchers_returns_witness:
  "\<exists>s'. uv__run_watchers record_watcher IdleK one_idle_loop = Some s'"
proof -
  have "watcher_cb_ok record_watcher IdleK {RUN_QUEUE, LoopQ IdleK}"
    unfolding watcher_cb_ok_def record_watcher_def callable_def by fastforce
  from run_watchers_returns [OF this one_idle_facts(1)]
  show ?thesis by (auto simp: unused_def qcell_def one_idle_facts(2))
qed

end
