(* ===== verification/IoLoop.thy ===== *)
theory IoLoop
  imports LoopWatcher Sysfd
begin

text \<open>
  The I/O watchers of src/unix/core.c (\<open>uv__io_init\<close> to \<open>uv__fd_exists\<close>) with
  \<open>uv__platform_invalidate_fd\<close> of src/unix/epoll.c.  A watcher is identified by its address (for a
  watcher inside a handle, the address of the handle); the array \<open>loop->watchers\<close> maps a
  descriptor to its watcher and holds, in its two last cells, the event array of a poll that is
  running and its length.  The state of the outside world is the field \<open>os\<close> of the loop, the
  system calls are the fields of the kernel record.

  The lemmas show that the array is always large enough for the descriptors of the registered
  watchers, that its cells point to watchers of their own descriptor that wait for something, and
  that \<open>nfds\<close> counts them.
\<close>

section \<open>State\<close>

datatype io_callback = UV__ASYNC_IO | UV__SIGNAL_EVENT | UV__STREAM_IO | UV__SERVER_IO | UV__UDP_IO
  | UV__POLL_IO | UV__OTHER_IO nat

datatype slot = SNull | SWatch addr | SEvents | SCount nat

record 'w io_loop = watcher_loop +
  io_cb :: "addr \<Rightarrow> io_callback"
  io_fd :: "addr \<Rightarrow> int"
  io_events :: "addr \<Rightarrow> u32"
  io_pevents :: "addr \<Rightarrow> u32"
  watchers :: "slot list option"
  nwatchers :: u32
  nfds :: u32
  backend_fd :: int
  loop_flags :: u32
  internal_flags :: u32
  poll_events :: "(u32 \<times> int) list"
  provider_entry_time :: u64
  provider_idle_time :: u64
  os :: 'w

datatype epoll_op = EPOLL_CTL_ADD | EPOLL_CTL_MOD | EPOLL_CTL_DEL

record 'w io_kernel = "'w fd_kernel" +
  k_realloc :: "nat \<Rightarrow> 'w \<Rightarrow> bool \<times> 'w"
  k_hrtime :: "'w \<Rightarrow> u64 \<times> 'w"
  k_epoll_create1 :: "('w, int) sys"
  k_epoll_create :: "('w, int) sys"
  k_epoll_ctl :: "int \<Rightarrow> epoll_op \<Rightarrow> int \<Rightarrow> u32 \<Rightarrow> int \<Rightarrow> ('w, unit) sys"
  k_epoll_wait :: "int \<Rightarrow> nat \<Rightarrow> int \<Rightarrow> ('w, (u32 \<times> int) list) sys"
  k_epoll_pwait :: "int \<Rightarrow> nat \<Rightarrow> int \<Rightarrow> ('w, (u32 \<times> int) list) sys"
  k_sigmask :: "bool \<Rightarrow> ('w, unit) sys"
  k_eventfd :: "('w, int) sys"
  k_write :: "int \<Rightarrow> string \<Rightarrow> ('w, nat) sys"

abbreviation POLLIN :: u32 where "POLLIN \<equiv> 1"
abbreviation POLLPRI :: u32 where "POLLPRI \<equiv> 2"
abbreviation POLLOUT :: u32 where "POLLOUT \<equiv> 4"
abbreviation POLLERR :: u32 where "POLLERR \<equiv> 8"
abbreviation POLLHUP :: u32 where "POLLHUP \<equiv> 16"
abbreviation POLLRDHUP :: u32 where "POLLRDHUP \<equiv> 0x2000"
abbreviation POLL_ALL :: u32 where "POLL_ALL \<equiv> POLLIN OR POLLOUT OR POLLRDHUP OR POLLPRI"
abbreviation UV_LOOP_BLOCK_SIGPROF :: u32 where "UV_LOOP_BLOCK_SIGPROF \<equiv> 1"
abbreviation UV_METRICS_IDLE_TIME :: u32 where "UV_METRICS_IDLE_TIME \<equiv> 1"

text \<open>A system call on the world inside the loop.\<close>

definition sys :: "('w \<Rightarrow> 'r \<times> 'w) \<Rightarrow> ('w, 'a) io_loop_scheme \<Rightarrow> 'r \<times> ('w, 'a) io_loop_scheme" where
  "sys f s = (case f (os s) of (r, w) \<Rightarrow> (r, s\<lparr>os := w\<rparr>))"

definition sys_prog ::
  "('w \<Rightarrow> ('r \<times> 'w) option) \<Rightarrow> ('w, 'a) io_loop_scheme \<Rightarrow> ('r \<times> ('w, 'a) io_loop_scheme) option" where
  "sys_prog f s = map_option (\<lambda>(r, w). (r, s\<lparr>os := w\<rparr>)) (f (os s))"

section \<open>Operations\<close>

definition uv__update_time :: "'w io_kernel \<Rightarrow> ('w, 'a) io_loop_scheme \<Rightarrow> ('w, 'a) io_loop_scheme" where
  "uv__update_time K s = (case sys (k_hrtime K) s of (t, s) \<Rightarrow> s\<lparr>time := t div 1000000\<rparr>)"

definition next_power_of_two :: "u32 \<Rightarrow> u32" where
  "next_power_of_two val =
     (let val = val - 1;
          val = val OR drop_bit 1 val;
          val = val OR drop_bit 2 val;
          val = val OR drop_bit 4 val;
          val = val OR drop_bit 8 val;
          val = val OR drop_bit 16 val
      in val + 1)"

definition maybe_resize ::
  "'w io_kernel \<Rightarrow> u32 \<Rightarrow> ('w, 'a) io_loop_scheme \<Rightarrow> ('w, 'a) io_loop_scheme option" where
  "maybe_resize K len s =
     (if len \<le> nwatchers s then Some s
      else
        let old = (case watchers s of None \<Rightarrow> [] | Some ws \<Rightarrow> ws);
            fake_watcher_list = (if watchers s \<noteq> None then old ! unat (nwatchers s) else SNull);
            fake_watcher_count = (if watchers s \<noteq> None then old ! unat (nwatchers s + 1) else SNull);
            nw = next_power_of_two (len + 2) - 2;
            (ok, s) = sys (k_realloc K (unat (nw + 2) * 8)) s
        in if \<not> ok \<or> nw + 2 = 0 then None
           else
             let ws = take (unat (nwatchers s)) old
                   @ replicate (unat nw - unat (nwatchers s)) SNull
                   @ [fake_watcher_list, fake_watcher_count]
             in Some (s\<lparr>watchers := Some ws, nwatchers := nw\<rparr>))"

definition uv__io_init ::
  "addr \<Rightarrow> io_callback \<Rightarrow> int \<Rightarrow> ('w, 'a) io_loop_scheme \<Rightarrow> ('w, 'a) io_loop_scheme option" where
  "uv__io_init w cb fd s = do {
     uv_assert (fd \<ge> -1);
     let s = s\<lparr>qs := QUEUE_INIT (NodeQ PendingK w) (qs s)\<rparr>;
     let s = s\<lparr>qs := QUEUE_INIT (NodeQ WatcherK w) (qs s)\<rparr>;
     Some (s\<lparr>io_cb := (io_cb s)(w := cb),
             io_fd := (io_fd s)(w := fd),
             io_events := (io_events s)(w := 0),
             io_pevents := (io_pevents s)(w := 0)\<rparr>) }"

definition watcher_at :: "('w, 'a) io_loop_scheme \<Rightarrow> int \<Rightarrow> slot option" where
  "watcher_at s fd = (case watchers s of None \<Rightarrow> None
     | Some ws \<Rightarrow> if nat fd < length ws then Some (ws ! nat fd) else None)"

definition set_watcher_at :: "int \<Rightarrow> slot \<Rightarrow> ('w, 'a) io_loop_scheme \<Rightarrow> ('w, 'a) io_loop_scheme" where
  "set_watcher_at fd x s = s\<lparr>watchers := map_option (\<lambda>ws. ws[nat fd := x]) (watchers s)\<rparr>"

definition uv__io_start ::
  "'w io_kernel \<Rightarrow> addr \<Rightarrow> u32 \<Rightarrow> ('w, 'a) io_loop_scheme \<Rightarrow> ('w, 'a) io_loop_scheme option" where
  "uv__io_start K w events s = do {
     uv_assert (events AND NOT POLL_ALL = 0);
     uv_assert (events \<noteq> 0);
     uv_assert (io_fd s w \<ge> 0);
     uv_assert (io_fd s w < INT_MAX);
     let s = s\<lparr>io_pevents := (io_pevents s)(w := io_pevents s w OR events)\<rparr>;
     s \<leftarrow> maybe_resize K (word_of_int (io_fd s w + 1)) s;
     if io_events s w = io_pevents s w then Some s
     else do {
       let s = (if QUEUE_EMPTY (qs s) (NodeQ WatcherK w)
                then s\<lparr>qs := QUEUE_INSERT_TAIL (LoopQ WatcherK) (NodeQ WatcherK w) (qs s)\<rparr> else s);
       x \<leftarrow> watcher_at s (io_fd s w);
       Some (if x = SNull then (set_watcher_at (io_fd s w) (SWatch w) s)\<lparr>nfds := nfds s + 1\<rparr> else s)
     } }"

definition uv__io_stop ::
  "addr \<Rightarrow> u32 \<Rightarrow> ('w, 'a) io_loop_scheme \<Rightarrow> ('w, 'a) io_loop_scheme option" where
  "uv__io_stop w events s = do {
     uv_assert (events AND NOT POLL_ALL = 0);
     uv_assert (events \<noteq> 0);
     if io_fd s w = -1 then Some s
     else do {
       uv_assert (io_fd s w \<ge> 0);
       if io_fd s w \<ge> uint (nwatchers s) then Some s
       else do {
         let s = s\<lparr>io_pevents := (io_pevents s)(w := io_pevents s w AND NOT events)\<rparr>;
         if io_pevents s w = 0 then do {
           let s = s\<lparr>qs := QUEUE_REMOVE (NodeQ WatcherK w) (qs s)\<rparr>;
           let s = s\<lparr>qs := QUEUE_INIT (NodeQ WatcherK w) (qs s)\<rparr>;
           let s = s\<lparr>io_events := (io_events s)(w := 0)\<rparr>;
           x \<leftarrow> watcher_at s (io_fd s w);
           if x = SWatch w then do {
             uv_assert (nfds s > 0);
             Some ((set_watcher_at (io_fd s w) SNull s)\<lparr>nfds := nfds s - 1\<rparr>) }
           else Some s }
         else Some (if QUEUE_EMPTY (qs s) (NodeQ WatcherK w)
                    then s\<lparr>qs := QUEUE_INSERT_TAIL (LoopQ WatcherK) (NodeQ WatcherK w) (qs s)\<rparr> else s)
       } } }"

text \<open>epoll.c: the events of a running poll that belong to \<open>fd\<close> lose their descriptor.\<close>

definition uv__platform_invalidate_fd ::
  "'w io_kernel \<Rightarrow> int \<Rightarrow> ('w, 'a) io_loop_scheme \<Rightarrow> ('w, 'a) io_loop_scheme option" where
  "uv__platform_invalidate_fd K fd s = do {
     uv_assert (watchers s \<noteq> None);
     uv_assert (fd \<ge> 0);
     events \<leftarrow> watcher_at s (uint (nwatchers s));
     cnt \<leftarrow> watcher_at s (uint (nwatchers s + 1));
     let s = (case cnt of
         SCount n \<Rightarrow>
           if events \<noteq> SNull
           then s\<lparr>poll_events := map (\<lambda>(ev, efd). (ev, if efd = fd then -1 else efd)) (take n (poll_events s))
                                @ drop n (poll_events s)\<rparr>
           else s
       | _ \<Rightarrow> s);
     Some (if backend_fd s \<ge> 0
           then snd (sys (k_epoll_ctl K (backend_fd s) EPOLL_CTL_DEL fd 0 0) s) else s) }"

definition uv__io_close ::
  "'w io_kernel \<Rightarrow> addr \<Rightarrow> ('w, 'a) io_loop_scheme \<Rightarrow> ('w, 'a) io_loop_scheme option" where
  "uv__io_close K w s = do {
     s \<leftarrow> uv__io_stop w POLL_ALL s;
     let s = s\<lparr>qs := QUEUE_REMOVE (NodeQ PendingK w) (qs s)\<rparr>;
     if io_fd s w \<noteq> -1 then uv__platform_invalidate_fd K (io_fd s w) s else Some s }"

definition uv__io_feed :: "addr \<Rightarrow> ('w, 'a) io_loop_scheme \<Rightarrow> ('w, 'a) io_loop_scheme" where
  "uv__io_feed w s =
     (if QUEUE_EMPTY (qs s) (NodeQ PendingK w)
      then s\<lparr>qs := QUEUE_INSERT_TAIL (LoopQ PendingK) (NodeQ PendingK w) (qs s)\<rparr> else s)"

definition uv__io_active :: "('w, 'a) io_loop_scheme \<Rightarrow> addr \<Rightarrow> u32 \<Rightarrow> bool option" where
  "uv__io_active s w events = do {
     uv_assert (events AND NOT POLL_ALL = 0);
     uv_assert (events \<noteq> 0);
     Some (io_pevents s w AND events \<noteq> 0) }"

text \<open>The cast of \<open>fd\<close> to \<open>unsigned\<close> makes a negative descriptor too large.\<close>

definition uv__fd_exists :: "('w, 'a) io_loop_scheme \<Rightarrow> int \<Rightarrow> bool option" where
  "uv__fd_exists s fd =
     (if (word_of_int fd :: u32) < nwatchers s then map_option (\<lambda>x. x \<noteq> SNull) (watcher_at s fd)
      else Some False)"

text \<open>\<open>uv__run_pending\<close>: the queue on the stack is \<open>LocalQ 0\<close>; \<open>run_io\<close> calls the watcher.\<close>

abbreviation PENDING_QUEUE :: qaddr where "PENDING_QUEUE \<equiv> LocalQ 0"

partial_function (option) run_pending_loop ::
  "(io_callback \<Rightarrow> addr \<Rightarrow> u32 \<Rightarrow> ('w, 'a) io_loop_scheme \<Rightarrow> ('w, 'a) io_loop_scheme option) \<Rightarrow>
    ('w, 'a) io_loop_scheme \<Rightarrow> ('w, 'a) io_loop_scheme option" where
  "run_pending_loop run_io s =
     (if QUEUE_EMPTY (qs s) PENDING_QUEUE then Some s
      else let q = QUEUE_HEAD (qs s) PENDING_QUEUE;
               s = s\<lparr>qs := QUEUE_INIT q (QUEUE_REMOVE q (qs s))\<rparr>
           in queue_data q \<bind> (\<lambda>w.
              run_io (io_cb s w) w POLLOUT s \<bind> run_pending_loop run_io))"

definition uv__run_pending ::
  "(io_callback \<Rightarrow> addr \<Rightarrow> u32 \<Rightarrow> ('w, 'a) io_loop_scheme \<Rightarrow> ('w, 'a) io_loop_scheme option) \<Rightarrow>
    ('w, 'a) io_loop_scheme \<Rightarrow> (bool \<times> ('w, 'a) io_loop_scheme) option" where
  "uv__run_pending run_io s =
     (if QUEUE_EMPTY (qs s) (LoopQ PendingK) then Some (False, s)
      else do {
        s \<leftarrow> run_pending_loop run_io (move_queue (LoopQ PendingK) PENDING_QUEUE s);
        Some (True, s) })"


section \<open>The size of the array\<close>

lemma next_power_of_two_spec:
  assumes "1 \<le> unat v" "unat v \<le> 2 ^ 31"
  shows "\<exists>k \<le> 31. unat (next_power_of_two v) = 2 ^ k \<and> unat v \<le> 2 ^ k \<and> (k = 0 \<or> 2 ^ (k - 1) < unat v)"
proof -
  have ux: "unat (v - 1) = unat v - 1"
    using assms(1) by (metis unat_minus_one unat_0 not_one_le_zero)
  obtain k where k: "unat (v - 1) < 2 ^ k" "k = 0 \<or> 2 ^ (k - 1) \<le> unat (v - 1)"
    using power_bracket by blast
  have k31: "k \<le> 31"
  proof (rule ccontr)
    assume n: "\<not> k \<le> 31"
    then have "(2 :: nat) ^ 31 \<le> 2 ^ (k - 1)" by (intro power_increasing) auto
    then show False using k(2) ux assms n by auto
  qed
  have "next_power_of_two v = mask k + 1"
    unfolding next_power_of_two_def Let_def using smear_all [OF k refl refl refl refl refl] by simp
  also have "\<dots> = 2 ^ k" by (simp add: mask_eq_exp_minus_1)
  finally have "unat (next_power_of_two v) = 2 ^ k" using k31 by (simp add: unat_p2)
  then show ?thesis using k k31 ux assms(1) by (intro exI [of _ k]) auto
qed


section \<open>The invariant of the array\<close>

definition io_cells :: "('w, 'a) io_loop_scheme \<Rightarrow> slot list \<Rightarrow> bool" where
  "io_cells s ws \<longleftrightarrow> (\<forall>i < unat (nwatchers s). ws ! i = SNull \<or>
     (\<exists>w. ws ! i = SWatch w \<and> io_fd s w = int i \<and> io_pevents s w \<noteq> 0))"

definition io_ok :: "('w, 'a) io_loop_scheme \<Rightarrow> bool" where
  "io_ok s \<longleftrightarrow> unat (nwatchers s) + 2 \<le> 2 ^ 31 \<and>
     (case watchers s of
        None \<Rightarrow> nwatchers s = 0 \<and> nfds s = 0
      | Some ws \<Rightarrow> length ws = unat (nwatchers s) + 2 \<and> io_cells s ws \<and>
          unat (nfds s) = card {i. i < unat (nwatchers s) \<and> ws ! i \<noteq> SNull})"

lemma io_okD:
  assumes "io_ok s" "watchers s = Some ws"
  shows "unat (nwatchers s) + 2 \<le> 2 ^ 31" "length ws = unat (nwatchers s) + 2"
    "unat (nfds s) = card {i. i < unat (nwatchers s) \<and> ws ! i \<noteq> SNull}"
    "i < unat (nwatchers s) \<Longrightarrow> ws ! i = SNull \<or>
      (\<exists>w. ws ! i = SWatch w \<and> io_fd s w = int i \<and> io_pevents s w \<noteq> 0)"
  using assms by (auto simp: io_ok_def io_cells_def)

lemma io_okI:
  assumes "unat (nwatchers s) + 2 \<le> 2 ^ 31" "watchers s = Some ws" "length ws = unat (nwatchers s) + 2"
    "unat (nfds s) = card {i. i < unat (nwatchers s) \<and> ws ! i \<noteq> SNull}"
    "\<And>i. i < unat (nwatchers s) \<Longrightarrow> ws ! i = SNull \<or>
      (\<exists>w. ws ! i = SWatch w \<and> io_fd s w = int i \<and> io_pevents s w \<noteq> 0)"
  shows "io_ok s"
  using assms by (simp add: io_ok_def io_cells_def)

text \<open>What an operation on one watcher may change of the loop.\<close>

lemma maybe_resize_ok:
  assumes ok: "io_ok s" and len: "unat len + 2 \<le> 2 ^ 31" and mem: "\<And>n w. fst (k_realloc K n w)"
  obtains s' where "maybe_resize K len s = Some s'" "io_ok s'" "unat len \<le> unat (nwatchers s')"
    "unat (nwatchers s) \<le> unat (nwatchers s')"
    "\<And>i x. watcher_at s i = Some x \<Longrightarrow> nat i < unat (nwatchers s) \<Longrightarrow> watcher_at s' i = Some x"
    "s' = s\<lparr>watchers := watchers s', nwatchers := nwatchers s', os := os s'\<rparr>"
    "len \<noteq> 0 \<Longrightarrow> watchers s' \<noteq> None"
proof (cases "len \<le> nwatchers s")
  case True
  then have "maybe_resize K len s = Some s" by (simp add: maybe_resize_def)
  moreover have "len \<noteq> 0 \<Longrightarrow> watchers s \<noteq> None" using ok True by (cases "watchers s") (auto simp: io_ok_def)
  ultimately show thesis using that ok True by (simp add: word_le_nat_alt)
next
  case False
  define nw where "nw = next_power_of_two (len + 2) - 2"
  define old where "old = (case watchers s of None \<Rightarrow> [] | Some ws \<Rightarrow> ws)"
  define fl where "fl = (if watchers s \<noteq> None then old ! unat (nwatchers s) else SNull)"
  define fc where "fc = (if watchers s \<noteq> None then old ! unat (nwatchers s + 1) else SNull)"
  define w where "w = snd (k_realloc K (unat (nw + 2) * 8) (os s))"
  define n where "n = unat (nwatchers s)"
  have l2: "unat (len + 2) = unat len + 2" using len by (simp add: unat_add_lem [THEN iffD1])
  obtain k where k: "k \<le> 31" "unat (next_power_of_two (len + 2)) = 2 ^ k" "unat len + 2 \<le> 2 ^ k"
    using next_power_of_two_spec [of "len + 2"] len l2 by auto
  have nw: "unat nw = 2 ^ k - 2" unfolding nw_def using k by (subst unat_sub) (auto simp: word_le_nat_alt)
  have "nw + 2 = next_power_of_two (len + 2)" by (simp add: nw_def)
  then have nz: "nw + 2 \<noteq> 0" using k(2,3) by auto
  have p: "(2 :: nat) ^ k \<le> 2 ^ 31" using k(1) by (intro power_increasing) auto
  have lt: "n < unat len" using False by (simp add: n_def word_le_nat_alt)
  have le: "unat len \<le> unat nw" using nw k(3) by simp
  define ws where "ws = take n old @ replicate (unat nw - n) SNull @ [fl, fc]"
  define s' where "s' = s\<lparr>os := w, watchers := Some ws, nwatchers := nw\<rparr>"
  have re: "k_realloc K (unat (nw + 2) * 8) (os s) = (True, w)"
    using mem [of "unat (nw + 2) * 8" "os s"] by (cases "k_realloc K (unat (nw + 2) * 8) (os s)") (simp add: w_def)
  have run: "maybe_resize K len s = Some s'"
    unfolding maybe_resize_def Let_def nw_def [symmetric] old_def [symmetric] fl_def [symmetric] fc_def [symmetric]
    using False nz re by (simp add: sys_def s'_def ws_def n_def)
  have lold: "min (length old) n = n" using ok by (auto simp: old_def n_def io_ok_def split: option.splits)
  have nth: "ws ! i = (if i < n then old ! i else SNull)" if "i < unat nw" for i
    using that lold lt le by (auto simp: ws_def nth_append)
  have cells: "{i. i < unat nw \<and> ws ! i \<noteq> SNull} = {i. i < n \<and> old ! i \<noteq> SNull}"
    using lt le by (auto simp: nth split: if_splits)
  have "io_ok s'"
  proof (rule io_okI)
    show "unat (nwatchers s') + 2 \<le> 2 ^ 31" using nw p k(3) by (simp add: s'_def)
    show "watchers s' = Some ws" by (simp add: s'_def)
    show "length ws = unat (nwatchers s') + 2" using lold lt le by (simp add: ws_def s'_def)
    show "unat (nfds s') = card {i. i < unat (nwatchers s') \<and> ws ! i \<noteq> SNull}"
      using ok by (simp add: s'_def cells) (auto simp: io_ok_def old_def n_def split: option.splits)
    show "ws ! i = SNull \<or> (\<exists>w. ws ! i = SWatch w \<and> io_fd s' w = int i \<and> io_pevents s' w \<noteq> 0)"
      if "i < unat (nwatchers s')" for i
      using that nth [of i] ok by (auto simp: s'_def io_ok_def io_cells_def old_def n_def split: option.splits)
  qed
  moreover have "watcher_at s' i = Some x" if "watcher_at s i = Some x" "nat i < unat (nwatchers s)" for i x
    using that nth [of "nat i"] lt le by (auto simp: watcher_at_def s'_def old_def n_def ws_def split: option.splits if_splits)
  ultimately show thesis using that [OF run] lt le by (simp add: s'_def n_def)
qed


section \<open>Registering and removing a watcher\<close>

lemma map_option_update: "map_option f (Some x) = Some (f x)"
  by simp

text \<open>A watcher whose link is initialised waits for nothing; else its link is in the loop's queue.\<close>

definition linked :: "qaddr set \<Rightarrow> (qaddr \<Rightarrow> qaddr list) \<Rightarrow> addr \<Rightarrow> bool" where
  "linked Q f w \<longleftrightarrow> LoopQ WatcherK \<in> Q \<and>
     (NodeQ WatcherK w \<in> Q \<and> f (NodeQ WatcherK w) = [] \<or> NodeQ WatcherK w \<in> set (f (LoopQ WatcherK)))"

lemma in_queue_not_empty:
  assumes q: "queues s Q f" and h: "h \<in> Q" and x: "x \<in> set (f h)"
  shows "\<not> QUEUE_EMPTY s x" and "x \<notin> Q"
proof -
  have at: "queue_at s h (f h)" by (rule queuesD [OF q h])
  obtain us vs where f: "f h = us @ x # vs" using split_list [OF x] by blast
  have "QUEUE_NEXT s x = hd (vs @ [h])" using queue_at_split [OF at [unfolded f]] by auto
  moreover have "distinct (h # us @ x # vs)" using queue_at_distinct [OF at] f by auto
  ultimately show "\<not> QUEUE_EMPTY s x" by (cases vs) (auto simp: QUEUE_EMPTY_def)
  show "x \<notin> Q"
  proof
    assume "x \<in> Q"
    moreover have "x \<noteq> h" using \<open>distinct (h # us @ x # vs)\<close> by auto
    ultimately have "qcell f h \<inter> qcell f x = {}" using queues_disjoint [OF q h] by blast
    then show False using x by (auto simp: qcell_def)
  qed
qed

lemma remove_self: "QUEUE_NEXT s x = x \<Longrightarrow> QUEUE_PREV s x = x \<Longrightarrow> QUEUE_REMOVE x s = s"
  by (cases s) (auto simp: queue_macros)

text \<open>\<open>QUEUE_REMOVE\<close> and \<open>QUEUE_INIT\<close> take a link out of wherever it is.\<close>

lemma unlink_ok:
  assumes q: "queues (qs s) Q f" and l: "linked Q f w"
  shows "queues (QUEUE_INIT (NodeQ WatcherK w) (QUEUE_REMOVE (NodeQ WatcherK w) (qs s)))
      (insert (NodeQ WatcherK w) Q)
      (f(LoopQ WatcherK := remove1 (NodeQ WatcherK w) (f (LoopQ WatcherK)), NodeQ WatcherK w := []))"
proof (cases "NodeQ WatcherK w \<in> set (f (LoopQ WatcherK))")
  case True
  let ?x = "NodeQ WatcherK w" and ?L = "LoopQ WatcherK"
  have L: "?L \<in> Q" using l by (simp add: linked_def)
  have 1: "queues (QUEUE_REMOVE ?x (qs s)) Q (f(?L := remove1 ?x (f ?L)))"
    by (rule qs.remove_law [OF q L True])
  have d: "distinct (f ?L)" using qs.distinct_law [OF q L] by simp
  have "unused Q (f(?L := remove1 ?x (f ?L))) ?x"
    unfolding unused_def qcell_update
  proof
    fix h assume h: "h \<in> Q"
    show "?x \<notin> (if h = ?L then insert ?L (set (remove1 ?x (f ?L))) else qcell f h)"
      using d queues_disjoint [OF q L h] True by (auto simp: qcell_def)
  qed
  from qs.init_law [OF 1 this] show ?thesis .
next
  case False
  let ?x = "NodeQ WatcherK w" and ?L = "LoopQ WatcherK"
  have x: "?x \<in> Q" "f ?x = []" using False l by (auto simp: linked_def)
  have "QUEUE_NEXT (qs s) ?x = ?x" "QUEUE_PREV (qs s) ?x = ?x"
    using queuesD [OF q x(1)] by (simp_all add: x(2) queue_at_Nil)
  then have "QUEUE_INIT ?x (QUEUE_REMOVE ?x (qs s)) = qs s"
    by (simp add: remove_self) (cases "qs s", simp add: queue_macros fun_upd_idem)
  moreover have "insert ?x Q = Q" using x by auto
  moreover have "f(?L := remove1 ?x (f ?L), ?x := []) = f"
    using False x(2) by (auto simp: remove1_idem fun_eq_iff)
  ultimately show ?thesis using q by simp
qed

lemma link_ok:
  assumes q: "queues (qs s) Q f" and l: "linked Q f w"
  shows "\<exists>Q' f'. queues (if QUEUE_EMPTY (qs s) (NodeQ WatcherK w)
        then QUEUE_INSERT_TAIL (LoopQ WatcherK) (NodeQ WatcherK w) (qs s) else qs s) Q' f' \<and>
      NodeQ WatcherK w \<in> set (f' (LoopQ WatcherK)) \<and> linked Q' f' w \<and> Q' = Q - {NodeQ WatcherK w} \<and>
      (\<forall>k. k \<noteq> LoopQ WatcherK \<longrightarrow> f' k = f k)"
proof (cases "NodeQ WatcherK w \<in> set (f (LoopQ WatcherK))")
  case True
  have L: "LoopQ WatcherK \<in> Q" using l by (simp add: linked_def)
  have "\<not> QUEUE_EMPTY (qs s) (NodeQ WatcherK w)" "NodeQ WatcherK w \<notin> Q"
    using in_queue_not_empty [OF q L True] by simp_all
  then show ?thesis using True q l by (intro exI [of _ Q] exI [of _ f]) auto
next
  case False
  let ?x = "NodeQ WatcherK w" and ?L = "LoopQ WatcherK"
  have L: "?L \<in> Q" and x: "?x \<in> Q" "f ?x = []" using False l by (auto simp: linked_def)
  have "QUEUE_EMPTY (qs s) ?x" using qs.empty_law [OF q x(1)] x(2) by simp
  moreover have "queues (QUEUE_INSERT_TAIL ?L ?x (qs s)) (Q - {?x}) (f(?L := f ?L @ [?x]))"
    using qs.enqueue_fresh [OF q x L] by simp
  ultimately show ?thesis using L
    by (intro exI [of _ "Q - {?x}"] exI [of _ "f(?L := f ?L @ [?x])"]) (auto simp: linked_def)
qed

lemma pevents_or: "e \<noteq> 0 \<Longrightarrow> p OR e \<noteq> (0 :: u32)"
  by (simp add: or_eq_0_iff)

text \<open>What an operation on a watcher may change.\<close>

definition io_touched :: "('w, 'a) io_loop_scheme \<Rightarrow> ('w, 'a) io_loop_scheme \<Rightarrow> bool" where
  "io_touched s s' \<longleftrightarrow> s' = s\<lparr>qs := qs s', io_events := io_events s', io_pevents := io_pevents s', watchers := watchers s',
     nwatchers := nwatchers s', nfds := nfds s', os := os s'\<rparr>"

lemma io_touched_refl [simp]: "io_touched s s"
  by (simp add: io_touched_def)

lemma io_touched_trans: "io_touched a b \<Longrightarrow> io_touched b c \<Longrightarrow> io_touched a c"
  by (cases a rule: io_loop.cases_scheme; cases b rule: io_loop.cases_scheme; cases c rule: io_loop.cases_scheme) (simp add: io_touched_def)

lemma io_start_first:
  assumes ok: "io_ok s" and ev: "events AND NOT POLL_ALL = 0" "events \<noteq> 0"
    and fd: "0 \<le> io_fd s w" "io_fd s w < 2 ^ 31 - 3" and mem: "\<And>n w. fst (k_realloc K n w)"
  obtains s2 where "maybe_resize K (word_of_int (io_fd s w + 1))
      (s\<lparr>io_pevents := (io_pevents s)(w := io_pevents s w OR events)\<rparr>) = Some s2" "io_ok s2"
    "nat (io_fd s w) < unat (nwatchers s2)" "watchers s2 \<noteq> None"
    "s2 = s\<lparr>io_pevents := (io_pevents s)(w := io_pevents s w OR events), watchers := watchers s2,
       nwatchers := nwatchers s2, os := os s2\<rparr>"
proof -
  define s1 where "s1 = s\<lparr>io_pevents := (io_pevents s)(w := io_pevents s w OR events)\<rparr>"
  have pv: "io_pevents s1 v \<noteq> 0" if "io_pevents s v \<noteq> 0" for v
    using that ev(2) by (simp add: s1_def or_eq_0_iff)
  have ok1: "io_ok s1"
  proof (cases "watchers s")
    case None
    then show ?thesis using ok by (simp add: io_ok_def s1_def)
  next
    case (Some ws)
    note d = io_okD [OF ok Some]
    show ?thesis
    proof (rule io_okI [where ws = ws])
      show "ws ! i = SNull \<or> (\<exists>v. ws ! i = SWatch v \<and> io_fd s1 v = int i \<and> io_pevents s1 v \<noteq> 0)"
        if "i < unat (nwatchers s1)" for i
      proof -
        have "io_fd s1 = io_fd s" "i < unat (nwatchers s)" using that by (simp_all add: s1_def)
        then show ?thesis using d(4) [of i] pv by metis
      qed
    qed (use d Some in \<open>simp_all add: s1_def\<close>)
  qed
  define len :: u32 where "len = word_of_int (io_fd s w + 1)"
  have "uint (word_of_int v :: u32) = v" if "0 \<le> v" "v < 2 ^ 31" for v
    using that by (simp add: uint_word_of_int)
  from this [of "io_fd s w + 1"] have len: "uint len = io_fd s w + 1"
    using fd unfolding len_def by simp
  then have lenn: "unat len = nat (io_fd s w) + 1" using fd(1) by (simp add: unat_eq_nat_uint)
  obtain s2 where 2: "maybe_resize K len s1 = Some s2" "io_ok s2" "unat len \<le> unat (nwatchers s2)"
    "s2 = s1\<lparr>watchers := watchers s2, nwatchers := nwatchers s2, os := os s2\<rparr>"
    "len \<noteq> 0 \<Longrightarrow> watchers s2 \<noteq> None"
    by (rule maybe_resize_ok [OF ok1 _ mem, of len]) (use lenn fd in auto)
  have lnz: "len \<noteq> 0" using lenn by (metis One_nat_def add_eq_0_iff_both_eq_0 nat.distinct(1) unat_0)
  have "s2 = s\<lparr>io_pevents := (io_pevents s)(w := io_pevents s w OR events), watchers := watchers s2,
       nwatchers := nwatchers s2, os := os s2\<rparr>" by (subst 2(4)) (simp add: s1_def)
  moreover have "nat (io_fd s w) < unat (nwatchers s2)" using 2(3) lenn by simp
  ultimately show thesis using that 2(1,2) 2(5) [OF lnz] by (simp add: s1_def len_def)
qed

lemma io_start_run:
  assumes ok: "io_ok s" and ev: "events AND NOT POLL_ALL = 0" "events \<noteq> 0"
    and fd: "0 \<le> io_fd s w" "io_fd s w < 2 ^ 31 - 3" and mem: "\<And>n w. fst (k_realloc K n w)"
    and new: "io_events s w \<noteq> io_pevents s w OR events"
  shows "\<exists>s' x. uv__io_start K w events s = Some s' \<and> io_ok s' \<and> io_touched s s' \<and>
    qs s' = (if QUEUE_EMPTY (qs s) (NodeQ WatcherK w)
             then QUEUE_INSERT_TAIL (LoopQ WatcherK) (NodeQ WatcherK w) (qs s) else qs s) \<and>
    io_pevents s' w = io_pevents s w OR events \<and>
    watcher_at s' (io_fd s w) = Some (SWatch x) \<and> io_fd s' x = io_fd s w \<and> io_fd s' = io_fd s"
proof -
  obtain s2 where 2: "maybe_resize K (word_of_int (io_fd s w + 1))
      (s\<lparr>io_pevents := (io_pevents s)(w := io_pevents s w OR events)\<rparr>) = Some s2" "io_ok s2"
    "nat (io_fd s w) < unat (nwatchers s2)" "watchers s2 \<noteq> None"
    "s2 = s\<lparr>io_pevents := (io_pevents s)(w := io_pevents s w OR events), watchers := watchers s2,
       nwatchers := nwatchers s2, os := os s2\<rparr>"
    by (rule io_start_first [OF ok ev fd mem])
  obtain ws where ws: "watchers s2 = Some ws" using 2(4) by blast
  define i where "i = nat (io_fd s w)"
  have i: "i < unat (nwatchers s2)" "int i = io_fd s w" using 2(3) fd(1) by (simp_all add: i_def)
  note d = io_okD [OF 2(2) ws]
  have eqs: "qs s2 = qs s" "io_fd s2 = io_fd s" "io_events s2 = io_events s"
      "io_pevents s2 = (io_pevents s)(w := io_pevents s w OR events)"
    by (subst 2(5); simp)+
  define s3 where "s3 = s2\<lparr>qs := (if QUEUE_EMPTY (qs s2) (NodeQ WatcherK w)
      then QUEUE_INSERT_TAIL (LoopQ WatcherK) (NodeQ WatcherK w) (qs s2) else qs s2)\<rparr>"
  define s4 where "s4 = (if ws ! i = SNull
      then (set_watcher_at (io_fd s w) (SWatch w) s3)\<lparr>nfds := nfds s3 + 1\<rparr> else s3)"
  have run: "uv__io_start K w events s = Some s4"
  proof -
    have "(if QUEUE_EMPTY (qs s2) (NodeQ WatcherK w)
           then s2\<lparr>qs := QUEUE_INSERT_TAIL (LoopQ WatcherK) (NodeQ WatcherK w) (qs s2)\<rparr> else s2) = s3"
      by (simp add: s3_def)
    moreover have "watcher_at s3 (io_fd s w) = Some (ws ! i)"
      using ws i d(2) by (simp add: watcher_at_def s3_def i_def)
    moreover have "maybe_resize K (word_of_int (io_fd s w + 1))
       (s\<lparr>io_pevents := (io_pevents s)(w := io_pevents s w OR events)\<rparr>) = Some s2"
      by (rule 2(1))
    moreover have "io_fd s3 = io_fd s" by (simp add: s3_def eqs)
    ultimately show ?thesis
      using ev fd new unfolding uv__io_start_def Let_def
      by (simp add: eqs s4_def)
  qed
  have cnt: "unat (nfds s2 + 1) = unat (nfds s2) + 1"
    if "ws ! i = SNull"
  proof -
    have "card {j. j < unat (nwatchers s2) \<and> ws ! j \<noteq> SNull} \<le> card {j. j < unat (nwatchers s2)}"
      by (intro card_mono) auto
    then have "unat (nfds s2) + 2 \<le> 2 ^ 31" using d(1,3) by simp
    then show ?thesis by (simp add: unat_add_lem [THEN iffD1])
  qed
  have ok4: "io_ok s4"
  proof (cases "ws ! i = SNull")
    case False
    then show ?thesis using 2(2) ws by (simp add: s4_def s3_def io_ok_def io_cells_def)
  next
    case True
    have w4: "watchers s4 = Some (ws[i := SWatch w])"
      using True ws by (simp add: s4_def set_watcher_at_def s3_def i_def)
    show ?thesis
    proof (rule io_okI [OF _ w4])
      show "unat (nwatchers s4) + 2 \<le> 2 ^ 31" "length (ws[i := SWatch w]) = unat (nwatchers s4) + 2"
        using d(1,2) True by (simp_all add: s4_def s3_def set_watcher_at_def)
      have "{j. j < unat (nwatchers s2) \<and> ws[i := SWatch w] ! j \<noteq> SNull} =
          insert i {j. j < unat (nwatchers s2) \<and> ws ! j \<noteq> SNull}"
        using i(1) d(2) by (auto simp: nth_list_update)
      then show "unat (nfds s4) = card {j. j < unat (nwatchers s4) \<and> ws[i := SWatch w] ! j \<noteq> SNull}"
        using True cnt d(3) by (simp add: s4_def s3_def set_watcher_at_def)
      show "ws[i := SWatch w] ! j = SNull \<or> (\<exists>v. ws[i := SWatch w] ! j = SWatch v \<and> io_fd s4 v = int j \<and> io_pevents s4 v \<noteq> 0)"
        if "j < unat (nwatchers s4)" for j
      proof (cases "j = i")
        case True
        then show ?thesis using i d(2) ev(2) by (simp add: s4_def s3_def set_watcher_at_def eqs or_eq_0_iff)
      next
        case False
        then show ?thesis using that d(4) [of j] True by (simp add: s4_def s3_def set_watcher_at_def)
      qed
    qed
  qed
  have "\<exists>x. watcher_at s4 (io_fd s w) = Some (SWatch x) \<and> io_fd s4 x = io_fd s w"
  proof (cases "ws ! i = SNull")
    case True
    then show ?thesis using ws i d(2) by (simp add: s4_def s3_def set_watcher_at_def watcher_at_def i_def eqs)
  next
    case False
    then show ?thesis using d(4) [OF i(1)] ws i d(2) by (auto simp: s4_def s3_def watcher_at_def i_def)
  qed
  moreover have "qs s4 = qs s3" "io_fd s4 = io_fd s" "io_pevents s4 w = io_pevents s w OR events"
    by (simp_all add: s4_def s3_def set_watcher_at_def eqs)
  moreover have "qs s3 = (if QUEUE_EMPTY (qs s) (NodeQ WatcherK w)
      then QUEUE_INSERT_TAIL (LoopQ WatcherK) (NodeQ WatcherK w) (qs s) else qs s)"
    by (simp add: s3_def eqs(1))
  moreover have "io_touched s s4"
  proof -
    have "nfds s2 = nfds s" by (subst 2(5)) simp
    then have "io_touched s s2" unfolding io_touched_def by (subst 2(5)) (simp add: eqs)
    moreover have "io_touched s2 s3" by (simp add: io_touched_def s3_def)
    moreover have "io_touched s3 s4" by (simp add: io_touched_def s4_def set_watcher_at_def)
    ultimately show ?thesis by (blast intro: io_touched_trans)
  qed
  ultimately show ?thesis using run ok4 by metis
qed

lemma io_start_same:
  assumes ok: "io_ok s" and ev: "events AND NOT POLL_ALL = 0" "events \<noteq> 0"
    and fd: "0 \<le> io_fd s w" "io_fd s w < 2 ^ 31 - 3" and mem: "\<And>n w. fst (k_realloc K n w)"
    and same: "io_events s w = io_pevents s w OR events"
  shows "\<exists>s'. uv__io_start K w events s = Some s' \<and> io_ok s' \<and> io_touched s s' \<and>
    io_pevents s' w = io_pevents s w OR events"
proof -
  obtain s2 where 2: "maybe_resize K (word_of_int (io_fd s w + 1))
      (s\<lparr>io_pevents := (io_pevents s)(w := io_pevents s w OR events)\<rparr>) = Some s2" "io_ok s2"
    "nat (io_fd s w) < unat (nwatchers s2)" "watchers s2 \<noteq> None"
    "s2 = s\<lparr>io_pevents := (io_pevents s)(w := io_pevents s w OR events), watchers := watchers s2,
       nwatchers := nwatchers s2, os := os s2\<rparr>"
    by (rule io_start_first [OF ok ev fd mem])
  have eqs: "io_events s2 = io_events s" "io_pevents s2 = (io_pevents s)(w := io_pevents s w OR events)"
    "qs s2 = qs s" "nfds s2 = nfds s" by (subst 2(5); simp)+
  have "uv__io_start K w events s = Some s2"
    using ev fd same 2(1) unfolding uv__io_start_def Let_def by (simp add: eqs)
  moreover have "io_touched s s2" unfolding io_touched_def by (subst 2(5)) (simp add: eqs)
  ultimately show ?thesis using 2(2) eqs(2) by auto
qed

lemma io_start_total:
  assumes "io_ok s" "events AND NOT POLL_ALL = 0" "events \<noteq> 0" "0 \<le> io_fd s w" "io_fd s w < 2 ^ 31 - 3"
    "\<And>n w. fst (k_realloc K n w)"
  shows "\<exists>s'. uv__io_start K w events s = Some s' \<and> io_ok s' \<and> io_touched s s' \<and>
    io_pevents s' w = io_pevents s w OR events"
  using io_start_same [OF assms] io_start_run [OF assms] by blast

lemma io_start_ok:
  assumes ok: "io_ok s" and q: "queues (qs s) Q f" and l: "linked Q f w"
    and ev: "events AND NOT POLL_ALL = 0" "events \<noteq> 0"
    and fd: "0 \<le> io_fd s w" "io_fd s w < 2 ^ 31 - 3" and mem: "\<And>n w. fst (k_realloc K n w)"
    and new: "io_events s w \<noteq> io_pevents s w OR events"
  shows "\<exists>s' Q' f' x. uv__io_start K w events s = Some s' \<and> io_ok s' \<and> queues (qs s') Q' f' \<and>
    NodeQ WatcherK w \<in> set (f' (LoopQ WatcherK)) \<and> io_pevents s' w = io_pevents s w OR events \<and>
    watcher_at s' (io_fd s w) = Some (SWatch x) \<and> io_fd s' x = io_fd s w \<and> io_fd s' = io_fd s"
proof -
  obtain s' x where r: "uv__io_start K w events s = Some s'" "io_ok s'"
    "qs s' = (if QUEUE_EMPTY (qs s) (NodeQ WatcherK w)
             then QUEUE_INSERT_TAIL (LoopQ WatcherK) (NodeQ WatcherK w) (qs s) else qs s)"
    "io_pevents s' w = io_pevents s w OR events" "watcher_at s' (io_fd s w) = Some (SWatch x)"
    "io_fd s' x = io_fd s w" "io_fd s' = io_fd s"
    using io_start_run [OF ok ev fd mem new] by blast
  obtain Q' f' where "queues (qs s') Q' f'" "NodeQ WatcherK w \<in> set (f' (LoopQ WatcherK))"
    using link_ok [OF q l] unfolding r(3) by blast
  then show ?thesis using r by blast
qed

text \<open>The array as a map from descriptors to watchers.\<close>

definition watcher_of :: "('w, 'a) io_loop_scheme \<Rightarrow> int \<Rightarrow> addr option" where
  "watcher_of s fd = (if 0 \<le> fd \<and> fd < uint (nwatchers s)
     then (case watcher_at s fd of Some (SWatch x) \<Rightarrow> Some x | _ \<Rightarrow> None) else None)"

lemma maybe_resize_watcher_of:
  assumes ok: "io_ok s" and len: "unat len + 2 \<le> 2 ^ 31" and run: "maybe_resize K len s = Some s'"
  shows "watcher_of s' = watcher_of s"
proof (cases "len \<le> nwatchers s")
  case True
  then show ?thesis using run by (simp add: maybe_resize_def)
next
  case False
  define nw where "nw = next_power_of_two (len + 2) - 2"
  define old where "old = (case watchers s of None \<Rightarrow> [] | Some ws \<Rightarrow> ws)"
  define n where "n = unat (nwatchers s)"
  have l2: "unat (len + 2) = unat len + 2" using len by (simp add: unat_add_lem [THEN iffD1])
  obtain k where k: "k \<le> 31" "unat (next_power_of_two (len + 2)) = 2 ^ k" "unat len + 2 \<le> 2 ^ k"
    using next_power_of_two_spec [of "len + 2"] len l2 by auto
  have nw: "unat nw = 2 ^ k - 2" unfolding nw_def using k by (subst unat_sub) (auto simp: word_le_nat_alt)
  define m where "m = unat nw"
  have lt: "n < m" using False nw k(3) by (simp add: n_def m_def word_le_nat_alt)
  obtain x where ws: "watchers s' = Some (take n old @ replicate (m - n) SNull @ x)" and nwa: "nwatchers s' = nw"
    using run False unfolding maybe_resize_def Let_def nw_def [symmetric] old_def [symmetric]
    by (auto simp: sys_def n_def m_def split: if_splits prod.splits)
  have lo: "length (take n old) = n" using ok by (auto simp: old_def n_def io_ok_def split: option.splits)
  have u: "uint (nwatchers s') = int m" "uint (nwatchers s) = int n" by (simp_all add: nwa n_def m_def)
  have at': "watcher_at s' fd = Some (if nat fd < n then old ! nat fd else SNull)" if "0 \<le> fd" "fd < int m" for fd
  proof -
    have "nat fd < m" using that by linarith
    then show ?thesis using lo by (simp add: watcher_at_def ws nth_append) (auto simp: not_less)
  qed
  have at: "watcher_at s fd = Some (old ! nat fd)" if "0 \<le> fd" "fd < int n" for fd
  proof -
    have "nat fd < length old" using that lo by simp
    then show ?thesis by (cases "watchers s") (simp_all add: watcher_at_def old_def)
  qed
  show ?thesis
  proof
    fix fd
    consider "fd < 0 \<or> int m \<le> fd" | "0 \<le> fd" "fd < int n" | "int n \<le> fd" "fd < int m" by linarith
    then show "watcher_of s' fd = watcher_of s fd"
    proof cases
      case 1
      then show ?thesis using lt unfolding watcher_of_def u by auto
    next
      case 2
      then show ?thesis using lt at [of fd] at' [of fd] unfolding watcher_of_def u by auto
    next
      case 3
      then show ?thesis using at' [of fd] unfolding watcher_of_def u by auto
    qed
  qed
qed

text \<open>\<open>uv__io_start\<close> enters the watcher in the map, unless its descriptor has a watcher.\<close>

lemma io_start_watcher_of:
  assumes ok: "io_ok s" and ev: "events AND NOT POLL_ALL = 0" "events \<noteq> 0"
    and fd: "0 \<le> io_fd s w" "io_fd s w < 2 ^ 31 - 3" and mem: "\<And>n w. fst (k_realloc K n w)"
    and run: "uv__io_start K w events s = Some s'"
  shows "if io_events s w = io_pevents s w OR events
    then watcher_of s' = watcher_of s \<and> qs s' = qs s \<and> nfds s' = nfds s \<and> io_fd s' = io_fd s
    else watcher_of s' = (watcher_of s)(io_fd s w := Some (case watcher_of s (io_fd s w) of None \<Rightarrow> w | Some x \<Rightarrow> x)) \<and>
      nfds s' = (if watcher_of s (io_fd s w) = None then nfds s + 1 else nfds s)"
proof -
  define s1 where "s1 = s\<lparr>io_pevents := (io_pevents s)(w := io_pevents s w OR events)\<rparr>"
  obtain s2 where 2: "maybe_resize K (word_of_int (io_fd s w + 1)) s1 = Some s2" "io_ok s2"
    "nat (io_fd s w) < unat (nwatchers s2)" "watchers s2 \<noteq> None"
    "s2 = s\<lparr>io_pevents := (io_pevents s)(w := io_pevents s w OR events), watchers := watchers s2,
       nwatchers := nwatchers s2, os := os s2\<rparr>"
    unfolding s1_def by (rule io_start_first [OF ok ev fd mem])
  have eqs: "qs s2 = qs s" "io_fd s2 = io_fd s" "io_events s2 = io_events s" "nfds s2 = nfds s"
      "io_pevents s2 = (io_pevents s)(w := io_pevents s w OR events)"
    by (subst 2(5); simp)+
  have ok1: "io_ok s1"
  proof -
    have pv: "io_pevents s1 v \<noteq> 0" if "io_pevents s v \<noteq> 0" for v
      using that ev(2) by (simp add: s1_def or_eq_0_iff)
    have same: "io_fd s1 = io_fd s" "nwatchers s1 = nwatchers s" by (simp_all add: s1_def)
    have "io_cells s1 ws" if "io_cells s ws" for ws
      using that pv unfolding io_cells_def same by metis
    then show ?thesis using ok by (cases "watchers s") (simp_all add: io_ok_def s1_def)
  qed
  have len1: "unat (word_of_int (io_fd s w + 1) :: u32) + 2 \<le> 2 ^ 31"
  proof -
    have "uint (word_of_int v :: u32) = v" if "0 \<le> v" "v < 2 ^ 31" for v
      using that by (simp add: uint_word_of_int)
    from this [of "io_fd s w + 1"] have "int (unat (word_of_int (io_fd s w + 1) :: u32)) = io_fd s w + 1"
      using fd by simp
    then have "int (unat (word_of_int (io_fd s w + 1) :: u32) + 2) \<le> int (2 ^ 31)" using fd(2) by simp
    then show ?thesis by (simp only: of_nat_le_iff)
  qed
  have "watcher_of s2 = watcher_of s1" by (rule maybe_resize_watcher_of [OF ok1 len1 2(1)])
  moreover have "watcher_of s1 = watcher_of s" by (simp add: fun_eq_iff watcher_of_def watcher_at_def s1_def)
  ultimately have w2: "watcher_of s2 = watcher_of s" by simp
  obtain ws where ws: "watchers s2 = Some ws" using 2(4) by blast
  define i where "i = nat (io_fd s w)"
  have i: "i < unat (nwatchers s2)" "int i = io_fd s w" using 2(3) fd(1) by (simp_all add: i_def)
  note d = io_okD [OF 2(2) ws]
  have at: "watcher_at s2 (io_fd s w) = Some (ws ! i)" using ws i d(2) by (simp add: watcher_at_def i_def)
  have inb: "0 \<le> io_fd s w" "io_fd s w < uint (nwatchers s2)"
  proof -
    have "int i < int (unat (nwatchers s2))" using i(1) by (simp only: of_nat_less_iff)
    then show "io_fd s w < uint (nwatchers s2)" using i(2) by simp
  qed (rule fd(1))
  have cell: "watcher_of s (io_fd s w) = (case ws ! i of SWatch x \<Rightarrow> Some x | _ \<Rightarrow> None)"
    unfolding w2 [symmetric] by (simp add: watcher_of_def at inb)
  have kind: "ws ! i = SNull \<or> (\<exists>x. ws ! i = SWatch x)" using d(4) [OF i(1)] by blast
  show ?thesis
  proof (cases "io_events s w = io_pevents s w OR events")
    case True
    then have "s' = s2" using run 2(1) ev fd unfolding uv__io_start_def Let_def s1_def by (simp add: eqs)
    then show ?thesis using True w2 eqs by simp
  next
    case False
    define s3 where "s3 = (if QUEUE_EMPTY (qs s2) (NodeQ WatcherK w)
        then s2\<lparr>qs := QUEUE_INSERT_TAIL (LoopQ WatcherK) (NodeQ WatcherK w) (qs s2)\<rparr> else s2)"
    have at3: "watcher_at s3 = watcher_at s2" "nwatchers s3 = nwatchers s2" "watchers s3 = watchers s2" "nfds s3 = nfds s"
      by (simp_all add: s3_def watcher_at_def fun_eq_iff eqs)
    have fd3: "io_fd s3 = io_fd s" by (simp add: s3_def eqs)
    have s': "s' = (if ws ! i = SNull then (set_watcher_at (io_fd s w) (SWatch w) s3)\<lparr>nfds := nfds s3 + 1\<rparr> else s3)"
    proof -
      have p2: "io_events s2 w \<noteq> io_pevents s2 w" using False by (simp add: eqs)
      have "uv__io_start K w events s = Some (if ws ! i = SNull then (set_watcher_at (io_fd s w) (SWatch w) s3)\<lparr>nfds := nfds s3 + 1\<rparr> else s3)"
        using ev fd at 2(1) p2 unfolding uv__io_start_def Let_def s1_def s3_def [symmetric]
        by (simp add: s3_def [symmetric] at3 fd3)
      then show ?thesis using run by simp
    qed
    show ?thesis
    proof (cases "ws ! i = SNull")
      case True
      have "watcher_at s' k = (if nat k = i then Some (SWatch w) else watcher_at s2 k)" for k
        using True i d(2) ws by (auto simp: s' watcher_at_def set_watcher_at_def at3 i_def)
      then have "watcher_of s' k = (if k = io_fd s w then Some w else watcher_of s2 k)" for k
        using inb i(2) True by (auto simp: watcher_of_def s' set_watcher_at_def at3)
      then show ?thesis using False True cell w2 by (auto simp: s' set_watcher_at_def at3)
    next
      case False
      then obtain x where x: "ws ! i = SWatch x" using kind by blast
      have "watcher_of s' k = watcher_of s2 k" for k using False by (simp add: s' watcher_of_def at3)
      then have "watcher_of s' = watcher_of s" using w2 by (simp add: fun_eq_iff)
      then show ?thesis using \<open>io_events s w \<noteq> _\<close> False x cell by (auto simp: s' at3)
    qed
  qed
qed


lemma io_stop_run:
  assumes ok: "io_ok s" and ev: "events AND NOT POLL_ALL = 0" "events \<noteq> 0"
    and fd: "0 \<le> io_fd s w" "io_fd s w < uint (nwatchers s)"
  shows "\<exists>s'. uv__io_stop w events s = Some s' \<and> io_ok s' \<and> io_touched s s' \<and>
    io_pevents s' w = io_pevents s w AND NOT events \<and> io_fd s' = io_fd s \<and>
    (if io_pevents s' w = 0
     then qs s' = QUEUE_INIT (NodeQ WatcherK w) (QUEUE_REMOVE (NodeQ WatcherK w) (qs s)) \<and>
       watcher_at s' (io_fd s w) \<noteq> Some (SWatch w) \<and> io_events s' w = 0
     else qs s' = (if QUEUE_EMPTY (qs s) (NodeQ WatcherK w)
        then QUEUE_INSERT_TAIL (LoopQ WatcherK) (NodeQ WatcherK w) (qs s) else qs s))"
proof -
  define p where "p = io_pevents s w AND NOT events"
  define s1 where "s1 = s\<lparr>io_pevents := (io_pevents s)(w := p)\<rparr>"
  define i where "i = nat (io_fd s w)"
  have i: "i < unat (nwatchers s)" "int i = io_fd s w" using fd by (auto simp only: i_def unat_eq_nat_uint nat_mono_iff int_nat_eq if_True zless_nat_eq_int_zless)
  then obtain ws where ws: "watchers s = Some ws" using ok by (cases "watchers s") (auto simp: io_ok_def)
  have c: "io_fd s w \<noteq> -1" "\<not> uint (nwatchers s) \<le> io_fd s w" using fd by simp_all
  note d = io_okD [OF ok ws]
  show ?thesis
  proof (cases "p = 0")
    case False
    define s2 where "s2 = s1\<lparr>qs := (if QUEUE_EMPTY (qs s1) (NodeQ WatcherK w)
      then QUEUE_INSERT_TAIL (LoopQ WatcherK) (NodeQ WatcherK w) (qs s1) else qs s1)\<rparr>"
    have run: "uv__io_stop w events s = Some s2"
      unfolding uv__io_stop_def s2_def s1_def Let_def using ev fd(1) c False by (simp add: p_def [symmetric])
    have "io_ok s2"
    proof (rule io_okI [where ws = ws])
      show "ws ! j = SNull \<or> (\<exists>v. ws ! j = SWatch v \<and> io_fd s2 v = int j \<and> io_pevents s2 v \<noteq> 0)"
        if "j < unat (nwatchers s2)" for j
      proof -
        have "io_fd s2 = io_fd s" "j < unat (nwatchers s)" using that by (simp_all add: s2_def s1_def)
        moreover have "io_pevents s v \<noteq> 0 \<longrightarrow> io_pevents s2 v \<noteq> 0" for v
          using False by (simp add: s2_def s1_def)
        ultimately show ?thesis using d(4) [of j] by metis
      qed
    qed (use d ws in \<open>simp_all add: s2_def s1_def\<close>)
    moreover have "qs s2 = (if QUEUE_EMPTY (qs s) (NodeQ WatcherK w)
        then QUEUE_INSERT_TAIL (LoopQ WatcherK) (NodeQ WatcherK w) (qs s) else qs s)"
      by (simp add: s2_def s1_def)
    moreover have "io_touched s s2" by (simp add: io_touched_def s2_def s1_def)
    moreover have "io_pevents s2 w = p" "io_fd s2 = io_fd s" by (simp_all add: s2_def s1_def)
    ultimately show ?thesis using run False
      by (intro exI [of _ s2]) (simp add: p_def)
  next
    case True
    let ?x = "NodeQ WatcherK w" and ?L = "LoopQ WatcherK"
    define s2 where "s2 = s1\<lparr>qs := QUEUE_INIT ?x (QUEUE_REMOVE ?x (qs s1)), io_events := (io_events s1)(w := 0)\<rparr>"
    define s3 where "s3 = (if ws ! i = SWatch w then (set_watcher_at (io_fd s w) SNull s2)\<lparr>nfds := nfds s2 - 1\<rparr> else s2)"
    have at: "watcher_at s2 (io_fd s w) = Some (ws ! i)"
      using ws i d(2) by (simp add: watcher_at_def s2_def s1_def i_def)
    have mem: "i \<in> {j. j < unat (nwatchers s) \<and> ws ! j \<noteq> SNull}" if "ws ! i = SWatch w" using that i by simp
    have pos: "nfds s > 0" if "ws ! i = SWatch w"
    proof -
      have "0 < card {j. j < unat (nwatchers s) \<and> ws ! j \<noteq> SNull}"
        using mem [OF that] by (subst card_gt_0_iff) auto
      then have "0 < unat (nfds s)" by (simp only: d(3))
      then show ?thesis by (simp only: unat_gt_0 word_neq_0_conv)
    qed
    have run: "uv__io_stop w events s = Some s3"
      using ev fd(1) c True at pos unfolding uv__io_stop_def s3_def Let_def s2_def s1_def
      by (simp add: p_def [symmetric])
    have qq: "qs s3 = QUEUE_INIT ?x (QUEUE_REMOVE ?x (qs s))"
      by (simp add: s3_def s2_def s1_def set_watcher_at_def)
    have tc: "io_touched s s3" by (simp add: io_touched_def s3_def s2_def s1_def set_watcher_at_def)
    have other: "io_pevents s3 v = io_pevents s v" if "v \<noteq> w" for v
      using that by (simp add: s3_def s2_def s1_def set_watcher_at_def)
    have fr: "io_fd s3 = io_fd s" "nwatchers s3 = nwatchers s" "io_pevents s3 w = p" "io_events s3 w = 0"
      by (simp_all add: s3_def s2_def s1_def set_watcher_at_def)
    have ok3: "io_ok s3"
    proof (cases "ws ! i = SWatch w")
      case here: True
      have w3: "watchers s3 = Some (ws[i := SNull])"
        using here ws by (simp add: s3_def s2_def s1_def set_watcher_at_def i_def)
      have cells: "{j. j < unat (nwatchers s) \<and> ws[i := SNull] ! j \<noteq> SNull} = {j. j < unat (nwatchers s) \<and> ws ! j \<noteq> SNull} - {i}"
        using i(1) d(2) by (auto simp: nth_list_update split: if_splits)
      show ?thesis
      proof (rule io_okI [OF _ w3])
        show "unat (nfds s3) = card {j. j < unat (nwatchers s3) \<and> ws[i := SNull] ! j \<noteq> SNull}"
          unfolding fr cells using here pos [OF here] d(3) mem [OF here]
          by (simp add: s3_def s2_def s1_def set_watcher_at_def unat_minus_one word_neq_0_conv)
        show "ws[i := SNull] ! j = SNull \<or> (\<exists>v. ws[i := SNull] ! j = SWatch v \<and> io_fd s3 v = int j \<and> io_pevents s3 v \<noteq> 0)"
          if "j < unat (nwatchers s3)" for j
        proof (cases "j = i")
          case True
          then show ?thesis using i d(2) by simp
        next
          case False
          then have "ws ! j \<noteq> SWatch w" if "io_fd s w = int j" using that i(2) by simp
          then show ?thesis using that d(4) [of j] False other fr by (metis nth_list_update_neq)
        qed
      qed (use d fr in simp_all)
    next
      case nhere: False
      show ?thesis
      proof (rule io_okI [where ws = ws])
        show "ws ! j = SNull \<or> (\<exists>v. ws ! j = SWatch v \<and> io_fd s3 v = int j \<and> io_pevents s3 v \<noteq> 0)"
          if "j < unat (nwatchers s3)" for j
        proof -
          have "ws ! j \<noteq> SWatch w" if "io_fd s w = int j"
            using nhere that i(2) by simp
          then show ?thesis using that d(4) [of j] other fr by metis
        qed
      qed (use d fr nhere ws in \<open>simp_all add: s3_def s2_def s1_def\<close>)
    qed
    have "watcher_at s3 (io_fd s w) \<noteq> Some (SWatch w)"
      using at i d(2) ws by (cases "ws ! i = SWatch w") (auto simp: s3_def set_watcher_at_def watcher_at_def i_def s2_def s1_def)
    then show ?thesis
      using run ok3 qq tc fr True by (intro exI [of _ s3]) (simp add: p_def)
  qed
qed


lemma io_stop_ok:
  assumes ok: "io_ok s" and q: "queues (qs s) Q f" and l: "linked Q f w"
    and ev: "events AND NOT POLL_ALL = 0" "events \<noteq> 0"
    and fd: "0 \<le> io_fd s w" "io_fd s w < uint (nwatchers s)"
  shows "\<exists>s' Q' f'. uv__io_stop w events s = Some s' \<and> io_ok s' \<and> queues (qs s') Q' f' \<and> linked Q' f' w \<and>
    io_pevents s' w = io_pevents s w AND NOT events \<and> io_fd s' = io_fd s \<and>
    (if io_pevents s' w = 0 then NodeQ WatcherK w \<notin> set (f' (LoopQ WatcherK)) \<and>
       watcher_at s' (io_fd s w) \<noteq> Some (SWatch w) \<and> io_events s' w = 0
     else NodeQ WatcherK w \<in> set (f' (LoopQ WatcherK)))"
proof -
  obtain s' where r: "uv__io_stop w events s = Some s'" "io_ok s'"
    "io_pevents s' w = io_pevents s w AND NOT events" "io_fd s' = io_fd s"
    "if io_pevents s' w = 0
     then qs s' = QUEUE_INIT (NodeQ WatcherK w) (QUEUE_REMOVE (NodeQ WatcherK w) (qs s)) \<and>
       watcher_at s' (io_fd s w) \<noteq> Some (SWatch w) \<and> io_events s' w = 0
     else qs s' = (if QUEUE_EMPTY (qs s) (NodeQ WatcherK w)
        then QUEUE_INSERT_TAIL (LoopQ WatcherK) (NodeQ WatcherK w) (qs s) else qs s)"
    using io_stop_run [OF ok ev fd] by blast
  show ?thesis
  proof (cases "io_pevents s' w = 0")
    case False
    then have qs: "qs s' = (if QUEUE_EMPTY (qs s) (NodeQ WatcherK w)
        then QUEUE_INSERT_TAIL (LoopQ WatcherK) (NodeQ WatcherK w) (qs s) else qs s)" using r(5) by simp
    obtain Q' f' where "queues (qs s') Q' f'" "NodeQ WatcherK w \<in> set (f' (LoopQ WatcherK))" "linked Q' f' w"
      using link_ok [OF q l] unfolding qs by blast
    then show ?thesis using r(1-4) False by (intro exI [of _ s'] exI [of _ Q'] exI [of _ f']) simp
  next
    case True
    let ?x = "NodeQ WatcherK w" and ?L = "LoopQ WatcherK"
    have qq: "queues (qs s') (insert ?x Q) (f(?L := remove1 ?x (f ?L), ?x := []))"
      using unlink_ok [OF q l] r(5) True by simp
    have L: "?L \<in> Q" using l by (simp add: linked_def)
    then have "distinct (f ?L)" using qs.distinct_law [OF q] by fastforce
    then show ?thesis using r qq L True
      by (intro exI [of _ s'] exI [of _ "insert ?x Q"] exI [of _ "f(?L := remove1 ?x (f ?L), ?x := [])"])
         (simp add: linked_def)
  qed
qed

text \<open>A watcher whose descriptor is beyond the array, or is none, waits for nothing.\<close>

lemma io_stop_total:
  assumes "io_ok s" "events AND NOT POLL_ALL = 0" "events \<noteq> 0" "io_fd s w \<ge> -1"
  shows "\<exists>s'. uv__io_stop w events s = Some s' \<and> io_ok s' \<and> io_touched s s' \<and>
    (0 \<le> io_fd s w \<and> io_fd s w < uint (nwatchers s) \<longrightarrow> io_pevents s' w = io_pevents s w AND NOT events)"
proof (cases "0 \<le> io_fd s w \<and> io_fd s w < uint (nwatchers s)")
  case True
  then show ?thesis using io_stop_run [OF assms(1-3)] by blast
next
  case False
  then have "uv__io_stop w events s = Some s" using assms by (auto simp: uv__io_stop_def)
  then show ?thesis using assms(1) False by (auto simp: io_touched_def)
qed

section \<open>Properties\<close>

text \<open>A kernel that grants every allocation, and a loop with one idle watcher, at 7, for descriptor 5.\<close>

definition demo_io_kernel :: "fd_table io_kernel" where
  "demo_io_kernel = fd_kernel.extend demo_kernel
     (io_kernel.fields (\<lambda>_ w. (True, w)) (\<lambda>w. (7000000, w)) demo_open demo_open (\<lambda>_ _ _ _ _ w. (Inr (), w))
        (\<lambda>_ _ _ w. (Inr [], w)) (\<lambda>_ _ _ w. (Inr [], w)) (\<lambda>_ w. (Inr (), w)) demo_open
        (\<lambda>_ s w. (Inr (length s), w)))"

definition demo_io_loop :: "fd_table io_loop" where
  "demo_io_loop = watcher_loop.extend (empty_watcher_loop ())
     (io_loop.fields (\<lambda>_. UV__STREAM_IO) (\<lambda>_. 5) (\<lambda>_. 0) (\<lambda>_. 0) None 0 0 3 0 0 [] 0 0
        \<lparr>open_fds = [3, 5], status_flags = \<lambda>_. 0\<rparr>)"

lemma demo_io_facts:
  "io_ok demo_io_loop" "queues (qs demo_io_loop) {LoopQ WatcherK, NodeQ WatcherK 7} (\<lambda>_. [])"
  "linked {LoopQ WatcherK, NodeQ WatcherK 7} (\<lambda>_. []) 7" "fst (k_realloc demo_io_kernel n w)"
  by (auto simp: io_ok_def demo_io_loop_def watcher_loop.defs io_loop.defs empty_watcher_loop_def queues_def
    queue_at_Nil qcell_def linked_def demo_io_kernel_def fd_kernel.defs io_kernel.defs)

text \<open>
  \<open>next_power_of_two\<close> is, for every argument from 1 to \<open>2 ^ 31\<close>, the least power of two that is
  not smaller.
\<close>

theorem next_power_of_two_least:
  assumes "1 \<le> unat v" and "unat v \<le> 2 ^ 31"
  shows "\<exists>k. unat (next_power_of_two v) = 2 ^ k \<and> unat v \<le> 2 ^ k \<and> (\<forall>j. unat v \<le> 2 ^ j \<longrightarrow> (2 :: nat) ^ k \<le> 2 ^ j)"
proof -
  obtain k where k: "unat (next_power_of_two v) = 2 ^ k" "unat v \<le> 2 ^ k" "k = 0 \<or> 2 ^ (k - 1) < unat v"
    using next_power_of_two_spec [OF assms] by blast
  have "(2 :: nat) ^ k \<le> 2 ^ j" if "unat v \<le> 2 ^ j" for j
  proof (cases "k = 0")
    case False
    then have "(2 :: nat) ^ (k - 1) < unat v" using k(3) by blast
    then have "(2 :: nat) ^ (k - 1) < 2 ^ j" using that by (rule less_le_trans)
    then have "k - 1 < j" by (rule power_less_imp_less_exp [rotated]) simp
    then show ?thesis by (intro power_increasing) auto
  qed simp
  then show ?thesis using k(1,2) by blast
qed

theorem next_power_of_two_least_witness: "unat (next_power_of_two 5) = 8"
proof -
  obtain k where k: "unat (next_power_of_two 5) = 2 ^ k" "(5 :: nat) \<le> 2 ^ k"
      "\<forall>j. (5 :: nat) \<le> 2 ^ j \<longrightarrow> (2 :: nat) ^ k \<le> 2 ^ j"
    using next_power_of_two_least [of 5] by auto
  have "(2 :: nat) ^ k \<le> 2 ^ 3" using k(3) [rule_format, of 3] by simp
  then have "k \<le> 3" by (rule power_le_imp_le_exp [rotated]) simp
  then have "k = 0 \<or> k = 1 \<or> k = 2 \<or> k = 3" by linarith
  then show ?thesis using k(1,2) by auto
qed

text \<open>
  C34: \<open>uv__io_start\<close> on a watcher with a valid descriptor, wherever its link is, returns when the
  allocator does, keeps the invariant of the array - which makes \<open>nfds\<close> the number of its cells in use - and makes
  the watcher wait for the new events too.  If this is what epoll has already been told, nothing else changes.
  Otherwise the watcher is in the queue of those to be handed to epoll, and it is in the cell of its descriptor if that
  cell was free; if another watcher was in it, that one stays (the code has no test for this), and the
  other cells are those of before.
\<close>

theorem io_start_registers:
  assumes "io_ok s" and "queues (qs s) Q f" and "linked Q f w"
    and "events AND NOT POLL_ALL = 0" and "events \<noteq> 0"
    and "0 \<le> io_fd s w" and "io_fd s w < 2 ^ 31 - 3" and "\<And>n v. fst (k_realloc K n v)"
  shows "\<exists>s' Q' f'. uv__io_start K w events s = Some s' \<and> io_ok s' \<and> queues (qs s') Q' f' \<and>
    io_pevents s' w = io_pevents s w OR events \<and> io_fd s' = io_fd s \<and>
    (if io_events s w = io_pevents s w OR events
     then qs s' = qs s \<and> watcher_of s' = watcher_of s \<and> nfds s' = nfds s
     else NodeQ WatcherK w \<in> set (f' (LoopQ WatcherK)) \<and>
       watcher_of s' = (watcher_of s)(io_fd s w := Some (case watcher_of s (io_fd s w) of None \<Rightarrow> w | Some x \<Rightarrow> x)) \<and>
       nfds s' = (if watcher_of s (io_fd s w) = None then nfds s + 1 else nfds s))"
proof (cases "io_events s w = io_pevents s w OR events")
  case True
  obtain s' where s': "uv__io_start K w events s = Some s'" "io_ok s'" "io_pevents s' w = io_pevents s w OR events"
    using io_start_same [OF assms(1,4-8) True] by blast
  then show ?thesis using io_start_watcher_of [OF assms(1,4-8) s'(1)] True assms(2)
    by (intro exI [of _ s'] exI [of _ Q] exI [of _ f]) simp
next
  case False
  obtain s' Q' f' where s': "uv__io_start K w events s = Some s'" "io_ok s'" "queues (qs s') Q' f'"
    "NodeQ WatcherK w \<in> set (f' (LoopQ WatcherK))" "io_pevents s' w = io_pevents s w OR events" "io_fd s' = io_fd s"
    using io_start_ok [OF assms False] by blast
  then show ?thesis using io_start_watcher_of [OF assms(1,4-8) s'(1)] False
    by (intro exI [of _ s'] exI [of _ Q'] exI [of _ f']) simp
qed

theorem io_start_registers_witness:
  "\<exists>s'. uv__io_start demo_io_kernel 7 POLLIN demo_io_loop = Some s' \<and> io_ok s' \<and>
    watcher_of s' 5 = Some 7 \<and> nfds s' = 1"
proof -
  have "io_fd demo_io_loop 7 = 5" "io_events demo_io_loop 7 = 0" "nfds demo_io_loop = 0" "watcher_of demo_io_loop 5 = None"
    by (simp_all add: demo_io_loop_def watcher_loop.defs io_loop.defs watcher_of_def)
  then show ?thesis
    using io_start_registers [OF demo_io_facts(1-3), of POLLIN demo_io_kernel] demo_io_facts(4)
    by (fastforce simp: or_eq_0_iff)
qed

text \<open>
  \<open>uv__io_stop\<close> on a watcher whose descriptor has a cell returns (the assertion on \<open>nfds\<close>
  holds) and keeps the invariant; a watcher that waits for nothing any more is out of the queue
  and out of the array, another one is in the queue, to be handed to epoll again.
\<close>

theorem io_stop_removes:
  assumes "io_ok s" and "queues (qs s) Q f" and "linked Q f w"
    and "events AND NOT POLL_ALL = 0" and "events \<noteq> 0"
    and "0 \<le> io_fd s w" and "io_fd s w < uint (nwatchers s)"
  shows "\<exists>s' Q' f'. uv__io_stop w events s = Some s' \<and> io_ok s' \<and> queues (qs s') Q' f' \<and> linked Q' f' w \<and>
    io_pevents s' w = io_pevents s w AND NOT events \<and> io_fd s' = io_fd s \<and>
    (if io_pevents s' w = 0 then NodeQ WatcherK w \<notin> set (f' (LoopQ WatcherK)) \<and>
       watcher_at s' (io_fd s w) \<noteq> Some (SWatch w) \<and> io_events s' w = 0
     else NodeQ WatcherK w \<in> set (f' (LoopQ WatcherK)))"
  by (rule io_stop_ok [OF assms])

definition full_io_loop :: "fd_table io_loop" where
  "full_io_loop = demo_io_loop\<lparr>watchers := Some (replicate 5 SNull @ [SWatch 7, SNull, SNull]),
     nwatchers := 6, nfds := 1, io_pevents := (\<lambda>_. POLLIN)\<rparr>"

theorem io_stop_removes_witness:
  "\<exists>s'. uv__io_stop 7 POLL_ALL full_io_loop = Some s' \<and> io_ok s' \<and> watcher_at s' 5 \<noteq> Some (SWatch 7)"
proof -
  have fd: "io_fd full_io_loop 7 = 5"
    by (simp add: full_io_loop_def demo_io_loop_def watcher_loop.defs io_loop.defs)
  have cell: "(replicate 5 SNull @ [SWatch 7, SNull, SNull]) ! i = (if i = 5 then SWatch 7 else SNull)"
    if "i < 6" for i using that by (auto simp: nth_append nth_Cons' less_Suc_eq numeral_eq_Suc)
  have "{i. i < 6 \<and> (replicate 5 SNull @ [SWatch 7, SNull, SNull]) ! i \<noteq> SNull} = {5}"
    by (auto simp: cell split: if_splits)
  then have "io_ok full_io_loop"
    by (intro io_okI [where ws = "replicate 5 SNull @ [SWatch 7, SNull, SNull]"])
       (auto simp: full_io_loop_def demo_io_loop_def watcher_loop.defs io_loop.defs cell)
  moreover have "queues (qs full_io_loop) {LoopQ WatcherK, NodeQ WatcherK 7} (\<lambda>_. [])"
    using demo_io_facts(2) by (simp add: full_io_loop_def)
  ultimately obtain s' where s': "uv__io_stop 7 POLL_ALL full_io_loop = Some s'" "io_ok s'"
    "io_pevents s' 7 = io_pevents full_io_loop 7 AND NOT POLL_ALL"
    "io_pevents s' 7 = 0 \<longrightarrow> watcher_at s' 5 \<noteq> Some (SWatch 7)"
    using io_stop_removes [of full_io_loop "{LoopQ WatcherK, NodeQ WatcherK 7}" "\<lambda>_. []" 7 POLL_ALL]
      demo_io_facts(3) fd by (auto simp: full_io_loop_def split: if_splits)
  then show ?thesis by (simp add: full_io_loop_def)
qed

end
