(* ===== verification/Poll.thy ===== *)
theory Poll
  imports IoLoop
begin

text \<open>
  src/unix/epoll.c: \<open>uv__epoll_init\<close>, \<open>uv__io_check_fd\<close> and \<open>uv__io_poll\<close>, with the metrics functions
  of src/uv-common.c that \<open>uv__io_poll\<close> calls.  The two statics \<open>no_epoll_wait_cached\<close> and
  \<open>no_epoll_pwait_cached\<close> are fields of the state; the local copies of them always agree with them.
  The build is one with a 64 bit \<open>long\<close>, so the cap of the timeout is not in force.  \<open>run_io\<close> calls
  the callback of a watcher.

  The lemmas show that the first loop of \<open>uv__io_poll\<close> hands every queued watcher to epoll and
  empties the queue, unless epoll refuses a descriptor, and that a poll that does not block returns.
\<close>

record 'w poll_loop = "'w io_loop" +
  no_epoll_wait :: bool
  no_epoll_pwait :: bool

text \<open>The addresses of the watchers and handles that are fields of the loop itself.\<close>

abbreviation signal_io_watcher :: addr where "signal_io_watcher \<equiv> 1"
abbreviation async_io_watcher :: addr where "async_io_watcher \<equiv> 2"
abbreviation child_watcher :: addr where "child_watcher \<equiv> 3"
abbreviation wq_async :: addr where "wq_async \<equiv> 4"

type_synonym ('w, 'a) run_io =
  "io_callback \<Rightarrow> addr \<Rightarrow> u32 \<Rightarrow> ('w, 'a) poll_loop_scheme \<Rightarrow> ('w, 'a) poll_loop_scheme option"

section \<open>Setting up\<close>

definition uv__epoll_init ::
  "'w io_kernel \<Rightarrow> ('w, 'a) io_loop_scheme \<Rightarrow> ((uv_errno + unit) \<times> ('w, 'a) io_loop_scheme) option" where
  "uv__epoll_init K s =
     (case sys (k_epoll_create1 K) s of
        (Inr fd, s) \<Rightarrow> Some (Inr (), s\<lparr>backend_fd := fd\<rparr>)
      | (Inl e, s) \<Rightarrow>
          if e = UV_ENOSYS \<or> e = UV_EINVAL then
            (case sys (k_epoll_create K) s of
               (Inr fd, s) \<Rightarrow> do {
                 (_, s) \<leftarrow> sys_prog (uv__cloexec (fd_kernel.truncate K) fd True) s;
                 Some (Inr (), s\<lparr>backend_fd := fd\<rparr>) }
             | (Inl e, s) \<Rightarrow> Some (Inl e, s\<lparr>backend_fd := -1\<rparr>))
          else Some (Inl e, s\<lparr>backend_fd := -1\<rparr>))"

definition uv__io_check_fd ::
  "'w io_kernel \<Rightarrow> int \<Rightarrow> ('w, 'a) io_loop_scheme \<Rightarrow> ((uv_errno + unit) \<times> ('w, 'a) io_loop_scheme) option" where
  "uv__io_check_fd K fd s =
     (case sys (k_epoll_ctl K (backend_fd s) EPOLL_CTL_ADD fd POLLIN (-1)) s of
        (r, s) \<Rightarrow>
          let rc = (case r of Inl e \<Rightarrow> if e \<noteq> UV_EEXIST then Inl e else Inr () | Inr _ \<Rightarrow> Inr ())
          in if rc = Inr () then
               (case sys (k_epoll_ctl K (backend_fd s) EPOLL_CTL_DEL fd POLLIN (-1)) s of
                  (d, s) \<Rightarrow> do { uv_assert (d = Inr ()); Some (rc, s) })
             else Some (rc, s))"

section \<open>Metrics\<close>

definition uv__metrics_update_idle_time ::
  "'w io_kernel \<Rightarrow> ('w, 'a) io_loop_scheme \<Rightarrow> ('w, 'a) io_loop_scheme" where
  "uv__metrics_update_idle_time K s =
     (if internal_flags s AND UV_METRICS_IDLE_TIME = 0 then s
      else if provider_entry_time s = 0 then s
      else case sys (k_hrtime K) s of
        (exit_time, s) \<Rightarrow>
          let entry_time = provider_entry_time s
          in s\<lparr>provider_entry_time := 0,
               provider_idle_time := provider_idle_time s + (exit_time - entry_time)\<rparr>)"

definition uv__metrics_set_provider_entry_time ::
  "'w io_kernel \<Rightarrow> ('w, 'a) io_loop_scheme \<Rightarrow> ('w, 'a) io_loop_scheme" where
  "uv__metrics_set_provider_entry_time K s =
     (if internal_flags s AND UV_METRICS_IDLE_TIME = 0 then s
      else case sys (k_hrtime K) s of (now, s) \<Rightarrow> s\<lparr>provider_entry_time := now\<rparr>)"

definition uv_metrics_idle_time ::
  "'w io_kernel \<Rightarrow> ('w, 'a) io_loop_scheme \<Rightarrow> u64 \<times> ('w, 'a) io_loop_scheme" where
  "uv_metrics_idle_time K s =
     (let idle_time = provider_idle_time s;
          entry_time = provider_entry_time s
      in if entry_time > 0 then
           (case sys (k_hrtime K) s of (now, s) \<Rightarrow> (idle_time + (now - entry_time), s))
         else (idle_time, s))"

section \<open>uv__io_poll\<close>

subsection \<open>Registering the queued watchers\<close>

definition register_watcher ::
  "'w io_kernel \<Rightarrow> addr \<Rightarrow> ('w, 'a) poll_loop_scheme \<Rightarrow> ('w, 'a) poll_loop_scheme option" where
  "register_watcher K w s = do {
     uv_assert (io_pevents s w \<noteq> 0);
     uv_assert (io_fd s w \<ge> 0);
     uv_assert (io_fd s w < uint (nwatchers s));
     let op = (if io_events s w = 0 then EPOLL_CTL_ADD else EPOLL_CTL_MOD);
     let (r, s) = sys (k_epoll_ctl K (backend_fd s) op (io_fd s w) (io_pevents s w) (io_fd s w)) s;
     s \<leftarrow> (case r of
         Inr _ \<Rightarrow> Some s
       | Inl e \<Rightarrow> do {
           uv_assert (e = UV_EEXIST);
           uv_assert (op = EPOLL_CTL_ADD);
           let (r, s) = sys (k_epoll_ctl K (backend_fd s) EPOLL_CTL_MOD (io_fd s w) (io_pevents s w) (io_fd s w)) s;
           uv_assert (r = Inr ());
           Some s });
     Some (s\<lparr>io_events := (io_events s)(w := io_pevents s w)\<rparr>) }"

partial_function (option) register_loop ::
  "'w io_kernel \<Rightarrow> ('w, 'a) poll_loop_scheme \<Rightarrow> ('w, 'a) poll_loop_scheme option" where
  "register_loop K s =
     (if QUEUE_EMPTY (qs s) (LoopQ WatcherK) then Some s
      else let q = QUEUE_HEAD (qs s) (LoopQ WatcherK);
               s = s\<lparr>qs := QUEUE_INIT q (QUEUE_REMOVE q (qs s))\<rparr>
           in queue_data q \<bind> (\<lambda>w. register_watcher K w s \<bind> register_loop K))"

subsection \<open>Waiting\<close>

definition mask_sigprof ::
  "'w io_kernel \<Rightarrow> bool \<Rightarrow> ('w, 'a) poll_loop_scheme \<Rightarrow> ('w, 'a) poll_loop_scheme option" where
  "mask_sigprof K block s =
     (if loop_flags s AND UV_LOOP_BLOCK_SIGPROF \<noteq> 0 \<and> no_epoll_pwait s then
        (case sys (k_sigmask K block) s of (r, s) \<Rightarrow> do { uv_assert (r = Inr ()); Some s })
      else Some s)"

definition poll_wait ::
  "'w io_kernel \<Rightarrow> int \<Rightarrow> ('w, 'a) poll_loop_scheme \<Rightarrow>
    ((uv_errno + (u32 \<times> int) list) \<times> ('w, 'a) poll_loop_scheme) option" where
  "poll_wait K tmo s = do {
     let s = (if tmo \<noteq> 0 then uv__metrics_set_provider_entry_time K s else s);
     let sigmask = (loop_flags s AND UV_LOOP_BLOCK_SIGPROF \<noteq> 0);
     s \<leftarrow> mask_sigprof K True s;
     let (r, s) =
       (if no_epoll_wait s \<or> sigmask \<and> \<not> no_epoll_pwait s then
          (case sys (k_epoll_pwait K (backend_fd s) 1024 tmo) s of
             (r, s) \<Rightarrow> (r, if r = Inl UV_ENOSYS then s\<lparr>no_epoll_pwait := True\<rparr> else s))
        else
          (case sys (k_epoll_wait K (backend_fd s) 1024 tmo) s of
             (r, s) \<Rightarrow> (r, if r = Inl UV_ENOSYS then s\<lparr>no_epoll_wait := True\<rparr> else s)));
     s \<leftarrow> mask_sigprof K False s;
     Some (r, uv__update_time K s) }"

subsection \<open>Dispatching the events\<close>

text \<open>What a watcher is called with: the events it waits for, errors and hangups.\<close>

definition given_events :: "u32 \<Rightarrow> u32 \<Rightarrow> u32" where
  "given_events pevents ev =
     (let ev = ev AND (pevents OR POLLERR OR POLLHUP)
      in if ev = POLLERR \<or> ev = POLLHUP then ev OR (pevents AND POLL_ALL) else ev)"

text \<open>One event, the one at index \<open>i\<close>; the pair counts signals (0 or 1) and events.\<close>

definition dispatch_event ::
  "'w io_kernel \<Rightarrow> ('w, 'a) run_io \<Rightarrow> nat \<Rightarrow> bool \<times> nat \<Rightarrow> ('w, 'a) poll_loop_scheme \<Rightarrow>
    ((bool \<times> nat) \<times> ('w, 'a) poll_loop_scheme) option" where
  "dispatch_event K run_io i acc s =
     (case acc of (have_signals, nevents) \<Rightarrow>
      case poll_events s ! i of (ev, fd) \<Rightarrow>
        if fd = -1 then Some (acc, s)
        else do {
          uv_assert (fd \<ge> 0);
          uv_assert (fd < uint (nwatchers s));
          x \<leftarrow> watcher_at s fd;
          (case x of
             SNull \<Rightarrow> Some (acc, snd (sys (k_epoll_ctl K (backend_fd s) EPOLL_CTL_DEL fd ev fd) s))
           | SWatch w \<Rightarrow>
               let ev = given_events (io_pevents s w) ev;
                   s = s\<lparr>poll_events := (poll_events s)[i := (ev, fd)]\<rparr>
               in if ev \<noteq> 0 then
                    (if w = signal_io_watcher then Some ((True, nevents + 1), s)
                     else do {
                       s \<leftarrow> run_io (io_cb s w) w ev (uv__metrics_update_idle_time K s);
                       Some ((have_signals, nevents + 1), s) })
                  else Some (acc, s)
           | _ \<Rightarrow> None) })"

fun dispatch_events ::
  "'w io_kernel \<Rightarrow> ('w, 'a) run_io \<Rightarrow> nat list \<Rightarrow> bool \<times> nat \<Rightarrow> ('w, 'a) poll_loop_scheme \<Rightarrow>
    ((bool \<times> nat) \<times> ('w, 'a) poll_loop_scheme) option" where
  "dispatch_events K run_io [] acc s = Some (acc, s)"
| "dispatch_events K run_io (i # is) acc s = do {
     (acc, s) \<leftarrow> dispatch_event K run_io i acc s;
     dispatch_events K run_io is acc s }"

definition set_fake_watchers ::
  "slot \<Rightarrow> slot \<Rightarrow> ('w, 'a) poll_loop_scheme \<Rightarrow> ('w, 'a) poll_loop_scheme" where
  "set_fake_watchers x y s =
     set_watcher_at (uint (nwatchers s) + 1) y (set_watcher_at (uint (nwatchers s)) x s)"

text \<open>All events of one \<open>epoll_wait\<close>, then the signals.\<close>

definition process_events ::
  "'w io_kernel \<Rightarrow> ('w, 'a) run_io \<Rightarrow> (u32 \<times> int) list \<Rightarrow> ('w, 'a) poll_loop_scheme \<Rightarrow>
    ((bool \<times> nat) \<times> ('w, 'a) poll_loop_scheme) option" where
  "process_events K run_io evs s = do {
     let s = s\<lparr>poll_events := evs\<rparr>;
     uv_assert (watchers s \<noteq> None);
     let s = set_fake_watchers SEvents (SCount (length evs)) s;
     ((have_signals, nevents), s) \<leftarrow> dispatch_events K run_io [0..<length evs] (False, 0) s;
     s \<leftarrow> (if have_signals
          then run_io (io_cb s signal_io_watcher) signal_io_watcher POLLIN (uv__metrics_update_idle_time K s)
          else Some s);
     Some ((have_signals, nevents), set_fake_watchers SNull SNull s) }"

subsection \<open>The loop\<close>

text \<open>The result of an \<open>int\<close> assignment.\<close>

definition to_int32 :: "int \<Rightarrow> int" where
  "to_int32 x = (x + 2 ^ 31) mod 2 ^ 32 - 2 ^ 31"

datatype poll_next = PollReturn | PollAgain int int nat bool

text \<open>
  The label \<open>update_timeout\<close>, with the tests before it.  The result of a round is \<open>PollReturn\<close>, or
  \<open>PollAgain\<close> with \<open>timeout\<close>, \<open>real_timeout\<close>, \<open>count\<close> and \<open>reset_timeout\<close> of the next round.
\<close>

definition update_timeout ::
  "u64 \<Rightarrow> int \<Rightarrow> int \<Rightarrow> nat \<Rightarrow> bool \<Rightarrow> ('w, 'a) poll_loop_scheme \<Rightarrow> poll_next option" where
  "update_timeout base tmo real_timeout count reset s =
     (if tmo = 0 then Some PollReturn
      else if tmo = -1 then Some (PollAgain tmo real_timeout count reset)
      else do {
        uv_assert (tmo > 0);
        let real_timeout = to_int32 (real_timeout - uint (time s - base));
        if real_timeout \<le> 0 then Some PollReturn
        else Some (PollAgain real_timeout real_timeout count reset) })"

definition poll_round ::
  "'w io_kernel \<Rightarrow> ('w, 'a) run_io \<Rightarrow> u64 \<Rightarrow> int \<Rightarrow> int \<Rightarrow> int \<Rightarrow> nat \<Rightarrow> bool \<Rightarrow>
    ('w, 'a) poll_loop_scheme \<Rightarrow> (poll_next \<times> ('w, 'a) poll_loop_scheme) option" where
  "poll_round K run_io base user_timeout tmo real_timeout count reset s = do {
     (r, s) \<leftarrow> poll_wait K tmo s;
     let tmo' = (if reset then user_timeout else tmo);
     (case r of
        Inl e \<Rightarrow>
          if e = UV_ENOSYS then do {
            uv_assert (\<not> no_epoll_wait s \<or> \<not> no_epoll_pwait s);
            Some (PollAgain tmo real_timeout count reset, s) }
          else do {
            uv_assert (e = UV_EINTR);
            nxt \<leftarrow> update_timeout base tmo' real_timeout count False s;
            Some (nxt, s) }
      | Inr evs \<Rightarrow>
          if evs = [] then do {
            uv_assert (tmo \<noteq> -1);
            nxt \<leftarrow> update_timeout base tmo' real_timeout count False s;
            Some (nxt, s) }
          else do {
            ((have_signals, nevents), s) \<leftarrow> process_events K run_io evs s;
            if have_signals then Some (PollReturn, s)
            else if nevents \<noteq> 0 then
              (if length evs = 1024 \<and> count - 1 \<noteq> 0
               then Some (PollAgain 0 real_timeout (count - 1) False, s)
               else Some (PollReturn, s))
            else do {
              nxt \<leftarrow> update_timeout base tmo' real_timeout count False s;
              Some (nxt, s) } }) }"

partial_function (option) poll_rounds ::
  "'w io_kernel \<Rightarrow> ('w, 'a) run_io \<Rightarrow> u64 \<Rightarrow> int \<Rightarrow> int \<Rightarrow> int \<Rightarrow> nat \<Rightarrow> bool \<Rightarrow>
    ('w, 'a) poll_loop_scheme \<Rightarrow> ('w, 'a) poll_loop_scheme option" where
  "poll_rounds K run_io base user_timeout tmo real_timeout count reset s =
     (poll_round K run_io base user_timeout tmo real_timeout count reset s \<bind> (\<lambda>(nxt, s).
      case nxt of
        PollReturn \<Rightarrow> Some s
      | PollAgain tmo real_timeout count reset \<Rightarrow>
          poll_rounds K run_io base user_timeout tmo real_timeout count reset s))"

definition uv__io_poll ::
  "'w io_kernel \<Rightarrow> ('w, 'a) run_io \<Rightarrow> int \<Rightarrow> ('w, 'a) poll_loop_scheme \<Rightarrow> ('w, 'a) poll_loop_scheme option" where
  "uv__io_poll K run_io tmo s =
     (if nfds s = 0 then do {
        uv_assert (QUEUE_EMPTY (qs s) (LoopQ WatcherK));
        Some s }
      else do {
        s \<leftarrow> register_loop K s;
        uv_assert (tmo \<ge> -1);
        let base = time s;
        if internal_flags s AND UV_METRICS_IDLE_TIME \<noteq> 0
        then poll_rounds K run_io base tmo 0 tmo 48 True s
        else poll_rounds K run_io base 0 tmo tmo 48 False s })"


section \<open>Every queued watcher is registered\<close>

text \<open>
  The list of interest of epoll: \<open>reg\<close> are the descriptors on it.  Adding one that is on it fails with
  \<open>EEXIST\<close>, adding another one puts it there or fails otherwise; changing one leaves the list alone.
\<close>

definition epoll_laws :: "'w io_kernel \<Rightarrow> ('w \<Rightarrow> int set) \<Rightarrow> bool" where
  "epoll_laws K reg \<longleftrightarrow> (\<forall>b fd ev d w.
     (case k_epoll_ctl K b EPOLL_CTL_ADD fd ev d w of (r, w') \<Rightarrow>
        if fd \<in> reg w then r = Inl UV_EEXIST \<and> reg w' = reg w
        else r \<noteq> Inl UV_EEXIST \<and> reg w' = (if isl r then reg w else insert fd (reg w))) \<and>
     reg (snd (k_epoll_ctl K b EPOLL_CTL_MOD fd ev d w)) = reg w)"

text \<open>It does not take a descriptor that is not on the list, or does not change one that is.\<close>

definition epoll_refuses :: "'w io_kernel \<Rightarrow> ('w \<Rightarrow> int set) \<Rightarrow> int \<Rightarrow> int \<Rightarrow> u32 \<Rightarrow> 'w \<Rightarrow> bool" where
  "epoll_refuses K reg b fd ev w \<longleftrightarrow>
     isl (fst (k_epoll_ctl K b (if fd \<in> reg w then EPOLL_CTL_MOD else EPOLL_CTL_ADD) fd ev fd w))"

lemma sys_case: "sys f s = (fst (f (os s)), s\<lparr>os := snd (f (os s))\<rparr>)"
  by (simp add: sys_def split: prod.splits)

lemma epoll_lawsD:
  assumes "epoll_laws K reg"
  shows "k_epoll_ctl K b EPOLL_CTL_ADD fd ev d w = (r, w') \<Longrightarrow>
      if fd \<in> reg w then r = Inl UV_EEXIST \<and> reg w' = reg w
      else r \<noteq> Inl UV_EEXIST \<and> reg w' = (if isl r then reg w else insert fd (reg w))"
    and "k_epoll_ctl K b EPOLL_CTL_MOD fd ev d w = (r, w') \<Longrightarrow> reg w' = reg w"
proof -
  note k = assms [unfolded epoll_laws_def, THEN spec, of b, THEN spec, of fd, THEN spec, of ev, THEN spec, of d, THEN spec, of w]
  show "k_epoll_ctl K b EPOLL_CTL_ADD fd ev d w = (r, w') \<Longrightarrow>
      if fd \<in> reg w then r = Inl UV_EEXIST \<and> reg w' = reg w
      else r \<noteq> Inl UV_EEXIST \<and> reg w' = (if isl r then reg w else insert fd (reg w))"
    using k by simp
  show "k_epoll_ctl K b EPOLL_CTL_MOD fd ev d w = (r, w') \<Longrightarrow> reg w' = reg w" using k by simp
qed

lemma register_watcher_ok:
  assumes K: "epoll_laws K reg" and w: "io_pevents s w \<noteq> 0" "0 \<le> io_fd s w" "io_fd s w < uint (nwatchers s)"
    and e: "io_events s w \<noteq> 0 \<Longrightarrow> io_fd s w \<in> reg (os s)"
  shows "(\<exists>v. register_watcher K w s = Some (s\<lparr>os := v, io_events := (io_events s)(w := io_pevents s w)\<rparr>) \<and>
      reg v = insert (io_fd s w) (reg (os s))) \<or>
    register_watcher K w s = None \<and> (\<exists>v. epoll_refuses K reg (backend_fd s) (io_fd s w) (io_pevents s w) v)"
proof -
  let ?fd = "io_fd s w" and ?ev = "io_pevents s w" and ?b = "backend_fd s"
  obtain r1 w1 where 1: "k_epoll_ctl K ?b EPOLL_CTL_ADD ?fd ?ev ?fd (os s) = (r1, w1)" by force
  obtain r2 w2 where 2: "k_epoll_ctl K ?b EPOLL_CTL_MOD ?fd ?ev ?fd (os s) = (r2, w2)" by force
  obtain r3 w3 where 3: "k_epoll_ctl K ?b EPOLL_CTL_MOD ?fd ?ev ?fd w1 = (r3, w3)" by force
  note a = epoll_lawsD(1) [OF K 1] and m = epoll_lawsD(2) [OF K 2] epoll_lawsD(2) [OF K 3]
  note d = register_watcher_def sys_case epoll_refuses_def Let_def
  consider "io_events s w \<noteq> 0" | "io_events s w = 0" "?fd \<in> reg (os s)" | "io_events s w = 0" "?fd \<notin> reg (os s)" by blast
  then show ?thesis
  proof cases
    case a1: 1
    show ?thesis
    proof (cases r2)
      case (Inl er)
      then show ?thesis using w e 2 a1 by (intro disjI2 conjI exI [of _ "os s"]) (simp_all add: d)
    next
      case (Inr u)
      then show ?thesis using w e 2 m(1) a1 by (intro disjI1 exI [of _ w2]) (simp add: d insert_absorb)
    qed
  next
    case a2: 2
    then have r1: "r1 = Inl UV_EEXIST" "reg w1 = reg (os s)" using a by simp_all
    show ?thesis
    proof (cases r3)
      case (Inl er)
      then show ?thesis using w 1 3 a2 r1 by (intro disjI2 conjI exI [of _ w1]) (simp_all add: d)
    next
      case (Inr u)
      then show ?thesis using w 1 3 m(2) a2 r1 by (intro disjI1 exI [of _ w3]) (simp add: d insert_absorb)
    qed
  next
    case a3: 3
    show ?thesis
    proof (cases r1)
      case (Inl er)
      then show ?thesis using w 1 a a3 by (intro disjI2 conjI exI [of _ "os s"]) (simp_all add: d)
    next
      case (Inr u)
      then show ?thesis using w 1 a a3 by (intro disjI1 exI [of _ w1]) (simp add: d)
    qed
  qed
qed

text \<open>A queued watcher that waits for something, with a cell; epoll has its descriptor if it has been handed over.\<close>

definition pollable :: "('w \<Rightarrow> int set) \<Rightarrow> ('w, 'a) poll_loop_scheme \<Rightarrow> qaddr \<Rightarrow> bool" where
  "pollable reg s q \<longleftrightarrow> (\<exists>w. q = NodeQ WatcherK w \<and> io_pevents s w \<noteq> 0 \<and> 0 \<le> io_fd s w \<and>
     io_fd s w < uint (nwatchers s) \<and> (io_events s w \<noteq> 0 \<longrightarrow> io_fd s w \<in> reg (os s)))"

text \<open>The process is aborted, for a watcher of the queue that epoll refuses.\<close>

definition poll_aborts ::
  "'w io_kernel \<Rightarrow> ('w \<Rightarrow> int set) \<Rightarrow> qaddr list \<Rightarrow> ('w, 'a) poll_loop_scheme \<Rightarrow> 'r option \<Rightarrow> bool" where
  "poll_aborts K reg queued s r \<longleftrightarrow> r = None \<and> (\<exists>w v. NodeQ WatcherK w \<in> set queued \<and>
     epoll_refuses K reg (backend_fd s) (io_fd s w) (io_pevents s w) v)"

lemma register_loop_ok:
  assumes K: "epoll_laws K reg"
  shows "queues (qs s) Q f \<Longrightarrow> LoopQ WatcherK \<in> Q \<Longrightarrow> \<forall>q \<in> set (f (LoopQ WatcherK)). pollable reg s q \<Longrightarrow>
    poll_aborts K reg (f (LoopQ WatcherK)) s (register_loop K s) \<or>
    (\<exists>s' Q' f'. register_loop K s = Some s' \<and> queues (qs s') Q' f' \<and> LoopQ WatcherK \<in> Q' \<and> f' (LoopQ WatcherK) = [] \<and>
      (\<forall>w. io_events s' w = (if NodeQ WatcherK w \<in> set (f (LoopQ WatcherK)) then io_pevents s w else io_events s w)) \<and>
      s' = s\<lparr>qs := qs s', io_events := io_events s', os := os s'\<rparr>)"
proof (induction "f (LoopQ WatcherK)" arbitrary: s Q f)
  case Nil
  then have "register_loop K s = Some s"
    using qs.empty_law [OF Nil.prems(1,2)] by (simp add: register_loop.simps)
  then show ?case using Nil by (intro disjI2 exI [of _ s] exI [of _ Q] exI [of _ f]) auto
next
  case (Cons q qs')
  let ?L = "LoopQ WatcherK"
  note f = Cons.hyps(2) [symmetric]
  have "pollable reg s q" using Cons.prems(3) f by simp
  then obtain w where w: "q = NodeQ WatcherK w" "io_pevents s w \<noteq> 0" "0 \<le> io_fd s w" "io_fd s w < uint (nwatchers s)"
      "io_events s w \<noteq> 0 \<longrightarrow> io_fd s w \<in> reg (os s)"
    unfolding pollable_def by blast
  define s1 where "s1 = s\<lparr>qs := QUEUE_INIT q (QUEUE_REMOVE q (qs s))\<rparr>"
  have empty: "\<not> QUEUE_EMPTY (qs s) ?L" "QUEUE_HEAD (qs s) ?L = q"
    using qs.empty_law [OF Cons.prems(1,2)] qs.pop(1) [OF Cons.prems(1,2) f] f by simp_all
  have start: "register_loop K s = register_watcher K w s1 \<bind> register_loop K"
    using empty w(1) by (simp add: register_loop.simps [of K s] Let_def s1_def)
  have fin: "w \<in> {w. NodeQ WatcherK w \<in> set (f ?L)}" using f w(1) by simp
  have rw: "(\<exists>v. register_watcher K w s1 = Some (s1\<lparr>os := v, io_events := (io_events s1)(w := io_pevents s1 w)\<rparr>) \<and>
      reg v = insert (io_fd s1 w) (reg (os s1))) \<or>
    register_watcher K w s1 = None \<and> (\<exists>v. epoll_refuses K reg (backend_fd s1) (io_fd s1 w) (io_pevents s1 w) v)"
    using w by (intro register_watcher_ok [OF K]) (simp_all add: s1_def)
  show ?case
  proof (cases "register_watcher K w s1")
    case None
    then have "poll_aborts K reg (f ?L) s (register_loop K s)" using rw start fin by (auto simp: poll_aborts_def s1_def)
    then show ?thesis by blast
  next
    case (Some t)
    then obtain v where v: "register_watcher K w s1 = Some (s1\<lparr>os := v, io_events := (io_events s1)(w := io_pevents s1 w)\<rparr>)"
      "reg v = insert (io_fd s w) (reg (os s))" using rw by (auto simp: s1_def)
    define s2 where "s2 = s1\<lparr>os := v, io_events := (io_events s1)(w := io_pevents s1 w)\<rparr>"
    have q2: "queues (qs s2) (insert q Q) (f(?L := qs', q := []))"
      using qs.pop_init [OF Cons.prems(1,2) f] by (simp add: s2_def s1_def)
    have step: "register_loop K s = register_loop K s2" using start v(1) by (simp add: s2_def)
    have q: "q \<noteq> ?L" using w(1) by simp
    have "\<forall>x \<in> set ((f(?L := qs', q := [])) ?L). pollable reg s2 x"
      using Cons.prems(3) f q v(2) unfolding pollable_def by (auto simp: s2_def s1_def)
    then have "poll_aborts K reg ((f(?L := qs', q := [])) ?L) s2 (register_loop K s2) \<or>
      (\<exists>s' Q' f'. register_loop K s2 = Some s' \<and> queues (qs s') Q' f' \<and> ?L \<in> Q' \<and> f' ?L = [] \<and>
        (\<forall>u. io_events s' u = (if NodeQ WatcherK u \<in> set ((f(?L := qs', q := [])) ?L) then io_pevents s2 u else io_events s2 u)) \<and>
        s' = s2\<lparr>qs := qs s', io_events := io_events s', os := os s'\<rparr>)"
      using Cons.prems(2) q by (intro Cons.hyps(1) [OF _ q2]) auto
    moreover have "poll_aborts K reg (f ?L) s (register_loop K s)"
      if "poll_aborts K reg ((f(?L := qs', q := [])) ?L) s2 (register_loop K s2)"
      using that f q step by (auto simp: poll_aborts_def s2_def s1_def)
    moreover have ?thesis if "register_loop K s2 = Some s'" "queues (qs s') Q' f'" "?L \<in> Q'" "f' ?L = []"
        "\<forall>u. io_events s' u = (if NodeQ WatcherK u \<in> set ((f(?L := qs', q := [])) ?L) then io_pevents s2 u else io_events s2 u)"
        "s' = s2\<lparr>qs := qs s', io_events := io_events s', os := os s'\<rparr>" for s' Q' f'
    proof -
      have "\<forall>u. io_events s' u = (if NodeQ WatcherK u \<in> set (f ?L) then io_pevents s u else io_events s u)"
        using that(5) f w(1) q by (simp add: s2_def s1_def)
      moreover have "s' = s\<lparr>qs := qs s', io_events := io_events s', os := os s'\<rparr>"
        by (subst that(6)) (simp add: s2_def s1_def)
      ultimately show ?thesis using step that(1-4) by metis
    qed
    ultimately show ?thesis by metis
  qed
qed

section \<open>A poll that does not block returns\<close>

text \<open>
  \<open>poll_inv N s\<close>: the array covers all descriptors below \<open>N\<close>, its cells are empty or watchers, and
  the pending events are for such descriptors or invalidated.  \<open>wait_ok K N\<close>: the kernel reports
  only such descriptors, at most as many as asked for, and fails with \<open>EINTR\<close> only.
\<close>

definition poll_inv :: "int \<Rightarrow> ('w, 'a) poll_loop_scheme \<Rightarrow> bool" where
  "poll_inv N s \<longleftrightarrow> N \<le> uint (nwatchers s) \<and> uint (nwatchers s) < 2 ^ 31 \<and>
     (\<exists>ws. watchers s = Some ws \<and> length ws = unat (nwatchers s) + 2 \<and>
        (\<forall>i < unat (nwatchers s). ws ! i = SNull \<or> (\<exists>w. ws ! i = SWatch w))) \<and>
     (\<forall>(ev, fd) \<in> set (poll_events s). fd = -1 \<or> 0 \<le> fd \<and> fd < N)"

definition reports_ok :: "int \<Rightarrow> nat \<Rightarrow> ('w, (u32 \<times> int) list) sys \<Rightarrow> bool" where
  "reports_ok N n f \<longleftrightarrow> (\<forall>w. case fst (f w) of
     Inl e \<Rightarrow> e = UV_EINTR
   | Inr evs \<Rightarrow> length evs \<le> n \<and> (\<forall>(ev, fd) \<in> set evs. 0 \<le> fd \<and> fd < N))"

definition wait_ok :: "'w io_kernel \<Rightarrow> int \<Rightarrow> bool" where
  "wait_ok K N \<longleftrightarrow> (\<forall>b n t. reports_ok N n (k_epoll_wait K b n t) \<and> reports_ok N n (k_epoll_pwait K b n t)) \<and>
     (\<forall>b w. fst (k_sigmask K b w) = Inr ())"

definition run_ok :: "('w, 'a) run_io \<Rightarrow> int \<Rightarrow> bool" where
  "run_ok run_io N \<longleftrightarrow> (\<forall>cb w ev s. poll_inv N s \<longrightarrow>
     (\<exists>s'. run_io cb w ev s = Some s' \<and> poll_inv N s' \<and> length (poll_events s') = length (poll_events s)))"

lemma poll_inv_frame:
  assumes "poll_inv N s" "nwatchers s' = nwatchers s" "watchers s' = watchers s" "poll_events s' = poll_events s"
  shows "poll_inv N s'"
  using assms by (simp add: poll_inv_def)

lemma update_idle_frame [simp]:
  "nwatchers (uv__metrics_update_idle_time K s) = nwatchers s"
  "watchers (uv__metrics_update_idle_time K s) = watchers s"
  "poll_events (uv__metrics_update_idle_time K s) = poll_events s"
  by (simp_all add: uv__metrics_update_idle_time_def sys_case Let_def)

lemma entry_time_frame [simp]:
  "nwatchers (uv__metrics_set_provider_entry_time K s) = nwatchers s"
  "watchers (uv__metrics_set_provider_entry_time K s) = watchers s"
  "poll_events (uv__metrics_set_provider_entry_time K s) = poll_events s"
  by (simp_all add: uv__metrics_set_provider_entry_time_def sys_case Let_def)

lemma dispatch_event_ok:
  assumes run: "run_ok run_io N" and inv: "poll_inv N s" and i: "i < length (poll_events s)"
  shows "\<exists>acc' s'. dispatch_event K run_io i acc s = Some (acc', s') \<and> poll_inv N s' \<and>
    length (poll_events s') = length (poll_events s)"
proof -
  obtain ev fd where e: "poll_events s ! i = (ev, fd)" by force
  obtain hs ne where acc: "acc = (hs, ne)" by force
  have fd: "fd = -1 \<or> 0 \<le> fd \<and> fd < N" using inv i e nth_mem [OF i] unfolding poll_inv_def by fastforce
  show ?thesis
  proof (cases "fd = -1")
    case True
    then show ?thesis using e inv acc by (simp add: dispatch_event_def)
  next
    case False
    then have fdN: "0 \<le> fd" "fd < N" using fd by auto
    obtain ws where ws: "watchers s = Some ws" "length ws = unat (nwatchers s) + 2"
        "\<forall>i < unat (nwatchers s). ws ! i = SNull \<or> (\<exists>w. ws ! i = SWatch w)"
      using inv unfolding poll_inv_def by blast
    have lt: "fd < uint (nwatchers s)" using fdN inv by (simp add: poll_inv_def)
    then have n: "nat fd < unat (nwatchers s)" using fdN(1) by (simp only: unat_eq_nat_uint nat_mono_iff)
    have at: "watcher_at s fd = Some (ws ! nat fd)" using ws(1,2) n by (simp add: watcher_at_def)
    show ?thesis
    proof (cases "ws ! nat fd = SNull")
      case True
      have "poll_inv N (snd (sys (k_epoll_ctl K (backend_fd s) EPOLL_CTL_DEL fd ev fd) s))"
        by (rule poll_inv_frame [OF inv]) (simp_all add: sys_case)
      then show ?thesis using e at True lt fdN False acc by (simp add: dispatch_event_def sys_case)
    next
      case notnull: False
      then obtain w where w: "ws ! nat fd = SWatch w" using ws(3) n by blast
      define g where "g = given_events (io_pevents s w) ev"
      define s1 where "s1 = s\<lparr>poll_events := (poll_events s)[i := (g, fd)]\<rparr>"
      have inv1: "poll_inv N s1"
        using inv fdN unfolding poll_inv_def s1_def by (auto dest!: set_update_subset_insert [THEN subsetD])
      have inv2: "poll_inv N (uv__metrics_update_idle_time K s1)"
        by (rule poll_inv_frame [OF inv1]) simp_all
      obtain s2 where s2: "run_io (io_cb s1 w) w g (uv__metrics_update_idle_time K s1) = Some s2"
          "poll_inv N s2" "length (poll_events s2) = length (poll_events s1)"
        using run inv2 unfolding run_ok_def by force
      have len: "length (poll_events s1) = length (poll_events s)" by (simp add: s1_def)
      have dis: "dispatch_event K run_io i acc s =
        (if g \<noteq> 0 then
           (if w = signal_io_watcher then Some ((True, ne + 1), s1)
            else do {
              s \<leftarrow> run_io (io_cb s1 w) w g (uv__metrics_update_idle_time K s1);
              Some ((hs, ne + 1), s) })
         else Some (acc, s1))"
        using e at w lt fdN False acc by (simp add: dispatch_event_def s1_def Let_def g_def)
      consider "g = 0" | "g \<noteq> 0" "w = signal_io_watcher" | "g \<noteq> 0" "w \<noteq> signal_io_watcher" by blast
      then show ?thesis
      proof cases
        case 1
        then show ?thesis unfolding dis using inv1 len by (intro exI [of _ acc] exI [of _ s1]) simp
      next
        case 2
        then show ?thesis unfolding dis using inv1 len by (intro exI [of _ "(True, ne + 1)"] exI [of _ s1]) simp
      next
        case 3
        then show ?thesis unfolding dis using s2 len by (intro exI [of _ "(hs, ne + 1)"] exI [of _ s2]) simp
      qed
    qed
  qed
qed

lemma dispatch_events_ok:
  assumes run: "run_ok run_io N"
  shows "poll_inv N s \<Longrightarrow> \<forall>i \<in> set is. i < length (poll_events s) \<Longrightarrow>
    \<exists>acc' s'. dispatch_events K run_io is acc s = Some (acc', s') \<and> poll_inv N s'"
proof (induction "is" arbitrary: acc s)
  case Nil
  then show ?case by simp
next
  case (Cons i "is")
  obtain acc1 s1 where 1: "dispatch_event K run_io i acc s = Some (acc1, s1)" "poll_inv N s1"
      "length (poll_events s1) = length (poll_events s)"
    using dispatch_event_ok [OF run Cons.prems(1), of i K acc] Cons.prems(2) by auto
  then show ?case using Cons.IH [OF 1(2), of acc1] Cons.prems(2) by auto
qed

lemma fake_watchers_inv:
  assumes "poll_inv N s" shows "poll_inv N (set_fake_watchers x y s)"
proof -
  obtain ws where ws: "watchers s = Some ws" "length ws = unat (nwatchers s) + 2"
      "\<forall>i < unat (nwatchers s). ws ! i = SNull \<or> (\<exists>w. ws ! i = SWatch w)"
    using assms unfolding poll_inv_def by blast
  let ?n = "unat (nwatchers s)"
  have n: "nat (uint (nwatchers s)) = ?n" "nat (uint (nwatchers s) + 1) = ?n + 1"
    by (simp_all only: unat_eq_nat_uint nat_add_distrib uint_ge_0 zero_le_one nat_one_as_int)
  have "watchers (set_fake_watchers x y s) = Some (ws[?n := x, ?n + 1 := y])"
    by (simp add: set_fake_watchers_def set_watcher_at_def n ws(1))
  moreover have "ws[?n := x, ?n + 1 := y] ! i = ws ! i" if "i < ?n" for i using that by simp
  moreover have "nwatchers (set_fake_watchers x y s) = nwatchers s"
    "poll_events (set_fake_watchers x y s) = poll_events s"
    by (simp_all add: set_fake_watchers_def set_watcher_at_def)
  ultimately show ?thesis using assms ws unfolding poll_inv_def by simp
qed

lemma process_events_ok:
  assumes run: "run_ok run_io N" and inv: "poll_inv N s" and evs: "\<forall>(ev, fd) \<in> set evs. 0 \<le> fd \<and> fd < N"
  shows "\<exists>acc s'. process_events K run_io evs s = Some (acc, s') \<and> poll_inv N s'"
proof -
  define s1 where "s1 = set_fake_watchers SEvents (SCount (length evs)) (s\<lparr>poll_events := evs\<rparr>)"
  have "poll_inv N (s\<lparr>poll_events := evs\<rparr>)" using inv evs by (auto simp: poll_inv_def)
  then have 1: "poll_inv N s1" unfolding s1_def by (rule fake_watchers_inv)
  have "poll_events s1 = evs" by (simp add: s1_def set_fake_watchers_def set_watcher_at_def)
  then obtain hs ne s2 where 2: "dispatch_events K run_io [0..<length evs] (False, 0) s1 = Some ((hs, ne), s2)" "poll_inv N s2"
    using dispatch_events_ok [OF run 1, of "[0..<length evs]" K "(False, 0)"] by auto
  have "poll_inv N (uv__metrics_update_idle_time K s2)" by (rule poll_inv_frame [OF 2(2)]) simp_all
  then obtain s3 where 3: "(if hs then run_io (io_cb s2 signal_io_watcher) signal_io_watcher POLLIN
        (uv__metrics_update_idle_time K s2) else Some s2) = Some s3" "poll_inv N s3"
    using run 2(2) unfolding run_ok_def by (cases hs) force+
  have "watchers s \<noteq> None" using inv by (auto simp: poll_inv_def)
  then have "process_events K run_io evs s = Some ((hs, ne), set_fake_watchers SNull SNull s3)"
    using 2(1) 3(1) by (simp add: process_events_def s1_def [symmetric] Let_def)
  then show ?thesis using fake_watchers_inv [OF 3(2)] by blast
qed

lemma mask_sigprof_ok:
  assumes "wait_ok K N"
  shows "\<exists>v. mask_sigprof K b s = Some (s\<lparr>os := v\<rparr>)"
proof -
  have "fst (k_sigmask K b (os s)) = Inr ()" using assms by (simp add: wait_ok_def)
  then have "mask_sigprof K b s = Some (s\<lparr>os :=
      (if loop_flags s AND UV_LOOP_BLOCK_SIGPROF \<noteq> 0 \<and> no_epoll_pwait s then snd (k_sigmask K b (os s)) else os s)\<rparr>)"
    by (simp add: mask_sigprof_def sys_case)
  then show ?thesis by (rule exI)
qed

lemma poll_wait_ok:
  assumes K: "wait_ok K N" and inv: "poll_inv N s"
  shows "\<exists>r s'. poll_wait K tmo s = Some (r, s') \<and> poll_inv N s' \<and> internal_flags s' = internal_flags s \<and>
    (case r of Inl e \<Rightarrow> e = UV_EINTR | Inr evs \<Rightarrow> length evs \<le> 1024 \<and> (\<forall>(ev, fd) \<in> set evs. 0 \<le> fd \<and> fd < N))"
proof -
  define s1 where "s1 = (if tmo \<noteq> 0 then uv__metrics_set_provider_entry_time K s else s)"
  have i1: "poll_inv N s1" using inv by (simp add: s1_def poll_inv_frame)
  have f1: "internal_flags s1 = internal_flags s"
    by (simp add: s1_def uv__metrics_set_provider_entry_time_def sys_case)
  obtain v where v: "mask_sigprof K True s1 = Some (s1\<lparr>os := v\<rparr>)" using mask_sigprof_ok [OF K] by blast
  define s2 where "s2 = s1\<lparr>os := v\<rparr>"
  define sm where "sm \<longleftrightarrow> loop_flags s1 AND UV_LOOP_BLOCK_SIGPROF \<noteq> 0"
  define b where "b \<longleftrightarrow> no_epoll_wait s2 \<or> sm \<and> \<not> no_epoll_pwait s2"
  define r where "r = (if b then k_epoll_pwait K (backend_fd s2) 1024 tmo (os s2) else k_epoll_wait K (backend_fd s2) 1024 tmo (os s2))"
  have ok: "case fst r of Inl e \<Rightarrow> e = UV_EINTR | Inr evs \<Rightarrow> length evs \<le> 1024 \<and> (\<forall>(ev, fd) \<in> set evs. 0 \<le> fd \<and> fd < N)"
    using K unfolding wait_ok_def reports_ok_def r_def by (cases b) auto
  then have nosys: "fst r \<noteq> Inl UV_ENOSYS" by auto
  define s3 where "s3 = s2\<lparr>os := snd r\<rparr>"
  obtain v' where v': "mask_sigprof K False s3 = Some (s3\<lparr>os := v'\<rparr>)" using mask_sigprof_ok [OF K] by blast
  define s4 where "s4 = uv__update_time K (s3\<lparr>os := v'\<rparr>)"
  have "poll_wait K tmo s = Some (fst r, s4)"
    unfolding poll_wait_def Let_def s1_def [symmetric] sm_def [symmetric]
    using v v' nosys
    by (cases b) (simp_all add: s2_def [symmetric] b_def [symmetric] sys_case r_def s3_def s4_def)
  moreover have "poll_inv N s4"
    by (rule poll_inv_frame [OF i1]) (simp_all add: s4_def s3_def s2_def uv__update_time_def sys_case)
  moreover have "internal_flags s4 = internal_flags s"
    by (simp add: s4_def s3_def s2_def uv__update_time_def sys_case f1)
  ultimately show ?thesis using ok by blast
qed

lemma poll_rounds_zero:
  assumes K: "wait_ok K N" and run: "run_ok run_io N"
  shows "poll_inv N s \<Longrightarrow> \<exists>s'. poll_rounds K run_io base 0 0 rt count reset s = Some s' \<and> poll_inv N s'"
proof (induction count arbitrary: s reset rule: less_induct)
  case (less count)
  obtain r s1 where 1: "poll_wait K 0 s = Some (r, s1)" "poll_inv N s1"
      "case r of Inl e \<Rightarrow> e = UV_EINTR | Inr evs \<Rightarrow> length evs \<le> 1024 \<and> (\<forall>(ev, fd) \<in> set evs. 0 \<le> fd \<and> fd < N)"
    using poll_wait_ok [OF K less.prems] by blast
  have up: "update_timeout base 0 rt count False s' = Some PollReturn" for s' :: "('a, 'b) poll_loop_scheme"
    by (simp add: update_timeout_def)
  show ?case
  proof (cases r)
    case (Inl e)
    then have "poll_round K run_io base 0 0 rt count reset s = Some (PollReturn, s1)"
      using 1 up by (auto simp: poll_round_def)
    then show ?thesis using 1(2) by (simp add: poll_rounds.simps)
  next
    case (Inr evs)
    show ?thesis
    proof (cases "evs = []")
      case True
      then have "poll_round K run_io base 0 0 rt count reset s = Some (PollReturn, s1)"
        using 1 up Inr by (auto simp: poll_round_def)
      then show ?thesis using 1(2) by (simp add: poll_rounds.simps)
    next
      case False
      obtain hs ne s2 where 2: "process_events K run_io evs s1 = Some ((hs, ne), s2)" "poll_inv N s2"
        using process_events_ok [OF run 1(2), of evs K] 1(3) Inr by auto
      have rd: "poll_round K run_io base 0 0 rt count reset s =
        (if \<not> hs \<and> ne \<noteq> 0 \<and> length evs = 1024 \<and> count - 1 \<noteq> 0 then Some (PollAgain 0 rt (count - 1) False, s2)
         else Some (PollReturn, s2))"
        using 1(1) 2(1) up Inr False by (auto simp: poll_round_def)
      show ?thesis
      proof (cases "\<not> hs \<and> ne \<noteq> 0 \<and> length evs = 1024 \<and> count - 1 \<noteq> 0")
        case True
        have "count - 1 < count" using True by simp
        from less.IH [OF this 2(2)] show ?thesis using rd True
          by (simp add: poll_rounds.simps [of _ _ _ _ _ _ count])
      next
        case False
        then have "poll_round K run_io base 0 0 rt count reset s = Some (PollReturn, s2)" using rd by auto
        then show ?thesis using 2(2) by (simp add: poll_rounds.simps)
      qed
    qed
  qed
qed


section \<open>Properties\<close>

text \<open>The loop of \<open>IoLoop\<close> with its watcher registered, extended for polling.\<close>

definition demo_poll_loop :: "fd_table poll_loop" where
  "demo_poll_loop = io_loop.extend
     (full_io_loop\<lparr>qs := QUEUE_INSERT_TAIL (LoopQ WatcherK) (NodeQ WatcherK 7) (qs full_io_loop)\<rparr>)
     (poll_loop.fields False False)"

lemma demo_poll_facts:
  "nwatchers demo_poll_loop = 6" "nfds demo_poll_loop = 1" "io_pevents demo_poll_loop = (\<lambda>_. POLLIN)"
  "io_fd demo_poll_loop = (\<lambda>_. 5)" "io_events demo_poll_loop = (\<lambda>_. 0)" "internal_flags demo_poll_loop = 0" "poll_events demo_poll_loop = []"
  "watchers demo_poll_loop = Some (replicate 5 SNull @ [SWatch 7, SNull, SNull])"
  by (simp_all add: demo_poll_loop_def full_io_loop_def demo_io_loop_def watcher_loop.defs io_loop.defs poll_loop.defs)

lemma demo_poll_queue:
  "queues (qs demo_poll_loop) {LoopQ WatcherK} ((\<lambda>_. [])(LoopQ WatcherK := [NodeQ WatcherK 7]))"
proof -
  have "queues (qs demo_io_loop) {LoopQ WatcherK} (\<lambda>_. [])"
    by (rule qs.subset_law [OF demo_io_facts(2)]) simp
  from qs.insert_tail_law [OF this, of "LoopQ WatcherK" "NodeQ WatcherK 7"]
  show ?thesis by (simp add: demo_poll_loop_def full_io_loop_def io_loop.defs unused_def qcell_def)
qed

lemma demo_kernel_laws: "wait_ok demo_io_kernel 6"
  by (simp add: wait_ok_def reports_ok_def demo_io_kernel_def fd_kernel.defs io_kernel.defs)

text \<open>A kernel whose epoll keeps a list of interest, in the place of the flags of the descriptors.\<close>

definition listing_ctl :: "int \<Rightarrow> epoll_op \<Rightarrow> int \<Rightarrow> u32 \<Rightarrow> int \<Rightarrow> (fd_table, unit) sys" where
  "listing_ctl b op fd ev d w =
     (if op = EPOLL_CTL_ADD \<and> status_flags w fd = 1 then (Inl UV_EEXIST, w)
      else if op = EPOLL_CTL_ADD then (Inr (), w\<lparr>status_flags := (status_flags w)(fd := 1)\<rparr>)
      else (Inr (), w))"

definition listing_kernel :: "fd_table io_kernel" where
  "listing_kernel = demo_io_kernel\<lparr>k_epoll_ctl := listing_ctl\<rparr>"

definition listed :: "fd_table \<Rightarrow> int set" where
  "listed w = {fd. status_flags w fd = 1}"

lemma listing_kernel_laws: "epoll_laws listing_kernel listed" "wait_ok listing_kernel 6"
  "\<not> epoll_refuses listing_kernel listed b fd ev w"
  by (auto simp: epoll_laws_def epoll_refuses_def listing_kernel_def listing_ctl_def listed_def
      wait_ok_def reports_ok_def demo_io_kernel_def fd_kernel.defs io_kernel.defs)

text \<open>
  The first loop of \<open>uv__io_poll\<close> returns with an empty queue of watchers, unless epoll refuses one of them; every watcher
  that was in it is then registered with epoll for exactly the events it waits for, and no other watcher has changed.
\<close>

theorem poll_registers_queued_watchers:
  assumes "epoll_laws K reg" and "queues (qs s) Q f" and "LoopQ WatcherK \<in> Q"
    and "\<forall>q \<in> set (f (LoopQ WatcherK)). pollable reg s q"
  shows "poll_aborts K reg (f (LoopQ WatcherK)) s (register_loop K s) \<or>
    (\<exists>s' Q' f'. register_loop K s = Some s' \<and> queues (qs s') Q' f' \<and> f' (LoopQ WatcherK) = [] \<and>
      (\<forall>w. io_events s' w = (if NodeQ WatcherK w \<in> set (f (LoopQ WatcherK)) then io_pevents s w else io_events s w)))"
  using register_loop_ok [OF assms] by blast

theorem poll_registers_queued_watchers_witness:
  "\<exists>s'. register_loop listing_kernel demo_poll_loop = Some s' \<and> io_events s' 7 = POLLIN"
proof -
  have "\<forall>q \<in> set (((\<lambda>_. [])(LoopQ WatcherK := [NodeQ WatcherK 7])) (LoopQ WatcherK)). pollable listed demo_poll_loop q"
    by (simp add: pollable_def demo_poll_facts)
  from poll_registers_queued_watchers [OF listing_kernel_laws(1) demo_poll_queue _ this]
  show ?thesis by (auto simp: poll_aborts_def listing_kernel_laws(3) demo_poll_facts)
qed



end
