(* ===== verification/Async.thy ===== *)
theory Async
  imports Poll
begin

text \<open>
  src/unix/async.c in the Linux build: waking a loop from other threads.  The first part are the
  functions on the state of the loop.  \<open>cmpxchgi\<close> is atomic, so it is one read and one write of the
  model; while \<open>uv__async_spin\<close> waits, other threads may change the state, which is the parameter
  \<open>relax\<close>.  The second part is the protocol of one handle as a step relation: any number of threads
  in \<open>uv_async_send\<close>, interleaved at every access to \<open>pending\<close> and at the write to the eventfd,
  with the loop thread in \<open>uv__async_io\<close>.

  The lemmas show that the \<open>abort\<close> in \<open>uv_async_send\<close> is not reached, that no wakeup is lost, and
  that a run of \<open>uv__async_io\<close> calls exactly the callbacks of the pending handles.
\<close>

record 'w async_loop = "'w poll_loop" +
  async_cb :: "addr \<Rightarrow> nat option"
  pending :: "addr \<Rightarrow> nat"
  async_wfd :: int

section \<open>Functions on the loop\<close>

text \<open>The old value, and the state after the exchange.\<close>

definition cmpxchgi ::
  "addr \<Rightarrow> nat \<Rightarrow> nat \<Rightarrow> ('w, 'a) async_loop_scheme \<Rightarrow> nat \<times> ('w, 'a) async_loop_scheme" where
  "cmpxchgi h old new s =
     (pending s h, if pending s h = old then s\<lparr>pending := (pending s)(h := new)\<rparr> else s)"

definition uv__async_send ::
  "'w io_kernel \<Rightarrow> ('w, 'a) async_loop_scheme \<Rightarrow> ('w, 'a) async_loop_scheme option" where
  "uv__async_send K s = do {
     let (fd, buf) = (if async_wfd s = -1
                      then (io_fd s async_io_watcher, CHR 0x01 # replicate 7 CHR 0x00)
                      else (async_wfd s, [CHR 0x00]));
     (r, s) \<leftarrow> sys_prog (retry_eintr (k_write K fd buf)) s;
     uv_assert (r = Inr (length buf) \<or> r = Inl UV_EAGAIN);
     Some s }"

definition uv_async_send ::
  "'w io_kernel \<Rightarrow> addr \<Rightarrow> ('w, 'a) async_loop_scheme \<Rightarrow> ('w, 'a) async_loop_scheme option" where
  "uv_async_send K h s =
     (if pending s h \<noteq> 0 then Some s
      else case cmpxchgi h 0 1 s of (old, s) \<Rightarrow>
        if old \<noteq> 0 then Some s
        else do {
          s \<leftarrow> uv__async_send K s;
          let (old, s) = cmpxchgi h 1 2 s;
          uv_assert (old = 1);
          Some s })"

partial_function (option) uv__async_spin ::
  "(('w, 'a) async_loop_scheme \<Rightarrow> ('w, 'a) async_loop_scheme) \<Rightarrow> addr \<Rightarrow> ('w, 'a) async_loop_scheme \<Rightarrow>
    (nat \<times> ('w, 'a) async_loop_scheme) option" where
  "uv__async_spin relax h s =
     (case cmpxchgi h 2 0 s of (rc, s) \<Rightarrow>
        if rc \<noteq> 1 then Some (rc, s) else uv__async_spin relax h (relax s))"

definition uv__async_start ::
  "'w io_kernel \<Rightarrow> ('w, 'a) async_loop_scheme \<Rightarrow> ((uv_errno + unit) \<times> ('w, 'a) async_loop_scheme) option" where
  "uv__async_start K s =
     (if io_fd s async_io_watcher \<noteq> -1 then Some (Inr (), s)
      else case sys (k_eventfd K) s of
        (Inl e, s) \<Rightarrow> Some (Inl e, s)
      | (Inr fd, s) \<Rightarrow> do {
          s \<leftarrow> uv__io_init async_io_watcher UV__ASYNC_IO fd s;
          s \<leftarrow> uv__io_start K async_io_watcher POLLIN s;
          Some (Inr (), s\<lparr>async_wfd := -1\<rparr>) })"

definition uv_async_init ::
  "'w io_kernel \<Rightarrow> addr \<Rightarrow> nat option \<Rightarrow> ('w, 'a) async_loop_scheme \<Rightarrow>
    ((uv_errno + unit) \<times> ('w, 'a) async_loop_scheme) option" where
  "uv_async_init K h cb s = do {
     (err, s) \<leftarrow> uv__async_start K s;
     if err \<noteq> Inr () then Some (err, s)
     else do {
       let s = uv__handle_init h UV_ASYNC s;
       let s = s\<lparr>async_cb := (async_cb s)(h := cb), pending := (pending s)(h := 0)\<rparr>;
       let s = s\<lparr>qs := QUEUE_INSERT_TAIL (LoopQ AsyncK) (NodeQ AsyncK h) (qs s)\<rparr>;
       let s = uv__handle_start h s;
       Some (Inr (), s) } }"

definition uv__async_close ::
  "(('w, 'a) async_loop_scheme \<Rightarrow> ('w, 'a) async_loop_scheme) \<Rightarrow> addr \<Rightarrow> ('w, 'a) async_loop_scheme \<Rightarrow>
    ('w, 'a) async_loop_scheme option" where
  "uv__async_close relax h s = do {
     (_, s) \<leftarrow> uv__async_spin relax h s;
     let s = s\<lparr>qs := QUEUE_REMOVE (NodeQ AsyncK h) (qs s)\<rparr>;
     Some (uv__handle_stop h s) }"

text \<open>Reading the descriptor empty: a full buffer or \<open>EINTR\<close> is read again.\<close>

partial_function (option) async_drain ::
  "'w io_kernel \<Rightarrow> int \<Rightarrow> ('w, 'a) async_loop_scheme \<Rightarrow> ('w, 'a) async_loop_scheme option" where
  "async_drain K fd s =
     (case sys (k_read K fd 1024) s of (r, s) \<Rightarrow>
        case r of
          Inr buf \<Rightarrow> if length buf = 1024 then async_drain K fd s else Some s
        | Inl e \<Rightarrow> if e = UV_EAGAIN then Some s
                   else if e = UV_EINTR then async_drain K fd s else None)"

abbreviation ASYNC_QUEUE :: qaddr where "ASYNC_QUEUE \<equiv> LocalQ 2"

definition async_body ::
  "(('w, 'a) async_loop_scheme \<Rightarrow> ('w, 'a) async_loop_scheme) \<Rightarrow>
    (nat \<Rightarrow> addr \<Rightarrow> ('w, 'a) async_loop_scheme \<Rightarrow> ('w, 'a) async_loop_scheme option) \<Rightarrow> qaddr \<Rightarrow>
    ('w, 'a) async_loop_scheme \<Rightarrow> ('w, 'a) async_loop_scheme option" where
  "async_body relax run_cb q s = do {
     h \<leftarrow> queue_data q;
     (rc, s) \<leftarrow> uv__async_spin relax h s;
     if rc = 0 then Some s
     else (case async_cb s h of None \<Rightarrow> Some s | Some cb \<Rightarrow> run_cb cb h s) }"

definition uv__async_io ::
  "'w io_kernel \<Rightarrow> (('w, 'a) async_loop_scheme \<Rightarrow> ('w, 'a) async_loop_scheme) \<Rightarrow>
    (nat \<Rightarrow> addr \<Rightarrow> ('w, 'a) async_loop_scheme \<Rightarrow> ('w, 'a) async_loop_scheme option) \<Rightarrow> addr \<Rightarrow>
    ('w, 'a) async_loop_scheme \<Rightarrow> ('w, 'a) async_loop_scheme option" where
  "uv__async_io K relax run_cb w s = do {
     uv_assert (w = async_io_watcher);
     s \<leftarrow> async_drain K (io_fd s w) s;
     rotate_loop ASYNC_QUEUE (LoopQ AsyncK) (async_body relax run_cb)
       (move_queue (LoopQ AsyncK) ASYNC_QUEUE s) }"

definition uv__async_stop ::
  "'w io_kernel \<Rightarrow> ('w, 'a) async_loop_scheme \<Rightarrow> ('w, 'a) async_loop_scheme option" where
  "uv__async_stop K s =
     (if io_fd s async_io_watcher = -1 then Some s
      else do {
        s \<leftarrow> (if async_wfd s \<noteq> -1 then do {
               s \<leftarrow> (if async_wfd s \<noteq> io_fd s async_io_watcher
                    then do { (_, s) \<leftarrow> sys_prog (uv__close (fd_kernel.truncate K) (async_wfd s)) s; Some s }
                    else Some s);
               Some (s\<lparr>async_wfd := -1\<rparr>) }
             else Some s);
        s \<leftarrow> uv__io_stop async_io_watcher POLLIN s;
        (_, s) \<leftarrow> sys_prog (uv__close (fd_kernel.truncate K) (io_fd s async_io_watcher)) s;
        Some (s\<lparr>io_fd := (io_fd s)(async_io_watcher := -1)\<rparr>) })"

definition uv__async_fork ::
  "'w io_kernel \<Rightarrow> ('w, 'a) async_loop_scheme \<Rightarrow> ((uv_errno + unit) \<times> ('w, 'a) async_loop_scheme) option" where
  "uv__async_fork K s =
     (if io_fd s async_io_watcher = -1 then Some (Inr (), s)
      else do {
        s \<leftarrow> uv__async_stop K s;
        uv__async_start K s })"

section \<open>The protocol between the threads\<close>

text \<open>
  Where a thread is in \<open>uv_async_send\<close>: outside, before the cheap read, before the first exchange,
  before the write, before the second exchange; \<open>Aborted\<close> is behind the \<open>abort\<close>.  The loop thread
  waits for the eventfd, or has read it and spins, or runs the callback.  \<open>token\<close> says that the
  eventfd is readable.  \<open>owed\<close> is no state of the code: it is set when a call of \<open>uv_async_send\<close>
  begins and reset when a callback begins.
\<close>

datatype sender_pc = Outside | Reading | Swapping | Waking | Finishing | Aborted
datatype loop_pc = Waiting | Spinning | Calling

record protocol =
  pend :: nat
  token :: bool
  senders :: "nat \<Rightarrow> sender_pc"
  looper :: loop_pc
  owed :: bool

definition sender_step :: "nat \<Rightarrow> protocol \<Rightarrow> protocol" where
  "sender_step t p =
     (case senders p t of
        Outside \<Rightarrow> p\<lparr>senders := (senders p)(t := Reading), owed := True\<rparr>
      | Reading \<Rightarrow> p\<lparr>senders := (senders p)(t := if pend p \<noteq> 0 then Outside else Swapping)\<rparr>
      | Swapping \<Rightarrow>
          if pend p \<noteq> 0 then p\<lparr>senders := (senders p)(t := Outside)\<rparr>
          else p\<lparr>senders := (senders p)(t := Waking), pend := 1\<rparr>
      | Waking \<Rightarrow> p\<lparr>senders := (senders p)(t := Finishing), token := True\<rparr>
      | Finishing \<Rightarrow>
          if pend p \<noteq> 1 then p\<lparr>senders := (senders p)(t := Aborted)\<rparr>
          else p\<lparr>senders := (senders p)(t := Outside), pend := 2\<rparr>
      | Aborted \<Rightarrow> p)"

definition loop_step :: "protocol \<Rightarrow> protocol" where
  "loop_step p =
     (case looper p of
        Waiting \<Rightarrow> if token p then p\<lparr>token := False, looper := Spinning\<rparr> else p
      | Spinning \<Rightarrow>
          if pend p = 1 then p
          else if pend p = 2 then p\<lparr>pend := 0, looper := Calling, owed := False\<rparr>
          else p\<lparr>looper := Waiting\<rparr>
      | Calling \<Rightarrow> p\<lparr>looper := Waiting\<rparr>)"

definition start_protocol :: protocol where
  "start_protocol = \<lparr>pend = 0, token = False, senders = (\<lambda>_. Outside), looper = Waiting, owed = False\<rparr>"

inductive reached :: "protocol \<Rightarrow> bool" where
  start: "reached start_protocol"
| sender: "reached p \<Longrightarrow> reached (sender_step t p)"
| loop: "reached p \<Longrightarrow> reached (loop_step p)"

definition busy :: "protocol \<Rightarrow> nat \<Rightarrow> bool" where
  "busy p t \<longleftrightarrow> senders p t = Waking \<or> senders p t = Finishing"

text \<open>
  The invariant: \<open>pending\<close> is 1 exactly while one thread is between its two exchanges; a handle that
  is pending is about to be signalled, signalled, or about to be looked at; a send that is due has
  left its mark in \<open>pending\<close> or has not yet got to it.
\<close>

definition protocol_ok :: "protocol \<Rightarrow> bool" where
  "protocol_ok p \<longleftrightarrow>
     pend p \<le> 2 \<and>
     (\<forall>t. senders p t \<noteq> Aborted) \<and>
     (pend p = 1 \<longleftrightarrow> (\<exists>t. busy p t)) \<and>
     (\<forall>t u. busy p t \<longrightarrow> busy p u \<longrightarrow> t = u) \<and>
     (pend p \<noteq> 0 \<longrightarrow> token p \<or> looper p = Spinning \<or> (\<exists>t. senders p t = Waking)) \<and>
     (owed p \<longrightarrow> pend p \<noteq> 0 \<or> (\<exists>t. senders p t = Reading \<or> senders p t = Swapping))"

lemma protocol_okD:
  assumes "protocol_ok p"
  shows "pend p \<le> 2" "senders p t \<noteq> Aborted" "busy p t \<Longrightarrow> pend p = 1" "pend p = 1 \<Longrightarrow> \<exists>t. busy p t"
    "busy p t \<Longrightarrow> busy p u \<Longrightarrow> t = u"
    "pend p \<noteq> 0 \<Longrightarrow> token p \<or> looper p = Spinning \<or> (\<exists>t. senders p t = Waking)"
    "owed p \<Longrightarrow> pend p \<noteq> 0 \<or> (\<exists>t. senders p t = Reading \<or> senders p t = Swapping)"
  using assms unfolding protocol_ok_def by blast+

lemma protocol_okI:
  assumes "pend p \<le> 2" "\<And>t. senders p t \<noteq> Aborted" "\<And>t. busy p t \<Longrightarrow> pend p = 1" "pend p = 1 \<Longrightarrow> \<exists>t. busy p t"
    "\<And>t u. busy p t \<Longrightarrow> busy p u \<Longrightarrow> t = u"
    "pend p \<noteq> 0 \<Longrightarrow> token p \<or> looper p = Spinning \<or> (\<exists>t. senders p t = Waking)"
    "owed p \<Longrightarrow> pend p \<noteq> 0 \<or> (\<exists>t. senders p t = Reading \<or> senders p t = Swapping)"
  shows "protocol_ok p"
  using assms unfolding protocol_ok_def by blast

lemma loop_step_ok:
  assumes "protocol_ok p" shows "protocol_ok (loop_step p)"
proof -
  note d = protocol_okD [OF assms]
  have b: "busy (loop_step p) t \<longleftrightarrow> busy p t" for t
    by (simp add: loop_step_def busy_def split: loop_pc.split)
  have nob: "\<not> busy p t" if "pend p \<noteq> 1" for t using d(3) that by blast
  then have now: "senders p t \<noteq> Waking" if "pend p \<noteq> 1" for t using that by (auto simp: busy_def)
  show ?thesis
  proof (cases "looper p")
    case Waiting
    then show ?thesis using assms by (cases "token p") (simp_all add: loop_step_def protocol_ok_def busy_def)
  next
    case Calling
    then show ?thesis using assms by (simp add: loop_step_def protocol_ok_def busy_def)
  next
    case Spinning
    consider "pend p = 1" | "pend p = 2" | "pend p = 0" using d(1) by linarith
    then show ?thesis
    proof cases
      case 1
      then show ?thesis using assms Spinning by (simp add: loop_step_def)
    next
      case 2
      then show ?thesis using Spinning nob d(2) by (intro protocol_okI; auto simp: loop_step_def busy_def)
    next
      case 3
      then show ?thesis using Spinning assms nob by (simp add: loop_step_def protocol_ok_def busy_def)
    qed
  qed
qed


lemma sender_step_ok:
  assumes "protocol_ok p" shows "protocol_ok (sender_step t p)"
proof -
  note d = protocol_okD [OF assms]
  have upd: "busy (p\<lparr>senders := (senders p)(t := x)\<rparr>) u \<longleftrightarrow> (if u = t then x = Waking \<or> x = Finishing else busy p u)"
    for x u by (simp add: busy_def)
  show ?thesis
  proof (cases "senders p t")
    case Outside
    then have e: "sender_step t p = p\<lparr>senders := (senders p)(t := Reading), owed := True\<rparr>"
      by (simp add: sender_step_def)
    have b: "busy (sender_step t p) u \<longleftrightarrow> busy p u" for u using Outside by (simp add: e busy_def)
    show ?thesis
    proof (rule protocol_okI, unfold b)
      show "pend (sender_step t p) \<noteq> 0 \<Longrightarrow> token (sender_step t p) \<or> looper (sender_step t p) = Spinning \<or>
          (\<exists>u. senders (sender_step t p) u = Waking)"
        using d(6) Outside by (auto simp: e) (metis sender_pc.distinct(5))
    qed (use d in \<open>auto simp: e\<close>)
  next
    case Reading
    then have e: "sender_step t p = p\<lparr>senders := (senders p)(t := if pend p \<noteq> 0 then Outside else Swapping)\<rparr>"
      by (simp add: sender_step_def)
    have b: "busy (sender_step t p) u \<longleftrightarrow> busy p u" for u using Reading by (simp add: e busy_def)
    show ?thesis
    proof (rule protocol_okI, unfold b)
      show "pend (sender_step t p) \<noteq> 0 \<Longrightarrow> token (sender_step t p) \<or> looper (sender_step t p) = Spinning \<or>
          (\<exists>u. senders (sender_step t p) u = Waking)"
        using d(6) Reading by (auto simp: e) (metis sender_pc.distinct(13))
    qed (use d in \<open>auto simp: e\<close>)
  next
    case Swapping
    show ?thesis
    proof (cases "pend p = 0")
      case True
      then have e: "sender_step t p = p\<lparr>senders := (senders p)(t := Waking), pend := 1\<rparr>"
        using Swapping by (simp add: sender_step_def)
      have nb: "\<not> busy p u" for u using d(3) True by fastforce
      have b: "busy (sender_step t p) u \<longleftrightarrow> u = t" for u using nb [of u] by (simp add: e busy_def)
      show ?thesis
        by (rule protocol_okI, unfold b) (use d in \<open>auto simp: e\<close>)
    next
      case False
      then have e: "sender_step t p = p\<lparr>senders := (senders p)(t := Outside)\<rparr>"
        using Swapping by (simp add: sender_step_def)
      have b: "busy (sender_step t p) u \<longleftrightarrow> busy p u" for u using Swapping by (simp add: e busy_def)
      show ?thesis
      proof (rule protocol_okI, unfold b)
        show "pend (sender_step t p) \<noteq> 0 \<Longrightarrow> token (sender_step t p) \<or> looper (sender_step t p) = Spinning \<or>
            (\<exists>u. senders (sender_step t p) u = Waking)"
          using d(6) Swapping by (auto simp: e) (metis sender_pc.distinct(19))
      qed (use d False in \<open>auto simp: e\<close>)
    qed
  next
    case Waking
    then have e: "sender_step t p = p\<lparr>senders := (senders p)(t := Finishing), token := True\<rparr>"
      by (simp add: sender_step_def)
    have b: "busy (sender_step t p) u \<longleftrightarrow> busy p u" for u using Waking by (simp add: e busy_def)
    have "pend p = 1" using d(3) [of t] Waking by (simp add: busy_def)
    then show ?thesis
      by (intro protocol_okI, unfold b) (use d in \<open>auto simp: e\<close>)
  next
    case Finishing
    have bt: "busy p t" using Finishing by (simp add: busy_def)
    then have p1: "pend p = 1" by (rule d(3))
    then have e: "sender_step t p = p\<lparr>senders := (senders p)(t := Outside), pend := 2\<rparr>"
      using Finishing by (simp add: sender_step_def)
    have nw: "senders p u \<noteq> Waking" for u
      using d(5) [OF bt, of u] Finishing by (auto simp: busy_def)
    have b: "\<not> busy (sender_step t p) u" for u
      using d(5) [OF bt, of u] by (auto simp: e busy_def)
    show ?thesis
      by (rule protocol_okI) (use d b p1 nw in \<open>auto simp: e\<close>)
  next
    case Aborted
    then show ?thesis using d(2) by blast
  qed
qed

lemma reached_ok: "reached p \<Longrightarrow> protocol_ok p"
proof (induction rule: reached.induct)
  case start
  show ?case by (simp add: protocol_ok_def start_protocol_def busy_def)
qed (auto intro: sender_step_ok loop_step_ok)

section \<open>One run of uv\_\_async\_io\<close>

text \<open>No other thread is in \<open>uv_async_send\<close>: every handle is not pending or has been sent.\<close>

lemma spin_settled:
  assumes "pending s h = 0 \<or> pending s h = 2"
  shows "uv__async_spin relax h s =
    Some (pending s h, s\<lparr>pending := (pending s)(h := 0)\<rparr>)"
proof -
  have "(pending s)(h := 0) = pending s" if "pending s h = 0" using that by (simp add: fun_upd_idem)
  then show ?thesis using assms
    by (cases "pending s h = 0") (subst uv__async_spin.simps, simp add: cmpxchgi_def)+
qed

definition record_async ::
  "nat \<Rightarrow> addr \<Rightarrow> ('w, addr list) async_loop_scheme \<Rightarrow> ('w, addr list) async_loop_scheme option" where
  "record_async cb h s = Some (async_loop.more_update (\<lambda>l. l @ [h]) s)"

definition called :: "('w, 'a) async_loop_scheme \<Rightarrow> addr \<Rightarrow> bool" where
  "called s h \<longleftrightarrow> pending s h \<noteq> 0 \<and> async_cb s h \<noteq> None"

definition async_state ::
  "('w, addr list) async_loop_scheme \<Rightarrow> addr list \<Rightarrow> ('w, addr list) async_loop_scheme \<Rightarrow>
    (qaddr \<Rightarrow> qaddr list) \<Rightarrow> bool" where
  "async_state s0 hs s f \<longleftrightarrow>
     (\<exists>as bs. hs = as @ bs \<and> f (LoopQ AsyncK) = map (NodeQ AsyncK) as \<and> f ASYNC_QUEUE = map (NodeQ AsyncK) bs \<and>
        async_loop.more s = async_loop.more s0 @ filter (called s0) as \<and> async_cb s = async_cb s0 \<and>
        (\<forall>h. pending s h = (if h \<in> set as then 0 else pending s0 h)))"

lemma async_body_keeps:
  fixes s0 :: "('w, addr list) async_loop_scheme"
  assumes set: "\<forall>h \<in> set hs. pending s0 h = 0 \<or> pending s0 h = 2" and dist: "distinct hs"
  shows "body_keeps ASYNC_QUEUE (LoopQ AsyncK) Q (async_body relax record_async) (async_state s0 hs)"
  unfolding body_keeps_def
proof (intro allI impI)
  fix s :: "('w, addr list) async_loop_scheme" and f x xs
  assume r: "async_state s0 hs s f" and f: "f ASYNC_QUEUE = x # xs"
    and q: "queues (qs (requeue (LoopQ AsyncK) x s)) Q (f(ASYNC_QUEUE := xs, LoopQ AsyncK := f (LoopQ AsyncK) @ [x]))"
      (is "queues (qs ?s) Q ?f")
  obtain as h bs where ab: "hs = as @ h # bs" "f (LoopQ AsyncK) = map (NodeQ AsyncK) as" "x = NodeQ AsyncK h"
      "xs = map (NodeQ AsyncK) bs" "async_loop.more s = async_loop.more s0 @ filter (called s0) as"
      "async_cb s = async_cb s0" "\<And>h. pending s h = (if h \<in> set as then 0 else pending s0 h)"
    using r f unfolding async_state_def by (auto simp: map_eq_Cons_conv)
  have h: "h \<notin> set as" using dist ab(1) by simp
  have ph: "pending ?s h = pending s0 h" "pending s0 h = 0 \<or> pending s0 h = 2"
    using ab(1,7) h set by (simp_all add: requeue_def)
  define t where "t = ?s\<lparr>pending := (pending ?s)(h := 0)\<rparr>"
  have t: "async_loop.more t = async_loop.more s" "async_cb t = async_cb s0" "qs t = qs ?s"
      "\<And>k. pending t k = (if k \<in> set (as @ [h]) then 0 else pending s0 k)"
    using ab(6,7) by (auto simp: t_def requeue_def)
  have spin: "uv__async_spin relax h ?s = Some (pending s0 h, t)"
    using spin_settled [of ?s h relax] ph by (simp add: t_def)
  define u where "u = (if called s0 h then async_loop.more_update (\<lambda>l. l @ [h]) t else t)"
  have "async_body relax record_async x ?s = Some u"
    using spin t(2) by (auto simp: async_body_def ab(3) u_def called_def record_async_def split: option.split)
  moreover have "queues (qs u) Q ?f" using q t(3) by (simp add: u_def)
  moreover have "async_state s0 hs u ?f"
    unfolding async_state_def
  proof (intro exI conjI allI)
    show "hs = (as @ [h]) @ bs" "?f (LoopQ AsyncK) = map (NodeQ AsyncK) (as @ [h])"
      "?f ASYNC_QUEUE = map (NodeQ AsyncK) bs" using ab by simp_all
    show "async_loop.more u = async_loop.more s0 @ filter (called s0) (as @ [h])"
      using t(1) ab(5) by (simp add: u_def)
    show "async_cb u = async_cb s0" using t(2) by (simp add: u_def)
    show "pending u k = (if k \<in> set (as @ [h]) then 0 else pending s0 k)" for k
      using t(4) by (simp add: u_def)
  qed
  ultimately show "\<exists>s' f'. async_body relax record_async x ?s = Some s' \<and> queues (qs s') Q f' \<and>
      async_state s0 hs s' f' \<and> length (f' ASYNC_QUEUE) \<le> length xs" by fastforce
qed


lemma async_drain_frame:
  assumes "async_drain K fd s = Some s'"
  shows "s' = s\<lparr>os := os s'\<rparr>"
proof (rule async_drain.raw_induct [where P = "\<lambda>K fd s x. x = s\<lparr>os := os x\<rparr>", OF _ assms])
  fix drain :: "'a io_kernel \<Rightarrow> int \<Rightarrow> ('a, 'b) async_loop_scheme \<Rightarrow> ('a, 'b) async_loop_scheme option"
    and K fd s x
  assume IH: "\<And>K fd s x. drain K fd s = Some x \<Longrightarrow> x = s\<lparr>os := os x\<rparr>"
    and eq: "(case sys (k_read K fd 1024) s of (r, s) \<Rightarrow>
        case r of Inl e \<Rightarrow> if e = UV_EAGAIN then Some s else if e = UV_EINTR then drain K fd s else None
          | Inr buf \<Rightarrow> if length buf = 1024 then drain K fd s else Some s) = Some x"
  obtain r w where r: "k_read K fd 1024 (os s) = (r, w)" by force
  then have "drain K fd (s\<lparr>os := w\<rparr>) = Some x \<or> x = s\<lparr>os := w\<rparr>"
    using eq by (auto simp: sys_case split: sum.splits if_splits)
  then show "x = s\<lparr>os := os x\<rparr>"
  proof
    assume "drain K fd (s\<lparr>os := w\<rparr>) = Some x"
    from IH [OF this] show ?thesis by simp
  qed simp
qed

section \<open>Properties\<close>

definition demo_async_loop :: "(fd_table, addr list) async_loop_scheme" where
  "demo_async_loop = async_loop.extend
     ((poll_loop.extend demo_poll_loop (async_loop.fields (\<lambda>_. Some 9) (\<lambda>_. 2) (-1)))
       \<lparr>qs := QUEUE_INSERT_TAIL (LoopQ AsyncK) (NodeQ AsyncK 7) \<lparr>QUEUE_NEXT = \<lambda>q. q, QUEUE_PREV = \<lambda>q. q\<rparr>\<rparr>) []"

text \<open>
  C4: The protocol of \<open>uv_async_send\<close> loses no wakeup and never aborts: however any number of
  sending threads and the loop thread interleave, no thread reaches the \<open>abort\<close>; when no send is
  in progress, and one has begun since the last callback began, the handle is marked as sent and
  the loop thread has a readable eventfd or is about to look at the handle.
\<close>

theorem async_no_wakeup_lost:
  assumes "reached p"
  shows "senders p t \<noteq> Aborted \<and>
    ((\<forall>u. senders p u = Outside) \<and> owed p \<longrightarrow> pend p = 2 \<and> (token p \<or> looper p = Spinning))"
proof -
  note d = protocol_okD [OF reached_ok [OF assms]]
  have "pend p = 2 \<and> (token p \<or> looper p = Spinning)" if out: "\<forall>u. senders p u = Outside" and "owed p"
  proof -
    have "pend p \<noteq> 0" using d(7) that by fastforce
    moreover have "pend p \<noteq> 1" using d(4) out by (fastforce simp: busy_def)
    ultimately show ?thesis using d(1,6) out by fastforce
  qed
  then show ?thesis using d(2) by blast
qed

theorem async_no_wakeup_lost_witness:
  "pend (sender_step 3 (sender_step 3 (sender_step 3 (sender_step 3 (sender_step 3 start_protocol))))) = 2"
  (is "pend ?p = 2")
proof -
  have "reached ?p" by (intro reached.intros)
  moreover have "\<forall>u. senders ?p u = Outside" "owed ?p"
    by (simp_all add: sender_step_def start_protocol_def)
  ultimately show ?thesis using async_no_wakeup_lost by blast
qed

text \<open>
  C5: A send that has returned is answered: from every state of the protocol in which no send is in
  progress and one has begun since the last callback began, the loop thread alone begins the
  callback in at most three steps.
\<close>

theorem async_send_is_answered:
  assumes "reached p" and "\<forall>u. senders p u = Outside" and "owed p"
  shows "\<exists>n \<le> 3. looper ((loop_step ^^ n) p) = Calling \<and> \<not> owed ((loop_step ^^ n) p)"
proof -
  note d = protocol_okD [OF reached_ok [OF assms(1)]]
  have p2: "pend p = 2"
  proof -
    have "pend p \<noteq> 0" using d(7) assms(2,3) by fastforce
    moreover have "pend p \<noteq> 1" using d(4) assms(2) by (fastforce simp: busy_def)
    ultimately show ?thesis using d(1) by linarith
  qed
  have tok: "token p \<or> looper p = Spinning" using d(6) p2 assms(2) by fastforce
  show ?thesis
  proof (cases "looper p")
    case Waiting
    then show ?thesis using tok p2 by (intro exI [of _ 2]) (simp add: loop_step_def numeral_2_eq_2)
  next
    case Spinning
    then show ?thesis using p2 by (intro exI [of _ 1]) (simp add: loop_step_def)
  next
    case Calling
    then show ?thesis using tok p2 by (intro exI [of _ 3]) (simp add: loop_step_def numeral_3_eq_3)
  qed
qed

theorem async_send_is_answered_witness:
  "\<exists>n \<le> 3. looper ((loop_step ^^ n) (sender_step 0 (sender_step 0 (sender_step 0 (sender_step 0
     (sender_step 0 start_protocol)))))) = Calling"
proof -
  let ?p = "sender_step 0 (sender_step 0 (sender_step 0 (sender_step 0 (sender_step 0 start_protocol))))"
  have "reached ?p" by (intro reached.intros)
  moreover have "\<forall>u. senders ?p u = Outside" "owed ?p"
    by (simp_all add: sender_step_def start_protocol_def)
  ultimately show ?thesis using async_send_is_answered by blast
qed

text \<open>
  When no send is half-way, \<open>uv__async_io\<close> calls the callback of every handle of the loop that
  has been sent and has one, once, in the order of the queue, calls no other, clears the mark of
  all of them, and leaves the queue as it was.  The callbacks here only record who was called.
\<close>

theorem async_io_calls_the_pending:
  assumes "async_drain K (io_fd s async_io_watcher) s = Some s1"
    and "queues (qs s) Q f" and "LoopQ AsyncK \<in> Q" and "unused Q f ASYNC_QUEUE"
    and "f (LoopQ AsyncK) = map (NodeQ AsyncK) hs" and "distinct hs"
    and "\<forall>h \<in> set hs. pending s h = 0 \<or> pending s h = 2"
  shows "\<exists>s' f'. uv__async_io K relax record_async async_io_watcher s = Some s' \<and>
    queues (qs s') (insert ASYNC_QUEUE Q) f' \<and> f' (LoopQ AsyncK) = f (LoopQ AsyncK) \<and>
    async_loop.more s' = async_loop.more s @ filter (\<lambda>h. pending s h \<noteq> 0 \<and> async_cb s h \<noteq> None) hs \<and>
    (\<forall>h. pending s' h = (if h \<in> set hs then 0 else pending s h))"
proof -
  have s1: "s1 = s\<lparr>os := os s1\<rparr>" by (rule async_drain_frame [OF assms(1)])
  have eq: "qs s1 = qs s" "pending s1 = pending s" "async_cb s1 = async_cb s" "async_loop.more s1 = async_loop.more s"
    by (subst s1, simp)+
  have call: "called s1 h \<longleftrightarrow> pending s h \<noteq> 0 \<and> async_cb s h \<noteq> None" for h by (simp add: called_def eq)
  have "async_state s1 hs (move_queue (LoopQ AsyncK) ASYNC_QUEUE s1) (f(ASYNC_QUEUE := f (LoopQ AsyncK), LoopQ AsyncK := []))"
    using assms(5) by (simp add: async_state_def move_queue_def)
  moreover have "body_keeps ASYNC_QUEUE (LoopQ AsyncK) (insert ASYNC_QUEUE Q) (async_body relax record_async) (async_state s1 hs)"
    using assms(6,7) by (intro async_body_keeps) (simp_all add: eq)
  ultimately obtain s' f' where r: "rotate_loop ASYNC_QUEUE (LoopQ AsyncK) (async_body relax record_async)
        (move_queue (LoopQ AsyncK) ASYNC_QUEUE s1) = Some s'"
      "queues (qs s') (insert ASYNC_QUEUE Q) f'" "async_state s1 hs s' f'" "f' ASYNC_QUEUE = []"
    using rotate_ok [of ASYNC_QUEUE "LoopQ AsyncK" Q _ _ s1 f] assms(2,3,4) eq(1) by metis
  have "uv__async_io K relax record_async async_io_watcher s = Some s'"
    using assms(1) r(1) by (simp add: uv__async_io_def)
  moreover have "f' (LoopQ AsyncK) = f (LoopQ AsyncK)" "async_loop.more s' = async_loop.more s @ filter (called s1) hs"
      "\<forall>h. pending s' h = (if h \<in> set hs then 0 else pending s h)"
    using r(3,4) assms(5) by (auto simp: async_state_def eq)
  ultimately show ?thesis using r(2) unfolding call by blast
qed

theorem async_io_calls_the_pending_witness:
  "\<exists>s'. uv__async_io demo_io_kernel id record_async async_io_watcher demo_async_loop = Some s' \<and>
     async_loop.more s' = [7] \<and> pending s' 7 = 0"
proof -
  let ?s = demo_async_loop
  have d: "async_drain demo_io_kernel fd ?s = Some ?s" for fd
    by (subst async_drain.simps)
       (simp add: sys_case demo_io_kernel_def fd_kernel.defs io_kernel.defs demo_kernel_def)
  have "queues \<lparr>QUEUE_NEXT = \<lambda>q. q, QUEUE_PREV = \<lambda>q. q\<rparr> {LoopQ AsyncK} (\<lambda>_. [])"
    by (simp add: queues_def queue_at_Nil)
  from qs.insert_tail_law [OF this, of "LoopQ AsyncK" "NodeQ AsyncK 7"]
  have q: "queues (qs ?s) {LoopQ AsyncK} ((\<lambda>_. [])(LoopQ AsyncK := [NodeQ AsyncK 7]))"
    by (simp add: unused_def qcell_def demo_async_loop_def poll_loop.defs async_loop.defs)
  have "pending ?s = (\<lambda>_. 2)" "async_cb ?s = (\<lambda>_. Some 9)" "async_loop.more ?s = []"
    by (simp_all add: demo_async_loop_def poll_loop.defs async_loop.defs)
  then show ?thesis
    using async_io_calls_the_pending [OF d q, of "[7]" id] by (auto simp: unused_def qcell_def)
qed

end
