(* ===== verification/Core.thy ===== *)
theory Core
  imports Async
begin

text \<open>
  src/unix/core.c, the loop itself: closing handles and \<open>uv_run\<close>.  The state is that of the
  components below with the fields the closing needs.  The callbacks of the user, the callbacks of
  the I/O watchers and the functions of other files that close handles (pipe, tty, tcp, udp, process,
  fs-event, poll, fs-poll and signal) are the fields of the record \<open>loop_calls\<close>; theory \<open>Closing\<close>
  puts those that are modelled in their place.

  The lemmas show what one run of the closing handles does, that a loop in which all that is left
  are closing handles ends after one turn and calls each close callback once, and what \<open>uv_run\<close>
  returns.
\<close>

record 'w core_loop = "'w async_loop" +
  close_cb :: "addr \<Rightarrow> nat option"
  caught_signals :: "addr \<Rightarrow> u32"
  dispatched_signals :: "addr \<Rightarrow> u32"

record 's loop_calls =
  call_timer :: "nat \<Rightarrow> addr \<Rightarrow> 's \<Rightarrow> 's option"
  call_watcher_cb :: "nat \<Rightarrow> addr \<Rightarrow> 's \<Rightarrow> 's option"
  call_io :: "io_callback \<Rightarrow> addr \<Rightarrow> u32 \<Rightarrow> 's \<Rightarrow> 's option"
  call_close :: "nat \<Rightarrow> addr \<Rightarrow> 's \<Rightarrow> 's option"
  close_other :: "addr \<Rightarrow> 's \<Rightarrow> 's option"
  destroy_other :: "addr \<Rightarrow> 's \<Rightarrow> 's option"

section \<open>Closing\<close>

definition uv__make_close_pending :: "addr \<Rightarrow> 'a uv_loop_scheme \<Rightarrow> 'a uv_loop_scheme option" where
  "uv__make_close_pending h s = do {
     uv_assert (has_flag s h UV_HANDLE_CLOSING);
     uv_assert (\<not> has_flag s h UV_HANDLE_CLOSED);
     let s = s\<lparr>next_closing := (next_closing s)(h := closing_handles s)\<rparr>;
     Some (s\<lparr>closing_handles := Some h\<rparr>) }"

definition uv_close ::
  "('w, 'a) core_loop_scheme loop_calls \<Rightarrow> (('w, 'a) core_loop_scheme \<Rightarrow> ('w, 'a) core_loop_scheme) \<Rightarrow>
    addr \<Rightarrow> nat option \<Rightarrow> ('w, 'a) core_loop_scheme \<Rightarrow> ('w, 'a) core_loop_scheme option" where
  "uv_close U relax h cb s = do {
     uv_assert (\<not> uv__is_closing s h);
     let s = set_flag h UV_HANDLE_CLOSING s;
     let s = s\<lparr>close_cb := (close_cb s)(h := cb)\<rparr>;
     (case htype s h of
        UV_NAMED_PIPE \<Rightarrow> close_other U h s \<bind> uv__make_close_pending h
      | UV_TTY \<Rightarrow> close_other U h s \<bind> uv__make_close_pending h
      | UV_TCP \<Rightarrow> close_other U h s \<bind> uv__make_close_pending h
      | UV_UDP \<Rightarrow> close_other U h s \<bind> uv__make_close_pending h
      | UV_PREPARE \<Rightarrow> uv__make_close_pending h (uv__watcher_close PrepareK h s)
      | UV_CHECK \<Rightarrow> uv__make_close_pending h (uv__watcher_close CheckK h s)
      | UV_IDLE \<Rightarrow> uv__make_close_pending h (uv__watcher_close IdleK h s)
      | UV_ASYNC \<Rightarrow> uv__async_close relax h s \<bind> uv__make_close_pending h
      | UV_TIMER \<Rightarrow> uv__timer_close h s \<bind> uv__make_close_pending h
      | UV_PROCESS \<Rightarrow> close_other U h s \<bind> uv__make_close_pending h
      | UV_FS_EVENT \<Rightarrow> close_other U h s \<bind> uv__make_close_pending h
      | UV_POLL \<Rightarrow> close_other U h s \<bind> uv__make_close_pending h
      | UV_FS_POLL \<Rightarrow> close_other U h s
      | UV_SIGNAL \<Rightarrow> close_other U h s \<bind> uv__make_close_pending h
      | _ \<Rightarrow> None) }"

text \<open>The end of \<open>uv__finish_close\<close>: off the loop, and the callback.\<close>

definition finish_handle ::
  "('w, 'a) core_loop_scheme loop_calls \<Rightarrow> addr \<Rightarrow> ('w, 'a) core_loop_scheme \<Rightarrow> ('w, 'a) core_loop_scheme option" where
  "finish_handle U h s =
     (let s = uv__handle_unref h s;
          s = s\<lparr>qs := QUEUE_REMOVE (NodeQ HandleK h) (qs s)\<rparr>
      in case close_cb s h of
           None \<Rightarrow> Some s
         | Some cb \<Rightarrow> call_close U cb h s)"

definition uv__finish_close ::
  "('w, 'a) core_loop_scheme loop_calls \<Rightarrow> addr \<Rightarrow> ('w, 'a) core_loop_scheme \<Rightarrow> ('w, 'a) core_loop_scheme option" where
  "uv__finish_close U h s = do {
     uv_assert (has_flag s h UV_HANDLE_CLOSING);
     uv_assert (\<not> has_flag s h UV_HANDLE_CLOSED);
     let s = set_flag h UV_HANDLE_CLOSED s;
     (case htype s h of
        UV_PREPARE \<Rightarrow> finish_handle U h s
      | UV_CHECK \<Rightarrow> finish_handle U h s
      | UV_IDLE \<Rightarrow> finish_handle U h s
      | UV_ASYNC \<Rightarrow> finish_handle U h s
      | UV_TIMER \<Rightarrow> finish_handle U h s
      | UV_PROCESS \<Rightarrow> finish_handle U h s
      | UV_FS_EVENT \<Rightarrow> finish_handle U h s
      | UV_FS_POLL \<Rightarrow> finish_handle U h s
      | UV_POLL \<Rightarrow> finish_handle U h s
      | UV_SIGNAL \<Rightarrow>
          (if caught_signals s h > dispatched_signals s h
           then uv__make_close_pending h (s\<lparr>flags := (flags s)(h := flags s h XOR UV_HANDLE_CLOSED)\<rparr>)
           else finish_handle U h s)
      | UV_NAMED_PIPE \<Rightarrow> destroy_other U h s \<bind> finish_handle U h
      | UV_TCP \<Rightarrow> destroy_other U h s \<bind> finish_handle U h
      | UV_TTY \<Rightarrow> destroy_other U h s \<bind> finish_handle U h
      | UV_UDP \<Rightarrow> destroy_other U h s \<bind> finish_handle U h
      | _ \<Rightarrow> None) }"

partial_function (option) run_closing_loop ::
  "('w, 'a) core_loop_scheme loop_calls \<Rightarrow> ptr \<Rightarrow> ('w, 'a) core_loop_scheme \<Rightarrow> ('w, 'a) core_loop_scheme option" where
  "run_closing_loop U p s =
     (case p of
        None \<Rightarrow> Some s
      | Some h \<Rightarrow> let q = next_closing s h in uv__finish_close U h s \<bind> run_closing_loop U q)"

definition uv__run_closing_handles ::
  "('w, 'a) core_loop_scheme loop_calls \<Rightarrow> ('w, 'a) core_loop_scheme \<Rightarrow> ('w, 'a) core_loop_scheme option" where
  "uv__run_closing_handles U s = run_closing_loop U (closing_handles s) (s\<lparr>closing_handles := None\<rparr>)"

definition uv_is_closing :: "'a uv_loop_scheme \<Rightarrow> addr \<Rightarrow> bool" where
  "uv_is_closing s h = uv__is_closing s h"

definition uv_is_active :: "'a uv_loop_scheme \<Rightarrow> addr \<Rightarrow> bool" where
  "uv_is_active s h = uv__is_active s h"

text \<open>What closing a handle reads and writes of the loop, but for the queues and the counts, is the same.\<close>

definition same_closing :: "('w, 'a) core_loop_scheme \<Rightarrow> ('w, 'a) core_loop_scheme \<Rightarrow> bool" where
  "same_closing s s' \<longleftrightarrow> htype s' = htype s \<and> closing_handles s' = closing_handles s \<and> next_closing s' = next_closing s \<and>
     close_cb s' = close_cb s \<and> caught_signals s' = caught_signals s \<and> dispatched_signals s' = dispatched_signals s \<and>
     (\<forall>k m. m = UV_HANDLE_CLOSING \<or> m = UV_HANDLE_CLOSED \<longrightarrow> has_flag s' k m = has_flag s k m)"

lemma same_closing_trans: "same_closing a b \<Longrightarrow> same_closing b c \<Longrightarrow> same_closing a c"
  by (simp add: same_closing_def)

lemma same_closingI:
  "htype s' = htype s \<Longrightarrow> closing_handles s' = closing_handles s \<Longrightarrow> next_closing s' = next_closing s \<Longrightarrow>
   close_cb s' = close_cb s \<Longrightarrow> caught_signals s' = caught_signals s \<Longrightarrow> dispatched_signals s' = dispatched_signals s \<Longrightarrow>
   flags s' = flags s \<Longrightarrow> same_closing s s'"
  using has_flag_frame [of s' s] by (simp add: same_closing_def)

section \<open>Running\<close>

definition uv_hrtime :: "'w io_kernel \<Rightarrow> 'w \<Rightarrow> u64 \<times> 'w" where
  "uv_hrtime K = k_hrtime K"

definition uv_update_time :: "'w io_kernel \<Rightarrow> ('w, 'a) io_loop_scheme \<Rightarrow> ('w, 'a) io_loop_scheme" where
  "uv_update_time K s = uv__update_time K s"

definition uv_backend_fd :: "('w, 'a) io_loop_scheme \<Rightarrow> int" where
  "uv_backend_fd s = backend_fd s"

definition uv__loop_alive :: "'a uv_loop_scheme \<Rightarrow> bool" where
  "uv__loop_alive s \<longleftrightarrow> uv__has_active_handles s \<or> uv__has_active_reqs s \<or>
     \<not> QUEUE_EMPTY (qs s) (LoopQ PendingK) \<or> closing_handles s \<noteq> None"

definition uv_loop_alive :: "'a uv_loop_scheme \<Rightarrow> bool" where
  "uv_loop_alive s = uv__loop_alive s"

text \<open>The file defines \<open>uv_backend_timeout\<close> twice; this is the definition at line 334.\<close>

definition uv_backend_timeout_old :: "'a timer_loop_scheme \<Rightarrow> int" where
  "uv_backend_timeout_old s =
     (if stop_flag s then 0
      else if \<not> uv__has_active_handles s \<and> \<not> uv__has_active_reqs s then 0
      else if \<not> QUEUE_EMPTY (qs s) (LoopQ IdleK) then 0
      else if closing_handles s \<noteq> None then 0
      else uv__next_timeout s)"

definition uv__backend_timeout :: "'a timer_loop_scheme \<Rightarrow> int" where
  "uv__backend_timeout s =
     (if \<not> stop_flag s \<and> (uv__has_active_handles s \<or> uv__has_active_reqs s) \<and>
         QUEUE_EMPTY (qs s) (LoopQ PendingK) \<and> QUEUE_EMPTY (qs s) (LoopQ IdleK) \<and>
         closing_handles s = None
      then uv__next_timeout s else 0)"

definition uv_backend_timeout :: "'a timer_loop_scheme \<Rightarrow> int" where
  "uv_backend_timeout s =
     (if QUEUE_EMPTY (qs s) (LoopQ WatcherK) then uv__backend_timeout s else 0)"

datatype uv_run_mode = UV_RUN_DEFAULT | UV_RUN_ONCE | UV_RUN_NOWAIT

text \<open>The body of the loop in \<open>uv_run\<close>, up to the second test of \<open>mode\<close>.\<close>

definition uv_run_turn ::
  "'w io_kernel \<Rightarrow> ('w, 'a) core_loop_scheme loop_calls \<Rightarrow> uv_run_mode \<Rightarrow>
    ('w, 'a) core_loop_scheme \<Rightarrow> ('w, 'a) core_loop_scheme option" where
  "uv_run_turn K U mode s = do {
     s \<leftarrow> uv__run_timers (call_timer U) (uv__update_time K s);
     (ran_pending, s) \<leftarrow> uv__run_pending (call_io U) s;
     s \<leftarrow> uv__run_watchers (call_watcher_cb U) IdleK s;
     s \<leftarrow> uv__run_watchers (call_watcher_cb U) PrepareK s;
     let tmo = (if mode = UV_RUN_ONCE \<and> \<not> ran_pending \<or> mode = UV_RUN_DEFAULT
                then uv__backend_timeout s else 0);
     s \<leftarrow> uv__io_poll K (call_io U) tmo s;
     s \<leftarrow> uv__run_watchers (call_watcher_cb U) CheckK (uv__metrics_update_idle_time K s);
     s \<leftarrow> uv__run_closing_handles U s;
     (if mode = UV_RUN_ONCE then uv__run_timers (call_timer U) (uv__update_time K s) else Some s) }"

partial_function (option) uv_run_loop ::
  "'w io_kernel \<Rightarrow> ('w, 'a) core_loop_scheme loop_calls \<Rightarrow> uv_run_mode \<Rightarrow> bool \<Rightarrow>
    ('w, 'a) core_loop_scheme \<Rightarrow> (bool \<times> ('w, 'a) core_loop_scheme) option" where
  "uv_run_loop K U mode r s =
     (if r \<and> \<not> stop_flag s then
        uv_run_turn K U mode s \<bind> (\<lambda>s.
          if mode = UV_RUN_ONCE \<or> mode = UV_RUN_NOWAIT then Some (uv__loop_alive s, s)
          else uv_run_loop K U mode (uv__loop_alive s) s)
      else Some (r, s))"

definition uv_run ::
  "'w io_kernel \<Rightarrow> ('w, 'a) core_loop_scheme loop_calls \<Rightarrow> uv_run_mode \<Rightarrow>
    ('w, 'a) core_loop_scheme \<Rightarrow> (bool \<times> ('w, 'a) core_loop_scheme) option" where
  "uv_run K U mode s = do {
     let r = uv__loop_alive s;
     let s = (if \<not> r then uv__update_time K s else s);
     (r, s) \<leftarrow> uv_run_loop K U mode r s;
     Some (r, if stop_flag s then s\<lparr>stop_flag := False\<rparr> else s) }"

section \<open>One run of the closing handles\<close>

text \<open>The list of handles that starts at \<open>p\<close>, and the handles \<open>uv__finish_close\<close> can finish.\<close>

fun chain :: "(addr \<Rightarrow> ptr) \<Rightarrow> ptr \<Rightarrow> addr list \<Rightarrow> bool" where
  "chain nx p [] \<longleftrightarrow> p = None"
| "chain nx p (h # hs) \<longleftrightarrow> p = Some h \<and> chain nx (nx h) hs"

definition destroyed_elsewhere :: "uv_handle_type set" where
  "destroyed_elsewhere = {UV_NAMED_PIPE, UV_TCP, UV_TTY, UV_UDP}"

definition finishable :: "('w, 'a) core_loop_scheme \<Rightarrow> addr \<Rightarrow> bool" where
  "finishable s h \<longleftrightarrow> has_flag s h UV_HANDLE_CLOSING \<and> \<not> has_flag s h UV_HANDLE_CLOSED \<and>
     (htype s h \<in> {UV_PREPARE, UV_CHECK, UV_IDLE, UV_ASYNC, UV_TIMER, UV_PROCESS, UV_FS_EVENT, UV_FS_POLL, UV_POLL} \<or>
      htype s h \<in> destroyed_elsewhere \<or>
      htype s h = UV_SIGNAL \<and> caught_signals s h \<le> dispatched_signals s h)"

text \<open>
  The callbacks of this section change nothing of the fields of the loop in this file and below: \<open>tell\<close> and \<open>wipe\<close>
  are what the close callbacks and the functions that destroy streams and UDP handles do to the rest.  The
  second only has to hold while \<open>P\<close> does - that the handles have no request left, say - which nothing a closing does breaks.
\<close>

definition closing_laws ::
  "('w, 'a) core_loop_scheme loop_calls \<Rightarrow> (nat \<Rightarrow> addr \<Rightarrow> 'a \<Rightarrow> 'a) \<Rightarrow> (addr \<Rightarrow> 'a \<Rightarrow> 'a) \<Rightarrow>
    (('w, 'a) core_loop_scheme \<Rightarrow> bool) \<Rightarrow> bool" where
  "closing_laws U tell wipe P \<longleftrightarrow>
     (\<forall>cb h t. call_close U cb h t = Some (core_loop.more_update (tell cb h) t)) \<and>
     (\<forall>h t. P t \<and> htype t h \<in> destroyed_elsewhere \<and> has_flag t h UV_HANDLE_CLOSED \<longrightarrow>
        destroy_other U h t = Some (core_loop.more_update (wipe h) t)) \<and>
     (\<forall>cb h t. P t \<longrightarrow> P (core_loop.more_update (tell cb h) t) \<and> P (core_loop.more_update (wipe h) t)) \<and>
     (\<forall>t fl q c u w p i. P t \<longrightarrow> P (t\<lparr>flags := fl, qs := q, closing_handles := c, time := u, os := w,
        provider_entry_time := p, provider_idle_time := i\<rparr>))"

text \<open>What the end of one handle does to the rest.\<close>

definition ending ::
  "(nat \<Rightarrow> addr \<Rightarrow> 'a \<Rightarrow> 'a) \<Rightarrow> (addr \<Rightarrow> 'a \<Rightarrow> 'a) \<Rightarrow> ('w, 'b) core_loop_scheme \<Rightarrow> addr \<Rightarrow> 'a \<Rightarrow> 'a" where
  "ending tell wipe s h m =
     (let m = (if htype s h \<in> destroyed_elsewhere then wipe h m else m)
      in case close_cb s h of None \<Rightarrow> m | Some cb \<Rightarrow> tell cb h m)"

definition finished ::
  "(nat \<Rightarrow> addr \<Rightarrow> 'a \<Rightarrow> 'a) \<Rightarrow> (addr \<Rightarrow> 'a \<Rightarrow> 'a) \<Rightarrow> addr \<Rightarrow> ('w, 'a) core_loop_scheme \<Rightarrow> ('w, 'a) core_loop_scheme" where
  "finished tell wipe h s =
     (let t = uv__handle_unref h (set_flag h UV_HANDLE_CLOSED s)
      in core_loop.more_update (ending tell wipe s h) (t\<lparr>qs := QUEUE_REMOVE (NodeQ HandleK h) (qs s)\<rparr>))"

lemma more_same: "core_loop.more_update (\<lambda>l. l) s = s"
  by (cases s) simp

lemma finish_close_eq:
  assumes U: "closing_laws U tell wipe P" and h: "finishable s h" and P: "P s"
  shows "uv__finish_close U h s = Some (finished tell wipe h s)"
proof -
  define c where "c = set_flag h UV_HANDLE_CLOSED s"
  have c: "htype c = htype s" "close_cb c = close_cb s" "caught_signals c = caught_signals s" "dispatched_signals c = dispatched_signals s"
    "qs c = qs s" "has_flag c h UV_HANDLE_CLOSED" by (simp_all add: c_def set_flag_def has_flag_def flag_or)
  have e: "c = s\<lparr>flags := flags c, qs := qs s, closing_handles := closing_handles s, time := time s, os := os s,
      provider_entry_time := provider_entry_time s, provider_idle_time := provider_idle_time s\<rparr>" by (simp add: c_def set_flag_def)
  have "P c" by (subst e) (use U P in \<open>simp only: closing_laws_def\<close>)
  then have d: "destroy_other U h c = Some (core_loop.more_update (wipe h) c)" if "htype s h \<in> destroyed_elsewhere"
    using U c(1,6) that by (simp add: closing_laws_def)
  have n: "call_close U cb h t = Some (core_loop.more_update (tell cb h) t)" for cb t using U by (simp add: closing_laws_def)
  have u: "uv__handle_unref h (core_loop.more_update f c) = core_loop.more_update f (uv__handle_unref h c)" for f
    by (simp add: uv__handle_unref_def Let_def has_flag_def clear_flag_def uv__active_handle_rm_def)
  have q: "qs (uv__handle_unref h c) = qs s" "close_cb (uv__handle_unref h c) = close_cb s"
    using c(2,5) by (simp_all add: uv__handle_unref_def Let_def has_flag_def clear_flag_def uv__active_handle_rm_def)
  have f: "(if htype s h \<in> destroyed_elsewhere then destroy_other U h c \<bind> finish_handle U h else finish_handle U h c) = Some (finished tell wipe h s)"
    by (cases "htype s h \<in> destroyed_elsewhere"; cases "close_cb s h")
       (simp_all add: finish_handle_def finished_def ending_def [abs_def] d n u q c_def [symmetric] c Let_def comp_def more_same)
  show ?thesis
    using h f unfolding uv__finish_close_def Let_def c_def [symmetric] c(1,3,4)
    by (auto simp: finishable_def destroyed_elsewhere_def)
qed

lemma unref_closing:
  assumes "has_flag s h UV_HANDLE_CLOSING"
  shows "uv__handle_unref h s = (if has_flag s h UV_HANDLE_REF then clear_flag h UV_HANDLE_REF s else s)"
proof -
  have "has_flag (clear_flag h UV_HANDLE_REF s) h UV_HANDLE_CLOSING"
    using assms by (subst has_clear_flag) simp_all
  then show ?thesis by (simp add: uv__handle_unref_def Let_def)
qed

lemma finished_eq:
  assumes "finishable s h"
  shows "finished tell wipe h s = core_loop.more_update (ending tell wipe s h)
    (s\<lparr>flags := (flags s)(h := (flags s h OR UV_HANDLE_CLOSED) AND (if has_flag s h UV_HANDLE_REF then NOT UV_HANDLE_REF else -1)),
       qs := QUEUE_REMOVE (NodeQ HandleK h) (qs s)\<rparr>)"
proof -
  let ?t = "set_flag h UV_HANDLE_CLOSED s"
  have c: "has_flag ?t h UV_HANDLE_CLOSING" using assms by (simp add: finishable_def flag_simps)
  have r: "has_flag ?t h UV_HANDLE_REF \<longleftrightarrow> has_flag s h UV_HANDLE_REF" by (simp add: flag_simps)
  show ?thesis
    unfolding finished_def Let_def unref_closing [OF c] r
    by (cases "has_flag s h UV_HANDLE_REF") (simp_all add: set_flag_def clear_flag_def more_same)
qed

lemma finished_fields:
  assumes "finishable s h"
  shows "qs (finished tell wipe h s) = QUEUE_REMOVE (NodeQ HandleK h) (qs s)"
    "active_handles (finished tell wipe h s) = active_handles s" "active_reqs (finished tell wipe h s) = active_reqs s"
    "next_closing (finished tell wipe h s) = next_closing s" "closing_handles (finished tell wipe h s) = closing_handles s"
    "stop_flag (finished tell wipe h s) = stop_flag s" "htype (finished tell wipe h s) = htype s" "close_cb (finished tell wipe h s) = close_cb s"
    "caught_signals (finished tell wipe h s) = caught_signals s" "dispatched_signals (finished tell wipe h s) = dispatched_signals s"
    "core_loop.more (finished tell wipe h s) = ending tell wipe s h (core_loop.more s)"
    "k \<noteq> h \<Longrightarrow> flags (finished tell wipe h s) k = flags s k"
    "has_flag (finished tell wipe h s) h UV_HANDLE_CLOSED"
proof -
  have "(x OR 2) AND m AND 2 \<noteq> (0 :: u32)" if "bit m 1" for x m :: u32
  proof -
    have "bit ((x OR 2) AND m AND 2) 1" using that by (simp add: bit_simps)
    then show ?thesis by (metis bit_0_eq bot_apply bot_bool_def)
  qed
  then show "has_flag (finished tell wipe h s) h UV_HANDLE_CLOSED"
    unfolding finished_eq [OF assms] by (simp add: has_flag_def bit_simps and.assoc)
qed (simp_all add: finished_eq [OF assms])

lemma finishable_frame:
  assumes "flags s' h = flags s h" "htype s' = htype s" "caught_signals s' = caught_signals s"
    "dispatched_signals s' = dispatched_signals s"
  shows "finishable s' h \<longleftrightarrow> finishable s h"
  using assms by (simp add: finishable_def has_flag_def)

lemma finished_law:
  assumes U: "closing_laws U tell wipe P" and P: "P s" and h: "finishable s h"
  shows "P (finished tell wipe h s)"
proof -
  define t where "t = s\<lparr>flags := (flags s)(h := (flags s h OR UV_HANDLE_CLOSED) AND (if has_flag s h UV_HANDLE_REF then NOT UV_HANDLE_REF else -1)),
    qs := QUEUE_REMOVE (NodeQ HandleK h) (qs s)\<rparr>"
  have e: "t = s\<lparr>flags := flags t, qs := qs t, closing_handles := closing_handles s, time := time s, os := os s,
      provider_entry_time := provider_entry_time s, provider_idle_time := provider_idle_time s\<rparr>" by (simp add: t_def)
  have "P t" by (subst e) (use U P in \<open>simp only: closing_laws_def\<close>)
  then have w: "P (core_loop.more_update (wipe h) t)" and n: "P (core_loop.more_update (tell cb h) t)"
    "P (core_loop.more_update (tell cb h) (core_loop.more_update (wipe h) t))" for cb
    using U unfolding closing_laws_def by blast+
  have "P (core_loop.more_update (ending tell wipe s h) t)"
    using \<open>P t\<close> w n by (cases "htype s h \<in> destroyed_elsewhere"; cases "close_cb s h")
      (simp_all add: ending_def [abs_def] Let_def comp_def more_same)
  then show ?thesis unfolding finished_eq [OF h] t_def .
qed

lemma run_closing_loop_ok:
  assumes U: "closing_laws U tell wipe P"
  shows "P s \<Longrightarrow> chain (next_closing s) p hs \<Longrightarrow> distinct hs \<Longrightarrow> \<forall>h \<in> set hs. finishable s h \<Longrightarrow>
    queues (qs s) Q f \<Longrightarrow> LoopQ HandleK \<in> Q \<Longrightarrow> NodeQ HandleK ` set hs \<subseteq> set (f (LoopQ HandleK)) \<Longrightarrow>
    \<exists>s' fs. run_closing_loop U p s = Some s' \<and> queues (qs s') Q (f(LoopQ HandleK := fs)) \<and>
      set fs = set (f (LoopQ HandleK)) - NodeQ HandleK ` set hs \<and>
      core_loop.more s' = fold (ending tell wipe s) hs (core_loop.more s) \<and>
      active_handles s' = active_handles s \<and> active_reqs s' = active_reqs s \<and>
      closing_handles s' = closing_handles s \<and> stop_flag s' = stop_flag s \<and>
      (\<forall>h. flags s' h \<noteq> flags s h \<longrightarrow> h \<in> set hs) \<and> (\<forall>h \<in> set hs. has_flag s' h UV_HANDLE_CLOSED)"
proof (induction hs arbitrary: s p f)
  case Nil
  then have "run_closing_loop U p s = Some s" by (simp add: run_closing_loop.simps)
  then show ?case using Nil.prems(5) by (intro exI [of _ s] exI [of _ "f (LoopQ HandleK)"]) simp
next
  case (Cons h hs)
  let ?H = "LoopQ HandleK"
  have p: "p = Some h" "chain (next_closing s) (next_closing s h) hs" using Cons.prems(2) by simp_all
  have fin: "finishable s h" and hs: "h \<notin> set hs" "distinct hs" and mem: "NodeQ HandleK h \<in> set (f ?H)"
    using Cons.prems by simp_all
  note ff = finished_fields [where tell = tell and wipe = wipe, OF fin]
  define t where "t = finished tell wipe h s"
  have step: "run_closing_loop U p s = run_closing_loop U (next_closing s h) t"
    by (subst run_closing_loop.simps) (simp add: p(1) finish_close_eq [OF U fin Cons.prems(1)] t_def)
  have q: "queues (qs t) Q (f(?H := remove1 (NodeQ HandleK h) (f ?H)))"
    using qs.remove_law [OF Cons.prems(5,6) mem] by (simp add: t_def ff)
  have dist: "distinct (f ?H)" using qs.distinct_law [OF Cons.prems(5,6)] by simp
  have en: "ending tell wipe t = ending tell wipe s" by (simp add: fun_eq_iff ending_def t_def ff)
  have Pt: "P t" unfolding t_def by (rule finished_law [OF U Cons.prems(1) fin])
  have c: "chain (next_closing t) (next_closing s h) hs" using p(2) by (simp add: t_def ff)
  have fl: "flags t k = flags s k" if "k \<noteq> h" for k using ff(12) [OF that] by (simp add: t_def)
  have "finishable t k" if "k \<in> set hs" for k
  proof -
    have "k \<noteq> h" "finishable s k" using that hs(1) Cons.prems(4) by auto
    then show ?thesis using finishable_frame [of t k s] fl by (simp add: t_def ff)
  qed
  then have fn: "\<forall>k \<in> set hs. finishable t k" by blast
  have sub: "NodeQ HandleK ` set hs \<subseteq> set ((f(?H := remove1 (NodeQ HandleK h) (f ?H))) ?H)"
    using Cons.prems(7) hs(1) dist by auto
  from Cons.IH [OF Pt c hs(2) fn q Cons.prems(6) sub] obtain s' fs where
    s': "run_closing_loop U (next_closing s h) t = Some s'"
      "queues (qs s') Q ((f(?H := remove1 (NodeQ HandleK h) (f ?H)))(?H := fs))"
      "set fs = set ((f(?H := remove1 (NodeQ HandleK h) (f ?H))) ?H) - NodeQ HandleK ` set hs"
      "core_loop.more s' = fold (ending tell wipe t) hs (core_loop.more t)"
      "active_handles s' = active_handles t" "active_reqs s' = active_reqs t"
      "closing_handles s' = closing_handles t" "stop_flag s' = stop_flag t"
      "\<forall>k. flags s' k \<noteq> flags t k \<longrightarrow> k \<in> set hs" "\<forall>k \<in> set hs. has_flag s' k UV_HANDLE_CLOSED" by blast
  have "flags s' h = flags t h" using s'(9) hs(1) by blast
  then have ch: "has_flag s' h UV_HANDLE_CLOSED" using ff(13) by (simp add: has_flag_def t_def)
  show ?case
  proof (intro exI conjI)
    show "run_closing_loop U p s = Some s'" using step s'(1) by simp
    show "queues (qs s') Q (f(?H := fs))" using s'(2) unfolding fun_upd_upd .
    show "set fs = set (f ?H) - NodeQ HandleK ` set (h # hs)" using s'(3) dist by auto
    show "core_loop.more s' = fold (ending tell wipe s) (h # hs) (core_loop.more s)"
      using s'(4) by (simp add: en) (simp add: t_def ff)
    show "\<forall>k. flags s' k \<noteq> flags s k \<longrightarrow> k \<in> set (h # hs)" using s'(9) fl by fastforce
    show "\<forall>k \<in> set (h # hs). has_flag s' k UV_HANDLE_CLOSED" using s'(10) ch by simp
  qed (use s'(5-8) in \<open>simp_all add: t_def ff\<close>)
qed

section \<open>A turn in which nothing happens but closing\<close>

text \<open>
  \<open>calm s s'\<close>: only the time, the state of the kernel, the metrics and the queues differ.
\<close>

definition calm :: "('w, 'a) core_loop_scheme \<Rightarrow> ('w, 'a) core_loop_scheme \<Rightarrow> bool" where
  "calm s s' \<longleftrightarrow> (\<exists>t w p i q. s' = s\<lparr>time := t, os := w, provider_entry_time := p, provider_idle_time := i, qs := q\<rparr>)"

lemma calmI:
  "calm s s" "calm s (s\<lparr>time := t\<rparr>)" "calm s (s\<lparr>os := w\<rparr>)" "calm s (s\<lparr>qs := q\<rparr>)"
  "calm s (s\<lparr>provider_entry_time := p, provider_idle_time := i\<rparr>)"
proof -
  have e: "s = s\<lparr>time := time s, os := os s, provider_entry_time := provider_entry_time s,
      provider_idle_time := provider_idle_time s, qs := qs s\<rparr>" by simp
  show "calm s s" unfolding calm_def using e by blast
  show "calm s (s\<lparr>time := t\<rparr>)" unfolding calm_def
    by (intro exI [of _ t] exI [of _ "os s"] exI [of _ "provider_entry_time s"] exI [of _ "provider_idle_time s"] exI [of _ "qs s"]) simp
  show "calm s (s\<lparr>os := w\<rparr>)" unfolding calm_def
    by (intro exI [of _ "time s"] exI [of _ w] exI [of _ "provider_entry_time s"] exI [of _ "provider_idle_time s"] exI [of _ "qs s"]) simp
  show "calm s (s\<lparr>qs := q\<rparr>)" unfolding calm_def
    by (intro exI [of _ "time s"] exI [of _ "os s"] exI [of _ "provider_entry_time s"] exI [of _ "provider_idle_time s"] exI [of _ q]) simp
  show "calm s (s\<lparr>provider_entry_time := p, provider_idle_time := i\<rparr>)" unfolding calm_def
    by (intro exI [of _ "time s"] exI [of _ "os s"] exI [of _ p] exI [of _ i] exI [of _ "qs s"]) simp
qed

lemma calm_trans: "calm s t \<Longrightarrow> calm t u \<Longrightarrow> calm s u"
  unfolding calm_def by (elim exE) (intro exI, simp)

lemma calm_fields:
  assumes "calm s s'"
  shows "flags s' = flags s" "htype s' = htype s" "next_closing s' = next_closing s"
    "closing_handles s' = closing_handles s" "active_handles s' = active_handles s" "active_reqs s' = active_reqs s"
    "stop_flag s' = stop_flag s" "timer_heap s' = timer_heap s" "nfds s' = nfds s" "loop_flags s' = loop_flags s"
    "internal_flags s' = internal_flags s" "no_epoll_wait s' = no_epoll_wait s" "no_epoll_pwait s' = no_epoll_pwait s"
    "close_cb s' = close_cb s" "caught_signals s' = caught_signals s" "dispatched_signals s' = dispatched_signals s"
    "core_loop.more s' = core_loop.more s"
  using assms unfolding calm_def by auto

lemma update_time_calm: "calm s (uv__update_time K s) \<and> qs (uv__update_time K s) = qs s"
  by (auto simp: uv__update_time_def sys_case intro: calm_trans [OF calmI(3) calmI(2)])

lemma metrics_calm: "calm s (uv__metrics_update_idle_time K s) \<and> qs (uv__metrics_update_idle_time K s) = qs s"
  by (auto simp: uv__metrics_update_idle_time_def sys_case intro: calmI calm_trans [OF calmI(3) calmI(5)])

text \<open>A kernel that has no event to report.\<close>

definition idle_kernel :: "'w io_kernel \<Rightarrow> bool" where
  "idle_kernel K \<longleftrightarrow> (\<forall>fd n w. fst (k_epoll_wait K fd n 0 w) = Inr [] \<and> fst (k_epoll_pwait K fd n 0 w) = Inr []) \<and>
     (\<forall>b w. fst (k_sigmask K b w) = Inr ())"

lemma idle_mask:
  assumes "idle_kernel K"
  shows "\<exists>w. mask_sigprof K b s = Some (s\<lparr>os := w\<rparr>)"
proof (cases "loop_flags s AND UV_LOOP_BLOCK_SIGPROF \<noteq> 0 \<and> no_epoll_pwait s")
  case True
  have "fst (k_sigmask K b (os s)) = Inr ()" using assms unfolding idle_kernel_def by blast
  then have "mask_sigprof K b s = Some (s\<lparr>os := snd (k_sigmask K b (os s))\<rparr>)"
    using True by (simp add: mask_sigprof_def sys_case)
  then show ?thesis by blast
next
  case False
  then have "mask_sigprof K b s = Some (s\<lparr>os := os s\<rparr>)" by (auto simp: mask_sigprof_def)
  then show ?thesis by blast
qed

lemma idle_wait:
  fixes s :: "('w, 'a) core_loop_scheme"
  assumes K: "idle_kernel K"
  shows "\<exists>s'. poll_wait K 0 s = Some (Inr [], s') \<and> calm s s' \<and> qs s' = qs s"
proof -
  obtain w1 where m1: "mask_sigprof K True s = Some (s\<lparr>os := w1\<rparr>)" using idle_mask [OF K] by blast
  define w2 where "w2 = (if no_epoll_wait s \<or> loop_flags s AND UV_LOOP_BLOCK_SIGPROF \<noteq> 0 \<and> \<not> no_epoll_pwait s
    then snd (k_epoll_pwait K (backend_fd s) 1024 0 w1) else snd (k_epoll_wait K (backend_fd s) 1024 0 w1))"
  obtain w3 where m3: "mask_sigprof K False (s\<lparr>os := w2\<rparr>) = Some (s\<lparr>os := w2, os := w3\<rparr>)"
    using idle_mask [OF K] by blast
  have "poll_wait K 0 s = Some (Inr [], uv__update_time K (s\<lparr>os := w2, os := w3\<rparr>))"
    using K m3 by (auto simp: poll_wait_def m1 sys_case idle_kernel_def w2_def)
  moreover have "calm s (s\<lparr>os := w2, os := w3\<rparr>)" by (simp add: calmI)
  ultimately show ?thesis using update_time_calm [of "s\<lparr>os := w2, os := w3\<rparr>" K] calm_trans by fastforce
qed

lemma idle_poll:
  fixes s :: "('w, 'a) core_loop_scheme"
  assumes K: "idle_kernel K" and e: "QUEUE_EMPTY (qs s) (LoopQ WatcherK)"
  shows "\<exists>s'. uv__io_poll K run_io 0 s = Some s' \<and> calm s s' \<and> qs s' = qs s"
proof (cases "nfds s = 0")
  case True
  then show ?thesis using e calmI(1) by (auto simp: uv__io_poll_def)
next
  case False
  obtain s' where s': "poll_wait K 0 s = Some (Inr [], s')" "calm s s'" "qs s' = qs s" using idle_wait [OF K] by blast
  have reg: "register_loop K s = Some s" using e by (simp add: register_loop.simps)
  have "poll_round K run_io base 0 0 rt 48 reset s = Some (PollReturn, s')" for base rt reset
    by (simp add: poll_round_def s'(1) update_timeout_def)
  then have "poll_rounds K run_io base 0 0 rt 48 reset s = Some s'" for base rt reset
    by (subst poll_rounds.simps) simp
  then show ?thesis using False reg s'(2,3) by (auto simp: uv__io_poll_def Let_def)
qed

lemma run_watchers_empty:
  fixes s :: "('w, 'a) core_loop_scheme"
  assumes q: "queues (qs s) Q f" and k: "LoopQ k \<in> Q" "f (LoopQ k) = []" and un: "unused Q f RUN_QUEUE"
  shows "\<exists>s'. uv__run_watchers cb k s = Some s' \<and> calm s s' \<and> queues (qs s') Q f"
proof -
  let ?s = "s\<lparr>qs := QUEUE_INIT RUN_QUEUE (qs s)\<rparr>"
  have "QUEUE_EMPTY (qs s) (LoopQ k)" using qs.empty_law [OF q k(1)] k(2) by simp
  then have m: "move_queue (LoopQ k) RUN_QUEUE s = ?s" by (simp add: move_queue_def QUEUE_MOVE_def)
  have q1: "queues (qs ?s) (insert RUN_QUEUE Q) (f(RUN_QUEUE := []))" using qs.init_law [OF q un] by simp
  have "QUEUE_EMPTY (qs ?s) RUN_QUEUE" using qs.empty_law [OF q1, of RUN_QUEUE] by simp
  then have "uv__run_watchers cb k s = Some ?s"
    unfolding uv__run_watchers_def Let_def m by (subst rotate_loop.simps) simp
  moreover have "queues (qs ?s) Q f"
    by (rule queues_cong [OF qs.subset_law [OF q1]]) (use unused_notin [OF un] in auto)
  ultimately show ?thesis using calmI(4) by blast
qed

text \<open>The loop has only closing handles left.\<close>

definition only_closing :: "('w, 'a) core_loop_scheme \<Rightarrow> qaddr set \<Rightarrow> (qaddr \<Rightarrow> qaddr list) \<Rightarrow> addr list \<Rightarrow> bool" where
  "only_closing s Q f hs \<longleftrightarrow>
     active_handles s = 0 \<and> active_reqs s = 0 \<and> \<not> stop_flag s \<and> heap_min (timer_heap s) = None \<and>
     queues (qs s) Q f \<and> LoopQ HandleK \<in> Q \<and> unused Q f RUN_QUEUE \<and>
     (\<forall>k \<in> {PendingK, IdleK, PrepareK, CheckK, WatcherK}. LoopQ k \<in> Q \<and> f (LoopQ k) = []) \<and>
     chain (next_closing s) (closing_handles s) hs \<and> distinct hs \<and> (\<forall>h \<in> set hs. finishable s h) \<and>
     NodeQ HandleK ` set hs \<subseteq> set (f (LoopQ HandleK))"

lemma only_closing_calm:
  assumes "only_closing s Q f hs" and "calm s s'" and "queues (qs s') Q f"
  shows "only_closing s' Q f hs"
proof -
  note c = calm_fields [OF assms(2)]
  have "finishable s' h \<longleftrightarrow> finishable s h" for h by (rule finishable_frame) (simp_all add: c)
  then show ?thesis using assms(1,3) by (simp add: only_closing_def c)
qed

lemma ending_frame:
  assumes "htype s' = htype s" "close_cb s' = close_cb s"
  shows "ending tell wipe s' = ending tell wipe s"
  using assms by (simp add: fun_eq_iff ending_def)

lemma calm_law:
  assumes "closing_laws U tell wipe P" and "P s" and "calm s s'"
  shows "P (s'\<lparr>closing_handles := c\<rparr>)"
proof -
  from assms(3) obtain t w p i q where e: "s' = s\<lparr>time := t, os := w, provider_entry_time := p, provider_idle_time := i, qs := q\<rparr>"
    unfolding calm_def by blast
  have "P (s\<lparr>flags := flags s, qs := q, closing_handles := c, time := t, os := w, provider_entry_time := p, provider_idle_time := i\<rparr>)"
    using assms(1,2) unfolding closing_laws_def by blast
  moreover have "s'\<lparr>closing_handles := c\<rparr> = s\<lparr>flags := flags s, qs := q, closing_handles := c, time := t, os := w,
      provider_entry_time := p, provider_idle_time := i\<rparr>" by (simp add: e)
  ultimately show ?thesis by simp
qed

lemma closing_turn:
  assumes K: "idle_kernel K" and U: "closing_laws U tell wipe P" and P: "P s" and oc: "only_closing s Q f hs" and ne: "hs \<noteq> []"
  shows "\<exists>s' fs. uv_run_turn K U UV_RUN_DEFAULT s = Some s' \<and> \<not> uv__loop_alive s' \<and> \<not> stop_flag s' \<and>
    queues (qs s') Q (f(LoopQ HandleK := fs)) \<and> set fs = set (f (LoopQ HandleK)) - NodeQ HandleK ` set hs \<and>
    core_loop.more s' = fold (ending tell wipe s) hs (core_loop.more s) \<and>
    (\<forall>h \<in> set hs. has_flag s' h UV_HANDLE_CLOSED)"
proof -
  have em: "QUEUE_EMPTY (qs t) (LoopQ k)" if "queues (qs t) Q f" "k \<in> {PendingK, IdleK, PrepareK, CheckK, WatcherK}"
    for t :: "('a, 'b) core_loop_scheme" and k
    using oc that qs.empty_law [OF that(1), of "LoopQ k"] unfolding only_closing_def by blast
  have w: "\<exists>t'. uv__run_watchers (call_watcher_cb U) k t = Some t' \<and> calm s t' \<and> queues (qs t') Q f"
    if "calm s t" "queues (qs t) Q f" "k \<in> {PendingK, IdleK, PrepareK, CheckK, WatcherK}" for t k
    using run_watchers_empty [OF that(2), of k] oc that(1,3) calm_trans unfolding only_closing_def by blast
  have q: "queues (qs s) Q f" using oc unfolding only_closing_def by blast
  define s1 where "s1 = uv__update_time K s"
  have s1: "calm s s1" "queues (qs s1) Q f" using update_time_calm [of s K] q by (simp_all add: s1_def)
  have t: "uv__run_timers (call_timer U) s1 = Some s1"
    using oc calm_fields(8) [OF s1(1)] by (subst uv__run_timers.simps) (simp add: only_closing_def)
  have p: "uv__run_pending (call_io U) s1 = Some (False, s1)"
    using em [OF s1(2), of PendingK] by (simp add: uv__run_pending_def)
  obtain s2 where s2: "uv__run_watchers (call_watcher_cb U) IdleK s1 = Some s2" "calm s s2" "queues (qs s2) Q f"
    using w [OF s1, of IdleK] by auto
  obtain s3 where s3: "uv__run_watchers (call_watcher_cb U) PrepareK s2 = Some s3" "calm s s3" "queues (qs s3) Q f"
    using w [OF s2(2,3), of PrepareK] by auto
  have "closing_handles s \<noteq> None" using oc ne by (cases hs) (auto simp: only_closing_def)
  then have b: "uv__backend_timeout s3 = 0" using calm_fields(4) [OF s3(2)] by (auto simp: uv__backend_timeout_def)
  obtain s4 where s4: "uv__io_poll K (call_io U) 0 s3 = Some s4" "calm s3 s4" "qs s4 = qs s3"
    using idle_poll [OF K] em [OF s3(3), of WatcherK] by blast
  define s5 where "s5 = uv__metrics_update_idle_time K s4"
  have s5: "calm s s5" "queues (qs s5) Q f"
    using metrics_calm [of s4 K] calm_trans [OF s3(2) calm_trans [OF s4(2)]] s4(3) s3(3) by (auto simp: s5_def)
  obtain s6 where s6: "uv__run_watchers (call_watcher_cb U) CheckK s5 = Some s6" "calm s s6" "queues (qs s6) Q f"
    using w [OF s5, of CheckK] by auto
  note c6 = calm_fields [OF s6(2)]
  have o6: "only_closing s6 Q f hs" by (rule only_closing_calm [OF oc s6(2,3)])
  define s7 where "s7 = s6\<lparr>closing_handles := None\<rparr>"
  have P7: "P s7" unfolding s7_def using calm_law [OF U P s6(2)] .
  have "finishable s7 h \<longleftrightarrow> finishable s6 h" for h by (rule finishable_frame) (simp_all add: s7_def)
  then have pre: "chain (next_closing s7) (closing_handles s6) hs" "distinct hs" "\<forall>h \<in> set hs. finishable s7 h"
    "queues (qs s7) Q f" "LoopQ HandleK \<in> Q" "NodeQ HandleK ` set hs \<subseteq> set (f (LoopQ HandleK))"
    using o6 by (simp_all add: only_closing_def s7_def)
  obtain s' fs where s': "run_closing_loop U (closing_handles s6) s7 = Some s'"
    "queues (qs s') Q (f(LoopQ HandleK := fs))" "set fs = set (f (LoopQ HandleK)) - NodeQ HandleK ` set hs"
    "core_loop.more s' = fold (ending tell wipe s7) hs (core_loop.more s7)"
    "active_handles s' = active_handles s7" "active_reqs s' = active_reqs s7" "closing_handles s' = closing_handles s7"
    "stop_flag s' = stop_flag s7" "\<forall>h \<in> set hs. has_flag s' h UV_HANDLE_CLOSED"
    using run_closing_loop_ok [OF U P7 pre] by blast
  have "uv__run_closing_handles U s6 = Some s'" using s'(1) by (simp add: uv__run_closing_handles_def s7_def)
  then have "uv_run_turn K U UV_RUN_DEFAULT s = Some s'"
    by (simp add: uv_run_turn_def s1_def [symmetric] t p s2(1) s3(1) b s4(1) s5_def [symmetric] s6(1))
  moreover have "\<not> uv__loop_alive s'"
  proof -
    have "QUEUE_EMPTY (qs s') (LoopQ PendingK)"
      using qs.empty_law [OF s'(2), of "LoopQ PendingK"] oc by (simp add: only_closing_def)
    then show ?thesis
      using s'(5-7) oc c6
      by (simp add: uv__loop_alive_def uv__has_active_handles_def uv__has_active_reqs_def only_closing_def s7_def)
  qed
  moreover have "core_loop.more s' = fold (ending tell wipe s) hs (core_loop.more s)"
    using s'(4) ending_frame [of s7 s tell wipe] by (simp add: s7_def c6)
  moreover have "\<not> stop_flag s'" using s'(8) o6 by (simp add: s7_def only_closing_def)
  ultimately show ?thesis using s'(2,3,9) by blast
qed

lemma run_only_closing:
  assumes "idle_kernel K" and "closing_laws U tell wipe P" and "P s" and oc: "only_closing s Q f hs" and ne: "hs \<noteq> []"
  shows "\<exists>s' fs. uv_run_turn K U UV_RUN_DEFAULT s = Some s' \<and> uv_run K U UV_RUN_DEFAULT s = Some (False, s') \<and>
    queues (qs s') Q (f(LoopQ HandleK := fs)) \<and> set fs = set (f (LoopQ HandleK)) - NodeQ HandleK ` set hs \<and>
    core_loop.more s' = fold (ending tell wipe s) hs (core_loop.more s) \<and>
    (\<forall>h \<in> set hs. has_flag s' h UV_HANDLE_CLOSED)"
proof -
  obtain s' fs where s': "uv_run_turn K U UV_RUN_DEFAULT s = Some s'" "\<not> uv__loop_alive s'" "\<not> stop_flag s'"
    and r: "queues (qs s') Q (f(LoopQ HandleK := fs))" "set fs = set (f (LoopQ HandleK)) - NodeQ HandleK ` set hs"
    "core_loop.more s' = fold (ending tell wipe s) hs (core_loop.more s)"
    "\<forall>h \<in> set hs. has_flag s' h UV_HANDLE_CLOSED"
    using closing_turn [OF assms] by blast
  have al: "uv__loop_alive s" using oc ne by (cases hs) (auto simp: uv__loop_alive_def only_closing_def)
  have st: "\<not> stop_flag s" using oc by (simp add: only_closing_def)
  have e: "uv_run_loop K U UV_RUN_DEFAULT False s' = Some (False, s')" by (subst uv_run_loop.simps) simp
  have "uv_run_loop K U UV_RUN_DEFAULT True s = Some (False, s')"
    by (subst uv_run_loop.simps) (use st s' e in simp)
  then have "uv_run K U UV_RUN_DEFAULT s = Some (False, s')" using al s'(3) by (simp add: uv_run_def)
  then show ?thesis using r s'(1) by blast
qed

text \<open>What the loop of \<open>uv_run\<close> returns.\<close>

lemma run_loop_result:
  assumes "uv_run_loop K U mode r s = Some (r', s')" and "r \<longleftrightarrow> uv__loop_alive s"
  shows "(r' \<longleftrightarrow> uv__loop_alive s') \<and> (mode = UV_RUN_DEFAULT \<and> r' \<longrightarrow> stop_flag s')"
proof -
  have "(r \<longleftrightarrow> uv__loop_alive s) \<longrightarrow>
      (fst x \<longleftrightarrow> uv__loop_alive (snd x)) \<and> (mode = UV_RUN_DEFAULT \<and> fst x \<longrightarrow> stop_flag (snd x))"
    if "uv_run_loop K U mode r s = Some x" for x
  proof (rule uv_run_loop.raw_induct [where P = "\<lambda>K U mode r s x. (r \<longleftrightarrow> uv__loop_alive s) \<longrightarrow>
      (fst x \<longleftrightarrow> uv__loop_alive (snd x)) \<and> (mode = UV_RUN_DEFAULT \<and> fst x \<longrightarrow> stop_flag (snd x))", OF _ that])
    fix loop and K :: "'a io_kernel" and U :: "('a, 'b) core_loop_scheme loop_calls" and mode r s x
    assume IH: "\<And>K U mode r s x. loop K U mode r s = Some x \<Longrightarrow> (r \<longleftrightarrow> uv__loop_alive s) \<longrightarrow>
        (fst x \<longleftrightarrow> uv__loop_alive (snd x)) \<and> (mode = UV_RUN_DEFAULT \<and> fst x \<longrightarrow> stop_flag (snd x))"
      and eq: "(if r \<and> \<not> stop_flag s then
          uv_run_turn K U mode s \<bind> (\<lambda>s.
            if mode = UV_RUN_ONCE \<or> mode = UV_RUN_NOWAIT then Some (uv__loop_alive s, s)
            else loop K U mode (uv__loop_alive s) s)
        else Some (r, s)) = Some x"
    show "(r \<longleftrightarrow> uv__loop_alive s) \<longrightarrow>
        (fst x \<longleftrightarrow> uv__loop_alive (snd x)) \<and> (mode = UV_RUN_DEFAULT \<and> fst x \<longrightarrow> stop_flag (snd x))"
    proof (cases "r \<and> \<not> stop_flag s")
      case False
      then show ?thesis using eq by auto
    next
      case True
      then obtain t where t: "uv_run_turn K U mode s = Some t"
        "(if mode = UV_RUN_ONCE \<or> mode = UV_RUN_NOWAIT then Some (uv__loop_alive t, t)
          else loop K U mode (uv__loop_alive t) t) = Some x"
        using eq by (auto split: Option.bind_splits)
      show ?thesis
      proof (cases "mode = UV_RUN_ONCE \<or> mode = UV_RUN_NOWAIT")
        case True
        then show ?thesis using t(2) by auto
      next
        case False
        then have "loop K U mode (uv__loop_alive t) t = Some x" using t(2) by simp
        from IH [OF this] show ?thesis by blast
      qed
    qed
  qed
  then show ?thesis using assms by fastforce
qed

lemma alive_frame: "uv__loop_alive (uv__update_time K s) = uv__loop_alive s" "uv__loop_alive (s\<lparr>stop_flag := b\<rparr>) = uv__loop_alive s"
  by (simp_all add: uv__loop_alive_def uv__update_time_def sys_case uv__has_active_handles_def uv__has_active_reqs_def)

text \<open>Closing a prepare, check or idle handle.\<close>

lemma watcher_stop_effect:
  "uv_watcher_stop k h s = (if uv__is_active s h then uv__handle_stop h (s\<lparr>qs := QUEUE_REMOVE (NodeQ k h) (qs s)\<rparr>) else s)"
  by (simp add: uv_watcher_stop_def Let_def)

lemma watcher_stop_fields:
  fixes s :: "('w, 'a) core_loop_scheme"
  shows "htype (uv_watcher_stop k h s) = htype s" "close_cb (uv_watcher_stop k h s) = close_cb s"
    "closing_handles (uv_watcher_stop k h s) = closing_handles s" "next_closing (uv_watcher_stop k h s) = next_closing s"
    "core_loop.more (uv_watcher_stop k h s) = core_loop.more s"
    "caught_signals (uv_watcher_stop k h s) = caught_signals s" "dispatched_signals (uv_watcher_stop k h s) = dispatched_signals s"
  unfolding watcher_stop_effect by (simp_all add: handle_defs set_flag_def clear_flag_def)

lemma watcher_stop_flags:
  "\<not> has_flag (uv_watcher_stop k h s) h UV_HANDLE_ACTIVE"
  "UV_HANDLE_ACTIVE AND m = 0 \<Longrightarrow> has_flag (uv_watcher_stop k h s) j m \<longleftrightarrow> has_flag s j m"
  unfolding watcher_stop_effect by (simp_all add: uv__is_active_def flag_simps)

section \<open>Properties\<close>

text \<open>For the examples: a list of what was destroyed (\<open>False\<close>) and whose callback was called (\<open>True\<close>).\<close>

abbreviation add_note :: "bool \<Rightarrow> addr \<Rightarrow> (bool \<times> addr) list \<Rightarrow> (bool \<times> addr) list" where
  "add_note b h l \<equiv> l @ [(b, h)]"

definition closing_calls :: "('w, (bool \<times> addr) list) core_loop_scheme loop_calls" where
  "closing_calls = \<lparr>call_timer = \<lambda>_ _. Some, call_watcher_cb = \<lambda>_ _. Some, call_io = \<lambda>_ _ _. Some,
     call_close = \<lambda>cb h s. Some (core_loop.more_update (add_note True h) s), close_other = \<lambda>_. Some,
     destroy_other = \<lambda>h s. Some (core_loop.more_update (add_note False h) s)\<rparr>"

lemma closing_calls_laws: "closing_laws closing_calls (\<lambda>_. add_note True) (add_note False) (\<lambda>_. True)"
  by (simp add: closing_laws_def closing_calls_def)


definition demo_core_loop :: "(fd_table, (bool \<times> addr) list) core_loop_scheme" where
  "demo_core_loop = core_loop.extend (async_loop.extend (poll_loop.extend demo_poll_loop (async_loop.fields (\<lambda>_. None) (\<lambda>_. 0) (-1)))
      (core_loop.fields (\<lambda>_. Some 1) (\<lambda>_. 0) (\<lambda>_. 0))) []
     \<lparr>qs := QUEUE_INSERT_TAIL (LoopQ HandleK) (NodeQ HandleK 4) \<lparr>QUEUE_NEXT = \<lambda>q. q, QUEUE_PREV = \<lambda>q. q\<rparr>,
      flags := (\<lambda>_. 0)(4 := UV_HANDLE_CLOSING OR UV_HANDLE_REF), htype := \<lambda>_. UV_TCP,
      timer_heap := heap_init (timer_heap demo_poll_loop), active_handles := 0, active_reqs := 0, stop_flag := False,
      closing_handles := Some 4, next_closing := \<lambda>_. None\<rparr>"

abbreviation demo_heads :: "qaddr set" where
  "demo_heads \<equiv> LoopQ ` {HandleK, PendingK, IdleK, PrepareK, CheckK, WatcherK}"

lemma demo_idle_kernel: "idle_kernel demo_io_kernel"
  by (simp add: idle_kernel_def demo_io_kernel_def fd_kernel.defs io_kernel.defs)

lemma demo_only_closing:
  "only_closing demo_core_loop demo_heads ((\<lambda>_. [])(LoopQ HandleK := [NodeQ HandleK 4])) [4]"
proof -
  have "queues \<lparr>QUEUE_NEXT = \<lambda>q. q, QUEUE_PREV = \<lambda>q. q\<rparr> demo_heads (\<lambda>_. [])"
    by (auto simp: queues_def queue_at_Nil qcell_def)
  from qs.insert_tail_law [OF this, of "LoopQ HandleK" "NodeQ HandleK 4"]
  have q: "queues (qs demo_core_loop) demo_heads ((\<lambda>_. [])(LoopQ HandleK := [NodeQ HandleK 4]))"
    by (simp add: unused_def qcell_def demo_core_loop_def)
  have "finishable demo_core_loop 4"
    by (simp add: finishable_def destroyed_elsewhere_def has_flag_def demo_core_loop_def)
  then show ?thesis
    unfolding only_closing_def using q
    by (auto simp: unused_def qcell_def) (auto simp: demo_core_loop_def heap_init_def heap_min_def)
qed


text \<open>
  What \<open>uv_run\<close> returns, for all callbacks: whether the loop is alive; and the stop flag is clear
  then.  In the default mode it is alive only if the loop was stopped.
\<close>

theorem run_result:
  assumes "uv_run K U mode s = Some (r, s')"
  shows "(r \<longleftrightarrow> uv__loop_alive s') \<and> \<not> stop_flag s' \<and>
    (mode = UV_RUN_DEFAULT \<and> r \<longrightarrow> (\<exists>t. stop_flag t \<and> s' = t\<lparr>stop_flag := False\<rparr>))"
proof -
  let ?s = "if \<not> uv__loop_alive s then uv__update_time K s else s"
  obtain t where t: "uv_run_loop K U mode (uv__loop_alive s) ?s = Some (r, t)"
    "s' = (if stop_flag t then t\<lparr>stop_flag := False\<rparr> else t)"
    using assms by (auto simp: uv_run_def Let_def split: Option.bind_splits prod.splits)
  have "uv__loop_alive s \<longleftrightarrow> uv__loop_alive ?s" by (simp add: alive_frame)
  note l = run_loop_result [OF t(1) this]
  show ?thesis
  proof (cases "stop_flag t")
    case True
    then show ?thesis using l t(2) by (auto simp: alive_frame)
  next
    case False
    then have "s' = t" "\<not> (mode = UV_RUN_DEFAULT \<and> r)" using l t(2) by auto
    then show ?thesis using False l by blast
  qed
qed

theorem run_result_witness:
  "\<exists>s'. uv_run demo_io_kernel closing_calls UV_RUN_DEFAULT demo_core_loop = Some (False, s') \<and>
    \<not> uv__loop_alive s' \<and> \<not> stop_flag s'"
proof -
  obtain s' where "uv_run demo_io_kernel closing_calls UV_RUN_DEFAULT demo_core_loop = Some (False, s')"
    using run_only_closing [OF demo_idle_kernel closing_calls_laws _ demo_only_closing] by auto
  then show ?thesis using run_result by blast
qed

text \<open>
  \<open>uv_close\<close> calls nothing: on a prepare, check or idle handle that is not closing it returns with
  the handle stopped, marked and at the head of the list of closing handles, ready for
  \<open>uv__finish_close\<close>; a second \<open>uv_close\<close> of the handle is caught by the assertion.
\<close>

theorem close_defers_the_callback:
  assumes "\<not> uv__is_closing s h" and "htype s h \<in> {UV_PREPARE, UV_CHECK, UV_IDLE}"
  shows "\<exists>s'. uv_close U relax h cb s = Some s' \<and> \<not> uv__is_active s' h \<and> close_cb s' h = cb \<and>
    closing_handles s' = Some h \<and> next_closing s' h = closing_handles s \<and> core_loop.more s' = core_loop.more s \<and>
    finishable s' h \<and> uv_close U relax h cb2 s' = None"
proof -
  define k where "k = (if htype s h = UV_PREPARE then PrepareK else if htype s h = UV_CHECK then CheckK else IdleK)"
  define s1 where "s1 = (set_flag h UV_HANDLE_CLOSING s)\<lparr>close_cb := (close_cb (set_flag h UV_HANDLE_CLOSING s))(h := cb)\<rparr>"
  define s2 where "s2 = uv_watcher_stop k h s1"
  define s' where "s' = s2\<lparr>next_closing := (next_closing s2)(h := closing_handles s2), closing_handles := Some h\<rparr>"
  have s1: "htype s1 = htype s" "closing_handles s1 = closing_handles s" "core_loop.more s1 = core_loop.more s"
    "close_cb s1 h = cb" by (simp_all add: s1_def set_flag_def)
  have "\<not> has_flag s h UV_HANDLE_CLOSED" using assms(1) by (simp add: is_closing_iff)
  then have f1: "has_flag s1 h UV_HANDLE_CLOSING" "\<not> has_flag s1 h UV_HANDLE_CLOSED"
    by (simp_all add: s1_def has_flag_def set_flag_def flag_or)
  have f2: "has_flag s2 h UV_HANDLE_CLOSING" "\<not> has_flag s2 h UV_HANDLE_CLOSED" "\<not> has_flag s2 h UV_HANDLE_ACTIVE"
    using f1 by (simp_all add: s2_def watcher_stop_flags)
  have fl: "has_flag s' j m \<longleftrightarrow> has_flag s2 j m" for j m by (simp add: s'_def has_flag_def)
  have eq: "uv_close U relax h cb s = Some s'"
    using assms f2 by (auto simp: uv_close_def Let_def s1_def [symmetric] s1(1) uv__watcher_close_def
        uv__make_close_pending_def s2_def k_def s'_def)
  have fin: "finishable s' h"
    unfolding finishable_def fl using f2 assms(2) by (auto simp: s'_def s2_def watcher_stop_fields s1(1))
  have "uv_close U relax h cb2 s' = None"
    using f2(1) by (simp add: uv_close_def is_closing_iff fl)
  moreover have "\<not> uv__is_active s' h" using f2(3) by (simp add: uv__is_active_def fl)
  moreover have "close_cb s' h = cb" "closing_handles s' = Some h" "next_closing s' h = closing_handles s"
    "core_loop.more s' = core_loop.more s"
    by (simp_all add: s'_def s2_def watcher_stop_fields s1)
  ultimately show ?thesis using eq fin by blast
qed

theorem close_defers_the_callback_witness:
  "\<exists>s'. uv_close closing_calls id 9 (Some 2) (demo_core_loop\<lparr>htype := \<lambda>_. UV_IDLE\<rparr>) = Some s' \<and>
    closing_handles s' = Some 9 \<and> next_closing s' 9 = Some 4"
proof -
  let ?s = "demo_core_loop\<lparr>htype := \<lambda>_. UV_IDLE\<rparr>"
  have "\<not> uv__is_closing ?s 9" "htype ?s 9 \<in> {UV_PREPARE, UV_CHECK, UV_IDLE}" "closing_handles ?s = Some 4"
    by (simp_all add: is_closing_iff has_flag_def demo_core_loop_def)
  then show ?thesis using close_defers_the_callback [of ?s 9 closing_calls id "Some 2"] by auto
qed


section \<open>An empty loop\<close>

text \<open>For the examples: a loop around the state of a system, in which every handle has the descriptor \<open>fd\<close>.\<close>

definition bare_core :: "'w \<Rightarrow> int \<Rightarrow> 'a \<Rightarrow> ('w, 'a) core_loop_scheme" where
  "bare_core w fd a = core_loop.extend (async_loop.extend (poll_loop.extend (io_loop.extend
     (watcher_loop.extend (empty_watcher_loop ())
       (io_loop.fields (\<lambda>_. UV__STREAM_IO) (\<lambda>_. fd) (\<lambda>_. 0) (\<lambda>_. 0) None 0 0 3 0 0 [] 0 0 w))
     (poll_loop.fields False False)) (async_loop.fields (\<lambda>_. None) (\<lambda>_. 0) (-1)))
     (core_loop.fields (\<lambda>_. None) (\<lambda>_. 0) (\<lambda>_. 0)))
     a\<lparr>flags := \<lambda>_. 0, active_reqs := 0\<rparr>"

lemma bare_core_fields:
  "io_fd (bare_core w fd a) = (\<lambda>_. fd)" "os (bare_core w fd a) = w" "flags (bare_core w fd a) = (\<lambda>_. 0)"
  "watchers (bare_core w fd a) = None" "nwatchers (bare_core w fd a) = 0" "nfds (bare_core w fd a) = 0"
  "active_reqs (bare_core w fd a) = 0" "core_loop.more (bare_core w fd a) = a"
  by (simp_all add: bare_core_def empty_watcher_loop_def watcher_loop.defs io_loop.defs poll_loop.defs
      async_loop.defs core_loop.defs)

text \<open>A system whose calls open nothing, bring nothing and succeed otherwise.\<close>

definition quiet_kernel :: "'w io_kernel" where
  "quiet_kernel = fd_kernel.extend
     \<lparr>k_open = (\<lambda>_ _ w. (Inl UV_EMFILE, w)), k_close = (\<lambda>_ w. (Inr (), w)), k_read = (\<lambda>_ _ w. (Inr [], w)),
       k_socket = (\<lambda>_ _ _ w. (Inl UV_EMFILE, w)), k_accept4 = (\<lambda>_ _ w. (Inl UV_EMFILE, w)),
       k_fionbio = (\<lambda>_ _ w. (Inr (), w)), k_getfl = (\<lambda>_ w. (Inr 0, w)), k_setfl = (\<lambda>_ _ w. (Inr (), w)),
       k_setfd = (\<lambda>_ _ w. (Inr (), w)), k_recvmsg = (\<lambda>_ _ _ w. (Inl UV_EAGAIN, w)),
       k_dup3 = (\<lambda>_ _ _ w. (Inl UV_EMFILE, w)), k_fstat_is_chr = (\<lambda>_ w. (Inr False, w))\<rparr>
     (io_kernel.fields (\<lambda>_ w. (True, w)) (\<lambda>w. (0, w)) (\<lambda>w. (Inl UV_EMFILE, w)) (\<lambda>w. (Inl UV_EMFILE, w))
        (\<lambda>_ _ _ _ _ w. (Inr (), w)) (\<lambda>_ _ _ w. (Inr [], w)) (\<lambda>_ _ _ w. (Inr [], w)) (\<lambda>_ w. (Inr (), w))
        (\<lambda>w. (Inl UV_EMFILE, w)) (\<lambda>_ b w. (Inr (length b), w)))"

end
