(* ===== verification/Threadpool.thy ===== *)
theory Threadpool
  imports Handle
begin

text \<open>
  src/threadpool.c.  The queues of the pool and of the loop it serves are link stores as in theory
  \<open>Queue\<close>; their addresses are the heads \<open>WQ\<close>, \<open>SlowWQ\<close>, \<open>LoopWQ\<close> (\<open>loop->wq\<close>) and \<open>DoneWQ\<close> (the
  queue on the stack of \<open>uv__work_done\<close>), the two message nodes and the link of each request.
  What a thread does while it holds a lock is one step; \<open>uv_cond_wait\<close> may return at any time, as
  POSIX allows.  The functions of the code are first given one by one, then composed to a step
  relation in which any number of workers, submissions, cancellations and the loop thread
  interleave.

  The lemmas show that no more than half of the threads run slow I/O at a time, that a request
  is always in exactly one place, so it runs at most once and is reported once, that waiting slow
  work is always announced in the main queue, and what a cancellation does.
\<close>

section \<open>State\<close>

datatype taddr = WQ | SlowWQ | RunSlow | ExitMsg | LoopWQ | DoneWQ | Work addr

datatype work_fn = Uv__cancelled | Uv__queue_work | Uv__random_work | Uv__fs_work
  | Uv__getaddrinfo_work | Uv__getnameinfo_work

datatype uv_req_type = UV_UNKNOWN_REQ | UV_REQ | UV_CONNECT | UV_WRITE | UV_SHUTDOWN | UV_UDP_SEND
  | UV_FS | UV_WORK | UV_GETADDRINFO | UV_GETNAMEINFO | UV_RANDOM

datatype uv__work_kind = UV__WORK_CPU | UV__WORK_FAST_IO | UV__WORK_SLOW_IO

record pool =
  tq :: "taddr qstore"
  nthreads :: u32
  idle_threads :: u32
  slow_io_work_running :: u32
  cond_signals :: nat
  async_sends :: nat
  w_work :: "addr \<Rightarrow> work_fn option"
  req_type :: "addr \<Rightarrow> uv_req_type"
  req_work_cb :: "addr \<Rightarrow> nat option"
  req_after_work_cb :: "addr \<Rightarrow> nat option"

abbreviation MAX_THREADPOOL_SIZE :: u32 where "MAX_THREADPOOL_SIZE \<equiv> 1024"

definition slow_work_thread_threshold :: "'a pool_scheme \<Rightarrow> u32" where
  "slow_work_thread_threshold p = (nthreads p + 1) div 2"

definition uv_cond_signal :: "'a pool_scheme \<Rightarrow> 'a pool_scheme" where
  "uv_cond_signal p = p\<lparr>cond_signals := cond_signals p + 1\<rparr>"

definition on_tq :: "(taddr qstore \<Rightarrow> taddr qstore) \<Rightarrow> 'a pool_scheme \<Rightarrow> 'a pool_scheme" where
  "on_tq g p = p\<lparr>tq := g (tq p)\<rparr>"

section \<open>The worker\<close>

text \<open>
  One round of the \<open>for\<close> loop of \<open>worker\<close>, up to the unlocking of the mutex: the thread goes to
  sleep, leaves the loop, goes round again, or has taken a request, slow or not.
\<close>

datatype worker_round = Sleep | Leave | Again | Take addr bool

definition must_wait :: "'a pool_scheme \<Rightarrow> bool" where
  "must_wait p \<longleftrightarrow> QUEUE_EMPTY (tq p) WQ \<or>
     QUEUE_HEAD (tq p) WQ = RunSlow \<and> QUEUE_NEXT (tq p) RunSlow = WQ \<and>
     slow_io_work_running p \<ge> slow_work_thread_threshold p"

definition worker_take_slow :: "'a pool_scheme \<Rightarrow> (worker_round \<times> 'a pool_scheme) option" where
  "worker_take_slow p =
     (if slow_io_work_running p \<ge> slow_work_thread_threshold p
      then Some (Again, on_tq (QUEUE_INSERT_TAIL WQ RunSlow) p)
      else if QUEUE_EMPTY (tq p) SlowWQ then Some (Again, p)
      else
        let p = p\<lparr>slow_io_work_running := slow_io_work_running p + 1\<rparr>;
            q = QUEUE_HEAD (tq p) SlowWQ;
            p = on_tq (QUEUE_INIT q) (on_tq (QUEUE_REMOVE q) p);
            p = (if \<not> QUEUE_EMPTY (tq p) SlowWQ then
                   let p = on_tq (QUEUE_INSERT_TAIL WQ RunSlow) p
                   in if idle_threads p > 0 then uv_cond_signal p else p
                 else p)
        in case q of Work w \<Rightarrow> Some (Take w True, p) | _ \<Rightarrow> None)"

definition worker_round :: "'a pool_scheme \<Rightarrow> (worker_round \<times> 'a pool_scheme) option" where
  "worker_round p =
     (if must_wait p then Some (Sleep, p\<lparr>idle_threads := idle_threads p + 1\<rparr>)
      else
        let q = QUEUE_HEAD (tq p) WQ
        in if q = ExitMsg then Some (Leave, uv_cond_signal p)
           else
             let p = on_tq (QUEUE_INIT q) (on_tq (QUEUE_REMOVE q) p)
             in if q = RunSlow then worker_take_slow p
                else case q of Work w \<Rightarrow> Some (Take w False, p) | _ \<Rightarrow> None)"

text \<open>\<open>uv_cond_wait\<close> returns.\<close>

definition worker_wakes :: "'a pool_scheme \<Rightarrow> 'a pool_scheme" where
  "worker_wakes p = p\<lparr>idle_threads := idle_threads p - 1\<rparr>"

text \<open>The request has been worked on: hand it to the loop, under the lock of the loop's queue.\<close>

definition worker_reports :: "addr \<Rightarrow> 'a pool_scheme \<Rightarrow> 'a pool_scheme" where
  "worker_reports w p =
     (let p = p\<lparr>w_work := (w_work p)(w := None)\<rparr>;
          p = on_tq (QUEUE_INSERT_TAIL LoopWQ (Work w)) p
      in p\<lparr>async_sends := async_sends p + 1\<rparr>)"

definition worker_returns :: "bool \<Rightarrow> 'a pool_scheme \<Rightarrow> 'a pool_scheme" where
  "worker_returns is_slow_work p =
     (if is_slow_work then p\<lparr>slow_io_work_running := slow_io_work_running p - 1\<rparr> else p)"

section \<open>Submitting\<close>

definition post :: "taddr \<Rightarrow> uv__work_kind \<Rightarrow> 'a pool_scheme \<Rightarrow> 'a pool_scheme" where
  "post q kind p =
     (let enqueue = (\<lambda>q p.
            let p = on_tq (QUEUE_INSERT_TAIL WQ q) p
            in if idle_threads p > 0 then uv_cond_signal p else p)
      in if kind = UV__WORK_SLOW_IO then
           let p = on_tq (QUEUE_INSERT_TAIL SlowWQ q) p
           in if \<not> QUEUE_EMPTY (tq p) RunSlow then p
              else enqueue RunSlow p
         else enqueue q p)"

text \<open>
  The number of threads: \<open>val\<close> is the value of \<open>UV_THREADPOOL_SIZE\<close>, \<open>malloc_ok\<close> says whether the
  array of threads can be allocated when it is larger than the static one.
\<close>

definition init_nthreads :: "(string \<Rightarrow> int) \<Rightarrow> string option \<Rightarrow> bool \<Rightarrow> u32" where
  "init_nthreads atoi val malloc_ok =
     (let n = 4;
          n = (case val of None \<Rightarrow> n | Some v \<Rightarrow> word_of_int (atoi v));
          n = (if n = 0 then 1 else n);
          n = (if n > MAX_THREADPOOL_SIZE then MAX_THREADPOOL_SIZE else n)
      in if n > 4 then if malloc_ok then n else 4 else n)"

text \<open>The initialisers of condition, mutex, semaphore and threads must succeed.\<close>

definition init_threads ::
  "(string \<Rightarrow> int) \<Rightarrow> string option \<Rightarrow> bool \<Rightarrow> bool \<Rightarrow> 'a pool_scheme \<Rightarrow> 'a pool_scheme option" where
  "init_threads atoi val malloc_ok init_ok p = do {
     let p = p\<lparr>nthreads := init_nthreads atoi val malloc_ok\<rparr>;
     uv_assert init_ok;
     let p = on_tq (QUEUE_INIT WQ) p;
     let p = on_tq (QUEUE_INIT SlowWQ) p;
     Some (on_tq (QUEUE_INIT RunSlow) p) }"

definition uv__work_submit ::
  "addr \<Rightarrow> uv__work_kind \<Rightarrow> work_fn \<Rightarrow> 'a pool_scheme \<Rightarrow> 'a pool_scheme" where
  "uv__work_submit w kind work p =
     (let p = p\<lparr>w_work := (w_work p)(w := Some work)\<rparr>
      in post (Work w) kind p)"

text \<open>\<open>post\<close> of \<open>uv__threadpool_cleanup\<close>; the threads are joined when all have left.\<close>

definition threadpool_cleanup_post :: "'a pool_scheme \<Rightarrow> 'a pool_scheme" where
  "threadpool_cleanup_post p = (if nthreads p = 0 then p else post ExitMsg UV__WORK_CPU p)"

definition threadpool_cleanup_end :: "'a pool_scheme \<Rightarrow> 'a pool_scheme" where
  "threadpool_cleanup_end p = p\<lparr>nthreads := 0\<rparr>"

section \<open>Cancelling and reporting\<close>

definition uv__work_cancel :: "addr \<Rightarrow> 'a pool_scheme \<Rightarrow> (uv_errno + unit) \<times> 'a pool_scheme" where
  "uv__work_cancel w p =
     (let cancelled = (\<not> QUEUE_EMPTY (tq p) (Work w) \<and> w_work p w \<noteq> None);
          p = (if cancelled then on_tq (QUEUE_REMOVE (Work w)) p else p)
      in if \<not> cancelled then (Inl UV_EBUSY, p)
         else
           let p = p\<lparr>w_work := (w_work p)(w := Some Uv__cancelled)\<rparr>;
               p = on_tq (QUEUE_INSERT_TAIL LoopWQ (Work w)) p;
               p = p\<lparr>async_sends := async_sends p + 1\<rparr>
           in (Inr (), p))"

definition uv_cancel :: "addr \<Rightarrow> 'a pool_scheme \<Rightarrow> (uv_errno + unit) \<times> 'a pool_scheme" where
  "uv_cancel req p =
     (case req_type p req of
        UV_FS \<Rightarrow> uv__work_cancel req p
      | UV_GETADDRINFO \<Rightarrow> uv__work_cancel req p
      | UV_GETNAMEINFO \<Rightarrow> uv__work_cancel req p
      | UV_RANDOM \<Rightarrow> uv__work_cancel req p
      | UV_WORK \<Rightarrow> uv__work_cancel req p
      | _ \<Rightarrow> (Inl UV_EINVAL, p))"

text \<open>
  \<open>uv__work_done\<close>: the loop's queue is moved to the stack; each request is taken out and its
  \<open>done\<close> function, the parameter \<open>run_done\<close>, is called with 0 or \<open>UV_ECANCELED\<close>.
\<close>

definition work_status :: "'a pool_scheme \<Rightarrow> addr \<Rightarrow> uv_errno + unit" where
  "work_status p w = (if w_work p w = Some Uv__cancelled then Inl UV_ECANCELED else Inr ())"

definition work_done_move :: "'a pool_scheme \<Rightarrow> 'a pool_scheme" where
  "work_done_move p = on_tq (QUEUE_MOVE LoopWQ DoneWQ) p"

definition work_done_next :: "'a pool_scheme \<Rightarrow> ((addr \<times> (uv_errno + unit)) \<times> 'a pool_scheme) option" where
  "work_done_next p =
     (let q = QUEUE_HEAD (tq p) DoneWQ;
          p = on_tq (QUEUE_REMOVE q) p
      in case q of Work w \<Rightarrow> Some ((w, work_status p w), p) | _ \<Rightarrow> None)"

partial_function (option) work_done_loop ::
  "(addr \<Rightarrow> uv_errno + unit \<Rightarrow> 'a pool_scheme \<Rightarrow> 'a pool_scheme option) \<Rightarrow> 'a pool_scheme \<Rightarrow> 'a pool_scheme option" where
  "work_done_loop run_done p =
     (if QUEUE_EMPTY (tq p) DoneWQ then Some p
      else work_done_next p \<bind> (\<lambda>((w, err), p). run_done w err p \<bind> work_done_loop run_done))"

definition uv__work_done ::
  "(addr \<Rightarrow> uv_errno + unit \<Rightarrow> 'a pool_scheme \<Rightarrow> 'a pool_scheme option) \<Rightarrow> 'a pool_scheme \<Rightarrow> 'a pool_scheme option" where
  "uv__work_done run_done p = work_done_loop run_done (work_done_move p)"

section \<open>uv\_queue\_work\<close>

definition uv_queue_work ::
  "addr \<Rightarrow> nat option \<Rightarrow> nat option \<Rightarrow> 'b uv_loop_scheme \<times> 'a pool_scheme \<Rightarrow>
    (uv_errno + unit) \<times> 'b uv_loop_scheme \<times> 'a pool_scheme" where
  "uv_queue_work req work_cb after_work_cb sp =
     (case sp of (s, p) \<Rightarrow>
        if work_cb = None then (Inl UV_EINVAL, s, p)
        else
          let s = uv__req_register s;
              p = p\<lparr>req_type := (req_type p)(req := UV_WORK)\<rparr>;
              p = p\<lparr>req_work_cb := (req_work_cb p)(req := work_cb),
                    req_after_work_cb := (req_after_work_cb p)(req := after_work_cb)\<rparr>
          in (Inr (), s, uv__work_submit req UV__WORK_CPU Uv__queue_work p))"

text \<open>\<open>run_work\<close> and \<open>run_after\<close> are the callbacks of the user.\<close>

definition uv__queue_work ::
  "(nat \<Rightarrow> addr \<Rightarrow> 'a pool_scheme \<Rightarrow> 'a pool_scheme option) \<Rightarrow> addr \<Rightarrow> 'a pool_scheme \<Rightarrow> 'a pool_scheme option" where
  "uv__queue_work run_work w p = do {
     cb \<leftarrow> req_work_cb p w;
     run_work cb w p }"

definition uv__queue_done ::
  "(nat \<Rightarrow> addr \<Rightarrow> uv_errno + unit \<Rightarrow> 'b uv_loop_scheme \<times> 'a pool_scheme \<Rightarrow>
     ('b uv_loop_scheme \<times> 'a pool_scheme) option) \<Rightarrow> addr \<Rightarrow> uv_errno + unit \<Rightarrow>
    'b uv_loop_scheme \<times> 'a pool_scheme \<Rightarrow> ('b uv_loop_scheme \<times> 'a pool_scheme) option" where
  "uv__queue_done run_after w err sp =
     (case sp of (s, p) \<Rightarrow> do {
        s \<leftarrow> uv__req_unregister s;
        (case req_after_work_cb p w of
           None \<Rightarrow> Some (s, p)
         | Some cb \<Rightarrow> run_after cb w err (s, p)) })"

section \<open>The pool as a system of steps\<close>

text \<open>
  The threads of the pool and the thread of the loop share the state.  A thread is \<open>Ready\<close> for a
  round of its loop, \<open>Asleep\<close> in \<open>uv_cond_wait\<close>, \<open>Executing\<close> a request, \<open>Returning\<close> from one it has
  reported, or \<open>Gone\<close>.  The phase of a request is not part of the program: it follows what happens
  to the request, and is \<open>None\<close> once something has happened that must not.  \<open>in_done\<close> says that the
  loop is in \<open>uv__work_done\<close>, \<open>exiting\<close> that the exit message has been posted.
\<close>

datatype worker_pc = Ready | Asleep | Executing addr bool | Returning bool | Gone

datatype req_phase = Idle | Waiting | Running | Finished | Cancelled

datatype req_event = Submitted | Started | Worked | Withdrawn | Reported "uv_errno + unit"

fun req_next :: "req_phase \<Rightarrow> req_event \<Rightarrow> req_phase option" where
  "req_next Idle Submitted = Some Waiting"
| "req_next Waiting Started = Some Running"
| "req_next Running Worked = Some Finished"
| "req_next Waiting Withdrawn = Some Cancelled"
| "req_next Cancelled Withdrawn = Some Cancelled"
| "req_next Finished (Reported r) = (if r = Inr () then Some Idle else None)"
| "req_next Cancelled (Reported r) = (if r = Inl UV_ECANCELED then Some Idle else None)"
| "req_next _ _ = None"

record pool_system = pool +
  workers :: "nat \<Rightarrow> worker_pc"
  phase :: "addr \<Rightarrow> req_phase option"
  in_done :: bool
  exiting :: bool

definition happens :: "addr \<Rightarrow> req_event \<Rightarrow> pool_system \<Rightarrow> pool_system" where
  "happens w e p = p\<lparr>phase := (phase p)(w := phase p w \<bind> (\<lambda>a. req_next a e))\<rparr>"

definition goes_to :: "nat \<Rightarrow> worker_pc \<Rightarrow> pool_system \<Rightarrow> pool_system" where
  "goes_to i pc p = p\<lparr>workers := (workers p)(i := pc)\<rparr>"

text \<open>\<open>w->work(w)\<close>: \<open>uv__cancelled\<close> aborts.\<close>

definition worker_step :: "nat \<Rightarrow> pool_system \<Rightarrow> pool_system option" where
  "worker_step i p =
     (case workers p i of
        Ready \<Rightarrow> worker_round p \<bind> (\<lambda>(r, p).
          (case r of
             Sleep \<Rightarrow> Some (goes_to i Asleep p)
           | Leave \<Rightarrow> Some (goes_to i Gone p)
           | Again \<Rightarrow> Some p
           | Take w slow \<Rightarrow> Some (happens w Started (goes_to i (Executing w slow) p))))
      | Asleep \<Rightarrow> Some (goes_to i Ready (worker_wakes p))
      | Executing w slow \<Rightarrow> do {
          work \<leftarrow> w_work p w;
          uv_assert (work \<noteq> Uv__cancelled);
          Some (happens w Worked (goes_to i (Returning slow) (worker_reports w p))) }
      | Returning slow \<Rightarrow> Some (goes_to i Ready (worker_returns slow p))
      | Gone \<Rightarrow> Some p)"

text \<open>
  What can happen: a step of a thread, a submission, a cancellation, the three parts of
  \<open>uv__work_done\<close>, and the exit message.  \<open>allowed\<close> is what the users of the pool must respect: a
  request is submitted again only after it has been reported, and cancelled only before.
\<close>

datatype pool_event = Thread nat | Submit addr uv__work_kind work_fn | Cancel addr
  | DoneMove | DoneNext | DoneEnd | Exit

definition allowed :: "pool_event \<Rightarrow> pool_system \<Rightarrow> bool" where
  "allowed e p \<longleftrightarrow>
     (case e of
        Thread i \<Rightarrow> i < unat (nthreads p)
      | Submit w kind work \<Rightarrow> phase p w = Some Idle \<and> work \<noteq> Uv__cancelled
      | Cancel w \<Rightarrow> phase p w \<noteq> Some Idle
      | DoneMove \<Rightarrow> \<not> in_done p
      | DoneNext \<Rightarrow> in_done p \<and> \<not> QUEUE_EMPTY (tq p) DoneWQ
      | DoneEnd \<Rightarrow> in_done p \<and> QUEUE_EMPTY (tq p) DoneWQ
      | Exit \<Rightarrow> \<not> exiting p)"

definition pool_step :: "pool_event \<Rightarrow> pool_system \<Rightarrow> pool_system option" where
  "pool_step e p =
     (case e of
        Thread i \<Rightarrow> worker_step i p
      | Submit w kind work \<Rightarrow> Some (happens w Submitted (uv__work_submit w kind work p))
      | Cancel w \<Rightarrow>
          (case uv__work_cancel w p of
             (Inl _, p) \<Rightarrow> Some p
           | (Inr _, p) \<Rightarrow> Some (happens w Withdrawn p))
      | DoneMove \<Rightarrow> Some ((work_done_move p)\<lparr>in_done := True\<rparr>)
      | DoneNext \<Rightarrow> map_option (\<lambda>((w, r), p). happens w (Reported r) p) (work_done_next p)
      | DoneEnd \<Rightarrow> Some (p\<lparr>in_done := False\<rparr>)
      | Exit \<Rightarrow> Some ((threadpool_cleanup_post p)\<lparr>exiting := True\<rparr>))"

text \<open>
  The pool after \<open>init_threads\<close>; the loop's queue has been initialised by \<open>uv_loop_init\<close>.
\<close>

definition blank_pool :: pool_system where
  "blank_pool =
     \<lparr>tq = QUEUE_INIT LoopWQ \<lparr>QUEUE_NEXT = \<lambda>_. LoopWQ, QUEUE_PREV = \<lambda>_. LoopWQ\<rparr>, nthreads = 0,
      idle_threads = 0, slow_io_work_running = 0, cond_signals = 0, async_sends = 0,
      w_work = \<lambda>_. None, req_type = \<lambda>_. UV_UNKNOWN_REQ, req_work_cb = \<lambda>_. None,
      req_after_work_cb = \<lambda>_. None, workers = \<lambda>_. Ready, phase = \<lambda>_. Some Idle,
      in_done = False, exiting = False\<rparr>"

inductive pool_reached :: "pool_system \<Rightarrow> bool" where
  start: "init_threads atoi val malloc_ok True blank_pool = Some p \<Longrightarrow> pool_reached p"
| step: "pool_reached p \<Longrightarrow> allowed e p \<Longrightarrow> pool_step e p = Some p' \<Longrightarrow> pool_reached p'"

section \<open>The invariant\<close>

definition count_threads :: "(worker_pc \<Rightarrow> bool) \<Rightarrow> nat \<Rightarrow> (nat \<Rightarrow> worker_pc) \<Rightarrow> nat" where
  "count_threads P n f = length (filter (\<lambda>i. P (f i)) [0..<n])"

lemma count_threads_upd:
  "i < n \<Longrightarrow> count_threads P n (f(i := x)) + of_bool (P (f i)) = count_threads P n f + of_bool (P x)"
proof (induction n)
  case (Suc n)
  show ?case
  proof (cases "i = n")
    case True
    have "filter (\<lambda>j. P ((f(i := x)) j)) [0..<n] = filter (\<lambda>j. P (f j)) [0..<n]"
      by (rule filter_cong) (use True in auto)
    then show ?thesis by (simp add: count_threads_def True)
  next
    case False
    then show ?thesis using Suc by (simp add: count_threads_def)
  qed
qed simp

lemma count_threads_le: "count_threads P n f \<le> n"
  using length_filter_le [of "\<lambda>i. P (f i)" "[0..<n]"] by (simp add: count_threads_def)

fun slow_pc :: "worker_pc \<Rightarrow> bool" where
  "slow_pc (Executing w slow) = slow"
| "slow_pc (Returning slow) = slow"
| "slow_pc _ = False"

definition executing :: "pool_system \<Rightarrow> addr \<Rightarrow> bool" where
  "executing p w \<longleftrightarrow> (\<exists>i slow. workers p i = Executing w slow)"

text \<open>The lists of the queues, and the nodes that are heads of a list.\<close>

fun pool_lists :: "taddr list \<Rightarrow> addr list \<Rightarrow> addr list \<Rightarrow> addr list \<Rightarrow> taddr \<Rightarrow> taddr list" where
  "pool_lists q ss ls ds WQ = q"
| "pool_lists q ss ls ds SlowWQ = map Work ss"
| "pool_lists q ss ls ds LoopWQ = map Work ls"
| "pool_lists q ss ls ds DoneWQ = map Work ds"
| "pool_lists q ss ls ds _ = []"

definition pool_heads :: "taddr list \<Rightarrow> pool_system \<Rightarrow> taddr set" where
  "pool_heads q p = {WQ, SlowWQ, LoopWQ} \<union> (if RunSlow \<in> set q then {} else {RunSlow}) \<union>
     (if in_done p then {DoneWQ} else {}) \<union>
     Work ` {w. executing p w}"

definition phase_ok :: "taddr list \<Rightarrow> addr list \<Rightarrow> addr list \<Rightarrow> addr list \<Rightarrow> pool_system \<Rightarrow> addr \<Rightarrow> bool" where
  "phase_ok q ss ls ds p w \<longleftrightarrow>
     (case phase p w of
        None \<Rightarrow> False
      | Some Idle \<Rightarrow> Work w \<notin> set q \<and> w \<notin> set ss \<and> w \<notin> set ls \<and> w \<notin> set ds \<and> \<not> executing p w
      | Some Waiting \<Rightarrow> (Work w \<in> set q \<or> w \<in> set ss) \<and> w_work p w \<noteq> None \<and> w_work p w \<noteq> Some Uv__cancelled
      | Some Running \<Rightarrow> executing p w \<and> w_work p w \<noteq> None \<and> w_work p w \<noteq> Some Uv__cancelled
      | Some Finished \<Rightarrow> (w \<in> set ls \<or> w \<in> set ds) \<and> w_work p w = None
      | Some Cancelled \<Rightarrow> (w \<in> set ls \<or> w \<in> set ds) \<and> w_work p w = Some Uv__cancelled)"

definition pool_inv :: "taddr list \<Rightarrow> addr list \<Rightarrow> addr list \<Rightarrow> addr list \<Rightarrow> pool_system \<Rightarrow> bool" where
  "pool_inv q ss ls ds p \<longleftrightarrow>
     queues (tq p) (pool_heads q p) (pool_lists q ss ls ds) \<and>
     set q \<subseteq> insert RunSlow (insert ExitMsg (range Work)) \<and>
     (ExitMsg \<in> set q \<longrightarrow> exiting p) \<and> (ds \<noteq> [] \<longrightarrow> in_done p) \<and>
     (ss \<noteq> [] \<longrightarrow> RunSlow \<in> set q) \<and> (\<forall>w. phase_ok q ss ls ds p w) \<and>
     (\<forall>i j w b c. workers p i = Executing w b \<and> workers p j = Executing w c \<longrightarrow> i = j) \<and>
     1 \<le> unat (nthreads p) \<and> unat (nthreads p) \<le> 1024 \<and>
     slow_io_work_running p = of_nat (count_threads slow_pc (unat (nthreads p)) (workers p)) \<and>
     count_threads slow_pc (unat (nthreads p)) (workers p) \<le> (unat (nthreads p) + 1) div 2 \<and>
     idle_threads p = of_nat (count_threads (\<lambda>pc. pc = Asleep) (unat (nthreads p)) (workers p))"

lemma pool_invD:
  assumes "pool_inv q ss ls ds p"
  shows "queues (tq p) (pool_heads q p) (pool_lists q ss ls ds)"
    and "set q \<subseteq> insert RunSlow (insert ExitMsg (range Work))"
    and "ExitMsg \<in> set q \<Longrightarrow> exiting p" and "ds \<noteq> [] \<Longrightarrow> in_done p" and "ss \<noteq> [] \<Longrightarrow> RunSlow \<in> set q"
    and "phase_ok q ss ls ds p w"
    and "workers p i = Executing w b \<Longrightarrow> workers p j = Executing w c \<Longrightarrow> i = j"
    and "1 \<le> unat (nthreads p)" and "unat (nthreads p) \<le> 1024"
    and "slow_io_work_running p = of_nat (count_threads slow_pc (unat (nthreads p)) (workers p))"
    and "count_threads slow_pc (unat (nthreads p)) (workers p) \<le> (unat (nthreads p) + 1) div 2"
    and "idle_threads p = of_nat (count_threads (\<lambda>pc. pc = Asleep) (unat (nthreads p)) (workers p))"
  using assms unfolding pool_inv_def by blast+

lemma pool_heads_simps [simp]:
  "WQ \<in> pool_heads q p" "SlowWQ \<in> pool_heads q p" "LoopWQ \<in> pool_heads q p" "ExitMsg \<notin> pool_heads q p"
  "RunSlow \<in> pool_heads q p \<longleftrightarrow> RunSlow \<notin> set q" "DoneWQ \<in> pool_heads q p \<longleftrightarrow> in_done p"
  "Work w \<in> pool_heads q p \<longleftrightarrow> executing p w"
  by (auto simp: pool_heads_def)

text \<open>A request is in at most one of the lists, and in none while it is executed.\<close>

lemma pool_places:
  assumes "pool_inv q ss ls ds p"
  shows "distinct q" and "distinct ss" and "distinct ls" and "distinct ds"
    and "Work w \<in> set q \<Longrightarrow> w \<notin> set ss \<and> w \<notin> set ls \<and> w \<notin> set ds \<and> \<not> executing p w"
    and "w \<in> set ss \<Longrightarrow> w \<notin> set ls \<and> w \<notin> set ds \<and> \<not> executing p w"
    and "w \<in> set ls \<Longrightarrow> w \<notin> set ds \<and> \<not> executing p w"
    and "w \<in> set ds \<Longrightarrow> \<not> executing p w"
proof -
  note d = pool_invD [OF assms]
  note at = queuesD [OF d(1), THEN queue_at_distinct] and dis = queues_disjoint [OF d(1)]
  have ex: "w \<notin> set ss \<and> w \<notin> set ls \<and> w \<notin> set ds \<and> Work w \<notin> set q" if "executing p w"
    using dis [of "Work w" WQ] dis [of "Work w" SlowWQ] dis [of "Work w" LoopWQ] dis [of "Work w" DoneWQ] that d(4)
    by (cases "ds = []") (auto simp: qcell_def)
  show "distinct q" "distinct ss" "distinct ls" using at [of WQ] at [of SlowWQ] at [of LoopWQ] by (auto simp: distinct_map)
  show "distinct ds" using at [of DoneWQ] d(4) by (cases "ds = []") (auto simp: distinct_map)
  show "Work w \<in> set q \<Longrightarrow> w \<notin> set ss \<and> w \<notin> set ls \<and> w \<notin> set ds \<and> \<not> executing p w"
    using dis [of WQ SlowWQ] dis [of WQ LoopWQ] dis [of WQ DoneWQ] d(4) ex
    by (cases "ds = []") (auto simp: qcell_def)
  show "w \<in> set ss \<Longrightarrow> w \<notin> set ls \<and> w \<notin> set ds \<and> \<not> executing p w"
    using dis [of SlowWQ LoopWQ] dis [of SlowWQ DoneWQ] d(4) ex
    by (cases "ds = []") (auto simp: qcell_def)
  show "w \<in> set ls \<Longrightarrow> w \<notin> set ds \<and> \<not> executing p w"
    using dis [of LoopWQ DoneWQ] d(4) ex
    by (cases "ds = []") (auto simp: qcell_def)
  show "w \<in> set ds \<Longrightarrow> \<not> executing p w" using ex by blast
qed

lemma phase_not_None: "pool_inv q ss ls ds p \<Longrightarrow> phase p w \<noteq> None"
  using pool_invD(6) [of q ss ls ds p w] by (auto simp: phase_ok_def split: option.splits)

text \<open>The phase of a request tells where it is, and back.\<close>

lemma pool_phase:
  assumes "pool_inv q ss ls ds p"
  shows "Work w \<in> set q \<or> w \<in> set ss \<Longrightarrow> phase p w = Some Waiting"
    and "executing p w \<Longrightarrow> phase p w = Some Running"
    and "w \<in> set ls \<or> w \<in> set ds \<Longrightarrow>
      phase p w = Some Finished \<and> w_work p w = None \<or> phase p w = Some Cancelled \<and> w_work p w = Some Uv__cancelled"
  using pool_invD(6) [OF assms, where w = w] pool_places(5-8) [OF assms, where w = w]
  unfolding phase_ok_def by (auto split: option.splits req_phase.splits)

lemma phase_ok_frame:
  assumes "phase_ok q ss ls ds p w" and "phase p' w = phase p w" and "w_work p' w = w_work p w"
    and "executing p' w \<longleftrightarrow> executing p w"
    and "Work w \<in> set q' \<or> w \<in> set ss' \<longleftrightarrow> Work w \<in> set q \<or> w \<in> set ss"
    and "w \<in> set ls' \<or> w \<in> set ds' \<longleftrightarrow> w \<in> set ls \<or> w \<in> set ds"
  shows "phase_ok q' ss' ls' ds' p' w"
  using assms unfolding phase_ok_def by (auto split: option.splits req_phase.splits)

text \<open>A step that touches neither the lists nor the requests.\<close>

lemma executing_upd:
  assumes "workers p' = (workers p)(i := x)" and "\<And>b. workers p i \<noteq> Executing w b" and "\<And>b. x \<noteq> Executing w b"
  shows "executing p' w \<longleftrightarrow> executing p w"
  using assms unfolding executing_def by (metis fun_upd_apply)

lemma pool_unat:
  assumes "pool_inv q ss ls ds p"
  shows "unat (idle_threads p) = count_threads (\<lambda>pc. pc = Asleep) (unat (nthreads p)) (workers p)"
    and "unat (slow_io_work_running p) = count_threads slow_pc (unat (nthreads p)) (workers p)"
    and "unat (slow_work_thread_threshold p) = (unat (nthreads p) + 1) div 2"
proof -
  note d = pool_invD [OF assms]
  have le: "count_threads P (unat (nthreads p)) (workers p) < 2 ^ 32" for P
    using count_threads_le [of P "unat (nthreads p)" "workers p"] d(9) by simp
  show "unat (idle_threads p) = count_threads (\<lambda>pc. pc = Asleep) (unat (nthreads p)) (workers p)"
    unfolding d(12) using le by (simp add: unat_of_nat)
  show "unat (slow_io_work_running p) = count_threads slow_pc (unat (nthreads p)) (workers p)"
    unfolding d(10) using le by (simp add: unat_of_nat)
  have "unat (nthreads p + 1) = unat (nthreads p) + 1"
    using d(9) by (subst unat_plus_simple [THEN iffD1]) (auto simp: word_le_nat_alt unat_word_ariths)
  then show "unat (slow_work_thread_threshold p) = (unat (nthreads p) + 1) div 2"
    by (simp add: slow_work_thread_threshold_def unat_div)
qed

lemma pool_invI:
  assumes "queues (tq p) (pool_heads q p) (pool_lists q ss ls ds)"
    and "set q \<subseteq> insert RunSlow (insert ExitMsg (range Work))"
    and "ExitMsg \<in> set q \<Longrightarrow> exiting p" and "ds \<noteq> [] \<Longrightarrow> in_done p" and "ss \<noteq> [] \<Longrightarrow> RunSlow \<in> set q"
    and "\<And>w. phase_ok q ss ls ds p w"
    and "\<And>i j w b c. workers p i = Executing w b \<Longrightarrow> workers p j = Executing w c \<Longrightarrow> i = j"
    and "1 \<le> unat (nthreads p)" and "unat (nthreads p) \<le> 1024"
    and "slow_io_work_running p = of_nat (count_threads slow_pc (unat (nthreads p)) (workers p))"
    and "count_threads slow_pc (unat (nthreads p)) (workers p) \<le> (unat (nthreads p) + 1) div 2"
    and "idle_threads p = of_nat (count_threads (\<lambda>pc. pc = Asleep) (unat (nthreads p)) (workers p))"
  shows "pool_inv q ss ls ds p"
  unfolding pool_inv_def using assms by blast

text \<open>The thread that makes a step accounts for the two counters.\<close>

lemma counters_upd:
  assumes "pool_inv q ss ls ds p" and "i < unat (nthreads p)"
  shows "of_nat (count_threads P (unat (nthreads p)) ((workers p)(i := x))) =
    (of_nat (count_threads P (unat (nthreads p)) (workers p)) + of_bool (P x) - of_bool (P (workers p i)) :: u32)"
proof -
  have "of_nat (count_threads P (unat (nthreads p)) ((workers p)(i := x)) + of_bool (P (workers p i))) =
      (of_nat (count_threads P (unat (nthreads p)) (workers p) + of_bool (P x)) :: u32)"
    by (simp only: count_threads_upd [OF assms(2)])
  then show ?thesis by (simp add: algebra_simps)
qed

text \<open>Steps that leave lists and requests as they are.\<close>

lemma step_quiet:
  assumes inv: "pool_inv q ss ls ds p" and i: "i < unat (nthreads p)"
    and p': "workers p' = (workers p)(i := x)" "tq p' = tq p" "phase p' = phase p" "w_work p' = w_work p"
      "in_done p' = in_done p" "exiting p' = exiting p" "nthreads p' = nthreads p"
    and x: "\<And>w b. workers p i \<noteq> Executing w b" "\<And>w b. x \<noteq> Executing w b"
    and slow: "slow_pc x \<Longrightarrow> slow_pc (workers p i)"
      "slow_io_work_running p' = slow_io_work_running p + of_bool (slow_pc x) - of_bool (slow_pc (workers p i))"
    and idle: "idle_threads p' = idle_threads p + of_bool (x = Asleep) - of_bool (workers p i = Asleep)"
  shows "pool_inv q ss ls ds p'"
proof -
  note d = pool_invD [OF inv]
  have ex: "executing p' w \<longleftrightarrow> executing p w" for w by (rule executing_upd [OF p'(1) x])
  have heads: "pool_heads q p' = pool_heads q p" by (simp add: pool_heads_def ex p')
  show ?thesis
  proof (rule pool_invI)
    show "queues (tq p') (pool_heads q p') (pool_lists q ss ls ds)" using d(1) by (simp add: heads p')
    show "phase_ok q ss ls ds p' w" for w
      by (rule phase_ok_frame [OF d(6)]) (simp_all add: p' ex)
    show "workers p' j = Executing w b \<Longrightarrow> workers p' k = Executing w c \<Longrightarrow> j = k" for j k w b c
      using d(7) [of j w b k c] x by (auto simp: p'(1) split: if_splits)
    show "slow_io_work_running p' = of_nat (count_threads slow_pc (unat (nthreads p')) (workers p'))"
      unfolding p' slow(2) d(10) by (rule counters_upd [OF inv i, symmetric])
    show "idle_threads p' = of_nat (count_threads (\<lambda>pc. pc = Asleep) (unat (nthreads p')) (workers p'))"
      unfolding p' idle d(12) by (rule counters_upd [OF inv i, symmetric])
    show "count_threads slow_pc (unat (nthreads p')) (workers p') \<le> (unat (nthreads p') + 1) div 2"
      using d(11) count_threads_upd [OF i, of slow_pc "workers p" x] slow(1)
      by (cases "slow_pc x"; cases "slow_pc (workers p i)") (simp_all add: p')
  qed (use d in \<open>simp_all add: p'\<close>)
qed

text \<open>A request is taken: the node \<open>Work w\<close> has left its list and is a list of its own.\<close>

lemma step_take:
  assumes inv: "pool_inv q ss ls ds p" and i: "i < unat (nthreads p)" and r: "workers p i = Ready"
    and w: "Work w \<in> set q \<or> w \<in> set ss"
    and p': "workers p' = (workers p)(i := Executing w slow)" "phase p' = (phase p)(w := phase p w \<bind> (\<lambda>a. req_next a Started))"
      "w_work p' = w_work p" "in_done p' = in_done p" "exiting p' = exiting p" "nthreads p' = nthreads p"
    and st: "queues (tq p') (pool_heads q' p') (pool_lists q' ss' ls ds)"
    and lists: "set q' \<subseteq> insert RunSlow (set q)" "ss' \<noteq> [] \<Longrightarrow> RunSlow \<in> set q'"
      "\<And>v. v \<noteq> w \<Longrightarrow> Work v \<in> set q' \<or> v \<in> set ss' \<longleftrightarrow> Work v \<in> set q \<or> v \<in> set ss"
    and cnt: "slow_io_work_running p' = slow_io_work_running p + of_bool slow" "idle_threads p' = idle_threads p"
      "slow \<Longrightarrow> slow_io_work_running p < slow_work_thread_threshold p"
  shows "pool_inv q' ss' ls ds p'"
proof -
  note d = pool_invD [OF inv] and u = pool_unat [OF inv] and ph = pool_phase [OF inv]
  have nx: "\<not> executing p w" using ph(1) [OF w] ph(2) by fastforce
  have ex: "executing p' v \<longleftrightarrow> v = w \<or> executing p v" for v
    unfolding executing_def p'(1) using r by (metis fun_upd_apply worker_pc.distinct(3) worker_pc.inject(1))
  have old: "w_work p w \<noteq> None \<and> w_work p w \<noteq> Some Uv__cancelled"
    using d(6) [of w] ph(1) [OF w] by (simp add: phase_ok_def)
  show ?thesis
  proof (rule pool_invI)
    show "set q' \<subseteq> insert RunSlow (insert ExitMsg (range Work))" using lists(1) d(2) by blast
    show "ExitMsg \<in> set q' \<Longrightarrow> exiting p'" using lists(1) d(3) p'(5) by blast
    show "phase_ok q' ss' ls ds p' v" for v
    proof (cases "v = w")
      case True
      then show ?thesis using old ex by (simp add: phase_ok_def p' ph(1) [OF w])
    next
      case False
      then show ?thesis by (intro phase_ok_frame [OF d(6)]) (simp_all add: p' ex lists(3))
    qed
    show "workers p' j = Executing v b \<Longrightarrow> workers p' k = Executing v c \<Longrightarrow> j = k" for j k v b c
      using d(7) [of j v b k c] nx unfolding executing_def by (auto simp: p'(1) split: if_splits)
    show "slow_io_work_running p' = of_nat (count_threads slow_pc (unat (nthreads p')) (workers p'))"
      unfolding p' cnt d(10) counters_upd [OF inv i] by (simp add: r)
    show "idle_threads p' = of_nat (count_threads (\<lambda>pc. pc = Asleep) (unat (nthreads p')) (workers p'))"
      unfolding p' cnt d(12) counters_upd [OF inv i] by (simp add: r)
    have "slow \<Longrightarrow> count_threads slow_pc (unat (nthreads p)) (workers p) < (unat (nthreads p) + 1) div 2"
      using cnt(3) u by (simp add: word_less_nat_alt)
    then show "count_threads slow_pc (unat (nthreads p')) (workers p') \<le> (unat (nthreads p') + 1) div 2"
      using d(11) count_threads_upd [OF i, of slow_pc "workers p" "Executing w slow"]
      by (cases slow) (simp_all add: p' r)
  qed (use d lists st in \<open>simp_all add: p'\<close>)
qed

lemma on_tq_simps [simp]:
  "tq (on_tq g p) = g (tq p)" "nthreads (on_tq g p) = nthreads p" "idle_threads (on_tq g p) = idle_threads p"
  "slow_io_work_running (on_tq g p) = slow_io_work_running p" "w_work (on_tq g p) = w_work p"
  "workers (on_tq g s) = workers s" "phase (on_tq g s) = phase s" "in_done (on_tq g s) = in_done s"
  "exiting (on_tq g s) = exiting s"
  by (simp_all add: on_tq_def)

lemma uv_cond_signal_simps [simp]:
  "tq (uv_cond_signal p) = tq p" "nthreads (uv_cond_signal p) = nthreads p"
  "idle_threads (uv_cond_signal p) = idle_threads p"
  "slow_io_work_running (uv_cond_signal p) = slow_io_work_running p" "w_work (uv_cond_signal p) = w_work p"
  "workers (uv_cond_signal s) = workers s" "phase (uv_cond_signal s) = phase s"
  "in_done (uv_cond_signal s) = in_done s" "exiting (uv_cond_signal s) = exiting s"
  by (simp_all add: uv_cond_signal_def)

lemma happens_goes_simps [simp]:
  "tq (happens w e p) = tq p" "nthreads (happens w e p) = nthreads p" "idle_threads (happens w e p) = idle_threads p"
  "slow_io_work_running (happens w e p) = slow_io_work_running p" "w_work (happens w e p) = w_work p"
  "workers (happens w e p) = workers p" "in_done (happens w e p) = in_done p" "exiting (happens w e p) = exiting p"
  "phase (happens w e p) = (phase p)(w := phase p w \<bind> (\<lambda>a. req_next a e))"
  "tq (goes_to i x p) = tq p" "nthreads (goes_to i x p) = nthreads p" "idle_threads (goes_to i x p) = idle_threads p"
  "slow_io_work_running (goes_to i x p) = slow_io_work_running p" "w_work (goes_to i x p) = w_work p"
  "phase (goes_to i x p) = phase p" "in_done (goes_to i x p) = in_done p" "exiting (goes_to i x p) = exiting p"
  "workers (goes_to i x p) = (workers p)(i := x)"
  by (simp_all add: happens_def goes_to_def)

lemma pool_lists_upd:
  "(pool_lists q ss ls ds)(WQ := q') = pool_lists q' ss ls ds"
  "(pool_lists q ss ls ds)(SlowWQ := map Work ss') = pool_lists q ss' ls ds"
  "(pool_lists q ss ls ds)(LoopWQ := map Work ls') = pool_lists q ss ls' ds"
  "(pool_lists q ss ls ds)(DoneWQ := map Work ds') = pool_lists q ss ls ds'"
  "(pool_lists q ss ls ds)(RunSlow := []) = pool_lists q ss ls ds"
  "(pool_lists q ss ls ds)(Work w := []) = pool_lists q ss ls ds"
  by (rule ext, rename_tac x, case_tac x; simp)+

lemma run_slow_empty:
  assumes st: "queues s (pool_heads q p) (pool_lists q ss ls ds)"
  shows "QUEUE_EMPTY s RunSlow \<longleftrightarrow> RunSlow \<notin> set q"
proof (cases "RunSlow \<in> set q")
  case True
  then show ?thesis using QUEUE_EMPTY_member queuesD [OF st, of WQ] by fastforce
next
  case False
  then show ?thesis using qs.empty_law [OF st, of RunSlow] by simp
qed

lemma pool_empty:
  assumes "pool_inv q ss ls ds p"
  shows "QUEUE_EMPTY (tq p) WQ \<longleftrightarrow> q = []" and "QUEUE_EMPTY (tq p) SlowWQ \<longleftrightarrow> ss = []"
    and "in_done p \<Longrightarrow> QUEUE_EMPTY (tq p) DoneWQ \<longleftrightarrow> ds = []"
    and "q = x # xs \<Longrightarrow> QUEUE_HEAD (tq p) WQ = x"
    and "QUEUE_EMPTY (tq p) RunSlow \<longleftrightarrow> RunSlow \<notin> set q"
proof -
  note d = pool_invD [OF assms]
  show "QUEUE_EMPTY (tq p) WQ \<longleftrightarrow> q = []" "QUEUE_EMPTY (tq p) SlowWQ \<longleftrightarrow> ss = []"
    using qs.empty_law [OF d(1), of WQ] qs.empty_law [OF d(1), of SlowWQ] by simp_all
  show "in_done p \<Longrightarrow> QUEUE_EMPTY (tq p) DoneWQ \<longleftrightarrow> ds = []" using qs.empty_law [OF d(1), of DoneWQ] by simp
  show "q = x # xs \<Longrightarrow> QUEUE_HEAD (tq p) WQ = x" using qs.head_law [OF d(1), of WQ] by simp
  show "QUEUE_EMPTY (tq p) RunSlow \<longleftrightarrow> RunSlow \<notin> set q" by (rule run_slow_empty [OF d(1)])
qed

text \<open>\<open>QUEUE_REMOVE\<close> and \<open>QUEUE_INIT\<close> of the head of the main queue.\<close>

lemma pool_pop:
  assumes inv: "pool_inv (x # xs) ss ls ds p"
  shows "queues (QUEUE_INIT x (QUEUE_REMOVE x (tq p))) (insert x (pool_heads (x # xs) p))
    ((pool_lists xs ss ls ds)(x := []))"
proof -
  note d = pool_invD [OF inv]
  have "x \<noteq> WQ" using d(2) by auto
  then show ?thesis
    using qs.pop_init [OF d(1), of WQ x xs] by (simp add: pool_lists_upd fun_upd_twist)
qed

lemma step_lists:
  assumes inv: "pool_inv q ss ls ds p"
    and p': "workers p' = workers p" "phase p' = phase p" "w_work p' = w_work p" "in_done p' = in_done p"
      "exiting p' = exiting p" "nthreads p' = nthreads p" "slow_io_work_running p' = slow_io_work_running p"
      "idle_threads p' = idle_threads p"
    and st: "queues (tq p') (pool_heads q' p) (pool_lists q' ss ls ds)"
    and lists: "insert RunSlow (set q') = insert RunSlow (set q)" "ss \<noteq> [] \<Longrightarrow> RunSlow \<in> set q'"
  shows "pool_inv q' ss ls ds p'"
proof -
  note d = pool_invD [OF inv]
  have ex: "executing p' w \<longleftrightarrow> executing p w" for w by (simp add: executing_def p')
  have heads: "pool_heads q' p' = pool_heads q' p" by (simp add: pool_heads_def ex p')
  have mem: "Work w \<in> set q' \<longleftrightarrow> Work w \<in> set q" "ExitMsg \<in> set q' \<longleftrightarrow> ExitMsg \<in> set q" for w
    using lists(1) by auto
  show ?thesis
  proof (rule pool_invI)
    show "set q' \<subseteq> insert RunSlow (insert ExitMsg (range Work))" using lists(1) d(2) by blast
    show "phase_ok q' ss ls ds p' w" for w
      by (rule phase_ok_frame [OF d(6)]) (simp_all add: p' ex mem)
    show "workers p' j = Executing v b \<Longrightarrow> workers p' k = Executing v c \<Longrightarrow> j = k" for j k v b c
      using d(7) by (simp add: p')
  qed (use d lists st in \<open>simp_all add: p' heads mem\<close>)
qed

lemma round_fast:
  assumes inv: "pool_inv (Work w # xs) ss ls ds p" and i: "i < unat (nthreads p)" and r: "workers p i = Ready"
  shows "\<exists>p'. worker_step i p = Some p' \<and> pool_inv xs ss ls ds p'"
proof -
  note d = pool_invD [OF inv] and e = pool_empty [OF inv]
  define p1 where "p1 = on_tq (QUEUE_INIT (Work w)) (on_tq (QUEUE_REMOVE (Work w)) p)"
  define p' where "p' = happens w Started (goes_to i (Executing w False) p1)"
  have "\<not> must_wait p" using e by (simp add: must_wait_def)
  then have step: "worker_step i p = Some p'"
    using r e(4) by (simp add: worker_step_def worker_round_def p1_def p'_def Let_def)
  have ex: "executing p' v \<longleftrightarrow> v = w \<or> executing p v" for v
    using r unfolding executing_def by (auto simp: p'_def p1_def) (metis worker_pc.distinct(3))
  have heads: "insert (Work w) (pool_heads (Work w # xs) p) = pool_heads xs p'"
    by (auto simp: pool_heads_def ex) (simp_all add: p'_def p1_def)
  have "pool_inv xs ss ls ds p'"
  proof (rule step_take [OF inv i r, of w])
    show "queues (tq p') (pool_heads xs p') (pool_lists xs ss ls ds)"
      using pool_pop [OF inv] by (simp add: heads pool_lists_upd) (simp add: p'_def p1_def)
    show "ss \<noteq> [] \<Longrightarrow> RunSlow \<in> set xs" using d(5) by simp
    show "workers p' = (workers p)(i := Executing w False)" by (simp add: p'_def p1_def)
  qed (auto simp: p'_def p1_def)
  then show ?thesis using step by blast
qed

lemma round_slow:
  assumes inv: "pool_inv (RunSlow # xs) ss ls ds p" and i: "i < unat (nthreads p)" and r: "workers p i = Ready"
    and go: "\<not> must_wait p"
  shows "\<exists>p' q' ss'. worker_step i p = Some p' \<and> pool_inv q' ss' ls ds p'"
proof -
  note d = pool_invD [OF inv] and e = pool_empty [OF inv]
  define p1 where "p1 = on_tq (QUEUE_INIT RunSlow) (on_tq (QUEUE_REMOVE RunSlow) p)"
  have step: "worker_step i p = worker_take_slow p1 \<bind> (\<lambda>(r, p). case r of Sleep \<Rightarrow> Some (goes_to i Asleep p)
      | Leave \<Rightarrow> Some (goes_to i Gone p) | Again \<Rightarrow> Some p
      | Take w slow \<Rightarrow> Some (happens w Started (goes_to i (Executing w slow) p)))"
    using r e(4) go by (simp add: worker_step_def worker_round_def p1_def Let_def)
  have xs: "RunSlow \<notin> set xs" using pool_places(1) [OF inv] by simp
  have heads: "insert RunSlow (pool_heads (RunSlow # xs) p) = pool_heads xs p" using xs by (auto simp: pool_heads_def)
  have q1: "queues (tq p1) (pool_heads xs p) (pool_lists xs ss ls ds)"
    using pool_pop [OF inv] by (simp add: p1_def heads pool_lists_upd)
  have thr: "slow_io_work_running p1 = slow_io_work_running p" "slow_work_thread_threshold p1 = slow_work_thread_threshold p"
    by (simp_all add: p1_def slow_work_thread_threshold_def)
  have announce: "queues (QUEUE_INSERT_TAIL WQ RunSlow s) (pool_heads (xs @ [RunSlow]) t) (pool_lists (xs @ [RunSlow]) us ls ds)"
    if "queues s (pool_heads xs t) (pool_lists xs us ls ds)" for s t us
  proof -
    have "pool_heads xs t - {RunSlow} = pool_heads (xs @ [RunSlow]) t" by (auto simp: pool_heads_def)
    then show ?thesis using qs.enqueue_fresh [OF that, of RunSlow WQ] xs by (simp add: pool_lists_upd)
  qed
  show ?thesis
  proof (cases "slow_work_thread_threshold p \<le> slow_io_work_running p")
    case True
    let ?p = "on_tq (QUEUE_INSERT_TAIL WQ RunSlow) p1"
    have "worker_step i p = Some ?p" using True by (simp add: step worker_take_slow_def thr)
    moreover have "pool_inv (xs @ [RunSlow]) ss ls ds ?p"
      using announce [OF q1] by (intro step_lists [OF inv]) (auto simp: p1_def)
    ultimately show ?thesis by blast
  next
    case False
    have emp: "QUEUE_EMPTY (tq p1) SlowWQ \<longleftrightarrow> ss = []" using qs.empty_law [OF q1, of SlowWQ] by simp
    show ?thesis
    proof (cases ss)
      case Nil
      have "worker_step i p = Some p1" using False Nil emp by (simp add: step worker_take_slow_def thr)
      moreover have "pool_inv xs ss ls ds p1"
        using q1 Nil by (intro step_lists [OF inv]) (auto simp: p1_def)
      ultimately show ?thesis by blast
    next
      case (Cons w ws)
      define p2 where "p2 = p1\<lparr>slow_io_work_running := slow_io_work_running p1 + 1\<rparr>"
      define p3 where "p3 = on_tq (QUEUE_INIT (Work w)) (on_tq (QUEUE_REMOVE (Work w)) p2)"
      define p4 where "p4 = on_tq (QUEUE_INSERT_TAIL WQ RunSlow) p3"
      define p5 where "p5 = (if ws = [] then p3 else if idle_threads p4 > 0 then uv_cond_signal p4 else p4)"
      define p' where "p' = happens w Started (goes_to i (Executing w True) p5)"
      define q' where "q' = (if ws = [] then xs else xs @ [RunSlow])"
      have q1': "queues (tq p1) (pool_heads xs p) (pool_lists xs (w # ws) ls ds)" using q1 Cons by simp
      have hd: "QUEUE_HEAD (tq p2) SlowWQ = Work w" using qs.head_law [OF q1', of SlowWQ] by (simp add: p2_def)
      have q3: "queues (tq p3) (insert (Work w) (pool_heads xs p)) (pool_lists xs ws ls ds)"
        using qs.pop_init [OF q1', of SlowWQ "Work w" "map Work ws"]
        by (simp add: p3_def p2_def pool_lists_upd)
      have emp3: "QUEUE_EMPTY (tq p3) SlowWQ \<longleftrightarrow> ws = []" using qs.empty_law [OF q3, of SlowWQ] by simp
      have no: "\<not> slow_work_thread_threshold p1 \<le> slow_io_work_running p1" using False thr by simp
      have "worker_take_slow p1 = Some (Take w True, p5)"
        using no emp Cons emp3 unfolding worker_take_slow_def Let_def p2_def [symmetric] hd
          p3_def [symmetric] p4_def [symmetric] p5_def by simp
      then have st: "worker_step i p = Some p'" by (simp add: step p'_def)
      have p5: "workers p5 = workers p" "phase p5 = phase p" "w_work p5 = w_work p" "in_done p5 = in_done p"
        "exiting p5 = exiting p" "nthreads p5 = nthreads p" "idle_threads p5 = idle_threads p"
        "slow_io_work_running p5 = slow_io_work_running p + 1"
        "tq p5 = (if ws = [] then tq p3 else QUEUE_INSERT_TAIL WQ RunSlow (tq p3))"
        by (simp_all add: p5_def p4_def p3_def p2_def p1_def)
      have ex: "executing p' v \<longleftrightarrow> v = w \<or> executing p v" for v
        using r unfolding executing_def by (auto simp: p'_def p5) (metis worker_pc.distinct(3))
      have hs: "insert (Work w) (pool_heads xs p) = pool_heads xs p'"
        by (auto simp: pool_heads_def ex) (simp_all add: p'_def p5)
      have "pool_inv q' ws ls ds p'"
      proof (rule step_take [OF inv i r, of w])
        show "queues (tq p') (pool_heads q' p') (pool_lists q' ws ls ds)"
          using q3 announce [of "tq p3" p' ws] unfolding hs q'_def by (cases "ws = []") (simp_all add: p'_def p5)
        show "Work w \<in> set (RunSlow # xs) \<or> w \<in> set ss" using Cons by simp
        show "\<And>v. v \<noteq> w \<Longrightarrow> (Work v \<in> set q' \<or> v \<in> set ws) = (Work v \<in> set (RunSlow # xs) \<or> v \<in> set ss)"
          by (simp add: q'_def Cons)
        show "slow_io_work_running p < slow_work_thread_threshold p" using False by simp
        show "workers p' = (workers p)(i := Executing w True)" by (simp add: p'_def p5)
      qed (auto simp: p'_def p5 q'_def)
      then show ?thesis using st by blast
    qed
  qed
qed

lemma step_client:
  assumes inv: "pool_inv q ss ls ds p"
    and p': "workers p' = workers p" "nthreads p' = nthreads p" "slow_io_work_running p' = slow_io_work_running p"
      "idle_threads p' = idle_threads p"
    and st: "queues (tq p') (pool_heads q' p') (pool_lists q' ss' ls' ds')"
    and "set q' \<subseteq> insert RunSlow (insert ExitMsg (range Work))"
    and "ExitMsg \<in> set q' \<Longrightarrow> exiting p'" and "ds' \<noteq> [] \<Longrightarrow> in_done p'" and "ss' \<noteq> [] \<Longrightarrow> RunSlow \<in> set q'"
    and "\<And>w. phase_ok q' ss' ls' ds' p' w"
  shows "pool_inv q' ss' ls' ds' p'"
  using assms(6-) st pool_invD(7-) [OF inv] by (intro pool_invI) (simp_all add: p')

lemma step_reports:
  assumes inv: "pool_inv q ss ls ds p" and i: "i < unat (nthreads p)" and r: "workers p i = Executing w slow"
  shows "\<exists>p'. worker_step i p = Some p' \<and> pool_inv q ss (ls @ [w]) ds p'"
proof -
  note d = pool_invD [OF inv]
  define p' where "p' = happens w Worked (goes_to i (Returning slow) (worker_reports w p))"
  have e: "executing p w" using r by (auto simp: executing_def)
  have ph: "phase p w = Some Running" by (rule pool_phase(2) [OF inv e])
  then obtain f where f: "w_work p w = Some f" "f \<noteq> Uv__cancelled"
    using d(6) [of w] by (auto simp: phase_ok_def)
  then have st: "worker_step i p = Some p'" using r by (simp add: worker_step_def p'_def)
  have p': "workers p' = (workers p)(i := Returning slow)" "phase p' = (phase p)(w := Some Finished)"
    "w_work p' = (w_work p)(w := None)" "tq p' = QUEUE_INSERT_TAIL LoopWQ (Work w) (tq p)" "in_done p' = in_done p"
    "exiting p' = exiting p" "nthreads p' = nthreads p" "slow_io_work_running p' = slow_io_work_running p"
    "idle_threads p' = idle_threads p"
    using ph by (simp_all add: p'_def worker_reports_def Let_def on_tq_def)
  have ex: "executing p' v \<longleftrightarrow> v \<noteq> w \<and> executing p v" for v
    using d(7) r unfolding executing_def p'(1)
    by (auto split: if_splits) (metis worker_pc.inject(1))
  have heads: "pool_heads q p - {Work w} = pool_heads q p'" by (auto simp: pool_heads_def ex p')
  have n: "w \<notin> set ls" "w \<notin> set ds" using pool_places(7,8) [OF inv] e by blast+
  have "pool_inv q ss (ls @ [w]) ds p'"
  proof (rule pool_invI)
    show "queues (tq p') (pool_heads q p') (pool_lists q ss (ls @ [w]) ds)"
      using qs.enqueue_fresh [OF d(1), of "Work w" LoopWQ] e pool_lists_upd(3) [of q ss ls ds "ls @ [w]"]
      by (simp add: heads p')
    show "phase_ok q ss (ls @ [w]) ds p' v" for v
    proof (cases "v = w")
      case True
      then show ?thesis by (simp add: phase_ok_def p')
    next
      case False
      then show ?thesis by (intro phase_ok_frame [OF d(6)]) (simp_all add: p' ex)
    qed
    show "workers p' j = Executing v b \<Longrightarrow> workers p' k = Executing v c \<Longrightarrow> j = k" for j k v b c
      using d(7) by (auto simp: p'(1) split: if_splits)
    show "slow_io_work_running p' = of_nat (count_threads slow_pc (unat (nthreads p')) (workers p'))"
      unfolding p' d(10) counters_upd [OF inv i] by (simp add: r)
    show "idle_threads p' = of_nat (count_threads (\<lambda>pc. pc = Asleep) (unat (nthreads p')) (workers p'))"
      unfolding p' d(12) counters_upd [OF inv i] by (simp add: r)
    show "count_threads slow_pc (unat (nthreads p')) (workers p') \<le> (unat (nthreads p') + 1) div 2"
      using d(11) count_threads_upd [OF i, of slow_pc "workers p" "Returning slow"] by (simp add: p' r)
  qed (use d in \<open>simp_all add: p'\<close>)
  then show ?thesis using st by blast
qed

lemma worker_step_ok:
  assumes inv: "pool_inv q ss ls ds p" and i: "i < unat (nthreads p)"
  shows "\<exists>p' q' ss' ls'. worker_step i p = Some p' \<and> pool_inv q' ss' ls' ds p'"
proof (cases "workers p i")
  case Ready
  show ?thesis
  proof (cases "must_wait p")
    case True
    let ?p = "goes_to i Asleep (p\<lparr>idle_threads := idle_threads p + 1\<rparr>)"
    have "worker_step i p = Some ?p" using True Ready by (simp add: worker_step_def worker_round_def)
    moreover have "pool_inv q ss ls ds ?p"
      by (rule step_quiet [OF inv i, of _ Asleep]) (simp_all add: Ready)
    ultimately show ?thesis by blast
  next
    case False
    then have "q \<noteq> []" using pool_empty(1) [OF inv] by (simp add: must_wait_def)
    then obtain x xs where q: "q = x # xs" by (cases q) auto
    then consider w where "x = Work w" | "x = ExitMsg" | "x = RunSlow" using pool_invD(2) [OF inv] by auto
    then show ?thesis
    proof cases
      case 1
      then show ?thesis using round_fast [OF _ i Ready] inv q by blast
    next
      case 2
      let ?p = "goes_to i Gone (uv_cond_signal p)"
      have "worker_step i p = Some ?p"
        using False Ready pool_empty(4) [OF inv q] 2 by (simp add: worker_step_def worker_round_def)
      moreover have "pool_inv q ss ls ds ?p"
        by (rule step_quiet [OF inv i, of _ Gone]) (simp_all add: Ready)
      ultimately show ?thesis by blast
    next
      case 3
      then show ?thesis using round_slow [OF _ i Ready False] inv q by blast
    qed
  qed
next
  case Asleep
  let ?p = "goes_to i Ready (worker_wakes p)"
  have "worker_step i p = Some ?p" using Asleep by (simp add: worker_step_def)
  moreover have "pool_inv q ss ls ds ?p"
    by (rule step_quiet [OF inv i, of _ Ready]) (simp_all add: Asleep worker_wakes_def)
  ultimately show ?thesis by blast
next
  case (Executing w slow)
  then show ?thesis using step_reports [OF inv i] by blast
next
  case (Returning slow)
  let ?p = "goes_to i Ready (worker_returns slow p)"
  have "worker_step i p = Some ?p" using Returning by (simp add: worker_step_def)
  moreover have "pool_inv q ss ls ds ?p"
    by (rule step_quiet [OF inv i, of _ Ready]) (simp_all add: Returning worker_returns_def)
  ultimately show ?thesis by blast
next
  case Gone
  then show ?thesis using inv by (auto simp: worker_step_def)
qed

lemma step_submit:
  assumes inv: "pool_inv q ss ls ds p" and ok: "phase p w = Some Idle" "work \<noteq> Uv__cancelled"
  shows "\<exists>q' ss'. pool_inv q' ss' ls ds (happens w Submitted (uv__work_submit w kind work p))"
proof -
  note d = pool_invD [OF inv]
  have out: "Work w \<notin> set q" "w \<notin> set ss" "w \<notin> set ls" "w \<notin> set ds" "\<not> executing p w"
    using d(6) [of w] ok(1) by (simp_all add: phase_ok_def)
  have un: "unused (pool_heads q p) (pool_lists q ss ls ds) (Work w)"
    using out d(2) by (auto simp: unused_def qcell_def pool_heads_def split: if_splits)
  define p1 where "p1 = p\<lparr>w_work := (w_work p)(w := Some work)\<rparr>"
  define p' where "p' = happens w Submitted (uv__work_submit w kind work p)"
  have q1: "queues (tq p1) (pool_heads q p) (pool_lists q ss ls ds)" using d(1) by (simp add: p1_def)
  define q' where "q' = (if kind = UV__WORK_SLOW_IO then if RunSlow \<in> set q then q else q @ [RunSlow] else q @ [Work w])"
  define ss' where "ss' = (if kind = UV__WORK_SLOW_IO then ss @ [w] else ss)"
  have p': "workers p' = workers p" "phase p' = (phase p)(w := Some Waiting)" "w_work p' = (w_work p)(w := Some work)"
    "in_done p' = in_done p" "exiting p' = exiting p" "nthreads p' = nthreads p"
    "slow_io_work_running p' = slow_io_work_running p" "idle_threads p' = idle_threads p"
    by (simp_all add: p'_def uv__work_submit_def post_def Let_def on_tq_def uv_cond_signal_def ok)
  have ex: "executing p' v \<longleftrightarrow> executing p v" for v by (simp add: executing_def p')
  have heads: "pool_heads x p' = pool_heads x p" for x by (simp add: pool_heads_def ex p')
  have "queues (tq p') (pool_heads q' p) (pool_lists q' ss' ls ds)"
  proof (cases "kind = UV__WORK_SLOW_IO")
    case True
    have q2: "queues (QUEUE_INSERT_TAIL SlowWQ (Work w) (tq p)) (pool_heads q p) (pool_lists q (ss @ [w]) ls ds)"
      using qs.insert_tail_law [OF d(1) _ un, of SlowWQ] pool_lists_upd(2) [of q ss ls ds "ss @ [w]"] by simp
    have run: "QUEUE_EMPTY (QUEUE_INSERT_TAIL SlowWQ (Work w) (tq p)) RunSlow \<longleftrightarrow> RunSlow \<notin> set q"
      by (rule run_slow_empty [OF q2])
    show ?thesis
    proof (cases "RunSlow \<in> set q")
      case True
      then show ?thesis
        using \<open>kind = UV__WORK_SLOW_IO\<close> q2 run
        by (simp add: p'_def uv__work_submit_def post_def q'_def ss'_def Let_def)
    next
      case False
      have "pool_heads q p - {RunSlow} = pool_heads (q @ [RunSlow]) p" by (auto simp: pool_heads_def)
      then show ?thesis
        using \<open>kind = UV__WORK_SLOW_IO\<close> False run qs.enqueue_fresh [OF q2, of RunSlow WQ]
        by (simp add: p'_def uv__work_submit_def post_def q'_def ss'_def Let_def pool_lists_upd)
    qed
  next
    case False
    have "pool_heads (q @ [Work w]) p = pool_heads q p" by (auto simp: pool_heads_def)
    then show ?thesis
      using False qs.insert_tail_law [OF d(1) _ un, of WQ]
      by (simp add: p'_def uv__work_submit_def post_def q'_def ss'_def Let_def pool_lists_upd)
  qed
  then have "queues (tq p') (pool_heads q' p') (pool_lists q' ss' ls ds)" by (simp add: heads)
  moreover have "phase_ok q' ss' ls ds p' v" for v
  proof (cases "v = w")
    case True
    then show ?thesis using ok by (simp add: phase_ok_def p' q'_def ss'_def)
  next
    case False
    then show ?thesis by (intro phase_ok_frame [OF d(6)]) (simp_all add: p' ex q'_def ss'_def)
  qed
  ultimately have "pool_inv q' ss' ls ds p'"
    using d(2-5) by (intro step_client [OF inv]) (auto simp: p' q'_def ss'_def split: if_splits)
  then show ?thesis unfolding p'_def by blast
qed

lemma remove1_Work: "remove1 (Work w) (map Work xs) = map Work (remove1 w xs)"
  by (induction xs) auto

text \<open>\<open>uv__work_cancel\<close> of a request that has not been reported.\<close>

lemma cancel_refused:
  assumes inv: "pool_inv q ss ls ds p" and ph: "phase p w = Some Running \<or> phase p w = Some Finished"
  shows "uv__work_cancel w p = (Inl UV_EBUSY, p)"
proof -
  note d = pool_invD [OF inv]
  have "QUEUE_EMPTY (tq p) (Work w) \<or> w_work p w = None"
  proof (cases "phase p w = Some Finished")
    case True
    then show ?thesis using d(6) [of w] by (simp add: phase_ok_def)
  next
    case False
    then have "executing p w" using ph d(6) [of w] by (simp add: phase_ok_def)
    then show ?thesis using qs.empty_law [OF d(1), of "Work w"] by simp
  qed
  then show ?thesis by (auto simp: uv__work_cancel_def Let_def)
qed

lemma cancel_accepted:
  assumes inv: "pool_inv q ss ls ds p" and ph: "phase p w = Some Waiting \<or> phase p w = Some Cancelled"
  shows "\<exists>q' ss' ls' ds' p'. uv__work_cancel w p = (Inr (), p') \<and> phase p' = phase p \<and>
    w_work p' w = Some Uv__cancelled \<and> async_sends p' = async_sends p + 1 \<and>
    pool_inv q' ss' ls' ds' (happens w Withdrawn p')"
proof -
  note d = pool_invD [OF inv] and pl = pool_places [OF inv]
  define q' where "q' = remove1 (Work w) q"
  define ss' where "ss' = remove1 w ss"
  define ls' where "ls' = remove1 w ls @ [w]"
  define ds' where "ds' = remove1 w ds"
  define p' where "p' = p\<lparr>w_work := (w_work p)(w := Some Uv__cancelled),
      tq := QUEUE_INSERT_TAIL LoopWQ (Work w) (QUEUE_REMOVE (Work w) (tq p)), async_sends := async_sends p + 1\<rparr>"
  define p2 where "p2 = happens w Withdrawn p'"
  have wk: "w_work p w \<noteq> None" and nex: "\<not> executing p w"
    and loc: "Work w \<in> set q \<or> w \<in> set ss \<or> w \<in> set ls \<or> w \<in> set ds"
    using ph d(6) [of w] pl(5-8) [of w] by (auto simp: phase_ok_def)
  obtain h where h: "h \<in> pool_heads q p" "Work w \<in> set (pool_lists q ss ls ds h)"
    "(pool_lists q ss ls ds)(h := remove1 (Work w) (pool_lists q ss ls ds h)) = pool_lists q' ss' (remove1 w ls) ds'"
  proof -
    consider "Work w \<in> set q" | "w \<in> set ss" | "w \<in> set ls" | "w \<in> set ds" using loc by blast
    then show thesis
    proof cases
      case 1
      then show thesis using that [of WQ] pl(5) [of w]
        by (simp add: pool_lists_upd q'_def ss'_def ds'_def remove1_idem)
    next
      case 2
      then have "Work w \<notin> set q" using pl(5) by blast
      then show thesis using that [of SlowWQ] pl(6) [of w] 2
        by (simp add: pool_lists_upd q'_def ss'_def ds'_def remove1_idem remove1_Work)
    next
      case 3
      then have "Work w \<notin> set q" "w \<notin> set ss" using pl(5,6) by blast+
      then show thesis using that [of LoopWQ] pl(7) [of w] 3
        by (simp add: pool_lists_upd q'_def ss'_def ds'_def remove1_idem remove1_Work)
    next
      case 4
      then have "Work w \<notin> set q" "w \<notin> set ss" "w \<notin> set ls" using pl(5-7) by blast+
      moreover have "in_done p" using d(4) 4 by (cases ds) auto
      ultimately show thesis using that [of DoneWQ] 4
        by (simp add: pool_lists_upd q'_def ss'_def ds'_def remove1_idem remove1_Work)
    qed
  qed
  have st: "queues (tq p') (pool_heads q p) (pool_lists q' ss' ls' ds')"
    using qs.transfer [OF d(1) h(1,2), of LoopWQ] unfolding h(3)
    using pool_lists_upd(3) [of q' ss' "remove1 w ls" ds' ls'] by (simp add: p'_def ls'_def)
  have ne: "\<not> QUEUE_EMPTY (tq p) (Work w)"
    using QUEUE_EMPTY_member [OF queuesD [OF d(1) h(1)]] h(2) .
  have eq: "uv__work_cancel w p = (Inr (), p')"
    using ne wk by (simp add: uv__work_cancel_def Let_def p'_def on_tq_def)
  have p2: "workers p2 = workers p" "phase p2 = (phase p)(w := Some Cancelled)" "tq p2 = tq p'"
    "w_work p2 = (w_work p)(w := Some Uv__cancelled)" "in_done p2 = in_done p" "exiting p2 = exiting p"
    "nthreads p2 = nthreads p" "slow_io_work_running p2 = slow_io_work_running p" "idle_threads p2 = idle_threads p"
    using ph by (auto simp: p2_def p'_def)
  have ex: "executing p2 v \<longleftrightarrow> executing p v" for v by (simp add: executing_def p2)
  have run: "RunSlow \<in> set q' \<longleftrightarrow> RunSlow \<in> set q" by (simp add: q'_def)
  have heads: "pool_heads q' p2 = pool_heads q p" by (simp add: pool_heads_def ex p2 run)
  have sub: "set q' \<subseteq> set q" "set ss' \<subseteq> set ss" "set ds' \<subseteq> set ds"
    by (simp_all add: q'_def ss'_def ds'_def set_remove1_subset)
  have "pool_inv q' ss' ls' ds' p2"
  proof (rule step_client [OF inv])
    show "queues (tq p2) (pool_heads q' p2) (pool_lists q' ss' ls' ds')" using st by (simp add: heads p2)
    show "set q' \<subseteq> insert RunSlow (insert ExitMsg (range Work))" using sub(1) d(2) by blast
    show "ExitMsg \<in> set q' \<Longrightarrow> exiting p2" using sub(1) d(3) p2(6) by blast
    show "ds' \<noteq> [] \<Longrightarrow> in_done p2" using sub(3) d(4) p2(5) by fastforce
    show "ss' \<noteq> [] \<Longrightarrow> RunSlow \<in> set q'" using sub(2) d(5) run by fastforce
    show "phase_ok q' ss' ls' ds' p2 v" for v
    proof (cases "v = w")
      case True
      then show ?thesis by (simp add: phase_ok_def p2 ls'_def)
    next
      case False
      then show ?thesis
        by (intro phase_ok_frame [OF d(6)]) (simp_all add: p2 ex q'_def ss'_def ls'_def ds'_def)
    qed
  qed (simp_all add: p2)
  moreover have "phase p' = phase p" "w_work p' w = Some Uv__cancelled" "async_sends p' = async_sends p + 1"
    by (simp_all add: p'_def)
  ultimately show ?thesis using eq unfolding p2_def by blast
qed

lemma step_done_move:
  assumes inv: "pool_inv q ss ls ds p" and no: "\<not> in_done p"
  shows "pool_inv q ss [] ls ((work_done_move p)\<lparr>in_done := True\<rparr>)"
proof -
  note d = pool_invD [OF inv]
  have ds: "ds = []" using d(4) no by (cases ds) auto
  let ?p = "(work_done_move p)\<lparr>in_done := True\<rparr>"
  have f: "workers ?p = workers p" "phase ?p = phase p" "w_work ?p = w_work p" "in_done ?p" "exiting ?p = exiting p"
    "nthreads ?p = nthreads p" "slow_io_work_running ?p = slow_io_work_running p"
    "idle_threads ?p = idle_threads p" "tq ?p = QUEUE_MOVE LoopWQ DoneWQ (tq p)"
    by (simp_all add: work_done_move_def)
  have ex: "executing ?p v \<longleftrightarrow> executing p v" for v by (simp add: executing_def f)
  have heads: "pool_heads q ?p = insert DoneWQ (pool_heads q p)" using no by (auto simp: pool_heads_def ex f)
  have un: "unused (pool_heads q p) (pool_lists q ss ls ds) DoneWQ"
    using no d(2) by (auto simp: unused_def qcell_def pool_heads_def split: if_splits)
  have upd: "(pool_lists q ss ls ds)(DoneWQ := map Work ls, LoopWQ := []) = pool_lists q ss [] ls"
    by (rule ext, rename_tac x, case_tac x; simp)
  show ?thesis
  proof (rule step_client [OF inv])
    show "queues (tq ?p) (pool_heads q ?p) (pool_lists q ss [] ls)"
      using qs.move_law [OF d(1) _ un, of LoopWQ] by (simp add: f heads upd)
    show "phase_ok q ss [] ls ?p v" for v
      by (rule phase_ok_frame [OF d(6)]) (simp_all add: f ex ds)
  qed (use d in \<open>simp_all add: f\<close>)
qed

lemma step_done_next:
  assumes inv: "pool_inv q ss ls ds p" and id: "in_done p" and ne: "\<not> QUEUE_EMPTY (tq p) DoneWQ"
  shows "\<exists>w r p' ds'. work_done_next p = Some ((w, r), p') \<and> pool_inv q ss ls ds' (happens w (Reported r) p')"
proof -
  note d = pool_invD [OF inv]
  obtain w ws where ds: "ds = w # ws" using ne pool_empty(3) [OF inv id] by (cases ds) auto
  have hd: "QUEUE_HEAD (tq p) DoneWQ = Work w" and
    st: "queues (QUEUE_REMOVE (Work w) (tq p)) (pool_heads q p) (pool_lists q ss ls ws)"
    using qs.pop(1,2) [OF d(1), of DoneWQ "Work w" "map Work ws"] id ds by (simp_all add: pool_lists_upd)
  define p' where "p' = on_tq (QUEUE_REMOVE (Work w)) p"
  define p2 where "p2 = happens w (Reported (work_status p' w)) p'"
  have eq: "work_done_next p = Some ((w, work_status p' w), p')"
    by (simp add: work_done_next_def hd p'_def Let_def)
  have ph: "phase p w = Some Finished \<and> w_work p w = None \<or> phase p w = Some Cancelled \<and> w_work p w = Some Uv__cancelled"
    using pool_phase(3) [OF inv, of w] ds by simp
  have f: "workers p2 = workers p" "phase p2 = (phase p)(w := Some Idle)" "w_work p2 = w_work p" "in_done p2 = in_done p"
    "exiting p2 = exiting p" "nthreads p2 = nthreads p" "slow_io_work_running p2 = slow_io_work_running p"
    "idle_threads p2 = idle_threads p" "tq p2 = QUEUE_REMOVE (Work w) (tq p)"
    using ph by (auto simp: p2_def p'_def work_status_def)
  have ex: "executing p2 v \<longleftrightarrow> executing p v" for v by (simp add: executing_def f)
  have heads: "pool_heads q p2 = pool_heads q p" by (simp add: pool_heads_def ex f)
  have out: "Work w \<notin> set q" "w \<notin> set ss" "w \<notin> set ls" "\<not> executing p w" "w \<notin> set ws"
    using pool_places(5-8) [OF inv, of w] pool_places(4) [OF inv] ds by auto
  have "pool_inv q ss ls ws p2"
  proof (rule step_client [OF inv])
    show "queues (tq p2) (pool_heads q p2) (pool_lists q ss ls ws)" using st by (simp add: heads f)
    show "phase_ok q ss ls ws p2 v" for v
    proof (cases "v = w")
      case True
      then show ?thesis using out by (simp add: phase_ok_def f ex)
    next
      case False
      then show ?thesis by (intro phase_ok_frame [OF d(6)]) (simp_all add: f ex ds)
    qed
  qed (use d id in \<open>simp_all add: f\<close>)
  then show ?thesis using eq unfolding p2_def by blast
qed

lemma step_exit:
  assumes inv: "pool_inv q ss ls ds p" and no: "\<not> exiting p"
  shows "pool_inv (q @ [ExitMsg]) ss ls ds ((threadpool_cleanup_post p)\<lparr>exiting := True\<rparr>)"
proof -
  note d = pool_invD [OF inv]
  let ?p = "(threadpool_cleanup_post p)\<lparr>exiting := True\<rparr>"
  have "nthreads p \<noteq> 0" using d(8) by auto
  then have f: "workers ?p = workers p" "phase ?p = phase p" "w_work ?p = w_work p" "in_done ?p = in_done p" "exiting ?p"
    "nthreads ?p = nthreads p" "slow_io_work_running ?p = slow_io_work_running p"
    "idle_threads ?p = idle_threads p" "tq ?p = QUEUE_INSERT_TAIL WQ ExitMsg (tq p)"
    by (simp_all add: threadpool_cleanup_post_def post_def Let_def)
  have ex: "executing ?p v \<longleftrightarrow> executing p v" for v by (simp add: executing_def f)
  have heads: "pool_heads (q @ [ExitMsg]) ?p = pool_heads q p" by (simp add: pool_heads_def ex f)
  have un: "unused (pool_heads q p) (pool_lists q ss ls ds) ExitMsg"
    using no d(2,3) by (auto simp: unused_def qcell_def pool_heads_def split: if_splits)
  show ?thesis
  proof (rule step_client [OF inv])
    show "queues (tq ?p) (pool_heads (q @ [ExitMsg]) ?p) (pool_lists (q @ [ExitMsg]) ss ls ds)"
      using qs.insert_tail_law [OF d(1) _ un, of WQ] by (simp add: f heads pool_lists_upd)
    show "phase_ok (q @ [ExitMsg]) ss ls ds ?p v" for v
      by (rule phase_ok_frame [OF d(6)]) (simp_all add: f ex)
  qed (use d in \<open>simp_all add: f\<close>)
qed

lemma step_done_end:
  assumes inv: "pool_inv q ss ls ds p" and id: "in_done p" and e: "QUEUE_EMPTY (tq p) DoneWQ"
  shows "pool_inv q ss ls [] (p\<lparr>in_done := False\<rparr>)"
proof -
  note d = pool_invD [OF inv]
  let ?p = "p\<lparr>in_done := False\<rparr>"
  have ds: "ds = []" using pool_empty(3) [OF inv id] e by simp
  have ex: "executing ?p v \<longleftrightarrow> executing p v" for v by (simp add: executing_def)
  have "pool_heads q ?p \<subseteq> pool_heads q p" by (auto simp: pool_heads_def ex)
  then have "queues (tq p) (pool_heads q ?p) (pool_lists q ss ls [])"
    using qs.subset_law [OF d(1)] ds by simp
  then show ?thesis
    using d ds by (intro step_client [OF inv]) (auto intro: phase_ok_frame [OF d(6)] simp: ex)
qed

section \<open>Every reached state\<close>

lemma pool_step_ok:
  assumes inv: "pool_inv q ss ls ds p" and al: "allowed e p"
  shows "\<exists>p' q' ss' ls' ds'. pool_step e p = Some p' \<and> pool_inv q' ss' ls' ds' p'"
proof (cases e)
  case (Thread i)
  then show ?thesis using worker_step_ok [OF inv, of i] al
    by (simp add: pool_step_def allowed_def) blast
next
  case (Submit w kind work)
  then show ?thesis using step_submit [OF inv, of w work kind] al by (auto simp: pool_step_def allowed_def)
next
  case (Cancel w)
  have "phase p w \<noteq> None" "phase p w \<noteq> Some Idle"
    using phase_not_None [OF inv] al Cancel by (auto simp: allowed_def)
  then consider "phase p w = Some Running \<or> phase p w = Some Finished" | "phase p w = Some Waiting \<or> phase p w = Some Cancelled"
    by (cases "phase p w") (auto intro: req_phase.exhaust)
  then show ?thesis
  proof cases
    case 1
    then show ?thesis using cancel_refused [OF inv 1] inv Cancel by (auto simp: pool_step_def)
  next
    case 2
    then show ?thesis using cancel_accepted [OF inv 2] Cancel
      by (simp add: pool_step_def) (elim exE conjE, simp, blast)
  qed
next
  case DoneMove
  then show ?thesis using step_done_move [OF inv] al by (auto simp: pool_step_def allowed_def)
next
  case DoneNext
  then show ?thesis using step_done_next [OF inv] al
    by (simp add: pool_step_def allowed_def) (elim exE conjE, simp, blast)
next
  case DoneEnd
  then show ?thesis using step_done_end [OF inv] al by (auto simp: pool_step_def allowed_def)
next
  case Exit
  then show ?thesis using step_exit [OF inv] al by (auto simp: pool_step_def allowed_def)
qed

lemma init_nthreads_range:
  "1 \<le> unat (init_nthreads atoi val malloc_ok) \<and> unat (init_nthreads atoi val malloc_ok) \<le> 1024"
proof -
  have one: "Suc 0 \<le> unat n" if "n \<noteq> 0" for n :: u32 using that by (simp add: Suc_le_eq unat_gt_0)
  have top: "unat n \<le> 1024" if "\<not> 1024 < n" for n :: u32
    using that by (simp add: word_less_nat_alt)
  show ?thesis unfolding init_nthreads_def Let_def by (auto simp: one top split: option.split)
qed

lemma pool_reached_inv: "pool_reached p \<Longrightarrow> \<exists>q ss ls ds. pool_inv q ss ls ds p"
proof (induction rule: pool_reached.induct)
  case (start atoi val malloc_ok p)
  define n where "n = init_nthreads atoi val malloc_ok"
  have p: "p = on_tq (QUEUE_INIT RunSlow) (on_tq (QUEUE_INIT SlowWQ) (on_tq (QUEUE_INIT WQ) (blank_pool\<lparr>nthreads := n\<rparr>)))"
    using start by (simp add: init_threads_def n_def Let_def)
  have f: "workers p = (\<lambda>_. Ready)" "phase p = (\<lambda>_. Some Idle)" "\<not> in_done p" "nthreads p = n" "idle_threads p = 0"
    "slow_io_work_running p = 0" by (simp_all add: p blank_pool_def)
  have heads: "pool_heads [] p = {WQ, SlowWQ, LoopWQ, RunSlow}" by (auto simp: pool_heads_def f executing_def)
  have cnt: "count_threads P m (\<lambda>_. Ready) = 0" if "\<not> P Ready" for P m
    using that by (simp add: count_threads_def)
  have "queues (tq p) {WQ, SlowWQ, LoopWQ, RunSlow} (pool_lists [] [] [] [])"
    by (simp add: p blank_pool_def queues_def queue_at_Nil qcell_def queue_macros)
  then have "pool_inv [] [] [] [] p"
    using init_nthreads_range [of atoi val malloc_ok]
    by (intro pool_invI) (simp_all add: heads f phase_ok_def executing_def cnt n_def)
  then show ?case by blast
next
  case (step p e p')
  then show ?case using pool_step_ok [of _ _ _ _ p e] by fastforce
qed

text \<open>\<open>uv__work_done\<close>, when the \<open>done\<close> functions only record what they are called with.\<close>

definition record_done ::
  "addr \<Rightarrow> uv_errno + unit \<Rightarrow> (addr \<times> (uv_errno + unit)) list pool_ext \<Rightarrow> (addr \<times> (uv_errno + unit)) list pool_ext option" where
  "record_done w err p = Some (pool.more_update (\<lambda>l. l @ [(w, err)]) p)"

lemma work_done_loop_records:
  assumes "queues (tq p) Q f" and "DoneWQ \<in> Q" and "f DoneWQ = map Work ds"
  shows "\<exists>p'. work_done_loop record_done p = Some p' \<and>
    pool.more p' = pool.more p @ map (\<lambda>w. (w, work_status p w)) ds \<and> queues (tq p') Q (f(DoneWQ := []))"
  using assms
proof (induction ds arbitrary: p f)
  case Nil
  then have "QUEUE_EMPTY (tq p) DoneWQ" using qs.empty_law by fastforce
  then have "work_done_loop record_done p = Some p" by (subst work_done_loop.simps) simp
  then show ?case using Nil by (simp add: fun_upd_idem)
next
  case (Cons w ds)
  have ne: "\<not> QUEUE_EMPTY (tq p) DoneWQ" using qs.empty_law Cons.prems by fastforce
  have pop: "QUEUE_HEAD (tq p) DoneWQ = Work w"
      "queues (QUEUE_REMOVE (Work w) (tq p)) Q (f(DoneWQ := map Work ds))"
    using qs.pop(1,2) [OF Cons.prems(1,2), of "Work w" "map Work ds"] Cons.prems(3) by simp_all
  define p1 where "p1 = on_tq (QUEUE_REMOVE (Work w)) p"
  define p2 where "p2 = pool.more_update (\<lambda>l. l @ [(w, work_status p w)]) p1"
  have ws: "work_status p1 v = work_status p v" "work_status p2 v = work_status p v" for v
    by (simp_all add: work_status_def p1_def p2_def)
  have step: "work_done_loop record_done p = work_done_loop record_done p2"
    by (subst work_done_loop.simps)
       (simp add: ne work_done_next_def pop(1) record_done_def p1_def [symmetric] p2_def ws)
  have t2: "tq p2 = QUEUE_REMOVE (Work w) (tq p)" "pool.more p2 = pool.more p @ [(w, work_status p w)]"
    by (simp_all add: p2_def p1_def on_tq_def)
  have "queues (tq p2) Q (f(DoneWQ := map Work ds))" using pop(2) by (simp add: t2)
  from Cons.IH [OF this Cons.prems(2) fun_upd_same, unfolded fun_upd_upd] show ?case by (simp add: step t2 ws)
qed

lemma work_done_records:
  assumes "queues (tq p) Q f" and "LoopWQ \<in> Q" and "unused Q f DoneWQ" and "f LoopWQ = map Work ls"
  shows "\<exists>p'. uv__work_done record_done p = Some p' \<and>
    pool.more p' = pool.more p @ map (\<lambda>w. (w, work_status p w)) ls \<and> QUEUE_EMPTY (tq p') LoopWQ"
proof -
  have ne: "LoopWQ \<noteq> DoneWQ" by simp
  have q: "queues (tq (work_done_move p)) (insert DoneWQ Q) (f(DoneWQ := map Work ls, LoopWQ := []))"
    using qs.move_law [OF assms(1-3)] assms(4) by (simp add: work_done_move_def)
  have st: "work_status (work_done_move p) w = work_status p w" "pool.more (work_done_move p) = pool.more p" for w
    by (simp_all add: work_status_def work_done_move_def on_tq_def)
  have "(f(DoneWQ := map Work ls, LoopWQ := [])) DoneWQ = map Work ls" by simp
  from work_done_loop_records [OF q insertI1 this] obtain p' where
    p': "work_done_loop record_done (work_done_move p) = Some p'"
      "pool.more p' = pool.more p @ map (\<lambda>w. (w, work_status p w)) ls"
      "queues (tq p') (insert DoneWQ Q) ((f(DoneWQ := map Work ls, LoopWQ := []))(DoneWQ := []))"
    unfolding st by blast
  have "QUEUE_EMPTY (tq p') LoopWQ" using qs.empty_law [OF p'(3), of LoopWQ] assms(2) by simp
  then show ?thesis using p'(1,2) by (simp add: uv__work_done_def)
qed

text \<open>\<open>uv_queue_work\<close> counts the request as active, and \<open>uv__queue_done\<close> counts it off.\<close>

lemma uv_queue_work_outcome:
  "uv_queue_work req None cb (s, p) = (Inl UV_EINVAL, s, p)"
  "\<exists>p'. uv_queue_work req (Some f) cb (s, p) = (Inr (), uv__req_register s, p') \<and>
     req_type p' req = UV_WORK \<and> w_work p' req = Some Uv__queue_work \<and>
     (\<forall>run_after. uv__queue_done run_after req err (uv__req_register s, p') = uv__req_unregister (uv__req_register s) \<bind>
       (\<lambda>s. case cb of None \<Rightarrow> Some (s, p') | Some c \<Rightarrow> run_after c req err (s, p')))"
  by (auto simp: uv_queue_work_def Let_def uv__work_submit_def post_def on_tq_def uv_cond_signal_def uv__queue_done_def)

section \<open>Small pools\<close>

definition demo_pool :: pool_system where
  "demo_pool = the (init_threads (\<lambda>_. 0) None True True blank_pool)"

lemma demo_pool_reached: "pool_reached demo_pool"
  by (rule pool_reached.start [of "\<lambda>_. 0" None True]) (simp add: demo_pool_def init_threads_def Let_def)

lemma demo_pool_idle: "phase demo_pool w = Some Idle" "workers demo_pool i = Ready" "nthreads demo_pool = 4" "\<not> exiting demo_pool"
  by (simp_all add: demo_pool_def init_threads_def Let_def blank_pool_def init_nthreads_def)

lemma pool_reached_next: "pool_reached p \<Longrightarrow> allowed e p \<Longrightarrow> pool_reached (the (pool_step e p))"
  using pool_reached_inv [of p] pool_step_ok [of _ _ _ _ p e] pool_reached.step [of p e] by fastforce

text \<open>One thread, two slow requests, the first of them taken.\<close>

lemmas demo_steps = pool_step_def worker_step_def worker_round_def worker_take_slow_def must_wait_def
  uv__work_submit_def post_def slow_work_thread_threshold_def on_tq_def happens_def goes_to_def uv_cond_signal_def
  queue_macros

definition demo_start :: pool_system where
  "demo_start = the (init_threads (\<lambda>_. 1) (Some ''1'') True True blank_pool)"

lemma demo_start_eq: "demo_start = blank_pool\<lparr>nthreads := 1, tq := \<lparr>QUEUE_NEXT = (\<lambda>_. LoopWQ)(WQ := WQ, SlowWQ := SlowWQ, RunSlow := RunSlow),
   QUEUE_PREV = (\<lambda>_. LoopWQ)(WQ := WQ, SlowWQ := SlowWQ, RunSlow := RunSlow)\<rparr>\<rparr>"
  by (simp add: demo_start_def init_threads_def init_nthreads_def blank_pool_def demo_steps fun_upd_idem)


definition demo_one :: pool_system where
  "demo_one = the (pool_step (Submit 1 UV__WORK_SLOW_IO Uv__getaddrinfo_work) demo_start)"

definition demo_waiting :: pool_system where
  "demo_waiting = the (pool_step (Submit 2 UV__WORK_SLOW_IO Uv__getnameinfo_work) demo_one)"

definition demo_busy :: pool_system where
  "demo_busy = the (pool_step (Thread 0) demo_waiting)"

definition demo_links :: "(taddr \<times> taddr) list \<Rightarrow> taddr qstore" where
  "demo_links xs = \<lparr>QUEUE_NEXT = \<lambda>x. case map_of xs x of None \<Rightarrow> LoopWQ | Some y \<Rightarrow> y,
     QUEUE_PREV = \<lambda>x. case map_of (map prod.swap xs) x of None \<Rightarrow> LoopWQ | Some y \<Rightarrow> y\<rparr>"

lemma demo_one_eq: "demo_one = demo_start\<lparr>w_work := [1 \<mapsto> Uv__getaddrinfo_work], phase := (\<lambda>_. Some Idle)(1 \<mapsto> Waiting),
   tq := demo_links [(WQ, RunSlow), (RunSlow, WQ), (SlowWQ, Work 1), (Work 1, SlowWQ)]\<rparr>"
  by (simp add: demo_one_def demo_start_eq blank_pool_def demo_steps demo_links_def fun_eq_iff)

lemma demo_waiting_eq: "demo_waiting = demo_start\<lparr>w_work := [1 \<mapsto> Uv__getaddrinfo_work, 2 \<mapsto> Uv__getnameinfo_work],
   phase := (\<lambda>_. Some Idle)(1 \<mapsto> Waiting, 2 \<mapsto> Waiting),
   tq := demo_links [(WQ, RunSlow), (RunSlow, WQ), (SlowWQ, Work 1), (Work 1, Work 2), (Work 2, SlowWQ)]\<rparr>"
  by (simp add: demo_waiting_def demo_one_eq demo_start_eq blank_pool_def demo_steps demo_links_def fun_eq_iff)

lemma demo_busy_eq: "demo_busy = demo_waiting\<lparr>phase := (\<lambda>_. Some Idle)(1 \<mapsto> Running, 2 \<mapsto> Waiting),
   workers := (\<lambda>_. Ready)(0 := Executing 1 True), slow_io_work_running := 1,
   tq := demo_links [(WQ, RunSlow), (RunSlow, WQ), (SlowWQ, Work 2), (Work 2, SlowWQ), (Work 1, Work 1)]\<rparr>"
  by (simp add: demo_busy_def demo_waiting_eq demo_start_eq blank_pool_def demo_steps demo_links_def fun_eq_iff)

lemma demo_busy_reached: "pool_reached demo_busy"
proof -
  have "pool_reached demo_start"
    by (rule pool_reached.start [of "\<lambda>_. 1" "Some ''1''" True]) (simp add: demo_start_def init_threads_def Let_def)
  then have "pool_reached demo_one"
    unfolding demo_one_def by (rule pool_reached_next) (simp add: allowed_def demo_start_eq blank_pool_def)
  then have "pool_reached demo_waiting"
    unfolding demo_waiting_def
    by (rule pool_reached_next) (simp add: allowed_def demo_one_eq)
  then show ?thesis unfolding demo_busy_def
    by (rule pool_reached_next) (simp add: allowed_def demo_waiting_eq demo_start_eq)
qed

lemma demo_busy_facts: "must_wait demo_busy" "phase demo_busy 1 = Some Running" "phase demo_busy 2 = Some Waiting"
  by (simp_all add: demo_busy_eq demo_waiting_eq demo_start_eq demo_steps demo_links_def)

section \<open>Properties\<close>

text \<open>
  C2: The pool never crashes and treats every request as it should: in every state the pool can
  reach, whatever thread moves next or the users do, the step has a result, so no message node is
  taken for a request, no \<open>NULL\<close> function is called and the \<open>abort\<close> in \<open>uv__cancelled\<close> is not
  reached; and what has happened to each request since it was submitted is that it was started
  once, then worked on, then reported with 0, or that it was withdrawn before it was started and
  then reported with \<open>UV_ECANCELED\<close>, and only then submitted again.
\<close>

theorem pool_requests_run_once:
  assumes "pool_reached p" and "allowed e p"
  shows "\<exists>p'. pool_step e p = Some p' \<and> (\<forall>w. phase p' w \<noteq> None)"
proof -
  obtain q ss ls ds where "pool_inv q ss ls ds p" using pool_reached_inv [OF assms(1)] by blast
  from pool_step_ok [OF this assms(2)] obtain p' q' ss' ls' ds'
    where p': "pool_step e p = Some p'" "pool_inv q' ss' ls' ds' p'" by blast
  then show ?thesis using p'(1) phase_not_None [OF p'(2)] by blast
qed

theorem pool_requests_run_once_witness:
  "\<exists>p. pool_step (Submit 5 UV__WORK_SLOW_IO Uv__getaddrinfo_work) demo_pool = Some p \<and> phase p 5 \<noteq> None"
  using pool_requests_run_once [OF demo_pool_reached, of "Submit 5 UV__WORK_SLOW_IO Uv__getaddrinfo_work"]
  by (simp add: allowed_def demo_pool_idle) blast

text \<open>
  C8: Slow I/O never takes more than half of the threads, rounded up: in every reached state the
  number of threads between taking a slow request and giving back its slot is what
  \<open>slow_io_work_running\<close> says and at most \<open>slow_work_thread_threshold\<close>; the pool has between 1 and
  1024 threads, and \<open>idle_threads\<close> is the number of threads asleep.
\<close>

theorem pool_slow_io_is_bounded:
  assumes "pool_reached p"
  shows "count_threads slow_pc (unat (nthreads p)) (workers p) \<le> unat (slow_work_thread_threshold p) \<and>
    unat (slow_work_thread_threshold p) = (unat (nthreads p) + 1) div 2 \<and>
    unat (slow_io_work_running p) = count_threads slow_pc (unat (nthreads p)) (workers p) \<and>
    unat (idle_threads p) = count_threads (\<lambda>pc. pc = Asleep) (unat (nthreads p)) (workers p) \<and>
    1 \<le> unat (nthreads p) \<and> unat (nthreads p) \<le> 1024"
proof -
  obtain q ss ls ds where inv: "pool_inv q ss ls ds p" using pool_reached_inv [OF assms] by blast
  show ?thesis using pool_unat [OF inv] pool_invD(8,9,11) [OF inv] by simp
qed

theorem pool_slow_io_is_bounded_witness:
  "unat (slow_work_thread_threshold demo_pool) = 2"
  using pool_slow_io_is_bounded [OF demo_pool_reached] by (simp add: demo_pool_idle)

text \<open>
  C9: A thread goes to sleep only when there is nothing it may run: in every reached state in which
  the condition of the \<open>while\<close> loop of \<open>worker\<close> holds, a request that still waits is a slow one, in
  the queue of slow work, and as many threads as the threshold allows are running slow work.
\<close>

theorem pool_sleeps_only_without_work:
  assumes "pool_reached p" and "must_wait p" and "phase p w = Some Waiting"
  shows "(\<exists>ss. QUEUE_FOREACH (tq p) SlowWQ = Some ss \<and> Work w \<in> set ss) \<and>
    count_threads slow_pc (unat (nthreads p)) (workers p) = unat (slow_work_thread_threshold p)"
proof -
  obtain q ss ls ds where inv: "pool_inv q ss ls ds p" using pool_reached_inv [OF assms(1)] by blast
  note d = pool_invD [OF inv] and e = pool_empty [OF inv]
  have w: "Work w \<in> set q \<or> w \<in> set ss" using d(6) [of w] assms(3) by (simp add: phase_ok_def)
  then have "q \<noteq> []" using d(5) by (cases ss) auto
  then obtain x xs where q: "q = x # xs" by (cases q) auto
  have h: "x = RunSlow" "QUEUE_NEXT (tq p) RunSlow = WQ" "slow_work_thread_threshold p \<le> slow_io_work_running p"
    using assms(2) e(1) e(4) [OF q] q by (auto simp: must_wait_def)
  have "queue_at (tq p) WQ (x # xs)" using queuesD [OF d(1), of WQ] q by simp
  then have "hd (xs @ [WQ]) = WQ" "WQ \<notin> set xs"
    using queue_at_split(1) [of "tq p" WQ "[]" x xs] h(1,2) by (auto simp: queue_at_def)
  then have "xs = []" by (cases xs) auto
  then have "w \<in> set ss" using w q h(1) by simp
  moreover have "QUEUE_FOREACH (tq p) SlowWQ = Some (map Work ss)"
    using QUEUE_FOREACH_at queuesD [OF d(1), of SlowWQ] by simp
  moreover have "count_threads slow_pc (unat (nthreads p)) (workers p) = unat (slow_work_thread_threshold p)"
    using pool_unat [OF inv] d(11) h(3) by (simp add: word_le_nat_alt)
  ultimately show ?thesis by auto
qed

theorem pool_sleeps_only_without_work_witness:
  "must_wait demo_busy \<and> (\<exists>ss. QUEUE_FOREACH (tq demo_busy) SlowWQ = Some ss \<and> Work 2 \<in> set ss)"
proof -
  show ?thesis using pool_sleeps_only_without_work [OF demo_busy_reached demo_busy_facts(1,3)] demo_busy_facts(1) by blast
qed

text \<open>
  C10: Nothing is lost: in a reached state in which the queues of the pool and of the loop are empty,
  no thread executes a request and the loop is not in \<open>uv__work_done\<close>, every request that was ever
  submitted has been reported.
\<close>

theorem pool_quiet_means_reported:
  assumes "pool_reached p" and "QUEUE_EMPTY (tq p) WQ" and "QUEUE_EMPTY (tq p) SlowWQ"
    and "QUEUE_EMPTY (tq p) LoopWQ" and "\<not> in_done p" and "\<forall>i w slow. workers p i \<noteq> Executing w slow"
  shows "phase p w = Some Idle"
proof -
  obtain q ss ls ds where inv: "pool_inv q ss ls ds p" using pool_reached_inv [OF assms(1)] by blast
  note d = pool_invD [OF inv]
  have "q = []" "ss = []" "ls = []" "ds = []"
    using pool_empty(1,2) [OF inv] assms(2-5) qs.empty_law [OF d(1), of LoopWQ] d(4) by auto
  then show ?thesis
    using d(6) [of w] assms(6) by (auto simp: phase_ok_def executing_def split: option.splits req_phase.splits)
qed

theorem pool_quiet_means_reported_witness: "phase demo_pool 3 = Some Idle"
proof (rule pool_quiet_means_reported [OF demo_pool_reached])
  show "QUEUE_EMPTY (tq demo_pool) WQ" "QUEUE_EMPTY (tq demo_pool) SlowWQ" "QUEUE_EMPTY (tq demo_pool) LoopWQ" "\<not> in_done demo_pool"
    by (simp_all add: demo_pool_def init_threads_def Let_def blank_pool_def queue_macros on_tq_def)
qed (simp add: demo_pool_idle)

text \<open>
  C11: \<open>uv__work_cancel\<close> of a request that has not been reported: it is refused with \<open>UV_EBUSY\<close>, and
  nothing changes, exactly when a thread has started the request; otherwise it succeeds, the
  request is marked so that \<open>uv__work_done\<close> reports \<open>UV_ECANCELED\<close>, is in no queue of the pool
  any more, and the loop is woken.
\<close>

theorem pool_cancel_only_the_waiting:
  assumes "pool_reached p" and "phase p w \<noteq> Some Idle"
  shows "if phase p w = Some Running \<or> phase p w = Some Finished
    then uv__work_cancel w p = (Inl UV_EBUSY, p)
    else \<exists>p'. uv__work_cancel w p = (Inr (), p') \<and> work_status p' w = Inl UV_ECANCELED \<and>
      async_sends p' = async_sends p + 1 \<and>
      (\<forall>h \<in> {WQ, SlowWQ}. \<exists>xs. QUEUE_FOREACH (tq p') h = Some xs \<and> Work w \<notin> set xs)"
proof -
  obtain q ss ls ds where inv: "pool_inv q ss ls ds p" using pool_reached_inv [OF assms(1)] by blast
  show ?thesis
  proof (cases "phase p w = Some Running \<or> phase p w = Some Finished")
    case True
    then show ?thesis using cancel_refused [OF inv True] by simp
  next
    case False
    then have "phase p w = Some Waiting \<or> phase p w = Some Cancelled"
      using pool_invD(6) [OF inv, of w] assms(2) by (auto simp: phase_ok_def split: option.splits req_phase.splits)
    then obtain q' ss' ls' ds' p' where c: "uv__work_cancel w p = (Inr (), p')" "phase p' = phase p"
        "w_work p' w = Some Uv__cancelled" "async_sends p' = async_sends p + 1"
        "pool_inv q' ss' ls' ds' (happens w Withdrawn p')" and ph: "phase p w = Some Waiting \<or> phase p w = Some Cancelled"
      using cancel_accepted [OF inv] by blast
    have "phase (happens w Withdrawn p') w = Some Cancelled" using ph c(2) by auto
    then have out: "Work w \<notin> set q' \<and> w \<notin> set ss'" using pool_phase(1) [OF c(5), of w] by auto
    have "QUEUE_FOREACH (tq p') WQ = Some q'" "QUEUE_FOREACH (tq p') SlowWQ = Some (map Work ss')"
      using QUEUE_FOREACH_at queuesD [OF pool_invD(1) [OF c(5)], of WQ]
        queuesD [OF pool_invD(1) [OF c(5)], of SlowWQ] by simp_all
    then show ?thesis using False c(1,3,4) out by (auto simp: work_status_def)
  qed
qed

theorem pool_cancel_only_the_waiting_witness:
  "fst (uv__work_cancel 1 demo_busy) = Inl UV_EBUSY \<and> fst (uv__work_cancel 2 demo_busy) = Inr ()"
proof -
  show ?thesis
    using pool_cancel_only_the_waiting [OF demo_busy_reached, of 1]
      pool_cancel_only_the_waiting [OF demo_busy_reached, of 2] demo_busy_facts(2,3) by auto
qed

text \<open>
  \<open>uv__work_done\<close> returns and reports every request that was in the loop's queue, once and in
  the order of the queue, with \<open>UV_ECANCELED\<close> if it has been cancelled and 0 if it has been worked
  on, and leaves the queue empty.  The \<open>done\<close> functions here only record what they are called with.
\<close>

theorem work_done_reports_all:
  assumes "queues (tq p) Q f" and "LoopWQ \<in> Q" and "unused Q f DoneWQ" and "f LoopWQ = map Work ls"
  shows "\<exists>p'. uv__work_done record_done p = Some p' \<and> QUEUE_EMPTY (tq p') LoopWQ \<and>
    pool.more p' = pool.more p @
      map (\<lambda>w. (w, if w_work p w = Some Uv__cancelled then Inl UV_ECANCELED else Inr ())) ls"
  using work_done_records [OF assms] unfolding work_status_def by blast

definition demo_done :: "(addr \<times> (uv_errno + unit)) list pool_ext" where
  "demo_done = pool.extend (pool.truncate demo_pool\<lparr>w_work := [2 \<mapsto> Uv__cancelled],
     tq := QUEUE_INSERT_TAIL LoopWQ (Work 2) (QUEUE_INSERT_TAIL LoopWQ (Work 1)
       \<lparr>QUEUE_NEXT = \<lambda>q. q, QUEUE_PREV = \<lambda>q. q\<rparr>)\<rparr>) []"

theorem work_done_reports_all_witness:
  "\<exists>p'. uv__work_done record_done demo_done = Some p' \<and>
     pool.more p' = [(1, Inr ()), (2, Inl UV_ECANCELED)]"
proof -
  have "queues \<lparr>QUEUE_NEXT = \<lambda>q. q, QUEUE_PREV = \<lambda>q. q\<rparr> {LoopWQ} (\<lambda>_. [])"
    by (simp add: queues_def queue_at_Nil)
  from qs.insert_tail_law [OF this, of LoopWQ "Work 1"]
  have "queues (QUEUE_INSERT_TAIL LoopWQ (Work 1) \<lparr>QUEUE_NEXT = \<lambda>q. q, QUEUE_PREV = \<lambda>q. q\<rparr>) {LoopWQ}
      ((\<lambda>_. [])(LoopWQ := [Work 1]))" by (simp add: unused_def qcell_def)
  from qs.insert_tail_law [OF this, of LoopWQ "Work 2"]
  have q: "queues (tq demo_done) {LoopWQ} ((\<lambda>_. [])(LoopWQ := [Work 1, Work 2]))"
    by (simp add: unused_def qcell_def demo_done_def pool.defs)
  have "pool.more demo_done = []" "w_work demo_done = [2 \<mapsto> Uv__cancelled]" by (simp_all add: demo_done_def pool.defs)
  then show ?thesis using work_done_reports_all [OF q, of "[1, 2]"] by (auto simp: unused_def qcell_def)
qed

end
