(* ===== verification/Errno.thy ===== *)
theory Errno
  imports Strings Inet
begin

text \<open>
  include/uv/errno.h, the list \<open>UV_ERRNO_MAP\<close> of include/uv.h and the functions on error codes of
  src/uv-common.c.  A \<open>UV__name\<close> macro is an entry of a table; which \<open>errno\<close> macros the system defines,
  and as what, is the parameter \<open>sys\<close>.  A \<open>switch\<close> over the codes picks the first entry with the
  code; it would not compile if two had the same.

  The lemmas show that on a system whose \<open>errno\<close> values are positive, below 3000 and distinct the
  codes are negative and distinct, so that the name and the message of a code are its own.
\<close>

section \<open>The tables\<close>

text \<open>\<open>UV_ERRNO_MAP\<close>.\<close>

definition errno_map :: "(string \<times> string) list" where
  "errno_map =
    [(''E2BIG'', ''argument list too long''), (''EACCES'', ''permission denied''),
     (''EADDRINUSE'', ''address already in use''), (''EADDRNOTAVAIL'', ''address not available''),
     (''EAFNOSUPPORT'', ''address family not supported''), (''EAGAIN'', ''resource temporarily unavailable''),
     (''EAI_ADDRFAMILY'', ''address family not supported''), (''EAI_AGAIN'', ''temporary failure''),
     (''EAI_BADFLAGS'', ''bad ai_flags value''), (''EAI_BADHINTS'', ''invalid value for hints''),
     (''EAI_CANCELED'', ''request canceled''), (''EAI_FAIL'', ''permanent failure''),
     (''EAI_FAMILY'', ''ai_family not supported''), (''EAI_MEMORY'', ''out of memory''),
     (''EAI_NODATA'', ''no address''), (''EAI_NONAME'', ''unknown node or service''),
     (''EAI_OVERFLOW'', ''argument buffer overflow''), (''EAI_PROTOCOL'', ''resolved protocol is unknown''),
     (''EAI_SERVICE'', ''service not available for socket type''), (''EAI_SOCKTYPE'', ''socket type not supported''),
     (''EALREADY'', ''connection already in progress''), (''EBADF'', ''bad file descriptor''),
     (''EBUSY'', ''resource busy or locked''), (''ECANCELED'', ''operation canceled''),
     (''ECHARSET'', ''invalid Unicode character''), (''ECONNABORTED'', ''software caused connection abort''),
     (''ECONNREFUSED'', ''connection refused''), (''ECONNRESET'', ''connection reset by peer''),
     (''EDESTADDRREQ'', ''destination address required''), (''EEXIST'', ''file already exists''),
     (''EFAULT'', ''bad address in system call argument''), (''EFBIG'', ''file too large''),
     (''EHOSTUNREACH'', ''host is unreachable''), (''EINTR'', ''interrupted system call''),
     (''EINVAL'', ''invalid argument''), (''EIO'', ''i/o error''),
     (''EISCONN'', ''socket is already connected''), (''EISDIR'', ''illegal operation on a directory''),
     (''ELOOP'', ''too many symbolic links encountered''), (''EMFILE'', ''too many open files''),
     (''EMSGSIZE'', ''message too long''), (''ENAMETOOLONG'', ''name too long''),
     (''ENETDOWN'', ''network is down''), (''ENETUNREACH'', ''network is unreachable''),
     (''ENFILE'', ''file table overflow''), (''ENOBUFS'', ''no buffer space available''),
     (''ENODEV'', ''no such device''), (''ENOENT'', ''no such file or directory''),
     (''ENOMEM'', ''not enough memory''), (''ENONET'', ''machine is not on the network''),
     (''ENOPROTOOPT'', ''protocol not available''), (''ENOSPC'', ''no space left on device''),
     (''ENOSYS'', ''function not implemented''), (''ENOTCONN'', ''socket is not connected''),
     (''ENOTDIR'', ''not a directory''), (''ENOTEMPTY'', ''directory not empty''),
     (''ENOTSOCK'', ''socket operation on non-socket''), (''ENOTSUP'', ''operation not supported on socket''),
     (''EOVERFLOW'', ''value too large for defined data type''), (''EPERM'', ''operation not permitted''),
     (''EPIPE'', ''broken pipe''), (''EPROTO'', ''protocol error''),
     (''EPROTONOSUPPORT'', ''protocol not supported''), (''EPROTOTYPE'', ''protocol wrong type for socket''),
     (''ERANGE'', ''result too large''), (''EROFS'', ''read-only file system''),
     (''ESHUTDOWN'', ''cannot send after transport endpoint shutdown''), (''ESPIPE'', ''invalid seek''),
     (''ESRCH'', ''no such process''), (''ETIMEDOUT'', ''connection timed out''),
     (''ETXTBSY'', ''text file is busy''), (''EXDEV'', ''cross-device link not permitted''),
     (''UNKNOWN'', ''unknown error''), (''EOF'', ''end of file''),
     (''ENXIO'', ''no such device or address''), (''EMLINK'', ''too many links''),
     (''EHOSTDOWN'', ''host is down''), (''EREMOTEIO'', ''remote I/O error''),
     (''ENOTTY'', ''inappropriate ioctl for device''), (''EFTYPE'', ''inappropriate file type or format''),
     (''EILSEQ'', ''illegal byte sequence''), (''ESOCKTNOSUPPORT'', ''socket type not supported'')]"

text \<open>The codes that are the same on every system.\<close>

definition errno_fixed :: "(string \<times> int) list" where
  "errno_fixed =
    [(''EOF'', -4095), (''UNKNOWN'', -4094), (''EAI_ADDRFAMILY'', -3000), (''EAI_AGAIN'', -3001),
     (''EAI_BADFLAGS'', -3002), (''EAI_CANCELED'', -3003), (''EAI_FAIL'', -3004), (''EAI_FAMILY'', -3005),
     (''EAI_MEMORY'', -3006), (''EAI_NODATA'', -3007), (''EAI_NONAME'', -3008), (''EAI_OVERFLOW'', -3009),
     (''EAI_SERVICE'', -3010), (''EAI_SOCKTYPE'', -3011), (''EAI_BADHINTS'', -3013), (''EAI_PROTOCOL'', -3014)]"

text \<open>
  The codes of the \<open>errno\<close> macros, and the number each gets on a system that does not define it.  On
  the BSDs and on macOS that of \<open>EHOSTDOWN\<close> is -64.
\<close>

definition errno_default_a :: "(string \<times> int) list" where
  "errno_default_a =
    [(''E2BIG'', -4093), (''EACCES'', -4092), (''EADDRINUSE'', -4091), (''EADDRNOTAVAIL'', -4090),
     (''EAFNOSUPPORT'', -4089), (''EAGAIN'', -4088), (''EALREADY'', -4084), (''EBADF'', -4083),
     (''EBUSY'', -4082), (''ECANCELED'', -4081), (''ECHARSET'', -4080), (''ECONNABORTED'', -4079),
     (''ECONNREFUSED'', -4078), (''ECONNRESET'', -4077), (''EDESTADDRREQ'', -4076), (''EEXIST'', -4075),
     (''EFAULT'', -4074), (''EHOSTUNREACH'', -4073), (''EINTR'', -4072), (''EINVAL'', -4071),
     (''EIO'', -4070), (''EISCONN'', -4069), (''EISDIR'', -4068), (''ELOOP'', -4067),
     (''EMFILE'', -4066)]"

definition errno_default_b :: "(string \<times> int) list" where
  "errno_default_b =
    [(''EMSGSIZE'', -4065), (''ENAMETOOLONG'', -4064), (''ENETDOWN'', -4063), (''ENETUNREACH'', -4062),
     (''ENFILE'', -4061), (''ENOBUFS'', -4060), (''ENODEV'', -4059), (''ENOENT'', -4058),
     (''ENOMEM'', -4057), (''ENONET'', -4056), (''ENOSPC'', -4055), (''ENOSYS'', -4054),
     (''ENOTCONN'', -4053), (''ENOTDIR'', -4052), (''ENOTEMPTY'', -4051), (''ENOTSOCK'', -4050),
     (''ENOTSUP'', -4049), (''EPERM'', -4048), (''EPIPE'', -4047), (''EPROTO'', -4046),
     (''EPROTONOSUPPORT'', -4045), (''EPROTOTYPE'', -4044), (''EROFS'', -4043), (''ESHUTDOWN'', -4042),
     (''ESPIPE'', -4041)]"

definition errno_default_c :: "(string \<times> int) list" where
  "errno_default_c =
    [(''ESRCH'', -4040), (''ETIMEDOUT'', -4039), (''ETXTBSY'', -4038), (''EXDEV'', -4037),
     (''EFBIG'', -4036), (''ENOPROTOOPT'', -4035), (''ERANGE'', -4034), (''ENXIO'', -4033),
     (''EMLINK'', -4032), (''EHOSTDOWN'', -4031), (''EREMOTEIO'', -4030), (''ENOTTY'', -4029),
     (''EFTYPE'', -4028), (''EILSEQ'', -4027), (''EOVERFLOW'', -4026), (''ESOCKTNOSUPPORT'', -4025)]"

definition errno_default :: "(string \<times> int) list" where
  "errno_default = errno_default_a @ errno_default_b @ errno_default_c"

definition UV__ERR_of :: "int \<Rightarrow> int" where
  "UV__ERR_of x = - x"

definition uv_code :: "(string \<Rightarrow> int option) \<Rightarrow> string \<Rightarrow> int option" where
  "uv_code sys name =
     (case map_of errno_fixed name of
        Some c \<Rightarrow> Some c
      | None \<Rightarrow>
          (case map_of errno_default name of
             None \<Rightarrow> None
           | Some d \<Rightarrow> Some (case sys name of Some e \<Rightarrow> UV__ERR_of e | None \<Rightarrow> d)))"

section \<open>The functions\<close>

definition print_d :: "int \<Rightarrow> string" where
  "print_d i = (if i < 0 then CHR ''-'' # print_u (nat (- i)) else print_u (nat i))"

definition snprintf :: "string \<Rightarrow> nat \<Rightarrow> string \<Rightarrow> string" where
  "snprintf buf n txt =
     (if n = 0 then buf
      else let t = take (n - 1) txt in t @ NUL # drop (length t + 1) buf)"

definition switch_errno :: "(string \<Rightarrow> int option) \<Rightarrow> int \<Rightarrow> (string \<times> string) option" where
  "switch_errno sys err = find (\<lambda>(name, msg). uv_code sys name = Some err) errno_map"

definition unknown_error :: "int \<Rightarrow> string" where
  "unknown_error err = ''Unknown system error '' @ print_d err"

text \<open>\<open>strdup_ok\<close> says whether \<open>uv__strdup\<close> gets memory; the buffer has 32 bytes.\<close>

definition uv__unknown_err_code :: "bool \<Rightarrow> int \<Rightarrow> string" where
  "uv__unknown_err_code strdup_ok err =
     (let buf = snprintf (replicate 32 NUL) 32 (unknown_error err)
      in if strdup_ok then c_string buf 0 else ''Unknown system error'')"

definition uv_err_name_r :: "(string \<Rightarrow> int option) \<Rightarrow> int \<Rightarrow> string \<Rightarrow> nat \<Rightarrow> string" where
  "uv_err_name_r sys err buf buflen =
     (case switch_errno sys err of
        Some (name, msg) \<Rightarrow> snd (uv__strscpy buf (name @ [NUL]) buflen)
      | None \<Rightarrow> snprintf buf buflen (unknown_error err))"

definition uv_err_name :: "(string \<Rightarrow> int option) \<Rightarrow> bool \<Rightarrow> int \<Rightarrow> string" where
  "uv_err_name sys strdup_ok err =
     (case switch_errno sys err of
        Some (name, msg) \<Rightarrow> name
      | None \<Rightarrow> uv__unknown_err_code strdup_ok err)"

definition uv_strerror_r :: "(string \<Rightarrow> int option) \<Rightarrow> int \<Rightarrow> string \<Rightarrow> nat \<Rightarrow> string" where
  "uv_strerror_r sys err buf buflen =
     (case switch_errno sys err of
        Some (name, msg) \<Rightarrow> snprintf buf buflen msg
      | None \<Rightarrow> snprintf buf buflen (unknown_error err))"

definition uv_strerror :: "(string \<Rightarrow> int option) \<Rightarrow> bool \<Rightarrow> int \<Rightarrow> string" where
  "uv_strerror sys strdup_ok err =
     (case switch_errno sys err of
        Some (name, msg) \<Rightarrow> msg
      | None \<Rightarrow> uv__unknown_err_code strdup_ok err)"

section \<open>The codes are distinct\<close>

lemmas errno_tables = errno_default_def errno_map_def errno_fixed_def errno_default_a_def errno_default_b_def errno_default_c_def

lemma errno_numbers: "distinct (map snd (errno_fixed @ errno_default))"
  by (simp add: errno_tables)

lemma errno_range: "\<forall>d \<in> set (map snd (errno_fixed @ errno_default)). d \<le> -3000"
  by (simp add: errno_tables)

lemma errno_names: "distinct (map fst (errno_fixed @ errno_default))"
  by (simp add: errno_tables)

lemma errno_map_names: "distinct (map fst errno_map)"
  by (simp add: errno_tables)

lemma errno_map_coded: "list_all (\<lambda>x. x \<in> set (map fst (errno_fixed @ errno_default))) (map fst errno_map)"
  by (simp add: errno_tables)

text \<open>What the \<open>errno\<close> macros of a Unix system are: positive, small and distinct.\<close>

definition unix_errno :: "(string \<Rightarrow> int option) \<Rightarrow> bool" where
  "unix_errno sys \<longleftrightarrow> (\<forall>n e. sys n = Some e \<longrightarrow> 0 < e \<and> e < 3000) \<and>
     (\<forall>n m e. n \<in> set (map fst errno_default) \<longrightarrow> m \<in> set (map fst errno_default) \<longrightarrow>
        sys n = Some e \<longrightarrow> sys m = Some e \<longrightarrow> n = m)"

lemma map_of_num_inj:
  "distinct (map snd xs) \<Longrightarrow> map_of xs n = Some d \<Longrightarrow> map_of xs m = Some d \<Longrightarrow> n = m"
  by (metis (no_types, opaque_lifting) distinct_map inj_onD map_of_SomeD prod.inject snd_conv)

lemma uv_code_cases:
  assumes "uv_code sys n = Some c"
  shows "map_of (errno_fixed @ errno_default) n = Some c \<or>
    (n \<in> set (map fst errno_default) \<and> (\<exists>e. sys n = Some e \<and> c = - e))"
proof (cases "map_of errno_fixed n")
  case (Some d)
  then show ?thesis using assms by (simp add: uv_code_def map_add_Some_iff)
next
  case None
  then obtain d where d: "map_of errno_default n = Some d" "c = (case sys n of Some e \<Rightarrow> UV__ERR_of e | None \<Rightarrow> d)"
    using assms by (auto simp: uv_code_def split: option.splits)
  have "n \<in> set (map fst errno_default)" using map_of_SomeD [OF d(1)] by (metis fst_conv image_eqI set_map)
  moreover have "map_of (errno_fixed @ errno_default) n = Some d" using None d(1) by (simp add: map_add_def)
  ultimately show ?thesis using d(2) by (auto simp: UV__ERR_of_def split: option.splits)
qed

lemma uv_code_low:
  assumes "map_of (errno_fixed @ errno_default) n = Some c" shows "c \<le> -3000"
proof -
  have "snd (n, c) \<in> snd ` set (errno_fixed @ errno_default)" by (rule imageI [OF map_of_SomeD [OF assms]])
  then have "c \<in> set (map snd (errno_fixed @ errno_default))" by (simp only: snd_conv set_map)
  then show ?thesis by (rule bspec [OF errno_range])
qed

lemma uv_code_inj:
  assumes sys: "unix_errno sys" and c: "uv_code sys n = Some c" "uv_code sys m = Some c"
  shows "n = m"
proof -
  have pos: "0 < e \<and> e < 3000" if "sys k = Some e" for k e using sys that unfolding unix_errno_def by blast
  show ?thesis
  proof (cases "c \<le> -3000")
    case True
    then have no: "\<not> (\<exists>e. sys k = Some e \<and> c = - e)" for k using pos [of k] by auto
    have "map_of (errno_fixed @ errno_default) n = Some c" "map_of (errno_fixed @ errno_default) m = Some c"
      using uv_code_cases [OF c(1)] uv_code_cases [OF c(2)] no by blast+
    then show ?thesis by (rule map_of_num_inj [OF errno_numbers])
  next
    case False
    then have no: "map_of (errno_fixed @ errno_default) k \<noteq> Some c" for k using uv_code_low by blast
    obtain e where e: "n \<in> set (map fst errno_default)" "sys n = Some e" "c = - e"
      using uv_code_cases [OF c(1)] no by blast
    obtain d where d: "m \<in> set (map fst errno_default)" "sys m = Some d" "c = - d"
      using uv_code_cases [OF c(2)] no by blast
    have "sys m = Some e" using d(2,3) e(3) by simp
    then show ?thesis using sys e(1,2) d(1) unfolding unix_errno_def by blast
  qed
qed

lemma uv_code_Some:
  assumes "n \<in> set (map fst (errno_fixed @ errno_default))" shows "\<exists>c. uv_code sys n = Some c"
proof (cases "map_of errno_fixed n")
  case (Some d)
  then show ?thesis by (simp add: uv_code_def)
next
  case None
  have "n \<notin> set (map fst errno_fixed)" using None by (simp add: map_of_eq_None_iff)
  then have "map_of errno_default n \<noteq> None" using assms unfolding map_of_eq_None_iff by auto
  then show ?thesis using None by (auto simp: uv_code_def)
qed

lemma find_unique:
  assumes "x \<in> set xs" "P x" "\<And>y. y \<in> set xs \<Longrightarrow> P y \<Longrightarrow> y = x"
  shows "find P xs = Some x"
proof -
  obtain y where y: "find P xs = Some y" using assms(1,2) by (cases "find P xs") (auto simp: find_None_iff)
  then have "y \<in> set xs" "P y" by (auto simp: find_Some_iff)
  then show ?thesis using assms(3) y by blast
qed

lemma switch_errno_own:
  assumes sys: "unix_errno sys" and n: "(n, msg) \<in> set errno_map"
  shows "\<exists>c. uv_code sys n = Some c \<and> c < 0 \<and> switch_errno sys c = Some (n, msg)"
proof -
  have "n \<in> set (map fst errno_map)" using n by force
  then have "n \<in> set (map fst (errno_fixed @ errno_default))" using errno_map_coded unfolding list_all_iff by blast
  from uv_code_Some [OF this, of sys] obtain c where c: "uv_code sys n = Some c" by blast
  have "c < 0"
  proof -
    have pos: "0 < e" if "sys n = Some e" for e using sys that unfolding unix_errno_def by blast
    show ?thesis
      using uv_code_cases [OF c]
    proof
      assume "map_of (errno_fixed @ errno_default) n = Some c"
      from uv_code_low [OF this] show ?thesis by simp
    next
      assume "n \<in> set (map fst errno_default) \<and> (\<exists>e. sys n = Some e \<and> c = - e)"
      then obtain e where "sys n = Some e" "c = - e" by blast
      with pos show ?thesis by force
    qed
  qed
  moreover have "switch_errno sys c = Some (n, msg)"
    unfolding switch_errno_def
  proof (rule find_unique [OF n])
    show "case (n, msg) of (name, msg) \<Rightarrow> uv_code sys name = Some c" using c by simp
    fix y assume y: "y \<in> set errno_map" "case y of (name, msg) \<Rightarrow> uv_code sys name = Some c"
    then have "fst y = n" using uv_code_inj [OF sys _ c] by (cases y) auto
    then show "y = (n, msg)"
      using errno_map_names y(1) n unfolding distinct_map inj_on_def by (metis fst_conv)
  qed
  ultimately show ?thesis using c by blast
qed

text \<open>\<open>uv__unknown_err_code\<close> has one byte too few for the longest numbers.\<close>

lemma unknown_error_cut: "uv__unknown_err_code True (-1000000001) = ''Unknown system error -100000000''"
proof -
  have "unknown_error (-1000000001) = ''Unknown system error -1000000001''"
    by (simp add: unknown_error_def print_d_def print_u_def dec_digits_def print_base.simps)
  then show ?thesis by (simp add: uv__unknown_err_code_def snprintf_def c_string_def)
qed

section \<open>Properties\<close>

text \<open>
  On a system whose \<open>errno\<close> values are positive, below 3000 and distinct, every name of
  \<open>UV_ERRNO_MAP\<close> has a code, the code is negative and no other name has it, \<open>uv_err_name\<close> gives back
  the name and \<open>uv_strerror\<close> the message that belongs to it.
\<close>

theorem errno_names_are_own:
  assumes "unix_errno sys" and "(n, msg) \<in> set errno_map"
  shows "\<exists>c. uv_code sys n = Some c \<and> c < 0 \<and> (\<forall>m. uv_code sys m = Some c \<longrightarrow> m = n) \<and>
    uv_err_name sys strdup_ok c = n \<and> uv_strerror sys strdup_ok c = msg"
proof -
  obtain c where c: "uv_code sys n = Some c" "c < 0" "switch_errno sys c = Some (n, msg)"
    using switch_errno_own [OF assms] by blast
  show ?thesis
  proof (intro exI [of _ c] conjI allI impI)
    show "uv_code sys n = Some c" "c < 0" by (rule c)+
    show "m = n" if "uv_code sys m = Some c" for m by (rule uv_code_inj [OF assms(1) that c(1)])
    show "uv_err_name sys strdup_ok c = n" "uv_strerror sys strdup_ok c = msg"
      by (simp_all add: uv_err_name_def uv_strerror_def c(3))
  qed
qed

theorem errno_names_are_own_witness:
  "uv_err_name [''ENOENT'' \<mapsto> 2] True (-2) = ''ENOENT'' \<and>
    uv_strerror [''ENOENT'' \<mapsto> 2] True (-2) = ''no such file or directory''"
proof -
  have u: "unix_errno [''ENOENT'' \<mapsto> 2]" by (auto simp: unix_errno_def split: if_splits)
  have m: "(''ENOENT'', ''no such file or directory'') \<in> set errno_map" by (simp add: errno_map_def)
  have c: "uv_code [''ENOENT'' \<mapsto> 2] ''ENOENT'' = Some (-2)"
    by (simp add: uv_code_def UV__ERR_of_def errno_tables)
  from errno_names_are_own [OF u m, of True] obtain d where
    d: "uv_code [''ENOENT'' \<mapsto> 2] ''ENOENT'' = Some d" "uv_err_name [''ENOENT'' \<mapsto> 2] True d = ''ENOENT''"
      "uv_strerror [''ENOENT'' \<mapsto> 2] True d = ''no such file or directory''" by (elim exE conjE)
  have "d = -2" using d(1) unfolding c by (rule option.inject [THEN iffD1, symmetric])
  then show ?thesis using d(2,3) by blast
qed

end
