(* ===== verification/Scandir.thy ===== *)
theory Scandir
  imports Prelude
begin

text \<open>
  The reading of directory entries in src/uv-common.c: \<open>uv_fs_scandir_next\<close>, the two cleanups and
  the entry types.  A request holds the array that \<open>scandir\<close> allocated and the number of entries in
  it; what has been given to \<open>free\<close> is recorded, and a second \<open>free\<close> of the same object, a read of a
  freed object or of \<open>NULL\<close> is a crash.

  The lemmas show which objects are freed however far the user reads before the cleanup.
\<close>

datatype uv_dirent_type_t = UV_DIRENT_UNKNOWN | UV_DIRENT_FILE | UV_DIRENT_DIR | UV_DIRENT_LINK
  | UV_DIRENT_FIFO | UV_DIRENT_SOCKET | UV_DIRENT_CHAR | UV_DIRENT_BLOCK

text \<open>\<open>fs_dents\<close> is the content of the array at \<open>fs_ptr\<close>: the addresses of its entries.\<close>

record fs_scan =
  fs_result :: int
  fs_ptr :: ptr
  fs_nbufs :: u32
  fs_dents :: "addr list"
  d_name :: "addr \<Rightarrow> string"
  d_type :: "addr \<Rightarrow> nat"
  freed :: "addr list"

text \<open>The values of \<open>d_type\<close> on Linux.\<close>

abbreviation UV__DT_FIFO :: nat where "UV__DT_FIFO \<equiv> 1"
abbreviation UV__DT_CHAR :: nat where "UV__DT_CHAR \<equiv> 2"
abbreviation UV__DT_DIR :: nat where "UV__DT_DIR \<equiv> 4"
abbreviation UV__DT_BLOCK :: nat where "UV__DT_BLOCK \<equiv> 6"
abbreviation UV__DT_FILE :: nat where "UV__DT_FILE \<equiv> 8"
abbreviation UV__DT_LINK :: nat where "UV__DT_LINK \<equiv> 10"
abbreviation UV__DT_SOCKET :: nat where "UV__DT_SOCKET \<equiv> 12"

definition uv__fs_get_dirent_type :: "nat \<Rightarrow> uv_dirent_type_t" where
  "uv__fs_get_dirent_type ty =
     (if ty = UV__DT_DIR then UV_DIRENT_DIR
      else if ty = UV__DT_FILE then UV_DIRENT_FILE
      else if ty = UV__DT_LINK then UV_DIRENT_LINK
      else if ty = UV__DT_FIFO then UV_DIRENT_FIFO
      else if ty = UV__DT_SOCKET then UV_DIRENT_SOCKET
      else if ty = UV__DT_CHAR then UV_DIRENT_CHAR
      else if ty = UV__DT_BLOCK then UV_DIRENT_BLOCK
      else UV_DIRENT_UNKNOWN)"

definition uv__fs_scandir_free :: "ptr \<Rightarrow> fs_scan \<Rightarrow> fs_scan option" where
  "uv__fs_scandir_free p s =
     (case p of
        None \<Rightarrow> Some s
      | Some a \<Rightarrow> if a \<in> set (freed s) then None else Some (s\<lparr>freed := freed s @ [a]\<rparr>))"

text \<open>\<open>dents[i]\<close>.\<close>

definition dent_at :: "u32 \<Rightarrow> fs_scan \<Rightarrow> addr option" where
  "dent_at i s =
     (case fs_ptr s of
        None \<Rightarrow> None
      | Some a \<Rightarrow> if a \<in> set (freed s) \<or> unat i \<ge> length (fs_dents s) then None else Some (fs_dents s ! unat i))"

partial_function (option) scandir_free_rest :: "fs_scan \<Rightarrow> fs_scan option" where
  "scandir_free_rest s =
     (if fs_nbufs s < word_of_int (fs_result s) then
        dent_at (fs_nbufs s) s \<bind> (\<lambda>d.
        uv__fs_scandir_free (Some d) s \<bind> (\<lambda>s.
        scandir_free_rest (s\<lparr>fs_nbufs := fs_nbufs s + 1\<rparr>)))
      else Some s)"

definition uv__fs_scandir_cleanup :: "fs_scan \<Rightarrow> fs_scan option" where
  "uv__fs_scandir_cleanup s = do {
     let s = (if fs_nbufs s > 0 \<and> fs_nbufs s \<noteq> word_of_int (fs_result s)
              then s\<lparr>fs_nbufs := fs_nbufs s - 1\<rparr> else s);
     s \<leftarrow> scandir_free_rest s;
     s \<leftarrow> uv__fs_scandir_free (fs_ptr s) s;
     Some (s\<lparr>fs_ptr := None\<rparr>) }"

definition uv_fs_scandir_next ::
  "fs_scan \<Rightarrow> ((int + (string \<times> uv_dirent_type_t)) \<times> fs_scan) option" where
  "uv_fs_scandir_next s =
     (if fs_result s < 0 then Some (Inl (fs_result s), s)
      else if fs_ptr s = None then Some (Inl (-4095), s)
      else do {
        s \<leftarrow> (if fs_nbufs s > 0 then do { d \<leftarrow> dent_at (fs_nbufs s - 1) s; uv__fs_scandir_free (Some d) s } else Some s);
        if fs_nbufs s = word_of_int (fs_result s) then do {
          s \<leftarrow> uv__fs_scandir_free (fs_ptr s) s;
          Some (Inl (-4095), s\<lparr>fs_ptr := None\<rparr>) }
        else do {
          dent \<leftarrow> dent_at (fs_nbufs s) s;
          let s = s\<lparr>fs_nbufs := fs_nbufs s + 1\<rparr>;
          uv_assert (dent \<notin> set (freed s));
          Some (Inr (d_name s dent, uv__fs_get_dirent_type (d_type s dent)), s) } })"

text \<open>
  \<open>uv__fs_readdir_cleanup\<close>: the names of the entries of a \<open>uv_dir_t\<close> are freed and set to \<open>NULL\<close>.
\<close>

record fs_readdir =
  rd_result :: int
  rd_ptr :: ptr
  rd_dirents :: "ptr list option"
  rd_freed :: "addr list"

fun free_names :: "nat \<Rightarrow> nat \<Rightarrow> ptr list \<Rightarrow> addr list \<Rightarrow> (ptr list \<times> addr list) option" where
  "free_names 0 i ds fr = Some (ds, fr)"
| "free_names (Suc k) i ds fr =
     (if i \<ge> length ds then None
      else case ds ! i of
        None \<Rightarrow> free_names k (i + 1) ds fr
      | Some a \<Rightarrow> if a \<in> set fr then None else free_names k (i + 1) (ds[i := None]) (fr @ [a]))"

definition uv__fs_readdir_cleanup :: "fs_readdir \<Rightarrow> fs_readdir option" where
  "uv__fs_readdir_cleanup s =
     (if rd_ptr s = None then Some s
      else
        let s = s\<lparr>rd_ptr := None\<rparr>
        in case rd_dirents s of
             None \<Rightarrow> Some s
           | Some ds \<Rightarrow>
               (case free_names (nat (rd_result s)) 0 ds (rd_freed s) of
                  None \<Rightarrow> None
                | Some (ds, fr) \<Rightarrow> Some (s\<lparr>rd_dirents := Some ds, rd_freed := fr\<rparr>)))"

section \<open>Reading and cleaning up\<close>

text \<open>\<open>k\<close> calls of \<open>uv_fs_scandir_next\<close>, with what they return.\<close>

fun scandir_reads :: "nat \<Rightarrow> fs_scan \<Rightarrow> ((int + (string \<times> uv_dirent_type_t)) list \<times> fs_scan) option" where
  "scandir_reads 0 s = Some ([], s)"
| "scandir_reads (Suc k) s = do {
     (rs, s) \<leftarrow> scandir_reads k s;
     (r, s) \<leftarrow> uv_fs_scandir_next s;
     Some (rs @ [r], s) }"

text \<open>A request after a \<open>scandir\<close> that found the entries \<open>ds\<close>.\<close>

definition fresh_scan :: "fs_scan \<Rightarrow> addr \<Rightarrow> bool" where
  "fresh_scan s a \<longleftrightarrow> fs_ptr s = Some a \<and> fs_nbufs s = 0 \<and> fs_result s = int (length (fs_dents s)) \<and>
     length (fs_dents s) < 2 ^ 31 \<and> distinct (a # fs_dents s) \<and> freed s = []"

definition entry :: "fs_scan \<Rightarrow> addr \<Rightarrow> string \<times> uv_dirent_type_t" where
  "entry s d = (d_name s d, uv__fs_get_dirent_type (d_type s d))"

lemma unat_small: "n < 2 ^ 32 \<Longrightarrow> unat (of_nat n :: u32) = n"
  by (simp add: unat_of_nat)

lemma of_nat_inj32: "n < 2 ^ 32 \<Longrightarrow> m < 2 ^ 32 \<Longrightarrow> (of_nat n :: u32) = of_nat m \<longleftrightarrow> n = m"
  using unat_small by metis

lemma scandir_reads_upto:
  assumes "fresh_scan s a"
  shows "k \<le> length (fs_dents s) \<Longrightarrow>
    scandir_reads k s = Some (map (\<lambda>d. Inr (entry s d)) (take k (fs_dents s)),
      s\<lparr>fs_nbufs := of_nat k, freed := take (k - 1) (fs_dents s)\<rparr>)"
proof (induction k)
  case 0
  have "s = s\<lparr>fs_nbufs := 0, freed := []\<rparr>" using assms by (simp add: fresh_scan_def)
  then show ?case by simp
next
  case (Suc k)
  let ?ds = "fs_dents s"
  let ?s = "s\<lparr>fs_nbufs := of_nat k, freed := take (k - 1) ?ds\<rparr>"
  have f: "fs_ptr s = Some a" "fs_result s = int (length ?ds)" "length ?ds < 2 ^ 31" "distinct ?ds" "a \<notin> set ?ds"
    using assms by (simp_all add: fresh_scan_def)
  have k: "k < length ?ds" using Suc.prems by simp
  have na: "a \<notin> set (take n ?ds)" for n using f(5) by (meson in_set_takeD)
  have nd: "?ds ! i \<notin> set (take j ?ds)" if "j \<le> i" "i < length ?ds" for i j
    using f(4) that by (auto simp: in_set_conv_nth nth_eq_iff_index_eq)
  have uk: "unat (of_nat k :: u32) = k" using k f(3) by (intro unat_small) simp
  have res: "word_of_int (fs_result s) = (of_nat (length ?ds) :: u32)" using f(2) by simp
  have neq: "(of_nat k :: u32) \<noteq> of_nat (length ?ds)" using of_nat_inj32 [of k "length ?ds"] k f(3) by simp
  define t where "t = ?s\<lparr>freed := take k ?ds\<rparr>"
  have first: "(if fs_nbufs ?s > 0 then do { d \<leftarrow> dent_at (fs_nbufs ?s - 1) ?s; uv__fs_scandir_free (Some d) ?s } else Some ?s) = Some t"
  proof (cases k)
    case 0
    then show ?thesis by (simp add: t_def)
  next
    case (Suc j)
    have "(of_nat k :: u32) \<noteq> 0" using uk Suc by auto
    then have pos: "(0 :: u32) < of_nat k" by (simp add: word_gt_0)
    have "of_nat k - 1 = (of_nat j :: u32)" using Suc by simp
    moreover have "unat (of_nat j :: u32) = j" using k f(3) Suc by (intro unat_small) simp
    ultimately have "dent_at (of_nat k - 1) ?s = Some (?ds ! j)"
      using f(1) na k Suc by (simp add: dent_at_def)
    then show ?thesis using pos nd [of j j] k Suc
      by (simp add: uv__fs_scandir_free_def t_def take_Suc_conv_app_nth)
  qed
  have d: "dent_at (fs_nbufs t) t = Some (?ds ! k)"
    using f(1) na uk k by (simp add: t_def dent_at_def)
  have "uv_fs_scandir_next ?s = Some (Inr (entry s (?ds ! k)), t\<lparr>fs_nbufs := of_nat k + 1\<rparr>)"
    unfolding uv_fs_scandir_next_def first
    using f(1,2) neq d nd [of k k] k res by (simp add: t_def entry_def)
  then show ?case
    using Suc k by (simp add: t_def take_Suc_conv_app_nth add.commute)
qed

lemma free_rest_all:
  assumes "fs_ptr s = Some a" "fs_result s = int (length (fs_dents s))" "length (fs_dents s) < 2 ^ 31"
    "distinct (fs_dents s)" "a \<notin> set (fs_dents s)" "freed s = take j (fs_dents s)" "fs_nbufs s = of_nat j"
    "j \<le> length (fs_dents s)"
  shows "scandir_free_rest s = Some (s\<lparr>fs_nbufs := of_nat (length (fs_dents s)), freed := fs_dents s\<rparr>)"
  using assms
proof (induction "length (fs_dents s) - j" arbitrary: s j)
  case 0
  then have "j = length (fs_dents s)" by simp
  then have "\<not> fs_nbufs s < word_of_int (fs_result s)" using 0 by simp
  moreover have "s = s\<lparr>fs_nbufs := of_nat (length (fs_dents s)), freed := fs_dents s\<rparr>"
    using 0 \<open>j = length (fs_dents s)\<close> by simp
  ultimately show ?case by (subst scandir_free_rest.simps) simp
next
  case (Suc n)
  let ?ds = "fs_dents s"
  have j: "j < length ?ds" using Suc.hyps(2) by simp
  have u: "unat (of_nat j :: u32) = j" "unat (of_nat (length ?ds) :: u32) = length ?ds"
    using j Suc.prems(3) by (intro unat_small, simp)+
  have lt: "fs_nbufs s < word_of_int (fs_result s)"
    using Suc.prems(2,7) j u by (simp add: word_less_nat_alt)
  have "a \<notin> set (take j ?ds)" using Suc.prems(5) by (meson in_set_takeD)
  then have d: "dent_at (fs_nbufs s) s = Some (?ds ! j)"
    using Suc.prems(1,6,7) u(1) j by (simp add: dent_at_def)
  have "?ds ! j \<notin> set (take j ?ds)"
    using Suc.prems(4) j by (auto simp: in_set_conv_nth nth_eq_iff_index_eq)
  then have f: "uv__fs_scandir_free (Some (?ds ! j)) s = Some (s\<lparr>freed := take (Suc j) ?ds\<rparr>)"
    using Suc.prems(6) j by (simp add: uv__fs_scandir_free_def take_Suc_conv_app_nth)
  let ?t = "s\<lparr>freed := take (Suc j) ?ds, fs_nbufs := of_nat (Suc j)\<rparr>"
  have "scandir_free_rest s = scandir_free_rest ?t"
    by (subst scandir_free_rest.simps) (use lt d f Suc.prems(7) in \<open>simp add: add.commute of_nat_Suc\<close>)
  also have "\<dots> = Some (?t\<lparr>fs_nbufs := of_nat (length (fs_dents ?t)), freed := fs_dents ?t\<rparr>)"
  proof (rule Suc.hyps(1))
    show "Suc j \<le> length (fs_dents ?t)" using j by simp
    show "n = length (fs_dents ?t) - Suc j" using Suc.hyps(2) by simp
  qed (use Suc.prems in simp_all)
  finally show ?case by simp
qed

lemma scandir_stop_early:
  assumes s: "fresh_scan s a" and k: "k < length (fs_dents s)" and r: "scandir_reads k s = Some (rs, s')"
  shows "\<exists>s2. uv__fs_scandir_cleanup s' = Some s2 \<and> freed s2 = fs_dents s @ [a] \<and> fs_ptr s2 = None"
proof -
  let ?ds = "fs_dents s"
  have f: "fs_ptr s = Some a" "fs_result s = int (length ?ds)" "length ?ds < 2 ^ 31" "distinct ?ds" "a \<notin> set ?ds"
    using s by (simp_all add: fresh_scan_def)
  have s': "s' = s\<lparr>fs_nbufs := of_nat k, freed := take (k - 1) ?ds\<rparr>"
    using scandir_reads_upto [OF s, of k] k r by simp
  have u: "unat (of_nat k :: u32) = k" using k f(3) by (intro unat_small) simp
  have neq: "(of_nat k :: u32) \<noteq> of_nat (length ?ds)" using of_nat_inj32 [of k "length ?ds"] k f(3) by simp
  define t where "t = s'\<lparr>fs_nbufs := of_nat (k - 1)\<rparr>"
  have t: "(if fs_nbufs s' > 0 \<and> fs_nbufs s' \<noteq> word_of_int (fs_result s') then s'\<lparr>fs_nbufs := fs_nbufs s' - 1\<rparr> else s') = t"
  proof (cases k)
    case 0
    then show ?thesis by (simp add: t_def s')
  next
    case (Suc j)
    then have "(of_nat k :: u32) \<noteq> 0" using u by auto
    then show ?thesis using neq f(2) Suc by (simp add: t_def s' word_gt_0)
  qed
  have "scandir_free_rest t = Some (t\<lparr>fs_nbufs := of_nat (length (fs_dents t)), freed := fs_dents t\<rparr>)"
    by (rule free_rest_all [of _ a "k - 1"]) (use f k in \<open>simp_all add: t_def s'\<close>)
  then have "uv__fs_scandir_cleanup s' = Some (t\<lparr>fs_nbufs := of_nat (length ?ds), freed := ?ds @ [a], fs_ptr := None\<rparr>)"
    unfolding uv__fs_scandir_cleanup_def t using f(1,5) by (simp add: uv__fs_scandir_free_def t_def s')
  then show ?thesis by simp
qed

text \<open>After the last entry but before \<open>UV_EOF\<close>: the last entry is not freed.\<close>

lemma scandir_stop_last:
  assumes s: "fresh_scan s a" and k: "k = length (fs_dents s)" "k > 0" and r: "scandir_reads k s = Some (rs, s')"
  shows "\<exists>s2. uv__fs_scandir_cleanup s' = Some s2 \<and> freed s2 = butlast (fs_dents s) @ [a] \<and> fs_ptr s2 = None"
proof -
  let ?ds = "fs_dents s"
  have f: "fs_ptr s = Some a" "fs_result s = int (length ?ds)" "a \<notin> set ?ds"
    using s by (simp_all add: fresh_scan_def)
  have s': "s' = s\<lparr>fs_nbufs := of_nat k, freed := butlast ?ds\<rparr>"
    using scandir_reads_upto [OF s, of k] k r by (simp add: butlast_conv_take)
  have eq: "fs_nbufs s' = word_of_int (fs_result s')" using f(2) k(1) by (simp add: s')
  have "scandir_free_rest s' = Some s'" by (subst scandir_free_rest.simps) (simp add: eq)
  moreover have "a \<notin> set (butlast ?ds)" using f(3) by (meson in_set_butlastD)
  ultimately have "uv__fs_scandir_cleanup s' = Some (s'\<lparr>freed := butlast ?ds @ [a], fs_ptr := None\<rparr>)"
    unfolding uv__fs_scandir_cleanup_def using eq f(1) by (simp add: uv__fs_scandir_free_def s')
  then show ?thesis by simp
qed

lemma scandir_to_the_end:
  assumes s: "fresh_scan s a" and k: "k = length (fs_dents s)"
  shows "\<exists>s2. scandir_reads (Suc k) s = Some (map (\<lambda>d. Inr (entry s d)) (fs_dents s) @ [Inl (-4095)], s2) \<and>
    freed s2 = fs_dents s @ [a] \<and> fs_ptr s2 = None"
proof -
  let ?ds = "fs_dents s"
  have f: "fs_ptr s = Some a" "fs_result s = int (length ?ds)" "length ?ds < 2 ^ 31" "distinct ?ds" "a \<notin> set ?ds"
    using s by (simp_all add: fresh_scan_def)
  let ?s = "s\<lparr>fs_nbufs := of_nat k, freed := take (k - 1) ?ds\<rparr>"
  let ?t = "s\<lparr>fs_nbufs := of_nat k, freed := ?ds\<rparr>"
  have first: "(if fs_nbufs ?s > 0 then do { d \<leftarrow> dent_at (fs_nbufs ?s - 1) ?s; uv__fs_scandir_free (Some d) ?s } else Some ?s) = Some ?t"
  proof (cases k)
    case 0
    then show ?thesis using k by simp
  next
    case (Suc j)
    have u: "unat (of_nat k :: u32) = k" "unat (of_nat j :: u32) = j" using k f(3) Suc by (intro unat_small, simp)+
    have "(of_nat k :: u32) \<noteq> 0" using u(1) Suc by auto
    then have pos: "(0 :: u32) < of_nat k" by (simp add: word_gt_0)
    have na: "a \<notin> set (take j ?ds)" using f(5) by (meson in_set_takeD)
    have e: "(of_nat k :: u32) - 1 = of_nat j" "k - 1 = j" using Suc by simp_all
    have jl: "j < length ?ds" using k Suc by simp
    have d: "dent_at (of_nat k - 1) ?s = Some (?ds ! j)"
      unfolding e using f(1) u(2) na jl by (simp add: dent_at_def)
    have "?ds ! j \<notin> set (take j ?ds)" using f(4) k Suc by (auto simp: in_set_conv_nth nth_eq_iff_index_eq)
    moreover have "take j ?ds @ [?ds ! j] = ?ds" using take_Suc_conv_app_nth [of j ?ds] k Suc by simp
    ultimately show ?thesis using pos d Suc by (simp add: uv__fs_scandir_free_def)
  qed
  have "uv_fs_scandir_next ?s = Some (Inl (-4095), ?t\<lparr>freed := ?ds @ [a], fs_ptr := None\<rparr>)"
    unfolding uv_fs_scandir_next_def first using f(1,2,5) k by (simp add: uv__fs_scandir_free_def)
  then show ?thesis using scandir_reads_upto [OF s, of k] k by simp
qed

section \<open>Properties\<close>

text \<open>
  \<open>uv_fs_scandir_next\<close> and \<open>uv__fs_scandir_cleanup\<close> use memory as they should, with one exception.
  For a request with the entries \<open>ds\<close>: reading to \<open>UV_EOF\<close> returns every entry in order and frees
  every entry and the array once; stopping before the last entry and cleaning up also frees all of
  them once; but a cleanup right after the last entry has been returned frees all but that entry.
  No read of freed memory and no double free occurs in any case.
\<close>

theorem scandir_frees_what_it_holds:
  assumes "fresh_scan s a"
  shows "(\<exists>s'. scandir_reads (length (fs_dents s) + 1) s =
        Some (map (\<lambda>d. Inr (entry s d)) (fs_dents s) @ [Inl (-4095)], s') \<and> freed s' = fs_dents s @ [a]) \<and>
    (\<forall>k \<le> length (fs_dents s). \<exists>s' s''. scandir_reads k s = Some (map (\<lambda>d. Inr (entry s d)) (take k (fs_dents s)), s') \<and>
        uv__fs_scandir_cleanup s' = Some s'' \<and> fs_ptr s'' = None \<and>
        freed s'' = (if k = length (fs_dents s) \<and> k > 0 then butlast (fs_dents s) else fs_dents s) @ [a])"
proof (intro conjI allI impI)
  show "\<exists>s'. scandir_reads (length (fs_dents s) + 1) s =
        Some (map (\<lambda>d. Inr (entry s d)) (fs_dents s) @ [Inl (-4095)], s') \<and> freed s' = fs_dents s @ [a]"
    using scandir_to_the_end [OF assms refl] by auto
  fix k assume k: "k \<le> length (fs_dents s)"
  note r = scandir_reads_upto [OF assms k]
  show "\<exists>s' s''. scandir_reads k s = Some (map (\<lambda>d. Inr (entry s d)) (take k (fs_dents s)), s') \<and>
        uv__fs_scandir_cleanup s' = Some s'' \<and> fs_ptr s'' = None \<and>
        freed s'' = (if k = length (fs_dents s) \<and> k > 0 then butlast (fs_dents s) else fs_dents s) @ [a]"
  proof (cases "k < length (fs_dents s)")
    case True
    then show ?thesis using r scandir_stop_early [OF assms True r] by auto
  next
    case False
    then have kl: "k = length (fs_dents s)" using k by simp
    show ?thesis
    proof (cases "k > 0")
      case True
      then show ?thesis using r scandir_stop_last [OF assms kl True r] kl by auto
    next
      case False
      then have n: "fs_dents s = []" using kl by simp
      have f: "fs_ptr s = Some a" "fs_result s = 0" "fs_nbufs s = 0" "freed s = []"
        using assms n by (simp_all add: fresh_scan_def)
      have "scandir_free_rest s = Some s" by (subst scandir_free_rest.simps) (simp add: f)
      then have "uv__fs_scandir_cleanup s = Some (s\<lparr>freed := [a], fs_ptr := None\<rparr>)"
        by (simp add: uv__fs_scandir_cleanup_def f uv__fs_scandir_free_def)
      then show ?thesis using False n by simp
    qed
  qed
qed

definition demo_scan :: fs_scan where
  "demo_scan = \<lparr>fs_result = 2, fs_ptr = Some 9, fs_nbufs = 0, fs_dents = [5, 6],
     d_name = (\<lambda>a. if a = 5 then ''a'' else ''b''), d_type = (\<lambda>_. 8), freed = []\<rparr>"

theorem scandir_frees_what_it_holds_witness:
  "\<exists>s' s''. scandir_reads 2 demo_scan = Some ([Inr (''a'', UV_DIRENT_FILE), Inr (''b'', UV_DIRENT_FILE)], s') \<and>
    uv__fs_scandir_cleanup s' = Some s'' \<and> freed s'' = [5, 9]"
proof -
  have f: "fresh_scan demo_scan 9" by (simp add: fresh_scan_def demo_scan_def)
  have "2 \<le> length (fs_dents demo_scan)" by (simp add: demo_scan_def)
  from conjunct2 [OF scandir_frees_what_it_holds [OF f], rule_format, OF this]
  obtain s' s'' where "scandir_reads 2 demo_scan = Some (map (\<lambda>d. Inr (entry demo_scan d)) (take 2 (fs_dents demo_scan)), s')"
    "uv__fs_scandir_cleanup s' = Some s''"
    "freed s'' = (if 2 = length (fs_dents demo_scan) \<and> 2 > (0 :: nat) then butlast (fs_dents demo_scan) else fs_dents demo_scan) @ [9]"
    by (elim exE conjE)
  then show ?thesis by (simp add: demo_scan_def entry_def uv__fs_get_dirent_type_def)
qed

end
