(* ===== verification/Memory.thy ===== *)
theory Memory
  imports Strings
begin

text \<open>
  The allocation functions of src/uv-common.c.  An allocator is the record of the four functions that
  \<open>uv_replace_allocator\<close> installs; \<open>local_malloc\<close> and the others are asked for a block with the list of
  all blocks handed out so far and the size, and return \<open>None\<close> when they fail.  The memory records the
  blocks handed out and the blocks freed; to free or to resize a block that is not live is a crash.

  The lemmas show which blocks are live after each function.
\<close>

record uv_allocator =
  local_malloc :: "(addr list \<Rightarrow> nat \<Rightarrow> ptr)"
  local_realloc :: "(addr list \<Rightarrow> addr \<Rightarrow> nat \<Rightarrow> ptr)"
  local_calloc :: "(addr list \<Rightarrow> nat \<Rightarrow> nat \<Rightarrow> ptr)"

record memory =
  allocated :: "addr list"
  released :: "addr list"

definition live :: "memory \<Rightarrow> addr set" where
  "live m = set (allocated m) - set (released m)"

definition hand_out :: "ptr \<Rightarrow> memory \<Rightarrow> ptr \<times> memory" where
  "hand_out p m = (case p of None \<Rightarrow> (None, m) | Some a \<Rightarrow> (Some a, m\<lparr>allocated := a # allocated m\<rparr>))"

definition uv__malloc :: "uv_allocator \<Rightarrow> nat \<Rightarrow> memory \<Rightarrow> ptr \<times> memory" where
  "uv__malloc A n m = (if n > 0 then hand_out (local_malloc A (allocated m) n) m else (None, m))"

definition uv__calloc :: "uv_allocator \<Rightarrow> nat \<Rightarrow> nat \<Rightarrow> memory \<Rightarrow> ptr \<times> memory" where
  "uv__calloc A k n m = hand_out (local_calloc A (allocated m) k n) m"

text \<open>\<open>free(NULL)\<close> does nothing.\<close>

definition uv__free :: "ptr \<Rightarrow> memory \<Rightarrow> memory option" where
  "uv__free p m =
     (case p of
        None \<Rightarrow> Some m
      | Some a \<Rightarrow> if a \<in> live m then Some (m\<lparr>released := a # released m\<rparr>) else None)"

text \<open>\<open>realloc(NULL, size)\<close> allocates; a block that is moved is freed, one that stays is not.\<close>

definition uv__realloc :: "uv_allocator \<Rightarrow> ptr \<Rightarrow> nat \<Rightarrow> memory \<Rightarrow> (ptr \<times> memory) option" where
  "uv__realloc A p n m =
     (if n > 0 then
        (case p of
           None \<Rightarrow> Some (hand_out (local_malloc A (allocated m) n) m)
         | Some a \<Rightarrow>
             if a \<notin> live m then None
             else case local_realloc A (allocated m) a n of
               None \<Rightarrow> Some (None, m)
             | Some b \<Rightarrow> if b = a then Some (Some b, m)
                          else do { m \<leftarrow> uv__free (Some a) m; Some (hand_out (Some b) m) })
      else do { m \<leftarrow> uv__free p m; Some (None, m) })"

definition uv__reallocf :: "uv_allocator \<Rightarrow> ptr \<Rightarrow> nat \<Rightarrow> memory \<Rightarrow> (ptr \<times> memory) option" where
  "uv__reallocf A p n m = do {
     (q, m) \<leftarrow> uv__realloc A p n m;
     m \<leftarrow> (if q = None \<and> n > 0 then uv__free p m else Some m);
     Some (q, m) }"

definition uv__strdup :: "uv_allocator \<Rightarrow> string \<Rightarrow> memory \<Rightarrow> (addr \<times> string) option \<times> memory" where
  "uv__strdup A s m =
     (case uv__malloc A (length (c_string s 0) + 1) m of (p, m) \<Rightarrow>
        (case p of None \<Rightarrow> (None, m) | Some a \<Rightarrow> (Some (a, take (length (c_string s 0) + 1) s), m)))"

definition uv__strndup :: "uv_allocator \<Rightarrow> string \<Rightarrow> nat \<Rightarrow> memory \<Rightarrow> (addr \<times> string) option \<times> memory" where
  "uv__strndup A s n m =
     (let len = length (c_string s 0);
          len = (if n < len then n else len)
      in case uv__malloc A (len + 1) m of (p, m) \<Rightarrow>
         (case p of None \<Rightarrow> (None, m) | Some a \<Rightarrow> (Some (a, take len s @ [NUL]), m)))"

text \<open>The user's functions are \<open>None\<close> for \<open>NULL\<close>; that of \<open>free\<close> has no part in the model.\<close>

definition uv_replace_allocator ::
  "(addr list \<Rightarrow> nat \<Rightarrow> ptr) option \<Rightarrow> (addr list \<Rightarrow> addr \<Rightarrow> nat \<Rightarrow> ptr) option \<Rightarrow>
    (addr list \<Rightarrow> nat \<Rightarrow> nat \<Rightarrow> ptr) option \<Rightarrow> bool \<Rightarrow> uv_allocator \<Rightarrow> (uv_errno + unit) \<times> uv_allocator" where
  "uv_replace_allocator malloc_func realloc_func calloc_func free_func A =
     (case (malloc_func, realloc_func, calloc_func) of
        (Some f, Some g, Some h) \<Rightarrow>
          if \<not> free_func then (Inl UV_EINVAL, A)
          else (Inr (), A\<lparr>local_malloc := f, local_realloc := g, local_calloc := h\<rparr>)
      | _ \<Rightarrow> (Inl UV_EINVAL, A))"

section \<open>Blocks that are live\<close>

text \<open>No block is handed out twice; every block freed was handed out.\<close>

definition fresh_alloc :: "uv_allocator \<Rightarrow> bool" where
  "fresh_alloc A \<longleftrightarrow>
     (\<forall>as n a. local_malloc A as n = Some a \<longrightarrow> a \<notin> set as) \<and>
     (\<forall>as b n a. local_realloc A as b n = Some a \<longrightarrow> a = b \<or> a \<notin> set as) \<and>
     (\<forall>as k n a. local_calloc A as k n = Some a \<longrightarrow> a \<notin> set as)"

definition mem_ok :: "memory \<Rightarrow> bool" where
  "mem_ok m \<longleftrightarrow> set (released m) \<subseteq> set (allocated m)"

text \<open>\<open>gains m p m'\<close>: the block \<open>p\<close>, if any, is new and nothing else has changed.\<close>

definition gains :: "memory \<Rightarrow> ptr \<Rightarrow> memory \<Rightarrow> bool" where
  "gains m p m' \<longleftrightarrow> mem_ok m' \<and> set_option p \<inter> live m = {} \<and> live m' = live m \<union> set_option p"

named_theorems memory_rules

lemma hand_out_gains: 
  assumes "mem_ok m" "\<And>a. p = Some a \<Longrightarrow> a \<notin> set (allocated m)" "hand_out p m = (q, m')"
  shows "q = p \<and> gains m p m'"
  using assms by (cases p) (auto simp: hand_out_def gains_def mem_ok_def live_def)

lemma malloc_gains [memory_rules]:
  assumes "fresh_alloc A" "mem_ok m" "uv__malloc A n m = (p, m')"
  shows "gains m p m'"
proof (cases "n > 0")
  case True
  then have "hand_out (local_malloc A (allocated m) n) m = (p, m')" using assms(3) by (simp add: uv__malloc_def)
  from hand_out_gains [OF assms(2) _ this] assms(1) show ?thesis by (auto simp: fresh_alloc_def)
next
  case False
  then show ?thesis using assms by (auto simp: uv__malloc_def gains_def)
qed

lemma calloc_gains [memory_rules]:
  assumes "fresh_alloc A" "mem_ok m" "uv__calloc A k n m = (p, m')"
  shows "gains m p m'"
  using hand_out_gains [OF assms(2) _ assms(3) [unfolded uv__calloc_def]] assms(1) by (auto simp: fresh_alloc_def)

lemma free_live:
  assumes "mem_ok m" "set_option p \<subseteq> live m"
  shows "\<exists>m'. uv__free p m = Some m' \<and> mem_ok m' \<and> live m' = live m - set_option p"
  using assms by (cases p) (auto simp: uv__free_def mem_ok_def live_def)

lemma reallocf_live:
  assumes "fresh_alloc A" "mem_ok m" "set_option p \<subseteq> live m"
  shows "\<exists>q m'. uv__reallocf A p n m = Some (q, m') \<and> mem_ok m' \<and>
    live m' = (live m - set_option p) \<union> set_option q \<and> set_option q \<inter> (live m - set_option p) = {}"
proof -
  obtain m1 where m1: "uv__free p m = Some m1" "mem_ok m1" "live m1 = live m - set_option p"
    using free_live [OF assms(2,3)] by blast
  show ?thesis
  proof (cases p)
    case None
    obtain q m' where q: "uv__malloc A n m = (q, m')" by (cases "uv__malloc A n m")
    have "uv__reallocf A None n m = Some (q, m')"
      using q by (cases "n > 0") (simp_all add: uv__reallocf_def uv__realloc_def uv__malloc_def uv__free_def)
    then show ?thesis using malloc_gains [OF assms(1,2) q] None by (auto simp: gains_def)
  next
    case (Some a)
    then have a: "a \<in> live m" using assms(3) by simp
    show ?thesis
    proof (cases "n > 0 \<and> local_realloc A (allocated m) a n \<noteq> None")
      case False
      then show ?thesis using m1 Some a by (auto simp: uv__reallocf_def uv__realloc_def)
    next
      case True
      then obtain b where b: "local_realloc A (allocated m) a n = Some b" by blast
      then have "b = a \<or> b \<notin> set (allocated m)" using assms(1) by (auto simp: fresh_alloc_def)
      then show ?thesis using m1 Some a b True assms(2)
        by (auto simp: uv__reallocf_def uv__realloc_def hand_out_def uv__free_def live_def mem_ok_def)
    qed
  qed
qed

section \<open>Properties\<close>

text \<open>
  For an allocator that hands out no block twice: \<open>uv__reallocf\<close> of a live block (or \<open>NULL\<close>) never
  crashes and never leaks: afterwards the old block is not live any more unless it is the result, the
  result, if there is one, is live, and nothing else has changed; in particular the old block is freed
  when the allocator fails.  A block from \<open>uv__malloc\<close> or \<open>uv__calloc\<close> is new.
\<close>

theorem reallocf_leaks_nothing:
  assumes "fresh_alloc A" and "mem_ok m" and "set_option p \<subseteq> live m"
  shows "(\<exists>q m'. uv__reallocf A p n m = Some (q, m') \<and> live m' = (live m - set_option p) \<union> set_option q \<and>
      set_option q \<inter> (live m - set_option p) = {}) \<and>
    live (snd (uv__malloc A n m)) = live m \<union> set_option (fst (uv__malloc A n m)) \<and>
    set_option (fst (uv__malloc A n m)) \<inter> live m = {}"
proof (intro conjI)
  show "\<exists>q m'. uv__reallocf A p n m = Some (q, m') \<and> live m' = (live m - set_option p) \<union> set_option q \<and>
      set_option q \<inter> (live m - set_option p) = {}"
    using reallocf_live [OF assms] by blast
qed (use malloc_gains [OF assms(1,2), of n "fst (uv__malloc A n m)" "snd (uv__malloc A n m)"] in \<open>simp_all add: gains_def\<close>)

definition demo_alloc :: uv_allocator where
  "demo_alloc = \<lparr>local_malloc = (\<lambda>as n. Some (Max (insert 0 (set as)) + 1)), local_realloc = (\<lambda>as a n. None),
     local_calloc = (\<lambda>as k n. Some (Max (insert 0 (set as)) + 1))\<rparr>"

lemma demo_alloc_fresh: "fresh_alloc demo_alloc"
proof -
  have "Suc (Max (insert 0 (set as))) \<notin> set as" for as :: "addr list"
    using Max_ge [of "insert 0 (set as)" "Suc (Max (insert 0 (set as)))"] by fastforce
  then show ?thesis by (simp add: fresh_alloc_def demo_alloc_def)
qed

theorem reallocf_leaks_nothing_witness:
  "\<exists>q m'. uv__reallocf demo_alloc (Some 1) 64 \<lparr>allocated = [1], released = []\<rparr> = Some (q, m') \<and> live m' = set_option q"
  using reallocf_leaks_nothing [OF demo_alloc_fresh, of "\<lparr>allocated = [1], released = []\<rparr>" "Some 1" 64]
  by (auto simp: mem_ok_def live_def)

end
