(* ===== verification/Osinfo.thy ===== *)
theory Osinfo
  imports Sysfd Memory
begin

text \<open>
  src/unix/core.c: what libuv asks the system for about directories, users, the environment, the
  host, priorities and times, in the Linux build.  System calls are the fields of \<open>os_kernel\<close>.  A
  buffer of the user is given by its size, \<open>None\<close> for \<open>NULL\<close>; the result has the new size and what
  has been written, without the terminating \<open>NUL\<close>.  Memory is a record of the blocks allocated and
  freed, the allocator a parameter that picks the next block or fails.

  The lemmas show that a call with the size that \<open>UV_ENOBUFS\<close> reports succeeds, that the search for
  the entry of the user ends and leaks nothing, and what \<open>uv_os_environ\<close> returns and frees.
\<close>

record utsname =
  sysname :: string
  release :: string
  version :: string
  machine :: string

record passwd =
  pw_name :: string
  pw_dir :: string
  pw_shell :: string
  pw_uid :: nat
  pw_gid :: nat

record 'w os_kernel =
  k_getcwd :: "nat \<Rightarrow> ('w, string) sys"
  k_chdir :: "string \<Rightarrow> ('w, unit) sys"
  k_getenv :: "string \<Rightarrow> 'w \<Rightarrow> string option"
  k_setenv :: "string \<Rightarrow> string \<Rightarrow> ('w, unit) sys"
  k_unsetenv :: "string \<Rightarrow> ('w, unit) sys"
  k_gethostname :: "nat \<Rightarrow> ('w, string) sys"
  k_getpriority :: "int \<Rightarrow> ('w, int) sys"
  k_setpriority :: "int \<Rightarrow> int \<Rightarrow> ('w, unit) sys"
  k_uname :: "('w, utsname) sys"
  k_gettimeofday :: "('w, int \<times> int) sys"
  k_nanosleep :: "nat \<times> nat \<Rightarrow> 'w \<Rightarrow> ((uv_errno + unit) \<times> (nat \<times> nat)) \<times> 'w"
  k_realpath :: "string \<Rightarrow> ('w, string) sys"
  k_access_x :: "string \<Rightarrow> ('w, unit) sys"
  k_getpwuid_r :: "u64 \<Rightarrow> ('w, passwd option) sys"
  k_affinity :: "('w, int) sys"
  k_nprocessors :: "'w \<Rightarrow> int"

section \<open>Strings for a buffer of the user\<close>

type_synonym buf_out = "(uv_errno + unit) \<times> nat option \<times> string option"

text \<open>The end of these functions: \<open>UV_ENOBUFS\<close> and the size needed, or the string.\<close>

definition give_string :: "string \<Rightarrow> nat \<Rightarrow> buf_out" where
  "give_string s n0 =
     (if length s \<ge> n0 then (Inl UV_ENOBUFS, Some (length s + 1), None)
      else (Inr (), Some (length s), Some s))"

definition uv_os_getenv ::
  "'w os_kernel \<Rightarrow> string option \<Rightarrow> bool \<Rightarrow> nat option \<Rightarrow> 'w \<Rightarrow> buf_out" where
  "uv_os_getenv K name buffer n0 w =
     (case (name, n0) of
        (Some name, Some n) \<Rightarrow>
          if \<not> buffer \<or> n = 0 then (Inl UV_EINVAL, n0, None)
          else (case k_getenv K name w of
                  None \<Rightarrow> (Inl UV_ENOENT, n0, None)
                | Some var \<Rightarrow> give_string var n)
      | _ \<Rightarrow> (Inl UV_EINVAL, n0, None))"

definition uv_os_tmpdir :: "'w os_kernel \<Rightarrow> bool \<Rightarrow> nat option \<Rightarrow> 'w \<Rightarrow> buf_out" where
  "uv_os_tmpdir K buffer n0 w =
     (case n0 of
        None \<Rightarrow> (Inl UV_EINVAL, n0, None)
      | Some n \<Rightarrow>
          if \<not> buffer \<or> n = 0 then (Inl UV_EINVAL, n0, None)
          else
            let buf = (case k_getenv K ''TMPDIR'' w of Some b \<Rightarrow> b | None \<Rightarrow>
                       case k_getenv K ''TMP'' w of Some b \<Rightarrow> b | None \<Rightarrow>
                       case k_getenv K ''TEMP'' w of Some b \<Rightarrow> b | None \<Rightarrow>
                       case k_getenv K ''TEMPDIR'' w of Some b \<Rightarrow> b | None \<Rightarrow> ''/tmp'');
                len = length buf
            in if len \<ge> n then (Inl UV_ENOBUFS, Some (len + 1), None)
               else let len = (if len > 1 \<and> buf ! (len - 1) = CHR ''/'' then len - 1 else len)
                    in (Inr (), Some len, Some (take len buf)))"

text \<open>\<open>UV_MAXHOSTNAMESIZE\<close> is \<open>MAXHOSTNAMELEN + 1\<close>, on Linux 65.\<close>

definition uv_os_gethostname :: "'w os_kernel \<Rightarrow> bool \<Rightarrow> nat option \<Rightarrow> 'w \<Rightarrow> buf_out \<times> 'w" where
  "uv_os_gethostname K buffer n0 w =
     (case n0 of
        None \<Rightarrow> ((Inl UV_EINVAL, n0, None), w)
      | Some n \<Rightarrow>
          if \<not> buffer \<or> n = 0 then ((Inl UV_EINVAL, n0, None), w)
          else case k_gethostname K 65 w of
            (Inl e, w) \<Rightarrow> ((Inl e, n0, None), w)
          | (Inr buf, w) \<Rightarrow> (give_string (c_string (buf[64 := NUL]) 0) n, w))"

abbreviation UV__PATH_MAX :: nat where "UV__PATH_MAX \<equiv> 4096"

text \<open>\<open>uv_cwd\<close> first tries the buffer of the user, then scratch space to learn the size.\<close>

definition uv_cwd :: "'w os_kernel \<Rightarrow> bool \<Rightarrow> nat option \<Rightarrow> 'w \<Rightarrow> buf_out \<times> 'w" where
  "uv_cwd K buffer n0 w =
     (case n0 of
        None \<Rightarrow> ((Inl UV_EINVAL, n0, None), w)
      | Some n \<Rightarrow>
          if \<not> buffer then ((Inl UV_EINVAL, n0, None), w)
          else
            let fixup = (\<lambda>buf. if length buf > 1 \<and> buf ! (length buf - 1) = CHR ''/'' then butlast buf else buf)
            in case k_getcwd K n w of
                 (Inr buf, w) \<Rightarrow> ((Inr (), Some (length (fixup buf)), Some (fixup buf)), w)
               | (Inl e, w) \<Rightarrow>
                   if e \<noteq> UV_ERANGE then ((Inl e, n0, None), w)
                   else case k_getcwd K (1 + UV__PATH_MAX) w of
                     (Inl e, w) \<Rightarrow> ((Inl e, n0, None), w)
                   | (Inr buf, w) \<Rightarrow> ((Inl UV_ENOBUFS, Some (length (fixup buf) + 1), None), w))"

definition uv_chdir :: "'w os_kernel \<Rightarrow> string \<Rightarrow> ('w, unit) sys" where
  "uv_chdir K dir = k_chdir K dir"

section \<open>The entry of the user\<close>

text \<open>\<open>pwd->username\<close>, \<open>homedir\<close> and \<open>shell\<close> point into one block.\<close>

record uv_passwd =
  pwd_base :: ptr
  pwd_block :: string
  homedir_off :: nat
  shell_off :: nat
  pwd_uid :: nat
  pwd_gid :: nat

text \<open>
  The loop of \<open>uv__getpwuid_r\<close>: on success the block \<open>buf\<close> with the entry is still allocated.
  \<open>bufsize\<close> is a \<open>size_t\<close>, so it is doubled modulo \<open>2 ^ 64\<close>.
\<close>

partial_function (option) getpwuid_loop ::
  "'w os_kernel \<Rightarrow> uv_allocator \<Rightarrow> u64 \<Rightarrow> 'w \<times> memory \<Rightarrow>
    ((uv_errno + (ptr \<times> passwd)) \<times> 'w \<times> memory) option" where
  "getpwuid_loop K A bufsize wm =
     (case wm of (w, m) \<Rightarrow>
      case uv__malloc A (unat bufsize) m of (buf, m) \<Rightarrow>
        if buf = None then Some (Inl UV_ENOMEM, w, m)
        else retry_eintr (k_getpwuid_r K bufsize) w \<bind> (\<lambda>(r, w).
          case r of
            Inr (Some pw) \<Rightarrow> Some (Inr (buf, pw), w, m)
          | Inr None \<Rightarrow> uv__free buf m \<bind> (\<lambda>m. Some (Inl UV_ENOENT, w, m))
          | Inl e \<Rightarrow> uv__free buf m \<bind> (\<lambda>m.
              if e = UV_ERANGE then getpwuid_loop K A (bufsize * 2) (w, m)
              else Some (Inl e, w, m))))"

definition uv__getpwuid_r ::
  "'w os_kernel \<Rightarrow> uv_allocator \<Rightarrow> bool \<Rightarrow> 'w \<times> memory \<Rightarrow>
    ((uv_errno + uv_passwd) \<times> 'w \<times> memory) option" where
  "uv__getpwuid_r K A pwd wm =
     (if \<not> pwd then Some (Inl UV_EINVAL, wm)
      else do {
        (r, w, m) \<leftarrow> getpwuid_loop K A 2000 wm;
        (case r of
           Inl e \<Rightarrow> Some (Inl e, w, m)
         | Inr (buf, pw) \<Rightarrow>
             let name_size = length (pw_name pw) + 1;
                 homedir_size = length (pw_dir pw) + 1;
                 shell_size = length (pw_shell pw) + 1
             in case uv__malloc A (name_size + homedir_size + shell_size) m of
                  (None, m) \<Rightarrow> do { m \<leftarrow> uv__free buf m; Some (Inl UV_ENOMEM, w, m) }
                | (Some a, m) \<Rightarrow> do {
                    let p = \<lparr>pwd_base = Some a,
                             pwd_block = (pw_name pw @ [NUL]) @ (pw_dir pw @ [NUL]) @ (pw_shell pw @ [NUL]),
                             homedir_off = name_size, shell_off = name_size + homedir_size,
                             pwd_uid = pw_uid pw, pwd_gid = pw_gid pw\<rparr>;
                    m \<leftarrow> uv__free buf m;
                    Some (Inr p, w, m) }) })"

definition uv_os_free_passwd :: "uv_passwd \<Rightarrow> memory \<Rightarrow> (uv_passwd \<times> memory) option" where
  "uv_os_free_passwd p m = do {
     m \<leftarrow> uv__free (pwd_base p) m;
     Some (p\<lparr>pwd_base := None\<rparr>, m) }"

definition uv_os_get_passwd ::
  "'w os_kernel \<Rightarrow> uv_allocator \<Rightarrow> bool \<Rightarrow> 'w \<times> memory \<Rightarrow>
    ((uv_errno + uv_passwd) \<times> 'w \<times> memory) option" where
  "uv_os_get_passwd K A pwd wm = uv__getpwuid_r K A pwd wm"

definition uv_os_homedir ::
  "'w os_kernel \<Rightarrow> uv_allocator \<Rightarrow> bool \<Rightarrow> nat option \<Rightarrow> 'w \<times> memory \<Rightarrow>
    (buf_out \<times> 'w \<times> memory) option" where
  "uv_os_homedir K A buffer n0 wm =
     (case uv_os_getenv K (Some ''HOME'') buffer n0 (fst wm) of (r, sz, txt) \<Rightarrow>
        if r \<noteq> Inl UV_ENOENT then Some ((r, sz, txt), wm)
        else do {
          (r, w, m) \<leftarrow> uv__getpwuid_r K A True wm;
          (case r of
             Inl e \<Rightarrow> Some ((Inl e, sz, None), w, m)
           | Inr p \<Rightarrow> do {
               n \<leftarrow> sz;
               let dir = c_string (pwd_block p) (homedir_off p);
               (p, m) \<leftarrow> uv_os_free_passwd p m;
               Some (give_string dir n, w, m) }) })"

section \<open>The environment\<close>

definition uv_os_setenv :: "'w os_kernel \<Rightarrow> string option \<Rightarrow> string option \<Rightarrow> ('w, unit) sys" where
  "uv_os_setenv K name val w =
     (case (name, val) of
        (Some name, Some val) \<Rightarrow> k_setenv K name val w
      | _ \<Rightarrow> (Inl UV_EINVAL, w))"

definition uv_os_unsetenv :: "'w os_kernel \<Rightarrow> string option \<Rightarrow> ('w, unit) sys" where
  "uv_os_unsetenv K name w =
     (case name of
        None \<Rightarrow> (Inl UV_EINVAL, w)
      | Some name \<Rightarrow> k_unsetenv K name w)"

text \<open>
  \<open>uv_os_environ\<close>.  \<open>env\<close> is the content of \<open>environ\<close>.  An item is the block of its name with the
  strings of name and value; \<open>None\<close> is an item that \<open>calloc\<close> has zeroed.
\<close>

type_synonym env_item = "(addr \<times> string \<times> string) option"

text \<open>The loop over \<open>j\<close>: it stops at \<open>fail\<close> (\<open>False\<close>) or after the last string.\<close>

fun environ_loop ::
  "uv_allocator \<Rightarrow> string list \<Rightarrow> env_item list \<Rightarrow> nat \<Rightarrow> memory \<Rightarrow>
    (bool \<times> env_item list \<times> nat \<times> memory) option" where
  "environ_loop A [] items cnt m = Some (True, items, cnt, m)"
| "environ_loop A (e # env) items cnt m =
     (case uv__malloc A (length e + 1) m of
        (None, m) \<Rightarrow> Some (False, items, cnt, m)
      | (Some buf, m) \<Rightarrow>
          if CHR ''='' \<notin> set e then do {
            m \<leftarrow> uv__free (Some buf) m;
            environ_loop A env items cnt m }
          else
            let name = takeWhile (\<lambda>c. c \<noteq> CHR ''='') e
            in if cnt < length items
               then environ_loop A env (items[cnt := Some (buf, name, drop (length name + 1) e)]) (cnt + 1) m
               else None)"

definition item_name :: "env_item \<Rightarrow> ptr" where
  "item_name it = map_option fst it"

text \<open>The loop behind the label \<open>fail\<close>; its index into the items is \<open>cnt\<close>, not \<open>i\<close>.\<close>

fun environ_fail :: "nat \<Rightarrow> env_item list \<Rightarrow> nat \<Rightarrow> memory \<Rightarrow> memory option" where
  "environ_fail 0 items cnt m = Some m"
| "environ_fail (Suc k) items cnt m =
     (if cnt < length items then do {
        m \<leftarrow> uv__free (item_name (items ! cnt)) m;
        environ_fail k items cnt m }
      else None)"

definition uv_os_environ ::
  "uv_allocator \<Rightarrow> string list \<Rightarrow> memory \<Rightarrow>
    ((uv_errno + (addr \<times> (addr \<times> string \<times> string) option list)) \<times> memory) option" where
  "uv_os_environ A env m =
     (case uv__calloc A (length env) 16 m of
        (None, m) \<Rightarrow> Some (Inl UV_ENOMEM, m)
      | (Some a, m) \<Rightarrow> do {
          (ok, items, cnt, m) \<leftarrow> environ_loop A env (replicate (length env) None) 0 m;
          if ok then Some (Inr (a, take cnt items), m)
          else do {
            m \<leftarrow> environ_fail cnt items cnt m;
            m \<leftarrow> uv__free (Some a) m;
            Some (Inl UV_ENOMEM, m) } })"

text \<open>\<open>uv_os_free_environ\<close> of src/uv-common.c.\<close>

fun free_env_names :: "env_item list \<Rightarrow> memory \<Rightarrow> memory option" where
  "free_env_names [] m = Some m"
| "free_env_names (it # its) m = uv__free (item_name it) m \<bind> free_env_names its"

definition uv_os_free_environ :: "ptr \<Rightarrow> env_item list \<Rightarrow> memory \<Rightarrow> memory option" where
  "uv_os_free_environ envitems its m = free_env_names its m \<bind> uv__free envitems"

section \<open>Host, process and time\<close>

definition uv_os_getpriority :: "'w os_kernel \<Rightarrow> int \<Rightarrow> bool \<Rightarrow> ('w, int) sys" where
  "uv_os_getpriority K pid priority w =
     (if \<not> priority then (Inl UV_EINVAL, w) else k_getpriority K pid w)"

abbreviation UV_PRIORITY_LOW :: int where "UV_PRIORITY_LOW \<equiv> 19"
abbreviation UV_PRIORITY_HIGHEST :: int where "UV_PRIORITY_HIGHEST \<equiv> -20"

definition uv_os_setpriority :: "'w os_kernel \<Rightarrow> int \<Rightarrow> int \<Rightarrow> ('w, unit) sys" where
  "uv_os_setpriority K pid priority w =
     (if priority < UV_PRIORITY_HIGHEST \<or> priority > UV_PRIORITY_LOW then (Inl UV_EINVAL, w)
      else k_setpriority K pid priority w)"

text \<open>The fields of \<open>uv_utsname_t\<close> have 256 bytes; the user's buffer is updated field by field.\<close>

definition uts_error :: "uv_errno \<Rightarrow> utsname \<Rightarrow> (uv_errno + unit) \<times> utsname" where
  "uts_error e b =
     (Inl e, b\<lparr>sysname := (sysname b)[0 := NUL], release := (release b)[0 := NUL],
               version := (version b)[0 := NUL], machine := (machine b)[0 := NUL]\<rparr>)"

definition uv_os_uname ::
  "'w os_kernel \<Rightarrow> utsname option \<Rightarrow> 'w \<Rightarrow> ((uv_errno + unit) \<times> utsname option) \<times> 'w" where
  "uv_os_uname K buffer w =
     (case buffer of
        None \<Rightarrow> ((Inl UV_EINVAL, None), w)
      | Some b \<Rightarrow>
          (case k_uname K w of
             (Inl e, w) \<Rightarrow> (apsnd Some (uts_error e b), w)
           | (Inr buf, w) \<Rightarrow>
               (let (r, x) = uv__strscpy (sysname b) (sysname buf) 256; b = b\<lparr>sysname := x\<rparr>
                in if r = Inl UV_E2BIG then (apsnd Some (uts_error UV_E2BIG b), w) else
                let (r, x) = uv__strscpy (release b) (release buf) 256; b = b\<lparr>release := x\<rparr>
                in if r = Inl UV_E2BIG then (apsnd Some (uts_error UV_E2BIG b), w) else
                let (r, x) = uv__strscpy (version b) (version buf) 256; b = b\<lparr>version := x\<rparr>
                in if r = Inl UV_E2BIG then (apsnd Some (uts_error UV_E2BIG b), w) else
                let (r, x) = uv__strscpy (machine b) (machine buf) 256; b = b\<lparr>machine := x\<rparr>
                in if r = Inl UV_E2BIG then (apsnd Some (uts_error UV_E2BIG b), w) else
                ((Inr (), Some b), w))))"

definition uv_gettimeofday :: "'w os_kernel \<Rightarrow> bool \<Rightarrow> ('w, int \<times> int) sys" where
  "uv_gettimeofday K tv w = (if \<not> tv then (Inl UV_EINVAL, w) else k_gettimeofday K w)"

text \<open>\<open>nanosleep\<close> writes the remaining time back when it is interrupted.\<close>

partial_function (option) sleep_loop :: "'w os_kernel \<Rightarrow> nat \<times> nat \<Rightarrow> 'w \<Rightarrow> ((uv_errno + unit) \<times> 'w) option" where
  "sleep_loop K tmo w =
     (case k_nanosleep K tmo w of
        ((rc, tmo), w) \<Rightarrow> if rc = Inl UV_EINTR then sleep_loop K tmo w else Some (rc, w))"

definition uv_sleep :: "'w os_kernel \<Rightarrow> u32 \<Rightarrow> 'w \<Rightarrow> 'w option" where
  "uv_sleep K msec w = do {
     (rc, w) \<leftarrow> sleep_loop K (unat (msec div 1000), unat ((msec mod 1000) * 1000 * 1000)) w;
     uv_assert (rc = Inr ());
     Some w }"

definition uv_available_parallelism :: "'w os_kernel \<Rightarrow> 'w \<Rightarrow> u32 \<times> 'w" where
  "uv_available_parallelism K w =
     (case k_affinity K w of
        (r, w) \<Rightarrow>
          let rc = (case r of Inr n \<Rightarrow> n | Inl _ \<Rightarrow> k_nprocessors K w);
              rc = (if rc < 1 then 1 else rc)
          in (word_of_int rc, w))"

definition uv_translate_sys_error :: "int \<Rightarrow> int" where
  "uv_translate_sys_error sys_errno = (if sys_errno \<le> 0 then sys_errno else - sys_errno)"

section \<open>Searching the path\<close>

definition copy_path :: "string \<Rightarrow> nat \<Rightarrow> buf_out" where
  "copy_path abspath buflen =
     (let buflen = buflen - 1;
          buflen = (if buflen > length abspath then length abspath else buflen)
      in (Inr (), Some buflen, Some (take buflen abspath)))"

partial_function (option) search_loop ::
  "'w os_kernel \<Rightarrow> string \<Rightarrow> nat \<Rightarrow> nat option \<times> string \<times> nat option \<Rightarrow> 'w \<Rightarrow> (buf_out \<times> 'w) option" where
  "search_loop K prog buflen st w =
     (case st of (token, path, itr) \<Rightarrow>
      case token of
        None \<Rightarrow> Some ((Inl UV_EINVAL, Some buflen, None), w)
      | Some t \<Rightarrow>
          let trypath = take (UV__PATH_MAX - 2) (c_string path t @ ''/'' @ prog)
          in case k_realpath K trypath w of
               (Inl e, w) \<Rightarrow> search_loop K prog buflen (uv__strtok path None '':'' itr) w
             | (Inr abspath, w) \<Rightarrow>
                 (case k_access_x K abspath w of
                    (Inr _, w) \<Rightarrow> Some (copy_path abspath buflen, w)
                  | (Inl _, w) \<Rightarrow> search_loop K prog buflen (uv__strtok path None '':'' itr) w))"

definition uv__search_path ::
  "'w os_kernel \<Rightarrow> bool \<Rightarrow> string \<Rightarrow> bool \<Rightarrow> nat option \<Rightarrow> 'w \<Rightarrow> (buf_out \<times> 'w) option" where
  "uv__search_path K strdup_ok prog buf buflen w =
     (case buflen of
        None \<Rightarrow> Some ((Inl UV_EINVAL, buflen, None), w)
      | Some n \<Rightarrow>
          if \<not> buf \<or> n = 0 then Some ((Inl UV_EINVAL, buflen, None), w)
          else if CHR ''/'' \<in> set prog then
            (case k_realpath K prog w of
               (Inl e, w) \<Rightarrow> Some ((Inl e, buflen, None), w)
             | (Inr abspath, w) \<Rightarrow> Some (copy_path abspath n, w))
          else case k_getenv K ''PATH'' w of
            None \<Rightarrow> Some ((Inl UV_EINVAL, buflen, None), w)
          | Some path_env \<Rightarrow>
              if \<not> strdup_ok then Some ((Inl UV_ENOMEM, buflen, None), w)
              else search_loop K prog n (uv__strtok (path_env @ [NUL]) (Some 0) '':'' None) w)"

section \<open>The entry of the user: lemmas\<close>

definition entry_of :: "'w os_kernel \<Rightarrow> passwd \<Rightarrow> bool" where
  "entry_of K pw \<longleftrightarrow> (\<exists>n w. fst (k_getpwuid_r K n w) = Inr (Some pw))"

lemma getpwuid_loop_ends:
  assumes "\<And>n. ends (k_getpwuid_r K n)" "fresh_alloc A" "mem_ok m" "j \<le> 60"
  shows "\<exists>r w' m'. getpwuid_loop K A (2000 * 2 ^ (60 - j)) (w, m) = Some (r, w', m') \<and>
    (case r of Inl _ \<Rightarrow> mem_ok m' \<and> live m' = live m
     | Inr (buf, pw) \<Rightarrow> buf \<noteq> None \<and> gains m buf m' \<and> entry_of K pw)"
  using assms(3,4)
proof (induction j arbitrary: w m)
  case 0
  have "(2000 * 2 ^ 60 :: u64) = 0" by (simp add: word_eq_iff_unsigned)
  then show ?case using 0 by (subst getpwuid_loop.simps) (simp add: uv__malloc_def)
next
  case (Suc j)
  let ?n = "2000 * 2 ^ (60 - Suc j) :: u64"
  obtain buf m1 where m1: "uv__malloc A (unat ?n) m = (buf, m1)" by (cases "uv__malloc A (unat ?n) m")
  note g = malloc_gains [OF assms(2) Suc.prems(1) m1]
  show ?case
  proof (cases buf)
    case None
    then show ?thesis using m1 g by (subst getpwuid_loop.simps) (simp add: gains_def)
  next
    case (Some a)
    obtain n where "intr_at (k_getpwuid_r K ?n) w n" using assms(1) [of ?n] by (auto simp: ends_def)
    then obtain w0 where "retry_eintr (k_getpwuid_r K ?n) w = Some (k_getpwuid_r K ?n w0)"
      using retry_eintr_last [of "k_getpwuid_r K ?n" w n "\<lambda>_. True"] by blast
    then obtain r w1 where r: "retry_eintr (k_getpwuid_r K ?n) w = Some (r, w1)" "fst (k_getpwuid_r K ?n w0) = r"
      by (cases "k_getpwuid_r K ?n w0") auto
    obtain m2 where m2: "uv__free buf m1 = Some m2" "mem_ok m2" "live m2 = live m"
      using free_live [of m1 buf] g by (auto simp: gains_def Some)
    have "60 - j = Suc (60 - Suc j)" using Suc.prems(2) by simp
    then have dbl: "?n * 2 = 2000 * 2 ^ (60 - j)" by simp
    show ?thesis
    proof (cases "r = Inl UV_ERANGE")
      case True
      have st: "getpwuid_loop K A ?n (w, m) = getpwuid_loop K A (2000 * 2 ^ (60 - j)) (w1, m2)"
        unfolding dbl [symmetric] using m1 m2(1) r(1) True Some by (subst getpwuid_loop.simps) simp
      have gm: "gains m2 = gains m" using m2(3) by (simp add: gains_def fun_eq_iff)
      have "j \<le> 60" using Suc.prems(2) by simp
      from Suc.IH [OF m2(2) this, of w1] show ?thesis unfolding st gm m2(3) .
    next
      case False
      have "getpwuid_loop K A ?n (w, m) =
        Some (case r of Inl e \<Rightarrow> (Inl e, w1, m2) | Inr None \<Rightarrow> (Inl UV_ENOENT, w1, m2) | Inr (Some pw) \<Rightarrow> (Inr (buf, pw), w1, m1))"
        using m1 m2(1) r(1) False Some
        by (subst getpwuid_loop.simps) (auto split: sum.split option.split)
      moreover have "entry_of K pw" if "r = Inr (Some pw)" for pw
        using r(2) that by (auto simp: entry_of_def)
      ultimately show ?thesis using m2(2,3) g Some
        by (cases r) (auto split: option.split)
    qed
  qed
qed

text \<open>A C string has no \<open>NUL\<close>.\<close>

definition c_texts :: "'w os_kernel \<Rightarrow> bool" where
  "c_texts K \<longleftrightarrow> (\<forall>n w pw. fst (k_getpwuid_r K n w) = Inr (Some pw) \<longrightarrow>
     NUL \<notin> set (pw_name pw) \<and> NUL \<notin> set (pw_dir pw) \<and> NUL \<notin> set (pw_shell pw))"

text \<open>\<open>p\<close> is a copy of \<open>pw\<close>.\<close>

definition copies :: "uv_passwd \<Rightarrow> passwd \<Rightarrow> bool" where
  "copies p pw \<longleftrightarrow> c_string (pwd_block p) 0 = pw_name pw \<and> c_string (pwd_block p) (homedir_off p) = pw_dir pw \<and>
     c_string (pwd_block p) (shell_off p) = pw_shell pw \<and> pwd_uid p = pw_uid pw \<and> pwd_gid p = pw_gid pw"

lemma c_string_segment: "NUL \<notin> set t \<Longrightarrow> i = length xs \<Longrightarrow> c_string (xs @ t @ NUL # ys) i = t"
proof -
  assume "NUL \<notin> set t" "i = length xs"
  moreover have "takeWhile (\<lambda>c. c \<noteq> NUL) (t @ NUL # ys) = t" if "NUL \<notin> set t"
    using that by (subst takeWhile_append2) auto
  ultimately show ?thesis by (simp add: c_string_def)
qed

lemma getpwuid_r_copies:
  assumes "\<And>n. ends (k_getpwuid_r K n)" "c_texts K" "fresh_alloc A" "mem_ok m"
  shows "\<exists>r w' m'. uv__getpwuid_r K A True (w, m) = Some (r, w', m') \<and>
    (case r of Inl _ \<Rightarrow> mem_ok m' \<and> live m' = live m
     | Inr p \<Rightarrow> pwd_base p \<noteq> None \<and> gains m (pwd_base p) m' \<and> (\<exists>pw. entry_of K pw \<and> copies p pw))"
proof -
  obtain r w1 m1 where l: "getpwuid_loop K A 2000 (w, m) = Some (r, w1, m1)"
    "case r of Inl _ \<Rightarrow> mem_ok m1 \<and> live m1 = live m
     | Inr (buf, pw) \<Rightarrow> buf \<noteq> None \<and> gains m buf m1 \<and> entry_of K pw"
    using getpwuid_loop_ends [OF assms(1,3,4), of 60 w] by auto
  show ?thesis
  proof (cases r)
    case (Inl e)
    then show ?thesis using l by (simp add: uv__getpwuid_r_def)
  next
    case (Inr bp)
    then obtain buf pw where bp: "r = Inr (buf, pw)" by (cases bp) auto
    then have g: "buf \<noteq> None" "gains m buf m1" "entry_of K pw" using l(2) by simp_all
    let ?n = "(length (pw_name pw) + 1) + (length (pw_dir pw) + 1) + (length (pw_shell pw) + 1)"
    obtain q m2 where m2: "uv__malloc A ?n m1 = (q, m2)" by (cases "uv__malloc A ?n m1")
    have g2: "gains m1 q m2" using malloc_gains [OF assms(3) _ m2] g(2) by (simp add: gains_def)
    obtain m3 where m3: "uv__free buf m2 = Some m3" "mem_ok m3" "live m3 = live m2 - set_option buf"
      using free_live [of m2 buf] g(2) g2 by (auto simp: gains_def)
    have lv: "live m3 = live m \<union> set_option q" using m3(3) g(2) g2 by (auto simp: gains_def)
    show ?thesis
    proof (cases q)
      case None
      then show ?thesis using l(1) bp m2 m3 lv by (simp add: uv__getpwuid_r_def Let_def)
    next
      case (Some a)
      define p where "p = \<lparr>pwd_base = Some a,
        pwd_block = (pw_name pw @ [NUL]) @ (pw_dir pw @ [NUL]) @ (pw_shell pw @ [NUL]),
        homedir_off = length (pw_name pw) + 1, shell_off = length (pw_name pw) + 1 + (length (pw_dir pw) + 1),
        pwd_uid = pw_uid pw, pwd_gid = pw_gid pw\<rparr>"
      have "uv__getpwuid_r K A True (w, m) = Some (Inr p, w1, m3)"
        using l(1) bp m2 m3(1) Some by (simp add: uv__getpwuid_r_def Let_def p_def)
      moreover have "copies p pw"
      proof -
        have n: "NUL \<notin> set (pw_name pw)" "NUL \<notin> set (pw_dir pw)" "NUL \<notin> set (pw_shell pw)"
          using g(3) assms(2) by (auto simp: entry_of_def c_texts_def)
        show ?thesis
          using c_string_segment [OF n(1), of 0 "[]" "(pw_dir pw @ [NUL]) @ pw_shell pw @ [NUL]"]
            c_string_segment [OF n(2), of "length (pw_name pw) + 1" "pw_name pw @ [NUL]" "pw_shell pw @ [NUL]"]
            c_string_segment [OF n(3), of "length (pw_name pw) + 1 + (length (pw_dir pw) + 1)"
              "pw_name pw @ NUL # pw_dir pw @ [NUL]" "[]"]
          by (simp add: copies_def p_def)
      qed
      moreover have "gains m (pwd_base p) m3" using lv m3(2) g(2) g2 Some by (auto simp: gains_def p_def)
      ultimately show ?thesis using g(3) by (auto simp: p_def)
    qed
  qed
qed

section \<open>Strings for a buffer of the user: lemmas\<close>

lemma give_string_retry:
  "give_string t n = (Inl UV_ENOBUFS, Some n', None) \<Longrightarrow>
    n' = length t + 1 \<and> n' > n \<and> (\<forall>k \<ge> n'. give_string t k = (Inr (), Some (length t), Some t))"
  by (auto simp: give_string_def split: if_splits)

section \<open>The environment: lemmas\<close>

definition env_split :: "string \<Rightarrow> string \<times> string" where
  "env_split e = (takeWhile (\<lambda>c. c \<noteq> CHR ''='') e, tl (dropWhile (\<lambda>c. c \<noteq> CHR ''='') e))"

definition env_entries :: "string list \<Rightarrow> (string \<times> string) list" where
  "env_entries env = map env_split (filter (\<lambda>e. CHR ''='' \<in> set e) env)"

text \<open>The items \<open>cs\<close> own their names, which have come into being since \<open>m\<close>.\<close>

definition env_owned :: "memory \<Rightarrow> (addr \<times> string \<times> string) list \<Rightarrow> memory \<Rightarrow> bool" where
  "env_owned m cs m' \<longleftrightarrow> mem_ok m' \<and> distinct (map fst cs) \<and> set (map fst cs) \<inter> live m = {} \<and>
     live m' = live m \<union> set (map fst cs)"

lemma environ_loop_result:
  assumes "fresh_alloc A" "env_owned m0 cs m" "length cs + length env \<le> n"
  shows "\<exists>ok ds m'. environ_loop A env (map Some cs @ replicate (n - length cs) None) (length cs) m =
      Some (ok, map Some (cs @ ds) @ replicate (n - length (cs @ ds)) None, length (cs @ ds), m') \<and>
    env_owned m0 (cs @ ds) m' \<and> length (cs @ ds) \<le> length cs + length env \<and>
    (\<not> ok \<longrightarrow> length ds < length env) \<and> (ok \<longrightarrow> map snd ds = env_entries env)"
  using assms(2,3)
proof (induction env arbitrary: cs m)
  case Nil
  then show ?case by (intro exI [of _ True] exI [of _ "[]"] exI [of _ m]) (simp add: env_entries_def)
next
  case (Cons e env)
  obtain p m1 where m1: "uv__malloc A (length e + 1) m = (p, m1)" by (cases "uv__malloc A (length e + 1) m")
  note o = Cons.prems(1) [unfolded env_owned_def]
  have g: "gains m p m1" using malloc_gains [OF assms(1) _ m1] o by simp
  show ?case
  proof (cases p)
    case None
    then have "env_owned m0 cs m1" using o g by (simp add: env_owned_def gains_def)
    then show ?thesis using m1 None
      by (intro exI [of _ False] exI [of _ "[]"] exI [of _ m1]) (simp del: replicate.simps)
  next
    case (Some a)
    show ?thesis
    proof (cases "CHR ''='' \<in> set e")
      case False
      obtain m2 where m2: "uv__free p m1 = Some m2" "mem_ok m2" "live m2 = live m"
        using free_live [of m1 p] g by (auto simp: gains_def Some)
      have ow: "env_owned m0 cs m2" using m2 o by (simp add: env_owned_def)
      have st: "environ_loop A (e # env) its k m = environ_loop A env its k m2" for its k
        using m1 m2(1) False Some by simp
      have "length cs + length env \<le> n" using Cons.prems(2) by simp
      from Cons.IH [OF ow this] False show ?thesis unfolding st
        by (elim exE conjE, intro exI conjI) (assumption | simp add: env_entries_def)+
    next
      case True
      define c where "c = (a, env_split e)"
      define nm where "nm = takeWhile (\<lambda>c. c \<noteq> CHR ''='') e"
      have c: "c = (a, nm, drop (length nm + 1) e)"
        by (simp add: c_def env_split_def nm_def dropWhile_eq_drop drop_Suc tl_drop)
      have ow: "env_owned m0 (cs @ [c]) m1"
        using o g Some by (auto simp: env_owned_def gains_def c_def)
      have k: "n - length cs = Suc (n - length (cs @ [c]))" using Cons.prems(2) by simp
      have "environ_loop A (e # env) (map Some cs @ replicate (n - length cs) None) (length cs) m =
        environ_loop A env (map Some (cs @ [c]) @ replicate (n - length (cs @ [c])) None) (length (cs @ [c])) m1"
        using m1 True Some Cons.prems(2) unfolding k
        by (simp add: list_update_append c nm_def [symmetric] Let_def)
      moreover have "length (cs @ [c]) + length env \<le> n" using Cons.prems(2) by simp
      ultimately obtain ok ds m' where r: "environ_loop A (e # env) (map Some cs @ replicate (n - length cs) None) (length cs) m =
          Some (ok, map Some (cs @ c # ds) @ replicate (n - length (cs @ c # ds)) None, length (cs @ c # ds), m')"
        "env_owned m0 (cs @ c # ds) m'" "length (cs @ c # ds) \<le> length (cs @ [c]) + length env"
        "\<not> ok \<longrightarrow> length ds < length env" "ok \<longrightarrow> map snd ds = env_entries env"
        using Cons.IH [OF ow] by auto
      then show ?thesis
        using True by (intro exI [of _ ok] exI [of _ "c # ds"] exI [of _ m']) (simp add: env_entries_def c_def)
    qed
  qed
qed


text \<open>On failure the name of the item behind the last one, which is zero, is freed.\<close>

lemma environ_fail_frees_nothing:
  "cnt < length items \<Longrightarrow> items ! cnt = None \<Longrightarrow> environ_fail k items cnt m = Some m"
  by (induction k) (simp_all add: item_name_def uv__free_def)

lemma environ_result:
  assumes "fresh_alloc A" "mem_ok m"
  shows "\<exists>r m'. uv_os_environ A env m = Some (r, m') \<and>
    (case r of
       Inl e \<Rightarrow> e = UV_ENOMEM \<and> mem_ok m' \<and> live m \<subseteq> live m'
     | Inr (a, items) \<Rightarrow> (\<exists>cs. items = map Some cs \<and> map snd cs = env_entries env \<and>
         mem_ok m' \<and> distinct (a # map fst cs) \<and> set (a # map fst cs) \<inter> live m = {} \<and>
         live m' = live m \<union> set (a # map fst cs)))"
proof -
  obtain p m1 where m1: "uv__calloc A (length env) 16 m = (p, m1)" by (cases "uv__calloc A (length env) 16 m")
  note g = calloc_gains [OF assms m1]
  show ?thesis
  proof (cases p)
    case None
    then show ?thesis using m1 g by (simp add: uv_os_environ_def gains_def)
  next
    case (Some a)
    have "env_owned m1 [] m1" using g by (simp add: env_owned_def gains_def)
    from environ_loop_result [OF assms(1) this, where n = "length env" and env = env]
    obtain ok ds m2 where l: "environ_loop A env (replicate (length env) None) 0 m1 =
        Some (ok, map Some ds @ replicate (length env - length ds) None, length ds, m2)"
      "env_owned m1 ds m2" "\<not> ok \<longrightarrow> length ds < length env" "ok \<longrightarrow> map snd ds = env_entries env" by auto
    note o = l(2) [unfolded env_owned_def] and lv = g [unfolded gains_def Some, simplified]
    show ?thesis
    proof (cases ok)
      case True
      then show ?thesis using m1 l(1,4) Some o lv
        by (intro exI [of _ "Inr (a, map Some ds)"] exI [of _ m2]) (auto simp: uv_os_environ_def)
    next
      case False
      have "environ_fail (length ds) (map Some ds @ replicate (length env - length ds) None) (length ds) m2 = Some m2"
        using l(3) False by (intro environ_fail_frees_nothing) (simp_all add: nth_append)
      moreover obtain m3 where "uv__free (Some a) m2 = Some m3" "mem_ok m3" "live m3 = live m2 - {a}"
        using free_live [of m2 "Some a"] o lv by auto
      ultimately show ?thesis using m1 l(1) Some o lv False by (auto simp: uv_os_environ_def)
    qed
  qed
qed

lemma free_environ_result:
  assumes "mem_ok m" "distinct (a # map fst cs)" "set (a # map fst cs) \<subseteq> live m"
  shows "\<exists>m'. uv_os_free_environ (Some a) (map Some cs) m = Some m' \<and> mem_ok m' \<and> live m' = live m - set (a # map fst cs)"
proof -
  have "\<exists>m'. free_env_names (map Some cs) m = Some m' \<and> mem_ok m' \<and> live m' = live m - set (map fst cs)"
    using assms
  proof (induction cs arbitrary: m)
    case (Cons c cs)
    obtain m1 where m1: "uv__free (Some (fst c)) m = Some m1" "mem_ok m1" "live m1 = live m - {fst c}"
      using free_live [of m "Some (fst c)"] Cons.prems by auto
    have "set (a # map fst cs) \<subseteq> live m" using Cons.prems(3) by simp
    moreover have "fst c \<notin> set (a # map fst cs)" using Cons.prems(2) by simp
    ultimately have "set (a # map fst cs) \<subseteq> live m1" unfolding m1(3) by blast
    from Cons.IH [OF m1(2) _ this] Cons.prems(2) obtain m' where
      "free_env_names (map Some cs) m1 = Some m'" "mem_ok m'" "live m' = live m1 - set (map fst cs)" by auto
    then show ?case using m1 by (auto simp: item_name_def)
  qed simp
  then obtain m1 where m1: "free_env_names (map Some cs) m = Some m1" "mem_ok m1" "live m1 = live m - set (map fst cs)"
    by blast
  obtain m2 where "uv__free (Some a) m1 = Some m2" "mem_ok m2" "live m2 = live m1 - {a}"
    using free_live [of m1 "Some a"] m1 assms by auto
  then show ?thesis using m1 by (auto simp: uv_os_free_environ_def)
qed


section \<open>Searching the path: lemmas\<close>

lemma strtok_loop_moves:
  assumes "strtok_loop buf sep i = (buf', itr)" "i < length buf" "last buf = NUL"
  shows "length buf' = length buf \<and> last buf' = NUL \<and> (case itr of None \<Rightarrow> True | Some j \<Rightarrow> i < j \<and> j < length buf)"
  using assms
proof (induction buf sep i rule: strtok_loop.induct)
  case (1 buf sep i)
  have n0: "buf \<noteq> []" using "1.prems"(2) by auto
  show ?case
  proof (cases "buf ! i = NUL")
    case True
    then show ?thesis using "1.prems" by (simp add: strtok_loop.simps [of buf sep i])
  next
    case False
    then have i: "i < length buf - 1" using "1.prems"(2,3) n0 by (cases "i = length buf - 1") (auto simp: last_conv_nth)
    show ?thesis
    proof (cases "at_separator (buf ! i) sep")
      case True
      then show ?thesis using "1.prems" False i n0
        by (auto simp: strtok_loop.simps [of buf sep i] last_conv_nth nth_list_update)
    next
      case sep: False
      have "strtok_loop buf sep (i + 1) = (buf', itr)"
        using "1.prems"(1,2) False sep by (simp add: strtok_loop.simps [of buf sep i])
      moreover have "i + 1 < length buf" "\<not> (length buf \<le> i \<or> buf ! i = NUL)" using i False by simp_all
      ultimately show ?thesis using "1.IH" [OF _ sep] "1.prems"(3) by (auto split: option.splits)
    qed
  qed
qed

lemma search_loop_ends:
  assumes "n > 0" "token = None \<or> (last path = NUL \<and> path \<noteq> [] \<and> (case itr of None \<Rightarrow> True | Some i \<Rightarrow> i < length path))"
  shows "\<exists>r w'. search_loop K prog n (token, path, itr) w = Some (r, w') \<and>
    (r = (Inl UV_EINVAL, Some n, None) \<or> (\<exists>abspath. r = copy_path abspath n))"
  using assms(2)
proof (induction "case token of None \<Rightarrow> 0 | Some _ \<Rightarrow> (case itr of None \<Rightarrow> 1 | Some i \<Rightarrow> length path - i + 1)"
    arbitrary: token path itr w rule: less_induct)
  case less
  show ?case
  proof (cases token)
    case None
    then show ?thesis by (subst search_loop.simps) simp
  next
    case (Some t)
    obtain tk path' itr' where st: "uv__strtok path None '':'' itr = (tk, path', itr')" by (cases "uv__strtok path None '':'' itr") auto
    have p: "last path = NUL" "path \<noteq> []" "\<And>i. itr = Some i \<Longrightarrow> i < length path" using less.prems Some by auto
    have next_ok: "\<exists>r w'. search_loop K prog n (tk, path', itr') v = Some (r, w') \<and>
      (r = (Inl UV_EINVAL, Some n, None) \<or> (\<exists>abspath. r = copy_path abspath n))" for v
    proof (cases itr)
      case None
      then have "tk = None" using st by (simp add: uv__strtok_def)
      then show ?thesis using Some None by (intro less.hyps) auto
    next
      case (Some i)
      then have l: "strtok_loop path '':'' i = (path', itr')" "tk = Some i"
        using st by (auto simp: uv__strtok_def split: prod.splits)
      note m = strtok_loop_moves [OF l(1) p(3) [OF Some] p(1)]
      have "path' \<noteq> []" using m p(2) by auto
      then show ?thesis using m p(3) [OF Some] l(2) \<open>token = Some t\<close> Some
        by (intro less.hyps) (auto split: option.splits)
    qed
    obtain a1 w1 where r: "k_realpath K (take (UV__PATH_MAX - 2) (c_string path t @ ''/'' @ prog)) w = (a1, w1)"
      by (cases "k_realpath K (take (UV__PATH_MAX - 2) (c_string path t @ ''/'' @ prog)) w")
    show ?thesis
    proof (cases a1)
      case (Inl e)
      then show ?thesis using next_ok [of w1] r st Some by (subst search_loop.simps) simp
    next
      case (Inr ap)
      obtain a2 w2 where "k_access_x K ap w1 = (a2, w2)" by (cases "k_access_x K ap w1")
      then show ?thesis using next_ok [of w2] r st Some Inr
        by (cases a2; subst search_loop.simps) auto
    qed
  qed
qed

definition path_result :: "nat option \<Rightarrow> buf_out \<Rightarrow> bool" where
  "path_result buflen r \<longleftrightarrow>
    (case r of
       (Inl e, len, txt) \<Rightarrow> len = buflen \<and> txt = None
     | (Inr _, len, txt) \<Rightarrow> \<exists>n abspath. buflen = Some n \<and> n > 0 \<and> len = Some (length (the txt)) \<and> txt = Some (take (n - 1) abspath))"

lemma search_path_returns:
  "\<exists>r w'. uv__search_path K dup prog buf buflen w = Some (r, w') \<and> path_result buflen r"
proof -
  have c: "path_result (Some n) (copy_path abspath n)" if "n > 0" for abspath n
    using that by (auto simp: path_result_def copy_path_def Let_def intro!: exI [of _ abspath])
  have e: "path_result l (Inl e, l, None)" for l e by (simp add: path_result_def)
  have lp: "\<exists>r w'. search_loop K prog n (uv__strtok (pe @ [NUL]) (Some 0) '':'' None) v = Some (r, w') \<and>
    (r = (Inl UV_EINVAL, Some n, None) \<or> (\<exists>abspath. r = copy_path abspath n))" if n: "n > 0" for n pe v
  proof -
    obtain b i where bi: "strtok_loop (pe @ [NUL]) '':'' 0 = (b, i)" by (cases "strtok_loop (pe @ [NUL]) '':'' 0")
    from strtok_loop_moves [OF this] have "length b = length pe + 1" "last b = NUL"
      "case i of None \<Rightarrow> True | Some j \<Rightarrow> j < length b" by (auto split: option.splits)
    moreover from this have "b \<noteq> []" by auto
    ultimately show ?thesis using bi search_loop_ends [OF n, of "Some 0" b i K prog v] by (simp add: uv__strtok_def)
  qed
  show ?thesis
  proof (cases "\<exists>n. buflen = Some n \<and> n > 0 \<and> buf")
    case False
    then show ?thesis using e by (auto simp: uv__search_path_def split: option.split)
  next
    case True
    then obtain n where n: "buflen = Some n" "n > 0" buf by blast
    consider "CHR ''/'' \<in> set prog" | "CHR ''/'' \<notin> set prog" "k_getenv K ''PATH'' w = None \<or> \<not> dup"
      | pe where "CHR ''/'' \<notin> set prog" "k_getenv K ''PATH'' w = Some pe" dup
      by (cases "k_getenv K ''PATH'' w"; cases "CHR ''/'' \<in> set prog"; cases dup) simp_all
    then show ?thesis
    proof cases
      case 1
      show ?thesis
      proof (cases "k_realpath K prog w")
        case (Pair a w1)
        then show ?thesis using n 1 c [OF n(2)] e by (cases a) (simp_all add: uv__search_path_def)
      qed
    next
      case 2
      then show ?thesis using n e by (cases "k_getenv K ''PATH'' w") (auto simp: uv__search_path_def)
    next
      case 3
      obtain r w' where r: "search_loop K prog n (uv__strtok (pe @ [NUL]) (Some 0) '':'' None) w = Some (r, w')"
        "r = (Inl UV_EINVAL, Some n, None) \<or> (\<exists>abspath. r = copy_path abspath n)"
        using lp [OF n(2)] by blast
      have "uv__search_path K dup prog buf buflen w = Some (r, w')"
        using 3 n r(1) by (simp add: uv__search_path_def)
      then show ?thesis using r(2) c [OF n(2)] e n by auto
    qed
  qed
qed


section \<open>Properties\<close>

text \<open>
  The size that \<open>uv_os_getenv\<close>, \<open>uv_os_tmpdir\<close> and \<open>uv_os_gethostname\<close> report with \<open>UV_ENOBUFS\<close>
  is larger than the size given, and a second call with a buffer of at least that size, the environment
  and the name of the host being the same, succeeds and writes a string that fits with its terminator.
\<close>

theorem reported_size_suffices:
  "(uv_os_getenv K name b n w = (Inl UV_ENOBUFS, Some n', t) \<longrightarrow> n' \<le> k \<longrightarrow> n \<noteq> Some 0 \<and> the n < n' \<and>
      (\<exists>s. uv_os_getenv K name b (Some k) w = (Inr (), Some (length s), Some s) \<and> length s + 1 = n')) \<and>
    (uv_os_tmpdir K b n w = (Inl UV_ENOBUFS, Some n', t) \<longrightarrow> n' \<le> k \<longrightarrow> the n < n' \<and>
      (\<exists>s. uv_os_tmpdir K b (Some k) w = (Inr (), Some (length s), Some s) \<and> length s < n')) \<and>
    (fst (uv_os_gethostname K b n w) = (Inl UV_ENOBUFS, Some n', t) \<longrightarrow> fst (k_gethostname K 65 w') = fst (k_gethostname K 65 w) \<longrightarrow>
      fst (k_gethostname K 65 w) \<noteq> Inl UV_ENOBUFS \<longrightarrow> n' \<le> k \<longrightarrow> the n < n' \<and>
      (\<exists>s. fst (uv_os_gethostname K b (Some k) w') = (Inr (), Some (length s), Some s) \<and> length s + 1 = n'))"
proof (intro conjI impI)
  assume a: "uv_os_getenv K name b n w = (Inl UV_ENOBUFS, Some n', t)" "n' \<le> k"
  then obtain nm m v where "name = Some nm" "n = Some m" "b" "m \<noteq> 0" "k_getenv K nm w = Some v" "give_string v m = (Inl UV_ENOBUFS, Some n', t)"
    by (auto simp: uv_os_getenv_def split: option.splits if_splits)
  then show "n \<noteq> Some 0" "the n < n'"
    "\<exists>s. uv_os_getenv K name b (Some k) w = (Inr (), Some (length s), Some s) \<and> length s + 1 = n'"
    using a(2) by (auto simp: uv_os_getenv_def give_string_def split: if_splits)
next
  assume a: "uv_os_tmpdir K b n w = (Inl UV_ENOBUFS, Some n', t)" "n' \<le> k"
  then show "the n < n'" "\<exists>s. uv_os_tmpdir K b (Some k) w = (Inr (), Some (length s), Some s) \<and> length s < n'"
    by (auto simp: uv_os_tmpdir_def Let_def split: option.splits if_splits)
next
  assume a: "fst (uv_os_gethostname K b n w) = (Inl UV_ENOBUFS, Some n', t)"
    "fst (k_gethostname K 65 w') = fst (k_gethostname K 65 w)" "fst (k_gethostname K 65 w) \<noteq> Inl UV_ENOBUFS" "n' \<le> k"
  obtain r v r' v' where k: "k_gethostname K 65 w = (r, v)" "k_gethostname K 65 w' = (r', v')" by fastforce
  then have "r' = r" using a(2) by simp
  then show "the n < n'"
    "\<exists>s. fst (uv_os_gethostname K b (Some k) w') = (Inr (), Some (length s), Some s) \<and> length s + 1 = n'"
    using a k by (auto simp: uv_os_gethostname_def give_string_def split: option.splits if_splits sum.splits)
qed

definition demo_os :: "unit os_kernel" where
  "demo_os = \<lparr>k_getcwd = (\<lambda>n w. (Inr ''/'', w)), k_chdir = (\<lambda>p w. (Inr (), w)),
     k_getenv = (\<lambda>n w. if n = ''PATH'' then Some ''/bin'' else None),
     k_setenv = (\<lambda>n v w. (Inr (), w)), k_unsetenv = (\<lambda>n w. (Inr (), w)), k_gethostname = (\<lambda>n w. (Inr ''box'', w)),
     k_getpriority = (\<lambda>p w. (Inr 0, w)), k_setpriority = (\<lambda>p q w. (Inr (), w)), k_uname = (\<lambda>w. (Inl UV_EINVAL, w)),
     k_gettimeofday = (\<lambda>w. (Inr (0, 0), w)), k_nanosleep = (\<lambda>t w. ((Inr (), t), w)),
     k_realpath = (\<lambda>p w. (Inr p, w)), k_access_x = (\<lambda>p w. (Inr (), w)),
     k_getpwuid_r = (\<lambda>n w. if n < 3000 then (Inl UV_ERANGE, w)
        else (Inr (Some \<lparr>pw_name = ''u'', pw_dir = ''/u'', pw_shell = ''sh'', pw_uid = 1, pw_gid = 2\<rparr>), w)),
     k_affinity = (\<lambda>w. (Inr 4, w)), k_nprocessors = (\<lambda>w. 4)\<rparr>"

theorem reported_size_suffices_witness:
  "\<exists>s. uv_os_getenv demo_os (Some ''PATH'') True (Some 5) () = (Inr (), Some (length s), Some s) \<and> length s + 1 = 5"
proof -
  have "uv_os_getenv demo_os (Some ''PATH'') True (Some 2) () = (Inl UV_ENOBUFS, Some 5, None)"
    by (simp add: uv_os_getenv_def demo_os_def give_string_def)
  with conjunct1 [OF reported_size_suffices [of demo_os "Some ''PATH''" True "Some 2" "()" 5 None 5]] show ?thesis
    by blast
qed

text \<open>
  \<open>uv__getpwuid_r\<close> returns although its buffer is doubled for as long as \<open>getpwuid_r\<close> asks for more
  (the size wraps to zero after 60 doublings, and an allocation of no bytes fails), when no call is
  interrupted for ever.  On an error every block it allocated is freed again; on success exactly one
  new block is live, it belongs to the result, and the name, the home directory and the shell in it are
  those of an entry that the system gave.
\<close>

theorem passwd_copied_or_nothing:
  assumes "\<And>n. ends (k_getpwuid_r K n)" and "c_texts K" and "fresh_alloc A" and "mem_ok m"
  shows "\<exists>r w' m'. uv__getpwuid_r K A True (w, m) = Some (r, w', m') \<and>
    (case r of Inl _ \<Rightarrow> live m' = live m
     | Inr p \<Rightarrow> pwd_base p \<noteq> None \<and> set_option (pwd_base p) \<inter> live m = {} \<and>
         live m' = live m \<union> set_option (pwd_base p) \<and> (\<exists>pw. entry_of K pw \<and> copies p pw))"
proof -
  obtain r w' m' where "uv__getpwuid_r K A True (w, m) = Some (r, w', m')"
    "case r of Inl _ \<Rightarrow> mem_ok m' \<and> live m' = live m
     | Inr p \<Rightarrow> pwd_base p \<noteq> None \<and> gains m (pwd_base p) m' \<and> (\<exists>pw. entry_of K pw \<and> copies p pw)"
    using getpwuid_r_copies [OF assms, of w] by blast
  then show ?thesis by (cases r) (auto simp: gains_def)
qed

theorem passwd_copied_or_nothing_witness:
  "\<exists>r w' m'. uv__getpwuid_r demo_os demo_alloc True ((), \<lparr>allocated = [], released = []\<rparr>) = Some (r, w', m') \<and>
    (case r of Inl _ \<Rightarrow> live m' = {} | Inr p \<Rightarrow> live m' = set_option (pwd_base p))"
proof -
  have e: "ends (k_getpwuid_r demo_os n)" for n
    unfolding ends_def by (intro allI exI [of _ 0]) (simp add: demo_os_def)
  have c: "c_texts demo_os" by (simp add: c_texts_def demo_os_def)
  obtain r w' m' where "uv__getpwuid_r demo_os demo_alloc True ((), \<lparr>allocated = [], released = []\<rparr>) = Some (r, w', m')"
    "case r of Inl _ \<Rightarrow> live m' = live \<lparr>allocated = [], released = []\<rparr>
     | Inr p \<Rightarrow> pwd_base p \<noteq> None \<and> set_option (pwd_base p) \<inter> live \<lparr>allocated = [], released = []\<rparr> = {} \<and>
         live m' = live \<lparr>allocated = [], released = []\<rparr> \<union> set_option (pwd_base p) \<and> (\<exists>pw. entry_of demo_os pw \<and> copies p pw)"
    using passwd_copied_or_nothing [OF e c demo_alloc_fresh, of "\<lparr>allocated = [], released = []\<rparr>" "()"]
    by (auto simp: mem_ok_def)
  then show ?thesis by (cases r) (simp_all add: live_def)
qed

text \<open>
  \<open>uv_os_environ\<close> never crashes.  On success its items are the strings of the environment that have
  an equals sign, in order, each split at the first one; the items and their names are new blocks, and
  \<open>uv_os_free_environ\<close> frees exactly these.  On an error the result is \<open>UV_ENOMEM\<close>, and no block of the
  caller has been freed.
\<close>

theorem environ_splits_and_frees:
  assumes "fresh_alloc A" and "mem_ok m"
  shows "\<exists>r m'. uv_os_environ A env m = Some (r, m') \<and>
    (case r of
       Inl e \<Rightarrow> e = UV_ENOMEM \<and> live m \<subseteq> live m'
     | Inr (a, items) \<Rightarrow> map (map_option snd) items = map Some (env_entries env) \<and>
         (\<exists>m''. uv_os_free_environ (Some a) items m' = Some m'' \<and> live m'' = live m))"
proof -
  obtain r m' where r: "uv_os_environ A env m = Some (r, m')"
    "case r of
       Inl e \<Rightarrow> e = UV_ENOMEM \<and> mem_ok m' \<and> live m \<subseteq> live m'
     | Inr (a, items) \<Rightarrow> (\<exists>cs. items = map Some cs \<and> map snd cs = env_entries env \<and>
         mem_ok m' \<and> distinct (a # map fst cs) \<and> set (a # map fst cs) \<inter> live m = {} \<and>
         live m' = live m \<union> set (a # map fst cs))"
    using environ_result [OF assms, of env] by blast
  show ?thesis
  proof (cases r)
    case (Inr ai)
    then obtain a cs where c: "r = Inr (a, map Some cs)" "map snd cs = env_entries env" "mem_ok m'"
      "distinct (a # map fst cs)" "set (a # map fst cs) \<inter> live m = {}" "live m' = live m \<union> set (a # map fst cs)"
      using r(2) by (cases ai) auto
    have "set (a # map fst cs) \<subseteq> live m'" using c(6) by blast
    then obtain m'' where m'': "uv_os_free_environ (Some a) (map Some cs) m' = Some m''" "live m'' = live m' - set (a # map fst cs)"
      using free_environ_result [OF c(3,4)] by blast
    have "live m'' = live m" unfolding m''(2) c(6) using c(5) by blast
    moreover have "map (map_option snd) (map Some cs) = map Some (env_entries env)"
      unfolding c(2) [symmetric] by simp
    ultimately show ?thesis using r(1) c(1) m''(1) by auto
  qed (use r in auto)
qed

theorem environ_splits_and_frees_witness:
  "\<exists>r m'. uv_os_environ demo_alloc [''A=1'', ''B'', ''C=x=y''] \<lparr>allocated = [], released = []\<rparr> = Some (r, m') \<and>
    (case r of Inl e \<Rightarrow> e = UV_ENOMEM
     | Inr (a, items) \<Rightarrow> map (map_option snd) items = [Some (''A'', ''1''), Some (''C'', ''x=y'')])"
proof -
  have "mem_ok \<lparr>allocated = [], released = []\<rparr>" by (simp add: mem_ok_def)
  from environ_splits_and_frees [OF demo_alloc_fresh this, of "[''A=1'', ''B'', ''C=x=y'']"]
  obtain r m' where r: "uv_os_environ demo_alloc [''A=1'', ''B'', ''C=x=y''] \<lparr>allocated = [], released = []\<rparr> = Some (r, m')"
    "case r of Inl e \<Rightarrow> e = UV_ENOMEM \<and> live \<lparr>allocated = [], released = []\<rparr> \<subseteq> live m'
     | Inr (a, items) \<Rightarrow> map (map_option snd) items = map Some (env_entries [''A=1'', ''B'', ''C=x=y'']) \<and>
         (\<exists>m''. uv_os_free_environ (Some a) items m' = Some m'' \<and> live m'' = live \<lparr>allocated = [], released = []\<rparr>)"
    by blast
  then show ?thesis by (cases r) (auto simp: env_entries_def env_split_def)
qed

text \<open>When the second name cannot be copied, the first one is never freed.\<close>

definition two_blocks :: uv_allocator where
  "two_blocks = \<lparr>local_malloc = (\<lambda>as n. if length as < 2 then Some (length as) else None),
     local_realloc = (\<lambda>as a n. None), local_calloc = (\<lambda>as k n. Some 0)\<rparr>"

lemma environ_leaks_on_error:
  "uv_os_environ two_blocks [''A=1'', ''B=2''] \<lparr>allocated = [], released = []\<rparr> =
    Some (Inl UV_ENOMEM, \<lparr>allocated = [1, 0], released = [0]\<rparr>)"
  by (simp add: uv_os_environ_def two_blocks_def uv__calloc_def uv__malloc_def hand_out_def item_name_def uv__free_def
      live_def numeral_2_eq_2)

text \<open>
  \<open>uv__search_path\<close> returns for every \<open>PATH\<close> and every file system.  When it succeeds it has written
  a prefix of a resolved path, with its terminator inside the \<open>n\<close> bytes of the buffer, and reports its
  length; on an error it has written nothing and left the size alone.
\<close>

theorem search_path_stays_in_buffer:
  "\<exists>r w'. uv__search_path K dup prog buf buflen w = Some (r, w') \<and>
    (case r of
       (Inl e, len, txt) \<Rightarrow> len = buflen \<and> txt = None
     | (Inr _, len, txt) \<Rightarrow> \<exists>n abspath. buflen = Some n \<and> len = Some (length (the txt)) \<and>
         txt = Some (take (n - 1) abspath) \<and> length (the txt) + 1 \<le> n)"
proof -
  obtain r w' where "uv__search_path K dup prog buf buflen w = Some (r, w')" "path_result buflen r"
    using search_path_returns [of K dup prog buf buflen w] by blast
  then show ?thesis by (intro exI [of _ r] exI [of _ w']) (auto simp: path_result_def split: sum.splits prod.splits)
qed

end
