(* ===== verification/Streams.thy ===== *)
theory Streams
  imports Core
begin

text \<open>
  src/unix/stream.c: what pipes, terminals and TCP connections share, in the Linux build (the parts
  for macOS and other systems are left out, as the preprocessor does).  The loop of the components
  below is extended by the fields of \<open>uv_stream_t\<close>, \<open>uv_write_t\<close> and the other requests; the I/O
  watcher of a stream is identified with the stream.  The queues of a stream are the lists of their
  requests: QUEUE_INSERT_TAIL appends, QUEUE_REMOVE takes out, QUEUE_MOVE takes all (theory Queue).
  A buffer is the data that is still to be written from it, so moving its base drops bytes.  Memory of
  the requests is present or \<open>NULL\<close>.  Callbacks of the user are the fields of \<open>stream_calls\<close>; they get
  and return the state.
\<close>

section \<open>State\<close>

text \<open>The status of a request: \<open>None\<close> is 0.\<close>

type_synonym status = "uv_errno option"

record 'w stream_loop = "'w core_loop" +
  emfile_fd :: int
  no_cmsg_cloexec :: bool
  read_cb :: "addr \<Rightarrow> nat option"
  alloc_cb :: "addr \<Rightarrow> nat option"
  connection_cb :: "addr \<Rightarrow> nat option"
  connect_req :: "addr \<Rightarrow> ptr"
  shutdown_req :: "addr \<Rightarrow> ptr"
  accepted_fd :: "addr \<Rightarrow> int"
  queued_fds :: "addr \<Rightarrow> (u32 \<times> int list) option"
  delayed_error :: "addr \<Rightarrow> status"
  write_queue :: "addr \<Rightarrow> addr list"
  write_completed_queue :: "addr \<Rightarrow> addr list"
  write_queue_size :: "addr \<Rightarrow> u64"
  pipe_ipc :: "addr \<Rightarrow> bool"
  req_handle :: "addr \<Rightarrow> addr"
  req_cb :: "addr \<Rightarrow> nat option"
  w_bufs :: "addr \<Rightarrow> string list option"
  w_index :: "addr \<Rightarrow> nat"
  w_error :: "addr \<Rightarrow> status"
  w_send_handle :: "addr \<Rightarrow> ptr"

datatype sockopt = TCP_NODELAY bool | SO_KEEPALIVE bool | TCP_KEEPIDLE u32 | TCP_KEEPINTVL u32 | TCP_KEEPCNT u32
  | SO_REUSEADDR bool | IPV6_V6ONLY bool | SO_LINGER_ZERO

datatype sa_family = AF_UNSPEC | AF_INET | AF_INET6 | AF_UNIX | AF_OTHER nat

record sockaddr =
  sa_family :: sa_family
  sin_port :: u16
  sa_data :: string

record 'w stream_kernel = "'w io_kernel" +
  k_writev :: "int \<Rightarrow> string list \<Rightarrow> ('w, nat) sys"
  k_sendmsg :: "int \<Rightarrow> string list \<Rightarrow> int \<Rightarrow> ('w, nat) sys"
  k_shutdown :: "int \<Rightarrow> ('w, unit) sys"
  k_so_error :: "int \<Rightarrow> 'w \<Rightarrow> status \<times> 'w"
  k_setsockopt :: "int \<Rightarrow> sockopt \<Rightarrow> ('w, unit) sys"
  k_malloc :: "nat \<Rightarrow> 'w \<Rightarrow> bool \<times> 'w"
  k_pause :: "'w \<Rightarrow> 'w"
  k_getsockname :: "int \<Rightarrow> ('w, sockaddr) sys"
  k_bind :: "int \<Rightarrow> sockaddr \<Rightarrow> ('w, unit) sys"
  k_connect :: "int \<Rightarrow> sockaddr \<Rightarrow> ('w, unit) sys"
  k_listen :: "int \<Rightarrow> int \<Rightarrow> ('w, unit) sys"

text \<open>\<open>call_alloc\<close> answers with the length of the buffer, \<open>None\<close> when its base is \<open>NULL\<close>.\<close>

record 's stream_calls =
  call_alloc :: "nat \<Rightarrow> addr \<Rightarrow> 's \<Rightarrow> (nat option \<times> 's) option"
  call_read :: "nat \<Rightarrow> addr \<Rightarrow> uv_errno + string \<Rightarrow> 's \<Rightarrow> 's option"
  call_connection :: "nat \<Rightarrow> addr \<Rightarrow> status \<Rightarrow> 's \<Rightarrow> 's option"
  call_req :: "nat \<Rightarrow> addr \<Rightarrow> status \<Rightarrow> 's \<Rightarrow> 's option"
  udp_open :: "addr \<Rightarrow> int \<Rightarrow> 's \<Rightarrow> ((uv_errno + unit) \<times> 's) option"

abbreviation fdK :: "'w stream_kernel \<Rightarrow> 'w fd_kernel" where "fdK K \<equiv> fd_kernel.truncate K"
abbreviation ioK :: "'w stream_kernel \<Rightarrow> 'w io_kernel" where "ioK K \<equiv> io_kernel.truncate K"
abbreviation UV_HANDLE_TCP_SINGLE_ACCEPT :: u32 where "UV_HANDLE_TCP_SINGLE_ACCEPT \<equiv> 0x04000000"
abbreviation IOV_MAX :: nat where "IOV_MAX \<equiv> 1024"

definition uv__stream_fd :: "('w, 'a) io_loop_scheme \<Rightarrow> addr \<Rightarrow> int" where
  "uv__stream_fd s h = io_fd s h"

definition uv__getiovmax :: nat where
  "uv__getiovmax = IOV_MAX"

section \<open>Opening\<close>

definition uv__stream_init ::
  "'w stream_kernel \<Rightarrow> addr \<Rightarrow> uv_handle_type \<Rightarrow> ('w, 'a) stream_loop_scheme \<Rightarrow> ('w, 'a) stream_loop_scheme option" where
  "uv__stream_init K h ty s =
     (let s = uv__handle_init h ty s;
          s = s\<lparr>read_cb := (read_cb s)(h := None), alloc_cb := (alloc_cb s)(h := None),
                close_cb := (close_cb s)(h := None), connection_cb := (connection_cb s)(h := None),
                connect_req := (connect_req s)(h := None), shutdown_req := (shutdown_req s)(h := None),
                accepted_fd := (accepted_fd s)(h := -1), queued_fds := (queued_fds s)(h := None),
                delayed_error := (delayed_error s)(h := None),
                write_queue := (write_queue s)(h := []),
                write_completed_queue := (write_completed_queue s)(h := []),
                write_queue_size := (write_queue_size s)(h := 0)\<rparr>;
          s = (if emfile_fd s = -1 then
                 let (err, s) = sys (uv__open_cloexec (fdK K) ''/dev/null'' O_RDONLY) s;
                     (err, s) = (case err of Inl _ \<Rightarrow> sys (uv__open_cloexec (fdK K) ''/'' O_RDONLY) s | Inr _ \<Rightarrow> (err, s))
                 in (case err of Inr fd \<Rightarrow> s\<lparr>emfile_fd := fd\<rparr> | Inl _ \<Rightarrow> s)
               else s)
      in uv__io_init h UV__STREAM_IO (-1) s)"

definition uv__tcp_nodelay :: "'w stream_kernel \<Rightarrow> int \<Rightarrow> bool \<Rightarrow> ('w, unit) sys" where
  "uv__tcp_nodelay K fd on = k_setsockopt K fd (TCP_NODELAY on)"

definition uv__tcp_keepalive :: "'w stream_kernel \<Rightarrow> int \<Rightarrow> bool \<Rightarrow> u32 \<Rightarrow> ('w, unit) sys" where
  "uv__tcp_keepalive K fd on delay w =
     (case k_setsockopt K fd (SO_KEEPALIVE on) w of
        (Inl e, w) \<Rightarrow> (Inl e, w)
      | (Inr _, w) \<Rightarrow>
          if \<not> on then (Inr (), w)
          else case k_setsockopt K fd (TCP_KEEPIDLE delay) w of
            (Inl e, w) \<Rightarrow> (Inl e, w)
          | (Inr _, w) \<Rightarrow>
              case k_setsockopt K fd (TCP_KEEPINTVL 1) w of
                (Inl e, w) \<Rightarrow> (Inl e, w)
              | (Inr _, w) \<Rightarrow> k_setsockopt K fd (TCP_KEEPCNT 10) w)"

definition uv__stream_open ::
  "'w stream_kernel \<Rightarrow> addr \<Rightarrow> int \<Rightarrow> u32 \<Rightarrow> ('w, 'a) stream_loop_scheme \<Rightarrow>
    ((uv_errno + unit) \<times> ('w, 'a) stream_loop_scheme) option" where
  "uv__stream_open K h fd fl s =
     (if \<not> (io_fd s h = -1 \<or> io_fd s h = fd) then Some (Inl UV_EBUSY, s)
      else do {
        uv_assert (fd \<ge> 0);
        let s = set_flag h fl s;
        let (r, s) =
          (if htype s h = UV_TCP then
             let (r, s) = (if has_flag s h UV_HANDLE_TCP_NODELAY then sys (uv__tcp_nodelay K fd True) s else (Inr (), s))
             in (case r of
                   Inl e \<Rightarrow> (Inl e, s)
                 | Inr _ \<Rightarrow> if has_flag s h UV_HANDLE_TCP_KEEPALIVE then sys (uv__tcp_keepalive K fd True 60) s else (Inr (), s))
           else (Inr (), s));
        (case r of
           Inl e \<Rightarrow> Some (Inl e, s)
         | Inr _ \<Rightarrow> Some (Inr (), s\<lparr>io_fd := (io_fd s)(h := fd)\<rparr>)) })"

section \<open>Requests that are over\<close>

definition uv__count_bufs :: "string list \<Rightarrow> u64" where
  "uv__count_bufs bufs = foldl (\<lambda>bytes b. bytes + of_nat (length b)) 0 bufs"

text \<open>\<open>uv__stream_flush_write_queue\<close>; the list is the queue that is being emptied.\<close>

fun flush_loop :: "addr \<Rightarrow> status \<Rightarrow> addr list \<Rightarrow> ('w, 'a) stream_loop_scheme \<Rightarrow> ('w, 'a) stream_loop_scheme" where
  "flush_loop h err [] s = s"
| "flush_loop h err (req # rest) s =
     flush_loop h err rest
       (s\<lparr>write_queue := (write_queue s)(h := rest), w_error := (w_error s)(req := err),
          write_completed_queue := (write_completed_queue s)(h := write_completed_queue s h @ [req])\<rparr>)"

definition uv__stream_flush_write_queue ::
  "addr \<Rightarrow> status \<Rightarrow> ('w, 'a) stream_loop_scheme \<Rightarrow> ('w, 'a) stream_loop_scheme" where
  "uv__stream_flush_write_queue h err s = flush_loop h err (write_queue s h) s"

definition uv__write_req_size :: "('w, 'a) stream_loop_scheme \<Rightarrow> addr \<Rightarrow> u64 option" where
  "uv__write_req_size s req = do {
     bufs \<leftarrow> w_bufs s req;
     let sz = uv__count_bufs (drop (w_index s req) bufs);
     uv_assert (write_queue_size s (req_handle s req) \<ge> sz);
     Some sz }"

text \<open>\<open>uv__write_callbacks\<close>; the list is the queue \<open>pq\<close> on the stack.\<close>

fun write_callbacks_loop ::
  "('w, 'a) stream_loop_scheme stream_calls \<Rightarrow> addr \<Rightarrow> addr list \<Rightarrow> ('w, 'a) stream_loop_scheme \<Rightarrow>
    ('w, 'a) stream_loop_scheme option" where
  "write_callbacks_loop U h [] s = Some s"
| "write_callbacks_loop U h (req # pq) s = do {
     s \<leftarrow> uv__req_unregister s;
     s \<leftarrow> (if w_bufs s req \<noteq> None then do {
             sz \<leftarrow> uv__write_req_size s req;
             Some (s\<lparr>write_queue_size := (write_queue_size s)(h := write_queue_size s h - sz),
                     w_bufs := (w_bufs s)(req := None)\<rparr>) }
           else Some s);
     s \<leftarrow> (case req_cb s req of None \<Rightarrow> Some s | Some cb \<Rightarrow> call_req U cb req (w_error s req) s);
     write_callbacks_loop U h pq s }"

definition uv__write_callbacks ::
  "('w, 'a) stream_loop_scheme stream_calls \<Rightarrow> addr \<Rightarrow> ('w, 'a) stream_loop_scheme \<Rightarrow> ('w, 'a) stream_loop_scheme option" where
  "uv__write_callbacks U h s =
     (if write_completed_queue s h = [] then Some s
      else write_callbacks_loop U h (write_completed_queue s h)
             (s\<lparr>write_completed_queue := (write_completed_queue s)(h := [])\<rparr>))"

text \<open>The callbacks of the connect and shutdown requests are called without a test for \<open>NULL\<close>.\<close>

definition uv__stream_destroy ::
  "('w, 'a) stream_loop_scheme stream_calls \<Rightarrow> addr \<Rightarrow> ('w, 'a) stream_loop_scheme \<Rightarrow> ('w, 'a) stream_loop_scheme option" where
  "uv__stream_destroy U h s = do {
     act \<leftarrow> uv__io_active s h (POLLIN OR POLLOUT);
     uv_assert (\<not> act);
     uv_assert (has_flag s h UV_HANDLE_CLOSED);
     s \<leftarrow> (case connect_req s h of
            None \<Rightarrow> Some s
          | Some req \<Rightarrow> do {
              s \<leftarrow> uv__req_unregister s;
              cb \<leftarrow> req_cb s req;
              s \<leftarrow> call_req U cb req (Some UV_ECANCELED) s;
              Some (s\<lparr>connect_req := (connect_req s)(h := None)\<rparr>) });
     let s = uv__stream_flush_write_queue h (Some UV_ECANCELED) s;
     s \<leftarrow> uv__write_callbacks U h s;
     s \<leftarrow> (case shutdown_req s h of
            None \<Rightarrow> Some s
          | Some req \<Rightarrow> do {
              s \<leftarrow> uv__req_unregister s;
              cb \<leftarrow> req_cb s req;
              s \<leftarrow> call_req U cb req (Some UV_ECANCELED) s;
              Some (s\<lparr>shutdown_req := (shutdown_req s)(h := None)\<rparr>) });
     uv_assert (write_queue_size s h = 0);
     Some s }"

section \<open>Servers\<close>

partial_function (option) emfile_loop :: "'w fd_kernel \<Rightarrow> int \<Rightarrow> 'w \<Rightarrow> (uv_errno \<times> 'w) option" where
  "emfile_loop K accept_fd w =
     (uv__accept K accept_fd w \<bind> (\<lambda>(err, w).
      case err of
        Inr fd \<Rightarrow> uv__close K fd w \<bind> (\<lambda>(_, w). emfile_loop K accept_fd w)
      | Inl e \<Rightarrow> if e = UV_EINTR then emfile_loop K accept_fd w else Some (e, w)))"

definition uv__emfile_trick ::
  "'w stream_kernel \<Rightarrow> int \<Rightarrow> ('w, 'a) stream_loop_scheme \<Rightarrow> (uv_errno \<times> ('w, 'a) stream_loop_scheme) option" where
  "uv__emfile_trick K accept_fd s =
     (if emfile_fd s = -1 then Some (UV_EMFILE, s)
      else do {
        (_, s) \<leftarrow> sys_prog (uv__close (fdK K) (emfile_fd s)) s;
        let s = s\<lparr>emfile_fd := -1\<rparr>;
        (err, s) \<leftarrow> sys_prog (emfile_loop (fdK K) accept_fd) s;
        let (fd, s) = sys (uv__open_cloexec (fdK K) ''/'' O_RDONLY) s;
        Some (err, case fd of Inr fd \<Rightarrow> s\<lparr>emfile_fd := fd\<rparr> | Inl _ \<Rightarrow> s) })"

partial_function (option) server_loop ::
  "'w stream_kernel \<Rightarrow> ('w, 'a) stream_loop_scheme stream_calls \<Rightarrow> addr \<Rightarrow>
    ('w, 'a) stream_loop_scheme \<Rightarrow> ('w, 'a) stream_loop_scheme option" where
  "server_loop K U h s =
     (if uv__stream_fd s h = -1 then Some s
      else uv_assert (accepted_fd s h = -1) \<bind> (\<lambda>_.
        sys_prog (uv__accept (fdK K) (uv__stream_fd s h)) s \<bind> (\<lambda>(err, s).
        case err of
          Inl e \<Rightarrow>
            if e = UV_EAGAIN then Some s
            else if e = UV_ECONNABORTED then server_loop K U h s
            else (if e = UV_EMFILE \<or> e = UV_ENFILE then uv__emfile_trick K (uv__stream_fd s h) s else Some (e, s)) \<bind> (\<lambda>(e', s).
              if (e = UV_EMFILE \<or> e = UV_ENFILE) \<and> e' = UV_EAGAIN then Some s
              else connection_cb s h \<bind> (\<lambda>cb. call_connection U cb h (Some e') s \<bind> server_loop K U h))
        | Inr fd \<Rightarrow>
            let s = s\<lparr>accepted_fd := (accepted_fd s)(h := fd)\<rparr>
            in connection_cb s h \<bind> (\<lambda>cb. call_connection U cb h None s \<bind> (\<lambda>s.
               if accepted_fd s h \<noteq> -1 then uv__io_stop h POLLIN s
               else server_loop K U h
                      (if htype s h = UV_TCP \<and> has_flag s h UV_HANDLE_TCP_SINGLE_ACCEPT
                       then s\<lparr>os := k_pause K (os s)\<rparr> else s))))))"

definition uv__server_io ::
  "'w stream_kernel \<Rightarrow> ('w, 'a) stream_loop_scheme stream_calls \<Rightarrow> addr \<Rightarrow> u32 \<Rightarrow>
    ('w, 'a) stream_loop_scheme \<Rightarrow> ('w, 'a) stream_loop_scheme option" where
  "uv__server_io K U h events s = do {
     uv_assert (events AND POLLIN \<noteq> 0);
     uv_assert (accepted_fd s h = -1);
     uv_assert (\<not> has_flag s h UV_HANDLE_CLOSING);
     s \<leftarrow> uv__io_start (ioK K) h POLLIN s;
     server_loop K U h s }"

text \<open>The end of \<open>uv_accept\<close>, behind the label \<open>done\<close>.\<close>

definition accept_done ::
  "'w stream_kernel \<Rightarrow> addr \<Rightarrow> uv_errno + unit \<Rightarrow> ('w, 'a) stream_loop_scheme \<Rightarrow>
    ((uv_errno + unit) \<times> ('w, 'a) stream_loop_scheme) option" where
  "accept_done K server err s =
     (case queued_fds s server of
        Some (n, fds) \<Rightarrow> do {
          uv_assert (fds \<noteq> []);
          let s = s\<lparr>accepted_fd := (accepted_fd s)(server := hd fds)\<rparr>;
          Some (err, s\<lparr>queued_fds := (queued_fds s)(server := (if tl fds = [] then None else Some (n, tl fds)))\<rparr>) }
      | None \<Rightarrow> do {
          let s = s\<lparr>accepted_fd := (accepted_fd s)(server := -1)\<rparr>;
          s \<leftarrow> (if err = Inr () then uv__io_start (ioK K) server POLLIN s else Some s);
          Some (err, s) })"

definition uv_accept ::
  "'w stream_kernel \<Rightarrow> ('w, 'a) stream_loop_scheme stream_calls \<Rightarrow> addr \<Rightarrow> addr \<Rightarrow>
    ('w, 'a) stream_loop_scheme \<Rightarrow> ((uv_errno + unit) \<times> ('w, 'a) stream_loop_scheme) option" where
  "uv_accept K U server client s =
     (if accepted_fd s server = -1 then Some (Inl UV_EAGAIN, s)
      else if htype s client \<notin> {UV_NAMED_PIPE, UV_TCP, UV_UDP} then Some (Inl UV_EINVAL, s)
      else do {
        (err, s) \<leftarrow> (if htype s client = UV_UDP then udp_open U client (accepted_fd s server) s
                     else uv__stream_open K client (accepted_fd s server) (UV_HANDLE_READABLE OR UV_HANDLE_WRITABLE) s);
        (case err of
           Inl e \<Rightarrow> do {
             (_, s) \<leftarrow> sys_prog (uv__close (fdK K) (accepted_fd s server)) s;
             accept_done K server (Inl e) s }
         | Inr _ \<Rightarrow> accept_done K server (Inr ()) (set_flag client UV_HANDLE_BOUND s)) })"

section \<open>Writing\<close>

definition uv__drain ::
  "'w stream_kernel \<Rightarrow> ('w, 'a) stream_loop_scheme stream_calls \<Rightarrow> addr \<Rightarrow>
    ('w, 'a) stream_loop_scheme \<Rightarrow> ('w, 'a) stream_loop_scheme option" where
  "uv__drain K U h s = do {
     uv_assert (write_queue s h = []);
     s \<leftarrow> uv__io_stop h POLLOUT s;
     if has_flag s h UV_HANDLE_SHUTTING \<and> \<not> has_flag s h UV_HANDLE_CLOSING \<and> \<not> has_flag s h UV_HANDLE_SHUT then do {
       req \<leftarrow> shutdown_req s h;
       let s = clear_flag h UV_HANDLE_SHUTTING (s\<lparr>shutdown_req := (shutdown_req s)(h := None)\<rparr>);
       s \<leftarrow> uv__req_unregister s;
       let (r, s) = sys (k_shutdown K (uv__stream_fd s h)) s;
       let s = (if r = Inr () then set_flag h UV_HANDLE_SHUT s else s);
       (case req_cb s req of
          None \<Rightarrow> Some s
        | Some cb \<Rightarrow> call_req U cb req (case r of Inl e \<Rightarrow> Some e | Inr _ \<Rightarrow> None) s) }
     else Some s }"

definition uv__writev :: "'w stream_kernel \<Rightarrow> int \<Rightarrow> string list \<Rightarrow> ('w, nat) sys" where
  "uv__writev K fd vec = (if length vec = 1 then k_write K fd (hd vec) else k_writev K fd vec)"

text \<open>
  The loop of \<open>uv__write_req_update\<close> from buffer \<open>i\<close>; to read past the last buffer is a crash.
\<close>

function advance_bufs :: "string list \<Rightarrow> nat \<Rightarrow> nat \<Rightarrow> (string list \<times> nat) option" where
  "advance_bufs bufs i n =
     (if i \<ge> length bufs then None
      else
        let len = (if n < length (bufs ! i) then n else length (bufs ! i));
            buf = drop len (bufs ! i);
            bufs = bufs[i := buf];
            i = (if length buf = 0 then i + 1 else i);
            n = n - len
        in if n > 0 then advance_bufs bufs i n else Some (bufs, i))"
  by pat_completeness auto
termination
  by (relation "measure (\<lambda>(bufs, i, n). length bufs - i)") auto

declare advance_bufs.simps [simp del]

definition uv__write_req_update ::
  "addr \<Rightarrow> addr \<Rightarrow> nat \<Rightarrow> ('w, 'a) stream_loop_scheme \<Rightarrow> (bool \<times> ('w, 'a) stream_loop_scheme) option" where
  "uv__write_req_update h req n s = do {
     uv_assert (of_nat n \<le> write_queue_size s h);
     let s = s\<lparr>write_queue_size := (write_queue_size s)(h := write_queue_size s h - of_nat n)\<rparr>;
     bufs \<leftarrow> w_bufs s req;
     (bufs, i) \<leftarrow> advance_bufs bufs (w_index s req) n;
     let s = s\<lparr>w_bufs := (w_bufs s)(req := Some bufs), w_index := (w_index s)(req := i)\<rparr>;
     Some (i = length bufs, s) }"

definition uv__write_req_finish :: "addr \<Rightarrow> ('w, 'a) stream_loop_scheme \<Rightarrow> ('w, 'a) stream_loop_scheme" where
  "uv__write_req_finish req s =
     (let h = req_handle s req;
          s = s\<lparr>write_queue := (write_queue s)(h := remove1 req (write_queue s h))\<rparr>;
          s = (if w_error s req = None then s\<lparr>w_bufs := (w_bufs s)(req := None)\<rparr> else s);
          s = s\<lparr>write_completed_queue := (write_completed_queue s)(h := write_completed_queue s h @ [req])\<rparr>
      in uv__io_feed h s)"

definition uv__handle_fd :: "('w, 'a) io_loop_scheme \<Rightarrow> addr \<Rightarrow> int" where
  "uv__handle_fd s h = (if htype s h \<in> {UV_NAMED_PIPE, UV_TCP, UV_UDP} then io_fd s h else -1)"

definition uv__try_write ::
  "'w stream_kernel \<Rightarrow> addr \<Rightarrow> string list \<Rightarrow> ptr \<Rightarrow> ('w, 'a) stream_loop_scheme \<Rightarrow>
    ((uv_errno + nat) \<times> ('w, 'a) stream_loop_scheme) option" where
  "uv__try_write K h bufs send_handle s =
     (let iov = take uv__getiovmax bufs;
          error = (\<lambda>(n, s). (case n of
                     Inr n \<Rightarrow> Inr n
                   | Inl e \<Rightarrow> if e = UV_EAGAIN \<or> e = UV_ENOBUFS then Inl UV_EAGAIN else Inl e, s))
      in case send_handle of
           Some g \<Rightarrow>
             if uv__is_closing s g then Some (Inl UV_EBADF, s)
             else do {
               uv_assert (uv__handle_fd s g \<ge> 0);
               map_option error (sys_prog (retry_eintr (k_sendmsg K (uv__stream_fd s h) iov (uv__handle_fd s g))) s) }
         | None \<Rightarrow> map_option error (sys_prog (retry_eintr (uv__writev K (uv__stream_fd s h) iov)) s))"

partial_function (option) write_loop ::
  "'w stream_kernel \<Rightarrow> addr \<Rightarrow> ('w, 'a) stream_loop_scheme \<Rightarrow> ('w, 'a) stream_loop_scheme option" where
  "write_loop K h s =
     (case write_queue s h of
        [] \<Rightarrow> Some s
      | req # _ \<Rightarrow>
          uv_assert (req_handle s req = h) \<bind> (\<lambda>_.
          w_bufs s req \<bind> (\<lambda>bufs.
          uv__try_write K h (drop (w_index s req) bufs) (w_send_handle s req) s \<bind> (\<lambda>(n, s).
          case n of
            Inr n \<Rightarrow>
              uv__write_req_update h req n (s\<lparr>w_send_handle := (w_send_handle s)(req := None)\<rparr>) \<bind> (\<lambda>(over, s).
              if over then Some (uv__write_req_finish req s)
              else if has_flag s h UV_HANDLE_BLOCKING_WRITES then write_loop K h s
              else uv__io_start (ioK K) h POLLOUT s)
          | Inl e \<Rightarrow>
              if e = UV_EAGAIN then
                if has_flag s h UV_HANDLE_BLOCKING_WRITES then write_loop K h s
                else uv__io_start (ioK K) h POLLOUT s
              else uv__io_stop h POLLOUT (uv__write_req_finish req (s\<lparr>w_error := (w_error s)(req := Some e)\<rparr>))))))"

definition uv__write ::
  "'w stream_kernel \<Rightarrow> addr \<Rightarrow> ('w, 'a) stream_loop_scheme \<Rightarrow> ('w, 'a) stream_loop_scheme option" where
  "uv__write K h s = do {
     uv_assert (uv__stream_fd s h \<ge> 0);
     write_loop K h s }"

definition uv__check_before_write ::
  "addr \<Rightarrow> nat \<Rightarrow> ptr \<Rightarrow> ('w, 'a) stream_loop_scheme \<Rightarrow> (uv_errno + unit) option" where
  "uv__check_before_write h nbufs send_handle s = do {
     uv_assert (nbufs > 0);
     uv_assert (htype s h \<in> {UV_TCP, UV_NAMED_PIPE, UV_TTY});
     Some (if uv__stream_fd s h < 0 then Inl UV_EBADF
           else if \<not> has_flag s h UV_HANDLE_WRITABLE then Inl UV_EPIPE
           else case send_handle of
             None \<Rightarrow> Inr ()
           | Some g \<Rightarrow>
               if htype s h \<noteq> UV_NAMED_PIPE \<or> \<not> pipe_ipc s h then Inl UV_EINVAL
               else if uv__handle_fd s g < 0 then Inl UV_EBADF
               else Inr ()) }"

definition uv_write2 ::
  "'w stream_kernel \<Rightarrow> addr \<Rightarrow> addr \<Rightarrow> string list \<Rightarrow> ptr \<Rightarrow> nat option \<Rightarrow> ('w, 'a) stream_loop_scheme \<Rightarrow>
    ((uv_errno + unit) \<times> ('w, 'a) stream_loop_scheme) option" where
  "uv_write2 K req h bufs send_handle cb s = do {
     err \<leftarrow> uv__check_before_write h (length bufs) send_handle s;
     if err \<noteq> Inr () then Some (err, s)
     else do {
       let empty_queue = (write_queue_size s h = 0);
       let s = uv__req_register s;
       let s = s\<lparr>req_cb := (req_cb s)(req := cb), req_handle := (req_handle s)(req := h),
                 w_error := (w_error s)(req := None), w_send_handle := (w_send_handle s)(req := send_handle)\<rparr>;
       let (ok, s) = (if length bufs > 4 then sys (k_malloc K (length bufs * 16)) s else (True, s));
       if \<not> ok then Some (Inl UV_ENOMEM, s\<lparr>w_bufs := (w_bufs s)(req := None)\<rparr>)
       else do {
         let s = s\<lparr>w_bufs := (w_bufs s)(req := Some bufs), w_index := (w_index s)(req := 0),
                   write_queue_size := (write_queue_size s)(h := write_queue_size s h + uv__count_bufs bufs),
                   write_queue := (write_queue s)(h := write_queue s h @ [req])\<rparr>;
         s \<leftarrow> (if connect_req s h \<noteq> None then Some s
              else if empty_queue then uv__write K h s
              else do {
                uv_assert (\<not> has_flag s h UV_HANDLE_BLOCKING_WRITES);
                uv__io_start (ioK K) h POLLOUT s });
         Some (Inr (), s) } } }"

definition uv_write ::
  "'w stream_kernel \<Rightarrow> addr \<Rightarrow> addr \<Rightarrow> string list \<Rightarrow> nat option \<Rightarrow> ('w, 'a) stream_loop_scheme \<Rightarrow>
    ((uv_errno + unit) \<times> ('w, 'a) stream_loop_scheme) option" where
  "uv_write K req h bufs cb s = uv_write2 K req h bufs None cb s"

text \<open>The check of \<open>uv_try_write2\<close> is made without the handle to send.\<close>

definition uv_try_write2 ::
  "'w stream_kernel \<Rightarrow> addr \<Rightarrow> string list \<Rightarrow> ptr \<Rightarrow> ('w, 'a) stream_loop_scheme \<Rightarrow>
    ((uv_errno + nat) \<times> ('w, 'a) stream_loop_scheme) option" where
  "uv_try_write2 K h bufs send_handle s =
     (if connect_req s h \<noteq> None \<or> write_queue_size s h \<noteq> 0 then Some (Inl UV_EAGAIN, s)
      else do {
        err \<leftarrow> uv__check_before_write h (length bufs) None s;
        (case err of
           Inl e \<Rightarrow> Some (Inl e, s)
         | Inr _ \<Rightarrow> uv__try_write K h bufs send_handle s) })"

definition uv_try_write ::
  "'w stream_kernel \<Rightarrow> addr \<Rightarrow> string list \<Rightarrow> ('w, 'a) stream_loop_scheme \<Rightarrow>
    ((uv_errno + nat) \<times> ('w, 'a) stream_loop_scheme) option" where
  "uv_try_write K h bufs s = uv_try_write2 K h bufs None s"

definition uv_shutdown ::
  "'w stream_kernel \<Rightarrow> addr \<Rightarrow> addr \<Rightarrow> nat option \<Rightarrow> ('w, 'a) stream_loop_scheme \<Rightarrow>
    ((uv_errno + unit) \<times> ('w, 'a) stream_loop_scheme) option" where
  "uv_shutdown K req h cb s = do {
     uv_assert (htype s h \<in> {UV_TCP, UV_TTY, UV_NAMED_PIPE});
     if \<not> has_flag s h UV_HANDLE_WRITABLE \<or> has_flag s h UV_HANDLE_SHUT \<or> has_flag s h UV_HANDLE_SHUTTING \<or>
        uv__is_closing s h
     then Some (Inl UV_ENOTCONN, s)
     else do {
       uv_assert (uv__stream_fd s h \<ge> 0);
       let s = uv__req_register s;
       let s = s\<lparr>req_handle := (req_handle s)(req := h), req_cb := (req_cb s)(req := cb),
                 shutdown_req := (shutdown_req s)(h := Some req)\<rparr>;
       let s = clear_flag h UV_HANDLE_WRITABLE (set_flag h UV_HANDLE_SHUTTING s);
       s \<leftarrow> uv__io_start (ioK K) h POLLOUT s;
       Some (Inr (), s) } }"

definition uv__stream_connect ::
  "'w stream_kernel \<Rightarrow> ('w, 'a) stream_loop_scheme stream_calls \<Rightarrow> addr \<Rightarrow>
    ('w, 'a) stream_loop_scheme \<Rightarrow> ('w, 'a) stream_loop_scheme option" where
  "uv__stream_connect K U h s = do {
     uv_assert (htype s h \<in> {UV_TCP, UV_NAMED_PIPE});
     req \<leftarrow> connect_req s h;
     (err, s) \<leftarrow> (case delayed_error s h of
                    Some e \<Rightarrow> Some (Some e, s\<lparr>delayed_error := (delayed_error s)(h := None)\<rparr>)
                  | None \<Rightarrow> do {
                      uv_assert (uv__stream_fd s h \<ge> 0);
                      Some (sys (k_so_error K (uv__stream_fd s h)) s) });
     if err = Some UV_EINPROGRESS then Some s
     else do {
       s \<leftarrow> uv__req_unregister (s\<lparr>connect_req := (connect_req s)(h := None)\<rparr>);
       s \<leftarrow> (if err \<noteq> None \<or> write_queue s h = [] then uv__io_stop h POLLOUT s else Some s);
       s \<leftarrow> (case req_cb s req of None \<Rightarrow> Some s | Some cb \<Rightarrow> call_req U cb req err s);
       if uv__stream_fd s h = -1 then Some s
       else if err \<noteq> None then uv__write_callbacks U h (uv__stream_flush_write_queue h (Some UV_ECANCELED) s)
       else Some s } }"

section \<open>Reading\<close>

definition uv__stream_eof ::
  "('w, 'a) stream_loop_scheme stream_calls \<Rightarrow> addr \<Rightarrow> ('w, 'a) stream_loop_scheme \<Rightarrow> ('w, 'a) stream_loop_scheme option" where
  "uv__stream_eof U h s = do {
     let s = clear_flag h UV_HANDLE_READING (set_flag h UV_HANDLE_READ_EOF s);
     s \<leftarrow> uv__io_stop h POLLIN s;
     let s = uv__handle_stop h s;
     cb \<leftarrow> read_cb s h;
     call_read U cb h (Inl UV_EOF) s }"

text \<open>\<open>queued_fds\<close> is the size of the array and the descriptors in it.\<close>

definition uv__stream_queue_fd ::
  "'w stream_kernel \<Rightarrow> addr \<Rightarrow> int \<Rightarrow> ('w, 'a) stream_loop_scheme \<Rightarrow>
    (uv_errno + unit) \<times> ('w, 'a) stream_loop_scheme" where
  "uv__stream_queue_fd K h fd s =
     (case queued_fds s h of
        None \<Rightarrow>
          (case sys (k_malloc K ((8 - 1) * 4 + 12)) s of (ok, s) \<Rightarrow>
             if \<not> ok then (Inl UV_ENOMEM, s)
             else (Inr (), s\<lparr>queued_fds := (queued_fds s)(h := Some (8, [fd]))\<rparr>))
      | Some (n, fds) \<Rightarrow>
          if n = of_nat (length fds) then
            (case sys (k_malloc K ((unat (n + 8) - 1) * 4 + 12)) s of (ok, s) \<Rightarrow>
               if \<not> ok then (Inl UV_ENOMEM, s)
               else (Inr (), s\<lparr>queued_fds := (queued_fds s)(h := Some (n + 8, fds @ [fd]))\<rparr>))
          else (Inr (), s\<lparr>queued_fds := (queued_fds s)(h := Some (n, fds @ [fd]))\<rparr>))"

fun close_fds :: "'w fd_kernel \<Rightarrow> int list \<Rightarrow> 'w \<Rightarrow> 'w option" where
  "close_fds K [] w = Some w"
| "close_fds K (fd # fds) w = do {
     (_, w) \<leftarrow> uv__close K fd w;
     close_fds K fds w }"

fun recv_fds ::
  "'w stream_kernel \<Rightarrow> addr \<Rightarrow> int list \<Rightarrow> ('w, 'a) stream_loop_scheme \<Rightarrow>
    ((uv_errno + unit) \<times> ('w, 'a) stream_loop_scheme) option" where
  "recv_fds K h [] s = Some (Inr (), s)"
| "recv_fds K h (fd # fds) s =
     (if accepted_fd s h \<noteq> -1 then
        (case uv__stream_queue_fd K h fd s of
           (Inl e, s) \<Rightarrow> do {
             w \<leftarrow> close_fds (fdK K) (fd # fds) (os s);
             Some (Inl e, s\<lparr>os := w\<rparr>) }
         | (Inr _, s) \<Rightarrow> recv_fds K h fds s)
      else recv_fds K h fds (s\<lparr>accepted_fd := (accepted_fd s)(h := fd)\<rparr>))"

text \<open>The control messages are given by their type and the descriptors in them.\<close>

fun uv__stream_recv_cmsg ::
  "'w stream_kernel \<Rightarrow> addr \<Rightarrow> (int \<times> int list) list \<Rightarrow> ('w, 'a) stream_loop_scheme \<Rightarrow>
    ((uv_errno + unit) \<times> ('w, 'a) stream_loop_scheme) option" where
  "uv__stream_recv_cmsg K h [] s = Some (Inr (), s)"
| "uv__stream_recv_cmsg K h ((cmsg_type, fds) # msgs) s =
     (if cmsg_type \<noteq> SCM_RIGHTS then uv__stream_recv_cmsg K h msgs s
      else do {
        (err, s) \<leftarrow> recv_fds K h fds s;
        (case err of
           Inl e \<Rightarrow> Some (Inl e, s)
         | Inr _ \<Rightarrow> uv__stream_recv_cmsg K h msgs s) })"

text \<open>One \<open>read\<close> or \<open>recvmsg\<close>, repeated on \<open>EINTR\<close>: the bytes and the control messages.\<close>

partial_function (option) recv_retry ::
  "'w fd_kernel \<Rightarrow> int \<Rightarrow> nat \<Rightarrow> bool \<Rightarrow> 'w \<Rightarrow> ((uv_errno + msghdr) \<times> bool \<times> 'w) option" where
  "recv_retry K fd len nc w =
     (uv__recvmsg K fd len 0 nc w \<bind> (\<lambda>(r, nc, w).
      if r = Inl UV_EINTR then recv_retry K fd len nc w else Some (r, nc, w)))"

definition stream_recv ::
  "'w stream_kernel \<Rightarrow> addr \<Rightarrow> bool \<Rightarrow> nat \<Rightarrow> ('w, 'a) stream_loop_scheme \<Rightarrow>
    ((uv_errno + (string \<times> (int \<times> int list) list)) \<times> ('w, 'a) stream_loop_scheme) option" where
  "stream_recv K h is_ipc len s =
     (if \<not> is_ipc then do {
        (r, s) \<leftarrow> sys_prog (retry_eintr (k_read K (uv__stream_fd s h) len)) s;
        Some (map_sum id (\<lambda>xs. (xs, [])) r, s) }
      else do {
        (r, nc, w) \<leftarrow> recv_retry (fdK K) (uv__stream_fd s h) len (no_cmsg_cloexec s) (os s);
        Some (map_sum id (\<lambda>m. (msg_bytes m, msg_control m)) r, s\<lparr>no_cmsg_cloexec := nc, os := w\<rparr>) })"

text \<open>What \<open>uv__read\<close> does when the call has failed.\<close>

definition read_failed ::
  "'w stream_kernel \<Rightarrow> ('w, 'a) stream_loop_scheme stream_calls \<Rightarrow> addr \<Rightarrow> uv_errno \<Rightarrow>
    ('w, 'a) stream_loop_scheme \<Rightarrow> ('w, 'a) stream_loop_scheme option" where
  "read_failed K U h e s =
     (if e = UV_EAGAIN then do {
        s \<leftarrow> (if has_flag s h UV_HANDLE_READING then uv__io_start (ioK K) h POLLIN s else Some s);
        cb \<leftarrow> read_cb s h;
        call_read U cb h (Inr []) s }
      else do {
        let s = clear_flag h (UV_HANDLE_READABLE OR UV_HANDLE_WRITABLE) s;
        cb \<leftarrow> read_cb s h;
        s \<leftarrow> call_read U cb h (Inl e) s;
        if has_flag s h UV_HANDLE_READING then do {
          s \<leftarrow> uv__io_stop h POLLIN (clear_flag h UV_HANDLE_READING s);
          Some (uv__handle_stop h s) }
        else Some s })"

fun read_loop ::
  "'w stream_kernel \<Rightarrow> ('w, 'a) stream_loop_scheme stream_calls \<Rightarrow> addr \<Rightarrow> bool \<Rightarrow> nat \<Rightarrow>
    ('w, 'a) stream_loop_scheme \<Rightarrow> ('w, 'a) stream_loop_scheme option" where
  "read_loop K U h is_ipc 0 s = Some s"
| "read_loop K U h is_ipc (Suc count) s =
     (if read_cb s h = None \<or> \<not> has_flag s h UV_HANDLE_READING then Some s
      else do {
        acb \<leftarrow> alloc_cb s h;
        (buf, s) \<leftarrow> call_alloc U acb h s;
        if buf = None \<or> buf = Some 0 then do {
          cb \<leftarrow> read_cb s h;
          call_read U cb h (Inl UV_ENOBUFS) s }
        else do {
          uv_assert (uv__stream_fd s h \<ge> 0);
          (nread, s) \<leftarrow> stream_recv K h is_ipc (the buf) s;
          (case nread of
             Inl e \<Rightarrow> read_failed K U h e s
           | Inr (xs, msgs) \<Rightarrow>
               if xs = [] then uv__stream_eof U h s
               else do {
                 (err, s) \<leftarrow> (if is_ipc then uv__stream_recv_cmsg K h msgs s else Some (Inr (), s));
                 cb \<leftarrow> read_cb s h;
                 (case err of
                    Inl e \<Rightarrow> call_read U cb h (Inl e) s
                  | Inr _ \<Rightarrow> do {
                      s \<leftarrow> call_read U cb h (Inr xs) s;
                      if length xs < the buf then Some (set_flag h UV_HANDLE_READ_PARTIAL s)
                      else read_loop K U h is_ipc count s }) }) } })"

definition uv__read ::
  "'w stream_kernel \<Rightarrow> ('w, 'a) stream_loop_scheme stream_calls \<Rightarrow> addr \<Rightarrow>
    ('w, 'a) stream_loop_scheme \<Rightarrow> ('w, 'a) stream_loop_scheme option" where
  "uv__read K U h s =
     (let s = clear_flag h UV_HANDLE_READ_PARTIAL s;
          is_ipc = (htype s h = UV_NAMED_PIPE \<and> pipe_ipc s h)
      in read_loop K U h is_ipc 32 s)"

definition uv__stream_io ::
  "'w stream_kernel \<Rightarrow> ('w, 'a) stream_loop_scheme stream_calls \<Rightarrow> addr \<Rightarrow> u32 \<Rightarrow>
    ('w, 'a) stream_loop_scheme \<Rightarrow> ('w, 'a) stream_loop_scheme option" where
  "uv__stream_io K U h events s = do {
     uv_assert (htype s h \<in> {UV_TCP, UV_NAMED_PIPE, UV_TTY});
     uv_assert (\<not> has_flag s h UV_HANDLE_CLOSING);
     if connect_req s h \<noteq> None then uv__stream_connect K U h s
     else do {
       uv_assert (uv__stream_fd s h \<ge> 0);
       s \<leftarrow> (if events AND (POLLIN OR POLLERR OR POLLHUP) \<noteq> 0 then uv__read K U h s else Some s);
       if uv__stream_fd s h = -1 then Some s
       else do {
         s \<leftarrow> (if events AND POLLHUP \<noteq> 0 \<and> has_flag s h UV_HANDLE_READING \<and> has_flag s h UV_HANDLE_READ_PARTIAL \<and>
                  \<not> has_flag s h UV_HANDLE_READ_EOF
              then uv__stream_eof U h s else Some s);
         if uv__stream_fd s h = -1 then Some s
         else if events AND (POLLOUT OR POLLERR OR POLLHUP) \<noteq> 0 then do {
           s \<leftarrow> uv__write K h s;
           s \<leftarrow> uv__write_callbacks U h s;
           if write_queue s h = [] then uv__drain K U h s else Some s }
         else Some s } } }"

definition uv__read_start ::
  "'w stream_kernel \<Rightarrow> addr \<Rightarrow> nat option \<Rightarrow> nat option \<Rightarrow> ('w, 'a) stream_loop_scheme \<Rightarrow>
    ((uv_errno + unit) \<times> ('w, 'a) stream_loop_scheme) option" where
  "uv__read_start K h acb rcb s = do {
     uv_assert (htype s h \<in> {UV_TCP, UV_NAMED_PIPE, UV_TTY});
     let s = clear_flag h UV_HANDLE_READ_EOF (set_flag h UV_HANDLE_READING s);
     uv_assert (uv__stream_fd s h \<ge> 0);
     uv_assert (acb \<noteq> None);
     let s = s\<lparr>read_cb := (read_cb s)(h := rcb), alloc_cb := (alloc_cb s)(h := acb)\<rparr>;
     s \<leftarrow> uv__io_start (ioK K) h POLLIN s;
     Some (Inr (), uv__handle_start h s) }"

text \<open>\<open>uv_read_start\<close> of src/uv-common.c.\<close>

definition uv_read_start ::
  "'w stream_kernel \<Rightarrow> ptr \<Rightarrow> nat option \<Rightarrow> nat option \<Rightarrow> ('w, 'a) stream_loop_scheme \<Rightarrow>
    ((uv_errno + unit) \<times> ('w, 'a) stream_loop_scheme) option" where
  "uv_read_start K stream acb rcb s =
     (case stream of
        None \<Rightarrow> Some (Inl UV_EINVAL, s)
      | Some h \<Rightarrow>
          if acb = None \<or> rcb = None then Some (Inl UV_EINVAL, s)
          else if has_flag s h UV_HANDLE_CLOSING then Some (Inl UV_EINVAL, s)
          else if has_flag s h UV_HANDLE_READING then Some (Inl UV_EALREADY, s)
          else if \<not> has_flag s h UV_HANDLE_READABLE then Some (Inl UV_ENOTCONN, s)
          else uv__read_start K h acb rcb s)"

definition uv_read_stop :: "addr \<Rightarrow> ('w, 'a) stream_loop_scheme \<Rightarrow> ('w, 'a) stream_loop_scheme option" where
  "uv_read_stop h s =
     (if \<not> has_flag s h UV_HANDLE_READING then Some s
      else do {
        s \<leftarrow> uv__io_stop h POLLIN (clear_flag h UV_HANDLE_READING s);
        let s = uv__handle_stop h s;
        Some (s\<lparr>read_cb := (read_cb s)(h := None), alloc_cb := (alloc_cb s)(h := None)\<rparr>) })"

definition uv_is_readable :: "'a uv_loop_scheme \<Rightarrow> addr \<Rightarrow> bool" where
  "uv_is_readable s h = has_flag s h UV_HANDLE_READABLE"

definition uv_is_writable :: "'a uv_loop_scheme \<Rightarrow> addr \<Rightarrow> bool" where
  "uv_is_writable s h = has_flag s h UV_HANDLE_WRITABLE"

section \<open>Closing\<close>

definition uv__stream_close ::
  "'w stream_kernel \<Rightarrow> addr \<Rightarrow> ('w, 'a) stream_loop_scheme \<Rightarrow> ('w, 'a) stream_loop_scheme option" where
  "uv__stream_close K h s = do {
     s \<leftarrow> uv__io_close (ioK K) h s;
     s \<leftarrow> uv_read_stop h s;
     let s = clear_flag h (UV_HANDLE_READABLE OR UV_HANDLE_WRITABLE) (uv__handle_stop h s);
     s \<leftarrow> (if io_fd s h \<noteq> -1 then do {
             s \<leftarrow> (if io_fd s h > 2 then do { (_, s) \<leftarrow> sys_prog (uv__close (fdK K) (io_fd s h)) s; Some s } else Some s);
             Some (s\<lparr>io_fd := (io_fd s)(h := -1)\<rparr>) }
           else Some s);
     s \<leftarrow> (if accepted_fd s h \<noteq> -1 then do {
             (_, s) \<leftarrow> sys_prog (uv__close (fdK K) (accepted_fd s h)) s;
             Some (s\<lparr>accepted_fd := (accepted_fd s)(h := -1)\<rparr>) }
           else Some s);
     s \<leftarrow> (case queued_fds s h of
            None \<Rightarrow> Some s
          | Some (n, fds) \<Rightarrow> do {
              w \<leftarrow> close_fds (fdK K) fds (os s);
              Some (s\<lparr>os := w, queued_fds := (queued_fds s)(h := None)\<rparr>) });
     act \<leftarrow> uv__io_active s h (POLLIN OR POLLOUT);
     uv_assert (\<not> act);
     Some s }"

definition uv_stream_set_blocking ::
  "'w stream_kernel \<Rightarrow> addr \<Rightarrow> bool \<Rightarrow> ('w, 'a) stream_loop_scheme \<Rightarrow>
    ((uv_errno + unit) \<times> ('w, 'a) stream_loop_scheme) option" where
  "uv_stream_set_blocking K h blocking s = sys_prog (uv__nonblock (fdK K) (uv__stream_fd s h) (\<not> blocking)) s"

end
