(* ===== verification/StreamWrite.thy ===== *)
theory StreamWrite
  imports Streams
begin

text \<open>
  What the write side of src/unix/stream.c does with the data of the user.  \<open>sent w fd\<close> is what the
  kernel has taken for a descriptor; \<open>wire\<close> says what \<open>write\<close>, \<open>writev\<close> and \<open>sendmsg\<close> document, that
  they take a prefix of the data or fail and take nothing.  \<open>stream_ok\<close> is the invariant of the two
  write queues; its last parts say that \<open>write_queue_size\<close> is the number of bytes that the
  requests of both queues still have.
\<close>

section \<open>Requests and their data\<close>

definition unsent :: "('w, 'a) stream_loop_scheme \<Rightarrow> addr \<Rightarrow> string" where
  "unsent s req = (case w_bufs s req of None \<Rightarrow> [] | Some bufs \<Rightarrow> concat (drop (w_index s req) bufs))"

definition queue_bytes :: "('w, 'a) stream_loop_scheme \<Rightarrow> addr list \<Rightarrow> string" where
  "queue_bytes s rs = concat (map (unsent s) rs)"

definition request_ok :: "('w, 'a) stream_loop_scheme \<Rightarrow> addr \<Rightarrow> addr \<Rightarrow> bool" where
  "request_ok s h req \<longleftrightarrow> req_handle s req = h \<and> w_error s req = None \<and>
     (\<exists>bufs. w_bufs s req = Some bufs \<and> w_index s req < length bufs)"

definition stream_ok :: "('w, 'a) stream_loop_scheme \<Rightarrow> addr \<Rightarrow> bool" where
  "stream_ok s h \<longleftrightarrow> distinct (write_queue s h @ write_completed_queue s h) \<and>
     (\<forall>req \<in> set (write_queue s h). request_ok s h req) \<and>
     (\<forall>req \<in> set (write_completed_queue s h). req_handle s req = h) \<and>
     length (queue_bytes s (write_queue s h @ write_completed_queue s h)) < 2 ^ 64 \<and>
     write_queue_size s h = of_nat (length (queue_bytes s (write_queue s h @ write_completed_queue s h)))"

lemma stream_okD:
  assumes "stream_ok s h"
  shows "distinct (write_queue s h @ write_completed_queue s h)"
    "req \<in> set (write_queue s h) \<Longrightarrow> request_ok s h req"
    "req \<in> set (write_completed_queue s h) \<Longrightarrow> req_handle s req = h"
    "length (queue_bytes s (write_queue s h @ write_completed_queue s h)) < 2 ^ 64"
    "write_queue_size s h = of_nat (length (queue_bytes s (write_queue s h @ write_completed_queue s h)))"
  using assms by (simp_all add: stream_ok_def)

lemma queue_bytes_simps [simp]:
  "queue_bytes s [] = []" "queue_bytes s (r # rs) = unsent s r @ queue_bytes s rs"
  "queue_bytes s (xs @ ys) = queue_bytes s xs @ queue_bytes s ys"
  by (simp_all add: queue_bytes_def)

lemma queue_bytes_cong:
  "(\<And>r. r \<in> set rs \<Longrightarrow> unsent s' r = unsent s r) \<Longrightarrow> queue_bytes s' rs = queue_bytes s rs"
  by (induction rs) auto

lemma unsent_cong: "w_bufs s' r = w_bufs s r \<Longrightarrow> w_index s' r = w_index s r \<Longrightarrow> unsent s' r = unsent s r"
  by (simp add: unsent_def split: option.split)

lemma io_ok_cong:
  assumes "watchers s' = watchers s" "nwatchers s' = nwatchers s" "nfds s' = nfds s" "io_fd s' = io_fd s"
    "io_pevents s' = io_pevents s"
  shows "io_ok s' = io_ok s"
  using assms by (simp add: io_ok_def io_cells_def cong: option.case_cong)

text \<open>The fields the invariant reads.\<close>

definition same_writes :: "('w, 'a) stream_loop_scheme \<Rightarrow> ('w, 'a) stream_loop_scheme \<Rightarrow> bool" where
  "same_writes s s' \<longleftrightarrow> write_queue s' = write_queue s \<and> write_completed_queue s' = write_completed_queue s \<and>
     write_queue_size s' = write_queue_size s \<and> req_handle s' = req_handle s \<and> w_error s' = w_error s \<and>
     w_bufs s' = w_bufs s \<and> w_index s' = w_index s"

lemma same_writes_bytes: "same_writes s s' \<Longrightarrow> queue_bytes s' = queue_bytes s"
  by (intro ext queue_bytes_cong unsent_cong) (simp_all add: same_writes_def)

lemma same_writes_ok: "same_writes s s' \<Longrightarrow> stream_ok s' h = stream_ok s h"
  unfolding stream_ok_def request_ok_def
  by (frule same_writes_bytes) (simp add: same_writes_def)

lemma touched_same_writes: "io_touched s s' \<Longrightarrow> same_writes s s'"
  unfolding same_writes_def by (intro conjI; unfold io_touched_def; erule ssubst; simp)

lemma touched_fields:
  assumes "io_touched s s'"
  shows "flags s' = flags s" "htype s' = htype s" "io_fd s' = io_fd s" "w_send_handle s' = w_send_handle s"
    "req_cb s' = req_cb s" "connect_req s' = connect_req s" "shutdown_req s' = shutdown_req s"
    "active_reqs s' = active_reqs s" "stream_loop.more s' = stream_loop.more s"
  by (subst assms [unfolded io_touched_def]; simp)+

section \<open>Advancing the buffers\<close>

lemma advance_bufs_drops:
  assumes "i < length bufs" "n \<le> length (concat (drop i bufs))"
  shows "\<exists>bufs' j. advance_bufs bufs i n = Some (bufs', j) \<and> length bufs' = length bufs \<and> i \<le> j \<and> j \<le> length bufs \<and>
    concat (drop j bufs') = drop n (concat (drop i bufs))"
  using assms
proof (induction bufs i n rule: advance_bufs.induct)
  case (1 bufs i n)
  let ?b = "bufs ! i"
  let ?l = "if n < length ?b then n else length ?b"
  let ?bufs = "bufs[i := drop ?l ?b]"
  let ?i = "if length (drop ?l ?b) = 0 then i + 1 else i"
  have i: "i < length bufs" by (rule "1.prems"(1))
  have split: "concat (drop i bufs) = ?b @ concat (drop (i + 1) bufs)"
    using i by (simp add: Cons_nth_drop_Suc [symmetric])
  have later: "drop (i + 1) ?bufs = drop (i + 1) bufs" by simp
  have now: "drop i ?bufs = drop ?l ?b # drop (i + 1) bufs"
    using i by (metis Cons_nth_drop_Suc One_nat_def add.right_neutral add_Suc_right later length_list_update nth_list_update_eq)
  have rest: "concat (drop ?i ?bufs) = drop ?l (concat (drop i bufs))"
  proof (cases "n < length ?b")
    case True
    then show ?thesis using now split by simp
  next
    case False
    then show ?thesis using later split by simp
  qed
  show ?case
  proof (cases "n - ?l > 0")
    case False
    then have "advance_bufs bufs i n = Some (?bufs, ?i)"
      using i by (subst advance_bufs.simps) (simp add: Let_def)
    moreover have "drop ?l (concat (drop i bufs)) = drop n (concat (drop i bufs))" using False by (cases "n < length ?b") auto
    ultimately show ?thesis using i rest by (intro exI [of _ ?bufs] exI [of _ ?i]) auto
  next
    case True
    then have big: "\<not> n < length ?b" "n > length ?b" by (auto split: if_splits)
    have st: "advance_bufs bufs i n = advance_bufs ?bufs ?i (n - ?l)"
      using i True by (subst advance_bufs.simps) (simp add: Let_def)
    have le: "n - length ?b \<le> length (concat (drop (i + 1) bufs))" using "1.prems"(2) split by simp
    moreover have "i + 1 < length bufs"
    proof (rule ccontr)
      assume "\<not> i + 1 < length bufs"
      then have "length (concat (drop (i + 1) bufs)) = 0" by simp
      then show False using le big(2) by linarith
    qed
    ultimately have pre: "?i < length ?bufs" "n - ?l \<le> length (concat (drop ?i ?bufs))"
      using big(1) later by simp_all
    obtain bufs' j where "advance_bufs ?bufs ?i (n - ?l) = Some (bufs', j)" "length bufs' = length ?bufs" "?i \<le> j"
      "j \<le> length ?bufs" "concat (drop j bufs') = drop (n - ?l) (concat (drop ?i ?bufs))"
      using "1.IH" [OF _ refl refl refl refl refl True pre] i by auto
    moreover have "drop (n - ?l) (drop ?l (concat (drop i bufs))) = drop n (concat (drop i bufs))"
      using big by simp
    ultimately show ?thesis unfolding st rest
      by (intro exI [of _ bufs'] exI [of _ j]) (auto split: if_splits)
  qed
qed


section \<open>The kernel takes a prefix\<close>

definition takes_prefix :: "('w \<Rightarrow> int \<Rightarrow> string) \<Rightarrow> int \<Rightarrow> string \<Rightarrow> ('w, nat) sys \<Rightarrow> bool" where
  "takes_prefix sent fd xs f \<longleftrightarrow> ends f \<and>
     (\<forall>w. case f w of
        (Inl _, w') \<Rightarrow> sent w' = sent w
      | (Inr n, w') \<Rightarrow> n \<le> length xs \<and> sent w' = (sent w)(fd := sent w fd @ take n xs))"

definition wire :: "'w stream_kernel \<Rightarrow> ('w \<Rightarrow> int \<Rightarrow> string) \<Rightarrow> bool" where
  "wire K sent \<longleftrightarrow>
     (\<forall>fd b. takes_prefix sent fd b (k_write K fd b)) \<and>
     (\<forall>fd v. takes_prefix sent fd (concat v) (k_writev K fd v)) \<and>
     (\<forall>fd v g. takes_prefix sent fd (concat v) (k_sendmsg K fd v g)) \<and>
     (\<forall>n w. fst (k_realloc K n w) \<and> sent (snd (k_realloc K n w)) = sent w) \<and>
     (\<forall>n w. sent (snd (k_malloc K n w)) = sent w)"

lemma retry_takes_prefix:
  assumes "takes_prefix sent fd xs f"
  shows "\<exists>r w'. retry_eintr f w = Some (r, w') \<and>
    (case r of Inl _ \<Rightarrow> sent w' = sent w | Inr n \<Rightarrow> n \<le> length xs \<and> sent w' = (sent w)(fd := sent w fd @ take n xs))"
proof -
  have f: "case f v of (Inl _, w') \<Rightarrow> sent w' = sent v
      | (Inr n, w') \<Rightarrow> n \<le> length xs \<and> sent w' = (sent v)(fd := sent v fd @ take n xs)" for v
    using assms by (simp add: takes_prefix_def)
  obtain n where "intr_at f w n" using assms by (auto simp: takes_prefix_def ends_def)
  then obtain w0 where w0: "retry_eintr f w = Some (f w0)" "sent w0 = sent w"
    using retry_eintr_last [of f w n "\<lambda>v. sent v = sent w"] f
    by (metis (mono_tags, lifting) case_prod_unfold old.sum.simps(5))
  show ?thesis using w0 f [of w0] by (cases "f w0") (auto split: sum.splits)
qed

lemma writev_takes_prefix: "wire K sent \<Longrightarrow> takes_prefix sent fd (concat v) (uv__writev K fd v)"
proof (cases "length v = 1")
  case True
  assume "wire K sent"
  moreover have "concat v = hd v" using True by (cases v) auto
  ultimately show ?thesis using True by (simp add: wire_def uv__writev_def [abs_def])
qed (simp add: wire_def uv__writev_def [abs_def])

lemma io_start_sent:
  assumes "\<And>n w. P (snd (k_realloc K n w)) = P w" "uv__io_start K w e s = Some s'"
  shows "P (os s') = P (os s)"
proof -
  have m: "P (os t') = P (os t)" if "maybe_resize K l t = Some t'" for l t t'
    using that assms(1) unfolding maybe_resize_def sys_def Let_def
    by (cases "k_realloc K (unat (next_power_of_two (l + 2) - 2 + 2) * 8) (os t)")
       (auto split: if_splits option.splits, (metis snd_conv)+)
  show ?thesis using assms(2) unfolding uv__io_start_def Let_def
    by (auto simp: set_watcher_at_def split: if_splits bind_splits dest!: m)
qed

section \<open>One attempt to write\<close>

text \<open>The handle a request sends along is closing or has a descriptor.\<close>

definition sendable :: "('w, 'a) stream_loop_scheme \<Rightarrow> ptr \<Rightarrow> bool" where
  "sendable s p \<longleftrightarrow> (case p of None \<Rightarrow> True | Some g \<Rightarrow> uv__is_closing s g \<or> uv__handle_fd s g \<ge> 0)"

lemma take_concat_take:
  "n \<le> length (concat (take k bufs)) \<Longrightarrow> take n (concat (take k bufs)) = take n (concat bufs) \<and> n \<le> length (concat bufs)"
proof -
  assume n: "n \<le> length (concat (take k bufs))"
  have "concat bufs = concat (take k bufs) @ concat (drop k bufs)"
    by (metis append_take_drop_id concat_append)
  then show ?thesis using n by simp
qed

lemma try_write_result:
  assumes "wire K sent" "sendable s send_handle"
  shows "\<exists>r w'. uv__try_write K h bufs send_handle s = Some (r, s\<lparr>os := w'\<rparr>) \<and>
    (case r of Inl _ \<Rightarrow> sent w' = sent (os s)
     | Inr n \<Rightarrow> n \<le> length (concat bufs) \<and>
         sent w' = (sent (os s))(io_fd s h := sent (os s) (io_fd s h) @ take n (concat bufs)))"
proof -
  let ?iov = "take uv__getiovmax bufs"
  have run: "\<exists>r w'. map_option (\<lambda>(n, s). (case n of Inr n \<Rightarrow> Inr n
        | Inl e \<Rightarrow> if e = UV_EAGAIN \<or> e = UV_ENOBUFS then Inl UV_EAGAIN else Inl e, s))
        (sys_prog (retry_eintr f) s) = Some (r, s\<lparr>os := w'\<rparr>) \<and>
      (case r of Inl _ \<Rightarrow> sent w' = sent (os s)
       | Inr n \<Rightarrow> n \<le> length (concat bufs) \<and>
           sent w' = (sent (os s))(io_fd s h := sent (os s) (io_fd s h) @ take n (concat bufs)))"
    if tp: "takes_prefix sent (io_fd s h) (concat ?iov) f" for f
  proof -
    obtain r w' where r: "retry_eintr f (os s) = Some (r, w')"
      "case r of Inl _ \<Rightarrow> sent w' = sent (os s)
       | Inr n \<Rightarrow> n \<le> length (concat ?iov) \<and> sent w' = (sent (os s))(io_fd s h := sent (os s) (io_fd s h) @ take n (concat ?iov))"
      using retry_takes_prefix [OF tp] by blast
    show ?thesis
    proof (cases r)
      case (Inl e)
      then show ?thesis using r by (auto simp: sys_prog_def)
    next
      case (Inr n)
      then show ?thesis using r take_concat_take [of n uv__getiovmax bufs] by (auto simp: sys_prog_def)
    qed
  qed
  show ?thesis
  proof (cases send_handle)
    case None
    then show ?thesis
      using run [OF writev_takes_prefix [OF assms(1)]] by (simp add: uv__try_write_def Let_def uv__stream_fd_def)
  next
    case (Some g)
    show ?thesis
    proof (cases "uv__is_closing s g")
      case True
      then show ?thesis using Some by (intro exI [of _ "Inl UV_EBADF"] exI [of _ "os s"]) (simp add: uv__try_write_def)
    next
      case False
      then have "uv__handle_fd s g \<ge> 0" using assms(2) Some by (simp add: sendable_def)
      moreover have "takes_prefix sent (io_fd s h) (concat ?iov) (k_sendmsg K (io_fd s h) ?iov (uv__handle_fd s g))"
        using assms(1) by (simp add: wire_def)
      ultimately show ?thesis
        using run Some False by (simp add: uv__try_write_def Let_def uv__stream_fd_def)
    qed
  qed
qed


text \<open>
  \<open>sends sent h s s'\<close>: the requests \<open>over\<close> have moved to the completed queue, and what the kernel has
  taken for the descriptor of \<open>h\<close>, followed by what the requests still have, is what it was.
\<close>

definition sends :: "('w \<Rightarrow> int \<Rightarrow> string) \<Rightarrow> addr \<Rightarrow> ('w, 'a) stream_loop_scheme \<Rightarrow> ('w, 'a) stream_loop_scheme \<Rightarrow> bool" where
  "sends sent h s s' \<longleftrightarrow>
     (\<exists>over. write_queue s h = over @ write_queue s' h \<and>
        write_completed_queue s' h = write_completed_queue s h @ over) \<and>
     sent (os s') (io_fd s h) @ queue_bytes s' (write_queue s h) =
       sent (os s) (io_fd s h) @ queue_bytes s (write_queue s h) \<and>
     (\<forall>fd. fd \<noteq> io_fd s h \<longrightarrow> sent (os s') fd = sent (os s) fd) \<and>
     io_fd s' = io_fd s \<and> flags s' = flags s \<and> htype s' = htype s"

lemma unat_of_nat64: "n < 2 ^ 64 \<Longrightarrow> unat (of_nat n :: u64) = n"
  by (simp add: unat_of_nat take_bit_nat_eq_self)

lemma req_update_result:
  assumes ok: "stream_ok s h" and q: "write_queue s h = req # rest" and n: "n \<le> length (unsent s req)"
  shows "\<exists>over s'. uv__write_req_update h req n s = Some (over, s') \<and>
    s' = s\<lparr>write_queue_size := write_queue_size s', w_bufs := w_bufs s', w_index := w_index s'\<rparr> \<and>
    unsent s' req = drop n (unsent s req) \<and> (\<forall>r. r \<noteq> req \<longrightarrow> unsent s' r = unsent s r \<and> w_bufs s' r = w_bufs s r \<and> w_index s' r = w_index s r) \<and>
    write_queue_size s' h = of_nat (length (queue_bytes s' (write_queue s h @ write_completed_queue s h))) \<and>
    (if over then unsent s' req = [] else \<exists>bufs. w_bufs s' req = Some bufs \<and> w_index s' req < length bufs)"
proof -
  note d = stream_okD [OF ok]
  let ?all = "write_queue s h @ write_completed_queue s h"
  let ?B = "length (queue_bytes s ?all)"
  obtain bufs where b: "w_bufs s req = Some bufs" "w_index s req < length bufs"
    using d(2) [of req] q by (auto simp: request_ok_def)
  have u: "unsent s req = concat (drop (w_index s req) bufs)" using b by (simp add: unsent_def)
  obtain bufs' j where a: "advance_bufs bufs (w_index s req) n = Some (bufs', j)" "length bufs' = length bufs"
    "j \<le> length bufs" "concat (drop j bufs') = drop n (unsent s req)"
    using advance_bufs_drops [OF b(2)] n u by metis
  have nB: "n \<le> ?B" using n q by simp
  define s' where "s' = s\<lparr>write_queue_size := (write_queue_size s)(h := write_queue_size s h - of_nat n),
    w_bufs := (w_bufs s)(req := Some bufs'), w_index := (w_index s)(req := j)\<rparr>"
  define B where "B = ?B"
  have "unat (of_nat n :: u64) \<le> unat (of_nat B :: u64)"
    using nB d(4) unfolding B_def [symmetric] by (subst (1 2) unat_of_nat64) auto
  then have "(of_nat n :: u64) \<le> write_queue_size s h"
    unfolding d(5) word_le_nat_alt B_def .
  then have run: "uv__write_req_update h req n s = Some (j = length bufs', s')"
    using b a(1) by (simp add: uv__write_req_update_def s'_def Let_def)
  have ur: "unsent s' req = drop n (unsent s req)" using a(4) by (simp add: unsent_def s'_def)
  have uo: "unsent s' r = unsent s r" "w_bufs s' r = w_bufs s r" "w_index s' r = w_index s r" if "r \<noteq> req" for r
    using that by (simp_all add: unsent_def s'_def split: option.split)
  have "queue_bytes s' (rest @ write_completed_queue s h) = queue_bytes s (rest @ write_completed_queue s h)"
    using d(1) q by (intro queue_bytes_cong uo) auto
  then have "length (queue_bytes s' ?all) = ?B - n" using ur q n by simp
  then have sz: "write_queue_size s' h = of_nat (length (queue_bytes s' ?all))"
    unfolding B_def [symmetric] using d(5) nB unfolding B_def [symmetric] by (simp add: s'_def of_nat_diff)
  have "s' = s\<lparr>write_queue_size := write_queue_size s', w_bufs := w_bufs s', w_index := w_index s'\<rparr>"
    by (simp add: s'_def)
  moreover have "if j = length bufs' then unsent s' req = [] else \<exists>bufs. w_bufs s' req = Some bufs \<and> w_index s' req < length bufs"
    using a by (auto simp: s'_def unsent_def)
  ultimately show ?thesis using run ur uo sz by blast
qed

lemma finish_result:
  assumes h: "req_handle s req = h" and q: "write_queue s h = req # rest"
    and empty: "w_error s req = None \<longrightarrow> unsent s req = []"
  shows "write_queue (uv__write_req_finish req s) h = rest"
    "write_completed_queue (uv__write_req_finish req s) h = write_completed_queue s h @ [req]"
    "unsent (uv__write_req_finish req s) = unsent s"
    "req_handle (uv__write_req_finish req s) = req_handle s" "w_error (uv__write_req_finish req s) = w_error s"
    "write_queue_size (uv__write_req_finish req s) = write_queue_size s"
    "r \<noteq> req \<Longrightarrow> w_bufs (uv__write_req_finish req s) r = w_bufs s r"
    "w_index (uv__write_req_finish req s) = w_index s"
    "io_fd (uv__write_req_finish req s) = io_fd s" "os (uv__write_req_finish req s) = os s"
    "flags (uv__write_req_finish req s) = flags s" "htype (uv__write_req_finish req s) = htype s"
    "io_ok (uv__write_req_finish req s) = io_ok s"
proof -
  have "unsent (uv__write_req_finish req s) r = unsent s r" for r
    using empty by (auto simp: uv__write_req_finish_def Let_def uv__io_feed_def unsent_def split: option.split)
  then show "unsent (uv__write_req_finish req s) = unsent s" by blast
  show "io_ok (uv__write_req_finish req s) = io_ok s"
    by (intro io_ok_cong) (simp_all add: uv__write_req_finish_def Let_def uv__io_feed_def)
qed (use h q in \<open>simp_all add: uv__write_req_finish_def Let_def uv__io_feed_def\<close>)

lemma queue_bytes_unsent: "unsent s' = unsent s \<Longrightarrow> queue_bytes s' = queue_bytes s"
  by (intro ext) (simp add: queue_bytes_def)

lemma finish_ok:
  assumes ok: "distinct (write_queue s h @ write_completed_queue s h)" and q: "write_queue s h = req # rest"
    and rq: "\<And>r. r \<in> set rest \<Longrightarrow> request_ok s h r" and rh: "req_handle s req = h"
    and rc: "\<And>r. r \<in> set (write_completed_queue s h) \<Longrightarrow> req_handle s r = h"
    and sz: "length (queue_bytes s (write_queue s h @ write_completed_queue s h)) < 2 ^ 64"
      "write_queue_size s h = of_nat (length (queue_bytes s (write_queue s h @ write_completed_queue s h)))"
    and empty: "w_error s req = None \<longrightarrow> unsent s req = []"
  shows "stream_ok (uv__write_req_finish req s) h"
proof -
  note f = finish_result [OF rh q empty]
  let ?s = "uv__write_req_finish req s"
  have ne: "r \<noteq> req" if "r \<in> set rest" for r using that ok q by auto
  have b: "queue_bytes ?s = queue_bytes s" by (rule queue_bytes_unsent [OF f(3)])
  have len: "length (queue_bytes s (rest @ write_completed_queue s h @ [req])) =
      length (queue_bytes s (write_queue s h @ write_completed_queue s h))" using q by simp
  have L: "length (queue_bytes ?s (write_queue ?s h @ write_completed_queue ?s h)) =
      length (queue_bytes s (write_queue s h @ write_completed_queue s h))" using len by (simp add: b f(1,2))
  show ?thesis
    unfolding stream_ok_def
  proof (intro conjI ballI)
    show "distinct (write_queue ?s h @ write_completed_queue ?s h)" using ok q f(1,2) by auto
    show "request_ok ?s h r" if "r \<in> set (write_queue ?s h)" for r
      using that rq [of r] ne [of r] f(1,4,5,7,8) by (simp add: request_ok_def)
    show "req_handle ?s r = h" if "r \<in> set (write_completed_queue ?s h)" for r
      using that rc rh f(2,4) by auto
    show "length (queue_bytes ?s (write_queue ?s h @ write_completed_queue ?s h)) < 2 ^ 64"
      unfolding L by (rule sz(1))
    show "write_queue_size ?s h = of_nat (length (queue_bytes ?s (write_queue ?s h @ write_completed_queue ?s h)))"
      unfolding L using f(6) sz(2) by simp
  qed
qed


lemma io_stop_os: "uv__io_stop w e s = Some s' \<Longrightarrow> os s' = os s"
  by (auto simp: uv__io_stop_def set_watcher_at_def Let_def split: if_splits bind_splits)

lemma sends_touched:
  assumes "sends sent h s s1" "io_touched s1 s2" "sent (os s2) = sent (os s1)"
  shows "sends sent h s s2"
proof -
  note t = touched_fields [OF assms(2)] and w = touched_same_writes [OF assms(2)]
  show ?thesis
    using assms(1,3) t(1-3) w same_writes_bytes [OF w] by (simp add: sends_def same_writes_def)
qed

lemma sends_refl [simp]: "sends sent h s s"
  by (simp add: sends_def)

lemma sends_more:
  assumes "sends sent h s s1" "write_queue s1 h = write_queue s h" "write_completed_queue s1 h = write_completed_queue s h"
    and "sends sent h s1 s2"
  shows "sends sent h s s2"
  using assms by (simp add: sends_def)

text \<open>
  One turn of the loop in \<open>uv__write\<close>: the first request is finished, or is tried again or waits for
  \<open>POLLOUT\<close>, or has failed.
\<close>

lemma write_turn:
  assumes K: "wire K sent" and ok: "stream_ok s h" and q: "write_queue s h = req # rest"
    and sb: "sendable s (w_send_handle s req)"
  shows "\<exists>s1. sends sent h s s1 \<and> stream_ok s1 h \<and> io_ok s1 = io_ok s \<and>
    (write_loop K h s = Some s1 \<or>
     write_loop K h s = (if has_flag s h UV_HANDLE_BLOCKING_WRITES then write_loop K h s1 else uv__io_start (ioK K) h POLLOUT s1) \<and>
       write_queue s1 h = write_queue s h \<and> write_completed_queue s1 h = write_completed_queue s h \<and>
       (\<forall>r. w_send_handle s1 r = None \<or> w_send_handle s1 r = w_send_handle s r) \<or>
     write_loop K h s = uv__io_stop h POLLOUT s1)"
proof -
  note d = stream_okD [OF ok]
  obtain bufs where b: "w_bufs s req = Some bufs" "w_index s req < length bufs"
    and rq: "req_handle s req = h" "w_error s req = None"
    using d(2) [of req] q by (auto simp: request_ok_def)
  have u: "unsent s req = concat (drop (w_index s req) bufs)" using b by (simp add: unsent_def)
  obtain n w' where t: "uv__try_write K h (drop (w_index s req) bufs) (w_send_handle s req) s = Some (n, s\<lparr>os := w'\<rparr>)"
    "case n of Inl _ \<Rightarrow> sent w' = sent (os s)
     | Inr n \<Rightarrow> n \<le> length (unsent s req) \<and>
         sent w' = (sent (os s))(io_fd s h := sent (os s) (io_fd s h) @ take n (unsent s req))"
    using try_write_result [OF K sb, of h "drop (w_index s req) bufs"] unfolding u by blast
  show ?thesis
  proof (cases n)
    case (Inl e)
    let ?s = "s\<lparr>os := w'\<rparr>"
    have sw: "same_writes s ?s" by (simp add: same_writes_def)
    have sent: "sent w' = sent (os s)" using t(2) Inl by simp
    show ?thesis
    proof (cases "e = UV_EAGAIN")
      case True
      have "write_loop K h s = (if has_flag s h UV_HANDLE_BLOCKING_WRITES then write_loop K h ?s else uv__io_start (ioK K) h POLLOUT ?s)"
        using q rq b t(1) Inl True by (subst write_loop.simps) (simp add: has_flag_def)
      moreover have "sends sent h s ?s" using sent same_writes_bytes [OF sw] by (simp add: sends_def)
      moreover have "io_ok ?s = io_ok s" by (rule io_ok_cong) simp_all
      ultimately show ?thesis using ok same_writes_ok [OF sw] by (intro exI [of _ ?s]) simp
    next
      case False
      define t0 where "t0 = s\<lparr>os := w', w_error := (w_error s)(req := Some e)\<rparr>"
      have f0: "write_queue t0 = write_queue s" "write_completed_queue t0 = write_completed_queue s" "req_handle t0 = req_handle s"
        "write_queue_size t0 = write_queue_size s" "w_bufs t0 = w_bufs s" "w_index t0 = w_index s" "os t0 = w'"
        "w_error t0 req = Some e" "io_fd t0 = io_fd s" "flags t0 = flags s" "htype t0 = htype s"
        by (simp_all add: t0_def)
      have f0i: "io_ok t0 = io_ok s" by (rule io_ok_cong) (simp_all add: t0_def)
      have bt: "queue_bytes t0 = queue_bytes s" by (intro queue_bytes_unsent ext unsent_cong) (simp_all add: f0)
      have run: "write_loop K h s = uv__io_stop h POLLOUT (uv__write_req_finish req t0)"
        using q rq b t(1) Inl False by (subst write_loop.simps) (simp add: t0_def)
      have okf: "stream_ok (uv__write_req_finish req t0) h"
      proof (rule finish_ok)
        show "request_ok t0 h r" if "r \<in> set rest" for r
          using d(2) [of r] that q d(1) by (auto simp: request_ok_def t0_def)
      qed (use d q rq in \<open>simp_all add: f0 bt\<close>)
      have rh: "req_handle t0 req = h" and q0: "write_queue t0 h = req # rest" using rq q by (simp_all add: f0)
      note f = finish_result [OF rh q0]
      have "sends sent h s (uv__write_req_finish req t0)"
        using sent q by (simp add: sends_def f f0 queue_bytes_unsent [OF f(3)] bt)
      then show ?thesis using run okf f(13) f0i f0(8)
        by (intro exI [of _ "uv__write_req_finish req t0"]) simp
    qed
  next
    case (Inr k)
    have k: "k \<le> length (unsent s req)"
      "sent w' = (sent (os s))(io_fd s h := sent (os s) (io_fd s h) @ take k (unsent s req))" using t(2) Inr by simp_all
    define s0 where "s0 = s\<lparr>os := w', w_send_handle := (w_send_handle s)(req := None)\<rparr>"
    have sw: "same_writes s s0" by (simp add: same_writes_def s0_def)
    note ok0 = ok [folded same_writes_ok [OF sw]]
    have b0: "queue_bytes s0 = queue_bytes s" by (rule same_writes_bytes [OF sw])
    have u0: "unsent s0 = unsent s" by (intro ext unsent_cong) (simp_all add: s0_def)
    have f0: "write_queue s0 = write_queue s" "write_completed_queue s0 = write_completed_queue s"
      "req_handle s0 = req_handle s" "w_error s0 = w_error s" using sw by (simp_all add: same_writes_def)
    obtain over s1 where up: "uv__write_req_update h req k s0 = Some (over, s1)"
      "s1 = s0\<lparr>write_queue_size := write_queue_size s1, w_bufs := w_bufs s1, w_index := w_index s1\<rparr>"
      "unsent s1 req = drop k (unsent s req)"
      "\<forall>r. r \<noteq> req \<longrightarrow> unsent s1 r = unsent s r \<and> w_bufs s1 r = w_bufs s0 r \<and> w_index s1 r = w_index s0 r"
      "write_queue_size s1 h = of_nat (length (queue_bytes s1 (write_queue s h @ write_completed_queue s h)))"
      "if over then unsent s1 req = [] else \<exists>bufs. w_bufs s1 req = Some bufs \<and> w_index s1 req < length bufs"
      using req_update_result [OF ok0, of req rest k] q k(1) unfolding u0 f0 by blast
    have f1: "write_queue s1 = write_queue s" "write_completed_queue s1 = write_completed_queue s"
      "req_handle s1 = req_handle s" "w_error s1 = w_error s" "os s1 = w'" "io_fd s1 = io_fd s" "flags s1 = flags s"
      "htype s1 = htype s" "w_send_handle s1 = (w_send_handle s)(req := None)"
      by (subst up(2); simp add: s0_def)+
    have f1i: "io_ok s1 = io_ok s" by (rule io_ok_cong; subst up(2); simp add: s0_def)
    have rest: "queue_bytes s1 xs = queue_bytes s xs" if "req \<notin> set xs" for xs
      using that up(4) by (intro queue_bytes_cong) auto
    have nq: "req \<notin> set rest" "req \<notin> set (write_completed_queue s h)" using d(1) q by auto
    have bytes: "take k (unsent s req) @ queue_bytes s1 (write_queue s h) = queue_bytes s (write_queue s h)"
      unfolding q queue_bytes_simps rest [OF nq(1)] up(3) by simp
    have len: "length (queue_bytes s1 (write_queue s h @ write_completed_queue s h)) < 2 ^ 64"
    proof -
      have "length (queue_bytes s1 (write_queue s h)) \<le> length (queue_bytes s (write_queue s h))"
        using bytes by (metis length_append le_add2)
      then show ?thesis using d(4) rest [OF nq(2)] by simp
    qed
    have s1: "sends sent h s s1" using bytes k(2) by (simp add: sends_def f1)
    show ?thesis
    proof (cases over)
      case True
      have run: "write_loop K h s = Some (uv__write_req_finish req s1)"
        using q rq b t(1) Inr True up(1) by (subst write_loop.simps) (simp add: s0_def)
      have rh: "req_handle s1 req = h" and q1: "write_queue s1 h = req # rest" using rq q by (simp_all add: f1)
      have e: "w_error s1 req = None \<longrightarrow> unsent s1 req = []" using up(6) True by simp
      have okf: "stream_ok (uv__write_req_finish req s1) h"
      proof (rule finish_ok [OF _ q1 _ rh])
        show "request_ok s1 h r" if "r \<in> set rest" for r
        proof -
          have "r \<noteq> req" using that nq by auto
          then show ?thesis using d(2) [of r] that q up(4) f1 sw by (auto simp: request_ok_def same_writes_def)
        qed
      qed (use d(1,3) e len up(5) in \<open>simp_all add: f1\<close>)
      note f = finish_result [OF rh q1]
      have "sends sent h s (uv__write_req_finish req s1)"
        using s1 q e by (simp add: sends_def f f1 queue_bytes_unsent [OF f(3)])
      then show ?thesis using run okf f(13) e f1i by (intro exI [of _ "uv__write_req_finish req s1"]) simp
    next
      case False
      have "stream_ok s1 h"
        unfolding stream_ok_def f1
      proof (intro conjI ballI)
        show "request_ok s1 h r" if "r \<in> set (write_queue s h)" for r
        proof (cases "r = req")
          case True
          then show ?thesis using up(6) False rq by (simp add: request_ok_def f1)
        next
          case ne: False
          then show ?thesis using d(2) [OF that] up(4) f1 sw by (auto simp: request_ok_def same_writes_def)
        qed
      qed (use d len up(5) in simp_all)
      moreover have "write_loop K h s = (if has_flag s h UV_HANDLE_BLOCKING_WRITES then write_loop K h s1 else uv__io_start (ioK K) h POLLOUT s1)"
        using q rq b t(1) Inr False up(1) f1(7) by (subst write_loop.simps) (simp add: s0_def has_flag_def)
      ultimately show ?thesis using s1 f1 f1i by (intro exI [of _ s1]) simp
    qed
  qed
qed


section \<open>Writing without blocking\<close>

lemma ioK_realloc [simp]: "k_realloc (ioK K) = k_realloc K"
  by (simp add: io_kernel.truncate_def)

lemma sends_io_start:
  assumes K: "wire K sent" and s: "sends sent h s s1" "stream_ok s1 h" "io_ok s1"
    and fd: "0 \<le> io_fd s h" "io_fd s h < 2 ^ 31 - 3"
  shows "\<exists>s'. uv__io_start (ioK K) h POLLOUT s1 = Some s' \<and> sends sent h s s' \<and> stream_ok s' h \<and> io_ok s'"
proof -
  have "io_fd s1 h = io_fd s h" using s(1) by (simp add: sends_def)
  then obtain s' where s': "uv__io_start (ioK K) h POLLOUT s1 = Some s'" "io_ok s'" "io_touched s1 s'"
    using io_start_total [OF s(3), of POLLOUT h "ioK K"] fd K by (auto simp: wire_def)
  have "sent (os s') = sent (os s1)" using io_start_sent [OF _ s'(1), of sent] K by (simp add: wire_def)
  then show ?thesis using s' s(2) sends_touched [OF s(1) s'(3)] same_writes_ok [OF touched_same_writes [OF s'(3)]] by blast
qed

lemma write_nonblocking:
  assumes K: "wire K sent" and ok: "stream_ok s h" "io_ok s" and fd: "0 \<le> io_fd s h" "io_fd s h < 2 ^ 31 - 3"
    and nb: "\<not> has_flag s h UV_HANDLE_BLOCKING_WRITES"
    and sb: "\<And>req. req \<in> set (write_queue s h) \<Longrightarrow> sendable s (w_send_handle s req)"
  shows "\<exists>s'. uv__write K h s = Some s' \<and> sends sent h s s' \<and> stream_ok s' h \<and> io_ok s'"
proof -
  have w: "uv__write K h s = write_loop K h s" using fd(1) by (simp add: uv__write_def uv__stream_fd_def)
  show ?thesis
  proof (cases "write_queue s h")
    case Nil
    then have "write_loop K h s = Some s" by (subst write_loop.simps) simp
    then show ?thesis using ok unfolding w by (intro exI [of _ s]) simp
  next
    case (Cons req rest)
    obtain s1 where s1: "sends sent h s s1" "stream_ok s1 h" "io_ok s1 = io_ok s"
      "write_loop K h s = Some s1 \<or> write_loop K h s = uv__io_start (ioK K) h POLLOUT s1 \<or> write_loop K h s = uv__io_stop h POLLOUT s1"
      using write_turn [OF K ok(1) Cons sb] Cons nb by auto
    note io1 = ok(2) [folded s1(3)]
    obtain s2 where s2: "uv__io_start (ioK K) h POLLOUT s1 = Some s2" "sends sent h s s2" "stream_ok s2 h" "io_ok s2"
      using sends_io_start [OF K s1(1,2) io1 fd] by blast
    have f1: "io_fd s1 h = io_fd s h" using s1(1) by (simp add: sends_def)
    obtain s3 where s3: "uv__io_stop h POLLOUT s1 = Some s3" "io_ok s3" "io_touched s1 s3"
      using io_stop_total [OF io1, of POLLOUT h] fd f1 by auto
    have "sends sent h s s3" "stream_ok s3 h"
      using sends_touched [OF s1(1) s3(3)] io_stop_os [OF s3(1)] s1(2) same_writes_ok [OF touched_same_writes [OF s3(3)]] by simp_all
    then show ?thesis using s1 io1 s2 s3 unfolding w by metis
  qed
qed

lemma count_bufs_length: "uv__count_bufs bufs = of_nat (length (concat bufs))"
proof -
  have "foldl (\<lambda>b x. b + of_nat (length x)) n bufs = n + of_nat (length (concat bufs))" for n :: u64
    by (induction bufs arbitrary: n) (simp_all add: algebra_simps)
  from this [of 0] show ?thesis by (simp add: uv__count_bufs_def)
qed

text \<open>The state in which \<open>uv_write2\<close> decides what to do with the new request.\<close>

definition enqueued ::
  "addr \<Rightarrow> addr \<Rightarrow> string list \<Rightarrow> ptr \<Rightarrow> nat option \<Rightarrow> 'w \<Rightarrow> ('w, 'a) stream_loop_scheme \<Rightarrow> ('w, 'a) stream_loop_scheme" where
  "enqueued req h bufs g cb w s =
     s\<lparr>active_reqs := active_reqs s + 1, req_cb := (req_cb s)(req := cb), req_handle := (req_handle s)(req := h),
       w_error := (w_error s)(req := None), w_send_handle := (w_send_handle s)(req := g), os := w,
       w_bufs := (w_bufs s)(req := Some bufs), w_index := (w_index s)(req := 0),
       write_queue_size := (write_queue_size s)(h := write_queue_size s h + uv__count_bufs bufs),
       write_queue := (write_queue s)(h := write_queue s h @ [req])\<rparr>"

lemma enqueued_ok:
  assumes ok: "stream_ok s h" and new: "req \<notin> set (write_queue s h @ write_completed_queue s h)" "bufs \<noteq> []"
    and sz: "length (queue_bytes s (write_queue s h @ write_completed_queue s h)) + length (concat bufs) < 2 ^ 64"
  shows "stream_ok (enqueued req h bufs g cb w s) h"
    "queue_bytes (enqueued req h bufs g cb w s) (write_queue s h @ [req]) = queue_bytes s (write_queue s h) @ concat bufs"
proof -
  let ?s = "enqueued req h bufs g cb w s"
  note d = stream_okD [OF ok]
  have u: "unsent ?s r = (if r = req then concat bufs else unsent s r)" for r
    by (auto simp: unsent_def enqueued_def split: option.split)
  have b: "queue_bytes ?s xs = queue_bytes s xs" if "req \<notin> set xs" for xs
    using that by (intro queue_bytes_cong) (auto simp: u)
  have q: "write_queue ?s h = write_queue s h @ [req]" "write_completed_queue ?s h = write_completed_queue s h"
    by (simp_all add: enqueued_def)
  show bb: "queue_bytes ?s (write_queue s h @ [req]) = queue_bytes s (write_queue s h) @ concat bufs"
    using b [of "write_queue s h"] new by (simp add: u)
  have L: "length (queue_bytes ?s (write_queue ?s h @ write_completed_queue ?s h)) =
      length (queue_bytes s (write_queue s h @ write_completed_queue s h)) + length (concat bufs)"
    using b [of "write_queue s h"] b [of "write_completed_queue s h"] new unfolding q by (simp add: u)
  show "stream_ok ?s h"
    unfolding stream_ok_def
  proof (intro conjI ballI)
    show "distinct (write_queue ?s h @ write_completed_queue ?s h)" using d(1) new unfolding q by auto
    show "request_ok ?s h r" if "r \<in> set (write_queue ?s h)" for r
      using that d(2) [of r] new unfolding q by (auto simp: request_ok_def enqueued_def)
    show "req_handle ?s r = h" if "r \<in> set (write_completed_queue ?s h)" for r
      using that d(3) [of r] unfolding q by (auto simp: enqueued_def)
    show "length (queue_bytes ?s (write_queue ?s h @ write_completed_queue ?s h)) < 2 ^ 64"
      unfolding L by (rule sz)
    show "write_queue_size ?s h = of_nat (length (queue_bytes ?s (write_queue ?s h @ write_completed_queue ?s h)))"
      unfolding L of_nat_add d(5) [symmetric] by (simp add: enqueued_def count_bufs_length)
  qed
qed

lemma write2_cases:
  assumes "bufs \<noteq> []" "htype s h \<in> {UV_TCP, UV_NAMED_PIPE, UV_TTY}"
  obtains (refused) e where "uv_write2 K req h bufs g cb s = Some (Inl e, s)"
  | (no_memory) s' w where "uv_write2 K req h bufs g cb s = Some (Inl UV_ENOMEM, s')" "os s' = w"
      "w = snd (k_malloc K (length bufs * 16) (os s))" "write_queue s' = write_queue s"
      "write_completed_queue s' = write_completed_queue s" "active_reqs s' = active_reqs s + 1"
  | (queued) w where "w = os s \<or> w = snd (k_malloc K (length bufs * 16) (os s))"
      "uv_write2 K req h bufs g cb s = map_option (\<lambda>s. (Inr (), s))
         (let s1 = enqueued req h bufs g cb w s
          in if connect_req s h \<noteq> None then Some s1
             else if write_queue_size s h = 0 then uv__write K h s1
             else if has_flag s h UV_HANDLE_BLOCKING_WRITES then None
             else uv__io_start (ioK K) h POLLOUT s1)"
proof -
  obtain err where err: "uv__check_before_write h (length bufs) g s = Some err"
    using assms by (simp add: uv__check_before_write_def)
  show thesis
  proof (cases "err = Inr ()")
    case False
    then obtain e where "err = Inl e" by (cases err) auto
    then show thesis using refused err by (simp add: uv_write2_def)
  next
    case True
    obtain ok w where m: "k_malloc K (length bufs * 16) (os s) = (ok, w)" by fastforce
    show thesis
    proof (cases "length bufs > 4 \<and> \<not> ok")
      case True
      then show thesis using no_memory err m \<open>err = Inr ()\<close>
        by (simp add: uv_write2_def Let_def sys_def uv__req_register_def)
    next
      case False
      define w' where "w' = (if length bufs > 4 then w else os s)"
      have "uv_write2 K req h bufs g cb s = map_option (\<lambda>s. (Inr (), s))
         (let s1 = enqueued req h bufs g cb w' s
          in if connect_req s h \<noteq> None then Some s1
             else if write_queue_size s h = 0 then uv__write K h s1
             else if has_flag s h UV_HANDLE_BLOCKING_WRITES then None
             else uv__io_start (ioK K) h POLLOUT s1)"
        using False err m \<open>err = Inr ()\<close>
        by (auto simp: uv_write2_def Let_def sys_def uv__req_register_def enqueued_def w'_def has_flag_def
            map_option_case bind_eq_Some_conv split: option.split)
      then show thesis using queued [of w'] m by (auto simp: w'_def)
    qed
  qed
qed


section \<open>The callbacks of requests that are over\<close>

text \<open>A callback that records its request and status in the last field of the state.\<close>

definition record_req ::
  "nat \<Rightarrow> addr \<Rightarrow> status \<Rightarrow> ('w, (addr \<times> status) list) stream_loop_scheme \<Rightarrow> ('w, (addr \<times> status) list) stream_loop_scheme option" where
  "record_req cb req st s = Some (stream_loop.more_update (\<lambda>l. l @ [(req, st)]) s)"

definition reported :: "('w, 'a) stream_loop_scheme \<Rightarrow> addr list \<Rightarrow> (addr \<times> status) list" where
  "reported s rs = map (\<lambda>r. (r, w_error s r)) (filter (\<lambda>r. req_cb s r \<noteq> None) rs)"

lemma more_id: "stream_loop.more_update (\<lambda>l. l) s = s"
  by (cases s rule: stream_loop.cases_scheme) simp

definition called_back ::
  "addr list \<Rightarrow> addr \<Rightarrow> u64 \<Rightarrow> ('w, (addr \<times> status) list) stream_loop_scheme \<Rightarrow> ('w, (addr \<times> status) list) stream_loop_scheme" where
  "called_back pq h n s = stream_loop.more_update (\<lambda>l. l @ reported s pq)
     (s\<lparr>active_reqs := active_reqs s - of_nat (length pq), write_queue_size := (write_queue_size s)(h := n),
        w_bufs := (\<lambda>r. if r \<in> set pq then None else w_bufs s r)\<rparr>)"

lemma write_callbacks_report:
  assumes U: "call_req U = record_req"
    and "distinct pq" "set pq \<inter> set (write_queue s h) = {}" "\<And>r. r \<in> set pq \<Longrightarrow> req_handle s r = h"
    and "length (queue_bytes s (write_queue s h @ pq)) < 2 ^ 64"
    and "write_queue_size s h = of_nat (length (queue_bytes s (write_queue s h @ pq)))"
    and "length pq \<le> unat (active_reqs s)"
  shows "write_callbacks_loop U h pq s = Some (called_back pq h (of_nat (length (queue_bytes s (write_queue s h)))) s)"
  using assms(2-)
proof (induction pq arbitrary: s)
  case Nil
  have "s\<lparr>write_queue_size := (write_queue_size s)(h := write_queue_size s h), w_bufs := w_bufs s\<rparr> = s" by simp
  then show ?case using Nil.prems(5) by (simp add: called_back_def reported_def more_id)
next
  case (Cons r pq)
  let ?Q = "queue_bytes s (write_queue s h)" and ?P = "queue_bytes s pq" and ?u = "unsent s r"
  have "active_reqs s \<noteq> 0" using Cons.prems(6) by auto
  then have ar: "active_reqs s > 0" by (simp add: word_gt_0)
  define s1 where "s1 = s\<lparr>active_reqs := active_reqs s - 1,
    write_queue_size := (write_queue_size s)(h := of_nat (length (?Q @ ?P))), w_bufs := (w_bufs s)(r := None)\<rparr>"
  have sz: "write_queue_size s h = of_nat (length ?Q + length ?P + length ?u)"
    using Cons.prems(5) by (simp add: algebra_simps)
  have small: "length ?Q + length ?P + length ?u < 2 ^ 64" using Cons.prems(4) by simp
  have le: "(of_nat (length ?u) :: u64) \<le> write_queue_size s h"
    unfolding sz word_le_nat_alt using small by (subst (1 2) unat_of_nat64) auto
  have first: "(do {
     s \<leftarrow> uv__req_unregister s;
     (if w_bufs s r \<noteq> None then do {
             sz \<leftarrow> uv__write_req_size s r;
             Some (s\<lparr>write_queue_size := (write_queue_size s)(h := write_queue_size s h - sz),
                     w_bufs := (w_bufs s)(r := None)\<rparr>) }
           else Some s) }) = Some s1"
  proof (cases "w_bufs s r")
    case None
    then have "?u = []" by (simp add: unsent_def)
    then have "write_queue_size s h = of_nat (length (?Q @ ?P))" using sz by simp
    then have "(write_queue_size s)(h := of_nat (length (?Q @ ?P))) = write_queue_size s" by (auto simp: fun_eq_iff)
    moreover have "(w_bufs s)(r := None) = w_bufs s" using None by (auto simp: fun_eq_iff)
    ultimately have "s1 = s\<lparr>active_reqs := active_reqs s - 1\<rparr>" by (simp add: s1_def)
    then show ?thesis using None ar by (simp add: uv__req_unregister_def uv__has_active_reqs_def)
  next
    case (Some bufs)
    have "uv__count_bufs (drop (w_index s r) bufs) = of_nat (length ?u)"
      using Some by (simp add: count_bufs_length unsent_def)
    moreover have "write_queue_size s h - of_nat (length ?u) = of_nat (length (?Q @ ?P))"
      unfolding sz by simp
    moreover have "req_handle s r = h" using Cons.prems(3) by simp
    ultimately show ?thesis using Some ar le
      by (simp add: uv__req_unregister_def uv__has_active_reqs_def uv__write_req_size_def s1_def Let_def)
  qed
  define s2 where "s2 = (if req_cb s r = None then s1 else stream_loop.more_update (\<lambda>l. l @ [(r, w_error s r)]) s1)"
  have f2: "write_queue s2 = write_queue s" "req_handle s2 = req_handle s" "w_error s2 = w_error s" "req_cb s2 = req_cb s"
    "w_index s2 = w_index s" "w_bufs s2 = (w_bufs s)(r := None)" "active_reqs s2 = active_reqs s - 1"
    "write_queue_size s2 = (write_queue_size s)(h := of_nat (length (?Q @ ?P)))"
    by (simp_all add: s2_def s1_def)
  have b2: "queue_bytes s2 xs = queue_bytes s xs" if "r \<notin> set xs" for xs
    using that by (intro queue_bytes_cong unsent_cong) (auto simp: f2)
  have nr: "r \<notin> set pq" "r \<notin> set (write_queue s h)" using Cons.prems(1,2) by auto
  have "write_callbacks_loop U h (r # pq) s = write_callbacks_loop U h pq s2"
  proof -
    have "(case req_cb s1 r of None \<Rightarrow> Some s1 | Some cb \<Rightarrow> call_req U cb r (w_error s1 r) s1) = Some s2"
      by (auto simp: s2_def s1_def U record_req_def split: option.split)
    then show ?thesis using first by (cases "uv__req_unregister s") (simp_all del: fun_upd_apply)
  qed
  also have "\<dots> = Some (called_back pq h (of_nat (length (queue_bytes s2 (write_queue s2 h)))) s2)"
  proof (rule Cons.IH)
    have "unat (active_reqs s - 1) = unat (active_reqs s) - 1" using ar by (simp add: unat_minus_one word_gt_0)
    then show "length pq \<le> unat (active_reqs s2)" using Cons.prems(6) by (simp add: f2)
  qed (use Cons.prems nr small in \<open>simp_all add: f2 b2\<close>)
  also have "called_back pq h (of_nat (length (queue_bytes s2 (write_queue s2 h)))) s2 =
      called_back (r # pq) h (of_nat (length ?Q)) s"
  proof -
    have "reported s2 pq = reported s pq" by (simp add: reported_def f2)
    moreover have "(\<lambda>x. if x \<in> set pq then None else w_bufs s2 x) = (\<lambda>x. if x \<in> set (r # pq) then None else w_bufs s x)"
      by (auto simp: f2)
    moreover have "queue_bytes s2 (write_queue s2 h) = ?Q" using b2 nr by (simp add: f2)
    moreover have "active_reqs s2 - of_nat (length pq) = active_reqs s - of_nat (length (r # pq))"
      by (simp add: f2 diff_diff_eq)
    moreover have "(write_queue_size s2)(h := x) = (write_queue_size s)(h := x)" for x
      unfolding f2 by (rule fun_upd_upd)
    moreover have "reported s (r # pq) = (if req_cb s r = None then [] else [(r, w_error s r)]) @ reported s pq"
      by (simp add: reported_def)
    moreover have "stream_loop.more_update (\<lambda>l. l @ X) (s2\<lparr>active_reqs := a, write_queue_size := q, w_bufs := b\<rparr>) =
        stream_loop.more_update (\<lambda>l. l @ (if req_cb s r = None then [] else [(r, w_error s r)]) @ X)
          (s\<lparr>active_reqs := a, write_queue_size := q, w_bufs := b\<rparr>)" for X a q b
      by (cases "req_cb s r") (simp_all add: s2_def s1_def comp_def del: fun_upd_apply)
    ultimately show ?thesis unfolding called_back_def by (simp only: append_assoc)
  qed
  finally show ?case .
qed


lemma flush_loop_eq:
  "write_queue s h = rs \<Longrightarrow> flush_loop h err rs s =
    s\<lparr>write_queue := (write_queue s)(h := []), w_error := (\<lambda>r. if r \<in> set rs then err else w_error s r),
      write_completed_queue := (write_completed_queue s)(h := write_completed_queue s h @ rs)\<rparr>"
proof (induction rs arbitrary: s)
  case Nil
  then have "(write_queue s)(h := []) = write_queue s" by (auto simp: fun_eq_iff)
  then show ?case by simp
next
  case (Cons r rs)
  let ?s = "s\<lparr>write_queue := (write_queue s)(h := rs), w_error := (w_error s)(r := err),
          write_completed_queue := (write_completed_queue s)(h := write_completed_queue s h @ [r])\<rparr>"
  have "(\<lambda>x. if x \<in> set rs then err else w_error ?s x) = (\<lambda>x. if x \<in> set (r # rs) then err else w_error s x)"
    by auto
  then show ?case using Cons.IH [of ?s] by (simp del: fun_upd_apply add: fun_upd_same)
qed

text \<open>After a flush all requests are in the completed queue.\<close>

lemma flushed_fields:
  fixes h err s
  defines "t \<equiv> uv__stream_flush_write_queue h err s"
  shows "write_queue t h = []" "write_completed_queue t h = write_completed_queue s h @ write_queue s h"
    "w_error t = (\<lambda>r. if r \<in> set (write_queue s h) then err else w_error s r)" "unsent t = unsent s"
    "req_handle t = req_handle s" "write_queue_size t = write_queue_size s" "active_reqs t = active_reqs s"
    "req_cb t = req_cb s" "shutdown_req t = shutdown_req s" "stream_loop.more t = stream_loop.more s"
    "w_bufs t = w_bufs s" "connect_req t = connect_req s" "same_closing s t"
  by (simp_all add: t_def uv__stream_flush_write_queue_def flush_loop_eq fun_eq_iff unsent_def same_closing_def has_flag_def split: option.split)

lemma flush_and_report:
  assumes U: "call_req U = record_req" and ok: "stream_ok s h"
    and ar: "length (write_queue s h) + length (write_completed_queue s h) \<le> unat (active_reqs s)"
  shows "\<exists>s'. uv__write_callbacks U h (uv__stream_flush_write_queue h err s) = Some s' \<and>
    write_queue s' h = [] \<and> write_completed_queue s' h = [] \<and> write_queue_size s' h = 0 \<and>
    stream_loop.more s' = stream_loop.more s @ reported s (write_completed_queue s h) @
      map (\<lambda>r. (r, err)) (filter (\<lambda>r. req_cb s r \<noteq> None) (write_queue s h)) \<and>
    active_reqs s' = active_reqs s - of_nat (length (write_queue s h) + length (write_completed_queue s h)) \<and>
    shutdown_req s' = shutdown_req s \<and> req_cb s' = req_cb s \<and> connect_req s' = connect_req s \<and> same_closing s s'"
proof -
  note d = stream_okD [OF ok]
  define t where "t = uv__stream_flush_write_queue h err s"
  note f = flushed_fields [where h = h and err = err and s = s, folded t_def]
  define pq where "pq = write_completed_queue s h @ write_queue s h"
  define t0 where "t0 = t\<lparr>write_completed_queue := (write_completed_queue t)(h := [])\<rparr>"
  have b: "queue_bytes t0 = queue_bytes s"
  proof (rule queue_bytes_unsent)
    have "unsent t0 = unsent t" by (intro ext unsent_cong) (simp_all add: t0_def)
    then show "unsent t0 = unsent s" using f(4) by simp
  qed
  have rp: "reported t0 pq = reported s (write_completed_queue s h) @
      map (\<lambda>r. (r, err)) (filter (\<lambda>r. req_cb s r \<noteq> None) (write_queue s h))"
    using d(1) by (auto simp: reported_def pq_def t0_def f)
  have w0: "write_queue t0 h = []" "write_queue_size t0 = write_queue_size s" using f by (simp_all add: t0_def)
  have loop: "write_callbacks_loop U h pq t0 = Some (called_back pq h 0 t0)"
  proof -
    have "write_callbacks_loop U h pq t0 = Some (called_back pq h (of_nat (length (queue_bytes t0 (write_queue t0 h)))) t0)"
    proof (rule write_callbacks_report [OF U])
      show "length (queue_bytes t0 (write_queue t0 h @ pq)) < 2 ^ 64"
        "write_queue_size t0 h = of_nat (length (queue_bytes t0 (write_queue t0 h @ pq)))"
        using d(4,5) w0 by (simp_all add: b pq_def add.commute)
      show "req_handle t0 r = h" if "r \<in> set pq" for r
        using that d(2,3) f(5) by (auto simp: pq_def t0_def request_ok_def)
    qed (use d(1) f ar in \<open>auto simp: pq_def t0_def\<close>)
    then show ?thesis using f(1) by (simp add: t0_def)
  qed
  show ?thesis
  proof (cases "pq = []")
    case True
    then have "write_queue s h = []" "write_completed_queue s h = []" by (simp_all add: pq_def)
    then show ?thesis using f d(5) unfolding t_def [symmetric]
      by (intro exI [of _ t]) (simp add: uv__write_callbacks_def reported_def)
  next
    case False
    moreover have "write_completed_queue t h = pq" by (simp add: f(2) pq_def)
    ultimately have "uv__write_callbacks U h t = Some (called_back pq h 0 t0)"
      using loop unfolding uv__write_callbacks_def t0_def by simp
    then show ?thesis using rp f unfolding t_def [symmetric]
      by (intro exI [of _ "called_back pq h 0 t0"])
        (simp add: called_back_def t0_def pq_def add.commute same_closing_def has_flag_def)
  qed
qed


text \<open>A connect or shutdown request that is cancelled.\<close>

definition canceled :: "addr \<Rightarrow> ('w, (addr \<times> status) list) stream_loop_scheme \<Rightarrow> ('w, (addr \<times> status) list) stream_loop_scheme" where
  "canceled r s = stream_loop.more_update (\<lambda>l. l @ [(r, Some UV_ECANCELED)]) (s\<lparr>active_reqs := active_reqs s - 1\<rparr>)"

lemma cancel_step:
  assumes "call_req U = record_req" "req_cb s r \<noteq> None" "1 \<le> unat (active_reqs s)"
  shows "(do {
      s \<leftarrow> uv__req_unregister s;
      cb \<leftarrow> req_cb s r;
      s \<leftarrow> call_req U cb r (Some UV_ECANCELED) s;
      Some (f s) }) = Some (f (canceled r s))"
proof -
  have "active_reqs s \<noteq> 0" using assms(3) by auto
  then have "active_reqs s > 0" by (simp add: word_gt_0)
  then show ?thesis using assms(1,2)
    by (auto simp: uv__req_unregister_def uv__has_active_reqs_def record_req_def canceled_def)
qed

lemma unat_minus_nat:
  assumes "n \<le> unat (a :: u32)"
  shows "unat (a - of_nat n) = unat a - n"
proof -
  have "unat a < 2 ^ LENGTH(32)" by (rule unsigned_less)
  then have "n < 2 ^ 32" using assms by simp
  then have u: "unat (of_nat n :: u32) = n" by (simp add: unat_of_nat take_bit_nat_eq_self)
  then have "(of_nat n :: u32) \<le> a" using assms by (simp add: word_le_nat_alt)
  then show ?thesis using u by (simp add: unat_sub)
qed

section \<open>Properties\<close>

text \<open>A kernel that takes two bytes at a time, and a loop with a TCP stream, at 7, for descriptor 5.\<close>

definition two_bytes :: "int \<Rightarrow> string \<Rightarrow> (int \<Rightarrow> string, nat) sys" where
  "two_bytes fd xs w = (Inr (min 2 (length xs)), w(fd := w fd @ take 2 xs))"

definition demo_stream_kernel :: "(int \<Rightarrow> string) stream_kernel" where
  "demo_stream_kernel = io_kernel.extend (fd_kernel.extend
     \<lparr>k_open = (\<lambda>_ _ w. (Inl UV_EMFILE, w)), k_close = (\<lambda>_ w. (Inr (), w)), k_read = (\<lambda>_ _ w. (Inr [], w)),
       k_socket = (\<lambda>_ _ _ w. (Inl UV_EMFILE, w)), k_accept4 = (\<lambda>_ _ w. (Inl UV_EAGAIN, w)),
       k_fionbio = (\<lambda>_ _ w. (Inr (), w)), k_getfl = (\<lambda>_ w. (Inr 0, w)), k_setfl = (\<lambda>_ _ w. (Inr (), w)),
       k_setfd = (\<lambda>_ _ w. (Inr (), w)), k_recvmsg = (\<lambda>_ _ _ w. (Inl UV_EAGAIN, w)),
       k_dup3 = (\<lambda>_ _ _ w. (Inl UV_EMFILE, w)), k_fstat_is_chr = (\<lambda>_ w. (Inr False, w))\<rparr>
     (io_kernel.fields (\<lambda>_ w. (True, w)) (\<lambda>w. (0, w)) (\<lambda>w. (Inl UV_EMFILE, w)) (\<lambda>w. (Inl UV_EMFILE, w))
        (\<lambda>_ _ _ _ _ w. (Inr (), w)) (\<lambda>_ _ _ w. (Inr [], w)) (\<lambda>_ _ _ w. (Inr [], w)) (\<lambda>_ w. (Inr (), w))
        (\<lambda>w. (Inl UV_EMFILE, w)) two_bytes))
     (stream_kernel.fields (\<lambda>fd v. two_bytes fd (concat v)) (\<lambda>fd v g. two_bytes fd (concat v)) (\<lambda>_ w. (Inr (), w))
        (\<lambda>_ w. (None, w)) (\<lambda>_ _ w. (Inr (), w)) (\<lambda>_ w. (True, w)) id (\<lambda>_ w. (Inl UV_EINVAL, w))
        (\<lambda>_ _ w. (Inr (), w)) (\<lambda>_ _ w. (Inr (), w)) (\<lambda>_ _ w. (Inr (), w)))"

definition demo_stream_loop :: "(int \<Rightarrow> string, (addr \<times> status) list) stream_loop_scheme" where
  "demo_stream_loop = stream_loop.extend (core_loop.extend (async_loop.extend (poll_loop.extend (io_loop.extend
     (watcher_loop.extend (empty_watcher_loop ())
       (io_loop.fields (\<lambda>_. UV__STREAM_IO) (\<lambda>_. 5) (\<lambda>_. 0) (\<lambda>_. 0) None 0 0 3 0 0 [] 0 0 (\<lambda>_. [])))
     (poll_loop.fields False False)) (async_loop.fields (\<lambda>_. None) (\<lambda>_. 0) (-1)))
     (core_loop.fields (\<lambda>_. None) (\<lambda>_. 0) (\<lambda>_. 0)))
     (stream_loop.fields (-1) False (\<lambda>_. None) (\<lambda>_. None) (\<lambda>_. None) (\<lambda>_. None) (\<lambda>_. None) (\<lambda>_. -1) (\<lambda>_. None)
        (\<lambda>_. None) (\<lambda>_. []) (\<lambda>_. []) (\<lambda>_. 0) (\<lambda>_. False) (\<lambda>_. 0) (\<lambda>_. Some 1) (\<lambda>_. None) (\<lambda>_. 0) (\<lambda>_. None) (\<lambda>_. None)))
     []\<lparr>flags := \<lambda>_. UV_HANDLE_WRITABLE, htype := \<lambda>_. UV_TCP\<rparr>"

lemmas demo_stream_defs = demo_stream_loop_def empty_watcher_loop_def watcher_loop.defs io_loop.defs poll_loop.defs
  async_loop.defs core_loop.defs stream_loop.defs

lemma demo_stream_fields:
  "flags demo_stream_loop = (\<lambda>_. UV_HANDLE_WRITABLE)" "htype demo_stream_loop = (\<lambda>_. UV_TCP)"
  "io_fd demo_stream_loop = (\<lambda>_. 5)" "io_pevents demo_stream_loop = (\<lambda>_. 0)" "watchers demo_stream_loop = None"
  "nwatchers demo_stream_loop = 0" "nfds demo_stream_loop = 0" "os demo_stream_loop = (\<lambda>_. [])"
  "write_queue demo_stream_loop = (\<lambda>_. [])" "write_completed_queue demo_stream_loop = (\<lambda>_. [])"
  "write_queue_size demo_stream_loop = (\<lambda>_. 0)" "connect_req demo_stream_loop = (\<lambda>_. None)"
  "shutdown_req demo_stream_loop = (\<lambda>_. None)" "req_cb demo_stream_loop = (\<lambda>_. Some 1)"
  "stream_loop.more demo_stream_loop = []" "active_reqs demo_stream_loop = 0"
  by (simp_all add: demo_stream_defs)

lemma demo_stream_ok: "stream_ok demo_stream_loop 7" "io_ok demo_stream_loop"
  by (simp_all add: stream_ok_def io_ok_def demo_stream_fields)

lemma two_bytes_prefix: "takes_prefix (\<lambda>w. w) fd xs (two_bytes fd xs)"
proof -
  have "take (min 2 (length xs)) xs = take 2 xs" by (simp add: min_def)
  then show ?thesis by (auto simp: takes_prefix_def two_bytes_def ends_def intro: exI [of _ 0])
qed

lemma demo_wire: "wire demo_stream_kernel (\<lambda>w. w)"
  by (simp add: wire_def demo_stream_kernel_def fd_kernel.defs io_kernel.defs stream_kernel.defs two_bytes_prefix)

text \<open>
  C3: \<open>uv_write2\<close> on a stream that is not blocking returns, for a kernel that takes any prefix of what it
  is given or fails.  When it returns 0 the new request is behind the others, the requests finished are
  the first ones of the queue, and what the kernel has taken for the descriptor, followed by what the
  requests still have, has grown by exactly the new buffers: nothing is lost, repeated or reordered,
  and \<open>write_queue_size\<close> (in \<open>stream_ok\<close>) is the number of bytes left.  When it returns an error nothing
  has been written or queued.
\<close>

theorem write_keeps_the_order:
  assumes "wire K sent" and "stream_ok s h" and "io_ok s" and "0 \<le> io_fd s h" and "io_fd s h < 2 ^ 31 - 3"
    and "\<not> has_flag s h UV_HANDLE_BLOCKING_WRITES" and "htype s h \<in> {UV_TCP, UV_NAMED_PIPE, UV_TTY}"
    and "\<And>r. r \<in> set (write_queue s h) \<Longrightarrow> sendable s (w_send_handle s r)" and "sendable s g"
    and "req \<notin> set (write_queue s h @ write_completed_queue s h)" and "bufs \<noteq> []"
    and "length (queue_bytes s (write_queue s h @ write_completed_queue s h)) + length (concat bufs) < 2 ^ 64"
  shows "\<exists>r s'. uv_write2 K req h bufs g cb s = Some (r, s') \<and>
    (case r of
       Inl _ \<Rightarrow> sent (os s') = sent (os s) \<and> write_queue s' = write_queue s \<and> write_completed_queue s' = write_completed_queue s
     | Inr _ \<Rightarrow> stream_ok s' h \<and>
         (\<exists>over. write_queue s h @ [req] = over @ write_queue s' h \<and>
            write_completed_queue s' h = write_completed_queue s h @ over) \<and>
         sent (os s') (io_fd s h) @ queue_bytes s' (write_queue s h @ [req]) =
           sent (os s) (io_fd s h) @ queue_bytes s (write_queue s h) @ concat bufs \<and>
         (\<forall>fd. fd \<noteq> io_fd s h \<longrightarrow> sent (os s') fd = sent (os s) fd))"
proof (cases rule: write2_cases [OF assms(11,7), of K req g cb], goal_cases)
  case (1 e)
  then show ?thesis by auto
next
  case (2 s' w)
  then show ?thesis using assms(1) by (auto simp: wire_def)
next
  case (3 w)
  let ?s1 = "enqueued req h bufs g cb w s"
  note e = enqueued_ok [OF assms(2,10-12), of g cb w]
  have w: "sent w = sent (os s)" using 3(1) assms(1) by (auto simp: wire_def)
  have f: "write_queue ?s1 h = write_queue s h @ [req]" "write_completed_queue ?s1 h = write_completed_queue s h"
    "io_fd ?s1 = io_fd s" "flags ?s1 = flags s" "os ?s1 = w" "has_flag ?s1 h UV_HANDLE_BLOCKING_WRITES = has_flag s h UV_HANDLE_BLOCKING_WRITES"
    by (simp_all add: enqueued_def has_flag_def)
  have io: "io_ok ?s1" using assms(3) io_ok_cong [of ?s1 s] by (simp add: enqueued_def)
  have fd: "0 \<le> io_fd ?s1 h" "io_fd ?s1 h < 2 ^ 31 - 3" using assms(4,5) f(3) by simp_all
  have "\<exists>s'. uv_write2 K req h bufs g cb s = Some (Inr (), s') \<and> sends sent h ?s1 s' \<and> stream_ok s' h"
  proof -
    have "sendable ?s1 (w_send_handle ?s1 r)" if "r \<in> set (write_queue ?s1 h)" for r
      using that assms(8) [of r] assms(9,10) unfolding f(1)
      by (auto simp: sendable_def enqueued_def uv__is_closing_def has_flag_def uv__handle_fd_def split: option.splits)
    from write_nonblocking [OF assms(1) e(1) io fd _ this] assms(6) f(6)
    obtain s2 where "uv__write K h ?s1 = Some s2" "sends sent h ?s1 s2" "stream_ok s2 h" by auto
    moreover obtain s3 where "uv__io_start (ioK K) h POLLOUT ?s1 = Some s3" "sends sent h ?s1 s3" "stream_ok s3 h"
      using sends_io_start [OF assms(1) sends_refl e(1) io fd] by blast
    ultimately show ?thesis using 3(2) assms(6) e(1) by (simp add: Let_def split: if_splits)
  qed
  then obtain s' where s': "uv_write2 K req h bufs g cb s = Some (Inr (), s')" "sends sent h ?s1 s'" "stream_ok s' h" by blast
  have "(\<exists>over. write_queue s h @ [req] = over @ write_queue s' h \<and> write_completed_queue s' h = write_completed_queue s h @ over) \<and>
    sent (os s') (io_fd s h) @ queue_bytes s' (write_queue s h @ [req]) =
      sent (os s) (io_fd s h) @ queue_bytes s (write_queue s h) @ concat bufs \<and>
    (\<forall>fd. fd \<noteq> io_fd s h \<longrightarrow> sent (os s') fd = sent (os s) fd)"
    using s'(2) unfolding sends_def f e(2) w by blast
  then show ?thesis using s'(1,3) by (intro exI [of _ "Inr ()"] exI [of _ s']) simp
qed

theorem write_keeps_the_order_witness:
  "\<exists>r s'. uv_write2 demo_stream_kernel 9 7 [''abc'', ''d''] None (Some 1) demo_stream_loop = Some (r, s') \<and>
    (case r of Inl _ \<Rightarrow> os s' = (\<lambda>_. []) | Inr _ \<Rightarrow> os s' 5 @ unsent s' 9 = ''abcd'')"
proof -
  obtain r s' where "uv_write2 demo_stream_kernel 9 7 [''abc'', ''d''] None (Some 1) demo_stream_loop = Some (r, s')"
    "case r of
       Inl _ \<Rightarrow> os s' = os demo_stream_loop \<and> write_queue s' = write_queue demo_stream_loop \<and>
         write_completed_queue s' = write_completed_queue demo_stream_loop
     | Inr _ \<Rightarrow> stream_ok s' 7 \<and>
         (\<exists>over. write_queue demo_stream_loop 7 @ [9] = over @ write_queue s' 7 \<and>
            write_completed_queue s' 7 = write_completed_queue demo_stream_loop 7 @ over) \<and>
         os s' (io_fd demo_stream_loop 7) @ queue_bytes s' (write_queue demo_stream_loop 7 @ [9]) =
           os demo_stream_loop (io_fd demo_stream_loop 7) @ queue_bytes demo_stream_loop (write_queue demo_stream_loop 7) @ concat [''abc'', ''d''] \<and>
         (\<forall>fd. fd \<noteq> io_fd demo_stream_loop 7 \<longrightarrow> os s' fd = os demo_stream_loop fd)"
    using write_keeps_the_order [OF demo_wire demo_stream_ok, of None 9 "[''abc'', ''d'']" "Some 1"]
    by (auto simp: demo_stream_fields has_flag_def sendable_def)
  then show ?thesis by (cases r) (simp_all add: demo_stream_fields)
qed


lemma stream_destroy_result:
  assumes "call_req U = record_req" and "stream_ok s h" and "io_pevents s h AND (POLLIN OR POLLOUT) = 0"
    and "has_flag s h UV_HANDLE_CLOSED"
    and "\<And>r. connect_req s h = Some r \<or> shutdown_req s h = Some r \<Longrightarrow> req_cb s r \<noteq> None"
    and "card (set_option (connect_req s h)) + card (set_option (shutdown_req s h)) +
      length (write_queue s h) + length (write_completed_queue s h) \<le> unat (active_reqs s)"
  shows "\<exists>s'. uv__stream_destroy U h s = Some s' \<and>
    stream_loop.more s' = stream_loop.more s @
      (case connect_req s h of None \<Rightarrow> [] | Some r \<Rightarrow> [(r, Some UV_ECANCELED)]) @
      reported s (write_completed_queue s h) @
      map (\<lambda>r. (r, Some UV_ECANCELED)) (filter (\<lambda>r. req_cb s r \<noteq> None) (write_queue s h)) @
      (case shutdown_req s h of None \<Rightarrow> [] | Some r \<Rightarrow> [(r, Some UV_ECANCELED)]) \<and>
    write_queue s' h = [] \<and> write_completed_queue s' h = [] \<and> connect_req s' h = None \<and> shutdown_req s' h = None \<and>
    unat (active_reqs s') + card (set_option (connect_req s h)) + card (set_option (shutdown_req s h)) +
      length (write_queue s h) + length (write_completed_queue s h) = unat (active_reqs s) \<and>
    same_closing s s'"
proof -
  let ?c = "connect_req s h" and ?d = "shutdown_req s h"
  define s1 where "s1 = (case ?c of None \<Rightarrow> s | Some r \<Rightarrow> (canceled r s)\<lparr>connect_req := (connect_req s)(h := None)\<rparr>)"
  have n1: "1 \<le> unat (active_reqs s)" if "?c = Some r" for r using assms(6) that by simp
  have c: "(case ?c of None \<Rightarrow> Some s | Some r \<Rightarrow> do {
              s \<leftarrow> uv__req_unregister s;
              cb \<leftarrow> req_cb s r;
              s \<leftarrow> call_req U cb r (Some UV_ECANCELED) s;
              Some (s\<lparr>connect_req := (connect_req s)(h := None)\<rparr>) }) = Some s1"
  proof (cases ?c)
    case None
    then show ?thesis by (simp add: s1_def)
  next
    case (Some r)
    have "req_cb s r \<noteq> None" using assms(5) Some by blast
    from cancel_step [OF assms(1) this n1 [OF Some], where f = "\<lambda>s. s\<lparr>connect_req := (connect_req s)(h := None)\<rparr>"]
    show ?thesis using Some by (simp add: s1_def canceled_def)
  qed
  have f1: "shutdown_req s1 = shutdown_req s" "req_cb s1 = req_cb s" "write_queue s1 = write_queue s"
    "write_completed_queue s1 = write_completed_queue s" "w_error s1 = w_error s" "connect_req s1 h = None" "same_writes s s1"
    "stream_loop.more s1 = stream_loop.more s @ (case ?c of None \<Rightarrow> [] | Some r \<Rightarrow> [(r, Some UV_ECANCELED)])"
    by (simp_all add: s1_def canceled_def same_writes_def split: option.split)
  have a1: "unat (active_reqs s1) + card (set_option ?c) = unat (active_reqs s)"
    using n1 unat_minus_nat [of 1 "active_reqs s"] by (cases ?c) (simp_all add: s1_def canceled_def)
  have ok1: "stream_ok s1 h" using assms(2) same_writes_ok [OF f1(7)] by simp
  have "reported s1 = reported s" by (simp add: reported_def f1 fun_eq_iff)
  moreover have "length (write_queue s1 h) + length (write_completed_queue s1 h) \<le> unat (active_reqs s1)"
    using assms(6) a1 by (simp add: f1)
  ultimately obtain s2 where s2: "uv__write_callbacks U h (uv__stream_flush_write_queue h (Some UV_ECANCELED) s1) = Some s2"
    "write_queue s2 h = []" "write_completed_queue s2 h = []" "write_queue_size s2 h = 0"
    "stream_loop.more s2 = stream_loop.more s1 @ reported s (write_completed_queue s h) @
      map (\<lambda>r. (r, Some UV_ECANCELED)) (filter (\<lambda>r. req_cb s r \<noteq> None) (write_queue s h))"
    "active_reqs s2 = active_reqs s1 - of_nat (length (write_queue s h) + length (write_completed_queue s h))"
    "shutdown_req s2 = shutdown_req s" "req_cb s2 = req_cb s"  "connect_req s2 h = None" "same_closing s1 s2"
    using flush_and_report [OF assms(1) ok1, of "Some UV_ECANCELED"] f1 by auto
  have a2: "unat (active_reqs s2) = unat (active_reqs s1) - (length (write_queue s h) + length (write_completed_queue s h))"
    unfolding s2(6) using assms(6) a1 by (intro unat_minus_nat) simp
  define s3 where "s3 = (case ?d of None \<Rightarrow> s2 | Some r \<Rightarrow> (canceled r s2)\<lparr>shutdown_req := (shutdown_req s2)(h := None)\<rparr>)"
  have n2: "1 \<le> unat (active_reqs s2)" if "?d = Some r" for r using assms(6) that a1 a2 by simp
  have d: "(case shutdown_req s2 h of None \<Rightarrow> Some s2 | Some r \<Rightarrow> do {
              s \<leftarrow> uv__req_unregister s2;
              cb \<leftarrow> req_cb s r;
              s \<leftarrow> call_req U cb r (Some UV_ECANCELED) s;
              Some (s\<lparr>shutdown_req := (shutdown_req s)(h := None)\<rparr>) }) = Some s3"
  proof (cases ?d)
    case None
    then show ?thesis by (simp add: s3_def s2)
  next
    case (Some r)
    have "req_cb s2 r \<noteq> None" using assms(5) Some s2(8) by auto
    from cancel_step [OF assms(1) this n2 [OF Some], where f = "\<lambda>s. s\<lparr>shutdown_req := (shutdown_req s)(h := None)\<rparr>"]
    show ?thesis using Some by (simp add: s3_def canceled_def s2)
  qed
  have a3: "unat (active_reqs s3) + card (set_option ?d) = unat (active_reqs s2)"
    using n2 unat_minus_nat [of 1 "active_reqs s2"] by (cases ?d) (simp_all add: s3_def canceled_def)
  have f3: "write_queue s3 h = []" "write_completed_queue s3 h = []" "write_queue_size s3 h = 0" "connect_req s3 h = None"
    "shutdown_req s3 h = None"
    "stream_loop.more s3 = stream_loop.more s2 @ (case ?d of None \<Rightarrow> [] | Some r \<Rightarrow> [(r, Some UV_ECANCELED)])"
    using s2 by (simp_all add: s3_def canceled_def split: option.split)
  have k: "same_closing s s1" "same_closing s2 s3"
    by (simp_all add: s1_def s3_def canceled_def same_closing_def has_flag_def split: option.split)
  have kept: "same_closing s s3" using same_closing_trans [OF k(1) same_closing_trans [OF s2(10) k(2)]] .
  have act: "uv__io_active s h (POLLIN OR POLLOUT) = Some False" using assms(3) by (simp add: uv__io_active_def)
  have "uv__stream_destroy U h s = Some s3"
    unfolding uv__stream_destroy_def act using assms(4) c s2(1) d f3(3) by (simp add: Let_def)
  then show ?thesis using f3 s2(5) f1(8) a1 a2 a3 assms(6) kept by (intro exI [of _ s3]) simp
qed

text \<open>
  C14: \<open>uv__stream_destroy\<close> of a closed stream whose requests have callbacks and are counted by the loop
  returns (the assertion on \<open>write_queue_size\<close> holds) and calls every callback that is owed once: the
  connect request with \<open>UV_ECANCELED\<close>, the write requests that are over with their own error, the
  others in the order of the queue with \<open>UV_ECANCELED\<close>, the shutdown request with \<open>UV_ECANCELED\<close>; no
  request is left and the loop counts none of them any more.  The callbacks here only record.
\<close>

theorem destroy_reports_every_request:
  assumes "call_req U = record_req" and "stream_ok s h" and "io_pevents s h AND (POLLIN OR POLLOUT) = 0"
    and "has_flag s h UV_HANDLE_CLOSED"
    and "\<And>r. connect_req s h = Some r \<or> shutdown_req s h = Some r \<Longrightarrow> req_cb s r \<noteq> None"
    and "card (set_option (connect_req s h)) + card (set_option (shutdown_req s h)) +
      length (write_queue s h) + length (write_completed_queue s h) \<le> unat (active_reqs s)"
  shows "\<exists>s'. uv__stream_destroy U h s = Some s' \<and>
    stream_loop.more s' = stream_loop.more s @
      (case connect_req s h of None \<Rightarrow> [] | Some r \<Rightarrow> [(r, Some UV_ECANCELED)]) @
      reported s (write_completed_queue s h) @
      map (\<lambda>r. (r, Some UV_ECANCELED)) (filter (\<lambda>r. req_cb s r \<noteq> None) (write_queue s h)) @
      (case shutdown_req s h of None \<Rightarrow> [] | Some r \<Rightarrow> [(r, Some UV_ECANCELED)]) \<and>
    write_queue s' h = [] \<and> write_completed_queue s' h = [] \<and> connect_req s' h = None \<and> shutdown_req s' h = None \<and>
    unat (active_reqs s') + card (set_option (connect_req s h)) + card (set_option (shutdown_req s h)) +
      length (write_queue s h) + length (write_completed_queue s h) = unat (active_reqs s)"
  using stream_destroy_result [OF assms] by blast

definition demo_destroy :: "(int \<Rightarrow> string, (addr \<times> status) list) stream_loop_scheme" where
  "demo_destroy = demo_stream_loop\<lparr>flags := \<lambda>_. UV_HANDLE_CLOSED, active_reqs := 3, connect_req := \<lambda>_. Some 9,
     write_queue := \<lambda>_. [10], w_bufs := \<lambda>_. Some [''abc''], req_handle := \<lambda>_. 7, write_queue_size := \<lambda>_. 3,
     shutdown_req := \<lambda>_. Some 11\<rparr>"

theorem destroy_reports_every_request_witness:
  "\<exists>U s'. uv__stream_destroy U 7 demo_destroy = Some s' \<and>
    stream_loop.more s' = [(9, Some UV_ECANCELED), (10, Some UV_ECANCELED), (11, Some UV_ECANCELED)] \<and> active_reqs s' = 0"
proof -
  define U :: "(int \<Rightarrow> string, (addr \<times> status) list) stream_loop_scheme stream_calls" where
    "U = \<lparr>call_alloc = (\<lambda>_ _ s. None), call_read = (\<lambda>_ _ _ s. Some s), call_connection = (\<lambda>_ _ _ s. Some s),
       call_req = record_req, udp_open = (\<lambda>_ _ s. None)\<rparr>"
  have U: "call_req U = record_req" by (simp add: U_def)
  have f: "write_queue demo_destroy = (\<lambda>_. [10])" "write_completed_queue demo_destroy = (\<lambda>_. [])" "req_cb demo_destroy = (\<lambda>_. Some 1)"
    "connect_req demo_destroy = (\<lambda>_. Some 9)" "shutdown_req demo_destroy = (\<lambda>_. Some 11)" "active_reqs demo_destroy = 3"
    "stream_loop.more demo_destroy = []" "io_pevents demo_destroy = (\<lambda>_. 0)" "flags demo_destroy = (\<lambda>_. UV_HANDLE_CLOSED)"
    by (simp_all add: demo_destroy_def demo_stream_fields)
  have "w_index demo_destroy = (\<lambda>_. 0)" "w_error demo_destroy = (\<lambda>_. None)" by (simp_all add: demo_destroy_def demo_stream_defs)
  then have ok: "stream_ok demo_destroy 7"
    by (simp add: stream_ok_def request_ok_def f unsent_def) (simp add: demo_destroy_def)
  have "\<exists>s'. uv__stream_destroy U 7 demo_destroy = Some s' \<and>
    stream_loop.more s' = [(9, Some UV_ECANCELED), (10, Some UV_ECANCELED), (11, Some UV_ECANCELED)] \<and>
    unat (active_reqs s') = 0"
    using destroy_reports_every_request [OF U ok] by (auto simp: f has_flag_def reported_def)
  then show ?thesis by (intro exI [of _ U]) (simp add: unat_eq_zero)
qed

text \<open>
  A connect or shutdown request without a callback, which \<open>uv__stream_connect\<close> and \<open>uv__drain\<close>
  allow for, makes \<open>uv__stream_destroy\<close> call through \<open>NULL\<close>.
\<close>

lemma destroy_calls_null:
  assumes "io_pevents s h AND (POLLIN OR POLLOUT) = 0" "connect_req s h = Some r" "req_cb s r = None"
  shows "uv__stream_destroy U h s = None"
  using assms by (auto simp: uv__stream_destroy_def uv__io_active_def uv__req_unregister_def bind_eq_None_conv)

text \<open>
  When the array for more than four buffers cannot be allocated, \<open>uv_write2\<close> fails but the request stays
  counted, and the loop will not end.
\<close>

lemma write2_keeps_failed_request:
  assumes "length bufs > 4" "\<not> fst (k_malloc K (length bufs * 16) (os s))"
    and "uv__check_before_write h (length bufs) g s = Some (Inr ())"
  shows "\<exists>s'. uv_write2 K req h bufs g cb s = Some (Inl UV_ENOMEM, s') \<and> active_reqs s' = active_reqs s + 1"
  using assms
  by (cases "k_malloc K (length bufs * 16) (os s)") (simp add: uv_write2_def Let_def sys_def uv__req_register_def)

end
