(* ===== verification/StreamRead.thy ===== *)
theory StreamRead
  imports StreamWrite
begin

text \<open>
  Reading, accepting and closing in src/unix/stream.c.  The lemmas show that the descriptors a stream
  has received are kept in order or closed, that closing a stream closes every descriptor it holds,
  and that \<open>uv__read\<close> hands the user the bytes of the descriptor in order.
\<close>

section \<open>Descriptors a stream holds\<close>

text \<open>The descriptors \<open>uv_accept\<close> will hand out, in order.\<close>

definition pending_fds :: "('w, 'a) stream_loop_scheme \<Rightarrow> addr \<Rightarrow> int list" where
  "pending_fds s h = (if accepted_fd s h = -1 then [] else [accepted_fd s h]) @
     (case queued_fds s h of None \<Rightarrow> [] | Some (n, fds) \<Rightarrow> fds)"

definition pending_ok :: "('w, 'a) stream_loop_scheme \<Rightarrow> addr \<Rightarrow> bool" where
  "pending_ok s h \<longleftrightarrow> (accepted_fd s h = -1 \<longrightarrow> queued_fds s h = None) \<and>
     (\<forall>n fds. queued_fds s h = Some (n, fds) \<longrightarrow> fds \<noteq> [] \<and> -1 \<notin> set fds)"

lemma pending_cong:
  "accepted_fd s' h = accepted_fd s h \<Longrightarrow> queued_fds s' h = queued_fds s h \<Longrightarrow>
    pending_fds s' h = pending_fds s h \<and> pending_ok s' h = pending_ok s h"
  by (simp add: pending_fds_def pending_ok_def)

text \<open>The kernel, and that its memory and the polling do not touch the table of descriptors.\<close>

definition stream_fd_laws :: "'w stream_kernel \<Rightarrow> ('w \<Rightarrow> int set) \<Rightarrow> bool" where
  "stream_fd_laws K fds \<longleftrightarrow> fd_laws (fdK K) fds \<and>
     (\<forall>n w. fst (k_realloc K n w) \<and> fds (snd (k_realloc K n w)) = fds w) \<and>
     (\<forall>n w. fds (snd (k_malloc K n w)) = fds w) \<and>
     (\<forall>efd op fd ev d. keeps fds (k_epoll_ctl K efd op fd ev d))"

lemma close_fds_closes:
  assumes "fd_laws K fds" "distinct xs" "set xs \<subseteq> fds w" "\<forall>x \<in> set xs. x > 2"
  shows "\<exists>w'. close_fds K xs w = Some w' \<and> fds w' = fds w - set xs"
  using assms(2-)
proof (induction xs arbitrary: w)
  case (Cons x xs)
  obtain w1 where w1: "uv__close K x w = Some (Inr (), w1)" "fds w1 = fds w - {x}"
    using uv__close_ok(1) [OF assms(1), of x w] Cons.prems by auto
  have "set xs \<subseteq> fds w1" using Cons.prems w1(2) by auto
  then obtain w2 where "close_fds K xs w1 = Some w2" "fds w2 = fds w1 - set xs"
    using Cons.IH [of w1] Cons.prems by auto
  then show ?case using w1 by auto
qed simp

text \<open>One descriptor for the queue: it is kept, or there is no memory and nothing has changed.\<close>

lemma queue_fd_result:
  assumes "pending_ok s h" "accepted_fd s h \<noteq> -1" "fd \<noteq> -1"
  obtains (kept) s' where "uv__stream_queue_fd K h fd s = (Inr (), s')" "pending_ok s' h" "accepted_fd s' = accepted_fd s"
      "pending_fds s' h = pending_fds s h @ [fd]" "os s' = os s \<or> (\<exists>n. os s' = snd (k_malloc K n (os s)))"
  | (full) s' where "uv__stream_queue_fd K h fd s = (Inl UV_ENOMEM, s')" "pending_fds s' h = pending_fds s h"
      "\<exists>n. os s' = snd (k_malloc K n (os s))"
proof (cases "queued_fds s h")
  case None
  show thesis
  proof (cases "k_malloc K ((8 - 1) * 4 + 12) (os s)")
    case (Pair ok w)
    then show thesis
    proof (cases ok)
      case True
      let ?s = "s\<lparr>os := w, queued_fds := (queued_fds s)(h := Some (8, [fd]))\<rparr>"
      have "uv__stream_queue_fd K h fd s = (Inr (), ?s)"
        using None Pair True by (simp add: uv__stream_queue_fd_def sys_def)
      moreover have "os ?s = snd (k_malloc K ((8 - 1) * 4 + 12) (os s))" using Pair by simp
      ultimately show thesis using kept [of ?s] assms None by (auto simp: pending_ok_def pending_fds_def)
    next
      case False
      let ?s = "s\<lparr>os := w\<rparr>"
      have "uv__stream_queue_fd K h fd s = (Inl UV_ENOMEM, ?s)"
        using None Pair False by (simp add: uv__stream_queue_fd_def sys_def)
      moreover have "os ?s = snd (k_malloc K ((8 - 1) * 4 + 12) (os s))" using Pair by simp
      ultimately show thesis using full [of ?s] pending_cong [of ?s h s] by auto
    qed
  qed
next
  case (Some q)
  obtain n fds where q: "queued_fds s h = Some (n, fds)" using Some by (cases q) auto
  show thesis
  proof (cases "n = of_nat (length fds)")
    case False
    let ?s = "s\<lparr>queued_fds := (queued_fds s)(h := Some (n, fds @ [fd]))\<rparr>"
    have "uv__stream_queue_fd K h fd s = (Inr (), ?s)" using q False by (simp add: uv__stream_queue_fd_def)
    then show thesis using kept [of ?s] assms q by (auto simp: pending_ok_def pending_fds_def)
  next
    case grow: True
    define k where "k = (unat (n + 8) - 1) * 4 + 12"
    show thesis
    proof (cases "k_malloc K k (os s)")
      case (Pair ok w)
      have os: "w = snd (k_malloc K k (os s))" using Pair by simp
      show thesis
      proof (cases ok)
        case True
        let ?s = "s\<lparr>os := w, queued_fds := (queued_fds s)(h := Some (n + 8, fds @ [fd]))\<rparr>"
        have "uv__stream_queue_fd K h fd s = (Inr (), ?s)"
          using q grow Pair True unfolding uv__stream_queue_fd_def k_def by (simp add: sys_def)
        then show thesis using kept [of ?s] assms q os by (auto simp: pending_ok_def pending_fds_def)
      next
        case False
        let ?s = "s\<lparr>os := w\<rparr>"
        have "uv__stream_queue_fd K h fd s = (Inl UV_ENOMEM, ?s)"
          using q grow Pair False unfolding uv__stream_queue_fd_def k_def by (simp add: sys_def)
        then show thesis using full [of ?s] os pending_cong [of ?s h s] by auto
      qed
    qed
  qed
qed

lemma recv_fds_result:
  assumes K: "stream_fd_laws K fds" and s: "pending_ok s h"
    and xs: "distinct xs" "set xs \<subseteq> fds (os s)" "\<forall>x \<in> set xs. x > 2"
  shows "\<exists>r s' k. recv_fds K h xs s = Some (r, s') \<and> pending_fds s' h = pending_fds s h @ take k xs \<and>
    fds (os s') = fds (os s) - set (drop k xs) \<and> (r = Inr () \<and> length xs \<le> k \<and> pending_ok s' h \<or> r = Inl UV_ENOMEM)"
  using s xs
proof (induction xs arbitrary: s)
  case Nil
  then show ?case by (intro exI [of _ "Inr ()"] exI [of _ s] exI [of _ 0]) simp
next
  case (Cons x xs)
  have mal: "fds (snd (k_malloc K n w)) = fds w" for n w using K by (simp add: stream_fd_laws_def)
  show ?case
  proof (cases "accepted_fd s h = -1")
    case True
    let ?s = "s\<lparr>accepted_fd := (accepted_fd s)(h := x)\<rparr>"
    have p: "pending_fds ?s h = pending_fds s h @ [x]" "pending_ok ?s h"
      using True Cons.prems(1,4) by (auto simp: pending_fds_def pending_ok_def)
    have pre: "distinct xs" "set xs \<subseteq> fds (os ?s)" "\<forall>x \<in> set xs. x > 2" using Cons.prems by simp_all
    obtain r s' k where "recv_fds K h xs ?s = Some (r, s')" "pending_fds s' h = pending_fds ?s h @ take k xs"
      "fds (os s') = fds (os ?s) - set (drop k xs)" "r = Inr () \<and> length xs \<le> k \<and> pending_ok s' h \<or> r = Inl UV_ENOMEM"
      using Cons.IH [OF p(2) pre] by blast
    then show ?thesis using True p(1) by (intro exI [of _ r] exI [of _ s'] exI [of _ "Suc k"]) auto
  next
    case False
    show ?thesis
    proof (cases rule: queue_fd_result [OF Cons.prems(1) False, of x K], goal_cases)
      case 1
      then show ?case using Cons.prems(4) by auto
    next
      case (2 s1)
      have f: "fds (os s1) = fds (os s)" using 2(5) mal by auto
      have pre: "distinct xs" "set xs \<subseteq> fds (os s1)" "\<forall>x \<in> set xs. x > 2" using Cons.prems f by simp_all
      obtain r s' k where "recv_fds K h xs s1 = Some (r, s')" "pending_fds s' h = pending_fds s1 h @ take k xs"
        "fds (os s') = fds (os s1) - set (drop k xs)" "r = Inr () \<and> length xs \<le> k \<and> pending_ok s' h \<or> r = Inl UV_ENOMEM"
        using Cons.IH [OF 2(2) pre] by blast
      then show ?thesis using False 2 f by (intro exI [of _ r] exI [of _ s'] exI [of _ "Suc k"]) auto
    next
      case (3 s1)
      have f: "fds (os s1) = fds (os s)" using 3(3) mal by auto
      have l: "fd_laws (fdK K) fds" using K by (simp add: stream_fd_laws_def)
      obtain w where "close_fds (fdK K) (x # xs) (os s1) = Some w" "fds w = fds (os s1) - set (x # xs)"
        using close_fds_closes [OF l Cons.prems(2), of "os s1"] Cons.prems(3,4) f by auto
      moreover have "pending_fds (s1\<lparr>os := w\<rparr>) h = pending_fds s h"
        using 3(2) pending_cong [of "s1\<lparr>os := w\<rparr>" h s1] by simp
      ultimately show ?thesis using False 3(1) f
        by (intro exI [of _ "Inl UV_ENOMEM"] exI [of _ "s1\<lparr>os := w\<rparr>"] exI [of _ 0]) (simp del: close_fds.simps)
    qed
  qed
qed

lemma io_start_keeps:
  assumes "stream_fd_laws K fds" "uv__io_start (ioK K) h e s = Some s'"
  shows "fds (os s') = fds (os s)"
  using io_start_sent [OF _ assms(2), of fds] assms(1) by (simp add: stream_fd_laws_def)

lemma touched_pending:
  assumes "io_touched s s'"
  shows "accepted_fd s' = accepted_fd s" "queued_fds s' = queued_fds s" "read_cb s' = read_cb s" "alloc_cb s' = alloc_cb s"
  by (subst assms [unfolded io_touched_def]; simp)+

lemma accept_done_next:
  assumes s: "pending_ok s server" "pending_fds s server = fd # rest"
    and io: "io_ok s" "0 \<le> io_fd s server" "io_fd s server < 2 ^ 31 - 3"
    and K: "stream_fd_laws K fds"
  shows "\<exists>s'. accept_done K server err s = Some (err, s') \<and> pending_fds s' server = rest \<and> pending_ok s' server \<and>
    fds (os s') = fds (os s) \<and> io_fd s' = io_fd s \<and> flags s' = flags s \<and> io_ok s'"
proof (cases "queued_fds s server")
  case (Some q)
  then obtain n xs where q: "queued_fds s server = Some (n, xs)" by (cases q) auto
  then obtain x ys where xs: "xs = x # ys" "x \<noteq> -1" "-1 \<notin> set ys" "rest = xs"
    using s by (cases xs) (auto simp: pending_ok_def pending_fds_def split: if_splits)
  let ?s = "s\<lparr>accepted_fd := (accepted_fd s)(server := x),
    queued_fds := (queued_fds s)(server := (if ys = [] then None else Some (n, ys)))\<rparr>"
  have "accept_done K server err s = Some (err, ?s)" using q xs(1) by (simp add: accept_done_def)
  moreover have "pending_fds ?s server = rest" "pending_ok ?s server" using xs by (auto simp: pending_fds_def pending_ok_def)
  moreover have "io_ok ?s = io_ok s" by (rule io_ok_cong) simp_all
  ultimately show ?thesis using io(1) by (intro exI [of _ ?s]) simp
next
  case None
  let ?s = "s\<lparr>accepted_fd := (accepted_fd s)(server := -1)\<rparr>"
  have r: "rest = []" using s(2) None by (auto simp: pending_fds_def split: if_splits)
  have p: "pending_fds ?s server = []" "pending_ok ?s server" using None by (simp_all add: pending_fds_def pending_ok_def)
  have io1: "io_ok ?s" using io(1) io_ok_cong [of ?s s] by simp
  show ?thesis
  proof (cases "err = Inr ()")
    case False
    then have "accept_done K server err s = Some (err, ?s)" using None by (simp add: accept_done_def)
    then show ?thesis using p r io1 by (intro exI [of _ ?s]) simp
  next
    case True
    obtain s' where s': "uv__io_start (ioK K) server POLLIN ?s = Some s'" "io_ok s'" "io_touched ?s s'"
      using io_start_total [OF io1, of POLLIN server "ioK K"] io(2,3) K by (auto simp: stream_fd_laws_def)
    have "pending_fds s' server = [] \<and> pending_ok s' server"
      using pending_cong [of s' server ?s] touched_pending [OF s'(3)] p by simp
    moreover have "accept_done K server err s = Some (err, s')" using None True s'(1) by (simp add: accept_done_def)
    ultimately show ?thesis using touched_fields [OF s'(3)] io_start_keeps [OF K s'(1)] s'(2) r
      by (intro exI [of _ s']) simp
  qed
qed

text \<open>Opening a stream touches its flags, options and descriptor only.\<close>

lemma tcp_options_keep:
  assumes "\<And>fd opt. keeps fds (k_setsockopt K fd opt)"
  shows "fds (snd (uv__tcp_keepalive K fd on delay w)) = fds w" "fds (snd (uv__tcp_nodelay K fd on w)) = fds w"
proof -
  have k: "fds w' = fds w" if "k_setsockopt K fd opt w = (r, w')" for opt w r w'
    using assms [of fd opt] that by (auto simp: keeps_def dest!: spec [of _ w])
  have k': "fds (snd (k_setsockopt K fd opt w)) = fds w" for opt w using assms by (simp add: keeps_def)
  show "fds (snd (uv__tcp_keepalive K fd on delay w)) = fds w"
    unfolding uv__tcp_keepalive_def by (auto simp: k' split: prod.splits sum.splits dest!: k)
  show "fds (snd (uv__tcp_nodelay K fd on w)) = fds w"
    using assms by (simp add: uv__tcp_nodelay_def keeps_def)
qed


lemma stream_open_result:
  assumes "io_fd s h = -1" "fd \<ge> 0" "\<And>fd opt. keeps fds (k_setsockopt K fd opt)"
  shows "\<exists>r s'. uv__stream_open K h fd fl s = Some (r, s') \<and> fds (os s') = fds (os s) \<and>
    s' = s\<lparr>flags := (flags s)(h := flags s h OR fl), os := os s', io_fd := io_fd s'\<rparr> \<and>
    io_fd s' = (if r = Inr () then (io_fd s)(h := fd) else io_fd s)"
proof -
  let ?t = "set_flag h fl s"
  define o1 where "o1 = (if has_flag ?t h UV_HANDLE_TCP_NODELAY then sys (uv__tcp_nodelay K fd True) ?t else (Inr (), ?t))"
  obtain r1 s1 where s1: "o1 = (r1, s1)" by (cases o1)
  have t: "?t = s\<lparr>flags := (flags s)(h := flags s h OR fl)\<rparr>" by (simp add: set_flag_def)
  have "s1 = ?t\<lparr>os := os s1\<rparr> \<and> fds (os s1) = fds (os s)"
    using s1 tcp_options_keep(2) [of fds K fd True "os s", OF assms(3)]
    by (auto simp: o1_def sys_def t split: if_splits prod.splits)
  then obtain w1 where f1: "s1 = ?t\<lparr>os := w1\<rparr>" "fds w1 = fds (os s)" by blast
  define o2 where "o2 = (if has_flag s1 h UV_HANDLE_TCP_KEEPALIVE then sys (uv__tcp_keepalive K fd True 60) s1 else (Inr (), s1))"
  obtain r2 s2 where s2: "o2 = (r2, s2)" by (cases o2)
  have "s2 = s1\<lparr>os := os s2\<rparr> \<and> fds (os s2) = fds (os s1)"
    using s2 tcp_options_keep(1) [of fds K fd True 60 "os s1", OF assms(3)]
    by (auto simp: o2_def sys_def split: if_splits prod.splits)
  then obtain w2 where f2: "s2 = s1\<lparr>os := w2\<rparr>" "fds w2 = fds (os s1)" by blast
  show ?thesis
  proof (cases "htype s h = UV_TCP")
    case False
    then have "uv__stream_open K h fd fl s = Some (Inr (), ?t\<lparr>io_fd := (io_fd s)(h := fd)\<rparr>)"
      using assms(1,2) by (simp add: uv__stream_open_def uv_assert_def t)
    then show ?thesis by (intro exI [of _ "Inr ()"] exI [of _ "?t\<lparr>io_fd := (io_fd s)(h := fd)\<rparr>"]) (simp add: t)
  next
    case True
    have ht: "htype ?t h = UV_TCP" using True by (simp add: t)
    have eq: "uv__stream_open K h fd fl s = (case (case o1 of (r, s) \<Rightarrow> (case r of Inl e \<Rightarrow> (Inl e, s)
          | Inr _ \<Rightarrow> if has_flag s h UV_HANDLE_TCP_KEEPALIVE then sys (uv__tcp_keepalive K fd True 60) s else (Inr (), s))) of
        (r, s) \<Rightarrow> (case r of Inl e \<Rightarrow> Some (Inl e, s) | Inr _ \<Rightarrow> Some (Inr (), s\<lparr>io_fd := (io_fd s)(h := fd)\<rparr>)))"
      unfolding uv__stream_open_def Let_def o1_def using assms(1,2) ht by (simp only: uv_assert_def if_True if_False simp_thms bind.bind_lunit)
    show ?thesis
    proof (cases r1)
      case (Inl e)
      then have "uv__stream_open K h fd fl s = Some (Inl e, s1)"
        using s1 by (simp add: eq)
      then show ?thesis using f1 by (intro exI [of _ "Inl e"] exI [of _ s1]) (simp add: t)
    next
      case (Inr u)
      show ?thesis
      proof (cases r2)
        case (Inl e)
        then have "uv__stream_open K h fd fl s = Some (Inl e, s2)"
          using s1 Inr s2 by (simp add: eq o2_def [symmetric])
        then show ?thesis using f1 f2 by (intro exI [of _ "Inl e"] exI [of _ s2]) (simp add: t)
      next
        case r2: (Inr u2)
        let ?s = "s2\<lparr>io_fd := (io_fd s2)(h := fd)\<rparr>"
        have "uv__stream_open K h fd fl s = Some (Inr (), ?s)"
          using s1 Inr s2 r2 by (simp add: eq o2_def [symmetric])
        then show ?thesis using f1 f2 by (intro exI [of _ "Inr ()"] exI [of _ ?s]) (simp add: t)
      qed
    qed
  qed
qed


text \<open>What an accept leaves alone: the server's descriptors and the array of watchers.\<close>

lemma io_ok_other_fd:
  assumes "io_ok s" "io_fd s h = -1"
  shows "io_ok (s\<lparr>flags := fl, os := w, io_fd := (io_fd s)(h := fd)\<rparr>)"
proof -
  have "io_cells (s\<lparr>flags := fl, os := w, io_fd := (io_fd s)(h := fd)\<rparr>) ws" if cells: "io_cells s ws" for ws
    unfolding io_cells_def
  proof (intro allI impI)
    fix i assume i: "i < unat (nwatchers (s\<lparr>flags := fl, os := w, io_fd := (io_fd s)(h := fd)\<rparr>))"
    show "ws ! i = SNull \<or> (\<exists>v. ws ! i = SWatch v \<and>
        io_fd (s\<lparr>flags := fl, os := w, io_fd := (io_fd s)(h := fd)\<rparr>) v = int i \<and>
        io_pevents (s\<lparr>flags := fl, os := w, io_fd := (io_fd s)(h := fd)\<rparr>) v \<noteq> 0)"
    proof (cases "ws ! i = SNull")
      case False
      then obtain v where "ws ! i = SWatch v" "io_fd s v = int i" "io_pevents s v \<noteq> 0"
        using cells i by (auto simp: io_cells_def)
      then show ?thesis using assms(2) by (intro disjI2 exI [of _ v]) auto
    qed simp
  qed
  then show ?thesis using assms(1) by (auto simp: io_ok_def split: option.splits)
qed

section \<open>Closing\<close>

lemma epoll_keeps: "stream_fd_laws K fds \<Longrightarrow> fds (snd (k_epoll_ctl (ioK K) efd op fd ev d w)) = fds w"
  by (simp add: stream_fd_laws_def keeps_def io_kernel.truncate_def)

lemma stop_masks: "(p AND NOT POLL_ALL) AND (POLLIN OR POLLOUT) = (0 :: u32)" "POLLIN AND NOT POLL_ALL = 0" "POLLIN \<noteq> 0"
  by (simp_all add: and.assoc)

lemma io_stop_array:
  assumes "uv__io_stop w e s = Some s'"
  shows "watchers s' = None \<longleftrightarrow> watchers s = None" "nwatchers s' = nwatchers s"
  using assms
  by (auto simp: uv__io_stop_def Let_def set_watcher_at_def uv_assert_def split: bind_split_asm if_splits)

lemma io_stop_beyond:
  assumes "uv__io_stop w e s = Some s'" "io_pevents s w = 0"
  shows "io_pevents s' w = 0"
  using assms
  by (auto simp: uv__io_stop_def Let_def set_watcher_at_def uv_assert_def split: bind_split_asm if_splits)

lemma invalidate_result:
  assumes K: "stream_fd_laws K fds" and io: "io_ok s" "watchers s \<noteq> None" "0 \<le> fd"
  shows "\<exists>s'. uv__platform_invalidate_fd (ioK K) fd s = Some s' \<and> io_ok s' \<and> fds (os s') = fds (os s) \<and>
    s' = s\<lparr>poll_events := poll_events s', os := os s'\<rparr>"
proof -
  obtain ws where ws: "watchers s = Some ws" using io(2) by auto
  note d = io_okD(1,2) [OF io(1) ws]
  have n: "unat (nwatchers s + 1) = unat (nwatchers s) + 1" using d(1) by (simp add: unat_add_lem [THEN iffD1])
  have at: "watcher_at s (uint (nwatchers s)) = Some (ws ! unat (nwatchers s))"
    "watcher_at s (uint (nwatchers s + 1)) = Some (ws ! (unat (nwatchers s) + 1))"
    using ws d(2) n by (simp_all add: watcher_at_def flip: unat_eq_nat_uint)
  define ev where "ev = (case ws ! (unat (nwatchers s) + 1) of
      SCount n \<Rightarrow> if ws ! unat (nwatchers s) \<noteq> SNull
        then map (\<lambda>(ev, efd). (ev, if efd = fd then -1 else efd)) (take n (poll_events s)) @ drop n (poll_events s)
        else poll_events s | _ \<Rightarrow> poll_events s)"
  define w where "w = (if backend_fd s \<ge> 0 then snd (k_epoll_ctl (ioK K) (backend_fd s) EPOLL_CTL_DEL fd 0 0 (os s)) else os s)"
  let ?s = "s\<lparr>poll_events := ev, os := w\<rparr>"
  have "uv__platform_invalidate_fd (ioK K) fd s = Some ?s"
    unfolding uv__platform_invalidate_fd_def using ws io(3) at
    by (auto simp: ev_def w_def sys_def split: slot.splits prod.splits)
  moreover have "io_ok ?s" using io(1) io_ok_cong [of ?s s] by simp
  moreover have "fds w = fds (os s)" using epoll_keeps [OF K] by (simp add: w_def)
  ultimately show ?thesis by (intro exI [of _ ?s]) simp
qed

lemma io_close_result:
  assumes K: "stream_fd_laws K fds" and io: "io_ok s" "watchers s \<noteq> None" "-1 \<le> io_fd s h"
    and w: "0 \<le> io_fd s h \<and> io_fd s h < uint (nwatchers s) \<or> io_pevents s h = 0"
  shows "\<exists>s'. uv__io_close (ioK K) h s = Some s' \<and> io_ok s' \<and> fds (os s') = fds (os s) \<and>
    io_pevents s' h AND (POLLIN OR POLLOUT) = 0 \<and> io_fd s' = io_fd s \<and> flags s' = flags s \<and>
    accepted_fd s' = accepted_fd s \<and> queued_fds s' = queued_fds s"
proof -
  obtain s1 where s1: "uv__io_stop h POLL_ALL s = Some s1" "io_ok s1" "io_touched s s1"
    "0 \<le> io_fd s h \<and> io_fd s h < uint (nwatchers s) \<longrightarrow> io_pevents s1 h = io_pevents s h AND NOT POLL_ALL"
    using io_stop_total [OF io(1), of POLL_ALL h] io(3) by auto
  have os: "os s1 = os s" using io_stop_os [OF s1(1)] .
  have "io_pevents s1 h = io_pevents s h AND NOT POLL_ALL \<or> io_pevents s1 h = 0"
    using s1(4) w io_stop_beyond [OF s1(1)] by auto
  then have pe: "io_pevents s1 h AND (POLLIN OR POLLOUT) = 0" by (elim disjE) (simp only: stop_masks, simp)
  note f = io_stop_array [OF s1(1)] touched_fields [OF s1(3)] touched_pending [OF s1(3)]
  let ?s = "s1\<lparr>qs := QUEUE_REMOVE (NodeQ PendingK h) (qs s1)\<rparr>"
  have ok: "io_ok ?s" using s1(2) io_ok_cong [of ?s s1] by simp
  have p: "uv__io_close (ioK K) h s = (if io_fd s1 h \<noteq> -1 then uv__platform_invalidate_fd (ioK K) (io_fd s1 h) ?s else Some ?s)"
    using s1(1) by (simp add: uv__io_close_def)
  show ?thesis
  proof (cases "io_fd s h = -1")
    case True
    then show ?thesis using p f ok os pe by (intro exI [of _ ?s]) simp
  next
    case False
    obtain s2 where "uv__platform_invalidate_fd (ioK K) (io_fd s h) ?s = Some s2" "io_ok s2"
      "fds (os s2) = fds (os ?s)" "s2 = ?s\<lparr>poll_events := poll_events s2, os := os s2\<rparr>"
      using invalidate_result [OF K ok, of "io_fd s h"] io(2,3) f(1) False by auto
    moreover from this(4) have "io_pevents s2 = io_pevents s1" "io_fd s2 = io_fd s1" "flags s2 = flags s1"
      "accepted_fd s2 = accepted_fd s1" "queued_fds s2 = queued_fds s1"
      by (cases s2; cases s1; simp)+
    ultimately show ?thesis using p f os pe False by (intro exI [of _ s2]) simp
  qed
qed


text \<open>Every descriptor a stream holds; the standard three are not closed with it.\<close>

definition held_fds :: "('w, 'a) stream_loop_scheme \<Rightarrow> addr \<Rightarrow> int list" where
  "held_fds s h = (if io_fd s h > 2 then [io_fd s h] else []) @ pending_fds s h"

lemma sys_close:
  assumes "fd_laws (fdK K) fds" "fd \<in> fds (os s)" "fd > 2"
  shows "\<exists>w. sys_prog (uv__close (fdK K) fd) s = Some (Inr (), s\<lparr>os := w\<rparr>) \<and> fds w = fds (os s) - {fd}"
  using uv__close_ok(1) [OF assms] by (auto simp: sys_prog_def)

lemma close_own:
  assumes L: "fd_laws (fdK K) fds" and fd: "io_fd s h > 2 \<longrightarrow> io_fd s h \<in> fds (os s)"
  shows "\<exists>w. (if io_fd s h \<noteq> -1 then do {
             s \<leftarrow> (if io_fd s h > 2 then do { (_, s) \<leftarrow> sys_prog (uv__close (fdK K) (io_fd s h)) s; Some s } else Some s);
             Some (s\<lparr>io_fd := (io_fd s)(h := -1)\<rparr>) }
           else Some s) = Some (s\<lparr>os := w, io_fd := (io_fd s)(h := -1)\<rparr>) \<and>
    fds w = fds (os s) - (if io_fd s h > 2 then {io_fd s h} else {})"
proof (cases "io_fd s h > 2")
  case True
  then obtain w where "sys_prog (uv__close (fdK K) (io_fd s h)) s = Some (Inr (), s\<lparr>os := w\<rparr>)" "fds w = fds (os s) - {io_fd s h}"
    using sys_close [OF L, of "io_fd s h" s] fd by auto
  then show ?thesis using True by (intro exI [of _ w]) simp
next
  case False
  then show ?thesis by (cases "io_fd s h = -1"; intro exI [of _ "os s"]) (simp_all add: fun_upd_idem)
qed

lemma close_accepted:
  assumes L: "fd_laws (fdK K) fds" and fd: "accepted_fd s h \<noteq> -1 \<longrightarrow> accepted_fd s h > 2 \<and> accepted_fd s h \<in> fds (os s)"
  shows "\<exists>w. (if accepted_fd s h \<noteq> -1 then do {
             (_, s) \<leftarrow> sys_prog (uv__close (fdK K) (accepted_fd s h)) s;
             Some (s\<lparr>accepted_fd := (accepted_fd s)(h := -1)\<rparr>) }
           else Some s) = Some (s\<lparr>os := w, accepted_fd := (accepted_fd s)(h := -1)\<rparr>) \<and>
    fds w = fds (os s) - (if accepted_fd s h \<noteq> -1 then {accepted_fd s h} else {})"
proof (cases "accepted_fd s h = -1")
  case False
  then obtain w where "sys_prog (uv__close (fdK K) (accepted_fd s h)) s = Some (Inr (), s\<lparr>os := w\<rparr>)"
    "fds w = fds (os s) - {accepted_fd s h}"
    using sys_close [OF L, of "accepted_fd s h" s] fd by auto
  then show ?thesis using False by (intro exI [of _ w]) simp
next
  case True
  then show ?thesis by (intro exI [of _ "os s"]) (simp add: fun_upd_idem)
qed


lemma handle_stop_fields [simp]:
  "io_fd (uv__handle_stop h s) = io_fd s" "io_pevents (uv__handle_stop h s) = io_pevents s" "os (uv__handle_stop h s) = os s"
  "accepted_fd (uv__handle_stop h s) = accepted_fd s" "queued_fds (uv__handle_stop h s) = queued_fds s"
  "read_cb (uv__handle_stop h s) = read_cb s" "alloc_cb (uv__handle_stop h s) = alloc_cb s"
  by (simp_all add: handle_defs clear_flag_def)

lemma io_stop_masked:
  assumes "uv__io_stop w e s = Some s'" "io_pevents s w AND m = 0"
  shows "io_pevents s' w AND m = 0"
proof -
  have "io_pevents s' w = io_pevents s w \<or> io_pevents s' w = io_pevents s w AND NOT e"
    using assms(1)
    by (auto simp: uv__io_stop_def Let_def set_watcher_at_def uv_assert_def split: bind_split_asm if_splits)
  moreover have "(io_pevents s w AND NOT e) AND m = (io_pevents s w AND m) AND NOT e"
    by (simp only: and.assoc and.commute [of "NOT e"])
  ultimately show ?thesis using assms(2) by auto
qed

lemma read_stop_result:
  assumes "io_ok s" "-1 \<le> io_fd s h" "io_pevents s h AND (POLLIN OR POLLOUT) = 0"
  shows "\<exists>s'. uv_read_stop h s = Some s' \<and> io_fd s' = io_fd s \<and> accepted_fd s' = accepted_fd s \<and>
    queued_fds s' = queued_fds s \<and> os s' = os s \<and> io_pevents s' h AND (POLLIN OR POLLOUT) = 0"
proof (cases "has_flag s h UV_HANDLE_READING")
  case False
  then show ?thesis using assms(3) by (simp add: uv_read_stop_def)
next
  case True
  let ?s = "clear_flag h UV_HANDLE_READING s"
  have ok: "io_ok ?s" using assms(1) io_ok_cong [of ?s s] by (simp add: clear_flag_def)
  obtain s1 where s1: "uv__io_stop h POLLIN ?s = Some s1" "io_touched ?s s1"
    using io_stop_total [OF ok, of POLLIN h] assms(2) by (auto simp: stop_masks clear_flag_def)
  have pe: "io_pevents s1 h AND (POLLIN OR POLLOUT) = 0"
    using io_stop_masked [OF s1(1)] assms(3) by (simp add: clear_flag_def)
  have r: "uv_read_stop h s = Some ((uv__handle_stop h s1)\<lparr>read_cb := (read_cb s1)(h := None), alloc_cb := (alloc_cb s1)(h := None)\<rparr>)"
    using True s1(1) by (simp add: uv_read_stop_def)
  show ?thesis
    using r pe touched_fields [OF s1(2)] touched_pending [OF s1(2)] io_stop_os [OF s1(1)] by (simp add: clear_flag_def)
qed

section \<open>A system with a table of descriptors\<close>

definition fd_stream_kernel :: "fd_table stream_kernel" where
  "fd_stream_kernel = io_kernel.extend demo_io_kernel
     (stream_kernel.fields (\<lambda>fd v w. (Inr (length (concat v)), w)) (\<lambda>fd v g w. (Inr (length (concat v)), w)) (\<lambda>_ w. (Inr (), w))
        (\<lambda>_ w. (None, w)) (\<lambda>_ _ w. (Inr (), w)) (\<lambda>_ w. (True, w)) id (\<lambda>_ w. (Inl UV_EINVAL, w))
        (\<lambda>_ _ w. (Inr (), w)) (\<lambda>_ _ w. (Inr (), w)) (\<lambda>_ _ w. (Inr (), w)))"

text \<open>A stream with descriptor 5 that has accepted 8, with 9 behind it, and 7 still open.\<close>

definition fd_stream_loop :: "fd_table stream_loop" where
  "fd_stream_loop = (core_loop.extend (async_loop.extend (poll_loop.extend (io_loop.extend full_io_loop
     (poll_loop.fields False False)) (async_loop.fields (\<lambda>_. None) (\<lambda>_. 0) (-1)))
     (core_loop.fields (\<lambda>_. None) (\<lambda>_. 0) (\<lambda>_. 0)))
     (stream_loop.fields (-1) False (\<lambda>_. None) (\<lambda>_. None) (\<lambda>_. None) (\<lambda>_. None) (\<lambda>_. None) (\<lambda>_. 8) (\<lambda>_. Some (8, [9]))
        (\<lambda>_. None) (\<lambda>_. []) (\<lambda>_. []) (\<lambda>_. 0) (\<lambda>_. False) (\<lambda>_. 0) (\<lambda>_. Some 1) (\<lambda>_. None) (\<lambda>_. 0) (\<lambda>_. None) (\<lambda>_. None)))
     \<lparr>htype := \<lambda>_. UV_TCP, os := \<lparr>open_fds = [9, 8, 7, 5, 3], status_flags = \<lambda>_. 0\<rparr>\<rparr>"

definition silent_calls :: "fd_table stream_loop stream_calls" where
  "silent_calls = \<lparr>call_alloc = \<lambda>_ _ s. Some (None, s), call_read = \<lambda>_ _ _ s. Some s,
     call_connection = \<lambda>_ _ _ s. Some s, call_req = \<lambda>_ _ _ s. Some s, udp_open = \<lambda>_ _ s. Some (Inl UV_EINVAL, s)\<rparr>"

lemma demo_fd_stream_laws: "stream_fd_laws fd_stream_kernel (\<lambda>w. set (open_fds w))"
  "keeps (\<lambda>w. set (open_fds w)) (k_setsockopt fd_stream_kernel fd opt)"
proof -
  have "fdK fd_stream_kernel = demo_kernel"
    by (simp add: fd_stream_kernel_def demo_io_kernel_def demo_kernel_def fd_kernel.defs io_kernel.defs stream_kernel.defs)
  then show "stream_fd_laws fd_stream_kernel (\<lambda>w. set (open_fds w))"
    using demo_fd_laws by (simp add: stream_fd_laws_def keeps_def)
      (simp add: fd_stream_kernel_def demo_io_kernel_def fd_kernel.defs io_kernel.defs stream_kernel.defs)
  show "keeps (\<lambda>w. set (open_fds w)) (k_setsockopt fd_stream_kernel fd opt)"
    by (simp add: keeps_def fd_stream_kernel_def demo_io_kernel_def fd_kernel.defs io_kernel.defs stream_kernel.defs)
qed

lemma fd_stream_fields:
  "io_fd fd_stream_loop = (\<lambda>_. 5)" "accepted_fd fd_stream_loop = (\<lambda>_. 8)" "queued_fds fd_stream_loop = (\<lambda>_. Some (8, [9]))"
  "open_fds (os fd_stream_loop) = [9, 8, 7, 5, 3]" "htype fd_stream_loop = (\<lambda>_. UV_TCP)" "nwatchers fd_stream_loop = 6"
  "watchers fd_stream_loop = Some (replicate 5 SNull @ [SWatch 7, SNull, SNull])" "nfds fd_stream_loop = 1"
  "io_pevents fd_stream_loop = (\<lambda>_. POLLIN)"
  by (simp_all add: fd_stream_loop_def full_io_loop_def demo_io_loop_def empty_watcher_loop_def watcher_loop.defs io_loop.defs
      poll_loop.defs async_loop.defs core_loop.defs stream_loop.defs)

lemma full_io_cells: "{i. i < 6 \<and> (replicate 5 SNull @ [SWatch 7, SNull, SNull]) ! i \<noteq> SNull} = {5 :: nat}"
  by (auto simp: numeral_eq_Suc less_Suc_eq)

lemma demo_fd_stream_ok: "pending_ok fd_stream_loop h"
    "pending_fds fd_stream_loop h = [8, 9]" "held_fds fd_stream_loop h = [5, 8, 9]"
  by (simp_all add: pending_ok_def pending_fds_def held_fds_def fd_stream_fields)

lemma demo_fd_stream_io:
  assumes "fd 7 = 5"
  shows "io_ok (fd_stream_loop\<lparr>io_fd := fd\<rparr>)"
proof -
  have "(replicate 5 SNull @ [SWatch 7, SNull, SNull]) ! i = SNull \<or> i = 5" if "i < 6" for i
    using that full_io_cells by blast
  then have "io_cells (fd_stream_loop\<lparr>io_fd := fd\<rparr>) (replicate 5 SNull @ [SWatch 7, SNull, SNull])"
    using assms by (auto simp: io_cells_def fd_stream_fields nth_append)
  then show ?thesis by (simp add: io_ok_def fd_stream_fields full_io_cells)
qed

lemma stream_close_result:
  assumes "stream_fd_laws K fds" and "io_ok s" and "watchers s \<noteq> None" and "-1 \<le> io_fd s h" and "pending_ok s h"
    and "0 \<le> io_fd s h \<and> io_fd s h < uint (nwatchers s) \<or> io_pevents s h = 0"
    and "distinct (held_fds s h)" and "\<forall>fd \<in> set (held_fds s h). fd > 2 \<and> fd \<in> fds (os s)"
  shows "\<exists>s'. uv__stream_close K h s = Some s' \<and> fds (os s') = fds (os s) - set (held_fds s h) \<and>
    io_fd s' h = -1 \<and> pending_fds s' h = [] \<and> io_pevents s' h AND (POLLIN OR POLLOUT) = 0"
proof -
  have L: "fd_laws (fdK K) fds" using assms(1) by (simp add: stream_fd_laws_def)
  obtain s1 where s1: "uv__io_close (ioK K) h s = Some s1" "io_ok s1" "fds (os s1) = fds (os s)"
    "io_pevents s1 h AND (POLLIN OR POLLOUT) = 0" "io_fd s1 = io_fd s" "flags s1 = flags s"
    "accepted_fd s1 = accepted_fd s" "queued_fds s1 = queued_fds s"
    using io_close_result [OF assms(1-4) assms(6)] by blast
  obtain s2 where s2: "uv_read_stop h s1 = Some s2" "io_fd s2 = io_fd s1" "accepted_fd s2 = accepted_fd s1"
    "queued_fds s2 = queued_fds s1" "os s2 = os s1" "io_pevents s2 h AND (POLLIN OR POLLOUT) = 0"
    using read_stop_result [OF s1(2), of h] assms(4) s1(4,5) by auto
  define s3 where "s3 = clear_flag h (UV_HANDLE_READABLE OR UV_HANDLE_WRITABLE) (uv__handle_stop h s2)"
  have f3: "io_fd s3 = io_fd s" "accepted_fd s3 = accepted_fd s" "queued_fds s3 = queued_fds s"
    "fds (os s3) = fds (os s)" "io_pevents s3 h AND (POLLIN OR POLLOUT) = 0"
    using s1 s2 by (simp_all add: s3_def clear_flag_def)
  have own: "io_fd s3 h > 2 \<longrightarrow> io_fd s3 h \<in> fds (os s3)" 
  proof
    assume "io_fd s3 h > 2"
    then have "io_fd s h \<in> set (held_fds s h)" using f3(1) by (simp add: held_fds_def)
    then show "io_fd s3 h \<in> fds (os s3)" using assms(8) unfolding f3(1,4) by blast
  qed
  obtain w1 where w1: "(if io_fd s3 h \<noteq> -1 then do {
             s \<leftarrow> (if io_fd s3 h > 2 then do { (_, s) \<leftarrow> sys_prog (uv__close (fdK K) (io_fd s3 h)) s3; Some s } else Some s3);
             Some (s\<lparr>io_fd := (io_fd s)(h := -1)\<rparr>) }
           else Some s3) = Some (s3\<lparr>os := w1, io_fd := (io_fd s3)(h := -1)\<rparr>)"
    "fds w1 = fds (os s3) - (if io_fd s3 h > 2 then {io_fd s3 h} else {})"
    using close_own [OF L own] by blast
  define s4 where "s4 = s3\<lparr>os := w1, io_fd := (io_fd s3)(h := -1)\<rparr>"
  have a4: "accepted_fd s4 h \<noteq> -1 \<longrightarrow> accepted_fd s4 h > 2 \<and> accepted_fd s4 h \<in> fds (os s4)"
    using assms(7,8) f3(1,2,4) w1(2)
    by (cases "accepted_fd s h = -1"; cases "io_fd s h > 2") (simp_all add: s4_def held_fds_def pending_fds_def)
  obtain w2 where w2: "(if accepted_fd s4 h \<noteq> -1 then do {
             (_, s) \<leftarrow> sys_prog (uv__close (fdK K) (accepted_fd s4 h)) s4;
             Some (s\<lparr>accepted_fd := (accepted_fd s)(h := -1)\<rparr>) }
           else Some s4) = Some (s4\<lparr>os := w2, accepted_fd := (accepted_fd s4)(h := -1)\<rparr>)"
    "fds w2 = fds (os s4) - (if accepted_fd s4 h \<noteq> -1 then {accepted_fd s4 h} else {})"
    using close_accepted [OF L a4] by blast
  define s5 where "s5 = s4\<lparr>os := w2, accepted_fd := (accepted_fd s4)(h := -1)\<rparr>"
  define q where "q = (case queued_fds s5 h of None \<Rightarrow> [] | Some (n, fds) \<Rightarrow> fds)"
  have held: "held_fds s h = (if io_fd s h > 2 then [io_fd s h] else []) @
      (if accepted_fd s h = -1 then [] else [accepted_fd s h]) @ q"
    using f3(3) by (simp add: held_fds_def pending_fds_def q_def s5_def s4_def)
  have fw: "fds w2 = fds (os s) - (if io_fd s h > 2 then {io_fd s h} else {}) -
      (if accepted_fd s h \<noteq> -1 then {accepted_fd s h} else {})"
    using w1(2) w2(2) f3(1,2,4) by (simp add: s4_def)
  have sub: "set q \<subseteq> set (held_fds s h)" unfolding held by auto
  have dis: "distinct q" "(if io_fd s h > 2 then {io_fd s h} else {}) \<inter> set q = {}"
    "(if accepted_fd s h \<noteq> -1 then {accepted_fd s h} else {}) \<inter> set q = {}"
    using assms(7) unfolding held by (simp_all split: if_splits)
  have q: "set q \<subseteq> fds w2" "distinct q" "\<forall>x \<in> set q. x > 2"
    using sub dis assms(8) unfolding fw by blast+
  have os5: "os s5 = w2" by (simp add: s5_def)
  obtain w3 where w3: "close_fds (fdK K) q (os s5) = Some w3" "fds w3 = fds w2 - set q"
    using close_fds_closes [OF L q(2) q(1) q(3)] unfolding os5 by blast
  define s6 where "s6 = s5\<lparr>os := w3, queued_fds := (queued_fds s5)(h := None)\<rparr>"
  have 6: "(case queued_fds s5 h of None \<Rightarrow> Some s5 | Some (n, fds) \<Rightarrow> do {
              w \<leftarrow> close_fds (fdK K) fds (os s5); Some (s5\<lparr>os := w, queued_fds := (queued_fds s5)(h := None)\<rparr>) }) = Some s6"
    using w3(1) by (cases "queued_fds s5 h") (auto simp: q_def s6_def fun_upd_idem)
  have act: "uv__io_active s6 h (POLLIN OR POLLOUT) = Some False"
    using f3(5) by (simp add: uv__io_active_def s6_def s5_def s4_def)
  have "uv__stream_close K h s = Some s6"
    unfolding uv__stream_close_def s1(1) bind.bind_lunit s2(1) Let_def s3_def [symmetric] w1(1) s4_def [symmetric]
      w2(1) s5_def [symmetric] 6 act by simp
  moreover have "fds (os s6) = fds (os s) - set (held_fds s h)"
    using w3(2) unfolding fw held by (auto simp: s6_def)
  moreover have "io_fd s6 h = -1" "pending_fds s6 h = []"
    by (simp_all add: s6_def s5_def s4_def pending_fds_def)
  moreover have "io_pevents s6 h AND (POLLIN OR POLLOUT) = 0" using f3(5) by (simp add: s6_def s5_def s4_def)
  ultimately show ?thesis by (intro exI [of _ s6]) simp
qed

text \<open>
  \<open>uv__stream_close\<close> returns for a stream whose descriptors are open, and the assertion that its
  watcher waits for nothing holds: the descriptor of the stream (unless it is one of the standard three),
  the one it has accepted and all that are queued behind it are closed, no other, and the stream
  holds none any more.
\<close>

theorem stream_close_closes_all:
  assumes "stream_fd_laws K fds" and "io_ok s" and "watchers s \<noteq> None" and "-1 \<le> io_fd s h" and "pending_ok s h"
    and "0 \<le> io_fd s h \<and> io_fd s h < uint (nwatchers s) \<or> io_pevents s h = 0"
    and "distinct (held_fds s h)" and "\<forall>fd \<in> set (held_fds s h). fd > 2 \<and> fd \<in> fds (os s)"
  shows "\<exists>s'. uv__stream_close K h s = Some s' \<and> fds (os s') = fds (os s) - set (held_fds s h) \<and>
    io_fd s' h = -1 \<and> pending_fds s' h = [] \<and> io_pevents s' h AND (POLLIN OR POLLOUT) = 0"
  by (rule stream_close_result [OF assms])

theorem stream_close_closes_all_witness:
  "\<exists>s'. uv__stream_close fd_stream_kernel 7 fd_stream_loop = Some s' \<and> set (open_fds (os s')) = {7, 3}"
proof -
  have "io_ok (fd_stream_loop\<lparr>io_fd := io_fd fd_stream_loop\<rparr>)" by (rule demo_fd_stream_io) (simp add: fd_stream_fields)
  then have io: "io_ok fd_stream_loop" by simp
  have "watchers fd_stream_loop \<noteq> None" "-1 \<le> io_fd fd_stream_loop 7" "distinct (held_fds fd_stream_loop 7)"
    "0 \<le> io_fd fd_stream_loop 7 \<and> io_fd fd_stream_loop 7 < uint (nwatchers fd_stream_loop) \<or> io_pevents fd_stream_loop 7 = 0"
    "\<forall>fd \<in> set (held_fds fd_stream_loop 7). fd > 2 \<and> fd \<in> set (open_fds (os fd_stream_loop))"
    by (simp_all add: demo_fd_stream_ok fd_stream_fields)
  note pre = this
  have "{9, 8, 7, 5, 3} - {5, 8, 9} = {7, 3 :: int}" by auto
  then show ?thesis
    using stream_close_closes_all [OF demo_fd_stream_laws(1) io pre(1,2) demo_fd_stream_ok(1) pre(4,3,5)]
    unfolding demo_fd_stream_ok fd_stream_fields by fastforce
qed

text \<open>
  \<open>uv_accept\<close> on a stream with descriptors waiting, for a client that is a closed pipe or TCP handle,
  takes the first of them, in order of arrival: on success the client owns it and is readable, writable
  and bound; when the options of the client cannot be set it is closed, so no descriptor is lost.  The
  others stay in order, and none is opened or closed besides.
\<close>

theorem accept_takes_the_first:
  assumes "stream_fd_laws K fds" and "\<And>fd opt. keeps fds (k_setsockopt K fd opt)"
    and "pending_ok s server" and "pending_fds s server = fd # rest" and "fd > 2" and "fd \<in> fds (os s)"
    and "io_ok s" and "0 \<le> io_fd s server" and "io_fd s server < 2 ^ 31 - 3"
    and "htype s client \<in> {UV_NAMED_PIPE, UV_TCP}" and "io_fd s client = -1"
  shows "\<exists>r s'. uv_accept K U server client s = Some (r, s') \<and> pending_fds s' server = rest \<and> pending_ok s' server \<and>
    (if r = Inr () then io_fd s' client = fd \<and> fds (os s') = fds (os s) \<and> has_flag s' client UV_HANDLE_READABLE \<and>
       has_flag s' client UV_HANDLE_WRITABLE \<and> has_flag s' client UV_HANDLE_BOUND
     else io_fd s' client = -1 \<and> fds (os s') = fds (os s) - {fd})"
proof -
  have L: "fd_laws (fdK K) fds" using assms(1) by (simp add: stream_fd_laws_def)
  have fd: "accepted_fd s server = fd" "fd \<noteq> -1"
    using assms(3,4,5) by (auto simp: pending_fds_def pending_ok_def split: if_splits)
  obtain r s1 where s1: "uv__stream_open K client fd (UV_HANDLE_READABLE OR UV_HANDLE_WRITABLE) s = Some (r, s1)"
    "fds (os s1) = fds (os s)"
    "s1 = s\<lparr>flags := (flags s)(client := flags s client OR (UV_HANDLE_READABLE OR UV_HANDLE_WRITABLE)), os := os s1, io_fd := io_fd s1\<rparr>"
    "io_fd s1 = (if r = Inr () then (io_fd s)(client := fd) else io_fd s)"
    using stream_open_result [OF assms(11) _ assms(2), of fd] assms(5) by fastforce
  have ne: "client \<noteq> server" using assms(8,11) by auto
  have k1: "accepted_fd s1 = accepted_fd s" "queued_fds s1 = queued_fds s"
    "flags s1 = (flags s)(client := flags s client OR (UV_HANDLE_READABLE OR UV_HANDLE_WRITABLE))"
    by (subst s1(3); simp)+
  have ok1: "io_ok s1"
  proof (cases "r = Inr ()")
    case True
    then show ?thesis using io_ok_other_fd [OF assms(7,11)] s1(3,4) by metis
  next
    case False
    have "io_ok s1 = io_ok s" by (rule io_ok_cong; subst s1(3)) (simp_all add: s1(4) False)
    then show ?thesis using assms(7) by simp
  qed
  have srv: "io_fd s1 server = io_fd s server" using s1(4) ne by simp
  show ?thesis
  proof (cases "r = Inr ()")
    case True
    let ?s = "set_flag client UV_HANDLE_BOUND s1"
    have p: "pending_fds ?s server = fd # rest" "pending_ok ?s server"
      using pending_cong [of ?s server s] assms(3,4) k1 by (simp_all add: set_flag_def)
    have ok: "io_ok ?s" using ok1 io_ok_cong [of ?s s1] by (simp add: set_flag_def)
    obtain s' where s': "accept_done K server (Inr ()) ?s = Some (Inr (), s')" "pending_fds s' server = rest"
      "pending_ok s' server" "fds (os s') = fds (os ?s)" "io_fd s' = io_fd ?s" "flags s' = flags ?s"
      using accept_done_next [OF p(2,1) ok _ _ assms(1)] assms(8,9) srv by (auto simp: set_flag_def)
    have "uv_accept K U server client s = Some (Inr (), s')"
      using s1(1) s'(1) assms(10) fd True by (auto simp: uv_accept_def)
    moreover have "has_flag s' client UV_HANDLE_READABLE \<and> has_flag s' client UV_HANDLE_WRITABLE \<and> has_flag s' client UV_HANDLE_BOUND"
      using s'(6) k1(3) by (simp add: has_flag_def set_flag_def flag_or)
    ultimately show ?thesis using s' s1(2,4) True
      by (intro exI [of _ "Inr ()"] exI [of _ s']) (simp add: set_flag_def)
  next
    case False
    then obtain e where e: "r = Inl e" by (cases r) auto
    obtain w where w: "sys_prog (uv__close (fdK K) fd) s1 = Some (Inr (), s1\<lparr>os := w\<rparr>)" "fds w = fds (os s1) - {fd}"
      using sys_close [OF L, of fd s1] assms(5,6) s1(2) by auto
    let ?s = "s1\<lparr>os := w\<rparr>"
    have p: "pending_fds ?s server = fd # rest" "pending_ok ?s server"
      using pending_cong [of ?s server s] assms(3,4) k1 by simp_all
    have ok: "io_ok ?s" using ok1 io_ok_cong [of ?s s1] by simp
    obtain s' where s': "accept_done K server (Inl e) ?s = Some (Inl e, s')" "pending_fds s' server = rest"
      "pending_ok s' server" "fds (os s') = fds (os ?s)" "io_fd s' = io_fd ?s"
      using accept_done_next [OF p(2,1) ok _ _ assms(1)] assms(8,9) srv by auto
    have "uv_accept K U server client s = Some (Inl e, s')"
      using s1(1) s'(1) w(1) assms(10) fd e k1(1) by (auto simp: uv_accept_def)
    then show ?thesis using s' s1(2,4) w(2) e assms(11)
      by (intro exI [of _ "Inl e"] exI [of _ s']) simp
  qed
qed

theorem accept_takes_the_first_witness:
  "\<exists>r s'. uv_accept fd_stream_kernel silent_calls 7 6 (fd_stream_loop\<lparr>io_fd := (\<lambda>_. 5)(6 := -1)\<rparr>) = Some (r, s') \<and>
    pending_fds s' 7 = [9]"
proof -
  let ?s = "fd_stream_loop\<lparr>io_fd := (\<lambda>_. 5)(6 := -1)\<rparr>"
  have p: "pending_fds ?s 7 = [8, 9]" "pending_ok ?s 7"
    using pending_cong [of ?s 7 fd_stream_loop] by (simp_all add: demo_fd_stream_ok)
  have ok: "io_ok ?s" by (rule demo_fd_stream_io) simp
  have pre: "8 \<in> set (open_fds (os ?s))" "0 \<le> io_fd ?s 7" "io_fd ?s 7 < 2 ^ 31 - 3"
    "htype ?s 6 \<in> {UV_NAMED_PIPE, UV_TCP}" "io_fd ?s 6 = -1"
    by (simp_all add: fd_stream_fields)
  show ?thesis
    using accept_takes_the_first [OF demo_fd_stream_laws p(2,1) _ pre(1) ok pre(2-5), of silent_calls] by auto
qed

text \<open>
  The descriptors of a message of type \<open>SCM_RIGHTS\<close>, wherever it stands among messages of other types,
  are put behind those that wait already, in order; when there is no memory for one, it and those
  after it in the message are closed and \<open>UV_ENOMEM\<close> is reported.  None is lost and none is held twice.
\<close>

theorem received_descriptors_kept_or_closed:
  assumes "stream_fd_laws K fds" and "pending_ok s h"
    and "distinct xs" and "set xs \<subseteq> fds (os s)" and "\<forall>x \<in> set xs. x > 2"
    and "\<forall>m \<in> set before. fst m \<noteq> SCM_RIGHTS" and "\<forall>m \<in> set behind. fst m \<noteq> SCM_RIGHTS"
  shows "\<exists>r s' k. uv__stream_recv_cmsg K h (before @ (SCM_RIGHTS, xs) # behind) s = Some (r, s') \<and>
    pending_fds s' h = pending_fds s h @ take k xs \<and> fds (os s') = fds (os s) - set (drop k xs) \<and>
    (r = Inr () \<and> length xs \<le> k \<and> pending_ok s' h \<or> r = Inl UV_ENOMEM)"
proof -
  have skip: "uv__stream_recv_cmsg K h (ms @ ms') t = uv__stream_recv_cmsg K h ms' t"
    if "\<forall>m \<in> set ms. fst m \<noteq> SCM_RIGHTS" for ms ms' and t :: "('a, 'b) stream_loop_scheme"
    using that by (induction ms) auto
  obtain r s' k where r: "recv_fds K h xs s = Some (r, s')" "pending_fds s' h = pending_fds s h @ take k xs"
    "fds (os s') = fds (os s) - set (drop k xs)" "r = Inr () \<and> length xs \<le> k \<and> pending_ok s' h \<or> r = Inl UV_ENOMEM"
    using recv_fds_result [OF assms(1-5)] by blast
  have "uv__stream_recv_cmsg K h (before @ (SCM_RIGHTS, xs) # behind) s = Some (r, s')"
    using r(1,4) skip [OF assms(6), of "(SCM_RIGHTS, xs) # behind" s] skip [OF assms(7), of "[]" s'] by auto
  then show ?thesis using r(2-4) by blast
qed


theorem received_descriptors_kept_or_closed_witness:
  "\<exists>r s' k. uv__stream_recv_cmsg fd_stream_kernel 7 [(SCM_RIGHTS, [7, 3])] fd_stream_loop = Some (r, s') \<and>
    pending_fds s' 7 = [8, 9] @ take k [7, 3]"
proof -
  have "distinct [7, 3 :: int]" "set [7, 3] \<subseteq> set (open_fds (os fd_stream_loop))" "\<forall>x \<in> set [7, 3 :: int]. x > 2"
    by (simp_all add: fd_stream_fields)
  then show ?thesis
    using received_descriptors_kept_or_closed [OF demo_fd_stream_laws(1) demo_fd_stream_ok(1), of "[7, 3]" "[]" "[]" 7]
    unfolding demo_fd_stream_ok by fastforce
qed

section \<open>Reading\<close>

text \<open>
  \<open>input w fd\<close> is what is still to be read from \<open>fd\<close>.  A call of \<open>read\<close> takes a prefix of it that
  fits into the buffer, or fails; it is not interrupted for ever.  The allocator is of no concern to it.
\<close>

definition source :: "'w stream_kernel \<Rightarrow> ('w \<Rightarrow> int \<Rightarrow> string) \<Rightarrow> bool" where
  "source K input \<longleftrightarrow>
     (\<forall>fd n. ends (k_read K fd n) \<and> (\<forall>w. case k_read K fd n w of
        (Inl _, w') \<Rightarrow> input w' = input w
      | (Inr xs, w') \<Rightarrow> length xs \<le> n \<and> input w fd = xs @ input w' fd \<and> (\<forall>fd'. fd' \<noteq> fd \<longrightarrow> input w' fd' = input w fd'))) \<and>
     (\<forall>n w. fst (k_realloc K n w) \<and> input (snd (k_realloc K n w)) = input w)"

lemma retry_reads:
  assumes "source K input"
  shows "\<exists>r w'. retry_eintr (k_read K fd n) w = Some (r, w') \<and> (\<forall>fd'. fd' \<noteq> fd \<longrightarrow> input w' fd' = input w fd') \<and>
    (case r of Inl _ \<Rightarrow> input w' fd = input w fd | Inr xs \<Rightarrow> length xs \<le> n \<and> input w fd = xs @ input w' fd)"
proof -
  have f: "case k_read K fd n v of (Inl _, w') \<Rightarrow> input w' = input v
      | (Inr xs, w') \<Rightarrow> length xs \<le> n \<and> input v fd = xs @ input w' fd \<and> (\<forall>fd'. fd' \<noteq> fd \<longrightarrow> input w' fd' = input v fd')" for v
    using assms by (simp add: source_def)
  have "ends (k_read K fd n)" using assms by (simp add: source_def)
  then obtain m where "intr_at (k_read K fd n) w m" unfolding ends_def by blast
  moreover have "input (snd (k_read K fd n v)) = input v" if "fst (k_read K fd n v) = Inl UV_EINTR" for v
    using f [of v] that by (cases "k_read K fd n v") auto
  ultimately obtain w0 where w0: "retry_eintr (k_read K fd n) w = Some (k_read K fd n w0)" "input w0 = input w"
    using retry_eintr_last [of "k_read K fd n" w m "\<lambda>v. input v = input w"] by auto
  show ?thesis using w0 f [of w0] by (cases "k_read K fd n w0"; cases "fst (k_read K fd n w0)") simp_all
qed

text \<open>The user gives buffers of \<open>len\<close> bytes and records what he is told.\<close>

definition recording_reader ::
  "('w, (uv_errno + string) list) stream_loop_scheme stream_calls \<Rightarrow> nat \<Rightarrow> nat \<Rightarrow> nat \<Rightarrow> addr \<Rightarrow> bool" where
  "recording_reader U acb rcb len h \<longleftrightarrow> 0 < len \<and> (\<forall>s. call_alloc U acb h s = Some (Some len, s)) \<and>
     (\<forall>x s. call_read U rcb h x s = Some (stream_loop.more_update (\<lambda>l. l @ [x]) s))"

definition reading :: "('w, 'a) stream_loop_scheme \<Rightarrow> nat \<Rightarrow> nat \<Rightarrow> addr \<Rightarrow> bool" where
  "reading s acb rcb h \<longleftrightarrow> alloc_cb s h = Some acb \<and> read_cb s h = Some rcb \<and> has_flag s h UV_HANDLE_READING \<and>
     io_ok s \<and> 0 \<le> io_fd s h \<and> io_fd s h < 2 ^ 31 - 3"

definition delivered :: "(uv_errno + string) list \<Rightarrow> string" where
  "delivered xs = concat (map (\<lambda>x. case x of Inl _ \<Rightarrow> [] | Inr b \<Rightarrow> b) xs)"

lemma delivered_simps [simp]:
  "delivered [] = []" "delivered (Inl e # xs) = delivered xs" "delivered (Inr b # xs) = b @ delivered xs"
  by (simp_all add: delivered_def)

text \<open>What the user has been told, from full buffers to the last answer.\<close>

definition told :: "('w, 'a) stream_loop_scheme \<Rightarrow> addr \<Rightarrow> nat \<Rightarrow> (uv_errno + string) list \<Rightarrow> bool" where
  "told s' h len xs \<longleftrightarrow> (\<forall>x \<in> set (butlast xs). \<exists>b. x = Inr b \<and> length b = len) \<and>
     (\<forall>b. Inr b \<in> set xs \<longrightarrow> length b \<le> len) \<and> (has_flag s' h UV_HANDLE_READING \<longleftrightarrow> (\<forall>e. Inl e \<notin> set xs))"

lemma told_single: "told s' h len [x] \<longleftrightarrow> (case x of Inl _ \<Rightarrow> \<not> has_flag s' h UV_HANDLE_READING
        | Inr b \<Rightarrow> length b \<le> len \<and> has_flag s' h UV_HANDLE_READING)"
  by (auto simp: told_def split: sum.splits)

lemma told_Cons: "length b = len \<Longrightarrow> told s' h len xs \<Longrightarrow> told s' h len (Inr b # xs)"
  by (auto simp: told_def)

lemma stream_more_flag [simp]: "has_flag (stream_loop.more_update f s) h m = has_flag s h m"
  by (simp add: has_flag_def)

lemma handle_stop_reading:
  "has_flag (uv__handle_stop h s) k UV_HANDLE_READING = has_flag s k UV_HANDLE_READING"
  "stream_loop.more (uv__handle_stop h s) = stream_loop.more s"
  by (simp_all add: has_flag_handle_stop) (simp add: handle_defs clear_flag_def)

lemma stop_reading:
  assumes "io_ok s" "-1 \<le> io_fd s h"
  shows "\<exists>s'. uv__io_stop h POLLIN (clear_flag h UV_HANDLE_READING s) = Some s' \<and> os s' = os s \<and>
    read_cb s' = read_cb s \<and> \<not> has_flag s' h UV_HANDLE_READING \<and> stream_loop.more s' = stream_loop.more s"
proof -
  let ?s = "clear_flag h UV_HANDLE_READING s"
  have ok: "io_ok ?s" using assms io_ok_cong [of ?s s] by (simp add: clear_flag_def)
  obtain s1 where s1: "uv__io_stop h POLLIN ?s = Some s1" "io_touched ?s s1"
    using io_stop_total [OF ok, of POLLIN h] assms(2) by (auto simp: stop_masks clear_flag_def)
  have "\<not> has_flag ?s h UV_HANDLE_READING" by (simp add: flag_simps)
  then have "\<not> has_flag s1 h UV_HANDLE_READING" using touched_fields(1) [OF s1(2)] by (simp add: has_flag_def)
  then show ?thesis
    using s1 touched_pending(3) [OF s1(2)] touched_fields(9) [OF s1(2)] io_stop_os [OF s1(1)] by (simp add: clear_flag_def)
qed

lemma read_failed_result:
  assumes U: "recording_reader U acb rcb len h" and s: "reading s acb rcb h" and K: "source K input"
  shows "\<exists>s' x. read_failed K U h e s = Some s' \<and> stream_loop.more s' = stream_loop.more s @ [x] \<and> delivered [x] = [] \<and>
    input (os s') = input (os s) \<and> told s' h len [x]"
proof (cases "e = UV_EAGAIN")
  case True
  obtain s1 where s1: "uv__io_start (ioK K) h POLLIN s = Some s1" "io_touched s s1"
    using io_start_total [of s POLLIN h "ioK K"] s K by (auto simp: reading_def source_def stop_masks)
  have "input (os s1) = input (os s)" using io_start_sent [OF _ s1(1), of input] K by (simp add: source_def)
  moreover have "read_failed K U h e s = Some (stream_loop.more_update (\<lambda>l. l @ [Inr []]) s1)"
    using True s1(1) s U touched_pending(3) [OF s1(2)] by (simp add: read_failed_def reading_def recording_reader_def)
  moreover have "has_flag s1 h UV_HANDLE_READING" using s touched_fields(1) [OF s1(2)] by (simp add: reading_def has_flag_def)
  ultimately show ?thesis using touched_fields(9) [OF s1(2)]
    by (intro exI [of _ "stream_loop.more_update (\<lambda>l. l @ [Inr []]) s1"] exI [of _ "Inr []"]) (simp add: told_single)
next
  case False
  let ?s = "stream_loop.more_update (\<lambda>l. l @ [Inl e]) (clear_flag h (UV_HANDLE_READABLE OR UV_HANDLE_WRITABLE) s)"
  have ok: "io_ok ?s" using s io_ok_cong [of ?s s] by (simp add: clear_flag_def reading_def)
  obtain s1 where s1: "uv__io_stop h POLLIN (clear_flag h UV_HANDLE_READING ?s) = Some s1" "os s1 = os ?s"
    "\<not> has_flag s1 h UV_HANDLE_READING" "stream_loop.more s1 = stream_loop.more ?s"
    using stop_reading [OF ok, of h] s by (auto simp: reading_def clear_flag_def)
  have "has_flag ?s h UV_HANDLE_READING"
    using s by (simp add: reading_def flag_simps)
  then have "read_failed K U h e s = Some (uv__handle_stop h s1)"
    using False s1(1) s U by (simp add: read_failed_def reading_def recording_reader_def clear_flag_def)
  then show ?thesis using s1(2-4)
    by (intro exI [of _ "uv__handle_stop h s1"] exI [of _ "Inl e"])
       (simp add: told_single handle_stop_reading clear_flag_def)
qed

lemma stream_eof_result:
  assumes U: "recording_reader U acb rcb len h" and s: "reading s acb rcb h"
  shows "\<exists>s'. uv__stream_eof U h s = Some s' \<and> stream_loop.more s' = stream_loop.more s @ [Inl UV_EOF] \<and>
    os s' = os s \<and> told s' h len [Inl UV_EOF]"
proof -
  let ?s = "set_flag h UV_HANDLE_READ_EOF s"
  have ok: "io_ok ?s" using s io_ok_cong [of ?s s] by (simp add: set_flag_def reading_def)
  obtain s1 where s1: "uv__io_stop h POLLIN (clear_flag h UV_HANDLE_READING ?s) = Some s1" "os s1 = os ?s"
    "\<not> has_flag s1 h UV_HANDLE_READING" "stream_loop.more s1 = stream_loop.more ?s" "read_cb s1 = read_cb ?s"
    using stop_reading [OF ok, of h] s by (auto simp: reading_def set_flag_def)
  have "uv__stream_eof U h s = Some (stream_loop.more_update (\<lambda>l. l @ [Inl UV_EOF]) (uv__handle_stop h s1))"
    using s1(1,5) s U by (simp add: uv__stream_eof_def recording_reader_def reading_def set_flag_def)
  then show ?thesis using s1(2-4) by (simp add: told_single handle_stop_reading set_flag_def)
qed

text \<open>
  The loop of \<open>uv__read\<close> on a stream that carries no descriptors.
\<close>

lemma read_loop_result:
  assumes U: "recording_reader U acb rcb len h" and K: "source K input" and s: "reading s acb rcb h"
  shows "\<exists>s' xs. read_loop K U h False n s = Some s' \<and> stream_loop.more s' = stream_loop.more s @ xs \<and> length xs \<le> n \<and>
    input (os s) (io_fd s h) = delivered xs @ input (os s') (io_fd s h) \<and>
    (\<forall>fd. fd \<noteq> io_fd s h \<longrightarrow> input (os s') fd = input (os s) fd) \<and> told s' h len xs"
  using s
proof (induction n arbitrary: s)
  case 0
  then show ?case by (intro exI [of _ s] exI [of _ "[]"]) (simp add: told_def reading_def)
next
  case (Suc n)
  let ?fd = "io_fd s h"
  have len: "len > 0" using U by (simp add: recording_reader_def)
  have rd: "has_flag s h UV_HANDLE_READING" "read_cb s h = Some rcb" "alloc_cb s h = Some acb" "0 \<le> ?fd"
    using Suc.prems by (simp_all add: reading_def)
  obtain r w where w: "retry_eintr (k_read K ?fd len) (os s) = Some (r, w)"
    "\<forall>fd. fd \<noteq> ?fd \<longrightarrow> input w fd = input (os s) fd"
    "case r of Inl _ \<Rightarrow> input w ?fd = input (os s) ?fd | Inr xs \<Rightarrow> length xs \<le> len \<and> input (os s) ?fd = xs @ input w ?fd"
    using retry_reads [OF K, of ?fd len "os s"] by blast
  let ?s = "s\<lparr>os := w\<rparr>"
  have rcv: "stream_recv K h False len s = Some (map_sum id (\<lambda>xs. (xs, [])) r, ?s)"
    using w(1) by (simp add: stream_recv_def sys_prog_def uv__stream_fd_def)
  have rds: "reading ?s acb rcb h" using Suc.prems io_ok_cong [of ?s s] by (simp add: reading_def has_flag_def)
  show ?case
  proof (cases r)
    case (Inl e)
    obtain s' x where "read_failed K U h e ?s = Some s'" "stream_loop.more s' = stream_loop.more ?s @ [x]" "delivered [x] = []"
      "input (os s') = input (os ?s)" "told s' h len [x]"
      using read_failed_result [OF U rds K] by blast
    then show ?thesis using Inl rcv rd U w len
      by (intro exI [of _ s'] exI [of _ "[x]"]) (simp add: recording_reader_def uv__stream_fd_def)
  next
    case (Inr xs)
    show ?thesis
    proof (cases "xs = []")
      case True
      obtain s' where "uv__stream_eof U h ?s = Some s'" "stream_loop.more s' = stream_loop.more ?s @ [Inl UV_EOF]"
        "os s' = os ?s" "told s' h len [Inl UV_EOF]"
        using stream_eof_result [OF U rds] by blast
      then show ?thesis using Inr True rcv rd U w len
        by (intro exI [of _ s'] exI [of _ "[Inl UV_EOF]"]) (simp add: recording_reader_def uv__stream_fd_def)
    next
      case False
      let ?t = "stream_loop.more_update (\<lambda>l. l @ [Inr xs]) ?s"
      have le: "length xs \<le> len" and inp: "input (os s) ?fd = xs @ input w ?fd" using w(3) Inr by simp_all
      show ?thesis
      proof (cases "length xs < len")
        case short: True
        let ?e = "set_flag h UV_HANDLE_READ_PARTIAL ?t"
        have "read_loop K U h False (Suc n) s = Some ?e"
          using Inr False rcv rd U len short by (simp add: recording_reader_def uv__stream_fd_def)
        moreover have "told ?e h len [Inr xs]" using le rd(1) by (simp add: told_single has_flag_def set_flag_def flag_or)
        ultimately show ?thesis using inp w(2)
          by (intro exI [of _ ?e] exI [of _ "[Inr xs]"]) (simp add: set_flag_def)
      next
        case full: False
        have "reading ?t acb rcb h" using rds io_ok_cong [of ?t ?s] by (simp add: reading_def has_flag_def)
        from Suc.IH [OF this] obtain s' ys where ys: "read_loop K U h False n ?t = Some s'"
          "stream_loop.more s' = stream_loop.more ?t @ ys" "length ys \<le> n"
          "input (os ?t) (io_fd ?t h) = delivered ys @ input (os s') (io_fd ?t h)"
          "\<forall>fd. fd \<noteq> io_fd ?t h \<longrightarrow> input (os s') fd = input (os ?t) fd" "told s' h len ys"
          by blast
        have "read_loop K U h False (Suc n) s = Some s'"
          using Inr False rcv rd U len full ys(1) by (simp add: recording_reader_def uv__stream_fd_def)
        moreover have "told s' h len (Inr xs # ys)"
          using ys(6) le full by (simp add: told_Cons)
        ultimately show ?thesis using ys inp w(2)
          by (intro exI [of _ s'] exI [of _ "Inr xs # ys"]) simp
      qed
    qed
  qed
qed


text \<open>
  C12: \<open>uv__read\<close> on a stream that carries no descriptors, for a kernel that hands out the input in pieces or
  fails and a user who gives buffers and records: it returns after at most 32 reads, and the pieces the
  user was told of, followed by what is left, are the input of the descriptor: nothing is lost, repeated
  or reordered, and other descriptors are not read.  All but the last piece fill the buffer, none is
  longer, and the stream goes on reading unless the last answer was an error or the end of file.
\<close>

theorem read_delivers_in_order:
  assumes "recording_reader U acb rcb len h" and "source K input" and "reading s acb rcb h"
    and "htype s h = UV_NAMED_PIPE \<longrightarrow> \<not> pipe_ipc s h"
  shows "\<exists>s' xs. uv__read K U h s = Some s' \<and> stream_loop.more s' = stream_loop.more s @ xs \<and> length xs \<le> 32 \<and>
    input (os s) (io_fd s h) = delivered xs @ input (os s') (io_fd s h) \<and>
    (\<forall>fd. fd \<noteq> io_fd s h \<longrightarrow> input (os s') fd = input (os s) fd) \<and>
    (\<forall>x \<in> set (butlast xs). \<exists>b. x = Inr b \<and> length b = len) \<and> (\<forall>b. Inr b \<in> set xs \<longrightarrow> length b \<le> len) \<and>
    (has_flag s' h UV_HANDLE_READING \<longleftrightarrow> (\<forall>e. Inl e \<notin> set xs))"
proof -
  let ?s = "clear_flag h UV_HANDLE_READ_PARTIAL s"
  have f: "io_fd ?s = io_fd s" "os ?s = os s" "stream_loop.more ?s = stream_loop.more s" "htype ?s = htype s" "pipe_ipc ?s = pipe_ipc s"
    by (simp_all add: clear_flag_def)
  have "io_ok ?s = io_ok s" by (rule io_ok_cong) (simp_all add: clear_flag_def)
  then have r: "reading ?s acb rcb h" using assms(3) by (simp add: reading_def flag_simps) (simp add: clear_flag_def)
  have "uv__read K U h s = read_loop K U h False 32 ?s" using assms(4) f by (auto simp: uv__read_def Let_def)
  then show ?thesis using read_loop_result [OF assms(1,2) r, of 32] unfolding f told_def by presburger
qed


text \<open>A kernel whose state is the input of each descriptor.\<close>

definition input_kernel :: "(int \<Rightarrow> string) stream_kernel" where
  "input_kernel = demo_stream_kernel\<lparr>k_read := \<lambda>fd n w. (Inr (take n (w fd)), w(fd := drop n (w fd)))\<rparr>"

definition demo_reader :: "(int \<Rightarrow> string, (uv_errno + string) list) stream_loop_scheme stream_calls" where
  "demo_reader = \<lparr>call_alloc = \<lambda>_ _ s. Some (Some 4, s), call_read = \<lambda>_ _ x s. Some (stream_loop.more_update (\<lambda>l. l @ [x]) s),
     call_connection = \<lambda>_ _ _ s. Some s, call_req = \<lambda>_ _ _ s. Some s, udp_open = \<lambda>_ _ s. Some (Inl UV_EINVAL, s)\<rparr>"

definition input_loop :: "(int \<Rightarrow> string, (uv_errno + string) list) stream_loop_scheme" where
  "input_loop = stream_loop.extend (stream_loop.truncate demo_stream_loop) []
     \<lparr>flags := \<lambda>_. UV_HANDLE_READING, alloc_cb := \<lambda>_. Some 1, read_cb := \<lambda>_. Some 2, os := \<lambda>_. ''abcdef''\<rparr>"

lemma demo_source: "source input_kernel (\<lambda>w. w)"
  by (auto simp: source_def input_kernel_def ends_def demo_stream_kernel_def fd_kernel.defs io_kernel.defs stream_kernel.defs
      intro: exI [of _ 0])

lemma input_loop_fields:
  "flags input_loop = (\<lambda>_. UV_HANDLE_READING)" "alloc_cb input_loop = (\<lambda>_. Some 1)" "read_cb input_loop = (\<lambda>_. Some 2)"
  "os input_loop = (\<lambda>_. ''abcdef'')" "io_fd input_loop = (\<lambda>_. 5)" "htype input_loop = (\<lambda>_. UV_TCP)"
  "watchers input_loop = None" "nwatchers input_loop = 0" "nfds input_loop = 0" "stream_loop.more input_loop = []"
  by (simp_all add: input_loop_def demo_stream_defs)

theorem read_delivers_in_order_witness:
  "\<exists>s' xs. uv__read input_kernel demo_reader 7 input_loop = Some s' \<and> stream_loop.more s' = xs \<and>
    ''abcdef'' = delivered xs @ os s' 5"
proof -
  have u: "recording_reader demo_reader 1 2 4 7" by (simp add: recording_reader_def demo_reader_def)
  have r: "reading input_loop 1 2 7" by (simp add: reading_def input_loop_fields has_flag_def io_ok_def)
  show ?thesis using read_delivers_in_order [OF u demo_source r] by (auto simp: input_loop_fields)
qed

end
