(* ===== verification/Tcp.thy ===== *)
theory Tcp
  imports StreamRead
begin

text \<open>
  src/unix/tcp.c, \<open>uv_listen\<close> of src/unix/stream.c, the checks of src/uv-common.c in front of them and
  \<open>uv_fileno\<close>, \<open>uv__getsockpeername\<close>, \<open>uv__socket_sockopt\<close> of src/unix/core.c, in the Linux build.
  Addresses are records with the family, the port and the rest; their lengths follow from the family.
  The lemmas show who owns the descriptor of a socket at every exit, and what becomes of an error of
  \<open>bind\<close> that is kept for later.
\<close>

section \<open>State\<close>

record 'w tcp_kernel = "'w stream_kernel" +
  k_getpeername :: "int \<Rightarrow> ('w, sockaddr) sys"
  k_socketpair :: "u32 \<Rightarrow> int \<Rightarrow> ('w, int \<times> int) sys"
  k_getsockopt :: "int \<Rightarrow> int \<Rightarrow> ('w, int) sys"
  k_setsockopt_int :: "int \<Rightarrow> int \<Rightarrow> int \<Rightarrow> ('w, unit) sys"
  k_env :: "string \<Rightarrow> 'w \<Rightarrow> string option"

text \<open>\<open>single_accept_cached\<close> is the static variable of \<open>uv__tcp_listen\<close>.\<close>

record 'w tcp_loop = "'w stream_loop" +
  single_accept_cached :: int

abbreviation stK :: "'w tcp_kernel \<Rightarrow> 'w stream_kernel" where "stK K \<equiv> stream_kernel.truncate K"
abbreviation SOCK_STREAM :: u32 where "SOCK_STREAM \<equiv> 1"
abbreviation UV_TCP_IPV6ONLY :: u32 where "UV_TCP_IPV6ONLY \<equiv> 1"
abbreviation UV_NONBLOCK_PIPE :: u32 where "UV_NONBLOCK_PIPE \<equiv> 0x40"

definition af_num :: "sa_family \<Rightarrow> int" where
  "af_num f = (case f of AF_UNSPEC \<Rightarrow> 0 | AF_UNIX \<Rightarrow> 1 | AF_INET \<Rightarrow> 2 | AF_INET6 \<Rightarrow> 10 | AF_OTHER n \<Rightarrow> int n)"

definition af_of :: "int \<Rightarrow> sa_family" where
  "af_of n = (if n = 0 then AF_UNSPEC else if n = 1 then AF_UNIX else if n = 2 then AF_INET
     else if n = 10 then AF_INET6 else AF_OTHER (nat n))"

text \<open>\<open>atoi\<close> of the C library, for numbers in the range of \<open>int\<close>.\<close>

fun digits_value :: "int \<Rightarrow> string \<Rightarrow> int" where
  "digits_value acc [] = acc"
| "digits_value acc (c # cs) =
     (if of_char c \<ge> (48 :: int) \<and> of_char c \<le> (57 :: int) then digits_value (acc * 10 + (of_char c - 48)) cs else acc)"

definition atoi :: "string \<Rightarrow> int" where
  "atoi str =
     (let cs = dropWhile (\<lambda>c. of_char c = (32 :: int) \<or> of_char c \<ge> (9 :: int) \<and> of_char c \<le> (13 :: int)) str
      in case cs of
           CHR ''-'' # ds \<Rightarrow> - digits_value 0 ds
         | CHR ''+'' # ds \<Rightarrow> digits_value 0 ds
         | _ \<Rightarrow> digits_value 0 cs)"

section \<open>Sockets\<close>

text \<open>On a failure of \<open>getsockname\<close> or \<open>bind\<close> the stream keeps the number of the descriptor it has closed.\<close>

definition new_socket ::
  "'w stream_kernel \<Rightarrow> addr \<Rightarrow> sa_family \<Rightarrow> u32 \<Rightarrow> ('w, 'a) stream_loop_scheme \<Rightarrow>
    ((uv_errno + unit) \<times> ('w, 'a) stream_loop_scheme) option" where
  "new_socket K h dmn fl s = do {
     (err, s) \<leftarrow> sys_prog (uv__socket (fdK K) (af_num dmn) SOCK_STREAM 0) s;
     (case err of
        Inl e \<Rightarrow> Some (Inl e, s)
      | Inr sockfd \<Rightarrow> do {
          (err, s) \<leftarrow> uv__stream_open K h sockfd fl s;
          (case err of
             Inl e \<Rightarrow> do {
               (_, s) \<leftarrow> sys_prog (uv__close (fdK K) sockfd) s;
               Some (Inl e, s) }
           | Inr _ \<Rightarrow>
               if fl AND UV_HANDLE_BOUND \<noteq> 0 then
                 (case sys (k_getsockname K (uv__stream_fd s h)) s of
                    (Inl e, s) \<Rightarrow> do {
                      (_, s) \<leftarrow> sys_prog (uv__close (fdK K) sockfd) s;
                      Some (Inl e, s) }
                  | (Inr saddr, s) \<Rightarrow>
                      (case sys (k_bind K (uv__stream_fd s h) saddr) s of
                         (Inl e, s) \<Rightarrow> do {
                           (_, s) \<leftarrow> sys_prog (uv__close (fdK K) sockfd) s;
                           Some (Inl e, s) }
                       | (Inr _, s) \<Rightarrow> Some (Inr (), s)))
               else Some (Inr (), s)) }) }"

definition maybe_new_socket ::
  "'w stream_kernel \<Rightarrow> addr \<Rightarrow> sa_family \<Rightarrow> u32 \<Rightarrow> ('w, 'a) stream_loop_scheme \<Rightarrow>
    ((uv_errno + unit) \<times> ('w, 'a) stream_loop_scheme) option" where
  "maybe_new_socket K h dmn fl s =
     (if dmn = AF_UNSPEC then Some (Inr (), set_flag h fl s)
      else if uv__stream_fd s h \<noteq> -1 then
        (if fl AND UV_HANDLE_BOUND \<noteq> 0 then
           (if has_flag s h UV_HANDLE_BOUND then Some (Inr (), set_flag h fl s)
            else (case sys (k_getsockname K (uv__stream_fd s h)) s of
                    (Inl e, s) \<Rightarrow> Some (Inl e, s)
                  | (Inr saddr, s) \<Rightarrow>
                      if (sa_family saddr = AF_INET6 \<or> sa_family saddr = AF_INET) \<and> sin_port saddr \<noteq> 0
                      then Some (Inr (), set_flag h fl s)
                      else (case sys (k_bind K (uv__stream_fd s h) saddr) s of
                              (Inl e, s) \<Rightarrow> Some (Inl e, s)
                            | (Inr _, s) \<Rightarrow> Some (Inr (), set_flag h fl s))))
         else Some (Inr (), set_flag h fl s))
      else new_socket K h dmn fl s)"

definition uv_tcp_init_ex ::
  "'w stream_kernel \<Rightarrow> addr \<Rightarrow> u32 \<Rightarrow> ('w, 'a) stream_loop_scheme \<Rightarrow>
    ((uv_errno + unit) \<times> ('w, 'a) stream_loop_scheme) option" where
  "uv_tcp_init_ex K h fl s =
     (let dmn = af_of (uint (fl AND 0xFF))
      in if dmn \<noteq> AF_INET \<and> dmn \<noteq> AF_INET6 \<and> dmn \<noteq> AF_UNSPEC then Some (Inl UV_EINVAL, s)
         else if fl AND NOT 0xFF \<noteq> 0 then Some (Inl UV_EINVAL, s)
         else do {
           s \<leftarrow> uv__stream_init K h UV_TCP s;
           if dmn \<noteq> AF_UNSPEC then do {
             (err, s) \<leftarrow> maybe_new_socket K h dmn 0 s;
             Some (err, case err of Inl _ \<Rightarrow> s\<lparr>qs := QUEUE_REMOVE (NodeQ HandleK h) (qs s)\<rparr> | Inr _ \<Rightarrow> s) }
           else Some (Inr (), s) })"

definition uv_tcp_init ::
  "'w stream_kernel \<Rightarrow> addr \<Rightarrow> ('w, 'a) stream_loop_scheme \<Rightarrow>
    ((uv_errno + unit) \<times> ('w, 'a) stream_loop_scheme) option" where
  "uv_tcp_init K h s = uv_tcp_init_ex K h 0 s"

definition uv__tcp_bind ::
  "'w stream_kernel \<Rightarrow> addr \<Rightarrow> sockaddr \<Rightarrow> u32 \<Rightarrow> ('w, 'a) stream_loop_scheme \<Rightarrow>
    ((uv_errno + unit) \<times> ('w, 'a) stream_loop_scheme) option" where
  "uv__tcp_bind K h sa fl s =
     (if fl AND UV_TCP_IPV6ONLY \<noteq> 0 \<and> sa_family sa \<noteq> AF_INET6 then Some (Inl UV_EINVAL, s)
      else do {
        (err, s) \<leftarrow> maybe_new_socket K h (sa_family sa) 0 s;
        (case err of
           Inl e \<Rightarrow> Some (Inl e, s)
         | Inr _ \<Rightarrow>
             (case sys (k_setsockopt K (io_fd s h) (SO_REUSEADDR True)) s of
                (Inl e, s) \<Rightarrow> Some (Inl e, s)
              | (Inr _, s) \<Rightarrow>
                  (case (if sa_family sa = AF_INET6
                         then sys (k_setsockopt K (io_fd s h) (IPV6_V6ONLY (fl AND UV_TCP_IPV6ONLY \<noteq> 0))) s
                         else (Inr (), s)) of
                     (Inl e, s) \<Rightarrow> Some (Inl e, s)
                   | (Inr _, s) \<Rightarrow>
                       (case sys (k_bind K (io_fd s h) sa) s of
                          (r, s) \<Rightarrow>
                            if r \<noteq> Inr () \<and> r \<noteq> Inl UV_EADDRINUSE
                            then Some (if r = Inl UV_EAFNOSUPPORT then Inl UV_EINVAL else r, s)
                            else let s = s\<lparr>delayed_error := (delayed_error s)(h := (if r = Inr () then None else Some UV_EADDRINUSE))\<rparr>;
                                     s = set_flag h UV_HANDLE_BOUND s
                                 in Some (Inr (), if sa_family sa = AF_INET6 then set_flag h UV_HANDLE_IPV6 s else s))))) })"

definition uv__tcp_connect ::
  "'w stream_kernel \<Rightarrow> addr \<Rightarrow> addr \<Rightarrow> sockaddr \<Rightarrow> nat option \<Rightarrow> ('w, 'a) stream_loop_scheme \<Rightarrow>
    ((uv_errno + unit) \<times> ('w, 'a) stream_loop_scheme) option" where
  "uv__tcp_connect K req h sa cb s = do {
     uv_assert (htype s h = UV_TCP);
     if connect_req s h \<noteq> None then Some (Inl UV_EALREADY, s)
     else do {
       (err, s) \<leftarrow>
         (if delayed_error s h \<noteq> None then Some (Inr (), s)
          else do {
            (err, s) \<leftarrow> maybe_new_socket K h (sa_family sa) (UV_HANDLE_READABLE OR UV_HANDLE_WRITABLE) s;
            (case err of
               Inl e \<Rightarrow> Some (Inl e, s)
             | Inr _ \<Rightarrow> do {
                 (r, s) \<leftarrow> sys_prog (retry_eintr (k_connect K (uv__stream_fd s h) sa)) s;
                 Some (case r of
                   Inr _ \<Rightarrow> (Inr (), s)
                 | Inl e \<Rightarrow>
                     if e = UV_EINPROGRESS then (Inr (), s)
                     else if e = UV_ECONNREFUSED then
                       (Inr (), s\<lparr>delayed_error := (delayed_error s)(h := Some UV_ECONNREFUSED)\<rparr>)
                     else (Inl e, s)) }) });
       (case err of
          Inl e \<Rightarrow> Some (Inl e, s)
        | Inr _ \<Rightarrow> do {
            let s = uv__req_register s;
            let s = s\<lparr>req_cb := (req_cb s)(req := cb), req_handle := (req_handle s)(req := h),
                      connect_req := (connect_req s)(h := Some req)\<rparr>;
            s \<leftarrow> uv__io_start (ioK K) h POLLOUT s;
            Some (Inr (), if delayed_error s h \<noteq> None then uv__io_feed h s else s) }) } }"

definition uv_tcp_open ::
  "'w stream_kernel \<Rightarrow> addr \<Rightarrow> int \<Rightarrow> ('w, 'a) stream_loop_scheme \<Rightarrow>
    ((uv_errno + unit) \<times> ('w, 'a) stream_loop_scheme) option" where
  "uv_tcp_open K h sock s = do {
     there \<leftarrow> uv__fd_exists s sock;
     if there then Some (Inl UV_EEXIST, s)
     else do {
       (err, s) \<leftarrow> sys_prog (uv__nonblock (fdK K) sock True) s;
       (case err of
          Inl e \<Rightarrow> Some (Inl e, s)
        | Inr _ \<Rightarrow> uv__stream_open K h sock (UV_HANDLE_READABLE OR UV_HANDLE_WRITABLE) s) } }"

section \<open>Addresses of a socket\<close>

definition uv_fileno :: "addr \<Rightarrow> ('w, 'a) io_loop_scheme \<Rightarrow> uv_errno + int" where
  "uv_fileno h s =
     (if htype s h \<in> {UV_TCP, UV_NAMED_PIPE, UV_TTY, UV_UDP, UV_POLL} then
        (let fd_out = io_fd s h
         in if uv__is_closing s h \<or> fd_out = -1 then Inl UV_EBADF else Inr fd_out)
      else Inl UV_EINVAL)"

definition uv__getsockpeername ::
  "(int \<Rightarrow> ('w, sockaddr) sys) \<Rightarrow> addr \<Rightarrow> ('w, 'a) io_loop_scheme \<Rightarrow> (uv_errno + sockaddr) \<times> ('w, 'a) io_loop_scheme" where
  "uv__getsockpeername func h s =
     (case uv_fileno h s of Inl e \<Rightarrow> (Inl e, s) | Inr fd \<Rightarrow> sys (func fd) s)"

definition uv_tcp_getsockname ::
  "'w tcp_kernel \<Rightarrow> addr \<Rightarrow> ('w, 'a) stream_loop_scheme \<Rightarrow> (uv_errno + sockaddr) \<times> ('w, 'a) stream_loop_scheme" where
  "uv_tcp_getsockname K h s =
     (case delayed_error s h of
        Some e \<Rightarrow> (Inl e, s)
      | None \<Rightarrow> uv__getsockpeername (k_getsockname K) h s)"

definition uv_tcp_getpeername ::
  "'w tcp_kernel \<Rightarrow> addr \<Rightarrow> ('w, 'a) stream_loop_scheme \<Rightarrow> (uv_errno + sockaddr) \<times> ('w, 'a) stream_loop_scheme" where
  "uv_tcp_getpeername K h s =
     (case delayed_error s h of
        Some e \<Rightarrow> (Inl e, s)
      | None \<Rightarrow> uv__getsockpeername (k_getpeername K) h s)"

text \<open>\<open>handle\<close> and \<open>value\<close> may be \<open>NULL\<close>; the value that is read is returned.\<close>

definition uv__socket_sockopt ::
  "'w tcp_kernel \<Rightarrow> ptr \<Rightarrow> int \<Rightarrow> int option \<Rightarrow> ('w, 'a) stream_loop_scheme \<Rightarrow>
    (uv_errno + int) \<times> ('w, 'a) stream_loop_scheme" where
  "uv__socket_sockopt K handle optname val s =
     (case (handle, val) of
        (Some h, Some v) \<Rightarrow>
          if htype s h \<in> {UV_TCP, UV_NAMED_PIPE, UV_UDP} then
            (if v = 0 then sys (k_getsockopt K (io_fd s h) optname) s
             else case sys (k_setsockopt_int K (io_fd s h) optname v) s of
                    (Inl e, s) \<Rightarrow> (Inl e, s) | (Inr _, s) \<Rightarrow> (Inr v, s))
          else (Inl UV_ENOTSUP, s)
      | _ \<Rightarrow> (Inl UV_EINVAL, s))"

abbreviation SO_SNDBUF :: int where "SO_SNDBUF \<equiv> 7"
abbreviation SO_RCVBUF :: int where "SO_RCVBUF \<equiv> 8"

definition uv_recv_buffer_size ::
  "'w tcp_kernel \<Rightarrow> ptr \<Rightarrow> int option \<Rightarrow> ('w, 'a) stream_loop_scheme \<Rightarrow> (uv_errno + int) \<times> ('w, 'a) stream_loop_scheme" where
  "uv_recv_buffer_size K handle val s = uv__socket_sockopt K handle SO_RCVBUF val s"

definition uv_send_buffer_size ::
  "'w tcp_kernel \<Rightarrow> ptr \<Rightarrow> int option \<Rightarrow> ('w, 'a) stream_loop_scheme \<Rightarrow> (uv_errno + int) \<times> ('w, 'a) stream_loop_scheme" where
  "uv_send_buffer_size K handle val s = uv__socket_sockopt K handle SO_SNDBUF val s"

section \<open>Listening, options, closing\<close>

definition uv__tcp_listen ::
  "'w tcp_kernel \<Rightarrow> addr \<Rightarrow> int \<Rightarrow> nat option \<Rightarrow> ('w, 'a) tcp_loop_scheme \<Rightarrow>
    ((uv_errno + unit) \<times> ('w, 'a) tcp_loop_scheme) option" where
  "uv__tcp_listen K h backlog cb s =
     (case delayed_error s h of
        Some e \<Rightarrow> Some (Inl e, s)
      | None \<Rightarrow> do {
          let s = (if single_accept_cached s = -1 then
                     s\<lparr>single_accept_cached :=
                       (case k_env K ''UV_TCP_SINGLE_ACCEPT'' (os s) of
                          None \<Rightarrow> 0 | Some val \<Rightarrow> if atoi val \<noteq> 0 then 1 else 0)\<rparr>
                   else s);
          let s = (if single_accept_cached s \<noteq> 0 then set_flag h UV_HANDLE_TCP_SINGLE_ACCEPT s else s);
          (err, s) \<leftarrow> maybe_new_socket (stK K) h AF_INET 0 s;
          (case err of
             Inl e \<Rightarrow> Some (Inl e, s)
           | Inr _ \<Rightarrow>
               (case sys (k_listen K (io_fd s h) backlog) s of
                  (Inl e, s) \<Rightarrow> Some (Inl e, s)
                | (Inr _, s) \<Rightarrow> do {
                    let s = s\<lparr>connection_cb := (connection_cb s)(h := cb)\<rparr>;
                    let s = set_flag h UV_HANDLE_BOUND s;
                    let s = s\<lparr>io_cb := (io_cb s)(h := UV__SERVER_IO)\<rparr>;
                    s \<leftarrow> uv__io_start (ioK (stK K)) h POLLIN s;
                    Some (Inr (), s) })) })"

text \<open>\<open>uv_listen\<close> of src/unix/stream.c; \<open>pipe_listen\<close> stands for \<open>uv__pipe_listen\<close>.\<close>

definition uv_listen ::
  "'w tcp_kernel \<Rightarrow>
    (addr \<Rightarrow> int \<Rightarrow> nat option \<Rightarrow> ('w, 'a) tcp_loop_scheme \<Rightarrow> ((uv_errno + unit) \<times> ('w, 'a) tcp_loop_scheme) option) \<Rightarrow>
    addr \<Rightarrow> int \<Rightarrow> nat option \<Rightarrow> ('w, 'a) tcp_loop_scheme \<Rightarrow>
    ((uv_errno + unit) \<times> ('w, 'a) tcp_loop_scheme) option" where
  "uv_listen K pipe_listen h backlog cb s = do {
     (err, s) \<leftarrow> (case htype s h of
                    UV_TCP \<Rightarrow> uv__tcp_listen K h backlog cb s
                  | UV_NAMED_PIPE \<Rightarrow> pipe_listen h backlog cb s
                  | _ \<Rightarrow> Some (Inl UV_EINVAL, s));
     Some (err, case err of Inr _ \<Rightarrow> uv__handle_start h s | Inl _ \<Rightarrow> s) }"

definition uv_tcp_nodelay ::
  "'w stream_kernel \<Rightarrow> addr \<Rightarrow> bool \<Rightarrow> ('w, 'a) stream_loop_scheme \<Rightarrow> (uv_errno + unit) \<times> ('w, 'a) stream_loop_scheme" where
  "uv_tcp_nodelay K h on s =
     (case (if uv__stream_fd s h \<noteq> -1 then sys (uv__tcp_nodelay K (uv__stream_fd s h) on) s else (Inr (), s)) of
        (Inl e, s) \<Rightarrow> (Inl e, s)
      | (Inr _, s) \<Rightarrow> (Inr (), if on then set_flag h UV_HANDLE_TCP_NODELAY s else clear_flag h UV_HANDLE_TCP_NODELAY s))"

definition uv_tcp_keepalive ::
  "'w stream_kernel \<Rightarrow> addr \<Rightarrow> bool \<Rightarrow> u32 \<Rightarrow> ('w, 'a) stream_loop_scheme \<Rightarrow> (uv_errno + unit) \<times> ('w, 'a) stream_loop_scheme" where
  "uv_tcp_keepalive K h on delay s =
     (case (if uv__stream_fd s h \<noteq> -1 then sys (uv__tcp_keepalive K (uv__stream_fd s h) on delay) s else (Inr (), s)) of
        (Inl e, s) \<Rightarrow> (Inl e, s)
      | (Inr _, s) \<Rightarrow> (Inr (), if on then set_flag h UV_HANDLE_TCP_KEEPALIVE s else clear_flag h UV_HANDLE_TCP_KEEPALIVE s))"

definition uv_tcp_simultaneous_accepts :: "addr \<Rightarrow> bool \<Rightarrow> ('w, 'a) stream_loop_scheme \<Rightarrow> ('w, 'a) stream_loop_scheme" where
  "uv_tcp_simultaneous_accepts h enable s =
     (if enable then clear_flag h UV_HANDLE_TCP_SINGLE_ACCEPT s else set_flag h UV_HANDLE_TCP_SINGLE_ACCEPT s)"

definition uv__tcp_close ::
  "'w stream_kernel \<Rightarrow> addr \<Rightarrow> ('w, 'a) stream_loop_scheme \<Rightarrow> ('w, 'a) stream_loop_scheme option" where
  "uv__tcp_close K h s = uv__stream_close K h s"

definition uv_tcp_close_reset ::
  "'w stream_kernel \<Rightarrow> ('w, 'a) stream_loop_scheme loop_calls \<Rightarrow>
    (('w, 'a) stream_loop_scheme \<Rightarrow> ('w, 'a) stream_loop_scheme) \<Rightarrow> addr \<Rightarrow> nat option \<Rightarrow>
    ('w, 'a) stream_loop_scheme \<Rightarrow> ((uv_errno + unit) \<times> ('w, 'a) stream_loop_scheme) option" where
  "uv_tcp_close_reset K U relax h cb s =
     (if has_flag s h UV_HANDLE_SHUTTING then Some (Inl UV_EINVAL, s)
      else (case sys (k_setsockopt K (uv__stream_fd s h) SO_LINGER_ZERO) s of
              (Inl e, s) \<Rightarrow> Some (Inl e, s)
            | (Inr _, s) \<Rightarrow> do {
                s \<leftarrow> uv_close U relax h cb s;
                Some (Inr (), s) }))"

definition uv_socketpair ::
  "'w tcp_kernel \<Rightarrow> u32 \<Rightarrow> int \<Rightarrow> u32 \<Rightarrow> u32 \<Rightarrow> ('w, int \<times> int) prog" where
  "uv_socketpair K type protocol flags0 flags1 w =
     (let fl = type OR SOCK_CLOEXEC;
          fl = (if flags0 AND UV_NONBLOCK_PIPE \<noteq> 0 \<and> flags1 AND UV_NONBLOCK_PIPE \<noteq> 0 then fl OR SOCK_NONBLOCK else fl)
      in case k_socketpair K fl protocol w of
           (Inl e, w) \<Rightarrow> Some (Inl e, w)
         | (Inr (a, b), w) \<Rightarrow>
             if fl AND O_NONBLOCK \<noteq> 0 then Some (Inr (a, b), w)
             else do {
               (err, w) \<leftarrow> (if flags0 AND UV_NONBLOCK_PIPE \<noteq> 0 then uv__nonblock (fdK (stK K)) a True w else Some (Inr (), w));
               (err, w) \<leftarrow> (case err of
                  Inl e \<Rightarrow> Some (Inl e, w)
                | Inr _ \<Rightarrow> if flags1 AND UV_NONBLOCK_PIPE \<noteq> 0 then uv__nonblock (fdK (stK K)) b True w else Some (Inr (), w));
               (case err of
                  Inr _ \<Rightarrow> Some (Inr (a, b), w)
                | Inl e \<Rightarrow> do {
                    (_, w) \<leftarrow> uv__close (fdK (stK K)) a w;
                    (_, w) \<leftarrow> uv__close (fdK (stK K)) b w;
                    Some (Inl e, w) }) })"

section \<open>Checks in front\<close>

definition uv_tcp_bind ::
  "'w stream_kernel \<Rightarrow> addr \<Rightarrow> sockaddr \<Rightarrow> u32 \<Rightarrow> ('w, 'a) stream_loop_scheme \<Rightarrow>
    ((uv_errno + unit) \<times> ('w, 'a) stream_loop_scheme) option" where
  "uv_tcp_bind K h sa fl s =
     (if htype s h \<noteq> UV_TCP then Some (Inl UV_EINVAL, s)
      else if sa_family sa = AF_INET \<or> sa_family sa = AF_INET6 then uv__tcp_bind K h sa fl s
      else Some (Inl UV_EINVAL, s))"

definition uv_tcp_connect ::
  "'w stream_kernel \<Rightarrow> addr \<Rightarrow> addr \<Rightarrow> sockaddr \<Rightarrow> nat option \<Rightarrow> ('w, 'a) stream_loop_scheme \<Rightarrow>
    ((uv_errno + unit) \<times> ('w, 'a) stream_loop_scheme) option" where
  "uv_tcp_connect K req h sa cb s =
     (if htype s h \<noteq> UV_TCP then Some (Inl UV_EINVAL, s)
      else if sa_family sa = AF_INET \<or> sa_family sa = AF_INET6 then uv__tcp_connect K req h sa cb s
      else Some (Inl UV_EINVAL, s))"


section \<open>Who owns the descriptor\<close>

text \<open>
  The kernel: \<open>fds\<close> is the set of open descriptors, all in range; the calls on a socket leave it alone,
  and the allocator works.
\<close>

definition tcp_laws :: "'w stream_kernel \<Rightarrow> ('w \<Rightarrow> int set) \<Rightarrow> bool" where
  "tcp_laws K fds \<longleftrightarrow> fd_laws (fdK K) fds \<and>
     (\<forall>n w. fst (k_realloc K n w) \<and> fds (snd (k_realloc K n w)) = fds w) \<and>
     (\<forall>fd opt. keeps fds (k_setsockopt K fd opt)) \<and> (\<forall>fd sa. keeps fds (k_bind K fd sa)) \<and>
     (\<forall>fd n. keeps fds (k_listen K fd n)) \<and> (\<forall>fd sa. keeps fds (k_connect K fd sa) \<and> ends (k_connect K fd sa)) \<and>
     (\<forall>w. \<forall>x \<in> fds w. 0 \<le> x \<and> x < 2 ^ 31 - 3)"

text \<open>The descriptor of the handle is open, or there is none; no other descriptor comes or goes.\<close>

definition owns :: "('w \<Rightarrow> int set) \<Rightarrow> addr \<Rightarrow> ('w, 'a) stream_loop_scheme \<Rightarrow> ('w, 'a) stream_loop_scheme \<Rightarrow> bool" where
  "owns fds h s s' \<longleftrightarrow> fds (os s') - {io_fd s' h} = fds (os s) - {io_fd s h} \<and>
     (io_fd s' h = -1 \<or> io_fd s' h \<in> fds (os s')) \<and> (io_fd s h \<noteq> -1 \<longrightarrow> io_fd s' h = io_fd s h)"

lemma tcp_lawsD:
  assumes "tcp_laws K fds"
  shows "fd_laws (fdK K) fds" "fst (k_realloc K n w)" "fds (snd (k_realloc K n w)) = fds w"
    "keeps fds (k_setsockopt K fd opt)" "fds (snd (k_setsockopt K fd opt w)) = fds w" "fds (snd (k_bind K fd sa w)) = fds w"
    "fds (snd (k_listen K fd m w)) = fds w" "keeps fds (k_connect K fd sa)" "ends (k_connect K fd sa)"
    "x \<in> fds w \<Longrightarrow> 0 \<le> x \<and> x < 2 ^ 31 - 3"
  using assms by (auto simp: tcp_laws_def keeps_def)

lemma maybe_new_socket_result:
  assumes L: "tcp_laws K fds" and own: "io_fd s h = -1 \<or> io_fd s h \<in> fds (os s)" and d: "d \<noteq> AF_UNSPEC"
    and fl: "fl AND UV_HANDLE_BOUND = 0"
  shows "\<exists>r s'. maybe_new_socket K h d fl s = Some (r, s') \<and>
    s' = s\<lparr>flags := flags s', os := os s', io_fd := io_fd s'\<rparr> \<and>
    (if io_fd s h = -1 \<and> r = Inr ()
     then \<exists>fd. fd > 2 \<and> fd \<notin> fds (os s) \<and> fds (os s') = insert fd (fds (os s)) \<and> io_fd s' = (io_fd s)(h := fd)
     else fds (os s') = fds (os s) \<and> io_fd s' = io_fd s)"
proof (cases "io_fd s h = -1")
  case False
  then have "maybe_new_socket K h d fl s = Some (Inr (), set_flag h fl s)"
    using d fl by (simp add: maybe_new_socket_def uv__stream_fd_def)
  then show ?thesis using False by (intro exI [of _ "Inr ()"] exI [of _ "set_flag h fl s"]) (simp add: set_flag_def)
next
  case True
  obtain r w where rw: "uv__socket (fdK K) (af_num d) SOCK_STREAM 0 (os s) = Some (r, w)" "opened fds (os s) r w"
    using socket_opened [OF tcp_lawsD(1) [OF L]] by blast
  have m: "maybe_new_socket K h d fl s = new_socket K h d fl s" using True d by (simp add: maybe_new_socket_def uv__stream_fd_def)
  show ?thesis
  proof (cases r)
    case (Inl e)
    then have "new_socket K h d fl s = Some (Inl e, s\<lparr>os := w\<rparr>)" using rw(1) by (simp add: new_socket_def sys_prog_def)
    then show ?thesis using m rw(2) Inl by (intro exI [of _ "Inl e"] exI [of _ "s\<lparr>os := w\<rparr>"]) (simp add: opened_def)
  next
    case (Inr fd)
    then have fd: "fd > 2" "fd \<notin> fds (os s)" "fds w = insert fd (fds (os s))" using rw(2) by (simp_all add: opened_def)
    let ?s = "s\<lparr>os := w\<rparr>"
    have pre: "io_fd ?s h = -1" "fd \<ge> 0" using True fd(1) by simp_all
    obtain r1 s1 where s1: "uv__stream_open K h fd fl ?s = Some (r1, s1)" "fds (os s1) = fds (os ?s)"
      "s1 = ?s\<lparr>flags := (flags ?s)(h := flags ?s h OR fl), os := os s1, io_fd := io_fd s1\<rparr>"
      "io_fd s1 = (if r1 = Inr () then (io_fd ?s)(h := fd) else io_fd ?s)"
      using stream_open_result [OF pre tcp_lawsD(4) [OF L]] by blast
    have fl1: "flags s1 = (flags s)(h := flags s h OR fl)" by (subst s1(3)) simp
    show ?thesis
    proof (cases r1)
      case (Inl e)
      have "fd \<in> fds (os s1)" using s1(2) fd(3) by simp
      then obtain w2 where w2: "sys_prog (uv__close (fdK K) fd) s1 = Some (Inr (), s1\<lparr>os := w2\<rparr>)" "fds w2 = fds (os s1) - {fd}"
        using sys_close [OF tcp_lawsD(1) [OF L] _ fd(1)] by blast
      have "new_socket K h d fl s = Some (Inl e, s1\<lparr>os := w2\<rparr>)"
        using rw(1) \<open>r = Inr fd\<close> s1(1) Inl w2(1) by (simp add: new_socket_def sys_prog_def [of "uv__socket K' a b c" for K' a b c])
      moreover have "fds w2 = fds (os s)" using w2(2) s1(2) fd by auto
      moreover have "s1\<lparr>os := w2\<rparr> = s\<lparr>flags := flags s1, os := w2, io_fd := io_fd s1\<rparr>" by (subst (1) s1(3)) (simp add: fl1)
      ultimately show ?thesis using m s1(4) Inl by (intro exI [of _ "Inl e"] exI [of _ "s1\<lparr>os := w2\<rparr>"]) simp
    next
      case (Inr u)
      then have "new_socket K h d fl s = Some (Inr (), s1)"
        using rw(1) \<open>r = Inr fd\<close> s1(1) fl by (simp add: new_socket_def sys_prog_def)
      moreover have "s1 = s\<lparr>flags := flags s1, os := os s1, io_fd := io_fd s1\<rparr>" by (subst (1) s1(3)) (simp add: fl1)
      ultimately show ?thesis using m s1(2,4) Inr fd True by (intro exI [of _ "Inr ()"] exI [of _ s1]) auto
    qed
  qed
qed


lemma maybe_new_socket_owns:
  assumes L: "tcp_laws K fds" and own: "io_fd s h = -1 \<or> io_fd s h \<in> fds (os s)" and d: "d \<noteq> AF_UNSPEC"
    and fl: "fl AND UV_HANDLE_BOUND = 0" and ok: "io_ok s"
  shows "\<exists>r s'. maybe_new_socket K h d fl s = Some (r, s') \<and> owns fds h s s' \<and> io_ok s' \<and>
    (r = Inr () \<longrightarrow> io_fd s' h \<in> fds (os s')) \<and> connect_req s' = connect_req s \<and> delayed_error s' = delayed_error s"
proof -
  obtain r s' where r: "maybe_new_socket K h d fl s = Some (r, s')"
    "s' = s\<lparr>flags := flags s', os := os s', io_fd := io_fd s'\<rparr>"
    "if io_fd s h = -1 \<and> r = Inr ()
     then \<exists>fd. fd > 2 \<and> fd \<notin> fds (os s) \<and> fds (os s') = insert fd (fds (os s)) \<and> io_fd s' = (io_fd s)(h := fd)
     else fds (os s') = fds (os s) \<and> io_fd s' = io_fd s"
    using maybe_new_socket_result [OF L own d fl] by blast
  have f: "connect_req s' = connect_req s" "delayed_error s' = delayed_error s" by (subst r(2); simp)+
  show ?thesis
  proof (cases "io_fd s h = -1 \<and> r = Inr ()")
    case True
    then obtain fd where fd: "fd > 2" "fd \<notin> fds (os s)" "fds (os s') = insert fd (fds (os s))" "io_fd s' = (io_fd s)(h := fd)"
      using r(3) by auto
    have "-1 \<notin> fds (os s)" using tcp_lawsD(10) [OF L, of "-1" "os s"] by auto
    then have "owns fds h s s'" using fd True by (auto simp: owns_def)
    moreover have "io_ok s'" using io_ok_other_fd [OF ok, where h = h and fl = "flags s'" and w = "os s'" and fd = fd] True fd(4) by (subst r(2)) simp
    ultimately show ?thesis using r(1) fd f by auto
  next
    case False
    then have k: "fds (os s') = fds (os s)" "io_fd s' = io_fd s" using r(3) by (simp_all split: if_splits)
    have "io_ok s' = io_ok s" by (rule io_ok_cong; subst r(2)) (simp_all add: k)
    moreover have "owns fds h s s'" using k own by (auto simp: owns_def)
    ultimately show ?thesis using r(1) k f own ok False by auto
  qed
qed

text \<open>Steps that keep the table of descriptors.\<close>

lemma owns_step:
  assumes "owns fds h s s1" "fds (os s2) = fds (os s1)" "io_fd s2 h = io_fd s1 h"
  shows "owns fds h s s2"
  using assms by (simp add: owns_def)

lemma owns_sys:
  assumes "owns fds h s s1" "\<And>w. fds (snd (f w)) = fds w" "sys f s1 = (r, s2)"
  shows "owns fds h s s2" "fds (os s2) = fds (os s1)" "io_fd s2 = io_fd s1"
proof -
  obtain w where w: "f (os s1) = (r, w)" "s2 = s1\<lparr>os := w\<rparr>" using assms(3) by (auto simp: sys_def split: prod.splits)
  show f: "fds (os s2) = fds (os s1)" "io_fd s2 = io_fd s1" using w assms(2) [of "os s1"] by simp_all
  show "owns fds h s s2" using owns_step [OF assms(1)] f by simp
qed

lemma bind_owns:
  assumes L: "tcp_laws K fds" and own: "io_fd s h = -1 \<or> io_fd s h \<in> fds (os s)" and ok: "io_ok s" and d: "sa_family sa \<noteq> AF_UNSPEC"
  shows "\<exists>r s'. uv__tcp_bind K h sa fl s = Some (r, s') \<and> owns fds h s s' \<and> (r = Inr () \<longrightarrow> io_fd s' h \<in> fds (os s'))"
proof (cases "fl AND UV_TCP_IPV6ONLY \<noteq> 0 \<and> sa_family sa \<noteq> AF_INET6")
  case True
  then show ?thesis using own by (simp add: uv__tcp_bind_def owns_def)
next
  case okflags: False
  note b = uv__tcp_bind_def [of K h sa fl s, unfolded if_not_P [OF okflags]]
  obtain r1 s1 where s1: "maybe_new_socket K h (sa_family sa) 0 s = Some (r1, s1)" "owns fds h s s1"
    "r1 = Inr () \<longrightarrow> io_fd s1 h \<in> fds (os s1)"
    using maybe_new_socket_owns [OF L own d _ ok, of 0] by auto
  show ?thesis
  proof (cases r1)
    case (Inl e)
    then show ?thesis using b s1 by (intro exI [of _ "Inl e"] exI [of _ s1]) simp
  next
    case (Inr u)
    obtain r2 s2 where s2: "sys (k_setsockopt K (io_fd s1 h) (SO_REUSEADDR True)) s1 = (r2, s2)" by fastforce
    note o2 = owns_sys [OF s1(2) tcp_lawsD(5) [OF L] s2]
    show ?thesis
    proof (cases r2)
      case (Inl e)
      then show ?thesis using b s1 s2 o2 \<open>r1 = Inr u\<close> by (intro exI [of _ "Inl e"] exI [of _ s2]) simp
    next
      case (Inr u2)
      obtain r3 s3 where s3: "(if sa_family sa = AF_INET6
        then sys (k_setsockopt K (io_fd s2 h) (IPV6_V6ONLY (fl AND UV_TCP_IPV6ONLY \<noteq> 0))) s2 else (Inr (), s2)) = (r3, s3)" by fastforce
      have o3: "owns fds h s s3" "fds (os s3) = fds (os s2)" "io_fd s3 = io_fd s2"
      proof -
        have "owns fds h s s3 \<and> fds (os s3) = fds (os s2) \<and> io_fd s3 = io_fd s2"
        proof (cases "sa_family sa = AF_INET6")
          case True
          then have q: "sys (k_setsockopt K (io_fd s2 h) (IPV6_V6ONLY (fl AND UV_TCP_IPV6ONLY \<noteq> 0))) s2 = (r3, s3)" using s3 by simp
          show ?thesis using owns_sys [OF o2(1) tcp_lawsD(5) [OF L] q] by simp
        next
          case False
          then show ?thesis using s3 o2(1) by simp
        qed
        then show "owns fds h s s3" "fds (os s3) = fds (os s2)" "io_fd s3 = io_fd s2" by simp_all
      qed
      show ?thesis
      proof (cases r3)
        case (Inl e)
        then show ?thesis using b s1 s2 s3 o3 \<open>r1 = Inr u\<close> \<open>r2 = Inr u2\<close> by (intro exI [of _ "Inl e"] exI [of _ s3]) simp
      next
        case (Inr u3)
        obtain r4 s4 where s4: "sys (k_bind K (io_fd s3 h) sa) s3 = (r4, s4)" by fastforce
        note o4 = owns_sys [OF o3(1) tcp_lawsD(6) [OF L] s4]
        let ?t = "set_flag h UV_HANDLE_BOUND (s4\<lparr>delayed_error := (delayed_error s4)(h := (if r4 = Inr () then None else Some UV_EADDRINUSE))\<rparr>)"
        have eq: "uv__tcp_bind K h sa fl s =
          (if r4 \<noteq> Inr () \<and> r4 \<noteq> Inl UV_EADDRINUSE then Some (if r4 = Inl UV_EAFNOSUPPORT then Inl UV_EINVAL else r4, s4)
           else Some (Inr (), if sa_family sa = AF_INET6 then set_flag h UV_HANDLE_IPV6 ?t else ?t))"
          using b s1(1) s2 s3 s4 \<open>r1 = Inr u\<close> \<open>r2 = Inr u2\<close> Inr by (simp add: Let_def)
        have "io_fd s4 h \<in> fds (os s4)" using s1(3) \<open>r1 = Inr u\<close> o2 o3 o4 by simp
        moreover have "owns fds h s (if sa_family sa = AF_INET6 then set_flag h UV_HANDLE_IPV6 ?t else ?t)"
          using owns_step [OF o4(1)] by (simp add: set_flag_def)
        ultimately show ?thesis using o4(1) unfolding eq by (auto simp: set_flag_def)
      qed
    qed
  qed
qed


lemma io_start_owns:
  assumes L: "tcp_laws K fds" and o: "owns fds h s s1" and ok: "io_ok s1" and fd: "io_fd s1 h \<in> fds (os s1)"
    and ev: "events AND NOT POLL_ALL = 0" "events \<noteq> 0"
  shows "\<exists>s2. uv__io_start (ioK K) h events s1 = Some s2 \<and> owns fds h s s2 \<and> io_ok s2 \<and> io_touched s1 s2 \<and>
    io_fd s2 h \<in> fds (os s2)"
proof -
  have r: "0 \<le> io_fd s1 h" "io_fd s1 h < 2 ^ 31 - 3" using tcp_lawsD(10) [OF L fd] by simp_all
  obtain s2 where s2: "uv__io_start (ioK K) h events s1 = Some s2" "io_ok s2" "io_touched s1 s2"
    using io_start_total [OF ok ev r, of "ioK K"] tcp_lawsD(2) [OF L] by auto
  have f: "fds (os s2) = fds (os s1)" using io_start_sent [OF _ s2(1), of fds] tcp_lawsD(3) [OF L] by simp
  have "owns fds h s s2" by (rule owns_step [OF o f]) (simp add: touched_fields(3) [OF s2(3)])
  then show ?thesis using s2 f fd touched_fields(3) [OF s2(3)] by auto
qed

lemma retry_connect:
  assumes "tcp_laws K fds"
  shows "\<exists>r w'. retry_eintr (k_connect K fd sa) w = Some (r, w') \<and> fds w' = fds w"
  using retry_keeps [OF tcp_lawsD(9,8) [OF assms]] by blast

lemma connect_owns:
  assumes L: "tcp_laws K fds" and own: "io_fd s h = -1 \<or> io_fd s h \<in> fds (os s)" and ok: "io_ok s" and d: "sa_family sa \<noteq> AF_UNSPEC"
    and ty: "htype s h = UV_TCP" and late: "delayed_error s h \<noteq> None \<longrightarrow> io_fd s h \<noteq> -1"
  shows "\<exists>r s'. uv__tcp_connect K req h sa cb s = Some (r, s') \<and> owns fds h s s'"
proof (cases "connect_req s h = None")
  case False
  then show ?thesis using own ty by (intro exI [of _ "Inl UV_EALREADY"] exI [of _ s]) (auto simp: uv__tcp_connect_def owns_def)
next
  case free: True
  define part where "part = (if delayed_error s h \<noteq> None then Some (Inr (), s)
          else do {
            (err, s) \<leftarrow> maybe_new_socket K h (sa_family sa) (UV_HANDLE_READABLE OR UV_HANDLE_WRITABLE) s;
            (case err of
               Inl e \<Rightarrow> Some (Inl e, s)
             | Inr _ \<Rightarrow> do {
                 (r, s) \<leftarrow> sys_prog (retry_eintr (k_connect K (uv__stream_fd s h) sa)) s;
                 Some (case r of
                   Inr _ \<Rightarrow> (Inr (), s)
                 | Inl e \<Rightarrow>
                     if e = UV_EINPROGRESS then (Inr (), s)
                     else if e = UV_ECONNREFUSED then
                       (Inr (), s\<lparr>delayed_error := (delayed_error s)(h := Some UV_ECONNREFUSED)\<rparr>)
                     else (Inl e, s)) }) })"
  have "\<exists>r s'. part = Some (r, s') \<and> owns fds h s s' \<and> io_ok s' \<and> (r = Inr () \<longrightarrow> io_fd s' h \<in> fds (os s'))"
  proof (cases "delayed_error s h = None")
    case False
    then show ?thesis using own ok late by (auto simp: part_def owns_def)
  next
    case True
    obtain r1 s1 where s1: "maybe_new_socket K h (sa_family sa) (UV_HANDLE_READABLE OR UV_HANDLE_WRITABLE) s = Some (r1, s1)"
      "owns fds h s s1" "io_ok s1" "r1 = Inr () \<longrightarrow> io_fd s1 h \<in> fds (os s1)"
      using maybe_new_socket_owns [OF L own d _ ok, of "UV_HANDLE_READABLE OR UV_HANDLE_WRITABLE"] by auto
    show ?thesis
    proof (cases r1)
      case (Inl e)
      then show ?thesis using True s1 by (simp add: part_def)
    next
      case (Inr u)
      obtain r2 w where w: "retry_eintr (k_connect K (io_fd s1 h) sa) (os s1) = Some (r2, w)" "fds w = fds (os s1)"
        using retry_connect [OF L] by blast
      have ok1: "io_ok (s1\<lparr>os := w\<rparr>)" using s1(3) io_ok_cong [of "s1\<lparr>os := w\<rparr>" s1] by simp
      have ok2: "io_ok (s1\<lparr>os := w, delayed_error := f\<rparr>)" for f
        using s1(3) io_ok_cong [of "s1\<lparr>os := w, delayed_error := f\<rparr>" s1] by simp
      have "part = Some (case r2 of Inr _ \<Rightarrow> (Inr (), s1\<lparr>os := w\<rparr>)
          | Inl e \<Rightarrow> if e = UV_EINPROGRESS then (Inr (), s1\<lparr>os := w\<rparr>)
              else if e = UV_ECONNREFUSED then (Inr (), s1\<lparr>os := w, delayed_error := (delayed_error s1)(h := Some UV_ECONNREFUSED)\<rparr>)
              else (Inl e, s1\<lparr>os := w\<rparr>))"
        using True s1(1) Inr w(1) by (simp add: part_def sys_prog_def uv__stream_fd_def split: sum.split)
      then show ?thesis using s1(4) Inr w(2) owns_step [OF s1(2)] ok1 ok2 by (auto split: sum.splits)
    qed
  qed
  then obtain r1 s1 where s1: "part = Some (r1, s1)" "owns fds h s s1" "io_ok s1" "r1 = Inr () \<longrightarrow> io_fd s1 h \<in> fds (os s1)"
    by blast
  have eq: "uv__tcp_connect K req h sa cb s = (case r1 of Inl e \<Rightarrow> Some (Inl e, s1)
        | Inr _ \<Rightarrow> do {
            let s = uv__req_register s1;
            let s = s\<lparr>req_cb := (req_cb s)(req := cb), req_handle := (req_handle s)(req := h),
                      connect_req := (connect_req s)(h := Some req)\<rparr>;
            s \<leftarrow> uv__io_start (ioK K) h POLLOUT s;
            Some (Inr (), if delayed_error s h \<noteq> None then uv__io_feed h s else s) })"
    using free ty s1(1) unfolding uv__tcp_connect_def part_def [symmetric] by simp
  show ?thesis
  proof (cases r1)
    case (Inl e)
    then show ?thesis using eq s1 by simp
  next
    case (Inr u)
    let ?s = "(uv__req_register s1)\<lparr>req_cb := (req_cb s1)(req := cb), req_handle := (req_handle s1)(req := h),
      connect_req := (connect_req s1)(h := Some req)\<rparr>"
    have f: "os ?s = os s1" "io_fd ?s = io_fd s1" by (simp_all add: uv__req_register_def)
    have ok: "io_ok ?s" using s1(3) io_ok_cong [of ?s s1] by (simp add: uv__req_register_def)
    have o: "owns fds h s ?s" by (rule owns_step [OF s1(2)]) (simp_all add: f)
    obtain s2 where s2: "uv__io_start (ioK K) h POLLOUT ?s = Some s2" "owns fds h s s2"
      using io_start_owns [OF L o ok, of POLLOUT] s1(4) Inr f by auto
    have "owns fds h s (if delayed_error s2 h \<noteq> None then uv__io_feed h s2 else s2)"
      using s2(2) owns_step [OF s2(2)] by (simp add: uv__io_feed_def)
    moreover have "uv__tcp_connect K req h sa cb s = Some (Inr (), if delayed_error s2 h \<noteq> None then uv__io_feed h s2 else s2)"
      using eq Inr s2(1) by (simp add: uv__req_register_def)
    ultimately show ?thesis by blast
  qed
qed


lemma listen_owns:
  assumes L: "tcp_laws (stK K) fds" and own: "io_fd s h = -1 \<or> io_fd s h \<in> fds (os s)" and ok: "io_ok s"
  shows "\<exists>r s'. uv__tcp_listen K h backlog cb s = Some (r, s') \<and> owns fds h s s' \<and>
    (r = Inr () \<longrightarrow> io_fd s' h \<in> fds (os s') \<and> io_cb s' h = UV__SERVER_IO)"
proof (cases "delayed_error s h")
  case (Some e)
  then show ?thesis using own by (simp add: uv__tcp_listen_def owns_def)
next
  case None
  define s0 where "s0 = (if single_accept_cached s = -1 then
      s\<lparr>single_accept_cached := (case k_env K ''UV_TCP_SINGLE_ACCEPT'' (os s) of
          None \<Rightarrow> 0 | Some val \<Rightarrow> if atoi val \<noteq> 0 then 1 else 0)\<rparr> else s)"
  define t where "t = (if single_accept_cached s0 \<noteq> 0 then set_flag h UV_HANDLE_TCP_SINGLE_ACCEPT s0 else s0)"
  have t: "os t = os s" "io_fd t = io_fd s" by (simp_all add: t_def s0_def set_flag_def)
  have okt: "io_ok t = io_ok s" by (rule io_ok_cong) (simp_all add: t_def s0_def set_flag_def)
  have own_t: "io_fd t h = -1 \<or> io_fd t h \<in> fds (os t)" using own t by simp
  have ok1: "io_ok t" using okt ok by simp
  obtain r1 s1 where s1: "maybe_new_socket (stK K) h AF_INET 0 t = Some (r1, s1)" "owns fds h t s1" "io_ok s1"
    "r1 = Inr () \<longrightarrow> io_fd s1 h \<in> fds (os s1)"
    using maybe_new_socket_owns [OF L own_t _ _ ok1, of AF_INET 0] by auto
  have o1: "owns fds h s s1" using s1(2) t by (simp add: owns_def)
  have eq: "uv__tcp_listen K h backlog cb s = (case r1 of Inl e \<Rightarrow> Some (Inl e, s1)
      | Inr _ \<Rightarrow> (case sys (k_listen K (io_fd s1 h) backlog) s1 of
                  (Inl e, s) \<Rightarrow> Some (Inl e, s)
                | (Inr _, s) \<Rightarrow> do {
                    let s = s\<lparr>connection_cb := (connection_cb s)(h := cb)\<rparr>;
                    let s = set_flag h UV_HANDLE_BOUND s;
                    let s = s\<lparr>io_cb := (io_cb s)(h := UV__SERVER_IO)\<rparr>;
                    s \<leftarrow> uv__io_start (ioK (stK K)) h POLLIN s;
                    Some (Inr (), s) }))"
    using None s1(1) unfolding uv__tcp_listen_def Let_def s0_def [symmetric] t_def [symmetric] by simp
  show ?thesis
  proof (cases r1)
    case (Inl e)
    then show ?thesis using eq o1 by simp
  next
    case (Inr u)
    obtain r2 s2 where s2: "sys (k_listen K (io_fd s1 h) backlog) s1 = (r2, s2)" by fastforce
    have kl: "fds (snd (k_listen K fd n w)) = fds w" for fd n w
      using tcp_lawsD(7) [OF L, of fd n w] by (simp add: stream_kernel.truncate_def)
    note o2 = owns_sys [OF o1 kl s2]
    have ok2: "io_ok s2 = io_ok s1" by (rule io_ok_cong; use s2 in \<open>auto simp: sys_def split: prod.splits\<close>)
    show ?thesis
    proof (cases r2)
      case (Inl e)
      then show ?thesis using eq \<open>r1 = Inr u\<close> s2 o2 by simp
    next
      case (Inr u2)
      let ?s = "set_flag h UV_HANDLE_BOUND (s2\<lparr>connection_cb := (connection_cb s2)(h := cb)\<rparr>)\<lparr>io_cb := (io_cb s2)(h := UV__SERVER_IO)\<rparr>"
      have f: "os ?s = os s2" "io_fd ?s = io_fd s2" by (simp_all add: set_flag_def)
      have ok3: "io_ok ?s" using ok2 s1(3) io_ok_cong [of ?s s2] by (simp add: set_flag_def)
      have o3: "owns fds h s ?s" by (rule owns_step [OF o2(1)]) (simp_all add: f)
      obtain s3 where s3: "uv__io_start (ioK (stK K)) h POLLIN ?s = Some s3" "owns fds h s s3" "io_touched ?s s3"
        "io_fd s3 h \<in> fds (os s3)"
        using io_start_owns [OF L o3 ok3, of POLLIN] s1(4) \<open>r1 = Inr u\<close> o2 f by auto
      have "io_cb s3 = io_cb ?s" by (subst s3(3) [unfolded io_touched_def]) simp
      moreover have "uv__tcp_listen K h backlog cb s = Some (Inr (), s3)"
        using eq \<open>r1 = Inr u\<close> s2 Inr s3(1) by (simp add: Let_def set_flag_def)
      ultimately show ?thesis using s3 by (intro exI [of _ "Inr ()"] exI [of _ s3]) simp
    qed
  qed
qed

section \<open>Properties\<close>

text \<open>A system with room for one descriptor, whose addresses are all in use.\<close>

definition one_fd :: "(bool, int) sys" where
  "one_fd w = (if w then (Inl UV_EMFILE, w) else (Inr 5, True))"

definition one_fd_kernel :: "bool tcp_kernel" where
  "one_fd_kernel = stream_kernel.extend (io_kernel.extend (fd_kernel.extend
     \<lparr>k_open = (\<lambda>_ _. one_fd), k_close = (\<lambda>fd w. (Inr (), w \<and> fd \<noteq> 5)), k_read = (\<lambda>_ _ w. (Inr [], w)),
       k_socket = (\<lambda>_ _ _. one_fd), k_accept4 = (\<lambda>_ _. one_fd),
       k_fionbio = (\<lambda>_ _ w. (Inr (), w)), k_getfl = (\<lambda>_ w. (Inr 0, w)), k_setfl = (\<lambda>_ _ w. (Inr (), w)),
       k_setfd = (\<lambda>_ _ w. (Inr (), w)), k_recvmsg = (\<lambda>_ _ _ w. (Inl UV_EAGAIN, w)),
       k_dup3 = (\<lambda>_ _ _ w. (Inl UV_EMFILE, w)), k_fstat_is_chr = (\<lambda>_ w. (Inr False, w))\<rparr>
     (io_kernel.fields (\<lambda>_ w. (True, w)) (\<lambda>w. (0, w)) (\<lambda>w. (Inl UV_EMFILE, w)) (\<lambda>w. (Inl UV_EMFILE, w))
        (\<lambda>_ _ _ _ _ w. (Inr (), w)) (\<lambda>_ _ _ w. (Inr [], w)) (\<lambda>_ _ _ w. (Inr [], w)) (\<lambda>_ w. (Inr (), w))
        (\<lambda>w. (Inl UV_EMFILE, w)) (\<lambda>_ b w. (Inr (length b), w))))
     (stream_kernel.fields (\<lambda>_ v w. (Inr (length (concat v)), w)) (\<lambda>_ v _ w. (Inr (length (concat v)), w)) (\<lambda>_ w. (Inr (), w))
        (\<lambda>_ w. (None, w)) (\<lambda>_ _ w. (Inr (), w)) (\<lambda>_ w. (True, w)) id (\<lambda>_ w. (Inl UV_EINVAL, w))
        (\<lambda>_ _ w. (Inl UV_EADDRINUSE, w)) (\<lambda>_ _ w. (Inl UV_EINPROGRESS, w)) (\<lambda>_ _ w. (Inr (), w))))
     (tcp_kernel.fields (\<lambda>_ w. (Inl UV_ENOTCONN, w)) (\<lambda>_ _ w. (Inl UV_EMFILE, w)) (\<lambda>_ _ w. (Inr 0, w)) (\<lambda>_ _ _ w. (Inr (), w))
        (\<lambda>_ _. None))"

lemmas one_fd_defs = one_fd_kernel_def fd_kernel.defs io_kernel.defs stream_kernel.defs tcp_kernel.defs

lemma one_fd_laws: "tcp_laws (stK one_fd_kernel) (\<lambda>w. if w then {5} else {})"
  by (simp add: tcp_laws_def fd_laws_def one_fd_defs keeps_def opens_def opened_def one_fd_def ends_no_intr)

text \<open>A loop around the state of a system, in which every stream has the descriptor \<open>fd\<close>.\<close>

definition bare_loop :: "'w \<Rightarrow> int \<Rightarrow> 'a \<Rightarrow> ('w, 'a) stream_loop_scheme" where
  "bare_loop w fd a = stream_loop.extend (bare_core w fd
     (stream_loop.fields (-1) False (\<lambda>_. None) (\<lambda>_. None) (\<lambda>_. None) (\<lambda>_. None) (\<lambda>_. None) (\<lambda>_. -1) (\<lambda>_. None)
        (\<lambda>_. None) (\<lambda>_. []) (\<lambda>_. []) (\<lambda>_. 0) (\<lambda>_. False) (\<lambda>_. 0) (\<lambda>_. None) (\<lambda>_. None) (\<lambda>_. 0) (\<lambda>_. None) (\<lambda>_. None)))
     a\<lparr>htype := \<lambda>_. UV_TCP\<rparr>"

lemma bare_loop_fields:
  "io_fd (bare_loop w fd a) = (\<lambda>_. fd)" "os (bare_loop w fd a) = w" "delayed_error (bare_loop w fd a) = (\<lambda>_. None)"
  "watchers (bare_loop w fd a) = None" "nwatchers (bare_loop w fd a) = 0" "nfds (bare_loop w fd a) = 0"
  "htype (bare_loop w fd a) = (\<lambda>_. UV_TCP)" "flags (bare_loop w fd a) = (\<lambda>_. 0)" "active_reqs (bare_loop w fd a) = 0"
  "connect_req (bare_loop w fd a) = (\<lambda>_. None)" "write_queue (bare_loop w fd a) = (\<lambda>_. [])"
  "write_completed_queue (bare_loop w fd a) = (\<lambda>_. [])" "stream_loop.more (bare_loop w fd a) = a"
  by (simp_all add: bare_loop_def bare_core_def empty_watcher_loop_def watcher_loop.defs io_loop.defs poll_loop.defs
      async_loop.defs core_loop.defs stream_loop.defs)

lemma bare_loop_ok: "io_ok (bare_loop w fd a)"
  by (simp add: io_ok_def bare_loop_fields)

definition some_address :: sockaddr where
  "some_address = \<lparr>sa_family = AF_INET, sin_port = 80, sa_data = []\<rparr>"

text \<open>
  C19: \<open>uv_tcp_bind\<close>, \<open>uv_tcp_connect\<close> and \<open>uv__tcp_listen\<close> return, for every outcome of the system calls,
  and no descriptor leaks: the table of descriptors changes by at most the one the handle holds
  afterwards, which is open; a descriptor the handle had is kept; after a success of \<open>bind\<close> or \<open>listen\<close>
  it has one, and a handle that listens is served by \<open>uv__server_io\<close>.
\<close>

theorem tcp_setup_owns_descriptor:
  assumes "tcp_laws (stK K) fds" and "io_fd s h = -1 \<or> io_fd s h \<in> fds (os s)" and "io_ok s"
    and "delayed_error s h \<noteq> None \<longrightarrow> io_fd s h \<noteq> -1"
  shows "(\<exists>r s'. uv_tcp_bind (stK K) h sa fl s = Some (r, s') \<and> owns fds h s s' \<and> (r = Inr () \<longrightarrow> io_fd s' h \<in> fds (os s'))) \<and>
    (\<exists>r s'. uv_tcp_connect (stK K) req h sa cb s = Some (r, s') \<and> owns fds h s s') \<and>
    (\<exists>r s'. uv__tcp_listen K h backlog cb s = Some (r, s') \<and> owns fds h s s' \<and>
      (r = Inr () \<longrightarrow> io_fd s' h \<in> fds (os s') \<and> io_cb s' h = UV__SERVER_IO))"
proof (intro conjI)
  have self: "owns fds h s s" using assms(2) by (simp add: owns_def)
  show "\<exists>r s'. uv_tcp_bind (stK K) h sa fl s = Some (r, s') \<and> owns fds h s s' \<and> (r = Inr () \<longrightarrow> io_fd s' h \<in> fds (os s'))"
    using bind_owns [OF assms(1-3), of sa fl] self by (auto simp: uv_tcp_bind_def)
  show "\<exists>r s'. uv_tcp_connect (stK K) req h sa cb s = Some (r, s') \<and> owns fds h s s'"
    using connect_owns [OF assms(1-3) _ _ assms(4), of sa req cb] self by (auto simp: uv_tcp_connect_def)
  show "\<exists>r s'. uv__tcp_listen K h backlog cb s = Some (r, s') \<and> owns fds h s s' \<and>
      (r = Inr () \<longrightarrow> io_fd s' h \<in> fds (os s') \<and> io_cb s' h = UV__SERVER_IO)"
    by (rule listen_owns [OF assms(1-3)])
qed


theorem tcp_setup_owns_descriptor_witness:
  "\<exists>r s'. uv_tcp_bind (stK one_fd_kernel) 7 some_address 0 (bare_loop False (-1) (tcp_loop.fields (-1))) = Some (r, s') \<and>
    (io_fd s' 7 = -1 \<or> io_fd s' 7 = 5 \<and> os s')"
proof -
  let ?s = "bare_loop False (-1) (tcp_loop.fields (-1))"
  have own: "io_fd ?s 7 = -1 \<or> io_fd ?s 7 \<in> (if os ?s then {5} else {})" and late: "delayed_error ?s 7 \<noteq> None \<longrightarrow> io_fd ?s 7 \<noteq> -1"
    by (simp_all add: bare_loop_fields)
  obtain r s' where r: "uv_tcp_bind (stK one_fd_kernel) 7 some_address 0 ?s = Some (r, s')"
    "owns (\<lambda>w. if w then {5} else {}) 7 ?s s'"
    using conjunct1 [OF tcp_setup_owns_descriptor [OF one_fd_laws own bare_loop_ok late]] by blast
  then show ?thesis by (intro exI [of _ r] exI [of _ s']) (auto simp: owns_def bare_loop_fields split: if_splits)
qed

lemma bind_delays_conflict:
  assumes "0 \<le> io_fd s h" and "sa_family sa = AF_INET"
    and "\<And>opt w. fst (k_setsockopt K (io_fd s h) opt w) = Inr ()" and "\<And>w. fst (k_bind K (io_fd s h) sa w) = Inl UV_EADDRINUSE"
  shows "\<exists>w. uv__tcp_bind K h sa 0 s = Some (Inr (), set_flag h UV_HANDLE_BOUND
    (s\<lparr>os := w, delayed_error := (delayed_error s)(h := Some UV_EADDRINUSE)\<rparr>))"
proof -
  obtain w1 where w1: "k_setsockopt K (io_fd s h) (SO_REUSEADDR True) (os s) = (Inr (), w1)"
    using assms(3) [of "SO_REUSEADDR True" "os s"] by (cases "k_setsockopt K (io_fd s h) (SO_REUSEADDR True) (os s)") auto
  obtain w2 where w2: "k_bind K (io_fd s h) sa w1 = (Inl UV_EADDRINUSE, w2)"
    using assms(4) [of w1] by (cases "k_bind K (io_fd s h) sa w1") auto
  have m: "maybe_new_socket K h AF_INET 0 s = Some (Inr (), s)"
    using assms(1) by (simp add: maybe_new_socket_def uv__stream_fd_def set_flag_def)
  show ?thesis
    using assms(2) m w1 w2 by (intro exI [of _ w2]) (simp add: uv__tcp_bind_def sys_def Let_def set_flag_def)
qed

text \<open>A callback that changes nothing of the loop but what the user has of his own.\<close>

definition private_callback ::
  "('w, 'a) stream_loop_scheme stream_calls \<Rightarrow> (addr \<Rightarrow> status \<Rightarrow> 'a \<Rightarrow> 'a) \<Rightarrow> bool" where
  "private_callback U g \<longleftrightarrow> (\<forall>c req st t. call_req U c req st t = Some (stream_loop.more_update (g req st) t))"

text \<open>The error that a handle keeps reaches the callback of its connect request, once.\<close>

lemma delayed_error_is_called:
  assumes "connect_req s h = Some req" "delayed_error s h = Some e" "e \<noteq> UV_EINPROGRESS" "htype s h \<in> {UV_TCP, UV_NAMED_PIPE}"
    and "io_ok s" "-1 \<le> io_fd s h" "req_cb s req = Some c" "active_reqs s \<noteq> 0" "\<not> has_flag s h UV_HANDLE_CLOSING"
    and "write_queue s h = []" "write_completed_queue s h = []" "private_callback U g"
  shows "\<exists>s'. uv__stream_io K U h events s = Some s' \<and> stream_loop.more s' = g req (Some e) (stream_loop.more s) \<and>
    connect_req s' h = None \<and> delayed_error s' h = None \<and> active_reqs s' = active_reqs s - 1"
proof -
  define t where "t = s\<lparr>delayed_error := (delayed_error s)(h := None), connect_req := (connect_req s)(h := None),
    active_reqs := active_reqs s - 1\<rparr>"
  have okt: "io_ok t = io_ok s" by (rule io_ok_cong) (simp_all add: t_def)
  obtain s4 where s4: "uv__io_stop h POLLOUT t = Some s4" "io_touched t s4"
    using io_stop_total [of t POLLOUT h] okt assms(5,6) by (auto simp: t_def)
  have f4: "req_cb s4 req = Some c" "io_fd s4 = io_fd s" "active_reqs s4 = active_reqs s - 1" "connect_req s4 h = None"
    "stream_loop.more s4 = stream_loop.more s"
    using touched_fields [OF s4(2)] assms(7) by (simp_all add: t_def)
  have g4: "delayed_error s4 h = None" "write_queue s4 h = []" "write_completed_queue s4 h = []"
    using assms(10,11) by (subst s4(2) [unfolded io_touched_def]; simp add: t_def)+
  let ?s3 = "stream_loop.more_update (g req (Some e)) s4"
  have unreg: "uv__req_unregister (s\<lparr>delayed_error := (delayed_error s)(h := None), connect_req := (connect_req s)(h := None)\<rparr>) = Some t"
    using assms(8) by (simp add: uv__req_unregister_def uv__has_active_reqs_def t_def word_gt_0)
  have cb: "call_req U c req (Some e) s4 = Some ?s3" using assms(12) by (simp add: private_callback_def)
  have fl: "uv__stream_flush_write_queue h (Some UV_ECANCELED) ?s3 = ?s3"
    using g4(2) by (simp add: uv__stream_flush_write_queue_def)
  have wc: "uv__write_callbacks U h ?s3 = Some ?s3" using g4(3) by (simp add: uv__write_callbacks_def)
  have "uv__stream_connect K U h s = Some ?s3"
    using assms(1-4) unreg s4(1) cb fl wc f4 by (simp add: uv__stream_connect_def uv__stream_fd_def)
  then have "uv__stream_io K U h events s = Some ?s3" using assms(1,4,9) by (auto simp: uv__stream_io_def)
  then show ?thesis using f4 g4 by (intro exI [of _ ?s3]) simp
qed

lemma connect_reports_delayed:
  assumes "delayed_error s h = Some e" "e \<noteq> UV_EINPROGRESS" "htype s h = UV_TCP" "connect_req s h = None" "io_ok s"
    and "0 \<le> io_fd s h" "io_fd s h < 2 ^ 31 - 3" "\<And>n w. fst (k_realloc K n w)" "active_reqs s + 1 \<noteq> 0"
    and "\<not> has_flag s h UV_HANDLE_CLOSING" "write_queue s h = []" "write_completed_queue s h = []" "private_callback U g"
  shows "\<exists>s2 s3. uv__tcp_connect K req h sa (Some c) s = Some (Inr (), s2) \<and>
    uv__stream_io K U h events s2 = Some s3 \<and> stream_loop.more s3 = g req (Some e) (stream_loop.more s) \<and>
    connect_req s3 h = None \<and> delayed_error s3 h = None \<and> active_reqs s3 = active_reqs s"
proof -
  let ?s = "(uv__req_register s)\<lparr>req_cb := (req_cb s)(req := Some c), req_handle := (req_handle s)(req := h),
      connect_req := (connect_req s)(h := Some req)\<rparr>"
  have f: "io_fd ?s = io_fd s" "delayed_error ?s = delayed_error s" by (simp_all add: uv__req_register_def)
  have ok: "io_ok ?s" using assms(5) io_ok_cong [of ?s s] by (simp add: uv__req_register_def)
  obtain s1 where s1: "uv__io_start (ioK K) h POLLOUT ?s = Some s1" "io_ok s1" "io_touched ?s s1"
    using io_start_total [OF ok, of POLLOUT h "ioK K"] assms(6-8) f by auto
  note t1 = touched_fields [OF s1(3)]
  have d1: "delayed_error s1 = delayed_error s" "write_queue s1 = write_queue s" "write_completed_queue s1 = write_completed_queue s"
    by (subst s1(3) [unfolded io_touched_def]; simp add: uv__req_register_def)+
  let ?s2 = "uv__io_feed h s1"
  have conn: "uv__tcp_connect K req h sa (Some c) s = Some (Inr (), ?s2)"
    using assms(1,3,4) s1(1) d1(1) by (simp add: uv__tcp_connect_def uv__req_register_def)
  have f2: "connect_req ?s2 h = Some req" "delayed_error ?s2 h = Some e" "active_reqs ?s2 = active_reqs s + 1"
    "req_cb ?s2 req = Some c" "io_fd ?s2 = io_fd s" "htype ?s2 h = UV_TCP" "\<not> has_flag ?s2 h UV_HANDLE_CLOSING"
    "write_queue ?s2 h = []" "write_completed_queue ?s2 h = []" "stream_loop.more ?s2 = stream_loop.more s"
    using t1 d1 assms(1,3,10-12) by (simp_all add: uv__io_feed_def uv__req_register_def has_flag_def)
  have ok2: "io_ok ?s2" using s1(2) io_ok_cong [of ?s2 s1] by (simp add: uv__io_feed_def)
  have "\<exists>s'. uv__stream_io K U h events ?s2 = Some s' \<and> stream_loop.more s' = g req (Some e) (stream_loop.more ?s2) \<and>
    connect_req s' h = None \<and> delayed_error s' h = None \<and> active_reqs s' = active_reqs ?s2 - 1"
    by (rule delayed_error_is_called [OF f2(1,2) assms(2) _ ok2 _ f2(4) _ f2(7-9) assms(13)]) (use f2 assms(6,9) in auto)
  then show ?thesis using conn f2 by auto
qed

text \<open>
  C30: When the address is in use, \<open>uv__tcp_bind\<close> on a handle with a socket still returns 0 and keeps the error:
  \<open>uv__tcp_listen\<close> then fails with it and changes nothing, \<open>uv_tcp_getsockname\<close> reports it, and
  \<open>uv__tcp_connect\<close>, whatever the kernel would answer to \<open>connect\<close>, returns 0 and leaves it to
  \<open>uv__stream_io\<close> to call the callback of the request with it, once: the request is then no longer
  pending or counted and the handle holds no error any more.
\<close>

theorem bind_conflict_is_reported_later:
  assumes "0 \<le> io_fd s h" and "io_fd s h < 2 ^ 31 - 3" and "io_ok s" and "htype s h = UV_TCP" and "connect_req s h = None"
    and "\<not> has_flag s h UV_HANDLE_CLOSING" and "write_queue s h = []" and "write_completed_queue s h = []"
    and "active_reqs s + 1 \<noteq> 0" and "sa_family sa = AF_INET" and "private_callback U g"
    and "\<And>n w. fst (k_realloc K n w)" and "\<And>opt w. fst (k_setsockopt K (io_fd s h) opt w) = Inr ()"
    and "\<And>w. fst (k_bind K (io_fd s h) sa w) = Inl UV_EADDRINUSE"
  shows "\<exists>s1 s2 s3. uv__tcp_bind (stK K) h sa 0 s = Some (Inr (), s1) \<and>
    uv__tcp_listen K h backlog cb s1 = Some (Inl UV_EADDRINUSE, s1) \<and>
    uv_tcp_getsockname K h s1 = (Inl UV_EADDRINUSE, s1) \<and>
    uv__tcp_connect (stK K) req h peer (Some c) s1 = Some (Inr (), s2) \<and>
    uv__stream_io (stK K) U h events s2 = Some s3 \<and>
    stream_loop.more s3 = g req (Some UV_EADDRINUSE) (stream_loop.more s) \<and>
    connect_req s3 h = None \<and> delayed_error s3 h = None \<and> active_reqs s3 = active_reqs s"
proof -
  have k: "k_setsockopt (stK K) = k_setsockopt K" "k_bind (stK K) = k_bind K" "k_realloc (stK K) = k_realloc K"
    by (simp_all add: stream_kernel.truncate_def)
  obtain w where b: "uv__tcp_bind (stK K) h sa 0 s = Some (Inr (), set_flag h UV_HANDLE_BOUND
    (s\<lparr>os := w, delayed_error := (delayed_error s)(h := Some UV_EADDRINUSE)\<rparr>))"
    using bind_delays_conflict [OF assms(1,10), of "stK K"] assms(13,14) k by auto
  let ?s = "set_flag h UV_HANDLE_BOUND (s\<lparr>os := w, delayed_error := (delayed_error s)(h := Some UV_EADDRINUSE)\<rparr>)"
  have d: "delayed_error ?s h = Some UV_EADDRINUSE" by (simp add: set_flag_def)
  have ok: "io_ok ?s = io_ok s" by (rule io_ok_cong) (simp_all add: set_flag_def)
  have fl: "\<not> has_flag ?s h UV_HANDLE_CLOSING" using assms(6) by (simp add: has_flag_def set_flag_def flag_or)
  obtain s2 s3 where "uv__tcp_connect (stK K) req h peer (Some c) ?s = Some (Inr (), s2)"
    "uv__stream_io (stK K) U h events s2 = Some s3" "stream_loop.more s3 = g req (Some UV_EADDRINUSE) (stream_loop.more ?s)"
    "connect_req s3 h = None" "delayed_error s3 h = None" "active_reqs s3 = active_reqs ?s"
    using connect_reports_delayed [OF d _ _ _ _ _ _ _ _ fl _ _ assms(11), of "stK K" req peer c events]
      assms(1-5,7-9,12) ok k by (auto simp: set_flag_def)
  then show ?thesis
    using b d by (intro exI [of _ ?s] exI [of _ s2] exI [of _ s3]) (simp add: uv__tcp_listen_def uv_tcp_getsockname_def, simp add: set_flag_def)
qed


text \<open>The witness: the callback leaves the number of its request behind.\<close>

definition marking_calls :: "(bool tcp_loop) stream_calls" where
  "marking_calls = \<lparr>call_alloc = \<lambda>_ _ s. Some (None, s), call_read = \<lambda>_ _ _ s. Some s, call_connection = \<lambda>_ _ _ s. Some s,
     call_req = \<lambda>_ req _ s. Some (stream_loop.more_update (\<lambda>_. tcp_loop.fields (int req)) s),
     udp_open = \<lambda>_ _ s. Some (Inl UV_EINVAL, s)\<rparr>"

theorem bind_conflict_is_reported_later_witness:
  "\<exists>s1 s2 s3. uv__tcp_bind (stK one_fd_kernel) 7 some_address 0 (bare_loop True 5 (tcp_loop.fields 0)) = Some (Inr (), s1) \<and>
    uv__tcp_connect (stK one_fd_kernel) 9 7 some_address (Some 1) s1 = Some (Inr (), s2) \<and>
    uv__stream_io (stK one_fd_kernel) marking_calls 7 POLLOUT s2 = Some s3 \<and> stream_loop.more s3 = tcp_loop.fields 9"
proof -
  have p: "private_callback marking_calls (\<lambda>req _ _. tcp_loop.fields (int req))"
    by (simp add: private_callback_def marking_calls_def)
  have a: "fst (k_realloc one_fd_kernel n w)" "fst (k_setsockopt one_fd_kernel fd opt w) = Inr ()"
    "fst (k_bind one_fd_kernel fd sa w) = Inl UV_EADDRINUSE" for n w fd opt sa
    by (simp_all add: one_fd_defs)
  show ?thesis
    using bind_conflict_is_reported_later [OF _ _ bare_loop_ok [of True 5 "tcp_loop.fields 0"] _ _ _ _ _ _ _ p a,
        where h = 7 and sa = some_address and req = 9 and peer = some_address and c = 1 and events = POLLOUT and backlog = 0 and cb = None]
    by (simp add: bare_loop_fields some_address_def has_flag_def) blast
qed

end
