(* ===== verification/Udp.thy ===== *)
theory Udp
  imports Tcp Inet
begin

text \<open>
  src/unix/udp.c in the Linux build (\<open>HAVE_MMSG\<close>), with the UDP functions and the address functions of
  src/uv-common.c.  The two queues of requests are lists, as for streams; a datagram that is
  received is handed over as its bytes.  \<open>status\<close> of a send request is the result of the system call.
\<close>

section \<open>State\<close>

record sockaddr6 = sockaddr +
  sin6_scope_id :: u32

datatype udp_opt = IP_RECVERR | IPV6_RECVERR
  | IP_MEMBERSHIP bool string string | IPV6_MEMBERSHIP bool string u32
  | IP_SOURCE_MEMBERSHIP bool string string string | MCAST_SOURCE_GROUP bool u32 sockaddr6 sockaddr6
  | SO_BROADCAST int | IP_TTL int | IPV6_UNICAST_HOPS int
  | IP_MULTICAST_TTL int | IPV6_MULTICAST_HOPS int | IP_MULTICAST_LOOP int | IPV6_MULTICAST_LOOP int
  | IP_MULTICAST_IF string | IPV6_MULTICAST_IF u32

text \<open>
  A message to send is its buffers and its address, if it has one; one that was received is its
  bytes, its sender and \<open>MSG_TRUNC\<close>.
\<close>

type_synonym out_msg = "string list \<times> sockaddr option"
type_synonym in_msg = "string \<times> sockaddr \<times> bool"

record 'w udp_kernel = "'w tcp_kernel" +
  k_sendmsg_to :: "int \<Rightarrow> out_msg \<Rightarrow> ('w, nat) sys"
  k_sendmmsg :: "int \<Rightarrow> out_msg list \<Rightarrow> ('w, nat) sys"
  k_recvmsg_from :: "int \<Rightarrow> nat \<Rightarrow> ('w, in_msg) sys"
  k_recvmmsg :: "int \<Rightarrow> nat \<Rightarrow> ('w, in_msg list) sys"
  k_udp_sockopt :: "int \<Rightarrow> udp_opt \<Rightarrow> ('w, unit) sys"
  k_if_nametoindex :: "string \<Rightarrow> 'w \<Rightarrow> u32 \<times> 'w"

record 'w udp_loop = "'w stream_loop" +
  recv_cb :: "addr \<Rightarrow> nat option"
  send_queue_size :: "addr \<Rightarrow> u64"
  send_queue_count :: "addr \<Rightarrow> u64"
  send_addr :: "addr \<Rightarrow> sockaddr"
  send_status :: "addr \<Rightarrow> uv_errno + nat"
  mmsg_once :: bool
  sendmmsg_avail :: bool
  recvmmsg_avail :: bool

record 's udp_calls =
  udp_alloc :: "nat \<Rightarrow> addr \<Rightarrow> 's \<Rightarrow> (nat option \<times> 's) option"
  udp_recv :: "nat \<Rightarrow> addr \<Rightarrow> uv_errno + string \<Rightarrow> sockaddr option \<Rightarrow> u32 \<Rightarrow> 's \<Rightarrow> 's option"
  udp_sent :: "nat \<Rightarrow> addr \<Rightarrow> status \<Rightarrow> 's \<Rightarrow> 's option"

abbreviation ufdK :: "'w udp_kernel \<Rightarrow> 'w fd_kernel" where "ufdK K \<equiv> fd_kernel.truncate K"
abbreviation uioK :: "'w udp_kernel \<Rightarrow> 'w io_kernel" where "uioK K \<equiv> io_kernel.truncate K"
abbreviation SOCK_DGRAM :: u32 where "SOCK_DGRAM \<equiv> 2"
abbreviation UV__UDP_DGRAM_MAXSIZE :: nat where "UV__UDP_DGRAM_MAXSIZE \<equiv> 65536"
abbreviation UV__MMSG_MAXWIDTH :: nat where "UV__MMSG_MAXWIDTH \<equiv> 20"
abbreviation UV_UDP_IPV6ONLY :: u32 where "UV_UDP_IPV6ONLY \<equiv> 1"
abbreviation UV_UDP_PARTIAL :: u32 where "UV_UDP_PARTIAL \<equiv> 2"
abbreviation UV_UDP_REUSEADDR :: u32 where "UV_UDP_REUSEADDR \<equiv> 4"
abbreviation UV_UDP_MMSG_CHUNK :: u32 where "UV_UDP_MMSG_CHUNK \<equiv> 8"
abbreviation UV_UDP_MMSG_FREE :: u32 where "UV_UDP_MMSG_FREE \<equiv> 16"
abbreviation UV_UDP_LINUX_RECVERR :: u32 where "UV_UDP_LINUX_RECVERR \<equiv> 32"
abbreviation UV_UDP_RECVMMSG :: u32 where "UV_UDP_RECVMMSG \<equiv> 256"

section \<open>Addresses\<close>

definition bytes_string :: "u8 list \<Rightarrow> string" where
  "bytes_string bs = map (\<lambda>b. char_of (unat b)) bs"

definition uv_ip4_addr :: "string \<Rightarrow> int \<Rightarrow> (uv_errno + sockaddr) option" where
  "uv_ip4_addr ip port = do {
     r \<leftarrow> uv_inet_pton Inet.AF_INET (Some ip);
     Some (map_sum id (\<lambda>bs. \<lparr>sa_family = Streams.AF_INET, sin_port = word_of_int port, sa_data = bytes_string bs\<rparr>) r) }"

definition uv_ip6_addr :: "'w udp_kernel \<Rightarrow> string \<Rightarrow> int \<Rightarrow> ('w, sockaddr6) prog" where
  "uv_ip6_addr K ip port w = do {
     let (ip, scope, w) =
       (case strchr ip (CHR ''%'') of
          None \<Rightarrow> (ip, 0, w)
        | Some zone_index \<Rightarrow>
            let address_part_size = (if zone_index \<ge> 40 then 39 else zone_index);
                (scope, w) = k_if_nametoindex K (drop (zone_index + 1) ip) w
            in (take address_part_size ip, scope, w));
     r \<leftarrow> uv_inet_pton Inet.AF_INET6 (Some ip);
     Some (map_sum id (\<lambda>bs. \<lparr>sa_family = Streams.AF_INET6, sin_port = word_of_int port, sa_data = bytes_string bs,
                              sin6_scope_id = scope\<rparr>) r, w) }"

section \<open>Setting up\<close>

definition uv__udp_mmsg_init ::
  "'w udp_kernel \<Rightarrow> ('w, 'a) udp_loop_scheme \<Rightarrow> ('w, 'a) udp_loop_scheme option" where
  "uv__udp_mmsg_init K s = do {
     (fd, s) \<leftarrow> sys_prog (uv__socket (ufdK K) (af_num Streams.AF_INET) SOCK_DGRAM 0) s;
     (case fd of
        Inl _ \<Rightarrow> Some s
      | Inr fd \<Rightarrow> do {
          let (ret, s) = sys (k_sendmmsg K fd []) s;
          let s = (if ret \<noteq> Inl UV_ENOSYS then s\<lparr>sendmmsg_avail := True, recvmmsg_avail := True\<rparr>
                   else case sys (k_recvmmsg K fd 0) s of
                     (ret, s) \<Rightarrow> if ret \<noteq> Inl UV_ENOSYS then s\<lparr>recvmmsg_avail := True\<rparr> else s);
          (_, s) \<leftarrow> sys_prog (uv__close (ufdK K) fd) s;
          Some s }) }"

definition mmsg_init_once :: "'w udp_kernel \<Rightarrow> ('w, 'a) udp_loop_scheme \<Rightarrow> ('w, 'a) udp_loop_scheme option" where
  "mmsg_init_once K s =
     (if mmsg_once s then Some s else map_option (\<lambda>s. s\<lparr>mmsg_once := True\<rparr>) (uv__udp_mmsg_init K s))"

definition uv__udp_init_ex ::
  "'w udp_kernel \<Rightarrow> addr \<Rightarrow> Streams.sa_family \<Rightarrow> ('w, 'a) udp_loop_scheme \<Rightarrow>
    ((uv_errno + unit) \<times> ('w, 'a) udp_loop_scheme) option" where
  "uv__udp_init_ex K h dmn s = do {
     (fd, s) \<leftarrow> (if dmn \<noteq> AF_UNSPEC then sys_prog (uv__socket (ufdK K) (af_num dmn) SOCK_DGRAM 0) s
                else Some (Inr (-1), s));
     (case fd of
        Inl e \<Rightarrow> Some (Inl e, s)
      | Inr fd \<Rightarrow> do {
          let s = uv__handle_init h UV_UDP s;
          let s = s\<lparr>alloc_cb := (alloc_cb s)(h := None), recv_cb := (recv_cb s)(h := None),
                    send_queue_size := (send_queue_size s)(h := 0), send_queue_count := (send_queue_count s)(h := 0)\<rparr>;
          s \<leftarrow> uv__io_init h UV__UDP_IO fd s;
          Some (Inr (), s\<lparr>write_queue := (write_queue s)(h := []), write_completed_queue := (write_completed_queue s)(h := [])\<rparr>) }) }"

definition uv_udp_init_ex ::
  "'w udp_kernel \<Rightarrow> addr \<Rightarrow> u32 \<Rightarrow> ('w, 'a) udp_loop_scheme \<Rightarrow>
    ((uv_errno + unit) \<times> ('w, 'a) udp_loop_scheme) option" where
  "uv_udp_init_ex K h fl s =
     (let dmn = af_of (uint (fl AND 0xFF));
          extra_flags = fl AND NOT 0xFF
      in if dmn \<noteq> Streams.AF_INET \<and> dmn \<noteq> Streams.AF_INET6 \<and> dmn \<noteq> AF_UNSPEC then Some (Inl UV_EINVAL, s)
         else if extra_flags AND NOT UV_UDP_RECVMMSG \<noteq> 0 then Some (Inl UV_EINVAL, s)
         else do {
           (rc, s) \<leftarrow> uv__udp_init_ex K h dmn s;
           Some (rc, if rc = Inr () \<and> extra_flags AND UV_UDP_RECVMMSG \<noteq> 0 then set_flag h UV_HANDLE_UDP_RECVMMSG s else s) })"

definition uv_udp_init ::
  "'w udp_kernel \<Rightarrow> addr \<Rightarrow> ('w, 'a) udp_loop_scheme \<Rightarrow> ((uv_errno + unit) \<times> ('w, 'a) udp_loop_scheme) option" where
  "uv_udp_init K h s = uv_udp_init_ex K h 0 s"

definition uv_udp_using_recvmmsg ::
  "'w udp_kernel \<Rightarrow> addr \<Rightarrow> ('w, 'a) udp_loop_scheme \<Rightarrow> (bool \<times> ('w, 'a) udp_loop_scheme) option" where
  "uv_udp_using_recvmmsg K h s =
     (if has_flag s h UV_HANDLE_UDP_RECVMMSG then do {
        s \<leftarrow> mmsg_init_once K s;
        Some (recvmmsg_avail s, s) }
      else Some (False, s))"

definition uv__set_reuse :: "'w udp_kernel \<Rightarrow> int \<Rightarrow> ('w, unit) sys" where
  "uv__set_reuse K fd = k_setsockopt K fd (SO_REUSEADDR True)"

definition uv__set_recverr :: "'w udp_kernel \<Rightarrow> int \<Rightarrow> Streams.sa_family \<Rightarrow> ('w, unit) sys" where
  "uv__set_recverr K fd f w =
     (if f = Streams.AF_INET then k_udp_sockopt K fd IP_RECVERR w
      else if f = Streams.AF_INET6 then k_udp_sockopt K fd IPV6_RECVERR w
      else (Inr (), w))"

text \<open>The options a bind sets, in their order, up to the first that fails.\<close>

definition bind_options :: "'w udp_kernel \<Rightarrow> int \<Rightarrow> Streams.sa_family \<Rightarrow> u32 \<Rightarrow> ('w, unit) sys" where
  "bind_options K fd f fl w =
     (case (if fl AND UV_UDP_LINUX_RECVERR \<noteq> 0 then uv__set_recverr K fd f w else (Inr (), w)) of
        (Inl e, w) \<Rightarrow> (Inl e, w)
      | (Inr _, w) \<Rightarrow>
          (case (if fl AND UV_UDP_REUSEADDR \<noteq> 0 then uv__set_reuse K fd w else (Inr (), w)) of
             (Inl e, w) \<Rightarrow> (Inl e, w)
           | (Inr _, w) \<Rightarrow>
               if fl AND UV_UDP_IPV6ONLY \<noteq> 0 then k_setsockopt K fd (IPV6_V6ONLY True) w else (Inr (), w)))"

definition uv__udp_bind ::
  "'w udp_kernel \<Rightarrow> addr \<Rightarrow> sockaddr \<Rightarrow> u32 \<Rightarrow> ('w, 'a) udp_loop_scheme \<Rightarrow>
    ((uv_errno + unit) \<times> ('w, 'a) udp_loop_scheme) option" where
  "uv__udp_bind K h sa fl s =
     (if fl AND NOT (UV_UDP_IPV6ONLY OR UV_UDP_REUSEADDR OR UV_UDP_LINUX_RECVERR) \<noteq> 0 then Some (Inl UV_EINVAL, s)
      else if fl AND UV_UDP_IPV6ONLY \<noteq> 0 \<and> sa_family sa \<noteq> Streams.AF_INET6 then Some (Inl UV_EINVAL, s)
      else do {
        (fd, s) \<leftarrow> (if io_fd s h = -1 then do {
                     (fd, s) \<leftarrow> sys_prog (uv__socket (ufdK K) (af_num (sa_family sa)) SOCK_DGRAM 0) s;
                     Some (fd, case fd of Inl _ \<Rightarrow> s | Inr fd \<Rightarrow> s\<lparr>io_fd := (io_fd s)(h := fd)\<rparr>) }
                   else Some (Inr (io_fd s h), s));
        (case fd of
           Inl e \<Rightarrow> Some (Inl e, s)
         | Inr fd \<Rightarrow>
             (case sys (bind_options K fd (sa_family sa) fl) s of
                (Inl e, s) \<Rightarrow> Some (Inl e, s)
              | (Inr _, s) \<Rightarrow>
                  (case sys (k_bind K fd sa) s of
                     (Inl e, s) \<Rightarrow> Some (Inl (if e = UV_EAFNOSUPPORT then UV_EINVAL else e), s)
                   | (Inr _, s) \<Rightarrow>
                       let s = (if sa_family sa = Streams.AF_INET6 then set_flag h UV_HANDLE_IPV6 s else s)
                       in Some (Inr (), set_flag h UV_HANDLE_BOUND s)))) })"

definition uv__udp_maybe_deferred_bind ::
  "'w udp_kernel \<Rightarrow> addr \<Rightarrow> Streams.sa_family \<Rightarrow> u32 \<Rightarrow> ('w, 'a) udp_loop_scheme \<Rightarrow>
    ((uv_errno + unit) \<times> ('w, 'a) udp_loop_scheme) option" where
  "uv__udp_maybe_deferred_bind K h dmn fl s =
     (if io_fd s h \<noteq> -1 then Some (Inr (), s)
      else if dmn = Streams.AF_INET then
        uv__udp_bind K h \<lparr>sa_family = Streams.AF_INET, sin_port = 0, sa_data = replicate 4 (char_of (0 :: nat))\<rparr> fl s
      else if dmn = Streams.AF_INET6 then
        uv__udp_bind K h \<lparr>sa_family = Streams.AF_INET6, sin_port = 0, sa_data = replicate 16 (char_of (0 :: nat))\<rparr> fl s
      else None)"

definition uv_udp_bind ::
  "'w udp_kernel \<Rightarrow> addr \<Rightarrow> sockaddr \<Rightarrow> u32 \<Rightarrow> ('w, 'a) udp_loop_scheme \<Rightarrow>
    ((uv_errno + unit) \<times> ('w, 'a) udp_loop_scheme) option" where
  "uv_udp_bind K h sa fl s =
     (if htype s h \<noteq> UV_UDP then Some (Inl UV_EINVAL, s)
      else if sa_family sa \<noteq> Streams.AF_INET \<and> sa_family sa \<noteq> Streams.AF_INET6 then Some (Inl UV_EINVAL, s)
      else uv__udp_bind K h sa fl s)"

definition uv__udp_connect ::
  "'w udp_kernel \<Rightarrow> addr \<Rightarrow> sockaddr \<Rightarrow> ('w, 'a) udp_loop_scheme \<Rightarrow>
    ((uv_errno + unit) \<times> ('w, 'a) udp_loop_scheme) option" where
  "uv__udp_connect K h sa s = do {
     (err, s) \<leftarrow> uv__udp_maybe_deferred_bind K h (sa_family sa) 0 s;
     (case err of
        Inl e \<Rightarrow> Some (Inl e, s)
      | Inr _ \<Rightarrow> do {
          (err, s) \<leftarrow> sys_prog (retry_eintr (k_connect K (io_fd s h) sa)) s;
          Some (err, if err = Inr () then set_flag h UV_HANDLE_UDP_CONNECTED s else s) }) }"

definition uv__udp_disconnect ::
  "'w udp_kernel \<Rightarrow> addr \<Rightarrow> ('w, 'a) udp_loop_scheme \<Rightarrow> ((uv_errno + unit) \<times> ('w, 'a) udp_loop_scheme) option" where
  "uv__udp_disconnect K h s = do {
     (r, s) \<leftarrow> sys_prog (retry_eintr (k_connect K (io_fd s h) \<lparr>sa_family = AF_UNSPEC, sin_port = 0, sa_data = []\<rparr>)) s;
     Some (r, if r = Inr () then clear_flag h UV_HANDLE_UDP_CONNECTED s else s) }"

definition uv_udp_connect ::
  "'w udp_kernel \<Rightarrow> addr \<Rightarrow> sockaddr option \<Rightarrow> ('w, 'a) udp_loop_scheme \<Rightarrow>
    ((uv_errno + unit) \<times> ('w, 'a) udp_loop_scheme) option" where
  "uv_udp_connect K h sa s =
     (if htype s h \<noteq> UV_UDP then Some (Inl UV_EINVAL, s)
      else case sa of
        None \<Rightarrow> if \<not> has_flag s h UV_HANDLE_UDP_CONNECTED then Some (Inl UV_ENOTCONN, s) else uv__udp_disconnect K h s
      | Some sa \<Rightarrow>
          if sa_family sa \<noteq> Streams.AF_INET \<and> sa_family sa \<noteq> Streams.AF_INET6 then Some (Inl UV_EINVAL, s)
          else if has_flag s h UV_HANDLE_UDP_CONNECTED then Some (Inl UV_EISCONN, s)
          else uv__udp_connect K h sa s)"

definition uv_udp_getpeername ::
  "'w udp_kernel \<Rightarrow> addr \<Rightarrow> ('w, 'a) udp_loop_scheme \<Rightarrow> (uv_errno + sockaddr) \<times> ('w, 'a) udp_loop_scheme" where
  "uv_udp_getpeername K h s = uv__getsockpeername (k_getpeername K) h s"

definition uv_udp_getsockname ::
  "'w udp_kernel \<Rightarrow> addr \<Rightarrow> ('w, 'a) udp_loop_scheme \<Rightarrow> (uv_errno + sockaddr) \<times> ('w, 'a) udp_loop_scheme" where
  "uv_udp_getsockname K h s = uv__getsockpeername (k_getsockname K) h s"

text \<open>The length the kernel fills in is 0 for an address without family and bytes.\<close>

definition uv__udp_is_connected ::
  "'w udp_kernel \<Rightarrow> addr \<Rightarrow> ('w, 'a) udp_loop_scheme \<Rightarrow> bool \<times> ('w, 'a) udp_loop_scheme" where
  "uv__udp_is_connected K h s =
     (if htype s h \<noteq> UV_UDP then (False, s)
      else case uv_udp_getpeername K h s of
        (Inl _, s) \<Rightarrow> (False, s)
      | (Inr sa, s) \<Rightarrow> (\<not> (sa_family sa = AF_UNSPEC \<and> sa_data sa = []), s))"

definition uv_udp_open ::
  "'w udp_kernel \<Rightarrow> addr \<Rightarrow> int \<Rightarrow> ('w, 'a) udp_loop_scheme \<Rightarrow>
    ((uv_errno + unit) \<times> ('w, 'a) udp_loop_scheme) option" where
  "uv_udp_open K h sock s =
     (if io_fd s h \<noteq> -1 then Some (Inl UV_EBUSY, s)
      else do {
        there \<leftarrow> uv__fd_exists s sock;
        if there then Some (Inl UV_EEXIST, s)
        else do {
          (err, s) \<leftarrow> sys_prog (uv__nonblock (ufdK K) sock True) s;
          (case err of
             Inl e \<Rightarrow> Some (Inl e, s)
           | Inr _ \<Rightarrow>
               (case sys (uv__set_reuse K sock) s of
                  (Inl e, s) \<Rightarrow> Some (Inl e, s)
                | (Inr _, s) \<Rightarrow>
                    let (conn, s) = uv__udp_is_connected K h (s\<lparr>io_fd := (io_fd s)(h := sock)\<rparr>)
                    in Some (Inr (), if conn then set_flag h UV_HANDLE_UDP_CONNECTED s else s))) } })"


section \<open>Sending\<close>

text \<open>The name and length of a message header; a family that is not supported aborts.\<close>

definition msg_name :: "sockaddr \<Rightarrow> sockaddr option option" where
  "msg_name sa = (case sa_family sa of
     AF_UNSPEC \<Rightarrow> Some None
   | Streams.AF_OTHER _ \<Rightarrow> None
   | _ \<Rightarrow> Some (Some sa))"

definition out_msg_of :: "('w, 'a) udp_loop_scheme \<Rightarrow> addr \<Rightarrow> out_msg option" where
  "out_msg_of s req = do {
     name \<leftarrow> msg_name (send_addr s req);
     bufs \<leftarrow> w_bufs s req;
     Some (bufs, name) }"

text \<open>Requests go from the head of the write queue to the completed queue.\<close>

fun complete_requests :: "addr \<Rightarrow> (addr \<Rightarrow> uv_errno + nat) \<Rightarrow> addr list \<Rightarrow> ('w, 'a) udp_loop_scheme \<Rightarrow> ('w, 'a) udp_loop_scheme" where
  "complete_requests h st [] s = s"
| "complete_requests h st (req # reqs) s =
     complete_requests h st reqs
       (s\<lparr>send_status := (send_status s)(req := st req), write_queue := (write_queue s)(h := remove1 req (write_queue s h)),
          write_completed_queue := (write_completed_queue s)(h := write_completed_queue s h @ [req])\<rparr>)"

text \<open>\<open>status\<close> is the length of the first buffer.\<close>

definition first_len :: "('w, 'a) udp_loop_scheme \<Rightarrow> addr \<Rightarrow> uv_errno + nat" where
  "first_len s req = Inr (length (hd (the (w_bufs s req))))"

text \<open>\<open>sendmmsg\<close> does not return 0 for messages it was given: \<open>errno\<close> would be left over from before.\<close>

partial_function (option) uv__udp_sendmmsg ::
  "'w udp_kernel \<Rightarrow> addr \<Rightarrow> ('w, 'a) udp_loop_scheme \<Rightarrow> ('w, 'a) udp_loop_scheme option" where
  "uv__udp_sendmmsg K h s =
     (if write_queue s h = [] then Some s
      else let batch = take UV__MMSG_MAXWIDTH (write_queue s h)
           in those (map (out_msg_of s) batch) \<bind> (\<lambda>msgs.
              sys_prog (retry_eintr (k_sendmmsg K (io_fd s h) msgs)) s \<bind> (\<lambda>(npkts, s).
                case npkts of
                  Inl e \<Rightarrow> if e = UV_EAGAIN \<or> e = UV_ENOBUFS then Some s
                           else Some (uv__io_feed h (complete_requests h (\<lambda>_. Inl e) batch s))
                | Inr n \<Rightarrow> if n = 0 then None
                    else let s = complete_requests h (first_len s) (take n (write_queue s h)) s
                         in if write_queue s h \<noteq> [] then uv__udp_sendmmsg K h s else Some (uv__io_feed h s))))"

partial_function (option) sendmsg_loop ::
  "'w udp_kernel \<Rightarrow> addr \<Rightarrow> ('w, 'a) udp_loop_scheme \<Rightarrow> ('w, 'a) udp_loop_scheme option" where
  "sendmsg_loop K h s =
     (if write_queue s h = [] then Some s
      else let req = hd (write_queue s h)
           in out_msg_of s req \<bind> (\<lambda>msg.
              sys_prog (retry_eintr (k_sendmsg_to K (io_fd s h) msg)) s \<bind> (\<lambda>(r, s).
                if r = Inl UV_EAGAIN \<or> r = Inl UV_ENOBUFS then Some s
                else sendmsg_loop K h (uv__io_feed h (complete_requests h (\<lambda>_. r) [req] s)))))"

definition uv__udp_sendmsg ::
  "'w udp_kernel \<Rightarrow> addr \<Rightarrow> ('w, 'a) udp_loop_scheme \<Rightarrow> ('w, 'a) udp_loop_scheme option" where
  "uv__udp_sendmsg K h s = do {
     s \<leftarrow> mmsg_init_once K s;
     if sendmmsg_avail s then uv__udp_sendmmsg K h s else sendmsg_loop K h s }"

text \<open>The loop of \<open>uv__udp_run_completed\<close>.\<close>

partial_function (option) run_completed_loop ::
  "('w, 'a) udp_loop_scheme udp_calls \<Rightarrow> addr \<Rightarrow> ('w, 'a) udp_loop_scheme \<Rightarrow> ('w, 'a) udp_loop_scheme option" where
  "run_completed_loop U h s =
     (case write_completed_queue s h of
        [] \<Rightarrow> Some s
      | req # rest \<Rightarrow>
          uv__req_unregister (s\<lparr>write_completed_queue := (write_completed_queue s)(h := rest)\<rparr>) \<bind> (\<lambda>s.
          w_bufs s req \<bind> (\<lambda>bufs.
          let s = s\<lparr>send_queue_size := (send_queue_size s)(h := send_queue_size s h - uv__count_bufs bufs),
                    send_queue_count := (send_queue_count s)(h := send_queue_count s h - 1),
                    w_bufs := (w_bufs s)(req := None)\<rparr>
          in (case req_cb s req of
                None \<Rightarrow> Some s
              | Some cb \<Rightarrow> udp_sent U cb req (case send_status s req of Inr _ \<Rightarrow> None | Inl e \<Rightarrow> Some e) s) \<bind>
             run_completed_loop U h)))"

definition uv__udp_run_completed ::
  "('w, 'a) udp_loop_scheme udp_calls \<Rightarrow> addr \<Rightarrow> ('w, 'a) udp_loop_scheme \<Rightarrow> ('w, 'a) udp_loop_scheme option" where
  "uv__udp_run_completed U h s = do {
     uv_assert (\<not> has_flag s h UV_HANDLE_UDP_PROCESSING);
     s \<leftarrow> run_completed_loop U h (set_flag h UV_HANDLE_UDP_PROCESSING s);
     s \<leftarrow> (if write_queue s h = [] then do {
            s \<leftarrow> uv__io_stop h POLLOUT s;
            reading \<leftarrow> uv__io_active s h POLLIN;
            Some (if \<not> reading then uv__handle_stop h s else s) }
          else Some s);
     Some (clear_flag h UV_HANDLE_UDP_PROCESSING s) }"

definition uv__udp_send ::
  "'w udp_kernel \<Rightarrow> addr \<Rightarrow> addr \<Rightarrow> string list \<Rightarrow> sockaddr option \<Rightarrow> nat option \<Rightarrow> ('w, 'a) udp_loop_scheme \<Rightarrow>
    ((uv_errno + unit) \<times> ('w, 'a) udp_loop_scheme) option" where
  "uv__udp_send K req h bufs sa cb s = do {
     uv_assert (bufs \<noteq> []);
     (err, s) \<leftarrow> (case sa of
        None \<Rightarrow> Some (Inr (), s)
      | Some sa \<Rightarrow> uv__udp_maybe_deferred_bind K h (sa_family sa) 0 s);
     (case err of
        Inl e \<Rightarrow> Some (Inl e, s)
      | Inr _ \<Rightarrow> do {
          let empty_queue = (send_queue_count s h = 0);
          let s = uv__req_register s;
          let s = s\<lparr>send_addr := (send_addr s)(req := (case sa of None \<Rightarrow> \<lparr>sa_family = AF_UNSPEC, sin_port = 0, sa_data = []\<rparr> | Some sa \<Rightarrow> sa)),
                    req_cb := (req_cb s)(req := cb), req_handle := (req_handle s)(req := h)\<rparr>;
          let (room, s) = (if length bufs > 4 then sys (k_malloc K (length bufs * 16)) s else (True, s));
          if \<not> room then do {
            s \<leftarrow> uv__req_unregister s;
            Some (Inl UV_ENOMEM, s) }
          else do {
            let s = s\<lparr>w_bufs := (w_bufs s)(req := Some bufs),
                      send_queue_size := (send_queue_size s)(h := send_queue_size s h + uv__count_bufs bufs),
                      send_queue_count := (send_queue_count s)(h := send_queue_count s h + 1),
                      write_queue := (write_queue s)(h := write_queue s h @ [req])\<rparr>;
            let s = uv__handle_start h s;
            s \<leftarrow> (if empty_queue \<and> \<not> has_flag s h UV_HANDLE_UDP_PROCESSING then do {
                   s \<leftarrow> uv__udp_sendmsg K h s;
                   if write_queue s h \<noteq> [] then uv__io_start (uioK K) h POLLOUT s else Some s }
                 else uv__io_start (uioK K) h POLLOUT s);
            Some (Inr (), s) } }) }"

definition uv__udp_try_send ::
  "'w udp_kernel \<Rightarrow> addr \<Rightarrow> string list \<Rightarrow> sockaddr option \<Rightarrow> ('w, 'a) udp_loop_scheme \<Rightarrow>
    ((uv_errno + nat) \<times> ('w, 'a) udp_loop_scheme) option" where
  "uv__udp_try_send K h bufs sa s = do {
     uv_assert (bufs \<noteq> []);
     if send_queue_count s h \<noteq> 0 then Some (Inl UV_EAGAIN, s)
     else do {
       (err, s) \<leftarrow> (case sa of
          Some sa \<Rightarrow> uv__udp_maybe_deferred_bind K h (sa_family sa) 0 s
        | None \<Rightarrow> uv_assert (has_flag s h UV_HANDLE_UDP_CONNECTED) \<bind> (\<lambda>_. Some (Inr (), s)));
       (case err of
          Inl e \<Rightarrow> Some (Inl e, s)
        | Inr _ \<Rightarrow> do {
            (size, s) \<leftarrow> sys_prog (retry_eintr (k_sendmsg_to K (io_fd s h) (bufs, sa))) s;
            Some (if size = Inl UV_ENOBUFS then Inl UV_EAGAIN else size, s) }) } }"

definition uv__udp_check_before_send ::
  "addr \<Rightarrow> sockaddr option \<Rightarrow> ('w, 'a) udp_loop_scheme \<Rightarrow> uv_errno + nat" where
  "uv__udp_check_before_send h sa s =
     (if htype s h \<noteq> UV_UDP then Inl UV_EINVAL
      else if sa \<noteq> None \<and> has_flag s h UV_HANDLE_UDP_CONNECTED then Inl UV_EISCONN
      else if sa = None \<and> \<not> has_flag s h UV_HANDLE_UDP_CONNECTED then Inl UV_EDESTADDRREQ
      else case sa of
        None \<Rightarrow> Inr 0
      | Some sa \<Rightarrow> (case sa_family sa of
            Streams.AF_INET \<Rightarrow> Inr 16
          | Streams.AF_INET6 \<Rightarrow> Inr 28
          | AF_UNIX \<Rightarrow> Inr 110
          | _ \<Rightarrow> Inl UV_EINVAL))"

definition uv_udp_send ::
  "'w udp_kernel \<Rightarrow> addr \<Rightarrow> addr \<Rightarrow> string list \<Rightarrow> sockaddr option \<Rightarrow> nat option \<Rightarrow> ('w, 'a) udp_loop_scheme \<Rightarrow>
    ((uv_errno + unit) \<times> ('w, 'a) udp_loop_scheme) option" where
  "uv_udp_send K req h bufs sa cb s =
     (case uv__udp_check_before_send h sa s of
        Inl e \<Rightarrow> Some (Inl e, s)
      | Inr _ \<Rightarrow> uv__udp_send K req h bufs sa cb s)"

definition uv_udp_try_send ::
  "'w udp_kernel \<Rightarrow> addr \<Rightarrow> string list \<Rightarrow> sockaddr option \<Rightarrow> ('w, 'a) udp_loop_scheme \<Rightarrow>
    ((uv_errno + nat) \<times> ('w, 'a) udp_loop_scheme) option" where
  "uv_udp_try_send K h bufs sa s =
     (case uv__udp_check_before_send h sa s of
        Inl e \<Rightarrow> Some (Inl e, s)
      | Inr _ \<Rightarrow> uv__udp_try_send K h bufs sa s)"

section \<open>Receiving\<close>

text \<open>The messages one call of \<open>recvmmsg\<close> brought, as long as there is a callback.\<close>

fun recv_chunks ::
  "('w, 'a) udp_loop_scheme udp_calls \<Rightarrow> addr \<Rightarrow> in_msg list \<Rightarrow> ('w, 'a) udp_loop_scheme \<Rightarrow> ('w, 'a) udp_loop_scheme option" where
  "recv_chunks U h [] s = Some s"
| "recv_chunks U h ((d, peer, trunc) # msgs) s =
     (case recv_cb s h of
        None \<Rightarrow> Some s
      | Some cb \<Rightarrow>
          let fl = (if trunc then UV_UDP_MMSG_CHUNK OR UV_UDP_PARTIAL else UV_UDP_MMSG_CHUNK)
          in udp_recv U cb h (Inr d) (Some peer) fl s \<bind> recv_chunks U h msgs)"

definition uv__udp_recvmmsg ::
  "'w udp_kernel \<Rightarrow> ('w, 'a) udp_loop_scheme udp_calls \<Rightarrow> addr \<Rightarrow> nat \<Rightarrow> ('w, 'a) udp_loop_scheme \<Rightarrow>
    ((uv_errno + nat) \<times> ('w, 'a) udp_loop_scheme) option" where
  "uv__udp_recvmmsg K U h cap s = do {
     let chunks = cap div UV__UDP_DGRAM_MAXSIZE;
     let chunks = (if chunks > UV__MMSG_MAXWIDTH then UV__MMSG_MAXWIDTH else chunks);
     (nread, s) \<leftarrow> sys_prog (retry_eintr (k_recvmmsg K (io_fd s h) chunks)) s;
     (case nread of
        Inl e \<Rightarrow> do {
          cb \<leftarrow> recv_cb s h;
          s \<leftarrow> udp_recv U cb h (if e = UV_EAGAIN then Inr [] else Inl e) None 0 s;
          Some (Inl e, s) }
      | Inr [] \<Rightarrow> do {
          cb \<leftarrow> recv_cb s h;
          s \<leftarrow> udp_recv U cb h (Inr []) None 0 s;
          Some (Inr 0, s) }
      | Inr msgs \<Rightarrow> do {
          s \<leftarrow> recv_chunks U h msgs s;
          s \<leftarrow> (case recv_cb s h of
                 None \<Rightarrow> Some s
               | Some cb \<Rightarrow> udp_recv U cb h (Inr []) None UV_UDP_MMSG_FREE s);
          Some (Inr (length msgs), s) }) }"

text \<open>One \<open>recvmsg\<close> and the call of the callback with its result.\<close>

definition recv_one ::
  "'w udp_kernel \<Rightarrow> ('w, 'a) udp_loop_scheme udp_calls \<Rightarrow> addr \<Rightarrow> nat \<Rightarrow> ('w, 'a) udp_loop_scheme \<Rightarrow>
    ((uv_errno + nat) \<times> ('w, 'a) udp_loop_scheme) option" where
  "recv_one K U h cap s = do {
     (r, s) \<leftarrow> sys_prog (retry_eintr (k_recvmsg_from K (io_fd s h) cap)) s;
     cb \<leftarrow> recv_cb s h;
     (case r of
        Inl e \<Rightarrow> do {
          s \<leftarrow> udp_recv U cb h (if e = UV_EAGAIN then Inr [] else Inl e) None 0 s;
          Some (Inl e, s) }
      | Inr (d, peer, trunc) \<Rightarrow> do {
          s \<leftarrow> udp_recv U cb h (Inr d) (Some peer) (if trunc then UV_UDP_PARTIAL else 0) s;
          Some (Inr (length d), s) }) }"

text \<open>The \<open>do ... while\<close> loop of \<open>uv__udp_recvmsg\<close>; a message of \<open>recvmmsg\<close> counts as one round.\<close>

partial_function (option) recv_loop ::
  "'w udp_kernel \<Rightarrow> ('w, 'a) udp_loop_scheme udp_calls \<Rightarrow> addr \<Rightarrow> int \<Rightarrow> ('w, 'a) udp_loop_scheme \<Rightarrow>
    ('w, 'a) udp_loop_scheme option" where
  "recv_loop K U h cnt s =
     alloc_cb s h \<bind> (\<lambda>acb.
     udp_alloc U acb h s \<bind> (\<lambda>(cap, s).
       if cap = None \<or> cap = Some 0 then recv_cb s h \<bind> (\<lambda>cb. udp_recv U cb h (Inl UV_ENOBUFS) None 0 s)
       else uv_udp_using_recvmmsg K h s \<bind> (\<lambda>(many, s).
         (if many then uv__udp_recvmmsg K U h (the cap) s else recv_one K U h (the cap) s) \<bind> (\<lambda>(nread, s).
         let cnt = (if many then (case nread of Inr n \<Rightarrow> cnt - int n | Inl _ \<Rightarrow> cnt) else cnt - 1)
         in if \<not> isl nread \<and> cnt > 0 \<and> io_fd s h \<noteq> -1 \<and> recv_cb s h \<noteq> None then recv_loop K U h cnt s else Some s))))"

definition uv__udp_recvmsg ::
  "'w udp_kernel \<Rightarrow> ('w, 'a) udp_loop_scheme udp_calls \<Rightarrow> addr \<Rightarrow> ('w, 'a) udp_loop_scheme \<Rightarrow>
    ('w, 'a) udp_loop_scheme option" where
  "uv__udp_recvmsg K U h s = do {
     uv_assert (recv_cb s h \<noteq> None);
     uv_assert (alloc_cb s h \<noteq> None);
     recv_loop K U h 32 s }"

definition uv__udp_io ::
  "'w udp_kernel \<Rightarrow> ('w, 'a) udp_loop_scheme udp_calls \<Rightarrow> addr \<Rightarrow> u32 \<Rightarrow> ('w, 'a) udp_loop_scheme \<Rightarrow>
    ('w, 'a) udp_loop_scheme option" where
  "uv__udp_io K U h revents s = do {
     uv_assert (htype s h = UV_UDP);
     s \<leftarrow> (if revents AND POLLIN \<noteq> 0 then uv__udp_recvmsg K U h s else Some s);
     (if revents AND POLLOUT \<noteq> 0 then do {
        s \<leftarrow> uv__udp_sendmsg K h s;
        uv__udp_run_completed U h s }
      else Some s) }"

definition uv__udp_recv_start ::
  "'w udp_kernel \<Rightarrow> addr \<Rightarrow> nat option \<Rightarrow> nat option \<Rightarrow> ('w, 'a) udp_loop_scheme \<Rightarrow>
    ((uv_errno + unit) \<times> ('w, 'a) udp_loop_scheme) option" where
  "uv__udp_recv_start K h acb rcb s =
     (if acb = None \<or> rcb = None then Some (Inl UV_EINVAL, s)
      else do {
        reading \<leftarrow> uv__io_active s h POLLIN;
        if reading then Some (Inl UV_EALREADY, s)
        else do {
          (err, s) \<leftarrow> uv__udp_maybe_deferred_bind K h Streams.AF_INET 0 s;
          (case err of
             Inl e \<Rightarrow> Some (Inl e, s)
           | Inr _ \<Rightarrow> do {
               s \<leftarrow> uv__io_start (uioK K) h POLLIN (s\<lparr>alloc_cb := (alloc_cb s)(h := acb), recv_cb := (recv_cb s)(h := rcb)\<rparr>);
               Some (Inr (), uv__handle_start h s) }) } })"

definition uv__udp_recv_stop ::
  "addr \<Rightarrow> ('w, 'a) udp_loop_scheme \<Rightarrow> ('w, 'a) udp_loop_scheme option" where
  "uv__udp_recv_stop h s = do {
     s \<leftarrow> uv__io_stop h POLLIN s;
     writing \<leftarrow> uv__io_active s h POLLOUT;
     let s = (if \<not> writing then uv__handle_stop h s else s);
     Some (s\<lparr>alloc_cb := (alloc_cb s)(h := None), recv_cb := (recv_cb s)(h := None)\<rparr>) }"

definition uv_udp_recv_start ::
  "'w udp_kernel \<Rightarrow> addr \<Rightarrow> nat option \<Rightarrow> nat option \<Rightarrow> ('w, 'a) udp_loop_scheme \<Rightarrow>
    ((uv_errno + unit) \<times> ('w, 'a) udp_loop_scheme) option" where
  "uv_udp_recv_start K h acb rcb s =
     (if htype s h \<noteq> UV_UDP \<or> acb = None \<or> rcb = None then Some (Inl UV_EINVAL, s)
      else uv__udp_recv_start K h acb rcb s)"

definition uv_udp_recv_stop ::
  "addr \<Rightarrow> ('w, 'a) udp_loop_scheme \<Rightarrow> ((uv_errno + unit) \<times> ('w, 'a) udp_loop_scheme) option" where
  "uv_udp_recv_stop h s =
     (if htype s h \<noteq> UV_UDP then Some (Inl UV_EINVAL, s)
      else map_option (\<lambda>s. (Inr (), s)) (uv__udp_recv_stop h s))"

section \<open>Closing\<close>

definition uv__udp_close ::
  "'w udp_kernel \<Rightarrow> addr \<Rightarrow> ('w, 'a) udp_loop_scheme \<Rightarrow> ('w, 'a) udp_loop_scheme option" where
  "uv__udp_close K h s = do {
     s \<leftarrow> uv__io_close (uioK K) h s;
     let s = uv__handle_stop h s;
     if io_fd s h \<noteq> -1 then do {
       (_, s) \<leftarrow> sys_prog (uv__close (ufdK K) (io_fd s h)) s;
       Some (s\<lparr>io_fd := (io_fd s)(h := -1)\<rparr>) }
     else Some s }"

definition uv__udp_finish_close ::
  "('w, 'a) udp_loop_scheme udp_calls \<Rightarrow> addr \<Rightarrow> ('w, 'a) udp_loop_scheme \<Rightarrow> ('w, 'a) udp_loop_scheme option" where
  "uv__udp_finish_close U h s = do {
     active \<leftarrow> uv__io_active s h (POLLIN OR POLLOUT);
     uv_assert (\<not> active);
     uv_assert (io_fd s h = -1);
     s \<leftarrow> uv__udp_run_completed U h (complete_requests h (\<lambda>_. Inl UV_ECANCELED) (write_queue s h) s);
     uv_assert (send_queue_size s h = 0);
     uv_assert (send_queue_count s h = 0);
     Some (s\<lparr>recv_cb := (recv_cb s)(h := None), alloc_cb := (alloc_cb s)(h := None)\<rparr>) }"


section \<open>Options\<close>

text \<open>\<open>uv_membership\<close>: 0 is \<open>UV_LEAVE_GROUP\<close>, 1 is \<open>UV_JOIN_GROUP\<close>.\<close>

definition joins :: "int \<Rightarrow> bool option" where
  "joins membership = (if membership = 1 then Some True else if membership = 0 then Some False else None)"

text \<open>The bytes of the address of an interface: parsed, or \<open>INADDR_ANY\<close>.\<close>

definition interface_bytes :: "string option \<Rightarrow> (uv_errno + string) option" where
  "interface_bytes interface_addr =
     (case interface_addr of
        None \<Rightarrow> Some (Inr (replicate 4 (char_of (0 :: nat))))
      | Some a \<Rightarrow> map_option (map_sum id bytes_string) (uv_inet_pton Inet.AF_INET (Some a)))"

definition uv__udp_set_membership4 ::
  "'w udp_kernel \<Rightarrow> addr \<Rightarrow> sockaddr \<Rightarrow> string option \<Rightarrow> int \<Rightarrow> ('w, 'a) udp_loop_scheme \<Rightarrow>
    ((uv_errno + unit) \<times> ('w, 'a) udp_loop_scheme) option" where
  "uv__udp_set_membership4 K h multicast_addr interface_addr membership s = do {
     i \<leftarrow> interface_bytes interface_addr;
     (case i of
        Inl e \<Rightarrow> Some (Inl e, s)
      | Inr i \<Rightarrow>
          (case joins membership of
             None \<Rightarrow> Some (Inl UV_EINVAL, s)
           | Some b \<Rightarrow> Some (sys (k_udp_sockopt K (io_fd s h) (IP_MEMBERSHIP b (sa_data multicast_addr) i)) s))) }"

definition uv__udp_set_membership6 ::
  "'w udp_kernel \<Rightarrow> addr \<Rightarrow> sockaddr6 \<Rightarrow> string option \<Rightarrow> int \<Rightarrow> ('w, 'a) udp_loop_scheme \<Rightarrow>
    ((uv_errno + unit) \<times> ('w, 'a) udp_loop_scheme) option" where
  "uv__udp_set_membership6 K h multicast_addr interface_addr membership s = do {
     (i, s) \<leftarrow> (case interface_addr of
        None \<Rightarrow> Some (Inr 0, s)
      | Some a \<Rightarrow> do {
          (r, s) \<leftarrow> sys_prog (uv_ip6_addr K a 0) s;
          Some (case r of Inl _ \<Rightarrow> Inl UV_EINVAL | Inr addr6 \<Rightarrow> Inr (sin6_scope_id addr6), s) });
     (case i of
        Inl e \<Rightarrow> Some (Inl e, s)
      | Inr i \<Rightarrow>
          (case joins membership of
             None \<Rightarrow> Some (Inl UV_EINVAL, s)
           | Some b \<Rightarrow> Some (sys (k_udp_sockopt K (io_fd s h) (IPV6_MEMBERSHIP b (sa_data multicast_addr) i)) s))) }"

definition uv__udp_set_source_membership4 ::
  "'w udp_kernel \<Rightarrow> addr \<Rightarrow> sockaddr \<Rightarrow> string option \<Rightarrow> sockaddr \<Rightarrow> int \<Rightarrow> ('w, 'a) udp_loop_scheme \<Rightarrow>
    ((uv_errno + unit) \<times> ('w, 'a) udp_loop_scheme) option" where
  "uv__udp_set_source_membership4 K h multicast_addr interface_addr source_addr membership s = do {
     (err, s) \<leftarrow> uv__udp_maybe_deferred_bind K h Streams.AF_INET UV_UDP_REUSEADDR s;
     (case err of
        Inl e \<Rightarrow> Some (Inl e, s)
      | Inr _ \<Rightarrow> do {
          i \<leftarrow> interface_bytes interface_addr;
          (case i of
             Inl e \<Rightarrow> Some (Inl e, s)
           | Inr i \<Rightarrow>
               (case joins membership of
                  None \<Rightarrow> Some (Inl UV_EINVAL, s)
                | Some b \<Rightarrow> Some (sys (k_udp_sockopt K (io_fd s h)
                    (IP_SOURCE_MEMBERSHIP b (sa_data multicast_addr) i (sa_data source_addr))) s))) }) }"

definition uv__udp_set_source_membership6 ::
  "'w udp_kernel \<Rightarrow> addr \<Rightarrow> sockaddr6 \<Rightarrow> string option \<Rightarrow> sockaddr6 \<Rightarrow> int \<Rightarrow> ('w, 'a) udp_loop_scheme \<Rightarrow>
    ((uv_errno + unit) \<times> ('w, 'a) udp_loop_scheme) option" where
  "uv__udp_set_source_membership6 K h multicast_addr interface_addr source_addr membership s = do {
     (err, s) \<leftarrow> uv__udp_maybe_deferred_bind K h Streams.AF_INET6 UV_UDP_REUSEADDR s;
     (case err of
        Inl e \<Rightarrow> Some (Inl e, s)
      | Inr _ \<Rightarrow> do {
          (i, s) \<leftarrow> (case interface_addr of
             None \<Rightarrow> Some (Inr 0, s)
           | Some a \<Rightarrow> do {
               (r, s) \<leftarrow> sys_prog (uv_ip6_addr K a 0) s;
               Some (map_sum id sin6_scope_id r, s) });
          (case i of
             Inl e \<Rightarrow> Some (Inl e, s)
           | Inr i \<Rightarrow>
               (case joins membership of
                  None \<Rightarrow> Some (Inl UV_EINVAL, s)
                | Some b \<Rightarrow> Some (sys (k_udp_sockopt K (io_fd s h) (MCAST_SOURCE_GROUP b i multicast_addr source_addr)) s))) }) }"

definition uv_udp_set_membership ::
  "'w udp_kernel \<Rightarrow> addr \<Rightarrow> string \<Rightarrow> string option \<Rightarrow> int \<Rightarrow> ('w, 'a) udp_loop_scheme \<Rightarrow>
    ((uv_errno + unit) \<times> ('w, 'a) udp_loop_scheme) option" where
  "uv_udp_set_membership K h multicast_addr interface_addr membership s = do {
     a4 \<leftarrow> uv_ip4_addr multicast_addr 0;
     (case a4 of
        Inr addr4 \<Rightarrow> do {
          (err, s) \<leftarrow> uv__udp_maybe_deferred_bind K h Streams.AF_INET UV_UDP_REUSEADDR s;
          (case err of
             Inl e \<Rightarrow> Some (Inl e, s)
           | Inr _ \<Rightarrow> uv__udp_set_membership4 K h addr4 interface_addr membership s) }
      | Inl _ \<Rightarrow> do {
          (a6, s) \<leftarrow> sys_prog (uv_ip6_addr K multicast_addr 0) s;
          (case a6 of
             Inr addr6 \<Rightarrow> do {
               (err, s) \<leftarrow> uv__udp_maybe_deferred_bind K h Streams.AF_INET6 UV_UDP_REUSEADDR s;
               (case err of
                  Inl e \<Rightarrow> Some (Inl e, s)
                | Inr _ \<Rightarrow> uv__udp_set_membership6 K h addr6 interface_addr membership s) }
           | Inl _ \<Rightarrow> Some (Inl UV_EINVAL, s)) }) }"

definition uv_udp_set_source_membership ::
  "'w udp_kernel \<Rightarrow> addr \<Rightarrow> string \<Rightarrow> string option \<Rightarrow> string \<Rightarrow> int \<Rightarrow> ('w, 'a) udp_loop_scheme \<Rightarrow>
    ((uv_errno + unit) \<times> ('w, 'a) udp_loop_scheme) option" where
  "uv_udp_set_source_membership K h multicast_addr interface_addr source_addr membership s = do {
     m4 \<leftarrow> uv_ip4_addr multicast_addr 0;
     (case m4 of
        Inl _ \<Rightarrow> do {
          (m6, s) \<leftarrow> sys_prog (uv_ip6_addr K multicast_addr 0) s;
          (case m6 of
             Inl e \<Rightarrow> Some (Inl e, s)
           | Inr m6 \<Rightarrow> do {
               (s6, s) \<leftarrow> sys_prog (uv_ip6_addr K source_addr 0) s;
               (case s6 of
                  Inl e \<Rightarrow> Some (Inl e, s)
                | Inr s6 \<Rightarrow> uv__udp_set_source_membership6 K h m6 interface_addr s6 membership s) }) }
      | Inr m4 \<Rightarrow> do {
          s4 \<leftarrow> uv_ip4_addr source_addr 0;
          (case s4 of
             Inl e \<Rightarrow> Some (Inl e, s)
           | Inr s4 \<Rightarrow> uv__udp_set_source_membership4 K h m4 interface_addr s4 membership s) }) }"

definition uv__setsockopt ::
  "'w udp_kernel \<Rightarrow> addr \<Rightarrow> udp_opt \<Rightarrow> udp_opt \<Rightarrow> ('w, 'a) udp_loop_scheme \<Rightarrow> (uv_errno + unit) \<times> ('w, 'a) udp_loop_scheme" where
  "uv__setsockopt K h option4 option6 s =
     sys (k_udp_sockopt K (io_fd s h) (if has_flag s h UV_HANDLE_IPV6 then option6 else option4)) s"

definition uv__setsockopt_maybe_char ::
  "'w udp_kernel \<Rightarrow> addr \<Rightarrow> (int \<Rightarrow> udp_opt) \<Rightarrow> (int \<Rightarrow> udp_opt) \<Rightarrow> int \<Rightarrow> ('w, 'a) udp_loop_scheme \<Rightarrow>
    (uv_errno + unit) \<times> ('w, 'a) udp_loop_scheme" where
  "uv__setsockopt_maybe_char K h option4 option6 v s =
     (if v < 0 \<or> v > 255 then (Inl UV_EINVAL, s) else uv__setsockopt K h (option4 v) (option6 v) s)"

definition uv_udp_set_broadcast ::
  "'w udp_kernel \<Rightarrow> addr \<Rightarrow> int \<Rightarrow> ('w, 'a) udp_loop_scheme \<Rightarrow> (uv_errno + unit) \<times> ('w, 'a) udp_loop_scheme" where
  "uv_udp_set_broadcast K h on s = sys (k_udp_sockopt K (io_fd s h) (SO_BROADCAST on)) s"

definition uv_udp_set_ttl ::
  "'w udp_kernel \<Rightarrow> addr \<Rightarrow> int \<Rightarrow> ('w, 'a) udp_loop_scheme \<Rightarrow> (uv_errno + unit) \<times> ('w, 'a) udp_loop_scheme" where
  "uv_udp_set_ttl K h ttl s =
     (if ttl < 1 \<or> ttl > 255 then (Inl UV_EINVAL, s) else uv__setsockopt_maybe_char K h IP_TTL IPV6_UNICAST_HOPS ttl s)"

definition uv_udp_set_multicast_ttl ::
  "'w udp_kernel \<Rightarrow> addr \<Rightarrow> int \<Rightarrow> ('w, 'a) udp_loop_scheme \<Rightarrow> (uv_errno + unit) \<times> ('w, 'a) udp_loop_scheme" where
  "uv_udp_set_multicast_ttl K h ttl s = uv__setsockopt_maybe_char K h IP_MULTICAST_TTL IPV6_MULTICAST_HOPS ttl s"

definition uv_udp_set_multicast_loop ::
  "'w udp_kernel \<Rightarrow> addr \<Rightarrow> int \<Rightarrow> ('w, 'a) udp_loop_scheme \<Rightarrow> (uv_errno + unit) \<times> ('w, 'a) udp_loop_scheme" where
  "uv_udp_set_multicast_loop K h on s = uv__setsockopt_maybe_char K h IP_MULTICAST_LOOP IPV6_MULTICAST_LOOP on s"

definition uv_udp_set_multicast_interface ::
  "'w udp_kernel \<Rightarrow> addr \<Rightarrow> string option \<Rightarrow> ('w, 'a) udp_loop_scheme \<Rightarrow>
    ((uv_errno + unit) \<times> ('w, 'a) udp_loop_scheme) option" where
  "uv_udp_set_multicast_interface K h interface_addr s = do {
     (opt, s) \<leftarrow> (case interface_addr of
        None \<Rightarrow> Some (Inr (if has_flag s h UV_HANDLE_IPV6 then IPV6_MULTICAST_IF 0
                           else IP_MULTICAST_IF (replicate 4 (char_of (0 :: nat)))), s)
      | Some a \<Rightarrow> do {
          a4 \<leftarrow> uv_ip4_addr a 0;
          (case a4 of
             Inr addr4 \<Rightarrow> Some (Inr (IP_MULTICAST_IF (sa_data addr4)), s)
           | Inl _ \<Rightarrow> do {
               (a6, s) \<leftarrow> sys_prog (uv_ip6_addr K a 0) s;
               Some (case a6 of Inr addr6 \<Rightarrow> Inr (IPV6_MULTICAST_IF (sin6_scope_id addr6)) | Inl _ \<Rightarrow> Inl UV_EINVAL, s) }) });
     (case opt of
        Inl e \<Rightarrow> Some (Inl e, s)
      | Inr opt \<Rightarrow> Some (sys (k_udp_sockopt K (io_fd s h) opt) s)) }"

end
