(* ===== verification/UdpIo.thy ===== *)
theory UdpIo
  imports Udp
begin

text \<open>
  What the operations of UDP handles promise: each datagram that is reported as sent went to the
  kernel once and in order, closing reports every request, receiving returns and shows the
  datagrams in order; at the end, four observations and the witnesses.
\<close>

section \<open>What is sent\<close>

lemma complete_requests_eq:
  "write_queue s h = reqs @ rest \<Longrightarrow> complete_requests h st reqs s =
     s\<lparr>send_status := (\<lambda>r. if r \<in> set reqs then st r else send_status s r), write_queue := (write_queue s)(h := rest),
       write_completed_queue := (write_completed_queue s)(h := write_completed_queue s h @ reqs)\<rparr>"
proof (induction reqs arbitrary: s)
  case Nil
  then show ?case by (simp add: fun_upd_idem)
next
  case (Cons r reqs)
  let ?t = "s\<lparr>send_status := (send_status s)(r := st r), write_queue := (write_queue s)(h := remove1 r (write_queue s h)),
     write_completed_queue := (write_completed_queue s)(h := write_completed_queue s h @ [r])\<rparr>"
  have "write_queue ?t h = reqs @ rest" using Cons.prems by simp
  note IH = Cons.IH [OF this]
  have st: "(\<lambda>x. if x \<in> set reqs then st x else send_status ?t x) = (\<lambda>x. if x \<in> set (r # reqs) then st x else send_status s x)"
    by (auto simp: fun_eq_iff)
  show ?case using Cons.prems unfolding complete_requests.simps IH st by (simp add: fun_upd_def cong: if_cong)
qed

lemma those_Some: "those xs = Some ys \<longleftrightarrow> xs = map Some ys"
  by (induction xs arbitrary: ys) (auto split: option.splits simp: Cons_eq_map_conv)

lemma those_total: "\<forall>x \<in> set xs. f x \<noteq> None \<Longrightarrow> those (map f xs) = Some (map (\<lambda>x. the (f x)) xs)"
  by (auto simp: those_Some)

text \<open>The kernel: \<open>sent w\<close> is what it has taken, one message after the other.\<close>

definition udp_send_laws :: "'w udp_kernel \<Rightarrow> int \<Rightarrow> ('w \<Rightarrow> out_msg list) \<Rightarrow> bool" where
  "udp_send_laws K fd sent \<longleftrightarrow>
     (\<forall>msgs w. msgs \<noteq> [] \<longrightarrow> (\<exists>r w'. retry_eintr (k_sendmmsg K fd msgs) w = Some (r, w') \<and>
        (case r of Inl _ \<Rightarrow> sent w' = sent w | Inr n \<Rightarrow> 0 < n \<and> n \<le> length msgs \<and> sent w' = sent w @ take n msgs))) \<and>
     (\<forall>m w. \<exists>r w'. retry_eintr (k_sendmsg_to K fd m) w = Some (r, w') \<and>
        sent w' = (case r of Inl _ \<Rightarrow> sent w | Inr _ \<Rightarrow> sent w @ [m]))"

text \<open>
  From \<open>s\<close> to \<open>s'\<close> the requests \<open>dn\<close> went from the head of the write queue to the completed queue, and the
  messages of those that did not fail went to the kernel.
\<close>

definition udp_sends :: "('w \<Rightarrow> out_msg list) \<Rightarrow> addr \<Rightarrow> addr list \<Rightarrow> ('w, 'a) udp_loop_scheme \<Rightarrow> ('w, 'a) udp_loop_scheme \<Rightarrow> bool" where
  "udp_sends sent h dn s s' \<longleftrightarrow>
     s' = s\<lparr>os := os s', qs := qs s', send_status := send_status s', write_queue := (write_queue s)(h := write_queue s' h),
       write_completed_queue := (write_completed_queue s)(h := write_completed_queue s h @ dn)\<rparr> \<and>
     write_queue s h = dn @ write_queue s' h \<and>
     sent (os s') = sent (os s) @ map (\<lambda>r. the (out_msg_of s r)) (filter (\<lambda>r. \<not> isl (send_status s' r)) dn) \<and>
     (\<forall>r. r \<notin> set dn \<longrightarrow> send_status s' r = send_status s r)"

lemma udp_sends_fields:
  assumes "udp_sends sent h dn s s'"
  shows "io_fd s' = io_fd s" "w_bufs s' = w_bufs s" "send_addr s' = send_addr s"
    "write_completed_queue s' h = write_completed_queue s h @ dn" "out_msg_of s' = out_msg_of s"
proof -
  show f: "io_fd s' = io_fd s" "w_bufs s' = w_bufs s" "send_addr s' = send_addr s"
    "write_completed_queue s' h = write_completed_queue s h @ dn"
    by (subst conjunct1 [OF assms [unfolded udp_sends_def]], simp)+
  show "out_msg_of s' = out_msg_of s" using f(2,3) by (simp add: out_msg_of_def fun_eq_iff)
qed

lemma udp_sends_trans:
  assumes a: "udp_sends sent h d1 s t" and b: "udp_sends sent h d2 t s'" and d: "distinct (write_queue s h)"
  shows "udp_sends sent h (d1 @ d2) s s'"
proof -
  note A = a [unfolded udp_sends_def] and B = b [unfolded udp_sends_def]
  note fa = udp_sends_fields [OF a]
  have q: "write_queue s h = (d1 @ d2) @ write_queue s' h" using A B by simp
  have fr: "s' = s\<lparr>os := os s', qs := qs s', send_status := send_status s', write_queue := (write_queue s)(h := write_queue s' h),
       write_completed_queue := (write_completed_queue s)(h := write_completed_queue s h @ d1 @ d2)\<rparr>"
  proof -
    obtain o1 q1 st1 w1 where t: "t = s\<lparr>os := o1, qs := q1, send_status := st1, write_queue := (write_queue s)(h := w1),
       write_completed_queue := (write_completed_queue s)(h := write_completed_queue s h @ d1)\<rparr>" using A by blast
    obtain o2 q2 st2 w2 where s': "s' = t\<lparr>os := o2, qs := q2, send_status := st2, write_queue := (write_queue t)(h := w2),
       write_completed_queue := (write_completed_queue t)(h := write_completed_queue t h @ d2)\<rparr>" using B by blast
    show ?thesis unfolding s' t by simp
  qed
  have un: "filter (\<lambda>r. \<not> isl (send_status s' r)) d1 = filter (\<lambda>r. \<not> isl (send_status t r)) d1"
  proof (rule filter_cong [OF refl])
    fix r assume "r \<in> set d1"
    then have "r \<notin> set d2" using d q by auto
    then show "(\<not> isl (send_status s' r)) = (\<not> isl (send_status t r))" using B by simp
  qed
  have se: "sent (os s') = sent (os s) @ map (\<lambda>r. the (out_msg_of s r)) (filter (\<lambda>r. \<not> isl (send_status s' r)) (d1 @ d2))"
    using A B fa(5) un by simp
  show ?thesis unfolding udp_sends_def using fr q se A B by simp
qed

lemma sendmmsg_result:
  assumes "udp_send_laws K (io_fd s h) sent" and "distinct (write_queue s h)" and "\<forall>r \<in> set (write_queue s h). out_msg_of s r \<noteq> None"
  shows "\<exists>dn s'. uv__udp_sendmmsg K h s = Some s' \<and> udp_sends sent h dn s s'"
  using assms
proof (induction "length (write_queue s h)" arbitrary: s rule: less_induct)
  case less
  let ?q = "write_queue s h" and ?b = "take 20 (write_queue s h)"
  show ?case
  proof (cases "?q = []")
    case True
    then show ?thesis by (subst uv__udp_sendmmsg.simps) (simp add: udp_sends_def fun_upd_idem)
  next
    case False
    have bq: "\<forall>r \<in> set ?b. out_msg_of s r \<noteq> None" using less.prems(3) set_take_subset [of 20 ?q] by auto
    define msgs where "msgs = map (\<lambda>r. the (out_msg_of s r)) ?b"
    have th: "those (map (out_msg_of s) ?b) = Some msgs" unfolding msgs_def by (rule those_total [OF bq])
    have ne: "msgs \<noteq> []" using False by (simp add: msgs_def)
    obtain r w where r: "retry_eintr (k_sendmmsg K (io_fd s h) msgs) (os s) = Some (r, w)"
      "case r of Inl _ \<Rightarrow> sent w = sent (os s) | Inr n \<Rightarrow> 0 < n \<and> n \<le> length msgs \<and> sent w = sent (os s) @ take n msgs"
      using less.prems(1) ne unfolding udp_send_laws_def by blast
    let ?s = "s\<lparr>os := w\<rparr>"
    have sp: "sys_prog (retry_eintr (k_sendmmsg K (io_fd s h) msgs)) s = Some (r, ?s)" using r(1) by (simp add: sys_prog_def)
    show ?thesis
    proof (cases r)
      case (Inl e)
      have run: "uv__udp_sendmmsg K h s = (if e = UV_EAGAIN \<or> e = UV_ENOBUFS then Some ?s
          else Some (uv__io_feed h (complete_requests h (\<lambda>_. Inl e) ?b ?s)))"
        unfolding uv__udp_sendmmsg.simps [of K h s] if_not_P [OF False] Let_def th bind.bind_lunit sp prod.case Inl sum.case by (rule refl)
      show ?thesis
      proof (cases "e = UV_EAGAIN \<or> e = UV_ENOBUFS")
        case True
        have "udp_sends sent h [] s ?s" using r(2) Inl by (simp add: udp_sends_def fun_upd_idem)
        then show ?thesis using run True by auto
      next
        case False
        have q: "write_queue ?s h = ?b @ drop 20 ?q" by simp
        have "udp_sends sent h ?b s (uv__io_feed h (complete_requests h (\<lambda>_. Inl e) ?b ?s))"
          unfolding complete_requests_eq [OF q] using r(2) Inl by (simp add: udp_sends_def uv__io_feed_def filter_False)
        then show ?thesis using run False by auto
      qed
    next
      case (Inr n)
      have n: "0 < n" "n \<le> length msgs" "sent w = sent (os s) @ take n msgs" using r(2) Inr by simp_all
      let ?d = "take n ?q"
      have d: "write_queue ?s h = ?d @ drop n ?q" by simp
      define t where "t = complete_requests h (first_len ?s) ?d ?s"
      have te: "t = ?s\<lparr>send_status := (\<lambda>r. if r \<in> set ?d then first_len ?s r else send_status ?s r), write_queue := (write_queue ?s)(h := drop n ?q),
          write_completed_queue := (write_completed_queue ?s)(h := write_completed_queue ?s h @ ?d)\<rparr>"
        unfolding t_def by (rule complete_requests_eq [OF d])
      have run: "uv__udp_sendmmsg K h s = (if write_queue t h \<noteq> [] then uv__udp_sendmmsg K h t else Some (uv__io_feed h t))"
      proof -
        have w: "write_queue ?s h = ?q" by simp
        show ?thesis
          unfolding uv__udp_sendmmsg.simps [of K h s] if_not_P [OF False] Let_def th bind.bind_lunit sp prod.case Inr sum.case
            t_def [symmetric] w using n(1) by simp
      qed
      have tk: "take n msgs = map (\<lambda>r. the (out_msg_of s r)) ?d"
      proof -
        have "n \<le> 20" using n(2) by (simp add: msgs_def)
        then show ?thesis by (simp add: msgs_def take_map min_def)
      qed
      have all: "filter (\<lambda>r. \<not> isl (send_status t r)) ?d = ?d" by (simp add: te first_len_def cong: filter_cong)
      have st: "udp_sends sent h ?d s t"
        unfolding udp_sends_def all using n(3) tk by (simp add: te)
      show ?thesis
      proof (cases "write_queue t h = []")
        case True
        have "udp_sends sent h [] t (uv__io_feed h t)" by (simp add: udp_sends_def uv__io_feed_def fun_upd_idem)
        from udp_sends_trans [OF st this less.prems(2)] have "udp_sends sent h ?d s (uv__io_feed h t)" by simp
        then show ?thesis using run True by auto
      next
        case False
        note ft = udp_sends_fields [OF st]
        have q: "write_queue t h = drop n ?q" by (simp add: te)
        have lt: "length (write_queue t h) < length ?q" using n(1) \<open>?q \<noteq> []\<close> q by simp
        have L: "udp_send_laws K (io_fd t h) sent" using less.prems(1) ft by simp
        have dt: "distinct (write_queue t h)" using less.prems(2) q by simp
        have ot: "\<forall>r \<in> set (write_queue t h). out_msg_of t r \<noteq> None" using less.prems(3) q set_drop_subset [of n ?q] ft(5) by auto
        obtain d2 s' where s': "uv__udp_sendmmsg K h t = Some s'" "udp_sends sent h d2 t s'"
          using less.hyps [OF lt L dt ot] by blast
        then show ?thesis using run False udp_sends_trans [OF st s'(2) less.prems(2)] by auto
      qed
    qed
  qed
qed

lemma sendmsg_loop_result:
  assumes "udp_send_laws K (io_fd s h) sent" and "distinct (write_queue s h)" and "\<forall>r \<in> set (write_queue s h). out_msg_of s r \<noteq> None"
  shows "\<exists>dn s'. sendmsg_loop K h s = Some s' \<and> udp_sends sent h dn s s'"
  using assms
proof (induction "length (write_queue s h)" arbitrary: s rule: less_induct)
  case less
  show ?case
  proof (cases "write_queue s h")
    case Nil
    then show ?thesis by (subst sendmsg_loop.simps) (simp add: udp_sends_def fun_upd_idem)
  next
    case (Cons req rest)
    obtain m where m: "out_msg_of s req = Some m" using less.prems(3) Cons by auto
    obtain r w where r: "retry_eintr (k_sendmsg_to K (io_fd s h) m) (os s) = Some (r, w)"
      "sent w = (case r of Inl _ \<Rightarrow> sent (os s) | Inr _ \<Rightarrow> sent (os s) @ [m])"
      using less.prems(1) unfolding udp_send_laws_def by blast
    let ?s = "s\<lparr>os := w\<rparr>"
    have sp: "sys_prog (retry_eintr (k_sendmsg_to K (io_fd s h) m)) s = Some (r, ?s)" using r(1) by (simp add: sys_prog_def)
    have ne: "write_queue s h \<noteq> []" and hd: "hd (write_queue s h) = req" using Cons by simp_all
    define t where "t = uv__io_feed h (complete_requests h (\<lambda>_. r) [req] ?s)"
    have run: "sendmsg_loop K h s = (if r = Inl UV_EAGAIN \<or> r = Inl UV_ENOBUFS then Some ?s else sendmsg_loop K h t)"
      unfolding sendmsg_loop.simps [of K h s] if_not_P [OF ne] Let_def hd m bind.bind_lunit sp prod.case t_def by (rule refl)
    show ?thesis
    proof (cases "r = Inl UV_EAGAIN \<or> r = Inl UV_ENOBUFS")
      case True
      have "udp_sends sent h [] s ?s" using r(2) True by (auto simp: udp_sends_def fun_upd_idem)
      then show ?thesis using run True by auto
    next
      case False
      have d: "write_queue ?s h = [req] @ rest" using Cons by simp
      have st: "udp_sends sent h [req] s t"
        unfolding t_def complete_requests_eq [OF d] using r(2) m Cons
        by (cases r) (simp_all add: udp_sends_def uv__io_feed_def)
      note ft = udp_sends_fields [OF st]
      have q: "write_queue t h = rest" using st Cons by (simp add: udp_sends_def)
      have lt: "length (write_queue t h) < length (write_queue s h)" using q Cons by simp
      have L: "udp_send_laws K (io_fd t h) sent" using less.prems(1) ft by simp
      have dt: "distinct (write_queue t h)" using less.prems(2) q Cons by simp
      have ot: "\<forall>r \<in> set (write_queue t h). out_msg_of t r \<noteq> None" using less.prems(3) q Cons ft(5) by auto
      obtain d2 s' where s': "sendmsg_loop K h t = Some s'" "udp_sends sent h d2 t s'"
        using less.hyps [OF lt L dt ot] by blast
      then show ?thesis using run False udp_sends_trans [OF st s'(2) less.prems(2)] by auto
    qed
  qed
qed


text \<open>
  C20: \<open>uv__udp_sendmsg\<close> returns, whether it sends with \<open>sendmmsg\<close> or one message at a time, and takes requests from
  the head of the write queue to the end of the completed queue, keeping their order.  The
  datagrams of those that are reported as sent have been given to the kernel, whole, once and in
  order; those of the requests that failed have not, and what stays queued is untouched.
\<close>

theorem udp_sends_each_datagram_once:
  assumes "udp_send_laws K (io_fd s h) sent" and "mmsg_once s" and "distinct (write_queue s h)"
    and "\<forall>r \<in> set (write_queue s h). out_msg_of s r \<noteq> None"
  shows "\<exists>dn s'. uv__udp_sendmsg K h s = Some s' \<and> write_queue s h = dn @ write_queue s' h \<and>
    write_completed_queue s' h = write_completed_queue s h @ dn \<and>
    sent (os s') = sent (os s) @ map (\<lambda>r. the (out_msg_of s r)) (filter (\<lambda>r. \<not> isl (send_status s' r)) dn) \<and>
    (\<forall>r. r \<notin> set dn \<longrightarrow> send_status s' r = send_status s r)"
proof -
  have "\<exists>dn s'. uv__udp_sendmsg K h s = Some s' \<and> udp_sends sent h dn s s'"
    using sendmmsg_result [OF assms(1,3,4)] sendmsg_loop_result [OF assms(1,3,4)] assms(2)
    by (auto simp: uv__udp_sendmsg_def mmsg_init_once_def)
  then obtain dn s' where s': "uv__udp_sendmsg K h s = Some s'" "udp_sends sent h dn s s'" by blast
  then show ?thesis using udp_sends_fields(4) [OF s'(2)] s'(2) [unfolded udp_sends_def] by blast
qed

section \<open>What is reported\<close>

definition private_udp :: "('w, 'a) udp_loop_scheme udp_calls \<Rightarrow> (nat \<Rightarrow> addr \<Rightarrow> status \<Rightarrow> 'a \<Rightarrow> 'a) \<Rightarrow> bool" where
  "private_udp U see \<longleftrightarrow> (\<forall>cb req st s. udp_sent U cb req st s = Some (s\<lparr>udp_loop.more := see cb req st (udp_loop.more s)\<rparr>))"

text \<open>The requests of a handle: counted, each with its buffers.\<close>

definition udp_ok :: "addr \<Rightarrow> ('w, 'a) udp_loop_scheme \<Rightarrow> bool" where
  "udp_ok h s \<longleftrightarrow> (let q = write_completed_queue s h @ write_queue s h in
     distinct q \<and> (\<forall>r \<in> set q. w_bufs s r \<noteq> None) \<and>
     send_queue_count s h = of_nat (length q) \<and>
     send_queue_size s h = (\<Sum>r \<leftarrow> q. uv__count_bufs (the (w_bufs s r))) \<and>
     length q \<le> unat (active_reqs s))"

definition report :: "(nat \<Rightarrow> addr \<Rightarrow> status \<Rightarrow> 'a \<Rightarrow> 'a) \<Rightarrow> ('w, 'a) udp_loop_scheme \<Rightarrow> addr \<Rightarrow> 'a \<Rightarrow> 'a" where
  "report see s r a = (case req_cb s r of
     None \<Rightarrow> a | Some cb \<Rightarrow> see cb r (case send_status s r of Inr _ \<Rightarrow> None | Inl e \<Rightarrow> Some e) a)"

lemma run_completed_loop_result:
  assumes "udp_ok h s" and "private_udp U see"
  shows "\<exists>s'. run_completed_loop U h s = Some s' \<and> udp_ok h s' \<and>
    s' = s\<lparr>active_reqs := active_reqs s', write_completed_queue := (write_completed_queue s)(h := []),
      send_queue_size := send_queue_size s', send_queue_count := send_queue_count s', w_bufs := w_bufs s',
      udp_loop.more := fold (report see s) (write_completed_queue s h) (udp_loop.more s)\<rparr> \<and>
    unat (active_reqs s') = unat (active_reqs s) - length (write_completed_queue s h)"
  using assms(1)
proof (induction "write_completed_queue s h" arbitrary: s)
  case Nil
  have "run_completed_loop U h s = Some s" by (subst run_completed_loop.simps) (simp add: Nil(1) [symmetric])
  then show ?case using Nil by (intro exI [of _ s]) (simp add: fun_upd_idem)
next
  case (Cons req rest)
  note cq = Cons.hyps(2) [symmetric]
  note ok = Cons.prems [unfolded udp_ok_def Let_def cq]
  obtain bufs where bufs: "w_bufs s req = Some bufs" using ok by auto
  define s1 where "s1 = s\<lparr>write_completed_queue := (write_completed_queue s)(h := rest), active_reqs := active_reqs s - 1,
    send_queue_size := (send_queue_size s)(h := send_queue_size s h - uv__count_bufs bufs),
    send_queue_count := (send_queue_count s)(h := send_queue_count s h - 1), w_bufs := (w_bufs s)(req := None)\<rparr>"
  define t where "t = s1\<lparr>udp_loop.more := report see s req (udp_loop.more s)\<rparr>"
  have ar: "active_reqs s > 0" "unat (active_reqs s - 1) = unat (active_reqs s) - 1"
  proof -
    have "active_reqs s \<noteq> 0" using ok by auto
    then show "active_reqs s > 0" "unat (active_reqs s - 1) = unat (active_reqs s) - 1"
      by (simp_all add: word_gt_0 unat_minus_one)
  qed
  have un: "uv__req_unregister (s\<lparr>write_completed_queue := (write_completed_queue s)(h := rest)\<rparr>) =
      Some (s\<lparr>write_completed_queue := (write_completed_queue s)(h := rest), active_reqs := active_reqs s - 1\<rparr>)"
    using ar(1) by (simp add: uv__req_unregister_def uv__has_active_reqs_def)
  have run: "run_completed_loop U h s = run_completed_loop U h t"
  proof -
    define u where "u = s\<lparr>write_completed_queue := (write_completed_queue s)(h := rest), active_reqs := active_reqs s - 1\<rparr>"
    have b: "w_bufs u req = Some bufs" using bufs by (simp add: u_def)
    have eq: "u\<lparr>send_queue_size := (send_queue_size u)(h := send_queue_size u h - uv__count_bufs bufs),
         send_queue_count := (send_queue_count u)(h := send_queue_count u h - 1), w_bufs := (w_bufs u)(req := None)\<rparr> = s1"
      by (simp add: s1_def u_def)
    have cb: "(case req_cb s1 req of None \<Rightarrow> Some s1
        | Some cb \<Rightarrow> udp_sent U cb req (case send_status s1 req of Inr _ \<Rightarrow> None | Inl e \<Rightarrow> Some e) s1) = Some t"
    proof (cases "req_cb s req")
      case None
      then have "t = s1" by (simp add: t_def report_def s1_def)
      then show ?thesis using None by (simp add: s1_def)
    next
      case (Some cb)
      then show ?thesis using assms(2) by (simp add: private_udp_def t_def report_def s1_def)
    qed
    show ?thesis
      unfolding run_completed_loop.simps [of U h s] cq list.case un [folded u_def] bind.bind_lunit b Let_def eq cb by (rule refl)
  qed
  have q: "write_completed_queue t h = rest" "write_queue t = write_queue s" "w_bufs t = (w_bufs s)(req := None)"
    "send_queue_size t h = send_queue_size s h - uv__count_bufs bufs" "send_queue_count t h = send_queue_count s h - 1"
    "active_reqs t = active_reqs s - 1"
    by (simp_all add: t_def s1_def)
  have sum: "(\<Sum>r \<leftarrow> rest @ write_queue s h. uv__count_bufs (the (((w_bufs s)(req := None)) r))) =
      (\<Sum>r \<leftarrow> rest @ write_queue s h. uv__count_bufs (the (w_bufs s r)))"
    using ok by (intro arg_cong [where f = sum_list] map_cong refl) auto
  have okt: "udp_ok h t"
    unfolding udp_ok_def Let_def q sum using ok bufs ar(2) by (auto simp: algebra_simps)
  obtain s' where s': "run_completed_loop U h t = Some s'" "udp_ok h s'"
    "s' = t\<lparr>active_reqs := active_reqs s', write_completed_queue := (write_completed_queue t)(h := []),
      send_queue_size := send_queue_size s', send_queue_count := send_queue_count s', w_bufs := w_bufs s',
      udp_loop.more := fold (report see t) (write_completed_queue t h) (udp_loop.more t)\<rparr>"
    "unat (active_reqs s') = unat (active_reqs t) - length (write_completed_queue t h)"
    using Cons.hyps(1) [OF q(1) [symmetric] okt] by blast
  have "req_cb t = req_cb s" "send_status t = send_status s" by (simp_all add: t_def s1_def)
  then have rep: "report see t = report see s" by (intro ext) (simp only: report_def)
  have mo: "fold (report see t) (write_completed_queue t h) (udp_loop.more t) =
      fold (report see s) (write_completed_queue s h) (udp_loop.more s)"
    unfolding rep q(1) cq by (simp add: t_def)
  have "s' = s\<lparr>active_reqs := active_reqs s', write_completed_queue := (write_completed_queue s)(h := []),
      send_queue_size := send_queue_size s', send_queue_count := send_queue_count s', w_bufs := w_bufs s',
      udp_loop.more := fold (report see s) (write_completed_queue s h) (udp_loop.more s)\<rparr>"
    by (subst s'(3), subst mo) (simp add: t_def s1_def)
  moreover have "unat (active_reqs s') = unat (active_reqs s) - length (write_completed_queue s h)"
    using s'(4) ar q(6) cq q(1) by simp
  ultimately show ?case using run s'(1,2) by auto
qed


text \<open>
  C21: \<open>uv__udp_finish_close\<close> returns, no assertion of it fails, and every request of the handle that has a
  callback hears of its end once: first those that were completed, with their status, then those
  still in the write queue, with \<open>UV_ECANCELED\<close>, each in the order it was queued.  Afterwards both queues
  are empty, their size and count are 0, the loop counts none of the requests any more, and there is
  no callback to receive with.
\<close>

theorem udp_close_reports_every_request:
  assumes "udp_ok h s" and "private_udp U see" and "io_fd s h = -1" and "io_pevents s h AND (POLLIN OR POLLOUT) = 0"
    and "\<not> has_flag s h UV_HANDLE_UDP_PROCESSING"
  shows "\<exists>s'. uv__udp_finish_close U h s = Some s' \<and>
    udp_loop.more s' = fold (\<lambda>r a. case req_cb s r of
        None \<Rightarrow> a
      | Some cb \<Rightarrow> see cb r (if r \<in> set (write_queue s h) then Some UV_ECANCELED
                          else case send_status s r of Inr _ \<Rightarrow> None | Inl e \<Rightarrow> Some e) a)
      (write_completed_queue s h @ write_queue s h) (udp_loop.more s) \<and>
    write_queue s' h = [] \<and> write_completed_queue s' h = [] \<and> send_queue_size s' h = 0 \<and> send_queue_count s' h = 0 \<and>
    unat (active_reqs s') = unat (active_reqs s) - length (write_completed_queue s h @ write_queue s h) \<and>
    recv_cb s' h = None \<and> alloc_cb s' h = None"
proof -
  define s1 where "s1 = complete_requests h (\<lambda>_. Inl UV_ECANCELED) (write_queue s h) s"
  have s1: "s1 = s\<lparr>send_status := (\<lambda>r. if r \<in> set (write_queue s h) then Inl UV_ECANCELED else send_status s r),
      write_queue := (write_queue s)(h := []), write_completed_queue := (write_completed_queue s)(h := write_completed_queue s h @ write_queue s h)\<rparr>"
    unfolding s1_def by (rule complete_requests_eq) simp
  define s2 where "s2 = set_flag h UV_HANDLE_UDP_PROCESSING s1"
  have f2: "write_completed_queue s2 h = write_completed_queue s h @ write_queue s h" "write_queue s2 h = []"
    "w_bufs s2 = w_bufs s" "send_queue_count s2 = send_queue_count s" "send_queue_size s2 = send_queue_size s" "active_reqs s2 = active_reqs s"
    "req_cb s2 = req_cb s" "send_status s2 = (\<lambda>r. if r \<in> set (write_queue s h) then Inl UV_ECANCELED else send_status s r)"
    "udp_loop.more s2 = udp_loop.more s" "io_fd s2 = io_fd s" "io_pevents s2 = io_pevents s"
    by (simp_all add: s2_def s1 set_flag_def)
  have ok2: "udp_ok h s2" using assms(1) unfolding udp_ok_def Let_def f2 by simp
  obtain s3 where s3: "run_completed_loop U h s2 = Some s3" "udp_ok h s3"
    "s3 = s2\<lparr>active_reqs := active_reqs s3, write_completed_queue := (write_completed_queue s2)(h := []),
      send_queue_size := send_queue_size s3, send_queue_count := send_queue_count s3, w_bufs := w_bufs s3,
      udp_loop.more := fold (report see s2) (write_completed_queue s2 h) (udp_loop.more s2)\<rparr>"
    "unat (active_reqs s3) = unat (active_reqs s2) - length (write_completed_queue s2 h)"
    using run_completed_loop_result [OF ok2 assms(2)] by blast
  have f3: "write_completed_queue s3 h = []" "write_queue s3 h = []" "io_fd s3 h = -1" "io_pevents s3 = io_pevents s"
    "udp_loop.more s3 = fold (report see s2) (write_completed_queue s2 h) (udp_loop.more s2)"
    by (subst s3(3); simp add: f2 assms(3))+
  have z: "send_queue_size s3 h = 0" "send_queue_count s3 h = 0" using s3(2) f3 by (simp_all add: udp_ok_def Let_def)
  define s4 where "s4 = (if io_pevents s h AND POLLIN = 0 then uv__handle_stop h s3 else s3)"
  have stop: "uv__io_stop h POLLOUT s3 = Some s3" using f3(3) by (simp add: uv__io_stop_def)
  have act: "uv__io_active s3 h POLLIN = Some (io_pevents s h AND POLLIN \<noteq> 0)" using f3(4) by (simp add: uv__io_active_def)
  have pr: "\<not> has_flag s1 h UV_HANDLE_UDP_PROCESSING" using assms(5) by (simp add: s1 has_flag_def)
  let ?s5 = "clear_flag h UV_HANDLE_UDP_PROCESSING s4"
  have run: "uv__udp_run_completed U h s1 = Some ?s5"
    unfolding uv__udp_run_completed_def s2_def [symmetric] s3(1) using pr f3(2) stop act by (simp add: s4_def)
  have f5: "send_queue_size ?s5 = send_queue_size s3" "send_queue_count ?s5 = send_queue_count s3" "active_reqs ?s5 = active_reqs s3"
    "write_queue ?s5 = write_queue s3" "write_completed_queue ?s5 = write_completed_queue s3" "udp_loop.more ?s5 = udp_loop.more s3"
    by (simp_all add: s4_def handle_defs clear_flag_def)
  have fin: "uv__udp_finish_close U h s = Some (?s5\<lparr>recv_cb := (recv_cb ?s5)(h := None), alloc_cb := (alloc_cb ?s5)(h := None)\<rparr>)"
  proof -
    have a: "uv__io_active s h (POLLIN OR POLLOUT) = Some False" using assms(4) by (simp add: uv__io_active_def)
    have b: "uv_assert (io_fd s h = -1) = Some ()" "uv_assert (send_queue_size ?s5 h = 0) = Some ()"
      "uv_assert (send_queue_count ?s5 h = 0) = Some ()" "uv_assert (\<not> False) = Some ()"
      using assms(3) z f5 by simp_all
    show ?thesis
      unfolding uv__udp_finish_close_def a bind.bind_lunit b s1_def [symmetric] run by (rule refl)
  qed
  have rep: "report see s2 = (\<lambda>r a. case req_cb s r of
        None \<Rightarrow> a
      | Some cb \<Rightarrow> see cb r (if r \<in> set (write_queue s h) then Some UV_ECANCELED
                          else case send_status s r of Inr _ \<Rightarrow> None | Inl e \<Rightarrow> Some e) a)"
    by (auto simp: report_def f2(7,8) fun_eq_iff split: option.split)
  show ?thesis
    unfolding fin using f5 f3 z s3(4) f2(1,6,9) rep by simp
qed


section \<open>What is received\<close>

text \<open>
  The kernel: \<open>inbox w\<close> are the datagrams that have arrived, with their senders.  A call that receives may fail with any
  error and then takes nothing; \<open>EAGAIN\<close> says that there is nothing.  A datagram that does not fit is cut off.
\<close>

abbreviation received :: "nat \<Rightarrow> string \<times> sockaddr \<Rightarrow> in_msg" where
  "received sz \<equiv> \<lambda>(d, p). (take sz d, p, sz < length d)"

definition udp_recv_laws :: "'w udp_kernel \<Rightarrow> int \<Rightarrow> ('w \<Rightarrow> (string \<times> sockaddr) list) \<Rightarrow> bool" where
  "udp_recv_laws K fd inbox \<longleftrightarrow>
     (\<forall>cap w. \<exists>r w'. retry_eintr (k_recvmsg_from K fd cap) w = Some (r, w') \<and>
        (case r of Inl e \<Rightarrow> inbox w' = inbox w \<and> (e = UV_EAGAIN \<longrightarrow> inbox w = [])
         | Inr m \<Rightarrow> inbox w \<noteq> [] \<and> m = received cap (hd (inbox w)) \<and> inbox w' = tl (inbox w))) \<and>
     (\<forall>n w. 0 < n \<longrightarrow> (\<exists>r w'. retry_eintr (k_recvmmsg K fd n) w = Some (r, w') \<and>
        (case r of Inl e \<Rightarrow> inbox w' = inbox w \<and> (e = UV_EAGAIN \<longrightarrow> inbox w = [])
         | Inr ms \<Rightarrow> (\<exists>k. 0 < k \<and> k \<le> n \<and> k \<le> length (inbox w) \<and>
             ms = map (received UV__UDP_DGRAM_MAXSIZE) (take k (inbox w)) \<and> inbox w' = drop k (inbox w)))))"

text \<open>
  The user: the allocation gives the same buffer each time, or none, and the callback looks at its arguments and
  leaves the handle as it is.  A call of it has a result, a sender if it shows a datagram, and flags.
\<close>

type_synonym recv_call = "(uv_errno + string) \<times> sockaddr option \<times> u32"

definition looks_at ::
  "('w, 'a) udp_loop_scheme udp_calls \<Rightarrow> nat option \<Rightarrow> (nat \<Rightarrow> recv_call \<Rightarrow> 'a \<Rightarrow> 'a) \<Rightarrow> bool" where
  "looks_at U cap see \<longleftrightarrow> (\<forall>a h s. udp_alloc U a h s = Some (cap, s)) \<and>
     (\<forall>cb h r p fl s. udp_recv U cb h r p fl s = Some (s\<lparr>udp_loop.more := see cb (r, p, fl) (udp_loop.more s)\<rparr>))"

text \<open>The calls for a datagram, for one that is received with \<open>recvmmsg\<close>, and for an error.\<close>

definition shown :: "bool \<Rightarrow> nat \<Rightarrow> string \<times> sockaddr \<Rightarrow> recv_call" where
  "shown many sz = (\<lambda>(d, p). (Inr (take sz d), Some p,
     if many then (if sz < length d then UV_UDP_MMSG_CHUNK OR UV_UDP_PARTIAL else UV_UDP_MMSG_CHUNK)
     else (if sz < length d then UV_UDP_PARTIAL else 0)))"

definition failure :: "uv_errno \<Rightarrow> recv_call" where
  "failure e = (if e = UV_EAGAIN then Inr [] else Inl e, None, 0)"

text \<open>The calls show these datagrams, and else only give a buffer of \<open>recvmmsg\<close> back.\<close>

definition calls_show :: "bool \<Rightarrow> nat \<Rightarrow> (string \<times> sockaddr) list \<Rightarrow> recv_call list \<Rightarrow> bool" where
  "calls_show many sz msgs calls \<longleftrightarrow> filter (\<lambda>(r, p, fl). p \<noteq> None) calls = map (shown many sz) msgs \<and>
     (\<forall>c \<in> set calls. fst (snd c) = None \<longrightarrow> many \<and> c = (Inr [], None, UV_UDP_MMSG_FREE))"

lemma calls_show_append:
  "calls_show many sz a x \<Longrightarrow> calls_show many sz b y \<Longrightarrow> calls_show many sz (a @ b) (x @ y)"
  by (auto simp: calls_show_def)

text \<open>The world \<open>w\<close> is what a call that receives has left when it failed with \<open>e\<close>.\<close>

definition recv_failed :: "'w udp_kernel \<Rightarrow> int \<Rightarrow> bool \<Rightarrow> uv_errno \<Rightarrow> 'w \<Rightarrow> bool" where
  "recv_failed K fd many e w \<longleftrightarrow>
     (if many then \<exists>n w0. retry_eintr (k_recvmmsg K fd n) w0 = Some (Inl e, w)
      else \<exists>n w0. retry_eintr (k_recvmsg_from K fd n) w0 = Some (Inl e, w))"

lemma recv_chunks_result:
  assumes "looks_at U cap see" "recv_cb s h = Some cb"
  shows "recv_chunks U h (map (received sz) msgs) s =
    Some (s\<lparr>udp_loop.more := fold (see cb) (map (shown True sz) msgs) (udp_loop.more s)\<rparr>)"
  using assms(2)
proof (induction msgs arbitrary: s)
  case (Cons m msgs)
  obtain d p where m: "m = (d, p)" by (cases m)
  show ?case using Cons assms(1) by (simp add: m looks_at_def shown_def)
qed simp

text \<open>One round of the loop.\<close>

lemma recv_round:
  assumes L: "udp_recv_laws K (io_fd s h) inbox" and U: "looks_at U (Some cap) see" and cb: "recv_cb s h = Some cb"
    and cap: "0 < cap" "many \<Longrightarrow> 65536 \<le> cap"
  shows "\<exists>r calls k w. (if many then uv__udp_recvmmsg K U h cap s else recv_one K U h cap s) =
      Some (r, s\<lparr>os := w, udp_loop.more := fold (see cb) calls (udp_loop.more s)\<rparr>) \<and>
    inbox w = drop k (inbox (os s)) \<and> k \<le> length (inbox (os s)) \<and> k \<le> 20 \<and>
    (case r of Inl e \<Rightarrow> k = 0 \<and> calls = [failure e] \<and> recv_failed K (io_fd s h) many e w \<and> (e = UV_EAGAIN \<longrightarrow> inbox w = [])
     | Inr n \<Rightarrow> 0 < k \<and> (if many then n = k else k = 1) \<and>
         calls_show many (if many then 65536 else cap) (take k (inbox (os s))) calls)"
proof (cases many)
  case True
  define n where "n = (if cap div 65536 > 20 then 20 else cap div 65536)"
  have n: "0 < n" "n \<le> 20" using cap True by (simp_all add: n_def div_greater_zero_iff)
  obtain r w where r: "retry_eintr (k_recvmmsg K (io_fd s h) n) (os s) = Some (r, w)"
    "case r of Inl e \<Rightarrow> inbox w = inbox (os s) \<and> (e = UV_EAGAIN \<longrightarrow> inbox (os s) = [])
       | Inr ms \<Rightarrow> (\<exists>k. 0 < k \<and> k \<le> n \<and> k \<le> length (inbox (os s)) \<and>
           ms = map (received 65536) (take k (inbox (os s))) \<and> inbox w = drop k (inbox (os s)))"
    using L n(1) unfolding udp_recv_laws_def by blast
  let ?s = "s\<lparr>os := w\<rparr>"
  have sp: "sys_prog (retry_eintr (k_recvmmsg K (io_fd s h) n)) s = Some (r, ?s)" using r(1) by (simp add: sys_prog_def)
  have cb': "recv_cb ?s h = Some cb" using cb by simp
  show ?thesis
  proof (cases r)
    case (Inl e)
    have "uv__udp_recvmmsg K U h cap s = Some (Inl e, ?s\<lparr>udp_loop.more := see cb (failure e) (udp_loop.more ?s)\<rparr>)"
      using U cb' sp Inl unfolding uv__udp_recvmmsg_def Let_def n_def [symmetric] by (simp add: looks_at_def failure_def)
    then show ?thesis using True Inl r
      by (intro exI [of _ "Inl e"] exI [of _ "[failure e]"] exI [of _ 0] exI [of _ w]) (auto simp: recv_failed_def)
  next
    case (Inr ms)
    obtain k where k: "0 < k" "k \<le> n" "k \<le> length (inbox (os s))" "ms = map (received 65536) (take k (inbox (os s)))"
      "inbox w = drop k (inbox (os s))" using r(2) Inr by auto
    let ?c = "map (shown True 65536) (take k (inbox (os s))) @ [(Inr [], None, UV_UDP_MMSG_FREE)]"
    have len: "length ms = k" using k(3,4) by simp
    obtain m ms' where m: "ms = m # ms'" using len k(1) by (cases ms) auto
    have ch: "recv_chunks U h ms ?s = Some (?s\<lparr>udp_loop.more := fold (see cb) (map (shown True 65536) (take k (inbox (os s)))) (udp_loop.more ?s)\<rparr>)"
      unfolding k(4) by (rule recv_chunks_result [OF U cb'])
    have "uv__udp_recvmmsg K U h cap s = Some (Inr (length ms), ?s\<lparr>udp_loop.more := fold (see cb) ?c (udp_loop.more ?s)\<rparr>)"
      using U cb ch sp Inr unfolding m uv__udp_recvmmsg_def Let_def n_def [symmetric] by (simp add: looks_at_def)
    moreover have "calls_show True 65536 (take k (inbox (os s))) ?c"
      by (auto simp: calls_show_def shown_def filter_map o_def case_prod_beta)
    ultimately show ?thesis using True k len n(2)
      by (intro exI [of _ "Inr k"] exI [of _ ?c] exI [of _ k] exI [of _ w]) simp
  qed
next
  case False
  obtain r w where r: "retry_eintr (k_recvmsg_from K (io_fd s h) cap) (os s) = Some (r, w)"
    "case r of Inl e \<Rightarrow> inbox w = inbox (os s) \<and> (e = UV_EAGAIN \<longrightarrow> inbox (os s) = [])
       | Inr m \<Rightarrow> inbox (os s) \<noteq> [] \<and> m = received cap (hd (inbox (os s))) \<and> inbox w = tl (inbox (os s))"
    using L unfolding udp_recv_laws_def by blast
  have sp: "sys_prog (retry_eintr (k_recvmsg_from K (io_fd s h) cap)) s = Some (r, s\<lparr>os := w\<rparr>)" using r(1) by (simp add: sys_prog_def)
  show ?thesis
  proof (cases r)
    case (Inl e)
    have "recv_one K U h cap s = Some (Inl e, s\<lparr>os := w, udp_loop.more := see cb (failure e) (udp_loop.more s)\<rparr>)"
      using U cb sp Inl by (simp add: recv_one_def looks_at_def failure_def)
    then show ?thesis using False Inl r
      by (intro exI [of _ "Inl e"] exI [of _ "[failure e]"] exI [of _ 0] exI [of _ w]) (auto simp: recv_failed_def)
  next
    case (Inr m)
    obtain d p xs where x: "inbox (os s) = (d, p) # xs" using r(2) Inr by (cases "inbox (os s)") auto
    have m: "m = (take cap d, p, cap < length d)" "inbox w = xs" using r(2) Inr x by simp_all
    have "recv_one K U h cap s = Some (Inr (length (take cap d)), s\<lparr>os := w, udp_loop.more := see cb (shown False cap (d, p)) (udp_loop.more s)\<rparr>)"
      using U cb sp Inr by (simp add: recv_one_def looks_at_def m shown_def)
    moreover have "calls_show False cap [(d, p)] [shown False cap (d, p)]" by (simp add: calls_show_def shown_def)
    ultimately show ?thesis using False x m(2)
      by (intro exI [of _ "Inr (length (take cap d))"] exI [of _ "[shown False cap (d, p)]"] exI [of _ 1] exI [of _ w]) simp
  qed
qed

definition no_buffer :: "nat option \<Rightarrow> bool" where "no_buffer cap \<longleftrightarrow> cap = None \<or> cap = Some 0"

lemma recv_loop_result:
  assumes "udp_recv_laws K (io_fd s h) inbox" and U: "looks_at U cap see" and "recv_cb s h = Some cb" and "alloc_cb s h \<noteq> None"
    and "mmsg_once s" and "io_fd s h \<noteq> -1" and "0 < cnt"
    and "many \<longleftrightarrow> has_flag s h UV_HANDLE_UDP_RECVMMSG \<and> recvmmsg_avail s" and room: "many \<Longrightarrow> no_buffer cap \<or> 65536 \<le> the cap"
  shows "\<exists>calls k e w. recv_loop K U h cnt s =
      Some (s\<lparr>os := w, udp_loop.more := fold (see cb) (calls @ (if int k < cnt then [failure e] else [])) (udp_loop.more s)\<rparr>) \<and>
    inbox w = drop k (inbox (os s)) \<and> k \<le> length (inbox (os s)) \<and> int k < cnt + 20 \<and>
    calls_show many (if many then 65536 else the cap) (take k (inbox (os s))) calls \<and>
    (int k < cnt \<longrightarrow> (if no_buffer cap then e = UV_ENOBUFS else recv_failed K (io_fd s h) many e w \<and> (e = UV_EAGAIN \<longrightarrow> inbox w = [])))"
  using assms(1,3-8)
proof (induction "nat cnt" arbitrary: cnt s rule: less_induct)
  case less
  obtain acb where acb: "alloc_cb s h = Some acb" using less.prems(3) by auto
  have al: "udp_alloc U acb h s = Some (cap, s)" and rv: "udp_recv U c h r p fl s = Some (s\<lparr>udp_loop.more := see c (r, p, fl) (udp_loop.more s)\<rparr>)"
    for c r p fl using U by (simp_all add: looks_at_def)
  have us: "uv_udp_using_recvmmsg K h s = Some (many, s)"
    using less.prems(4,7) by (simp add: uv_udp_using_recvmmsg_def mmsg_init_once_def)
  show ?case
  proof (cases "no_buffer cap")
    case True
    have "recv_loop K U h cnt s = Some (s\<lparr>udp_loop.more := see cb (failure UV_ENOBUFS) (udp_loop.more s)\<rparr>)"
      using True less.prems(2) unfolding recv_loop.simps [of K U h cnt s] acb bind.bind_lunit al prod.case no_buffer_def
      by (simp add: rv failure_def)
    moreover have "calls_show many (if many then 65536 else the cap) [] []" by (simp add: calls_show_def)
    ultimately show ?thesis using True less.prems(6)
      by (intro exI [of _ "[]"] exI [of _ 0] exI [of _ UV_ENOBUFS] exI [of _ "os s"]) simp
  next
    case has: False
    then obtain c where c: "cap = Some c" "0 < c" by (cases cap) (auto simp: no_buffer_def)
    obtain r calls k w where r: "(if many then uv__udp_recvmmsg K U h c s else recv_one K U h c s) =
        Some (r, s\<lparr>os := w, udp_loop.more := fold (see cb) calls (udp_loop.more s)\<rparr>)"
      "inbox w = drop k (inbox (os s))" "k \<le> length (inbox (os s))" "k \<le> 20"
      "case r of Inl e \<Rightarrow> k = 0 \<and> calls = [failure e] \<and> recv_failed K (io_fd s h) many e w \<and> (e = UV_EAGAIN \<longrightarrow> inbox w = [])
       | Inr n \<Rightarrow> 0 < k \<and> (if many then n = k else k = 1) \<and>
           calls_show many (if many then 65536 else c) (take k (inbox (os s))) calls"
      using recv_round [OF less.prems(1) U [unfolded c(1)] less.prems(2) c(2), of many] room c has by auto
    let ?t = "s\<lparr>os := w, udp_loop.more := fold (see cb) calls (udp_loop.more s)\<rparr>"
    define cnt' where "cnt' = (if many then (case r of Inr n \<Rightarrow> cnt - int n | Inl _ \<Rightarrow> cnt) else cnt - 1)"
    have ncap: "\<not> (Some c = None \<or> Some c = Some 0)" using c(2) by simp
    have run: "recv_loop K U h cnt s = (if \<not> isl r \<and> cnt' > 0 \<and> io_fd ?t h \<noteq> -1 \<and> recv_cb ?t h \<noteq> None then recv_loop K U h cnt' ?t else Some ?t)"
      unfolding recv_loop.simps [of K U h cnt s] acb bind.bind_lunit al c(1) prod.case if_not_P [OF ncap] us option.sel r(1) Let_def
        cnt'_def [symmetric] by (rule refl)
    show ?thesis
    proof (cases r)
      case (Inl e)
      have "recv_loop K U h cnt s = Some ?t" using run Inl by simp
      moreover have "calls_show many (if many then 65536 else c) [] []" by (simp add: calls_show_def)
      moreover have "k = 0" "calls = [failure e]" "recv_failed K (io_fd s h) many e w" "e = UV_EAGAIN \<longrightarrow> inbox w = []"
        using r(5) Inl by simp_all
      ultimately show ?thesis using r(2) less.prems(6) has c(1)
        by (intro exI [of _ "[]"] exI [of _ 0] exI [of _ e] exI [of _ w]) (auto simp del: take_0)
    next
      case (Inr n)
      have k: "0 < k" "\<not> isl r" "cnt' = cnt - int k" "calls_show many (if many then 65536 else c) (take k (inbox (os s))) calls"
        using r(5) Inr by (auto simp: cnt'_def split: if_splits)
      show ?thesis
      proof (cases "cnt' > 0")
        case False
        then have "recv_loop K U h cnt s = Some ?t" using run by simp
        then show ?thesis using r(2-4) k less.prems(6) False c(1)
          by (intro exI [of _ calls] exI [of _ k] exI [of _ UV_EAGAIN] exI [of _ w]) (cases many; simp)
      next
        case True
        have lt: "nat cnt' < nat cnt" using k less.prems(6) by simp
        have same: "has_flag ?t h UV_HANDLE_UDP_RECVMMSG = has_flag s h UV_HANDLE_UDP_RECVMMSG" by (rule has_flag_frame) simp
        have "udp_recv_laws K (io_fd ?t h) inbox" "recv_cb ?t h = Some cb" "alloc_cb ?t h \<noteq> None" "mmsg_once ?t" "io_fd ?t h \<noteq> -1"
          "many \<longleftrightarrow> has_flag ?t h UV_HANDLE_UDP_RECVMMSG \<and> recvmmsg_avail ?t"
          using less.prems same by simp_all
        from less.hyps [OF lt this(1-5) True this(6)]
        obtain calls2 k2 e w2 where k2: "recv_loop K U h cnt' ?t =
            Some (?t\<lparr>os := w2, udp_loop.more := fold (see cb) (calls2 @ (if int k2 < cnt' then [failure e] else [])) (udp_loop.more ?t)\<rparr>)"
          "inbox w2 = drop k2 (inbox (os ?t))" "k2 \<le> length (inbox (os ?t))" "int k2 < cnt' + 20"
          "calls_show many (if many then 65536 else the cap) (take k2 (inbox (os ?t))) calls2"
          "int k2 < cnt' \<longrightarrow> (if no_buffer cap then e = UV_ENOBUFS else recv_failed K (io_fd ?t h) many e w2 \<and> (e = UV_EAGAIN \<longrightarrow> inbox w2 = []))"
          by blast
        have "take (k + k2) (inbox (os s)) = take k (inbox (os s)) @ take k2 (inbox w)" using r(2) by (simp add: take_add)
        then have sh: "calls_show many (if many then 65536 else the cap) (take (k + k2) (inbox (os s))) (calls @ calls2)"
          using calls_show_append [OF k(4), of "take k2 (inbox w)" calls2] k2(5) c(1) by (cases many) simp_all
        have fdt: "io_fd ?t h = io_fd s h" by simp
        have lt2: "int (k + k2) < cnt \<longleftrightarrow> int k2 < cnt'" using k(3) by linarith
        have "recv_loop K U h cnt s = Some (s\<lparr>os := w2, udp_loop.more :=
            fold (see cb) ((calls @ calls2) @ (if int (k + k2) < cnt then [failure e] else [])) (udp_loop.more s)\<rparr>)"
          unfolding lt2 using run True k(2) k2(1) less.prems(2,5) by simp
        moreover have "inbox w2 = drop (k + k2) (inbox (os s))" "k + k2 \<le> length (inbox (os s))" "int (k + k2) < cnt + 20"
          using k2(2-4) r(2,3) k(3) by (simp_all add: add.commute)
        moreover have "int (k + k2) < cnt \<longrightarrow> (if no_buffer cap then e = UV_ENOBUFS
            else recv_failed K (io_fd s h) many e w2 \<and> (e = UV_EAGAIN \<longrightarrow> inbox w2 = []))"
          unfolding lt2 using k2(6) [unfolded fdt] .
        ultimately show ?thesis using sh by blast
      qed
    qed
  qed
qed

text \<open>
  C22: \<open>uv__udp_recvmsg\<close> returns after at most 51 datagrams, with \<open>recvmmsg\<close> and without, whatever errors the system
  calls have.  The calls of the callback show the datagrams that have arrived, each once and in their order, cut off at
  the size of the buffer and then with \<open>UV_UDP_PARTIAL\<close>; those it does not show are still there.  It stops before
  32 datagrams only with a last call that says why: \<open>UV_ENOBUFS\<close> when there was no buffer, the error with which
  the system call has failed, or 0 bytes for \<open>EAGAIN\<close>, and then there are no more datagrams; there is no other call with an error.
  The buffer has a fixed size, which with \<open>recvmmsg\<close> in use is that of a datagram (64 KB) at least, since the
  function need not return with a smaller one, and the callback neither stops nor closes the handle.
\<close>

theorem udp_receives_in_order:
  assumes "udp_recv_laws K (io_fd s h) inbox" and "looks_at U cap see" and "recv_cb s h = Some cb" and "alloc_cb s h \<noteq> None"
    and "mmsg_once s" and "io_fd s h \<noteq> -1"
    and "many \<longleftrightarrow> has_flag s h UV_HANDLE_UDP_RECVMMSG \<and> recvmmsg_avail s" and "many \<Longrightarrow> no_buffer cap \<or> 65536 \<le> the cap"
  shows "\<exists>calls k e s'. uv__udp_recvmsg K U h s = Some s' \<and>
    udp_loop.more s' = fold (see cb) (calls @ (if k < 32 then [failure e] else [])) (udp_loop.more s) \<and>
    filter (\<lambda>(r, p, fl). p \<noteq> None) calls = map (shown many (if many then 65536 else the cap)) (take k (inbox (os s))) \<and>
    (\<forall>(r, p, fl) \<in> set calls. p = None \<longrightarrow> many \<and> r = Inr [] \<and> fl = UV_UDP_MMSG_FREE) \<and>
    inbox (os s') = drop k (inbox (os s)) \<and> k \<le> length (inbox (os s)) \<and> k \<le> 51 \<and>
    (k < 32 \<longrightarrow> (if no_buffer cap then e = UV_ENOBUFS
       else recv_failed K (io_fd s h) many e (os s') \<and> (e = UV_EAGAIN \<longrightarrow> inbox (os s') = [])))"
proof -
  obtain calls k e w where k: "recv_loop K U h 32 s =
      Some (s\<lparr>os := w, udp_loop.more := fold (see cb) (calls @ (if int k < 32 then [failure e] else [])) (udp_loop.more s)\<rparr>)"
    "inbox w = drop k (inbox (os s))" "k \<le> length (inbox (os s))" "int k < 32 + 20"
    "calls_show many (if many then 65536 else the cap) (take k (inbox (os s))) calls"
    "int k < 32 \<longrightarrow> (if no_buffer cap then e = UV_ENOBUFS else recv_failed K (io_fd s h) many e w \<and> (e = UV_EAGAIN \<longrightarrow> inbox w = []))"
    using recv_loop_result [OF assms(1-6) zero_less_numeral assms(7,8)] by blast
  have lt: "int k < 32 \<longleftrightarrow> k < 32" by linarith
  let ?s = "s\<lparr>os := w, udp_loop.more := fold (see cb) (calls @ (if k < 32 then [failure e] else [])) (udp_loop.more s)\<rparr>"
  have "uv__udp_recvmsg K U h s = Some ?s"
    using k(1) assms(3,4) unfolding lt by (simp add: uv__udp_recvmsg_def)
  moreover have "k \<le> 51" using k(4) by simp
  moreover have "\<forall>(r, p, fl) \<in> set calls. p = None \<longrightarrow> many \<and> r = Inr [] \<and> fl = UV_UDP_MMSG_FREE"
    using k(5) by (auto simp: calls_show_def)
  moreover have "filter (\<lambda>(r, p, fl). p \<noteq> None) calls = map (shown many (if many then 65536 else the cap)) (take k (inbox (os s)))"
    using k(5) by (simp add: calls_show_def)
  ultimately show ?thesis using k(2,3) k(6) [unfolded lt]
    by (intro exI [of _ calls] exI [of _ k] exI [of _ e] exI [of _ ?s]) (cases "no_buffer cap"; auto)
qed

section \<open>Observations\<close>

text \<open>
  A buffer that is smaller than a datagram makes \<open>recvmmsg\<close> ask for no message; as long as that
  returns 0 the loop goes on, and never returns.
\<close>

lemma small_buffer_never_returns:
  assumes small: "\<And>s. udp_alloc U a h s = Some (Some cap, s)" "0 < cap" "cap < 65536"
    and kern: "\<And>w. k_recvmmsg K fd 0 w = (Inr [], w)" and user: "\<And>s. udp_recv U cb h (Inr []) None 0 s = Some s"
    and s: "io_fd s h = fd" "fd \<noteq> -1" "recv_cb s h = Some cb" "alloc_cb s h = Some a" "mmsg_once s" "recvmmsg_avail s"
      "has_flag s h UV_HANDLE_UDP_RECVMMSG"
  shows "uv__udp_recvmsg K U h s = None"
proof -
  have re: "retry_eintr (k_recvmmsg K fd 0) w = Some (Inr [], w)" for w by (subst retry_eintr.simps) (simp add: kern)
  have mm: "uv__udp_recvmmsg K U h cap s = Some (Inr 0, s)"
    using small(3) s(1,3) re user by (simp add: uv__udp_recvmmsg_def sys_prog_def)
  have us: "uv_udp_using_recvmmsg K h s = Some (True, s)" using s(5-7) by (simp add: uv_udp_using_recvmmsg_def mmsg_init_once_def)
  have "\<not> (K = K \<and> U = U \<and> h = h \<and> (32 :: int) = 32 \<and> s = s)" if y: "recv_loop K U h 32 s = Some y" for y
  proof (rule recv_loop.raw_induct [where P = "\<lambda>K' U' h' cnt s' y. \<not> (K' = K \<and> U' = U \<and> h' = h \<and> cnt = 32 \<and> s' = s)", OF _ y])
    fix f and K' :: "'a udp_kernel" and U' h' cnt s' y
    assume IH: "\<And>K' U' h' cnt s' y. f K' U' h' cnt s' = Some y \<Longrightarrow> \<not> (K' = K \<and> U' = U \<and> h' = h \<and> cnt = 32 \<and> s' = s)"
      and eq: "alloc_cb s' h' \<bind> (\<lambda>acb.
     udp_alloc U' acb h' s' \<bind> (\<lambda>(cap, s).
       if cap = None \<or> cap = Some 0 then recv_cb s h' \<bind> (\<lambda>cb. udp_recv U' cb h' (Inl UV_ENOBUFS) None 0 s)
       else uv_udp_using_recvmmsg K' h' s \<bind> (\<lambda>(many, s).
         (if many then uv__udp_recvmmsg K' U' h' (the cap) s else recv_one K' U' h' (the cap) s) \<bind> (\<lambda>(nread, s).
         let cnt = (if many then (case nread of Inr n \<Rightarrow> cnt - int n | Inl _ \<Rightarrow> cnt) else cnt - 1)
         in if \<not> isl nread \<and> cnt > 0 \<and> io_fd s h' \<noteq> -1 \<and> recv_cb s h' \<noteq> None then f K' U' h' cnt s else Some s)))) = Some y"
    show "\<not> (K' = K \<and> U' = U \<and> h' = h \<and> cnt = 32 \<and> s' = s)"
    proof
      assume "K' = K \<and> U' = U \<and> h' = h \<and> cnt = 32 \<and> s' = s"
      then have "f K U h 32 s = Some y" using eq s(1-4) small us mm by simp
      then show False using IH by blast
    qed
  qed
  then have "recv_loop K U h 32 s = None" by (cases "recv_loop K U h 32 s") auto
  then show ?thesis using s(3,4) by (simp add: uv__udp_recvmsg_def)
qed

text \<open>When \<open>sendmmsg\<close> fails it is for its first message; all that were handed to it are reported as failed.\<close>

lemma whole_batch_fails:
  assumes "write_queue s h \<noteq> []" "\<forall>r \<in> set (write_queue s h). out_msg_of s r \<noteq> None"
    and "\<And>msgs w. k_sendmmsg K (io_fd s h) msgs w = (Inl e, w)" "e \<notin> {UV_EAGAIN, UV_ENOBUFS, UV_EINTR}"
  shows "uv__udp_sendmmsg K h s = Some (uv__io_feed h (complete_requests h (\<lambda>_. Inl e) (take 20 (write_queue s h)) s))"
proof -
  have re: "sys_prog (retry_eintr (k_sendmmsg K (io_fd s h) msgs)) s = Some (Inl e, s)" for msgs
    using assms(3,4) by (simp add: sys_prog_def retry_eintr.simps)
  have "\<forall>r \<in> set (take 20 (write_queue s h)). out_msg_of s r \<noteq> None"
    using assms(2) set_take_subset [of 20 "write_queue s h"] by auto
  note th = those_total [OF this]
  show ?thesis
    unfolding uv__udp_sendmmsg.simps [of K h s] if_not_P [OF assms(1)] Let_def th bind.bind_lunit re prod.case sum.case
    using assms(4) by simp
qed

text \<open>
  A callback that closes the handle does not keep \<open>uv__udp_io\<close> from sending: on the descriptor -1, after
  which the watcher of the closed handle is among the pending ones.
\<close>

lemma closed_handle_is_fed:
  assumes "htype s h = UV_UDP" "uv__udp_recvmsg K U h s = Some s1" "io_fd s1 h = -1" "mmsg_once s1" "sendmmsg_avail s1"
    and "write_queue s1 h \<noteq> []" "\<forall>r \<in> set (write_queue s1 h). out_msg_of s1 r \<noteq> None"
    and "\<And>msgs w. k_sendmmsg K (-1) msgs w = (Inl UV_EBADF, w)"
  shows "uv__udp_io K U h (POLLIN OR POLLOUT) s = uv__udp_run_completed U h
    (uv__io_feed h (complete_requests h (\<lambda>_. Inl UV_EBADF) (take 20 (write_queue s1 h)) s1))"
  using assms whole_batch_fails [of s1 h K UV_EBADF]
  by (simp add: uv__udp_io_def uv__udp_sendmsg_def mmsg_init_once_def)

text \<open>An address of the family \<open>AF_UNIX\<close> passes \<open>uv__udp_check_before_send\<close>, and a handle without a socket aborts.\<close>

lemma unix_address_aborts:
  assumes "htype s h = UV_UDP" "io_fd s h = -1" "sa_family sa = AF_UNIX"
  shows "\<not> has_flag s h UV_HANDLE_UDP_CONNECTED \<Longrightarrow> uv_udp_send K req h bufs (Some sa) cb s = None"
  using assms by (simp add: uv_udp_send_def uv__udp_check_before_send_def uv__udp_send_def uv__udp_maybe_deferred_bind_def)


section \<open>Witnesses\<close>

text \<open>A system with an inbox and an outbox, and a loop on it.\<close>

type_synonym post_office = "(string \<times> sockaddr) list \<times> out_msg list"

definition post_kernel :: "post_office udp_kernel" where
  "post_kernel = tcp_kernel.extend (stream_kernel.extend (io_kernel.extend quiet_kernel
     (stream_kernel.fields (\<lambda>_ v w. (Inr (length (concat v)), w)) (\<lambda>_ v _ w. (Inr (length (concat v)), w)) (\<lambda>_ w. (Inr (), w))
        (\<lambda>_ w. (None, w)) (\<lambda>_ _ w. (Inr (), w)) (\<lambda>_ w. (True, w)) id (\<lambda>_ w. (Inl UV_EINVAL, w))
        (\<lambda>_ _ w. (Inr (), w)) (\<lambda>_ _ w. (Inr (), w)) (\<lambda>_ _ w. (Inr (), w))))
     (tcp_kernel.fields (\<lambda>_ w. (Inl UV_ENOTCONN, w)) (\<lambda>_ _ w. (Inl UV_EMFILE, w)) (\<lambda>_ _ w. (Inr 0, w)) (\<lambda>_ _ _ w. (Inr (), w))
        (\<lambda>_ _. None)))
     (udp_kernel.fields (\<lambda>_ m w. (Inr 1, (fst w, snd w @ [m]))) (\<lambda>_ ms w. (Inr (length ms), (fst w, snd w @ ms)))
        (\<lambda>_ cap w. case fst w of [] \<Rightarrow> (Inl UV_EAGAIN, w) | m # ms \<Rightarrow> (Inr (received cap m), (ms, snd w)))
        (\<lambda>_ n w. if fst w = [] then (Inl UV_EAGAIN, w) else (Inr (map (received 65536) (take n (fst w))), (drop n (fst w), snd w)))
        (\<lambda>_ _ w. (Inr (), w)) (\<lambda>_ w. (0, w)))"

lemma post_calls:
  "retry_eintr (k_sendmsg_to post_kernel fd m) w = Some (Inr 1, (fst w, snd w @ [m]))"
  "retry_eintr (k_sendmmsg post_kernel fd ms) w = Some (Inr (length ms), (fst w, snd w @ ms))"
  "retry_eintr (k_recvmsg_from post_kernel fd cap) w =
     Some (case fst w of [] \<Rightarrow> (Inl UV_EAGAIN, w) | m # ms \<Rightarrow> (Inr (received cap m), (ms, snd w)))"
  "retry_eintr (k_recvmmsg post_kernel fd n) w =
     Some (if fst w = [] then (Inl UV_EAGAIN, w) else (Inr (map (received 65536) (take n (fst w))), (drop n (fst w), snd w)))"
  by (subst retry_eintr.simps, simp add: post_kernel_def quiet_kernel_def fd_kernel.defs io_kernel.defs tcp_kernel.defs stream_kernel.defs udp_kernel.defs split: list.split)+

lemma post_send_laws: "udp_send_laws post_kernel fd snd"
  by (simp add: udp_send_laws_def post_calls)

lemma post_recv_laws: "udp_recv_laws post_kernel fd fst"
proof -
  have "\<exists>k. 0 < k \<and> k \<le> n \<and> k \<le> length (fst w) \<and> map (received 65536) (take n (fst w)) = map (received 65536) (take k (fst w)) \<and>
      drop n (fst w) = drop k (fst w)" if "0 < n" "fst w \<noteq> []" for n and w :: post_office
    using that by (intro exI [of _ "min n (length (fst w))"]) (auto simp: min_def)
  then show ?thesis by (auto simp: udp_recv_laws_def post_calls(3,4) split: list.split)
qed

definition post_loop :: "post_office \<Rightarrow> addr list \<Rightarrow> 'a \<Rightarrow> (post_office, 'a) udp_loop_scheme" where
  "post_loop w q a = udp_loop.extend ((bare_loop w 5
     (udp_loop.fields (\<lambda>_. Some 1) (\<lambda>_. of_nat (length q)) (\<lambda>_. of_nat (length q)) (\<lambda>_. some_address) (\<lambda>_. Inr 0) True True True))
       \<lparr>write_queue := \<lambda>_. q, w_bufs := \<lambda>_. Some [''x''], alloc_cb := \<lambda>_. Some 1, req_cb := \<lambda>_. Some 1,
        active_reqs := of_nat (length q)\<rparr>) a"


lemma post_loop_fields:
  "io_fd (post_loop w q a) = (\<lambda>_. 5)" "os (post_loop w q a) = w" "write_queue (post_loop w q a) = (\<lambda>_. q)"
  "write_completed_queue (post_loop w q a) = (\<lambda>_. [])" "w_bufs (post_loop w q a) = (\<lambda>_. Some [''x''])"
  "alloc_cb (post_loop w q a) = (\<lambda>_. Some 1)" "recv_cb (post_loop w q a) = (\<lambda>_. Some 1)" "req_cb (post_loop w q a) = (\<lambda>_. Some 1)"
  "send_addr (post_loop w q a) = (\<lambda>_. some_address)" "mmsg_once (post_loop w q a)" "flags (post_loop w q a) = (\<lambda>_. 0)"
  "active_reqs (post_loop w q a) = of_nat (length q)" "send_queue_count (post_loop w q a) = (\<lambda>_. of_nat (length q))"
  "send_queue_size (post_loop w q a) = (\<lambda>_. of_nat (length q))" "io_pevents (post_loop w q a) = (\<lambda>_. 0)"
  "udp_loop.more (post_loop w q a) = a"
  by (simp_all add: post_loop_def bare_loop_def bare_core_def empty_watcher_loop_def watcher_loop.defs io_loop.defs poll_loop.defs
      async_loop.defs core_loop.defs stream_loop.defs udp_loop.defs)

definition noting_udp :: "(post_office, string list) udp_loop_scheme udp_calls" where
  "noting_udp = \<lparr>udp_alloc = \<lambda>_ _ s. Some (Some 65536, s),
     udp_recv = \<lambda>_ _ r p _ s. case (r, p) of (Inr d, Some _) \<Rightarrow> Some (s\<lparr>udp_loop.more := udp_loop.more s @ [d]\<rparr>) | _ \<Rightarrow> Some s,
     udp_sent = \<lambda>_ _ st s. Some (s\<lparr>udp_loop.more := udp_loop.more s @ [case st of None \<Rightarrow> ''sent'' | Some _ \<Rightarrow> ''failed'']\<rparr>)\<rparr>"

theorem udp_sends_each_datagram_once_witness:
  "\<exists>dn s'. uv__udp_sendmsg post_kernel 7 (post_loop ([], []) [11, 12] ()) = Some s' \<and> [11, 12] = dn @ write_queue s' 7 \<and>
    snd (os s') = map (\<lambda>r. ([''x''], Some some_address)) (filter (\<lambda>r. \<not> isl (send_status s' r)) dn)"
proof -
  let ?s = "post_loop ([], []) [11, 12] ()"
  have m: "out_msg_of ?s r = Some ([''x''], Some some_address)" for r
    by (simp add: out_msg_of_def msg_name_def post_loop_fields some_address_def)
  show ?thesis
    using udp_sends_each_datagram_once [OF post_send_laws post_loop_fields(10), where h = 7, of "([], [])" "[11, 12]" "()"] m unfolding post_loop_fields by auto
qed

theorem udp_close_reports_every_request_witness:
  "\<exists>s'. uv__udp_finish_close noting_udp 7 ((post_loop ([], []) [11, 12] [])\<lparr>io_fd := \<lambda>_. -1\<rparr>) = Some s' \<and>
    udp_loop.more s' = [''failed'', ''failed''] \<and> active_reqs s' = 0"
proof -
  let ?s = "(post_loop ([], []) [11, 12] [])\<lparr>io_fd := \<lambda>_. -1\<rparr>"
  have ok: "udp_ok 7 ?s"
    by (simp add: udp_ok_def post_loop_fields uv__count_bufs_def)
  have pr: "private_udp noting_udp (\<lambda>_ _ st l. l @ [case st of None \<Rightarrow> ''sent'' | Some _ \<Rightarrow> ''failed''])"
    by (simp add: private_udp_def noting_udp_def)
  show ?thesis
    using udp_close_reports_every_request [OF ok pr] by (auto simp: post_loop_fields has_flag_def unat_eq_0)
qed

theorem udp_receives_in_order_witness:
  "\<exists>s'. uv__udp_recvmsg post_kernel noting_udp 7 (post_loop ([(''a'', some_address), (''b'', some_address)], []) [] []) = Some s' \<and>
    udp_loop.more s' = [''a'', ''b''] \<and> fst (os s') = []"
proof -
  let ?s = "post_loop ([(''a'', some_address), (''b'', some_address)], []) [] []"
  let ?see = "\<lambda>cb :: nat. \<lambda>(r, p, fl) l. case (r :: uv_errno + string, p :: sockaddr option) of (Inr d, Some _) \<Rightarrow> l @ [d] | _ \<Rightarrow> l"
  have la: "looks_at noting_udp (Some 65536) ?see"
    by (auto simp: looks_at_def noting_udp_def split: sum.split option.split)
  have on: "mmsg_once ?s" by (rule post_loop_fields(10))
  have r: "recv_cb ?s 7 = Some 1" "alloc_cb ?s 7 \<noteq> None" "io_fd ?s 7 \<noteq> -1" "\<not> has_flag ?s 7 m" for m
    by (simp_all add: post_loop_fields has_flag_def)
  have o: "fst (os ?s) = [(''a'', some_address), (''b'', some_address)]" "udp_loop.more ?s = []"
    by (simp_all add: post_loop_fields)
  have many: "False \<longleftrightarrow> has_flag ?s 7 UV_HANDLE_UDP_RECVMMSG \<and> recvmmsg_avail ?s" by (simp add: r(4))
  have room: "no_buffer (Some 65536) \<or> 65536 \<le> the (Some (65536 :: nat))" by simp
  show ?thesis
    using udp_receives_in_order [OF post_recv_laws la r(1,2) on r(3) many room] unfolding o
  proof (elim exE conjE, goal_cases)
    case (1 calls k e s')
    have nb: "\<not> no_buffer (Some 65536)" by (simp add: no_buffer_def)
    have k2: "k \<le> 2" using 1(6) by simp
    have f: "recv_failed post_kernel 5 False e (os s')" "e = UV_EAGAIN \<longrightarrow> fst (os s') = []"
      using 1(8) k2 nb by (simp_all add: post_loop_fields(1))
    have "e = UV_EAGAIN" using f(1) by (auto simp: recv_failed_def post_calls(3) split: list.splits prod.splits) (metis neq_Nil_conv surj_pair)
    then have k: "k = 2" using f(2) 1(5,6) by simp
    have "filter (\<lambda>(r, p, fl). p \<noteq> None) calls = calls" using 1(4) by (intro filter_True) auto
    then have "calls = map (shown False 65536) [(''a'', some_address), (''b'', some_address)]" using 1(3) k by simp
    then have "udp_loop.more s' = [''a'', ''b'']" using 1(2) k by (simp add: shown_def failure_def \<open>e = _\<close>)
    then show ?case using 1(1) f(2) \<open>e = _\<close> by auto
  qed
qed

end
