(* ===== verification/Signal.thy ===== *)
theory Signal
  imports Core
begin

text \<open>
  src/unix/signal.c, with \<open>uv_pipe\<close> and \<open>uv__make_pipe\<close> of src/unix/pipe.c.  One loop is in the record;
  its address is \<open>loop_self\<close>, and the pipe of every loop is known by the address of the loop, since
  the tree of signal handles and the signal handler serve all loops.  The red-black tree is the list
  of its nodes in order: the macros of include/uv/tree.h are used through what they promise, by the
  comparison \<open>uv__signal_compare\<close>.  A message in a signal pipe is the memory of \<open>uv__signal_msg_t\<close> on a
  little-endian machine with 64-bit pointers, 16 bytes.
\<close>

section \<open>State\<close>

datatype disposition = SigDfl | SigHandler bool

text \<open>\<open>SigHandler oneshot\<close>: \<open>uv__signal_handler\<close> is installed, with \<open>SA_RESETHAND\<close> when \<open>oneshot\<close>.\<close>

record 'w signal_kernel = "'w io_kernel" +
  k_pipe2 :: "u32 \<Rightarrow> ('w, int \<times> int) sys"
  k_sigaction :: "int \<Rightarrow> disposition \<Rightarrow> ('w, unit) sys"
  k_block_signals :: "bool \<Rightarrow> ('w, unit) sys"
  k_atfork :: "('w, unit) sys"

record 'w signal_loop = "'w core_loop" +
  loop_self :: addr
  signal_pipefd :: "addr \<Rightarrow> int \<times> int"
  signal_lock_pipefd :: "int \<times> int"
  signal_once :: bool
  signal_tree :: "addr list"
  signum :: "addr \<Rightarrow> int"
  signal_cb :: "addr \<Rightarrow> nat option"
  sig_loop :: "addr \<Rightarrow> addr"

abbreviation sfdK :: "'w signal_kernel \<Rightarrow> 'w fd_kernel" where "sfdK K \<equiv> fd_kernel.truncate K"
abbreviation sioK :: "'w signal_kernel \<Rightarrow> 'w io_kernel" where "sioK K \<equiv> io_kernel.truncate K"

section \<open>Pipes\<close>

text \<open>\<open>uv_pipe\<close>: whether the ends are not to block.\<close>

definition uv_pipe ::
  "'w fd_kernel \<Rightarrow> (u32 \<Rightarrow> ('w, int \<times> int) sys) \<Rightarrow> bool \<Rightarrow> bool \<Rightarrow> ('w, int \<times> int) prog" where
  "uv_pipe K pipe2 rd wr w =
     (let fl = (if rd \<and> wr then O_CLOEXEC OR O_NONBLOCK else O_CLOEXEC)
      in case pipe2 fl w of
           (Inl e, w) \<Rightarrow> Some (Inl e, w)
         | (Inr (a, b), w) \<Rightarrow>
             if fl AND O_NONBLOCK \<noteq> 0 then Some (Inr (a, b), w)
             else do {
               (err, w) \<leftarrow> (if rd then uv__nonblock K a True w else Some (Inr (), w));
               (err, w) \<leftarrow> (case err of
                  Inl e \<Rightarrow> Some (Inl e, w)
                | Inr _ \<Rightarrow> if wr then uv__nonblock K b True w else Some (Inr (), w));
               (case err of
                  Inr _ \<Rightarrow> Some (Inr (a, b), w)
                | Inl e \<Rightarrow> do {
                    (_, w) \<leftarrow> uv__close K a w;
                    (_, w) \<leftarrow> uv__close K b w;
                    Some (Inl e, w) }) })"

definition uv__make_pipe ::
  "'w fd_kernel \<Rightarrow> (u32 \<Rightarrow> ('w, int \<times> int) sys) \<Rightarrow> bool \<Rightarrow> ('w, int \<times> int) prog" where
  "uv__make_pipe K pipe2 nonblock w = uv_pipe K pipe2 nonblock nonblock w"

section \<open>Messages\<close>

fun le_bytes :: "nat \<Rightarrow> nat \<Rightarrow> string" where
  "le_bytes 0 n = []"
| "le_bytes (Suc k) n = char_of (n mod 256) # le_bytes k (n div 256)"

fun le_value :: "string \<Rightarrow> nat" where
  "le_value [] = 0"
| "le_value (c # cs) = of_char c + 256 * le_value cs"

text \<open>A message is the handle and the number of the signal; the padding is 0.\<close>

definition msg_bytes_of :: "addr \<times> int \<Rightarrow> string" where
  "msg_bytes_of m = le_bytes 8 (fst m) @ le_bytes 4 (unat (word_of_int (snd m) :: u32)) @ le_bytes 4 0"

definition msg_of_bytes :: "string \<Rightarrow> addr \<times> int" where
  "msg_of_bytes b = (le_value (take 8 b), sint (word_of_nat (le_value (take 4 (drop 8 b))) :: u32))"

section \<open>The lock\<close>

definition uv__signal_cleanup :: "'w signal_kernel \<Rightarrow> ('w, 'a) signal_loop_scheme \<Rightarrow> ('w, 'a) signal_loop_scheme option" where
  "uv__signal_cleanup K s = do {
     s \<leftarrow> (if fst (signal_lock_pipefd s) \<noteq> -1 then do {
             (_, s) \<leftarrow> sys_prog (uv__close (sfdK K) (fst (signal_lock_pipefd s))) s;
             Some (s\<lparr>signal_lock_pipefd := (-1, snd (signal_lock_pipefd s))\<rparr>) }
           else Some s);
     (if snd (signal_lock_pipefd s) \<noteq> -1 then do {
        (_, s) \<leftarrow> sys_prog (uv__close (sfdK K) (snd (signal_lock_pipefd s))) s;
        Some (s\<lparr>signal_lock_pipefd := (fst (signal_lock_pipefd s), -1)\<rparr>) }
      else Some s) }"

definition uv__signal_lock :: "'w signal_kernel \<Rightarrow> ('w, 'a) signal_loop_scheme \<Rightarrow> (bool \<times> ('w, 'a) signal_loop_scheme) option" where
  "uv__signal_lock K s = do {
     (r, s) \<leftarrow> sys_prog (retry_eintr (k_read K (fst (signal_lock_pipefd s)) 1)) s;
     Some (\<not> isl r, s) }"

definition uv__signal_unlock :: "'w signal_kernel \<Rightarrow> ('w, 'a) signal_loop_scheme \<Rightarrow> (bool \<times> ('w, 'a) signal_loop_scheme) option" where
  "uv__signal_unlock K s = do {
     (r, s) \<leftarrow> sys_prog (retry_eintr (k_write K (snd (signal_lock_pipefd s)) ''*'')) s;
     Some (\<not> isl r, s) }"

definition uv__signal_global_reinit :: "'w signal_kernel \<Rightarrow> ('w, 'a) signal_loop_scheme \<Rightarrow> ('w, 'a) signal_loop_scheme option" where
  "uv__signal_global_reinit K s = do {
     s \<leftarrow> uv__signal_cleanup K s;
     (p, s) \<leftarrow> sys_prog (uv__make_pipe (sfdK K) (k_pipe2 K) False) s;
     (case p of
        Inl _ \<Rightarrow> None
      | Inr pq \<Rightarrow> do {
          (ok, s) \<leftarrow> uv__signal_unlock K (s\<lparr>signal_lock_pipefd := pq\<rparr>);
          uv_assert ok;
          Some s }) }"

definition uv__signal_global_init :: "'w signal_kernel \<Rightarrow> ('w, 'a) signal_loop_scheme \<Rightarrow> ('w, 'a) signal_loop_scheme option" where
  "uv__signal_global_init K s = do {
     s \<leftarrow> (if fst (signal_lock_pipefd s) = -1
           then (case sys (k_atfork K) s of (Inl _, _) \<Rightarrow> None | (Inr _, s) \<Rightarrow> Some s)
           else Some s);
     uv__signal_global_reinit K s }"

definition uv__signal_global_once_init :: "'w signal_kernel \<Rightarrow> ('w, 'a) signal_loop_scheme \<Rightarrow> ('w, 'a) signal_loop_scheme option" where
  "uv__signal_global_once_init K s =
     (if signal_once s then Some s
      else map_option (\<lambda>s. s\<lparr>signal_once := True\<rparr>) (uv__signal_global_init K s))"

definition uv__signal_block_and_lock :: "'w signal_kernel \<Rightarrow> ('w, 'a) signal_loop_scheme \<Rightarrow> ('w, 'a) signal_loop_scheme option" where
  "uv__signal_block_and_lock K s =
     (case sys (k_block_signals K True) s of
        (Inl _, _) \<Rightarrow> None
      | (Inr _, s) \<Rightarrow> do {
          (ok, s) \<leftarrow> uv__signal_lock K s;
          uv_assert ok;
          Some s })"

definition uv__signal_unlock_and_unblock :: "'w signal_kernel \<Rightarrow> ('w, 'a) signal_loop_scheme \<Rightarrow> ('w, 'a) signal_loop_scheme option" where
  "uv__signal_unlock_and_unblock K s = do {
     (ok, s) \<leftarrow> uv__signal_unlock K s;
     uv_assert ok;
     (case sys (k_block_signals K False) s of (Inl _, _) \<Rightarrow> None | (Inr _, s) \<Rightarrow> Some s) }"

section \<open>The tree\<close>

text \<open>What \<open>uv__signal_compare\<close> reads of a node: signal, the flag, the loop, its own address.\<close>

type_synonym sig_key = "int \<times> u32 \<times> addr \<times> addr"

definition uv__signal_compare :: "sig_key \<Rightarrow> sig_key \<Rightarrow> int" where
  "uv__signal_compare k1 k2 =
     (case (k1, k2) of ((s1, f1, l1, w1), (s2, f2, l2, w2)) \<Rightarrow>
        if s1 < s2 then -1 else if s1 > s2 then 1
        else if f1 < f2 then -1 else if f1 > f2 then 1
        else if l1 < l2 then -1 else if l1 > l2 then 1
        else if w1 < w2 then -1 else if w1 > w2 then 1
        else 0)"

definition sig_key :: "('w, 'a) signal_loop_scheme \<Rightarrow> addr \<Rightarrow> sig_key" where
  "sig_key s h = (signum s h, flags s h AND UV_SIGNAL_ONE_SHOT, sig_loop s h, h)"

text \<open>\<open>RB_INSERT\<close>, \<open>RB_REMOVE\<close>, \<open>RB_NFIND\<close> and \<open>RB_NEXT\<close> on the nodes in order.\<close>

fun tree_insert :: "(addr \<Rightarrow> sig_key) \<Rightarrow> addr \<Rightarrow> addr list \<Rightarrow> addr list" where
  "tree_insert key x [] = [x]"
| "tree_insert key x (y # ys) =
     (let c = uv__signal_compare (key x) (key y)
      in if c < 0 then x # y # ys else if c > 0 then y # tree_insert key x ys else y # ys)"

definition tree_remove :: "addr \<Rightarrow> addr list \<Rightarrow> addr list" where
  "tree_remove x t = remove1 x t"

definition tree_nfind :: "(addr \<Rightarrow> sig_key) \<Rightarrow> sig_key \<Rightarrow> addr list \<Rightarrow> addr list" where
  "tree_nfind key k t = dropWhile (\<lambda>y. uv__signal_compare k (key y) > 0) t"

text \<open>
  The node found, with those behind it; the node that is looked up is on the stack, its loop is \<open>NULL\<close>.
\<close>

definition first_handles :: "('w, 'a) signal_loop_scheme \<Rightarrow> int \<Rightarrow> addr list" where
  "first_handles s sn = tree_nfind (sig_key s) (sn, 0, 0, 0) (signal_tree s)"

definition uv__signal_first_handle :: "('w, 'a) signal_loop_scheme \<Rightarrow> int \<Rightarrow> ptr" where
  "uv__signal_first_handle s sn =
     (case first_handles s sn of
        [] \<Rightarrow> None
      | h # _ \<Rightarrow> if signum s h = sn then Some h else None)"

section \<open>The signal handler\<close>

text \<open>The nodes from the first on, as long as they are for the signal.\<close>

fun handler_loop ::
  "'w signal_kernel \<Rightarrow> int \<Rightarrow> addr list \<Rightarrow> ('w, 'a) signal_loop_scheme \<Rightarrow> ('w, 'a) signal_loop_scheme option" where
  "handler_loop K sn [] s = Some s"
| "handler_loop K sn (h # hs) s =
     (if signum s h \<noteq> sn then Some s
      else do {
        (r, s) \<leftarrow> sys_prog (retry_eintr (k_write K (snd (signal_pipefd s (sig_loop s h))) (msg_bytes_of (h, sn)))) s;
        uv_assert (r = Inr 16 \<or> r = Inl UV_EAGAIN);
        let s = (if r \<noteq> Inl UV_EAGAIN then s\<lparr>caught_signals := (caught_signals s)(h := caught_signals s h + 1)\<rparr> else s);
        handler_loop K sn hs s })"

definition uv__signal_handler ::
  "'w signal_kernel \<Rightarrow> int \<Rightarrow> ('w, 'a) signal_loop_scheme \<Rightarrow> ('w, 'a) signal_loop_scheme option" where
  "uv__signal_handler K sn s = do {
     (ok, s) \<leftarrow> uv__signal_lock K s;
     if \<not> ok then Some s
     else do {
       s \<leftarrow> handler_loop K sn (if uv__signal_first_handle s sn = None then [] else first_handles s sn) s;
       (_, s) \<leftarrow> uv__signal_unlock K s;
       Some s } }"

definition uv__signal_register_handler :: "'w signal_kernel \<Rightarrow> int \<Rightarrow> bool \<Rightarrow> ('w, unit) sys" where
  "uv__signal_register_handler K sn oneshot = k_sigaction K sn (SigHandler oneshot)"

definition uv__signal_unregister_handler ::
  "'w signal_kernel \<Rightarrow> int \<Rightarrow> ('w, 'a) signal_loop_scheme \<Rightarrow> ('w, 'a) signal_loop_scheme option" where
  "uv__signal_unregister_handler K sn s =
     (case sys (k_sigaction K sn SigDfl) s of (Inl _, _) \<Rightarrow> None | (Inr _, s) \<Rightarrow> Some s)"

section \<open>Starting and stopping\<close>

definition uv__signal_stop ::
  "'w signal_kernel \<Rightarrow> addr \<Rightarrow> ('w, 'a) signal_loop_scheme \<Rightarrow> ('w, 'a) signal_loop_scheme option" where
  "uv__signal_stop K h s =
     (if signum s h = 0 then Some s
      else do {
        s \<leftarrow> uv__signal_block_and_lock K s;
        uv_assert (h \<in> set (signal_tree s));
        let s = s\<lparr>signal_tree := tree_remove h (signal_tree s)\<rparr>;
        s \<leftarrow> (case uv__signal_first_handle s (signum s h) of
               None \<Rightarrow> uv__signal_unregister_handler K (signum s h) s
             | Some first \<Rightarrow>
                 if has_flag s first UV_SIGNAL_ONE_SHOT \<and> \<not> has_flag s h UV_SIGNAL_ONE_SHOT then
                   (case sys (uv__signal_register_handler K (signum s h) True) s of
                      (ret, s) \<Rightarrow> uv_assert (ret = Inr ()) \<bind> (\<lambda>_. Some s))
                 else Some s);
        s \<leftarrow> uv__signal_unlock_and_unblock K s;
        let s = s\<lparr>signum := (signum s)(h := 0)\<rparr>;
        Some (uv__handle_stop h s) })"

text \<open>\<open>uv__signal_start\<close> from where the signals are blocked.\<close>

definition start_blocked ::
  "'w signal_kernel \<Rightarrow> addr \<Rightarrow> nat option \<Rightarrow> int \<Rightarrow> bool \<Rightarrow> ('w, 'a) signal_loop_scheme \<Rightarrow>
    ((uv_errno + unit) \<times> ('w, 'a) signal_loop_scheme) option" where
  "start_blocked K h cb sn oneshot s = do {
     s \<leftarrow> uv__signal_block_and_lock K s;
     let first = uv__signal_first_handle s sn;
     let (err, s) =
       (if first = None \<or> \<not> oneshot \<and> has_flag s (the first) UV_SIGNAL_ONE_SHOT
        then sys (uv__signal_register_handler K sn oneshot) s
        else (Inr (), s));
     (case err of
        Inl e \<Rightarrow> do {
          s \<leftarrow> uv__signal_unlock_and_unblock K s;
          Some (Inl e, s) }
      | Inr _ \<Rightarrow> do {
          let s = s\<lparr>signum := (signum s)(h := sn)\<rparr>;
          let s = (if oneshot then set_flag h UV_SIGNAL_ONE_SHOT s else s);
          let s = s\<lparr>signal_tree := tree_insert (sig_key s) h (signal_tree s)\<rparr>;
          s \<leftarrow> uv__signal_unlock_and_unblock K s;
          let s = s\<lparr>signal_cb := (signal_cb s)(h := cb)\<rparr>;
          Some (Inr (), uv__handle_start h s) }) }"

definition uv__signal_start ::
  "'w signal_kernel \<Rightarrow> addr \<Rightarrow> nat option \<Rightarrow> int \<Rightarrow> bool \<Rightarrow> ('w, 'a) signal_loop_scheme \<Rightarrow>
    ((uv_errno + unit) \<times> ('w, 'a) signal_loop_scheme) option" where
  "uv__signal_start K h cb sn oneshot s = do {
     uv_assert (\<not> uv__is_closing s h);
     if sn = 0 then Some (Inl UV_EINVAL, s)
     else if sn = signum s h then Some (Inr (), s\<lparr>signal_cb := (signal_cb s)(h := cb)\<rparr>)
     else do {
       s \<leftarrow> (if signum s h \<noteq> 0 then uv__signal_stop K h s else Some s);
       start_blocked K h cb sn oneshot s } }"

definition uv_signal_start ::
  "'w signal_kernel \<Rightarrow> addr \<Rightarrow> nat option \<Rightarrow> int \<Rightarrow> ('w, 'a) signal_loop_scheme \<Rightarrow>
    ((uv_errno + unit) \<times> ('w, 'a) signal_loop_scheme) option" where
  "uv_signal_start K h cb sn s = uv__signal_start K h cb sn False s"

definition uv_signal_start_oneshot ::
  "'w signal_kernel \<Rightarrow> addr \<Rightarrow> nat option \<Rightarrow> int \<Rightarrow> ('w, 'a) signal_loop_scheme \<Rightarrow>
    ((uv_errno + unit) \<times> ('w, 'a) signal_loop_scheme) option" where
  "uv_signal_start_oneshot K h cb sn s = uv__signal_start K h cb sn True s"

definition uv_signal_stop ::
  "'w signal_kernel \<Rightarrow> addr \<Rightarrow> ('w, 'a) signal_loop_scheme \<Rightarrow> ('w, 'a) signal_loop_scheme option" where
  "uv_signal_stop K h s = do {
     uv_assert (\<not> uv__is_closing s h);
     uv__signal_stop K h s }"

definition uv__signal_close ::
  "'w signal_kernel \<Rightarrow> addr \<Rightarrow> ('w, 'a) signal_loop_scheme \<Rightarrow> ('w, 'a) signal_loop_scheme option" where
  "uv__signal_close K h s = uv__signal_stop K h s"

section \<open>Dispatch\<close>

text \<open>The messages of a buffer; \<open>call_signal\<close> is the callback of a handle.\<close>

fun dispatch_msgs ::
  "'w signal_kernel \<Rightarrow> (nat \<Rightarrow> addr \<Rightarrow> int \<Rightarrow> ('w, 'a) signal_loop_scheme \<Rightarrow> ('w, 'a) signal_loop_scheme option) \<Rightarrow>
    string list \<Rightarrow> ('w, 'a) signal_loop_scheme \<Rightarrow> ('w, 'a) signal_loop_scheme option" where
  "dispatch_msgs K call_signal [] s = Some s"
| "dispatch_msgs K call_signal (b # bs) s = do {
     let (h, sn) = msg_of_bytes b;
     s \<leftarrow> (if sn = signum s h then do {
             uv_assert (\<not> has_flag s h UV_HANDLE_CLOSING);
             cb \<leftarrow> signal_cb s h;
             call_signal cb h (signum s h) s }
           else Some s);
     let s = s\<lparr>dispatched_signals := (dispatched_signals s)(h := dispatched_signals s h + 1)\<rparr>;
     s \<leftarrow> (if has_flag s h UV_SIGNAL_ONE_SHOT then uv__signal_stop K h s else Some s);
     dispatch_msgs K call_signal bs s }"

fun chunks16 :: "nat \<Rightarrow> string \<Rightarrow> string list" where
  "chunks16 0 b = []"
| "chunks16 (Suc n) b = take 16 b # chunks16 n (drop 16 b)"

text \<open>
  The \<open>do ... while\<close> loop of \<open>uv__signal_event\<close>, with what is left in the buffer and the \<open>end\<close> of the round
  before: \<open>continue\<close> goes to the condition, which reads \<open>end\<close>.
\<close>

partial_function (option) signal_event_loop ::
  "'w signal_kernel \<Rightarrow> (nat \<Rightarrow> addr \<Rightarrow> int \<Rightarrow> ('w, 'a) signal_loop_scheme \<Rightarrow> ('w, 'a) signal_loop_scheme option) \<Rightarrow>
    string \<Rightarrow> nat \<Rightarrow> ('w, 'a) signal_loop_scheme \<Rightarrow> ('w, 'a) signal_loop_scheme option" where
  "signal_event_loop K call_signal buf endp s =
     (case sys (k_read K (fst (signal_pipefd s (loop_self s))) (512 - length buf)) s of
        (r, s) \<Rightarrow>
          if r = Inl UV_EINTR then (if endp = 512 then signal_event_loop K call_signal buf endp s else Some s)
          else if r = Inl UV_EAGAIN then
            (if buf \<noteq> [] then (if endp = 512 then signal_event_loop K call_signal buf endp s else Some s) else Some s)
          else case r of
            Inl _ \<Rightarrow> None
          | Inr xs \<Rightarrow>
              let buf = buf @ xs;
                  endp = (length buf div 16) * 16
              in dispatch_msgs K call_signal (chunks16 (endp div 16) buf) s \<bind> (\<lambda>s.
                 if endp = 512 then signal_event_loop K call_signal (drop endp buf) endp s else Some s))"

definition uv__signal_event ::
  "'w signal_kernel \<Rightarrow> (nat \<Rightarrow> addr \<Rightarrow> int \<Rightarrow> ('w, 'a) signal_loop_scheme \<Rightarrow> ('w, 'a) signal_loop_scheme option) \<Rightarrow>
    ('w, 'a) signal_loop_scheme \<Rightarrow> ('w, 'a) signal_loop_scheme option" where
  "uv__signal_event K call_signal s = signal_event_loop K call_signal [] 0 s"

section \<open>A loop\<close>

definition uv__signal_loop_once_init ::
  "'w signal_kernel \<Rightarrow> ('w, 'a) signal_loop_scheme \<Rightarrow> ((uv_errno + unit) \<times> ('w, 'a) signal_loop_scheme) option" where
  "uv__signal_loop_once_init K s =
     (if fst (signal_pipefd s (loop_self s)) \<noteq> -1 then Some (Inr (), s)
      else do {
        (p, s) \<leftarrow> sys_prog (uv__make_pipe (sfdK K) (k_pipe2 K) True) s;
        (case p of
           Inl e \<Rightarrow> Some (Inl e, s)
         | Inr pq \<Rightarrow> do {
             let s = s\<lparr>signal_pipefd := (signal_pipefd s)(loop_self s := pq)\<rparr>;
             s \<leftarrow> uv__io_init signal_io_watcher UV__SIGNAL_EVENT (fst pq) s;
             s \<leftarrow> uv__io_start (sioK K) signal_io_watcher POLLIN s;
             Some (Inr (), s) }) })"

definition uv__signal_loop_fork ::
  "'w signal_kernel \<Rightarrow> ('w, 'a) signal_loop_scheme \<Rightarrow> ((uv_errno + unit) \<times> ('w, 'a) signal_loop_scheme) option" where
  "uv__signal_loop_fork K s = do {
     s \<leftarrow> uv__io_stop signal_io_watcher POLLIN s;
     (_, s) \<leftarrow> sys_prog (uv__close (sfdK K) (fst (signal_pipefd s (loop_self s)))) s;
     (_, s) \<leftarrow> sys_prog (uv__close (sfdK K) (snd (signal_pipefd s (loop_self s)))) s;
     uv__signal_loop_once_init K (s\<lparr>signal_pipefd := (signal_pipefd s)(loop_self s := (-1, -1))\<rparr>) }"

fun stop_signals :: "'w signal_kernel \<Rightarrow> qaddr list \<Rightarrow> ('w, 'a) signal_loop_scheme \<Rightarrow> ('w, 'a) signal_loop_scheme option" where
  "stop_signals K [] s = Some s"
| "stop_signals K (q # rest) s = do {
     s \<leftarrow> (case q of
            NodeQ _ h \<Rightarrow> if htype s h = UV_SIGNAL then uv__signal_stop K h s else Some s
          | _ \<Rightarrow> None);
     stop_signals K rest s }"

definition uv__signal_loop_cleanup ::
  "'w signal_kernel \<Rightarrow> ('w, 'a) signal_loop_scheme \<Rightarrow> ('w, 'a) signal_loop_scheme option" where
  "uv__signal_loop_cleanup K s = do {
     hs \<leftarrow> QUEUE_FOREACH (qs s) (LoopQ HandleK);
     s \<leftarrow> stop_signals K hs s;
     s \<leftarrow> (if fst (signal_pipefd s (loop_self s)) \<noteq> -1 then do {
             (_, s) \<leftarrow> sys_prog (uv__close (sfdK K) (fst (signal_pipefd s (loop_self s)))) s;
             Some (s\<lparr>signal_pipefd := (signal_pipefd s)(loop_self s := (-1, snd (signal_pipefd s (loop_self s))))\<rparr>) }
           else Some s);
     (if snd (signal_pipefd s (loop_self s)) \<noteq> -1 then do {
        (_, s) \<leftarrow> sys_prog (uv__close (sfdK K) (snd (signal_pipefd s (loop_self s)))) s;
        Some (s\<lparr>signal_pipefd := (signal_pipefd s)(loop_self s := (fst (signal_pipefd s (loop_self s)), -1))\<rparr>) }
      else Some s) }"

definition uv_signal_init ::
  "'w signal_kernel \<Rightarrow> addr \<Rightarrow> ('w, 'a) signal_loop_scheme \<Rightarrow> ((uv_errno + unit) \<times> ('w, 'a) signal_loop_scheme) option" where
  "uv_signal_init K h s = do {
     (err, s) \<leftarrow> uv__signal_loop_once_init K s;
     (case err of
        Inl e \<Rightarrow> Some (Inl e, s)
      | Inr _ \<Rightarrow>
          let s = uv__handle_init h UV_SIGNAL (s\<lparr>sig_loop := (sig_loop s)(h := loop_self s)\<rparr>)
          in Some (Inr (), s\<lparr>signum := (signum s)(h := 0), caught_signals := (caught_signals s)(h := 0),
                             dispatched_signals := (dispatched_signals s)(h := 0)\<rparr>)) }"


section \<open>The order of the tree\<close>

lemma compare_less:
  "uv__signal_compare (s1, f1, l1, w1) (s2, f2, l2, w2) < 0 \<longleftrightarrow>
     s1 < s2 \<or> s1 = s2 \<and> (f1 < f2 \<or> f1 = f2 \<and> (l1 < l2 \<or> l1 = l2 \<and> w1 < w2))"
  "uv__signal_compare (s1, f1, l1, w1) (s2, f2, l2, w2) > 0 \<longleftrightarrow>
     s2 < s1 \<or> s1 = s2 \<and> (f2 < f1 \<or> f1 = f2 \<and> (l2 < l1 \<or> l1 = l2 \<and> w2 < w1))"
  by (auto simp: uv__signal_compare_def)

lemma compare_trans:
  assumes "uv__signal_compare a b < 0" "uv__signal_compare b c < 0"
  shows "uv__signal_compare a c < 0"
  using assms by (cases a; cases b; cases c) (auto simp: compare_less)

lemma compare_total:
  assumes "\<not> uv__signal_compare (sig_key s x) (sig_key s y) < 0" "x \<noteq> y"
  shows "uv__signal_compare (sig_key s x) (sig_key s y) > 0" "uv__signal_compare (sig_key s y) (sig_key s x) < 0"
  using assms by (auto simp: sig_key_def compare_less)

definition in_order :: "('w, 'a) signal_loop_scheme \<Rightarrow> addr list \<Rightarrow> bool" where
  "in_order s t \<longleftrightarrow> sorted_wrt (\<lambda>x y. uv__signal_compare (sig_key s x) (sig_key s y) < 0) t"

lemma in_order_distinct: "in_order s t \<Longrightarrow> distinct t"
  unfolding in_order_def by (induction t) (auto simp: sig_key_def uv__signal_compare_def)

lemma in_order_remove: "in_order s t \<Longrightarrow> in_order s (tree_remove x t)"
proof (induction t)
  case (Cons y t)
  have "set (remove1 x t) \<subseteq> set t" by (rule set_remove1_subset)
  then show ?case using Cons by (auto simp: in_order_def tree_remove_def)
qed (simp add: in_order_def tree_remove_def)

lemma in_order_cong: "(\<And>x. x \<in> set t \<Longrightarrow> sig_key s' x = sig_key s x) \<Longrightarrow> in_order s' t = in_order s t"
  unfolding in_order_def by (induction t) auto

lemma tree_insert_set:
  "x \<notin> set t \<Longrightarrow> set (tree_insert (sig_key s) x t) = insert x (set t)"
proof (induction t)
  case (Cons y t)
  then have "uv__signal_compare (sig_key s x) (sig_key s y) \<noteq> 0" by (auto simp: sig_key_def uv__signal_compare_def)
  then show ?case using Cons by (auto simp: Let_def)
qed simp

lemma tree_insert_in_order:
  "in_order s t \<Longrightarrow> x \<notin> set t \<Longrightarrow> in_order s (tree_insert (sig_key s) x t)"
proof (induction t)
  case (Cons y t)
  show ?case
  proof (cases "uv__signal_compare (sig_key s x) (sig_key s y) < 0")
    case True
    then show ?thesis using Cons.prems(1) compare_trans [OF True] by (auto simp: in_order_def Let_def)
  next
    case False
    then show ?thesis using Cons compare_total [OF False] tree_insert_set [of x t s] by (auto simp: in_order_def Let_def)
  qed
qed (simp add: in_order_def)

lemma first_handles_eq: "first_handles s sn = dropWhile (\<lambda>y. signum s y < sn) (signal_tree s)"
proof -
  have "uv__signal_compare (sn, 0, 0, 0) (sig_key s y) > 0 \<longleftrightarrow> signum s y < sn" for y
    by (auto simp: sig_key_def compare_less)
  then show ?thesis by (simp add: first_handles_def tree_nfind_def)
qed

text \<open>The first node: there is none, or it is one-shot only if every node of its signal is.\<close>

lemma in_order_signums:
  assumes "in_order s (x # t)" "y \<in> set t"
  shows "signum s x \<le> signum s y"
    "signum s x = signum s y \<Longrightarrow> flags s x AND UV_SIGNAL_ONE_SHOT \<le> flags s y AND UV_SIGNAL_ONE_SHOT"
  using assms by (auto simp: in_order_def sig_key_def compare_less)

lemma first_handle_None:
  assumes "in_order s (signal_tree s)"
  shows "uv__signal_first_handle s sn = None \<longleftrightarrow> (\<forall>h \<in> set (signal_tree s). signum s h \<noteq> sn)"
proof -
  have "(case dropWhile (\<lambda>y. signum s y < sn) t of [] \<Rightarrow> None | h # _ \<Rightarrow> if signum s h = sn then Some h else None) = None
      \<longleftrightarrow> (\<forall>h \<in> set t. signum s h \<noteq> sn)" if "in_order s t" for t
    using that
  proof (induction t)
    case (Cons x t)
    have "in_order s t" using Cons.prems by (simp add: in_order_def)
    note IH = Cons.IH [OF this]
    show ?case
    proof (cases "signum s x < sn")
      case True
      then show ?thesis using IH by auto
    next
      case False
      then show ?thesis using in_order_signums(1) [OF Cons.prems] by force
    qed
  qed simp
  then show ?thesis using assms by (simp add: uv__signal_first_handle_def first_handles_eq)
qed

lemma first_handle_Some:
  assumes "in_order s (signal_tree s)" "uv__signal_first_handle s sn = Some h"
  shows "h \<in> set (signal_tree s)" "signum s h = sn"
    "has_flag s h UV_SIGNAL_ONE_SHOT \<Longrightarrow> y \<in> set (signal_tree s) \<Longrightarrow> signum s y = sn \<Longrightarrow> has_flag s y UV_SIGNAL_ONE_SHOT"
proof -
  have main: "h \<in> set t \<and> signum s h = sn \<and> (\<forall>y \<in> set t. signum s y = sn \<longrightarrow>
      flags s h AND UV_SIGNAL_ONE_SHOT \<le> flags s y AND UV_SIGNAL_ONE_SHOT)"
    if "in_order s t" "(case dropWhile (\<lambda>y. signum s y < sn) t of [] \<Rightarrow> None | h # _ \<Rightarrow> if signum s h = sn then Some h else None) = Some h" for t
    using that
  proof (induction t)
    case (Cons x t)
    have "in_order s t" using Cons.prems by (simp add: in_order_def)
    note IH = Cons.IH [OF this]
    show ?case
    proof (cases "signum s x < sn")
      case True
      then show ?thesis using IH Cons.prems(2) by auto
    next
      case False
      then have "h = x" "signum s x = sn" using Cons.prems(2) by (auto split: if_splits)
      then show ?thesis using in_order_signums(2) [OF Cons.prems(1)] by auto
    qed
  qed simp
  note m = main [OF assms(1)] assms(2) [unfolded uv__signal_first_handle_def first_handles_eq]
  show "h \<in> set (signal_tree s)" "signum s h = sn" using m by auto
  show "has_flag s y UV_SIGNAL_ONE_SHOT" if "has_flag s h UV_SIGNAL_ONE_SHOT" "y \<in> set (signal_tree s)" "signum s y = sn"
  proof -
    have "flags s h AND UV_SIGNAL_ONE_SHOT \<le> flags s y AND UV_SIGNAL_ONE_SHOT" using m that by auto
    moreover have "flags s h AND UV_SIGNAL_ONE_SHOT > 0" using that(1) by (simp add: has_flag_def word_gt_0)
    ultimately show ?thesis using word_gt_0 by (simp add: has_flag_def)
  qed
qed


section \<open>The kernel\<close>

text \<open>
  What the calls of this file document, for a loop with the lock pipe \<open>(lr, lw)\<close> and the signal pipe
  \<open>(rfd, wfd)\<close>: \<open>disp w\<close> is the table of dispositions, \<open>valid\<close> are the signals that can be handled,
  \<open>unlocked w\<close> says that a byte is in the lock pipe, \<open>input w\<close> is what is in the signal pipe, which has room for
  \<open>room\<close> bytes: a write of no more than \<open>PIPE_BUF\<close> bytes is done as a whole, or fails with \<open>EAGAIN\<close> when there is no
  room for it.  A blocked reader is not modelled: nothing is said of a lock that is taken.
\<close>

definition signal_laws ::
  "'w signal_kernel \<Rightarrow> int \<times> int \<Rightarrow> int \<times> int \<Rightarrow> ('w \<Rightarrow> int \<Rightarrow> disposition) \<Rightarrow> (int \<Rightarrow> bool) \<Rightarrow>
    ('w \<Rightarrow> bool) \<Rightarrow> ('w \<Rightarrow> string) \<Rightarrow> nat \<Rightarrow> bool" where
  "signal_laws K l p disp valid unlocked input room \<longleftrightarrow>
     (\<forall>b w. \<exists>w'. k_block_signals K b w = (Inr (), w') \<and> disp w' = disp w \<and> unlocked w' = unlocked w \<and> input w' = input w) \<and>
     (\<forall>w. unlocked w \<longrightarrow> (\<exists>c w'. retry_eintr (k_read K (fst l) 1) w = Some (Inr c, w') \<and>
        disp w' = disp w \<and> \<not> unlocked w' \<and> input w' = input w)) \<and>
     (\<forall>w. \<exists>n w'. retry_eintr (k_write K (snd l) ''*'') w = Some (Inr n, w') \<and>
        disp w' = disp w \<and> unlocked w' \<and> input w' = input w) \<and>
     (\<forall>sn d w. \<exists>r w'. k_sigaction K sn d w = (r, w') \<and> unlocked w' = unlocked w \<and> input w' = input w \<and>
        (r = Inr () \<longleftrightarrow> valid sn) \<and> disp w' = (if r = Inr () then (disp w)(sn := d) else disp w)) \<and>
     (\<forall>n w. 0 < n \<longrightarrow> (if input w = [] then \<exists>w'. k_read K (fst p) n w = (Inl UV_EAGAIN, w') \<and>
            disp w' = disp w \<and> unlocked w' = unlocked w \<and> input w' = input w
        else \<exists>w'. k_read K (fst p) n w = (Inr (take n (input w)), w') \<and>
            disp w' = disp w \<and> unlocked w' = unlocked w \<and> input w' = drop n (input w))) \<and>
     (\<forall>b w. length b \<le> 4096 \<longrightarrow> (\<exists>w'. disp w' = disp w \<and> unlocked w' = unlocked w \<and>
        (if length (input w) + length b \<le> room
         then retry_eintr (k_write K (snd p) b) w = Some (Inr (length b), w') \<and> input w' = input w @ b
         else retry_eintr (k_write K (snd p) b) w = Some (Inl UV_EAGAIN, w') \<and> input w' = input w)))"

lemma signal_lawsD:
  assumes "signal_laws K l p disp valid unlocked input room"
  shows "\<exists>w'. k_block_signals K b w = (Inr (), w') \<and> disp w' = disp w \<and> unlocked w' = unlocked w \<and> input w' = input w"
    "unlocked w \<Longrightarrow> \<exists>c w'. retry_eintr (k_read K (fst l) 1) w = Some (Inr c, w') \<and>
        disp w' = disp w \<and> \<not> unlocked w' \<and> input w' = input w"
    "\<exists>n w'. retry_eintr (k_write K (snd l) ''*'') w = Some (Inr n, w') \<and> disp w' = disp w \<and> unlocked w' \<and> input w' = input w"
    "\<exists>r w'. k_sigaction K sn d w = (r, w') \<and> unlocked w' = unlocked w \<and> input w' = input w \<and>
        (r = Inr () \<longleftrightarrow> valid sn) \<and> disp w' = (if r = Inr () then (disp w)(sn := d) else disp w)"
    "length bs \<le> 4096 \<Longrightarrow> \<exists>w'. disp w' = disp w \<and> unlocked w' = unlocked w \<and>
        (if length (input w) + length bs \<le> room
         then retry_eintr (k_write K (snd p) bs) w = Some (Inr (length bs), w') \<and> input w' = input w @ bs
         else retry_eintr (k_write K (snd p) bs) w = Some (Inl UV_EAGAIN, w') \<and> input w' = input w)"
    "0 < n \<Longrightarrow> input w = [] \<Longrightarrow> \<exists>w'. k_read K (fst p) n w = (Inl UV_EAGAIN, w') \<and>
            disp w' = disp w \<and> unlocked w' = unlocked w \<and> input w' = input w"
    "0 < n \<Longrightarrow> input w \<noteq> [] \<Longrightarrow> \<exists>w'. k_read K (fst p) n w = (Inr (take n (input w)), w') \<and>
            disp w' = disp w \<and> unlocked w' = unlocked w \<and> input w' = drop n (input w)"
  using assms unfolding signal_laws_def by (blast, blast, blast, blast, blast, metis, metis)

lemma lock_result:
  assumes "signal_laws K (signal_lock_pipefd s) p disp valid unlocked input room" "unlocked (os s)"
  shows "\<exists>w. uv__signal_block_and_lock K s = Some (s\<lparr>os := w\<rparr>) \<and> disp w = disp (os s) \<and> \<not> unlocked w \<and> input w = input (os s)"
proof -
  obtain w1 where w1: "k_block_signals K True (os s) = (Inr (), w1)" "disp w1 = disp (os s)" "unlocked w1" "input w1 = input (os s)"
    using signal_lawsD(1) [OF assms(1), of True "os s"] assms(2) by auto
  obtain c w2 where "retry_eintr (k_read K (fst (signal_lock_pipefd s)) 1) w1 = Some (Inr c, w2)" "disp w2 = disp w1" "\<not> unlocked w2"
    "input w2 = input w1"
    using signal_lawsD(2) [OF assms(1) w1(3)] by blast
  then show ?thesis using w1 by (intro exI [of _ w2]) (simp add: uv__signal_block_and_lock_def uv__signal_lock_def sys_def sys_prog_def)
qed

lemma unlock_result:
  assumes "signal_laws K (signal_lock_pipefd s) p disp valid unlocked input room"
  shows "\<exists>w. uv__signal_unlock_and_unblock K s = Some (s\<lparr>os := w\<rparr>) \<and> disp w = disp (os s) \<and> unlocked w \<and> input w = input (os s)"
proof -
  obtain n w1 where w1: "retry_eintr (k_write K (snd (signal_lock_pipefd s)) ''*'') (os s) = Some (Inr n, w1)"
    "disp w1 = disp (os s)" "unlocked w1" "input w1 = input (os s)"
    using signal_lawsD(3) [OF assms] by blast
  obtain w2 where "k_block_signals K False w1 = (Inr (), w2)" "disp w2 = disp w1" "unlocked w2 = unlocked w1" "input w2 = input w1"
    using signal_lawsD(1) [OF assms] by blast
  then show ?thesis using w1 by (intro exI [of _ w2]) (simp add: uv__signal_unlock_and_unblock_def uv__signal_unlock_def sys_def sys_prog_def)
qed

section \<open>The invariant\<close>

text \<open>
  The tree holds the handles that are started, in order, all for signals that can be handled.
\<close>

definition tree_ok :: "(int \<Rightarrow> bool) \<Rightarrow> ('w, 'a) signal_loop_scheme \<Rightarrow> bool" where
  "tree_ok valid s \<longleftrightarrow> in_order s (signal_tree s) \<and> (\<forall>h. h \<in> set (signal_tree s) \<longleftrightarrow> signum s h \<noteq> 0) \<and>
     (\<forall>h \<in> set (signal_tree s). valid (signum s h))"

text \<open>The disposition the handles call for.\<close>

definition wanted :: "('w, 'a) signal_loop_scheme \<Rightarrow> int \<Rightarrow> disposition" where
  "wanted s sn = (if \<exists>h \<in> set (signal_tree s). signum s h = sn
     then SigHandler (\<forall>h \<in> set (signal_tree s). signum s h = sn \<longrightarrow> has_flag s h UV_SIGNAL_ONE_SHOT) else SigDfl)"

definition handled :: "('w \<Rightarrow> int \<Rightarrow> disposition) \<Rightarrow> ('w, 'a) signal_loop_scheme \<Rightarrow> bool" where
  "handled disp s \<longleftrightarrow> (\<forall>sn. sn \<noteq> 0 \<longrightarrow> disp (os s) sn = wanted s sn)"

text \<open>What stopping leaves alone.\<close>

definition stop_frame :: "('w, 'a) signal_loop_scheme \<Rightarrow> ('w, 'a) signal_loop_scheme \<Rightarrow> bool" where
  "stop_frame s s' \<longleftrightarrow> s' = s\<lparr>flags := flags s', active_handles := active_handles s', signal_tree := signal_tree s',
     signum := signum s', os := os s'\<rparr>"

lemma signal_stop_result:
  assumes L: "signal_laws K (signal_lock_pipefd s) p disp valid unlocked input room" and tok: "unlocked (os s)" and ok: "tree_ok valid s"
    and on: "signum s h \<noteq> 0"
  shows "\<exists>s'. uv__signal_stop K h s = Some s' \<and> stop_frame s s' \<and> tree_ok valid s' \<and> unlocked (os s') \<and> input (os s') = input (os s) \<and>
    signal_tree s' = remove1 h (signal_tree s) \<and> signum s' = (signum s)(h := 0) \<and>
    (\<forall>k m. m AND UV_HANDLE_ACTIVE = 0 \<longrightarrow> has_flag s' k m = has_flag s k m) \<and>
    (\<forall>sn. sn \<noteq> signum s h \<longrightarrow> disp (os s') sn = disp (os s) sn) \<and>
    (disp (os s) (signum s h) = wanted s (signum s h) \<longrightarrow> disp (os s') (signum s h) = wanted s' (signum s h))"
proof -
  define sn where "sn = signum s h"
  obtain w1 where w1: "uv__signal_block_and_lock K s = Some (s\<lparr>os := w1\<rparr>)" "disp w1 = disp (os s)" "\<not> unlocked w1" "input w1 = input (os s)"
    using lock_result [OF L tok] by blast
  have mem: "h \<in> set (signal_tree s)" using ok on by (simp add: tree_ok_def)
  define s2 where "s2 = s\<lparr>os := w1, signal_tree := remove1 h (signal_tree s)\<rparr>"
  have inord: "in_order s (signal_tree s)" using ok by (simp add: tree_ok_def)
  have key2: "sig_key s2 x = sig_key s x" for x by (simp add: s2_def sig_key_def)
  have ord2: "in_order s2 (signal_tree s2)"
    using in_order_remove [OF inord, of h] in_order_cong [of "signal_tree s2" s2 s] key2 by (simp add: s2_def tree_remove_def)
  have set2: "set (signal_tree s2) = set (signal_tree s) - {h}"
    using in_order_distinct [OF inord] by (simp add: s2_def)
  have f2: "signum s2 = signum s" "flags s2 = flags s" "os s2 = w1" "signal_lock_pipefd s2 = signal_lock_pipefd s" by (simp_all add: s2_def)
  have val: "valid sn" using ok mem by (simp add: tree_ok_def sn_def)
  obtain w3 where w3: "(case uv__signal_first_handle s2 (signum s2 h) of
               None \<Rightarrow> uv__signal_unregister_handler K (signum s2 h) s2
             | Some first \<Rightarrow>
                 if has_flag s2 first UV_SIGNAL_ONE_SHOT \<and> \<not> has_flag s2 h UV_SIGNAL_ONE_SHOT then
                   (case sys (uv__signal_register_handler K (signum s2 h) True) s2 of
                      (ret, s) \<Rightarrow> uv_assert (ret = Inr ()) \<bind> (\<lambda>_. Some s))
                 else Some s2) = Some (s2\<lparr>os := w3\<rparr>)"
    "\<not> unlocked w3" "input w3 = input w1" "\<forall>x. x \<noteq> sn \<longrightarrow> disp w3 x = disp w1 x"
    "disp (os s) sn = wanted s sn \<longrightarrow> disp w3 sn = wanted s2 sn"
  proof (cases "uv__signal_first_handle s2 sn")
    case None
    obtain w where w: "k_sigaction K sn SigDfl w1 = (Inr (), w)" "unlocked w = unlocked w1" "input w = input w1" "disp w = (disp w1)(sn := SigDfl)"
      using signal_lawsD(4) [OF L, of sn SigDfl w1] val by auto
    have "wanted s2 sn = SigDfl" using first_handle_None [OF ord2, of sn] None by (auto simp: wanted_def)
    then show thesis
      using that [of w] w w1(3) None f2 by (simp add: sn_def uv__signal_unregister_handler_def sys_def)
  next
    case (Some first)
    note fst = first_handle_Some [OF ord2 Some]
    show thesis
    proof (cases "has_flag s2 first UV_SIGNAL_ONE_SHOT \<and> \<not> has_flag s2 h UV_SIGNAL_ONE_SHOT")
      case True
      obtain w where w: "k_sigaction K sn (SigHandler True) w1 = (Inr (), w)" "unlocked w = unlocked w1" "input w = input w1"
        "disp w = (disp w1)(sn := SigHandler True)"
        using signal_lawsD(4) [OF L, of sn "SigHandler True" w1] val by auto
      have "wanted s2 sn = SigHandler True" using fst True by (auto simp: wanted_def)
      then show thesis
        using that [of w] w w1(3) Some True f2 by (simp add: sn_def uv__signal_register_handler_def sys_def)
    next
      case False
      have "wanted s sn = wanted s2 sn"
      proof -
        have hf: "has_flag s2 x UV_SIGNAL_ONE_SHOT = has_flag s x UV_SIGNAL_ONE_SHOT" for x using f2(2) by (simp add: has_flag_def)
        have "\<exists>y \<in> set (signal_tree s). signum s y = sn" "\<exists>y \<in> set (signal_tree s2). signum s2 y = sn"
          using fst(1,2) set2 f2(1) by auto
        moreover have "(\<forall>y \<in> set (signal_tree s). signum s y = sn \<longrightarrow> has_flag s y UV_SIGNAL_ONE_SHOT) \<longleftrightarrow>
          (\<forall>y \<in> set (signal_tree s2). signum s2 y = sn \<longrightarrow> has_flag s2 y UV_SIGNAL_ONE_SHOT)"
        proof (cases "has_flag s2 first UV_SIGNAL_ONE_SHOT")
          case True
          then have a: "\<forall>y \<in> set (signal_tree s2). signum s2 y = sn \<longrightarrow> has_flag s2 y UV_SIGNAL_ONE_SHOT" using fst(3) by blast
          have b: "has_flag s2 h UV_SIGNAL_ONE_SHOT" using True False by simp
          have "has_flag s y UV_SIGNAL_ONE_SHOT" if "y \<in> set (signal_tree s)" "signum s y = sn" for y
            using a b hf f2(1) set2 that by (cases "y = h") auto
          then show ?thesis using a by blast
        next
          case False
          have "first \<in> set (signal_tree s)" "signum s first = sn" using fst(1,2) set2 f2(1) by auto
          then show ?thesis using False fst(1,2) hf by blast
        qed
        ultimately show ?thesis by (simp add: wanted_def)
      qed
      then show thesis using that [of w1] w1 Some False f2 by (auto simp: sn_def)
    qed
  qed
  define s3 where "s3 = s2\<lparr>os := w3\<rparr>"
  have L3: "signal_laws K (signal_lock_pipefd s3) p disp valid unlocked input room" using L by (simp add: s3_def s2_def)
  obtain w4 where w4: "uv__signal_unlock_and_unblock K s3 = Some (s3\<lparr>os := w4\<rparr>)" "disp w4 = disp w3" "unlocked w4" "input w4 = input w3"
    using unlock_result [OF L3] by (auto simp: s3_def)
  define s5 where "s5 = s3\<lparr>os := w4, signum := (signum s)(h := 0)\<rparr>"
  let ?s = "uv__handle_stop h s5"
  have run: "uv__signal_stop K h s = Some ?s"
  proof -
    have a: "uv_assert (h \<in> set (signal_tree (s\<lparr>os := w1\<rparr>))) = Some ()" using mem by simp
    have b: "s\<lparr>os := w1\<rparr>\<lparr>signal_tree := tree_remove h (signal_tree (s\<lparr>os := w1\<rparr>))\<rparr> = s2" by (simp add: s2_def tree_remove_def)
    have c: "s3\<lparr>os := w4\<rparr>\<lparr>signum := (signum (s3\<lparr>os := w4\<rparr>))(h := 0)\<rparr> = s5" by (simp add: s5_def s3_def s2_def)
    show ?thesis
      unfolding uv__signal_stop_def if_not_P [OF on] w1(1) bind.bind_lunit Let_def a b w3(1) s3_def [symmetric] w4(1) c by (rule refl)
  qed
  have st: "signum ?s = (signum s)(h := 0)" "signal_tree ?s = remove1 h (signal_tree s)" "os ?s = w4" "sig_loop ?s = sig_loop s"
    by (simp_all add: handle_defs clear_flag_def s5_def s3_def s2_def)
  have fl: "has_flag ?s k m = has_flag s k m" if "m AND UV_HANDLE_ACTIVE = 0" for k m
    using that by (simp add: has_flag_handle_stop(2) and.commute) (simp add: has_flag_def s5_def s3_def s2_def)
  have one: "flags ?s x AND UV_SIGNAL_ONE_SHOT = flags s x AND UV_SIGNAL_ONE_SHOT" for x
    using flag_and_not [of UV_HANDLE_ACTIVE UV_SIGNAL_ONE_SHOT "flags s h", simplified]
    by (simp add: handle_defs clear_flag_def s5_def s3_def s2_def)
  have t: "set (signal_tree ?s) = set (signal_tree s) - {h}" using st(2) set2 by (simp add: s2_def)
  have "sig_key ?s x = sig_key s2 x" if "x \<in> set (signal_tree s2)" for x
    using that set2 st one f2 by (auto simp: sig_key_def s2_def)
  then have "in_order ?s (signal_tree ?s)" using ord2 in_order_cong [of "signal_tree s2" ?s s2] st(2) by (simp add: s2_def)
  then have ok': "tree_ok valid ?s" using ok t st(1) by (auto simp: tree_ok_def)
  have want: "wanted ?s x = wanted s2 x" for x
  proof -
    have "has_flag ?s y UV_SIGNAL_ONE_SHOT = has_flag s2 y UV_SIGNAL_ONE_SHOT" for y using one [of y] f2(2) by (simp add: has_flag_def)
    moreover have "signum ?s y = signum s2 y" if "y \<in> set (signal_tree s2)" for y using that set2 st(1) f2(1) by auto
    ultimately show ?thesis using t set2 by (simp add: wanted_def cong: ball_cong_simp bex_cong_simp conj_cong)
  qed
  have fr: "stop_frame s ?s"
    by (simp add: stop_frame_def handle_defs clear_flag_def s5_def s3_def s2_def)
  show ?thesis
    using run fr ok' st w1(2,4) w3(3-5) w4(2-4) fl want by (intro exI [of _ ?s]) (simp add: sn_def)
qed


lemma oneshot_set: "((f :: u32) OR UV_SIGNAL_ONE_SHOT) AND UV_SIGNAL_ONE_SHOT = UV_SIGNAL_ONE_SHOT"
  by (rule bit_eqI) (auto simp: bit_and_iff bit_or_iff)

text \<open>The last part of \<open>uv__signal_start\<close>, once the handler is registered and the handle not started.\<close>

lemma enter_tree:
  assumes ok: "tree_ok valid s" and off: "signum s h = 0" and sn: "sn \<noteq> 0" "valid sn"
    and stale: "\<not> oneshot \<longrightarrow> \<not> has_flag s h UV_SIGNAL_ONE_SHOT"
    and d: "\<forall>x. x \<noteq> 0 \<longrightarrow> d x = (if x = sn then
        (if uv__signal_first_handle s sn = None \<or> \<not> oneshot \<and> has_flag s (the (uv__signal_first_handle s sn)) UV_SIGNAL_ONE_SHOT
         then SigHandler oneshot else wanted s sn) else wanted s x)"
  defines "s1 \<equiv> (let s = s\<lparr>signum := (signum s)(h := sn)\<rparr> in if oneshot then set_flag h UV_SIGNAL_ONE_SHOT s else s)"
  shows "tree_ok valid (s1\<lparr>signal_tree := tree_insert (sig_key s1) h (signal_tree s1)\<rparr>)"
    "\<forall>x. x \<noteq> 0 \<longrightarrow> d x = wanted (s1\<lparr>signal_tree := tree_insert (sig_key s1) h (signal_tree s1)\<rparr>) x"
proof -
  have inord: "in_order s (signal_tree s)" using ok by (simp add: tree_ok_def)
  have out: "h \<notin> set (signal_tree s)" using ok off by (simp add: tree_ok_def)
  have f1: "signum s1 = (signum s)(h := sn)" "signal_tree s1 = signal_tree s" "sig_loop s1 = sig_loop s"
    by (simp_all add: s1_def Let_def set_flag_def)
  have fl: "has_flag s1 x UV_SIGNAL_ONE_SHOT = (if x = h then oneshot else has_flag s x UV_SIGNAL_ONE_SHOT)" for x
    using stale by (auto simp: s1_def Let_def flag_simps has_flag_def set_flag_def oneshot_set)
  have key: "sig_key s1 x = sig_key s x" if "x \<noteq> h" for x
    using that by (simp add: sig_key_def s1_def Let_def set_flag_def)
  have inord1: "in_order s1 (signal_tree s1)"
    using inord in_order_cong [of "signal_tree s" s1 s] key out f1(2) by metis
  let ?t = "tree_insert (sig_key s1) h (signal_tree s1)"
  let ?s = "s1\<lparr>signal_tree := ?t\<rparr>"
  have t: "set ?t = insert h (set (signal_tree s))" using tree_insert_set [of h "signal_tree s1" s1] out f1(2) by simp
  have "in_order s1 ?t" using tree_insert_in_order [OF inord1] out f1(2) by simp
  then have "in_order ?s ?t" using in_order_cong [of ?t ?s s1] by (simp add: sig_key_def)
  then show "tree_ok valid ?s" using ok sn t f1 by (auto simp: tree_ok_def)
  have S: "has_flag ?s x UV_SIGNAL_ONE_SHOT = has_flag s1 x UV_SIGNAL_ONE_SHOT" for x by (simp add: has_flag_def)
  show "\<forall>x. x \<noteq> 0 \<longrightarrow> d x = wanted ?s x"
  proof (intro allI impI)
    fix x :: int assume x: "x \<noteq> 0"
    show "d x = wanted ?s x"
    proof (cases "x = sn")
      case False
      have "wanted ?s x = wanted s x" using False t f1 out S fl by (auto simp: wanted_def)
      then show ?thesis using d x False by simp
    next
      case True
      have w: "wanted ?s sn = SigHandler (oneshot \<and> (\<forall>y \<in> set (signal_tree s). signum s y = sn \<longrightarrow> has_flag s y UV_SIGNAL_ONE_SHOT))"
        using t f1 out S fl by (auto simp: wanted_def)
      show ?thesis
      proof (cases "uv__signal_first_handle s sn")
        case None
        then have "\<forall>y \<in> set (signal_tree s). signum s y \<noteq> sn" using first_handle_None [OF inord] by simp
        then show ?thesis using d x True None w by auto
      next
        case (Some first)
        note fst = first_handle_Some [OF inord Some]
        have ws: "wanted s sn = SigHandler (\<forall>y \<in> set (signal_tree s). signum s y = sn \<longrightarrow> has_flag s y UV_SIGNAL_ONE_SHOT)"
          using fst(1,2) by (auto simp: wanted_def)
        show ?thesis
        proof (cases "has_flag s first UV_SIGNAL_ONE_SHOT")
          case True
          then show ?thesis using d x \<open>x = sn\<close> Some w ws fst(3) by (cases oneshot) auto
        next
          case False
          then show ?thesis using d x \<open>x = sn\<close> Some w ws fst(1,2) by auto
        qed
      qed
    qed
  qed
qed


lemma wanted_cong:
  assumes "signal_tree s' = signal_tree s" "signum s' = signum s"
    "\<And>x. has_flag s' x UV_SIGNAL_ONE_SHOT = has_flag s x UV_SIGNAL_ONE_SHOT"
  shows "wanted s' = wanted s"
  using assms by (simp add: wanted_def fun_eq_iff)

lemma tree_ok_cong:
  assumes "signal_tree s' = signal_tree s" "signum s' = signum s" "sig_loop s' = sig_loop s"
    "\<And>x. flags s' x AND UV_SIGNAL_ONE_SHOT = flags s x AND UV_SIGNAL_ONE_SHOT"
  shows "tree_ok valid s' = tree_ok valid s"
  using in_order_cong [of "signal_tree s" s' s] assms by (simp add: tree_ok_def sig_key_def)

lemma handle_start_one_shot:
  "flags (uv__handle_start h s) x AND UV_SIGNAL_ONE_SHOT = flags s x AND UV_SIGNAL_ONE_SHOT"
proof -
  have "(f OR UV_HANDLE_ACTIVE) AND UV_SIGNAL_ONE_SHOT = f AND (UV_SIGNAL_ONE_SHOT :: u32)" for f
    by (simp add: bit.conj_disj_distrib2)
  then show ?thesis by (simp add: handle_defs set_flag_def)
qed

lemma register_part:
  assumes L: "signal_laws K (signal_lock_pipefd s) p disp valid unlocked input room"
    and ok: "tree_ok valid s" and hd: "handled disp s" and b: "b \<longleftrightarrow> first = None \<or> \<not> oneshot \<and> has_flag s (the first) UV_SIGNAL_ONE_SHOT"
    and f: "first = uv__signal_first_handle s sn"
  shows "\<exists>r w. (if b then sys (uv__signal_register_handler K sn oneshot) s else (Inr (), s)) = (r, s\<lparr>os := w\<rparr>) \<and>
    (r = Inr () \<longleftrightarrow> valid sn) \<and> unlocked w = unlocked (os s) \<and> input w = input (os s) \<and>
    disp w = (if b \<and> valid sn then (disp (os s))(sn := SigHandler oneshot) else disp (os s))"
proof (cases b)
  case True
  obtain r w where w: "k_sigaction K sn (SigHandler oneshot) (os s) = (r, w)" "unlocked w = unlocked (os s)" "input w = input (os s)"
    "r = Inr () \<longleftrightarrow> valid sn" "disp w = (if r = Inr () then (disp (os s))(sn := SigHandler oneshot) else disp (os s))"
    using signal_lawsD(4) [OF L, of sn "SigHandler oneshot" "os s"] by blast
  then show ?thesis using True by (intro exI [of _ r] exI [of _ w]) (simp add: uv__signal_register_handler_def sys_def)
next
  case False
  then obtain g where g: "uv__signal_first_handle s sn = Some g" using b f by auto
  have "in_order s (signal_tree s)" using ok by (simp add: tree_ok_def)
  then have "valid sn" using first_handle_Some [OF _ g] ok by (auto simp: tree_ok_def)
  then show ?thesis using False by (intro exI [of _ "Inr ()"] exI [of _ "os s"]) simp
qed

lemma start_blocked_result:
  assumes L: "signal_laws K (signal_lock_pipefd s) p disp valid unlocked input room" and tok: "unlocked (os s)"
    and ok: "tree_ok valid s" and hd: "handled disp s" and off: "signum s h = 0" and sn: "sn \<noteq> 0"
    and stale: "\<not> oneshot \<longrightarrow> \<not> has_flag s h UV_SIGNAL_ONE_SHOT"
  shows "\<exists>r s'. start_blocked K h cb sn oneshot s = Some (r, s') \<and>
    tree_ok valid s' \<and> handled disp s' \<and> unlocked (os s') \<and> input (os s') = input (os s) \<and>
    (if valid sn then r = Inr () \<and> signum s' = (signum s)(h := sn) \<and> signal_cb s' h = cb
     else r \<noteq> Inr () \<and> signum s' = signum s)"
proof -
  obtain w1 where w1: "uv__signal_block_and_lock K s = Some (s\<lparr>os := w1\<rparr>)" "disp w1 = disp (os s)" "\<not> unlocked w1" "input w1 = input (os s)"
    using lock_result [OF L tok] by blast
  define t where "t = s\<lparr>os := w1\<rparr>"
  define first where "first = uv__signal_first_handle t sn"
  define b where "b \<longleftrightarrow> first = None \<or> \<not> oneshot \<and> has_flag t (the first) UV_SIGNAL_ONE_SHOT"
  have Lt: "signal_laws K (signal_lock_pipefd t) p disp valid unlocked input room" using L by (simp add: t_def)
  have okt: "tree_ok valid t" using ok tree_ok_cong [of t s valid] by (simp add: t_def)
  have wt: "wanted t = wanted s" by (rule wanted_cong) (simp_all add: t_def has_flag_def)
  have hdt: "handled disp t" using hd w1(2) wt by (simp add: handled_def t_def)
  have ot: "os t = w1" by (simp add: t_def)
  obtain r w2 where w2: "(if b then sys (uv__signal_register_handler K sn oneshot) t else (Inr (), t)) = (r, t\<lparr>os := w2\<rparr>)"
    "r = Inr () \<longleftrightarrow> valid sn" "unlocked w2 = unlocked w1" "input w2 = input w1"
    "disp w2 = (if b \<and> valid sn then (disp w1)(sn := SigHandler oneshot) else disp w1)"
    using register_part [OF Lt okt hdt b_def first_def] unfolding ot by blast
  define u where "u = t\<lparr>os := w2\<rparr>"
  have Lu: "signal_laws K (signal_lock_pipefd u) p disp valid unlocked input room" using L by (simp add: u_def t_def)
  have eq: "start_blocked K h cb sn oneshot s = (case r of
        Inl e \<Rightarrow> do {
          s \<leftarrow> uv__signal_unlock_and_unblock K u;
          Some (Inl e, s) }
      | Inr _ \<Rightarrow> do {
          let s = u\<lparr>signum := (signum u)(h := sn)\<rparr>;
          let s = (if oneshot then set_flag h UV_SIGNAL_ONE_SHOT s else s);
          let s = s\<lparr>signal_tree := tree_insert (sig_key s) h (signal_tree s)\<rparr>;
          s \<leftarrow> uv__signal_unlock_and_unblock K s;
          let s = s\<lparr>signal_cb := (signal_cb s)(h := cb)\<rparr>;
          Some (Inr (), uv__handle_start h s) })"
    unfolding start_blocked_def w1(1) bind.bind_lunit Let_def t_def [symmetric] first_def [symmetric] b_def [symmetric] w2(1)
      u_def [symmetric] by simp
  show ?thesis
  proof (cases r)
    case (Inl e)
    obtain w3 where w3: "uv__signal_unlock_and_unblock K u = Some (u\<lparr>os := w3\<rparr>)" "disp w3 = disp w2" "unlocked w3" "input w3 = input w2"
      using unlock_result [OF Lu] by (auto simp: u_def)
    let ?s = "u\<lparr>os := w3\<rparr>"
    have "tree_ok valid ?s" using ok tree_ok_cong [of ?s s valid] by (simp add: u_def t_def)
    moreover have "wanted ?s = wanted s" by (rule wanted_cong) (simp_all add: u_def t_def has_flag_def)
    moreover have "disp w3 = disp (os s)" using w3(2) w2(2,5) w1(2) Inl by auto
    ultimately show ?thesis
      using eq Inl w3 w2 w1 hd by (intro exI [of _ "Inl e"] exI [of _ ?s]) (simp add: handled_def u_def t_def)
  next
    case (Inr x)
    have val: "valid sn" using w2(2) Inr by simp
    define v where "v = (let s = u\<lparr>signum := (signum u)(h := sn)\<rparr> in if oneshot then set_flag h UV_SIGNAL_ONE_SHOT s else s)"
    define v' where "v' = v\<lparr>signal_tree := tree_insert (sig_key v) h (signal_tree v)\<rparr>"
    have oku: "tree_ok valid u" using ok tree_ok_cong [of u s valid] by (simp add: u_def t_def)
    have wu: "wanted u = wanted s" by (rule wanted_cong) (simp_all add: u_def t_def has_flag_def)
    have fu: "uv__signal_first_handle u sn = first"
    proof -
      have "signum u = signum t" "signal_tree u = signal_tree t" by (simp_all add: u_def)
      then show ?thesis by (simp only: first_def uv__signal_first_handle_def first_handles_eq)
    qed
    have du: "\<forall>y. y \<noteq> 0 \<longrightarrow> disp w2 y = (if y = sn then
        (if uv__signal_first_handle u sn = None \<or> \<not> oneshot \<and> has_flag u (the (uv__signal_first_handle u sn)) UV_SIGNAL_ONE_SHOT
         then SigHandler oneshot else wanted u sn) else wanted u y)"
    proof -
      have "b \<longleftrightarrow> uv__signal_first_handle u sn = None \<or> \<not> oneshot \<and> has_flag u (the (uv__signal_first_handle u sn)) UV_SIGNAL_ONE_SHOT"
        unfolding fu b_def by (simp add: has_flag_def u_def)
      then show ?thesis using w2(5) val w1(2) hd wu sn by (auto simp: handled_def)
    qed
    have su: "signum u h = 0" "\<not> oneshot \<longrightarrow> \<not> has_flag u h UV_SIGNAL_ONE_SHOT"
      using off stale by (simp_all add: u_def t_def has_flag_def)
    have okv: "tree_ok valid v'" and wv: "\<forall>y. y \<noteq> 0 \<longrightarrow> disp w2 y = wanted v' y"
      using enter_tree [OF oku su(1) sn val su(2) du] unfolding v'_def v_def by simp_all
    have Lv: "signal_laws K (signal_lock_pipefd v') p disp valid unlocked input room"
      using L by (simp add: v'_def v_def u_def t_def Let_def set_flag_def)
    have ov: "os v' = w2" by (simp add: v'_def v_def u_def Let_def set_flag_def)
    obtain w3 where w3: "uv__signal_unlock_and_unblock K v' = Some (v'\<lparr>os := w3\<rparr>)" "disp w3 = disp w2" "unlocked w3" "input w3 = input w2"
      using unlock_result [OF Lv] ov by auto
    let ?v = "v'\<lparr>os := w3, signal_cb := (signal_cb v')(h := cb)\<rparr>"
    let ?s = "uv__handle_start h ?v"
    have sf: "signal_tree ?s = signal_tree v'" "signum ?s = signum v'" "sig_loop ?s = sig_loop v'" "os ?s = w3" "signal_cb ?s h = cb"
      by (simp_all add: handle_defs set_flag_def)
    have "tree_ok valid ?s"
      using okv tree_ok_cong [OF sf(1-3)] handle_start_one_shot [of h ?v] by simp
    moreover have "wanted ?s = wanted v'"
      using wanted_cong [OF sf(1,2)] handle_start_one_shot [of h ?v] by (simp add: has_flag_def)
    moreover have "start_blocked K h cb sn oneshot s = Some (Inr (), ?s)"
      using eq Inr w3(1) by (simp add: v'_def v_def Let_def)
    moreover have "signum v' = (signum s)(h := sn)" by (simp add: v'_def v_def u_def t_def Let_def set_flag_def)
    ultimately show ?thesis
      using w3 w2 w1 wv val sf by (intro exI [of _ "Inr ()"] exI [of _ ?s]) (simp add: handled_def)
  qed
qed


text \<open>
  C15: Starting and stopping a signal handle return when the lock is free, free it again, and keep the
  tree in order and the dispositions of the process as the handles call for: a signal nobody watches
  has its default disposition, one that is watched has \<open>uv__signal_handler\<close>, installed for one
  delivery exactly when every handle that watches it is one-shot.  A handle started for a signal that
  can be handled watches it; for one that cannot, it watches nothing and an error is returned.  A
  handle that was one-shot before has to be started as one-shot again.
\<close>

theorem signal_dispositions_follow_handles:
  assumes "signal_laws K (signal_lock_pipefd s) p disp valid unlocked input room" and "unlocked (os s)"
    and "tree_ok valid s" and "handled disp s" and "sn \<noteq> 0" and "\<not> uv__is_closing s h"
    and "\<not> oneshot \<longrightarrow> \<not> has_flag s h UV_SIGNAL_ONE_SHOT"
  shows "(\<exists>r s'. uv__signal_start K h cb sn oneshot s = Some (r, s') \<and> tree_ok valid s' \<and> handled disp s' \<and> unlocked (os s') \<and>
      (if valid sn then r = Inr () \<and> signum s' = (signum s)(h := sn) \<and> signal_cb s' h = cb
       else r \<noteq> Inr () \<and> signum s' = (signum s)(h := 0))) \<and>
    (\<exists>s'. uv__signal_stop K h s = Some s' \<and> tree_ok valid s' \<and> handled disp s' \<and> unlocked (os s') \<and>
      signum s' = (signum s)(h := 0))"
proof -
  have stop: "\<exists>s'. uv__signal_stop K h s = Some s' \<and> stop_frame s s' \<and> tree_ok valid s' \<and> handled disp s' \<and> unlocked (os s') \<and>
      signum s' = (signum s)(h := 0) \<and> (\<forall>k. has_flag s' k UV_SIGNAL_ONE_SHOT = has_flag s k UV_SIGNAL_ONE_SHOT)" if on: "signum s h \<noteq> 0"
  proof -
    obtain s' where s': "uv__signal_stop K h s = Some s'" "stop_frame s s'" "tree_ok valid s'" "unlocked (os s')"
      "signal_tree s' = remove1 h (signal_tree s)" "signum s' = (signum s)(h := 0)"
      "\<forall>k m. m AND UV_HANDLE_ACTIVE = 0 \<longrightarrow> has_flag s' k m = has_flag s k m"
      "\<forall>sn. sn \<noteq> signum s h \<longrightarrow> disp (os s') sn = disp (os s) sn"
      "disp (os s) (signum s h) = wanted s (signum s h) \<longrightarrow> disp (os s') (signum s h) = wanted s' (signum s h)"
      using signal_stop_result [OF assms(1-3) on] by blast
    have fl: "has_flag s' k UV_SIGNAL_ONE_SHOT = has_flag s k UV_SIGNAL_ONE_SHOT" for k using s'(7) by simp
    have dst: "distinct (signal_tree s)" using assms(3) in_order_distinct by (auto simp: tree_ok_def)
    have "wanted s' x = wanted s x" if "x \<noteq> signum s h" "x \<noteq> 0" for x
      using that s'(5,6) fl dst by (auto simp: wanted_def)
    then have "handled disp s'" using assms(4) s'(8,9) on by (auto simp: handled_def) metis
    then show ?thesis using s' fl by blast
  qed
  have stopped: "uv__signal_stop K h s = Some s" "signum s = (signum s)(h := 0)" if "signum s h = 0"
    using that by (simp_all add: uv__signal_stop_def fun_upd_idem)
  have "\<exists>s1. (if signum s h \<noteq> 0 then uv__signal_stop K h s else Some s) = Some s1 \<and> stop_frame s s1 \<and> tree_ok valid s1 \<and>
      handled disp s1 \<and> unlocked (os s1) \<and> signum s1 = (signum s)(h := 0) \<and>
      (\<forall>k. has_flag s1 k UV_SIGNAL_ONE_SHOT = has_flag s k UV_SIGNAL_ONE_SHOT)"
    using stop stopped assms(2-4) by (cases "signum s h = 0") (auto simp: stop_frame_def)
  then obtain s1 where s1: "(if signum s h \<noteq> 0 then uv__signal_stop K h s else Some s) = Some s1" "stop_frame s s1" "tree_ok valid s1"
      "handled disp s1" "unlocked (os s1)" "signum s1 = (signum s)(h := 0)"
      "\<forall>k. has_flag s1 k UV_SIGNAL_ONE_SHOT = has_flag s k UV_SIGNAL_ONE_SHOT" by blast
  have lp: "signal_lock_pipefd s1 = signal_lock_pipefd s" by (subst s1(2) [unfolded stop_frame_def]) simp
  have L1: "signal_laws K (signal_lock_pipefd s1) p disp valid unlocked input room" using assms(1) lp by simp
  have off: "signum s1 h = 0" using s1(6) by simp
  have st1: "\<not> oneshot \<longrightarrow> \<not> has_flag s1 h UV_SIGNAL_ONE_SHOT" using assms(7) s1(7) by simp
  note sb = start_blocked_result [OF L1 s1(5,3,4) off assms(5) st1, of cb]
  show ?thesis
  proof
    show "\<exists>s'. uv__signal_stop K h s = Some s' \<and> tree_ok valid s' \<and> handled disp s' \<and> unlocked (os s') \<and>
      signum s' = (signum s)(h := 0)"
      using stop stopped assms(2-4) by (cases "signum s h = 0") auto
    show "\<exists>r s'. uv__signal_start K h cb sn oneshot s = Some (r, s') \<and> tree_ok valid s' \<and> handled disp s' \<and> unlocked (os s') \<and>
      (if valid sn then r = Inr () \<and> signum s' = (signum s)(h := sn) \<and> signal_cb s' h = cb
       else r \<noteq> Inr () \<and> signum s' = (signum s)(h := 0))"
    proof (cases "sn = signum s h")
      case True
      let ?s = "s\<lparr>signal_cb := (signal_cb s)(h := cb)\<rparr>"
      have "uv__signal_start K h cb sn oneshot s = Some (Inr (), ?s)" using True assms(5,6) by (simp add: uv__signal_start_def)
      moreover have "valid sn" using assms(3,5) True by (auto simp: tree_ok_def)
      moreover have "tree_ok valid ?s" using assms(3) tree_ok_cong [of ?s s] by simp
      moreover have "wanted ?s = wanted s" by (rule wanted_cong) (simp_all add: has_flag_def)
      ultimately show ?thesis using assms(2,4) True
        by (intro exI [of _ "Inr ()"] exI [of _ ?s]) (simp add: handled_def fun_upd_idem)
    next
      case False
      have eq: "uv__signal_start K h cb sn oneshot s = start_blocked K h cb sn oneshot s1"
        unfolding uv__signal_start_def using assms(5,6) False s1(1) by simp
      obtain r s' where "start_blocked K h cb sn oneshot s1 = Some (r, s')" "tree_ok valid s'" "handled disp s'" "unlocked (os s')"
        "if valid sn then r = Inr () \<and> signum s' = (signum s1)(h := sn) \<and> signal_cb s' h = cb else r \<noteq> Inr () \<and> signum s' = signum s1"
        using sb by blast
      then show ?thesis using eq s1(6) by (intro exI [of _ r] exI [of _ s']) (auto split: if_splits)
    qed
  qed
qed

section \<open>Messages and watchers\<close>

lemma length_le_bytes [simp]: "length (le_bytes k n) = k"
  by (induction k arbitrary: n) auto

lemma le_value_bytes: "n < 256 ^ k \<Longrightarrow> le_value (le_bytes k n) = n"
proof (induction k arbitrary: n)
  case (Suc k)
  then have "n div 256 < 256 ^ k" by (simp add: less_mult_imp_div_less mult.commute)
  then show ?case using Suc.IH by simp
qed simp

lemma length_msg [simp]: "length (msg_bytes_of m) = 16"
  by (simp add: msg_bytes_of_def)

lemma msg_roundtrip:
  assumes "h < 2 ^ 64" "- (2 ^ 31) \<le> sn" "sn < 2 ^ 31"
  shows "msg_of_bytes (msg_bytes_of (h, sn)) = (h, sn)"
proof -
  have "unat (word_of_int sn :: u32) < 256 ^ 4" using unsigned_less [of "word_of_int sn :: u32"] by simp
  moreover have "sint (word_of_int sn :: u32) = sn"
    using assms(2,3) by (simp add: signed_of_int signed_take_bit_int_eq_self)
  ultimately show ?thesis
    using assms(1) by (simp add: msg_bytes_of_def msg_of_bytes_def le_value_bytes del: le_bytes.simps)
qed

lemma chunks_of_msgs:
  "chunks16 (length ms) (concat (map msg_bytes_of ms) @ b) = map msg_bytes_of ms"
  by (induction ms) auto

lemma length_msgs: "length (concat (map msg_bytes_of ms)) = 16 * length ms"
  by (induction ms) auto

lemma take_msgs: "take (16 * n) (concat (map msg_bytes_of ms)) = concat (map msg_bytes_of (take n ms))"
  "drop (16 * n) (concat (map msg_bytes_of ms)) = concat (map msg_bytes_of (drop n ms))"
proof (induction ms arbitrary: n)
  case (Cons m ms)
  { case 1 then show ?case using Cons by (cases n) auto }
  { case 2 then show ?case using Cons by (cases n) auto }
qed auto

text \<open>The handles that watch a signal, in the order of the tree.\<close>

definition sig_watchers :: "('w, 'a) signal_loop_scheme \<Rightarrow> int \<Rightarrow> addr list" where
  "sig_watchers s sn = filter (\<lambda>h. signum s h = sn) (signal_tree s)"

lemma first_handles_sig_watchers:
  assumes "in_order s (signal_tree s)"
  shows "takeWhile (\<lambda>h. signum s h = sn) (if uv__signal_first_handle s sn = None then [] else first_handles s sn) = sig_watchers s sn"
proof -
  have main: "takeWhile (\<lambda>h. signum s h = sn) (dropWhile (\<lambda>y. signum s y < sn) t) = filter (\<lambda>h. signum s h = sn) t"
    if "in_order s t" for t using that
  proof (induction t)
    case (Cons x t)
    have o: "in_order s t" using Cons.prems by (simp add: in_order_def)
    note IH = Cons.IH [OF o]
    have le: "\<forall>y \<in> set t. signum s x \<le> signum s y" using in_order_signums(1) [OF Cons.prems] by simp
    have same: "dropWhile (\<lambda>y. signum s y < sn) t = t" if "\<not> signum s x < sn"
      using that le by (cases t) auto
    consider "signum s x < sn" | "signum s x = sn" | "signum s x > sn" by linarith
    then show ?case
    proof cases
      case 3
      then have "filter (\<lambda>h. signum s h = sn) t = []" using le by (auto simp: filter_empty_conv)
      then show ?thesis using 3 by simp
    qed (use IH same in simp_all)
  qed simp
  show ?thesis
  proof (cases "uv__signal_first_handle s sn")
    case None
    then have "\<forall>h \<in> set (signal_tree s). signum s h \<noteq> sn" using first_handle_None [OF assms] by simp
    then show ?thesis using None by (simp add: sig_watchers_def)
  next
    case (Some h)
    then show ?thesis using main [OF assms] by (simp add: first_handles_eq sig_watchers_def)
  qed
qed

text \<open>The watchers whose messages find room in the pipe: those before it is full.\<close>

definition reached :: "nat \<Rightarrow> string \<Rightarrow> addr list \<Rightarrow> addr list" where
  "reached room used hs = take ((room - length used) div 16) hs"

lemma reached_Cons:
  "reached room used (h # hs) = (if length used + 16 \<le> room then h # reached room (used @ msg_bytes_of (h, sn)) hs else [])"
  "\<not> length used + 16 \<le> room \<Longrightarrow> reached room used hs = []"
proof -
  have "(room - length used) div 16 = Suc ((room - (length used + 16)) div 16)" if "length used + 16 \<le> room"
  proof -
    have "room - length used = 16 + (room - (length used + 16))" using that by simp
    then show ?thesis by (simp only: div_add_self1)
  qed
  then show "reached room used (h # hs) = (if length used + 16 \<le> room then h # reached room (used @ msg_bytes_of (h, sn)) hs else [])"
    by (simp add: reached_def)
  show "\<not> length used + 16 \<le> room \<Longrightarrow> reached room used hs = []" by (simp add: reached_def)
qed

lemma handler_loop_result:
  assumes "signal_laws K l (signal_pipefd s me) disp valid unlocked input room"
    and "\<forall>h \<in> set (takeWhile (\<lambda>h. signum s h = sn) hs). sig_loop s h = me" and "distinct hs"
  shows "\<exists>w. handler_loop K sn hs s = Some (s\<lparr>os := w, caught_signals :=
      (\<lambda>h. caught_signals s h + (if h \<in> set (reached room (input (os s)) (takeWhile (\<lambda>h. signum s h = sn) hs)) then 1 else 0))\<rparr>) \<and>
    unlocked w = unlocked (os s) \<and>
    input w = input (os s) @ concat (map msg_bytes_of (map (\<lambda>h. (h, sn)) (reached room (input (os s)) (takeWhile (\<lambda>h. signum s h = sn) hs))))"
  using assms
proof (induction hs arbitrary: s)
  case Nil
  show ?case by (intro exI [of _ "os s"]) (simp add: reached_def)
next
  case (Cons h hs)
  let ?tw = "takeWhile (\<lambda>h. signum s h = sn) hs"
  show ?case
  proof (cases "signum s h = sn")
    case False
    then show ?thesis by (intro exI [of _ "os s"]) (simp add: reached_def)
  next
    case True
    then have me: "sig_loop s h = me" using Cons.prems(2) by simp
    have d: "distinct hs" "h \<notin> set hs" using Cons.prems(3) by simp_all
    have tw: "takeWhile (\<lambda>h. signum s h = sn) (h # hs) = h # ?tw" using True by simp
    let ?b = "msg_bytes_of (h, sn)"
    have lb: "length ?b = 16" "length ?b \<le> 4096" by simp_all
    obtain w where w: "unlocked w = unlocked (os s)"
      "if length (input (os s)) + 16 \<le> room
       then retry_eintr (k_write K (snd (signal_pipefd s me)) ?b) (os s) = Some (Inr 16, w) \<and> input w = input (os s) @ ?b
       else retry_eintr (k_write K (snd (signal_pipefd s me)) ?b) (os s) = Some (Inl UV_EAGAIN, w) \<and> input w = input (os s)"
      using signal_lawsD(5) [OF Cons.prems(1) lb(2), of "os s"] unfolding lb(1) by blast
    define t where "t = s\<lparr>os := w, caught_signals := (if length (input (os s)) + 16 \<le> room
        then (caught_signals s)(h := caught_signals s h + 1) else caught_signals s)\<rparr>"
    have ft: "signum t = signum s" "signal_pipefd t = signal_pipefd s" "sig_loop t = sig_loop s" "os t = w"
      by (simp_all add: t_def)
    have run: "handler_loop K sn (h # hs) s = handler_loop K sn hs t"
      using True w(2) me by (simp add: sys_prog_def t_def Let_def split: if_splits)
    have L: "signal_laws K l (signal_pipefd t me) disp valid unlocked input room" using Cons.prems(1) ft by simp
    have a: "\<forall>h \<in> set (takeWhile (\<lambda>h. signum t h = sn) hs). sig_loop t h = me" using Cons.prems(2) True ft by simp
    obtain w' where w': "handler_loop K sn hs t = Some (t\<lparr>os := w', caught_signals :=
        (\<lambda>h. caught_signals t h + (if h \<in> set (reached room (input w) ?tw) then 1 else 0))\<rparr>)"
      "unlocked w' = unlocked (os t)"
      "input w' = input w @ concat (map msg_bytes_of (map (\<lambda>h. (h, sn)) (reached room (input w) ?tw)))"
      using Cons.IH [OF L a d(1)] unfolding ft by blast
    show ?thesis
    proof (cases "length (input (os s)) + 16 \<le> room")
      case fits: True
      have iw: "input w = input (os s) @ ?b" using w(2) fits by simp
      have out: "h \<notin> set (reached room (input w) ?tw)" using d(2) set_takeWhileD set_take_subset unfolding reached_def by (metis subsetD)
      have re: "reached room (input (os s)) (h # ?tw) = h # reached room (input w) ?tw" using fits by (simp add: reached_Cons(1) [of _ _ _ _ sn] iw)
      have "t\<lparr>os := w', caught_signals := (\<lambda>h. caught_signals t h + (if h \<in> set (reached room (input w) ?tw) then 1 else 0))\<rparr>
        = s\<lparr>os := w', caught_signals := (\<lambda>x. caught_signals s x + (if x \<in> set (reached room (input (os s)) (h # ?tw)) then 1 else 0))\<rparr>"
        using out fits unfolding re by (auto simp: t_def fun_eq_iff intro!: arg_cong [where f = "\<lambda>c. s\<lparr>os := w', caught_signals := c\<rparr>"])
      then show ?thesis unfolding tw using run w' w(1) ft(4) re iw by (intro exI [of _ w']) simp
    next
      case full: False
      have iw: "input w = input (os s)" using w(2) full by simp
      have re: "reached room (input (os s)) hs' = []" for hs' using full by (rule reached_Cons(2))
      have "handler_loop K sn hs t = Some (s\<lparr>os := w', caught_signals := caught_signals s\<rparr>)"
        using w'(1) full unfolding iw re by (simp add: t_def)
      then show ?thesis unfolding tw using run w'(2,3) w(1) ft(4) unfolding iw re by (intro exI [of _ w']) simp
    qed
  qed
qed


text \<open>The state in which the messages of \<open>hs\<close> can be dispatched, one callback each.\<close>

definition deliverable :: "'w signal_kernel \<Rightarrow> ('w \<Rightarrow> int \<Rightarrow> disposition) \<Rightarrow> (int \<Rightarrow> bool) \<Rightarrow> ('w \<Rightarrow> bool) \<Rightarrow> ('w \<Rightarrow> string) \<Rightarrow>
    nat \<Rightarrow> int \<Rightarrow> addr list \<Rightarrow> ('w, 'a) signal_loop_scheme \<Rightarrow> bool" where
  "deliverable K disp valid unlocked input room sn hs s \<longleftrightarrow>
     signal_laws K (signal_lock_pipefd s) (signal_pipefd s (loop_self s)) disp valid unlocked input room \<and> unlocked (os s) \<and>
     tree_ok valid s \<and> distinct hs \<and>
     (\<forall>h \<in> set hs. signum s h = sn \<and> \<not> has_flag s h UV_HANDLE_CLOSING \<and> signal_cb s h \<noteq> None)"

text \<open>What dispatching does: \<open>see\<close> is what a callback does with the data of the user.\<close>

definition dispatched :: "(nat \<Rightarrow> addr \<Rightarrow> int \<Rightarrow> 'a \<Rightarrow> 'a) \<Rightarrow> int \<Rightarrow> addr list \<Rightarrow> ('w, 'a) signal_loop_scheme \<Rightarrow> ('w, 'a) signal_loop_scheme \<Rightarrow> bool" where
  "dispatched see sn hs s s' \<longleftrightarrow>
     s' = s\<lparr>flags := flags s', active_handles := active_handles s', signal_tree := signal_tree s', signum := signum s', os := os s',
       dispatched_signals := dispatched_signals s', signal_loop.more := signal_loop.more s'\<rparr> \<and>
     signal_loop.more s' = fold (\<lambda>h. see (the (signal_cb s h)) h sn) hs (signal_loop.more s) \<and>
     dispatched_signals s' = (\<lambda>h. dispatched_signals s h + (if h \<in> set hs then 1 else 0)) \<and>
     signum s' = (\<lambda>h. if h \<in> set hs \<and> has_flag s h UV_SIGNAL_ONE_SHOT then 0 else signum s h) \<and>
     (\<forall>k m. m AND UV_HANDLE_ACTIVE = 0 \<longrightarrow> has_flag s' k m = has_flag s k m)"

lemma dispatch_msgs_result:
  assumes "deliverable K disp valid unlocked input room sn hs s" and "sn \<noteq> 0"
    and "\<forall>h \<in> set hs. h < 2 ^ 64" and "- (2 ^ 31) \<le> sn" "sn < 2 ^ 31"
    and "\<forall>cb h n s. call_signal cb h n s = Some (s\<lparr>signal_loop.more := see cb h n (signal_loop.more s)\<rparr>)"
  shows "\<exists>s'. dispatch_msgs K call_signal (map msg_bytes_of (map (\<lambda>h. (h, sn)) hs)) s = Some s' \<and>
    dispatched see sn hs s s' \<and> tree_ok valid s' \<and> unlocked (os s') \<and> input (os s') = input (os s)"
  using assms(1,3)
proof (induction hs arbitrary: s)
  case Nil
  then show ?case by (intro exI [of _ s]) (simp add: dispatched_def deliverable_def)
next
  case (Cons h hs)
  note D = Cons.prems(1) [unfolded deliverable_def]
  obtain cb where cb: "signal_cb s h = Some cb" using D by auto
  have h: "signum s h = sn" "\<not> has_flag s h UV_HANDLE_CLOSING" using D by simp_all
  define t where "t = s\<lparr>signal_loop.more := see cb h sn (signal_loop.more s),
    dispatched_signals := (dispatched_signals s)(h := dispatched_signals s h + 1)\<rparr>"
  have ft: "signum t = signum s" "flags t = flags s" "signal_tree t = signal_tree s" "sig_loop t = sig_loop s" "os t = os s"
    "signal_lock_pipefd t = signal_lock_pipefd s" by (simp_all add: t_def)
  have hft: "has_flag t k m = has_flag s k m" for k m by (simp add: has_flag_def ft)
  have okt: "tree_ok valid t" using D tree_ok_cong [of t s valid] ft by simp
  have step: "\<exists>u. (if has_flag t h UV_SIGNAL_ONE_SHOT then uv__signal_stop K h t else Some t) = Some u \<and>
      stop_frame t u \<and> tree_ok valid u \<and> unlocked (os u) \<and> input (os u) = input (os s) \<and>
      signum u = (if has_flag s h UV_SIGNAL_ONE_SHOT then (signum s)(h := 0) else signum s) \<and>
      (\<forall>k m. m AND UV_HANDLE_ACTIVE = 0 \<longrightarrow> has_flag u k m = has_flag s k m)"
  proof (cases "has_flag t h UV_SIGNAL_ONE_SHOT")
    case True
    have L: "signal_laws K (signal_lock_pipefd t) (signal_pipefd s (loop_self s)) disp valid unlocked input room"
      and un: "unlocked (os t)" and on: "signum t h \<noteq> 0" using D ft h assms(2) by simp_all
    obtain u where "uv__signal_stop K h t = Some u" "stop_frame t u" "tree_ok valid u" "unlocked (os u)" "input (os u) = input (os t)"
      "signum u = (signum t)(h := 0)" "\<forall>k m. m AND UV_HANDLE_ACTIVE = 0 \<longrightarrow> has_flag u k m = has_flag t k m"
      using signal_stop_result [OF L un okt on] by blast
    then show ?thesis using True hft ft by (intro exI [of _ u]) simp
  next
    case False
    then show ?thesis using D okt hft ft by (intro exI [of _ t]) (simp add: stop_frame_def)
  qed
  obtain u where u: "(if has_flag t h UV_SIGNAL_ONE_SHOT then uv__signal_stop K h t else Some t) = Some u"
    "stop_frame t u" "tree_ok valid u" "unlocked (os u)" "input (os u) = input (os s)"
    "signum u = (if has_flag s h UV_SIGNAL_ONE_SHOT then (signum s)(h := 0) else signum s)"
    "\<forall>k m. m AND UV_HANDLE_ACTIVE = 0 \<longrightarrow> has_flag u k m = has_flag s k m" using step by blast
  have run: "dispatch_msgs K call_signal (map msg_bytes_of (map (\<lambda>h. (h, sn)) (h # hs))) s =
      dispatch_msgs K call_signal (map msg_bytes_of (map (\<lambda>h. (h, sn)) hs)) u"
  proof -
    have "h < 2 ^ 64" using Cons.prems(2) by simp
    note rt = msg_roundtrip [OF this assms(4,5)]
    have c: "call_signal cb h sn s = Some (s\<lparr>signal_loop.more := see cb h sn (signal_loop.more s)\<rparr>)" using assms(6) by simp
    have cl: "uv_assert (\<not> has_flag s h UV_HANDLE_CLOSING) = Some ()" using h by simp
    have d: "s\<lparr>signal_loop.more := see cb h sn (signal_loop.more s)\<rparr>\<lparr>dispatched_signals :=
        (dispatched_signals (s\<lparr>signal_loop.more := see cb h sn (signal_loop.more s)\<rparr>))
          (h := dispatched_signals (s\<lparr>signal_loop.more := see cb h sn (signal_loop.more s)\<rparr>) h + 1)\<rparr> = t" by (simp add: t_def)
    show ?thesis
      unfolding list.map dispatch_msgs.simps(2) rt Let_def prod.case h(1) if_P [OF refl] cl bind.bind_lunit cb c d u(1) by (rule refl)
  qed
  have fu: "signal_lock_pipefd u = signal_lock_pipefd s" "signal_pipefd u = signal_pipefd s" "loop_self u = loop_self s"
    "signal_cb u = signal_cb s" "dispatched_signals u = (dispatched_signals s)(h := dispatched_signals s h + 1)"
    "signal_loop.more u = see cb h sn (signal_loop.more s)"
    by (subst u(2) [unfolded stop_frame_def], simp add: t_def)+
  have out: "h \<notin> set hs" using D by simp
  have "deliverable K disp valid unlocked input room sn hs u"
    using D u(3,4,6,7) fu out by (auto simp: deliverable_def)
  then obtain s' where s': "dispatch_msgs K call_signal (map msg_bytes_of (map (\<lambda>h. (h, sn)) hs)) u = Some s'"
    "dispatched see sn hs u s'" "tree_ok valid s'" "unlocked (os s')" "input (os s') = input (os u)"
    using Cons.IH Cons.prems(2) by auto
  note E = s'(2) [unfolded dispatched_def]
  have us: "u = s\<lparr>flags := flags u, active_handles := active_handles u, signal_tree := signal_tree u, signum := signum u, os := os u,
       dispatched_signals := dispatched_signals u, signal_loop.more := signal_loop.more u\<rparr>"
    using u(2) by (subst u(2) [unfolded stop_frame_def]) (simp add: t_def fu)
  have fr: "s' = s\<lparr>flags := flags s', active_handles := active_handles s', signal_tree := signal_tree s', signum := signum s', os := os s',
       dispatched_signals := dispatched_signals s', signal_loop.more := signal_loop.more s'\<rparr>"
    by (subst conjunct1 [OF E], subst us) simp
  have "dispatched see sn (h # hs) s s'"
    using E fr fu u(6,7) out cb by (auto simp: dispatched_def fun_eq_iff)
  then show ?case using run s' u(5) by auto
qed


text \<open>\<open>uv__signal_event\<close> reads 32 messages at a time, and as often as there are 32.\<close>

lemma signal_event_result:
  assumes "deliverable K disp valid unlocked input room sn hs s" and "sn \<noteq> 0"
    and "\<forall>h \<in> set hs. h < 2 ^ 64" and "- (2 ^ 31) \<le> sn" "sn < 2 ^ 31"
    and "\<forall>cb h n s. call_signal cb h n s = Some (s\<lparr>signal_loop.more := see cb h n (signal_loop.more s)\<rparr>)"
    and "input (os s) = concat (map msg_bytes_of (map (\<lambda>h. (h, sn)) hs))"
  shows "\<exists>s'. signal_event_loop K call_signal [] e s = Some s' \<and>
    dispatched see sn hs s s' \<and> tree_ok valid s' \<and> unlocked (os s') \<and> input (os s') = []"
  using assms(1,3,7)
proof (induction "length hs" arbitrary: hs s e rule: less_induct)
  case less
  note D = less.prems(1) [unfolded deliverable_def]
  note L = conjunct1 [OF D]
  let ?ms = "map (\<lambda>h. (h, sn)) hs"
  show ?case
  proof (cases "hs = []")
    case True
    obtain w where w: "k_read K (fst (signal_pipefd s (loop_self s))) 512 (os s) = (Inl UV_EAGAIN, w)" "unlocked w = unlocked (os s)" "input w = input (os s)"
      using signal_lawsD(6) [OF L, of 512 "os s"] less.prems(3) True by auto
    have "signal_event_loop K call_signal [] e s = Some (s\<lparr>os := w\<rparr>)"
      by (subst signal_event_loop.simps) (simp add: sys_def w(1))
    moreover have "dispatched see sn hs s (s\<lparr>os := w\<rparr>)" using True by (simp add: dispatched_def has_flag_def)
    moreover have "tree_ok valid (s\<lparr>os := w\<rparr>)" using D tree_ok_cong [of "s\<lparr>os := w\<rparr>" s valid] by simp
    ultimately show ?thesis using w D less.prems(3) True by (intro exI [of _ "s\<lparr>os := w\<rparr>"]) simp
  next
    case False
    define n where "n = min 32 (length hs)"
    let ?xs = "concat (map msg_bytes_of (take n ?ms))"
    have lx: "length ?xs = 16 * n" using length_msgs [of "take n ?ms"] by (simp add: n_def)
    have tk: "take 512 (input (os s)) = ?xs" "drop 512 (input (os s)) = concat (map msg_bytes_of (drop n ?ms))"
    proof -
      have "take (16 * 32) (concat (map msg_bytes_of ?ms)) = concat (map msg_bytes_of (take 32 ?ms))"
        "drop (16 * 32) (concat (map msg_bytes_of ?ms)) = concat (map msg_bytes_of (drop 32 ?ms))" by (rule take_msgs)+
      moreover have "take 32 ?ms = take n ?ms" "drop 32 ?ms = drop n ?ms" by (simp_all add: n_def min_def)
      ultimately show "take 512 (input (os s)) = ?xs" "drop 512 (input (os s)) = concat (map msg_bytes_of (drop n ?ms))"
        using less.prems(3) by simp_all
    qed
    have ne: "input (os s) \<noteq> []"
    proof
      assume "input (os s) = []"
      then have "16 * length ?ms = 0" using less.prems(3) length_msgs [of ?ms] by (simp only: list.size)
      then show False using False by simp
    qed
    obtain w where w: "k_read K (fst (signal_pipefd s (loop_self s))) 512 (os s) = (Inr ?xs, w)" "unlocked w = unlocked (os s)"
      "input w = concat (map msg_bytes_of (drop n ?ms))"
      using signal_lawsD(7) [OF L, of 512 "os s"] ne unfolding tk by auto
    let ?t = "s\<lparr>os := w\<rparr>"
    have ch: "chunks16 (16 * n div 16) ?xs = map msg_bytes_of (map (\<lambda>h. (h, sn)) (take n hs))"
      using chunks_of_msgs [of "take n ?ms" "[]"] lx by (simp add: take_map n_def)
    have okt: "tree_ok valid ?t" using D tree_ok_cong [of ?t s valid] by simp
    have Dt: "deliverable K disp valid unlocked input room sn (take n hs) ?t"
      using D okt w(2) set_take_subset [of n hs] by (auto simp: deliverable_def has_flag_def)
    have at: "\<forall>h \<in> set (take n hs). h < 2 ^ 64" using less.prems(2) set_take_subset [of n hs] by auto
    obtain u where u: "dispatch_msgs K call_signal (map msg_bytes_of (map (\<lambda>h. (h, sn)) (take n hs))) ?t = Some u"
      "dispatched see sn (take n hs) ?t u" "tree_ok valid u" "unlocked (os u)" "input (os u) = input (os ?t)"
      using dispatch_msgs_result [OF Dt assms(2) at assms(4-6)] by blast
    have endp: "(length ?xs div 16) * 16 = 16 * n" using lx by simp
    have run: "signal_event_loop K call_signal [] e s = (if 16 * n = 512 then signal_event_loop K call_signal [] (16 * n) u else Some u)"
    proof -
      have dr: "drop (16 * n) ?xs = []" using lx by simp
      show ?thesis
        unfolding signal_event_loop.simps [of K call_signal "[]" e s] list.size diff_zero sys_def w(1) prod.case Let_def append_Nil
          sum.case endp ch dr u(1) bind.bind_lunit by simp
    qed
    note E = u(2) [unfolded dispatched_def]
    show ?thesis
    proof (cases "n = 32")
      case False
      then have all: "take n hs = hs" "drop n ?ms = []" by (simp_all add: n_def min_def split: if_splits)
      have "dispatched see sn hs s u"
      proof -
        have "u = s\<lparr>flags := flags u, active_handles := active_handles u, signal_tree := signal_tree u, signum := signum u, os := os u,
          dispatched_signals := dispatched_signals u, signal_loop.more := signal_loop.more u\<rparr>"
          by (subst conjunct1 [OF E]) simp
        then show ?thesis using E all by (simp add: dispatched_def has_flag_def cong: if_cong)
      qed
      then show ?thesis using run u False w(3) all by (intro exI [of _ u]) simp
    next
      case True
      have fu: "signal_lock_pipefd u = signal_lock_pipefd s" "signal_pipefd u = signal_pipefd s" "loop_self u = loop_self s"
        "signal_cb u = signal_cb s" by (subst conjunct1 [OF E], simp)+
      have dis: "set (take n hs) \<inter> set (drop n hs) = {}" "distinct (drop n hs)" "set (drop n hs) \<subseteq> set hs"
        using D set_take_disj_set_drop_if_distinct [of hs n n] set_drop_subset [of n hs] by auto
      have fl: "has_flag u k m = has_flag s k m" if "m AND UV_HANDLE_ACTIVE = 0" for k m using E that by (simp add: has_flag_def)
      have du: "deliverable K disp valid unlocked input room sn (drop n hs) u"
        using D E u(3,4) fu dis fl by (auto simp: deliverable_def)
      have len: "length (drop n hs) < length hs" using True \<open>hs \<noteq> []\<close> by simp
      have au: "\<forall>h \<in> set (drop n hs). h < 2 ^ 64" using less.prems(2) dis(3) by auto
      have iu: "input (os u) = concat (map msg_bytes_of (map (\<lambda>h. (h, sn)) (drop n hs)))" using u(5) w(3) by (simp add: drop_map)
      obtain s' where s': "signal_event_loop K call_signal [] (16 * n) u = Some s'" "dispatched see sn (drop n hs) u s'" "tree_ok valid s'"
        "unlocked (os s')" "input (os s') = []"
        using less.hyps [OF len du au iu] by blast
      note F = s'(2) [unfolded dispatched_def]
      have "dispatched see sn hs s s'"
      proof -
        have hs: "hs = take n hs @ drop n hs" by simp
        have fr: "s' = s\<lparr>flags := flags s', active_handles := active_handles s', signal_tree := signal_tree s', signum := signum s', os := os s',
          dispatched_signals := dispatched_signals s', signal_loop.more := signal_loop.more s'\<rparr>"
          by (subst conjunct1 [OF F], subst conjunct1 [OF E]) simp
        have mem: "h \<in> set hs \<longleftrightarrow> h \<in> set (take n hs) \<or> h \<in> set (drop n hs)" for h by (subst hs) (simp only: set_append Un_iff)
        have mo: "signal_loop.more s' = fold (\<lambda>h. see (the (signal_cb s h)) h sn) hs (signal_loop.more s)"
        proof -
          have "signal_loop.more s' = fold (\<lambda>h. see (the (signal_cb s h)) h sn) (drop n hs)
              (fold (\<lambda>h. see (the (signal_cb s h)) h sn) (take n hs) (signal_loop.more s))"
            using E F fu(4) by simp
          then show ?thesis by (subst hs) (simp only: fold_append comp_def)
        qed
        have di: "dispatched_signals s' h = dispatched_signals s h + (if h \<in> set hs then 1 else 0)" for h
          using E F mem [of h] dis(1) by auto
        have si: "signum s' h = (if h \<in> set hs \<and> has_flag s h UV_SIGNAL_ONE_SHOT then 0 else signum s h)" for h
          using E F mem [of h] fl [of UV_SIGNAL_ONE_SHOT h] by (auto simp: has_flag_def)
        have "\<forall>k m. m AND UV_HANDLE_ACTIVE = 0 \<longrightarrow> has_flag s' k m = has_flag s k m" using F fl by simp
        then show ?thesis unfolding dispatched_def by (intro conjI fr mo ext di si) assumption
      qed
      then show ?thesis using run s' True by (intro exI [of _ s']) simp
    qed
  qed
qed


text \<open>
  C16: A signal reaches the handles that watch it, each once, as far as the signal pipe has room.  When the lock is
  free and the pipe is empty, \<open>uv__signal_handler\<close> writes a message of 16 bytes for each of the watchers, in
  the order of the tree, until the pipe is full (of a pipe of 64 KB that is after 4096), and counts as caught those, and only those, whose
  message is in the pipe; the others never hear of the signal.  When \<open>uv__signal_event\<close> then runs it calls the
  callbacks of those that are reached, in that order, counts each message as dispatched, stops those that are
  one-shot and no others, and leaves the pipe empty.
\<close>

theorem signal_reaches_its_watchers:
  assumes "signal_laws K (signal_lock_pipefd s) (signal_pipefd s (loop_self s)) disp valid unlocked input room" and "unlocked (os s)"
    and "tree_ok valid s" and "input (os s) = []" and "sn \<noteq> 0" and "- (2 ^ 31) \<le> sn" and "sn < 2 ^ 31"
    and "\<forall>h \<in> set (sig_watchers s sn). sig_loop s h = loop_self s \<and> h < 2 ^ 64 \<and> \<not> has_flag s h UV_HANDLE_CLOSING \<and> signal_cb s h \<noteq> None"
    and "\<forall>cb h n s. call_signal cb h n s = Some (s\<lparr>signal_loop.more := see cb h n (signal_loop.more s)\<rparr>)"
    and "got = take (room div 16) (sig_watchers s sn)"
  shows "\<exists>s1 s2. uv__signal_handler K sn s = Some s1 \<and> uv__signal_event K call_signal s1 = Some s2 \<and>
    caught_signals s2 = (\<lambda>h. caught_signals s h + (if h \<in> set got then 1 else 0)) \<and>
    dispatched_signals s2 = (\<lambda>h. dispatched_signals s h + (if h \<in> set got then 1 else 0)) \<and>
    signal_loop.more s2 = fold (\<lambda>h. see (the (signal_cb s h)) h sn) got (signal_loop.more s) \<and>
    signum s2 = (\<lambda>h. if h \<in> set got \<and> has_flag s h UV_SIGNAL_ONE_SHOT then 0 else signum s h) \<and>
    tree_ok valid s2 \<and> unlocked (os s2) \<and> input (os s2) = []"
proof -
  have ord: "in_order s (signal_tree s)" using assms(3) by (simp add: tree_ok_def)
  let ?hs = "if uv__signal_first_handle s sn = None then [] else first_handles s sn"
  note ws = first_handles_sig_watchers [OF ord, of sn]
  have sub: "set got \<subseteq> set (sig_watchers s sn)" unfolding assms(10) by (rule set_take_subset)
  obtain c w1 where w1: "retry_eintr (k_read K (fst (signal_lock_pipefd s)) 1) (os s) = Some (Inr c, w1)" "input w1 = []"
    using signal_lawsD(2) [OF assms(1,2)] assms(4) by auto
  define t where "t = s\<lparr>os := w1\<rparr>"
  have ft: "signum t = signum s" "signal_tree t = signal_tree s" "signal_pipefd t = signal_pipefd s" "sig_loop t = sig_loop s"
    "caught_signals t = caught_signals s" "os t = w1" by (simp_all add: t_def)
  have L: "signal_laws K (signal_lock_pipefd s) (signal_pipefd t (loop_self s)) disp valid unlocked input room" using assms(1) ft by simp
  have a: "\<forall>h \<in> set (takeWhile (\<lambda>h. signum t h = sn) ?hs). sig_loop t h = loop_self s" using ws assms(8) ft by simp
  have d: "distinct ?hs"
    using in_order_distinct [OF ord] by (simp add: first_handles_eq distinct_dropWhile)
  have tw: "takeWhile (\<lambda>h. signum t h = sn) ?hs = sig_watchers s sn" using ws ft by simp
  have re: "reached room (input (os t)) (sig_watchers s sn) = got" using w1(2) ft(6) by (simp add: reached_def assms(10))
  obtain w2 where w2: "handler_loop K sn ?hs t = Some (t\<lparr>os := w2, caught_signals :=
      (\<lambda>h. caught_signals t h + (if h \<in> set got then 1 else 0))\<rparr>)"
    "input w2 = input (os t) @ concat (map msg_bytes_of (map (\<lambda>h. (h, sn)) got))"
    using handler_loop_result [OF L a d] unfolding tw re by blast
  let ?c = "\<lambda>h. caught_signals s h + (if h \<in> set got then 1 else 0)"
  obtain n w3 where w3: "retry_eintr (k_write K (snd (signal_lock_pipefd s)) ''*'') w2 = Some (Inr n, w3)" "unlocked w3" "input w3 = input w2"
    using signal_lawsD(3) [OF assms(1)] by blast
  define s1 where "s1 = s\<lparr>os := w3, caught_signals := ?c\<rparr>"
  have f1: "uv__signal_first_handle t sn = uv__signal_first_handle s sn" "first_handles t sn = first_handles s sn"
    using ft by (simp_all only: uv__signal_first_handle_def first_handles_eq)
  have lk: "uv__signal_lock K s = Some (True, t)" using w1(1) by (simp add: uv__signal_lock_def sys_prog_def t_def)
  have hl: "handler_loop K sn ?hs t = Some (s\<lparr>os := w2, caught_signals := ?c\<rparr>)" using w2(1) ft by (simp add: t_def)
  have ul: "uv__signal_unlock K (s\<lparr>os := w2, caught_signals := ?c\<rparr>) = Some (True, s1)"
    using w3(1) by (simp add: uv__signal_unlock_def sys_prog_def s1_def)
  have H: "uv__signal_handler K sn s = Some s1"
    unfolding uv__signal_handler_def lk bind.bind_lunit prod.case f1 hl ul by simp
  have i1: "input (os s1) = concat (map msg_bytes_of (map (\<lambda>h. (h, sn)) got))"
    using w3(3) w2(2) w1(2) ft by (simp add: s1_def)
  have ok1: "tree_ok valid s1" using assms(3) tree_ok_cong [of s1 s valid] by (simp add: s1_def)
  have dw: "distinct got" using in_order_distinct [OF ord] by (simp add: sig_watchers_def assms(10))
  have sg: "signum s h = sn" if "h \<in> set got" for h using that sub by (auto simp: sig_watchers_def)
  have D: "deliverable K disp valid unlocked input room sn got s1"
    using assms(1,8) w3(2) ok1 dw sub sg by (auto simp: deliverable_def s1_def has_flag_def)
  have big: "\<forall>h \<in> set got. h < 2 ^ 64" using assms(8) sub by blast
  obtain s2 where s2: "signal_event_loop K call_signal [] 0 s1 = Some s2" "dispatched see sn got s1 s2" "tree_ok valid s2"
    "unlocked (os s2)" "input (os s2) = []"
    using signal_event_result [OF D assms(5) big assms(6,7,9) i1] by blast
  note E = s2(2) [unfolded dispatched_def]
  have f11: "signum s1 = signum s" "signal_cb s1 = signal_cb s" "dispatched_signals s1 = dispatched_signals s"
    "signal_loop.more s1 = signal_loop.more s" "has_flag s1 k m = has_flag s k m" for k m by (simp_all add: s1_def has_flag_def)
  have ca: "caught_signals s2 = ?c" by (subst conjunct1 [OF E]) (simp add: s1_def)
  have ev: "uv__signal_event K call_signal s1 = Some s2" using s2(1) by (simp add: uv__signal_event_def)
  have rest: "dispatched_signals s2 = (\<lambda>h. dispatched_signals s h + (if h \<in> set got then 1 else 0))"
    "signal_loop.more s2 = fold (\<lambda>h. see (the (signal_cb s h)) h sn) got (signal_loop.more s)"
    "signum s2 = (\<lambda>h. if h \<in> set got \<and> has_flag s h UV_SIGNAL_ONE_SHOT then 0 else signum s h)"
    using E unfolding f11 by simp_all
  show ?thesis using H ev ca rest s2(3-5) by blast
qed


section \<open>Three observations\<close>

text \<open>A handle that has been one-shot stays it: \<open>UV_SIGNAL_ONE_SHOT\<close> is set and never cleared.\<close>

lemma block_and_lock_flags: "uv__signal_block_and_lock K s = Some s' \<Longrightarrow> flags s' = flags s \<and> signal_tree s' = signal_tree s"
  by (auto simp: uv__signal_block_and_lock_def uv__signal_lock_def sys_def sys_prog_def split: prod.splits sum.splits bind_splits if_splits)

lemma unlock_and_unblock_flags: "uv__signal_unlock_and_unblock K s = Some s' \<Longrightarrow> flags s' = flags s"
  by (auto simp: uv__signal_unlock_and_unblock_def uv__signal_unlock_def sys_def sys_prog_def split: prod.splits sum.splits bind_splits if_splits)

lemma one_shot_is_never_cleared:
  assumes "start_blocked K h cb sn oneshot s = Some (Inr (), s')" "has_flag s h UV_SIGNAL_ONE_SHOT"
  shows "has_flag s' h UV_SIGNAL_ONE_SHOT"
proof -
  obtain s1 where s1: "uv__signal_block_and_lock K s = Some s1" using assms(1) by (auto simp: start_blocked_def split: bind_splits)
  have f1: "has_flag s1 h UV_SIGNAL_ONE_SHOT" using block_and_lock_flags [OF s1] assms(2) by (simp add: has_flag_def)
  show ?thesis
    using assms(1) s1 f1
    by (auto simp: start_blocked_def Let_def sys_def oneshot_set has_flag_def set_flag_def handle_start_one_shot
        split: prod.splits sum.splits bind_splits if_splits dest!: unlock_and_unblock_flags)
qed

text \<open>
  A one-shot handle that joins another relies on the disposition it finds: after a delivery the kernel has reset it
  (\<open>SA_RESETHAND\<close>), and it stays reset until the first of the two has been dispatched, and after.
\<close>

lemma one_shot_joins_without_registering:
  assumes L: "signal_laws K (signal_lock_pipefd s) p disp valid unlocked input room" and "unlocked (os s)"
    and f: "uv__signal_first_handle s sn = Some first"
  shows "\<exists>s'. start_blocked K h cb sn True s = Some (Inr (), s') \<and> disp (os s') = disp (os s) \<and> signum s' h = sn"
proof -
  obtain w1 where w1: "uv__signal_block_and_lock K s = Some (s\<lparr>os := w1\<rparr>)" "disp w1 = disp (os s)"
    using lock_result [OF assms(1,2)] by blast
  have f1: "uv__signal_first_handle (s\<lparr>os := w1\<rparr>) sn = Some first"
    using f by (simp add: uv__signal_first_handle_def first_handles_eq cong: list.case_cong if_cong)
  define v where "v = set_flag h UV_SIGNAL_ONE_SHOT (s\<lparr>os := w1, signum := (signum s)(h := sn)\<rparr>)"
  define v' where "v' = v\<lparr>signal_tree := tree_insert (sig_key v) h (signal_tree v)\<rparr>"
  have "signal_laws K (signal_lock_pipefd v') p disp valid unlocked input room" using L by (simp add: v'_def v_def set_flag_def)
  then obtain w2 where w2: "uv__signal_unlock_and_unblock K v' = Some (v'\<lparr>os := w2\<rparr>)" "disp w2 = disp (os v')"
    using unlock_result by blast
  let ?s = "uv__handle_start h (v'\<lparr>os := w2, signal_cb := (signal_cb v')(h := cb)\<rparr>)"
  have ru: "start_blocked K h cb sn True s = Some (Inr (), ?s)"
    unfolding start_blocked_def w1(1) bind.bind_lunit Let_def f1 using w2(1)
    by (simp add: v'_def v_def)
  have "disp (os ?s) = disp (os s)" "signum ?s h = sn"
    using w1(2) w2(2) by (simp_all add: handle_defs v'_def v_def set_flag_def)
  then show ?thesis using ru by blast
qed

text \<open>\<open>continue\<close> leaves the loop: what is left of a message is dropped, not waited for.\<close>

lemma partial_message_is_dropped:
  assumes "k_read K (fst (signal_pipefd s (loop_self s))) (512 - length buf) (os s) = (Inl UV_EAGAIN, w)" "buf \<noteq> []" "e \<noteq> 512"
  shows "signal_event_loop K call_signal buf e s = Some (s\<lparr>os := w\<rparr>)"
  using assms by (subst signal_event_loop.simps) (simp add: sys_def)

section \<open>Witnesses\<close>


text \<open>A system with the lock pipe (3, 4) and the signal pipe (5, 6), with room for 40 bytes; its other calls do nothing.\<close>

type_synonym pipes = "(int \<Rightarrow> disposition) \<times> bool \<times> string"

definition pipe_kernel :: "pipes signal_kernel" where
  "pipe_kernel = io_kernel.extend
     (quiet_kernel\<lparr>k_read := (\<lambda>fd n w. case w of (d, u, b) \<Rightarrow>
          if fd = 3 then (if u then (Inr ''*'', (d, False, b)) else (Inl UV_EAGAIN, w))
          else if b = [] then (Inl UV_EAGAIN, w) else (Inr (take n b), (d, u, drop n b))),
        k_write := (\<lambda>fd c w. case w of (d, u, b) \<Rightarrow>
          if fd = 4 then (Inr (length c), (d, True, b))
          else if length b + length c \<le> 40 then (Inr (length c), (d, u, b @ c)) else (Inl UV_EAGAIN, w))\<rparr>)
     (signal_kernel.fields (\<lambda>_ w. (Inl UV_EMFILE, w))
        (\<lambda>sn d w. if 0 < sn \<and> sn < 65 \<and> sn \<noteq> 9 \<and> sn \<noteq> 19 then (Inr (), ((fst w)(sn := d), snd w)) else (Inl UV_EINVAL, w))
        (\<lambda>_ w. (Inr (), w)) (\<lambda>w. (Inr (), w)))"

abbreviation catchable :: "int \<Rightarrow> bool" where "catchable sn \<equiv> 0 < sn \<and> sn < 65 \<and> sn \<noteq> 9 \<and> sn \<noteq> 19"
abbreviation disp_of :: "pipes \<Rightarrow> int \<Rightarrow> disposition" where "disp_of \<equiv> fst"
abbreviation unlocked_of :: "pipes \<Rightarrow> bool" where "unlocked_of w \<equiv> fst (snd w)"
abbreviation input_of :: "pipes \<Rightarrow> string" where "input_of w \<equiv> snd (snd w)"

lemma pipe_laws: "signal_laws pipe_kernel (3, 4) (5, 6) disp_of catchable unlocked_of input_of 40"
proof -
  have r: "retry_eintr f w = Some (f w)" if "fst (f w) \<noteq> Inl UV_EINTR" for f :: "pipes \<Rightarrow> (uv_errno + 'b) \<times> pipes" and w
    using that by (subst retry_eintr.simps) simp
  show ?thesis
    by (auto simp: signal_laws_def pipe_kernel_def quiet_kernel_def fd_kernel.defs io_kernel.defs signal_kernel.defs r split: prod.splits)
qed

definition pipe_loop :: "pipes \<Rightarrow> (addr \<Rightarrow> int) \<Rightarrow> addr list \<Rightarrow> 'a \<Rightarrow> (pipes, 'a) signal_loop_scheme" where
  "pipe_loop w sg t a = signal_loop.extend (bare_core w 5
     (signal_loop.fields 1 (\<lambda>_. (5, 6)) (3, 4) True t sg (\<lambda>_. Some 1) (\<lambda>_. 1))) a"

lemma pipe_loop_fields:
  "os (pipe_loop w sg t a) = w" "flags (pipe_loop w sg t a) = (\<lambda>_. 0)" "signal_tree (pipe_loop w sg t a) = t"
  "signum (pipe_loop w sg t a) = sg" "sig_loop (pipe_loop w sg t a) = (\<lambda>_. 1)" "loop_self (pipe_loop w sg t a) = 1"
  "signal_pipefd (pipe_loop w sg t a) = (\<lambda>_. (5, 6))" "signal_lock_pipefd (pipe_loop w sg t a) = (3, 4)"
  "signal_cb (pipe_loop w sg t a) = (\<lambda>_. Some 1)" "signal_loop.more (pipe_loop w sg t a) = a"
  by (simp_all add: pipe_loop_def bare_core_def empty_watcher_loop_def watcher_loop.defs io_loop.defs poll_loop.defs
      async_loop.defs core_loop.defs signal_loop.defs)

theorem signal_dispositions_follow_handles_witness:
  "\<exists>s'. uv__signal_start pipe_kernel 7 (Some 1) 2 True (pipe_loop (\<lambda>_. SigDfl, True, []) (\<lambda>_. 0) [] ()) = Some (Inr (), s') \<and>
    disp_of (os s') 2 \<noteq> SigDfl \<and> signum s' 7 = 2"
proof -
  let ?s = "pipe_loop (\<lambda>_. SigDfl, True, []) (\<lambda>_. 0) [] ()"
  have "tree_ok catchable ?s" "handled disp_of ?s" "\<not> uv__is_closing ?s 7" "unlocked_of (os ?s)"
    by (simp_all add: tree_ok_def in_order_def handled_def wanted_def pipe_loop_fields uv__is_closing_def has_flag_def)
  then obtain r s' where s': "uv__signal_start pipe_kernel 7 (Some 1) 2 True ?s = Some (r, s')" "handled disp_of s'" "r = Inr ()"
    "signum s' = (signum ?s)(7 := 2)" "tree_ok catchable s'"
    using conjunct1 [OF signal_dispositions_follow_handles [of pipe_kernel ?s "(5, 6)" disp_of catchable unlocked_of input_of 40 2 7 True "Some 1"]]
      pipe_laws unfolding pipe_loop_fields by (auto split: if_splits)
  have "7 \<in> set (signal_tree s')" "signum s' 7 = 2" using s'(4,5) by (simp_all add: tree_ok_def)
  then have "wanted s' 2 \<noteq> SigDfl" by (auto simp: wanted_def)
  then show ?thesis using s' by (intro exI [of _ s']) (simp add: handled_def)
qed

theorem signal_reaches_its_watchers_witness:
  "\<exists>s1 s2. uv__signal_handler pipe_kernel 2 (pipe_loop (\<lambda>_. SigHandler False, True, []) (\<lambda>h. if h \<in> {7, 8, 9} then 2 else 0) [7, 8, 9] []) = Some s1 \<and>
    uv__signal_event pipe_kernel (\<lambda>cb h n s. Some (s\<lparr>signal_loop.more := signal_loop.more s @ [(h, n)]\<rparr>)) s1 = Some s2 \<and>
    signal_loop.more s2 = [(7, 2), (8, 2)]"
proof -
  let ?s = "pipe_loop (\<lambda>_. SigHandler False, True, []) (\<lambda>h. if h \<in> {7, 8, 9} then 2 else 0) [7, 8, 9] []"
  have ok: "tree_ok catchable ?s"
    by (auto simp: tree_ok_def in_order_def sig_key_def uv__signal_compare_def pipe_loop_fields)
  have w: "sig_watchers ?s 2 = [7, 8, 9]" by (simp add: sig_watchers_def pipe_loop_fields)
  have g: "[7, 8] = take (40 div 16) (sig_watchers ?s 2)" unfolding w by simp
  have k: "signal_laws pipe_kernel (signal_lock_pipefd ?s) (signal_pipefd ?s (loop_self ?s)) disp_of catchable unlocked_of input_of 40"
    using pipe_laws by (simp add: pipe_loop_fields)
  have i: "unlocked_of (os ?s)" "input_of (os ?s) = []" "(2 :: int) \<noteq> 0" "- (2 ^ 31) \<le> (2 :: int)" "(2 :: int) < 2 ^ 31"
    by (simp_all add: pipe_loop_fields)
  have h: "\<forall>h \<in> set (sig_watchers ?s 2). sig_loop ?s h = loop_self ?s \<and> h < 2 ^ 64 \<and> \<not> has_flag ?s h UV_HANDLE_CLOSING \<and> signal_cb ?s h \<noteq> None"
    unfolding w by (simp add: pipe_loop_fields has_flag_def)
  have c: "\<forall>cb h n s. (\<lambda>cb h n s. Some (s\<lparr>signal_loop.more := signal_loop.more s @ [(h, n)]\<rparr>)) cb h n s =
      Some (s\<lparr>signal_loop.more := (\<lambda>cb h n l. l @ [(h, n)]) cb h n (signal_loop.more s)\<rparr>)" by simp
  show ?thesis
    using signal_reaches_its_watchers [OF k i(1) ok i(2-5) h c g] by (auto simp: pipe_loop_fields)
qed

end
