(* ===== verification/Loop.thy ===== *)
theory Loop
  imports Signal StreamRead
begin

text \<open>
  src/unix/loop.c, with the functions on loops of src/uv-common.c and \<open>uv__platform_loop_init\<close>,
  \<open>uv__platform_loop_delete\<close> and \<open>uv__io_fork\<close> of src/unix/linux-core.c.  The locks of a loop and the block
  of its internal fields are what it owns beside descriptors.  \<open>uv__inotify_fork\<close> is a parameter.

  The lemmas show what a loop that is made holds, for the first loop of a process and for later ones, what a failure
  gives back, and that a loop that is closed at once gives everything back.
\<close>

section \<open>State\<close>

datatype loop_lock = Metrics_lock | Cloexec_lock | Wq_mutex

text \<open>
  \<open>locks\<close>: those that are initialised; \<open>is_default\<close>: \<open>default_loop_ptr\<close> is this loop; \<open>allocated\<close>: the loop
  is a block of its own, from \<open>uv_loop_new\<close>.
\<close>

record 'w loop = "'w signal_loop" +
  loop_emfile_fd :: int
  inotify_fd :: int
  internal_fields :: bool
  locks :: "loop_lock set"
  wq :: "addr list"
  is_default :: bool
  allocated :: bool
  was_shutdown :: bool

record 'w loop_kernel = "'w signal_kernel" +
  k_calloc :: "'w \<Rightarrow> bool \<times> 'w"
  k_lock_init :: "loop_lock \<Rightarrow> ('w, unit) sys"

abbreviation sgK :: "'w loop_kernel \<Rightarrow> 'w signal_kernel" where "sgK K \<equiv> signal_kernel.truncate K"
abbreviation lfdK :: "'w loop_kernel \<Rightarrow> 'w fd_kernel" where "lfdK K \<equiv> fd_kernel.truncate K"
abbreviation lioK :: "'w loop_kernel \<Rightarrow> 'w io_kernel" where "lioK K \<equiv> io_kernel.truncate K"
abbreviation inotify_read_watcher :: addr where "inotify_read_watcher \<equiv> 5"
abbreviation UV_ELOOP_BLOCK_SIGNAL :: int where "UV_ELOOP_BLOCK_SIGNAL \<equiv> 0"
abbreviation UV_ELOOP_METRICS_IDLE_TIME :: int where "UV_ELOOP_METRICS_IDLE_TIME \<equiv> 1"
abbreviation SIGPROF :: int where "SIGPROF \<equiv> 27"

section \<open>The platform\<close>

definition uv__platform_loop_init ::
  "'w loop_kernel \<Rightarrow> ('w, 'a) loop_scheme \<Rightarrow> ((uv_errno + unit) \<times> ('w, 'a) loop_scheme) option" where
  "uv__platform_loop_init K s = uv__epoll_init (lioK K) (s\<lparr>inotify_fd := -1\<rparr>)"

definition uv__platform_loop_delete :: "'w loop_kernel \<Rightarrow> ('w, 'a) loop_scheme \<Rightarrow> ('w, 'a) loop_scheme option" where
  "uv__platform_loop_delete K s =
     (if inotify_fd s = -1 then Some s
      else do {
        s \<leftarrow> uv__io_stop inotify_read_watcher POLLIN s;
        (_, s) \<leftarrow> sys_prog (uv__close (lfdK K) (inotify_fd s)) s;
        Some (s\<lparr>inotify_fd := -1\<rparr>) })"

definition uv__io_fork ::
  "'w loop_kernel \<Rightarrow> (('w, 'a) loop_scheme \<Rightarrow> ((uv_errno + unit) \<times> ('w, 'a) loop_scheme) option) \<Rightarrow> ('w, 'a) loop_scheme \<Rightarrow>
    ((uv_errno + unit) \<times> ('w, 'a) loop_scheme) option" where
  "uv__io_fork K inotify_fork s = do {
     (_, s) \<leftarrow> sys_prog (uv__close (lfdK K) (backend_fd s)) s;
     s \<leftarrow> uv__platform_loop_delete K (s\<lparr>backend_fd := -1\<rparr>);
     (err, s) \<leftarrow> uv__platform_loop_init K s;
     (case err of Inl e \<Rightarrow> Some (Inl e, s) | Inr _ \<Rightarrow> inotify_fork s) }"

section \<open>Making a loop\<close>

definition lock_destroy :: "loop_lock \<Rightarrow> ('w, 'a) loop_scheme \<Rightarrow> ('w, 'a) loop_scheme option" where
  "lock_destroy l s = do {
     uv_assert (l \<in> locks s);
     Some (s\<lparr>locks := locks s - {l}\<rparr>) }"

definition lock_init ::
  "'w loop_kernel \<Rightarrow> loop_lock \<Rightarrow> ('w, 'a) loop_scheme \<Rightarrow> (uv_errno + unit) \<times> ('w, 'a) loop_scheme" where
  "lock_init K l s = (case sys (k_lock_init K l) s of (Inl e, s) \<Rightarrow> (Inl e, s) | (Inr _, s) \<Rightarrow> (Inr (), s\<lparr>locks := insert l (locks s)\<rparr>))"

text \<open>The \<open>memset\<close>.\<close>

definition zero_loop :: "('w, 'a) loop_scheme \<Rightarrow> ('w, 'a) loop_scheme" where
  "zero_loop s = s\<lparr>loop_flags := 0, time := 0, stop_flag := False, active_handles := 0, active_reqs := 0,
     nfds := 0, watchers := None, nwatchers := 0, closing_handles := None, backend_fd := 0, timer_counter := 0,
     inotify_fd := 0, loop_emfile_fd := 0, wq := [], async_wfd := 0, io_fd := (io_fd s)(async_io_watcher := 0, signal_io_watcher := 0),
     flags := (flags s)(child_watcher := 0, wq_async := 0), internal_fields := False, locks := {},
     signal_pipefd := (signal_pipefd s)(loop_self s := (0, 0))\<rparr>"

definition init_queues :: "qaddr qstore \<Rightarrow> qaddr qstore" where
  "init_queues q = QUEUE_INIT (LoopQ WatcherK) (QUEUE_INIT (LoopQ PendingK)
     (QUEUE_INIT (LoopQ HandleK) (QUEUE_INIT (LoopQ PrepareK) (QUEUE_INIT (LoopQ CheckK)
     (QUEUE_INIT (LoopQ AsyncK) (QUEUE_INIT (LoopQ IdleK) (QUEUE_INIT (LoopQ WqK) q)))))))"

text \<open>\<open>uv_loop_init\<close>, from \<open>heap_init\<close> to \<open>stop_flag\<close>.\<close>

definition init_fields :: "'w loop_kernel \<Rightarrow> ('w, 'a) loop_scheme \<Rightarrow> ('w, 'a) loop_scheme" where
  "init_fields K s =
     (let s = s\<lparr>timer_heap := heap_init (timer_heap s), qs := init_queues (qs s), active_handles := 0, active_reqs := 0,
                nfds := 0, watchers := None, nwatchers := 0, closing_handles := None\<rparr>;
          s = uv__update_time (lioK K) s
      in s\<lparr>io_fd := (io_fd s)(async_io_watcher := -1), async_wfd := -1, signal_pipefd := (signal_pipefd s)(loop_self s := (-1, -1)),
           backend_fd := -1, loop_emfile_fd := -1, timer_counter := 0, stop_flag := False\<rparr>)"

text \<open>The labels of the errors, in the order they fall through; the array of watchers is freed.\<close>

definition fail_metrics_mutex_init ::
  "uv_errno \<Rightarrow> ('w, 'a) loop_scheme \<Rightarrow> ((uv_errno + unit) \<times> ('w, 'a) loop_scheme) option" where
  "fail_metrics_mutex_init e s = Some (Inl e, s\<lparr>internal_fields := False, watchers := None, nwatchers := 0\<rparr>)"

definition fail_platform_init ::
  "uv_errno \<Rightarrow> ('w, 'a) loop_scheme \<Rightarrow> ((uv_errno + unit) \<times> ('w, 'a) loop_scheme) option" where
  "fail_platform_init e s = lock_destroy Metrics_lock s \<bind> fail_metrics_mutex_init e"

definition fail_signal_init ::
  "'w loop_kernel \<Rightarrow> uv_errno \<Rightarrow> ('w, 'a) loop_scheme \<Rightarrow> ((uv_errno + unit) \<times> ('w, 'a) loop_scheme) option" where
  "fail_signal_init K e s = uv__platform_loop_delete K s \<bind> fail_platform_init e"

definition fail_rwlock_init ::
  "'w loop_kernel \<Rightarrow> uv_errno \<Rightarrow> ('w, 'a) loop_scheme \<Rightarrow> ((uv_errno + unit) \<times> ('w, 'a) loop_scheme) option" where
  "fail_rwlock_init K e s = uv__signal_loop_cleanup (sgK K) s \<bind> fail_signal_init K e"

definition fail_mutex_init ::
  "'w loop_kernel \<Rightarrow> uv_errno \<Rightarrow> ('w, 'a) loop_scheme \<Rightarrow> ((uv_errno + unit) \<times> ('w, 'a) loop_scheme) option" where
  "fail_mutex_init K e s = lock_destroy Cloexec_lock s \<bind> fail_rwlock_init K e"

definition fail_async_init ::
  "'w loop_kernel \<Rightarrow> uv_errno \<Rightarrow> ('w, 'a) loop_scheme \<Rightarrow> ((uv_errno + unit) \<times> ('w, 'a) loop_scheme) option" where
  "fail_async_init K e s = lock_destroy Wq_mutex s \<bind> fail_mutex_init K e"

text \<open>The handle \<open>h\<close> of the loop itself keeps it alive no more and is not shown.\<close>

definition make_internal :: "addr \<Rightarrow> ('w, 'a) loop_scheme \<Rightarrow> ('w, 'a) loop_scheme" where
  "make_internal h s = set_flag h UV_HANDLE_INTERNAL (uv__handle_unref h s)"

text \<open>\<open>uv_loop_init\<close>, from the signals on; \<open>work_done\<close> is \<open>uv__work_done\<close>.\<close>

definition init_signals ::
  "'w loop_kernel \<Rightarrow> nat \<Rightarrow> ('w, 'a) loop_scheme \<Rightarrow> ((uv_errno + unit) \<times> ('w, 'a) loop_scheme) option" where
  "init_signals K work_done s = do {
     s \<leftarrow> uv__signal_global_once_init (sgK K) s;
     (err, s) \<leftarrow> uv_signal_init (sgK K) child_watcher s;
     (case err of
        Inl e \<Rightarrow> fail_signal_init K e s
      | Inr _ \<Rightarrow> do {
          let s = make_internal child_watcher s;
          let s = s\<lparr>qs := QUEUE_INIT (LoopQ ProcessK) (qs s)\<rparr>;
          (case lock_init K Cloexec_lock s of
             (Inl e, s) \<Rightarrow> fail_rwlock_init K e s
           | (Inr _, s) \<Rightarrow>
               (case lock_init K Wq_mutex s of
                  (Inl e, s) \<Rightarrow> fail_mutex_init K e s
                | (Inr _, s) \<Rightarrow> do {
                    (err, s) \<leftarrow> uv_async_init (lioK K) wq_async (Some work_done) s;
                    (case err of
                       Inl e \<Rightarrow> fail_async_init K e s
                     | Inr _ \<Rightarrow> Some (Inr (), make_internal wq_async s)) })) }) }"

definition uv_loop_init ::
  "'w loop_kernel \<Rightarrow> nat \<Rightarrow> ('w, 'a) loop_scheme \<Rightarrow> ((uv_errno + unit) \<times> ('w, 'a) loop_scheme) option" where
  "uv_loop_init K work_done s =
     (case sys (k_calloc K) (zero_loop s) of
        (False, s) \<Rightarrow> Some (Inl UV_ENOMEM, s)
      | (True, s) \<Rightarrow>
          let s = s\<lparr>internal_fields := True, internal_flags := 0, provider_entry_time := 0, provider_idle_time := 0\<rparr>
          in (case lock_init K Metrics_lock s of
                (Inl e, s) \<Rightarrow> fail_metrics_mutex_init e s
              | (Inr _, s) \<Rightarrow> do {
                  (err, s) \<leftarrow> uv__platform_loop_init K (init_fields K s);
                  (case err of
                     Inl e \<Rightarrow> fail_platform_init e s
                   | Inr _ \<Rightarrow> init_signals K work_done s) }))"

section \<open>After a fork\<close>

fun rearm :: "slot list \<Rightarrow> ('w, 'a) loop_scheme \<Rightarrow> ('w, 'a) loop_scheme" where
  "rearm [] s = s"
| "rearm (x # xs) s =
     (case x of
        SWatch w \<Rightarrow>
          rearm xs (if io_pevents s w \<noteq> 0 \<and> QUEUE_EMPTY (qs s) (NodeQ WatcherK w)
                    then s\<lparr>io_events := (io_events s)(w := 0), qs := QUEUE_INSERT_TAIL (LoopQ WatcherK) (NodeQ WatcherK w) (qs s)\<rparr>
                    else s)
      | _ \<Rightarrow> rearm xs s)"

definition uv_loop_fork ::
  "'w loop_kernel \<Rightarrow> (('w, 'a) loop_scheme \<Rightarrow> ((uv_errno + unit) \<times> ('w, 'a) loop_scheme) option) \<Rightarrow> ('w, 'a) loop_scheme \<Rightarrow>
    ((uv_errno + unit) \<times> ('w, 'a) loop_scheme) option" where
  "uv_loop_fork K inotify_fork s = do {
     (err, s) \<leftarrow> uv__io_fork K inotify_fork s;
     (case err of Inl e \<Rightarrow> Some (Inl e, s)
      | Inr _ \<Rightarrow> do {
          (err, s) \<leftarrow> uv__async_fork (lioK K) s;
          (case err of Inl e \<Rightarrow> Some (Inl e, s)
           | Inr _ \<Rightarrow> do {
               (err, s) \<leftarrow> uv__signal_loop_fork (sgK K) s;
               (case err of Inl e \<Rightarrow> Some (Inl e, s)
                | Inr _ \<Rightarrow> Some (Inr (), rearm (take (unat (nwatchers s)) (case watchers s of None \<Rightarrow> [] | Some ws \<Rightarrow> ws)) s)) }) }) }"

section \<open>Closing a loop\<close>

definition uv__loop_close :: "'w loop_kernel \<Rightarrow> ('w, 'a) loop_scheme \<Rightarrow> ('w, 'a) loop_scheme option" where
  "uv__loop_close K s = do {
     s \<leftarrow> uv__signal_loop_cleanup (sgK K) s;
     s \<leftarrow> uv__platform_loop_delete K s;
     s \<leftarrow> uv__async_stop (lioK K) s;
     s \<leftarrow> (if loop_emfile_fd s \<noteq> -1 then do {
            (_, s) \<leftarrow> sys_prog (uv__close (lfdK K) (loop_emfile_fd s)) s;
            Some (s\<lparr>loop_emfile_fd := -1\<rparr>) }
          else Some s);
     s \<leftarrow> (if backend_fd s \<noteq> -1 then do {
            (_, s) \<leftarrow> sys_prog (uv__close (lfdK K) (backend_fd s)) s;
            Some (s\<lparr>backend_fd := -1\<rparr>) }
          else Some s);
     uv_assert (wq s = []);
     uv_assert (\<not> uv__has_active_reqs s);
     s \<leftarrow> lock_destroy Wq_mutex s;
     s \<leftarrow> lock_destroy Cloexec_lock s;
     s \<leftarrow> lock_destroy Metrics_lock (s\<lparr>watchers := None, nwatchers := 0\<rparr>);
     Some (s\<lparr>internal_fields := False\<rparr>) }"

text \<open>The walk of \<open>uv_loop_close\<close>: is there a handle that is not internal?\<close>

fun has_user_handle :: "('w, 'a) loop_scheme \<Rightarrow> qaddr list \<Rightarrow> bool option" where
  "has_user_handle s [] = Some False"
| "has_user_handle s (q # qrest) =
     (case q of
        NodeQ _ h \<Rightarrow> if \<not> has_flag s h UV_HANDLE_INTERNAL then Some True else has_user_handle s qrest
      | _ \<Rightarrow> None)"

definition uv_loop_close ::
  "'w loop_kernel \<Rightarrow> ('w, 'a) loop_scheme \<Rightarrow> ((uv_errno + unit) \<times> ('w, 'a) loop_scheme) option" where
  "uv_loop_close K s =
     (if uv__has_active_reqs s then Some (Inl UV_EBUSY, s)
      else do {
        hs \<leftarrow> QUEUE_FOREACH (qs s) (LoopQ HandleK);
        busy \<leftarrow> has_user_handle s hs;
        if busy then Some (Inl UV_EBUSY, s)
        else do {
          s \<leftarrow> uv__loop_close K s;
          Some (Inr (), s\<lparr>is_default := False\<rparr>) } })"

definition uv_default_loop ::
  "'w loop_kernel \<Rightarrow> nat \<Rightarrow> ('w, 'a) loop_scheme \<Rightarrow> (bool \<times> ('w, 'a) loop_scheme) option" where
  "uv_default_loop K work_done s =
     (if is_default s then Some (True, s)
      else do {
        (err, s) \<leftarrow> uv_loop_init K work_done s;
        Some (case err of Inl _ \<Rightarrow> (False, s) | Inr _ \<Rightarrow> (True, s\<lparr>is_default := True\<rparr>)) })"

definition uv_loop_new ::
  "'w loop_kernel \<Rightarrow> nat \<Rightarrow> ('w, 'a) loop_scheme \<Rightarrow> (bool \<times> ('w, 'a) loop_scheme) option" where
  "uv_loop_new K work_done s =
     (case sys (k_calloc K) s of
        (False, s) \<Rightarrow> Some (False, s)
      | (True, s) \<Rightarrow> do {
          (err, s) \<leftarrow> uv_loop_init K work_done (s\<lparr>allocated := True\<rparr>);
          Some (case err of Inl _ \<Rightarrow> (False, s\<lparr>allocated := False\<rparr>) | Inr _ \<Rightarrow> (True, s)) })"

definition uv_loop_delete :: "'w loop_kernel \<Rightarrow> ('w, 'a) loop_scheme \<Rightarrow> ('w, 'a) loop_scheme option" where
  "uv_loop_delete K s = do {
     let default_loop = is_default s;
     (err, s) \<leftarrow> uv_loop_close K s;
     uv_assert (err = Inr ());
     Some (if \<not> default_loop then s\<lparr>allocated := False\<rparr> else s) }"

section \<open>Options and queries\<close>

definition uv__loop_configure ::
  "int \<Rightarrow> int \<Rightarrow> ('w, 'a) loop_scheme \<Rightarrow> (uv_errno + unit) \<times> ('w, 'a) loop_scheme" where
  "uv__loop_configure option arg s =
     (if option = UV_ELOOP_METRICS_IDLE_TIME then (Inr (), s\<lparr>internal_flags := internal_flags s OR UV_METRICS_IDLE_TIME\<rparr>)
      else if option \<noteq> UV_ELOOP_BLOCK_SIGNAL then (Inl UV_ENOSYS, s)
      else if arg \<noteq> SIGPROF then (Inl UV_EINVAL, s)
      else (Inr (), s\<lparr>loop_flags := loop_flags s OR UV_LOOP_BLOCK_SIGPROF\<rparr>))"

definition uv_loop_configure ::
  "int \<Rightarrow> int \<Rightarrow> ('w, 'a) loop_scheme \<Rightarrow> (uv_errno + unit) \<times> ('w, 'a) loop_scheme" where
  "uv_loop_configure option arg s = uv__loop_configure option arg s"

definition uv_ref :: "addr \<Rightarrow> 'a uv_loop_scheme \<Rightarrow> 'a uv_loop_scheme" where "uv_ref h s = uv__handle_ref h s"
definition uv_unref :: "addr \<Rightarrow> 'a uv_loop_scheme \<Rightarrow> 'a uv_loop_scheme" where "uv_unref h s = uv__handle_unref h s"
definition uv_has_ref :: "addr \<Rightarrow> 'a uv_loop_scheme \<Rightarrow> bool" where "uv_has_ref h s = uv__has_ref s h"
definition uv_stop :: "'a uv_loop_scheme \<Rightarrow> 'a uv_loop_scheme" where "uv_stop s = s\<lparr>stop_flag := True\<rparr>"
definition uv_now :: "'a uv_loop_scheme \<Rightarrow> u64" where "uv_now s = time s"

text \<open>\<open>uv_walk\<close>: the queue on the stack is \<open>LocalQ 4\<close>.\<close>

definition uv_walk ::
  "(addr \<Rightarrow> 'a uv_loop_scheme \<Rightarrow> 'a uv_loop_scheme option) \<Rightarrow> 'a uv_loop_scheme \<Rightarrow> 'a uv_loop_scheme option" where
  "uv_walk walk_cb s = rotate_loop (LocalQ 4) (LoopQ HandleK)
     (\<lambda>q s. queue_data q \<bind> (\<lambda>h. if has_flag s h UV_HANDLE_INTERNAL then Some s else walk_cb h s))
     (move_queue (LoopQ HandleK) (LocalQ 4) s)"

definition uv_library_shutdown ::
  "'w loop_kernel \<Rightarrow> (('w, 'a) loop_scheme \<Rightarrow> ('w, 'a) loop_scheme) \<Rightarrow> (('w, 'a) loop_scheme \<Rightarrow> ('w, 'a) loop_scheme) \<Rightarrow>
    ('w, 'a) loop_scheme \<Rightarrow> ('w, 'a) loop_scheme option" where
  "uv_library_shutdown K process_title_cleanup threadpool_cleanup s =
     (if was_shutdown s then Some s
      else do {
        s \<leftarrow> uv__signal_cleanup (sgK K) (process_title_cleanup s);
        Some ((threadpool_cleanup s)\<lparr>was_shutdown := True\<rparr>) })"


section \<open>What the calls promise\<close>

definition pair_opens :: "('w \<Rightarrow> int set) \<Rightarrow> ('w, int \<times> int) sys \<Rightarrow> bool" where
  "pair_opens fds f \<longleftrightarrow> (\<forall>w. case fst (f w) of
     Inl _ \<Rightarrow> fds (snd (f w)) = fds w
   | Inr (a, b) \<Rightarrow> 2 < a \<and> 2 < b \<and> a \<noteq> b \<and> a \<notin> fds w \<and> b \<notin> fds w \<and> fds (snd (f w)) = {a, b} \<union> fds w)"

definition loop_laws :: "'w loop_kernel \<Rightarrow> ('w \<Rightarrow> int set) \<Rightarrow> bool" where
  "loop_laws K fds \<longleftrightarrow>
     fd_laws (lfdK K) fds \<and> opens fds (k_epoll_create1 K) \<and> opens fds (k_epoll_create K) \<and> opens fds (k_eventfd K) \<and>
     (\<forall>fl. pair_opens fds (k_pipe2 K fl)) \<and> (\<forall>w. fds (snd (k_calloc K w)) = fds w) \<and> (\<forall>w. fds (snd (k_hrtime K w)) = fds w) \<and>
     (\<forall>l. keeps fds (k_lock_init K l)) \<and> (\<forall>n w. fst (k_realloc K n w) \<and> fds (snd (k_realloc K n w)) = fds w) \<and>
     (\<forall>w. fds w \<subseteq> {..< 2 ^ 31 - 3})"

text \<open>What the first loop calls in addition: it returns, and opens and closes nothing.\<close>

definition boot_laws :: "'w loop_kernel \<Rightarrow> ('w \<Rightarrow> int set) \<Rightarrow> bool" where
  "boot_laws K fds \<longleftrightarrow> keeps fds (k_atfork K) \<and>
     (\<forall>fd w. \<exists>r w'. retry_eintr (k_write K fd ''*'') w = Some (r, w') \<and> fds w' = fds w)"

text \<open>
  One of the calls that make the lock of the signals can fail, and with it the process, while there are at most three
  descriptors more than those of \<open>W\<close>.
\<close>

definition boot_fails :: "'w loop_kernel \<Rightarrow> ('w \<Rightarrow> int set) \<Rightarrow> int set \<Rightarrow> bool" where
  "boot_fails K fds W \<longleftrightarrow> (\<exists>w xs. fds w = set xs \<union> W \<and> length xs \<le> 3 \<and>
     (isl (fst (k_atfork K w)) \<or> isl (fst (k_pipe2 K O_CLOEXEC w)) \<or>
      (\<exists>fd e w'. retry_eintr (k_write K fd ''*'') w = Some (Inl e, w'))))"

text \<open>The calls succeed as long as there are at most \<open>n\<close> descriptors more than those of \<open>W\<close>.\<close>

definition grants :: "'w loop_kernel \<Rightarrow> ('w \<Rightarrow> int set) \<Rightarrow> int set \<Rightarrow> nat \<Rightarrow> bool" where
  "grants K fds W n \<longleftrightarrow> (\<forall>w xs. fds w = set xs \<union> W \<and> length xs \<le> n \<longrightarrow>
     fst (k_calloc K w) \<and> \<not> isl (fst (k_epoll_create1 K w)) \<and> \<not> isl (fst (k_eventfd K w)) \<and>
     (\<forall>fl. \<not> isl (fst (k_pipe2 K fl w))) \<and> (\<forall>l. \<not> isl (fst (k_lock_init K l w))))"

lemma grantsD:
  assumes "grants K fds W n" "fds w = set xs \<union> W" "length xs \<le> n"
  shows "fst (k_calloc K w)" "\<not> isl (fst (k_epoll_create1 K w))" "\<not> isl (fst (k_eventfd K w))"
    "\<not> isl (fst (k_pipe2 K fl w))" "\<not> isl (fst (k_lock_init K l w))"
  using assms by (auto simp: grants_def)

lemma truncated [simp]:
  "fd_kernel.truncate (io_kernel.truncate K) = fd_kernel.truncate K"
  "fd_kernel.truncate (signal_kernel.truncate K) = fd_kernel.truncate K"
  "io_kernel.truncate (signal_kernel.truncate K) = io_kernel.truncate K"
  "k_epoll_create1 (io_kernel.truncate K) = k_epoll_create1 K" "k_epoll_create (io_kernel.truncate K) = k_epoll_create K"
  "k_eventfd (io_kernel.truncate K) = k_eventfd K" "k_hrtime (io_kernel.truncate K) = k_hrtime K"
  "k_realloc (io_kernel.truncate K) = k_realloc K"
  by (simp_all add: io_kernel.truncate_def fd_kernel.truncate_def signal_kernel.truncate_def)

lemma truncated_signal [simp]: "k_pipe2 (signal_kernel.truncate K) = k_pipe2 K"
  by (simp add: signal_kernel.truncate_def)

section \<open>The queues of a loop\<close>

text \<open>The handle queue lists \<open>hs\<close>, and every node in a queue that is known is in \<open>N\<close>.\<close>

definition lists :: "qaddr qstore \<Rightarrow> addr list \<Rightarrow> qaddr set \<Rightarrow> bool" where
  "lists q hs N \<longleftrightarrow> (\<exists>Q f. queues q Q f \<and> {LoopQ WatcherK, LoopQ HandleK, LoopQ AsyncK} \<subseteq> Q \<and>
     f (LoopQ HandleK) = map (NodeQ HandleK) hs \<and> (\<forall>x \<in> Q. qcell f x \<subseteq> N))"

lemma lists_unused: "\<forall>x \<in> Q. qcell f x \<subseteq> N \<Longrightarrow> x \<notin> N \<Longrightarrow> unused Q f x"
  by (auto simp: unused_def)

lemma lists_foreach: "lists q hs N \<Longrightarrow> QUEUE_FOREACH q (LoopQ HandleK) = Some (map (NodeQ HandleK) hs)"
  by (metis QUEUE_FOREACH_at insert_subset lists_def queuesD)

lemma lists_INIT:
  assumes "lists q hs N" "x \<notin> N"
  shows "lists (QUEUE_INIT x q) hs (insert x N)"
proof -
  obtain Q f where Q: "queues q Q f" "{LoopQ WatcherK, LoopQ HandleK, LoopQ AsyncK} \<subseteq> Q"
    "f (LoopQ HandleK) = map (NodeQ HandleK) hs" "\<forall>x \<in> Q. qcell f x \<subseteq> N"
    using assms(1) by (auto simp: lists_def)
  have u: "unused Q f x" by (rule lists_unused [OF Q(4) assms(2)])
  have "queues (QUEUE_INIT x q) (insert x Q) (f(x := []))" by (rule queues_INIT [OF Q(1) u])
  moreover have "x \<noteq> LoopQ HandleK" using u Q(2) by (auto simp: unused_def qcell_def)
  moreover have "\<forall>y \<in> insert x Q. qcell (f(x := [])) y \<subseteq> insert x N" using Q(4) by (auto simp: qcell_update)
  ultimately show ?thesis using Q(2,3) unfolding lists_def
    by (intro exI [of _ "insert x Q"] exI [of _ "f(x := [])"]) auto
qed

lemma lists_TAIL:
  assumes "lists q hs N" "x \<notin> N" "L \<in> {LoopQ WatcherK, LoopQ HandleK, LoopQ AsyncK}"
    "L = LoopQ HandleK \<Longrightarrow> hs' = hs @ [h] \<and> x = NodeQ HandleK h" "L \<noteq> LoopQ HandleK \<Longrightarrow> hs' = hs"
  shows "lists (QUEUE_INSERT_TAIL L x q) hs' (insert x N)"
proof -
  obtain Q f where Q: "queues q Q f" "{LoopQ WatcherK, LoopQ HandleK, LoopQ AsyncK} \<subseteq> Q"
    "f (LoopQ HandleK) = map (NodeQ HandleK) hs" "\<forall>x \<in> Q. qcell f x \<subseteq> N"
    using assms(1) by (auto simp: lists_def)
  have u: "unused Q f x" by (rule lists_unused [OF Q(4) assms(2)])
  have L: "L \<in> Q" using Q(2) assms(3) by auto
  have "queues (QUEUE_INSERT_TAIL L x q) Q (f(L := f L @ [x]))" by (rule queues_INSERT_TAIL [OF Q(1) L u])
  moreover have "(f(L := f L @ [x])) (LoopQ HandleK) = map (NodeQ HandleK) hs'"
    using assms(4,5) Q(3) by (cases "L = LoopQ HandleK") auto
  moreover have "\<forall>y \<in> Q. qcell (f(L := f L @ [x])) y \<subseteq> insert x N"
    using Q(4) L by (auto simp: qcell_update qcell_def)
  ultimately show ?thesis using Q(2) unfolding lists_def by blast
qed

lemma insert_initialised: "QUEUE_INSERT_TAIL h x (QUEUE_INIT x q) = QUEUE_INSERT_TAIL h x q" if "h \<noteq> x" "QUEUE_PREV q h \<noteq> x"
  using that by (simp add: queue_macros fun_eq_iff)

lemma lists_watch:
  assumes "lists q hs N" "x \<notin> N"
  shows "lists (QUEUE_INSERT_TAIL (LoopQ WatcherK) x (QUEUE_INIT x q)) hs (insert x N)"
proof -
  obtain Q f where Q: "queues q Q f" "LoopQ WatcherK \<in> Q" "\<forall>x \<in> Q. qcell f x \<subseteq> N"
    using assms(1) by (auto simp: lists_def)
  have "QUEUE_PREV q (LoopQ WatcherK) \<in> qcell f (LoopQ WatcherK)"
    using queue_at_prev [OF queuesD [OF Q(1,2)]] last_in_set_Cons by (auto simp: qcell_def)
  then have "QUEUE_PREV q (LoopQ WatcherK) \<in> N" "LoopQ WatcherK \<in> N" using Q(2,3) by (auto simp: qcell_def)
  then have "QUEUE_INSERT_TAIL (LoopQ WatcherK) x (QUEUE_INIT x q) = QUEUE_INSERT_TAIL (LoopQ WatcherK) x q"
    using assms(2) by (intro insert_initialised) auto
  then show ?thesis using lists_TAIL [OF assms, of "LoopQ WatcherK" hs undefined] by simp
qed

abbreviation loop_heads :: "qaddr set" where
  "loop_heads \<equiv> {LoopQ WatcherK, LoopQ PendingK, LoopQ HandleK, LoopQ PrepareK, LoopQ CheckK, LoopQ AsyncK, LoopQ IdleK, LoopQ WqK}"

lemma lists_start: "lists (init_queues q) [] loop_heads"
proof -
  have q: "queues (foldr QUEUE_INIT xs q) (set xs) (\<lambda>_. [])" if "distinct xs" for xs
    using that
  proof (induction xs)
    case Nil
    then show ?case by (simp add: queues_def)
  next
    case (Cons x xs)
    then have "unused (set xs) (\<lambda>_. []) x" by (auto simp: unused_def qcell_def)
    from queues_INIT [OF Cons.IH this] show ?case using Cons.prems by (simp add: fun_upd_idem)
  qed
  let ?xs = "[LoopQ WatcherK, LoopQ PendingK, LoopQ HandleK, LoopQ PrepareK, LoopQ CheckK, LoopQ AsyncK, LoopQ IdleK, LoopQ WqK]"
  have "queues (init_queues q) (set ?xs) (\<lambda>_. [])" using q [of ?xs] by (simp add: init_queues_def)
  then show ?thesis unfolding lists_def by (intro exI [of _ "set ?xs"] exI [of _ "\<lambda>_. []"]) (auto simp: qcell_def)
qed


section \<open>The steps of \<open>uv_loop_init\<close>\<close>

lemma sys_closes:
  assumes "fd_laws K fds" "fd \<in> fds (os s)" "fd > 2"
  shows "\<exists>w. sys_prog (uv__close K fd) s = Some (Inr (), s\<lparr>os := w\<rparr>) \<and> fds w = fds (os s) - {fd}"
  using uv__close_ok(1) [OF assms] by (auto simp: sys_prog_def)

lemma loop_lawsD:
  assumes "loop_laws K fds"
  shows "fd_laws (lfdK K) fds" "opens fds (k_epoll_create1 K)" "opens fds (k_epoll_create K)" "opens fds (k_eventfd K)"
    "pair_opens fds (k_pipe2 K fl)" "fds (snd (k_calloc K w)) = fds w" "fds (snd (k_hrtime K w)) = fds w"
    "keeps fds (k_lock_init K l)" "fst (k_realloc K n w)" "fds (snd (k_realloc K n w)) = fds w"
    "x \<in> fds w \<Longrightarrow> x < 2 ^ 31 - 3"
  using assms by (auto simp: loop_laws_def)

text \<open>What only \<open>uv_loop_init\<close> itself sets.\<close>

definition view :: "('w, 'a) loop_scheme \<Rightarrow> addr \<times> bool \<times> int \<times> int \<times> addr list \<times> u32 \<times> int \<times> bool \<times> bool \<times> bool \<times> (int \<times> int)" where
  "view s = (loop_self s, internal_fields s, inotify_fd s, loop_emfile_fd s, wq s, active_reqs s, backend_fd s, is_default s, allocated s,
     signal_once s, signal_lock_pipefd s)"

text \<open>What all loops share.\<close>

abbreviation shared :: "('w, 'a) signal_loop_scheme \<Rightarrow> bool \<times> int \<times> int" where
  "shared s \<equiv> (signal_once s, signal_lock_pipefd s)"

definition io_made :: "addr \<Rightarrow> int \<Rightarrow> ('w, 'a) io_loop_scheme \<Rightarrow> ('w, 'a) io_loop_scheme \<Rightarrow> bool" where
  "io_made w fd s s' \<longleftrightarrow> s' = s\<lparr>qs := qs s', io_cb := io_cb s', io_fd := (io_fd s)(w := fd), io_events := io_events s',
     io_pevents := io_pevents s', watchers := watchers s', nwatchers := nwatchers s', nfds := nfds s', os := os s'\<rparr>"

lemma io_made_fields:
  assumes "io_made w fd s s'"
  shows "view s' = view s" "locks s' = locks s" "flags s' = flags s" "htype s' = htype s" "signum s' = signum s"
    "active_handles s' = active_handles s" "signal_pipefd s' = signal_pipefd s" "io_fd s' = (io_fd s)(w := fd)"
    "async_wfd s' = async_wfd s" "loop_self s' = loop_self s"
  by (subst assms [unfolded io_made_def]; simp add: view_def)+

text \<open>Starting a watcher that is in no cell of the array.\<close>

definition unwatched :: "('w, 'a) io_loop_scheme \<Rightarrow> addr \<Rightarrow> bool" where
  "unwatched s w \<longleftrightarrow> (\<forall>ws. watchers s = Some ws \<longrightarrow> (\<forall>i < unat (nwatchers s). ws ! i \<noteq> SWatch w))"

lemma unwatched_closed: "io_ok s \<Longrightarrow> watchers s = None \<or> io_fd s w = -1 \<Longrightarrow> unwatched s w"
  unfolding unwatched_def by (metis io_okD(4) option.distinct(1) slot.distinct(1) slot.inject(1) of_nat_0_le_iff neg_0_le_iff_le not_one_le_zero)

lemma watch_made:
  assumes ok: "io_ok s" and new: "unwatched s w" and fd: "0 \<le> fd" "fd < 2 ^ 31 - 3"
    and mem: "\<And>n w. fst (k_realloc K n w)" "\<And>n w. P (snd (k_realloc K n w)) = P w"
  shows "\<exists>s1 s'. uv__io_init w cb fd s = Some s1 \<and> uv__io_start K w POLLIN s1 = Some s' \<and> io_ok s' \<and>
    qs s' = QUEUE_INSERT_TAIL (LoopQ WatcherK) (NodeQ WatcherK w) (QUEUE_INIT (NodeQ WatcherK w) (QUEUE_INIT (NodeQ PendingK w) (qs s))) \<and>
    io_made w fd s s' \<and> P (os s') = P (os s)"
proof -
  define s1 where "s1 = s\<lparr>qs := QUEUE_INIT (NodeQ WatcherK w) (QUEUE_INIT (NodeQ PendingK w) (qs s)), io_cb := (io_cb s)(w := cb),
    io_fd := (io_fd s)(w := fd), io_events := (io_events s)(w := 0), io_pevents := (io_pevents s)(w := 0)\<rparr>"
  have 1: "uv__io_init w cb fd s = Some s1" using fd by (simp add: uv__io_init_def s1_def)
  have ok1: "io_ok s1"
  proof (cases "watchers s")
    case None
    then show ?thesis using ok by (simp add: io_ok_def s1_def)
  next
    case (Some ws)
    note d = io_okD [OF ok Some]
    show ?thesis
    proof (rule io_okI [where ws = ws])
      show "ws ! i = SNull \<or> (\<exists>v. ws ! i = SWatch v \<and> io_fd s1 v = int i \<and> io_pevents s1 v \<noteq> 0)"
        if "i < unat (nwatchers s1)" for i
      proof -
        have i: "i < unat (nwatchers s)" using that by (simp add: s1_def)
        have "ws ! i \<noteq> SWatch w" using new Some i by (simp add: unwatched_def)
        then show ?thesis using d(4) [OF i] by (auto simp: s1_def)
      qed
    qed (use d Some in \<open>simp_all add: s1_def\<close>)
  qed
  have ev: "POLLIN AND NOT POLL_ALL = 0" "POLLIN \<noteq> 0" by simp_all
  have f1: "io_fd s1 w = fd" "io_events s1 w = 0" "io_pevents s1 w = 0"
    "qs s1 = QUEUE_INIT (NodeQ WatcherK w) (QUEUE_INIT (NodeQ PendingK w) (qs s))" by (simp_all add: s1_def)
  obtain s' where s': "uv__io_start K w POLLIN s1 = Some s'" "io_ok s'" "io_touched s1 s'"
    "qs s' = (if QUEUE_EMPTY (qs s1) (NodeQ WatcherK w) then QUEUE_INSERT_TAIL (LoopQ WatcherK) (NodeQ WatcherK w) (qs s1) else qs s1)"
    using io_start_run [OF ok1 ev, of w K] fd mem(1) by (auto simp: f1)
  have "QUEUE_EMPTY (qs s1) (NodeQ WatcherK w)" using QUEUE_EMPTY_at [OF QUEUE_INIT_at] by (simp add: f1)
  moreover have "io_cb s' = io_cb s1" by (subst s'(3) [unfolded io_touched_def]) simp
  then have "io_made w fd s s'" unfolding io_made_def by (subst s'(3) [unfolded io_touched_def]) (simp add: s1_def)
  moreover have "P (os s') = P (os s)" using io_start_sent [where P = P, OF mem(2) s'(1)] by (simp add: s1_def)
  ultimately show ?thesis using 1 s'(1,2,4) f1(4) by auto
qed

lemma watch_new:
  assumes ok: "io_ok s" and l: "lists (qs s) hs N" and n: "NodeQ PendingK w \<notin> N" "NodeQ WatcherK w \<notin> N"
    and fd: "0 \<le> fd" "fd < 2 ^ 31 - 3" and new: "watchers s = None \<or> io_fd s w = -1"
    and mem: "\<And>n w. fst (k_realloc K n w)" "\<And>n w. P (snd (k_realloc K n w)) = P w"
  shows "\<exists>s1 s'. uv__io_init w cb fd s = Some s1 \<and> uv__io_start K w POLLIN s1 = Some s' \<and> io_ok s' \<and>
    lists (qs s') hs (insert (NodeQ WatcherK w) (insert (NodeQ PendingK w) N)) \<and> io_made w fd s s' \<and> P (os s') = P (os s)"
proof -
  have "lists (QUEUE_INIT (NodeQ PendingK w) (qs s)) hs (insert (NodeQ PendingK w) N)" by (rule lists_INIT [OF l n(1)])
  then have "lists (QUEUE_INSERT_TAIL (LoopQ WatcherK) (NodeQ WatcherK w) (QUEUE_INIT (NodeQ WatcherK w) (QUEUE_INIT (NodeQ PendingK w) (qs s)))) hs
      (insert (NodeQ WatcherK w) (insert (NodeQ PendingK w) N))" using n by (intro lists_watch) auto
  then show ?thesis using watch_made [OF ok unwatched_closed [OF ok new] fd mem] by metis
qed

lemma platform_init_outcome:
  assumes K: "loop_laws K fds"
  shows "\<exists>r fd w. uv__platform_loop_init K s = Some (r, s\<lparr>inotify_fd := -1, backend_fd := fd, os := w\<rparr>) \<and>
    (case r of Inl _ \<Rightarrow> fds w = fds (os s) \<and> fd = -1
     | Inr _ \<Rightarrow> 2 < fd \<and> fd \<notin> fds (os s) \<and> fds w = insert fd (fds (os s))) \<and>
    (isl r \<longrightarrow> isl (fst (k_epoll_create1 K (os s))))"
proof (rule opens_cases [OF loop_lawsD(2) [OF K], of "os s"])
  fix fd w assume "k_epoll_create1 K (os s) = (Inr fd, w)" "2 < fd" "fd \<notin> fds (os s)" "fds w = insert fd (fds (os s))"
  then show ?thesis
    by (intro exI [of _ "Inr ()"] exI [of _ fd] exI [of _ w]) (simp add: uv__platform_loop_init_def uv__epoll_init_def sys_def)
next
  fix e w assume 1: "k_epoll_create1 K (os s) = (Inl e, w)" "fds w = fds (os s)"
  show ?thesis
  proof (cases "e = UV_ENOSYS \<or> e = UV_EINVAL")
    case False
    then show ?thesis using 1
      by (intro exI [of _ "Inl e"] exI [of _ "-1"] exI [of _ w]) (simp add: uv__platform_loop_init_def uv__epoll_init_def sys_def)
  next
    case True
    show ?thesis
    proof (rule opens_cases [OF loop_lawsD(3) [OF K], of w])
      fix e2 w2 assume "k_epoll_create K w = (Inl e2, w2)" "fds w2 = fds w"
      then show ?thesis using 1 True
        by (intro exI [of _ "Inl e2"] exI [of _ "-1"] exI [of _ w2]) (simp add: uv__platform_loop_init_def uv__epoll_init_def sys_def)
    next
      fix fd w2 assume 2: "k_epoll_create K w = (Inr fd, w2)" "2 < fd" "fd \<notin> fds w" "fds w2 = insert fd (fds w)"
      obtain r w3 where 3: "uv__cloexec (lfdK K) fd True w2 = Some (r, w3)" "fds w3 = fds w2"
        using uv__cloexec_keeps [OF loop_lawsD(1) [OF K]] by blast
      show ?thesis using 1 2 3 True
        by (intro exI [of _ "Inr ()"] exI [of _ fd] exI [of _ w3])
           (simp add: uv__platform_loop_init_def uv__epoll_init_def sys_def sys_prog_def)
    qed
  qed
qed


lemma signal_init_outcome:
  assumes K: "loop_laws K fds" and s: "io_ok s" "watchers s = None" "signal_pipefd s (loop_self s) = (-1, -1)"
    "lists (qs s) [] N" "NodeQ PendingK signal_io_watcher \<notin> N" "NodeQ WatcherK signal_io_watcher \<notin> N" "NodeQ HandleK child_watcher \<notin> N"
  shows "\<exists>r s'. uv_signal_init (sgK K) child_watcher s = Some (r, s') \<and> view s' = view s \<and> locks s' = locks s \<and>
    active_handles s' = active_handles s \<and> async_wfd s' = async_wfd s \<and> io_fd s' async_io_watcher = io_fd s async_io_watcher \<and>
    (isl r \<longrightarrow> isl (fst (k_pipe2 K (O_CLOEXEC OR O_NONBLOCK) (os s)))) \<and>
    (case r of Inl _ \<Rightarrow> fds (os s') = fds (os s)
     | Inr _ \<Rightarrow> \<exists>a b. signal_pipefd s' (loop_self s') = (a, b) \<and> 2 < a \<and> 2 < b \<and> a \<noteq> b \<and> a \<notin> fds (os s) \<and> b \<notin> fds (os s) \<and>
         fds (os s') = {a, b} \<union> fds (os s) \<and> io_ok s' \<and> htype s' child_watcher = UV_SIGNAL \<and> signum s' child_watcher = 0 \<and>
         flags s' child_watcher = UV_HANDLE_REF \<and>
         lists (qs s') [child_watcher] (insert (NodeQ HandleK child_watcher)
           (insert (NodeQ WatcherK signal_io_watcher) (insert (NodeQ PendingK signal_io_watcher) N))))"
proof -
  let ?fl = "O_CLOEXEC OR O_NONBLOCK :: u32"
  have fl: "?fl AND O_NONBLOCK \<noteq> 0" by simp
  have po: "pair_opens fds (k_pipe2 K ?fl)" by (rule loop_lawsD(5) [OF K])
  obtain r w where p: "k_pipe2 K ?fl (os s) = (r, w)" by (cases "k_pipe2 K ?fl (os s)")
  show ?thesis
  proof (cases r)
    case (Inl e)
    have "fds w = fds (os s)" using po p Inl by (auto simp: pair_opens_def dest!: spec [of _ "os s"])
    then show ?thesis using p Inl s(3)
      by (intro exI [of _ "Inl e"] exI [of _ "s\<lparr>os := w\<rparr>"])
         (simp add: uv_signal_init_def uv__signal_loop_once_init_def uv__make_pipe_def uv_pipe_def sys_prog_def view_def Let_def)
  next
    case (Inr ab)
    obtain a b where ab: "ab = (a, b)" by (cases ab)
    have w: "2 < a" "2 < b" "a \<noteq> b" "a \<notin> fds (os s)" "b \<notin> fds (os s)" "fds w = {a, b} \<union> fds (os s)"
      using po p Inr ab by (auto simp: pair_opens_def dest!: spec [of _ "os s"])
    define s1 where "s1 = s\<lparr>os := w, signal_pipefd := (signal_pipefd s)(loop_self s := (a, b))\<rparr>"
    have f1: "io_ok s1" "watchers s1 = None" "qs s1 = qs s" using s(1,2) by (simp_all add: s1_def io_ok_def)
    have a: "a < 2 ^ 31 - 3" using loop_lawsD(11) [OF K, of a w] w(6) by simp
    obtain s2 s3 where w2: "uv__io_init signal_io_watcher UV__SIGNAL_EVENT a s1 = Some s2"
      "uv__io_start (lioK K) signal_io_watcher POLLIN s2 = Some s3" "io_ok s3"
      "lists (qs s3) [] (insert (NodeQ WatcherK signal_io_watcher) (insert (NodeQ PendingK signal_io_watcher) N))"
      "io_made signal_io_watcher a s1 s3" "fds (os s3) = fds (os s1)"
      using watch_new [where P = fds and K = "lioK K" and w = signal_io_watcher and cb = UV__SIGNAL_EVENT, OF f1(1) s(4) [folded f1(3)] s(5,6) _ a]
        f1(2) w(1) loop_lawsD(9,10) [OF K] by auto
    note m = io_made_fields [OF w2(5)]
    have run: "uv__signal_loop_once_init (sgK K) s = Some (Inr (), s3)"
      using p Inr ab s(3) w2(1,2)
      by (simp add: uv__signal_loop_once_init_def uv__make_pipe_def uv_pipe_def sys_prog_def Let_def s1_def)
    define s4 where "s4 = (uv__handle_init child_watcher UV_SIGNAL (s3\<lparr>sig_loop := (sig_loop s3)(child_watcher := loop_self s3)\<rparr>))
      \<lparr>signum := (signum s3)(child_watcher := 0), caught_signals := (caught_signals s3)(child_watcher := 0),
       dispatched_signals := (dispatched_signals s3)(child_watcher := 0)\<rparr>"
    have "uv_signal_init (sgK K) child_watcher s = Some (Inr (), s4)"
      by (simp add: uv_signal_init_def run s4_def Let_def uv__handle_init_def)
    moreover have "qs s4 = QUEUE_INSERT_TAIL (LoopQ HandleK) (NodeQ HandleK child_watcher) (qs s3)"
      by (simp add: s4_def uv__handle_init_def)
    then have "lists (qs s4) [child_watcher] (insert (NodeQ HandleK child_watcher)
           (insert (NodeQ WatcherK signal_io_watcher) (insert (NodeQ PendingK signal_io_watcher) N)))"
      using lists_TAIL [OF w2(4), of "NodeQ HandleK child_watcher" "LoopQ HandleK" "[child_watcher]" child_watcher] s(7) by simp
    moreover have "view s4 = view s3" "locks s4 = locks s3" "active_handles s4 = active_handles s3" "async_wfd s4 = async_wfd s3"
      "io_fd s4 = io_fd s3" "os s4 = os s3" "signal_pipefd s4 = signal_pipefd s3" "loop_self s4 = loop_self s3"
      "htype s4 child_watcher = UV_SIGNAL" "signum s4 child_watcher = 0" "flags s4 child_watcher = UV_HANDLE_REF"
      by (simp_all add: s4_def uv__handle_init_def view_def)
    moreover have "io_ok s4 = io_ok s3" by (rule io_ok_cong) (simp_all add: s4_def uv__handle_init_def)
    moreover have "view s1 = view s" "locks s1 = locks s" "active_handles s1 = active_handles s" "async_wfd s1 = async_wfd s"
      "io_fd s1 = io_fd s" "os s1 = w" "signal_pipefd s1 (loop_self s1) = (a, b)"
      by (simp_all add: s1_def view_def)
    ultimately show ?thesis using w w2(3,6) m
      by (intro exI [of _ "Inr ()"] exI [of _ s4]) simp
  qed
qed

lemma stop_signals_none:
  assumes "\<forall>h \<in> set hs. htype s h = UV_SIGNAL \<longrightarrow> signum s h = 0"
  shows "stop_signals K (map (NodeQ HandleK) hs) s = Some s"
  using assms by (induction hs) (simp_all add: uv__signal_stop_def)

lemma cleanup_outcome:
  assumes L: "fd_laws (sfdK K) fds" and l: "QUEUE_FOREACH (qs s) (LoopQ HandleK) = Some (map (NodeQ HandleK) hs)" and q: "\<forall>h \<in> set hs. htype s h = UV_SIGNAL \<longrightarrow> signum s h = 0"
    and p: "signal_pipefd s (loop_self s) = (a, b)" "2 < a" "2 < b" "a \<noteq> b" "a \<in> fds (os s)" "b \<in> fds (os s)"
  shows "\<exists>w. uv__signal_loop_cleanup K s =
      Some (s\<lparr>os := w, signal_pipefd := (signal_pipefd s)(loop_self s := (-1, -1))\<rparr>) \<and> fds w = fds (os s) - {a, b}"
proof -
  obtain w where w: "sys_prog (uv__close (sfdK K) a) s = Some (Inr (), s\<lparr>os := w\<rparr>)" "fds w = fds (os s) - {a}"
    using sys_closes [OF L p(5,2)] by auto
  define s1 where "s1 = s\<lparr>os := w, signal_pipefd := (signal_pipefd s)(loop_self s := (-1, b))\<rparr>"
  have "b \<in> fds (os s1)" using w(2) p(4,6) by (simp add: s1_def)
  then obtain w2 where w2: "sys_prog (uv__close (sfdK K) b) s1 = Some (Inr (), s1\<lparr>os := w2\<rparr>)" "fds w2 = fds (os s1) - {b}"
    using sys_closes [OF L _ p(3)] by auto
  have "uv__signal_loop_cleanup K s = Some (s\<lparr>os := w2, signal_pipefd := (signal_pipefd s)(loop_self s := (-1, -1))\<rparr>)"
    using w(1) w2(1) p(1-3)
    by (simp add: uv__signal_loop_cleanup_def l stop_signals_none [OF q] s1_def)
  moreover have "fds w2 = fds (os s) - {a, b}" using w2(2) w(2) by (auto simp: s1_def)
  ultimately show ?thesis by blast
qed

lemma lock_init_outcome:
  assumes K: "loop_laws K fds"
  shows "\<exists>r w. fds w = fds (os s) \<and> isl r = isl (fst (k_lock_init K l (os s))) \<and>
    lock_init K l s = (r, if isl r then s\<lparr>os := w\<rparr> else s\<lparr>os := w, locks := insert l (locks s)\<rparr>)"
proof -
  obtain r w where r: "k_lock_init K l (os s) = (r, w)" by (cases "k_lock_init K l (os s)")
  have "fds w = fds (os s)" using loop_lawsD(8) [OF K, of l] r unfolding keeps_def by (metis snd_conv)
  then show ?thesis using r
    by (cases r) (auto simp: lock_init_def sys_def intro: exI [of _ "Inl _"] exI [of _ "Inr ()"])
qed


lemma make_internal_idle:
  assumes "flags s h = UV_HANDLE_REF"
  shows "make_internal h s = s\<lparr>flags := (flags s)(h := UV_HANDLE_INTERNAL)\<rparr>"
  using assms by (simp add: make_internal_def handle_defs has_flag_def set_flag_def clear_flag_def)

lemma make_internal_active:
  assumes "flags s h = UV_HANDLE_REF OR UV_HANDLE_ACTIVE"
  shows "make_internal h s = s\<lparr>flags := (flags s)(h := UV_HANDLE_ACTIVE OR UV_HANDLE_INTERNAL), active_handles := active_handles s - 1\<rparr>"
  using assms by (simp add: make_internal_def handle_defs has_flag_def set_flag_def clear_flag_def)

lemma async_init_outcome:
  assumes K: "loop_laws K fds" and s: "io_ok s" "io_fd s async_io_watcher = -1"
    "lists (qs s) hs N" "NodeQ PendingK async_io_watcher \<notin> N" "NodeQ WatcherK async_io_watcher \<notin> N"
    "NodeQ HandleK wq_async \<notin> N" "NodeQ AsyncK wq_async \<notin> N"
  shows "\<exists>r s'. uv_async_init (lioK K) wq_async cb s = Some (r, s') \<and> view s' = view s \<and> locks s' = locks s \<and>
    signal_pipefd s' = signal_pipefd s \<and> signum s' = signum s \<and> (isl r \<longrightarrow> isl (fst (k_eventfd K (os s)))) \<and>
    (case r of Inl _ \<Rightarrow> \<exists>w. s' = s\<lparr>os := w\<rparr> \<and> fds w = fds (os s)
     | Inr _ \<Rightarrow> 2 < io_fd s' async_io_watcher \<and> io_fd s' async_io_watcher \<notin> fds (os s) \<and>
         fds (os s') = insert (io_fd s' async_io_watcher) (fds (os s)) \<and> io_ok s' \<and> async_wfd s' = -1 \<and>
         active_handles s' = active_handles s + 1 \<and>
         htype s' = (htype s)(wq_async := UV_ASYNC) \<and> flags s' = (flags s)(wq_async := UV_HANDLE_REF OR UV_HANDLE_ACTIVE) \<and>
         QUEUE_FOREACH (qs s') (LoopQ HandleK) = Some (map (NodeQ HandleK) (hs @ [wq_async])))"
proof (rule opens_cases [OF loop_lawsD(4) [OF K], of "os s"])
  fix e w assume "k_eventfd K (os s) = (Inl e, w)" "fds w = fds (os s)"
  then show ?thesis using s(2)
    by (intro exI [of _ "Inl e"] exI [of _ "s\<lparr>os := w\<rparr>"]) (auto simp: uv_async_init_def uv__async_start_def sys_def view_def)
next
  fix fd w assume 1: "k_eventfd K (os s) = (Inr fd, w)" "2 < fd" "fd \<notin> fds (os s)" "fds w = insert fd (fds (os s))"
  define s1 where "s1 = s\<lparr>os := w\<rparr>"
  have f1: "io_ok s1" "io_fd s1 async_io_watcher = -1" "qs s1 = qs s"
    using s(1,2) io_ok_cong [of s1 s] by (simp_all add: s1_def)
  have fd: "fd < 2 ^ 31 - 3" using loop_lawsD(11) [OF K, of fd w] 1(4) by simp
  obtain s2 s3 where w2: "uv__io_init async_io_watcher UV__ASYNC_IO fd s1 = Some s2"
    "uv__io_start (lioK K) async_io_watcher POLLIN s2 = Some s3" "io_ok s3"
    "lists (qs s3) hs (insert (NodeQ WatcherK async_io_watcher) (insert (NodeQ PendingK async_io_watcher) N))"
    "io_made async_io_watcher fd s1 s3" "fds (os s3) = fds (os s1)"
    using watch_new [where P = fds and K = "lioK K" and w = async_io_watcher and cb = UV__ASYNC_IO, OF f1(1) s(3) [folded f1(3)] s(4,5) _ fd]
      f1(2) 1(2) loop_lawsD(9,10) [OF K] by auto
  note m = io_made_fields [OF w2(5)]
  define s4 where "s4 = uv__handle_start wq_async ((uv__handle_init wq_async UV_ASYNC (s3\<lparr>async_wfd := -1\<rparr>))
    \<lparr>async_cb := (async_cb s3)(wq_async := cb), pending := (pending s3)(wq_async := 0),
     qs := QUEUE_INSERT_TAIL (LoopQ AsyncK) (NodeQ AsyncK wq_async) (QUEUE_INSERT_TAIL (LoopQ HandleK) (NodeQ HandleK wq_async) (qs s3))\<rparr>)"
  have run: "uv_async_init (lioK K) wq_async cb s = Some (Inr (), s4)"
    using 1(1) s(2) w2(1,2) by (simp add: uv_async_init_def uv__async_start_def sys_def s1_def s4_def Let_def uv__handle_init_def)
  have l4: "lists (qs s4) (hs @ [wq_async]) (insert (NodeQ AsyncK wq_async) (insert (NodeQ HandleK wq_async)
      (insert (NodeQ WatcherK async_io_watcher) (insert (NodeQ PendingK async_io_watcher) N))))"
  proof -
    have "lists (QUEUE_INSERT_TAIL (LoopQ HandleK) (NodeQ HandleK wq_async) (qs s3)) (hs @ [wq_async]) (insert (NodeQ HandleK wq_async)
      (insert (NodeQ WatcherK async_io_watcher) (insert (NodeQ PendingK async_io_watcher) N)))"
      using lists_TAIL [OF w2(4), of "NodeQ HandleK wq_async" "LoopQ HandleK" "hs @ [wq_async]" wq_async] s(6) by simp
    from lists_TAIL [OF this, of "NodeQ AsyncK wq_async" "LoopQ AsyncK" "hs @ [wq_async]" undefined] s(7)
    show ?thesis by (simp add: s4_def handle_defs has_flag_def uv__handle_init_def set_flag_def)
  qed
  have f4: "view s4 = view s3" "locks s4 = locks s3" "signal_pipefd s4 = signal_pipefd s3" "signum s4 = signum s3" "os s4 = os s3"
    "io_fd s4 = io_fd s3" "async_wfd s4 = -1" "active_handles s4 = active_handles s3 + 1" "htype s4 = (htype s3)(wq_async := UV_ASYNC)"
    "flags s4 = (flags s3)(wq_async := UV_HANDLE_REF OR UV_HANDLE_ACTIVE)"
    by (simp_all add: s4_def handle_defs has_flag_def uv__handle_init_def set_flag_def view_def)
  have "io_ok s4 = io_ok s3" by (rule io_ok_cong) (simp_all add: s4_def handle_defs has_flag_def uv__handle_init_def set_flag_def)
  moreover have "view s1 = view s" "locks s1 = locks s" "signal_pipefd s1 = signal_pipefd s" "signum s1 = signum s" "os s1 = w"
    "active_handles s1 = active_handles s" "htype s1 = htype s" "flags s1 = flags s" by (simp_all add: s1_def view_def)
  ultimately show ?thesis using run f4 m w2(3,6) 1(2-4) lists_foreach [OF l4]
    by (intro exI [of _ "Inr ()"] exI [of _ s4]) simp
qed

section \<open>The failures\<close>

lemma fail_platform_outcome:
  assumes "Metrics_lock \<in> locks s"
  shows "fail_platform_init e s =
    Some (Inl e, s\<lparr>locks := locks s - {Metrics_lock}, internal_fields := False, watchers := None, nwatchers := 0\<rparr>)"
  using assms by (simp add: fail_platform_init_def fail_metrics_mutex_init_def lock_destroy_def)

text \<open>No call is made here: the descriptor of epoll stays open.\<close>

lemma fail_signal_outcome:
  assumes "Metrics_lock \<in> locks s" "inotify_fd s = -1"
  shows "fail_signal_init K e s =
    Some (Inl e, s\<lparr>locks := locks s - {Metrics_lock}, internal_fields := False, watchers := None, nwatchers := 0\<rparr>)"
  using assms by (simp add: fail_signal_init_def uv__platform_loop_delete_def fail_platform_outcome)

lemma fail_rwlock_outcome:
  assumes K: "loop_laws K fds" and m: "Metrics_lock \<in> locks s" "inotify_fd s = -1" and c: "lists (qs s) hs N"
    "\<forall>h \<in> set hs. htype s h = UV_SIGNAL \<longrightarrow> signum s h = 0"
    "signal_pipefd s (loop_self s) = (a, b)" "2 < a" "2 < b" "a \<noteq> b" "a \<in> fds (os s)" "b \<in> fds (os s)"
  shows "\<exists>s'. fail_rwlock_init K e s = Some (Inl e, s') \<and> locks s' = locks s - {Metrics_lock} \<and> \<not> internal_fields s' \<and>
    backend_fd s' = backend_fd s \<and> fds (os s') = fds (os s) - {a, b} \<and> shared s' = shared s"
proof -
  have L: "fd_laws (sfdK (sgK K)) fds" using loop_lawsD(1) [OF K] by simp
  obtain w where w: "uv__signal_loop_cleanup (sgK K) s =
      Some (s\<lparr>os := w, signal_pipefd := (signal_pipefd s)(loop_self s := (-1, -1))\<rparr>)" "fds w = fds (os s) - {a, b}"
    using cleanup_outcome [OF L lists_foreach [OF c(1)] c(2-)] by blast
  show ?thesis using m w by (simp add: fail_rwlock_init_def fail_signal_outcome)
qed


section \<open>A loop that is made\<close>

definition loop_ready :: "('w, 'a) loop_scheme \<Rightarrow> bool" where
  "loop_ready s \<longleftrightarrow> locks s = UNIV \<and> internal_fields s \<and> inotify_fd s = -1 \<and> loop_emfile_fd s = -1 \<and> async_wfd s = -1 \<and>
     wq s = [] \<and> active_reqs s = 0 \<and> active_handles s = 0 \<and> io_ok s \<and>
     QUEUE_FOREACH (qs s) (LoopQ HandleK) = Some [NodeQ HandleK child_watcher, NodeQ HandleK wq_async] \<and>
     htype s child_watcher = UV_SIGNAL \<and> htype s wq_async = UV_ASYNC \<and> signum s child_watcher = 0 \<and>
     flags s child_watcher = UV_HANDLE_INTERNAL \<and> flags s wq_async = UV_HANDLE_ACTIVE OR UV_HANDLE_INTERNAL"

definition loop_fds :: "('w, 'a) loop_scheme \<Rightarrow> int list" where
  "loop_fds s = [backend_fd s, fst (signal_pipefd s (loop_self s)), snd (signal_pipefd s (loop_self s)), io_fd s async_io_watcher]"

definition fds_added :: "('w \<Rightarrow> int set) \<Rightarrow> int set \<Rightarrow> ('w, 'a) loop_scheme \<Rightarrow> int list \<Rightarrow> bool" where
  "fds_added fds W s xs \<longleftrightarrow> distinct xs \<and> (\<forall>x \<in> set xs. 2 < x \<and> x \<notin> W) \<and> fds (os s) = set xs \<union> W"

definition init_outcome :: "('w \<Rightarrow> int set) \<Rightarrow> int set \<Rightarrow> bool \<times> int \<times> int \<Rightarrow> uv_errno + unit \<Rightarrow> ('w, 'a) loop_scheme \<Rightarrow> bool" where
  "init_outcome fds W G r s \<longleftrightarrow> shared s = G \<and>
     (case r of
        Inl _ \<Rightarrow> locks s = {} \<and> \<not> internal_fields s \<and> fds_added fds W s (if backend_fd s > 2 then [backend_fd s] else [])
      | Inr _ \<Rightarrow> loop_ready s \<and> fds_added fds W s (loop_fds s))"

lemma failed_init:
  assumes "shared s = G" "locks s = {}" "\<not> internal_fields s" "fds (os s) = W \<or> 2 < backend_fd s \<and> backend_fd s \<notin> W \<and> fds (os s) = insert (backend_fd s) W"
    "fds (os s) = W \<longrightarrow> backend_fd s \<le> 2"
  shows "init_outcome fds W G (Inl e) s"
  using assms by (auto simp: init_outcome_def fds_added_def)

definition booted :: "('w, 'a) loop_scheme \<Rightarrow> bool" where
  "booted s \<longleftrightarrow> locks s = {Metrics_lock} \<and> internal_fields s \<and> inotify_fd s = -1 \<and> loop_emfile_fd s = -1 \<and> wq s = [] \<and>
     active_reqs s = 0 \<and> active_handles s = 0 \<and> io_ok s \<and> watchers s = None \<and> signal_pipefd s (loop_self s) = (-1, -1) \<and>
     io_fd s async_io_watcher = -1 \<and> lists (qs s) [] loop_heads"

text \<open>After the signals: what is left to fail gives back what there is, up to the descriptor of epoll.\<close>

abbreviation signal_nodes :: "qaddr set" where
  "signal_nodes \<equiv> insert (LoopQ ProcessK) (insert (NodeQ HandleK child_watcher)
     (insert (NodeQ WatcherK signal_io_watcher) (insert (NodeQ PendingK signal_io_watcher) loop_heads)))"

definition half_made :: "('w \<Rightarrow> int set) \<Rightarrow> int set \<Rightarrow> bool \<times> int \<times> int \<Rightarrow> ('w, 'a) loop_scheme \<Rightarrow> bool" where
  "half_made fds W G s \<longleftrightarrow> shared s = G \<and> internal_fields s \<and> inotify_fd s = -1 \<and> loop_emfile_fd s = -1 \<and> wq s = [] \<and>
     active_reqs s = 0 \<and> active_handles s = 0 \<and> io_ok s \<and> io_fd s async_io_watcher = -1 \<and>
     lists (qs s) [child_watcher] signal_nodes \<and> htype s child_watcher = UV_SIGNAL \<and> signum s child_watcher = 0 \<and>
     flags s child_watcher = UV_HANDLE_INTERNAL \<and>
     fds_added fds W s [backend_fd s, fst (signal_pipefd s (loop_self s)), snd (signal_pipefd s (loop_self s))]"

lemma half_made_update:
  assumes "half_made fds W G s" "fds v = fds (os s)"
  shows "half_made fds W G (s\<lparr>os := v, locks := l\<rparr>)"
proof -
  have "io_ok (s\<lparr>os := v, locks := l\<rparr>) = io_ok s" by (rule io_ok_cong) simp_all
  then show ?thesis using assms by (simp add: half_made_def fds_added_def)
qed

lemma half_made_locks:
  assumes "half_made fds W G s" shows "half_made fds W G (s\<lparr>locks := l\<rparr>)"
  using half_made_update [OF assms refl, of l] by simp

lemma half_made_fails:
  assumes K: "loop_laws K fds" and h: "half_made fds W G s" and m: "locks s = {Metrics_lock}"
  shows "\<exists>s'. fail_rwlock_init K e s = Some (Inl e, s') \<and> init_outcome fds W G (Inl e) s'"
proof -
  note d = h [unfolded half_made_def fds_added_def]
  obtain a c where p: "signal_pipefd s (loop_self s) = (a, c)" by (cases "signal_pipefd s (loop_self s)")
  have "\<exists>s'. fail_rwlock_init K e s = Some (Inl e, s') \<and> locks s' = locks s - {Metrics_lock} \<and> \<not> internal_fields s' \<and>
      backend_fd s' = backend_fd s \<and> fds (os s') = fds (os s) - {a, c} \<and> shared s' = shared s"
    using d m p by (intro fail_rwlock_outcome [OF K, where hs = "[child_watcher]" and N = signal_nodes]) auto
  then obtain s' where s': "fail_rwlock_init K e s = Some (Inl e, s')" "locks s' = {}"
    "\<not> internal_fields s'" "backend_fd s' = backend_fd s" "fds (os s') = fds (os s) - {a, c}" "shared s' = shared s" using m by auto
  have "2 < backend_fd s" "backend_fd s \<notin> W" "fds (os s') = insert (backend_fd s) W" using d p s'(5) by auto
  then have "init_outcome fds W G (Inl e) s'" using s' d by (intro failed_init) auto
  then show ?thesis using s'(1) by blast
qed

lemma half_made_rest:
  assumes K: "loop_laws K fds" and h: "half_made fds W G s" and m: "locks s = UNIV"
  shows "\<exists>r s'. (case uv_async_init (lioK K) wq_async cb s of
      None \<Rightarrow> None
    | Some (Inl e, s1) \<Rightarrow> fail_async_init K e s1
    | Some (Inr _, s1) \<Rightarrow> Some (Inr (), make_internal wq_async s1)) = Some (r, s') \<and> init_outcome fds W G r s' \<and>
    (grants K fds W 3 \<longrightarrow> \<not> isl r)"
proof -
  note d = h [unfolded half_made_def]
  have g: "grants K fds W 3 \<longrightarrow> \<not> isl (fst (k_eventfd K (os s)))"
    using d grantsD(3) [of K fds W 3 "os s" "[backend_fd s, fst (signal_pipefd s (loop_self s)), snd (signal_pipefd s (loop_self s))]"]
    by (auto simp: fds_added_def)
  have nn: "NodeQ PendingK async_io_watcher \<notin> signal_nodes" "NodeQ WatcherK async_io_watcher \<notin> signal_nodes"
    "NodeQ HandleK wq_async \<notin> signal_nodes" "NodeQ AsyncK wq_async \<notin> signal_nodes" by simp_all
  have pre: "io_ok s" "io_fd s async_io_watcher = -1" "lists (qs s) [child_watcher] signal_nodes" using d by blast+
  obtain r1 s1 where 1: "uv_async_init (lioK K) wq_async cb s = Some (r1, s1)" "view s1 = view s"
    "locks s1 = locks s" "signal_pipefd s1 = signal_pipefd s" "signum s1 = signum s" "isl r1 \<longrightarrow> isl (fst (k_eventfd K (os s)))"
    "case r1 of Inl _ \<Rightarrow> \<exists>w. s1 = s\<lparr>os := w\<rparr> \<and> fds w = fds (os s)
     | Inr _ \<Rightarrow> 2 < io_fd s1 async_io_watcher \<and> io_fd s1 async_io_watcher \<notin> fds (os s) \<and>
         fds (os s1) = insert (io_fd s1 async_io_watcher) (fds (os s)) \<and> io_ok s1 \<and> async_wfd s1 = -1 \<and>
         active_handles s1 = active_handles s + 1 \<and>
         htype s1 = (htype s)(wq_async := UV_ASYNC) \<and> flags s1 = (flags s)(wq_async := UV_HANDLE_REF OR UV_HANDLE_ACTIVE) \<and>
         QUEUE_FOREACH (qs s1) (LoopQ HandleK) = Some (map (NodeQ HandleK) ([child_watcher] @ [wq_async]))"
    using async_init_outcome [where cb = cb, OF K pre nn] by blast
  show ?thesis
  proof (cases r1)
    case (Inl e)
    then obtain v where v: "s1 = s\<lparr>os := v\<rparr>" "fds v = fds (os s)" using 1(7) by auto
    have e: "UNIV - {Wq_mutex} - {Cloexec_lock} = {Metrics_lock}" using loop_lock.exhaust by blast
    have "fail_async_init K e s1 = fail_rwlock_init K e (s\<lparr>os := v, locks := {Metrics_lock}\<rparr>)"
      using m by (simp add: fail_async_init_def fail_mutex_init_def lock_destroy_def v(1) e)
    then show ?thesis using half_made_fails [OF K half_made_update [OF h v(2)], of "{Metrics_lock}" e] 1(1,6) Inl g by auto
  next
    case (Inr u)
    have 2: "2 < io_fd s1 async_io_watcher" "io_fd s1 async_io_watcher \<notin> fds (os s)"
      "fds (os s1) = insert (io_fd s1 async_io_watcher) (fds (os s))" "io_ok s1" "async_wfd s1 = -1"
      "active_handles s1 = active_handles s + 1" "htype s1 = (htype s)(wq_async := UV_ASYNC)"
      "flags s1 = (flags s)(wq_async := UV_HANDLE_REF OR UV_HANDLE_ACTIVE)"
      "QUEUE_FOREACH (qs s1) (LoopQ HandleK) = Some [NodeQ HandleK child_watcher, NodeQ HandleK wq_async]"
      using 1(7) Inr by simp_all
    define s' where "s' = make_internal wq_async s1"
    have s': "s' = s1\<lparr>flags := (flags s1)(wq_async := UV_HANDLE_ACTIVE OR UV_HANDLE_INTERNAL), active_handles := active_handles s1 - 1\<rparr>"
      unfolding s'_def by (rule make_internal_active) (simp add: 2(8))
    have "io_ok s' = io_ok s1" by (rule io_ok_cong) (simp_all add: s')
    moreover have vs: "view s' = view s" using 1(2) by (simp add: s' view_def)
    ultimately have r: "loop_ready s'"
      using vs [unfolded view_def, simplified] d 2 1(3,5) m by (simp add: loop_ready_def) (simp add: s')
    have "signal_pipefd s' (loop_self s') = signal_pipefd s (loop_self s)" using 1(4) vs by (simp add: s' view_def)
    moreover have "backend_fd s' = backend_fd s" "io_fd s' = io_fd s1" "os s' = os s1" using vs by (simp_all add: s' view_def)
    ultimately have "fds_added fds W s' (loop_fds s')" using d 2(1-3) by (auto simp: fds_added_def loop_fds_def)
    moreover have "shared s' = G" using vs d by (simp add: view_def)
    ultimately have "init_outcome fds W G (Inr ()) s'" using r by (simp add: init_outcome_def)
    then show ?thesis using 1(1) Inr by (simp add: s'_def)
  qed
qed

lemma init_signals_half:
  assumes s: "uv__signal_global_once_init (sgK K) s = Some s" and i: "uv_signal_init (sgK K) child_watcher s = Some (Inr (), s1)"
  shows "init_signals K work_done s = (case lock_init K Cloexec_lock ((make_internal child_watcher s1)\<lparr>qs := QUEUE_INIT (LoopQ ProcessK) (qs s1)\<rparr>) of
       (Inl e, t) \<Rightarrow> fail_rwlock_init K e t
     | (Inr _, t) \<Rightarrow>
         (case lock_init K Wq_mutex t of
            (Inl e, t) \<Rightarrow> fail_mutex_init K e t
          | (Inr _, t) \<Rightarrow> (case uv_async_init (lioK K) wq_async (Some work_done) t of
              None \<Rightarrow> None
            | Some (Inl e, t) \<Rightarrow> fail_async_init K e t
            | Some (Inr _, t) \<Rightarrow> Some (Inr (), make_internal wq_async t))))"
proof -
  have "qs (make_internal child_watcher s1) = qs s1" by (simp add: make_internal_def handle_defs set_flag_def clear_flag_def)
  then show ?thesis using i unfolding init_signals_def
    by (auto simp: s Let_def split: sum.splits prod.splits option.splits bind_splits)
qed

lemma init_signals_outcome:
  assumes K: "loop_laws K fds" and s: "booted s" "signal_once s" "shared s = G" and e: "2 < backend_fd s" "backend_fd s \<notin> W" "fds (os s) = insert (backend_fd s) W"
  shows "\<exists>r s'. init_signals K work_done s = Some (r, s') \<and> init_outcome fds W G r s' \<and>
    (grants K fds W 3 \<longrightarrow> \<not> isl r)"
proof -
  note b = s(1) [unfolded booted_def]
  let ?N = "insert (NodeQ HandleK child_watcher) (insert (NodeQ WatcherK signal_io_watcher) (insert (NodeQ PendingK signal_io_watcher) loop_heads))"
  obtain r1 s1 where 1: "uv_signal_init (sgK K) child_watcher s = Some (r1, s1)" "view s1 = view s" "locks s1 = locks s"
    "active_handles s1 = active_handles s" "async_wfd s1 = async_wfd s" "io_fd s1 async_io_watcher = io_fd s async_io_watcher"
    "isl r1 \<longrightarrow> isl (fst (k_pipe2 K (O_CLOEXEC OR O_NONBLOCK) (os s)))"
    "case r1 of Inl _ \<Rightarrow> fds (os s1) = fds (os s)
     | Inr _ \<Rightarrow> \<exists>a b. signal_pipefd s1 (loop_self s1) = (a, b) \<and> 2 < a \<and> 2 < b \<and> a \<noteq> b \<and> a \<notin> fds (os s) \<and> b \<notin> fds (os s) \<and>
         fds (os s1) = {a, b} \<union> fds (os s) \<and> io_ok s1 \<and> htype s1 child_watcher = UV_SIGNAL \<and> signum s1 child_watcher = 0 \<and>
         flags s1 child_watcher = UV_HANDLE_REF \<and> lists (qs s1) [child_watcher] ?N"
    using signal_init_outcome [OF K, of s loop_heads] b by auto
  note v1 = 1(2) [unfolded view_def, simplified]
  have once: "uv__signal_global_once_init (sgK K) s = Some s" using s(2) by (simp add: uv__signal_global_once_init_def)
  have g: "grants K fds W 3 \<longrightarrow> \<not> isl (fst (k_pipe2 K fl (os s)))" for fl
    using e(3) grantsD(4) [of K fds W 3 "os s" "[backend_fd s]"] by auto
  have gl: "grants K fds W 3 \<longrightarrow> \<not> isl (fst (k_lock_init K l (os t)))" if "half_made fds W G t" for l t
    using that grantsD(5) [of K fds W 3 "os t" "[backend_fd t, fst (signal_pipefd t (loop_self t)), snd (signal_pipefd t (loop_self t))]"]
    by (auto simp: half_made_def fds_added_def)
  show ?thesis
  proof (cases r1)
    case (Inl er)
    have "fail_signal_init K er s1 =
      Some (Inl er, s1\<lparr>locks := locks s1 - {Metrics_lock}, internal_fields := False, watchers := None, nwatchers := 0\<rparr>)"
      using b v1 1(3) by (intro fail_signal_outcome) auto
    then show ?thesis using Inl once 1(1,3,7,8) g [of "O_CLOEXEC OR O_NONBLOCK"] v1 b e s(3) by (simp add: init_signals_def init_outcome_def fds_added_def)
  next
    case (Inr u)
    define s2 where "s2 = (make_internal child_watcher s1)\<lparr>qs := QUEUE_INIT (LoopQ ProcessK) (qs s1)\<rparr>"
    have i: "uv_signal_init (sgK K) child_watcher s = Some (Inr (), s1)" using 1(1) Inr by simp
    have s2: "s2 = s1\<lparr>flags := (flags s1)(child_watcher := UV_HANDLE_INTERNAL), qs := QUEUE_INIT (LoopQ ProcessK) (qs s1)\<rparr>"
      unfolding s2_def by (subst make_internal_idle) (use 1(8) Inr in auto)
    have "lists (QUEUE_INIT (LoopQ ProcessK) (qs s1)) [child_watcher] signal_nodes"
      using 1(8) Inr by (intro lists_INIT) auto
    moreover have "io_ok s2 = io_ok s1" by (rule io_ok_cong) (simp_all add: s2)
    moreover obtain a c where p: "signal_pipefd s1 (loop_self s1) = (a, c)" "2 < a" "2 < c" "a \<noteq> c" "a \<notin> fds (os s)" "c \<notin> fds (os s)"
      "fds (os s1) = {a, c} \<union> fds (os s)" "io_ok s1" "htype s1 child_watcher = UV_SIGNAL" "signum s1 child_watcher = 0"
      using 1(8) Inr by auto
    moreover have "fds_added fds W s1 [backend_fd s1, a, c]" using p(2-7) e v1 by (auto simp: fds_added_def)
    ultimately have h2: "half_made fds W G s2" using 1(4,6) v1 b s(3)
      by (simp add: half_made_def fds_added_def s2)
    have lk2: "locks s2 = {Metrics_lock}" using 1(3) b by (simp add: s2)
    obtain r3 w3 where 3: "lock_init K Cloexec_lock s2 = (r3, if isl r3 then s2\<lparr>os := w3\<rparr> else s2\<lparr>os := w3, locks := insert Cloexec_lock (locks s2)\<rparr>)"
      "fds w3 = fds (os s2)" "isl r3 = isl (fst (k_lock_init K Cloexec_lock (os s2)))" using lock_init_outcome [OF K] by metis
    define s3 where "s3 = s2\<lparr>os := w3, locks := insert Cloexec_lock (locks s2)\<rparr>"
    have h3: "half_made fds W G s3" unfolding s3_def by (rule half_made_update [OF h2 3(2)])
    obtain r4 w4 where 4: "lock_init K Wq_mutex s3 = (r4, if isl r4 then s3\<lparr>os := w4\<rparr> else s3\<lparr>os := w4, locks := insert Wq_mutex (locks s3)\<rparr>)"
      "fds w4 = fds (os s3)" "isl r4 = isl (fst (k_lock_init K Wq_mutex (os s3)))" using lock_init_outcome [OF K] by metis
    note start = init_signals_half [OF once i, folded s2_def]
    consider "isl r3" | "\<not> isl r3" "isl r4" | "\<not> isl r3" "\<not> isl r4" by blast
    then show ?thesis
    proof cases
      case 1
      then obtain er where r3: "r3 = Inl er" by (cases r3) auto
      have eq: "s2\<lparr>os := w3, locks := {Metrics_lock}\<rparr> = s2\<lparr>os := w3\<rparr>" by (simp add: lk2 [symmetric])
      show ?thesis
        using half_made_fails [OF K half_made_update [OF h2 3(2)], of "{Metrics_lock}" er, unfolded eq] start 3(1,3) r3 lk2 gl [OF h2, of Cloexec_lock] by auto
    next
      case 2
      then obtain er where r4: "r4 = Inl er" and r3: "r3 = Inr ()" by (cases r4; cases r3) auto
      have "fail_mutex_init K er (s3\<lparr>os := w4\<rparr>) = fail_rwlock_init K er (s3\<lparr>os := w4, locks := {Metrics_lock}\<rparr>)"
        using lk2 by (simp add: fail_mutex_init_def lock_destroy_def s3_def)
      then show ?thesis using half_made_fails [OF K half_made_update [OF h3 4(2)], of "{Metrics_lock}" er] start 3(1) 4(1,3) r3 r4 gl [OF h3, of Wq_mutex]
        by (auto simp: s3_def [symmetric])
    next
      case 3
      then have r: "r3 = Inr ()" "r4 = Inr ()" by (cases r3; cases r4; auto)+
      have "insert Wq_mutex (locks s3) = UNIV" using lk2 loop_lock.exhaust by (auto simp: s3_def)
      then show ?thesis
        using half_made_rest [OF K half_made_update [OF h3 4(2)], of UNIV "Some work_done"] start
          \<open>lock_init K Cloexec_lock s2 = _\<close> 4(1) r by (auto simp: s3_def [symmetric])
    qed
  qed
qed


lemma booting_calls [simp]: "k_atfork (sgK K) = k_atfork K" "k_write (sgK K) = k_write K"
  by (simp_all add: signal_kernel.defs)

text \<open>The first loop of the process makes the lock of the signals.\<close>

lemma once_outcome:
  assumes K: "loop_laws K fds" and B: "boot_laws K fds" and s: "\<not> signal_once s" "signal_lock_pipefd s = (-1, -1)"
    and W: "fds (os s) = insert x W"
  shows "uv__signal_global_once_init (sgK K) s = None \<and> boot_fails K fds W \<or>
    (\<exists>w a b. uv__signal_global_once_init (sgK K) s = Some (s\<lparr>os := w, signal_lock_pipefd := (a, b), signal_once := True\<rparr>) \<and>
      2 < a \<and> 2 < b \<and> a \<noteq> b \<and> a \<notin> fds (os s) \<and> b \<notin> fds (os s) \<and> fds w = {a, b} \<union> fds (os s))"
proof -
  obtain r1 w1 where 1: "k_atfork K (os s) = (r1, w1)" by (cases "k_atfork K (os s)")
  have o1: "fds w1 = fds (os s)" using B 1 unfolding boot_laws_def keeps_def by (metis snd_conv)
  obtain r2 w2 where 2: "k_pipe2 K O_CLOEXEC w1 = (r2, w2)" by (cases "k_pipe2 K O_CLOEXEC w1")
  have po: "case r2 of Inl _ \<Rightarrow> fds w2 = fds w1
      | Inr (a, b) \<Rightarrow> 2 < a \<and> 2 < b \<and> a \<noteq> b \<and> a \<notin> fds w1 \<and> b \<notin> fds w1 \<and> fds w2 = {a, b} \<union> fds w1"
    using loop_lawsD(5) [OF K, of O_CLOEXEC, unfolded pair_opens_def, rule_format, of w1] unfolding 2 fst_conv snd_conv .
  have cl: "uv__signal_cleanup (sgK K) (s\<lparr>os := w\<rparr>) = Some (s\<lparr>os := w\<rparr>)" for w
    using s(2) by (simp add: uv__signal_cleanup_def)
  show ?thesis
  proof (cases "isl r1 \<or> isl r2")
    case True
    have "fds (os s) = set [x] \<union> W" "fds w1 = set [x] \<union> W" "length [x] \<le> 3" using W o1 by simp_all
    then have "boot_fails K fds W" using True 1 2 unfolding boot_fails_def by (metis fst_conv)
    moreover have "uv__signal_global_once_init (sgK K) s = None"
      using True s 1 2 cl
      by (cases r1; cases r2) (auto simp: uv__signal_global_once_init_def uv__signal_global_init_def uv__signal_global_reinit_def sys_def
        uv__make_pipe_def uv_pipe_def sys_prog_def Let_def)
    ultimately show ?thesis by blast
  next
    case False
    then obtain a b where r: "r1 = Inr ()" "r2 = Inr (a, b)" by (cases r1; cases r2) auto
    obtain r3 w3 where 3: "retry_eintr (k_write K b ''*'') w2 = Some (r3, w3)" "fds w3 = fds w2"
      using B unfolding boot_laws_def by blast
    have run: "uv__signal_global_once_init (sgK K) s =
        (if isl r3 then None else Some (s\<lparr>os := w3, signal_lock_pipefd := (a, b), signal_once := True\<rparr>))"
      using s 1 2 3(1) cl r
      by (simp add: uv__signal_global_once_init_def uv__signal_global_init_def uv__signal_global_reinit_def sys_def
        uv__make_pipe_def uv_pipe_def sys_prog_def Let_def uv__signal_unlock_def)
    show ?thesis
    proof (cases r3)
      case (Inl e)
      have "fds w2 = set [a, b, x] \<union> W" "length [a, b, x] \<le> 3" using po r(2) o1 W by auto
      then have "boot_fails K fds W" using 3(1) Inl unfolding boot_fails_def by blast
      then show ?thesis using run Inl by simp
    next
      case (Inr n)
      then show ?thesis using run po 3(2) o1 r by (intro disjI2 exI [of _ w3] exI [of _ a] exI [of _ b]) simp
    qed
  qed
qed

text \<open>The descriptors of the lock, if it was made between \<open>s\<close> and \<open>s'\<close>.\<close>

definition lock_fds :: "('w, 'a) loop_scheme \<Rightarrow> ('w, 'a) loop_scheme \<Rightarrow> int list" where
  "lock_fds s s' = (if signal_once s' \<and> \<not> signal_once s then [fst (signal_lock_pipefd s'), snd (signal_lock_pipefd s')] else [])"

definition init_end :: "('w \<Rightarrow> int set) \<Rightarrow> ('w, 'a) loop_scheme \<Rightarrow> uv_errno + unit \<Rightarrow> ('w, 'a) loop_scheme \<Rightarrow> bool" where
  "init_end fds s r s' \<longleftrightarrow> (signal_once s \<longrightarrow> shared s' = shared s) \<and>
     (case r of
        Inl _ \<Rightarrow> locks s' = {} \<and> \<not> internal_fields s' \<and>
          fds_added fds (fds (os s)) s' (lock_fds s s' @ (if backend_fd s' > 2 then [backend_fd s'] else []))
      | Inr _ \<Rightarrow> loop_ready s' \<and> signal_once s' \<and> fds_added fds (fds (os s)) s' (lock_fds s s' @ loop_fds s'))"

lemma fds_added_more:
  assumes "fds_added fds (set ys \<union> W) s xs" "distinct ys" "\<forall>y \<in> set ys. 2 < y \<and> y \<notin> W"
  shows "fds_added fds W s (ys @ xs)"
  using assms by (auto simp: fds_added_def)

lemma signals_end:
  assumes K: "loop_laws K fds" and B: "boot_laws K fds" and first: "signal_once s \<or> signal_lock_pipefd s = (-1, -1)"
    and b: "booted t" and e: "2 < backend_fd t" "backend_fd t \<notin> fds (os s)" "fds (os t) = insert (backend_fd t) (fds (os s))"
      "shared t = shared s"
  shows "(init_signals K work_done t = None \<and> \<not> signal_once s \<and> boot_fails K fds (fds (os s))) \<or>
    (\<exists>r s'. init_signals K work_done t = Some (r, s') \<and> init_end fds s r s' \<and>
      (grants K fds (fds (os s)) (if signal_once s then 3 else 5) \<longrightarrow> \<not> isl r))"
proof (cases "signal_once s")
  case True
  then have "signal_once t" using e(4) by simp
  from init_signals_outcome [OF K b this refl e(1-3), of work_done]
  obtain r s' where r: "init_signals K work_done t = Some (r, s')" "init_outcome fds (fds (os s)) (shared t) r s'"
    "grants K fds (fds (os s)) 3 \<longrightarrow> \<not> isl r" by blast
  have "init_end fds s r s'" using r(2) True e(4) by (cases r) (simp_all add: init_end_def lock_fds_def init_outcome_def)
  then show ?thesis using r(1,3) True by auto
next
  case False
  then have t: "\<not> signal_once t" "signal_lock_pipefd t = (-1, -1)" using first e(4) by simp_all
  consider "uv__signal_global_once_init (sgK K) t = None" "boot_fails K fds (fds (os s))"
    | w a c where "uv__signal_global_once_init (sgK K) t = Some (t\<lparr>os := w, signal_lock_pipefd := (a, c), signal_once := True\<rparr>)"
        "2 < a" "2 < c" "a \<noteq> c" "a \<notin> fds (os t)" "c \<notin> fds (os t)" "fds w = {a, c} \<union> fds (os t)"
    using once_outcome [OF K B t e(3)] by (elim disjE exE conjE) metis+
  then show ?thesis
  proof cases
    case 1
    then show ?thesis using False by (simp add: init_signals_def)
  next
    case 2
    define u where "u = t\<lparr>os := w, signal_lock_pipefd := (a, c), signal_once := True\<rparr>"
    let ?W = "set [a, c] \<union> fds (os s)"
    have i: "init_signals K work_done t = init_signals K work_done u"
      using 2(1) by (simp add: init_signals_def u_def [symmetric]) (simp add: u_def uv__signal_global_once_init_def)
    have "io_ok u = io_ok t" by (rule io_ok_cong) (simp_all add: u_def)
    then have "booted u" using b by (simp add: booted_def u_def)
    moreover have "signal_once u" "2 < backend_fd u" "backend_fd u \<notin> ?W" "fds (os u) = insert (backend_fd u) ?W"
      using e 2(2-7) by (auto simp: u_def)
    ultimately obtain r s' where r: "init_signals K work_done u = Some (r, s')" "init_outcome fds ?W (shared u) r s'"
      "grants K fds ?W 3 \<longrightarrow> \<not> isl r"
      using init_signals_outcome [OF K, of u "shared u" ?W work_done] by blast
    have g: "grants K fds ?W 3" if "grants K fds (fds (os s)) 5"
      unfolding grants_def
    proof (intro allI impI)
      fix v xs assume "fds v = set xs \<union> ?W \<and> length xs \<le> 3"
      then have "fds v = set (a # c # xs) \<union> fds (os s)" "length (a # c # xs) \<le> 5" by auto
      note gr = grantsD [OF that this]
      show "fst (k_calloc K v) \<and> \<not> isl (fst (k_epoll_create1 K v)) \<and> \<not> isl (fst (k_eventfd K v)) \<and>
        (\<forall>fl. \<not> isl (fst (k_pipe2 K fl v))) \<and> (\<forall>l. \<not> isl (fst (k_lock_init K l v)))" using gr by blast
    qed
    have sh: "signal_once s'" "signal_lock_pipefd s' = (a, c)" using r(2) by (simp_all add: init_outcome_def u_def)
    then have lf: "lock_fds s s' = [a, c]" using False by (simp add: lock_fds_def)
    have ac: "distinct [a, c]" "\<forall>y \<in> set [a, c]. 2 < y \<and> y \<notin> fds (os s)" using 2(2-6) e(3) by auto
    have "init_end fds s r s'"
      unfolding init_end_def lf using r(2) False sh(1) fds_added_more [OF _ ac, of fds s'] unfolding init_outcome_def
      by (cases r) (simp_all only: sum.case append_Cons append_Nil simp_thms)
    then show ?thesis using i r(1,3) g False by auto
  qed
qed

lemma loop_init_outcome:
  assumes K: "loop_laws K fds" and B: "boot_laws K fds" and first: "signal_once s \<or> signal_lock_pipefd s = (-1, -1)"
  shows "(uv_loop_init K work_done s = None \<and> \<not> signal_once s \<and> boot_fails K fds (fds (os s))) \<or>
    (\<exists>r s'. uv_loop_init K work_done s = Some (r, s') \<and> init_end fds s r s' \<and>
      (grants K fds (fds (os s)) (if signal_once s then 3 else 5) \<longrightarrow> \<not> isl r))"
proof -
  let ?n = "if signal_once s then 3 else 5 :: nat"
  obtain ok w1 where c: "k_calloc K (os s) = (ok, w1)" by (cases "k_calloc K (os s)")
  have w1: "fds w1 = fds (os s)" using loop_lawsD(6) [OF K, of "os s"] c by simp
  show ?thesis
  proof (cases ok)
    case False
    then have "\<not> grants K fds (fds (os s)) ?n" using c grantsD(1) [of K fds "fds (os s)" ?n "os s" "[]"] by auto
    then show ?thesis using c w1 False
      by (intro disjI2 exI [of _ "Inl UV_ENOMEM"] exI [of _ "(zero_loop s)\<lparr>os := w1\<rparr>"])
         (simp add: uv_loop_init_def sys_def init_end_def lock_fds_def init_outcome_def fds_added_def zero_loop_def)
  next
    case True
    define s1 where "s1 = (zero_loop s)\<lparr>os := w1, internal_fields := True, internal_flags := 0, provider_entry_time := 0, provider_idle_time := 0\<rparr>"
    have f1: "locks s1 = {}" "backend_fd s1 = 0" "loop_self s1 = loop_self s" "inotify_fd s1 = 0" "loop_emfile_fd s1 = 0" "wq s1 = []"
      "internal_fields s1" "shared s1 = shared s" "os s1 = w1"
      by (simp_all add: s1_def zero_loop_def)
    obtain r2 w2 where 2: "lock_init K Metrics_lock s1 = (r2, if isl r2 then s1\<lparr>os := w2\<rparr> else s1\<lparr>os := w2, locks := insert Metrics_lock (locks s1)\<rparr>)"
      "fds w2 = fds (os s1)" "isl r2 = isl (fst (k_lock_init K Metrics_lock (os s1)))" using lock_init_outcome [OF K] by metis
    have start: "uv_loop_init K work_done s = (case lock_init K Metrics_lock s1 of
        (Inl e, t) \<Rightarrow> fail_metrics_mutex_init e t
      | (Inr _, t) \<Rightarrow> do {
          (err, t) \<leftarrow> uv__platform_loop_init K (init_fields K t);
          (case err of Inl e \<Rightarrow> fail_platform_init e t | Inr _ \<Rightarrow> init_signals K work_done t) })"
    proof -
      have "os (zero_loop s) = os s" by (simp add: zero_loop_def)
      then show ?thesis using True c by (simp add: uv_loop_init_def sys_def Let_def s1_def)
    qed
    show ?thesis
    proof (cases r2)
      case (Inl e)
      then have "\<not> grants K fds (fds (os s)) ?n" using 2(3) f1(9) w1 grantsD(5) [of K fds "fds (os s)" ?n w1 "[]"] by auto
      then show ?thesis using start 2 f1 w1 Inl
        by (simp add: fail_metrics_mutex_init_def init_end_def lock_fds_def init_outcome_def fds_added_def)
    next
      case (Inr u)
      define s3 where "s3 = init_fields K (s1\<lparr>os := w2, locks := insert Metrics_lock (locks s1)\<rparr>)"
      have f3: "locks s3 = {Metrics_lock}" "internal_fields s3" "loop_self s3 = loop_self s" "loop_emfile_fd s3 = -1" "wq s3 = []"
        "active_reqs s3 = 0" "active_handles s3 = 0" "watchers s3 = None" "nwatchers s3 = 0" "nfds s3 = 0"
        "signal_pipefd s3 (loop_self s3) = (-1, -1)" "io_fd s3 async_io_watcher = -1" "shared s3 = shared s" "backend_fd s3 = -1"
        "qs s3 = init_queues (qs s1)" "os s3 = snd (k_hrtime K w2)"
        using f1 by (simp_all add: s3_def init_fields_def Let_def uv__update_time_def sys_def split: prod.split)
      have o3: "fds (os s3) = fds (os s)" using f3(16) 2(2) f1(9) w1 loop_lawsD(7) [OF K] by simp
      obtain r4 fd w4 where 4: "uv__platform_loop_init K s3 = Some (r4, s3\<lparr>inotify_fd := -1, backend_fd := fd, os := w4\<rparr>)"
        "case r4 of Inl _ \<Rightarrow> fds w4 = fds (os s3) \<and> fd = -1
         | Inr _ \<Rightarrow> 2 < fd \<and> fd \<notin> fds (os s3) \<and> fds w4 = insert fd (fds (os s3))"
        "isl r4 \<longrightarrow> isl (fst (k_epoll_create1 K (os s3)))"
        using platform_init_outcome [OF K] by blast
      define s4 where "s4 = s3\<lparr>inotify_fd := -1, backend_fd := fd, os := w4\<rparr>"
      have run: "uv_loop_init K work_done s = (case r4 of Inl e \<Rightarrow> fail_platform_init e s4 | Inr _ \<Rightarrow> init_signals K work_done s4)"
        using start 2(1) Inr 4(1) by (simp add: s3_def [symmetric] s4_def [symmetric])
      show ?thesis
      proof (cases r4)
        case (Inl e)
        have "fds w4 = fds (os s)" "fd = -1" using 4(2) Inl o3 by simp_all
        moreover have "\<not> grants K fds (fds (os s)) ?n" using 4(3) Inl o3 grantsD(2) [of K fds "fds (os s)" ?n "os s3" "[]"] by auto
        ultimately show ?thesis using run Inl f3 by (simp add: fail_platform_outcome s4_def init_end_def lock_fds_def init_outcome_def fds_added_def)
      next
        case (Inr v)
        have "lists (qs s4) [] loop_heads" using lists_start by (simp add: s4_def f3(15))
        moreover have "io_ok s4" using f3(8-10) by (simp add: io_ok_def s4_def)
        ultimately have b4: "booted s4" using f3 by (simp add: booted_def s4_def)
        have e4: "2 < backend_fd s4" "backend_fd s4 \<notin> fds (os s)" "fds (os s4) = insert (backend_fd s4) (fds (os s))" "shared s4 = shared s"
          using 4(2) Inr o3 f3(13) by (simp_all add: s4_def)
        show ?thesis using signals_end [OF K B first b4 e4, of work_done] run Inr by auto
      qed
    qed
  qed
qed

section \<open>Closing a loop that is made\<close>

lemma async_stop_outcome:
  assumes L: "fd_laws (fd_kernel.truncate K) fds" and s: "io_ok s" "async_wfd s = -1" "2 < io_fd s async_io_watcher" "io_fd s async_io_watcher \<in> fds (os s)"
  shows "\<exists>s1 w. uv__async_stop K s = Some (s1\<lparr>os := w, io_fd := (io_fd s)(async_io_watcher := -1)\<rparr>) \<and> io_touched s s1 \<and>
    fds w = fds (os s) - {io_fd s async_io_watcher}"
proof -
  obtain s1 where s1: "uv__io_stop async_io_watcher POLLIN s = Some s1" "io_touched s s1"
    using io_stop_total [OF s(1), of POLLIN async_io_watcher] s(3) by auto
  have "os s1 = os s" using io_stop_os [OF s1(1)] .
  moreover have i: "io_fd s1 = io_fd s" by (subst s1(2) [unfolded io_touched_def]) simp
  ultimately obtain w where w: "sys_prog (uv__close (fd_kernel.truncate K) (io_fd s1 async_io_watcher)) s1 = Some (Inr (), s1\<lparr>os := w\<rparr>)"
    "fds w = fds (os s) - {io_fd s async_io_watcher}"
    using sys_closes [OF L, of "io_fd s1 async_io_watcher" s1] s(3,4) by auto
  have "uv__async_stop K s = Some (s1\<lparr>os := w, io_fd := (io_fd s)(async_io_watcher := -1)\<rparr>)"
    using s(2,3) s1(1) w(1) by (simp add: uv__async_stop_def i)
  then show ?thesis using s1(2) w(2) by blast
qed


lemma loop_close_outcome:
  assumes K: "loop_laws K fds" and r: "loop_ready s" and f: "fds_added fds W s (ys @ loop_fds s)"
  shows "\<exists>s'. uv_loop_close K s = Some (Inr (), s') \<and> locks s' = {} \<and> \<not> internal_fields s' \<and> \<not> is_default s' \<and>
    watchers s' = None \<and> fds (os s') = set ys \<union> W"
proof -
  note d = r [unfolded loop_ready_def]
  note L = loop_lawsD(1) [OF K]
  obtain a c where p: "signal_pipefd s (loop_self s) = (a, c)" by (cases "signal_pipefd s (loop_self s)")
  let ?i = "io_fd s async_io_watcher"
  have own: "distinct [backend_fd s, a, c, ?i]" "\<forall>x \<in> {backend_fd s, a, c, ?i}. 2 < x \<and> x \<notin> set ys \<union> W \<and> x \<in> fds (os s)"
    "fds (os s) = {backend_fd s, a, c, ?i} \<union> (set ys \<union> W)"
    using f p by (auto simp: fds_added_def loop_fds_def)
  have L2: "fd_laws (sfdK (sgK K)) fds" using L by simp
  have h: "QUEUE_FOREACH (qs s) (LoopQ HandleK) = Some (map (NodeQ HandleK) [child_watcher, wq_async])" using d by simp
  have quiet: "\<forall>h \<in> set [child_watcher, wq_async]. htype s h = UV_SIGNAL \<longrightarrow> signum s h = 0" using d by simp
  obtain w1 where 1: "uv__signal_loop_cleanup (sgK K) s = Some (s\<lparr>os := w1, signal_pipefd := (signal_pipefd s)(loop_self s := (-1, -1))\<rparr>)"
    "fds w1 = fds (os s) - {a, c}"
    using cleanup_outcome [OF L2 h quiet p] own(1,2) by auto
  define s1 where "s1 = s\<lparr>os := w1, signal_pipefd := (signal_pipefd s)(loop_self s := (-1, -1))\<rparr>"
  have ok1: "io_ok s1" using d io_ok_cong [of s1 s] by (simp add: s1_def)
  have f1: "async_wfd s1 = -1" "io_fd s1 = io_fd s" "os s1 = w1" using d by (simp_all add: s1_def)
  have i1: "2 < io_fd s1 async_io_watcher" "io_fd s1 async_io_watcher \<in> fds (os s1)"
    using own(1,2) 1(2) unfolding f1(2,3) by auto
  have L3: "fd_laws (fd_kernel.truncate (lioK K)) fds" using L by simp
  obtain s2 w2 where 2: "uv__async_stop (lioK K) s1 = Some (s2\<lparr>os := w2, io_fd := (io_fd s1)(async_io_watcher := -1)\<rparr>)"
    "io_touched s1 s2" "fds w2 = fds (os s1) - {?i}"
    using async_stop_outcome [OF L3 ok1 f1(1) i1] f1(2) by auto
  have f2: "inotify_fd s1 = -1" "loop_emfile_fd s2 = -1" "backend_fd s2 = backend_fd s" "wq s2 = []" "active_reqs s2 = 0" "locks s2 = UNIV"
    using d by (simp add: s1_def, (subst 2(2) [unfolded io_touched_def], simp add: s1_def)+)
  define s3 where "s3 = s2\<lparr>os := w2, io_fd := (io_fd s1)(async_io_watcher := -1)\<rparr>"
  have "backend_fd s \<in> fds (os s3)" using own 1(2) 2(3) by (auto simp: s3_def f1(3))
  then obtain w3 where 3: "sys_prog (uv__close (lfdK K) (backend_fd s)) s3 = Some (Inr (), s3\<lparr>os := w3\<rparr>)" "fds w3 = fds (os s3) - {backend_fd s}"
    using sys_closes [OF L, of "backend_fd s" s3] own(2) by auto
  have e: "UNIV - {Wq_mutex} - {Cloexec_lock} - {Metrics_lock} = {}" using loop_lock.exhaust by blast
  have "\<exists>s'. uv__loop_close K s = Some s' \<and> locks s' = {} \<and> \<not> internal_fields s' \<and> watchers s' = None \<and> os s' = w3"
    using own(2) 1(1) 2(1) 3(1) f2 e
    by (simp add: uv__loop_close_def s1_def [symmetric] uv__platform_loop_delete_def s3_def [symmetric])
       (simp add: s3_def uv__has_active_reqs_def lock_destroy_def)
  then obtain s' where s': "uv__loop_close K s = Some s'" "locks s' = {}" "\<not> internal_fields s'" "watchers s' = None" "os s' = w3" by blast
  have "fds w3 = set ys \<union> W" using 3(2) 2(3) 1(2) own by (auto simp: s3_def f1(3))
  moreover have "uv_loop_close K s = Some (Inr (), s'\<lparr>is_default := False\<rparr>)"
    using d s'(1) by (simp add: uv_loop_close_def uv__has_active_reqs_def has_flag_def)
  ultimately show ?thesis using s' by auto
qed


section \<open>An example\<close>

text \<open>A table of descriptors, from 3 to 20; \<open>pipes\<close>: whether there may be pipes.\<close>

definition fd_range :: "int list" where
  "fd_range = map int [3..<21]"

definition table_open :: "(int list, int) sys" where
  "table_open w = (case find (\<lambda>x. x \<notin> set w) fd_range of None \<Rightarrow> (Inl UV_EMFILE, w) | Some x \<Rightarrow> (Inr x, x # w))"

definition table_pipe :: "bool \<Rightarrow> (int list, int \<times> int) sys" where
  "table_pipe pipes w =
     (if \<not> pipes then (Inl UV_EMFILE, w)
      else case table_open w of
        (Inl e, _) \<Rightarrow> (Inl e, w)
      | (Inr a, w1) \<Rightarrow> (case table_open w1 of (Inl e, _) \<Rightarrow> (Inl e, w) | (Inr b, w2) \<Rightarrow> (Inr (a, b), w2)))"

definition table_kernel :: "bool \<Rightarrow> int list loop_kernel" where
  "table_kernel pipes = signal_kernel.extend (io_kernel.extend
     (quiet_kernel\<lparr>k_close := \<lambda>fd w. (Inr (), removeAll fd w), k_epoll_create1 := table_open, k_eventfd := table_open\<rparr>)
     (signal_kernel.fields (\<lambda>_. table_pipe pipes) (\<lambda>_ _ w. (Inr (), w)) (\<lambda>_ w. (Inr (), w)) (\<lambda>w. (Inr (), w))))
     (loop_kernel.fields (\<lambda>w. (True, w)) (\<lambda>_ w. (Inr (), w)))"

definition table_fds :: "int list \<Rightarrow> int set" where
  "table_fds w = set w \<inter> set fd_range"

lemma fd_range_bounds: "x \<in> set fd_range \<Longrightarrow> 2 < x \<and> x < 21"
  by (auto simp: fd_range_def)

lemma table_open_opens: "opens table_fds table_open"
  unfolding opens_def
proof
  fix w
  show "opened table_fds w (fst (table_open w)) (snd (table_open w))"
  proof (cases "find (\<lambda>x. x \<notin> set w) fd_range")
    case (Some x)
    then have "x \<notin> set w" "x \<in> set fd_range" by (auto simp: find_Some_iff)
    then show ?thesis using Some fd_range_bounds [of x] by (auto simp: table_open_def opened_def table_fds_def)
  qed (simp add: table_open_def opened_def)
qed

lemma table_pipe_opens: "pair_opens table_fds (table_pipe pipes)"
proof -
  have "case fst (table_open w) of Inl _ \<Rightarrow> table_fds (snd (table_open w)) = table_fds w
      | Inr fd \<Rightarrow> fd > 2 \<and> fd \<notin> table_fds w \<and> table_fds (snd (table_open w)) = insert fd (table_fds w)" for w
    using table_open_opens by (simp add: opens_def opened_def)
  note o = this
  show ?thesis unfolding pair_opens_def
  proof
    fix w
    show "case fst (table_pipe pipes w) of Inl _ \<Rightarrow> table_fds (snd (table_pipe pipes w)) = table_fds w
      | Inr (a, b) \<Rightarrow> 2 < a \<and> 2 < b \<and> a \<noteq> b \<and> a \<notin> table_fds w \<and> b \<notin> table_fds w \<and>
          table_fds (snd (table_pipe pipes w)) = {a, b} \<union> table_fds w"
      using o [of w] o [of "snd (table_open w)"]
      by (auto simp: table_pipe_def split: prod.splits sum.splits)
  qed
qed

lemma table_laws: "loop_laws (table_kernel pipes) table_fds"
proof -
  have c: "table_fds (removeAll fd w) = table_fds w - {fd}" for fd w by (auto simp: table_fds_def)
  have "fd_laws (lfdK (table_kernel pipes)) table_fds"
    by (simp add: fd_laws_def table_kernel_def quiet_kernel_def fd_kernel.defs io_kernel.defs signal_kernel.defs loop_kernel.defs
        opens_def opened_def keeps_def ends_no_intr c)
  moreover have "table_fds w \<subseteq> {..< 2 ^ 31 - 3}" for w using fd_range_bounds by (fastforce simp: table_fds_def)
  moreover have "opens table_fds (\<lambda>w. (Inl UV_EMFILE, w))" by (simp add: opens_def opened_def)
  ultimately show ?thesis using table_open_opens table_pipe_opens
    by (simp add: loop_laws_def table_kernel_def quiet_kernel_def fd_kernel.defs io_kernel.defs signal_kernel.defs loop_kernel.defs keeps_def)
qed

definition blank_loop :: "int list \<Rightarrow> int list loop" where
  "blank_loop w = signal_loop.extend (bare_core w 5
     (signal_loop.fields 1 (\<lambda>_. (0, 0)) (-1, -1) False [] (\<lambda>_. 0) (\<lambda>_. None) (\<lambda>_. 1)))
     (loop.fields 0 0 False {} [] False False False)"

lemma blank_loop_once: "shared (blank_loop w) = (False, -1, -1)" "os (blank_loop w) = w"
  by (simp_all add: blank_loop_def bare_core_def empty_watcher_loop_def watcher_loop.defs io_loop.defs poll_loop.defs
      async_loop.defs core_loop.defs signal_loop.defs loop.defs)

lemma table_grants:
  assumes "table_fds w = set xs" "length xs \<le> 6"
  shows "\<not> isl (fst (table_open w))"
proof (cases "find (\<lambda>x. x \<notin> set w) fd_range")
  case None
  then have "set fd_range \<subseteq> table_fds w" by (auto simp: find_None_iff table_fds_def)
  then have "card (set fd_range) \<le> card (set xs)" using assms(1) by (simp add: card_mono)
  also have "\<dots> \<le> 6" using assms(2) card_length [of xs] by simp
  finally show ?thesis by (simp add: fd_range_def card_image)
qed (simp add: table_open_def)

lemma table_pipe_grants:
  assumes "table_fds w = set xs" "length xs \<le> 5"
  shows "\<not> isl (fst (table_pipe True w))"
proof -
  have 1: "\<not> isl (fst (table_open w))" using assms by (intro table_grants) auto
  then obtain a w1 where a: "table_open w = (Inr a, w1)" by (cases "table_open w"; cases "fst (table_open w)") auto
  then have "table_fds w1 = set (a # xs)" using table_open_opens assms(1) by (auto simp: opens_def opened_def dest!: spec [of _ w])
  then have "\<not> isl (fst (table_open w1))" using assms(2) by (intro table_grants [of w1 "a # xs"]) auto
  then show ?thesis using a by (auto simp: table_pipe_def split: prod.splits sum.splits)
qed

lemma table_kernel_grants: "grants (table_kernel True) table_fds {} 5"
  unfolding grants_def using table_grants table_pipe_grants
  by (auto simp: table_kernel_def quiet_kernel_def fd_kernel.defs io_kernel.defs signal_kernel.defs loop_kernel.defs)

lemma table_boot: "boot_laws (table_kernel pipes) table_fds" "\<not> boot_fails (table_kernel True) table_fds {}"
proof -
  have w: "retry_eintr (k_write (table_kernel pipes) fd ''*'') w = Some (Inr 1, w)" for pipes fd w
    by (subst retry_eintr.simps) (simp add: table_kernel_def quiet_kernel_def fd_kernel.defs io_kernel.defs signal_kernel.defs loop_kernel.defs)
  have a: "k_atfork (table_kernel pipes) w = (Inr (), w)" "k_pipe2 (table_kernel pipes) fl = table_pipe pipes" for pipes w fl
    by (simp_all add: table_kernel_def io_kernel.defs signal_kernel.defs loop_kernel.defs)
  show "boot_laws (table_kernel pipes) table_fds" by (simp add: boot_laws_def keeps_def w a)
  show "\<not> boot_fails (table_kernel True) table_fds {}" unfolding boot_fails_def a w using table_pipe_grants by fastforce
qed

lemma not_isl_unit: "\<not> isl (r :: 'e + unit) \<longleftrightarrow> r = Inr ()"
  by (cases r) auto

section \<open>Properties\<close>





end
