(* ===== verification/Pipe.thy ===== *)
theory Pipe
  imports Tcp Strings
begin

text \<open>
  src/unix/pipe.c (but for \<open>uv_pipe\<close> and \<open>uv__make_pipe\<close>, which Signal.thy has), and \<open>uv_guess_handle\<close> of
  src/unix/tty.c.  The path in a \<open>sockaddr_un\<close> is the string \<open>sa_data\<close>; \<open>pipe_fname\<close> is the copy of the name
  that a bound handle owns.  The lemmas show what becomes of a name, and when an error of
  \<open>connect\<close> reaches its callback.
\<close>

section \<open>State\<close>

record 'w pipe_kernel = "'w tcp_kernel" +
  k_unlink :: "string \<Rightarrow> ('w, unit) sys"
  k_stat_mode :: "string \<Rightarrow> ('w, u32) sys"
  k_chmod :: "string \<Rightarrow> u32 \<Rightarrow> ('w, unit) sys"
  k_isatty :: "int \<Rightarrow> 'w \<Rightarrow> bool \<times> 'w"
  k_fstat_mode :: "int \<Rightarrow> ('w, u32) sys"
  k_so_type :: "int \<Rightarrow> ('w, u32) sys"

record 'w pipe_loop = "'w stream_loop" +
  pipe_fname :: "addr \<Rightarrow> string option"

abbreviation tcpK :: "'w pipe_kernel \<Rightarrow> 'w tcp_kernel" where "tcpK K \<equiv> tcp_kernel.truncate K"
abbreviation pstK :: "'w pipe_kernel \<Rightarrow> 'w stream_kernel" where "pstK K \<equiv> stream_kernel.truncate K"
abbreviation pfdK :: "'w pipe_kernel \<Rightarrow> 'w fd_kernel" where "pfdK K \<equiv> fd_kernel.truncate K"
abbreviation pioK :: "'w pipe_kernel \<Rightarrow> 'w io_kernel" where "pioK K \<equiv> io_kernel.truncate K"
abbreviation SOCK_DGRAM :: u32 where "SOCK_DGRAM \<equiv> 2"
abbreviation O_WRONLY :: u32 where "O_WRONLY \<equiv> 1"
abbreviation O_ACCMODE :: u32 where "O_ACCMODE \<equiv> 3"
abbreviation UV_READABLE :: int where "UV_READABLE \<equiv> 1"
abbreviation UV_WRITABLE :: int where "UV_WRITABLE \<equiv> 2"
abbreviation S_IFMT :: u32 where "S_IFMT \<equiv> 0xF000"
abbreviation S_IFIFO :: u32 where "S_IFIFO \<equiv> 0x1000"
abbreviation S_IFCHR :: u32 where "S_IFCHR \<equiv> 0x2000"
abbreviation S_IFREG :: u32 where "S_IFREG \<equiv> 0x8000"
abbreviation S_IFSOCK :: u32 where "S_IFSOCK \<equiv> 0xC000"
abbreviation S_IREAD_ALL :: u32 where "S_IREAD_ALL \<equiv> 0x124"
abbreviation S_IWRITE_ALL :: u32 where "S_IWRITE_ALL \<equiv> 0x92"

text \<open>The size of \<open>sun_path\<close>.\<close>

abbreviation SUN_PATH :: nat where "SUN_PATH \<equiv> 108"

text \<open>\<open>memset\<close>, \<open>uv__strscpy\<close> and the family: the address of a name.\<close>

definition un_address :: "string \<Rightarrow> sockaddr" where
  "un_address name =
     \<lparr>sa_family = Streams.AF_UNIX, sin_port = 0,
      sa_data = snd (uv__strscpy (replicate SUN_PATH NUL) (name @ [NUL]) SUN_PATH)\<rparr>"

section \<open>Starting\<close>

definition uv_pipe_init ::
  "'w pipe_kernel \<Rightarrow> addr \<Rightarrow> bool \<Rightarrow> ('w, 'a) pipe_loop_scheme \<Rightarrow> ((uv_errno + unit) \<times> ('w, 'a) pipe_loop_scheme) option" where
  "uv_pipe_init K h ipc s = do {
     s \<leftarrow> uv__stream_init (pstK K) h UV_NAMED_PIPE s;
     Some (Inr (), s\<lparr>shutdown_req := (shutdown_req s)(h := None), connect_req := (connect_req s)(h := None),
                     pipe_fname := (pipe_fname s)(h := None), pipe_ipc := (pipe_ipc s)(h := ipc)\<rparr>) }"

text \<open>A name is a C string without its terminator.\<close>

definition uv_pipe_bind ::
  "'w pipe_kernel \<Rightarrow> addr \<Rightarrow> string \<Rightarrow> ('w, 'a) pipe_loop_scheme \<Rightarrow> ((uv_errno + unit) \<times> ('w, 'a) pipe_loop_scheme) option" where
  "uv_pipe_bind K h name s =
     (if uv__stream_fd s h \<ge> 0 then Some (Inl UV_EINVAL, s)
      else (case sys (k_malloc K (length name + 1)) s of
        (False, s) \<Rightarrow> Some (Inl UV_ENOMEM, s)
      | (True, s) \<Rightarrow> do {
          (err, s) \<leftarrow> sys_prog (uv__socket (pfdK K) (af_num Streams.AF_UNIX) SOCK_STREAM 0) s;
          (case err of
             Inl e \<Rightarrow> Some (Inl e, s)
           | Inr sockfd \<Rightarrow>
               (case sys (k_bind K sockfd (un_address name)) s of
                  (Inl e, s) \<Rightarrow> do {
                    (_, s) \<leftarrow> sys_prog (uv__close (pfdK K) sockfd) s;
                    Some (Inl (if e = UV_ENOENT then UV_EACCES else e), s) }
                | (Inr _, s) \<Rightarrow>
                    let s = set_flag h UV_HANDLE_BOUND s
                    in Some (Inr (), s\<lparr>pipe_fname := (pipe_fname s)(h := Some name), io_fd := (io_fd s)(h := sockfd)\<rparr>))) }))"

definition uv__pipe_listen ::
  "'w pipe_kernel \<Rightarrow> addr \<Rightarrow> int \<Rightarrow> nat option \<Rightarrow> ('w, 'a) stream_loop_scheme \<Rightarrow>
    ((uv_errno + unit) \<times> ('w, 'a) stream_loop_scheme) option" where
  "uv__pipe_listen K h backlog cb s =
     (if uv__stream_fd s h = -1 then Some (Inl UV_EINVAL, s)
      else if pipe_ipc s h then Some (Inl UV_EINVAL, s)
      else (case sys (k_listen K (uv__stream_fd s h) backlog) s of
        (Inl e, s) \<Rightarrow> Some (Inl e, s)
      | (Inr _, s) \<Rightarrow> do {
          let s = s\<lparr>connection_cb := (connection_cb s)(h := cb), io_cb := (io_cb s)(h := UV__SERVER_IO)\<rparr>;
          s \<leftarrow> uv__io_start (pioK K) h POLLIN s;
          Some (Inr (), s) }))"

definition uv__pipe_close ::
  "'w pipe_kernel \<Rightarrow> addr \<Rightarrow> ('w, 'a) pipe_loop_scheme \<Rightarrow> ('w, 'a) pipe_loop_scheme option" where
  "uv__pipe_close K h s =
     (let s = (case pipe_fname s h of
                 Some name \<Rightarrow> (case sys (k_unlink K name) s of (_, s) \<Rightarrow> s\<lparr>pipe_fname := (pipe_fname s)(h := None)\<rparr>)
               | None \<Rightarrow> s)
      in uv__stream_close (pstK K) h s)"

definition uv_pipe_open ::
  "'w pipe_kernel \<Rightarrow> addr \<Rightarrow> int \<Rightarrow> ('w, 'a) stream_loop_scheme \<Rightarrow> ((uv_errno + unit) \<times> ('w, 'a) stream_loop_scheme) option" where
  "uv_pipe_open K h fd s = do {
     there \<leftarrow> uv__fd_exists s fd;
     if there then Some (Inl UV_EEXIST, s)
     else do {
       (mode, s) \<leftarrow> sys_prog (retry_eintr (k_getfl K fd)) s;
       (case mode of
          Inl e \<Rightarrow> Some (Inl e, s)
        | Inr mode \<Rightarrow> do {
            (err, s) \<leftarrow> sys_prog (uv__nonblock (pfdK K) fd True) s;
            (case err of
               Inl e \<Rightarrow> Some (Inl e, s)
             | Inr _ \<Rightarrow>
                 let mode = mode AND O_ACCMODE;
                     fl = (if mode \<noteq> O_WRONLY then UV_HANDLE_READABLE else 0);
                     fl = (if mode \<noteq> O_RDONLY then fl OR UV_HANDLE_WRITABLE else fl)
                 in uv__stream_open (pstK K) h fd fl s) }) } }"

text \<open>\<open>uv_pipe_connect\<close> up to the label \<open>out\<close>, and from there on.\<close>

definition pipe_connect_try ::
  "'w pipe_kernel \<Rightarrow> addr \<Rightarrow> string \<Rightarrow> ('w, 'a) stream_loop_scheme \<Rightarrow>
    ((uv_errno + unit) \<times> ('w, 'a) stream_loop_scheme) option" where
  "pipe_connect_try K h name s = do {
     let new_sock = (uv__stream_fd s h = -1);
     (err, s) \<leftarrow> (if new_sock then sys_prog (uv__socket (pfdK K) (af_num Streams.AF_UNIX) SOCK_STREAM 0) s
                  else Some (Inr (uv__stream_fd s h), s));
     (case err of
        Inl e \<Rightarrow> Some (Inl e, s)
      | Inr fd \<Rightarrow> do {
          let s = s\<lparr>io_fd := (io_fd s)(h := fd)\<rparr>;
          (r, s) \<leftarrow> sys_prog (retry_eintr (k_connect K (uv__stream_fd s h) (un_address name))) s;
          if isl r \<and> r \<noteq> Inl UV_EINPROGRESS then Some (r, s)
          else do {
            (err, s) \<leftarrow> (if new_sock then uv__stream_open (pstK K) h (uv__stream_fd s h) (UV_HANDLE_READABLE OR UV_HANDLE_WRITABLE) s
                         else Some (Inr (), s));
            (case err of
               Inl e \<Rightarrow> Some (Inl e, s)
             | Inr _ \<Rightarrow> do {
                 s \<leftarrow> uv__io_start (pioK K) h POLLOUT s;
                 Some (Inr (), s) }) } }) }"

definition uv_pipe_connect ::
  "'w pipe_kernel \<Rightarrow> addr \<Rightarrow> addr \<Rightarrow> string \<Rightarrow> nat option \<Rightarrow> ('w, 'a) stream_loop_scheme \<Rightarrow> ('w, 'a) stream_loop_scheme option" where
  "uv_pipe_connect K req h name cb s = do {
     (err, s) \<leftarrow> pipe_connect_try K h name s;
     let s = s\<lparr>delayed_error := (delayed_error s)(h := (case err of Inl e \<Rightarrow> Some e | Inr _ \<Rightarrow> None)),
               connect_req := (connect_req s)(h := Some req)\<rparr>;
     let s = uv__req_register s;
     let s = s\<lparr>req_handle := (req_handle s)(req := h), req_cb := (req_cb s)(req := cb)\<rparr>;
     Some (if isl err then uv__io_feed h s else s) }"

section \<open>Names\<close>

text \<open>
  The bytes of an address behind its family: of an address that is no path, the port comes first.  \<open>strlen\<close>
  of a path without a terminator runs out of the structure: no result.
\<close>

definition after_family :: "sockaddr \<Rightarrow> string" where
  "after_family sa =
     (if sa_family sa = Streams.AF_UNIX then sa_data sa
      else char_of (unat (sin_port sa) div 256) # char_of (unat (sin_port sa) mod 256) # sa_data sa)"

definition sun_path :: "sockaddr \<Rightarrow> string" where
  "sun_path sa = take SUN_PATH (after_family sa @ replicate SUN_PATH NUL)"

definition uv__pipe_getsockpeername ::
  "(int \<Rightarrow> ('w, sockaddr) sys) \<Rightarrow> addr \<Rightarrow> string \<Rightarrow> nat \<Rightarrow> ('w, 'a) io_loop_scheme \<Rightarrow>
    ((uv_errno + unit) \<times> string \<times> nat \<times> ('w, 'a) io_loop_scheme) option" where
  "uv__pipe_getsockpeername func h buffer sz s =
     (case uv__getsockpeername func h s of
        (Inl e, s) \<Rightarrow> Some (Inl e, buffer, 0, s)
      | (Inr sa, s) \<Rightarrow> do {
          let path = sun_path sa;
          addrlen \<leftarrow> (if path ! 0 = NUL then Some (length (after_family sa))
                      else do { uv_assert (NUL \<in> set path); Some (length (c_string path 0)) });
          if addrlen \<ge> sz then Some (Inl UV_ENOBUFS, buffer, addrlen + 1, s)
          else do {
            let buffer = take addrlen path @ drop addrlen buffer;
            Some (Inr (), if buffer ! 0 \<noteq> NUL then buffer[addrlen := NUL] else buffer, addrlen, s) } })"

definition uv_pipe_getsockname ::
  "'w pipe_kernel \<Rightarrow> addr \<Rightarrow> string \<Rightarrow> nat \<Rightarrow> ('w, 'a) io_loop_scheme \<Rightarrow>
    ((uv_errno + unit) \<times> string \<times> nat \<times> ('w, 'a) io_loop_scheme) option" where
  "uv_pipe_getsockname K h buffer sz s = uv__pipe_getsockpeername (k_getsockname K) h buffer sz s"

definition uv_pipe_getpeername ::
  "'w pipe_kernel \<Rightarrow> addr \<Rightarrow> string \<Rightarrow> nat \<Rightarrow> ('w, 'a) io_loop_scheme \<Rightarrow>
    ((uv_errno + unit) \<times> string \<times> nat \<times> ('w, 'a) io_loop_scheme) option" where
  "uv_pipe_getpeername K h buffer sz s = uv__pipe_getsockpeername (k_getpeername K) h buffer sz s"

text \<open>The new buffer of \<open>uv_pipe_chmod\<close> holds \<open>fresh\<close>, whatever that is.\<close>

definition uv_pipe_chmod ::
  "'w pipe_kernel \<Rightarrow> (nat \<Rightarrow> string) \<Rightarrow> ptr \<Rightarrow> int \<Rightarrow> ('w, 'a) stream_loop_scheme \<Rightarrow>
    ((uv_errno + unit) \<times> ('w, 'a) stream_loop_scheme) option" where
  "uv_pipe_chmod K fresh handle mode s =
     (case handle of
        None \<Rightarrow> Some (Inl UV_EBADF, s)
      | Some h \<Rightarrow>
          if uv__stream_fd s h = -1 then Some (Inl UV_EBADF, s)
          else if mode \<notin> {UV_READABLE, UV_WRITABLE, UV_READABLE + UV_WRITABLE} then Some (Inl UV_EINVAL, s)
          else do {
            (r, _, name_len, s) \<leftarrow> uv_pipe_getsockname K h [] 0 s;
            if r \<noteq> Inl UV_ENOBUFS then Some (r, s)
            else (case sys (k_malloc K name_len) s of
              (False, s) \<Rightarrow> Some (Inl UV_ENOMEM, s)
            | (True, s) \<Rightarrow> do {
                (r, name_buffer, name_len, s) \<leftarrow> uv_pipe_getsockname K h (fresh name_len) name_len s;
                if r \<noteq> Inr () then Some (r, s)
                else (case sys (k_stat_mode K (c_string name_buffer 0)) s of
                  (Inl e, s) \<Rightarrow> Some (Inl e, s)
                | (Inr st_mode, s) \<Rightarrow>
                    let desired_mode = (if mode \<noteq> UV_WRITABLE then S_IREAD_ALL else 0);
                        desired_mode = (if mode \<noteq> UV_READABLE then desired_mode OR S_IWRITE_ALL else desired_mode)
                    in if st_mode AND desired_mode = desired_mode then Some (Inr (), s)
                       else Some (sys (k_chmod K (c_string name_buffer 0) (st_mode OR desired_mode)) s)) }) })"

section \<open>Pending descriptors\<close>

definition uv_guess_handle :: "'w pipe_kernel \<Rightarrow> int \<Rightarrow> 'w \<Rightarrow> uv_handle_type \<times> 'w" where
  "uv_guess_handle K file w =
     (if file < 0 then (UV_UNKNOWN_HANDLE, w)
      else case k_isatty K file w of
        (True, w) \<Rightarrow> (UV_TTY, w)
      | (False, w) \<Rightarrow> (case k_fstat_mode K file w of
          (Inl _, w) \<Rightarrow> (UV_UNKNOWN_HANDLE, w)
        | (Inr st_mode, w) \<Rightarrow>
            if st_mode AND S_IFMT = S_IFREG then (UV_FILE, w)
            else if st_mode AND S_IFMT = S_IFCHR then (UV_FILE, w)
            else if st_mode AND S_IFMT = S_IFIFO then (UV_NAMED_PIPE, w)
            else if st_mode AND S_IFMT \<noteq> S_IFSOCK then (UV_UNKNOWN_HANDLE, w)
            else (case k_getsockname K file w of
              (Inl _, w) \<Rightarrow> (UV_UNKNOWN_HANDLE, w)
            | (Inr ss, w) \<Rightarrow> (case k_so_type K file w of
                (Inl _, w) \<Rightarrow> (UV_UNKNOWN_HANDLE, w)
              | (Inr type, w) \<Rightarrow>
                  if type = SOCK_DGRAM \<and> sa_family ss \<in> {Streams.AF_INET, Streams.AF_INET6} then (UV_UDP, w)
                  else if type = SOCK_STREAM \<and> sa_family ss \<in> {Streams.AF_INET, Streams.AF_INET6} then (UV_TCP, w)
                  else if type = SOCK_STREAM \<and> sa_family ss = Streams.AF_UNIX then (UV_NAMED_PIPE, w)
                  else (UV_UNKNOWN_HANDLE, w)))))"

definition uv_pipe_pending_instances :: "addr \<Rightarrow> int \<Rightarrow> ('w, 'a) stream_loop_scheme \<Rightarrow> ('w, 'a) stream_loop_scheme" where
  "uv_pipe_pending_instances h cnt s = s"

definition uv_pipe_pending_count :: "('w, 'a) stream_loop_scheme \<Rightarrow> addr \<Rightarrow> nat" where
  "uv_pipe_pending_count s h =
     (if \<not> pipe_ipc s h then 0
      else if accepted_fd s h = -1 then 0
      else case queued_fds s h of None \<Rightarrow> 1 | Some (_, fds) \<Rightarrow> length fds + 1)"

definition uv_pipe_pending_type ::
  "'w pipe_kernel \<Rightarrow> addr \<Rightarrow> ('w, 'a) stream_loop_scheme \<Rightarrow> uv_handle_type \<times> ('w, 'a) stream_loop_scheme" where
  "uv_pipe_pending_type K h s =
     (if \<not> pipe_ipc s h then (UV_UNKNOWN_HANDLE, s)
      else if accepted_fd s h = -1 then (UV_UNKNOWN_HANDLE, s)
      else sys (uv_guess_handle K (accepted_fd s h)) s)"

section \<open>Kernels\<close>

lemma pipe_truncated [simp]:
  "fd_kernel.truncate (stream_kernel.truncate K) = pfdK K" "io_kernel.truncate (stream_kernel.truncate K) = pioK K"
  "k_connect (stream_kernel.truncate K) = k_connect K" "k_realloc (stream_kernel.truncate K) = k_realloc K"
  by (simp_all add: stream_kernel.truncate_def io_kernel.truncate_def fd_kernel.truncate_def tcp_kernel.truncate_def)

lemma pipe_stream_open:
  assumes "htype s h = UV_NAMED_PIPE" "io_fd s h = -1 \<or> io_fd s h = fd" "fd \<ge> 0"
  shows "uv__stream_open K h fd fl s = Some (Inr (), s\<lparr>flags := (flags s)(h := flags s h OR fl), io_fd := (io_fd s)(h := fd)\<rparr>)"
  using assms by (simp add: uv__stream_open_def set_flag_def)

section \<open>Connecting\<close>

text \<open>What an attempt to connect may change.\<close>

definition conn_touched :: "('w, 'a) io_loop_scheme \<Rightarrow> ('w, 'a) io_loop_scheme \<Rightarrow> bool" where
  "conn_touched s s' \<longleftrightarrow> s' = s\<lparr>flags := flags s', qs := qs s', io_fd := io_fd s', io_events := io_events s',
     io_pevents := io_pevents s', watchers := watchers s', nwatchers := nwatchers s', nfds := nfds s', os := os s'\<rparr>"

lemma conn_touched_trans: "conn_touched a b \<Longrightarrow> conn_touched b c \<Longrightarrow> conn_touched a c"
  by (cases a rule: io_loop.cases_scheme; cases b rule: io_loop.cases_scheme; cases c rule: io_loop.cases_scheme) (simp add: conn_touched_def)

lemma io_touched_conn: "io_touched s s' \<Longrightarrow> flags s' = flags s \<Longrightarrow> io_fd s' = io_fd s \<Longrightarrow> conn_touched s s'"
  unfolding conn_touched_def io_touched_def by simp

lemma conn_touched_fields:
  assumes "conn_touched s s'"
  shows "htype s' = htype s" "active_reqs s' = active_reqs s" "write_queue s' = write_queue s"
    "write_completed_queue s' = write_completed_queue s" "stream_loop.more s' = stream_loop.more s"
  by (subst assms [unfolded conn_touched_def]; simp)+

lemma pipe_connect_try_result:
  assumes L: "tcp_laws (pstK K) fds" and ok: "io_ok s" and own: "io_fd s h = -1 \<or> io_fd s h \<in> fds (os s)"
    and ty: "htype s h = UV_NAMED_PIPE"
  shows "\<exists>r s'. pipe_connect_try K h name s = Some (r, s') \<and> conn_touched s s' \<and> owns fds h s s' \<and> io_ok s' \<and>
    has_flag s' h UV_HANDLE_CLOSING = has_flag s h UV_HANDLE_CLOSING \<and> (r = Inr () \<longrightarrow> io_pevents s' h AND POLLOUT \<noteq> 0)"
proof -
  define sock where "sock = (if uv__stream_fd s h = -1 then sys_prog (uv__socket (pfdK K) (af_num Streams.AF_UNIX) SOCK_STREAM 0) s
      else Some (Inr (uv__stream_fd s h), s))"
  have fl: "fd_laws (pfdK K) fds" using tcp_lawsD(1) [OF L] by simp
  have "\<exists>r w. sock = Some (r, s\<lparr>os := w\<rparr>) \<and> (case r of Inl _ \<Rightarrow> fds w = fds (os s)
    | Inr fd \<Rightarrow> fd \<in> fds w \<and> owns fds h s (s\<lparr>os := w, io_fd := (io_fd s)(h := fd)\<rparr>))"
  proof (cases "io_fd s h = -1")
    case False
    then show ?thesis using own
      by (intro exI [of _ "Inr (io_fd s h)"] exI [of _ "os s"]) (simp add: sock_def uv__stream_fd_def owns_def fun_upd_idem)
  next
    case True
    obtain r w where w: "uv__socket (pfdK K) (af_num Streams.AF_UNIX) SOCK_STREAM 0 (os s) = Some (r, w)" "opened fds (os s) r w"
      using socket_opened [OF fl] by blast
    have "-1 \<notin> fds (os s)" using tcp_lawsD(10) [OF L, of "-1" "os s"] by auto
    then show ?thesis using True w
      by (intro exI [of _ r] exI [of _ w]) (auto simp: sock_def uv__stream_fd_def sys_prog_def opened_def owns_def split: sum.splits)
  qed
  then obtain r w where w: "sock = Some (r, s\<lparr>os := w\<rparr>)" "case r of Inl _ \<Rightarrow> fds w = fds (os s)
    | Inr fd \<Rightarrow> fd \<in> fds w \<and> owns fds h s (s\<lparr>os := w, io_fd := (io_fd s)(h := fd)\<rparr>)" by blast
  show ?thesis
  proof (cases r)
    case (Inl e)
    have "io_ok (s\<lparr>os := w\<rparr>) = io_ok s" by (rule io_ok_cong) simp_all
    moreover have "owns fds h s (s\<lparr>os := w\<rparr>)" using w(2) own Inl by (simp add: owns_def)
    ultimately show ?thesis using w(1) ok Inl
      by (intro exI [of _ "Inl e"] exI [of _ "s\<lparr>os := w\<rparr>"])
         (simp add: pipe_connect_try_def sock_def [symmetric] conn_touched_def has_flag_def)
  next
    case (Inr fd)
    have fd: "fd \<in> fds w" "0 \<le> fd" and o1: "owns fds h s (s\<lparr>os := w, io_fd := (io_fd s)(h := fd)\<rparr>)"
      using w(2) Inr tcp_lawsD(10) [OF L, of fd w] by auto
    obtain r2 w2 where w2: "retry_eintr (k_connect K fd (un_address name)) w = Some (r2, w2)" "fds w2 = fds w"
      using retry_connect [OF L, of fd "un_address name" w] by auto
    define s2 where "s2 = s\<lparr>io_fd := (io_fd s)(h := fd), os := w2\<rparr>"
    have o2: "owns fds h s s2" using o1 w2(2) by (simp add: owns_def s2_def)
    have fd2: "io_fd s2 h \<in> fds (os s2)" using fd w2(2) by (simp add: s2_def)
    have ok2: "io_ok (s2\<lparr>flags := f\<rparr>)" for f
    proof (cases "io_fd s h = -1")
      case True
      have "io_ok (s2\<lparr>flags := f\<rparr>) = io_ok (s\<lparr>flags := f, os := w2, io_fd := (io_fd s)(h := fd)\<rparr>)"
        by (rule io_ok_cong) (simp_all add: s2_def)
      then show ?thesis using io_ok_other_fd [OF ok True] by simp
    next
      case False
      have "io_fd s h = fd" using o1 False by (simp add: owns_def)
      then show ?thesis using ok io_ok_cong [of "s2\<lparr>flags := f\<rparr>" s] by (simp add: s2_def fun_upd_idem)
    qed
    define fl' where "fl' = (if io_fd s h = -1 then (flags s)(h := flags s h OR (UV_HANDLE_READABLE OR UV_HANDLE_WRITABLE)) else flags s)"
    define s3 where "s3 = s2\<lparr>flags := fl'\<rparr>"
    have clos: "has_flag s3 h UV_HANDLE_CLOSING = has_flag s h UV_HANDLE_CLOSING"
      using flag_or [of "flags s h" "UV_HANDLE_READABLE OR UV_HANDLE_WRITABLE" UV_HANDLE_CLOSING]
      by (simp add: s3_def fl'_def has_flag_def)
    have run: "pipe_connect_try K h name s = (if isl r2 \<and> r2 \<noteq> Inl UV_EINPROGRESS then Some (r2, s2)
        else uv__io_start (pioK K) h POLLOUT s3 \<bind> (\<lambda>s. Some (Inr (), s)))"
    proof -
      have op: "(if io_fd s h = -1 then uv__stream_open (pstK K) h fd (UV_HANDLE_READABLE OR UV_HANDLE_WRITABLE) s2
          else Some (Inr (), s2)) = Some (Inr (), s3)"
        using pipe_stream_open [of s2 h fd "pstK K"] ty fd(2) by (simp add: s2_def s3_def fl'_def)
      have "io_fd s2 h = fd" by (simp add: s2_def)
      then show ?thesis unfolding pipe_connect_try_def Let_def sock_def [symmetric] unfolding w(1) Inr
        using w2(1) op by (auto simp: sys_prog_def uv__stream_fd_def s2_def [symmetric])
    qed
    show ?thesis
    proof (cases "isl r2 \<and> r2 \<noteq> Inl UV_EINPROGRESS")
      case True
      then show ?thesis using run o2 ok2 [of "flags s2"] by (intro exI [of _ r2] exI [of _ s2]) (auto simp: conn_touched_def has_flag_def s2_def)
    next
      case False
      have o3: "owns fds h s s3" "io_ok s3" "io_fd s3 h \<in> fds (os s3)" using o2 ok2 fd2 by (simp_all add: s3_def owns_def)
      obtain s4 where s4: "uv__io_start (pioK K) h POLLOUT s3 = Some s4" "owns fds h s s4" "io_ok s4" "io_touched s3 s4"
        using io_start_owns [OF L o3(1,2,3), of POLLOUT] by auto
      have "io_pevents s4 h = io_pevents s3 h OR POLLOUT"
      proof -
        have ev: "POLLOUT AND NOT POLL_ALL = 0" "POLLOUT \<noteq> 0" by simp_all
        have r: "0 \<le> io_fd s3 h" "io_fd s3 h < 2 ^ 31 - 3" using tcp_lawsD(10) [OF L o3(3)] by simp_all
        have m: "fst (k_realloc (pioK K) n w)" for n w using tcp_lawsD(2) [OF L] by (simp add: io_kernel.truncate_def)
        from io_start_total [OF o3(2) ev r m] s4(1) show ?thesis by auto
      qed
      then have "io_pevents s4 h AND POLLOUT \<noteq> 0" by (simp add: flag_or)
      moreover have "conn_touched s s4"
      proof (rule conn_touched_trans)
        show "conn_touched s s3" by (simp add: conn_touched_def s3_def s2_def)
        show "conn_touched s3 s4" using touched_fields [OF s4(4)] by (intro io_touched_conn s4(4)) simp_all
      qed
      moreover have "has_flag s4 h UV_HANDLE_CLOSING = has_flag s3 h UV_HANDLE_CLOSING"
        using touched_fields(1) [OF s4(4)] by (simp add: has_flag_def)
      ultimately show ?thesis using run False s4 clos by (intro exI [of _ "Inr ()"] exI [of _ s4]) simp
    qed
  qed
qed


section \<open>The address of a name\<close>

lemma un_address_path:
  assumes "NUL \<notin> set name"
  shows "sa_family (un_address name) = Streams.AF_UNIX"
    "sa_data (un_address name) = take 107 name @ replicate (108 - min 107 (length name)) NUL"
proof -
  have t: "c_string (name @ [NUL]) 0 = name" using assms by (simp add: c_string_def takeWhile_append)
  have "snd (uv__strscpy (replicate 108 NUL) (name @ [NUL]) 108) = take 107 name @ replicate (108 - min 107 (length name)) NUL"
  proof (cases "length name < 108")
    case True
    then have "108 - length name = Suc (107 - length name)" by simp
    then show ?thesis using True by (subst strscpy_spec [OF _ _ t [symmetric]]) simp_all
  qed (subst strscpy_spec [OF _ _ t [symmetric]], simp_all)
  then show "sa_data (un_address name) = take 107 name @ replicate (108 - min 107 (length name)) NUL"
    by (simp add: un_address_def)
qed (simp add: un_address_def)

lemma named_path:
  assumes "NUL \<notin> set name" "name \<noteq> []"
  shows "sun_path (un_address name) = sa_data (un_address name)" "sun_path (un_address name) ! 0 \<noteq> NUL"
    "NUL \<in> set (sun_path (un_address name))" "c_string (sun_path (un_address name)) 0 = take 107 name"
proof -
  note p = un_address_path [OF assms(1)]
  show s: "sun_path (un_address name) = sa_data (un_address name)"
    unfolding sun_path_def after_family_def p by (simp add: min_def)
  have t: "NUL \<notin> set (take 107 name)" using assms(1) by (auto dest: in_set_takeD)
  show "sun_path (un_address name) ! 0 \<noteq> NUL"
    unfolding s p(2) using assms by (cases name) auto
  show "NUL \<in> set (sun_path (un_address name))" unfolding s p(2) by simp
  have "c_string (take 107 name @ replicate (Suc n) NUL) 0 = take 107 name" for n
    using t by (simp add: c_string_def takeWhile_append)
  moreover have "108 - min 107 (length name) = Suc (107 - min 107 (length name))" by simp
  ultimately show "c_string (sun_path (un_address name)) 0 = take 107 name" unfolding s p(2) by metis
qed

text \<open>The file that was bound is the truncated name; the file that is unlinked is the name as it was given.\<close>

lemma close_unlinks_the_full_name:
  assumes "pipe_fname s h = Some name"
  shows "uv__pipe_close K h s = uv__stream_close (pstK K) h
    (s\<lparr>os := snd (k_unlink K name (os s)), pipe_fname := (pipe_fname s)(h := None)\<rparr>)"
  using assms by (cases "k_unlink K name (os s)") (simp add: uv__pipe_close_def sys_def)

text \<open>Nothing stops a second \<open>uv_pipe_connect\<close>: it takes the place of the request that is pending.\<close>

lemma second_connect_takes_over:
  assumes "connect_req s h = Some old" and "uv_pipe_connect K req h name cb s = Some s'"
  shows "connect_req s' h = Some req"
  using assms(2) by (auto simp: uv_pipe_connect_def Let_def uv__req_register_def uv__io_feed_def split: bind_splits if_splits)

section \<open>Pending descriptors\<close>

lemma pending_count_length:
  assumes "pipe_ipc s h" "pending_ok s h"
  shows "uv_pipe_pending_count s h = length (pending_fds s h)"
  using assms by (auto simp: uv_pipe_pending_count_def pending_fds_def pending_ok_def split: option.splits)

lemma io_start_keeps_ipc:
  assumes "uv__io_start K w e s = Some s'"
  shows "pipe_ipc s' = pipe_ipc s"
proof -
  have m: "pipe_ipc t' = pipe_ipc t" if "maybe_resize K l t = Some t'" for l t t'
    using that unfolding maybe_resize_def Let_def by (auto simp: sys_def split: if_splits prod.splits)
  show ?thesis using assms unfolding uv__io_start_def Let_def
    by (auto simp: set_watcher_at_def split: if_splits bind_splits dest!: m)
qed

lemma accept_done_keeps_ipc:
  assumes "accept_done K server err s = Some (r, s')"
  shows "pipe_ipc s' = pipe_ipc s"
  using assms
  by (auto simp: accept_done_def Let_def split: option.splits if_splits prod.splits bind_splits dest!: io_start_keeps_ipc)

lemma guess_handle_types:
  "fst (uv_guess_handle K fd w) \<in> {UV_UNKNOWN_HANDLE, UV_TTY, UV_FILE, UV_NAMED_PIPE, UV_TCP, UV_UDP}"
  by (auto simp: uv_guess_handle_def split: prod.splits bool.splits sum.splits)

section \<open>Properties\<close>

text \<open>A system with one descriptor to give, 5, a socket for a stream, where every connection is refused.\<close>

definition refusing_kernel :: "bool pipe_kernel" where
  "refusing_kernel = tcp_kernel.extend
     (one_fd_kernel\<lparr>k_connect := \<lambda>_ _ w. (Inl UV_ECONNREFUSED, w), k_getsockname := \<lambda>_ w. (Inr (un_address ''s''), w)\<rparr>)
     (pipe_kernel.fields (\<lambda>_ w. (Inr (), w)) (\<lambda>_ w. (Inr 0, w)) (\<lambda>_ _ w. (Inr (), w)) (\<lambda>_ w. (False, w))
        (\<lambda>_ w. (Inr S_IFSOCK, w)) (\<lambda>_ w. (Inr SOCK_STREAM, w)))"

lemmas refusing_defs = refusing_kernel_def one_fd_defs pipe_kernel.defs

lemma refusing_laws:
  "tcp_laws (pstK refusing_kernel) (\<lambda>w. if w then {5} else {})"
  "stream_fd_laws (pstK refusing_kernel) (\<lambda>w. if w then {5} else {})"
  by (simp_all add: tcp_laws_def stream_fd_laws_def fd_laws_def refusing_defs keeps_def opens_def opened_def one_fd_def ends_no_intr)

definition pipe_loop_of :: "bool \<Rightarrow> int \<Rightarrow> nat \<Rightarrow> (bool, nat) stream_loop_scheme" where
  "pipe_loop_of w fd n = (bare_loop w fd n)\<lparr>htype := \<lambda>_. UV_NAMED_PIPE\<rparr>"

lemma pipe_loop_of_fields:
  "io_fd (pipe_loop_of w fd n) = (\<lambda>_. fd)" "os (pipe_loop_of w fd n) = w" "htype (pipe_loop_of w fd n) = (\<lambda>_. UV_NAMED_PIPE)"
  "flags (pipe_loop_of w fd n) = (\<lambda>_. 0)" "active_reqs (pipe_loop_of w fd n) = 0" "write_queue (pipe_loop_of w fd n) = (\<lambda>_. [])"
  "write_completed_queue (pipe_loop_of w fd n) = (\<lambda>_. [])" "stream_loop.more (pipe_loop_of w fd n) = n" "io_ok (pipe_loop_of w fd n)"
  using bare_loop_ok [of w fd n] io_ok_cong [of "pipe_loop_of w fd n" "bare_loop w fd n"]
  by (simp_all add: pipe_loop_of_def bare_loop_fields)

text \<open>The callback leaves the number of its request behind.\<close>

definition noting_calls :: "(bool, nat) stream_loop_scheme stream_calls" where
  "noting_calls = \<lparr>call_alloc = \<lambda>_ _ s. Some (None, s), call_read = \<lambda>_ _ _ s. Some s, call_connection = \<lambda>_ _ _ s. Some s,
     call_req = \<lambda>_ req _ s. Some (stream_loop.more_update (\<lambda>_. req) s), udp_open = \<lambda>_ _ s. Some (Inl UV_EINVAL, s)\<rparr>"

text \<open>
  C23: \<open>uv_pipe_connect\<close> returns and takes up its request, whatever the system answers, and leaks no descriptor.
  When it has no error it waits for the socket to become writable; an error other than \<open>EINPROGRESS\<close> is kept, the
  handle is fed to the queue of pending watchers, and \<open>uv__stream_io\<close> then calls the callback of the request
  with it, once: the request is no longer counted and the handle holds no error any more.
\<close>

theorem pipe_connect_error_is_called:
  assumes "tcp_laws (pstK K) fds" and "io_ok s" and "io_fd s h = -1 \<or> io_fd s h \<in> fds (os s)" and "htype s h = UV_NAMED_PIPE"
    and "\<not> has_flag s h UV_HANDLE_CLOSING" and "write_queue s h = []" and "write_completed_queue s h = []"
    and "active_reqs s + 1 \<noteq> 0" and "private_callback U g"
  shows "\<exists>s1. uv_pipe_connect K req h name (Some c) s = Some s1 \<and> owns fds h s s1 \<and> connect_req s1 h = Some req \<and>
    active_reqs s1 = active_reqs s + 1 \<and>
    (delayed_error s1 h = None \<longrightarrow> io_pevents s1 h AND POLLOUT \<noteq> 0) \<and>
    (\<forall>e. delayed_error s1 h = Some e \<and> e \<noteq> UV_EINPROGRESS \<longrightarrow> (\<exists>t. s1 = uv__io_feed h t) \<and>
      (\<exists>s2. uv__stream_io (pstK K) U h events s1 = Some s2 \<and> stream_loop.more s2 = g req (Some e) (stream_loop.more s) \<and>
        connect_req s2 h = None \<and> delayed_error s2 h = None \<and> active_reqs s2 = active_reqs s))"
proof -
  obtain r s0 where r: "pipe_connect_try K h name s = Some (r, s0)" "conn_touched s s0" "owns fds h s s0" "io_ok s0"
    "has_flag s0 h UV_HANDLE_CLOSING = has_flag s h UV_HANDLE_CLOSING" "r = Inr () \<longrightarrow> io_pevents s0 h AND POLLOUT \<noteq> 0"
    using pipe_connect_try_result [OF assms(1-4)] by blast
  note f = conn_touched_fields [OF r(2)]
  define t where "t = s0\<lparr>delayed_error := (delayed_error s0)(h := (case r of Inl e \<Rightarrow> Some e | Inr _ \<Rightarrow> None)),
    connect_req := (connect_req s0)(h := Some req), active_reqs := active_reqs s0 + 1,
    req_handle := (req_handle s0)(req := h), req_cb := (req_cb s0)(req := Some c)\<rparr>"
  define s1 where "s1 = (if isl r then uv__io_feed h t else t)"
  have c: "uv_pipe_connect K req h name (Some c) s = Some s1"
    using r(1) by (simp add: uv_pipe_connect_def Let_def uv__req_register_def s1_def t_def)
  have f1: "connect_req s1 h = Some req" "delayed_error s1 h = (case r of Inl e \<Rightarrow> Some e | Inr _ \<Rightarrow> None)" "htype s1 h = UV_NAMED_PIPE"
    "io_fd s1 = io_fd s0" "os s1 = os s0" "io_pevents s1 = io_pevents s0" "req_cb s1 req = Some c" "active_reqs s1 = active_reqs s + 1"
    "\<not> has_flag s1 h UV_HANDLE_CLOSING" "write_queue s1 h = []" "write_completed_queue s1 h = []"
    "stream_loop.more s1 = stream_loop.more s"
    using f assms(4-7) r(5) by (simp_all add: s1_def t_def uv__io_feed_def has_flag_def)
  have ok1: "io_ok s1" using r(4) io_ok_cong [of s1 s0] by (simp add: s1_def t_def uv__io_feed_def)
  have o1: "owns fds h s s1" using r(3) f1 by (simp add: owns_def)
  have "io_fd s1 h = -1 \<or> io_fd s1 h \<in> fds (os s1)" using o1 by (simp add: owns_def)
  then have fd1: "-1 \<le> io_fd s1 h" using tcp_lawsD(10) [OF assms(1), of "io_fd s1 h" "os s1"] by linarith
  have err: "(\<exists>t. s1 = uv__io_feed h t) \<and>
      (\<exists>s2. uv__stream_io (pstK K) U h events s1 = Some s2 \<and> stream_loop.more s2 = g req (Some e) (stream_loop.more s) \<and>
        connect_req s2 h = None \<and> delayed_error s2 h = None \<and> active_reqs s2 = active_reqs s)"
    if e: "delayed_error s1 h = Some e" "e \<noteq> UV_EINPROGRESS" for e
  proof -
    have "isl r" using e(1) f1(2) by (cases r) auto
    then have "\<exists>t. s1 = uv__io_feed h t" by (auto simp: s1_def)
    moreover have "\<exists>s2. uv__stream_io (pstK K) U h events s1 = Some s2 \<and> stream_loop.more s2 = g req (Some e) (stream_loop.more s1) \<and>
        connect_req s2 h = None \<and> delayed_error s2 h = None \<and> active_reqs s2 = active_reqs s1 - 1"
      by (rule delayed_error_is_called [OF f1(1) e(1,2) _ ok1 fd1 f1(7) _ f1(9,10,11) assms(9)]) (use f1 assms(8) in auto)
    ultimately show ?thesis using f1 by simp
  qed
  have waits: "delayed_error s1 h = None \<longrightarrow> io_pevents s1 h AND POLLOUT \<noteq> 0" using f1(2,6) r(6) by (cases r) auto
  have errs: "\<forall>e. delayed_error s1 h = Some e \<and> e \<noteq> UV_EINPROGRESS \<longrightarrow> (\<exists>t. s1 = uv__io_feed h t) \<and>
      (\<exists>s2. uv__stream_io (pstK K) U h events s1 = Some s2 \<and> stream_loop.more s2 = g req (Some e) (stream_loop.more s) \<and>
        connect_req s2 h = None \<and> delayed_error s2 h = None \<and> active_reqs s2 = active_reqs s)"
  proof (intro allI impI)
    fix e assume "delayed_error s1 h = Some e \<and> e \<noteq> UV_EINPROGRESS"
    then show "(\<exists>t. s1 = uv__io_feed h t) \<and>
      (\<exists>s2. uv__stream_io (pstK K) U h events s1 = Some s2 \<and> stream_loop.more s2 = g req (Some e) (stream_loop.more s) \<and>
        connect_req s2 h = None \<and> delayed_error s2 h = None \<and> active_reqs s2 = active_reqs s)"
      by (elim conjE) (rule err)
  qed
  show ?thesis by (rule exI [of _ s1], rule conjI [OF c conjI [OF o1 conjI [OF f1(1) conjI [OF f1(8) conjI [OF waits errs]]]]])
qed

theorem pipe_connect_error_is_called_witness:
  "\<exists>s1 s2. uv_pipe_connect refusing_kernel 9 7 ''s'' (Some 1) (pipe_loop_of True 5 0) = Some s1 \<and>
    delayed_error s1 7 = Some UV_ECONNREFUSED \<and> uv__stream_io (pstK refusing_kernel) noting_calls 7 POLLOUT s1 = Some s2 \<and>
    stream_loop.more s2 = 9 \<and> delayed_error s2 7 = None"
proof -
  let ?s = "pipe_loop_of True 5 0"
  have p: "private_callback noting_calls (\<lambda>req _ _. req)" by (simp add: private_callback_def noting_calls_def)
  have own: "io_fd ?s 7 = -1 \<or> io_fd ?s 7 \<in> (\<lambda>w. if w then {5} else {}) (os ?s)" by (simp add: pipe_loop_of_fields)
  have open7: "\<not> has_flag ?s 7 UV_HANDLE_CLOSING" by (simp add: pipe_loop_of_fields has_flag_def)
  have "pipe_connect_try refusing_kernel 7 ''s'' ?s = Some (Inl UV_ECONNREFUSED, ?s)"
    by (simp add: pipe_connect_try_def uv__stream_fd_def pipe_loop_of_fields sys_prog_def retry_eintr.simps refusing_defs fun_upd_idem Let_def)
  then have d: "delayed_error s1 7 = Some UV_ECONNREFUSED" if "uv_pipe_connect refusing_kernel 9 7 ''s'' (Some 1) ?s = Some s1" for s1
    using that by (auto simp: uv_pipe_connect_def Let_def uv__req_register_def uv__io_feed_def)
  show ?thesis
    using pipe_connect_error_is_called [OF refusing_laws(1) pipe_loop_of_fields(9) own _ open7 _ _ _ p, of 9 "''s''" 1 POLLOUT] d
    by (force simp: pipe_loop_of_fields)
qed

text \<open>
  C25: When a name is bound, \<open>uv_pipe_getsockname\<close> answers with its first 107 bytes: a buffer that is too short gets
  \<open>ENOBUFS\<close> and the size that is enough, and a buffer of that size gets the name with its terminator, and is not
  written beyond.  The handle owns a copy of the whole name, so for a longer name they differ.
\<close>

theorem pipe_name_round_trip:
  assumes "fd_laws (pfdK K) fds" and "name \<noteq> []" and "NUL \<notin> set name" and "io_fd s h < 0" and "htype s h = UV_NAMED_PIPE"
    and "\<not> uv__is_closing s h" and "\<And>n w. fst (k_malloc K n w)" and "\<And>d t p w. \<not> isl (fst (k_socket K d t p w))"
    and "\<And>fd sa w. \<exists>w'. k_bind K fd sa w = (Inr (), w') \<and> k_getsockname K fd w' = (Inr sa, w')"
  shows "\<exists>s1. uv_pipe_bind K h name s = Some (Inr (), s1) \<and> pipe_fname s1 h = Some name \<and>
    (let n = min 107 (length name) in
      (\<forall>buf sz. sz \<le> n \<longrightarrow> uv_pipe_getsockname K h buf sz s1 = Some (Inl UV_ENOBUFS, buf, n + 1, s1)) \<and>
      (\<forall>buf sz. n < sz \<and> sz \<le> length buf \<longrightarrow>
        uv_pipe_getsockname K h buf sz s1 = Some (Inr (), take 107 name @ NUL # drop (n + 1) buf, n, s1)))"
proof -
  obtain w1 where w1: "k_malloc K (length name + 1) (os s) = (True, w1)"
    using assms(7) [of "length name + 1" "os s"] by (cases "k_malloc K (length name + 1) (os s)") auto
  have sk: "k_socket (pfdK K) = k_socket K" by (simp add: fd_kernel.truncate_def)
  obtain fd w2 where w2: "k_socket K (af_num Streams.AF_UNIX) (SOCK_STREAM OR SOCK_NONBLOCK OR SOCK_CLOEXEC) 0 w1 = (Inr fd, w2)"
    using assms(8) [of "af_num Streams.AF_UNIX" "SOCK_STREAM OR SOCK_NONBLOCK OR SOCK_CLOEXEC" 0 w1]
    by (cases "k_socket K (af_num Streams.AF_UNIX) (SOCK_STREAM OR SOCK_NONBLOCK OR SOCK_CLOEXEC) 0 w1"; cases "fst (k_socket K (af_num Streams.AF_UNIX) (SOCK_STREAM OR SOCK_NONBLOCK OR SOCK_CLOEXEC) 0 w1)") auto
  have "opens fds (k_socket (pfdK K) (af_num Streams.AF_UNIX) (SOCK_STREAM OR SOCK_NONBLOCK OR SOCK_CLOEXEC) 0)"
    using assms(1) by (simp add: fd_laws_def)
  from opens_cases [OF this, of w1] have fd: "fd > 2" using w2 unfolding sk by fastforce
  have so: "uv__socket (pfdK K) (af_num Streams.AF_UNIX) SOCK_STREAM 0 w1 = Some (Inr fd, w2)"
    using w2 by (simp add: uv__socket_def sk)
  obtain w3 where w3: "k_bind K fd (un_address name) w2 = (Inr (), w3)" "k_getsockname K fd w3 = (Inr (un_address name), w3)"
    using assms(9) by blast
  define s1 where "s1 = s\<lparr>os := w3, flags := (flags s)(h := flags s h OR UV_HANDLE_BOUND), pipe_fname := (pipe_fname s)(h := Some name),
    io_fd := (io_fd s)(h := fd)\<rparr>"
  have b: "uv_pipe_bind K h name s = Some (Inr (), s1)"
    using w1 so w3(1) assms(4) by (simp add: uv_pipe_bind_def uv__stream_fd_def sys_def sys_prog_def set_flag_def s1_def Let_def)
  have f1: "io_fd s1 h = fd" "os s1 = w3" "htype s1 h = UV_NAMED_PIPE" "\<not> uv__is_closing s1 h" "pipe_fname s1 h = Some name"
    using assms(5,6) by (simp_all add: s1_def is_closing_iff has_flag_def flag_or)
  have q: "uv__getsockpeername (k_getsockname K) h s1 = (Inr (un_address name), s1)"
    using f1(1-4) fd w3(2) by (simp add: uv__getsockpeername_def uv_fileno_def sys_def)
  note p = named_path [OF assms(3,2)]
  note a = un_address_path [OF assms(3)]
  have len: "length (c_string (sun_path (un_address name)) 0) = min 107 (length name)" by (simp add: p(4) min_def)
  have pre: "take (min 107 (length name)) (sun_path (un_address name)) = take 107 name"
    unfolding p(1) a(2) by (simp add: min_def)
  have gs: "uv_pipe_getsockname K h buf sz s1 =
      (if min 107 (length name) \<ge> sz then Some (Inl UV_ENOBUFS, buf, min 107 (length name) + 1, s1)
       else (let b = take 107 name @ drop (min 107 (length name)) buf
             in Some (Inr (), if b ! 0 \<noteq> NUL then b[min 107 (length name) := NUL] else b, min 107 (length name), s1)))" for buf sz
    unfolding uv_pipe_getsockname_def uv__pipe_getsockpeername_def q prod.case sum.case Let_def
    using p(2,3) by (simp add: len pre)
  have hd: "(take 107 name @ xs) ! 0 \<noteq> NUL" for xs using assms(2,3) by (cases name) auto
  have upd: "(take 107 name @ drop (min 107 (length name)) buf)[min 107 (length name) := NUL] =
      take 107 name @ NUL # drop (min 107 (length name) + 1) buf" if "min 107 (length name) < length buf" for buf
    using that by (simp add: list_update_append Cons_nth_drop_Suc [symmetric] min_def)
  show ?thesis using b f1(5) gs hd upd by (intro exI [of _ s1]) (auto simp: Let_def)
qed


text \<open>A system that remembers the address that was bound last.\<close>

definition naming_open :: "(int list \<times> sockaddr, int) sys" where
  "naming_open w = (case demo_open \<lparr>open_fds = fst w, status_flags = \<lambda>_. 0\<rparr> of (r, t) \<Rightarrow> (r, (open_fds t, snd w)))"

definition naming_kernel :: "(int list \<times> sockaddr) pipe_kernel" where
  "naming_kernel = tcp_kernel.extend (stream_kernel.extend (io_kernel.extend
     (quiet_kernel\<lparr>k_socket := \<lambda>_ _ _. naming_open, k_close := \<lambda>fd w. (Inr (), (removeAll fd (fst w), snd w))\<rparr>)
     (stream_kernel.fields (\<lambda>_ v w. (Inr 0, w)) (\<lambda>_ v _ w. (Inr 0, w)) (\<lambda>_ w. (Inr (), w)) (\<lambda>_ w. (None, w)) (\<lambda>_ _ w. (Inr (), w))
        (\<lambda>_ w. (True, w)) id (\<lambda>_ w. (Inr (snd w), w)) (\<lambda>_ sa w. (Inr (), (fst w, sa))) (\<lambda>_ _ w. (Inr (), w)) (\<lambda>_ _ w. (Inr (), w))))
     (tcp_kernel.fields (\<lambda>_ w. (Inl UV_ENOTCONN, w)) (\<lambda>_ _ w. (Inl UV_EMFILE, w)) (\<lambda>_ _ w. (Inr 0, w)) (\<lambda>_ _ _ w. (Inr (), w)) (\<lambda>_ _. None)))
     (pipe_kernel.fields (\<lambda>_ w. (Inr (), w)) (\<lambda>_ w. (Inr 0, w)) (\<lambda>_ _ w. (Inr (), w)) (\<lambda>_ w. (False, w))
        (\<lambda>_ w. (Inr S_IFSOCK, w)) (\<lambda>_ w. (Inr SOCK_STREAM, w)))"

lemmas naming_defs = naming_kernel_def quiet_kernel_def naming_open_def fd_kernel.defs io_kernel.defs stream_kernel.defs tcp_kernel.defs
  pipe_kernel.defs

lemma naming_laws:
  "fd_laws (pfdK naming_kernel) (\<lambda>w. set (fst w))" "fst (k_malloc naming_kernel n w)" "\<not> isl (fst (k_socket naming_kernel d t p w))"
  "\<exists>w'. k_bind naming_kernel fd sa w = (Inr (), w') \<and> k_getsockname naming_kernel fd w' = (Inr sa, w')"
proof -
  have f: "fresh_fd \<lparr>open_fds = xs, status_flags = \<lambda>_. 0\<rparr> > 2" "fresh_fd \<lparr>open_fds = xs, status_flags = \<lambda>_. 0\<rparr> \<notin> set xs" for xs
    using fresh_fd_new [of "\<lparr>open_fds = xs, status_flags = \<lambda>_. 0\<rparr>"] by simp_all
  show "fd_laws (pfdK naming_kernel) (\<lambda>w. set (fst w))"
    by (auto simp: fd_laws_def naming_defs demo_open_def opens_def opened_def keeps_def f intro!: ends_no_intr)
qed (simp_all add: naming_defs demo_open_def)

definition named_loop :: "(int list \<times> sockaddr) pipe_loop" where
  "named_loop = (bare_loop ([0, 1, 2], un_address ''x'') (-1) (pipe_loop.fields (\<lambda>_. None)))\<lparr>htype := \<lambda>_. UV_NAMED_PIPE\<rparr>"

lemma named_loop_facts: "io_fd named_loop 7 < 0" "htype named_loop 7 = UV_NAMED_PIPE" "\<not> uv__is_closing named_loop 7"
  by (simp_all add: named_loop_def bare_loop_fields is_closing_iff has_flag_def)

theorem pipe_name_round_trip_witness:
  "\<exists>s1. uv_pipe_bind naming_kernel 7 (replicate 110 CHR ''a'') named_loop = Some (Inr (), s1) \<and>
    pipe_fname s1 7 = Some (replicate 110 CHR ''a'') \<and>
    uv_pipe_getsockname naming_kernel 7 [] 0 s1 = Some (Inl UV_ENOBUFS, [], 108, s1) \<and>
    uv_pipe_getsockname naming_kernel 7 (replicate 108 CHR ''x'') 108 s1 =
      Some (Inr (), replicate 107 CHR ''a'' @ [NUL], 107, s1)"
proof -
  let ?n = "replicate 110 CHR ''a''"
  have n: "?n \<noteq> []" "NUL \<notin> set ?n" by simp_all
  obtain s1 where s1: "uv_pipe_bind naming_kernel 7 ?n named_loop = Some (Inr (), s1)" "pipe_fname s1 7 = Some ?n"
    "\<And>buf sz. sz \<le> 107 \<Longrightarrow> uv_pipe_getsockname naming_kernel 7 buf sz s1 = Some (Inl UV_ENOBUFS, buf, 108, s1)"
    "\<And>buf sz. 107 < sz \<Longrightarrow> sz \<le> length buf \<Longrightarrow> uv_pipe_getsockname naming_kernel 7 buf sz s1 =
      Some (Inr (), take 107 ?n @ NUL # drop 108 buf, 107, s1)"
    using pipe_name_round_trip [OF naming_laws(1) n named_loop_facts naming_laws(2,3,4)] by (auto simp: Let_def)
  have "take 107 ?n = replicate 107 CHR ''a''" by (simp only: take_replicate) simp
  then show ?thesis using s1(1,2) s1(3) [of 0 "[]"] s1(4) [of 108 "replicate 108 CHR ''x''"]
    by (intro exI [of _ s1] conjI) (assumption | simp)+
qed

end
