(* ===== verification/PollHandle.thy ===== *)
theory PollHandle
  imports Core
begin

text \<open>
  src/unix/poll.c: poll handles, which watch a descriptor the user owns.  The callback of the user is a
  number, \<open>None\<close> for \<open>NULL\<close>, and running it is a parameter; a status is \<open>None\<close> for 0.  The lemmas show
  that starting a handle makes it wait for exactly the events asked for, and what the callback gets.
\<close>

section \<open>Operations\<close>

record 'w poll_handle_loop = "'w core_loop" +
  poll_cb :: "addr \<Rightarrow> nat option"

type_synonym 's call_poll = "nat \<Rightarrow> addr \<Rightarrow> uv_errno option \<Rightarrow> u32 \<Rightarrow> 's \<Rightarrow> 's option"

abbreviation lfdK :: "'w io_kernel \<Rightarrow> 'w fd_kernel" where "lfdK K \<equiv> fd_kernel.truncate K"
abbreviation UV_ENOTTY :: uv_errno where "UV_ENOTTY \<equiv> UV__ERR 25"
abbreviation UV_READABLE :: u32 where "UV_READABLE \<equiv> 1"
abbreviation UV_WRITABLE :: u32 where "UV_WRITABLE \<equiv> 2"
abbreviation UV_DISCONNECT :: u32 where "UV_DISCONNECT \<equiv> 4"
abbreviation UV_PRIORITIZED :: u32 where "UV_PRIORITIZED \<equiv> 8"
abbreviation UV_ALL_EVENTS :: u32 where
  "UV_ALL_EVENTS \<equiv> UV_READABLE OR UV_WRITABLE OR UV_DISCONNECT OR UV_PRIORITIZED"

text \<open>The events of \<open>poll\<close> as events of libuv, and back.\<close>

definition uv_events_of :: "u32 \<Rightarrow> u32" where
  "uv_events_of events =
     (let pevents = 0;
          pevents = (if events AND POLLIN \<noteq> 0 then pevents OR UV_READABLE else pevents);
          pevents = (if events AND POLLPRI \<noteq> 0 then pevents OR UV_PRIORITIZED else pevents);
          pevents = (if events AND POLLOUT \<noteq> 0 then pevents OR UV_WRITABLE else pevents)
      in if events AND POLLRDHUP \<noteq> 0 then pevents OR UV_DISCONNECT else pevents)"

definition poll_events_of :: "u32 \<Rightarrow> u32" where
  "poll_events_of pevents =
     (let events = 0;
          events = (if pevents AND UV_READABLE \<noteq> 0 then events OR POLLIN else events);
          events = (if pevents AND UV_PRIORITIZED \<noteq> 0 then events OR POLLPRI else events);
          events = (if pevents AND UV_WRITABLE \<noteq> 0 then events OR POLLOUT else events)
      in if pevents AND UV_DISCONNECT \<noteq> 0 then events OR POLLRDHUP else events)"

text \<open>Calling a \<open>NULL\<close> callback is a crash.\<close>

definition uv__poll_io ::
  "('w, 'a) poll_handle_loop_scheme call_poll \<Rightarrow> addr \<Rightarrow> u32 \<Rightarrow> ('w, 'a) poll_handle_loop_scheme \<Rightarrow>
    ('w, 'a) poll_handle_loop_scheme option" where
  "uv__poll_io U h events s =
     (if events AND POLLERR \<noteq> 0 \<and> events AND POLLPRI = 0 then do {
        s \<leftarrow> uv__io_stop h POLL_ALL s;
        let s = uv__handle_stop h s;
        cb \<leftarrow> poll_cb s h;
        U cb h (Some UV_EBADF) 0 s }
      else do {
        cb \<leftarrow> poll_cb s h;
        U cb h None (uv_events_of events) s })"

definition uv_poll_init ::
  "'w io_kernel \<Rightarrow> addr \<Rightarrow> int \<Rightarrow> ('w, 'a) poll_handle_loop_scheme \<Rightarrow>
    ((uv_errno + unit) \<times> ('w, 'a) poll_handle_loop_scheme) option" where
  "uv_poll_init K h fd s = do {
     there \<leftarrow> uv__fd_exists s fd;
     if there then Some (Inl UV_EEXIST, s)
     else do {
       (err, s) \<leftarrow> uv__io_check_fd K fd s;
       (case err of
          Inl e \<Rightarrow> Some (Inl e, s)
        | Inr _ \<Rightarrow> do {
            (err, s) \<leftarrow> sys_prog (uv__nonblock (lfdK K) fd True) s;
            (err, s) \<leftarrow> (if err = Inl UV_ENOTTY then sys_prog (uv__nonblock_fcntl (lfdK K) fd True) s
                         else Some (err, s));
            (case err of
               Inl e \<Rightarrow> Some (Inl e, s)
             | Inr _ \<Rightarrow> do {
                 let s = uv__handle_init h UV_POLL s;
                 s \<leftarrow> uv__io_init h UV__POLL_IO fd s;
                 Some (Inr (), s\<lparr>poll_cb := (poll_cb s)(h := None)\<rparr>) }) }) } }"

definition uv_poll_init_socket ::
  "'w io_kernel \<Rightarrow> addr \<Rightarrow> int \<Rightarrow> ('w, 'a) poll_handle_loop_scheme \<Rightarrow>
    ((uv_errno + unit) \<times> ('w, 'a) poll_handle_loop_scheme) option" where
  "uv_poll_init_socket K h socket s = uv_poll_init K h socket s"

definition uv__poll_stop ::
  "'w io_kernel \<Rightarrow> addr \<Rightarrow> ('w, 'a) io_loop_scheme \<Rightarrow> ('w, 'a) io_loop_scheme option" where
  "uv__poll_stop K h s = do {
     s \<leftarrow> uv__io_stop h POLL_ALL s;
     let s = uv__handle_stop h s;
     uv__platform_invalidate_fd K (io_fd s h) s }"

definition uv_poll_stop ::
  "'w io_kernel \<Rightarrow> addr \<Rightarrow> ('w, 'a) io_loop_scheme \<Rightarrow> ('w, 'a) io_loop_scheme option" where
  "uv_poll_stop K h s = do { uv_assert (\<not> uv__is_closing s h); uv__poll_stop K h s }"

definition uv_poll_start ::
  "'w io_kernel \<Rightarrow> addr \<Rightarrow> u32 \<Rightarrow> nat option \<Rightarrow> ('w, 'a) poll_handle_loop_scheme \<Rightarrow>
    ((uv_errno + unit) \<times> ('w, 'a) poll_handle_loop_scheme) option" where
  "uv_poll_start K h pevents cb s = do {
     uv_assert (pevents AND NOT UV_ALL_EVENTS = 0);
     uv_assert (\<not> uv__is_closing s h);
     there \<leftarrow> uv__fd_exists s (io_fd s h);
     if there \<and> watcher_at s (io_fd s h) \<noteq> Some (SWatch h) then Some (Inl UV_EEXIST, s)
     else do {
       s \<leftarrow> uv__poll_stop K h s;
       if pevents = 0 then Some (Inr (), s)
       else do {
         s \<leftarrow> uv__io_start K h (poll_events_of pevents) s;
         let s = uv__handle_start h s;
         Some (Inr (), s\<lparr>poll_cb := (poll_cb s)(h := cb)\<rparr>) } } }"

definition uv__poll_close ::
  "'w io_kernel \<Rightarrow> addr \<Rightarrow> ('w, 'a) io_loop_scheme \<Rightarrow> ('w, 'a) io_loop_scheme option" where
  "uv__poll_close K h s = uv__poll_stop K h s"

section \<open>The two tables of events\<close>

lemma one_bit: "(m :: u32) AND 2 ^ n = (if bit m n then 2 ^ n else 0)"
  by (rule bit_eqI) (auto simp: bit_simps)

lemma poll_table:
  "poll_events_of m AND NOT POLL_ALL = 0" "poll_events_of m = 0 \<longleftrightarrow> m AND UV_ALL_EVENTS = 0"
  "uv_events_of (poll_events_of m) = m AND UV_ALL_EVENTS"
proof -
  have b: "m AND 1 = (if bit m 0 then 1 else 0)" "m AND 2 = (if bit m 1 then 2 else 0)" "m AND 4 = (if bit m 2 then 4 else 0)"
    "m AND 8 = (if bit m 3 then 8 else 0)"
    using one_bit [of m 0] one_bit [of m 1] one_bit [of m 2] one_bit [of m 3] by simp_all
  have all: "m AND UV_ALL_EVENTS = (m AND 1) OR (m AND 2) OR (m AND 4) OR (m AND 8)"
    by (simp only: bit.conj_disj_distrib or.assoc)
  show "poll_events_of m AND NOT POLL_ALL = 0" "poll_events_of m = 0 \<longleftrightarrow> m AND UV_ALL_EVENTS = 0"
    "uv_events_of (poll_events_of m) = m AND UV_ALL_EVENTS"
    unfolding all poll_events_of_def uv_events_of_def Let_def b by simp_all
qed

lemma few_bits:
  "(m :: u32) AND 1 = (if bit m 0 then 1 else 0)" "m AND 2 = (if bit m 1 then 2 else 0)" "m AND 4 = (if bit m 2 then 4 else 0)"
  "m AND 8 = (if bit m 3 then 8 else 0)" "m AND 0x2000 = (if bit m 13 then 0x2000 else 0)"
  using one_bit [of m 0] one_bit [of m 1] one_bit [of m 2] one_bit [of m 3] one_bit [of m 13] by simp_all

lemma poll_events_bits:
  "bit (poll_events_of m) 0 = bit m 0" "bit (poll_events_of m) 1 = bit m 3" "bit (poll_events_of m) 2 = bit m 1"
  "bit (poll_events_of m) 13 = bit m 2" "\<not> bit (poll_events_of m) 3" "\<not> bit (poll_events_of m) 4"
  unfolding poll_events_of_def Let_def few_bits by simp_all

lemma asked_of_given:
  assumes "bit e 0 \<longrightarrow> bit m 0" "bit e 1 \<longrightarrow> bit m 3" "bit e 2 \<longrightarrow> bit m 1" "bit e 13 \<longrightarrow> bit m 2"
  shows "uv_events_of e AND NOT m = 0"
proof -
  have c: "(a OR b) AND NOT m = 0 \<longleftrightarrow> a AND NOT m = 0 \<and> b AND NOT m = 0" for a b
    by (simp add: bit.conj_disj_distrib2 or_eq_0_iff)
  have n: "1 AND NOT m = (if bit m 0 then 0 else 1)" "2 AND NOT m = (if bit m 1 then 0 else 2)"
    "4 AND NOT m = (if bit m 2 then 0 else 4)" "8 AND NOT m = (if bit m 3 then 0 else 8)"
    using few_bits [of "NOT m"] by (simp_all add: and.commute bit_simps)
  show ?thesis
    using assms unfolding uv_events_of_def Let_def few_bits by (auto simp: c n)
qed

lemma given_bits:
  assumes "n \<in> {0, 1, 2, 13}" "bit (given_events pe ev) n"
  shows "bit pe n"
proof -
  have "\<not> bit (8 :: u32) n" "\<not> bit (16 :: u32) n" "\<not> bit (24 :: u32) n" using assms(1) by auto
  then show ?thesis using assms(2) by (auto simp: given_events_def Let_def bit_or_iff bit_and_iff split: if_splits)
qed

section \<open>Stopping and starting\<close>

text \<open>A watcher of the descriptor of \<open>h\<close> that waits for something has the cell of the descriptor.\<close>

definition poll_registered :: "('w, 'a) io_loop_scheme \<Rightarrow> addr \<Rightarrow> bool" where
  "poll_registered s h \<longleftrightarrow> (io_pevents s h = 0 \<longrightarrow> io_events s h = 0) \<and> io_pevents s h AND NOT POLL_ALL = 0 \<and>
     (\<forall>v. io_fd s v = io_fd s h \<and> io_pevents s v \<noteq> 0 \<longrightarrow>
        io_fd s h < uint (nwatchers s) \<and> watcher_at s (io_fd s h) = Some (SWatch v))"

lemma poll_registeredI:
  assumes "io_pevents s h = 0 \<Longrightarrow> io_events s h = 0" "io_pevents s h AND NOT POLL_ALL = 0"
    and alone: "\<And>v. v \<noteq> h \<Longrightarrow> io_fd s v = io_fd s h \<Longrightarrow> io_pevents s v = 0"
    and cell: "io_pevents s h \<noteq> 0 \<Longrightarrow> io_fd s h < uint (nwatchers s) \<and> watcher_at s (io_fd s h) = Some (SWatch h)"
  shows "poll_registered s h"
proof -
  have "v = h" if "io_fd s v = io_fd s h \<and> io_pevents s v \<noteq> 0" for v using alone that by blast
  then show ?thesis using assms(1,2) cell unfolding poll_registered_def by blast
qed

lemma io_stop_pevents:
  "uv__io_stop w e s = Some s' \<Longrightarrow> v \<noteq> w \<Longrightarrow> io_pevents s' v = io_pevents s v"
  by (auto simp: uv__io_stop_def Let_def set_watcher_at_def split: if_splits bind_splits)

lemma io_start_pevents:
  assumes "uv__io_start K w e s = Some s'" "v \<noteq> w"
  shows "io_pevents s' v = io_pevents s v"
proof -
  have m: "io_pevents t' = io_pevents t" if "maybe_resize K l t = Some t'" for l t t'
    using that unfolding maybe_resize_def Let_def by (auto simp: sys_def split: if_splits prod.splits)
  show ?thesis using assms unfolding uv__io_start_def Let_def
    by (auto simp: set_watcher_at_def split: if_splits bind_splits dest!: m)
qed

lemma fd_index: "0 \<le> fd \<Longrightarrow> nat fd < unat (n :: u32) \<longleftrightarrow> fd < uint n"
  by (simp only: unat_eq_nat_uint nat_less_eq_zless)

lemma and_not_zero: "(a :: u32) AND b = a" if "a AND NOT b = 0"
proof -
  have "a AND (b OR NOT b) = (a AND b) OR (a AND NOT b)" by (rule bit.conj_disj_distrib)
  then show ?thesis using that by simp
qed

lemma fd_exists_cell:
  assumes "io_ok s" "0 \<le> fd" "fd < 2 ^ 31 - 3"
  shows "uv__fd_exists s fd = Some (fd < uint (nwatchers s) \<and> watcher_at s fd \<noteq> Some SNull)"
proof -
  have f: "uint (word_of_int fd :: u32) = fd" using assms(2,3) by (simp add: uint_word_of_int_eq take_bit_int_eq_self)
  show ?thesis
  proof (cases "fd < uint (nwatchers s)")
    case True
    then obtain ws where ws: "watchers s = Some ws" using assms by (cases "watchers s") (auto simp: io_ok_def)
    have "nat fd < unat (nwatchers s)" using fd_index [OF assms(2)] True by blast
    then have "nat fd < length ws" using io_okD(2) [OF assms(1) ws] by linarith
    then show ?thesis using True f ws by (simp add: uv__fd_exists_def word_less_def watcher_at_def)
  qed (simp add: uv__fd_exists_def word_less_def f)
qed

lemma invalidate_ok:
  assumes "io_ok s" "watchers s \<noteq> None" "0 \<le> fd"
  shows "\<exists>s'. uv__platform_invalidate_fd K fd s = Some s' \<and> s' = s\<lparr>poll_events := poll_events s', os := os s'\<rparr>"
proof -
  obtain ws where ws: "watchers s = Some ws" using assms(2) by blast
  note b = io_okD(1,2) [OF assms(1) ws]
  have n1: "unat (nwatchers s + 1) = unat (nwatchers s) + 1" using b(1) by (simp add: unat_add_lem [THEN iffD1])
  have c: "watcher_at s (uint (nwatchers s)) = Some (ws ! unat (nwatchers s))"
    "watcher_at s (uint (nwatchers s + 1)) = Some (ws ! (unat (nwatchers s) + 1))"
    using b(2) n1 by (simp_all add: watcher_at_def ws unat_eq_nat_uint [symmetric])
  show ?thesis
    using assms(2,3) by (auto simp: uv__platform_invalidate_fd_def c sys_case Let_def split: slot.splits)
qed

lemma io_stop_all:
  assumes ok: "io_ok s" and ws: "watchers s \<noteq> None" and fd: "0 \<le> io_fd s h" and reg: "poll_registered s h"
  shows "\<exists>s'. uv__io_stop h POLL_ALL s = Some s' \<and> io_ok s' \<and> io_pevents s' h = 0 \<and> io_events s' h = 0 \<and>
    io_fd s' = io_fd s \<and> watchers s' \<noteq> None \<and> io_touched s s'"
proof (cases "io_fd s h < uint (nwatchers s)")
  case True
  have e: "POLL_ALL AND NOT POLL_ALL = 0" "POLL_ALL \<noteq> 0" by simp_all
  obtain s' where s': "uv__io_stop h POLL_ALL s = Some s'" "io_ok s'" "io_touched s s'"
    "io_pevents s' h = io_pevents s h AND NOT POLL_ALL" "io_fd s' = io_fd s" "io_pevents s' h = 0 \<longrightarrow> io_events s' h = 0"
    using io_stop_run [OF ok e fd True] by metis
  have "watchers s' \<noteq> None" using s'(1) ws
    by (auto simp: uv__io_stop_def Let_def set_watcher_at_def split: if_splits bind_splits)
  then show ?thesis using s' reg by (simp add: poll_registered_def)
next
  case False
  then have "uv__io_stop h POLL_ALL s = Some s" using fd by (auto simp: uv__io_stop_def)
  then show ?thesis using ok ws reg False by (auto simp: poll_registered_def)
qed

lemma io_ok_same:
  assumes "watchers s' = watchers s" "nwatchers s' = nwatchers s" "nfds s' = nfds s" "io_fd s' = io_fd s"
    "io_pevents s' = io_pevents s"
  shows "io_ok s' = io_ok s"
  using assms by (simp add: io_ok_def io_cells_def cong: option.case_cong)

lemma handle_stop_io:
  "io_fd (uv__handle_stop h s) = io_fd s" "io_pevents (uv__handle_stop h s) = io_pevents s"
  "io_events (uv__handle_stop h s) = io_events s" "watchers (uv__handle_stop h s) = watchers s"
  "nwatchers (uv__handle_stop h s) = nwatchers s" "nfds (uv__handle_stop h s) = nfds s"
  by (simp_all add: handle_defs clear_flag_def)

lemma handle_start_io:
  "io_fd (uv__handle_start h s) = io_fd s" "io_pevents (uv__handle_start h s) = io_pevents s"
  "io_events (uv__handle_start h s) = io_events s" "watchers (uv__handle_start h s) = watchers s"
  "nwatchers (uv__handle_start h s) = nwatchers s" "nfds (uv__handle_start h s) = nfds s"
  by (simp_all add: handle_defs set_flag_def)

lemma poll_stop_ok:
  assumes ok: "io_ok s" and ws: "watchers s \<noteq> None" and fd: "0 \<le> io_fd s h" and reg: "poll_registered s h"
  shows "\<exists>s'. uv__poll_stop K h s = Some s' \<and> io_ok s' \<and> io_pevents s' h = 0 \<and> io_events s' h = 0 \<and>
    (\<forall>v. v \<noteq> h \<longrightarrow> io_pevents s' v = io_pevents s v) \<and> io_fd s' = io_fd s \<and> \<not> uv__is_active s' h"
proof -
  obtain s1 where s1: "uv__io_stop h POLL_ALL s = Some s1" "io_ok s1" "io_pevents s1 h = 0" "io_events s1 h = 0" "io_fd s1 = io_fd s"
    "watchers s1 \<noteq> None"
    using io_stop_all [OF assms] by blast
  let ?t = "uv__handle_stop h s1"
  have ok2: "io_ok ?t" using io_ok_same [of ?t s1] s1(2) by (simp add: handle_stop_io)
  have "watchers ?t \<noteq> None" using s1(6) by (simp add: handle_stop_io)
  from invalidate_ok [OF ok2 this fd, of K] obtain s' where s': "uv__platform_invalidate_fd K (io_fd s h) ?t = Some s'"
    "s' = ?t\<lparr>poll_events := poll_events s', os := os s'\<rparr>" by (elim exE conjE)
  have f: "flags s' = flags ?t" "io_fd s' = io_fd ?t" "io_pevents s' = io_pevents ?t" "io_events s' = io_events ?t" "watchers s' = watchers ?t"
    "nwatchers s' = nwatchers ?t" "nfds s' = nfds ?t"
    by (subst s'(2); simp)+
  have "uv__poll_stop K h s = Some s'" using s1(1,5) s'(1) by (simp add: uv__poll_stop_def handle_stop_io)
  moreover have "io_ok s'" using io_ok_same [OF f(5-7) f(2,3)] ok2 by simp
  moreover have "\<not> uv__is_active s' h"
    unfolding uv__is_active_def has_flag_frame [OF f(1)] by (simp add: flag_simps)
  ultimately show ?thesis using s1(3-5) io_stop_pevents [OF s1(1)] f by (simp add: handle_stop_io)
qed

lemma io_start_room:
  assumes ok: "io_ok s" and ev: "events AND NOT POLL_ALL = 0" "events \<noteq> 0"
    and fd: "0 \<le> io_fd s w" "io_fd s w < 2 ^ 31 - 3" and mem: "\<And>n w. fst (k_realloc K n w)"
    and run: "uv__io_start K w events s = Some s'"
  shows "io_fd s w < uint (nwatchers s')"
proof -
  obtain s2 where 2: "maybe_resize K (word_of_int (io_fd s w + 1))
      (s\<lparr>io_pevents := (io_pevents s)(w := io_pevents s w OR events)\<rparr>) = Some s2" "nat (io_fd s w) < unat (nwatchers s2)"
    by (rule io_start_first [OF ok ev fd mem]) blast
  have "nwatchers s' = nwatchers s2"
    using run 2(1) by (auto simp: uv__io_start_def Let_def set_watcher_at_def split: if_splits bind_splits)
  then show ?thesis using 2(2) fd_index [OF fd(1)] by metis
qed

lemma poll_started:
  assumes ok: "io_ok s" and fd: "0 \<le> io_fd s h" "io_fd s h < 2 ^ 31 - 3" and mem: "\<And>n w. fst (k_realloc K n w)"
    and idle: "io_pevents s h = 0" "io_events s h = 0" and e: "events AND NOT POLL_ALL = 0" "events \<noteq> 0"
    and alone: "\<And>v. v \<noteq> h \<Longrightarrow> io_fd s v = io_fd s h \<Longrightarrow> io_pevents s v = 0"
  shows "\<exists>s'. uv__io_start K h events s = Some s' \<and> io_ok s' \<and> io_pevents s' h = events \<and> io_fd s' = io_fd s \<and>
    watcher_at s' (io_fd s h) = Some (SWatch h) \<and> poll_registered s' h"
proof -
  have new: "io_events s h \<noteq> io_pevents s h OR events" using idle e(2) by simp
  obtain s' x where s': "uv__io_start K h events s = Some s'" "io_ok s'" "io_pevents s' h = events"
    "watcher_at s' (io_fd s h) = Some (SWatch x)" "io_fd s' x = io_fd s h" "io_fd s' = io_fd s"
    using io_start_run [OF ok e fd mem new] idle(1) by auto
  note room = io_start_room [OF ok e fd mem s'(1)]
  have others: "io_pevents s' v = 0" if "v \<noteq> h" "io_fd s v = io_fd s h" for v
    using alone [OF that] io_start_pevents [OF s'(1) that(1)] by simp
  have "x = h"
  proof (rule ccontr)
    assume n: "x \<noteq> h"
    obtain ws where ws: "watchers s' = Some ws" using s'(4) by (auto simp: watcher_at_def split: option.splits)
    have "nat (io_fd s h) < unat (nwatchers s')"
      using fd_index [OF fd(1)] room by blast
    from io_okD(4) [OF s'(2) ws this] s'(4) ws have "io_pevents s' x \<noteq> 0"
      by (auto simp: watcher_at_def split: if_splits)
    then show False using others [OF n] s'(5,6) by simp
  qed
  moreover have "poll_registered s' h"
    by (rule poll_registeredI) (use s' others room e \<open>x = h\<close> in simp_all)
  ultimately show ?thesis using s' by blast
qed

section \<open>Properties\<close>

text \<open>
  C28: \<open>uv_poll_start\<close> returns.  If another watcher has the descriptor it is refused with \<open>EEXIST\<close> and nothing
  changes; otherwise the handle, whatever it waited for before, then waits for exactly the events asked for and
  has the cell of its descriptor, or is stopped if none are asked for.
\<close>

theorem poll_start_asks:
  assumes "io_ok s" and "watchers s \<noteq> None" and "0 \<le> io_fd s h" and "io_fd s h < 2 ^ 31 - 3" and "poll_registered s h"
    and "\<not> uv__is_closing s h" and "pevents AND NOT UV_ALL_EVENTS = 0" and "\<And>n w. fst (k_realloc K n w)"
  shows "\<exists>r s'. uv_poll_start K h pevents cb s = Some (r, s') \<and> io_ok s' \<and> poll_registered s' h \<and>
    (if io_fd s h < uint (nwatchers s) \<and> watcher_at s (io_fd s h) \<notin> {Some SNull, Some (SWatch h)}
     then r = Inl UV_EEXIST \<and> s' = s
     else r = Inr () \<and> uv_events_of (io_pevents s' h) = pevents \<and> (uv__is_active s' h \<longleftrightarrow> pevents \<noteq> 0) \<and>
       (pevents \<noteq> 0 \<longrightarrow> watcher_at s' (io_fd s h) = Some (SWatch h) \<and> poll_cb s' h = cb))"
proof -
  have pe: "pevents AND UV_ALL_EVENTS = pevents"
    by (rule and_not_zero [OF assms(7)])
  note there = fd_exists_cell [OF assms(1,3,4)]
  let ?other = "io_fd s h < uint (nwatchers s) \<and> watcher_at s (io_fd s h) \<notin> {Some SNull, Some (SWatch h)}"
  show ?thesis
  proof (cases ?other)
    case True
    then have "uv_poll_start K h pevents cb s = Some (Inl UV_EEXIST, s)"
      using assms(6,7) by (simp add: uv_poll_start_def there)
    then show ?thesis using True assms(1,5) by simp
  next
    case False
    obtain s1 where s1: "uv__poll_stop K h s = Some s1" "io_ok s1" "io_pevents s1 h = 0" "io_events s1 h = 0"
      "\<And>v. v \<noteq> h \<Longrightarrow> io_pevents s1 v = io_pevents s v" "io_fd s1 = io_fd s" "\<not> uv__is_active s1 h"
      using poll_stop_ok [OF assms(1-3,5), of K] by blast
    have run: "uv_poll_start K h pevents cb s = (if pevents = 0 then Some (Inr (), s1) else do {
         s \<leftarrow> uv__io_start K h (poll_events_of pevents) s1;
         let s = uv__handle_start h s;
         Some (Inr (), s\<lparr>poll_cb := (poll_cb s)(h := cb)\<rparr>) })"
      using assms(6,7) False by (auto simp: uv_poll_start_def there s1(1))
    have alone: "io_pevents s1 v = 0" if "v \<noteq> h" "io_fd s1 v = io_fd s1 h" for v
      using that assms(5) False s1(5,6) by (fastforce simp: poll_registered_def)
    show ?thesis
    proof (cases "pevents = 0")
      case True
      have "poll_registered s1 h" by (rule poll_registeredI) (use s1(3,4) alone in simp_all)
      then show ?thesis using True run s1 False
        by (intro exI [of _ "Inr ()"] exI [of _ s1]) (simp add: uv_events_of_def)
    next
      case nz: False
      have e: "poll_events_of pevents AND NOT POLL_ALL = 0" "poll_events_of pevents \<noteq> 0"
        using poll_table(1,2) [of pevents] pe nz by simp_all
      obtain s2 where s2: "uv__io_start K h (poll_events_of pevents) s1 = Some s2" "io_ok s2" "io_pevents s2 h = poll_events_of pevents"
        "io_fd s2 = io_fd s" "watcher_at s2 (io_fd s h) = Some (SWatch h)" "poll_registered s2 h"
        using poll_started [OF s1(2) _ _ assms(8) s1(3,4) e alone] assms(3,4) s1(6) by auto
      let ?t = "(uv__handle_start h s2)\<lparr>poll_cb := (poll_cb (uv__handle_start h s2))(h := cb)\<rparr>"
      have r: "uv_poll_start K h pevents cb s = Some (Inr (), ?t)" using run nz s2(1) by (simp add: Let_def)
      have f: "io_fd ?t = io_fd s2" "io_pevents ?t = io_pevents s2" "io_events ?t = io_events s2" "watchers ?t = watchers s2"
        "nwatchers ?t = nwatchers s2" "nfds ?t = nfds s2" by (simp_all add: handle_start_io)
      have reg: "poll_registered ?t h" "watcher_at ?t (io_fd s h) = Some (SWatch h)"
        using s2(5,6) f by (simp_all add: poll_registered_def watcher_at_def)
      have act: "uv__is_active ?t h"
        by (simp add: uv__is_active_def has_flag_def) (simp add: handle_defs set_flag_def has_flag_def flag_or)
      have ok: "io_ok ?t" using io_ok_same [OF f(4-6,1,2)] s2(2) by simp
      show ?thesis using r ok reg act False nz poll_table(3) [of pevents] pe f(2) s2(3)
        by (intro exI [of _ "Inr ()"] exI [of _ ?t]) simp
    qed
  qed
qed

text \<open>A loop with room for six descriptors, and a poll handle for descriptor 5 that waits for nothing.\<close>

definition demo_poll_handles :: "unit poll_handle_loop" where
  "demo_poll_handles = (bare_core () 5 (poll_handle_loop.fields (\<lambda>_. None)))
     \<lparr>watchers := Some (replicate 8 SNull), nwatchers := 6, io_fd := (\<lambda>_. -1)(7 := 5)\<rparr>"

lemma demo_poll_handles_fields:
  "watchers demo_poll_handles = Some (replicate 8 SNull)" "nwatchers demo_poll_handles = 6" "io_fd demo_poll_handles = (\<lambda>_. -1)(7 := 5)"
  "io_pevents demo_poll_handles = (\<lambda>_. 0)" "io_events demo_poll_handles = (\<lambda>_. 0)" "nfds demo_poll_handles = 0"
  "flags demo_poll_handles = (\<lambda>_. 0)" "poll_cb demo_poll_handles = (\<lambda>_. None)"
  by (simp_all add: demo_poll_handles_def bare_core_def empty_watcher_loop_def watcher_loop.defs io_loop.defs poll_loop.defs
      async_loop.defs core_loop.defs poll_handle_loop.defs)

lemma demo_poll_handles_ok: "io_ok demo_poll_handles" "poll_registered demo_poll_handles 7" "\<not> uv__is_closing demo_poll_handles 7"
proof -
  have "{i. i < 6 \<and> replicate 8 SNull ! i \<noteq> SNull} = {}" by (auto simp: nth_replicate)
  then show "io_ok demo_poll_handles" by (simp add: io_ok_def io_cells_def demo_poll_handles_fields)
qed (simp_all add: poll_registered_def is_closing_iff has_flag_def demo_poll_handles_fields)

theorem poll_start_asks_witness:
  "\<exists>s'. uv_poll_start quiet_kernel 7 (UV_READABLE OR UV_PRIORITIZED) (Some 1) demo_poll_handles = Some (Inr (), s') \<and>
    uv_events_of (io_pevents s' 7) = 9 \<and> uv__is_active s' 7 \<and> watcher_at s' 5 = Some (SWatch 7)"
proof -
  have mem: "fst (k_realloc quiet_kernel n w)" for n w by (simp add: quiet_kernel_def fd_kernel.defs io_kernel.defs)
  have f: "watchers demo_poll_handles \<noteq> None" "0 \<le> io_fd demo_poll_handles 7" "io_fd demo_poll_handles 7 < 2 ^ 31 - 3"
    "watcher_at demo_poll_handles 5 = Some SNull" "io_fd demo_poll_handles 7 = 5"
    by (simp_all add: demo_poll_handles_fields watcher_at_def)
  have e: "(9 :: u32) AND NOT UV_ALL_EVENTS = 0" by simp
  show ?thesis
    using poll_start_asks [OF demo_poll_handles_ok(1) f(1-3) demo_poll_handles_ok(2,3) e mem, of "Some 1"] f(4,5) by auto
qed

text \<open>
  C29: The callback of a poll handle is called once for what epoll reports, and only with events that were asked
  for; an error of the descriptor is reported as \<open>EBADF\<close> after the handle has been stopped.
\<close>

theorem poll_reports_what_was_asked:
  assumes "io_ok s" and "watchers s \<noteq> None" and "0 \<le> io_fd s h" and "poll_registered s h" and "poll_cb s h = Some cb"
    and "io_pevents s h = poll_events_of m" and "e = given_events (io_pevents s h) ev"
  shows "if e AND POLLERR \<noteq> 0 \<and> e AND POLLPRI = 0
    then \<exists>s1. uv__poll_io U h e s = U cb h (Some UV_EBADF) 0 s1 \<and> io_pevents s1 h = 0 \<and> \<not> uv__is_active s1 h \<and> io_ok s1
    else uv__poll_io U h e s = U cb h None (uv_events_of e) s \<and> uv_events_of e AND NOT m = 0"
proof (cases "e AND POLLERR \<noteq> 0 \<and> e AND POLLPRI = 0")
  case True
  obtain s1 where s1: "uv__io_stop h POLL_ALL s = Some s1" "io_ok s1" "io_pevents s1 h = 0" "io_touched s s1"
    using io_stop_all [OF assms(1-4)] by blast
  let ?t = "uv__handle_stop h s1"
  have cb: "poll_cb ?t h = Some cb"
    by (subst handle_stop_eq, simp, subst s1(4) [unfolded io_touched_def], simp add: assms(5))
  have "uv__poll_io U h e s = U cb h (Some UV_EBADF) 0 ?t" using True s1(1) cb by (simp add: uv__poll_io_def)
  moreover have "\<not> uv__is_active ?t h" by (simp add: uv__is_active_def flag_simps)
  moreover have "io_ok ?t" using io_ok_same [of ?t s1] s1(2) by (simp add: handle_stop_io)
  ultimately show ?thesis unfolding if_P [OF True] using s1(3)
    by (intro exI [of _ ?t]) (simp add: handle_stop_io)
next
  case False
  have "uv_events_of e AND NOT m = 0"
    using given_bits [of _ "io_pevents s h" ev] poll_events_bits [of m] assms(6,7) by (intro asked_of_given) auto
  moreover have "uv__poll_io U h e s = U cb h None (uv_events_of e) s"
    unfolding uv__poll_io_def if_not_P [OF False] by (simp add: assms(5))
  ultimately show ?thesis unfolding if_not_P [OF False] by simp
qed

theorem poll_reports_what_was_asked_witness:
  "uv__poll_io (\<lambda>cb h st ev s. Some (s\<lparr>poll_cb := (\<lambda>_. Some (unat ev))\<rparr>)) 7 (given_events POLLIN (POLLIN OR POLLOUT))
      (demo_poll_handles\<lparr>poll_cb := \<lambda>_. Some 1, io_pevents := (\<lambda>_. 0)(7 := POLLIN), watchers := Some ((replicate 8 SNull)[5 := SWatch 7]),
         nfds := 1\<rparr>) =
    Some (demo_poll_handles\<lparr>poll_cb := \<lambda>_. Some 1, io_pevents := (\<lambda>_. 0)(7 := POLLIN),
      watchers := Some ((replicate 8 SNull)[5 := SWatch 7]), nfds := 1\<rparr>)"
proof -
  let ?s = "demo_poll_handles\<lparr>poll_cb := \<lambda>_. Some 1, io_pevents := (\<lambda>_. 0)(7 := POLLIN),
    watchers := Some ((replicate 8 SNull)[5 := SWatch 7]), nfds := 1\<rparr>"
  have c: "{i. i < 6 \<and> (replicate 8 SNull)[5 := SWatch 7] ! i \<noteq> SNull} = {5}" by (auto simp: nth_list_update nth_replicate)
  have ok: "io_ok ?s" using c
    by (auto simp: io_ok_def io_cells_def demo_poll_handles_fields nth_list_update nth_replicate)
  have reg: "poll_registered ?s 7"
    by (rule poll_registeredI) (auto simp: demo_poll_handles_fields watcher_at_def split: if_splits)
  have f: "watchers ?s \<noteq> None" "0 \<le> io_fd ?s 7" "poll_cb ?s 7 = Some 1" "io_pevents ?s 7 = poll_events_of 1"
    by (simp_all add: demo_poll_handles_fields poll_events_of_def)
  have p: "io_pevents ?s 7 = 1" by simp
  have g: "given_events 1 (POLLIN OR POLLOUT) = 1" by (simp add: given_events_def)
  show ?thesis
    using poll_reports_what_was_asked [OF ok f(1,2) reg f(3,4) refl, of "POLLIN OR POLLOUT" "\<lambda>cb h st ev s. Some (s\<lparr>poll_cb := (\<lambda>_. Some (unat ev))\<rparr>)"]
    unfolding p g by (simp add: uv_events_of_def)
qed

end
