(* ===== verification/FsPoll.thy ===== *)
theory FsPoll
  imports Core Strings
begin

text \<open>
  src/fs-poll.c: handles that poll a path with \<open>stat\<close>, and what it uses of src/unix/fs.c (\<open>uv_fs_stat\<close> with
  a callback and \<open>uv__fs_done\<close>).  A context, its timer and its request have one address; \<open>ctx_live\<close>
  are the contexts that are allocated - a function that uses or frees another one has no result -, \<open>fs_pending\<close> the requests the thread pool has.  What \<open>stat\<close>
  found is an argument of \<open>uv__fs_done\<close>.  The callbacks of the file are the numbers
  \<open>TIMER_CB\<close> and \<open>TIMER_CLOSE_CB\<close>.

  The lemmas show which results the user hears of, and that the contexts of a handle that is closed are all
  freed, the handle being done with the last; and that a handle that is started again before the
  \<open>stat\<close> of its last period is back ends the process.
\<close>

section \<open>State\<close>

record timespec = tv_sec :: int  tv_nsec :: int

record uv_stat_t =
  st_dev :: u64  st_mode :: u64  st_nlink :: u64  st_uid :: u64  st_gid :: u64  st_rdev :: u64  st_ino :: u64
  st_size :: u64  st_blksize :: u64  st_blocks :: u64  st_flags :: u64  st_gen :: u64
  st_atim :: timespec  st_mtim :: timespec  st_ctim :: timespec  st_birthtim :: timespec

definition zero_statbuf :: uv_stat_t where
  "zero_statbuf = (let z = \<lparr>tv_sec = 0, tv_nsec = 0\<rparr> in
     \<lparr>st_dev = 0, st_mode = 0, st_nlink = 0, st_uid = 0, st_gid = 0, st_rdev = 0, st_ino = 0, st_size = 0, st_blksize = 0,
      st_blocks = 0, st_flags = 0, st_gen = 0, st_atim = z, st_mtim = z, st_ctim = z, st_birthtim = z\<rparr>)"

record 'w fs_poll_loop = "'w core_loop" +
  poll_ctx :: "addr \<Rightarrow> ptr"
  ctx_parent :: "addr \<Rightarrow> addr"
  ctx_busy :: "addr \<Rightarrow> int"
  ctx_interval :: "addr \<Rightarrow> u32"
  ctx_start :: "addr \<Rightarrow> u64"
  ctx_cb :: "addr \<Rightarrow> nat option"
  ctx_statbuf :: "addr \<Rightarrow> uv_stat_t"
  ctx_previous :: "addr \<Rightarrow> ptr"
  ctx_path :: "addr \<Rightarrow> string"
  ctx_live :: "addr set"
  fs_pending :: "addr set"

record 'w fs_poll_kernel = "'w io_kernel" +
  k_calloc :: "nat \<Rightarrow> 'w \<Rightarrow> ptr \<times> 'w"
  k_strdup :: "string \<Rightarrow> 'w \<Rightarrow> bool \<times> 'w"

text \<open>The callback of the user gets the handle, the status and two buffers.\<close>

type_synonym 's call_fs_poll = "nat \<Rightarrow> addr \<Rightarrow> int \<Rightarrow> uv_stat_t \<Rightarrow> uv_stat_t \<Rightarrow> 's \<Rightarrow> 's option"

record 's fs_poll_calls = "'s loop_calls" +
  call_fs_poll :: "'s call_fs_poll"
  relax :: "'s \<Rightarrow> 's"

abbreviation calls_of :: "'s fs_poll_calls \<Rightarrow> 's loop_calls" where "calls_of U \<equiv> loop_calls.truncate U"
abbreviation TIMER_CB :: nat where "TIMER_CB \<equiv> 0"
abbreviation TIMER_CLOSE_CB :: nat where "TIMER_CLOSE_CB \<equiv> 0"
abbreviation SIZEOF_POLL_CTX :: nat where "SIZEOF_POLL_CTX \<equiv> 800"

fun status_int :: "uv_errno option \<Rightarrow> int" where
  "status_int None = 0"
| "status_int (Some (UV__ERR n)) = - int n"

definition statbuf_eq :: "uv_stat_t \<Rightarrow> uv_stat_t \<Rightarrow> bool" where
  "statbuf_eq a b \<longleftrightarrow>
     tv_nsec (st_ctim a) = tv_nsec (st_ctim b) \<and> tv_nsec (st_mtim a) = tv_nsec (st_mtim b) \<and>
     tv_nsec (st_birthtim a) = tv_nsec (st_birthtim b) \<and> tv_sec (st_ctim a) = tv_sec (st_ctim b) \<and>
     tv_sec (st_mtim a) = tv_sec (st_mtim b) \<and> tv_sec (st_birthtim a) = tv_sec (st_birthtim b) \<and>
     st_size a = st_size b \<and> st_mode a = st_mode b \<and> st_uid a = st_uid b \<and> st_gid a = st_gid b \<and>
     st_ino a = st_ino b \<and> st_dev a = st_dev b \<and> st_flags a = st_flags b \<and> st_gen a = st_gen b"

section \<open>Requests\<close>

text \<open>\<open>INIT\<close>, \<open>PATH\<close> and \<open>POST\<close> of fs.c for a request with a callback.\<close>

definition uv_fs_stat ::
  "'w fs_poll_kernel \<Rightarrow> addr \<Rightarrow> string \<Rightarrow> ('w, 'a) fs_poll_loop_scheme \<Rightarrow> (uv_errno + unit) \<times> ('w, 'a) fs_poll_loop_scheme" where
  "uv_fs_stat K req path s =
     (case sys (k_strdup K path) s of
        (False, s) \<Rightarrow> (Inl UV_ENOMEM, s)
      | (True, s) \<Rightarrow> let s = uv__req_register s in (Inr (), s\<lparr>fs_pending := insert req (fs_pending s)\<rparr>))"

section \<open>Starting and stopping\<close>

definition uv_fs_poll_init :: "addr \<Rightarrow> ('w, 'a) fs_poll_loop_scheme \<Rightarrow> (uv_errno + unit) \<times> ('w, 'a) fs_poll_loop_scheme" where
  "uv_fs_poll_init h s =
     (let s = uv__handle_init h UV_FS_POLL s in (Inr (), s\<lparr>poll_ctx := (poll_ctx s)(h := None)\<rparr>))"

text \<open>The memory of \<open>calloc\<close> is zero, the other fields are stored.\<close>

definition new_ctx ::
  "addr \<Rightarrow> addr \<Rightarrow> nat option \<Rightarrow> string \<Rightarrow> u32 \<Rightarrow> ('w, 'a) fs_poll_loop_scheme \<Rightarrow> ('w, 'a) fs_poll_loop_scheme" where
  "new_ctx ctx h cb path interval s =
     s\<lparr>ctx_live := insert ctx (ctx_live s),
       ctx_busy := (ctx_busy s)(ctx := 0),
       ctx_statbuf := (ctx_statbuf s)(ctx := zero_statbuf),
       ctx_previous := (ctx_previous s)(ctx := None),
       ctx_cb := (ctx_cb s)(ctx := cb),
       ctx_interval := (ctx_interval s)(ctx := if interval \<noteq> 0 then interval else 1),
       ctx_start := (ctx_start s)(ctx := time s),
       ctx_parent := (ctx_parent s)(ctx := h),
       ctx_path := (ctx_path s)(ctx := path)\<rparr>"

text \<open>A context that is used or freed when it is not allocated ends the process: it is the value \<open>None\<close>.\<close>

definition free_ctx :: "addr \<Rightarrow> ('w, 'a) fs_poll_loop_scheme \<Rightarrow> ('w, 'a) fs_poll_loop_scheme option" where
  "free_ctx ctx s = do { uv_assert (ctx \<in> ctx_live s); Some (s\<lparr>ctx_live := ctx_live s - {ctx}\<rparr>) }"

definition uv_fs_poll_start ::
  "'w fs_poll_kernel \<Rightarrow> addr \<Rightarrow> nat option \<Rightarrow> string \<Rightarrow> u32 \<Rightarrow> ('w, 'a) fs_poll_loop_scheme \<Rightarrow>
    ((uv_errno + unit) \<times> ('w, 'a) fs_poll_loop_scheme) option" where
  "uv_fs_poll_start K h cb path interval s =
     (if uv__is_active s h then Some (Inr (), s)
      else (case sys (k_calloc K (SIZEOF_POLL_CTX + length path)) s of
        (None, s) \<Rightarrow> Some (Inl UV_ENOMEM, s)
      | (Some ctx, s) \<Rightarrow>
          let s = new_ctx ctx h cb path interval s;
              s = uv_timer_init ctx s;
              s = set_flag ctx UV_HANDLE_INTERNAL s;
              s = uv__handle_unref ctx s
          in case uv_fs_stat K ctx path s of
               (Inl e, s) \<Rightarrow> do { s \<leftarrow> free_ctx ctx s; Some (Inl e, s) }
             | (Inr _, s) \<Rightarrow>
                 let s = (if poll_ctx s h \<noteq> None then s\<lparr>ctx_previous := (ctx_previous s)(ctx := poll_ctx s h)\<rparr> else s);
                     s = s\<lparr>poll_ctx := (poll_ctx s)(h := Some ctx)\<rparr>
                 in Some (Inr (), uv__handle_start h s)))"

text \<open>A \<open>NULL\<close> context is an assertion that fails.\<close>

definition uv_fs_poll_stop ::
  "('w, 'a) fs_poll_loop_scheme fs_poll_calls \<Rightarrow> addr \<Rightarrow> ('w, 'a) fs_poll_loop_scheme \<Rightarrow> ('w, 'a) fs_poll_loop_scheme option" where
  "uv_fs_poll_stop U h s =
     (if \<not> uv__is_active s h then Some s
      else do {
        ctx \<leftarrow> poll_ctx s h;
        uv_assert (ctx \<in> ctx_live s);
        uv_assert (ctx_parent s ctx = h);
        s \<leftarrow> (if uv__is_active s ctx then uv_close (calls_of U) (relax U) ctx (Some TIMER_CLOSE_CB) s else Some s);
        Some (uv__handle_stop h s) })"

definition uv_fs_poll_getpath ::
  "addr \<Rightarrow> string \<Rightarrow> nat \<Rightarrow> ('w, 'a) fs_poll_loop_scheme \<Rightarrow> ((uv_errno + unit) \<times> string \<times> nat) option" where
  "uv_fs_poll_getpath h buffer sz s =
     (if \<not> uv__is_active s h then Some (Inl UV_EINVAL, buffer, 0)
      else do {
        ctx \<leftarrow> poll_ctx s h;
        uv_assert (ctx \<in> ctx_live s);
        let required_len = length (ctx_path s ctx);
        if required_len \<ge> sz then Some (Inl UV_ENOBUFS, buffer, required_len + 1)
        else Some (Inr (), (ctx_path s ctx @ drop required_len buffer)[required_len := NUL], required_len) })"

definition uv__fs_poll_close ::
  "('w, 'a) fs_poll_loop_scheme fs_poll_calls \<Rightarrow> addr \<Rightarrow> ('w, 'a) fs_poll_loop_scheme \<Rightarrow> ('w, 'a) fs_poll_loop_scheme option" where
  "uv__fs_poll_close U h s = do {
     s \<leftarrow> uv_fs_poll_stop U h s;
     if poll_ctx s h = None then uv__make_close_pending h s else Some s }"

section \<open>The callbacks of the contexts\<close>

definition timer_cb_fn ::
  "'w fs_poll_kernel \<Rightarrow> addr \<Rightarrow> ('w, 'a) fs_poll_loop_scheme \<Rightarrow> ('w, 'a) fs_poll_loop_scheme option" where
  "timer_cb_fn K ctx s = do {
     uv_assert (ctx \<in> ctx_live s);
     uv_assert (poll_ctx s (ctx_parent s ctx) = Some ctx);
     let s = s\<lparr>ctx_start := (ctx_start s)(ctx := time s)\<rparr>;
     (case uv_fs_stat K ctx (ctx_path s ctx) s of
        (r, s) \<Rightarrow> do { uv_assert (r = Inr ()); Some s }) }"

text \<open>
  \<open>poll_cb\<close> up to the label \<open>out\<close>.  A \<open>NULL\<close> callback of the user is a crash, and so is a write to a
  context that the callback has had freed.
\<close>

definition poll_report ::
  "('w, 'a) fs_poll_loop_scheme fs_poll_calls \<Rightarrow> addr \<Rightarrow> uv_errno option \<Rightarrow> uv_stat_t \<Rightarrow> ('w, 'a) fs_poll_loop_scheme \<Rightarrow>
    ('w, 'a) fs_poll_loop_scheme option" where
  "poll_report U ctx result statbuf s =
     (let h = ctx_parent s ctx in
      if \<not> uv__is_active s h \<or> uv__is_closing s h then Some s
      else if result \<noteq> None then
        (if ctx_busy s ctx \<noteq> status_int result then do {
           cb \<leftarrow> ctx_cb s ctx;
           s \<leftarrow> call_fs_poll U cb h (status_int result) (ctx_statbuf s ctx) zero_statbuf s;
           uv_assert (ctx \<in> ctx_live s);
           Some (s\<lparr>ctx_busy := (ctx_busy s)(ctx := status_int result)\<rparr>) }
         else Some s)
      else do {
        s \<leftarrow> (if ctx_busy s ctx \<noteq> 0 \<and> (ctx_busy s ctx < 0 \<or> \<not> statbuf_eq (ctx_statbuf s ctx) statbuf) then do {
                cb \<leftarrow> ctx_cb s ctx;
                call_fs_poll U cb h 0 (ctx_statbuf s ctx) statbuf s }
              else Some s);
        uv_assert (ctx \<in> ctx_live s);
        Some (s\<lparr>ctx_statbuf := (ctx_statbuf s)(ctx := statbuf), ctx_busy := (ctx_busy s)(ctx := 1)\<rparr>) })"

definition poll_cb_fn ::
  "('w, 'a) fs_poll_loop_scheme fs_poll_calls \<Rightarrow> addr \<Rightarrow> uv_errno option \<Rightarrow> uv_stat_t \<Rightarrow> ('w, 'a) fs_poll_loop_scheme \<Rightarrow>
    ('w, 'a) fs_poll_loop_scheme option" where
  "poll_cb_fn U ctx result statbuf s = do {
     uv_assert (ctx \<in> ctx_live s);
     let h = ctx_parent s ctx;
     s \<leftarrow> poll_report U ctx result statbuf s;
     uv_assert (ctx \<in> ctx_live s);
     if \<not> uv__is_active s h \<or> uv__is_closing s h
     then uv_close (calls_of U) (relax U) ctx (Some TIMER_CLOSE_CB) s
     else do {
       let interval = (ucast (ctx_interval s ctx) :: u64);
       let interval = interval - (time s - ctx_start s ctx) mod interval;
       (r, s) \<leftarrow> uv_timer_start ctx (Some TIMER_CB) interval 0 s;
       uv_assert (r = Inr ());
       Some s } }"

text \<open>fs.c: the end of a request, with what the thread has stored in it.\<close>

definition uv__fs_done ::
  "('w, 'a) fs_poll_loop_scheme fs_poll_calls \<Rightarrow> addr \<Rightarrow> uv_errno option \<Rightarrow> uv_errno option \<Rightarrow> uv_stat_t \<Rightarrow>
    ('w, 'a) fs_poll_loop_scheme \<Rightarrow> ('w, 'a) fs_poll_loop_scheme option" where
  "uv__fs_done U req status result statbuf s = do {
     uv_assert (req \<in> ctx_live s);
     let s = s\<lparr>fs_pending := fs_pending s - {req}\<rparr>;
     s \<leftarrow> uv__req_unregister s;
     result \<leftarrow> (if status = Some UV_ECANCELED then do { uv_assert (result = None); Some (Some UV_ECANCELED) } else Some result);
     poll_cb_fn U req result statbuf s }"

text \<open>The search in \<open>timer_close_cb\<close>: the context before \<open>ctx\<close>.\<close>

partial_function (option) ctx_before ::
  "addr set \<Rightarrow> (addr \<Rightarrow> ptr) \<Rightarrow> addr \<Rightarrow> addr \<Rightarrow> ptr \<Rightarrow> addr option" where
  "ctx_before live previous ctx lst it =
     (if it = Some ctx then Some lst
      else if lst \<notin> live then None
      else (case previous lst of
              None \<Rightarrow> None
            | Some _ \<Rightarrow> (case it of
                None \<Rightarrow> None
              | Some i \<Rightarrow> if i \<in> live then ctx_before live previous ctx i (previous i) else None)))"

definition timer_close_cb ::
  "addr \<Rightarrow> ('w, 'a) fs_poll_loop_scheme \<Rightarrow> ('w, 'a) fs_poll_loop_scheme option" where
  "timer_close_cb ctx s = do {
     uv_assert (ctx \<in> ctx_live s);
     let h = ctx_parent s ctx;
     s \<leftarrow> (if poll_ctx s h = Some ctx then
         (let s = s\<lparr>poll_ctx := (poll_ctx s)(h := ctx_previous s ctx)\<rparr>
          in if poll_ctx s h = None \<and> uv__is_closing s h then uv__make_close_pending h s else Some s)
       else do {
         lst \<leftarrow> poll_ctx s h;
         uv_assert (lst \<in> ctx_live s);
         lst \<leftarrow> ctx_before (ctx_live s) (ctx_previous s) ctx lst (ctx_previous s lst);
         uv_assert (lst \<in> ctx_live s);
         Some (s\<lparr>ctx_previous := (ctx_previous s)(lst := ctx_previous s ctx)\<rparr>) });
     free_ctx ctx s }"

text \<open>The calls of the loop with the functions of this file in place.\<close>

definition fs_poll_run ::
  "'w fs_poll_kernel \<Rightarrow> ('w, 'a) fs_poll_loop_scheme fs_poll_calls \<Rightarrow> ('w, 'a) fs_poll_loop_scheme loop_calls" where
  "fs_poll_run K U = (calls_of U)
     \<lparr>call_timer := (\<lambda>cb h s. if cb = TIMER_CB then timer_cb_fn K h s else call_timer U cb h s),
      call_close := (\<lambda>cb h s. if cb = TIMER_CLOSE_CB then timer_close_cb h s else call_close U cb h s),
      close_other := (\<lambda>h s. if htype s h = UV_FS_POLL then uv__fs_poll_close U h s else close_other U h s)\<rparr>"

section \<open>The contexts of a handle\<close>

text \<open>\<open>contexts s h cs\<close>: the contexts of \<open>h\<close> are \<open>cs\<close>, the newest first; they are allocated.\<close>

definition contexts :: "('w, 'a) fs_poll_loop_scheme \<Rightarrow> addr \<Rightarrow> addr list \<Rightarrow> bool" where
  "contexts s h cs \<longleftrightarrow> chain (ctx_previous s) (poll_ctx s h) cs \<and> distinct cs \<and>
     (\<forall>c \<in> set cs. ctx_parent s c = h) \<and> set cs \<subseteq> ctx_live s"

lemma chain_cong: "(\<And>c. c \<in> set cs \<Longrightarrow> f c = g c) \<Longrightarrow> chain f p cs \<longleftrightarrow> chain g p cs"
  by (induction cs arbitrary: p) auto

lemma chain_split: "chain f p (xs @ c # ys) \<Longrightarrow> chain f (f c) ys"
  by (induction xs arbitrary: p) auto

lemma ctx_before_found:
  assumes "chain f (Some a) (a # xs @ ctx # ys)" "ctx \<notin> set (a # xs)" "set (a # xs) \<subseteq> L"
  shows "ctx_before L f ctx a (f a) = Some (last (a # xs))"
  using assms
proof (induction xs arbitrary: a)
  case Nil
  then show ?case by (subst ctx_before.simps) simp
next
  case (Cons x xs)
  then have "f a = Some x" "x \<noteq> ctx" "a \<in> L" "x \<in> L" by simp_all
  moreover have "ctx_before L f ctx x (f x) = Some (last (x # xs))" using Cons by simp
  ultimately show ?case by (subst ctx_before.simps) simp
qed

lemma chain_unlink:
  assumes "chain f p (xs @ b # c # ys)" "distinct (xs @ b # c # ys)"
  shows "chain (f(b := f c)) p (xs @ b # ys)"
  using assms
proof (induction xs arbitrary: p)
  case Nil
  then have "chain (f(b := f c)) (f c) ys \<longleftrightarrow> chain f (f c) ys" by (intro chain_cong) auto
  then show ?case using Nil by (simp add: fun_upd_def)
qed auto

text \<open>One close callback of a timer takes its context out of the list and frees it.\<close>

lemma timer_close_cb_ok:
  assumes cs: "contexts s h cs" and c: "ctx \<in> set cs"
    and cl: "uv__is_closing s h \<Longrightarrow> has_flag s h UV_HANDLE_CLOSING \<and> \<not> has_flag s h UV_HANDLE_CLOSED"
  shows "\<exists>s'. timer_close_cb ctx s = Some s' \<and> contexts s' h (remove1 ctx cs) \<and> ctx_live s' = ctx_live s - {ctx} \<and>
    flags s' = flags s \<and>
    (if uv__is_closing s h \<and> cs = [ctx] then closing_handles s' = Some h \<and> next_closing s' h = closing_handles s
     else closing_handles s' = closing_handles s \<and> next_closing s' = next_closing s)"
proof -
  let ?free = "\<lambda>s. s\<lparr>ctx_live := ctx_live s - {ctx}\<rparr>"
  obtain xs ys where sp: "cs = xs @ ctx # ys" using c by (meson split_list)
  have p: "ctx_parent s ctx = h" and d: "distinct cs" and ch: "chain (ctx_previous s) (poll_ctx s h) cs"
    and ps: "\<And>c. c \<in> set cs \<Longrightarrow> ctx_parent s c = h"
    and L: "ctx \<in> ctx_live s" "set cs \<subseteq> ctx_live s"
    using cs c by (auto simp: contexts_def)
  show ?thesis
  proof (cases xs)
    case Nil
    let ?t = "s\<lparr>poll_ctx := (poll_ctx s)(h := ctx_previous s ctx)\<rparr>"
    have hd: "poll_ctx s h = Some ctx" "chain (ctx_previous s) (ctx_previous s ctx) ys" using ch sp Nil by simp_all
    have e: "ctx_previous s ctx = None \<longleftrightarrow> ys = []" using hd(2) by (cases ys) auto
    have ctxs: "contexts (?free ?t) h ys" "remove1 ctx cs = ys" using hd(2) d ps L sp Nil by (auto simp: contexts_def)
    show ?thesis
    proof (cases "uv__is_closing s h \<and> ys = []")
      case True
      let ?u = "?t\<lparr>next_closing := (next_closing s)(h := closing_handles s), closing_handles := Some h\<rparr>"
      have t: "has_flag ?t h m = has_flag s h m" for m by (rule has_flag_frame) simp
      have "uv__make_close_pending h ?t = Some ?u"
        using True cl by (simp add: uv__make_close_pending_def t)
      then have "timer_close_cb ctx s = Some (?free ?u)"
        using True e p hd(1) t L by (simp add: timer_close_cb_def Let_def uv__is_closing_def free_ctx_def)
      then show ?thesis using True sp Nil
        by (intro exI [of _ "?free ?u"]) (simp add: contexts_def e)
    next
      case False
      have t: "has_flag ?t h m = has_flag s h m" for m by (rule has_flag_frame) simp
      have "timer_close_cb ctx s = Some (?free ?t)"
        using False e p hd(1) t L by (auto simp: timer_close_cb_def Let_def uv__is_closing_def free_ctx_def)
      then show ?thesis using False sp Nil ctxs
        by (intro exI [of _ "?free ?t"]) (auto simp: free_ctx_def)
    qed
  next
    case (Cons a zs)
    let ?b = "last (a # zs)"
    have xs: "xs = butlast xs @ [?b]" using Cons by simp
    have hd: "poll_ctx s h = Some a" "ctx \<noteq> a" using ch d sp Cons by auto
    have ba: "?b \<in> ctx_live s" "a \<in> ctx_live s" "set (a # zs) \<subseteq> ctx_live s" using L(2) sp Cons by auto
    have nb: "ctx_before (ctx_live s) (ctx_previous s) ctx a (ctx_previous s a) = Some ?b"
      by (rule ctx_before_found [of _ _ _ _ ys]) (use ch d sp Cons hd ba in auto)
    let ?t = "s\<lparr>ctx_previous := (ctx_previous s)(?b := ctx_previous s ctx)\<rparr>"
    have r: "timer_close_cb ctx s = Some (?free ?t)"
      unfolding timer_close_cb_def Let_def p hd(1) using hd(2) nb ba L by (simp add: free_ctx_def)
    have l: "cs = butlast xs @ ?b # ctx # ys" using sp xs by (metis append.assoc append_Cons append_Nil)
    have "chain ((ctx_previous s)(?b := ctx_previous s ctx)) (poll_ctx s h) (butlast xs @ ?b # ys)"
      by (rule chain_unlink) (use ch d l in auto)
    moreover have "remove1 ctx cs = butlast xs @ ?b # ys"
      using d l by (auto simp: remove1_append)
    ultimately have "contexts (?free ?t) h (remove1 ctx cs)"
      using d ps l L(2) by (auto simp: contexts_def)
    then show ?thesis using r sp Cons by (intro exI [of _ "?free ?t"]) (auto simp: free_ctx_def)
  qed
qed

section \<open>The end of the timers\<close>

text \<open>A context whose timer is closing: \<open>uv__finish_close\<close> will free it.\<close>

definition ctx_closing :: "('w, 'a) fs_poll_loop_scheme \<Rightarrow> addr \<Rightarrow> bool" where
  "ctx_closing s c \<longleftrightarrow> has_flag s c UV_HANDLE_CLOSING \<and> \<not> has_flag s c UV_HANDLE_CLOSED \<and> htype s c = UV_TIMER \<and>
     close_cb s c = Some TIMER_CLOSE_CB"

definition ctx_off :: "addr \<Rightarrow> ('w, 'a) fs_poll_loop_scheme \<Rightarrow> ('w, 'a) fs_poll_loop_scheme" where
  "ctx_off c s = (let s = uv__handle_unref c (set_flag c UV_HANDLE_CLOSED s)
     in s\<lparr>qs := QUEUE_REMOVE (NodeQ HandleK c) (qs s)\<rparr>)"

lemma ctx_off_fields:
  "poll_ctx (ctx_off c s) = poll_ctx s" "ctx_previous (ctx_off c s) = ctx_previous s" "ctx_parent (ctx_off c s) = ctx_parent s"
  "ctx_live (ctx_off c s) = ctx_live s" "close_cb (ctx_off c s) = close_cb s" "htype (ctx_off c s) = htype s"
  "next_closing (ctx_off c s) = next_closing s" "closing_handles (ctx_off c s) = closing_handles s"
  "k \<noteq> c \<Longrightarrow> has_flag (ctx_off c s) k m = has_flag s k m"
  by (simp_all add: ctx_off_def Let_def handle_defs set_flag_def clear_flag_def has_flag_def)

lemma finish_ctx:
  assumes "ctx_closing s c"
  shows "uv__finish_close (fs_poll_run K U) c s = timer_close_cb c (ctx_off c s)"
proof -
  have "htype (set_flag c UV_HANDLE_CLOSED s) c = UV_TIMER" "close_cb (ctx_off c s) c = Some TIMER_CLOSE_CB"
    using assms by (simp_all add: ctx_closing_def set_flag_def ctx_off_fields)
  then have "finish_handle (fs_poll_run K U) c (set_flag c UV_HANDLE_CLOSED s) = timer_close_cb c (ctx_off c s)"
    by (simp add: finish_handle_def ctx_off_def Let_def fs_poll_run_def)
  then show ?thesis using assms \<open>htype _ c = UV_TIMER\<close> by (simp add: uv__finish_close_def ctx_closing_def)
qed

lemma run_closing_contexts:
  assumes "chain (next_closing s) p xs" "distinct xs" "contexts s h cs" "set xs = set cs" "xs \<noteq> []" "h \<notin> set cs"
    "\<And>c. c \<in> set cs \<Longrightarrow> ctx_closing s c" "has_flag s h UV_HANDLE_CLOSING" "\<not> has_flag s h UV_HANDLE_CLOSED"
  shows "\<exists>s'. run_closing_loop (fs_poll_run K U) p s = Some s' \<and> poll_ctx s' h = None \<and> ctx_live s' = ctx_live s - set cs \<and>
    closing_handles s' = Some h \<and> next_closing s' h = closing_handles s"
  using assms
proof (induction xs arbitrary: p s cs)
  case Nil
  then show ?case by simp
next
  case (Cons c xs)
  let ?t = "ctx_off c s"
  have p: "p = Some c" "chain (next_closing s) (next_closing s c) xs" using Cons.prems(1) by simp_all
  have cs: "contexts ?t h cs" using Cons.prems(3) by (simp add: contexts_def ctx_off_fields)
  have c: "c \<in> set cs" "c \<noteq> h" using Cons.prems(4,6) by auto
  have fl: "has_flag ?t h m = has_flag s h m" for m using c(2) by (simp add: ctx_off_fields)
  obtain s1 where s1: "timer_close_cb c ?t = Some s1" "contexts s1 h (remove1 c cs)" "ctx_live s1 = ctx_live s - {c}"
    "flags s1 = flags ?t" "if cs = [c] then closing_handles s1 = Some h \<and> next_closing s1 h = closing_handles s
     else closing_handles s1 = closing_handles s \<and> next_closing s1 = next_closing s"
    "htype s1 = htype s" "close_cb s1 = close_cb s"
  proof -
    obtain s1 where "timer_close_cb c ?t = Some s1" "contexts s1 h (remove1 c cs)" "ctx_live s1 = ctx_live ?t - {c}"
      "flags s1 = flags ?t" "if uv__is_closing ?t h \<and> cs = [c] then closing_handles s1 = Some h \<and> next_closing s1 h = closing_handles ?t
       else closing_handles s1 = closing_handles ?t \<and> next_closing s1 = next_closing ?t"
      using timer_close_cb_ok [OF cs c(1)] Cons.prems(8,9) fl by auto
    moreover from this(1) have "htype s1 = htype ?t" "close_cb s1 = close_cb ?t"
      by (auto simp: timer_close_cb_def Let_def free_ctx_def uv__make_close_pending_def split: if_splits bind_splits)
    moreover have "uv__is_closing ?t h" using Cons.prems(8) fl by (simp add: is_closing_iff)
    ultimately show thesis using that by (simp add: ctx_off_fields)
  qed
  have run: "run_closing_loop (fs_poll_run K U) p s = run_closing_loop (fs_poll_run K U) (next_closing s c) s1"
    using finish_ctx [OF Cons.prems(7) [OF c(1)], of K U] s1(1) by (subst run_closing_loop.simps) (simp add: p(1))
  have d: "distinct cs" using Cons.prems(3) by (simp add: contexts_def)
  have sx: "set xs = set (remove1 c cs)" using Cons.prems(2,4) d by auto
  show ?case
  proof (cases "xs = []")
    case True
    then have one: "cs = [c]" using sx c(1) d by (cases cs) (auto split: if_splits)
    have "next_closing s c = None" using p(2) True by simp
    then have "run_closing_loop (fs_poll_run K U) p s = Some s1" unfolding run by (subst run_closing_loop.simps) simp
    then show ?thesis using s1(2,3,5) one by (auto simp: contexts_def)
  next
    case False
    have n1: "cs \<noteq> [c]" using False sx by auto
    have ch: "chain (next_closing s1) (next_closing s c) xs" using p(2) s1(5) n1 by simp
    have g: "has_flag s1 k m = has_flag s k m" if "k \<noteq> c" for k m
      using that has_flag_frame [OF s1(4)] by (simp add: ctx_off_fields)
    have cl: "ctx_closing s1 k" if "k \<in> set (remove1 c cs)" for k
      using that d Cons.prems(7) [of k] g [of k] s1(6,7) by (auto simp: ctx_closing_def)
    have f: "has_flag s1 h UV_HANDLE_CLOSING" "\<not> has_flag s1 h UV_HANDLE_CLOSED" "h \<notin> set (remove1 c cs)"
      using Cons.prems(6,8,9) g c(2) d by auto
    obtain s' where "run_closing_loop (fs_poll_run K U) (next_closing s c) s1 = Some s'" "poll_ctx s' h = None"
      "ctx_live s' = ctx_live s1 - set (remove1 c cs)" "closing_handles s' = Some h" "next_closing s' h = closing_handles s1"
      using Cons.IH [OF ch _ s1(2) sx False f(3) cl f(1,2)] Cons.prems(2) by auto
    then show ?thesis using run s1(3,5) n1 c(1) d by (intro exI [of _ s']) auto
  qed
qed

section \<open>What the user hears\<close>

text \<open>
  A result of \<open>stat\<close> is repeated if it is the error, or a success that does not differ in the fields that are
  compared, of the result before; a first success is nothing new.  A change is reported with
  the last buffer of a success and the new one.
\<close>

type_synonym stat_result = "uv_errno option \<times> uv_stat_t"

fun repeated :: "stat_result option \<Rightarrow> stat_result \<Rightarrow> bool" where
  "repeated None (r, st) \<longleftrightarrow> r = None"
| "repeated (Some (r0, st0)) (r, st) \<longleftrightarrow> r0 = r \<and> (r = None \<longrightarrow> statbuf_eq st0 st)"

fun heard :: "stat_result option \<Rightarrow> uv_stat_t \<Rightarrow> stat_result list \<Rightarrow> (int \<times> uv_stat_t \<times> uv_stat_t) list" where
  "heard before good [] = []"
| "heard before good ((r, st) # rs) =
     (if repeated before (r, st) then [] else [(status_int r, good, if r = None then st else zero_statbuf)]) @
     heard (Some (r, st)) (if r = None then st else good) rs"

definition recording :: "('w, (int \<times> uv_stat_t \<times> uv_stat_t) list) fs_poll_loop_scheme fs_poll_calls \<Rightarrow> bool" where
  "recording U \<longleftrightarrow> (\<forall>cb h st a b s. call_fs_poll U cb h st a b s = Some (fs_poll_loop.more_update (\<lambda>l. l @ [(st, a, b)]) s))"

text \<open>
  A context whose handle is started; \<open>polling\<close>: it is the newest and its \<open>stat\<close> is in progress; what it
  remembers.
\<close>

definition polls :: "('w, 'a) fs_poll_loop_scheme \<Rightarrow> addr \<Rightarrow> addr \<Rightarrow> addr set \<Rightarrow> bool" where
  "polls s h ctx H \<longleftrightarrow> ctx_parent s ctx = h \<and> h \<noteq> ctx \<and> uv__is_active s h \<and> \<not> uv__is_closing s h \<and>
     timers_ok s H \<and> ctx \<in> H \<and> htype s ctx = UV_TIMER \<and> \<not> uv__is_closing s ctx \<and> \<not> uv__is_active s ctx \<and>
     ctx_interval s ctx \<noteq> 0 \<and> ctx_cb s ctx \<noteq> None \<and> ctx \<in> ctx_live s"

definition polling :: "('w, 'a) fs_poll_loop_scheme \<Rightarrow> addr \<Rightarrow> addr \<Rightarrow> addr set \<Rightarrow> bool" where
  "polling s h ctx H \<longleftrightarrow> polls s h ctx H \<and> poll_ctx s h = Some ctx \<and> active_reqs s \<noteq> 0 \<and> ctx \<in> fs_pending s"

definition remembers :: "('w, 'a) fs_poll_loop_scheme \<Rightarrow> addr \<Rightarrow> stat_result option \<Rightarrow> uv_stat_t \<Rightarrow> bool" where
  "remembers s ctx before good \<longleftrightarrow> ctx_statbuf s ctx = good \<and>
     ctx_busy s ctx = (case before of None \<Rightarrow> 0 | Some (r, st) \<Rightarrow> if r = None then 1 else status_int r) \<and>
     (\<forall>st. before = Some (None, st) \<longrightarrow> good = st)"

lemma status_int_less: "r \<noteq> None \<Longrightarrow> r \<noteq> Some (UV__ERR 0) \<Longrightarrow> status_int r < 0"
  by (cases r rule: status_int.cases) auto

lemma status_int_eq: "r \<noteq> None \<Longrightarrow> r' \<noteq> None \<Longrightarrow> status_int r = status_int r' \<longleftrightarrow> r = r'"
  by (cases r rule: status_int.cases; cases r' rule: status_int.cases) auto

lemma busy_repeats:
  assumes m: "remembers s ctx before good" and e: "r \<noteq> Some (UV__ERR 0)" "\<And>st. before \<noteq> Some (Some (UV__ERR 0), st)"
  shows "r \<noteq> None \<Longrightarrow> ctx_busy s ctx = status_int r \<longleftrightarrow> repeated before (r, st)"
    "r = None \<Longrightarrow> (ctx_busy s ctx \<noteq> 0 \<and> (ctx_busy s ctx < 0 \<or> \<not> statbuf_eq (ctx_statbuf s ctx) st)) \<longleftrightarrow> \<not> repeated before (r, st)"
proof -
  have b: "ctx_statbuf s ctx = good" "ctx_busy s ctx = (case before of None \<Rightarrow> 0 | Some (r, st) \<Rightarrow> if r = None then 1 else status_int r)"
    "\<And>st. before = Some (None, st) \<Longrightarrow> good = st"
    using m by (simp_all add: remembers_def)
  show "ctx_busy s ctx = status_int r \<longleftrightarrow> repeated before (r, st)" if r: "r \<noteq> None"
  proof (cases before)
    case None
    then show ?thesis using b(2) status_int_less [OF r e(1)] r by simp
  next
    case (Some o0)
    obtain r0 st0 where o0: "o0 = (r0, st0)" by (cases o0)
    show ?thesis
    proof (cases "r0 = None")
      case True
      then show ?thesis using b(2) status_int_less [OF r e(1)] r Some o0 by auto
    next
      case False
      then show ?thesis using b(2) status_int_eq [OF False r] Some o0 r by (cases r; cases r0) simp_all
    qed
  qed
  show "(ctx_busy s ctx \<noteq> 0 \<and> (ctx_busy s ctx < 0 \<or> \<not> statbuf_eq (ctx_statbuf s ctx) st)) \<longleftrightarrow> \<not> repeated before (r, st)"
    if r: "r = None"
  proof (cases before)
    case None
    then show ?thesis using b(2) r by simp
  next
    case (Some o0)
    obtain r0 st0 where o0: "o0 = (r0, st0)" by (cases o0)
    show ?thesis
    proof (cases "r0 = None")
      case True
      then show ?thesis using b Some o0 r by simp
    next
      case False
      have "status_int r0 < 0" using status_int_less [OF False] e(2) Some o0 by auto
      then show ?thesis using False b Some o0 r by (cases r0) auto
    qed
  qed
qed

lemma report_result:
  assumes U: "recording U" and p: "polls s h ctx H" and m: "remembers s ctx before good"
    and e: "r \<noteq> Some (UV__ERR 0)" "\<And>st. before \<noteq> Some (Some (UV__ERR 0), st)"
  shows "\<exists>g. poll_report U ctx r st s = Some (fs_poll_loop.more_update (\<lambda>l. l @ heard before good [(r, st)])
      (s\<lparr>ctx_busy := g, ctx_statbuf := (ctx_statbuf s)(ctx := if r = None then st else good)\<rparr>)) \<and>
    g ctx = (if r = None then 1 else status_int r)"
proof -
  have act: "uv__is_active s h" "\<not> uv__is_closing s h" "ctx_parent s ctx = h" and L: "ctx \<in> ctx_live s"
    using p by (simp_all add: polls_def)
  obtain cb where cb: "ctx_cb s ctx = Some cb" using p by (auto simp: polls_def)
  have call: "call_fs_poll U c k st a b s = Some (fs_poll_loop.more_update (\<lambda>l. l @ [(st, a, b)]) s)" for c k st a b
    using U by (simp add: recording_def)
  have g: "ctx_statbuf s ctx = good" using m by (simp add: remembers_def)
  note rep = busy_repeats [OF m e, of st]
  show ?thesis
  proof (cases r)
    case (Some x)
    show ?thesis
    proof (cases "repeated before (r, st)")
      case True
      then have "poll_report U ctx r st s = Some s" using rep(1) Some act by (simp add: poll_report_def)
      then show ?thesis using True rep(1) Some g by (intro exI [of _ "ctx_busy s"]) (simp add: fun_upd_idem)
    next
      case False
      then show ?thesis using rep(1) Some act cb call g L
        by (intro exI [of _ "(ctx_busy s)(ctx := status_int r)"]) (simp add: poll_report_def fun_upd_idem)
    qed
  next
    case None
    show ?thesis
    proof (cases "repeated before (r, st)")
      case True
      then show ?thesis using rep(2) None act cb call g L
        by (intro exI [of _ "(ctx_busy s)(ctx := 1)"]) (auto simp: poll_report_def)
    next
      case False
      then have "ctx_busy s ctx \<noteq> 0 \<and> (ctx_busy s ctx < 0 \<or> \<not> statbuf_eq (ctx_statbuf s ctx) st)" using rep(2) None by blast
      then show ?thesis using False None act cb call g L
        by (intro exI [of _ "(ctx_busy s)(ctx := 1)"]) (simp add: poll_report_def)
    qed
  qed
qed

lemma timers_ok_frame:
  assumes "flags s' = flags s" "active_handles s' = active_handles s" "htype s' = htype s" "timer_heap s' = timer_heap s"
    "timeout s' = timeout s" "start_id s' = start_id s" "timer_cb s' = timer_cb s"
  shows "timers_ok s' H = timers_ok s H"
proof -
  have "armed s' H = armed s H" using assms(3) has_flag_frame [OF assms(1)] by (auto simp: armed_def)
  moreover have "timer_less_than s' = timer_less_than s" using assms(5,6) by (auto simp: fun_eq_iff timer_less_than_def)
  ultimately show ?thesis using handles_ok_frame [OF assms(1,2)] assms(4,7) by (simp add: timers_ok_def)
qed

lemma timer_start_base:
  assumes "uv_timer_start c cb t r s = Some (x, s')"
  shows "active_reqs s' = active_reqs s" "k \<noteq> c \<Longrightarrow> flags s' k = flags s k"
proof -
  have st: "active_reqs t' = active_reqs t" "k \<noteq> c \<Longrightarrow> flags t' k = flags t k" if "uv_timer_stop c t = Some t'" for t t'
    using that by (auto simp: uv_timer_stop_def handle_defs clear_flag_def split: if_splits bind_splits)
  have hs: "active_reqs (uv__handle_start c t) = active_reqs t" "k \<noteq> c \<Longrightarrow> flags (uv__handle_start c t) k = flags t k" for t
    by (auto simp: handle_defs set_flag_def)
  show "active_reqs s' = active_reqs s" using assms
    by (auto simp: uv_timer_start_def Let_def hs split: if_splits bind_splits dest!: st)
  show "flags s' k = flags s k" if "k \<noteq> c" using assms that
    by (auto simp: uv_timer_start_def Let_def hs split: if_splits bind_splits dest: st(2))
qed

lemma more_fields:
  assumes "timer_loop.more s' = timer_loop.more s"
  shows "poll_ctx s' = poll_ctx s" "ctx_parent s' = ctx_parent s" "ctx_interval s' = ctx_interval s" "ctx_cb s' = ctx_cb s"
    "ctx_busy s' = ctx_busy s" "ctx_statbuf s' = ctx_statbuf s" "fs_pending s' = fs_pending s" "os s' = os s" "ctx_live s' = ctx_live s"
    "fs_poll_loop.more s' = fs_poll_loop.more s"
  using assms by (cases s; cases s'; simp)+

lemma stat_sent:
  assumes "\<And>p w. fst (k_strdup K p w)"
  shows "\<exists>w. uv_fs_stat K c path s = (Inr (), s\<lparr>os := w, active_reqs := active_reqs s + 1, fs_pending := insert c (fs_pending s)\<rparr>)"
  using assms [of path "os s"] by (cases "k_strdup K path (os s)") (auto simp: uv_fs_stat_def sys_def uv__req_register_def)

text \<open>
  One period: the \<open>stat\<close> comes back at time \<open>t\<close>, and the timer it has armed fires when it is due, by
  then out of the heap.
\<close>

definition poll_period ::
  "'w fs_poll_kernel \<Rightarrow> ('w, 'a) fs_poll_loop_scheme fs_poll_calls \<Rightarrow> addr \<Rightarrow> u64 \<Rightarrow> stat_result \<Rightarrow>
    ('w, 'a) fs_poll_loop_scheme \<Rightarrow> ('w, 'a) fs_poll_loop_scheme option" where
  "poll_period K U ctx t o0 s = do {
     s \<leftarrow> uv__fs_done U ctx None (fst o0) (snd o0) (s\<lparr>time := t\<rparr>);
     s \<leftarrow> uv_timer_stop ctx (s\<lparr>time := timeout s ctx\<rparr>);
     timer_cb_fn K ctx s }"

lemma polls_cong:
  assumes "polls s h ctx H" "timers_ok s' H" "\<And>k m. k \<noteq> ctx \<or> m = UV_HANDLE_CLOSING \<or> m = UV_HANDLE_CLOSED \<Longrightarrow> has_flag s' k m = has_flag s k m"
    "\<not> has_flag s' ctx UV_HANDLE_ACTIVE" "htype s' = htype s" "ctx_parent s' = ctx_parent s"
    "ctx_interval s' = ctx_interval s" "ctx_cb s' = ctx_cb s" "ctx_live s' = ctx_live s"
  shows "polls s' h ctx H"
  using assms by (simp add: polls_def uv__is_active_def is_closing_iff)

lemma done_arms:
  assumes U: "recording U" and p: "polls s h ctx H" "active_reqs s \<noteq> 0" and m: "remembers s ctx before good"
    and e: "r \<noteq> Some (UV__ERR 0)" "\<And>st. before \<noteq> Some (Some (UV__ERR 0), st)"
  shows "\<exists>s2. uv__fs_done U ctx None r st (s\<lparr>time := t\<rparr>) = Some s2 \<and> timers_ok s2 H \<and> htype s2 = htype s \<and> uv__is_active s2 ctx \<and>
    (\<forall>k m. k \<noteq> ctx \<or> m = UV_HANDLE_CLOSING \<or> m = UV_HANDLE_CLOSED \<longrightarrow> has_flag s2 k m = has_flag s k m) \<and>
    active_reqs s2 = active_reqs s - 1 \<and> poll_ctx s2 = poll_ctx s \<and> ctx_parent s2 = ctx_parent s \<and>
    ctx_interval s2 = ctx_interval s \<and> ctx_cb s2 = ctx_cb s \<and> ctx_live s2 = ctx_live s \<and> remembers s2 ctx (Some (r, st)) (if r = None then st else good) \<and>
    fs_poll_loop.more s2 = fs_poll_loop.more s @ heard before good [(r, st)]"
proof -
  let ?s0 = "s\<lparr>time := t, fs_pending := fs_pending s - {ctx}, active_reqs := active_reqs s - 1\<rparr>"
  have p0: "polls ?s0 h ctx H"
  proof (rule polls_cong [OF p(1)])
    show "timers_ok ?s0 H" using timers_ok_frame [of ?s0 s H] p(1) by (simp add: polls_def)
    show "has_flag ?s0 k m = has_flag s k m" for k m by (rule has_flag_frame) simp
    show "\<not> has_flag ?s0 ctx UV_HANDLE_ACTIVE" using p(1) has_flag_frame [of ?s0 s] by (simp add: polls_def uv__is_active_def)
  qed simp_all
  have m0: "remembers ?s0 ctx before good" using m by (simp add: remembers_def)
  obtain g where rep: "poll_report U ctx r st ?s0 = Some (fs_poll_loop.more_update (\<lambda>l. l @ heard before good [(r, st)])
      (?s0\<lparr>ctx_busy := g, ctx_statbuf := (ctx_statbuf s)(ctx := if r = None then st else good)\<rparr>))"
    "g ctx = (if r = None then 1 else status_int r)"
    using report_result [OF U p0 m0 e, of st] by auto
  define s1 where "s1 = fs_poll_loop.more_update (\<lambda>l. l @ heard before good [(r, st)])
      (?s0\<lparr>ctx_busy := g, ctx_statbuf := (ctx_statbuf s)(ctx := if r = None then st else good)\<rparr>)"
  have f1: "has_flag s1 k m = has_flag s k m" for k m by (rule has_flag_frame) (simp add: s1_def)
  have p1: "polls s1 h ctx H"
  proof (rule polls_cong [OF p(1)])
    show "timers_ok s1 H" using p0 timers_ok_frame [of s1 ?s0 H] by (simp add: polls_def s1_def)
    show "\<not> has_flag s1 ctx UV_HANDLE_ACTIVE" using p(1) f1 by (simp add: polls_def uv__is_active_def)
  qed (simp_all add: f1, simp_all add: s1_def)
  have P: "ctx_parent s1 ctx = h" "uv__is_active s1 h" "\<not> uv__is_closing s1 h" "timers_ok s1 H" "ctx \<in> H"
    "htype s1 ctx = UV_TIMER" "\<not> uv__is_closing s1 ctx" "ctx \<in> ctx_live s1"
    using p1 by (simp_all add: polls_def)
  have P0: "ctx_parent s ctx = h" "ctx \<in> ctx_live s" using p(1) by (simp_all add: polls_def)
  define iv where "iv = (ucast (ctx_interval s1 ctx) :: u64) - (time s1 - ctx_start s1 ctx) mod ucast (ctx_interval s1 ctx)"
  obtain s2 where s2: "uv_timer_start ctx (Some TIMER_CB) iv 0 s1 = Some (Inr (), s2)" "timers_ok s2 H" "htype s2 = htype s1"
    "timer_loop.more s2 = timer_loop.more s1" "\<And>k. has_flag s2 k UV_HANDLE_CLOSING = has_flag s1 k UV_HANDLE_CLOSING"
    "\<And>k. has_flag s2 k UV_HANDLE_CLOSED = has_flag s1 k UV_HANDLE_CLOSED" "armed s2 H = insert ctx (armed s1 H)"
    by (rule timer_start_ok [OF P(4-7), of TIMER_CB iv 0]) blast
  note f2 = more_fields [OF s2(4)] timer_start_base [OF s2(1)]
  have "active_reqs s > 0" using p(2) by (simp add: word_neq_0_conv)
  then have "uv__req_unregister (s\<lparr>time := t, fs_pending := fs_pending s - {ctx}\<rparr>) = Some ?s0"
    by (simp add: uv__req_unregister_def uv__has_active_reqs_def)
  moreover have "poll_cb_fn U ctx r st ?s0 = Some s2"
    using rep(1) P P0 s2(1) unfolding poll_cb_fn_def s1_def [symmetric] by (simp add: Let_def iv_def)
  ultimately have run: "uv__fs_done U ctx None r st (s\<lparr>time := t\<rparr>) = Some s2" using P0(2) by (simp add: uv__fs_done_def)
  have g1: "has_flag s2 k m = has_flag s k m" if "k \<noteq> ctx \<or> m = UV_HANDLE_CLOSING \<or> m = UV_HANDLE_CLOSED" for k m
    using that s2(5,6) timer_start_base(2) [OF s2(1)] f1 by (cases "k = ctx") (auto simp: has_flag_def)
  have "ctx \<in> armed s2 H" using s2(7) by blast
  then have "uv__is_active s2 ctx" by (simp add: armed_def uv__is_active_def)
  moreover have "remembers s2 ctx (Some (r, st)) (if r = None then st else good)" using rep(2) by (simp add: remembers_def f2 s1_def)
  moreover have "active_reqs s2 = active_reqs s - 1" using f2(11) by (simp add: s1_def)
  moreover have "htype s2 = htype s" "poll_ctx s2 = poll_ctx s" "ctx_parent s2 = ctx_parent s" "ctx_interval s2 = ctx_interval s"
    "ctx_cb s2 = ctx_cb s" "ctx_live s2 = ctx_live s" "fs_poll_loop.more s2 = fs_poll_loop.more s @ heard before good [(r, st)]"
    unfolding s2(3) f2(1-10) by (simp_all add: s1_def)
  ultimately show ?thesis using run s2(2) g1 by blast
qed

lemma period_ok:
  assumes U: "recording U" and K: "\<And>p w. fst (k_strdup K p w)" and p: "polling s h ctx H" and m: "remembers s ctx before good"
    and e: "r \<noteq> Some (UV__ERR 0)" "\<And>st. before \<noteq> Some (Some (UV__ERR 0), st)"
  shows "\<exists>s'. poll_period K U ctx t (r, st) s = Some s' \<and> polling s' h ctx H \<and>
    remembers s' ctx (Some (r, st)) (if r = None then st else good) \<and>
    fs_poll_loop.more s' = fs_poll_loop.more s @ heard before good [(r, st)]"
proof -
  have p1: "polls s h ctx H" "active_reqs s \<noteq> 0" "poll_ctx s h = Some ctx" using p by (simp_all add: polling_def)
  have P: "ctx_parent s ctx = h" "ctx \<in> H" "htype s ctx = UV_TIMER" "ctx \<in> ctx_live s" using p1(1) by (simp_all add: polls_def)
  obtain s2 where s2: "uv__fs_done U ctx None r st (s\<lparr>time := t\<rparr>) = Some s2" "timers_ok s2 H" "htype s2 = htype s"
    "\<And>k m. k \<noteq> ctx \<or> m = UV_HANDLE_CLOSING \<or> m = UV_HANDLE_CLOSED \<Longrightarrow> has_flag s2 k m = has_flag s k m"
    "active_reqs s2 = active_reqs s - 1" "poll_ctx s2 = poll_ctx s" "ctx_parent s2 = ctx_parent s" "ctx_interval s2 = ctx_interval s"
    "ctx_cb s2 = ctx_cb s" "ctx_live s2 = ctx_live s" "remembers s2 ctx (Some (r, st)) (if r = None then st else good)"
    "fs_poll_loop.more s2 = fs_poll_loop.more s @ heard before good [(r, st)]"
    using done_arms [OF U p1(1,2) m e, of st t] by blast
  let ?s2 = "s2\<lparr>time := timeout s2 ctx\<rparr>"
  have ok2: "timers_ok ?s2 H" using timers_ok_frame [of ?s2 s2 H] s2(2) by simp
  obtain s3 where s3: "uv_timer_stop ctx ?s2 = Some s3" "timers_ok s3 H" "timer_frame ?s2 s3"
    "\<And>k m. k \<noteq> ctx \<or> m = UV_HANDLE_CLOSING \<or> m = UV_HANDLE_CLOSED \<or> m = UV_HANDLE_REF \<Longrightarrow> has_flag s3 k m = has_flag ?s2 k m"
    "\<not> has_flag s3 ctx UV_HANDLE_ACTIVE"
    by (rule timer_stop_ok [OF ok2 P(2)]) (use s2(3) P(3) in auto)
  have more3: "timer_loop.more s3 = timer_loop.more s2" "active_reqs s3 = active_reqs s2" "htype s3 = htype s2"
    using s3(3) by (auto simp: timer_frame_def)
  note f3 = more_fields [OF more3(1)]
  let ?s4 = "s3\<lparr>ctx_start := (ctx_start s3)(ctx := time s3)\<rparr>"
  obtain w where w: "uv_fs_stat K ctx (ctx_path ?s4 ctx) ?s4 =
      (Inr (), ?s4\<lparr>os := w, active_reqs := active_reqs ?s4 + 1, fs_pending := insert ctx (fs_pending ?s4)\<rparr>)"
    using stat_sent [of K, OF K] by blast
  define s5 where "s5 = ?s4\<lparr>os := w, active_reqs := active_reqs ?s4 + 1, fs_pending := insert ctx (fs_pending ?s4)\<rparr>"
  have fire: "timer_cb_fn K ctx s3 = Some s5"
    using P(1,4) p1(3) s2(6,7,10) f3 w by (simp add: timer_cb_fn_def s5_def)
  have run: "poll_period K U ctx t (r, st) s = Some s5" using s2(1) s3(1) fire by (simp add: poll_period_def)
  have g5: "has_flag s5 k m = has_flag s3 k m" for k m by (rule has_flag_frame) (simp add: s5_def)
  have g2: "has_flag ?s2 k m = has_flag s2 k m" for k m by (rule has_flag_frame) simp
  have pol: "polls s5 h ctx H"
  proof (rule polls_cong [OF p1(1)])
    show "timers_ok s5 H" using timers_ok_frame [of s5 s3 H] s3(2) by (simp add: s5_def)
    show "has_flag s5 k m = has_flag s k m" if "k \<noteq> ctx \<or> m = UV_HANDLE_CLOSING \<or> m = UV_HANDLE_CLOSED" for k m
      using g5 g2 s2(4) [OF that] s3(4) that by auto
    show "\<not> has_flag s5 ctx UV_HANDLE_ACTIVE" using g5 s3(5) by simp
  qed (simp_all add: s5_def more3 s2(3,7-10) f3)
  have "active_reqs s5 = active_reqs s" by (simp add: s5_def more3 s2(5))
  moreover have "remembers s5 ctx (Some (r, st)) (if r = None then st else good)"
    using s2(11) by (simp add: remembers_def s5_def f3)
  moreover have "fs_poll_loop.more s5 = fs_poll_loop.more s @ heard before good [(r, st)]" by (simp add: s5_def f3 s2(12))
  moreover have "poll_ctx s5 h = Some ctx" "ctx \<in> fs_pending s5" using p1(3) by (simp_all add: s5_def f3 s2(6))
  ultimately show ?thesis using run pol p1(2) by (intro exI [of _ s5]) (simp add: polling_def)
qed

fun poll_periods ::
  "'w fs_poll_kernel \<Rightarrow> ('w, 'a) fs_poll_loop_scheme fs_poll_calls \<Rightarrow> addr \<Rightarrow> (u64 \<times> stat_result) list \<Rightarrow>
    ('w, 'a) fs_poll_loop_scheme \<Rightarrow> ('w, 'a) fs_poll_loop_scheme option" where
  "poll_periods K U ctx [] s = Some s"
| "poll_periods K U ctx ((t, x) # xs) s = poll_period K U ctx t x s \<bind> poll_periods K U ctx xs"

lemma heard_append: "heard before good (x # xs) =
    heard before good [x] @ heard (Some x) (if fst x = None then snd x else good) xs"
  by (cases x) simp

lemma periods_ok:
  assumes "recording U" and "\<And>p w. fst (k_strdup K p w)" and "polling s h ctx H" and "remembers s ctx before good"
    and "\<And>st. before \<noteq> Some (Some (UV__ERR 0), st)" "Some (UV__ERR 0) \<notin> fst ` snd ` set rs"
  shows "\<exists>s'. poll_periods K U ctx rs s = Some s' \<and> polling s' h ctx H \<and>
    fs_poll_loop.more s' = fs_poll_loop.more s @ heard before good (map snd rs)"
  using assms(3-6)
proof (induction rs arbitrary: s before good)
  case Nil
  then show ?case by simp
next
  case (Cons x xs)
  obtain t r st where x: "x = (t, r, st)" by (cases x)
  have r: "r \<noteq> Some (UV__ERR 0)" using Cons.prems(4) x by auto
  have rs: "Some (UV__ERR 0) \<notin> fst ` snd ` set xs" using Cons.prems(4) by auto
  obtain s1 where s1: "poll_period K U ctx t (r, st) s = Some s1" "polling s1 h ctx H"
    "remembers s1 ctx (Some (r, st)) (if r = None then st else good)"
    "fs_poll_loop.more s1 = fs_poll_loop.more s @ heard before good [(r, st)]"
    using period_ok [OF assms(1,2) Cons.prems(1,2) r Cons.prems(3)] by blast
  obtain s' where "poll_periods K U ctx xs s1 = Some s'" "polling s' h ctx H"
    "fs_poll_loop.more s' = fs_poll_loop.more s1 @ heard (Some (r, st)) (if r = None then st else good) (map snd xs)"
    using Cons.IH [OF s1(2,3) _ rs] r by auto
  then show ?case using s1(1,4) by (intro exI [of _ s']) (simp add: x heard_append [of _ _ "(r, st)"])
qed

section \<open>Starting\<close>

text \<open>A timer that does not count for the loop.\<close>

lemma hidden_timer_ok:
  assumes ok: "timers_ok s H" and c: "ctx \<notin> H" "card H + 1 < 2 ^ 32"
  defines "t \<equiv> uv__handle_unref ctx (set_flag ctx UV_HANDLE_INTERNAL (uv_timer_init ctx s))"
  shows "timers_ok t (insert ctx H)" "\<not> uv__is_active t ctx" "\<not> uv__is_closing t ctx" "htype t = (htype s)(ctx := UV_TIMER)"
    "\<And>k m. k \<noteq> ctx \<Longrightarrow> has_flag t k m = has_flag s k m" "active_reqs t = active_reqs s"
    "qs t = QUEUE_INSERT_TAIL (LoopQ HandleK) (NodeQ HandleK ctx) (qs s)"
    "t = s\<lparr>flags := flags t, htype := htype t, next_closing := next_closing t, qs := qs t, timer_cb := timer_cb t,
       timeout := timeout t, timer_repeat := timer_repeat t\<rparr>"
proof -
  let ?i = "uv_timer_init ctx s"
  have i: "timers_ok ?i (insert ctx H)" using timer_init_ok(1) [OF ok c] .
  have z: "flags ?i ctx = UV_HANDLE_REF" by (simp add: uv_timer_init_def uv__handle_init_def Let_def)
  have t: "t = ?i\<lparr>flags := (flags ?i)(ctx := UV_HANDLE_INTERNAL)\<rparr>"
    unfolding t_def using z
    by (simp add: uv__handle_unref_def has_flag_def set_flag_def clear_flag_def Let_def uv_timer_init_def uv__handle_init_def)
  have fl: "has_flag t k m = has_flag ?i k m" if "k \<noteq> ctx" for k m using that by (simp add: t has_flag_def)
  have "handles_ok t (insert ctx H)"
  proof (rule handles_okI [OF timers_okD(1) [OF i], of ctx])
    show "active_handles t = active_handles ?i + (of_bool (counted t ctx) - of_bool (counted ?i ctx))"
      by (simp add: t counted_def has_flag_def z)
  qed (simp_all add: fl t has_flag_def)
  moreover have "armed t (insert ctx H) = armed ?i (insert ctx H)"
    using fl by (auto simp: armed_def t has_flag_def z)
  moreover have "timer_less_than t = timer_less_than ?i" by (auto simp: fun_eq_iff timer_less_than_def t)
  ultimately show "timers_ok t (insert ctx H)" using i by (simp add: timers_ok_def) (simp add: t)
  show "\<not> uv__is_active t ctx" "\<not> uv__is_closing t ctx" by (simp_all add: uv__is_active_def is_closing_iff has_flag_def t)
  show "htype t = (htype s)(ctx := UV_TIMER)" "active_reqs t = active_reqs s"
    "qs t = QUEUE_INSERT_TAIL (LoopQ HandleK) (NodeQ HandleK ctx) (qs s)"
    by (simp_all add: t uv_timer_init_def uv__handle_init_def Let_def)
  show "has_flag t k m = has_flag s k m" if "k \<noteq> ctx" for k m
    using that by (simp add: t uv_timer_init_def uv__handle_init_def Let_def has_flag_def)
  show "t = s\<lparr>flags := flags t, htype := htype t, next_closing := next_closing t, qs := qs t, timer_cb := timer_cb t,
       timeout := timeout t, timer_repeat := timer_repeat t\<rparr>"
    by (simp add: t uv_timer_init_def uv__handle_init_def Let_def)
qed

lemma start_polls:
  assumes ok: "timers_ok s H" and h: "h \<in> H" "htype s h = UV_FS_POLL" "\<not> uv__is_active s h" "\<not> uv__is_closing s h"
    and c: "fst (k_calloc K (SIZEOF_POLL_CTX + length path) (os s)) = Some ctx" "ctx \<notin> H" "card H + 1 < 2 ^ 32"
    and K: "\<And>p w. fst (k_strdup K p w)" and r: "active_reqs s \<noteq> -1"
  shows "\<exists>s1. uv_fs_poll_start K h (Some cb) path interval s = Some (Inr (), s1) \<and> polling s1 h ctx (insert ctx H) \<and>
    remembers s1 ctx None zero_statbuf \<and> fs_poll_loop.more s1 = fs_poll_loop.more s"
proof -
  obtain w where w: "k_calloc K (SIZEOF_POLL_CTX + length path) (os s) = (Some ctx, w)"
    using c(1) by (cases "k_calloc K (SIZEOF_POLL_CTX + length path) (os s)") auto
  define s1 where "s1 = new_ctx ctx h (Some cb) path interval (s\<lparr>os := w\<rparr>)"
  have ok1: "timers_ok s1 H" using timers_ok_frame [of s1 s H] ok by (simp add: s1_def new_ctx_def)
  define t where "t = uv__handle_unref ctx (set_flag ctx UV_HANDLE_INTERNAL (uv_timer_init ctx s1))"
  note T = hidden_timer_ok [OF ok1 c(2,3), folded t_def]
  obtain w2 where w2: "uv_fs_stat K ctx path t = (Inr (), t\<lparr>os := w2, active_reqs := active_reqs t + 1, fs_pending := insert ctx (fs_pending t)\<rparr>)"
    using stat_sent [of K, OF K] by blast
  let ?t2 = "t\<lparr>os := w2, active_reqs := active_reqs t + 1, fs_pending := insert ctx (fs_pending t)\<rparr>"
  define t3 where "t3 = (let s = (if poll_ctx ?t2 h \<noteq> None then ?t2\<lparr>ctx_previous := (ctx_previous ?t2)(ctx := poll_ctx ?t2 h)\<rparr> else ?t2)
      in s\<lparr>poll_ctx := (poll_ctx s)(h := Some ctx)\<rparr>)"
  have e3: "flags t3 = flags t" "active_handles t3 = active_handles t" "htype t3 = htype t" "timer_heap t3 = timer_heap t" "timeout t3 = timeout t"
    "start_id t3 = start_id t" "timer_cb t3 = timer_cb t" "active_reqs t3 = active_reqs t + 1" "poll_ctx t3 h = Some ctx" "ctx \<in> fs_pending t3"
    "ctx_parent t3 = ctx_parent t" "ctx_interval t3 = ctx_interval t" "ctx_cb t3 = ctx_cb t" "ctx_busy t3 = ctx_busy t"
    "ctx_statbuf t3 = ctx_statbuf t" "ctx_live t3 = ctx_live t" "fs_poll_loop.more t3 = fs_poll_loop.more t"
    by (simp_all add: t3_def Let_def)
  have et: "ctx_parent t = ctx_parent s1" "ctx_interval t = ctx_interval s1" "ctx_cb t = ctx_cb s1" "ctx_busy t = ctx_busy s1"
    "ctx_statbuf t = ctx_statbuf s1" "ctx_live t = ctx_live s1" "fs_poll_loop.more t = fs_poll_loop.more s1"
    by (subst T(8); simp)+
  have e1: "ctx_parent s1 ctx = h" "ctx_interval s1 ctx \<noteq> 0" "ctx_cb s1 ctx = Some cb" "ctx_busy s1 ctx = 0" "ctx_statbuf s1 ctx = zero_statbuf"
    "fs_poll_loop.more s1 = fs_poll_loop.more s" "active_reqs s1 = active_reqs s" "ctx \<in> ctx_live s1"
    by (simp_all add: s1_def new_ctx_def)
  have hc: "h \<noteq> ctx" using h(1) c(2) by blast
  have fs: "has_flag s1 k m = has_flag s k m" for k m by (rule has_flag_frame) (simp add: s1_def new_ctx_def)
  have ok3: "timers_ok t3 (insert ctx H)" using timers_ok_frame [OF e3(1-7)] T(1) by simp
  have g3: "has_flag t3 k m = has_flag t k m" for k m by (rule has_flag_frame [OF e3(1)])
  have nc: "\<not> uv__is_closing t3 h" using h(4) g3 T(5) [OF hc] fs by (simp add: is_closing_iff)
  let ?r = "uv__handle_start h t3"
  have run: "uv_fs_poll_start K h (Some cb) path interval s = Some (Inr (), ?r)"
    using h(3) w w2 by (simp add: uv_fs_poll_start_def sys_def Let_def s1_def [symmetric] t_def [symmetric]) (simp add: t3_def Let_def)
  have gr: "has_flag ?r k m = has_flag t3 k m" if "k \<noteq> h \<or> m = UV_HANDLE_CLOSING \<or> m = UV_HANDLE_CLOSED" for k m
    using that by (auto simp: flag_simps)
  have act: "has_flag ?r h UV_HANDLE_ACTIVE" by (simp add: flag_simps)
  have fr: "htype ?r = htype t3" "active_reqs ?r = active_reqs t3" "timer_heap ?r = timer_heap t3" "timeout ?r = timeout t3"
    "start_id ?r = start_id t3" "timer_cb ?r = timer_cb t3" "poll_ctx ?r = poll_ctx t3" "ctx_parent ?r = ctx_parent t3"
    "ctx_interval ?r = ctx_interval t3" "ctx_cb ?r = ctx_cb t3" "ctx_busy ?r = ctx_busy t3" "ctx_statbuf ?r = ctx_statbuf t3"
    "fs_pending ?r = fs_pending t3" "ctx_live ?r = ctx_live t3" "fs_poll_loop.more ?r = fs_poll_loop.more t3"
    by (simp_all add: handle_defs set_flag_def)
  have ty: "htype t3 h = UV_FS_POLL" using h(2) hc e3(3) T(4) by (simp add: s1_def new_ctx_def)
  have okr: "timers_ok ?r (insert ctx H)"
  proof -
    have "handles_ok ?r (insert ctx H)" by (rule handle_start_ok [OF timers_okD(1) [OF ok3] _ nc]) (use h(1) in simp)
    moreover have "htype t3 k = UV_TIMER \<and> has_flag ?r k UV_HANDLE_ACTIVE \<longleftrightarrow> htype t3 k = UV_TIMER \<and> has_flag t3 k UV_HANDLE_ACTIVE" for k
      using gr [of k UV_HANDLE_ACTIVE] ty by (cases "k = h") simp_all
    then have "armed ?r (insert ctx H) = armed t3 (insert ctx H)" by (simp add: armed_def fr)
    moreover have "timer_less_than ?r = timer_less_than t3" by (auto simp: fun_eq_iff timer_less_than_def fr)
    ultimately show ?thesis using ok3 by (simp add: timers_ok_def fr)
  qed
  have cf: "\<not> has_flag ?r ctx UV_HANDLE_ACTIVE" "\<not> uv__is_closing ?r ctx" "\<not> uv__is_closing ?r h"
    using gr hc g3 T(2,3) nc by (auto simp: uv__is_active_def is_closing_iff)
  have "active_reqs ?r \<noteq> 0" using r T(6) e1(7) by (simp add: fr e3) (metis add.commute add_cancel_right_left add_eq_0_iff)
  then have "polling ?r h ctx (insert ctx H)"
    using act cf okr hc by (simp add: polling_def polls_def uv__is_active_def fr e3 et e1 T(4))
  moreover have "remembers ?r ctx None zero_statbuf" by (simp add: remembers_def fr e3 et e1)
  ultimately show ?thesis using run by (intro exI [of _ ?r]) (simp add: fr e3 et e1)
qed

section \<open>A \<open>stat\<close> that comes back too late\<close>

text \<open>The user does not hear of it; the timer of the context is closed.\<close>

lemma stopped_stat_closes:
  assumes "\<not> uv__is_active s (ctx_parent s ctx) \<or> uv__is_closing s (ctx_parent s ctx)" and "htype s ctx = UV_TIMER"
    and "\<not> uv__is_closing s ctx" and "\<not> uv__is_active s ctx" and "active_reqs s \<noteq> 0"
    and L: "ctx \<in> ctx_live s"
  shows "\<exists>s'. uv__fs_done U ctx None r st s = Some s' \<and> ctx_closing s' ctx \<and> closing_handles s' = Some ctx \<and>
    next_closing s' ctx = closing_handles s \<and> fs_poll_loop.more s' = fs_poll_loop.more s"
proof -
  define t where "t = s\<lparr>fs_pending := fs_pending s - {ctx}, active_reqs := active_reqs s - 1\<rparr>"
  have f: "has_flag t k m = has_flag s k m" for k m by (rule has_flag_frame) (simp add: t_def)
  have p: "ctx_parent t = ctx_parent s" "htype t = htype s" "closing_handles t = closing_handles s" "fs_poll_loop.more t = fs_poll_loop.more s"
    "ctx \<in> ctx_live t"
    using L by (simp_all add: t_def)
  define c where "c = (set_flag ctx UV_HANDLE_CLOSING t)\<lparr>close_cb := (close_cb t)(ctx \<mapsto> TIMER_CLOSE_CB)\<rparr>"
  have cf: "has_flag c ctx UV_HANDLE_CLOSING" "\<not> has_flag c ctx UV_HANDLE_CLOSED" "\<not> has_flag c ctx UV_HANDLE_ACTIVE"
    using assms(3,4) f by (auto simp: c_def uv__is_active_def is_closing_iff has_flag_def set_flag_def flag_or)
  have ce: "htype c = htype s" "closing_handles c = closing_handles s" "close_cb c ctx = Some TIMER_CLOSE_CB"
    "fs_poll_loop.more c = fs_poll_loop.more s" "close_cb (set_flag ctx UV_HANDLE_CLOSING t) = close_cb t"
    "htype (set_flag ctx UV_HANDLE_CLOSING t) = htype s"
    by (simp_all add: c_def p set_flag_def)
  define u where "u = c\<lparr>next_closing := (next_closing c)(ctx := closing_handles c), closing_handles := Some ctx\<rparr>"
  have fu: "has_flag u k m = has_flag c k m" for k m by (rule has_flag_frame) (simp add: u_def)
  have cl: "uv_close (calls_of U) (relax U) ctx (Some TIMER_CLOSE_CB) t = Some u"
    using assms(2,3) f cf ce
    by (simp add: uv_close_def c_def [symmetric] is_closing_iff uv__timer_close_def uv_timer_stop_def uv__is_active_def
        uv__make_close_pending_def u_def)
  have rep: "poll_report U ctx r st t = Some t" using assms(1) f p
    by (auto simp: poll_report_def Let_def uv__is_active_def is_closing_iff)
  have "poll_cb_fn U ctx r st t = Some u"
    using assms(1) f p cl rep by (auto simp: poll_cb_fn_def Let_def uv__is_active_def is_closing_iff)
  moreover have "uv__req_unregister (s\<lparr>fs_pending := fs_pending s - {ctx}\<rparr>) = Some t"
    using assms(5) by (simp add: uv__req_unregister_def uv__has_active_reqs_def t_def word_neq_0_conv)
  ultimately have "uv__fs_done U ctx None r st s = Some u" using L by (simp add: uv__fs_done_def)
  moreover have "htype u = htype s" "close_cb u = close_cb c" "closing_handles u = Some ctx" "next_closing u ctx = closing_handles s"
    "fs_poll_loop.more u = fs_poll_loop.more s"
    by (simp_all add: u_def ce)
  ultimately show ?thesis using cf ce(3) assms(2) by (intro exI [of _ u]) (simp add: ctx_closing_def fu)
qed

section \<open>Starting again too early\<close>

text \<open>
  A handle that is stopped while a \<open>stat\<close> is in progress and started again has two contexts.  When the \<open>stat\<close>
  of the old one comes back its timer is armed, as if it were the context of the handle, and
  the assertion of \<open>timer_cb\<close> fails when it fires.
\<close>

lemma restart_ends_in_abort:
  assumes "recording U" and "polls s h ctx H" and "active_reqs s \<noteq> 0" and "remembers s ctx before good"
    and "r \<noteq> Some (UV__ERR 0)" and "\<And>st. before \<noteq> Some (Some (UV__ERR 0), st)" and other: "poll_ctx s h = Some new" "new \<noteq> ctx"
  shows "\<exists>s2. uv__fs_done U ctx None r st s = Some s2 \<and> uv__is_active s2 ctx \<and> poll_ctx s2 h = Some new \<and> timer_cb_fn K ctx s2 = None"
proof -
  obtain s2 where "uv__fs_done U ctx None r st (s\<lparr>time := time s\<rparr>) = Some s2" "uv__is_active s2 ctx" "poll_ctx s2 = poll_ctx s"
    "ctx_parent s2 = ctx_parent s"
    using done_arms [OF assms(1-6), of st "time s"] by blast
  moreover have "ctx_parent s ctx = h" using assms(2) by (simp add: polls_def)
  ultimately show ?thesis using other by (intro exI [of _ s2]) (simp add: timer_cb_fn_def)
qed

text \<open>When no \<open>stat\<close> can be sent, the context is freed with its timer in the queue of the loop's handles.\<close>

lemma failed_start_keeps_timer:
  assumes "\<not> uv__is_active s h" and "k_calloc K (SIZEOF_POLL_CTX + length path) (os s) = (Some ctx, w)"
    and "\<And>p w. \<not> fst (k_strdup K p w)" and "timers_ok s H" and "ctx \<notin> H" and "card H + 1 < 2 ^ 32"
  shows "\<exists>s'. uv_fs_poll_start K h cb path interval s = Some (Inl UV_ENOMEM, s') \<and> ctx \<notin> ctx_live s' \<and>
    qs s' = QUEUE_INSERT_TAIL (LoopQ HandleK) (NodeQ HandleK ctx) (qs s)"
proof -
  define s1 where "s1 = new_ctx ctx h cb path interval (s\<lparr>os := w\<rparr>)"
  have ok1: "timers_ok s1 H" using timers_ok_frame [of s1 s H] assms(4) by (simp add: s1_def new_ctx_def)
  define t where "t = uv__handle_unref ctx (set_flag ctx UV_HANDLE_INTERNAL (uv_timer_init ctx s1))"
  have q: "qs t = QUEUE_INSERT_TAIL (LoopQ HandleK) (NodeQ HandleK ctx) (qs s)"
    using hidden_timer_ok(7) [OF ok1 assms(5,6), folded t_def] by (simp add: s1_def new_ctx_def)
  have "ctx_live t = ctx_live s1" by (subst hidden_timer_ok(8) [OF ok1 assms(5,6), folded t_def]) simp
  then have L: "ctx \<in> ctx_live t" by (simp add: s1_def new_ctx_def)
  have "uv_fs_stat K ctx path t = (Inl UV_ENOMEM, t\<lparr>os := snd (k_strdup K path (os t))\<rparr>)"
    using assms(3) [of path "os t"] by (cases "k_strdup K path (os t)") (simp add: uv_fs_stat_def sys_def)
  then have "uv_fs_poll_start K h cb path interval s = Some (Inl UV_ENOMEM,
      t\<lparr>os := snd (k_strdup K path (os t)), ctx_live := ctx_live t - {ctx}\<rparr>)"
    using assms(1,2) L by (simp add: uv_fs_poll_start_def sys_def Let_def s1_def [symmetric] t_def [symmetric] free_ctx_def)
  then show ?thesis using q by simp
qed

section \<open>Properties\<close>

text \<open>
  C26: \<open>uv_fs_poll_start\<close> on a handle that is idle starts it, and for every sequence of results of \<open>stat\<close>, at any
  times, the user hears of the first error, of each error that differs from the result before, of the
  first success after an error and of each success whose buffer differs from the last one in a compared field, with the
  buffer of the last success and the new one, and of nothing else; no assertion fails.
\<close>

theorem fs_poll_hears_of_changes:
  assumes "recording U" and "timers_ok s H" and "h \<in> H" and "htype s h = UV_FS_POLL" and "\<not> uv__is_active s h"
    and "\<not> uv__is_closing s h" and "fst (k_calloc K (SIZEOF_POLL_CTX + length path) (os s)) = Some ctx" and "ctx \<notin> H"
    and "card H + 1 < 2 ^ 32" and "\<And>p w. fst (k_strdup K p w)" and "active_reqs s \<noteq> -1"
    and "Some (UV__ERR 0) \<notin> fst ` snd ` set rs"
  shows "\<exists>s1 s2. uv_fs_poll_start K h (Some cb) path interval s = Some (Inr (), s1) \<and> poll_periods K U ctx rs s1 = Some s2 \<and>
    uv__is_active s2 h \<and> fs_poll_loop.more s2 = fs_poll_loop.more s @ heard None zero_statbuf (map snd rs)"
proof -
  obtain s1 where s1: "uv_fs_poll_start K h (Some cb) path interval s = Some (Inr (), s1)" "polling s1 h ctx (insert ctx H)"
    "remembers s1 ctx None zero_statbuf" "fs_poll_loop.more s1 = fs_poll_loop.more s"
    using start_polls [OF assms(2-11)] by blast
  obtain s2 where "poll_periods K U ctx rs s1 = Some s2" "polling s2 h ctx (insert ctx H)"
    "fs_poll_loop.more s2 = fs_poll_loop.more s1 @ heard None zero_statbuf (map snd rs)"
    using periods_ok [OF assms(1,10) s1(2,3) _ assms(12)] by auto
  then show ?thesis using s1(1,4) by (intro exI [of _ s1] exI [of _ s2]) (simp add: polling_def polls_def)
qed

definition log_calls :: "('w, (int \<times> uv_stat_t \<times> uv_stat_t) list) fs_poll_loop_scheme fs_poll_calls" where
  "log_calls = \<lparr>call_timer = \<lambda>_ _. Some, call_watcher_cb = \<lambda>_ _. Some, call_io = \<lambda>_ _ _. Some, call_close = \<lambda>_ _. Some,
     close_other = \<lambda>_. Some, destroy_other = \<lambda>_. Some,
     call_fs_poll = \<lambda>_ _ st a b s. Some (fs_poll_loop.more_update (\<lambda>l. l @ [(st, a, b)]) s), relax = id\<rparr>"

definition roomy_kernel :: "unit fs_poll_kernel" where
  "roomy_kernel = io_kernel.extend quiet_kernel (fs_poll_kernel.fields (\<lambda>_ w. (Some 8, w)) (\<lambda>_ w. (True, w)))"

definition idle_fs_poll :: "(unit, (int \<times> uv_stat_t \<times> uv_stat_t) list) fs_poll_loop_scheme" where
  "idle_fs_poll = (fs_poll_loop.extend (bare_core () (-1) (fs_poll_loop.fields (\<lambda>_. None) (\<lambda>_. 7) (\<lambda>_. 0) (\<lambda>_. 1) (\<lambda>_. 0)
     (\<lambda>_. None) (\<lambda>_. zero_statbuf) (\<lambda>_. None) (\<lambda>_. []) {} {})) [])\<lparr>htype := \<lambda>_. UV_FS_POLL\<rparr>"

lemmas idle_fs_poll_defs = idle_fs_poll_def bare_core_def empty_watcher_loop_def watcher_loop.defs io_loop.defs poll_loop.defs
  async_loop.defs core_loop.defs fs_poll_loop.defs

lemma idle_fs_poll_facts:
  "timers_ok idle_fs_poll {7}" "htype idle_fs_poll 7 = UV_FS_POLL" "\<not> uv__is_active idle_fs_poll 7" "\<not> uv__is_closing idle_fs_poll 7"
  "active_reqs idle_fs_poll = 0" "fs_poll_loop.more idle_fs_poll = []"
proof -
  let ?hp = "\<lparr>heap_top = None, nelts = 0, nodes = (\<lambda>_. \<lparr>left = None, right = None, parent = None\<rparr>)\<rparr>"
  have hp: "timer_heap idle_fs_poll = ?hp" "flags idle_fs_poll = (\<lambda>_. 0)" "active_handles idle_fs_poll = 0"
    by (simp_all add: idle_fs_poll_defs)
  have f: "\<not> has_flag idle_fs_poll k m" for k m by (simp add: has_flag_def hp)
  have "heap_init ?hp = ?hp" by (simp add: heap_init_def)
  then have "heap_inv lt ?hp {}" for lt using heap_init_inv [of lt ?hp] by simp
  moreover have "armed idle_fs_poll {7} = {}" by (simp add: armed_def f)
  ultimately show "timers_ok idle_fs_poll {7}" by (simp add: timers_ok_def hp handles_ok_def counted_def f is_closing_iff)
  show "\<not> uv__is_active idle_fs_poll 7" "\<not> uv__is_closing idle_fs_poll 7" by (simp_all add: uv__is_active_def is_closing_iff f)
qed (simp_all add: idle_fs_poll_defs)

theorem fs_poll_hears_of_changes_witness:
  "\<exists>s1 s2. uv_fs_poll_start roomy_kernel 7 (Some 1) ''f'' 1000 idle_fs_poll = Some (Inr (), s1) \<and>
    poll_periods roomy_kernel log_calls 8 [(1, None, zero_statbuf), (9, Some UV_ENOENT, zero_statbuf), (20, Some UV_ENOENT, zero_statbuf),
      (30, None, zero_statbuf\<lparr>st_ino := 5\<rparr>)] s1 = Some s2 \<and> uv__is_active s2 7 \<and>
    fs_poll_loop.more s2 = [(-2, zero_statbuf, zero_statbuf), (0, zero_statbuf, zero_statbuf\<lparr>st_ino := 5\<rparr>)]"
proof -
  let ?rs = "[(1, None, zero_statbuf), (9, Some UV_ENOENT, zero_statbuf), (20, Some UV_ENOENT, zero_statbuf),
      (30, None, zero_statbuf\<lparr>st_ino := 5\<rparr>)] :: (u64 \<times> stat_result) list"
  have U: "recording log_calls" by (simp add: recording_def log_calls_def)
  have k: "fst (k_calloc roomy_kernel n w) = Some 8" "fst (k_strdup roomy_kernel p w)" for n w p
    by (simp_all add: roomy_kernel_def io_kernel.defs fs_poll_kernel.defs)
  have r: "Some (UV__ERR 0) \<notin> fst ` snd ` set ?rs" by simp
  show ?thesis
    using fs_poll_hears_of_changes [OF U idle_fs_poll_facts(1) _ idle_fs_poll_facts(2-4) k(1) _ _ k(2) _ r, where cb = 1 and path = "''f''" and interval = 1000]
    by (simp add: idle_fs_poll_facts)
qed

text \<open>
  C27: When all timers of the contexts of a closing handle are closing, in any order, and the contexts are allocated, one run
  of the closing handles returns - no context is used or freed when it is not allocated, so none is freed twice -
  with the contexts of the handle, and no others, freed, and the handle itself is put on the list of closing
  handles, once and with the last of them.
\<close>

theorem fs_poll_close_frees_contexts:
  assumes "contexts s h cs" and "cs \<noteq> []" and "h \<notin> set cs" and "chain (next_closing s) (closing_handles s) order"
    and "distinct order" and "set order = set cs" and "\<And>c. c \<in> set cs \<Longrightarrow> ctx_closing s c"
    and "has_flag s h UV_HANDLE_CLOSING" and "\<not> has_flag s h UV_HANDLE_CLOSED"
  shows "\<exists>s'. uv__run_closing_handles (fs_poll_run K U) s = Some s' \<and> poll_ctx s' h = None \<and>
    ctx_live s' = ctx_live s - set cs \<and> closing_handles s' = Some h \<and> next_closing s' h = None"
proof -
  let ?s = "s\<lparr>closing_handles := None\<rparr>"
  have f: "has_flag ?s k m = has_flag s k m" for k m by (rule has_flag_frame) simp
  have c: "ctx_closing ?s c" if "c \<in> set cs" for c using assms(7) [OF that] f by (simp add: ctx_closing_def)
  have "contexts ?s h cs" "order \<noteq> []" using assms(1,2,6) by (auto simp: contexts_def)
  then show ?thesis
    using run_closing_contexts [of ?s "closing_handles s" order h cs K U] assms c f by (auto simp: uv__run_closing_handles_def)
qed

theorem fs_poll_close_frees_contexts_witness:
  "\<exists>s'. uv__run_closing_handles (fs_poll_run roomy_kernel log_calls)
      (idle_fs_poll\<lparr>htype := (\<lambda>_. UV_TIMER)(7 := UV_FS_POLL), flags := \<lambda>_. UV_HANDLE_CLOSING, close_cb := \<lambda>_. Some TIMER_CLOSE_CB,
        poll_ctx := (\<lambda>_. None)(7 := Some 9), ctx_previous := (\<lambda>_. None)(9 := Some 8), ctx_live := {8, 9},
        closing_handles := Some 8, next_closing := (\<lambda>_. None)(8 := Some 9)\<rparr>) = Some s' \<and>
    poll_ctx s' 7 = None \<and> ctx_live s' = {} \<and> closing_handles s' = Some 7"
proof -
  let ?s = "idle_fs_poll\<lparr>htype := (\<lambda>_. UV_TIMER)(7 := UV_FS_POLL), flags := \<lambda>_. UV_HANDLE_CLOSING, close_cb := \<lambda>_. Some TIMER_CLOSE_CB,
        poll_ctx := (\<lambda>_. None)(7 := Some 9), ctx_previous := (\<lambda>_. None)(9 := Some 8), ctx_live := {8, 9},
        closing_handles := Some 8, next_closing := (\<lambda>_. None)(8 := Some 9)\<rparr>"
  have c: "contexts ?s 7 [9, 8]" "[9, 8] \<noteq> ([] :: nat list)" "7 \<notin> set [9, 8 :: nat]" by (simp_all add: contexts_def idle_fs_poll_defs)
  have o: "chain (next_closing ?s) (closing_handles ?s) [8, 9]" "distinct [8, 9 :: nat]" "set [8, 9] = set [9, 8 :: nat]" by auto
  have cl: "ctx_closing ?s c" if "c \<in> set [9, 8]" for c using that by (auto simp: ctx_closing_def has_flag_def)
  have f: "has_flag ?s 7 UV_HANDLE_CLOSING" "\<not> has_flag ?s 7 UV_HANDLE_CLOSED" by (simp_all add: has_flag_def)
  show ?thesis using fs_poll_close_frees_contexts [OF c o cl f, of roomy_kernel log_calls] by auto
qed

end
