(* ===== verification/Closing.thy ===== *)
theory Closing
  imports Pipe PollHandle UdpIo Signal
begin

text \<open>
  Closing a handle from \<open>uv_close\<close> (src/unix/core.c) to its close callback, with the closing functions of
  the files that have handles in place of the parameters of theory \<open>Core\<close>.  The locale \<open>closer\<close>
  says what \<open>uv_close\<close> relies on of the function that closes handles of a type, \<open>ender\<close> what
  \<open>uv__finish_close\<close> relies on of the function that ends them; both are interpreted by the handles of
  poll.c, stream.c, pipe.c, udp.c and signal.c.
\<close>

section \<open>The steps of closing\<close>

text \<open>\<open>uv_close\<close> before and after the function of the type, and the end of \<open>uv__finish_close\<close>.\<close>

definition marked :: "addr \<Rightarrow> nat option \<Rightarrow> ('w, 'a) core_loop_scheme \<Rightarrow> ('w, 'a) core_loop_scheme" where
  "marked h cb s = (let s = set_flag h UV_HANDLE_CLOSING s in s\<lparr>close_cb := (close_cb s)(h := cb)\<rparr>)"

definition pended :: "addr \<Rightarrow> ('w, 'a) core_loop_scheme \<Rightarrow> ('w, 'a) core_loop_scheme" where
  "pended h s = s\<lparr>next_closing := (next_closing s)(h := closing_handles s), closing_handles := Some h\<rparr>"

definition taken_off :: "addr \<Rightarrow> ('w, 'a) core_loop_scheme \<Rightarrow> ('w, 'a) core_loop_scheme" where
  "taken_off h s = (let s = uv__handle_unref h s in s\<lparr>qs := QUEUE_REMOVE (NodeQ HandleK h) (qs s)\<rparr>)"

text \<open>The types that are closed by a function of another file.\<close>

definition closed_elsewhere :: "uv_handle_type set" where
  "closed_elsewhere = {UV_NAMED_PIPE, UV_TTY, UV_TCP, UV_UDP, UV_PROCESS, UV_FS_EVENT, UV_POLL, UV_SIGNAL}"

lemma marked_flags:
  "has_flag (marked h cb s) h UV_HANDLE_CLOSING" "has_flag (marked h cb s) h UV_HANDLE_CLOSED = has_flag s h UV_HANDLE_CLOSED"
  "close_cb (marked h cb s) h = cb" "htype (marked h cb s) = htype s" "closing_handles (marked h cb s) = closing_handles s"
  "next_closing (marked h cb s) = next_closing s"
  by (simp_all add: marked_def Let_def set_flag_def has_flag_def flag_or)

lemma pended_flag: "has_flag (pended h s) k m = has_flag s k m"
  by (simp add: pended_def has_flag_def)

lemma same_closingD:
  assumes "same_closing s s'"
  shows "htype s' = htype s" "closing_handles s' = closing_handles s" "next_closing s' = next_closing s" "close_cb s' = close_cb s"
    "has_flag s' k UV_HANDLE_CLOSING = has_flag s k UV_HANDLE_CLOSING" "has_flag s' k UV_HANDLE_CLOSED = has_flag s k UV_HANDLE_CLOSED"
  using assms by (simp_all add: same_closing_def)

lemma uv_close_elsewhere:
  assumes "htype s h \<in> closed_elsewhere" and "\<not> uv__is_closing s h" and "close_other U h (marked h cb s) = Some s'"
    and "same_closing (marked h cb s) s'"
  shows "uv_close U relax h cb s = Some (pended h s')"
proof -
  have fl: "has_flag s' h UV_HANDLE_CLOSING" "\<not> has_flag s' h UV_HANDLE_CLOSED"
    using assms(2,4) marked_flags(1,2) [of h cb s] by (auto simp: same_closing_def is_closing_iff)
  have "htype (set_flag h UV_HANDLE_CLOSING s) h = htype s h" by (simp add: set_flag_def)
  then show ?thesis using assms(1-3) fl
    by (auto simp: uv_close_def marked_def Let_def closed_elsewhere_def uv__make_close_pending_def pended_def)
qed

section \<open>The contracts\<close>

locale closer =
  fixes close_h :: "addr \<Rightarrow> ('w, 'a) core_loop_scheme \<Rightarrow> ('w, 'a) core_loop_scheme option"
    and ready :: "addr \<Rightarrow> ('w, 'a) core_loop_scheme \<Rightarrow> bool"
  assumes marking: "ready h s \<Longrightarrow> ready h (marked h cb s)"
    and closes: "ready h s \<Longrightarrow> \<exists>s'. close_h h s = Some s' \<and> same_closing s s'"
begin

lemma close_pends:
  assumes "ready h s" and "htype s h \<in> closed_elsewhere" and "\<not> uv__is_closing s h" and "\<And>s. close_other U h s = close_h h s"
  shows "\<exists>s1. close_h h (marked h cb s) = Some s1 \<and> same_closing (marked h cb s) s1 \<and> uv_close U relax h cb s = Some (pended h s1) \<and>
    uv__is_closing s1 h \<and> uv_close U relax h cb2 (pended h s1) = None"
proof -
  obtain s1 where s1: "close_h h (marked h cb s) = Some s1" "same_closing (marked h cb s) s1"
    using closes [OF marking [OF assms(1)]] by blast
  have "uv_close U relax h cb s = Some (pended h s1)"
    using uv_close_elsewhere [OF assms(2,3) _ s1(2)] s1(1) assms(4) by simp
  moreover have c: "uv__is_closing s1 h" using s1(2) marked_flags(1) [of h cb s] by (simp add: same_closing_def is_closing_iff)
  moreover have "uv__is_closing (pended h s1) h" using c by (simp add: is_closing_iff pended_flag)
  ultimately show ?thesis using s1 by (intro exI [of _ s1]) (simp add: uv_close_def)
qed

end

locale ender = closer close_h ready
  for close_h :: "addr \<Rightarrow> ('w, 'a) core_loop_scheme \<Rightarrow> ('w, 'a) core_loop_scheme option" and ready +
  fixes end_h :: "addr \<Rightarrow> ('w, 'a) core_loop_scheme \<Rightarrow> ('w, 'a) core_loop_scheme option"
    and doomed :: "addr \<Rightarrow> ('w, 'a) core_loop_scheme \<Rightarrow> bool"
  assumes dooms: "ready h s \<Longrightarrow> close_h h s = Some s' \<Longrightarrow> doomed h s'"
    and lists: "doomed h s \<Longrightarrow> doomed h (s\<lparr>next_closing := n, closing_handles := c\<rparr>)"
    and ends: "doomed h s \<Longrightarrow> \<exists>s'. end_h h (set_flag h UV_HANDLE_CLOSED s) = Some s' \<and> same_closing (set_flag h UV_HANDLE_CLOSED s) s'"
begin

text \<open>One run of the closing handles ends the handle and then calls its close callback.\<close>

lemma close_finishes:
  assumes "ready h s" and "htype s h \<in> {UV_NAMED_PIPE, UV_TTY, UV_TCP, UV_UDP}" and "\<not> uv__is_closing s h"
    and "closing_handles s = None" and "\<And>s. close_other U h s = close_h h s" and "\<And>s. destroy_other U h s = end_h h s"
  shows "\<exists>s1 s2. close_h h (marked h (Some cb) s) = Some s1 \<and> doomed h s1 \<and> uv_close U relax h (Some cb) s = Some (pended h s1) \<and>
    end_h h (set_flag h UV_HANDLE_CLOSED ((pended h s1)\<lparr>closing_handles := None\<rparr>)) = Some s2 \<and>
    uv__run_closing_handles U (pended h s1) = call_close U cb h (taken_off h s2) \<bind> run_closing_loop U None"
proof -
  have ty: "htype s h \<in> closed_elsewhere" using assms(2) by (auto simp: closed_elsewhere_def)
  obtain s1 where s1: "close_h h (marked h (Some cb) s) = Some s1" "same_closing (marked h (Some cb) s) s1"
    "uv_close U relax h (Some cb) s = Some (pended h s1)"
    using close_pends [OF assms(1) ty assms(3,5)] by blast
  have d: "doomed h s1" by (rule dooms [OF marking [OF assms(1)] s1(1)])
  let ?t = "(pended h s1)\<lparr>closing_handles := None\<rparr>"
  have "doomed h ?t" using lists [OF d, where n = "(next_closing s1)(h := closing_handles s1)" and c = None] by (simp add: pended_def)
  then obtain s2 where s2: "end_h h (set_flag h UV_HANDLE_CLOSED ?t) = Some s2" "same_closing (set_flag h UV_HANDLE_CLOSED ?t) s2"
    using ends by blast
  have k: "has_flag ?t h m = has_flag s1 h m" for m by (simp add: pended_def has_flag_def)
  note m = same_closingD [OF s1(2)]
  have f: "has_flag ?t h UV_HANDLE_CLOSING" "\<not> has_flag ?t h UV_HANDLE_CLOSED"
    using assms(3) marked_flags(1) [of h "Some cb" s] unfolding k m marked_flags(2) is_closing_iff by blast+
  have g: "htype ?t h = htype s h" "close_cb ?t h = Some cb" "closing_handles (pended h s1) = Some h" "next_closing (pended h s1) h = None"
    using assms(4) by (simp_all add: pended_def m marked_flags)
  have ty2: "htype (set_flag h UV_HANDLE_CLOSED ?t) h = htype s h" using g(1) by (simp add: set_flag_def)
  have cb: "close_cb s2 h = Some cb" using s2(2) g(2) by (simp add: same_closing_def set_flag_def)
  moreover have "close_cb (uv__handle_unref h s2) = close_cb s2" by (simp add: handle_defs clear_flag_def)
  ultimately have "finish_handle U h s2 = call_close U cb h (taken_off h s2)"
    by (simp add: finish_handle_def taken_off_def Let_def)
  then have "uv__finish_close U h ?t = call_close U cb h (taken_off h s2)"
    using assms(2,6) f(1,2) ty2 s2(1) by (auto simp: uv__finish_close_def)
  then have "uv__run_closing_handles U (pended h s1) = call_close U cb h (taken_off h s2) \<bind> run_closing_loop U None"
    unfolding uv__run_closing_handles_def g(3) by (subst run_closing_loop.simps) (simp add: g(4))
  then show ?thesis using s1 d s2(1) by blast
qed

end

section \<open>What the closing functions keep\<close>

lemma io_stop_same_closing: "uv__io_stop w e s = Some s' \<Longrightarrow> same_closing s s'"
  by (rule same_closingI)
    (auto simp: uv__io_stop_def Let_def set_watcher_at_def split: if_splits bind_splits)

lemma invalidate_same_closing: "uv__platform_invalidate_fd K fd s = Some s' \<Longrightarrow> same_closing s s'"
  by (rule same_closingI)
    (auto simp: uv__platform_invalidate_fd_def Let_def sys_def split: if_splits bind_splits prod.splits slot.splits)

lemma handle_stop_same_closing: "same_closing s (uv__handle_stop h s)"
proof -
  have "has_flag (uv__handle_stop h s) k m = has_flag s k m" if "m = UV_HANDLE_CLOSING \<or> m = UV_HANDLE_CLOSED" for k m
    using that by (auto simp: flag_simps)
  then show ?thesis by (auto simp: same_closing_def handle_defs clear_flag_def)
qed

lemma poll_close_same_closing:
  assumes "uv__poll_close K h s = Some s'"
  shows "same_closing s s'"
proof -
  obtain s1 where "uv__io_stop h POLL_ALL s = Some s1" "uv__platform_invalidate_fd K (io_fd (uv__handle_stop h s1) h) (uv__handle_stop h s1) = Some s'"
    using assms by (auto simp: uv__poll_close_def uv__poll_stop_def Let_def split: bind_splits)
  from io_stop_same_closing [OF this(1)] invalidate_same_closing [OF this(2)] handle_stop_same_closing [of s1 h]
  show ?thesis by (blast intro: same_closing_trans)
qed

lemma poll_registered_same:
  assumes "io_fd s' = io_fd s" "io_events s' = io_events s" "io_pevents s' = io_pevents s" "nwatchers s' = nwatchers s"
    "watchers s' = watchers s"
  shows "poll_registered s' h = poll_registered s h"
  using assms by (simp add: poll_registered_def watcher_at_def)

definition poll_ready :: "addr \<Rightarrow> ('w, 'a) core_loop_scheme \<Rightarrow> bool" where
  "poll_ready h s \<longleftrightarrow> io_ok s \<and> watchers s \<noteq> None \<and> 0 \<le> io_fd s h \<and> poll_registered s h"

lemma marked_io:
  "io_fd (marked h cb s) = io_fd s" "io_events (marked h cb s) = io_events s" "io_pevents (marked h cb s) = io_pevents s"
  "nwatchers (marked h cb s) = nwatchers s" "watchers (marked h cb s) = watchers s" "nfds (marked h cb s) = nfds s"
  "os (marked h cb s) = os s"
  by (simp_all add: marked_def Let_def set_flag_def)

lemma io_ok_marked: "io_ok (marked h cb s) = io_ok s"
  by (rule io_ok_same) (simp_all add: marked_io)

lemma poll_registered_marked: "poll_registered (marked h cb s) k = poll_registered s k"
  by (rule poll_registered_same) (simp_all add: marked_io)

interpretation poll_closer: closer "uv__poll_close K :: addr \<Rightarrow> ('w, 'a) core_loop_scheme \<Rightarrow> _" poll_ready
  for K :: "'w io_kernel"
proof
  fix h and s :: "('w, 'a) core_loop_scheme" and cb :: "nat option"
  assume r: "poll_ready h s"
  show "poll_ready h (marked h cb s)"
    using r by (simp add: poll_ready_def marked_io io_ok_marked poll_registered_marked)
next
  fix h and s :: "('w, 'a) core_loop_scheme"
  assume "poll_ready h s"
  then obtain s' where s': "uv__poll_stop K h s = Some s'"
    unfolding poll_ready_def using poll_stop_ok by blast
  then have "uv__poll_close K h s = Some s'" by (simp add: uv__poll_close_def)
  then show "\<exists>s'. uv__poll_close K h s = Some s' \<and> same_closing s s'" using poll_close_same_closing by blast
qed

text \<open>What closing a stream leaves for its end.\<close>

definition stream_kept :: "('w, 'a) stream_loop_scheme \<Rightarrow> ('w, 'a) stream_loop_scheme \<Rightarrow> bool" where
  "stream_kept s s' \<longleftrightarrow> same_writes s s' \<and> req_cb s' = req_cb s \<and> connect_req s' = connect_req s \<and>
     shutdown_req s' = shutdown_req s \<and> active_reqs s' = active_reqs s \<and> stream_loop.more s' = stream_loop.more s"

lemma stream_keptI:
  assumes "write_queue s' = write_queue s" "write_completed_queue s' = write_completed_queue s" "write_queue_size s' = write_queue_size s"
    "req_handle s' = req_handle s" "w_error s' = w_error s" "w_bufs s' = w_bufs s" "w_index s' = w_index s" "req_cb s' = req_cb s"
    "connect_req s' = connect_req s" "shutdown_req s' = shutdown_req s" "active_reqs s' = active_reqs s"
    "stream_loop.more s' = stream_loop.more s"
  shows "stream_kept s s'"
  using assms by (simp add: stream_kept_def same_writes_def)

lemma stream_kept_trans: "stream_kept a b \<Longrightarrow> stream_kept b c \<Longrightarrow> stream_kept a c"
  by (simp add: stream_kept_def same_writes_def)

lemma io_stop_kept: "uv__io_stop w e s = Some s' \<Longrightarrow> stream_kept s s'"
  by (rule stream_keptI) (auto simp: uv__io_stop_def Let_def set_watcher_at_def split: if_splits bind_splits)

lemma invalidate_kept: "uv__platform_invalidate_fd K fd s = Some s' \<Longrightarrow> stream_kept s s'"
  by (rule stream_keptI)
    (auto simp: uv__platform_invalidate_fd_def Let_def sys_def split: if_splits bind_splits prod.splits slot.splits)

lemma io_close_steps:
  assumes "uv__io_close K h s = Some s'"
  obtains s1 where "uv__io_stop h POLL_ALL s = Some s1"
    "s' = s1\<lparr>qs := QUEUE_REMOVE (NodeQ PendingK h) (qs s1)\<rparr> \<or>
     uv__platform_invalidate_fd K (io_fd s1 h) (s1\<lparr>qs := QUEUE_REMOVE (NodeQ PendingK h) (qs s1)\<rparr>) = Some s'"
  using assms by (auto simp: uv__io_close_def Let_def split: bind_splits if_splits)

lemma io_close_same_closing:
  assumes "uv__io_close K h s = Some s'"
  shows "same_closing s s'"
proof -
  obtain s1 where s1: "uv__io_stop h POLL_ALL s = Some s1"
    "s' = s1\<lparr>qs := QUEUE_REMOVE (NodeQ PendingK h) (qs s1)\<rparr> \<or>
     uv__platform_invalidate_fd K (io_fd s1 h) (s1\<lparr>qs := QUEUE_REMOVE (NodeQ PendingK h) (qs s1)\<rparr>) = Some s'"
    using assms by (rule io_close_steps)
  have "same_closing s1 (s1\<lparr>qs := QUEUE_REMOVE (NodeQ PendingK h) (qs s1)\<rparr>)" by (rule same_closingI) simp_all
  then show ?thesis using io_stop_same_closing [OF s1(1)] s1(2) invalidate_same_closing
    by (blast intro: same_closing_trans)
qed

lemma io_close_kept:
  assumes "uv__io_close K h s = Some s'"
  shows "stream_kept s s'"
proof -
  obtain s1 where s1: "uv__io_stop h POLL_ALL s = Some s1"
    "s' = s1\<lparr>qs := QUEUE_REMOVE (NodeQ PendingK h) (qs s1)\<rparr> \<or>
     uv__platform_invalidate_fd K (io_fd s1 h) (s1\<lparr>qs := QUEUE_REMOVE (NodeQ PendingK h) (qs s1)\<rparr>) = Some s'"
    using assms by (rule io_close_steps)
  have "stream_kept s1 (s1\<lparr>qs := QUEUE_REMOVE (NodeQ PendingK h) (qs s1)\<rparr>)" by (rule stream_keptI) simp_all
  then show ?thesis using io_stop_kept [OF s1(1)] s1(2) invalidate_kept by (blast intro: stream_kept_trans)
qed

lemma clear_flag_same_closing:
  assumes "m AND UV_HANDLE_CLOSING = 0" "m AND UV_HANDLE_CLOSED = 0"
  shows "same_closing s (clear_flag h m s)"
  using assms has_clear_flag [of m UV_HANDLE_CLOSING h s] has_clear_flag [of m UV_HANDLE_CLOSED h s]
  by (auto simp: same_closing_def) (auto simp: clear_flag_def)

lemma handle_stop_kept: "stream_kept s (uv__handle_stop h s)"
  by (rule stream_keptI) (simp_all add: handle_defs clear_flag_def)

lemma clear_flag_kept: "stream_kept s (clear_flag h m s)"
  by (rule stream_keptI) (simp_all add: clear_flag_def)

lemma read_stop_keeps:
  assumes "uv_read_stop h s = Some s'"
  shows "same_closing s s'" "stream_kept s s'"
proof -
  have "same_closing s s' \<and> stream_kept s s'"
  proof (cases "has_flag s h UV_HANDLE_READING")
    case False
    then show ?thesis using assms by (simp add: uv_read_stop_def same_closing_def stream_kept_def same_writes_def)
  next
    case True
    let ?c = "clear_flag h UV_HANDLE_READING s"
    obtain s1 where s1: "uv__io_stop h POLLIN ?c = Some s1"
      "s' = (uv__handle_stop h s1)\<lparr>read_cb := (read_cb (uv__handle_stop h s1))(h := None),
         alloc_cb := (alloc_cb (uv__handle_stop h s1))(h := None)\<rparr>"
      using assms True by (auto simp: uv_read_stop_def Let_def split: bind_splits)
    have "same_closing (uv__handle_stop h s1) s'" unfolding s1(2) by (rule same_closingI) simp_all
    moreover have "stream_kept (uv__handle_stop h s1) s'" unfolding s1(2) by (rule stream_keptI) simp_all
    moreover have "same_closing s ?c" by (rule clear_flag_same_closing) simp_all
    ultimately show ?thesis
      using io_stop_same_closing [OF s1(1)] io_stop_kept [OF s1(1)] clear_flag_kept [of s h UV_HANDLE_READING]
        handle_stop_same_closing [of s1 h] handle_stop_kept [of s1 h]
      by (blast intro: same_closing_trans stream_kept_trans)
  qed
  then show "same_closing s s'" "stream_kept s s'" by blast+
qed

lemma stream_close_keeps:
  assumes "uv__stream_close K h s = Some s'"
  shows "same_closing s s'" "stream_kept s s'"
proof -
  obtain s1 s2 where s1: "uv__io_close (ioK K) h s = Some s1" and s2: "uv_read_stop h s1 = Some s2"
    using assms unfolding uv__stream_close_def by (auto split: bind_splits)
  define s3 where "s3 = clear_flag h (UV_HANDLE_READABLE OR UV_HANDLE_WRITABLE) (uv__handle_stop h s2)"
  have s': "s' = s3\<lparr>os := os s', io_fd := io_fd s', accepted_fd := accepted_fd s', queued_fds := queued_fds s'\<rparr>"
    using assms unfolding uv__stream_close_def s1 s2 bind.bind_lunit Let_def s3_def [symmetric]
    by (auto simp: sys_prog_def split: bind_splits if_splits option.splits prod.splits)
  have "same_closing s3 s'" by (rule same_closingI) (subst s', simp)+
  moreover have "same_closing (uv__handle_stop h s2) s3" unfolding s3_def by (rule clear_flag_same_closing) simp_all
  ultimately show "same_closing s s'"
    using io_close_same_closing [OF s1] read_stop_keeps(1) [OF s2] handle_stop_same_closing [of s2 h] by (blast intro: same_closing_trans)
  have "stream_kept s3 s'" by (rule stream_keptI) (subst s', simp)+
  then show "stream_kept s s'"
    using io_close_kept [OF s1] read_stop_keeps(2) [OF s2] handle_stop_kept [of s2 h] clear_flag_kept [of "uv__handle_stop h s2" h]
    unfolding s3_def by (blast intro: stream_kept_trans)
qed

section \<open>Streams\<close>

text \<open>The requests of a stream that are not over, counted, and with callbacks where they are called without a test.\<close>

definition stream_owes :: "('w, 'a) stream_loop_scheme \<Rightarrow> addr \<Rightarrow> bool" where
  "stream_owes s h \<longleftrightarrow> stream_ok s h \<and>
     (\<forall>r. connect_req s h = Some r \<or> shutdown_req s h = Some r \<longrightarrow> req_cb s r \<noteq> None) \<and>
     card (set_option (connect_req s h)) + card (set_option (shutdown_req s h)) +
       length (write_queue s h) + length (write_completed_queue s h) \<le> unat (active_reqs s)"

lemma stream_owes_kept: "stream_kept s s' \<Longrightarrow> stream_owes s' h = stream_owes s h"
  using same_writes_ok [of s s' h] by (simp add: stream_owes_def stream_kept_def same_writes_def)

definition stream_holds :: "'w stream_kernel \<Rightarrow> ('w \<Rightarrow> int set) \<Rightarrow> addr \<Rightarrow> ('w, 'a) stream_loop_scheme \<Rightarrow> bool" where
  "stream_holds K fds h s \<longleftrightarrow> stream_fd_laws K fds \<and> io_ok s \<and> watchers s \<noteq> None \<and> -1 \<le> io_fd s h \<and> pending_ok s h \<and>
     (0 \<le> io_fd s h \<and> io_fd s h < uint (nwatchers s) \<or> io_pevents s h = 0) \<and>
     distinct (held_fds s h) \<and> (\<forall>fd \<in> set (held_fds s h). fd > 2 \<and> fd \<in> fds (os s))"

type_synonym 'w recorded = "('w, (addr \<times> status) list) stream_loop_scheme"

definition stream_ready :: "'w stream_kernel \<Rightarrow> ('w \<Rightarrow> int set) \<Rightarrow> 'w recorded stream_calls \<Rightarrow> addr \<Rightarrow> 'w recorded \<Rightarrow> bool" where
  "stream_ready K fds U h s \<longleftrightarrow> call_req U = record_req \<and> stream_holds K fds h s \<and> stream_owes s h"

definition stream_doomed :: "'w recorded stream_calls \<Rightarrow> addr \<Rightarrow> 'w recorded \<Rightarrow> bool" where
  "stream_doomed U h s \<longleftrightarrow> call_req U = record_req \<and> stream_owes s h \<and> io_pevents s h AND (POLLIN OR POLLOUT) = 0"

lemma marked_kept: "stream_kept s (marked h cb s)"
  by (rule stream_keptI) (simp_all add: marked_def Let_def set_flag_def)

lemma stream_owes_marked: "stream_owes (marked h cb s) k = stream_owes s k"
  by (rule stream_owes_kept [OF marked_kept])

lemma marked_holds: "stream_holds K fds h (marked h cb s) = stream_holds K fds h s"
proof -
  have f: "accepted_fd (marked h cb s) = accepted_fd s" "queued_fds (marked h cb s) = queued_fds s"
    by (simp_all add: marked_def Let_def set_flag_def)
  then have "pending_ok (marked h cb s) h = pending_ok s h" "held_fds (marked h cb s) h = held_fds s h"
    by (simp_all add: pending_ok_def held_fds_def pending_fds_def marked_io)
  then show ?thesis by (simp add: stream_holds_def io_ok_marked marked_io)
qed

lemma stream_holds_close:
  assumes "stream_holds K fds h s"
  shows "\<exists>s'. uv__stream_close K h s = Some s' \<and> same_closing s s' \<and> stream_kept s s' \<and> fds (os s') = fds (os s) - set (held_fds s h) \<and>
    io_pevents s' h AND (POLLIN OR POLLOUT) = 0"
proof -
  obtain s' where "uv__stream_close K h s = Some s'" "fds (os s') = fds (os s) - set (held_fds s h)"
    "io_pevents s' h AND (POLLIN OR POLLOUT) = 0"
    using stream_close_result [of K fds s h] assms unfolding stream_holds_def by blast
  then show ?thesis using stream_close_keeps by blast
qed

lemma stream_doomed_ends:
  assumes "stream_doomed U h s"
  shows "\<exists>s'. uv__stream_destroy U h (set_flag h UV_HANDLE_CLOSED s) = Some s' \<and> same_closing (set_flag h UV_HANDLE_CLOSED s) s'"
proof -
  let ?t = "set_flag h UV_HANDLE_CLOSED s"
  have "stream_kept s ?t" by (rule stream_keptI) (simp_all add: set_flag_def)
  then have "stream_owes ?t h" using assms stream_owes_kept by (auto simp: stream_doomed_def)
  moreover have "io_pevents ?t h AND (POLLIN OR POLLOUT) = 0" using assms by (simp add: stream_doomed_def set_flag_def)
  moreover have "has_flag ?t h UV_HANDLE_CLOSED" by (simp add: flag_simps)
  ultimately show ?thesis
    using stream_destroy_result [of U ?t h] assms unfolding stream_owes_def stream_doomed_def by blast
qed

interpretation stream_ender: ender "uv__stream_close K :: addr \<Rightarrow> 'w recorded \<Rightarrow> _" "stream_ready K fds U" "uv__stream_destroy U"
  "stream_doomed U"
  for K :: "'w stream_kernel" and fds U
proof
  fix h and s :: "'w recorded" and cb :: "nat option"
  assume "stream_ready K fds U h s"
  then show "stream_ready K fds U h (marked h cb s)"
    by (simp add: stream_ready_def marked_holds stream_owes_marked)
next
  fix h and s :: "'w recorded"
  assume "stream_ready K fds U h s"
  then show "\<exists>s'. uv__stream_close K h s = Some s' \<and> same_closing s s'"
    using stream_holds_close [of K fds h s] unfolding stream_ready_def by blast
next
  fix h and s s' :: "'w recorded"
  assume "stream_ready K fds U h s" "uv__stream_close K h s = Some s'"
  then show "stream_doomed U h s'"
    using stream_holds_close [of K fds h s] stream_owes_kept [of s s' h] by (auto simp: stream_ready_def stream_doomed_def)
next
  fix h n c and s :: "'w recorded"
  assume "stream_doomed U h s"
  moreover have "stream_kept s (s\<lparr>next_closing := n, closing_handles := c\<rparr>)" by (rule stream_keptI) simp_all
  ultimately show "stream_doomed U h (s\<lparr>next_closing := n, closing_handles := c\<rparr>)"
    using stream_owes_kept by (auto simp: stream_doomed_def)
next
  fix h and s :: "'w recorded"
  assume "stream_doomed U h s"
  then show "\<exists>s'. uv__stream_destroy U h (set_flag h UV_HANDLE_CLOSED s) = Some s' \<and> same_closing (set_flag h UV_HANDLE_CLOSED s) s'"
    by (rule stream_doomed_ends)
qed

section \<open>Pipes, UDP handles and signals\<close>

lemma unlink_same: "same_closing s (s\<lparr>os := w, pipe_fname := f\<rparr>)"
  by (rule same_closingI) simp_all

definition pipe_ready :: "'w pipe_kernel \<Rightarrow> ('w \<Rightarrow> int set) \<Rightarrow> addr \<Rightarrow> ('w, 'a) pipe_loop_scheme \<Rightarrow> bool" where
  "pipe_ready K fds h s \<longleftrightarrow> stream_holds (pstK K) fds h s \<and> (\<forall>name w. fds (snd (k_unlink K name w)) = fds w)"

lemma pipe_closes:
  assumes "pipe_ready K fds h s"
  shows "\<exists>s'. uv__pipe_close K h s = Some s' \<and> same_closing s s'"
proof -
  define t where "t = (case pipe_fname s h of
                 Some name \<Rightarrow> (case sys (k_unlink K name) s of (_, s) \<Rightarrow> s\<lparr>pipe_fname := (pipe_fname s)(h := None)\<rparr>)
               | None \<Rightarrow> s)"
  have t: "t = s\<lparr>os := os t, pipe_fname := pipe_fname t\<rparr>" "fds (os t) = fds (os s)"
    using assms by (auto simp: t_def sys_case pipe_ready_def split: option.split)
  have f: "io_fd t = io_fd s" "watchers t = watchers s" "nwatchers t = nwatchers s" "nfds t = nfds s" "io_pevents t = io_pevents s"
    "accepted_fd t = accepted_fd s" "queued_fds t = queued_fds s"
    by (subst t(1); simp)+
  have "io_ok t = io_ok s" by (rule io_ok_same [OF f(2-4,1,5)])
  moreover have "pending_ok t h = pending_ok s h" "held_fds t h = held_fds s h"
    by (simp_all add: pending_ok_def held_fds_def pending_fds_def f)
  ultimately have "stream_holds (pstK K) fds h t" using assms t(2) by (simp add: pipe_ready_def stream_holds_def f)
  then obtain s' where "uv__stream_close (pstK K) h t = Some s'" "same_closing t s'" using stream_holds_close by blast
  moreover have "same_closing s t" by (subst t(1)) (rule unlink_same)
  ultimately show ?thesis unfolding uv__pipe_close_def t_def [symmetric] Let_def by (blast intro: same_closing_trans)
qed

interpretation pipe_closer: closer "uv__pipe_close K :: addr \<Rightarrow> ('w, 'a) pipe_loop_scheme \<Rightarrow> _" "pipe_ready K fds"
  for K :: "'w pipe_kernel" and fds
proof
  fix h and s :: "('w, 'a) pipe_loop_scheme" and cb :: "nat option"
  assume "pipe_ready K fds h s"
  then show "pipe_ready K fds h (marked h cb s)" by (simp add: pipe_ready_def marked_holds)
qed (rule pipe_closes)

definition udp_ready :: "'w udp_kernel \<Rightarrow> ('w \<Rightarrow> int set) \<Rightarrow> addr \<Rightarrow> ('w, 'a) udp_loop_scheme \<Rightarrow> bool" where
  "udp_ready K fds h s \<longleftrightarrow> stream_fd_laws (stream_kernel.truncate K) fds \<and> io_ok s \<and> watchers s \<noteq> None \<and>
     (io_fd s h = -1 \<or> io_fd s h > 2 \<and> io_fd s h \<in> fds (os s)) \<and>
     (0 \<le> io_fd s h \<and> io_fd s h < uint (nwatchers s) \<or> io_pevents s h = 0)"

lemma udp_closes:
  assumes "udp_ready K fds h s"
  shows "\<exists>s'. uv__udp_close K h s = Some s' \<and> same_closing s s'"
proof -
  have r: "stream_fd_laws (stream_kernel.truncate K) fds" "io_ok s" "watchers s \<noteq> None"
    "io_fd s h = -1 \<or> io_fd s h > 2 \<and> io_fd s h \<in> fds (os s)"
    "0 \<le> io_fd s h \<and> io_fd s h < uint (nwatchers s) \<or> io_pevents s h = 0"
    using assms by (simp_all add: udp_ready_def)
  have tr: "io_kernel.truncate (stream_kernel.truncate K) = uioK K" "fd_kernel.truncate (stream_kernel.truncate K) = ufdK K"
    by (simp_all add: stream_kernel.truncate_def io_kernel.truncate_def fd_kernel.truncate_def)
  have "-1 \<le> io_fd s h" using r(4) by auto
  from io_close_result [OF r(1-3) this r(5), unfolded tr] obtain s1 where s1: "uv__io_close (uioK K) h s = Some s1"
    "fds (os s1) = fds (os s)" "io_fd s1 = io_fd s" by blast
  let ?t = "uv__handle_stop h s1"
  have f: "io_fd ?t = io_fd s" "os ?t = os s1" by (simp_all add: handle_defs clear_flag_def s1(3))
  have st: "same_closing s ?t"
    using io_close_same_closing [OF s1(1)] handle_stop_same_closing [of s1 h] by (rule same_closing_trans)
  show ?thesis
  proof (cases "io_fd s h = -1")
    case True
    then have "uv__udp_close K h s = Some ?t" using s1(1) f by (simp add: uv__udp_close_def)
    then show ?thesis using st by blast
  next
    case False
    have L: "fd_laws (fdK (stream_kernel.truncate K)) fds" using r(1) by (simp add: stream_fd_laws_def)
    obtain w where w: "sys_prog (uv__close (ufdK K) (io_fd s h)) ?t = Some (Inr (), ?t\<lparr>os := w\<rparr>)"
      using sys_close [OF L, of "io_fd s h" ?t] r(4) False s1(2) f(2) unfolding tr by auto
    let ?u = "?t\<lparr>os := w, io_fd := (io_fd s)(h := -1)\<rparr>"
    have "uv__udp_close K h s = Some ?u" using s1(1) f(1) w False by (simp add: uv__udp_close_def)
    moreover have "same_closing ?t ?u" by (rule same_closingI) simp_all
    ultimately show ?thesis using same_closing_trans [OF st] by blast
  qed
qed

interpretation udp_closer: closer "uv__udp_close K :: addr \<Rightarrow> ('w, 'a) udp_loop_scheme \<Rightarrow> _" "udp_ready K fds"
  for K :: "'w udp_kernel" and fds
proof
  fix h and s :: "('w, 'a) udp_loop_scheme" and cb :: "nat option"
  assume "udp_ready K fds h s"
  then show "udp_ready K fds h (marked h cb s)" by (simp add: udp_ready_def io_ok_marked marked_io)
qed (rule udp_closes)

definition signal_ready ::
  "'w signal_kernel \<Rightarrow> int \<times> int \<Rightarrow> ('w \<Rightarrow> int \<Rightarrow> disposition) \<Rightarrow> (int \<Rightarrow> bool) \<Rightarrow> ('w \<Rightarrow> bool) \<Rightarrow> ('w \<Rightarrow> string) \<Rightarrow> nat \<Rightarrow>
    addr \<Rightarrow> ('w, 'a) signal_loop_scheme \<Rightarrow> bool" where
  "signal_ready K p disp valid unlocked input room h s \<longleftrightarrow>
     signal_laws K (signal_lock_pipefd s) p disp valid unlocked input room \<and> unlocked (os s) \<and> tree_ok valid s"

lemma marked_tree: "tree_ok valid (marked h cb s) = tree_ok valid s"
proof -
  have f: "signum (marked h cb s) = signum s" "signal_tree (marked h cb s) = signal_tree s" "sig_loop (marked h cb s) = sig_loop s"
    by (simp_all add: marked_def Let_def set_flag_def)
  have "flags (marked h cb s) k AND UV_SIGNAL_ONE_SHOT = flags s k AND UV_SIGNAL_ONE_SHOT" for k
    by (simp add: marked_def Let_def set_flag_def bit.conj_disj_distrib2)
  then have "sig_key (marked h cb s) = sig_key s" by (simp add: fun_eq_iff sig_key_def f)
  then show ?thesis by (simp add: tree_ok_def in_order_def f)
qed

interpretation signal_closer: closer "uv__signal_close K :: addr \<Rightarrow> ('w, 'a) signal_loop_scheme \<Rightarrow> _"
  "signal_ready K p disp valid unlocked input room"
  for K :: "'w signal_kernel" and p disp valid unlocked input room
proof
  fix h and s :: "('w, 'a) signal_loop_scheme" and cb :: "nat option"
  assume "signal_ready K p disp valid unlocked input room h s"
  moreover have "signal_lock_pipefd (marked h cb s) = signal_lock_pipefd s" by (simp add: marked_def Let_def set_flag_def)
  ultimately show "signal_ready K p disp valid unlocked input room h (marked h cb s)"
    by (simp add: signal_ready_def marked_tree marked_io)
next
  fix h and s :: "('w, 'a) signal_loop_scheme"
  assume r: "signal_ready K p disp valid unlocked input room h s"
  show "\<exists>s'. uv__signal_close K h s = Some s' \<and> same_closing s s'"
  proof (cases "signum s h = 0")
    case True
    then show ?thesis by (simp add: uv__signal_close_def uv__signal_stop_def same_closing_def)
  next
    case False
    obtain s' where s': "uv__signal_stop K h s = Some s'" "stop_frame s s'"
      "\<forall>k m. m AND UV_HANDLE_ACTIVE = 0 \<longrightarrow> has_flag s' k m = has_flag s k m"
      using signal_stop_result [OF _ _ _ False, of K p disp valid unlocked input room] r unfolding signal_ready_def by blast
    note e = s'(2) [unfolded stop_frame_def]
    have "htype s' = htype s" "closing_handles s' = closing_handles s" "next_closing s' = next_closing s" "close_cb s' = close_cb s"
      "caught_signals s' = caught_signals s" "dispatched_signals s' = dispatched_signals s"
      by (subst e; simp)+
    then have "same_closing s s'" using s'(3) by (auto simp: same_closing_def)
    then show ?thesis using s'(1) by (simp add: uv__signal_close_def)
  qed
qed

section \<open>Streams with nothing left\<close>

text \<open>
  The streams of the loop have no request left and ask for no event.  Destroying one changes nothing then, so that
  they meet the \<open>closing_laws\<close> of theory \<open>Core\<close>.
\<close>

definition streams_spent :: "('w, 'a) stream_loop_scheme \<Rightarrow> bool" where
  "streams_spent s \<longleftrightarrow> (\<forall>h. htype s h \<in> destroyed_elsewhere \<longrightarrow>
     htype s h \<noteq> UV_UDP \<and> io_pevents s h AND (POLLIN OR POLLOUT) = 0 \<and> connect_req s h = None \<and> shutdown_req s h = None \<and>
     write_queue s h = [] \<and> write_completed_queue s h = [] \<and> write_queue_size s h = 0)"

lemma stream_destroy_spent:
  assumes "streams_spent s" and "htype s h \<in> destroyed_elsewhere" and "has_flag s h UV_HANDLE_CLOSED"
  shows "uv__stream_destroy U h s = Some s"
proof -
  have s: "io_pevents s h AND (POLLIN OR POLLOUT) = 0" "connect_req s h = None" "shutdown_req s h = None"
    "write_queue s h = []" "write_completed_queue s h = []" "write_queue_size s h = 0"
    using assms(1,2) unfolding streams_spent_def by blast+
  have "(write_queue s)(h := []) = write_queue s" "(write_completed_queue s)(h := []) = write_completed_queue s"
    using s(4,5) by auto
  then show ?thesis using s assms(3)
    by (simp add: uv__stream_destroy_def uv__io_active_def uv__stream_flush_write_queue_def uv__write_callbacks_def Let_def)
qed

lemma streams_closing_laws:
  "closing_laws \<lparr>call_timer = \<lambda>_ _. Some, call_watcher_cb = \<lambda>_ _. Some, call_io = \<lambda>_ _ _. Some, call_close = \<lambda>_ _. Some,
     close_other = uv__stream_close K, destroy_other = uv__stream_destroy U\<rparr> (\<lambda>_ _ m. m) (\<lambda>_ m. m) streams_spent"
  unfolding closing_laws_def by (simp add: stream_destroy_spent more_same) (simp add: streams_spent_def)

section \<open>The whole way of a stream\<close>

definition record_closed :: "nat \<Rightarrow> addr \<Rightarrow> 'w recorded \<Rightarrow> 'w recorded option" where
  "record_closed cb h s = Some (stream_loop.more_update (\<lambda>l. l @ [(h, None)]) s)"

lemma taken_off_more: "stream_loop.more (taken_off h s) = stream_loop.more s"
  "closing_handles (taken_off h s) = closing_handles s"
  by (simp_all add: taken_off_def Let_def handle_defs clear_flag_def)

text \<open>
  C13: A TCP or TTY handle closed by \<open>uv_close\<close> goes all the way: \<open>uv_close\<close> returns and has closed the
  descriptors the stream held (its own, the one accepted and those queued behind it), no other, and has
  called nobody; the next run of the closing handles returns and calls whoever is owed, once and in order:
  the connect request with \<open>UV_ECANCELED\<close>, the writes that are over with their own status, the other
  writes with \<open>UV_ECANCELED\<close>, the shutdown request with \<open>UV_ECANCELED\<close>, and the close callback after
  all of them.  The callbacks here only record.
\<close>

theorem stream_close_to_the_end:
  assumes "call_req U = record_req" and "stream_holds K fds h s" and "stream_owes s h" and "htype s h \<in> {UV_TCP, UV_TTY}"
    and "\<not> uv__is_closing s h" and "closing_handles s = None" and "call_close C = record_closed"
    and "\<And>s. close_other C h s = uv__stream_close K h s" and "\<And>s. destroy_other C h s = uv__stream_destroy U h s"
  shows "\<exists>s1 s2. uv_close C relax h (Some cb) s = Some s1 \<and> fds (os s1) = fds (os s) - set (held_fds s h) \<and>
    stream_loop.more s1 = stream_loop.more s \<and> uv__run_closing_handles C s1 = Some s2 \<and>
    stream_loop.more s2 = stream_loop.more s @
      (case connect_req s h of None \<Rightarrow> [] | Some r \<Rightarrow> [(r, Some UV_ECANCELED)]) @
      reported s (write_completed_queue s h) @
      map (\<lambda>r. (r, Some UV_ECANCELED)) (filter (\<lambda>r. req_cb s r \<noteq> None) (write_queue s h)) @
      (case shutdown_req s h of None \<Rightarrow> [] | Some r \<Rightarrow> [(r, Some UV_ECANCELED)]) @ [(h, None)]"
proof -
  let ?m = "marked h (Some cb) s"
  have r: "stream_ready K fds U h s" using assms(1-3) by (simp add: stream_ready_def)
  obtain s1 s2 where s1: "uv__stream_close K h ?m = Some s1" "stream_doomed U h s1" "uv_close C relax h (Some cb) s = Some (pended h s1)"
    and s2: "uv__stream_destroy U h (set_flag h UV_HANDLE_CLOSED ((pended h s1)\<lparr>closing_handles := None\<rparr>)) = Some s2"
      "uv__run_closing_handles C (pended h s1) = call_close C cb h (taken_off h s2) \<bind> run_closing_loop C None"
    using stream_ender.close_finishes [OF r _ assms(5,6,8,9)] assms(4) by blast
  have "stream_holds K fds h ?m" using assms(2) by (simp add: marked_holds)
  then have f: "fds (os s1) = fds (os ?m) - set (held_fds ?m h)" "stream_kept ?m s1"
    using stream_holds_close [of K fds h ?m] s1(1) by auto
  have held: "held_fds ?m h = held_fds s h" by (simp add: held_fds_def pending_fds_def marked_def Let_def set_flag_def)
  let ?t = "set_flag h UV_HANDLE_CLOSED ((pended h s1)\<lparr>closing_handles := None\<rparr>)"
  have "stream_kept s1 ?t" by (rule stream_keptI) (simp_all add: set_flag_def pended_def)
  then have k: "stream_kept s ?t" using f(2) marked_kept stream_kept_trans by blast
  have o: "stream_owes ?t h" using assms(3) stream_owes_kept [OF k] by simp
  have "has_flag ?t h UV_HANDLE_CLOSED" by (simp add: flag_simps)
  moreover have "io_pevents ?t h AND (POLLIN OR POLLOUT) = 0"
    using s1(2) by (simp add: stream_doomed_def set_flag_def pended_def)
  ultimately have more: "stream_loop.more s2 = stream_loop.more ?t @
      (case connect_req ?t h of None \<Rightarrow> [] | Some r \<Rightarrow> [(r, Some UV_ECANCELED)]) @
      reported ?t (write_completed_queue ?t h) @
      map (\<lambda>r. (r, Some UV_ECANCELED)) (filter (\<lambda>r. req_cb ?t r \<noteq> None) (write_queue ?t h)) @
      (case shutdown_req ?t h of None \<Rightarrow> [] | Some r \<Rightarrow> [(r, Some UV_ECANCELED)])"
    using stream_destroy_result [of U ?t h] o s2(1) assms(1) unfolding stream_owes_def by force
  let ?e = "stream_loop.more_update (\<lambda>l. l @ [(h, None)]) (taken_off h s2)"
  have "uv__run_closing_handles C (pended h s1) = Some ?e"
    using s2(2) assms(7) by (simp add: record_closed_def) (simp add: run_closing_loop.simps)
  moreover have "fds (os (pended h s1)) = fds (os s) - set (held_fds s h)"
    using f(1) held by (simp add: pended_def marked_io)
  moreover have "stream_loop.more (pended h s1) = stream_loop.more s"
    using f(2) marked_kept [of s h "Some cb"] by (simp add: pended_def stream_kept_def)
  moreover have "stream_loop.more ?e = stream_loop.more s2 @ [(h, None)]" by (simp add: taken_off_more)
  ultimately show ?thesis using s1(3) more k
    by (intro exI [of _ "pended h s1"] exI [of _ ?e]) (simp add: stream_kept_def same_writes_def reported_def)
qed

definition demo_closing :: "fd_table recorded" where
  "demo_closing = stream_loop.extend fd_stream_loop []\<lparr>active_reqs := 3, connect_req := \<lambda>_. Some 9,
     write_queue := \<lambda>_. [10], w_bufs := \<lambda>_. Some [''abc''], req_handle := \<lambda>_. 7, write_queue_size := \<lambda>_. 3,
     shutdown_req := \<lambda>_. Some 11\<rparr>"

lemma demo_closing_fields:
  "io_fd demo_closing = io_fd fd_stream_loop" "accepted_fd demo_closing = accepted_fd fd_stream_loop"
  "queued_fds demo_closing = queued_fds fd_stream_loop" "os demo_closing = os fd_stream_loop" "htype demo_closing = htype fd_stream_loop"
  "nwatchers demo_closing = nwatchers fd_stream_loop" "watchers demo_closing = watchers fd_stream_loop"
  "nfds demo_closing = nfds fd_stream_loop" "io_pevents demo_closing = io_pevents fd_stream_loop"
  "flags demo_closing = (\<lambda>_. 0)" "closing_handles demo_closing = None" "active_reqs demo_closing = 3" "connect_req demo_closing = (\<lambda>_. Some 9)"
  "write_queue demo_closing = (\<lambda>_. [10])" "write_completed_queue demo_closing = (\<lambda>_. [])" "shutdown_req demo_closing = (\<lambda>_. Some 11)"
  "req_cb demo_closing = (\<lambda>_. Some 1)" "stream_loop.more demo_closing = []" "w_index demo_closing = (\<lambda>_. 0)"
  "w_error demo_closing = (\<lambda>_. None)" "w_bufs demo_closing = (\<lambda>_. Some [''abc''])" "req_handle demo_closing = (\<lambda>_. 7)"
  "write_queue_size demo_closing = (\<lambda>_. 3)"
  by (simp_all add: demo_closing_def fd_stream_loop_def full_io_loop_def demo_io_loop_def empty_watcher_loop_def watcher_loop.defs
      io_loop.defs poll_loop.defs async_loop.defs core_loop.defs stream_loop.defs)

lemma demo_closing_ok: "stream_holds fd_stream_kernel (\<lambda>w. set (open_fds w)) 7 demo_closing" "stream_owes demo_closing 7"
proof -
  have "io_ok (fd_stream_loop\<lparr>io_fd := io_fd fd_stream_loop\<rparr>)" by (rule demo_fd_stream_io) (simp add: fd_stream_fields)
  moreover have "io_ok demo_closing = io_ok fd_stream_loop" by (rule io_ok_same) (simp_all add: demo_closing_fields)
  ultimately have "io_ok demo_closing" by simp
  moreover have "pending_ok demo_closing 7" "held_fds demo_closing 7 = [5, 8, 9]"
    by (simp_all add: pending_ok_def held_fds_def pending_fds_def demo_closing_fields fd_stream_fields)
  ultimately show "stream_holds fd_stream_kernel (\<lambda>w. set (open_fds w)) 7 demo_closing"
    by (simp add: stream_holds_def demo_fd_stream_laws demo_closing_fields fd_stream_fields)
  show "stream_owes demo_closing 7"
    by (simp add: stream_owes_def stream_ok_def request_ok_def demo_closing_fields unsent_def)
qed

theorem stream_close_to_the_end_witness:
  "\<exists>C s1 s2. uv_close C id 7 (Some 4) demo_closing = Some s1 \<and> set (open_fds (os s1)) = {7, 3} \<and> stream_loop.more s1 = [] \<and>
    uv__run_closing_handles C s1 = Some s2 \<and>
    stream_loop.more s2 = [(9, Some UV_ECANCELED), (10, Some UV_ECANCELED), (11, Some UV_ECANCELED), (7, None)]"
proof -
  define U :: "fd_table recorded stream_calls" where
    "U = \<lparr>call_alloc = (\<lambda>_ _ s. None), call_read = (\<lambda>_ _ _ s. Some s), call_connection = (\<lambda>_ _ _ s. Some s),
       call_req = record_req, udp_open = (\<lambda>_ _ s. None)\<rparr>"
  define C :: "fd_table recorded loop_calls" where
    "C = \<lparr>call_timer = \<lambda>_ _. Some, call_watcher_cb = \<lambda>_ _. Some, call_io = \<lambda>_ _ _. Some, call_close = record_closed,
       close_other = uv__stream_close fd_stream_kernel, destroy_other = uv__stream_destroy U\<rparr>"
  have held: "held_fds demo_closing 7 = [5, 8, 9]" "{9, 8, 7, 5, 3} - {5, 8, 9} = {7, 3 :: int}"
    by (auto simp: held_fds_def pending_fds_def demo_closing_fields fd_stream_fields)
  have "call_req U = record_req" "htype demo_closing 7 \<in> {UV_TCP, UV_TTY}" "\<not> uv__is_closing demo_closing 7"
    "closing_handles demo_closing = None" "call_close C = record_closed"
    by (simp_all add: U_def C_def demo_closing_fields fd_stream_fields is_closing_iff has_flag_def)
  note pre = this
  show ?thesis
    using stream_close_to_the_end [where U = U and C = C and relax = id and cb = 4, OF pre(1) demo_closing_ok pre(2-5)]
    by (intro exI [of _ C]) (auto simp: C_def held demo_closing_fields fd_stream_fields reported_def)
qed

end
