(* ===== verification/Accept.thy ===== *)
theory Accept
  imports Pipe PollHandle UdpIo
begin

text \<open>
  A descriptor that came over a pipe (\<open>uv_pipe_pending_type\<close> of src/unix/pipe.c) and the handle that takes it
  (\<open>uv_accept\<close> of src/unix/stream.c), with \<open>uv_udp_open\<close> of src/unix/udp.c in its place in \<open>uv_accept\<close>.  The lemmas
  show which types take the descriptor, and that it is held or closed in every case.
\<close>

definition udp_open_laws :: "'w udp_kernel \<Rightarrow> ('w \<Rightarrow> int set) \<Rightarrow> bool" where
  "udp_open_laws K fds \<longleftrightarrow> fd_laws (ufdK K) fds \<and> (\<forall>fd opt. keeps fds (k_setsockopt K fd opt)) \<and>
     (\<forall>fd. keeps fds (k_getpeername K fd))"

text \<open>\<open>uv_udp_open\<close> on a handle without a descriptor: the handle has it, or nothing but the world has changed.\<close>

lemma udp_open_result:
  assumes K: "udp_open_laws K fds" and s: "io_ok s" "io_fd s h = -1" "0 \<le> fd" "fd < 2 ^ 31 - 3"
  shows "\<exists>r w fl. fds w = fds (os s) \<and> uv_udp_open K h fd s =
    Some (r, if r = Inr () then s\<lparr>os := w, io_fd := (io_fd s)(h := fd), flags := (flags s)(h := fl)\<rparr> else s\<lparr>os := w\<rparr>)"
proof -
  have L: "fd_laws (ufdK K) fds" "fds (snd (k_setsockopt K x opt w)) = fds w" "fds (snd (k_getpeername K x w)) = fds w" for x opt w
    using K by (simp_all add: udp_open_laws_def keeps_def)
  have ex: "uv__fd_exists s fd = Some (fd < uint (nwatchers s) \<and> watcher_at s fd \<noteq> Some SNull)"
    by (rule fd_exists_cell [OF s(1,3,4)])
  show ?thesis
  proof (cases "fd < uint (nwatchers s) \<and> watcher_at s fd \<noteq> Some SNull")
    case True
    then have "uv_udp_open K h fd s = Some (Inl UV_EEXIST, s)" using ex s(2) by (simp add: uv_udp_open_def)
    then show ?thesis by (intro exI [of _ "Inl UV_EEXIST"] exI [of _ "os s"]) simp
  next
    case False
    obtain r1 w1 where nb: "uv__nonblock (ufdK K) fd True (os s) = Some (r1, w1)" "fds w1 = fds (os s)"
      using uv__nonblock_keeps [OF L(1), of fd True "os s"] by blast
    then have nb': "sys_prog (uv__nonblock (ufdK K) fd True) s = Some (r1, s\<lparr>os := w1\<rparr>)" by (simp add: sys_prog_def)
    obtain r2 w2 where so: "k_setsockopt K fd (SO_REUSEADDR True) w1 = (r2, w2)" "fds w2 = fds w1"
      using L(2) [of fd "SO_REUSEADDR True" w1] by (cases "k_setsockopt K fd (SO_REUSEADDR True) w1") simp
    obtain r3 w3 where gp: "k_getpeername K fd w2 = (r3, w3)" "fds w3 = fds w2"
      using L(3) [of fd w2] by (cases "k_getpeername K fd w2") simp
    have op: "uv_udp_open K h fd s = (case r1 of Inl e \<Rightarrow> Some (Inl e, s\<lparr>os := w1\<rparr>)
        | Inr _ \<Rightarrow> (case r2 of Inl e \<Rightarrow> Some (Inl e, s\<lparr>os := w2\<rparr>)
          | Inr _ \<Rightarrow> let (conn, t) = uv__udp_is_connected K h (s\<lparr>os := w2, io_fd := (io_fd s)(h := fd)\<rparr>)
                    in Some (Inr (), if conn then set_flag h UV_HANDLE_UDP_CONNECTED t else t)))"
      using ex False s(2) nb' so(1)
      by (simp add: uv_udp_open_def uv__set_reuse_def sys_def split: sum.splits)
    let ?t = "s\<lparr>os := w2, io_fd := (io_fd s)(h := fd)\<rparr>"
    have "\<exists>c w4. uv__udp_is_connected K h ?t = (c, s\<lparr>os := w4, io_fd := (io_fd s)(h := fd)\<rparr>) \<and> fds w4 = fds w2"
    proof (cases "htype s h = UV_UDP")
      case True
      have "uv_fileno h ?t = Inr fd \<or> isl (uv_fileno h ?t)" by (simp add: uv_fileno_def Let_def)
      then consider "uv_fileno h ?t = Inr fd" | e where "uv_fileno h ?t = Inl e" by (cases "uv_fileno h ?t") auto
      then have gs: "uv__getsockpeername (k_getpeername K) h ?t = (r3, s\<lparr>os := w3, io_fd := (io_fd s)(h := fd)\<rparr>) \<or>
          (\<exists>e. uv__getsockpeername (k_getpeername K) h ?t = (Inl e, ?t))"
        using gp(1) by cases (simp_all add: uv__getsockpeername_def sys_def)
      then have "uv_udp_getpeername K h ?t = (r3, s\<lparr>os := w3, io_fd := (io_fd s)(h := fd)\<rparr>) \<or>
          (\<exists>e. uv_udp_getpeername K h ?t = (Inl e, ?t))"
        unfolding uv_udp_getpeername_def .
      then show ?thesis using True gp(2) by (cases r3) (auto simp: uv__udp_is_connected_def)
    next
      case False
      then show ?thesis by (intro exI [of _ False] exI [of _ w2]) (simp add: uv__udp_is_connected_def)
    qed
    then obtain c w4 where con: "uv__udp_is_connected K h ?t = (c, s\<lparr>os := w4, io_fd := (io_fd s)(h := fd)\<rparr>)" "fds w4 = fds w2"
      by blast
    show ?thesis
    proof (cases r1)
      case (Inl e)
      then show ?thesis using op nb(2) by (intro exI [of _ "Inl e"] exI [of _ w1]) simp
    next
      case r1: (Inr u)
      show ?thesis
      proof (cases r2)
        case (Inl e)
        then show ?thesis using op r1 nb(2) so(2) by (intro exI [of _ "Inl e"] exI [of _ w2]) simp
      next
        case (Inr v)
        have "uv_udp_open K h fd s = Some (Inr (), s\<lparr>os := w4, io_fd := (io_fd s)(h := fd),
            flags := (flags s)(h := if c then flags s h OR UV_HANDLE_UDP_CONNECTED else flags s h)\<rparr>)"
          using op r1 Inr con(1) by (simp add: Let_def set_flag_def)
        then show ?thesis using nb(2) so(2) con(2)
          by (intro exI [of _ "Inr ()"] exI [of _ w4]
              exI [of _ "if c then flags s h OR UV_HANDLE_UDP_CONNECTED else flags s h"]) simp
      qed
    qed
  qed
qed

text \<open>\<open>uv_accept\<close> for a client of a type that takes descriptors: it has the pending one, or that one is closed.\<close>

lemma accept_takes:
  assumes K: "stream_fd_laws K fds" "udp_open_laws V fds" and U: "udp_open U = uv_udp_open V"
    and s: "pipe_ipc s server" "pending_ok s server" "accepted_fd s server > 2" "accepted_fd s server < 2 ^ 31 - 3"
      "accepted_fd s server \<in> fds (os s)"
    and io: "io_ok s" "0 \<le> io_fd s server" "io_fd s server < 2 ^ 31 - 3"
    and c: "client \<noteq> server" "io_fd s client = -1" "htype s client \<in> {UV_TCP, UV_NAMED_PIPE, UV_UDP}"
      "\<not> has_flag s client UV_HANDLE_TCP_NODELAY" "\<not> has_flag s client UV_HANDLE_TCP_KEEPALIVE"
  shows "\<exists>r s'. uv_accept K U server client s = Some (r, s') \<and>
    uv_pipe_pending_count s' server + 1 = uv_pipe_pending_count s server \<and>
    (if r = Inr () then io_fd s' client = accepted_fd s server \<and> fds (os s') = fds (os s)
     else htype s client = UV_UDP \<and> io_fd s' client = -1 \<and> fds (os s') = fds (os s) - {accepted_fd s server})"
proof -
  let ?fl = "UV_HANDLE_READABLE OR UV_HANDLE_WRITABLE :: u32"
  let ?fd = "accepted_fd s server"
  have flg: "\<not> has_flag (set_flag client ?fl s) client UV_HANDLE_TCP_NODELAY"
    "\<not> has_flag (set_flag client ?fl s) client UV_HANDLE_TCP_KEEPALIVE"
    using c(4,5) flag_or [of "flags s client" ?fl UV_HANDLE_TCP_NODELAY] flag_or [of "flags s client" ?fl UV_HANDLE_TCP_KEEPALIVE]
    by (simp_all add: has_flag_def set_flag_def)
  have op: "\<exists>r w fl. fds w = fds (os s) \<and> (r \<noteq> Inr () \<longrightarrow> htype s client = UV_UDP) \<and>
      (if htype s client = UV_UDP then udp_open U client ?fd s else uv__stream_open K client ?fd ?fl s) =
      Some (r, if r = Inr () then s\<lparr>os := w, io_fd := (io_fd s)(client := ?fd), flags := (flags s)(client := fl)\<rparr> else s\<lparr>os := w\<rparr>)"
  proof (cases "htype s client = UV_UDP")
    case True
    then show ?thesis using udp_open_result [OF K(2) io(1) c(2), of ?fd] s(3,4) U by auto
  next
    case False
    have "uv__stream_open K client ?fd ?fl s =
        Some (Inr (), s\<lparr>flags := (flags s)(client := flags s client OR ?fl), io_fd := (io_fd s)(client := ?fd)\<rparr>)"
      using c(2) s(3) flg by (simp add: uv__stream_open_def Let_def) (simp add: set_flag_def)
    then show ?thesis using False
      by (intro exI [of _ "Inr ()"] exI [of _ "os s"] exI [of _ "flags s client OR ?fl"]) simp
  qed
  then obtain r w fl where op: "fds w = fds (os s)" "r \<noteq> Inr () \<Longrightarrow> htype s client = UV_UDP"
      "(if htype s client = UV_UDP then udp_open U client ?fd s else uv__stream_open K client ?fd ?fl s) =
      Some (r, if r = Inr () then s\<lparr>os := w, io_fd := (io_fd s)(client := ?fd), flags := (flags s)(client := fl)\<rparr> else s\<lparr>os := w\<rparr>)"
    by blast
  define t where "t = (if r = Inr () then
      set_flag client UV_HANDLE_BOUND (s\<lparr>os := w, io_fd := (io_fd s)(client := ?fd), flags := (flags s)(client := fl)\<rparr>)
    else s\<lparr>os := snd (the (uv__close (fdK K) ?fd w))\<rparr>)"
  have L: "fd_laws (fdK K) fds" using K(1) by (simp add: stream_fd_laws_def)
  obtain w2 where w2: "uv__close (fdK K) ?fd w = Some (Inr (), w2)" "fds w2 = fds w - {?fd}"
    using uv__close_ok(1) [OF L, of ?fd w] s(3,5) op(1) by auto
  have eq: "uv_accept K U server client s = accept_done K server r t"
    using s(3) c(3) op(3) w2(1) unfolding uv_accept_def t_def
    by (cases r) (auto simp: sys_prog_def)
  have f: "accepted_fd t = accepted_fd s" "queued_fds t = queued_fds s" "pipe_ipc t = pipe_ipc s" "io_fd t server = io_fd s server"
    "io_fd t client = (if r = Inr () then ?fd else -1)" "fds (os t) = (if r = Inr () then fds (os s) else fds (os s) - {?fd})"
    using c(1,2) op(1) w2 by (simp_all add: t_def set_flag_def)
  have ok: "io_ok t"
  proof (cases "r = Inr ()")
    case True
    have same: "io_ok t = io_ok (s\<lparr>flags := flags s, os := os s, io_fd := (io_fd s)(client := ?fd)\<rparr>)"
      by (rule io_ok_cong) (simp_all add: t_def set_flag_def True)
    show ?thesis by (rule iffD2 [OF same io_ok_other_fd [OF io(1) c(2)]])
  next
    case False
    have "io_ok t = io_ok s" by (rule io_ok_cong) (simp_all add: t_def False)
    then show ?thesis using io(1) by simp
  qed
  have p: "pending_ok t server" "pending_fds t server = ?fd # tl (pending_fds s server)"
    using s pending_cong [of t server s] f(1,2) by (auto simp: pending_fds_def)
  obtain s' where s': "accept_done K server r t = Some (r, s')" "pending_fds s' server = tl (pending_fds s server)"
    "pending_ok s' server" "io_fd s' = io_fd t" "fds (os s') = fds (os t)"
    using accept_done_next [OF p ok _ _ K(1), of r] io(2,3) f(4) by auto
  have ipc: "pipe_ipc s' server" using accept_done_keeps_ipc [OF s'(1)] s(1) f(3) by simp
  have "pending_fds s server \<noteq> []" using s(3) by (simp add: pending_fds_def)
  then have "uv_pipe_pending_count s' server + 1 = uv_pipe_pending_count s server"
    using pending_count_length [OF ipc s'(3)] pending_count_length [OF s(1,2)] s'(2) by simp
  then show ?thesis using eq s'(1,4,5) f(5,6) op(2) by (intro exI [of _ r] exI [of _ s']) auto
qed

section \<open>Properties\<close>


text \<open>The pending descriptor is a UDP socket.\<close>

definition datagram_kernel :: "bool pipe_kernel" where
  "datagram_kernel = tcp_kernel.extend
     (one_fd_kernel\<lparr>k_getsockname := \<lambda>_ w. (Inr some_address, w)\<rparr>)
     (pipe_kernel.fields (\<lambda>_ w. (Inr (), w)) (\<lambda>_ w. (Inr 0, w)) (\<lambda>_ _ w. (Inr (), w)) (\<lambda>_ w. (False, w))
        (\<lambda>_ w. (Inr S_IFSOCK, w)) (\<lambda>_ w. (Inr 2, w)))"

definition datagram_udp :: "bool udp_kernel" where
  "datagram_udp = tcp_kernel.extend one_fd_kernel
     (udp_kernel.fields (\<lambda>_ _ w. (Inr 0, w)) (\<lambda>_ _ w. (Inr 0, w)) (\<lambda>_ _ w. (Inl UV_EAGAIN, w)) (\<lambda>_ _ w. (Inl UV_EAGAIN, w))
        (\<lambda>_ _ w. (Inr (), w)) (\<lambda>_ w. (0, w)))"

lemmas datagram_defs = datagram_kernel_def datagram_udp_def one_fd_defs pipe_kernel.defs udp_kernel.defs

lemma datagram_laws:
  "stream_fd_laws (pstK datagram_kernel) (\<lambda>w. if w then {5} else {})" "udp_open_laws datagram_udp (\<lambda>w. if w then {5} else {})"
  by (simp_all add: udp_open_laws_def stream_fd_laws_def fd_laws_def datagram_defs keeps_def opens_def opened_def one_fd_def ends_no_intr)

definition opening_calls :: "(bool, unit) udp_loop_scheme stream_calls" where
  "opening_calls = \<lparr>call_alloc = \<lambda>_ _ s. Some (None, s), call_read = \<lambda>_ _ _ s. Some s, call_connection = \<lambda>_ _ _ s. Some s,
     call_req = \<lambda>_ _ _ s. Some s, udp_open = uv_udp_open datagram_udp\<rparr>"

definition passing_loop :: "bool udp_loop" where
  "passing_loop = (bare_loop True (-1) (udp_loop.fields (\<lambda>_. None) (\<lambda>_. 0) (\<lambda>_. 0) (\<lambda>_. some_address) (\<lambda>_. Inr 0) True True True))
     \<lparr>htype := \<lambda>_. UV_UDP, pipe_ipc := \<lambda>_. True, accepted_fd := \<lambda>_. 5, io_fd := (\<lambda>_. -1)(7 := 6)\<rparr>"


end
