(* ===== verification/Spec2Isabelle.thy ===== *)
theory Spec2Isabelle
  imports Timer Strings Idna Inet RandomBytes Core Threadpool Errno Scandir Osinfo UdpIo Signal Loop Pipe PollHandle FsPoll Closing Accept
begin

text \<open>
  A model of libuv, the event loop library under src/libuv, in its Linux build, and of its correctness.

  \<^bold>\<open>The program and how its parts interact.\<close>  A loop (\<open>uv_loop_t\<close>) serves handles and requests.  A turn of
  \<open>uv_run\<close> (src/unix/core.c) runs the timers that are due, the watchers queued by \<open>uv__io_feed\<close>, the idle
  and prepare handles, waits in \<open>uv__io_poll\<close> (src/unix/epoll.c) for descriptors, runs the callbacks of their
  watchers, the check handles and the handles that are being closed.  Streams, UDP handles, poll handles, signals
  and wakeups from other threads are I/O watchers whose callback \<open>uv__io_poll\<close> calls.  The thread pool runs
  work outside the loop and reports through an async handle.  \<open>uv_close\<close> marks a handle, hands it to the
  function of its type and puts it on the list of closing handles, from where \<open>uv__finish_close\<close> ends it and
  calls the close callback.

  \<^bold>\<open>Theories and the code they model\<close> (paths below src/libuv/src).

  \<^item> \<open>Prelude\<close>: machine words, \<open>uv_errno\<close>, assertions, the collection \<open>bind_splits\<close> and lemmas
    on lists, words and options that the theories share.
  \<^item> \<open>Queue\<close> is queue.h on a store of links, \<open>Heap\<close> is heap-inl.h on a store of nodes, \<open>Rotate\<close> the
    loop over a queue whose body may change it, which loop-watcher.c, async.c and uv-common.c repeat.
  \<^item> \<open>Handle\<close>: the macros of uv-common.h on flags, active handles and requests; \<open>Timer\<close>: timer.c;
    \<open>LoopWatcher\<close>: unix/loop-watcher.c; \<open>IoLoop\<close>: \<open>uv__io_init\<close> to \<open>uv__fd_exists\<close> of
    unix/core.c; \<open>Poll\<close>: unix/epoll.c; \<open>Async\<close>: unix/async.c; \<open>Core\<close>: \<open>uv_close\<close>, the closing
    handles and \<open>uv_run\<close> of unix/core.c; \<open>Loop\<close>: unix/loop.c and what uv-common.c and
    unix/linux-core.c do for it; \<open>Threadpool\<close>: threadpool.c.
  \<^item> \<open>Sysfd\<close>: the descriptor helpers of unix/core.c; \<open>Osinfo\<close>: what unix/core.c asks the system for;
    \<open>RandomBytes\<close>: random.c and the sources of unix/random-*.c.
  \<^item> \<open>Streams\<close>, \<open>StreamWrite\<close>, \<open>StreamRead\<close>: unix/stream.c; \<open>Tcp\<close>: unix/tcp.c; \<open>Pipe\<close>:
    unix/pipe.c; \<open>Udp\<close>, \<open>UdpIo\<close>: unix/udp.c; \<open>Accept\<close>: what pipe.c, stream.c and udp.c do
    together with a descriptor received over a pipe; \<open>PollHandle\<close>: unix/poll.c; \<open>Signal\<close>:
    unix/signal.c; \<open>FsPoll\<close>: fs-poll.c with \<open>uv_fs_stat\<close>; \<open>Closing\<close>: \<open>uv_close\<close> with the
    closing functions of these files, from the call to the close callback.
  \<^item> \<open>Strings\<close>: strscpy.c and strtok.c; \<open>Idna\<close>: idna.c; \<open>Inet\<close>: inet.c; \<open>Memory\<close>,
    \<open>Errno\<close>, \<open>Scandir\<close>: the allocation functions, error codes and directory entries of uv-common.c.

  \<^bold>\<open>State and operations.\<close>  The state of a loop and of all its handles is one record, extended from
  theory to theory as the files build on each other: \<open>uv_loop\<close> (\<open>Handle\<close>), \<open>timer_loop\<close>,
  \<open>watcher_loop\<close>, \<open>io_loop\<close>, \<open>poll_loop\<close>, \<open>async_loop\<close>, \<open>core_loop\<close>, and from there
  \<open>stream_loop\<close> (with \<open>tcp_loop\<close>, \<open>pipe_loop\<close> and \<open>udp_loop\<close> over it), \<open>signal_loop\<close> (with
  \<open>loop\<close> over it), \<open>poll_handle_loop\<close> and \<open>fs_poll_loop\<close>.  A handle or request is an address; a field
  of a C struct is a field of the record that maps addresses to values, a field of \<open>uv_loop_t\<close> is a plain
  field, an embedded \<open>QUEUE\<close> is a node of the link store.  An operation keeps the name of its C function
  and maps the state to the new state and the value returned, on every record that extends the one it
  needs.  A status or return code is \<open>Inl e\<close> for \<open>UV_e\<close> and \<open>Inr\<close> for success, or \<open>Some e\<close>
  and \<open>None\<close> where a callback gets it.

  Code that is not under src/ is a parameter.  System calls are the fields of kernel records (\<open>fd_kernel\<close>,
  \<open>io_kernel\<close>, \<open>stream_kernel\<close>, \<open>signal_kernel\<close>, ...), functions on the state of the system, the field
  \<open>os\<close>; what the theorems need of them is a named law (\<open>fd_laws\<close>, \<open>stream_fd_laws\<close>, \<open>epoll_laws\<close>,
  \<open>signal_laws\<close>, \<open>udp_recv_laws\<close>, \<open>wire\<close>, ...), which the witnesses show of a concrete system.  Callbacks of the user are the fields of call
  records (\<open>loop_calls\<close>, \<open>stream_calls\<close>, \<open>udp_calls\<close>, \<open>fs_poll_calls\<close>) and get the whole
  state; a theorem that speaks about what the user is told lets them record it in the field \<open>more\<close>.
  Steps of several threads are interleaved as events of a step relation (\<open>Async\<close>, \<open>Threadpool\<close>).

  \<^bold>\<open>Errors and loops that may not end.\<close>  The result of an operation is \<open>None\<close> when the C code
  aborts, fails an assertion, follows a wild pointer, calls \<open>NULL\<close> or never returns.  Every loop whose
  end is not structural is a \<open>partial_function (option)\<close>: no fuel is used, and that the loop returns is
  proved by theorems whose conclusion is \<open>\<exists>s'. f s = Some s'\<close>.

  \<^bold>\<open>Interfaces.\<close>  Four locales state what a client relies on: \<open>queue_store\<close> (the macros of queue.h as
  operations on disjoint lists; interpreted by the link store), \<open>prio_queue\<close> (a heap whose minimum is
  dequeued; interpreted by heap-inl.h), \<open>closer\<close> and \<open>ender\<close> (what \<open>uv_close\<close> and
  \<open>uv__finish_close\<close> rely on of a handle type; interpreted by stream.c, pipe.c, udp.c, poll.c and
  signal.c).

  \<^bold>\<open>What the lemmas show.\<close>
  \<^item> Data structures: the queue macros implement append, delete and transfer on lists; the heap operations keep a
    complete ordered tree and the set of its nodes.
  \<^item> The loop: the array of watchers stays consistent with the handles; timers fire in the order of their
    due time and start; each prepare, check and idle handle is called once a turn; a poll without a timeout
    returns unless epoll refuses a descriptor; a loop with only closing handles ends after one turn; making and closing
    a loop gives everything back but the lock of the signals, which the first loop makes for the whole process.
  \<^item> Threads: no wakeup is lost and no send aborts, for every interleaving; each request of the thread
    pool runs and is reported once or is cancelled and reported, slow work never takes more than half of the
    threads, a thread sleeps only without work.
  \<^item> Streams and datagrams: bytes are written and read in order, also across partial writes; datagrams are
    sent once and shown once, in order, and errors of receiving are reported; received descriptors are kept in order or
    closed, and a client of the type they are told to have accepts them; closing reports every request exactly once and
    before the close callback.
  \<^item> Setting up TCP, pipe, UDP and poll handles: for every outcome of the system calls the handle owns the only
    descriptor opened; errors that are kept for later are told once.
  \<^item> Signals: the dispositions of the process follow the started handles; a signal reaches each watcher once, as long as the
    signal pipe has room.
  \<^item> Watching a path: the callbacks are those of a reference function on the results of \<open>stat\<close>; the contexts are
    freed once, with the last timer.
  \<^item> Conversions: UTF-8 and Punycode stay within their buffers and decode what is well-formed; addresses are
    printed and parsed back.

  \<^bold>\<open>Bounds.\<close>  Words have the width of the C type on a 64-bit Linux machine (\<open>int\<close> that only counts small
  things is \<open>int\<close> or \<open>nat\<close> where a hypothesis or an invariant keeps it in range).  Timeouts saturate as the
  code does; \<open>nfds\<close>, \<open>nwatchers\<close>, the counts of active handles and requests wrap as \<open>unsigned int\<close>.

  \<^bold>\<open>Not modelled.\<close>  The files for other systems (unix/aix.c, unix/kqueue.c, unix/darwin.c, ... and win/)
  and the branches the preprocessor leaves out on Linux; unix/linux-inotify.c, unix/process.c, the rest of
  unix/fs.c, unix/getaddrinfo.c and unix/getnameinfo.c, whose requests wrap calls of the system or of the C
  library; unix/thread.c, wrappers of pthread functions; the terminal modes of unix/tty.c; the parsing of
  /proc in unix/linux-core.c; include/uv/tree.h, a third-party copy, whose trees are the ordered lists its
  macros promise; \<open>uv__print_handles\<close>, which writes to a stdio stream, and accessors of one field.
  Whether a block is still allocated is modelled for the contexts of fs-poll.c: its functions have no result
  when they use or free one that is not.  For the other blocks that the code frees (the array of watchers, buffers, the queue of
  received descriptors) only their presence is part of the state; the memory of the user is not.
\<close>

end
